(* ===== verification/Prelude.thy ===== *)
theory Prelude
  imports Main "HOL-Library.Word"
begin

unbundle bit_operations_syntax

text \<open>
  Shared vocabulary of the development: the machine word types of the C sources, their reading
  as natural numbers (the collection \<open>unat_arith_rules\<close>), the compiler builtin
  \<open>__builtin_clzll\<close>, power-of-two masks, and a few list facts.  Everything here is
  about arithmetic the components share; nothing models a particular source file.
\<close>

section \<open>Machine words\<close>

type_synonym u8 = "8 word"
type_synonym u16 = "16 word"
type_synonym u32 = "32 word"
type_synonym u64 = "64 word"

named_theorems unat_arith_rules
  \<open>rules that read word expressions as natural numbers\<close>

lemma unat_plus_small:
  "unat a + unat b < 2 ^ LENGTH('a) \<Longrightarrow> unat (a + b) = unat a + unat b"
  for a b :: "'a::len word"
  by (simp add: unat_add_lem)

lemma unat_minus_small: "b \<le> a \<Longrightarrow> unat (a - b) = unat a - unat b"
  for a b :: "'a::len word"
  by (rule unat_sub)

lemma unat_times_small:
  "unat a * unat b < 2 ^ LENGTH('a) \<Longrightarrow> unat (a * b) = unat a * unat b"
  for a b :: "'a::len word"
  by (simp add: unat_mult_lem)

lemma unat_shiftr: "unat (drop_bit n w) = unat w div 2 ^ n"
  for w :: "'a::len word"
  by (simp only: unat_drop_bit_eq) (simp only: drop_bit_eq_div)

lemma unat_shiftl: "unat (push_bit n w) = (unat w * 2 ^ n) mod 2 ^ LENGTH('a)"
  for w :: "'a::len word"
  by (metis push_bit_eq_mult unat_of_nat word_of_nat_eq_iff of_nat_mult of_nat_numeral
      of_nat_power of_nat_unat ucast_id)

lemma unat_shiftl_small:
  "unat w * 2 ^ n < 2 ^ LENGTH('a) \<Longrightarrow> unat (push_bit n w) = unat w * 2 ^ n"
  for w :: "'a::len word"
  by (simp add: unat_shiftl)

lemma unat_of_nat_small: "n < 2 ^ LENGTH('a) \<Longrightarrow> unat (of_nat n :: 'a::len word) = n"
  by (simp add: unat_of_nat)

lemma unat_and_mask: "unat (w AND mask n) = unat w mod 2 ^ n"
  for w :: "'a::len word"
  by (metis take_bit_eq_mask unsigned_take_bit_eq take_bit_eq_mod)

declare unat_shiftr [unat_arith_rules] unat_and_mask [unat_arith_rules]

lemma word_and_not_mask: "w AND NOT (mask n) = w - (w AND mask n)"
  for w :: "'a::len word"
proof -
  have "w AND NOT (mask n) = push_bit n (drop_bit n w)"
    by (rule bit_word_eqI) (auto simp: bit_simps)
  moreover have "push_bit n (drop_bit n w) + take_bit n w = w"
    by (rule bits_ident)
  ultimately show ?thesis
    by (simp add: take_bit_eq_mask eq_diff_eq)
qed

lemma unat_and_not_mask: "unat (w AND NOT (mask n)) = unat w div 2 ^ n * 2 ^ n"
  for w :: "'a::len word"
  by (simp add: word_and_not_mask unat_sub word_and_le2 unat_and_mask minus_mod_eq_div_mult)

lemma mask_numerals:
  "(127 :: u64) = mask 7" "(7 :: u64) = mask 3" "(15 :: u64) = mask 4" "(63 :: u64) = mask 6"
  "(3 :: u64) = mask 2"
  by (simp_all add: mask_eq_exp_minus_1)

lemma unat_align_down: "unat (w AND NOT 127) = unat w div 128 * 128"
  for w :: u64
  using unat_and_not_mask[of w 7] by (simp add: mask_eq_exp_minus_1)

lemma unat_u64_less: "unat (x :: u64) < 2 ^ 64"
proof -
  have "unat x < 2 ^ LENGTH(64)" by (rule unsigned_less)
  then show ?thesis by simp
qed

lemma unat_u32_less: "unat (x :: u32) < 2 ^ 32"
proof -
  have "unat x < 2 ^ LENGTH(32)" by (rule unsigned_less)
  then show ?thesis by simp
qed

lemma unat_u32_of_u64: "unat (ucast (x :: u64) :: u32) = unat x mod 2 ^ 32"
  by (simp add: unsigned_ucast_eq take_bit_eq_mod)

lemma unat_u32_of_u16 [simp]: "unat (ucast (w :: u16) :: u32) = unat w"
proof -
  have "unat w < 2 ^ 16" using unsigned_less[of w] by simp
  then show ?thesis by (simp add: unsigned_ucast_eq take_bit_eq_mod)
qed

lemma unat_up: "unat x + 1 < 2 ^ LENGTH('a) \<Longrightarrow> unat (x + 1) = unat x + 1" for x :: "'a::len word"
  by (subst unat_plus_small) simp_all

lemma unat_down: "0 < unat x \<Longrightarrow> unat (x - 1) = unat x - 1" for x :: "'a::len word"
  by (metis gr_implies_not_zero unat_0 unat_minus_one)

lemma unat_u64_of_u32 [simp]: "unat (ucast (x :: u32) :: u64) = unat x"
  using unat_u32_less[of x] by (simp add: unsigned_ucast_eq take_bit_eq_mod)

section \<open>Binary logarithm and powers of two\<close>

text \<open>
  \<open>flog2 n\<close> is the position of the most significant set bit of a positive \<open>n\<close>.  The
  compiler builtin \<open>__builtin_clzll\<close> counts the zero bits above it in a 64-bit word; the
  sources only call it on non-zero arguments.
\<close>

fun flog2 :: "nat \<Rightarrow> nat" where
  "flog2 n = (if n < 2 then 0 else Suc (flog2 (n div 2)))"

declare flog2.simps [simp del]

definition clzll :: "u64 \<Rightarrow> nat" where
  "clzll x = 63 - flog2 (unat x)"

lemma flog2_small [simp]: "n < 2 \<Longrightarrow> flog2 n = 0"
  by (simp add: flog2.simps)

lemma flog2_step: "2 \<le> n \<Longrightarrow> flog2 n = Suc (flog2 (n div 2))"
  by (simp add: flog2.simps)

lemma flog2_double [simp]: "0 < n \<Longrightarrow> flog2 (2 * n) = Suc (flog2 n)"
  by (simp add: flog2_step)

lemma flog2_double_Suc [simp]: "0 < n \<Longrightarrow> flog2 (Suc (2 * n)) = Suc (flog2 n)"
  by (simp add: flog2_step)

lemma flog2_lower: "0 < n \<Longrightarrow> 2 ^ flog2 n \<le> n"
proof (induction n rule: flog2.induct)
  case (1 n)
  show ?case
  proof (cases "n < 2")
    case False
    with 1 have "2 ^ flog2 (n div 2) \<le> n div 2" by simp
    with False show ?thesis by (simp add: flog2_step)
  qed (use 1 in simp)
qed

lemma flog2_upper: "n < 2 ^ Suc (flog2 n)"
proof (induction n rule: flog2.induct)
  case (1 n)
  show ?case
  proof (cases "n < 2")
    case False
    with 1 have "n div 2 < 2 ^ Suc (flog2 (n div 2))" by simp
    with False show ?thesis by (simp add: flog2_step)
  qed simp
qed

lemma flog2_unique: "2 ^ k \<le> n \<Longrightarrow> n < 2 ^ Suc k \<Longrightarrow> flog2 n = k"
proof (induction k arbitrary: n)
  case 0
  then show ?case by simp
next
  case (Suc k)
  then have "flog2 (n div 2) = k" by (intro Suc.IH) simp_all
  moreover have "2 * 1 \<le> 2 * (2::nat) ^ k" by (intro mult_le_mono) simp_all
  then have "2 \<le> n" using Suc.prems(1) unfolding power_Suc by linarith
  ultimately show ?case by (simp add: flog2_step)
qed

lemma flog2_power [simp]: "flog2 (2 ^ k) = k"
  by (rule flog2_unique) simp_all

lemma flog2_mono: "m \<le> n \<Longrightarrow> flog2 m \<le> flog2 n"
proof (cases "m = 0")
  case False
  assume "m \<le> n"
  with False have "(2::nat) ^ flog2 m < 2 ^ Suc (flog2 n)"
    using flog2_lower[of m] flog2_upper[of n] by linarith
  then show ?thesis by (simp del: power_Suc)
qed simp

lemma flog2_le_iff: "0 < n \<Longrightarrow> k \<le> flog2 n \<longleftrightarrow> 2 ^ k \<le> n"
  using flog2_lower[of n] flog2_mono[of "2 ^ k" n]
  by (auto intro: order_trans[OF power_increasing])

lemma flog2_unat64: "flog2 (unat (x :: u64)) \<le> 63"
proof -
  have "unat x < 2 ^ LENGTH(64)" by (rule unsigned_less)
  then have "flog2 (unat x) \<le> flog2 (2 ^ 64 - 1)"
    by (intro flog2_mono) simp
  also have "\<dots> = 63" by (rule flog2_unique) simp_all
  finally show ?thesis .
qed

end
