(* ===== verification/Sheap_Core.thy ===== *)
theory Sheap_Core
  imports Prelude
begin

text \<open>
  \<open>sdk/libsheap/src/core/heap.c\<close>: the layout arithmetic of the shared heap and the single
  read-modify-write steps of its key table.  All sizes and addresses are 64-bit words with the
  wrap-around of the C code.  Error codes are the constructors of \<open>sheap_error\<close>; an
  \<open>int\<close> result is \<open>Inl e\<close> for a \<open>CELL_SHEAP_ERROR_*\<close> code and
  \<open>Inr\<close> for \<open>CELL_OK\<close>; \<open>-1\<close> of the geometry functions is \<open>None\<close>.
\<close>

section \<open>Layout arithmetic\<close>

datatype sheap_error = SHEAP_INVAL | SHEAP_ALIGN | SHEAP_FAULT | SHEAP_BUSY | SHEAP_SHORTAGE

record sheap_geometry =
  s_tree :: u64
  s_buffer :: u64
  s_root :: u64
  n_nodes :: u32

definition sheap_ceil_pow2 :: "u64 \<Rightarrow> u64" where
  "sheap_ceil_pow2 x =
     (if x \<le> 1 then x
      else if x > push_bit 63 1 then 0
      else push_bit (64 - clzll (x - 1)) 1)"

definition sheap_floor_log2 :: "u64 \<Rightarrow> nat" where
  "sheap_floor_log2 x = 63 - clzll x"

definition sheap_plain_span :: "u64 \<Rightarrow> u64" where
  "sheap_plain_span sz = (sz - 128) AND NOT 127"

definition sheap_keyed_span :: "u64 \<Rightarrow> u64" where
  "sheap_keyed_span sz = (sz - 128 - 2048) AND NOT 127"

definition sheap_check_init_args :: "u64 \<Rightarrow> u64 \<Rightarrow> u32 \<Rightarrow> sheap_error + unit" where
  "sheap_check_init_args ea sz tag =
     (if ea = 0 \<or> sz < 0x800 \<or> sz > push_bit 39 1 \<or> tag > 31 then Inl SHEAP_INVAL
      else if ea AND 127 \<noteq> 0 then Inl SHEAP_ALIGN
      else Inr ())"

definition sheap_geometry_of :: "u64 \<Rightarrow> sheap_geometry option" where
  "sheap_geometry_of tree_and_heap =
     (let estimate = drop_bit 7 tree_and_heap in
      if estimate = 0 then None
      else let max_id = estimate + sheap_ceil_pow2 estimate - 1 in
      if max_id > 0xffffffff then None
      else let bits = drop_bit 3 (2 * max_id + 2 + 7);
               tree_bytes = (bits + 127) AND NOT 127 in
      if tree_bytes > tree_and_heap then None
      else let buffer = tree_and_heap - tree_bytes;
               leaves = drop_bit 7 buffer in
      Some \<lparr> s_tree = tree_bytes,
             s_buffer = buffer,
             s_root = (if buffer \<noteq> 0 then sheap_ceil_pow2 buffer else 0),
             n_nodes = (if leaves \<noteq> 0 then ucast (leaves + sheap_ceil_pow2 leaves - 1) else 0) \<rparr>)"

definition sheap_init_geometry :: "bool \<Rightarrow> u64 \<Rightarrow> sheap_geometry option" where
  "sheap_init_geometry keyed sz =
     (if sz < 128 + (if keyed then 2048 else 0) then None
      else sheap_geometry_of (if keyed then sheap_keyed_span sz else sheap_plain_span sz))"

definition sheap_size_to_row :: "u64 \<Rightarrow> u64 \<Rightarrow> nat option" where
  "sheap_size_to_row sz root =
     (let sz = (if sz = 0 then 1 else sz) in
      if sz > root \<or> root < 128 then None
      else let sz = (if sz < 128 then 128 else sz) in
      Some (clzll (sz - 1) - clzll (root - 1)))"

definition sheap_node_offset :: "u32 \<Rightarrow> u64 \<Rightarrow> u64" where
  "sheap_node_offset node root =
     (let row = sheap_floor_log2 (ucast node) in
      ucast (node - push_bit row 1) * drop_bit row root)"

definition sheap_offset_to_leaf :: "u64 \<Rightarrow> u64 \<Rightarrow> u64" where
  "sheap_offset_to_leaf offset root = drop_bit 7 offset + drop_bit 7 root"

section \<open>Facts about the arithmetic\<close>

text \<open>The natural-number reading of \<open>__sheap_ceil_pow2\<close>.\<close>

definition ceil2 :: "nat \<Rightarrow> nat" where
  "ceil2 n = (if n \<le> 1 then n else 2 ^ Suc (flog2 (n - 1)))"

lemma ceil2_ge: "n \<le> ceil2 n"
  using flog2_upper[of "n - 1"] by (auto simp: ceil2_def)

lemma ceil2_less: "0 < n \<Longrightarrow> ceil2 n < 2 * n"
  using flog2_lower[of "n - 1"] by (auto simp: ceil2_def)

lemma ceil2_least: "n \<le> 2 ^ k \<Longrightarrow> ceil2 n \<le> 2 ^ k"
proof (cases "n \<le> 1")
  case False
  assume "n \<le> 2 ^ k"
  with False have "(2::nat) ^ flog2 (n - 1) < 2 ^ k"
    using flog2_lower[of "n - 1"] by linarith
  then have "Suc (flog2 (n - 1)) \<le> k" by simp
  then show ?thesis using False by (simp add: ceil2_def del: power_Suc)
qed (simp add: ceil2_def)

lemma ceil2_power [simp]: "ceil2 (2 ^ k) = 2 ^ k"
  using ceil2_ge[of "2 ^ k"] ceil2_least[of "2 ^ k" k] by simp

lemma ceil2_is_power: "0 < n \<Longrightarrow> \<exists>k. ceil2 n = 2 ^ k"
  by (auto simp: ceil2_def intro: exI[of _ 0] exI[of _ "Suc (flog2 (n - 1))"] simp del: power_Suc)

lemma unat_ceil_pow2:
  assumes "unat x \<le> 2 ^ 63"
  shows "unat (sheap_ceil_pow2 x) = ceil2 (unat x)"
proof (cases "x \<le> 1")
  case True
  then show ?thesis by (auto simp: sheap_ceil_pow2_def ceil2_def word_le_nat_alt)
next
  case False
  then have x: "1 < unat x" by (simp add: word_le_nat_alt)
  have "\<not> push_bit 63 1 < x"
    using assms by (simp add: word_less_nat_alt)
  moreover have m: "unat (x - 1) = unat x - 1"
    using x by (intro unat_minus_one) auto
  moreover have le: "flog2 (unat x - 1) \<le> 62"
  proof -
    have "flog2 (unat x - 1) \<le> flog2 (2 ^ 63 - 1)" using assms by (intro flog2_mono) simp
    also have "\<dots> = 62" by (rule flog2_unique) simp_all
    finally show ?thesis .
  qed
  ultimately have "unat (sheap_ceil_pow2 x) = unat (push_bit (Suc (flog2 (unat x - 1))) (1 :: u64))"
    using False by (simp add: sheap_ceil_pow2_def clzll_def Suc_diff_le)
  also have "\<dots> = 2 ^ Suc (flog2 (unat x - 1))"
    using le power_strict_increasing[of "Suc (flog2 (unat x - 1))" 64 "2::nat"]
    by (subst unat_shiftl_small) simp_all
  finally show ?thesis using x by (simp add: ceil2_def)
qed

text \<open>The geometry in natural numbers: \<open>E\<close> 128-byte units in the span.\<close>

definition geo_max_id :: "nat \<Rightarrow> nat" where
  "geo_max_id E = E + ceil2 E - 1"

definition geo_tree_bytes :: "nat \<Rightarrow> nat" where
  "geo_tree_bytes m = ((2 * m + 9) div 8 + 127) div 128 * 128"

lemma geo_tree_bytes_dvd [simp]: "128 dvd geo_tree_bytes m"
  by (simp add: geo_tree_bytes_def)

lemma geo_tree_bytes_holds: "2 * (m + 1) \<le> 8 * geo_tree_bytes m"
proof -
  define q where "q = (2 * m + 9) div 8"
  have "2 * (m + 1) \<le> 8 * q" unfolding q_def by presburger
  moreover have "q \<le> (q + 127) div 128 * 128"
    using div_mult_mod_eq[of "q + 127" 128] mod_less_divisor[of 128 "q + 127", OF zero_less_numeral] by linarith
  ultimately show ?thesis by (simp add: geo_tree_bytes_def q_def)
qed

lemma geo_tree_bytes_holds_right:
  assumes "even m" shows "2 * (m + 2) \<le> 8 * geo_tree_bytes m"
proof -
  from assms obtain j where "m = 2 * j" by blast
  moreover obtain k where "geo_tree_bytes m = 128 * k" using geo_tree_bytes_dvd by (rule dvdE)
  moreover have "2 * (2 * j + 1) \<le> 8 * (128 * k)"
    using geo_tree_bytes_holds[of m] calculation by simp
  then have "j < 256 * k" by simp
  ultimately show ?thesis by simp
qed

lemma geometry_estimate_bounds:
  fixes span :: u64
  defines "E \<equiv> unat span div 128"
  shows "unat (drop_bit 7 span) = E" "E < 2 ^ 57"
    "unat (sheap_ceil_pow2 (drop_bit 7 span)) = ceil2 E" "ceil2 E \<le> 2 ^ 57"
proof -
  show e: "unat (drop_bit 7 span) = E" by (simp add: E_def unat_shiftr)
  show lt: "E < 2 ^ 57" using unat_u64_less[of span] by (simp add: E_def)
  show "unat (sheap_ceil_pow2 (drop_bit 7 span)) = ceil2 E"
    using lt by (subst unat_ceil_pow2) (simp_all add: e)
  show "ceil2 E \<le> 2 ^ 57" using lt by (intro ceil2_least) simp
qed

lemma unat_node_count:
  fixes span :: u64
  assumes "128 \<le> unat span"
  shows "unat (drop_bit 7 span + sheap_ceil_pow2 (drop_bit 7 span) - 1)
      = geo_max_id (unat span div 128)"
proof -
  note b = geometry_estimate_bounds[of span]
  have "unat (drop_bit 7 span + sheap_ceil_pow2 (drop_bit 7 span))
      = unat span div 128 + ceil2 (unat span div 128)"
    using b by (subst unat_plus_small) simp_all
  moreover have "0 < unat span div 128" using assms by simp
  ultimately show ?thesis
    by (subst unat_minus_one) (auto simp: geo_max_id_def)
qed

lemma unat_tree_bytes:
  assumes "unat m \<le> 0xffffffff"
  shows "unat ((drop_bit 3 (2 * m + 2 + 7) + 127) AND NOT 127) = geo_tree_bytes (unat (m :: u64))"
proof -
  have "unat (2 * m) = 2 * unat m"
    using assms by (subst unat_times_small) simp_all
  then have "unat (2 * m + 2 + 7) = 2 * unat m + 9"
    using assms by (simp add: unat_plus_small)
  then have "unat (drop_bit 3 (2 * m + 2 + 7)) = (2 * unat m + 9) div 8"
    by (simp add: unat_shiftr)
  then have "unat (drop_bit 3 (2 * m + 2 + 7) + 127) = (2 * unat m + 9) div 8 + 127"
    using assms by (subst unat_plus_small) simp_all
  then show ?thesis
    by (simp only: unat_align_down geo_tree_bytes_def)
qed

lemma geometry_Some:
  assumes "sheap_geometry_of span = Some g"
  defines "E \<equiv> unat span div 128"
  defines "L \<equiv> (unat span - geo_tree_bytes (geo_max_id E)) div 128"
  shows "0 < E" "geo_max_id E \<le> 0xffffffff" "geo_tree_bytes (geo_max_id E) \<le> unat span"
    "unat (s_tree g) = geo_tree_bytes (geo_max_id E)"
    "unat (s_buffer g) = unat span - geo_tree_bytes (geo_max_id E)"
    "unat (n_nodes g) = (if L = 0 then 0 else geo_max_id L)"
    "s_buffer g \<noteq> 0 \<Longrightarrow> s_root g = sheap_ceil_pow2 (s_buffer g)"
    "s_buffer g = 0 \<Longrightarrow> s_root g = 0"
proof -
  define m where "m = drop_bit 7 span + sheap_ceil_pow2 (drop_bit 7 span) - 1"
  define t where "t = (drop_bit 3 (2 * m + 2 + 7) + 127) AND NOT 127"
  note b = geometry_estimate_bounds[of span]
  from assms(1) have nz: "drop_bit 7 span \<noteq> 0" and mle: "m \<le> 0xffffffff" and tle: "t \<le> span"
    and g: "g = \<lparr> s_tree = t, s_buffer = span - t,
        s_root = (if span - t \<noteq> 0 then sheap_ceil_pow2 (span - t) else 0),
        n_nodes = (if drop_bit 7 (span - t) \<noteq> 0 then
           ucast (drop_bit 7 (span - t) + sheap_ceil_pow2 (drop_bit 7 (span - t)) - 1) else 0) \<rparr>"
    unfolding m_def t_def
    by (auto simp only: sheap_geometry_of_def Let_def split: if_splits)
  show E: "0 < E" using nz b(1) by (auto simp: E_def unat_eq_zero[symmetric] simp del: unat_eq_zero intro: gr0I)
  then have "128 \<le> unat span" by (simp add: E_def div_greater_zero_iff)
  then have m: "unat m = geo_max_id E" by (simp only: unat_node_count E_def m_def)
  show mle': "geo_max_id E \<le> 0xffffffff" using mle m by (simp add: word_le_nat_alt)
  have t: "unat t = geo_tree_bytes (geo_max_id E)"
    using mle' m unat_tree_bytes[of m] by (simp add: t_def)
  show tle': "geo_tree_bytes (geo_max_id E) \<le> unat span" using tle t by (simp add: word_le_nat_alt)
  have buf: "unat (span - t) = unat span - geo_tree_bytes (geo_max_id E)"
    using tle t by (simp add: unat_sub)
  show "unat (s_tree g) = geo_tree_bytes (geo_max_id E)" using t by (simp add: g)
  show "unat (s_buffer g) = unat span - geo_tree_bytes (geo_max_id E)" using buf by (simp add: g)
  show "s_buffer g \<noteq> 0 \<Longrightarrow> s_root g = sheap_ceil_pow2 (s_buffer g)" "s_buffer g = 0 \<Longrightarrow> s_root g = 0"
    by (simp_all add: g)
  have L: "unat (drop_bit 7 (span - t)) = L" by (simp add: unat_shiftr buf L_def)
  have LE: "L \<le> E" by (simp add: L_def E_def div_le_mono)
  have mono: "geo_max_id L \<le> geo_max_id E" if "L \<noteq> 0"
  proof -
    have "ceil2 L \<le> ceil2 E"
      using LE ceil2_ge[of E] ceil2_is_power[OF E] by (metis ceil2_least order_trans)
    then show ?thesis using LE by (simp add: geo_max_id_def)
  qed
  show "unat (n_nodes g) = (if L = 0 then 0 else geo_max_id L)"
  proof (cases "L = 0")
    case True
    with L show ?thesis by (simp add: g unat_eq_zero)
  next
    case False
    then have "drop_bit 7 (span - t) \<noteq> 0" using L by auto
    moreover have "128 \<le> unat (span - t)" using False buf by (simp add: L_def div_eq_0_iff not_less)
    then have "unat (drop_bit 7 (span - t) + sheap_ceil_pow2 (drop_bit 7 (span - t)) - 1) = geo_max_id L"
      by (simp add: unat_node_count buf L_def)
    ultimately show ?thesis using False mono mle' by (simp add: g unat_u32_of_u64)
  qed
qed

end
