(* ===== verification/Sheap_Tree.thy ===== *)
theory Sheap_Tree
  imports Sheap_Core
begin

text \<open>
  \<open>sdk/libsheap/src/core/tree.c\<close>: the node-state tree of the buddy allocator.  The C code
  reaches node states only through a \<open>sheap_tree_access\<close> record of a \<open>get\<close> and a
  \<open>set\<close> function over a context; the model is polymorphic in the same way, with the context
  passed and returned explicitly (the SPU accessor is a cache, so even \<open>get\<close> changes it).
  Node ids are natural numbers: all id arithmetic of the source stays below \<open>2^33\<close> for
  32-bit ids and is done on 64-bit values where it may pass \<open>2^32\<close>, so it never wraps.

  The locale \<open>tree_accessor\<close> states what an accessor promises, and proves once that every
  operation run through a lawful accessor computes what it computes on a plain array.
\<close>

section \<open>Node states and accessors\<close>

datatype node_state = NFree | NUsed | NSplit | NFull

record 's tree_access =
  acc_get :: "'s \<Rightarrow> nat \<Rightarrow> node_state \<times> 's"
  acc_set :: "'s \<Rightarrow> nat \<Rightarrow> node_state \<Rightarrow> 's"

text \<open>\<open>node ^ 1u\<close>: the buddy of a node.\<close>

definition sibling :: "nat \<Rightarrow> nat" where
  "sibling n = (if even n then n + 1 else n - 1)"

definition taken :: "node_state \<Rightarrow> bool" where
  "taken st \<longleftrightarrow> st = NUsed \<or> st = NFull"

section \<open>Operations\<close>

text \<open>The two loops of \<open>mark_used\<close>: FULL ancestors, then SPLIT ancestors.\<close>

fun mark_full :: "'s tree_access \<Rightarrow> 's \<Rightarrow> nat \<Rightarrow> nat \<times> 's" where
  "mark_full t s node =
     (if node > 1 then
        (case acc_get t s (sibling node) of (st, s1) \<Rightarrow>
           if taken st then mark_full t (acc_set t s1 (node div 2) NFull) (node div 2)
           else (node, s1))
      else (node, s))"

fun mark_split :: "'s tree_access \<Rightarrow> 's \<Rightarrow> nat \<Rightarrow> 's" where
  "mark_split t s parent =
     (if parent \<noteq> 0 then
        (case acc_get t s parent of (st, s1) \<Rightarrow>
           if st = NSplit then s1
           else mark_split t (acc_set t s1 parent NSplit) (parent div 2))
      else s)"

definition mark_used :: "'s tree_access \<Rightarrow> 's \<Rightarrow> nat \<Rightarrow> 's" where
  "mark_used t s node =
     (case mark_full t (acc_set t s node NUsed) node of (node', s1) \<Rightarrow>
        mark_split t s1 (node' div 2))"

fun sheap_tree_fence :: "'s tree_access \<Rightarrow> 's \<Rightarrow> nat \<Rightarrow> 's" where
  "sheap_tree_fence t s n =
     (if n > 1 \<and> sheap_ceil_pow2 (of_nat n) - of_nat n \<noteq> 1 then
        sheap_tree_fence t (if even n then mark_used t s (n + 1) else s) (n div 2)
      else s)"

fun highest_taken :: "'s tree_access \<Rightarrow> 's \<Rightarrow> nat \<Rightarrow> nat \<Rightarrow> nat \<times> 's" where
  "highest_taken t s node best =
     (if node \<noteq> 0 then
        (case acc_get t s node of (st, s1) \<Rightarrow>
           highest_taken t s1 (node div 2) (if taken st then node else best))
      else (best, s))"

text \<open>The inner loops of \<open>__sheap_tree_allocate\<close>.\<close>

fun climb_free :: "'s tree_access \<Rightarrow> 's \<Rightarrow> nat \<Rightarrow> node_state \<Rightarrow> nat \<times> node_state \<times> 's" where
  "climb_free t s up st =
     (if up \<noteq> 0 then
        (case acc_get t s up of (st', s1) \<Rightarrow>
           if st' \<noteq> NFree then (up, st', s1) else climb_free t s1 (up div 2) st')
      else (up, st, s))"

fun climb_taken :: "'s tree_access \<Rightarrow> 's \<Rightarrow> nat \<Rightarrow> nat \<Rightarrow> nat \<times> 's" where
  "climb_taken t s up best =
     (if up \<noteq> 0 then
        (case acc_get t s up of (st, s1) \<Rightarrow>
           if taken st then climb_taken t s1 (up div 2) up else (best, s1))
      else (best, s))"

text \<open>\<open>while (next <= i) next <<= 1\<close>; the source calls it with \<open>next = best + 1\<close>, never 0.\<close>

function next_right :: "nat \<Rightarrow> nat \<Rightarrow> nat" where
  "next_right i nx = (if 0 < nx \<and> nx \<le> i then next_right i (2 * nx) else nx)"
  by pat_completeness auto
termination
  by (relation "measure (\<lambda>(i, nx). Suc i - nx)") auto

declare mark_full.simps [simp del] mark_split.simps [simp del] sheap_tree_fence.simps [simp del]
  highest_taken.simps [simp del] climb_free.simps [simp del] climb_taken.simps [simp del]
  next_right.simps [simp del]

lemma next_right_greater: "0 < nx \<Longrightarrow> i < next_right i nx"
proof (induction i nx rule: next_right.induct)
  case (1 i nx)
  then show ?case by (cases "nx \<le> i") (simp_all add: next_right.simps[of i nx])
qed

function alloc_scan :: "'s tree_access \<Rightarrow> 's \<Rightarrow> nat \<Rightarrow> nat \<Rightarrow> nat \<times> 's" where
  "alloc_scan t s i stop =
     (if i < stop then
        (case acc_get t s i of (st, s1) \<Rightarrow>
           if st = NFree then
             (case climb_free t s1 (i div 2) NFree of (up, st', s2) \<Rightarrow>
                if up = 0 \<or> st' = NSplit then (i, mark_used t s2 i)
                else (case climb_taken t s2 (up div 2) up of (best, s3) \<Rightarrow>
                        alloc_scan t s3 (next_right i (best + 1)) stop))
           else
             (case highest_taken t s1 i 0 of (best, s2) \<Rightarrow>
                if best = 0 then alloc_scan t s2 (i + 1) stop
                else alloc_scan t s2 (next_right i (best + 1)) stop))
      else (0, s))"
  by pat_completeness auto
termination
  by (relation "measure (\<lambda>(t, s, i, stop). stop - i)")
     (auto intro!: diff_less_mono2 next_right_greater)

definition sheap_tree_allocate :: "'s tree_access \<Rightarrow> 's \<Rightarrow> nat \<Rightarrow> nat \<Rightarrow> nat \<times> 's" where
  "sheap_tree_allocate t s nodes row =
     (if row > 31 then (0, s)
      else let first = 2 ^ row;
               stop = 2 * first - 1;
               stop = (if stop > nodes then nodes else stop) in
           alloc_scan t s first stop)"

text \<open>\<open>__sheap_tree_free\<close>: the climb to the first non-FREE node, then the two repair loops.\<close>

fun free_target :: "'s tree_access \<Rightarrow> 's \<Rightarrow> nat \<Rightarrow> nat \<times> 's" where
  "free_target t s target =
     (case acc_get t s target of (st, s1) \<Rightarrow>
        if st = NFree then (if target div 2 = 0 then (0, s1) else free_target t s1 (target div 2))
        else (target, s1))"

fun unfull :: "'s tree_access \<Rightarrow> 's \<Rightarrow> nat \<Rightarrow> 's" where
  "unfull t s node =
     (if node \<noteq> 0 then
        (case acc_get t s node of (st, s1) \<Rightarrow>
           if st = NFull then unfull t (acc_set t s1 node NSplit) (node div 2) else s1)
      else s)"

fun merge_buddies :: "'s tree_access \<Rightarrow> 's \<Rightarrow> nat \<Rightarrow> 's" where
  "merge_buddies t s node =
     (if node > 1 then
        (case acc_get t s (sibling node) of (st, s1) \<Rightarrow>
           if st = NFree then merge_buddies t (acc_set t s1 (node div 2) NFree) (node div 2)
           else s1)
      else s)"

declare alloc_scan.simps [simp del] free_target.simps [simp del] unfull.simps [simp del]
  merge_buddies.simps [simp del]

definition sheap_tree_free ::
    "'s tree_access \<Rightarrow> 's \<Rightarrow> nat \<Rightarrow> nat \<Rightarrow> (sheap_error + unit) \<times> 's" where
  "sheap_tree_free t s nodes leaf =
     (if leaf = 0 \<or> leaf > nodes then (Inl SHEAP_INVAL, s)
      else case acc_get t s leaf of (st, s1) \<Rightarrow>
        if st = NSplit then (Inl SHEAP_FAULT, s1)
        else case free_target t s1 leaf of (target, s2) \<Rightarrow>
          if target = 0 then (Inl SHEAP_INVAL, s2)
          else let s3 = unfull t (acc_set t s2 target NFree) (target div 2) in
               (Inr (), merge_buddies t s3 target))"

function walk_up :: "nat \<Rightarrow> nat" where
  "walk_up n = (if odd n then walk_up (n div 2) else n)"
  by pat_completeness auto
termination
  by (relation "measure id") (auto elim!: oddE)

declare walk_up.simps [simp del]

lemma walk_up_ends: "\<exists>k. Suc n = Suc (walk_up n) * 2 ^ k \<and> walk_up n = n div 2 ^ k
    \<and> even (walk_up n)"
proof (induction n rule: walk_up.induct)
  case (1 n)
  show ?case
  proof (cases "odd n")
    case True
    with 1 obtain k where k: "Suc (n div 2) = Suc (walk_up (n div 2)) * 2 ^ k"
      "walk_up (n div 2) = n div 2 div 2 ^ k" "even (walk_up (n div 2))" by blast
    have "Suc n = 2 * Suc (n div 2)" using True by (auto elim!: oddE)
    then show ?thesis using True k
      by (intro exI[of _ "Suc k"]) (simp add: walk_up.simps[of n] div_mult2_eq)
  qed (auto simp: walk_up.simps[of n] intro!: exI[of _ 0])
qed

text \<open>
  The traversal order of \<open>walk_free\<close>: with \<open>K\<close> rows, a node of row \<open>r\<close> starts at
  position \<open>n * 2 ^ (K - r)\<close>; a step either descends to the left child (same start, next row)
  or moves to a later start.
\<close>

definition walk_rows :: "nat \<Rightarrow> nat \<Rightarrow> nat" where
  "walk_rows nodes n = max (flog2 nodes) (flog2 n)"

definition walk_start :: "nat \<Rightarrow> nat \<Rightarrow> nat" where
  "walk_start K n = n * 2 ^ (K - flog2 n)"

lemma walk_start_less: "flog2 n \<le> K \<Longrightarrow> walk_start K n < 2 ^ Suc K"
proof -
  assume le: "flog2 n \<le> K"
  have "n * 2 ^ (K - flog2 n) < 2 ^ Suc (flog2 n) * 2 ^ (K - flog2 n)"
    using flog2_upper[of n] by (intro mult_strict_right_mono) simp_all
  also have "\<dots> = 2 ^ Suc K" using le by (simp flip: power_add)
  finally show ?thesis by (simp add: walk_start_def)
qed

lemma flog2_shift: "0 < n div 2 ^ k \<Longrightarrow> flog2 (n div 2 ^ k) + k = flog2 n"
proof (induction k arbitrary: n)
  case (Suc k)
  then have "flog2 (n div 2 div 2 ^ k) + k = flog2 (n div 2)" by (simp add: div_mult2_eq)
  moreover have "2 \<le> n"
  proof (rule ccontr)
    assume "\<not> 2 \<le> n"
    then have "n div 2 = 0" by simp
    then have "n div 2 ^ Suc k = 0" by (simp only: power_Suc div_mult2_eq) simp
    then show False using Suc.prems by simp
  qed
  ultimately show ?case by (simp add: div_mult2_eq flog2_step)
qed simp

lemma walk_next:
  assumes "walk_up n \<noteq> 0" "flog2 n \<le> K"
  shows "flog2 (Suc (walk_up n)) \<le> flog2 n"
    and "walk_start K (Suc (walk_up n)) = Suc n * 2 ^ (K - flog2 n)"
proof -
  obtain k where k: "Suc n = Suc (walk_up n) * 2 ^ k" "walk_up n = n div 2 ^ k" "even (walk_up n)"
    using walk_up_ends by blast
  obtain m where m: "walk_up n = 2 * m" "0 < m" using k(3) assms(1) by (auto elim: evenE)
  have row: "flog2 (Suc (walk_up n)) = flog2 (walk_up n)" using m by simp
  have n: "flog2 (walk_up n) + k = flog2 n" using flog2_shift[of n k] assms(1) k(2) by simp
  then show "flog2 (Suc (walk_up n)) \<le> flog2 n" using row by simp
  have "K - flog2 (walk_up n) = (K - flog2 n) + k" using n assms(2) by simp
  then show "walk_start K (Suc (walk_up n)) = Suc n * 2 ^ (K - flog2 n)"
    by (simp only: walk_start_def row power_add k(1)) (simp only: ac_simps)
qed

text \<open>\<open>walk_free\<close>; the test \<open>n \<noteq> 0\<close> is always true from the start node 1.\<close>

function walk_loop ::
    "'s tree_access \<Rightarrow> nat \<Rightarrow> u64 \<Rightarrow> 's \<Rightarrow> nat \<Rightarrow> u64 \<Rightarrow> u64 \<times> 's" where
  "walk_loop t nodes root s n acc =
     (case acc_get t s n of (st, s1) \<Rightarrow>
        if st = NSplit \<and> n \<noteq> 0 \<and> 2 * n \<le> nodes then walk_loop t nodes root s1 (2 * n) acc
        else let acc' = (if st = NFree then acc + drop_bit (sheap_floor_log2 (of_nat n)) root
                           else acc);
                 n' = walk_up n in
             if n' = 0 then (acc', s1) else walk_loop t nodes root s1 (n' + 1) acc')"
  by pat_completeness auto
termination
proof (relation "measures [\<lambda>(t, nodes, root, s, n, acc). walk_rows nodes n,
    \<lambda>(t, nodes, root, s, n, acc). 2 ^ Suc (walk_rows nodes n) - walk_start (walk_rows nodes n) n,
    \<lambda>(t, nodes, root, s, n, acc). walk_rows nodes n - flog2 n]", goal_cases)
  case (2 t nodes root s n acc)
  then have n: "n \<noteq> 0" "2 * n \<le> nodes" by auto
  then have r: "Suc (flog2 n) \<le> flog2 nodes" using flog2_mono[of "2 * n" nodes] by simp
  then have "walk_rows nodes (2 * n) = flog2 nodes" "walk_rows nodes n = flog2 nodes"
    using n by (simp_all add: walk_rows_def)
  moreover have "2 ^ (flog2 nodes - flog2 n) = 2 * (2::nat) ^ (flog2 nodes - Suc (flog2 n))"
    using r by (metis Suc_diff_le diff_Suc_Suc power_Suc)
  then have "n * 2 ^ (flog2 nodes - flog2 n) = 2 * n * 2 ^ (flog2 nodes - Suc (flog2 n))" by simp
  ultimately show ?case using n r by (simp add: walk_start_def mult.assoc mult.left_commute)
next
  case (3 t nodes root s n acc)
  then have u: "walk_up n \<noteq> 0" by simp
  have le: "flog2 n \<le> walk_rows nodes n" by (simp add: walk_rows_def)
  note nx = walk_next[OF u le]
  have rows: "walk_rows nodes (Suc (walk_up n)) \<le> walk_rows nodes n"
    using nx(1) by (auto simp: walk_rows_def)
  show ?case
  proof (cases "walk_rows nodes (Suc (walk_up n)) = walk_rows nodes n")
    case True
    moreover have "walk_start (walk_rows nodes n) n < walk_start (walk_rows nodes n) (Suc (walk_up n))"
      by (simp add: nx(2)) (simp add: walk_start_def)
    moreover have "walk_start (walk_rows nodes n) n < 2 ^ Suc (walk_rows nodes n)"
      using le by (rule walk_start_less)
    ultimately show ?thesis using 3 by (simp add: diff_less_mono2 del: power_Suc)
  next
    case False
    with rows show ?thesis using 3 by (simp del: power_Suc)
  qed
qed auto

declare walk_loop.simps [simp del]

definition walk_free :: "'s tree_access \<Rightarrow> 's \<Rightarrow> nat \<Rightarrow> u64 \<Rightarrow> u64 \<times> 's" where
  "walk_free t s nodes root = (if nodes = 0 then (0, s) else walk_loop t nodes root s 1 0)"

function query_max_loop :: "'s tree_access \<Rightarrow> 's \<Rightarrow> nat \<Rightarrow> nat \<Rightarrow> u64 \<Rightarrow> u64 \<times> 's" where
  "query_max_loop t s n nodes root =
     (if n \<le> nodes then
        (case acc_get t s n of (st, s1) \<Rightarrow>
           if st = NFree then (drop_bit (sheap_floor_log2 (of_nat n)) root, s1)
           else query_max_loop t s1 (n + 1) nodes root)
      else (0, s))"
  by pat_completeness auto
termination
  by (relation "measure (\<lambda>(t, s, n, nodes, root). Suc nodes - n)") auto

declare query_max_loop.simps [simp del]

definition sheap_tree_query_max :: "'s tree_access \<Rightarrow> 's \<Rightarrow> nat \<Rightarrow> u64 \<Rightarrow> u64 \<times> 's" where
  "sheap_tree_query_max t s nodes root = query_max_loop t s 1 nodes root"

definition sheap_tree_query_free :: "'s tree_access \<Rightarrow> 's \<Rightarrow> nat \<Rightarrow> u64 \<Rightarrow> u64 \<times> 's" where
  "sheap_tree_query_free t s nodes root = walk_free t s nodes root"

section \<open>The plain array, and what an accessor promises\<close>

type_synonym tree = "nat \<Rightarrow> node_state"

text \<open>The accessor of a flat array of node states (the host test's \<open>flat_get\<close>, \<open>flat_set\<close>).\<close>

definition flat :: "tree tree_access" where
  "flat = \<lparr> acc_get = (\<lambda>s n. (s n, s)), acc_set = (\<lambda>s n v. s(n := v)) \<rparr>"

lemma flat_simps [simp]: "acc_get flat s n = (s n, s)" "acc_set flat s n v = s(n := v)"
  by (simp_all add: flat_def)

text \<open>Reading operations leave a flat array as it is.\<close>

lemma highest_taken_flat: "snd (highest_taken flat s n b) = s"
  by (induction n arbitrary: b rule: less_induct) (simp add: highest_taken.simps[of _ _ n for n])

lemma climb_taken_flat: "snd (climb_taken flat s n b) = s"
  by (induction n arbitrary: b rule: less_induct) (simp add: climb_taken.simps[of _ _ n for n])

lemma free_target_flat: "snd (free_target flat s n) = s"
proof (induction n rule: less_induct)
  case (less n)
  then show ?case by (cases "n div 2 = 0") (simp_all add: free_target.simps[of _ _ n])
qed

text \<open>
  The ids an operation may touch go up to a limit, \<open>n_nodes\<close> or the buddy of \<open>n_nodes\<close>: an
  odd limit is closed under buddies and parents.
\<close>

definition node_id :: "nat \<Rightarrow> nat \<Rightarrow> bool" where
  "node_id lim n \<longleftrightarrow> n \<le> lim"

lemma node_id_div [simp]: "node_id lim n \<Longrightarrow> node_id lim (n div 2)"
  by (simp add: node_id_def)

lemma node_id_next [simp]: "odd lim \<Longrightarrow> node_id lim n \<Longrightarrow> even n \<Longrightarrow> node_id lim (Suc n)"
  by (auto simp: node_id_def elim!: evenE oddE)

lemma node_id_sibling [simp]: "odd lim \<Longrightarrow> node_id lim n \<Longrightarrow> node_id lim (sibling n)"
  using node_id_next[of lim n] by (auto simp: sibling_def) (simp add: node_id_def)

lemma node_id_le: "m \<le> n \<Longrightarrow> node_id lim n \<Longrightarrow> node_id lim m"
  by (simp add: node_id_def)

lemma node_id_small [simp]: "node_id lim 0" "odd lim \<Longrightarrow> node_id lim (Suc 0)"
  by (auto simp: node_id_def elim: oddE)

lemma climb_taken_id: "node_id lim n \<Longrightarrow> node_id lim b \<Longrightarrow> node_id lim (fst (climb_taken flat s n b))"
  by (induction n arbitrary: b rule: less_induct) (simp add: climb_taken.simps[of _ _ n for n])

lemma climb_free_id: "node_id lim n \<Longrightarrow> node_id lim (fst (climb_free flat s n st))"
  by (induction n arbitrary: st rule: less_induct) (simp add: climb_free.simps[of _ _ n for n])

lemma free_target_id: "node_id lim n \<Longrightarrow> node_id lim (fst (free_target flat s n))"
proof (induction n rule: less_induct)
  case (less n)
  then show ?case
    by (cases "n div 2 = 0") (auto simp: free_target.simps[of _ _ n] node_id_def)
qed

lemma mark_full_id: "node_id lim n \<Longrightarrow> node_id lim (fst (mark_full flat s n))"
  by (induction n arbitrary: s rule: less_induct) (simp add: mark_full.simps[of _ _ n for n])

lemma walk_up_id: "odd lim \<Longrightarrow> node_id lim n \<Longrightarrow> node_id lim (Suc (walk_up n))"
proof -
  assume odd: "odd lim" and n: "node_id lim n"
  obtain k where "walk_up n = n div 2 ^ k" "even (walk_up n)" using walk_up_ends by blast
  then show ?thesis using node_id_le[OF div_le_dividend n, of "2 ^ k"] odd by simp
qed

text \<open>
  What an accessor promises: \<open>get\<close> returns the abstract state of the node and keeps all
  of them, \<open>set\<close> changes that one node, and both keep the accessor's own invariant.
\<close>

locale tree_accessor =
  fixes t :: "'s tree_access"
    and abs :: "'s \<Rightarrow> tree"
    and inv :: "'s \<Rightarrow> bool"
    and lim :: nat
  assumes odd_lim [simp]: "odd lim"
    and get_value: "inv s \<Longrightarrow> node_id lim n \<Longrightarrow> fst (acc_get t s n) = abs s n"
    and get_abs: "inv s \<Longrightarrow> node_id lim n \<Longrightarrow> abs (snd (acc_get t s n)) = abs s"
    and get_inv: "inv s \<Longrightarrow> node_id lim n \<Longrightarrow> inv (snd (acc_get t s n))"
    and set_abs: "inv s \<Longrightarrow> node_id lim n \<Longrightarrow> abs (acc_set t s n v) = (abs s)(n := v)"
    and set_inv: "inv s \<Longrightarrow> node_id lim n \<Longrightarrow> inv (acc_set t s n v)"
begin

text \<open>\<open>sim r q\<close>: the concrete result \<open>r\<close> is the flat result \<open>q\<close>, through \<open>abs\<close>.\<close>

definition sim :: "'a \<times> 's \<Rightarrow> 'a \<times> tree \<Rightarrow> bool" where
  "sim r q \<longleftrightarrow> inv (snd r) \<and> fst r = fst q \<and> abs (snd r) = snd q"

lemma simI: "inv s \<Longrightarrow> abs s = q \<Longrightarrow> sim (x, s) (x, q)"
  by (simp add: sim_def)

lemma simD: "sim (x, s) (y, q) \<Longrightarrow> inv s \<and> x = y \<and> q = abs s"
  by (simp add: sim_def)

lemma get_cases:
  assumes "inv s" "node_id lim n"
  obtains s1 where "acc_get t s n = (abs s n, s1)" "inv s1" "abs s1 = abs s"
  using assms get_value[of s n] get_abs[of s n] get_inv[of s n]
  by (cases "acc_get t s n") auto

lemma mark_full_sim:
  "inv s \<Longrightarrow> node_id lim n \<Longrightarrow> sim (mark_full t s n) (mark_full flat (abs s) n)"
proof (induction n arbitrary: s rule: less_induct)
  case (less n)
  obtain s1 where "acc_get t s (sibling n) = (abs s (sibling n), s1)" "inv s1" "abs s1 = abs s"
    using get_cases[OF less.prems(1) node_id_sibling[OF odd_lim less.prems(2)]] .
  then show ?case
    using less.prems less.IH[of "n div 2" "acc_set t s1 (n div 2) NFull"]
    by (simp add: mark_full.simps[of _ _ n] set_inv set_abs simI fun_upd_def)
qed

lemma mark_split_sim:
  "inv s \<Longrightarrow> node_id lim n \<Longrightarrow>
     inv (mark_split t s n) \<and> abs (mark_split t s n) = mark_split flat (abs s) n"
proof (induction n arbitrary: s rule: less_induct)
  case (less n)
  obtain s1 where "acc_get t s n = (abs s n, s1)" "inv s1" "abs s1 = abs s"
    using get_cases[OF less.prems] .
  then show ?case
    using less.prems less.IH[of "n div 2" "acc_set t s1 n NSplit"]
    by (simp add: mark_split.simps[of _ _ n] set_inv set_abs fun_upd_def)
qed

lemma mark_used_sim:
  assumes "inv s" "node_id lim n"
  shows "inv (mark_used t s n) \<and> abs (mark_used t s n) = mark_used flat (abs s) n"
proof -
  obtain n' s' where full: "mark_full t (acc_set t s n NUsed) n = (n', s')" by (rule prod.exhaust)
  then have flat: "mark_full flat ((abs s)(n := NUsed)) n = (n', abs s')" and "inv s'"
    using mark_full_sim[of "acc_set t s n NUsed" n] assms
    by (auto simp: set_inv set_abs sim_def prod_eq_iff)
  moreover have "node_id lim n'"
    using mark_full_id[OF assms(2), of "(abs s)(n := NUsed)"] flat by simp
  ultimately show ?thesis using full flat mark_split_sim[of s' "n' div 2"]
    by (simp add: mark_used_def)
qed

lemma fence_sim:
  "inv s \<Longrightarrow> node_id lim n \<Longrightarrow>
     inv (sheap_tree_fence t s n) \<and> abs (sheap_tree_fence t s n) = sheap_tree_fence flat (abs s) n"
proof (induction n arbitrary: s rule: less_induct)
  case (less n)
  show ?case
    using less.prems less.IH[of "n div 2" s] less.IH[of "n div 2" "mark_used t s (n + 1)"]
      mark_used_sim[of s "n + 1"]
    by (simp add: sheap_tree_fence.simps[of _ _ n])
qed

lemma highest_taken_sim:
  "inv s \<Longrightarrow> node_id lim n \<Longrightarrow> sim (highest_taken t s n b) (highest_taken flat (abs s) n b)"
proof (induction n arbitrary: s b rule: less_induct)
  case (less n)
  obtain s1 where "acc_get t s n = (abs s n, s1)" "inv s1" "abs s1 = abs s"
    using get_cases[OF less.prems] .
  then show ?case
    using less.prems less.IH[of "n div 2" s1]
    by (simp add: highest_taken.simps[of _ _ n] simI)
qed

lemma climb_taken_sim:
  "inv s \<Longrightarrow> node_id lim n \<Longrightarrow> sim (climb_taken t s n b) (climb_taken flat (abs s) n b)"
proof (induction n arbitrary: s b rule: less_induct)
  case (less n)
  obtain s1 where "acc_get t s n = (abs s n, s1)" "inv s1" "abs s1 = abs s"
    using get_cases[OF less.prems] .
  then show ?case
    using less.prems less.IH[of "n div 2" s1]
    by (simp add: climb_taken.simps[of _ _ n] simI)
qed

lemma climb_free_sim:
  "inv s \<Longrightarrow> node_id lim n \<Longrightarrow> \<exists>u st' s'. climb_free t s n st = (u, st', s') \<and> inv s' \<and> abs s' = abs s
     \<and> climb_free flat (abs s) n st = (u, st', abs s)"
proof (induction n arbitrary: s st rule: less_induct)
  case (less n)
  obtain s1 where "acc_get t s n = (abs s n, s1)" "inv s1" "abs s1 = abs s"
    using get_cases[OF less.prems] .
  then show ?case
    using less.prems less.IH[of "n div 2" s1]
    by (simp add: climb_free.simps[of _ _ n])
qed

lemma alloc_scan_sim:
  "inv s \<Longrightarrow> node_id lim stop \<Longrightarrow> sim (alloc_scan t s i stop) (alloc_scan flat (abs s) i stop)"
proof (induction "stop - i" arbitrary: s i rule: less_induct)
  case less
  show ?case
  proof (cases "i < stop")
    case False
    with less.prems show ?thesis by (simp add: alloc_scan.simps[of _ _ i] simI)
  next
    case True
    then have id: "node_id lim i" using less.prems(2) by (simp add: node_id_def)
    have IH: "sim (alloc_scan t s' j stop) (alloc_scan flat (abs s) j stop)"
      if "inv s'" "abs s' = abs s" "i < j" for s' j
      using less.hyps[of j s'] that True less.prems(2) by (simp add: diff_less_mono2)
    have nxt: "i < next_right i (Suc b)" for b by (rule next_right_greater) simp
    obtain s1 where s1: "acc_get t s i = (abs s i, s1)" "inv s1" "abs s1 = abs s"
      using get_cases[OF less.prems(1) id] .
    show ?thesis
    proof (cases "abs s i = NFree")
      case free: True
      obtain u st' s2 where u: "climb_free t s1 (i div 2) NFree = (u, st', s2)" "inv s2" "abs s2 = abs s"
        "climb_free flat (abs s) (i div 2) NFree = (u, st', abs s)"
        using climb_free_sim[OF s1(2) node_id_div[OF id], of NFree] s1(3) by auto
      have uid: "node_id lim u" using climb_free_id[OF node_id_div[OF id], of "abs s" NFree] u(4) by simp
      obtain b s3 where b: "climb_taken t s2 (u div 2) u = (b, s3)" "inv s3" "abs s3 = abs s"
        "climb_taken flat (abs s) (u div 2) u = (b, abs s)"
        using climb_taken_sim[OF u(2) node_id_div[OF uid], of u] climb_taken_flat[of "abs s" "u div 2" u] u(3)
        by (cases "climb_taken t s2 (u div 2) u"; cases "climb_taken flat (abs s) (u div 2) u")
          (auto simp: sim_def)
      show ?thesis
        using True free s1 u b mark_used_sim[OF u(2) id] IH[of s3 "next_right i (Suc b)"] nxt
        by (simp add: alloc_scan.simps[of _ _ i] sim_def)
    next
      case notfree: False
      obtain b s2 where b: "highest_taken t s1 i 0 = (b, s2)" "inv s2" "abs s2 = abs s"
        "highest_taken flat (abs s) i 0 = (b, abs s)"
        using highest_taken_sim[OF s1(2) id, of 0] highest_taken_flat[of "abs s" i 0] s1(3)
        by (cases "highest_taken t s1 i 0"; cases "highest_taken flat (abs s) i 0") (auto simp: sim_def)
      show ?thesis
        using True notfree s1 b IH[of s2 "Suc i"] IH[of s2 "next_right i (Suc b)"] nxt
        by (simp add: alloc_scan.simps[of _ _ i])
    qed
  qed
qed

lemma allocate_sim:
  "inv s \<Longrightarrow> node_id lim nodes \<Longrightarrow>
     sim (sheap_tree_allocate t s nodes row) (sheap_tree_allocate flat (abs s) nodes row)"
  by (auto simp: sheap_tree_allocate_def Let_def simI not_less intro!: alloc_scan_sim intro: node_id_le)

lemma free_target_sim:
  "inv s \<Longrightarrow> node_id lim n \<Longrightarrow> sim (free_target t s n) (free_target flat (abs s) n)"
proof (induction n arbitrary: s rule: less_induct)
  case (less n)
  obtain s1 where "acc_get t s n = (abs s n, s1)" "inv s1" "abs s1 = abs s"
    using get_cases[OF less.prems] .
  then show ?case
    using less.prems less.IH[of "n div 2" s1]
    by (cases "n div 2 = 0") (simp_all add: free_target.simps[of _ _ n] simI)
qed

lemma unfull_sim:
  "inv s \<Longrightarrow> node_id lim n \<Longrightarrow> inv (unfull t s n) \<and> abs (unfull t s n) = unfull flat (abs s) n"
proof (induction n arbitrary: s rule: less_induct)
  case (less n)
  obtain s1 where "acc_get t s n = (abs s n, s1)" "inv s1" "abs s1 = abs s"
    using get_cases[OF less.prems] .
  then show ?case
    using less.prems less.IH[of "n div 2" "acc_set t s1 n NSplit"]
    by (simp add: unfull.simps[of _ _ n] set_inv set_abs fun_upd_def)
qed

lemma merge_sim:
  "inv s \<Longrightarrow> node_id lim n \<Longrightarrow>
     inv (merge_buddies t s n) \<and> abs (merge_buddies t s n) = merge_buddies flat (abs s) n"
proof (induction n arbitrary: s rule: less_induct)
  case (less n)
  obtain s1 where "acc_get t s (sibling n) = (abs s (sibling n), s1)" "inv s1" "abs s1 = abs s"
    using get_cases[OF less.prems(1) node_id_sibling[OF odd_lim less.prems(2)]] .
  then show ?case
    using less.prems less.IH[of "n div 2" "acc_set t s1 (n div 2) NFree"]
    by (simp add: merge_buddies.simps[of _ _ n] set_inv set_abs fun_upd_def)
qed

lemma tree_free_sim:
  assumes "inv s" "node_id lim nodes"
  shows "sim (sheap_tree_free t s nodes leaf) (sheap_tree_free flat (abs s) nodes leaf)"
proof (cases "leaf = 0 \<or> leaf > nodes")
  case True
  with assms(1) show ?thesis by (simp add: sheap_tree_free_def simI)
next
  case False
  then have id: "node_id lim leaf" using assms(2) by (simp add: node_id_def)
  obtain s1 where s1: "acc_get t s leaf = (abs s leaf, s1)" "inv s1" "abs s1 = abs s"
    using get_cases[OF assms(1) id] .
  obtain g s2 where g: "free_target t s1 leaf = (g, s2)" "inv s2" "abs s2 = abs s"
    "free_target flat (abs s) leaf = (g, abs s)"
    using free_target_sim[OF s1(2) id] free_target_flat[of "abs s" leaf] s1(3)
    by (cases "free_target t s1 leaf"; cases "free_target flat (abs s) leaf") (auto simp: sim_def)
  have gid: "node_id lim g" using free_target_id[OF id, of "abs s"] g(4) by simp
  have u: "inv (unfull t (acc_set t s2 g NFree) (g div 2))"
    "abs (unfull t (acc_set t s2 g NFree) (g div 2)) = unfull flat ((abs s)(g := NFree)) (g div 2)"
    using unfull_sim[of "acc_set t s2 g NFree" "g div 2"] g gid by (simp_all add: set_inv set_abs)
  show ?thesis
    using assms(1) s1 g u merge_sim[OF u(1) gid]
    by (simp add: sheap_tree_free_def sim_def Let_def)
qed

lemma query_max_sim:
  "inv s \<Longrightarrow> node_id lim nodes \<Longrightarrow>
     sim (query_max_loop t s n nodes root) (query_max_loop flat (abs s) n nodes root)"
proof (induction "Suc nodes - n" arbitrary: s n rule: less_induct)
  case less
  show ?case
  proof (cases "n \<le> nodes")
    case True
    then have id: "node_id lim n" using less.prems(2) by (rule node_id_le)
    obtain s1 where "acc_get t s n = (abs s n, s1)" "inv s1" "abs s1 = abs s"
      using get_cases[OF less.prems(1) id] .
    then show ?thesis
      using less.prems less.hyps[of "Suc n" s1] True
      by (simp add: query_max_loop.simps[of _ _ n] simI)
  qed (use less.prems in \<open>simp add: query_max_loop.simps[of _ _ n] simI\<close>)
qed

lemma walk_loop_sim:
  assumes "inv s" "node_id lim nodes" "node_id lim n"
  shows "sim (walk_loop t nodes root s n acc) (walk_loop flat nodes root (abs s) n acc)"
proof -
  have "t' = t \<longrightarrow> inv s \<longrightarrow> node_id lim nodes \<longrightarrow> node_id lim n \<longrightarrow>
    sim (walk_loop t' nodes root s n acc) (walk_loop flat nodes root (abs s) n acc)" for t'
  proof (induction t' nodes root s n acc rule: walk_loop.induct)
    case (1 t' nodes root s n acc)
    show ?case
    proof (intro impI)
      assume t: "t' = t" and inv: "inv s" and ids: "node_id lim nodes" "node_id lim n"
      obtain s1 where s1: "acc_get t s n = (abs s n, s1)" "inv s1" "abs s1 = abs s"
        using get_cases[OF inv ids(2)] .
      have "2 * n \<le> nodes \<Longrightarrow> node_id lim (2 * n)" "node_id lim (Suc (walk_up n))"
        using ids node_id_le walk_up_id odd_lim by blast+
      then show "sim (walk_loop t' nodes root s n acc) (walk_loop flat nodes root (abs s) n acc)"
        using 1[OF s1(1)[folded t, symmetric]] s1 ids
        by (auto simp: walk_loop.simps[of _ _ _ _ n] t Let_def simI)
    qed
  qed
  then show ?thesis using assms by simp
qed

lemma query_free_sim:
  "inv s \<Longrightarrow> node_id lim nodes \<Longrightarrow>
     sim (sheap_tree_query_free t s nodes root) (sheap_tree_query_free flat (abs s) nodes root)"
  by (simp add: sheap_tree_query_free_def walk_free_def walk_loop_sim simI)

end

text \<open>The flat array is a lawful accessor of itself.\<close>

interpretation flat_tree: tree_accessor flat "\<lambda>s. s" "\<lambda>_. True" "Suc (2 * k)" for k
  by unfold_locales simp_all

end
