(* ===== verification/Sheap_Tree_Inv.thy ===== *)
theory Sheap_Tree_Inv
  imports Sheap_Tree
begin

text \<open>
  Correctness of the buddy tree on a flat array.  The abstract state is the set of blocks: the
  ids in state USED.  \<open>tree_wf\<close> is the local invariant that ties SPLIT, FULL and FREE to the
  blocks; it determines every state from the blocks (\<open>tree_wf_unique\<close>), so \<open>mark_used\<close> and
  \<open>__sheap_tree_free\<close> are insertion and deletion of one block (\<open>mark_used_blocks\<close>,
  \<open>tree_free_blocks\<close>), and the row scan is a first-fit search (\<open>allocate_first_fit\<close>).
\<close>

section \<open>The invariant\<close>

text \<open>\<open>D\<close> is the leaf row; ids \<open>1 .. 2 ^ Suc D - 1\<close> are the nodes of the tree.\<close>

definition tree_node :: "nat \<Rightarrow> nat \<Rightarrow> bool" where
  "tree_node D n \<longleftrightarrow> 0 < n \<and> n < 2 ^ Suc D"

fun node_ok :: "bool \<Rightarrow> node_state \<Rightarrow> node_state \<Rightarrow> node_state \<Rightarrow> bool" where
  "node_ok inner NFree l r \<longleftrightarrow> (inner \<longrightarrow> l = NFree \<and> r = NFree)"
| "node_ok inner NUsed l r \<longleftrightarrow> (inner \<longrightarrow> l = NFree \<and> r = NFree)"
| "node_ok inner NSplit l r \<longleftrightarrow> inner \<and> \<not> (l = NFree \<and> r = NFree) \<and> \<not> (taken l \<and> taken r)"
| "node_ok inner NFull l r \<longleftrightarrow> inner \<and> taken l \<and> taken r"

definition ok_at :: "nat \<Rightarrow> tree \<Rightarrow> nat \<Rightarrow> bool" where
  "ok_at D T n \<longleftrightarrow> node_ok (n < 2 ^ D) (T n) (T (2 * n)) (T (2 * n + 1))"

definition tree_wf :: "nat \<Rightarrow> tree \<Rightarrow> bool" where
  "tree_wf D T \<longleftrightarrow> (\<forall>n. tree_node D n \<longrightarrow> ok_at D T n)"

definition blocks :: "nat \<Rightarrow> tree \<Rightarrow> nat set" where
  "blocks D T = {n. tree_node D n \<and> T n = NUsed}"

text \<open>\<open>within m n\<close>: node \<open>m\<close> lies in the subtree of \<open>n\<close>.\<close>

definition within :: "nat \<Rightarrow> nat \<Rightarrow> bool" where
  "within m n \<longleftrightarrow> (\<exists>k. m div 2 ^ k = n)"

text \<open>A node allocate may hand out: FREE, with no taken ancestor.\<close>

definition allocatable :: "tree \<Rightarrow> nat \<Rightarrow> bool" where
  "allocatable T n \<longleftrightarrow> T n = NFree \<and> (\<forall>a. a \<noteq> 0 \<and> within n a \<longrightarrow> \<not> taken (T a))"

lemma taken_simps [simp]: "taken NUsed" "taken NFull" "\<not> taken NFree" "\<not> taken NSplit"
  by (simp_all add: taken_def)

lemma not_taken_cases: "\<not> taken st \<longleftrightarrow> st = NFree \<or> st = NSplit"
  by (cases st) simp_all

subsection \<open>Subtrees\<close>

lemma within_refl [simp, intro!]: "within n n"
  unfolding within_def by (rule exI[of _ 0]) simp

lemma within_trans [trans]: "within a b \<Longrightarrow> within b c \<Longrightarrow> within a c"
proof -
  assume "within a b" "within b c"
  then obtain k l where "a div 2 ^ k = b" "b div 2 ^ l = c" by (auto simp: within_def)
  then have "a div 2 ^ (k + l) = c" by (simp add: power_add div_mult2_eq)
  then show ?thesis unfolding within_def by blast
qed

lemma within_half: "within m n \<Longrightarrow> within m (n div 2)"
proof -
  have "within n (n div 2)" unfolding within_def by (rule exI[of _ 1]) simp
  then show "within m n \<Longrightarrow> within m (n div 2)" by (rule within_trans[rotated])
qed

lemma within_parent [intro]: "within n (n div 2)"
  by (rule within_half) simp

lemma within_le: "within m n \<Longrightarrow> n \<le> m"
  unfolding within_def by (auto intro: div_le_dividend)

lemma within_step: "within m n \<longleftrightarrow> m = n \<or> within (m div 2) n"
proof
  assume "within m n"
  then obtain k where k: "m div 2 ^ k = n" by (auto simp: within_def)
  show "m = n \<or> within (m div 2) n"
  proof (cases k)
    case (Suc j)
    with k have "m div 2 div 2 ^ j = n" by (simp add: div_mult2_eq)
    then show ?thesis unfolding within_def by blast
  qed (use k in simp)
next
  assume "m = n \<or> within (m div 2) n"
  then show "within m n" by (blast intro: within_trans)
qed

text \<open>A proper descendant lies within one of the two children.\<close>

lemma within_children:
  assumes "within m n" "m \<noteq> n" "n \<noteq> 0"
  shows "within m (2 * n) \<or> within m (2 * n + 1)"
  using assms
proof (induction m rule: less_induct)
  case (less m)
  then have u: "within (m div 2) n" using within_step by blast
  show ?case
  proof (cases "m div 2 = n")
    case True
    then have "m = 2 * n \<or> m = 2 * n + 1" by presburger
    then show ?thesis by auto
  next
    case False
    have "m \<noteq> 0" using less.prems within_le[of m n] by auto
    with less.IH[of "m div 2"] u False less.prems(3)
    have "within (m div 2) (2 * n) \<or> within (m div 2) (2 * n + 1)" by simp
    then show ?thesis by (blast intro: within_trans)
  qed
qed

lemma within_linear: "within m a \<Longrightarrow> within m b \<Longrightarrow> within a b \<or> within b a"
proof (induction m rule: less_induct)
  case (less m)
  show ?case
  proof (cases "m = a \<or> m = b \<or> m = 0")
    case True
    then show ?thesis using less.prems within_le by fastforce
  next
    case False
    then have "within (m div 2) a" "within (m div 2) b" "m div 2 < m"
      using less.prems within_step[of m] by simp_all
    then show ?thesis using less.IH by blast
  qed
qed

lemma within_node: "tree_node D m \<Longrightarrow> within m n \<Longrightarrow> n \<noteq> 0 \<Longrightarrow> tree_node D n"
  using within_le[of m n] by (auto simp: tree_node_def)

lemma tree_node_half: "tree_node D n \<Longrightarrow> n \<noteq> 1 \<Longrightarrow> tree_node D (n div 2)"
  by (auto simp: tree_node_def)

lemma tree_node_inner: "tree_node D n \<Longrightarrow> 1 < n \<Longrightarrow> n div 2 < 2 ^ D"
  by (auto simp: tree_node_def)

lemma tree_node_children: "tree_node D n \<Longrightarrow> n < 2 ^ D \<Longrightarrow> tree_node D (2 * n) \<and> tree_node D (2 * n + 1)"
  by (auto simp: tree_node_def)

lemma sibling_children: "1 < n \<Longrightarrow>
    {n, sibling n} = {2 * (n div 2), 2 * (n div 2) + 1} \<and> sibling n div 2 = n div 2 \<and> sibling n \<noteq> n"
  by (cases "even n") (auto simp: sibling_def elim!: evenE oddE)

lemma tree_node_sibling: "tree_node D n \<Longrightarrow> 1 < n \<Longrightarrow> tree_node D (sibling n)"
  by (cases "even n") (auto simp: sibling_def tree_node_def elim!: evenE oddE)

subsection \<open>Well-formed trees\<close>

lemma wf_ok: "tree_wf D T \<Longrightarrow> tree_node D n \<Longrightarrow> ok_at D T n"
  by (simp add: tree_wf_def)

lemma ok_at_parent:
  assumes "ok_at D T (n div 2)" "tree_node D n" "1 < n"
  shows "node_ok True (T (n div 2)) (T n) (T (sibling n))"
proof -
  have "n div 2 < 2 ^ D" using assms by (simp add: tree_node_inner)
  moreover have "n = 2 * (n div 2) \<and> sibling n = 2 * (n div 2) + 1
      \<or> n = 2 * (n div 2) + 1 \<and> sibling n = 2 * (n div 2)"
    using assms(3) by (cases "even n") (auto simp: sibling_def elim!: evenE oddE)
  ultimately show ?thesis using assms(1) unfolding ok_at_def
    by (cases "T (n div 2)") (metis node_ok.simps)+
qed

lemma ok_at_parentI:
  assumes "node_ok True (T (n div 2)) (T n) (T (sibling n))" "tree_node D n" "1 < n"
  shows "ok_at D T (n div 2)"
proof -
  have "n div 2 < 2 ^ D" using assms by (simp add: tree_node_inner)
  moreover have "n = 2 * (n div 2) \<and> sibling n = 2 * (n div 2) + 1
      \<or> n = 2 * (n div 2) + 1 \<and> sibling n = 2 * (n div 2)"
    using assms(3) by (cases "even n") (auto simp: sibling_def elim!: evenE oddE)
  ultimately show ?thesis using assms(1) unfolding ok_at_def
    by (cases "T (n div 2)") (metis node_ok.simps)+
qed

lemma wf_parent: "tree_wf D T \<Longrightarrow> tree_node D n \<Longrightarrow> 1 < n \<Longrightarrow>
    node_ok True (T (n div 2)) (T n) (T (sibling n))"
  by (rule ok_at_parent) (simp_all add: wf_ok tree_node_half)

text \<open>Below a FREE or USED node everything is FREE.\<close>

lemma wf_below:
  assumes "tree_wf D T" "tree_node D m" "within m n" "m \<noteq> n" "n \<noteq> 0" "T n = NFree \<or> T n = NUsed"
  shows "T m = NFree"
  using assms(2-4)
proof (induction m rule: less_induct)
  case (less m)
  have m: "1 < m" "m div 2 \<noteq> 0" "within (m div 2) n"
    using less.prems within_le[of m n] within_step[of m n] within_le[of "m div 2" n] assms(5) by auto
  then have nd: "tree_node D (m div 2)" using less.prems(1) by (simp add: tree_node_half)
  have "T (m div 2) = NFree \<or> T (m div 2) = NUsed"
    using less.IH[of "m div 2"] m nd assms(6) by (cases "m div 2 = n") auto
  then show ?case using wf_parent[OF assms(1) less.prems(1) m(1)] by auto
qed

text \<open>A node that is not FREE has a block in its subtree.\<close>

lemma wf_block_below:
  "tree_wf D T \<Longrightarrow> tree_node D n \<Longrightarrow> T n \<noteq> NFree \<Longrightarrow> \<exists>b \<in> blocks D T. within b n"
proof (induction "2 ^ Suc D - n" arbitrary: n rule: less_induct)
  case less
  have n: "0 < n" "n < 2 ^ Suc D" using less.prems(2) by (auto simp: tree_node_def)
  have ok: "node_ok (n < 2 ^ D) (T n) (T (2 * n)) (T (2 * n + 1))"
    using wf_ok[OF less.prems(1,2)] by (simp add: ok_at_def)
  show ?case
  proof (cases "T n = NUsed")
    case True
    then show ?thesis using less.prems by (auto simp: blocks_def)
  next
    case False
    have "(T (2 * n) \<noteq> NFree \<or> T (2 * n + 1) \<noteq> NFree) \<and> n < 2 ^ D"
      using False less.prems(3) ok by (cases "T n") auto
    then obtain c where c: "c = 2 * n \<or> c = 2 * n + 1" "T c \<noteq> NFree" "n < 2 ^ D" by blast
    then have "tree_node D c" using tree_node_children[OF less.prems(2)] by auto
    moreover have "n < c" "c div 2 = n" using c(1) n by auto
    ultimately obtain b where "b \<in> blocks D T" "within b c"
      using less.hyps[of c] less.prems(1) c(2) n by (auto simp: diff_less_mono2)
    then show ?thesis using within_trans within_parent[of c] \<open>c div 2 = n\<close> by auto
  qed
qed

text \<open>Every node in the subtree of a taken node is related to a block.\<close>

lemma wf_taken_covers:
  assumes "tree_wf D T" "tree_node D m" "within m n" "n \<noteq> 0" "taken (T n)"
  shows "\<exists>b \<in> blocks D T. within m b \<or> within b m"
  using assms(3-)
proof (induction "2 ^ Suc D - n" arbitrary: n rule: less_induct)
  case less
  then have nd: "tree_node D n" using assms(2) by (blast intro: within_node)
  then have n: "0 < n" "n < 2 ^ Suc D" by (auto simp: tree_node_def)
  show ?case
  proof (cases "T n = NUsed \<or> m = n")
    case True
    have "T n \<noteq> NFree" using less.prems(3) by auto
    then show ?thesis
      using True nd less.prems(1) wf_block_below[OF assms(1) nd] by (auto simp: blocks_def)
  next
    case False
    then have full: "T n = NFull" using less.prems(3) by (cases "T n") auto
    have "node_ok (n < 2 ^ D) (T n) (T (2 * n)) (T (2 * n + 1))"
      using wf_ok[OF assms(1) nd] by (simp add: ok_at_def)
    then have "taken (T (2 * n))" "taken (T (2 * n + 1))" using full by simp_all
    moreover obtain c where "c = 2 * n \<or> c = 2 * n + 1" "within m c"
      using within_children[OF less.prems(1)] False less.prems(2) by auto
    ultimately show ?thesis using less.hyps[of c] n by (auto simp: diff_less_mono2)
  qed
qed

text \<open>\<open>allocatable\<close> in terms of the blocks alone.\<close>

lemma allocatable_iff:
  assumes "tree_wf D T" "tree_node D n"
  shows "allocatable T n \<longleftrightarrow> (\<forall>b \<in> blocks D T. \<not> within n b \<and> \<not> within b n)"
proof
  assume al: "allocatable T n"
  show "\<forall>b \<in> blocks D T. \<not> within n b \<and> \<not> within b n"
  proof
    fix b assume b: "b \<in> blocks D T"
    then have "tree_node D b" "T b = NUsed" by (auto simp: blocks_def)
    then show "\<not> within n b \<and> \<not> within b n"
      using al wf_below[OF assms(1), of b n] assms(2)
      by (cases "b = n") (auto simp: allocatable_def tree_node_def)
  qed
next
  assume r: "\<forall>b \<in> blocks D T. \<not> within n b \<and> \<not> within b n"
  then show "allocatable T n"
    using wf_block_below[OF assms] wf_taken_covers[OF assms] by (auto simp: allocatable_def)
qed

lemma blocks_antichain:
  assumes "tree_wf D T" "a \<in> blocks D T" "b \<in> blocks D T" "within a b"
  shows "a = b"
  using wf_below[OF assms(1), of a b] assms by (auto simp: blocks_def tree_node_def)

text \<open>The states are determined by the blocks.\<close>

lemma tree_wf_unique:
  assumes "tree_wf D T" "tree_wf D T'" "blocks D T = blocks D T'" "tree_node D n"
  shows "T n = T' n"
  using assms(4)
proof (induction "2 ^ Suc D - n" arbitrary: n rule: less_induct)
  case less
  have n: "0 < n" "n < 2 ^ Suc D" using less.prems by (auto simp: tree_node_def)
  have used: "T n = NUsed \<longleftrightarrow> T' n = NUsed"
    using assms(3) less.prems by (auto simp: blocks_def)
  have ok: "node_ok (n < 2 ^ D) (T n) (T (2 * n)) (T (2 * n + 1))"
    "node_ok (n < 2 ^ D) (T' n) (T' (2 * n)) (T' (2 * n + 1))"
    using wf_ok[OF assms(1) less.prems] wf_ok[OF assms(2) less.prems] by (simp_all add: ok_at_def)
  show ?case
  proof (cases "n < 2 ^ D")
    case True
    then have "T (2 * n) = T' (2 * n)" "T (2 * n + 1) = T' (2 * n + 1)"
      using less.hyps[of "2 * n"] less.hyps[of "2 * n + 1"] tree_node_children[OF less.prems True] n
      by (auto simp: diff_less_mono2)
    then show ?thesis using ok used True by (cases "T n"; cases "T' n") auto
  next
    case False
    then show ?thesis using ok used by (cases "T n"; cases "T' n") auto
  qed
qed

section \<open>Marking a node used\<close>

lemma half_eq [simp]: "n div 2 = n \<longleftrightarrow> n = (0::nat)" "n = n div 2 \<longleftrightarrow> n = 0"
  by presburger+

lemma ok_at_upd: "m \<noteq> p \<Longrightarrow> m \<noteq> p div 2 \<Longrightarrow> ok_at D (T(p := v)) m = ok_at D T m"
  by (auto simp: ok_at_def)

lemma blocks_upd: "T p \<noteq> NUsed \<Longrightarrow> v \<noteq> NUsed \<Longrightarrow> blocks D (T(p := v)) = blocks D T"
  by (auto simp: blocks_def)

text \<open>
  The state inside the two loops of \<open>mark_used\<close>: \<open>n\<close> has just left FREE, so only its
  parent may be inconsistent, and the parent is consistent with a child that is not taken.
\<close>

definition pending :: "nat \<Rightarrow> tree \<Rightarrow> nat \<Rightarrow> bool" where
  "pending D T n \<longleftrightarrow> tree_node D n \<and> (\<forall>m. tree_node D m \<and> m \<noteq> n div 2 \<longrightarrow> ok_at D T m) \<and>
     T n \<noteq> NFree \<and> (\<forall>a. a \<noteq> 0 \<and> a \<noteq> n \<and> within n a \<longrightarrow> \<not> taken (T a)) \<and>
     (1 < n \<longrightarrow> (\<exists>st. \<not> taken st \<and> node_ok True (T (n div 2)) st (T (sibling n))))"

text \<open>Moving one level up after the parent has been given the state \<open>v\<close>.\<close>

lemma pending_up:
  assumes "pending D T n" "1 < n" "v \<noteq> NFree" "node_ok True v (T n) (T (sibling n))"
  shows "pending D (T(n div 2 := v)) (n div 2)"
proof -
  let ?p = "n div 2" and ?T = "T(n div 2 := v)"
  have n: "tree_node D n" and p0: "?p \<noteq> 0" "?p < n" using assms by (auto simp: pending_def)
  have sib: "sibling n \<noteq> ?p"
  proof -
    have "sibling n div 2 = ?p" "sibling n \<noteq> 0" using sibling_children[OF assms(2)] p0 by auto
    then show ?thesis by (metis div_less_dividend one_less_numeral_iff semiring_norm(76) neq0_conv less_irrefl)
  qed
  have "ok_at D ?T ?p"
    using assms(4) n assms(2) p0 sib sibling_children[OF assms(2)] by (intro ok_at_parentI) auto
  then have "ok_at D ?T m" if "tree_node D m" "m \<noteq> ?p div 2" for m
    using that assms(1) by (cases "m = ?p") (simp_all add: ok_at_upd pending_def)
  moreover have "\<not> taken (?T a)" if "a \<noteq> 0" "a \<noteq> ?p" "within ?p a" for a
  proof -
    have "within n a" using that(3) by (blast intro: within_trans)
    moreover have "a \<noteq> n" using within_le[OF that(3)] p0 by linarith
    ultimately show ?thesis using assms(1) that by (simp add: pending_def)
  qed
  moreover have "\<exists>st. \<not> taken st \<and> node_ok True (?T (?p div 2)) st (?T (sibling ?p))" if "1 < ?p"
  proof (intro exI[of _ "T ?p"] conjI)
    have "within n ?p" "?p \<noteq> n" using p0 by auto
    then show "\<not> taken (T ?p)" using assms(1) p0 unfolding pending_def by blast
    have nd: "tree_node D ?p" using n assms(2) by (simp add: tree_node_half)
    have "?p div 2 \<noteq> ?p" "tree_node D (?p div 2)" using that nd by (auto simp: tree_node_half)
    then have "ok_at D T (?p div 2)" using assms(1) by (simp add: pending_def)
    then have "node_ok True (T (?p div 2)) (T ?p) (T (sibling ?p))"
      using nd that by (rule ok_at_parent)
    then show "node_ok True (?T (?p div 2)) (T ?p) (?T (sibling ?p))"
      using sibling_children[OF that] that by simp
  qed
  ultimately show ?thesis
    using n assms(2,3) by (simp add: pending_def tree_node_half)
qed

lemma mark_split_wf:
  assumes "pending D T n" "1 < n \<Longrightarrow> \<not> (taken (T n) \<and> taken (T (sibling n)))"
  shows "tree_wf D (mark_split flat T (n div 2)) \<and> blocks D (mark_split flat T (n div 2)) = blocks D T"
  using assms
proof (induction n arbitrary: T rule: less_induct)
  case (less n)
  let ?p = "n div 2"
  show ?case
  proof (cases "1 < n")
    case False
    then have "?p = 0" by simp
    then show ?thesis
      using less.prems(1) by (simp add: mark_split.simps[of _ _ 0] tree_wf_def pending_def tree_node_def)
  next
    case True
    then have p0: "?p \<noteq> 0" "?p < n" by auto
    obtain st where st: "\<not> taken st" "node_ok True (T ?p) st (T (sibling n))"
      using less.prems(1) True by (auto simp: pending_def)
    have tp: "\<not> taken (T ?p)" "T n \<noteq> NFree" "tree_node D n"
      using less.prems(1) p0 by (auto simp: pending_def)
    have good: "node_ok True NSplit (T n) (T (sibling n))"
      using tp less.prems(2)[OF True] by simp
    show ?thesis
    proof (cases "T ?p = NSplit")
      case split: True
      then have "ok_at D T ?p" using good tp(3) True by (intro ok_at_parentI) simp_all
      then have "tree_wf D T" using less.prems(1) by (auto simp: tree_wf_def pending_def)
      then show ?thesis using split p0 by (simp add: mark_split.simps[of _ _ ?p])
    next
      case free: False
      have pend: "pending D (T(?p := NSplit)) ?p"
        using pending_up[OF less.prems(1) True _ good] by simp
      have "tree_wf D (mark_split flat (T(?p := NSplit)) (?p div 2))
          \<and> blocks D (mark_split flat (T(?p := NSplit)) (?p div 2)) = blocks D (T(?p := NSplit))"
        using less.IH[OF p0(2) pend] by (simp add: fun_upd_def)
      moreover have "blocks D (T(?p := NSplit)) = blocks D T" using tp(1) by (intro blocks_upd) auto
      ultimately show ?thesis using free p0 by (simp add: mark_split.simps[of _ _ ?p] fun_upd_def)
    qed
  qed
qed

lemma mark_full_wf:
  assumes "pending D T n" "taken (T n)" "mark_full flat T n = (n', T')"
  shows "pending D T' n' \<and> (1 < n' \<longrightarrow> \<not> taken (T' (sibling n'))) \<and> blocks D T' = blocks D T"
  using assms
proof (induction n arbitrary: T rule: less_induct)
  case (less n)
  let ?p = "n div 2"
  show ?case
  proof (cases "1 < n \<and> taken (T (sibling n))")
    case False
    then show ?thesis using less.prems by (auto simp: mark_full.simps[of _ _ n] split: if_splits)
  next
    case True
    then have p0: "?p \<noteq> 0" "?p < n" by auto
    have good: "node_ok True NFull (T n) (T (sibling n))" using True less.prems(2) by simp
    have pend: "pending D (T(?p := NFull)) ?p"
      using pending_up[OF less.prems(1) _ _ good] True by simp
    have "\<not> taken (T ?p)" using less.prems(1) p0 by (auto simp: pending_def)
    then have "blocks D (T(?p := NFull)) = blocks D T" by (intro blocks_upd) auto
    then show ?thesis
      using less.IH[OF p0(2) pend] less.prems(3) True by (simp add: mark_full.simps[of _ _ n] fun_upd_def)
  qed
qed

theorem mark_used_blocks:
  assumes "tree_wf D T" "tree_node D n" "allocatable T n"
  shows "tree_wf D (mark_used flat T n) \<and> blocks D (mark_used flat T n) = insert n (blocks D T)"
proof -
  let ?T = "T(n := NUsed)"
  have free: "T n = NFree" using assms(3) by (simp add: allocatable_def)
  have ok: "ok_at D ?T m" if "tree_node D m" "m \<noteq> n div 2" for m
  proof (cases "m = n")
    case True
    moreover have "0 < n" using assms(2) by (simp add: tree_node_def)
    ultimately show ?thesis using wf_ok[OF assms(1,2)] free by (simp add: ok_at_def)
  qed (use that wf_ok[OF assms(1)] in \<open>simp add: ok_at_upd\<close>)
  have st: "\<exists>st. \<not> taken st \<and> node_ok True (?T (n div 2)) st (?T (sibling n))" if "1 < n"
    using wf_parent[OF assms(1,2) that] free sibling_children[OF that] that
    by (intro exI[of _ NFree]) simp
  have pend: "pending D ?T n"
    using assms(2,3) ok st by (simp add: pending_def allocatable_def)
  obtain n' T' where full: "mark_full flat ?T n = (n', T')" by (rule prod.exhaust)
  have "blocks D ?T = insert n (blocks D T)" using assms(2) by (auto simp: blocks_def)
  with mark_full_wf[OF pend _ full] mark_split_wf[of D T' n'] full show ?thesis
    by (simp add: mark_used_def)
qed

section \<open>Freeing a block\<close>

lemma free_target_block:
  assumes "tree_wf D T" "b \<in> blocks D T" "tree_node D m" "within m b"
  shows "free_target flat T m = (b, T)"
  using assms(3,4)
proof (induction m rule: less_induct)
  case (less m)
  have b: "tree_node D b" "T b = NUsed" "b \<noteq> 0" using assms(2) by (auto simp: blocks_def tree_node_def)
  show ?case
  proof (cases "m = b")
    case True
    then show ?thesis using b by (subst free_target.simps) simp
  next
    case False
    then have free: "T m = NFree" using wf_below[OF assms(1) less.prems False b(3)] b by simp
    have w: "within (m div 2) b" using less.prems(2) False within_step[of m b] by simp
    then have m: "m div 2 \<noteq> 0" "m div 2 < m" using within_le[OF w] b(3) by auto
    moreover have "tree_node D (m div 2)" using less.prems(1) m by (intro tree_node_half) auto
    ultimately show ?thesis using less.IH[of "m div 2"] w free by (simp add: free_target.simps[of _ _ m])
  qed
qed

text \<open>Inside \<open>unfull\<close>: \<open>c\<close> has just become not taken.\<close>

lemma unfull_wf:
  assumes "tree_node D c" "\<And>m. tree_node D m \<Longrightarrow> m \<noteq> c div 2 \<Longrightarrow> ok_at D T m" "\<not> taken (T c)"
    "1 < c \<Longrightarrow> \<exists>st. taken st \<and> node_ok True (T (c div 2)) st (T (sibling c))"
  shows "(\<forall>m. tree_node D m \<and> m \<noteq> c div 2 \<longrightarrow> ok_at D (unfull flat T (c div 2)) m)
    \<and> (1 < c \<longrightarrow> unfull flat T (c div 2) (c div 2) = NSplit)
    \<and> (\<forall>m. c div 2 < m \<longrightarrow> unfull flat T (c div 2) m = T m)
    \<and> blocks D (unfull flat T (c div 2)) = blocks D T"
  using assms
proof (induction c arbitrary: T rule: less_induct)
  case (less c)
  let ?p = "c div 2"
  show ?case
  proof (cases "1 < c \<and> T ?p = NFull")
    case False
    have "T ?p = NSplit" if "1 < c"
      using less.prems(4)[OF that] False that by (cases "T ?p") auto
    then show ?thesis using less.prems(2) False by (auto simp: unfull.simps[of _ _ ?p])
  next
    case True
    then have p0: "?p \<noteq> 0" "?p < c" by auto
    let ?T = "T(?p := NSplit)"
    have sib: "sibling c \<noteq> ?p" "sibling c \<noteq> c"
      using sibling_children[of c] True p0 by (auto simp: sibling_def elim!: evenE oddE split: if_splits)
    have sibt: "taken (T (sibling c))" using less.prems(4) True by auto
    have nd: "tree_node D ?p" using less.prems(1) True by (simp add: tree_node_half)
    have okp: "ok_at D ?T ?p"
      using less.prems(1,3) True p0 sib sibt by (intro ok_at_parentI) auto
    have ok: "ok_at D ?T m" if "tree_node D m" "m \<noteq> ?p div 2" for m
      using that okp less.prems(2) by (cases "m = ?p") (simp_all add: ok_at_upd)
    have up: "\<exists>st. taken st \<and> node_ok True (?T (?p div 2)) st (?T (sibling ?p))" if "1 < ?p"
    proof -
      have "ok_at D T (?p div 2)"
        using nd that by (intro less.prems(2)) (auto simp: tree_node_half)
      from ok_at_parent[OF this nd that] show ?thesis
        using True sibling_children[OF that] that by (intro exI[of _ NFull]) simp
    qed
    have IH: "(\<forall>m. tree_node D m \<and> m \<noteq> ?p div 2 \<longrightarrow> ok_at D (unfull flat ?T (?p div 2)) m)
      \<and> (1 < ?p \<longrightarrow> unfull flat ?T (?p div 2) (?p div 2) = NSplit)
      \<and> (\<forall>m. ?p div 2 < m \<longrightarrow> unfull flat ?T (?p div 2) m = ?T m)
      \<and> blocks D (unfull flat ?T (?p div 2)) = blocks D ?T"
      by (rule less.IH[OF p0(2) nd]) (use ok up in \<open>simp_all add: fun_upd_def\<close>)
    let ?T' = "unfull flat ?T (?p div 2)"
    have same: "?T' m = ?T m" if "?p div 2 < m" for m using IH that by simp
    have tp: "?T' ?p = NSplit" using same[of ?p] p0 by simp
    have "ok_at D ?T' m" if "tree_node D m" for m
    proof (cases "m = ?p div 2")
      case False
      then show ?thesis using IH that by simp
    next
      case mp: True
      then have p1: "1 < ?p" using that by (auto simp: tree_node_def)
      then have "?T' m = NSplit" using IH mp by simp
      moreover have "\<not> (taken (?T' (sibling ?p)) \<and> False)" by simp
      ultimately have "node_ok True (?T' (?p div 2)) (?T' ?p) (?T' (sibling ?p))"
        using tp mp by simp
      then show ?thesis using nd p1 mp by (auto intro: ok_at_parentI)
    qed
    moreover have "blocks D ?T' = blocks D T" using IH True by (simp add: blocks_upd)
    moreover have "?T' m = T m" if "?p < m" for m using same[of m] that by simp
    moreover have "unfull flat T ?p = ?T'" using True p0 by (simp add: unfull.simps[of _ _ ?p])
    ultimately show ?thesis using tp by simp
  qed
qed

lemma merge_wf:
  assumes "tree_node D n" "T n = NFree" "\<And>m. tree_node D m \<Longrightarrow> m \<noteq> n div 2 \<Longrightarrow> ok_at D T m"
    "1 < n \<Longrightarrow> T (n div 2) = NSplit"
  shows "tree_wf D (merge_buddies flat T n) \<and> blocks D (merge_buddies flat T n) = blocks D T"
  using assms
proof (induction n arbitrary: T rule: less_induct)
  case (less n)
  let ?p = "n div 2"
  show ?case
  proof (cases "1 < n")
    case False
    then have "n div 2 = 0" by simp
    then show ?thesis using less.prems(3) False
      by (simp add: merge_buddies.simps[of _ _ n] tree_wf_def tree_node_def)
  next
    case True
    then have p0: "?p \<noteq> 0" "?p < n" by auto
    have split: "T ?p = NSplit" using less.prems(4) True .
    have nd: "tree_node D ?p" using less.prems(1) True by (simp add: tree_node_half)
    show ?thesis
    proof (cases "T (sibling n) = NFree")
      case False
      then have "ok_at D T ?p"
        using split less.prems(1,2) True by (intro ok_at_parentI) auto
      then have "tree_wf D T" using less.prems(3) by (auto simp: tree_wf_def)
      then show ?thesis using False by (simp add: merge_buddies.simps[of _ _ n])
    next
      case free: True
      let ?T = "T(?p := NFree)"
      have sib: "sibling n \<noteq> ?p"
        using True p0 by (auto simp: sibling_def elim!: evenE oddE split: if_splits)
      have okp: "ok_at D ?T ?p"
        using less.prems(1,2) True p0 sib free by (intro ok_at_parentI) auto
      have ok: "ok_at D ?T m" if "tree_node D m" "m \<noteq> ?p div 2" for m
        using that okp less.prems(3) by (cases "m = ?p") (simp_all add: ok_at_upd)
      have up: "?T (?p div 2) = NSplit" if "1 < ?p"
      proof -
        have "ok_at D T (?p div 2)"
          using nd that by (intro less.prems(3)) (auto simp: tree_node_half)
        from ok_at_parent[OF this nd that] split have "T (?p div 2) = NSplit"
          by (cases "T (?p div 2)") simp_all
        then show ?thesis using that by simp
      qed
      have "blocks D ?T = blocks D T" using split by (intro blocks_upd) simp_all
      then show ?thesis using less.IH[OF p0(2) nd _ ok up] free True
        by (simp add: merge_buddies.simps[of _ _ n] fun_upd_def)
    qed
  qed
qed

theorem tree_free_blocks:
  assumes "tree_wf D T" "b \<in> blocks D T" "tree_node D leaf" "within leaf b" "leaf \<le> nodes"
  obtains T' where "sheap_tree_free flat T nodes leaf = (Inr (), T')" "tree_wf D T'"
    "blocks D T' = blocks D T - {b}"
proof -
  have b: "tree_node D b" "T b = NUsed" "0 < b" using assms(2) by (auto simp: blocks_def tree_node_def)
  have leaf0: "leaf \<noteq> 0" using assms(3) by (simp add: tree_node_def)
  have nosplit: "T leaf \<noteq> NSplit"
    using wf_below[OF assms(1,3,4)] b by (cases "leaf = b") auto
  have target: "free_target flat T leaf = (b, T)" using free_target_block[OF assms(1-4)] .
  let ?T = "T(b := NFree)" and ?U = "unfull flat (T(b := NFree)) (b div 2)"
  have ok: "ok_at D ?T m" if "tree_node D m" "m \<noteq> b div 2" for m
  proof (cases "m = b")
    case True
    then show ?thesis using wf_ok[OF assms(1) b(1)] b by (simp add: ok_at_def)
  qed (use that wf_ok[OF assms(1)] in \<open>simp add: ok_at_upd\<close>)
  have up: "\<exists>st. taken st \<and> node_ok True (?T (b div 2)) st (?T (sibling b))" if "1 < b"
    using wf_parent[OF assms(1) b(1) that] b sibling_children[OF that] that
    by (intro exI[of _ NUsed]) simp
  note u = unfull_wf[OF b(1) ok _ up]
  have "?U b = NFree" using u b by (simp add: fun_upd_def)
  then have m: "tree_wf D (merge_buddies flat ?U b) \<and> blocks D (merge_buddies flat ?U b) = blocks D ?U"
    using u b by (intro merge_wf b(1)) (simp_all add: fun_upd_def)
  have "blocks D ?U = blocks D ?T" using u by (simp add: fun_upd_def)
  then have "blocks D ?U = blocks D T - {b}" by (auto simp: blocks_def)
  with m show ?thesis
    using target leaf0 nosplit assms(5) b(3) that[of "merge_buddies flat ?U b"]
    by (simp add: sheap_tree_free_def Let_def)
qed

end
