(* ===== verification/Sheap_Tree_Alloc.thy ===== *)
theory Sheap_Tree_Alloc
  imports Sheap_Tree_Inv
begin

text \<open>
  The row scan of \<open>__sheap_tree_allocate\<close> as a first-fit search, the fence of the right edge,
  and the two queries, all on a well-formed flat tree.
\<close>

section \<open>The climbs\<close>

lemma within_above: "within n a \<Longrightarrow> within a c \<Longrightarrow> within n c"
  by (rule within_trans)

text \<open>The ancestors of a SPLIT node are SPLIT.\<close>

lemma wf_split_above:
  assumes "tree_wf D T" "tree_node D m" "T m = NSplit" "within m a" "a \<noteq> 0"
  shows "T a = NSplit"
  using assms(2-4)
proof (induction m rule: less_induct)
  case (less m)
  show ?case
  proof (cases "m = a")
    case False
    then have w: "within (m div 2) a" using less.prems(3) within_step[of m a] by simp
    then have m: "1 < m" using within_le[OF w] assms(5) by linarith
    then have "T (m div 2) = NSplit"
      using wf_parent[OF assms(1) less.prems(1) m] less.prems(2) by (cases "T (m div 2)") auto
    then show ?thesis
      using less.IH[of "m div 2"] w m less.prems(1) by (simp add: tree_node_half)
  qed (use less.prems in simp)
qed

text \<open>What \<open>climb_free\<close> returns: no ancestor left, or the lowest one that is not FREE.\<close>

lemma climb_free_spec:
  assumes "climb_free flat T u NFree = (v, st, T')"
  shows "T' = T \<and> (v = 0 \<longrightarrow> (\<forall>a. a \<noteq> 0 \<and> within u a \<longrightarrow> T a = NFree)) \<and>
    (v \<noteq> 0 \<longrightarrow> within u v \<and> st = T v \<and> T v \<noteq> NFree \<and>
       (\<forall>a. a \<noteq> 0 \<and> within u a \<longrightarrow> T a = NFree \<or> within v a))"
  using assms
proof (induction u rule: less_induct)
  case (less u)
  show ?case
  proof (cases "u = 0 \<or> T u \<noteq> NFree")
    case True
    then show ?thesis using less.prems within_le[of 0]
      by (auto simp: climb_free.simps[of _ _ u] dest: within_le split: if_splits)
  next
    case False
    then have "climb_free flat T (u div 2) NFree = (v, st, T')"
      using less.prems by (simp add: climb_free.simps[of _ _ u])
    from less.IH[OF _ this] False show ?thesis
      using within_step[of u] within_above[OF within_parent] by (metis bot_nat_0.not_eq_extremum
          div_less_dividend one_less_numeral_iff semiring_norm(76))
  qed
qed

lemma climb_taken_spec:
  assumes "climb_taken flat T u b = (v, T')" "taken (T b)" "b \<noteq> 0" "within b u"
  shows "T' = T \<and> v \<noteq> 0 \<and> taken (T v) \<and> within b v"
  using assms
proof (induction u arbitrary: b rule: less_induct)
  case (less u)
  show ?case
  proof (cases "u \<noteq> 0 \<and> taken (T u)")
    case True
    then have "climb_taken flat T (u div 2) u = (v, T')" "u div 2 < u"
      using less.prems(1) by (simp_all add: climb_taken.simps[of _ _ u])
    from less.IH[OF this(2,1)] True less.prems(4) show ?thesis
      by (auto intro: within_trans)
  qed (use less.prems in \<open>auto simp: climb_taken.simps[of _ _ u] split: if_splits\<close>)
qed

lemma highest_taken_spec:
  assumes "highest_taken flat T n b = (v, T')"
  shows "T' = T \<and> (v = b \<and> (\<forall>a. a \<noteq> 0 \<and> within n a \<longrightarrow> \<not> taken (T a))
    \<or> v \<noteq> 0 \<and> taken (T v) \<and> within n v)"
  using assms
proof (induction n arbitrary: b rule: less_induct)
  case (less n)
  show ?case
  proof (cases "n = 0")
    case True
    then show ?thesis using less.prems within_le[of 0] by (auto simp: highest_taken.simps[of _ _ 0])
  next
    case False
    then have "highest_taken flat T (n div 2) (if taken (T n) then n else b) = (v, T')"
      using less.prems by (simp add: highest_taken.simps[of _ _ n])
    from less.IH[OF _ this] False have *: "T' = T"
      "v = (if taken (T n) then n else b) \<and> (\<forall>a. a \<noteq> 0 \<and> within (n div 2) a \<longrightarrow> \<not> taken (T a))
       \<or> v \<noteq> 0 \<and> taken (T v) \<and> within (n div 2) v" by auto
    show ?thesis
    proof (cases "v \<noteq> 0 \<and> taken (T v) \<and> within n v")
      case False
      then show ?thesis using * \<open>n \<noteq> 0\<close> within_step[of n] within_trans[OF within_parent, of n]
        by (auto split: if_splits)
    qed (use * in auto)
  qed
qed

section \<open>First fit\<close>

text \<open>\<open>next_right\<close> jumps over exactly the rest of the subtree.\<close>

lemma next_right_value:
  "i div 2 ^ k = b \<Longrightarrow> b \<noteq> 0 \<Longrightarrow> j \<le> k \<Longrightarrow> next_right i ((b + 1) * 2 ^ j) = (b + 1) * 2 ^ k"
proof (induction "k - j" arbitrary: j)
  case 0
  then have "i div 2 ^ k < b + 1" by simp
  then have "i < (b + 1) * 2 ^ k" by (simp only: div_less_iff_less_mult zero_less_power zero_less_numeral)
  with 0 show ?case by (simp add: next_right.simps[of i])
next
  case (Suc x)
  have "2 ^ Suc j \<le> (2::nat) ^ k" using Suc.hyps(2) by (intro power_increasing) auto
  then have "b * 2 ^ Suc j \<le> b * 2 ^ k" by simp
  also have "\<dots> \<le> i" using Suc.prems(1) by (metis div_times_less_eq_dividend)
  finally have "(b + 1) * 2 ^ j \<le> i" using Suc.prems(2)
    by (cases b) (simp_all add: algebra_simps)
  then have "next_right i ((b + 1) * 2 ^ j) = next_right i (2 * ((b + 1) * 2 ^ j))"
    by (subst next_right.simps) simp
  also have "2 * ((b + 1) * 2 ^ j) = (b + 1) * 2 ^ Suc j" by simp
  also have "next_right i \<dots> = (b + 1) * 2 ^ k" using Suc by (intro Suc.hyps(1)) auto
  finally show ?case .
qed

lemma next_right_skips:
  assumes "within i b" "b \<noteq> 0" "i \<le> j" "j < next_right i (b + 1)"
  shows "within j b"
proof -
  obtain k where k: "i div 2 ^ k = b" using assms(1) by (auto simp: within_def)
  then have "next_right i (b + 1) = (b + 1) * 2 ^ k"
    using next_right_value[of i k b 0] assms(2) by simp
  moreover have "b * 2 ^ k \<le> i" using k by (metis div_times_less_eq_dividend)
  ultimately have "j div 2 ^ k = b" using assms(3,4)
    by (intro div_nat_eqI) (simp_all add: mult.commute)
  then show ?thesis unfolding within_def by blast
qed

definition first_fit :: "tree \<Rightarrow> nat \<Rightarrow> nat \<Rightarrow> nat option" where
  "first_fit T lo hi = find (allocatable T) [lo..<hi]"

lemma first_fit_empty [simp]: "hi \<le> lo \<Longrightarrow> first_fit T lo hi = None"
  by (simp add: first_fit_def)

lemma first_fit_step: "lo < hi \<Longrightarrow>
    first_fit T lo hi = (if allocatable T lo then Some lo else first_fit T (Suc lo) hi)"
  by (simp add: first_fit_def upt_conv_Cons)

lemma first_fit_skip:
  "lo \<le> mid \<Longrightarrow> (\<And>j. lo \<le> j \<Longrightarrow> j < mid \<Longrightarrow> \<not> allocatable T j) \<Longrightarrow>
     first_fit T lo hi = first_fit T mid hi"
proof (induction "mid - lo" arbitrary: lo)
  case (Suc x)
  then have IH: "first_fit T (Suc lo) hi = first_fit T mid hi" by (intro Suc.hyps(1)) auto
  have "\<not> allocatable T lo" using Suc.hyps(2) by (intro Suc.prems(2)) auto
  then show ?case using IH Suc.hyps(2) by (cases "lo < hi") (simp_all add: first_fit_step)
qed simp

lemma first_fit_Some: "first_fit T lo hi = Some n \<longleftrightarrow>
    lo \<le> n \<and> n < hi \<and> allocatable T n \<and> (\<forall>m. lo \<le> m \<and> m < n \<longrightarrow> \<not> allocatable T m)"
proof (induction "hi - lo" arbitrary: lo)
  case (Suc x)
  then have "lo < hi" by simp
  moreover have "lo \<le> n \<longleftrightarrow> lo = n \<or> Suc lo \<le> n" by auto
  ultimately show ?case using Suc.hyps(1)[of "Suc lo"] Suc.hyps(2)
    by (auto simp: first_fit_step le_Suc_eq Suc_le_eq) (metis le_neq_implies_less)+
qed auto

lemma first_fit_None: "first_fit T lo hi = None \<longleftrightarrow> (\<forall>m. lo \<le> m \<and> m < hi \<longrightarrow> \<not> allocatable T m)"
  by (auto simp: first_fit_def find_None_iff)

lemma taken_skip:
  assumes "within i b" "b \<noteq> 0" "taken (T b)"
  shows "first_fit T i stop = first_fit T (next_right i (b + 1)) stop"
proof (rule first_fit_skip)
  show "i \<le> next_right i (b + 1)" using next_right_greater[of "b + 1" i] by simp
  fix j assume "i \<le> j" "j < next_right i (b + 1)"
  then have "within j b" using next_right_skips[OF assms(1,2)] by blast
  then show "\<not> allocatable T j" using assms(2,3) by (auto simp: allocatable_def)
qed

lemma alloc_scan_first_fit:
  assumes "tree_wf D T" "0 < i" "stop \<le> 2 ^ Suc D"
  shows "alloc_scan flat T i stop =
    (case first_fit T i stop of None \<Rightarrow> (0, T) | Some n \<Rightarrow> (n, mark_used flat T n))"
  using assms(2)
proof (induction "stop - i" arbitrary: i rule: less_induct)
  case less
  show ?case
  proof (cases "i < stop")
    case False
    then show ?thesis by (simp add: alloc_scan.simps[of _ _ i])
  next
    case True
    have nd: "tree_node D i" using True less.prems assms(3) by (simp add: tree_node_def)
    have IH: "alloc_scan flat T j stop =
        (case first_fit T j stop of None \<Rightarrow> (0, T) | Some n \<Rightarrow> (n, mark_used flat T n))" if "i < j" for j
      using less.hyps[of j] that True less.prems by (simp add: diff_less_mono2)
    have nxt: "i < next_right i (Suc b)" for b by (rule next_right_greater) simp
    show ?thesis
    proof (cases "T i = NFree")
      case free: True
      obtain u st T1 where u: "climb_free flat T (i div 2) NFree = (u, st, T1)" by (rule prod_cases3)
      note us = climb_free_spec[OF u]
      show ?thesis
      proof (cases "u = 0 \<or> st = NSplit")
        case ok: True
        have "allocatable T i"
          unfolding allocatable_def
        proof (intro conjI allI impI free)
          fix a assume a: "a \<noteq> 0 \<and> within i a"
          show "\<not> taken (T a)"
          proof (cases "a = i")
            case False
            then have w: "within (i div 2) a" using a within_step[of i a] by simp
            show ?thesis
            proof (cases "T a = NFree")
              case False
              then have ua: "u \<noteq> 0" "within u a" using us a w by auto
              then have "tree_node D u" "T u = NSplit"
                using us ok within_node[OF nd within_trans[OF within_parent, of i u]] by auto
              then show ?thesis using wf_split_above[OF assms(1) _ _ ua(2)] a by simp
            qed simp
          qed (use free in simp)
        qed
        then show ?thesis
          using True free u us ok by (simp add: alloc_scan.simps[of _ _ i] first_fit_step)
      next
        case False
        then have tk: "u \<noteq> 0" "taken (T u)" "within (i div 2) u"
          using us by (auto simp: taken_def) (metis node_state.exhaust)
        obtain b T2 where b: "climb_taken flat T (u div 2) u = (b, T2)" by (rule prod.exhaust)
        note bs = climb_taken_spec[OF b tk(2,1) within_parent]
        have "within i b" using bs tk(3) by (blast intro: within_trans)
        then have "first_fit T i stop = first_fit T (next_right i (b + 1)) stop"
          using bs by (intro taken_skip) auto
        then show ?thesis
          using True free False u us b bs IH[OF nxt[of b]] by (simp add: alloc_scan.simps[of _ _ i])
      qed
    next
      case notfree: False
      obtain b T2 where b: "highest_taken flat T i 0 = (b, T2)" by (rule prod.exhaust)
      note bs = highest_taken_spec[OF b]
      show ?thesis
      proof (cases "b = 0")
        case True
        have "\<not> allocatable T i" using notfree by (simp add: allocatable_def)
        then show ?thesis using True \<open>i < stop\<close> notfree b bs IH[of "Suc i"]
          by (simp add: alloc_scan.simps[of _ _ i] first_fit_step)
      next
        case False
        then have "first_fit T i stop = first_fit T (next_right i (b + 1)) stop"
          using bs by (intro taken_skip) auto
        then show ?thesis using False True notfree b bs IH[OF nxt[of b]]
          by (simp add: alloc_scan.simps[of _ _ i])
      qed
    qed
  qed
qed

text \<open>\<open>__sheap_tree_allocate\<close> hands out the first allocatable node of the row, short of the last.\<close>

theorem allocate_first_fit:
  assumes "tree_wf D T" "nodes < 2 ^ Suc D" "row \<le> 31"
  shows "sheap_tree_allocate flat T nodes row =
    (case first_fit T (2 ^ row) (min (2 ^ Suc row - 1) nodes) of
       None \<Rightarrow> (0, T) | Some n \<Rightarrow> (n, mark_used flat T n))"
proof -
  have "alloc_scan flat T (2 ^ row) (min (2 ^ Suc row - 1) nodes) =
    (case first_fit T (2 ^ row) (min (2 ^ Suc row - 1) nodes) of
       None \<Rightarrow> (0, T) | Some n \<Rightarrow> (n, mark_used flat T n))"
    using assms by (intro alloc_scan_first_fit[of D]) simp_all
  moreover have "(if 2 * 2 ^ row - 1 > nodes then nodes else 2 * 2 ^ row - 1) = min (2 ^ Suc row - 1) nodes"
    by (simp add: min_def)
  ultimately show ?thesis using assms(3) by (simp only: sheap_tree_allocate_def Let_def) simp
qed

text \<open>A successful allocation adds one block, disjoint from the others.\<close>

theorem allocate_blocks:
  assumes "tree_wf D T" "nodes < 2 ^ Suc D" "sheap_tree_allocate flat T nodes row = (n, T')" "n \<noteq> 0"
  shows "flog2 n = row \<and> n < nodes \<and> (\<forall>b \<in> blocks D T. \<not> within n b \<and> \<not> within b n)
    \<and> tree_wf D T' \<and> blocks D T' = insert n (blocks D T)"
proof -
  have row: "row \<le> 31" using assms(3,4) by (auto simp: sheap_tree_allocate_def split: if_splits)
  obtain n0 where "first_fit T (2 ^ row) (min (2 ^ Suc row - 1) nodes) = Some n0"
    using allocate_first_fit[OF assms(1,2) row] assms(3,4) by (auto split: option.splits)
  moreover from this have n0: "n = n0" "T' = mark_used flat T n"
    using allocate_first_fit[OF assms(1,2) row] assms(3,4) by simp_all
  ultimately have n: "2 ^ row \<le> n" "n < 2 ^ Suc row" "n < nodes" "allocatable T n"
    by (auto simp: first_fit_Some)
  then have nd: "tree_node D n" using assms(2,4) by (simp add: tree_node_def)
  show ?thesis
    using mark_used_blocks[OF assms(1) nd n(4)] allocatable_iff[OF assms(1) nd] n n0(2) flog2_unique[OF n(1,2)]
    by blast
qed

section \<open>Leaves\<close>

text \<open>A leaf is covered when it lies in a block; its bytes are then not free.\<close>

definition leaf :: "nat \<Rightarrow> nat \<Rightarrow> bool" where
  "leaf D m \<longleftrightarrow> 2 ^ D \<le> m \<and> m < 2 ^ Suc D"

definition covered :: "nat \<Rightarrow> tree \<Rightarrow> nat \<Rightarrow> bool" where
  "covered D T m \<longleftrightarrow> (\<exists>b \<in> blocks D T. within m b)"

lemma leaf_node: "leaf D m \<Longrightarrow> tree_node D m"
  using zero_less_power[of "2::nat" D] by (auto simp: leaf_def tree_node_def intro: less_le_trans)

lemma leaf_row: "leaf D m \<longleftrightarrow> 0 < m \<and> flog2 m = D"
  using flog2_unique[of D m] flog2_lower[of m] flog2_upper[of m] leaf_node[of D m]
  by (auto simp: leaf_def tree_node_def)

lemma tree_node_row: "tree_node D n \<longleftrightarrow> 0 < n \<and> flog2 n \<le> D"
proof -
  have "flog2 n \<le> D \<longleftrightarrow> \<not> 2 ^ Suc D \<le> n" if "0 < n"
    using flog2_le_iff[OF that, of "Suc D"] by auto
  then show ?thesis by (auto simp: tree_node_def not_le simp del: power_Suc)
qed

text \<open>The leaves below a node of row \<open>r\<close> are those with quotient \<open>n\<close>.\<close>

lemma within_leaf:
  assumes "leaf D m" "tree_node D n"
  shows "within m n \<longleftrightarrow> m div 2 ^ (D - flog2 n) = n"
proof
  assume "within m n"
  then obtain k where k: "m div 2 ^ k = n" by (auto simp: within_def)
  then have "flog2 n + k = D" using flog2_shift[of m k] assms by (auto simp: leaf_row tree_node_def)
  then show "m div 2 ^ (D - flog2 n) = n" using k by auto
qed (auto simp: within_def)

lemma within_leaf_range:
  assumes "leaf D m" "tree_node D n"
  shows "within m n \<longleftrightarrow> walk_start D n \<le> m \<and> m < Suc n * 2 ^ (D - flog2 n)"
proof -
  have "m div 2 ^ k = n \<longleftrightarrow> n * 2 ^ k \<le> m \<and> m < Suc n * 2 ^ k" for k
    using div_less_iff_less_mult[of "2 ^ k" m "Suc n"] less_eq_div_iff_mult_less_eq[of "2 ^ k" n m]
    by auto
  then show ?thesis by (simp add: within_leaf[OF assms] walk_start_def)
qed

section \<open>The fence\<close>

lemma fence_exit:
  assumes "1 < n" "n < 2 ^ 32" "sheap_ceil_pow2 (of_nat n) - of_nat n = (1 :: u64)"
  shows "Suc n = 2 ^ Suc (flog2 n)"
proof -
  have un: "unat (of_nat n :: u64) = n" using assms(2) by (intro unat_of_nat_small) simp
  have c: "unat (sheap_ceil_pow2 (of_nat n)) = ceil2 n"
    using assms(2) by (subst unat_ceil_pow2) (simp_all add: un)
  have "(of_nat n :: u64) \<le> sheap_ceil_pow2 (of_nat n)"
    by (simp add: word_le_nat_alt un c ceil2_ge)
  then have "ceil2 n - n = unat (1 :: u64)" using assms(3) unat_sub un c by metis
  then have e: "ceil2 n = Suc n" by simp
  then obtain k where k: "Suc n = 2 ^ k" using ceil2_is_power[of n] assms(1) by auto
  then obtain j where j: "k = Suc j" using assms(1) by (cases k) auto
  have "Suc n = 2 * 2 ^ j" "1 \<le> (2::nat) ^ j" using k j by simp_all
  then have "2 ^ j \<le> n" "n < 2 ^ Suc j" by auto
  then have "flog2 n = j" by (rule flog2_unique)
  then show ?thesis using k j by simp
qed

text \<open>Right of node \<open>n\<close>, seen from leaf \<open>m\<close>.\<close>

lemma div_half_less: "n div 2 < x div 2 \<or> (even n \<and> x = n + 1) \<longleftrightarrow> n < x" for n x :: nat
  by presburger

lemma fence_general:
  assumes "tree_wf D T" "tree_node D n" "n < 2 ^ 32" "\<forall>b \<in> blocks D T. within b n"
  shows "tree_wf D (sheap_tree_fence flat T n) \<and>
    (\<forall>m. leaf D m \<longrightarrow> (covered D (sheap_tree_fence flat T n) m \<longleftrightarrow>
        covered D T m \<or> n < m div 2 ^ (D - flog2 n)))"
  using assms
proof (induction n arbitrary: T rule: less_induct)
  case (less n)
  have row: "flog2 n \<le> D" "0 < n" using less.prems(2) by (simp_all add: tree_node_row)
  show ?case
  proof (cases "1 < n \<and> sheap_ceil_pow2 (of_nat n) - of_nat n \<noteq> (1 :: u64)")
    case False
    have last: "Suc n = 2 ^ Suc (flog2 n)"
      using False fence_exit[OF _ less.prems(3)] row by (cases "n = 1") auto
    have "\<not> n < m div 2 ^ (D - flog2 n)" if "leaf D m" for m
    proof -
      have "2 ^ Suc D = 2 ^ Suc (flog2 n) * (2::nat) ^ (D - flog2 n)"
        using row(1) by (simp flip: power_add)
      then have "m < Suc n * 2 ^ (D - flog2 n)" using that last by (simp add: leaf_def)
      then have "m div 2 ^ (D - flog2 n) < Suc n" by (simp only: div_less_iff_less_mult zero_less_power zero_less_numeral)
      then show ?thesis by simp
    qed
    then show ?thesis using less.prems(1) False by (auto simp: sheap_tree_fence.simps[of _ _ n])
  next
    case True
    then have p: "n div 2 < n" "flog2 n = Suc (flog2 (n div 2))" "D - flog2 (n div 2) = Suc (D - flog2 n)"
      using row by (auto simp: flog2_step)
    have nd: "tree_node D (n div 2)" using less.prems(2) True by (simp add: tree_node_half)
    let ?T = "if even n then mark_used flat T (n + 1) else T"
    have step: "tree_wf D ?T \<and> blocks D ?T = (if even n then {n + 1} else {}) \<union> blocks D T"
    proof (cases "even n")
      case even: True
      have n1: "tree_node D (n + 1)"
        using tree_node_sibling[OF less.prems(2)] True even by (simp add: sibling_def)
      have row1: "flog2 (n + 1) = flog2 n" using even row(2) by (auto elim!: evenE)
      have "\<not> within (n + 1) b \<and> \<not> within b (n + 1)" if b: "b \<in> blocks D T" for b
      proof -
        have w: "within b n" using less.prems(4) b by blast
        have no: "\<not> within (n + 1) n" "\<not> within n (n + 1)"
          using even within_step[of "n + 1" n] within_step[of n "n + 1"] row(2)
          by (auto dest: within_le elim!: evenE)
        then show ?thesis using w within_trans[of "n + 1" b n] within_linear[of b n "n + 1"] by blast
      qed
      then have "allocatable T (n + 1)" using allocatable_iff[OF less.prems(1) n1] by blast
      then show ?thesis using mark_used_blocks[OF less.prems(1) n1] even by simp
    qed (use less.prems(1) in simp)
    have "\<forall>b \<in> blocks D ?T. within b (n div 2)"
      using step less.prems(4) within_half by (auto intro: within_half simp: within_step[of "Suc n"])
    then have IH: "tree_wf D (sheap_tree_fence flat ?T (n div 2)) \<and>
      (\<forall>m. leaf D m \<longrightarrow> (covered D (sheap_tree_fence flat ?T (n div 2)) m \<longleftrightarrow>
        covered D ?T m \<or> n div 2 < m div 2 ^ (D - flog2 (n div 2))))"
      using step less.prems(3) by (intro less.IH p(1) nd) auto
    have eq: "sheap_tree_fence flat T n = sheap_tree_fence flat ?T (n div 2)"
      using True by (simp add: sheap_tree_fence.simps[of _ _ n])
    have cov: "covered D ?T m \<longleftrightarrow> covered D T m \<or> (even n \<and> m div 2 ^ (D - flog2 n) = n + 1)"
      if "leaf D m" for m
    proof (cases "even n")
      case even: True
      have n1: "tree_node D (n + 1)"
        using tree_node_sibling[OF less.prems(2)] True even by (simp add: sibling_def)
      have "flog2 (n + 1) = flog2 n" using even row(2) by (auto elim!: evenE)
      then show ?thesis using step even within_leaf[OF that n1] by (auto simp: covered_def)
    qed (use step in \<open>simp add: covered_def\<close>)
    have "n div 2 < m div 2 ^ (D - flog2 (n div 2)) \<or> (even n \<and> m div 2 ^ (D - flog2 n) = n + 1)
      \<longleftrightarrow> n < m div 2 ^ (D - flog2 n)" for m
      using div_half_less[of n "m div 2 ^ (D - flog2 n)"] by (simp only: p(3) power_Suc2 div_mult2_eq)
    then show ?thesis using IH cov eq by auto
  qed
qed

text \<open>On an all-FREE tree the fence covers exactly the leaves past the last real one.\<close>

theorem fence_covers:
  assumes "0 < nodes" "nodes < 2 ^ 32"
  defines "D \<equiv> flog2 nodes"
  shows "tree_wf D (sheap_tree_fence flat (\<lambda>_. NFree) nodes)"
    and "leaf D m \<Longrightarrow> covered D (sheap_tree_fence flat (\<lambda>_. NFree) nodes) m \<longleftrightarrow> nodes < m"
proof -
  have wf: "tree_wf D (\<lambda>_. NFree)" by (simp add: tree_wf_def ok_at_def)
  have nb: "blocks D (\<lambda>_. NFree) = {}" by (simp add: blocks_def)
  have nd: "tree_node D nodes" using assms by (simp add: tree_node_row)
  note f = fence_general[OF wf nd assms(2)]
  show "tree_wf D (sheap_tree_fence flat (\<lambda>_. NFree) nodes)" using f nb by simp
  show "leaf D m \<Longrightarrow> covered D (sheap_tree_fence flat (\<lambda>_. NFree) nodes) m \<longleftrightarrow> nodes < m"
    using f nb by (simp add: covered_def D_def)
qed

section \<open>Queries\<close>

text \<open>A node that is not taken and has no taken ancestor has an uncovered leaf.\<close>

lemma wf_uncovered_leaf:
  assumes "tree_wf D T" "tree_node D n" "\<forall>a. a \<noteq> 0 \<and> within n a \<longrightarrow> \<not> taken (T a)"
  shows "\<exists>m. leaf D m \<and> within m n \<and> \<not> covered D T m"
  using assms(2,3)
proof (induction "2 ^ Suc D - n" arbitrary: n rule: less_induct)
  case less
  have n: "0 < n" "n < 2 ^ Suc D" using less.prems(1) by (auto simp: tree_node_def)
  show ?case
  proof (cases "n < 2 ^ D")
    case False
    then have "leaf D n" using n by (simp add: leaf_def)
    moreover have "\<not> covered D T n"
      using less.prems(2) by (auto simp: covered_def blocks_def tree_node_def)
    ultimately show ?thesis by blast
  next
    case True
    have "node_ok True (T n) (T (2 * n)) (T (2 * n + 1))"
      using wf_ok[OF assms(1) less.prems(1)] True by (simp add: ok_at_def)
    moreover have "\<not> taken (T n)" using less.prems(2) n by blast
    ultimately have "\<not> taken (T (2 * n)) \<or> \<not> taken (T (2 * n + 1))" by (cases "T n") auto
    then obtain c where c: "c = 2 * n \<or> c = 2 * n + 1" "\<not> taken (T c)" by blast
    then have half: "c div 2 = n" "n < c" using n by auto
    have "\<not> taken (T a)" if "a \<noteq> 0" "within c a" for a
      using within_step[of c a] that c(2) half less.prems(2) by auto
    then obtain m where "leaf D m" "within m c" "\<not> covered D T m"
      using less.hyps[of c] half n tree_node_children[OF less.prems(1) True] c(1)
      by (auto simp: diff_less_mono2)
    moreover have "within c n" using half by auto
    ultimately show ?thesis by (blast intro: within_trans)
  qed
qed

lemma leaf_within_leaf: "leaf D m \<Longrightarrow> within b m \<Longrightarrow> tree_node D b \<Longrightarrow> b = m"
proof -
  assume m: "leaf D m" and w: "within b m" and b: "tree_node D b"
  have "m \<le> b" using within_le[OF w] .
  then have "leaf D b" using m b by (simp add: leaf_def tree_node_def)
  then show "b = m" using within_leaf[of D b m] m leaf_node[OF m] w by (simp add: leaf_row)
qed

lemma taken_all_covered:
  assumes "tree_wf D T" "taken (T n)" "n \<noteq> 0" "leaf D m" "within m n"
  shows "covered D T m"
proof -
  obtain b where b: "b \<in> blocks D T" "within m b \<or> within b m"
    using wf_taken_covers[OF assms(1) leaf_node[OF assms(4)] assms(5,3,2)] by blast
  then have "within m b" using leaf_within_leaf[OF assms(4)] by (auto simp: blocks_def)
  then show ?thesis using b(1) by (auto simp: covered_def)
qed

lemma free_none_covered:
  assumes "tree_wf D T" "T n = NFree" "\<forall>a. a \<noteq> 0 \<and> a \<noteq> n \<and> within n a \<longrightarrow> T a = NSplit"
    "tree_node D n" "leaf D m" "within m n"
  shows "\<not> covered D T m"
proof
  assume "covered D T m"
  then obtain b where b: "b \<in> blocks D T" "within m b" by (auto simp: covered_def)
  have "allocatable T n" using assms(2,3) by (auto simp: allocatable_def)
  then have "\<not> within n b" "\<not> within b n"
    using allocatable_iff[OF assms(1,4)] b(1) by blast+
  then show False using within_linear[OF assms(6) b(2)] by blast
qed

text \<open>The free leaves to the left of position \<open>p\<close>.\<close>

definition free_left :: "nat \<Rightarrow> tree \<Rightarrow> nat \<Rightarrow> nat set" where
  "free_left D T p = {m. leaf D m \<and> m < p \<and> \<not> covered D T m}"

lemma finite_free_left [simp]: "finite (free_left D T p)"
  by (rule finite_subset[of _ "{..<p}"]) (auto simp: free_left_def)

lemma walk_end: "flog2 n \<le> D \<Longrightarrow> walk_start D n + 2 ^ (D - flog2 n) = Suc n * 2 ^ (D - flog2 n)"
  by (simp add: walk_start_def)

lemma node_leaves:
  assumes "tree_node D n" "walk_start D n \<le> m" "m < Suc n * 2 ^ (D - flog2 n)"
  shows "leaf D m"
proof -
  have n: "0 < n" "flog2 n \<le> D" using assms(1) by (simp_all add: tree_node_row)
  have "2 ^ D = 2 ^ flog2 n * (2::nat) ^ (D - flog2 n)" using n(2) by (simp flip: power_add)
  also have "\<dots> \<le> n * 2 ^ (D - flog2 n)" using flog2_lower[OF n(1)] by simp
  finally have "2 ^ D \<le> m" using assms(2) by (simp add: walk_start_def)
  have "Suc n * 2 ^ (D - flog2 n) \<le> 2 ^ Suc (flog2 n) * (2::nat) ^ (D - flog2 n)"
    using flog2_upper[of n] by (intro mult_le_mono1) (simp del: power_Suc)
  also have "\<dots> = 2 ^ Suc D" using n(2) by (simp flip: power_add)
  finally show ?thesis using \<open>2 ^ D \<le> m\<close> assms(3) unfolding leaf_def by linarith
qed

lemma free_left_free:
  assumes "tree_node D n" "\<And>m. leaf D m \<Longrightarrow> within m n \<Longrightarrow> \<not> covered D T m"
  shows "card (free_left D T (Suc n * 2 ^ (D - flog2 n)))
    = card (free_left D T (walk_start D n)) + 2 ^ (D - flog2 n)"
proof -
  let ?I = "{walk_start D n ..< Suc n * 2 ^ (D - flog2 n)}"
  have r: "flog2 n \<le> D" using assms(1) by (simp add: tree_node_row)
  have *: "leaf D m \<and> \<not> covered D T m" if "m \<in> ?I" for m
    using that node_leaves[OF assms(1), of m] within_leaf_range[OF _ assms(1), of m] assms(2)[of m] by auto
  have "free_left D T (Suc n * 2 ^ (D - flog2 n)) = free_left D T (walk_start D n) \<union> ?I"
  proof (intro set_eqI iffI)
    fix m assume "m \<in> free_left D T (Suc n * 2 ^ (D - flog2 n))"
    then show "m \<in> free_left D T (walk_start D n) \<union> ?I" by (auto simp: free_left_def)
  next
    fix m assume "m \<in> free_left D T (walk_start D n) \<union> ?I"
    then show "m \<in> free_left D T (Suc n * 2 ^ (D - flog2 n))"
      using * walk_end[OF r] by (auto simp: free_left_def)
  qed
  moreover have "free_left D T (walk_start D n) \<inter> ?I = {}" by (auto simp: free_left_def)
  ultimately have "card (free_left D T (Suc n * 2 ^ (D - flog2 n))) = card (free_left D T (walk_start D n)) + card ?I"
    by (simp add: card_Un_disjoint)
  moreover have "card ?I = 2 ^ (D - flog2 n)" using walk_end[OF r] by simp
  ultimately show ?thesis by simp
qed

lemma free_left_taken:
  assumes "tree_node D n" "\<And>m. leaf D m \<Longrightarrow> within m n \<Longrightarrow> covered D T m"
  shows "free_left D T (Suc n * 2 ^ (D - flog2 n)) = free_left D T (walk_start D n)"
proof -
  have "flog2 n \<le> D" using assms(1) by (simp add: tree_node_row)
  from walk_end[OF this] show ?thesis
    using within_leaf_range[OF _ assms(1)] assms(2) by (fastforce simp: free_left_def)
qed

definition leaf_bytes :: "nat \<Rightarrow> u64" where
  "leaf_bytes k = of_nat (128 * k)"

lemma leaf_bytes_add [simp]: "leaf_bytes j + leaf_bytes k = leaf_bytes (j + k)"
  by (simp add: leaf_bytes_def algebra_simps)

lemma node_bytes:
  assumes "0 < n" "flog2 n \<le> D" "D \<le> 31"
  shows "drop_bit (sheap_floor_log2 (of_nat n)) (leaf_bytes (2 ^ D)) = leaf_bytes (2 ^ (D - flog2 n))"
proof -
  have "2 ^ Suc (flog2 n) \<le> (2::nat) ^ 32" using assms by (intro power_increasing) auto
  then have n: "n < 2 ^ 32" using flog2_upper[of n] by linarith
  then have "unat (of_nat n :: u64) = n" by (intro unat_of_nat_small) simp
  moreover have "flog2 n \<le> 63" using assms by simp
  ultimately have fl: "sheap_floor_log2 (of_nat n) = flog2 n"
    by (simp add: sheap_floor_log2_def clzll_def)
  have small: "unat (leaf_bytes (2 ^ k)) = 128 * 2 ^ k" if "k \<le> 31" for k
  proof -
    have "(2::nat) ^ k \<le> 2 ^ 31" using that by (intro power_increasing) auto
    then show ?thesis unfolding leaf_bytes_def by (intro unat_of_nat_small) simp
  qed
  have "unat (drop_bit (flog2 n) (leaf_bytes (2 ^ D))) = 128 * 2 ^ D div 2 ^ flog2 n"
    using small[OF assms(3)] by (simp add: unat_shiftr)
  also have "(128::nat) * 2 ^ D = 128 * 2 ^ (D - flog2 n) * 2 ^ flog2 n"
    using assms(2) by (simp flip: power_add)
  also have "\<dots> div 2 ^ flog2 n = 128 * 2 ^ (D - flog2 n)" by simp
  also have "\<dots> = unat (leaf_bytes (2 ^ (D - flog2 n)))" using assms(3) by (subst small) auto
  finally show ?thesis unfolding fl by (simp only: word_unat_eq_iff)
qed

text \<open>
  The walk, from a node with only SPLIT ancestors and the free bytes to its left already
  counted, ends with all free bytes counted.
\<close>

lemma walk_loop_total:
  assumes "tree_wf D T" "D \<le> 31" "nodes < 2 ^ Suc D" "\<And>m. leaf D m \<Longrightarrow> nodes < m \<Longrightarrow> covered D T m"
    "2 ^ D \<le> nodes"
    "tree_node D n" "\<And>a. a \<noteq> 0 \<Longrightarrow> a \<noteq> n \<Longrightarrow> within n a \<Longrightarrow> T a = NSplit"
    "acc = leaf_bytes (card (free_left D T (walk_start D n)))"
  shows "walk_loop flat nodes (leaf_bytes (2 ^ D)) T n acc =
    (leaf_bytes (card {m. leaf D m \<and> \<not> covered D T m}), T)"
proof -
  have "t = flat \<longrightarrow> s = T \<longrightarrow> nds = nodes \<longrightarrow> root = leaf_bytes (2 ^ D) \<longrightarrow> tree_node D n \<longrightarrow>
    (\<forall>a. a \<noteq> 0 \<and> a \<noteq> n \<and> within n a \<longrightarrow> T a = NSplit) \<longrightarrow>
    acc = leaf_bytes (card (free_left D T (walk_start D n))) \<longrightarrow>
    walk_loop t nds root s n acc = (leaf_bytes (card {m. leaf D m \<and> \<not> covered D T m}), T)"
    for t nds root s n acc
  proof (induction t nds root s n acc rule: walk_loop.induct)
    case (1 t nds root s n acc)
    show ?case
    proof (intro impI)
      assume eqs: "t = flat" "s = T" "nds = nodes" "root = leaf_bytes (2 ^ D)"
        and nd: "tree_node D n" and anc: "\<forall>a. a \<noteq> 0 \<and> a \<noteq> n \<and> within n a \<longrightarrow> T a = NSplit"
        and acc: "acc = leaf_bytes (card (free_left D T (walk_start D n)))"
      have n: "0 < n" "flog2 n \<le> D" using nd by (simp_all add: tree_node_row)
      let ?e = "Suc n * 2 ^ (D - flog2 n)"
      show "walk_loop t nds root s n acc = (leaf_bytes (card {m. leaf D m \<and> \<not> covered D T m}), T)"
      proof (cases "T n = NSplit")
        case split: True
        have inner: "n < 2 ^ D" using wf_ok[OF assms(1) nd] split by (simp add: ok_at_def)
        have "\<not> taken (T a)" if "a \<noteq> 0" "within n a" for a
          using anc that split by (cases "a = n") auto
        then obtain m where m: "leaf D m" "within m n" "\<not> covered D T m"
          using wf_uncovered_leaf[OF assms(1) nd] by blast
        then have "m \<le> nodes" using assms(4)[of m] by (meson not_le)
        moreover have row: "flog2 (2 * n) = Suc (flog2 n)" "Suc (flog2 n) \<le> D"
          using n(1) tree_node_children[OF nd inner] by (simp_all add: tree_node_row)
        moreover have st: "walk_start D (2 * n) = walk_start D n"
          using row by (simp add: walk_start_def Suc_diff_Suc flip: power_Suc)
        moreover have "2 * n \<le> walk_start D (2 * n)" by (simp add: walk_start_def)
        moreover have "walk_start D n \<le> m" using within_leaf_range[OF m(1) nd] m(2) by simp
        ultimately have le: "2 * n \<le> nodes" by simp
        have "T a = NSplit" if "a \<noteq> 0" "a \<noteq> 2 * n" "within (2 * n) a" for a
          using that within_step[of "2 * n" a] anc split by (cases "a = n") auto
        then have "walk_loop flat nodes (leaf_bytes (2 ^ D)) T (2 * n) acc
            = (leaf_bytes (card {m. leaf D m \<and> \<not> covered D T m}), T)"
          using 1(1)[of "T n" T] eqs split le n tree_node_children[OF nd inner] acc st by auto
        then show ?thesis using eqs split le n by (simp add: walk_loop.simps[of _ _ _ _ n])
      next
        case nosplit: False
        let ?acc = "if T n = NFree then acc + drop_bit (sheap_floor_log2 (of_nat n)) root else acc"
        have acc': "?acc = leaf_bytes (card (free_left D T ?e))"
        proof (cases "T n = NFree")
          case True
          then have "card (free_left D T ?e) = card (free_left D T (walk_start D n)) + 2 ^ (D - flog2 n)"
            using free_none_covered[OF assms(1) True anc nd] by (intro free_left_free nd) auto
          then show ?thesis using True acc n assms(2) by (simp add: eqs node_bytes)
        next
          case False
          then have "taken (T n)" using nosplit by (cases "T n") auto
          then have "free_left D T ?e = free_left D T (walk_start D n)"
            using taken_all_covered[OF assms(1)] n by (intro free_left_taken nd) auto
          then show ?thesis using False acc by simp
        qed
        obtain k where k: "Suc n = Suc (walk_up n) * 2 ^ k" "walk_up n = n div 2 ^ k" "even (walk_up n)"
          using walk_up_ends by blast
        show ?thesis
        proof (cases "walk_up n = 0")
          case True
          then have "Suc n = 2 ^ k" using k by simp
          moreover have "0 < k" using \<open>Suc n = 2 ^ k\<close> n by (cases k) auto
          ultimately have "flog2 n = k - 1" "0 < k"
            using n flog2_unique[of "k - 1" n] by (cases k; simp)+
          then have "?e = 2 ^ Suc D" using \<open>Suc n = 2 ^ k\<close> n by (simp flip: power_add power_Suc)
          then have "free_left D T ?e = {m. leaf D m \<and> \<not> covered D T m}"
            by (auto simp: free_left_def leaf_def simp del: power_Suc)
          then show ?thesis using acc' eqs nosplit True
            by (cases "T n = NFree") (simp_all add: walk_loop.simps[of _ _ _ _ n] Let_def)
        next
          case False
          let ?n = "Suc (walk_up n)"
          note nx = walk_next[OF False n(2)]
          have nd': "tree_node D ?n" using nx(1) n by (simp add: tree_node_row)
          have anc': "T a = NSplit" if "a \<noteq> 0" "a \<noteq> ?n" "within ?n a" for a
          proof -
            have "?n div 2 = walk_up n div 2" using k(3) by (auto elim!: evenE)
            then have w: "within (walk_up n div 2) a" using that within_step[of ?n a] by simp
            moreover have "within n (walk_up n)" using k(2) by (auto simp: within_def)
            ultimately have "within n a" by (blast intro: within_trans)
            moreover have "walk_up n \<le> n" using k(2) by simp
            then have "a \<noteq> n" using within_le[OF w] False by linarith
            ultimately show ?thesis using anc that(1) by blast
          qed
          have "walk_loop flat nodes (leaf_bytes (2 ^ D)) T ?n ?acc
            = (leaf_bytes (card {m. leaf D m \<and> \<not> covered D T m}), T)"
            using 1(2)[of "T n" T ?acc "walk_up n"] eqs nosplit False acc' nx(2) nd' anc'
            by (simp add: eqs)
          then show ?thesis using eqs nosplit False
            by (cases "T n = NFree") (simp_all add: walk_loop.simps[of _ _ _ _ n] Let_def)
        qed
      qed
    qed
  qed
  then show ?thesis using assms(6-8) by blast
qed

text \<open>\<open>QueryFree\<close> returns the bytes of the leaves no block covers.\<close>

theorem query_free_exact:
  assumes "0 < nodes" "nodes < 2 ^ 32" "tree_wf (flog2 nodes) T"
    "\<And>m. leaf (flog2 nodes) m \<Longrightarrow> nodes < m \<Longrightarrow> covered (flog2 nodes) T m"
  shows "sheap_tree_query_free flat T nodes (leaf_bytes (2 ^ flog2 nodes)) =
    (leaf_bytes (card {m. leaf (flog2 nodes) m \<and> \<not> covered (flog2 nodes) T m}), T)"
proof -
  let ?D = "flog2 nodes"
  have "nodes \<le> 2 ^ 32 - 1" using assms(2) by simp
  then have "?D \<le> flog2 (2 ^ 32 - 1)" by (rule flog2_mono)
  also have "\<dots> = 31" by (rule flog2_unique) simp_all
  finally have D: "?D \<le> 31" .
  have w1: "walk_start ?D 1 = 2 ^ ?D" by (simp add: walk_start_def)
  have "free_left ?D T (walk_start ?D 1) = {}" unfolding w1 by (auto simp: free_left_def leaf_def)
  moreover have "tree_node ?D 1" by (simp add: tree_node_row)
  moreover have "a = 1" if "a \<noteq> 0" "within 1 a" for a using within_le[OF that(2)] that(1) by simp
  ultimately have "walk_loop flat nodes (leaf_bytes (2 ^ ?D)) T 1 0 =
    (leaf_bytes (card {m. leaf ?D m \<and> \<not> covered ?D T m}), T)"
    using flog2_upper[of nodes] flog2_lower[OF assms(1)]
    by (intro walk_loop_total assms D) (auto simp: leaf_bytes_def)
  then show ?thesis using assms(1) by (simp add: sheap_tree_query_free_def walk_free_def)
qed

text \<open>\<open>QueryMax\<close> is an upper bound of every block Allocate could return.\<close>

lemma query_max_first:
  "n \<le> m \<Longrightarrow> m \<le> nodes \<Longrightarrow> T m = NFree \<Longrightarrow> \<exists>f. n \<le> f \<and> f \<le> m \<and> T f = NFree \<and>
     query_max_loop flat T n nodes root = (drop_bit (sheap_floor_log2 (of_nat f)) root, T)"
proof (induction "m - n" arbitrary: n)
  case 0
  then show ?case by (intro exI[of _ n]) (simp add: query_max_loop.simps[of _ _ n])
next
  case (Suc x)
  show ?case
  proof (cases "T n = NFree")
    case True
    then show ?thesis using Suc.prems by (intro exI[of _ n]) (simp add: query_max_loop.simps[of _ _ n])
  next
    case False
    then have "n \<noteq> m" using Suc.prems by auto
    then have "x = m - Suc n" "Suc n \<le> m" using Suc.hyps(2) Suc.prems(1) by linarith+
    then obtain f where "Suc n \<le> f" "f \<le> m" "T f = NFree"
      "query_max_loop flat T (Suc n) nodes root = (drop_bit (sheap_floor_log2 (of_nat f)) root, T)"
      using Suc.hyps(1)[of "Suc n"] Suc.prems(2,3) by auto
    then show ?thesis using False Suc.prems
      by (intro exI[of _ f]) (simp add: query_max_loop.simps[of _ _ n])
  qed
qed

theorem query_max_bound:
  assumes "nodes < 2 ^ 32" "0 < n" "n \<le> nodes" "T n = NFree"
  shows "drop_bit (sheap_floor_log2 (of_nat n)) root \<le> fst (sheap_tree_query_max flat T nodes root)"
proof -
  have fl: "sheap_floor_log2 (of_nat k) = flog2 k" if "k \<le> nodes" for k
  proof -
    have "unat (of_nat k :: u64) = k" using that assms(1) by (intro unat_of_nat_small) simp
    moreover have "flog2 k \<le> 63" using flog2_unat64[of "of_nat k :: u64"] calculation by simp
    ultimately show ?thesis by (simp add: sheap_floor_log2_def clzll_def)
  qed
  obtain f where f: "1 \<le> f" "f \<le> n" "sheap_tree_query_max flat T nodes root =
      (drop_bit (sheap_floor_log2 (of_nat f)) root, T)"
    using query_max_first[of 1 n nodes T root] assms by (auto simp: sheap_tree_query_max_def)
  have "flog2 f \<le> flog2 n" using f(2) by (rule flog2_mono)
  then have "unat root div 2 ^ flog2 n \<le> unat root div 2 ^ flog2 f"
    by (intro div_le_mono2) (simp_all add: power_increasing)
  then show ?thesis using f assms(3) by (simp add: fl word_le_nat_alt unat_shiftr)
qed

end
