(* ===== verification/Sheap_Heap.thy ===== *)
theory Sheap_Heap
  imports Sheap_Tree_Alloc
begin

text \<open>
  \<open>__sheap_heap_allocate\<close> and \<open>__sheap_heap_free\<close> (core/heap.c): byte addresses on top of
  the node tree, for a heap laid out by \<open>__sheap_init_geometry\<close>.
\<close>

section \<open>Operations\<close>

definition sheap_heap_allocate ::
    "'s tree_access \<Rightarrow> 's \<Rightarrow> u32 \<Rightarrow> u64 \<Rightarrow> u64 \<Rightarrow> u64 \<Rightarrow> u64 \<times> 's" where
  "sheap_heap_allocate t s nodes root ea_heap sz =
     (case sheap_size_to_row sz root of
        None \<Rightarrow> (0, s)
      | Some row \<Rightarrow>
          (case sheap_tree_allocate t s (unat nodes) row of (node, s1) \<Rightarrow>
             if node = 0 then (0, s1)
             else (ea_heap + sheap_node_offset (of_nat node) root, s1)))"

definition sheap_heap_free ::
    "'s tree_access \<Rightarrow> 's \<Rightarrow> u32 \<Rightarrow> u64 \<Rightarrow> u64 \<Rightarrow> u64 \<Rightarrow> (sheap_error + unit) \<times> 's" where
  "sheap_heap_free t s nodes root ea_heap ptr =
     (if ptr < ea_heap then (Inl SHEAP_INVAL, s)
      else let offset = ptr - ea_heap in
        if offset AND 127 \<noteq> 0 then (Inl SHEAP_INVAL, s)
        else let leaf = sheap_offset_to_leaf offset root in
          if leaf = 0 \<or> leaf > ucast nodes then (Inl SHEAP_INVAL, s)
          else sheap_tree_free t s (unat nodes) (unat leaf))"

text \<open>Both run through a lawful accessor as on a flat array.\<close>

context tree_accessor
begin

lemma heap_allocate_sim:
  assumes "inv s" "node_id lim (unat nodes)"
  shows "sim (sheap_heap_allocate t s nodes root ea_heap sz)
    (sheap_heap_allocate flat (abs s) nodes root ea_heap sz)"
proof (cases "sheap_size_to_row sz root")
  case (Some row)
  obtain n s1 m q where "sheap_tree_allocate t s (unat nodes) row = (n, s1)"
    "sheap_tree_allocate flat (abs s) (unat nodes) row = (m, q)" by (metis prod.exhaust)
  with allocate_sim[OF assms, of row] show ?thesis
    by (auto simp: sheap_heap_allocate_def Some sim_def)
qed (use assms in \<open>simp add: sheap_heap_allocate_def simI\<close>)

lemma heap_free_sim:
  "inv s \<Longrightarrow> node_id lim (unat nodes) \<Longrightarrow> sim (sheap_heap_free t s nodes root ea_heap ptr)
     (sheap_heap_free flat (abs s) nodes root ea_heap ptr)"
  by (simp add: sheap_heap_free_def Let_def simI tree_free_sim)

end

section \<open>The shape of a heap\<close>

text \<open>
  What the geometry functions establish: \<open>L\<close> leaves of 128 bytes under a root block of
  \<open>2 ^ D\<close> leaves, and ids up to the last leaf.
\<close>

definition heap_shape :: "sheap_geometry \<Rightarrow> nat \<Rightarrow> nat \<Rightarrow> bool" where
  "heap_shape g D L \<longleftrightarrow> 0 < L \<and> L \<le> 2 ^ D \<and> D \<le> 31 \<and> unat (s_buffer g) = 128 * L \<and>
     s_root g = leaf_bytes (2 ^ D) \<and> unat (n_nodes g) = 2 ^ D + L - 1"

lemma ceil2_mult: "0 < n \<Longrightarrow> ceil2 (2 ^ k * n) = 2 ^ k * ceil2 n"
proof (rule antisym)
  assume n: "0 < n"
  obtain j where j: "ceil2 n = 2 ^ j" using ceil2_is_power[OF n] by blast
  have "n \<le> 2 ^ j" using ceil2_ge[of n] j by simp
  then have "2 ^ k * n \<le> 2 ^ (k + j)" by (simp add: power_add)
  then have "ceil2 (2 ^ k * n) \<le> 2 ^ (k + j)" by (rule ceil2_least)
  then show "ceil2 (2 ^ k * n) \<le> 2 ^ k * ceil2 n" by (simp add: j power_add)
  obtain i where i: "ceil2 (2 ^ k * n) = 2 ^ i" using ceil2_is_power[of "2 ^ k * n"] n by auto
  have le: "2 ^ k * n \<le> 2 ^ i" using ceil2_ge[of "2 ^ k * n"] i by simp
  then have "(2::nat) ^ k \<le> 2 ^ i" using n by (metis dual_order.trans mult_le_mono2 nat_mult_1_right Suc_leI One_nat_def)
  then have ki: "k \<le> i" by simp
  then have "2 ^ k * n \<le> 2 ^ k * 2 ^ (i - k)" using le by (simp flip: power_add)
  then have "n \<le> 2 ^ (i - k)" by simp
  then have "ceil2 n \<le> 2 ^ (i - k)" by (rule ceil2_least)
  then have "2 ^ k * ceil2 n \<le> 2 ^ k * 2 ^ (i - k)" by (rule mult_le_mono2)
  then show "2 ^ k * ceil2 n \<le> ceil2 (2 ^ k * n)" using ki by (simp add: i flip: power_add)
qed

lemma geometry_shape:
  assumes "sheap_geometry_of span = Some g" "128 dvd unat span" "s_buffer g \<noteq> 0"
  obtains D L where "heap_shape g D L"
    "unat (s_tree g) + unat (s_buffer g) = unat span"
    "2 * (unat (n_nodes g) + 2) \<le> 8 * unat (s_tree g)"
proof -
  define E where "E = unat span div 128"
  define t where "t = geo_tree_bytes (geo_max_id E)"
  define L where "L = (unat span - t) div 128"
  note G = geometry_Some[OF assms(1), folded E_def, folded t_def, folded L_def]
  have buf: "unat (s_buffer g) = 128 * L"
    using G(5) assms(2) by (simp add: L_def t_def dvd_diff_nat)
  have L0: "0 < L" using buf assms(3) by (auto intro: gr0I simp: unat_eq_zero)
  have nodes: "unat (n_nodes g) = L + ceil2 L - 1" using G(6) L0 by (simp add: geo_max_id_def)
  obtain D where D: "ceil2 L = 2 ^ D" using ceil2_is_power[OF L0] by blast
  have "(2::nat) ^ D \<le> L + ceil2 L - 1" using L0 D by simp
  then have "(2::nat) ^ D < 2 ^ 32" using unat_u32_less[of "n_nodes g"] nodes by linarith
  then have "D < 32" by (rule power_less_imp_less_exp[rotated]) simp
  then have D31: "D \<le> 31" by simp
  have L63: "unat (s_buffer g) \<le> 2 ^ 63"
  proof -
    have "L \<le> 2 ^ D" using ceil2_ge[of L] D by simp
    also have "(2::nat) ^ D \<le> 2 ^ 31" using D31 by (intro power_increasing) simp_all
    finally show ?thesis using buf by simp
  qed
  have "unat (s_root g) = ceil2 (128 * L)"
    using G(7)[OF assms(3)] unat_ceil_pow2[OF L63] buf by simp
  also have "\<dots> = 128 * 2 ^ D" using ceil2_mult[OF L0, of 7] D by simp
  finally have "s_root g = leaf_bytes (2 ^ D)"
    unfolding leaf_bytes_def by (metis of_nat_unat ucast_id)
  then have "heap_shape g D L"
    using L0 ceil2_ge[of L] D D31 buf nodes by (simp add: heap_shape_def)
  moreover have "unat (s_tree g) + unat (s_buffer g) = unat span"
    using G(3,4,5) by (simp add: t_def)
  moreover have "2 * (unat (n_nodes g) + 2) \<le> 8 * unat (s_tree g)"
  proof -
    have ltE: "L < E"
    proof -
      have "128 \<le> t" using geo_tree_bytes_dvd[of "geo_max_id E"] geo_tree_bytes_holds[of "geo_max_id E"]
        unfolding t_def[symmetric] by (auto elim!: dvdE)
      moreover have "t \<le> unat span" "128 * E = unat span" using G(3) assms(2) by (simp_all add: t_def E_def)
      ultimately have "128 * L < 128 * E" using L0 by (simp add: L_def)
      then show ?thesis by simp
    qed
    obtain j where "ceil2 E = 2 ^ j" using ceil2_is_power[of E] ltE by auto
    then have "ceil2 L \<le> ceil2 E" using ltE ceil2_ge[of E] by (auto intro!: ceil2_least)
    then have "unat (n_nodes g) + 1 \<le> geo_max_id E" using nodes ltE L0 by (simp add: geo_max_id_def)
    then show ?thesis using geo_tree_bytes_holds[of "geo_max_id E"] G(4) by (simp add: t_def)
  qed
  ultimately show ?thesis using that by blast
qed

lemma init_geometry_span:
  assumes "sheap_init_geometry keyed sz = Some g"
  obtains span where "sheap_geometry_of span = Some g" "128 dvd unat span"
    "128 + (if keyed then 2048 else 0) + unat span \<le> unat sz"
proof -
  define p :: u64 where "p = (if keyed then 128 + 2048 else 128)"
  have le: "p \<le> sz" using assms by (auto simp: sheap_init_geometry_def p_def split: if_splits)
  have g: "sheap_geometry_of ((sz - p) AND NOT 127) = Some g"
    using assms by (auto simp: sheap_init_geometry_def sheap_keyed_span_def sheap_plain_span_def p_def
        diff_diff_eq split: if_splits)
  have sp: "unat ((sz - p) AND NOT 127) = (unat sz - unat p) div 128 * 128"
    using le by (simp only: unat_align_down unat_sub)
  show ?thesis
  proof (rule that[OF g])
    show "128 dvd unat ((sz - p) AND NOT 127)" unfolding sp by simp
    have "unat p = 128 + (if keyed then 2048 else 0)" by (simp add: p_def)
    moreover have "(unat sz - unat p) div 128 * 128 \<le> unat sz - unat p" by simp
    ultimately show "128 + (if keyed then 2048 else 0) + unat ((sz - p) AND NOT 127) \<le> unat sz"
      unfolding sp using le unfolding word_le_nat_alt by linarith
  qed
qed

section \<open>Blocks as byte ranges\<close>

definition byte_range :: "nat \<Rightarrow> nat \<Rightarrow> nat set" where
  "byte_range D b = {128 * (walk_start D b - 2 ^ D) ..< 128 * (walk_start D b - 2 ^ D) + 128 * 2 ^ (D - flog2 b)}"

definition owned :: "nat \<Rightarrow> tree \<Rightarrow> nat set" where
  "owned D T = (\<Union>b \<in> blocks D T. byte_range D b)"

text \<open>
  The state the fence sets up and every operation keeps: leaves past the last id are never free,
  and no block crosses the end of the buffer.
\<close>

definition heap_ok :: "sheap_geometry \<Rightarrow> nat \<Rightarrow> nat \<Rightarrow> tree \<Rightarrow> bool" where
  "heap_ok g D L T \<longleftrightarrow> heap_shape g D L \<and> tree_wf D T \<and>
     (\<forall>m. leaf D m \<and> unat (n_nodes g) < m \<longrightarrow> covered D T m) \<and>
     (\<forall>b \<in> blocks D T. byte_range D b \<subseteq> {..< unat (s_buffer g)} \<or>
        byte_range D b \<inter> {..< unat (s_buffer g)} = {})"

lemma walk_start_ge: "tree_node D n \<Longrightarrow> 2 ^ D \<le> walk_start D n"
  using node_leaves[of D n "walk_start D n"] by (auto simp: leaf_def walk_start_def tree_node_row)

lemma byte_range_leaf:
  assumes "tree_node D b" "x < 128 * 2 ^ D"
  shows "x \<in> byte_range D b \<longleftrightarrow> within (2 ^ D + x div 128) b"
proof -
  have lf: "leaf D (2 ^ D + x div 128)" using assms(2) by (simp add: leaf_def)
  have ge: "2 ^ D \<le> walk_start D b" using assms(1) by (rule walk_start_ge)
  have e: "Suc b * 2 ^ (D - flog2 b) = walk_start D b + 2 ^ (D - flog2 b)"
    by (simp add: walk_start_def)
  show ?thesis
    unfolding within_leaf_range[OF lf assms(1)] byte_range_def e using ge by auto
qed

lemma byte_range_bound: "tree_node D b \<Longrightarrow> x \<in> byte_range D b \<Longrightarrow> x < 128 * 2 ^ D"
proof -
  assume b: "tree_node D b" and x: "x \<in> byte_range D b"
  have r: "flog2 b \<le> D" using b by (simp add: tree_node_row)
  have "Suc b * 2 ^ (D - flog2 b) \<le> 2 ^ Suc (flog2 b) * 2 ^ (D - flog2 b)"
    using flog2_upper[of b] by (intro mult_le_mono1) (simp del: power_Suc)
  also have "\<dots> = 2 ^ Suc D" using r by (simp flip: power_add)
  finally have "walk_start D b + 2 ^ (D - flog2 b) \<le> 2 ^ D + 2 ^ D" by (simp add: walk_start_def)
  then show "x < 128 * 2 ^ D" using x walk_start_ge[OF b] by (auto simp: byte_range_def)
qed

lemma byte_range_disjoint:
  assumes "tree_node D a" "tree_node D b" "\<not> within a b" "\<not> within b a"
  shows "byte_range D a \<inter> byte_range D b = {}"
proof -
  have False if "x \<in> byte_range D a" "x \<in> byte_range D b" for x
  proof -
    have "x < 128 * 2 ^ D" using byte_range_bound assms(1) that(1) by blast
    then have "within (2 ^ D + x div 128) a" "within (2 ^ D + x div 128) b"
      using that byte_range_leaf assms(1,2) by blast+
    then show False using within_linear assms(3,4) by blast
  qed
  then show ?thesis by blast
qed

lemma owned_disjoint:
  assumes "tree_node D n" "\<forall>b \<in> blocks D T. \<not> within n b \<and> \<not> within b n"
  shows "byte_range D n \<inter> owned D T = {}"
proof -
  have "byte_range D n \<inter> byte_range D b = {}" if "b \<in> blocks D T" for b
    using assms that by (intro byte_range_disjoint) (auto simp: blocks_def)
  then show ?thesis by (auto simp: owned_def)
qed

text \<open>A block that meets no owned byte lies inside the buffer.\<close>

lemma byte_range_inside:
  assumes "heap_ok g D L T" "tree_node D n" "\<forall>b \<in> blocks D T. \<not> within n b \<and> \<not> within b n"
  shows "byte_range D n \<subseteq> {..< unat (s_buffer g)}"
proof
  fix x assume x: "x \<in> byte_range D n"
  have sh: "heap_shape g D L" using assms(1) by (simp add: heap_ok_def)
  have lt: "x < 128 * 2 ^ D" using byte_range_bound[OF assms(2) x] .
  let ?m = "2 ^ D + x div 128"
  have m: "leaf D ?m" "within ?m n" using lt byte_range_leaf[OF assms(2) lt] x by (simp_all add: leaf_def)
  have "\<not> covered D T ?m"
  proof
    assume "covered D T ?m"
    then obtain b where "b \<in> blocks D T" "within ?m b" by (auto simp: covered_def)
    then show False using within_linear[OF m(2)] assms(3) by blast
  qed
  then have "\<not> unat (n_nodes g) < ?m" using assms(1) m(1) by (auto simp: heap_ok_def)
  then have "x div 128 < L" using sh by (auto simp: heap_shape_def)
  then show "x \<in> {..< unat (s_buffer g)}" using sh by (simp add: heap_shape_def)
qed

section \<open>Allocate\<close>

lemma size_to_row_Some:
  assumes "sheap_size_to_row sz (leaf_bytes (2 ^ D)) = Some row" "D \<le> 31"
  shows "row \<le> D" "128 * 2 ^ (D - row) = ceil2 (max 128 (unat sz))" "unat sz \<le> 128 * 2 ^ D"
proof -
  have "(2::nat) ^ D \<le> 2 ^ 31" using assms(2) by (intro power_increasing) simp_all
  then have root: "unat (leaf_bytes (2 ^ D)) = 128 * 2 ^ D"
    unfolding leaf_bytes_def by (intro unat_of_nat_small) simp
  define z where "z = (let s = (if sz = 0 then 1 else sz) in if s < 128 then 128 else s)"
  have z: "unat z = max 128 (unat sz)"
    by (auto simp: z_def Let_def word_less_nat_alt max_def unat_eq_zero)
  have row: "row = clzll (z - 1) - clzll (leaf_bytes (2 ^ D) - 1)"
    using assms(1) by (auto simp: sheap_size_to_row_def z_def Let_def split: if_splits)
  have le: "(if sz = 0 then 1 else sz) \<le> leaf_bytes (2 ^ D)"
    using assms(1) by (auto simp: sheap_size_to_row_def Let_def not_less split: if_splits)
  show szle: "unat sz \<le> 128 * 2 ^ D" using le root by (auto simp: word_le_nat_alt split: if_splits)
  have m1: "unat (z - 1) = unat z - 1" "unat (leaf_bytes (2 ^ D) - 1) = 128 * 2 ^ D - 1"
    using z root by (auto intro!: unat_minus_one[THEN trans] simp: unat_gt_0[symmetric] simp del: unat_gt_0)
  have "flog2 (128 * 2 ^ D - 1) = D + 6"
  proof (rule flog2_unique)
    have "(1::nat) \<le> 2 ^ D" by simp
    then show "2 ^ (D + 6) \<le> 128 * 2 ^ D - (1::nat)" by (simp add: power_add)
    show "128 * 2 ^ D - (1::nat) < 2 ^ Suc (D + 6)" by (simp add: power_add)
  qed
  then have row': "row = D + 6 - flog2 (unat z - 1)"
    using flog2_unat64[of "z - 1"] assms(2) row m1 by (simp add: clzll_def add.commute)
  have "2 ^ 6 \<le> unat z - 1" using z by simp
  then have lo: "6 \<le> flog2 (unat z - 1)" using flog2_le_iff[of "unat z - 1" 6] by auto
  have "unat z \<le> 128 * 2 ^ D" using z szle by simp
  then have "unat z - 1 < 2 ^ Suc (D + 6)" using \<open>2 ^ 6 \<le> unat z - 1\<close> by (simp add: power_add)
  then have hi: "flog2 (unat z - 1) \<le> D + 6"
    using flog2_le_iff[of "unat z - 1" "Suc (D + 6)"] \<open>2 ^ 6 \<le> unat z - 1\<close> by (simp del: power_Suc) linarith
  show "row \<le> D" using row' lo by simp
  have "D - row = flog2 (unat z - 1) - 6" using row' lo hi by simp
  then have "128 * 2 ^ (D - row) = (2::nat) ^ (7 + (flog2 (unat z - 1) - 6))" by (simp add: power_add)
  also have "7 + (flog2 (unat z - 1) - 6) = Suc (flog2 (unat z - 1))" using lo by simp
  also have "(2::nat) ^ \<dots> = ceil2 (unat z)" using z by (simp add: ceil2_def)
  finally show "128 * 2 ^ (D - row) = ceil2 (max 128 (unat sz))" by (simp add: z)
qed

lemma node_offset_value:
  assumes "tree_node D n" "D \<le> 31"
  shows "unat (sheap_node_offset (of_nat n) (leaf_bytes (2 ^ D))) = 128 * (walk_start D n - 2 ^ D)"
proof -
  have n: "0 < n" "flog2 n \<le> D" using assms(1) by (simp_all add: tree_node_row)
  have "(2::nat) ^ Suc D \<le> 2 ^ 32" using assms(2) by (intro power_increasing) simp_all
  then have n32: "n < 2 ^ 32" using assms(1) by (simp add: tree_node_def)
  then have u32: "unat (of_nat n :: u32) = n" by (intro unat_of_nat_small) simp
  have uc: "(ucast (of_nat n :: u32) :: u64) = of_nat n"
    using u32 n32 by (simp add: word_unat_eq_iff unat_of_nat_small)
  have "unat (of_nat n :: u64) = n" using n32 by (intro unat_of_nat_small) simp
  then have fl: "sheap_floor_log2 (of_nat n) = flog2 n"
    using n(2) assms(2) by (simp add: sheap_floor_log2_def clzll_def)
  have sh: "unat (push_bit (flog2 n) 1 :: u32) = 2 ^ flog2 n"
  proof -
    have "(2::nat) ^ flog2 n \<le> 2 ^ 31" using n(2) assms(2) by (intro power_increasing) simp_all
    then show ?thesis by (subst unat_shiftl_small) simp_all
  qed
  have sub: "unat (of_nat n - push_bit (flog2 n) 1 :: u32) = n - 2 ^ flog2 n"
    using flog2_lower[OF n(1)] by (subst unat_sub) (simp_all add: word_le_nat_alt sh[simplified] u32)
  have blk: "drop_bit (flog2 n) (leaf_bytes (2 ^ D)) = leaf_bytes (2 ^ (D - flog2 n))"
    using node_bytes[OF n assms(2)] by (simp add: fl)
  have lb: "unat (leaf_bytes (2 ^ (D - flog2 n))) = 128 * 2 ^ (D - flog2 n)"
  proof -
    have "(2::nat) ^ (D - flog2 n) \<le> 2 ^ 31" using assms(2) by (intro power_increasing) simp_all
    then show ?thesis unfolding leaf_bytes_def by (intro unat_of_nat_small) simp
  qed
  have prod: "(n - 2 ^ flog2 n) * (128 * 2 ^ (D - flog2 n)) = 128 * (walk_start D n - 2 ^ D)"
  proof -
    have "2 ^ flog2 n * (2::nat) ^ (D - flog2 n) = 2 ^ D" using n(2) by (simp flip: power_add)
    then show ?thesis by (simp add: walk_start_def diff_mult_distrib)
  qed
  have "walk_start D n < 2 ^ Suc D" using n(2) by (rule walk_start_less)
  then have "128 * (walk_start D n - 2 ^ D) < 2 ^ 64" using \<open>2 ^ Suc D \<le> 2 ^ 32\<close> by simp
  moreover have fit: "unat (ucast (of_nat n - push_bit (flog2 n) 1 :: u32) :: u64)
      * unat (leaf_bytes (2 ^ (D - flog2 n))) = 128 * (walk_start D n - 2 ^ D)"
    by (simp only: unat_u64_of_u32 sub lb prod)
  ultimately show ?thesis
    unfolding sheap_node_offset_def Let_def uc fl blk
    by (subst unat_times_small) (simp only: fit, simp, rule fit)
qed

text \<open>
  \<open>Allocate\<close>: a non-zero result is the address of a fresh byte range of
  \<open>ceil2 (max 128 size)\<close> bytes inside the buffer, aligned to its own size.
\<close>

theorem heap_allocate_sound:
  assumes ok: "heap_ok g D L T"
    and fit: "0 < unat ea_heap" "unat ea_heap + unat (s_buffer g) \<le> 2 ^ 64"
    and run: "sheap_heap_allocate flat T (n_nodes g) (s_root g) ea_heap sz = (ptr, T')" "ptr \<noteq> 0"
  shows "\<exists>off bytes. bytes = ceil2 (max 128 (unat sz)) \<and> unat ptr = unat ea_heap + off \<and> bytes dvd off
    \<and> off + bytes \<le> unat (s_buffer g) \<and> {off ..< off + bytes} \<inter> owned D T = {}
    \<and> owned D T' = owned D T \<union> {off ..< off + bytes} \<and> heap_ok g D L T'"
proof -
  have sh: "heap_shape g D L" and wf: "tree_wf D T" using ok by (simp_all add: heap_ok_def)
  then have D: "D \<le> 31" and root: "s_root g = leaf_bytes (2 ^ D)" and L: "0 < L" "L \<le> 2 ^ D"
    and nodes: "unat (n_nodes g) = 2 ^ D + L - 1" by (simp_all add: heap_shape_def)
  obtain row n where row: "sheap_size_to_row sz (leaf_bytes (2 ^ D)) = Some row"
    and al: "sheap_tree_allocate flat T (unat (n_nodes g)) row = (n, T')" "n \<noteq> 0"
    and ptr: "ptr = ea_heap + sheap_node_offset (of_nat n) (leaf_bytes (2 ^ D))"
    using run by (auto simp: sheap_heap_allocate_def root split: option.splits prod.splits if_splits)
  have small: "unat (n_nodes g) < 2 ^ Suc D" using nodes L by simp
  note A = allocate_blocks[OF wf small al]
  have nd: "tree_node D n" using A small al(2) by (simp add: tree_node_def)
  note S = size_to_row_Some[OF row D]
  define off where "off = 128 * (walk_start D n - 2 ^ D)"
  define bytes :: nat where "bytes = 128 * 2 ^ (D - flog2 n)"
  have bytes: "bytes = ceil2 (max 128 (unat sz))" using S(2) A by (simp add: bytes_def)
  have range: "byte_range D n = {off ..< off + bytes}" by (simp add: byte_range_def off_def bytes_def)
  have disj: "\<forall>b \<in> blocks D T. \<not> within n b \<and> \<not> within b n" using A by blast
  have inside: "{off ..< off + bytes} \<subseteq> {..< unat (s_buffer g)}"
    using byte_range_inside[OF ok nd disj] range by simp
  have "0 < bytes" by (simp add: bytes_def)
  then have "off + bytes - 1 \<in> {off ..< off + bytes}" by auto
  with inside have "off + bytes - 1 \<in> {..< unat (s_buffer g)}" by (rule subsetD)
  then have le: "off + bytes \<le> unat (s_buffer g)" using \<open>0 < bytes\<close> by auto
  have offv: "unat (sheap_node_offset (of_nat n) (leaf_bytes (2 ^ D))) = off"
    unfolding off_def by (rule node_offset_value[OF nd D])
  have "bytes dvd off"
  proof -
    have r: "flog2 n \<le> D" using nd by (simp add: tree_node_row)
    have "(2::nat) ^ D = 2 ^ flog2 n * 2 ^ (D - flog2 n)" using r by (simp flip: power_add)
    then have "off = 128 * ((n - 2 ^ flog2 n) * 2 ^ (D - flog2 n))"
      by (simp add: off_def walk_start_def diff_mult_distrib)
    then have "off = bytes * (n - 2 ^ flog2 n)" by (simp add: bytes_def)
    then show ?thesis by simp
  qed
  moreover have "0 < bytes" by (simp add: bytes_def)
  then have "unat ptr = unat ea_heap + off"
    unfolding ptr using offv fit le by (subst unat_plus_small) simp_all
  moreover have "owned D T' = owned D T \<union> {off ..< off + bytes}"
    using A range by (auto simp: owned_def)
  moreover have "{off ..< off + bytes} \<inter> owned D T = {}"
    using owned_disjoint[OF nd disj] range by simp
  moreover have "heap_ok g D L T'"
  proof -
    have "blocks D T' = insert n (blocks D T)" "tree_wf D T'" using A by blast+
    then show ?thesis using ok inside range unfolding heap_ok_def covered_def by auto
  qed
  ultimately show ?thesis using bytes le by blast
qed

section \<open>Free\<close>

lemma offset_to_leaf_value:
  assumes "D \<le> 31" "unat off < 128 * 2 ^ D"
  shows "unat (sheap_offset_to_leaf off (leaf_bytes (2 ^ D))) = 2 ^ D + unat off div 128"
proof -
  have p: "(2::nat) ^ D \<le> 2 ^ 31" using assms(1) by (intro power_increasing) simp_all
  have "unat (leaf_bytes (2 ^ D)) = 128 * 2 ^ D"
    unfolding leaf_bytes_def using p by (intro unat_of_nat_small) simp
  then have r: "unat (drop_bit 7 (leaf_bytes (2 ^ D))) = 2 ^ D" by (simp add: unat_shiftr)
  have o: "unat (drop_bit 7 off) = unat off div 128" by (simp add: unat_shiftr)
  have "unat off div 128 < 2 ^ D" using assms(2) by simp
  then show ?thesis
    unfolding sheap_offset_to_leaf_def using p r o by (subst unat_plus_small) simp_all
qed

text \<open>
  \<open>Free\<close> of any 128-byte aligned address inside a block releases that block and only it.
\<close>

theorem heap_free_sound:
  assumes ok: "heap_ok g D L T"
    and blk: "b \<in> blocks D T" "unat ptr = unat ea_heap + off" "off \<in> byte_range D b" "128 dvd off"
    and real: "off < unat (s_buffer g)"
  obtains T' where "sheap_heap_free flat T (n_nodes g) (s_root g) ea_heap ptr = (Inr (), T')"
    "heap_ok g D L T'" "blocks D T' = blocks D T - {b}" "owned D T' = owned D T - byte_range D b"
proof -
  have sh: "heap_shape g D L" and wf: "tree_wf D T" using ok by (simp_all add: heap_ok_def)
  then have D: "D \<le> 31" and root: "s_root g = leaf_bytes (2 ^ D)" and L: "0 < L" "L \<le> 2 ^ D"
    and nodes: "unat (n_nodes g) = 2 ^ D + L - 1" and buf: "unat (s_buffer g) = 128 * L"
    by (simp_all add: heap_shape_def)
  have nb: "tree_node D b" using blk(1) by (simp add: blocks_def)
  have lt: "off < 128 * 2 ^ D" using byte_range_bound[OF nb blk(3)] .
  have o: "unat (ptr - ea_heap) = off" using blk(2) by (simp add: unat_sub word_le_nat_alt)
  have al: "(ptr - ea_heap) AND 127 = 0"
  proof -
    have "unat ((ptr - ea_heap) AND 127) = off mod 128"
      unfolding mask_numerals using o by (simp only: unat_and_mask) simp
    then show ?thesis using blk(4) by (simp add: unat_eq_zero dvd_imp_mod_0)
  qed
  let ?m = "2 ^ D + off div 128"
  have lf: "unat (sheap_offset_to_leaf (ptr - ea_heap) (leaf_bytes (2 ^ D))) = ?m"
    using offset_to_leaf_value[OF D, of "ptr - ea_heap"] lt o by simp
  have m: "leaf D ?m" "within ?m b" using lt byte_range_leaf[OF nb lt] blk(3) by (simp_all add: leaf_def)
  have mle: "?m \<le> unat (n_nodes g)" using real nodes buf by auto
  obtain T' where T': "sheap_tree_free flat T (unat (n_nodes g)) ?m = (Inr (), T')" "tree_wf D T'"
    "blocks D T' = blocks D T - {b}"
    using tree_free_blocks[OF wf blk(1) leaf_node[OF m(1)] m(2) mle] .
  have "\<not> ptr < ea_heap" using blk(2) by (simp add: word_less_nat_alt)
  moreover have "sheap_offset_to_leaf (ptr - ea_heap) (leaf_bytes (2 ^ D)) \<noteq> 0"
    using lf by auto
  moreover have "\<not> ucast (n_nodes g) < sheap_offset_to_leaf (ptr - ea_heap) (leaf_bytes (2 ^ D))"
    using lf mle by (simp add: word_less_nat_alt)
  ultimately have "sheap_heap_free flat T (n_nodes g) (s_root g) ea_heap ptr = (Inr (), T')"
    using al T'(1) lf by (simp add: sheap_heap_free_def Let_def root)
  moreover have "owned D T' = owned D T - byte_range D b"
  proof -
    have "byte_range D c \<inter> byte_range D b = {}" if "c \<in> blocks D T" "c \<noteq> b" for c
      using that blk(1) blocks_antichain[OF wf] by (intro byte_range_disjoint) (auto simp: blocks_def)
    then show ?thesis using T'(3) blk(1) by (auto simp: owned_def)
  qed
  moreover have "heap_ok g D L T'"
  proof -
    have "covered D T' m" if m: "leaf D m" "unat (n_nodes g) < m" for m
    proof -
      obtain c where c: "c \<in> blocks D T" "within m c" using ok m by (auto simp: heap_ok_def covered_def)
      have x: "128 * (m - 2 ^ D) < 128 * 2 ^ D" "2 ^ D + 128 * (m - 2 ^ D) div 128 = m"
        using m(1) by (auto simp: leaf_def)
      have nc: "tree_node D c" using c(1) by (simp add: blocks_def)
      have "128 * (m - 2 ^ D) \<in> byte_range D c" using byte_range_leaf[OF nc x(1)] x(2) c(2) by simp
      moreover have "unat (s_buffer g) \<le> 128 * (m - 2 ^ D)" using m(2) nodes buf L by simp
      moreover have "byte_range D b \<subseteq> {..< unat (s_buffer g)}"
        using ok blk(1,3) real unfolding heap_ok_def by blast
      ultimately have "c \<noteq> b" by auto
      then show ?thesis using c T'(3) by (auto simp: covered_def)
    qed
    then show ?thesis using ok T'(2,3) by (auto simp: heap_ok_def)
  qed
  ultimately show ?thesis using T'(3) that by blast
qed

text \<open>Allocating and freeing at once restores every node state.\<close>

theorem allocate_free_roundtrip:
  assumes ok: "heap_ok g D L T"
    and fit: "0 < unat ea_heap" "unat ea_heap + unat (s_buffer g) \<le> 2 ^ 64"
    and run: "sheap_heap_allocate flat T (n_nodes g) (s_root g) ea_heap sz = (ptr, T1)" "ptr \<noteq> 0"
  obtains T2 where "sheap_heap_free flat T1 (n_nodes g) (s_root g) ea_heap ptr = (Inr (), T2)"
    "\<And>n. tree_node D n \<Longrightarrow> T2 n = T n" "heap_ok g D L T2"
proof -
  have sh: "heap_shape g D L" and wf: "tree_wf D T" using ok by (simp_all add: heap_ok_def)
  then have D: "D \<le> 31" and root: "s_root g = leaf_bytes (2 ^ D)" and L: "0 < L" "L \<le> 2 ^ D"
    and nodes: "unat (n_nodes g) = 2 ^ D + L - 1" by (simp_all add: heap_shape_def)
  obtain row n where al: "sheap_tree_allocate flat T (unat (n_nodes g)) row = (n, T1)" "n \<noteq> 0"
    and ptr: "ptr = ea_heap + sheap_node_offset (of_nat n) (leaf_bytes (2 ^ D))"
    using run by (auto simp: sheap_heap_allocate_def root split: option.splits prod.splits if_splits)
  have small: "unat (n_nodes g) < 2 ^ Suc D" using nodes L by simp
  note A = allocate_blocks[OF wf small al]
  have nd: "tree_node D n" using A small al(2) by (simp add: tree_node_def)
  have disj: "\<forall>b \<in> blocks D T. \<not> within n b \<and> \<not> within b n" using A by blast
  obtain off where off: "unat ptr = unat ea_heap + off" "off < unat (s_buffer g)" "off = 128 * (walk_start D n - 2 ^ D)"
  proof -
    have offv: "unat (sheap_node_offset (of_nat n) (leaf_bytes (2 ^ D))) = 128 * (walk_start D n - 2 ^ D)"
      by (rule node_offset_value[OF nd D])
    have "128 * (walk_start D n - 2 ^ D) \<in> byte_range D n" by (simp add: byte_range_def)
    then have lt: "128 * (walk_start D n - 2 ^ D) < unat (s_buffer g)"
      using byte_range_inside[OF ok nd disj] by blast
    have "unat ptr = unat ea_heap + 128 * (walk_start D n - 2 ^ D)"
      unfolding ptr using offv fit lt by (subst unat_plus_small) simp_all
    then show ?thesis using that lt by blast
  qed
  have ok1: "heap_ok g D L T1"
  proof -
    have "blocks D T1 = insert n (blocks D T)" "tree_wf D T1" using A by blast+
    then show ?thesis using ok byte_range_inside[OF ok nd disj] unfolding heap_ok_def covered_def by auto
  qed
  have b1: "blocks D T1 = insert n (blocks D T)" using A by blast
  have n1: "n \<in> blocks D T1" by (simp add: b1)
  have in1: "off \<in> byte_range D n" "128 dvd off" using off(3) by (simp_all add: byte_range_def)
  obtain T2 where T2: "sheap_heap_free flat T1 (n_nodes g) (s_root g) ea_heap ptr = (Inr (), T2)"
    "heap_ok g D L T2" "blocks D T2 = blocks D T1 - {n}"
    by (rule heap_free_sound[OF ok1 n1 off(1) in1 off(2)])
  have "n \<notin> blocks D T" using disj by blast
  then have "blocks D T2 = blocks D T" using T2(3) b1 by auto
  moreover have "tree_wf D T2" using T2(2) by (simp add: heap_ok_def)
  ultimately have same: "tree_node D k \<Longrightarrow> T2 k = T k" for k
    using tree_wf_unique[OF _ wf] by blast
  show ?thesis using that[OF T2(1) same T2(2)] .
qed

section \<open>Initialisation\<close>

text \<open>The heap as \<open>Initialize\<close> leaves it: an all-FREE tree, fenced.\<close>

theorem init_heap_ok:
  assumes "sheap_init_geometry keyed sz = Some g" "s_buffer g \<noteq> 0"
  shows "\<exists>D L. heap_ok g D L (sheap_tree_fence flat (\<lambda>_. NFree) (unat (n_nodes g)))
    \<and> 128 + (if keyed then 2048 else 0) + unat (s_tree g) + unat (s_buffer g) \<le> unat sz
    \<and> 2 * (unat (n_nodes g) + 2) \<le> 8 * unat (s_tree g)
    \<and> owned D (sheap_tree_fence flat (\<lambda>_. NFree) (unat (n_nodes g)))
       = {unat (s_buffer g) ..< unat (s_root g)}"
proof -
  obtain span where span: "sheap_geometry_of span = Some g" "128 dvd unat span"
    "128 + (if keyed then 2048 else 0) + unat span \<le> unat sz"
    using init_geometry_span[OF assms(1)] .
  obtain D L where sh: "heap_shape g D L" and sz: "unat (s_tree g) + unat (s_buffer g) = unat span"
    and bits: "2 * (unat (n_nodes g) + 2) \<le> 8 * unat (s_tree g)"
    using geometry_shape[OF span(1,2) assms(2)] .
  let ?T = "sheap_tree_fence flat (\<lambda>_. NFree) (unat (n_nodes g))"
  have D: "D \<le> 31" and root: "s_root g = leaf_bytes (2 ^ D)" and L: "0 < L" "L \<le> 2 ^ D"
    and nodes: "unat (n_nodes g) = 2 ^ D + L - 1" and buf: "unat (s_buffer g) = 128 * L"
    using sh by (simp_all add: heap_shape_def)
  have "2 ^ D \<le> 2 ^ D + L - (1::nat)" "2 ^ D + L - (1::nat) < 2 ^ Suc D" using L by simp_all
  then have fl: "flog2 (unat (n_nodes g)) = D" unfolding nodes by (rule flog2_unique)
  have n0: "0 < unat (n_nodes g)" using nodes L by simp
  note F = fence_covers[OF n0 unat_u32_less, unfolded fl]
  have "(2::nat) ^ D \<le> 2 ^ 31" using D by (intro power_increasing) simp_all
  then have rootv: "unat (s_root g) = 128 * 2 ^ D"
    unfolding root leaf_bytes_def by (intro unat_of_nat_small) simp
  have "x \<in> owned D ?T \<longleftrightarrow> unat (s_buffer g) \<le> x \<and> x < unat (s_root g)" for x
  proof (cases "x < 128 * 2 ^ D")
    case True
    then have lf: "leaf D (2 ^ D + x div 128)" by (simp add: leaf_def)
    have "x \<in> owned D ?T \<longleftrightarrow> covered D ?T (2 ^ D + x div 128)"
      using byte_range_leaf[OF _ True] by (auto simp: owned_def covered_def blocks_def)
    also have "\<dots> \<longleftrightarrow> L \<le> x div 128" using F(2)[OF lf] nodes L by auto
    also have "\<dots> \<longleftrightarrow> 128 * L \<le> x" by auto
    finally show ?thesis using True buf rootv by simp
  next
    case False
    then have "x \<notin> owned D ?T" using byte_range_bound by (auto simp: owned_def blocks_def)
    then show ?thesis using False rootv by simp
  qed
  then have "owned D ?T = {unat (s_buffer g) ..< unat (s_root g)}"
    by (intro set_eqI) (simp only: atLeastLessThan_iff)
  moreover have "byte_range D b \<inter> {..< unat (s_buffer g)} = {}" if "b \<in> blocks D ?T" for b
  proof -
    have "byte_range D b \<subseteq> owned D ?T" using that by (auto simp: owned_def)
    also note \<open>owned D ?T = _\<close>
    finally show ?thesis by auto
  qed
  then have "heap_ok g D L ?T" using sh F unfolding heap_ok_def by blast
  moreover have "128 + (if keyed then 2048 else 0) + unat (s_tree g) + unat (s_buffer g) \<le> unat sz"
    using span(3) sz by simp
  ultimately show ?thesis using bits by blast
qed

text \<open>The free bytes of the buffer, counted through the leaves.\<close>

lemma free_bytes_card:
  assumes "heap_ok g D L T"
  shows "card ({..< unat (s_buffer g)} - owned D T) = 128 * card {m. leaf D m \<and> \<not> covered D T m}"
proof -
  have sh: "heap_shape g D L" using assms by (simp add: heap_ok_def)
  then have buf: "unat (s_buffer g) = 128 * L" and L: "L \<le> 2 ^ D" "0 < L"
    and nodes: "unat (n_nodes g) = 2 ^ D + L - 1" by (simp_all add: heap_shape_def)
  let ?U = "{m. leaf D m \<and> \<not> covered D T m}"
  let ?f = "\<lambda>(m, j). 128 * (m - 2 ^ D) + j"
  have mem: "x \<in> owned D T \<longleftrightarrow> covered D T (2 ^ D + x div 128)" if "x < 128 * 2 ^ D" for x
    using byte_range_leaf[OF _ that] by (auto simp: owned_def covered_def blocks_def)
  have inj: "inj_on ?f (?U \<times> {..<128})"
  proof (rule inj_onI, clarsimp)
    fix m j m' j' assume *: "leaf D m" "leaf D m'" "j < 128" "j' < 128"
      and e: "128 * (m - 2 ^ D) + j = 128 * (m' - 2 ^ D) + j'"
    then have "(128 * (m - 2 ^ D) + j) div 128 = (128 * (m' - 2 ^ D) + j') div 128" by simp
    then have "m - 2 ^ D = m' - 2 ^ D" using * by simp
    moreover have "2 ^ D \<le> m" "2 ^ D \<le> m'" using *(1,2) by (simp_all add: leaf_def)
    ultimately have "m = m'" by (simp add: eq_diff_iff)
    then have "j = j'" "m = m'" using e by simp_all
    then show "m = m' \<and> j = j'" by simp
  qed
  have "?f ` (?U \<times> {..<128}) = {..< unat (s_buffer g)} - owned D T"
  proof (intro set_eqI iffI)
    fix x assume "x \<in> ?f ` (?U \<times> {..<128})"
    then obtain m j where m: "leaf D m" "\<not> covered D T m" "j < 128" "x = 128 * (m - 2 ^ D) + j" by auto
    have "m \<le> unat (n_nodes g)" using m(1,2) assms by (auto simp: heap_ok_def not_less[symmetric])
    then have "m - 2 ^ D < L" using nodes L m(1) by (auto simp: leaf_def)
    then have x: "x < 128 * L" using m(3,4) by linarith
    moreover have "2 ^ D + x div 128 = m" using m by (auto simp: leaf_def)
    ultimately show "x \<in> {..< unat (s_buffer g)} - owned D T" using mem[of x] m(2) buf L by auto
  next
    fix x assume x: "x \<in> {..< unat (s_buffer g)} - owned D T"
    then have lt: "x < 128 * 2 ^ D" using buf L by auto
    then have "2 ^ D + x div 128 \<in> ?U" using mem[OF lt] x by (simp add: leaf_def)
    moreover have "x = ?f (2 ^ D + x div 128, x mod 128)" by simp
    ultimately show "x \<in> ?f ` (?U \<times> {..<128})"
      by (intro image_eqI[of _ _ "(2 ^ D + x div 128, x mod 128)"]) auto
  qed
  moreover have "finite ?U" by (rule finite_subset[of _ "{..< 2 ^ Suc D}"]) (auto simp: leaf_def)
  ultimately show ?thesis
    using card_image[OF inj] by (simp add: card_cartesian_product)
qed

lemma query_free_bytes:
  assumes "heap_ok g D L T"
  shows "sheap_tree_query_free flat T (unat (n_nodes g)) (s_root g)
    = (of_nat (card ({..< unat (s_buffer g)} - owned D T)), T)"
proof -
  have sh: "heap_shape g D L" and wf: "tree_wf D T"
    and cov: "\<And>m. leaf D m \<Longrightarrow> unat (n_nodes g) < m \<Longrightarrow> covered D T m" using assms by (auto simp: heap_ok_def)
  have "2 ^ D \<le> unat (n_nodes g)" "unat (n_nodes g) < 2 ^ Suc D" using sh by (auto simp: heap_shape_def)
  then have fl: "flog2 (unat (n_nodes g)) = D" by (rule flog2_unique)
  have n0: "0 < unat (n_nodes g)" using \<open>2 ^ D \<le> _\<close> by (metis gr0I le_zero_eq power_not_zero zero_neq_numeral)
  have "s_root g = leaf_bytes (2 ^ D)" using sh by (simp add: heap_shape_def)
  then show ?thesis
    using query_free_exact[OF n0 unat_u32_less, unfolded fl, OF wf cov] free_bytes_card[OF assms]
    by (simp add: leaf_bytes_def)
qed

text \<open>A block that \<open>Allocate\<close> returns is no longer than what \<open>QueryMax\<close> reported.\<close>

lemma query_max_covers:
  assumes "heap_ok g D L T" "sheap_heap_allocate flat T (n_nodes g) (s_root g) ea_heap sz = (ptr, T')" "ptr \<noteq> 0"
  shows "ceil2 (max 128 (unat sz)) \<le> unat (fst (sheap_tree_query_max flat T (unat (n_nodes g)) (s_root g)))"
proof -
  have sh: "heap_shape g D L" and wf: "tree_wf D T" using assms(1) by (simp_all add: heap_ok_def)
  then have D: "D \<le> 31" and root: "s_root g = leaf_bytes (2 ^ D)"
    and small: "unat (n_nodes g) < 2 ^ Suc D" by (auto simp: heap_shape_def)
  obtain row n where row: "sheap_size_to_row sz (leaf_bytes (2 ^ D)) = Some row"
    and al: "sheap_tree_allocate flat T (unat (n_nodes g)) row = (n, T')" "n \<noteq> 0"
    using assms(2,3) by (auto simp: sheap_heap_allocate_def root split: option.splits prod.splits if_splits)
  note A = allocate_blocks[OF wf small al]
  have nd: "tree_node D n" using A small al(2) by (simp add: tree_node_def)
  have r: "0 < n" "flog2 n \<le> D" using nd by (simp_all add: tree_node_row)
  have "allocatable T n" using allocatable_iff[OF wf nd] A by blast
  then have free: "T n = NFree" by (simp add: allocatable_def)
  have "drop_bit (sheap_floor_log2 (of_nat n)) (s_root g) \<le> fst (sheap_tree_query_max flat T (unat (n_nodes g)) (s_root g))"
    using A free r unat_u32_less[of "n_nodes g"] by (intro query_max_bound) auto
  moreover have "drop_bit (sheap_floor_log2 (of_nat n)) (s_root g) = leaf_bytes (2 ^ (D - flog2 n))"
    using node_bytes[OF r D] by (simp add: root)
  moreover have "unat (leaf_bytes (2 ^ (D - flog2 n))) = 128 * 2 ^ (D - flog2 n)"
  proof -
    have "(2::nat) ^ (D - flog2 n) \<le> 2 ^ 31" using D by (intro power_increasing) simp_all
    then show ?thesis unfolding leaf_bytes_def by (intro unat_of_nat_small) simp
  qed
  ultimately show ?thesis
    using size_to_row_Some(2)[OF row D] A by (simp add: word_le_nat_alt)
qed

end
