(* ===== verification/Sheap_Cache.thy ===== *)
theory Sheap_Cache
  imports Sheap_Heap
begin

text \<open>
  \<open>sdk/libsheap/src/spu/linecache.c\<close>: the write-back cache of tree lines in local store.  The
  file's static variables are the fields of \<open>cache\<close>; main memory is a map from the effective
  address of a 128-byte line to its 32 words, and a DMA transfer of a line acts on it at the
  point where the source issues the command (every load is waited for before its data is used,
  every write-back before its way is reloaded or the lock is released).

  The cache is a lawful tree accessor: its abstract state is the node-state tree as seen through
  the cached lines, and \<open>__sheap_cache_flush\<close> makes main memory hold that tree.
\<close>

section \<open>The cache\<close>

type_synonym tree_line = "u32 list"

record cache =
  cache_data :: "tree_line list"
  cache_line :: "u64 list"
  cache_valid :: "bool list"
  cache_dirty :: "bool list"
  cache_victim :: nat
  cache_last :: nat
  cache_tree :: u64
  cache_mem :: "u64 \<Rightarrow> tree_line"

definition ways :: nat where
  "ways = 16"

definition line_ea :: "u64 \<Rightarrow> u64 \<Rightarrow> u64" where
  "line_ea tree l = tree + l * 128"

text \<open>\<open>SHEAP_TREE_LINE\<close>, the word index and \<open>SHEAP_TREE_SHIFT\<close> of a node.\<close>

definition sheap_tree_line :: "nat \<Rightarrow> u64" where
  "sheap_tree_line n = drop_bit 9 (of_nat n)"

definition sheap_tree_word :: "nat \<Rightarrow> nat" where
  "sheap_tree_word n = (n div 16) mod 32"

definition sheap_tree_shift :: "nat \<Rightarrow> nat" where
  "sheap_tree_shift n = 30 - 2 * (n mod 16)"

fun state_code :: "node_state \<Rightarrow> u32" where
  "state_code NFree = 0"
| "state_code NUsed = 1"
| "state_code NSplit = 2"
| "state_code NFull = 3"

definition code_state :: "u32 \<Rightarrow> node_state" where
  "code_state v = (if v = 0 then NFree else if v = 1 then NUsed else if v = 2 then NSplit else NFull)"

definition sheap_cache_begin :: "cache \<Rightarrow> u64 \<Rightarrow> cache" where
  "sheap_cache_begin c ea_tree = c\<lparr>cache_valid := replicate ways False, cache_dirty := replicate ways False,
     cache_victim := 0, cache_last := 0, cache_tree := ea_tree\<rparr>"

definition write_back :: "nat \<Rightarrow> cache \<Rightarrow> cache" where
  "write_back way c = c\<lparr>cache_mem := (cache_mem c)(line_ea (cache_tree c) (cache_line c ! way) := cache_data c ! way),
     cache_dirty := (cache_dirty c)[way := False]\<rparr>"

definition flush_way :: "nat \<Rightarrow> cache \<Rightarrow> cache" where
  "flush_way way c = (if cache_valid c ! way \<and> cache_dirty c ! way then write_back way c else c)"

definition sheap_cache_flush :: "cache \<Rightarrow> cache" where
  "sheap_cache_flush c = fold flush_way [0..<ways] c"

definition find_way :: "cache \<Rightarrow> u64 \<Rightarrow> nat option" where
  "find_way c l = find (\<lambda>way. cache_valid c ! way \<and> cache_line c ! way = l) [0..<ways]"

definition load_way :: "nat \<Rightarrow> u64 \<Rightarrow> cache \<Rightarrow> cache" where
  "load_way way l c = c\<lparr>cache_line := (cache_line c)[way := l], cache_valid := (cache_valid c)[way := True],
     cache_data := (cache_data c)[way := cache_mem c (line_ea (cache_tree c) l)]\<rparr>"

definition way_for :: "cache \<Rightarrow> nat \<Rightarrow> nat \<times> cache" where
  "way_for c n =
     (let l = sheap_tree_line n in
      if cache_valid c ! cache_last c \<and> cache_line c ! cache_last c = l then (cache_last c, c)
      else case find_way c l of
        Some way \<Rightarrow> (way, c\<lparr>cache_last := way\<rparr>)
      | None \<Rightarrow>
          let way = cache_victim c;
              c1 = flush_way way (c\<lparr>cache_victim := (way + 1) mod ways\<rparr>);
              c2 = load_way way l c1 in
          (way, c2\<lparr>cache_last := way\<rparr>))"

definition cache_get :: "cache \<Rightarrow> nat \<Rightarrow> node_state \<times> cache" where
  "cache_get c n =
     (case way_for c n of (way, c1) \<Rightarrow>
        (code_state (drop_bit (sheap_tree_shift n) (cache_data c1 ! way ! sheap_tree_word n) AND 3), c1))"

definition put_state :: "u32 \<Rightarrow> nat \<Rightarrow> node_state \<Rightarrow> u32" where
  "put_state w sh st = (w AND NOT (push_bit sh 3)) OR push_bit sh (state_code st)"

definition cache_set :: "cache \<Rightarrow> nat \<Rightarrow> node_state \<Rightarrow> cache" where
  "cache_set c n st =
     (case way_for c n of (way, c1) \<Rightarrow>
        let d = cache_data c1 ! way;
            w = put_state (d ! sheap_tree_word n) (sheap_tree_shift n) st in
        c1\<lparr>cache_data := (cache_data c1)[way := d[sheap_tree_word n := w]],
           cache_dirty := (cache_dirty c1)[way := True]\<rparr>)"

definition sheap_cache_access :: "cache tree_access" where
  "sheap_cache_access = \<lparr>acc_get = cache_get, acc_set = cache_set\<rparr>"

section \<open>Two-bit fields\<close>

definition field_state :: "tree_line \<Rightarrow> nat \<Rightarrow> node_state" where
  "field_state d n = code_state (drop_bit (sheap_tree_shift n) (d ! sheap_tree_word n) AND 3)"

lemma code_state_code [simp]: "code_state (state_code st) = st"
  by (cases st) (simp_all add: code_state_def)

lemma shift_bounds: "sheap_tree_shift n \<le> 30" "even (sheap_tree_shift n)"
  by (auto simp: sheap_tree_shift_def)

lemma state_code_bits: "bit (state_code st) i \<Longrightarrow> i < 2"
  by (cases st) (auto simp: bit_1_iff numeral_3_eq_3 dest!: bit_imp_possible_bit elim: less_SucE
      simp: bit_numeral_rec split: nat.splits)

lemma three_mask: "(3 :: u32) = mask 2"
  by (simp add: mask_eq_exp_minus_1)

lemma put_state_bit:
  assumes "sh \<le> 30" "i < 32"
  shows "bit (put_state w sh st) i \<longleftrightarrow>
    (if sh \<le> i \<and> i < sh + 2 then bit (state_code st) (i - sh) else bit w i)"
  using assms state_code_bits[of st "i - sh"] unfolding put_state_def three_mask
  by (auto simp: bit_simps)

lemma field_bit:
  assumes "sh \<le> 30"
  shows "bit (drop_bit sh w AND 3) i \<longleftrightarrow> i < 2 \<and> bit (w :: u32) (sh + i)"
  using assms unfolding three_mask by (auto simp: bit_simps add.commute)

lemma node_split: "m = 512 * (m div 512) + 16 * (m div 16 mod 32) + m mod 16" for m :: nat
proof -
  have "m div 512 = m div 16 div 32" by (simp add: div_mult2_eq[symmetric])
  then have "m div 16 = 32 * (m div 512) + m div 16 mod 32" by simp
  moreover have "m = 16 * (m div 16) + m mod 16" by simp
  ultimately show ?thesis by linarith
qed

lemma put_state_same:
  assumes "sh \<le> 30"
  shows "drop_bit sh (put_state w sh st) AND 3 = state_code st"
proof (rule bit_word_eqI)
  fix i assume "i < LENGTH(32)"
  show "bit (drop_bit sh (put_state w sh st) AND 3) i = bit (state_code st) i"
    using assms state_code_bits[of st i] by (auto simp: field_bit put_state_bit)
qed

lemma put_state_other:
  assumes "sh \<le> 30" "sh' \<le> 30" "even sh" "even sh'" "sh \<noteq> sh'"
  shows "drop_bit sh' (put_state w sh st) AND 3 = drop_bit sh' w AND 3"
proof (rule bit_word_eqI)
  fix i assume "i < LENGTH(32)"
  have "\<not> (sh \<le> sh' + i \<and> sh' + i < sh + 2)" if "i < 2"
    using assms that by (auto elim!: evenE)
  then show "bit (drop_bit sh' (put_state w sh st) AND 3) i = bit (drop_bit sh' w AND 3) i"
    using assms by (auto simp: field_bit put_state_bit)
qed

lemma field_state_put:
  assumes "length d = 32" "m div 512 = n div 512"
  shows "field_state (d[sheap_tree_word n := put_state (d ! sheap_tree_word n) (sheap_tree_shift n) st]) m
    = (if m = n then st else field_state d m)"
proof -
  have w: "sheap_tree_word n < length d" by (simp add: sheap_tree_word_def assms(1))
  show ?thesis
  proof (cases "m = n")
    case True
    then show ?thesis using w shift_bounds[of n] by (simp add: field_state_def put_state_same)
  next
    case False
    show ?thesis
    proof (cases "sheap_tree_word m = sheap_tree_word n")
      case True
      have "m mod 16 \<noteq> n mod 16"
      proof
        assume e: "m mod 16 = n mod 16"
        have "m div 16 mod 32 = n div 16 mod 32" using True by (simp add: sheap_tree_word_def)
        then have "m = n" using node_split[of m] node_split[of n] e assms(2) by linarith
        then show False using False by simp
      qed
      moreover have "m mod 16 < 16" "n mod 16 < 16" by simp_all
      ultimately have "sheap_tree_shift n \<noteq> sheap_tree_shift m" unfolding sheap_tree_shift_def by linarith
      then show ?thesis using False True w put_state_other shift_bounds by (simp add: field_state_def)
    qed (use False in \<open>simp add: field_state_def\<close>)
  qed
qed

section \<open>The tree seen through the cache\<close>

definition line_view :: "cache \<Rightarrow> u64 \<Rightarrow> tree_line" where
  "line_view c l = (case find_way c l of Some way \<Rightarrow> cache_data c ! way
     | None \<Rightarrow> cache_mem c (line_ea (cache_tree c) l))"

definition cache_abs :: "nat \<Rightarrow> cache \<Rightarrow> tree" where
  "cache_abs lim c n = (if node_id lim n then field_state (line_view c (sheap_tree_line n)) n else NFree)"

text \<open>Node ids are \<open>uint32_t\<close>.\<close>

definition uint_id :: "nat \<Rightarrow> bool" where
  "uint_id n \<longleftrightarrow> n < 2 ^ 32"

lemma node_id_uint: "node_id lim n \<Longrightarrow> uint_id lim \<Longrightarrow> uint_id n"
  by (simp add: node_id_def uint_id_def)

text \<open>Line indices stay below \<open>2 ^ 23\<close>, so distinct lines have distinct addresses.\<close>

definition line_id :: "u64 \<Rightarrow> bool" where
  "line_id l \<longleftrightarrow> unat l < 2 ^ 23"

definition way_ok :: "cache \<Rightarrow> nat \<Rightarrow> bool" where
  "way_ok c w \<longleftrightarrow> (cache_valid c ! w \<longrightarrow> length (cache_data c ! w) = 32 \<and> line_id (cache_line c ! w) \<and>
     (\<not> cache_dirty c ! w \<longrightarrow> cache_data c ! w = cache_mem c (line_ea (cache_tree c) (cache_line c ! w))))"

definition ways_distinct :: "cache \<Rightarrow> bool" where
  "ways_distinct c \<longleftrightarrow> (\<forall>v < ways. \<forall>w < ways. cache_valid c ! v \<and> cache_valid c ! w \<and>
     cache_line c ! v = cache_line c ! w \<longrightarrow> v = w)"

definition cache_sized :: "cache \<Rightarrow> bool" where
  "cache_sized c \<longleftrightarrow> length (cache_data c) = ways \<and> length (cache_line c) = ways \<and>
     length (cache_valid c) = ways \<and> length (cache_dirty c) = ways \<and>
     cache_victim c < ways \<and> cache_last c < ways \<and> (\<forall>a. length (cache_mem c a) = 32)"

definition cache_inv :: "cache \<Rightarrow> bool" where
  "cache_inv c \<longleftrightarrow> cache_sized c \<and> ways_distinct c \<and> (\<forall>w < ways. way_ok c w)"

lemma line_ea_inj: "line_id l \<Longrightarrow> line_id l' \<Longrightarrow> line_ea t l = line_ea t l' \<longleftrightarrow> l = l'"
proof -
  assume l: "line_id l" "line_id l'"
  then have "unat (l * 128) = unat l * 128" "unat (l' * 128) = unat l' * 128"
    by (simp_all add: line_id_def unat_times_small)
  then have "l * 128 = l' * 128 \<longleftrightarrow> l = l'" by (metis mult_cancel2 word_unat_eq_iff zero_neq_numeral)
  then show ?thesis by (simp add: line_ea_def)
qed

lemma tree_line_value: "uint_id n \<Longrightarrow> unat (sheap_tree_line n) = n div 512"
  by (simp add: sheap_tree_line_def uint_id_def unat_shiftr unat_of_nat_small)

lemma tree_line_id: "uint_id n \<Longrightarrow> line_id (sheap_tree_line n)"
  by (simp add: line_id_def tree_line_value) (simp add: uint_id_def)

lemma tree_line_eq: "uint_id m \<Longrightarrow> uint_id n \<Longrightarrow> sheap_tree_line m = sheap_tree_line n \<longleftrightarrow> m div 512 = n div 512"
  by (simp add: word_unat_eq_iff tree_line_value)

lemma view_hit:
  assumes "ways_distinct c" "w < ways" "cache_valid c ! w" "cache_line c ! w = l"
  shows "line_view c l = cache_data c ! w" "find_way c l = Some w"
proof -
  obtain v where v: "find_way c l = Some v"
    using assms(2-4) by (cases "find_way c l") (auto simp: find_way_def find_None_iff)
  then have "v < ways" "cache_valid c ! v" "cache_line c ! v = l"
    by (auto simp: find_way_def find_Some_iff)
  then have "v = w" using assms by (auto simp: ways_distinct_def)
  with v show "line_view c l = cache_data c ! w" "find_way c l = Some w" by (simp_all add: line_view_def)
qed

lemma view_miss:
  assumes "\<And>w. w < ways \<Longrightarrow> cache_valid c ! w \<Longrightarrow> cache_line c ! w \<noteq> l"
  shows "line_view c l = cache_mem c (line_ea (cache_tree c) l)" "find_way c l = None"
proof -
  show "find_way c l = None" using assms by (auto simp: find_way_def find_None_iff)
  then show "line_view c l = cache_mem c (line_ea (cache_tree c) l)" by (simp add: line_view_def)
qed

lemma find_way_None: "find_way c l = None \<Longrightarrow> w < ways \<Longrightarrow> cache_valid c ! w \<Longrightarrow> cache_line c ! w \<noteq> l"
  by (auto simp: find_way_def find_None_iff)

lemma find_way_Some: "find_way c l = Some w \<Longrightarrow> w < ways \<and> cache_valid c ! w \<and> cache_line c ! w = l"
  by (auto simp: find_way_def find_Some_iff)

lemma cache_sizedD:
  assumes "cache_sized c"
  shows "length (cache_data c) = ways" "length (cache_line c) = ways" "length (cache_valid c) = ways"
    "length (cache_dirty c) = ways" "cache_victim c < ways" "cache_last c < ways" "length (cache_mem c a) = 32"
  using assms by (simp_all add: cache_sized_def)

subsection \<open>Writing a way back\<close>

text \<open>The fields a write-back leaves alone.\<close>

lemma flush_way_fields [simp]:
  "cache_data (flush_way w c) = cache_data c" "cache_line (flush_way w c) = cache_line c"
  "cache_valid (flush_way w c) = cache_valid c" "cache_victim (flush_way w c) = cache_victim c"
  "cache_last (flush_way w c) = cache_last c" "cache_tree (flush_way w c) = cache_tree c"
  by (simp_all add: flush_way_def write_back_def)

lemma flush_way_dirty:
  "cache_sized c \<Longrightarrow> w < ways \<Longrightarrow> cache_valid c ! w \<Longrightarrow> \<not> cache_dirty (flush_way w c) ! w"
  by (auto simp: flush_way_def write_back_def cache_sized_def)

lemma flush_way_view:
  assumes "cache_inv c" "w < ways" "line_id l"
  shows "line_view (flush_way w c) l = line_view c l"
proof (cases "find_way c l")
  case (Some v)
  then have "find_way (flush_way w c) l = Some v" by (simp add: find_way_def)
  with Some show ?thesis by (simp add: line_view_def)
next
  case None
  then have n: "find_way (flush_way w c) l = None" by (simp add: find_way_def)
  have "cache_mem (flush_way w c) (line_ea (cache_tree c) l) = cache_mem c (line_ea (cache_tree c) l)"
  proof (cases "cache_valid c ! w \<and> cache_dirty c ! w")
    case True
    then have "cache_line c ! w \<noteq> l" "line_id (cache_line c ! w)"
      using find_way_None[OF None assms(2)] assms(1,2) by (auto simp: cache_inv_def way_ok_def)
    then show ?thesis using True assms(3) by (simp add: flush_way_def write_back_def line_ea_inj)
  qed (auto simp: flush_way_def)
  then show ?thesis using None n by (simp add: line_view_def)
qed

lemma flush_way_inv:
  assumes "cache_inv c" "w < ways"
  shows "cache_inv (flush_way w c)"
proof (cases "cache_valid c ! w \<and> cache_dirty c ! w")
  case True
  have sz: "cache_sized c" and ds: "ways_distinct c" and ok: "\<And>v. v < ways \<Longrightarrow> way_ok c v"
    using assms(1) by (simp_all add: cache_inv_def)
  have wok: "length (cache_data c ! w) = 32" "line_id (cache_line c ! w)"
    using ok[OF assms(2)] True by (simp_all add: way_ok_def)
  have eq: "flush_way w c = write_back w c" using True by (simp add: flush_way_def)
  have "cache_sized (write_back w c)" using sz wok by (simp add: cache_sized_def write_back_def)
  moreover have "ways_distinct (write_back w c)" using ds by (simp add: ways_distinct_def write_back_def)
  moreover have "way_ok (write_back w c) v" if v: "v < ways" for v
  proof (cases "v = w")
    case True
    then show ?thesis using wok sz v by (simp add: way_ok_def write_back_def cache_sized_def)
  next
    case False
    have "cache_line c ! v \<noteq> cache_line c ! w" if "cache_valid c ! v"
      using ds v assms(2) True False that by (auto simp: ways_distinct_def)
    then show ?thesis using ok[OF v] wok sz v False
      by (auto simp: way_ok_def write_back_def cache_sized_def line_ea_inj)
  qed
  ultimately show ?thesis by (simp add: cache_inv_def eq)
qed (use assms in \<open>auto simp: flush_way_def\<close>)

subsection \<open>Loading a line\<close>

lemma load_way_view:
  assumes "cache_inv c" "w < ways" "line_id l" "find_way c l = None"
    "\<not> (cache_valid c ! w \<and> cache_dirty c ! w)" "line_id l'"
  shows "line_view (load_way w l c) l' = line_view c l'" and "cache_inv (load_way w l c)"
proof -
  let ?c = "load_way w l c"
  have sz: "cache_sized c" and ds: "ways_distinct c" and ok: "\<And>v. v < ways \<Longrightarrow> way_ok c v"
    using assms(1) by (simp_all add: cache_inv_def)
  note len = cache_sizedD[OF sz]
  have new: "cache_valid ?c ! w" "cache_line ?c ! w = l"
    "cache_data ?c ! w = cache_mem c (line_ea (cache_tree c) l)"
    using assms(2) len by (simp_all add: load_way_def)
  have old: "cache_valid ?c ! v = cache_valid c ! v" "cache_line ?c ! v = cache_line c ! v"
    "cache_data ?c ! v = cache_data c ! v" if "v \<noteq> w" for v
    using that by (simp_all add: load_way_def)
  have same: "cache_mem ?c = cache_mem c" "cache_tree ?c = cache_tree c" "cache_dirty ?c = cache_dirty c"
    by (simp_all add: load_way_def)
  have absent: "cache_line c ! v \<noteq> l" if "v < ways" "cache_valid c ! v" for v
    using find_way_None[OF assms(4) that] .
  have ds': "ways_distinct ?c"
    unfolding ways_distinct_def
  proof (intro allI impI)
    fix u v assume "u < ways" "v < ways"
      and e: "cache_valid ?c ! u \<and> cache_valid ?c ! v \<and> cache_line ?c ! u = cache_line ?c ! v"
    then show "u = v" using ds old absent new unfolding ways_distinct_def by metis
  qed
  have "way_ok ?c v" if v: "v < ways" for v
  proof (cases "v = w")
    case True
    then show ?thesis using new same assms(3) len by (simp add: way_ok_def)
  next
    case False
    then show ?thesis using ok[OF v] old[OF False] same by (simp add: way_ok_def)
  qed
  moreover have "cache_sized ?c" using sz by (simp add: cache_sized_def load_way_def)
  ultimately show "cache_inv ?c" using ds' by (simp add: cache_inv_def)
  have hit: "line_view ?c (cache_line ?c ! v) = cache_data ?c ! v" if "v < ways" "cache_valid ?c ! v" for v
    using view_hit(1)[OF ds' that refl] .
  show "line_view ?c l' = line_view c l'"
  proof (cases "l' = l")
    case True
    then show ?thesis using hit[OF assms(2)] new assms(4) by (simp add: line_view_def)
  next
    case ne: False
    show ?thesis
    proof (cases "find_way c l'")
      case None
      then have "cache_line ?c ! v \<noteq> l'" if "v < ways" "cache_valid ?c ! v" for v
        using that old[of v] new ne find_way_None[OF None that(1)] by (cases "v = w") auto
      from view_miss(1)[OF this] None show ?thesis using same by (simp add: line_view_def)
    next
      case (Some v)
      then have v: "v < ways" "cache_valid c ! v" "cache_line c ! v = l'" using find_way_Some by auto
      show ?thesis
      proof (cases "v = w")
        case False
        then show ?thesis using hit[of v] v old[OF False] Some by (simp add: line_view_def)
      next
        case True
        have "cache_line ?c ! u \<noteq> l'" if "u < ways" "cache_valid ?c ! u" for u
          using that old[of u] new ne ds v True by (cases "u = w") (auto simp: ways_distinct_def)
        from view_miss(1)[OF this] show ?thesis
          using same True v ok[OF v(1)] assms(5) Some by (simp add: line_view_def way_ok_def)
      qed
    qed
  qed
qed

subsection \<open>Finding the way of a node\<close>

lemma way_for_spec:
  assumes "cache_inv c" "uint_id n"
  shows "\<exists>w c'. way_for c n = (w, c') \<and> w < ways \<and> cache_inv c' \<and> cache_valid c' ! w \<and>
    cache_line c' ! w = sheap_tree_line n \<and> cache_tree c' = cache_tree c \<and>
    (\<forall>l. line_id l \<longrightarrow> line_view c' l = line_view c l)"
proof -
  let ?l = "sheap_tree_line n"
  have sz: "cache_sized c" using assms(1) by (simp add: cache_inv_def)
  have lid: "line_id ?l" using assms(2) by (rule tree_line_id)
  have touch: "cache_inv (d\<lparr>cache_last := v\<rparr>)" "line_view (d\<lparr>cache_last := v\<rparr>) l = line_view d l"
    if "cache_inv d" "v < ways" for d v l
    using that by (simp_all add: cache_inv_def cache_sized_def ways_distinct_def way_ok_def line_view_def find_way_def
        split: option.splits)
  show ?thesis
  proof (cases "cache_valid c ! cache_last c \<and> cache_line c ! cache_last c = ?l")
    case True
    then show ?thesis using assms(1) cache_sizedD(6)[OF sz] by (simp add: way_for_def)
  next
    case nolast: False
    show ?thesis
    proof (cases "find_way c ?l")
      case (Some v)
      then show ?thesis using nolast find_way_Some[OF Some] touch[OF assms(1)] by (auto simp: way_for_def)
    next
      case None
      let ?w = "cache_victim c" and ?v = "c\<lparr>cache_victim := (cache_victim c + 1) mod ways\<rparr>"
      have w: "?w < ways" using cache_sizedD(5)[OF sz] .
      have v: "cache_inv ?v" "line_view ?v l = line_view c l" "find_way ?v l = find_way c l" for l
        using assms(1) by (simp_all add: cache_inv_def cache_sized_def ways_distinct_def way_ok_def
            line_view_def find_way_def ways_def split: option.splits)
      let ?f = "flush_way ?w ?v"
      have f: "cache_inv ?f" using flush_way_inv[OF v(1) w] .
      have clean: "\<not> (cache_valid ?f ! ?w \<and> cache_dirty ?f ! ?w)"
        using flush_way_dirty[of ?v ?w] v(1) w by (auto simp: cache_inv_def)
      have fnd: "find_way ?f ?l = None" using None by (simp add: find_way_def)
      note load = load_way_view[OF f w lid fnd clean]
      let ?d = "load_way ?w ?l ?f"
      have d: "cache_inv ?d" using load(2)[OF lid] .
      have vw: "line_view ?d l = line_view c l" if "line_id l" for l
        using load(1)[OF that] flush_way_view[OF v(1) w that] v(2) by simp
      have len: "length (cache_valid ?f) = ways" "length (cache_line ?f) = ways"
        using f by (auto simp: cache_inv_def dest: cache_sizedD)
      have "cache_valid ?d ! ?w" "cache_line ?d ! ?w = ?l" "cache_tree ?d = cache_tree c"
        using w len by (simp_all add: load_way_def)
      moreover have "way_for c n = (?w, ?d\<lparr>cache_last := ?w\<rparr>)"
        using nolast None by (auto simp: way_for_def Let_def)
      ultimately show ?thesis using w touch[OF d w] vw by simp
    qed
  qed
qed

lemma cache_get_spec:
  assumes "cache_inv c" "node_id lim n" "uint_id lim"
  shows "fst (cache_get c n) = cache_abs lim c n" "cache_abs lim (snd (cache_get c n)) = cache_abs lim c"
    "cache_inv (snd (cache_get c n))" "cache_tree (snd (cache_get c n)) = cache_tree c"
proof -
  obtain w c' where w: "way_for c n = (w, c')" "w < ways" "cache_inv c'" "cache_valid c' ! w"
    "cache_line c' ! w = sheap_tree_line n" "cache_tree c' = cache_tree c"
    "\<And>l. line_id l \<Longrightarrow> line_view c' l = line_view c l"
    using way_for_spec[OF assms(1) node_id_uint[OF assms(2,3)]] by blast
  have "line_view c' (sheap_tree_line n) = cache_data c' ! w"
    using view_hit(1)[OF _ w(2,4,5)] w(3) by (simp add: cache_inv_def)
  then have "cache_data c' ! w = line_view c (sheap_tree_line n)" using w(7) tree_line_id[OF node_id_uint[OF assms(2,3)]] by simp
  then show "fst (cache_get c n) = cache_abs lim c n"
    using w(1) assms(2) by (simp add: cache_get_def cache_abs_def field_state_def)
  show "cache_abs lim (snd (cache_get c n)) = cache_abs lim c"
    using w(1,7) tree_line_id node_id_uint[OF _ assms(3)] by (auto simp: cache_get_def cache_abs_def)
  show "cache_inv (snd (cache_get c n))" "cache_tree (snd (cache_get c n)) = cache_tree c"
    using w by (simp_all add: cache_get_def)
qed

lemma cache_set_spec:
  assumes "cache_inv c" "node_id lim n" "uint_id lim"
  shows "cache_abs lim (cache_set c n st) = (cache_abs lim c)(n := st)" "cache_inv (cache_set c n st)"
    "cache_tree (cache_set c n st) = cache_tree c"
proof -
  obtain w c' where w: "way_for c n = (w, c')" "w < ways" "cache_inv c'" "cache_valid c' ! w"
    "cache_line c' ! w = sheap_tree_line n" "cache_tree c' = cache_tree c"
    "\<And>l. line_id l \<Longrightarrow> line_view c' l = line_view c l"
    using way_for_spec[OF assms(1) node_id_uint[OF assms(2,3)]] by blast
  define d where "d = cache_data c' ! w"
  define d' where "d' = d[sheap_tree_word n := put_state (d ! sheap_tree_word n) (sheap_tree_shift n) st]"
  define e where "e = c'\<lparr>cache_data := (cache_data c')[w := d'], cache_dirty := (cache_dirty c')[w := True]\<rparr>"
  have set: "cache_set c n st = e" using w(1) by (simp add: cache_set_def e_def d'_def d_def Let_def)
  have sz: "cache_sized c'" and ds: "ways_distinct c'" and ok: "\<And>v. v < ways \<Longrightarrow> way_ok c' v"
    using w(3) by (simp_all add: cache_inv_def)
  note len = cache_sizedD[OF sz]
  have dl: "length d = 32" using ok[OF w(2)] w(4) by (simp add: way_ok_def d_def)
  have "cache_sized e" using sz by (simp add: cache_sized_def e_def)
  moreover have dse: "ways_distinct e" using ds by (simp add: ways_distinct_def e_def)
  moreover have "way_ok e v" if "v < ways" for v
    using ok[OF that] dl len w(2) by (cases "v = w") (simp_all add: way_ok_def e_def d'_def)
  ultimately show "cache_inv (cache_set c n st)" by (simp add: set cache_inv_def)
  show "cache_tree (cache_set c n st) = cache_tree c" using w(6) by (simp add: set e_def)
  have here: "line_view e (sheap_tree_line n) = d'"
    using view_hit(1)[OF dse w(2)] w(2,4,5) len by (simp add: e_def)
  have was: "line_view c (sheap_tree_line n) = d"
    using view_hit(1)[OF ds w(2,4,5)] w(7) tree_line_id[OF node_id_uint[OF assms(2,3)]] by (simp add: d_def)
  have there: "line_view e l = line_view c l" if l: "line_id l" "l \<noteq> sheap_tree_line n" for l
  proof -
    have f: "find_way e l = find_way c' l" by (simp add: find_way_def e_def)
    have "line_view e l = line_view c' l"
    proof (cases "find_way c' l")
      case (Some v)
      then have "v \<noteq> w" using find_way_Some[OF Some] w(5) l(2) by auto
      then show ?thesis using Some f by (simp add: line_view_def e_def)
    qed (use f in \<open>simp add: line_view_def e_def\<close>)
    then show ?thesis using w(7) l(1) by simp
  qed
  show "cache_abs lim (cache_set c n st) = (cache_abs lim c)(n := st)"
  proof
    fix m
    show "cache_abs lim (cache_set c n st) m = ((cache_abs lim c)(n := st)) m"
    proof (cases "node_id lim m")
      case False
      then show ?thesis using assms(2) by (auto simp: cache_abs_def)
    next
      case True
      show ?thesis
      proof (cases "m div 512 = n div 512")
        case same: True
        then have "sheap_tree_line m = sheap_tree_line n" using tree_line_eq node_id_uint[OF _ assms(3)] \<open>node_id lim m\<close> assms(2) by simp
        then show ?thesis using True here was field_state_put[OF dl same]
          by (simp add: cache_abs_def set d'_def)
      next
        case False
        then have "sheap_tree_line m \<noteq> sheap_tree_line n" using tree_line_eq node_id_uint[OF _ assms(3)] True assms(2) by simp
        then show ?thesis using True there[OF tree_line_id[OF node_id_uint[OF True assms(3)]]] False
          by (auto simp: cache_abs_def set)
      qed
    qed
  qed
qed

section \<open>The cache as a tree accessor\<close>

text \<open>
  The tree operations run on the cache as on a flat array (\<open>cached_tree.allocate_sim\<close> and the
  others), for a fixed tree address.
\<close>

definition cache_on :: "nat \<Rightarrow> u64 \<Rightarrow> cache \<Rightarrow> bool" where
  "cache_on lim tree c \<longleftrightarrow> uint_id lim \<and> cache_inv c \<and> cache_tree c = tree"

interpretation cached_tree: tree_accessor sheap_cache_access "cache_abs (Suc (2 * k))" "cache_on (Suc (2 * k)) tree" "Suc (2 * k)" for k tree
  by unfold_locales (simp_all add: sheap_cache_access_def cache_on_def cache_get_spec cache_set_spec)

subsection \<open>Main memory\<close>

text \<open>The tree in main memory.\<close>

definition memory_tree :: "nat \<Rightarrow> (u64 \<Rightarrow> tree_line) \<Rightarrow> u64 \<Rightarrow> tree" where
  "memory_tree lim mem tree n =
     (if node_id lim n then field_state (mem (line_ea tree (sheap_tree_line n))) n else NFree)"

lemma cache_begin_on:
  assumes "length (cache_data c) = ways" "length (cache_line c) = ways" "\<forall>a. length (cache_mem c a) = 32"
    "uint_id lim"
  shows "cache_on lim tree (sheap_cache_begin c tree)"
    "cache_abs lim (sheap_cache_begin c tree) = memory_tree lim (cache_mem c) tree"
proof -
  let ?c = "sheap_cache_begin c tree"
  have inv: "\<not> cache_valid ?c ! w" if "w < ways" for w using that by (simp add: sheap_cache_begin_def)
  then show "cache_on lim tree ?c"
    using assms by (auto simp: cache_on_def cache_inv_def cache_sized_def ways_distinct_def way_ok_def
        sheap_cache_begin_def ways_def)
  have "line_view ?c l = cache_mem c (line_ea tree l)" for l
    using view_miss(1)[of ?c l] inv by (simp add: sheap_cache_begin_def)
  then show "cache_abs lim ?c = memory_tree lim (cache_mem c) tree"
    by (simp add: cache_abs_def memory_tree_def fun_eq_iff)
qed

lemma flush_ways_spec:
  assumes "cache_inv c" "set ws \<subseteq> {..<ways}"
  shows "cache_inv (fold flush_way ws c) \<and> (\<forall>l. line_id l \<longrightarrow> line_view (fold flush_way ws c) l = line_view c l)
    \<and> cache_valid (fold flush_way ws c) = cache_valid c \<and> cache_tree (fold flush_way ws c) = cache_tree c
    \<and> (\<forall>v < ways. cache_valid c ! v \<and> (v \<in> set ws \<or> \<not> cache_dirty c ! v) \<longrightarrow> \<not> cache_dirty (fold flush_way ws c) ! v)"
  using assms
proof (induction ws arbitrary: c)
  case (Cons w ws)
  then have w: "w < ways" by simp
  have inv: "cache_inv (flush_way w c)" using flush_way_inv[OF Cons.prems(1) w] .
  have sz: "cache_sized c" using Cons.prems(1) by (simp add: cache_inv_def)
  have "\<not> cache_dirty (flush_way w c) ! v" if "v < ways" "cache_valid c ! v" "v = w \<or> \<not> cache_dirty c ! v" for v
    using that flush_way_dirty[OF sz w] cache_sizedD(4)[OF sz]
    by (cases "v = w") (auto simp: flush_way_def write_back_def)
  then show ?case
    using Cons.IH[OF inv] Cons.prems(2) flush_way_view[OF Cons.prems(1) w] by auto
qed simp

text \<open>After a flush main memory holds the tree the cache showed.\<close>

lemma cache_flush_memory:
  assumes "cache_on lim tree c"
  shows "memory_tree lim (cache_mem (sheap_cache_flush c)) tree = cache_abs lim c"
    "cache_on lim tree (sheap_cache_flush c)"
proof -
  let ?f = "sheap_cache_flush c"
  have inv: "cache_inv c" and tree: "cache_tree c = tree" and lim: "uint_id lim" using assms by (simp_all add: cache_on_def)
  note F = flush_ways_spec[OF inv, of "[0..<ways]", folded sheap_cache_flush_def]
  have f: "cache_inv ?f" "cache_tree ?f = tree" "\<And>l. line_id l \<Longrightarrow> line_view ?f l = line_view c l"
    and clean: "\<And>v. v < ways \<Longrightarrow> cache_valid ?f ! v \<Longrightarrow> \<not> cache_dirty ?f ! v"
    using F tree by (auto simp: atLeast0LessThan)
  then show "cache_on lim tree ?f" using lim by (simp add: cache_on_def)
  have "cache_mem ?f (line_ea tree l) = line_view ?f l" for l
  proof (cases "find_way ?f l")
    case (Some v)
    then have v: "v < ways" "cache_valid ?f ! v" "cache_line ?f ! v = l" using find_way_Some by auto
    then have "cache_data ?f ! v = cache_mem ?f (line_ea (cache_tree ?f) (cache_line ?f ! v))"
      using f(1) clean[OF v(1,2)] by (auto simp: cache_inv_def way_ok_def)
    then show ?thesis using Some v f(2) by (simp add: line_view_def)
  qed (use f(2) in \<open>simp add: line_view_def\<close>)
  then show "memory_tree lim (cache_mem ?f) tree = cache_abs lim c"
    using f(3) tree_line_id node_id_uint[OF _ lim] by (auto simp: memory_tree_def cache_abs_def fun_eq_iff)
qed

end
