(* ===== verification/Sheap_Key.thy ===== *)
theory Sheap_Key
  imports Sheap_Heap "HOL-Library.Multiset"
begin

text \<open>
  The key table of core/heap.c: an entry packs a reference count and an encoded object address
  in one doubleword, and each operation is one read-modify-write step.  The client protocol that
  key_objects.c runs on an entry is a step relation; its invariant says who may use or free the
  object.
\<close>

section \<open>Entries\<close>

datatype key_state = KeyEmpty | KeyNewing | KeyLive | KeyDeleting

definition key_entry :: "u32 \<Rightarrow> u32 \<Rightarrow> u64" where
  "key_entry cnt nval = (push_bit 32 (ucast cnt) OR ucast nval)"

definition key_count :: "u64 \<Rightarrow> u32" where
  "key_count e = ucast (drop_bit 32 e)"

definition key_nval :: "u64 \<Rightarrow> u32" where
  "key_nval e = ucast e"

definition sheap_key_state :: "u64 \<Rightarrow> key_state" where
  "sheap_key_state entry =
     (if key_count entry = 0 then (if key_nval entry = 0 then KeyEmpty else KeyDeleting)
      else (if key_nval entry = 0 then KeyNewing else KeyLive))"

definition sheap_key_decode :: "u32 \<Rightarrow> u64 \<Rightarrow> u64" where
  "sheap_key_decode nval ea_heap = push_bit 7 (ucast (nval - 1)) + ea_heap"

section \<open>Steps\<close>

text \<open>The result codes COMMIT (with \<open>*next\<close> and the step's output), WAIT, OVERFLOW, error.\<close>

datatype 'a key_step = KeyCommit u64 'a | KeyWait | KeyOverflow | KeyError sheap_error

definition sheap_key_new_step :: "u64 \<Rightarrow> u64 \<Rightarrow> u64 key_step" where
  "sheap_key_new_step entry ea_heap =
     (let state = sheap_key_state entry; nval = key_nval entry in
      if state = KeyNewing \<or> state = KeyDeleting then KeyWait
      else KeyCommit (key_entry (key_count entry + 1) nval)
             (if nval \<noteq> 0 then sheap_key_decode nval ea_heap else 0))"

definition sheap_key_finalize_new_step :: "u64 \<Rightarrow> u64 \<Rightarrow> u64 \<Rightarrow> u64 \<Rightarrow> unit key_step" where
  "sheap_key_finalize_new_step entry object ea_heap buffer =
     (if sheap_key_state entry \<noteq> KeyNewing then KeyError SHEAP_BUSY
      else if object = 0 then KeyCommit 0 ()
      else if object < ea_heap \<or> object - ea_heap \<ge> buffer \<or> (object - ea_heap) AND 127 \<noteq> 0
        then KeyError SHEAP_INVAL
      else let nval = drop_bit 7 (object - ea_heap) + 1 in
        if nval > 0xffffffff then KeyOverflow
        else KeyCommit (key_entry (key_count entry) (ucast nval)) ())"

definition sheap_key_delete_step :: "u64 \<Rightarrow> u64 \<Rightarrow> u64 key_step" where
  "sheap_key_delete_step entry ea_heap =
     (let cnt = key_count entry; nval = key_nval entry in
      if cnt = 0 then KeyError SHEAP_BUSY
      else if nval = 0 then KeyWait
      else KeyCommit (key_entry (cnt - 1) nval)
             (if cnt = 1 then sheap_key_decode nval ea_heap else 0))"

definition sheap_key_finalize_delete_step :: "u64 \<Rightarrow> unit key_step" where
  "sheap_key_finalize_delete_step entry =
     (if sheap_key_state entry \<noteq> KeyDeleting then KeyError SHEAP_BUSY else KeyCommit 0 ())"

section \<open>Packing\<close>

lemma key_entry_value: "unat (key_entry c v) = unat c * 2 ^ 32 + unat v"
proof -
  have hi: "unat (push_bit 32 (ucast c :: u64)) = unat c * 2 ^ 32"
    using unat_u32_less[of c] by (subst unat_shiftl_small) simp_all
  have "push_bit 32 (ucast c :: u64) AND ucast v = 0"
  proof (rule bit_word_eqI)
    fix n assume "n < LENGTH(64)"
    have "\<not> bit v n" if "32 \<le> n" using that by (auto dest: bit_imp_le_length)
    then show "bit (push_bit 32 (ucast c :: u64) AND ucast v) n = bit (0 :: u64) n"
      by (auto simp: bit_simps)
  qed
  then have "key_entry c v = push_bit 32 (ucast c) + ucast v"
    unfolding key_entry_def by (rule disjunctive_add_eq_or[symmetric])
  then show ?thesis
    using hi unat_u32_less[of c] unat_u32_less[of v] by (simp only:) (subst unat_plus_small; simp)
qed

lemma key_count_entry [simp]: "key_count (key_entry c v) = c"
  using unat_u32_less[of c] unat_u32_less[of v]
  by (simp add: key_count_def word_unat_eq_iff unat_u32_of_u64 unat_shiftr key_entry_value)

lemma key_nval_entry [simp]: "key_nval (key_entry c v) = v"
  using unat_u32_less[of v]
  by (simp add: key_nval_def word_unat_eq_iff unat_u32_of_u64 key_entry_value)

lemma key_entry_zero [simp]: "key_entry 0 0 = 0"
  by (simp add: word_unat_eq_iff key_entry_value)

lemma key_count_zero [simp]: "key_count 0 = 0" and key_nval_zero [simp]: "key_nval 0 = 0"
  by (simp_all add: key_count_def key_nval_def)

lemma key_entry_split: "key_entry (key_count e) (key_nval e) = e"
proof -
  have "unat e div 2 ^ 32 < 2 ^ 32" using unat_u64_less[of e] by simp
  then show ?thesis
    by (simp add: word_unat_eq_iff key_entry_value key_count_def key_nval_def unat_u32_of_u64
        unat_shiftr)
qed

section \<open>Publishing an address\<close>

text \<open>The address an entry value stands for, inside the buffer.\<close>

definition published :: "u64 \<Rightarrow> u64 \<Rightarrow> u64 \<Rightarrow> u32 \<Rightarrow> bool" where
  "published ea_heap buffer object v \<longleftrightarrow> v \<noteq> 0 \<and> sheap_key_decode v ea_heap = object \<and> object \<noteq> 0 \<and>
     ea_heap \<le> object \<and> object - ea_heap < buffer \<and> (object - ea_heap) AND 127 = 0"

lemma align_128_split: "x AND 127 = 0 \<Longrightarrow> push_bit 7 (drop_bit 7 x) = x" for x :: u64
proof -
  assume "x AND 127 = 0"
  then have "take_bit 7 x = 0" by (simp add: take_bit_eq_mask mask_eq_exp_minus_1)
  with bits_ident[of 7 x] show ?thesis by simp
qed

lemma finalize_new_publishes:
  assumes "sheap_key_finalize_new_step e object ea_heap buffer = KeyCommit e' ()" "object \<noteq> 0"
  shows "\<exists>v. e' = key_entry (key_count e) v \<and> published ea_heap buffer object v"
proof -
  let ?off = "object - ea_heap"
  let ?q = "drop_bit 7 ?off"
  from assms have c: "ea_heap \<le> object" "?off < buffer" "?off AND 127 = 0" "\<not> ?q + 1 > 0xffffffff"
    and e': "e' = key_entry (key_count e) (ucast (?q + 1))"
    by (auto simp: sheap_key_finalize_new_step_def Let_def not_le not_less split: if_splits)
  have q: "unat ?q < 2 ^ 57" using unat_u64_less[of ?off] by (simp add: unat_shiftr)
  then have q1: "unat (?q + 1) = unat ?q + 1" by (subst unat_plus_small) simp_all
  then have small: "unat ?q + 1 \<le> 0xffffffff" using c(4) by (simp add: word_less_nat_alt)
  then have v: "unat (ucast (?q + 1) :: u32) = unat ?q + 1" using q1 by (simp add: unat_u32_of_u64)
  then have vm: "unat ((ucast (?q + 1) :: u32) - 1) = unat ?q"
    by (subst unat_minus_one) auto
  have "(ucast ((ucast (?q + 1) :: u32) - 1) :: u64) = ?q"
    by (simp only: word_unat_eq_iff unat_u64_of_u32 vm)
  then have "sheap_key_decode (ucast (?q + 1)) ea_heap = object"
    using align_128_split[OF c(3)] by (simp add: sheap_key_decode_def)
  moreover have "(ucast (?q + 1) :: u32) \<noteq> 0" using v by auto
  ultimately show ?thesis using c assms(2) e' unfolding published_def by blast
qed

text \<open>A buffer laid out by the geometry functions has no address that does not fit.\<close>

lemma finalize_new_no_overflow:
  assumes "unat buffer \<le> 128 * 2 ^ 31"
  shows "sheap_key_finalize_new_step e object ea_heap buffer \<noteq> KeyOverflow"
proof
  let ?off = "object - ea_heap"
  assume "sheap_key_finalize_new_step e object ea_heap buffer = KeyOverflow"
  then have o: "?off < buffer" "drop_bit 7 ?off + 1 > 0xffffffff"
    by (auto simp: sheap_key_finalize_new_step_def Let_def not_le split: if_splits)
  have "unat ?off < 128 * 2 ^ 31" using o(1) assms by (simp add: word_less_nat_alt)
  then have q: "unat (drop_bit 7 ?off) < 2 ^ 31" by (simp add: unat_shiftr)
  then have "unat (drop_bit 7 ?off + 1) = unat (drop_bit 7 ?off) + 1" by (subst unat_plus_small) simp_all
  then show False using q o(2) by (simp add: word_less_nat_alt)
qed

section \<open>The protocol of one key\<close>

text \<open>
  What a client of key_objects.c is doing with the key: nothing, building the object, using it,
  or freeing it after dropping the last reference.
\<close>

datatype key_client = Idle | Creating | Holding u64 | Freeing u64

type_synonym key_system = "u64 \<times> key_client multiset"

inductive key_sys_step :: "u64 \<Rightarrow> u64 \<Rightarrow> key_system \<Rightarrow> key_system \<Rightarrow> bool" for ea_heap buffer where
  attach_create: "sheap_key_new_step e ea_heap = KeyCommit e' 0 \<Longrightarrow>
    key_sys_step ea_heap buffer (e, add_mset Idle M) (e', add_mset Creating M)"
| attach_reuse: "sheap_key_new_step e ea_heap = KeyCommit e' object \<Longrightarrow> object \<noteq> 0 \<Longrightarrow>
    key_sys_step ea_heap buffer (e, add_mset Idle M) (e', add_mset (Holding object) M)"
| publish: "sheap_key_finalize_new_step e object ea_heap buffer = KeyCommit e' () \<Longrightarrow> object \<noteq> 0 \<Longrightarrow>
    key_sys_step ea_heap buffer (e, add_mset Creating M) (e', add_mset (Holding object) M)"
| cancel: "sheap_key_finalize_new_step e 0 ea_heap buffer = KeyCommit e' () \<Longrightarrow>
    key_sys_step ea_heap buffer (e, add_mset Creating M) (e', add_mset Idle M)"
| detach: "sheap_key_delete_step e ea_heap = KeyCommit e' 0 \<Longrightarrow>
    key_sys_step ea_heap buffer (e, add_mset (Holding a) M) (e', add_mset Idle M)"
| detach_last: "sheap_key_delete_step e ea_heap = KeyCommit e' object \<Longrightarrow> object \<noteq> 0 \<Longrightarrow>
    key_sys_step ea_heap buffer (e, add_mset (Holding a) M) (e', add_mset (Freeing object) M)"
| empty_key: "sheap_key_finalize_delete_step e = KeyCommit e' () \<Longrightarrow>
    key_sys_step ea_heap buffer (e, add_mset (Freeing a) M) (e', add_mset Idle M)"

text \<open>The four shapes of a reachable key, with \<open>m\<close> idle clients.\<close>

inductive key_shape :: "u64 \<Rightarrow> u64 \<Rightarrow> key_system \<Rightarrow> bool" for ea_heap buffer where
  empty: "key_shape ea_heap buffer (0, replicate_mset m Idle)"
| newing: "key_shape ea_heap buffer (key_entry 1 0, add_mset Creating (replicate_mset m Idle))"
| live: "published ea_heap buffer object v \<Longrightarrow> 0 < k \<Longrightarrow>
    key_shape ea_heap buffer
      (key_entry (of_nat k) v, replicate_mset k (Holding object) + replicate_mset m Idle)"
| deleting: "published ea_heap buffer object v \<Longrightarrow>
    key_shape ea_heap buffer (key_entry 0 v, add_mset (Freeing object) (replicate_mset m Idle))"

inductive_cases key_sys_stepE: "key_sys_step ea_heap buffer s t"

lemma key_state_entry [simp]:
  "sheap_key_state 0 = KeyEmpty" "v \<noteq> 0 \<Longrightarrow> sheap_key_state (key_entry 0 v) = KeyDeleting"
  "c \<noteq> 0 \<Longrightarrow> sheap_key_state (key_entry c 0) = KeyNewing"
  "c \<noteq> 0 \<Longrightarrow> v \<noteq> 0 \<Longrightarrow> sheap_key_state (key_entry c v) = KeyLive"
  by (simp_all add: sheap_key_state_def)

lemma publishedD: "published ea_heap buffer object v \<Longrightarrow>
    v \<noteq> 0 \<and> object \<noteq> 0 \<and> sheap_key_decode v ea_heap = object"
  by (simp add: published_def)

lemma add_mset_replicate_eq:
  "add_mset x M = replicate_mset m y \<longleftrightarrow> x = y \<and> 0 < m \<and> M = replicate_mset (m - 1) y"
proof
  assume eq: "add_mset x M = replicate_mset m y"
  then have "x \<in># replicate_mset m y" by (metis union_single_eq_member)
  then have "x = y" "0 < m" by (auto split: if_splits)
  with eq show "x = y \<and> 0 < m \<and> M = replicate_mset (m - 1) y" by (cases m) auto
qed (cases m, auto)

lemma add_mset_other:
  assumes "add_mset x M = add_mset y (replicate_mset m z)" "x \<noteq> z"
  shows "x = y \<and> M = replicate_mset m z"
proof -
  have "x \<in># add_mset y (replicate_mset m z)" using assms(1) by (metis union_single_eq_member)
  then have "x = y" using assms(2) by (auto split: if_splits)
  then show ?thesis using assms(1) by simp
qed

lemma of_nat_u32_nonzero: "0 < k \<Longrightarrow> k < 2 ^ 32 \<Longrightarrow> (of_nat k :: u32) \<noteq> 0"
  by (simp add: word_unat_eq_iff unat_of_nat)

lemma key_shape_step:
  assumes "key_shape ea_heap buffer s" "size (snd s) < 2 ^ 32" "key_sys_step ea_heap buffer s t"
  shows "key_shape ea_heap buffer t \<and> size (snd t) = size (snd s)"
  using assms(1)
proof cases
  case (empty m)
  from assms(3) show ?thesis
  proof (cases rule: key_sys_step.cases)
    case (attach_create e e' M)
    then have "add_mset Idle M = replicate_mset m Idle" "e' = key_entry 1 0"
      using empty by (auto simp: sheap_key_new_step_def)
    then show ?thesis using attach_create empty key_shape.newing[of ea_heap buffer "m - 1"]
      by (simp add: add_mset_replicate_eq)
  qed (use empty in \<open>auto simp: sheap_key_new_step_def sheap_key_finalize_new_step_def
      sheap_key_delete_step_def sheap_key_finalize_delete_step_def\<close>)
next
  case (newing m)
  from assms(3) show ?thesis
  proof (cases rule: key_sys_step.cases)
    case (publish e object e' M)
    then have "e = key_entry 1 0" "M = replicate_mset m Idle" using newing by auto
    with finalize_new_publishes[of e object ea_heap buffer e'] publish
      key_shape.live[of ea_heap buffer object _ 1 m] newing
    show ?thesis by fastforce
  next
    case (cancel e e' M)
    then show ?thesis using newing key_shape.empty[of ea_heap buffer "Suc m"]
      by (auto simp: sheap_key_finalize_new_step_def)
  qed (use newing in \<open>auto simp: sheap_key_new_step_def sheap_key_delete_step_def sheap_key_finalize_delete_step_def\<close>)
next
  case (live object v k m)
  have k: "k < 2 ^ 32" using assms(2) live by simp
  then have nz: "(of_nat k :: u32) \<noteq> 0" using live(3) by (intro of_nat_u32_nonzero)
  note pd = publishedD[OF live(2)]
  from assms(3) show ?thesis
  proof (cases rule: key_sys_step.cases)
    case (attach_create e e' M)
    then show ?thesis using live pd nz by (auto simp: sheap_key_new_step_def)
  next
    case (attach_reuse e e' object' M)
    then have e': "e' = key_entry (of_nat (Suc k)) v" "object' = object"
      using live pd nz by (auto simp: sheap_key_new_step_def add.commute)
    from attach_reuse live have M: "add_mset Idle M = replicate_mset k (Holding object) + replicate_mset m Idle"
      by simp
    then have "Idle \<in># replicate_mset m Idle"
      by (metis in_replicate_mset key_client.distinct(3) union_iff union_single_eq_member)
    then obtain m' where m': "m = Suc m'" by (cases m) auto
    then have "M = replicate_mset k (Holding object) + replicate_mset m' Idle" using M by simp
    then show ?thesis using key_shape.live[OF live(2), of "Suc k" m'] attach_reuse live e' m' by simp
  next
    case (detach e e' a M)
    then have k2: "k \<noteq> 1" and e': "e' = key_entry (of_nat k - 1) v"
      using live pd nz by (auto simp: sheap_key_delete_step_def Let_def split: if_splits)
    obtain k' where k': "k = Suc k'" "0 < k'" using k2 live(3) by (cases k) auto
    have M: "add_mset (Holding a) M = replicate_mset k (Holding object) + replicate_mset m Idle"
      using detach live by simp
    then have "Holding a \<in># replicate_mset k (Holding object)"
      by (metis in_replicate_mset key_client.distinct(3) union_iff union_single_eq_member)
    then have "M = replicate_mset k' (Holding object) + replicate_mset m Idle" using M k' by simp
    then show ?thesis using key_shape.live[OF live(2) k'(2), of "Suc m"] detach live e' k' by simp
  next
    case (detach_last e e' object' a M)
    have "of_nat k = (1 :: u32)"
      using detach_last live pd nz by (auto simp: sheap_key_delete_step_def Let_def split: if_splits)
    then have "unat (of_nat k :: u32) = 1" by simp
    then have k1: "k = 1" using k by (simp add: unat_of_nat)
    then have e': "e' = key_entry 0 v" "object' = object"
      using detach_last live pd nz by (auto simp: sheap_key_delete_step_def Let_def)
    have M: "add_mset (Holding a) M = add_mset (Holding object) (replicate_mset m Idle)"
      using detach_last live k1 by simp
    from add_mset_other[OF this] have "M = replicate_mset m Idle" by simp
    then show ?thesis using key_shape.deleting[OF live(2), of m] detach_last live e' by simp
  qed (use live pd nz in \<open>auto simp: sheap_key_finalize_new_step_def sheap_key_finalize_delete_step_def\<close>)
next
  case (deleting object v m)
  note pd = publishedD[OF deleting(2)]
  from assms(3) show ?thesis
  proof (cases rule: key_sys_step.cases)
    case (empty_key e e' a M)
    then have "M = replicate_mset m Idle" "e' = 0"
      using deleting pd add_mset_other[of "Freeing a" M "Freeing object" m Idle]
      by (auto simp: sheap_key_finalize_delete_step_def)
    then show ?thesis using key_shape.empty[of ea_heap buffer "Suc m"] empty_key deleting by simp
  qed (use deleting pd in \<open>auto simp: sheap_key_new_step_def sheap_key_finalize_new_step_def sheap_key_delete_step_def\<close>)
qed

lemma key_reachable_shape:
  assumes "(key_sys_step ea_heap buffer)\<^sup>*\<^sup>* (0, replicate_mset n Idle) s" "n < 2 ^ 32"
  shows "key_shape ea_heap buffer s \<and> size (snd s) = n"
  using assms(1)
proof (induction rule: rtranclp_induct)
  case base
  then show ?case using key_shape.empty by simp
next
  case (step s t)
  then show ?case using key_shape_step[of ea_heap buffer s t] assms(2) by simp
qed

text \<open>The count of a reachable entry is the number of clients that create or hold the object.\<close>

lemma filter_replicate_mset: "filter_mset P (replicate_mset k x) = (if P x then replicate_mset k x else {#})"
  by (induction k) auto

lemma key_shape_count:
  assumes "key_shape ea_heap buffer (e, M)" "size M < 2 ^ 32"
  shows "unat (key_count e) = size {# c \<in># M. c = Creating \<or> (\<exists>a. c = Holding a) #}"
  using assms by cases (auto simp: unat_of_nat filter_replicate_mset)

end
