(* ===== verification/Llsc.thy ===== *)
theory Llsc
  imports Prelude
begin

text \<open>
  The atomic unit of the SPU and its use.  Every \<open>getllar\<close>/\<open>putllc\<close> loop of the sources has
  the shape: load and reserve a line, decide from its value, store conditionally, start over when
  the reservation was lost.  A loop is modelled by its \<^emph>\<open>decision\<close>, a function of the line, and
  \<open>llsc_loop\<close> runs it against the answers of the memory (the line each load returned, and
  whether the conditional store succeeded).  On the reservation machine below a store that
  succeeds finds the line as it was loaded, so it is one atomic read-modify-write of the line
  with the loop's decision.
\<close>

section \<open>Decisions and loops\<close>

datatype ('l, 'r) decision = Again | Return 'r | Store 'l 'r

datatype ('l, 'r) outcome = Spinning | Returned 'r | Stored 'l 'l 'r

fun llsc_loop :: "('l \<Rightarrow> ('l, 'r) decision) \<Rightarrow> ('l \<times> bool) list \<Rightarrow> ('l, 'r) outcome" where
  "llsc_loop decide [] = Spinning"
| "llsc_loop decide ((line, ok) # answers) =
     (case decide line of
        Again \<Rightarrow> llsc_loop decide answers
      | Return r \<Rightarrow> Returned r
      | Store line' r \<Rightarrow> if ok then Stored line line' r else llsc_loop decide answers)"

lemma llsc_loop_Stored:
  "llsc_loop decide answers = Stored old new r \<Longrightarrow> decide old = Store new r \<and> (old, True) \<in> set answers"
  by (induction answers) (auto split: decision.splits if_splits)

lemma llsc_loop_Returned:
  "llsc_loop decide answers = Returned r \<Longrightarrow> \<exists>x \<in> set answers. decide (fst x) = Return r"
  by (induction answers) (auto split: decision.splits if_splits)

text \<open>A loop ends as soon as an attempt is answered with a line it acts on and its store succeeds.\<close>

lemma llsc_loop_ends:
  "(line, True) \<in> set answers \<Longrightarrow> decide line \<noteq> Again \<Longrightarrow> llsc_loop decide answers \<noteq> Spinning"
  by (induction answers) (auto split: decision.splits if_splits)

text \<open>The try variants make one attempt and report a lost reservation as a failure of their own.\<close>

fun llsc_once :: "'r \<Rightarrow> ('l \<Rightarrow> ('l, 'r) decision) \<Rightarrow> 'l \<times> bool \<Rightarrow> ('l, 'r) outcome" where
  "llsc_once lost decide (line, ok) =
     (case decide line of
        Again \<Rightarrow> Returned lost
      | Return r \<Rightarrow> Returned r
      | Store line' r \<Rightarrow> if ok then Stored line line' r else Returned lost)"

lemma llsc_once_Stored: "llsc_once lost decide answer = Stored old new r \<Longrightarrow> decide old = Store new r \<and> answer = (old, True)"
  by (cases answer) (auto split: decision.splits if_splits)

section \<open>The reservation machine\<close>

text \<open>
  Memory lines by address, and for each processor the address it holds reserved with the copy
  its load delivered.  Any store to a line by another processor loses the reservation on it.
\<close>

record ('p, 'l) reservations =
  mem_line :: "u64 \<Rightarrow> 'l"
  reserved :: "'p \<Rightarrow> (u64 \<times> 'l) option"

definition lose :: "u64 \<Rightarrow> ('p \<Rightarrow> (u64 \<times> 'l) option) \<Rightarrow> 'p \<Rightarrow> (u64 \<times> 'l) option" where
  "lose ea resv p = (case resv p of None \<Rightarrow> None | Some (a, l) \<Rightarrow> if a = ea then None else Some (a, l))"

definition getllar :: "'p \<Rightarrow> u64 \<Rightarrow> ('p, 'l) reservations \<Rightarrow> 'l \<times> ('p, 'l) reservations" where
  "getllar p ea s = (mem_line s ea, s\<lparr>reserved := (reserved s)(p \<mapsto> (ea, mem_line s ea))\<rparr>)"

definition putllc :: "'p \<Rightarrow> u64 \<Rightarrow> 'l \<Rightarrow> ('p, 'l) reservations \<Rightarrow> bool \<times> ('p, 'l) reservations" where
  "putllc p ea line s =
     (if \<exists>l. reserved s p = Some (ea, l)
      then (True, s\<lparr>mem_line := (mem_line s)(ea := line), reserved := lose ea (reserved s)\<rparr>)
      else (False, s\<lparr>reserved := (reserved s)(p := None)\<rparr>))"

definition putlluc :: "u64 \<Rightarrow> 'l \<Rightarrow> ('p, 'l) reservations \<Rightarrow> ('p, 'l) reservations" where
  "putlluc ea line s = s\<lparr>mem_line := (mem_line s)(ea := line), reserved := lose ea (reserved s)\<rparr>"

inductive bus_step :: "'p \<Rightarrow> ('p, 'l) reservations \<Rightarrow> ('p, 'l) reservations \<Rightarrow> bool" where
  load: "bus_step p s (snd (getllar p ea s))"
| store_conditional: "bus_step p s (snd (putllc p ea line s))"
| store: "bus_step p s (putlluc ea line s)"

definition others_step :: "'p \<Rightarrow> ('p, 'l) reservations \<Rightarrow> ('p, 'l) reservations \<Rightarrow> bool" where
  "others_step p s t \<longleftrightarrow> (\<exists>q. q \<noteq> p \<and> bus_step q s t)"

definition reservations_ok :: "('p, 'l) reservations \<Rightarrow> bool" where
  "reservations_ok s \<longleftrightarrow> (\<forall>p ea l. reserved s p = Some (ea, l) \<longrightarrow> mem_line s ea = l)"

lemma lose_Some: "lose ea resv p = Some (a, l) \<longleftrightarrow> resv p = Some (a, l) \<and> a \<noteq> ea"
  by (auto simp: lose_def split: option.splits if_splits)

lemma bus_step_ok: "bus_step p s t \<Longrightarrow> reservations_ok s \<Longrightarrow> reservations_ok t"
  by (induction rule: bus_step.induct)
     (auto simp: reservations_ok_def getllar_def putllc_def putlluc_def lose_Some split: if_splits)

lemma others_steps_ok: "(others_step p)\<^sup>*\<^sup>* s t \<Longrightarrow> reservations_ok s \<Longrightarrow> reservations_ok t"
  by (induction rule: rtranclp_induct) (auto simp: others_step_def intro: bus_step_ok)

text \<open>The others can take a reservation away, but not give or change one.\<close>

lemma bus_step_reserved:
  "bus_step q s t \<Longrightarrow> q \<noteq> p \<Longrightarrow> reserved t p = Some x \<Longrightarrow> reserved s p = Some x"
  by (induction rule: bus_step.induct)
     (cases x; auto simp: getllar_def putllc_def putlluc_def lose_Some split: if_splits)+

lemma others_steps_reserved:
  "(others_step p)\<^sup>*\<^sup>* s t \<Longrightarrow> reserved t p = Some x \<Longrightarrow> reserved s p = Some x"
  by (induction rule: rtranclp_induct) (auto simp: others_step_def dest: bus_step_reserved)

text \<open>A conditional store that succeeds finds the line as the load delivered it.\<close>

theorem putllc_atomic:
  assumes "reservations_ok s0" "getllar p ea s0 = (old, s1)" "(others_step p)\<^sup>*\<^sup>* s1 s2"
    "putllc p ea new s2 = (True, s3)"
  shows "mem_line s2 ea = old \<and> mem_line s3 = (mem_line s2)(ea := new)"
proof -
  obtain l where l: "reserved s2 p = Some (ea, l)"
    using assms(4) by (auto simp: putllc_def split: if_splits)
  have s3: "mem_line s3 = (mem_line s2)(ea := new)"
    using assms(4) l by (auto simp: putllc_def)
  have "reserved s1 p = Some (ea, l)" using others_steps_reserved[OF assms(3) l] .
  then have "l = old" using assms(2) by (auto simp: getllar_def)
  moreover have "reservations_ok s1"
    using bus_step_ok[OF bus_step.load[of p s0 ea] assms(1)] assms(2) by simp
  then have "reservations_ok s2" by (rule others_steps_ok[OF assms(3)])
  ultimately show ?thesis using l s3 by (simp add: reservations_ok_def)
qed

end
