(* ===== verification/Sheap_Ops.thy ===== *)
theory Sheap_Ops
  imports Sheap_Heap Sheap_Cache Sheap_Key Llsc
begin

text \<open>
  \<open>spu/lockline.c\<close>, \<open>spu/keytable.c\<close> and \<open>spu/sheap.c\<close>: the header line and its lock, the
  key-table updates, and the public operations, composed from the tree cache and the core.
  The loops on a reserved line are given by their decisions (theory \<open>Llsc\<close>).  The operations are
  run by one processor: \<open>None\<close> stands for a loop that waits for another one.

  Main memory is seen by type: header lines and key entries by address, tree lines inside the
  cache record.  Zero-filling a region acts on the key entries and tree lines that lie in it.
\<close>

section \<open>State\<close>

record sheap_header =
  h_lock :: u32
  h_ea_self :: u64
  h_ea_tree :: u64
  h_s_tree :: u64
  h_n_nodes :: u32
  h_ea_heap :: u64
  h_s_root :: u64
  h_s_buffer :: u64
  h_spu_tag1 :: u32
  h_spu_tag2 :: u32
  h_ea_keytable :: u64
  h_s_keytable :: u64

definition zero_header :: sheap_header where
  "zero_header = \<lparr>h_lock = 0, h_ea_self = 0, h_ea_tree = 0, h_s_tree = 0, h_n_nodes = 0, h_ea_heap = 0,
     h_s_root = 0, h_s_buffer = 0, h_spu_tag1 = 0, h_spu_tag2 = 0, h_ea_keytable = 0, h_s_keytable = 0\<rparr>"

record heap_world =
  headers :: "u64 \<Rightarrow> sheap_header"
  keys :: "u64 \<Rightarrow> u64"
  tree_cache :: cache
  header :: sheap_header
  key_header :: sheap_header

section \<open>The header line\<close>

text \<open>\<open>__sheap_lock\<close>: spin while the word is set, else store it as 1.\<close>

definition sheap_lock_decision :: "sheap_header \<Rightarrow> (sheap_header, sheap_header) decision" where
  "sheap_lock_decision line =
     (if h_lock line \<noteq> 0 then Again else Store (line\<lparr>h_lock := 1\<rparr>) (line\<lparr>h_lock := 1\<rparr>))"

text \<open>\<open>__sheap_fetch\<close>: store the line back unchanged, to know the copy is a snapshot.\<close>

definition sheap_fetch_decision :: "sheap_header \<Rightarrow> (sheap_header, sheap_header) decision" where
  "sheap_fetch_decision line = Store line line"

definition sheap_lock :: "u64 \<Rightarrow> heap_world \<Rightarrow> heap_world option" where
  "sheap_lock ea w =
     (case sheap_lock_decision (headers w ea) of
        Store line copy \<Rightarrow> Some (w\<lparr>headers := (headers w)(ea := line), header := copy\<rparr>)
      | _ \<Rightarrow> None)"

definition sheap_publish :: "u64 \<Rightarrow> sheap_header \<Rightarrow> heap_world \<Rightarrow> heap_world" where
  "sheap_publish ea line w = w\<lparr>headers := (headers w)(ea := line)\<rparr>"

definition sheap_unlock :: "u64 \<Rightarrow> heap_world \<Rightarrow> heap_world" where
  "sheap_unlock ea w =
     (let line = (header w)\<lparr>h_lock := 0\<rparr> in sheap_publish ea line (w\<lparr>header := line\<rparr>))"

definition sheap_fetch :: "u64 \<Rightarrow> heap_world \<Rightarrow> heap_world option" where
  "sheap_fetch ea w =
     (case sheap_fetch_decision (headers w ea) of
        Store line copy \<Rightarrow> Some (w\<lparr>headers := (headers w)(ea := line), key_header := copy\<rparr>)
      | _ \<Rightarrow> None)"

definition put_zero :: "u64 \<Rightarrow> u64 \<Rightarrow> heap_world \<Rightarrow> heap_world" where
  "put_zero ea chunk w = w\<lparr>keys := (\<lambda>a. if a - ea < chunk then 0 else keys w a),
     tree_cache := (tree_cache w)\<lparr>cache_mem :=
       (\<lambda>a. if a - ea < chunk then replicate 32 0 else cache_mem (tree_cache w) a)\<rparr>\<rparr>"

function sheap_dma_zero :: "u64 \<Rightarrow> u64 \<Rightarrow> heap_world \<Rightarrow> heap_world" where
  "sheap_dma_zero ea sz w =
     (if sz \<noteq> 0 then
        let chunk = (if sz > 1024 then 1024 else sz) in
        sheap_dma_zero (ea + chunk) (sz - chunk) (put_zero ea chunk w)
      else w)"
  by pat_completeness auto
termination
proof (relation "measure (\<lambda>(ea, sz, w). unat sz)", goal_cases)
  case (2 ea sz w chunk)
  then have c: "chunk \<le> sz" "0 < unat chunk" by (auto simp: unat_gt_0 split: if_splits)
  then show ?case by (simp add: unat_sub word_le_nat_alt)
qed simp

declare sheap_dma_zero.simps [simp del]

section \<open>The key table\<close>

text \<open>What an entry update returns to its caller; \<open>KeyTrap\<close> is \<open>__builtin_trap\<close>.\<close>

datatype key_rc = KeyOk | KeyRc sheap_error | KeyTrap

definition entry_ea :: "sheap_header \<Rightarrow> u32 \<Rightarrow> u64" where
  "entry_ea h key = h_ea_keytable h + ucast key * 8"

definition key_new_decision :: "sheap_header \<Rightarrow> u64 \<Rightarrow> (u64, u64) decision" where
  "key_new_decision h entry =
     (case sheap_key_new_step entry (h_ea_heap h) of
        KeyCommit nx object \<Rightarrow> Store nx object
      | _ \<Rightarrow> Again)"

definition key_finalize_new_decision :: "sheap_header \<Rightarrow> u64 \<Rightarrow> u64 \<Rightarrow> (u64, key_rc) decision" where
  "key_finalize_new_decision h object entry =
     (case sheap_key_finalize_new_step entry object (h_ea_heap h) (h_s_buffer h) of
        KeyOverflow \<Rightarrow> Return KeyTrap
      | KeyError e \<Rightarrow> Return (KeyRc e)
      | KeyCommit nx _ \<Rightarrow> Store nx KeyOk
      | KeyWait \<Rightarrow> Return KeyTrap)"

definition key_delete_decision :: "sheap_header \<Rightarrow> u64 \<Rightarrow> (u64, key_rc \<times> u64) decision" where
  "key_delete_decision h entry =
     (case sheap_key_delete_step entry (h_ea_heap h) of
        KeyWait \<Rightarrow> Again
      | KeyError e \<Rightarrow> Return (KeyRc e, 0)
      | KeyCommit nx object \<Rightarrow> Store nx (KeyOk, object)
      | KeyOverflow \<Rightarrow> Again)"

definition key_finalize_delete_decision :: "u64 \<Rightarrow> (u64, key_rc) decision" where
  "key_finalize_delete_decision entry =
     (case sheap_key_finalize_delete_step entry of
        KeyCommit nx _ \<Rightarrow> Store nx KeyOk
      | KeyError e \<Rightarrow> Return (KeyRc e)
      | _ \<Rightarrow> Return KeyTrap)"

text \<open>One pass of such a loop on the entry in memory, undisturbed.\<close>

definition update_entry :: "u64 \<Rightarrow> (u64 \<Rightarrow> (u64, 'r) decision) \<Rightarrow> heap_world \<Rightarrow> ('r \<times> heap_world) option" where
  "update_entry ea decide w =
     (case decide (keys w ea) of
        Again \<Rightarrow> None
      | Return r \<Rightarrow> Some (r, w)
      | Store nx r \<Rightarrow> Some (r, w\<lparr>keys := (keys w)(ea := nx)\<rparr>))"

definition sheap_key_new_object :: "sheap_header \<Rightarrow> u32 \<Rightarrow> heap_world \<Rightarrow> (u64 \<times> heap_world) option" where
  "sheap_key_new_object h key w = update_entry (entry_ea h key) (key_new_decision h) w"

definition sheap_key_finalize_new :: "sheap_header \<Rightarrow> u32 \<Rightarrow> u64 \<Rightarrow> heap_world \<Rightarrow> (key_rc \<times> heap_world) option" where
  "sheap_key_finalize_new h key object w = update_entry (entry_ea h key) (key_finalize_new_decision h object) w"

definition sheap_key_delete_object :: "sheap_header \<Rightarrow> u32 \<Rightarrow> heap_world \<Rightarrow> ((key_rc \<times> u64) \<times> heap_world) option" where
  "sheap_key_delete_object h key w = update_entry (entry_ea h key) (key_delete_decision h) w"

definition sheap_key_finalize_delete :: "sheap_header \<Rightarrow> u32 \<Rightarrow> heap_world \<Rightarrow> (key_rc \<times> heap_world) option" where
  "sheap_key_finalize_delete h key w = update_entry (entry_ea h key) key_finalize_delete_decision w"

section \<open>The public operations\<close>

definition core_initialize ::
    "sheap_header \<Rightarrow> u64 \<Rightarrow> u64 \<Rightarrow> sheap_geometry \<Rightarrow> u32 \<Rightarrow> heap_world \<Rightarrow> sheap_header \<times> heap_world" where
  "core_initialize h ea ea_tree geo tag w =
     (let h = h\<lparr>h_lock := 0, h_ea_self := ea, h_spu_tag1 := tag, h_spu_tag2 := tag, h_ea_tree := ea_tree,
                h_s_tree := s_tree geo, h_n_nodes := n_nodes geo, h_ea_heap := ea_tree + s_tree geo,
                h_s_root := s_root geo, h_s_buffer := s_buffer geo\<rparr>;
          w = sheap_dma_zero ea_tree (s_tree geo) w;
          c = sheap_cache_begin (tree_cache w) ea_tree;
          c = sheap_tree_fence sheap_cache_access c (unat (n_nodes geo));
          c = sheap_cache_flush c in
      (h, w\<lparr>tree_cache := c\<rparr>))"

definition cellSheapInitialize :: "u64 \<Rightarrow> u64 \<Rightarrow> u32 \<Rightarrow> heap_world \<Rightarrow> (sheap_error + unit) \<times> heap_world" where
  "cellSheapInitialize ea_sheap sz tag w =
     (case sheap_check_init_args ea_sheap sz tag of
        Inl e \<Rightarrow> (Inl e, w)
      | Inr _ \<Rightarrow>
          (case sheap_init_geometry False sz of
             None \<Rightarrow> (Inl SHEAP_INVAL, w)
           | Some geo \<Rightarrow>
               (case core_initialize zero_header ea_sheap (ea_sheap + 128) geo tag w of (h, w1) \<Rightarrow>
                  (Inr (), sheap_publish ea_sheap h (w1\<lparr>header := h\<rparr>)))))"

definition cellKeySheapInitialize :: "u64 \<Rightarrow> u64 \<Rightarrow> u32 \<Rightarrow> heap_world \<Rightarrow> (sheap_error + unit) \<times> heap_world" where
  "cellKeySheapInitialize ea_ksheap sz tag w =
     (let ea_table = ea_ksheap + 128 in
      case sheap_check_init_args ea_ksheap sz tag of
        Inl e \<Rightarrow> (Inl e, w)
      | Inr _ \<Rightarrow>
          (case sheap_init_geometry True sz of
             None \<Rightarrow> (Inl SHEAP_INVAL, w)
           | Some geo \<Rightarrow>
               let h = zero_header\<lparr>h_ea_keytable := ea_table, h_s_keytable := 2048\<rparr>;
                   w = sheap_dma_zero ea_table 2048 w in
               (case core_initialize h ea_ksheap (ea_table + 2048) geo tag w of (h, w1) \<Rightarrow>
                  (Inr (), sheap_publish ea_ksheap h (w1\<lparr>header := h\<rparr>)))))"

definition sheap_begin :: "u64 \<Rightarrow> heap_world \<Rightarrow> heap_world option" where
  "sheap_begin ea_sheap w =
     (case sheap_lock ea_sheap w of
        None \<Rightarrow> None
      | Some w1 \<Rightarrow> Some (w1\<lparr>tree_cache := sheap_cache_begin (tree_cache w1) (h_ea_tree (header w1))\<rparr>))"

definition sheap_end :: "u64 \<Rightarrow> heap_world \<Rightarrow> heap_world" where
  "sheap_end ea_sheap w = sheap_unlock ea_sheap (w\<lparr>tree_cache := sheap_cache_flush (tree_cache w)\<rparr>)"

text \<open>The common frame of the four operations: lock, run on the cached tree, flush, unlock.\<close>

definition locked_op :: "u64 \<Rightarrow> (sheap_header \<Rightarrow> cache \<Rightarrow> 'r \<times> cache) \<Rightarrow> heap_world \<Rightarrow> ('r \<times> heap_world) option" where
  "locked_op ea_sheap body w =
     (case sheap_begin ea_sheap w of
        None \<Rightarrow> None
      | Some w1 \<Rightarrow>
          (case body (header w1) (tree_cache w1) of (r, c) \<Rightarrow>
             Some (r, sheap_end ea_sheap (w1\<lparr>tree_cache := c\<rparr>))))"

definition cellSheapAllocate :: "u64 \<Rightarrow> u64 \<Rightarrow> heap_world \<Rightarrow> (u64 \<times> heap_world) option" where
  "cellSheapAllocate ea_sheap sz w =
     (if ea_sheap = 0 \<or> ea_sheap AND 127 \<noteq> 0 then Some (0, w)
      else locked_op ea_sheap
        (\<lambda>h c. sheap_heap_allocate sheap_cache_access c (h_n_nodes h) (h_s_root h) (h_ea_heap h) sz) w)"

definition cellSheapFree :: "u64 \<Rightarrow> u64 \<Rightarrow> heap_world \<Rightarrow> ((sheap_error + unit) \<times> heap_world) option" where
  "cellSheapFree ea_sheap ptr w =
     (if ea_sheap AND 127 \<noteq> 0 then Some (Inl SHEAP_ALIGN, w)
      else if ea_sheap = 0 then Some (Inl SHEAP_INVAL, w)
      else locked_op ea_sheap
        (\<lambda>h c. sheap_heap_free sheap_cache_access c (h_n_nodes h) (h_s_root h) (h_ea_heap h) ptr) w)"

text \<open>The queries return the byte count cut to an \<open>int\<close>.\<close>

definition cellSheapQueryMax :: "u64 \<Rightarrow> heap_world \<Rightarrow> ((sheap_error + u32) \<times> heap_world) option" where
  "cellSheapQueryMax ea_sheap w =
     (if ea_sheap AND 127 \<noteq> 0 then Some (Inl SHEAP_ALIGN, w)
      else if ea_sheap = 0 then Some (Inl SHEAP_INVAL, w)
      else locked_op ea_sheap
        (\<lambda>h c. case sheap_tree_query_max sheap_cache_access c (unat (h_n_nodes h)) (h_s_root h) of
           (bytes, c1) \<Rightarrow> (Inr (ucast bytes), c1)) w)"

definition cellSheapQueryFree :: "u64 \<Rightarrow> heap_world \<Rightarrow> ((sheap_error + u32) \<times> heap_world) option" where
  "cellSheapQueryFree ea_sheap w =
     (if ea_sheap AND 127 \<noteq> 0 then Some (Inl SHEAP_ALIGN, w)
      else if ea_sheap = 0 then Some (Inl SHEAP_INVAL, w)
      else locked_op ea_sheap
        (\<lambda>h c. case sheap_tree_query_free sheap_cache_access c (unat (h_n_nodes h)) (h_s_root h) of
           (bytes, c1) \<Rightarrow> (Inr (ucast bytes), c1)) w)"

section \<open>The operations on the tree in memory\<close>

text \<open>The ids the operations touch: up to \<open>n_nodes\<close>, or its buddy.\<close>

definition tree_limit :: "u32 \<Rightarrow> nat" where
  "tree_limit nodes = (if odd (unat nodes) then unat nodes else unat nodes + 1)"

definition heap_tree :: "heap_world \<Rightarrow> u64 \<Rightarrow> tree" where
  "heap_tree w ea = memory_tree (tree_limit (h_n_nodes (headers w ea)))
     (cache_mem (tree_cache w)) (h_ea_tree (headers w ea))"

definition memory_sized :: "heap_world \<Rightarrow> bool" where
  "memory_sized w \<longleftrightarrow> length (cache_data (tree_cache w)) = ways \<and> length (cache_line (tree_cache w)) = ways \<and>
     (\<forall>a. length (cache_mem (tree_cache w) a) = 32)"

lemma tree_limit_odd: "\<exists>k. tree_limit nodes = Suc (2 * k)"
  by (cases "odd (unat nodes)") (auto simp: tree_limit_def elim: oddE)

lemma tree_limit_uint: "uint_id (tree_limit nodes)"
  using unat_u32_less[of nodes] by (auto simp: uint_id_def tree_limit_def elim!: evenE)

lemma tree_limit_nodes: "node_id (tree_limit nodes) (unat nodes)"
  by (simp add: node_id_def tree_limit_def)

lemma memory_sized_cache_on: "cache_on lim tree c \<Longrightarrow> tree_cache w = c \<Longrightarrow> memory_sized w"
  by (simp add: cache_on_def cache_inv_def cache_sized_def memory_sized_def)

text \<open>
  A locked operation whose body simulates a flat one returns what the flat one returns on the
  tree in memory, leaves its tree there, and leaves every header line as it was.
\<close>

lemma locked_op_refines:
  fixes w ea body flat_body
  defines "h \<equiv> headers w ea"
  assumes free: "h_lock h = 0" and sized: "memory_sized w"
    and body: "\<And>c k. tree_limit (h_n_nodes h) = Suc (2 * k) \<Longrightarrow> cache_on (Suc (2 * k)) (h_ea_tree h) c \<Longrightarrow>
      cached_tree.sim k (h_ea_tree h) (body (h\<lparr>h_lock := 1\<rparr>) c) (flat_body (cache_abs (Suc (2 * k)) c))"
  shows "\<exists>w'. locked_op ea body w = Some (fst (flat_body (heap_tree w ea)), w') \<and>
    heap_tree w' ea = snd (flat_body (heap_tree w ea)) \<and> headers w' = headers w \<and> keys w' = keys w \<and>
    memory_sized w'"
proof -
  obtain k where k: "tree_limit (h_n_nodes h) = Suc (2 * k)" using tree_limit_odd by blast
  have uid: "uint_id (Suc (2 * k))" using tree_limit_uint[of "h_n_nodes h"] k by simp
  let ?h = "h\<lparr>h_lock := 1\<rparr>"
  let ?c = "sheap_cache_begin (tree_cache w) (h_ea_tree h)"
  let ?w = "w\<lparr>headers := (headers w)(ea := ?h), header := ?h, tree_cache := ?c\<rparr>"
  have bg: "sheap_begin ea w = Some ?w"
    using free by (simp add: sheap_begin_def sheap_lock_def sheap_lock_decision_def h_def)
  have on: "cache_on (Suc (2 * k)) (h_ea_tree h) ?c"
    and abs: "cache_abs (Suc (2 * k)) ?c = heap_tree w ea"
    using cache_begin_on[of "tree_cache w" "Suc (2 * k)" "h_ea_tree h"] sized uid k
    by (simp_all add: memory_sized_def heap_tree_def h_def)
  obtain r c where rc: "body ?h ?c = (r, c)" by (rule prod.exhaust)
  have sim: "cache_on (Suc (2 * k)) (h_ea_tree h) c" "r = fst (flat_body (heap_tree w ea))"
    "cache_abs (Suc (2 * k)) c = snd (flat_body (heap_tree w ea))"
    using body[OF k on] rc abs by (simp_all add: cached_tree.sim_def)
  let ?f = "sheap_cache_flush c"
  define w' where "w' = sheap_end ea (?w\<lparr>tree_cache := c\<rparr>)"
  have "headers w ea\<lparr>h_lock := 0\<rparr> = headers w ea" using free by (cases "headers w ea") (simp add: h_def)
  then have end_fields: "tree_cache w' = ?f" "headers w' = headers w" "keys w' = keys w"
    by (simp_all add: w'_def sheap_end_def sheap_unlock_def sheap_publish_def Let_def h_def)
  have "heap_tree w' ea = snd (flat_body (heap_tree w ea))"
    using cache_flush_memory(1)[OF sim(1)] sim(3) k by (simp add: heap_tree_def end_fields h_def)
  moreover have "memory_sized w'"
    using memory_sized_cache_on[OF cache_flush_memory(2)[OF sim(1)] end_fields(1)] .
  moreover have "locked_op ea body w = Some (r, w')"
    by (simp add: locked_op_def bg rc w'_def)
  ultimately show ?thesis using sim(2) end_fields(2,3) by blast
qed

lemma allocate_refines:
  fixes w ea sz
  assumes "h_lock (headers w ea) = 0" "memory_sized w" "ea \<noteq> 0" "ea AND 127 = 0"
  defines "r \<equiv> sheap_heap_allocate flat (heap_tree w ea) (h_n_nodes (headers w ea))
    (h_s_root (headers w ea)) (h_ea_heap (headers w ea)) sz"
  shows "\<exists>w'. cellSheapAllocate ea sz w = Some (fst r, w') \<and> heap_tree w' ea = snd r \<and>
    headers w' = headers w \<and> keys w' = keys w \<and> memory_sized w'"
proof -
  let ?h = "headers w ea"
  let ?fb = "\<lambda>T. sheap_heap_allocate flat T (h_n_nodes ?h) (h_s_root ?h) (h_ea_heap ?h) sz"
  have "\<exists>w'. locked_op ea (\<lambda>h c. sheap_heap_allocate sheap_cache_access c (h_n_nodes h) (h_s_root h) (h_ea_heap h) sz) w
      = Some (fst (?fb (heap_tree w ea)), w') \<and> heap_tree w' ea = snd (?fb (heap_tree w ea)) \<and>
      headers w' = headers w \<and> keys w' = keys w \<and> memory_sized w'"
  proof (rule locked_op_refines[OF assms(1,2)])
    fix c k assume k: "tree_limit (h_n_nodes ?h) = Suc (2 * k)" and on: "cache_on (Suc (2 * k)) (h_ea_tree ?h) c"
    show "cached_tree.sim k (h_ea_tree ?h)
        (sheap_heap_allocate sheap_cache_access c (h_n_nodes (?h\<lparr>h_lock := 1\<rparr>)) (h_s_root (?h\<lparr>h_lock := 1\<rparr>))
          (h_ea_heap (?h\<lparr>h_lock := 1\<rparr>)) sz) (?fb (cache_abs (Suc (2 * k)) c))"
      using cached_tree.heap_allocate_sim[OF on] tree_limit_nodes[of "h_n_nodes ?h"] k by simp
  qed
  then show ?thesis using assms(3,4) by (simp add: cellSheapAllocate_def r_def)
qed

lemma free_refines:
  fixes w ea ptr
  assumes "h_lock (headers w ea) = 0" "memory_sized w" "ea \<noteq> 0" "ea AND 127 = 0"
  defines "r \<equiv> sheap_heap_free flat (heap_tree w ea) (h_n_nodes (headers w ea))
    (h_s_root (headers w ea)) (h_ea_heap (headers w ea)) ptr"
  shows "\<exists>w'. cellSheapFree ea ptr w = Some (fst r, w') \<and> heap_tree w' ea = snd r \<and>
    headers w' = headers w \<and> keys w' = keys w \<and> memory_sized w'"
proof -
  let ?h = "headers w ea"
  let ?fb = "\<lambda>T. sheap_heap_free flat T (h_n_nodes ?h) (h_s_root ?h) (h_ea_heap ?h) ptr"
  have "\<exists>w'. locked_op ea (\<lambda>h c. sheap_heap_free sheap_cache_access c (h_n_nodes h) (h_s_root h) (h_ea_heap h) ptr) w
      = Some (fst (?fb (heap_tree w ea)), w') \<and> heap_tree w' ea = snd (?fb (heap_tree w ea)) \<and>
      headers w' = headers w \<and> keys w' = keys w \<and> memory_sized w'"
  proof (rule locked_op_refines[OF assms(1,2)])
    fix c k assume k: "tree_limit (h_n_nodes ?h) = Suc (2 * k)" and on: "cache_on (Suc (2 * k)) (h_ea_tree ?h) c"
    show "cached_tree.sim k (h_ea_tree ?h)
        (sheap_heap_free sheap_cache_access c (h_n_nodes (?h\<lparr>h_lock := 1\<rparr>)) (h_s_root (?h\<lparr>h_lock := 1\<rparr>))
          (h_ea_heap (?h\<lparr>h_lock := 1\<rparr>)) ptr) (?fb (cache_abs (Suc (2 * k)) c))"
      using cached_tree.heap_free_sim[OF on] tree_limit_nodes[of "h_n_nodes ?h"] k by simp
  qed
  then show ?thesis using assms(3,4) by (simp add: cellSheapFree_def r_def)
qed

lemma query_free_refines:
  fixes w ea
  assumes "h_lock (headers w ea) = 0" "memory_sized w" "ea \<noteq> 0" "ea AND 127 = 0"
  defines "r \<equiv> sheap_tree_query_free flat (heap_tree w ea) (unat (h_n_nodes (headers w ea)))
    (h_s_root (headers w ea))"
  shows "\<exists>w'. cellSheapQueryFree ea w = Some (Inr (ucast (fst r)), w') \<and> heap_tree w' ea = snd r \<and>
    headers w' = headers w \<and> keys w' = keys w \<and> memory_sized w'"
proof -
  let ?h = "headers w ea"
  let ?q = "\<lambda>T. sheap_tree_query_free flat T (unat (h_n_nodes ?h)) (h_s_root ?h)"
  let ?fb = "\<lambda>T. (Inr (ucast (fst (?q T))) :: sheap_error + u32, snd (?q T))"
  have "\<exists>w'. locked_op ea (\<lambda>h c. case sheap_tree_query_free sheap_cache_access c (unat (h_n_nodes h)) (h_s_root h) of
        (bytes, c1) \<Rightarrow> (Inr (ucast bytes), c1)) w
      = Some (fst (?fb (heap_tree w ea)), w') \<and> heap_tree w' ea = snd (?fb (heap_tree w ea)) \<and>
      headers w' = headers w \<and> keys w' = keys w \<and> memory_sized w'"
  proof (rule locked_op_refines[OF assms(1,2)])
    fix c k assume k: "tree_limit (h_n_nodes ?h) = Suc (2 * k)" and on: "cache_on (Suc (2 * k)) (h_ea_tree ?h) c"
    have "node_id (Suc (2 * k)) (unat (h_n_nodes ?h))" using tree_limit_nodes[of "h_n_nodes ?h"] k by simp
    from cached_tree.query_free_sim[OF on this, of "h_s_root ?h"]
    show "cached_tree.sim k (h_ea_tree ?h)
        (case sheap_tree_query_free sheap_cache_access c (unat (h_n_nodes (?h\<lparr>h_lock := 1\<rparr>))) (h_s_root (?h\<lparr>h_lock := 1\<rparr>)) of
          (bytes, c1) \<Rightarrow> (Inr (ucast bytes), c1)) (?fb (cache_abs (Suc (2 * k)) c))"
      by (simp add: cached_tree.sim_def case_prod_beta)
  qed
  then show ?thesis using assms(3,4) by (simp add: cellSheapQueryFree_def r_def)
qed

lemma query_max_refines:
  fixes w ea
  assumes "h_lock (headers w ea) = 0" "memory_sized w" "ea \<noteq> 0" "ea AND 127 = 0"
  defines "r \<equiv> sheap_tree_query_max flat (heap_tree w ea) (unat (h_n_nodes (headers w ea)))
    (h_s_root (headers w ea))"
  shows "\<exists>w'. cellSheapQueryMax ea w = Some (Inr (ucast (fst r)), w') \<and> heap_tree w' ea = snd r \<and>
    headers w' = headers w \<and> keys w' = keys w \<and> memory_sized w'"
proof -
  let ?h = "headers w ea"
  let ?q = "\<lambda>T. sheap_tree_query_max flat T (unat (h_n_nodes ?h)) (h_s_root ?h)"
  let ?fb = "\<lambda>T. (Inr (ucast (fst (?q T))) :: sheap_error + u32, snd (?q T))"
  have "\<exists>w'. locked_op ea (\<lambda>h c. case sheap_tree_query_max sheap_cache_access c (unat (h_n_nodes h)) (h_s_root h) of
        (bytes, c1) \<Rightarrow> (Inr (ucast bytes), c1)) w
      = Some (fst (?fb (heap_tree w ea)), w') \<and> heap_tree w' ea = snd (?fb (heap_tree w ea)) \<and>
      headers w' = headers w \<and> keys w' = keys w \<and> memory_sized w'"
  proof (rule locked_op_refines[OF assms(1,2)])
    fix c k assume k: "tree_limit (h_n_nodes ?h) = Suc (2 * k)" and on: "cache_on (Suc (2 * k)) (h_ea_tree ?h) c"
    have "node_id (Suc (2 * k)) (unat (h_n_nodes ?h))" using tree_limit_nodes[of "h_n_nodes ?h"] k by simp
    from cached_tree.query_max_sim[OF on this, of 1 "h_s_root ?h"]
    show "cached_tree.sim k (h_ea_tree ?h)
        (case sheap_tree_query_max sheap_cache_access c (unat (h_n_nodes (?h\<lparr>h_lock := 1\<rparr>))) (h_s_root (?h\<lparr>h_lock := 1\<rparr>)) of
          (bytes, c1) \<Rightarrow> (Inr (ucast bytes), c1)) (?fb (cache_abs (Suc (2 * k)) c))"
      by (simp add: cached_tree.sim_def sheap_tree_query_max_def case_prod_beta)
  qed
  then show ?thesis using assms(3,4) by (simp add: cellSheapQueryMax_def r_def)
qed

section \<open>Initialisation in memory\<close>

lemma put_zero_less: "x < n \<longleftrightarrow> x < c \<or> x - c < n - c" if "c \<le> n" "0 < c" for x c n :: u64
proof (cases "x < c")
  case True
  then show ?thesis using that by (simp add: less_le_trans)
next
  case False
  then have "unat (x - c) = unat x - unat c" "unat (n - c) = unat n - unat c" "unat c \<le> unat x"
    using that by (simp_all add: unat_sub word_le_nat_alt not_less)
  then show ?thesis using False that by (auto simp: word_less_nat_alt word_le_nat_alt)
qed

lemma dma_zero_spec:
  "keys (sheap_dma_zero ea sz w) = (\<lambda>a. if a - ea < sz then 0 else keys w a) \<and>
   tree_cache (sheap_dma_zero ea sz w) = (tree_cache w)\<lparr>cache_mem :=
     (\<lambda>a. if a - ea < sz then replicate 32 0 else cache_mem (tree_cache w) a)\<rparr> \<and>
   headers (sheap_dma_zero ea sz w) = headers w"
proof (induction ea sz w rule: sheap_dma_zero.induct)
  case (1 ea sz w)
  show ?case
  proof (cases "sz = 0")
    case True
    then show ?thesis by (simp add: sheap_dma_zero.simps[of ea 0 w])
  next
    case False
    define chunk where "chunk = (if sz > 1024 then 1024 else sz)"
    have c: "chunk \<le> sz" "0 < chunk" using False by (auto simp: chunk_def word_neq_0_conv)
    have split: "a - ea < sz \<longleftrightarrow> a - ea < chunk \<or> a - (ea + chunk) < sz - chunk" for a
      using put_zero_less[OF c, of "a - ea"] by (simp add: diff_diff_eq)
    have "sheap_dma_zero ea sz w = sheap_dma_zero (ea + chunk) (sz - chunk) (put_zero ea chunk w)"
      using False by (simp add: sheap_dma_zero.simps[of ea sz] chunk_def)
    then show ?thesis using 1[OF False chunk_def] split
      by (auto simp: put_zero_def fun_eq_iff)
  qed
qed

text \<open>A zeroed tree area reads as all FREE, so initialisation leaves the fenced tree there.\<close>

lemma core_initialize_tree:
  assumes init: "core_initialize h ea ea_tree geo tag w = (h', w')"
    and bits: "2 * (unat (n_nodes geo) + 2) \<le> 8 * unat (s_tree geo)"
    and sized: "memory_sized w"
  shows "memory_tree (tree_limit (n_nodes geo)) (cache_mem (tree_cache w')) ea_tree
      = sheap_tree_fence flat (\<lambda>_. NFree) (unat (n_nodes geo))"
    and "memory_sized w'" "headers w' = headers w"
    and "keys w' = (\<lambda>a. if a - ea_tree < s_tree geo then 0 else keys w a)"
    and "h_lock h' = 0 \<and> h_ea_tree h' = ea_tree \<and> h_n_nodes h' = n_nodes geo \<and> h_s_root h' = s_root geo \<and>
      h_s_buffer h' = s_buffer geo \<and> h_ea_heap h' = ea_tree + s_tree geo \<and> h_ea_keytable h' = h_ea_keytable h"
proof -
  obtain k where k: "tree_limit (n_nodes geo) = Suc (2 * k)" using tree_limit_odd by blast
  have uid: "uint_id (Suc (2 * k))" using tree_limit_uint[of "n_nodes geo"] k by simp
  let ?w = "sheap_dma_zero ea_tree (s_tree geo) w"
  note z = dma_zero_spec[of ea_tree "s_tree geo" w]
  let ?c = "sheap_cache_begin (tree_cache ?w) ea_tree"
  let ?d = "sheap_tree_fence sheap_cache_access ?c (unat (n_nodes geo))"
  have w': "w' = ?w\<lparr>tree_cache := sheap_cache_flush ?d\<rparr>"
    and h': "h' = h\<lparr>h_lock := 0, h_ea_self := ea, h_spu_tag1 := tag, h_spu_tag2 := tag, h_ea_tree := ea_tree,
                h_s_tree := s_tree geo, h_n_nodes := n_nodes geo, h_ea_heap := ea_tree + s_tree geo,
                h_s_root := s_root geo, h_s_buffer := s_buffer geo\<rparr>"
    using init by (simp_all add: core_initialize_def Let_def)
  have sz: "length (cache_data (tree_cache ?w)) = ways" "length (cache_line (tree_cache ?w)) = ways"
    "\<forall>a. length (cache_mem (tree_cache ?w) a) = 32"
    using sized z by (simp_all add: memory_sized_def)
  note bg = cache_begin_on[OF sz uid, of ea_tree]
  have free: "memory_tree (Suc (2 * k)) (cache_mem (tree_cache ?w)) ea_tree = (\<lambda>_. NFree)"
  proof
    fix n
    show "memory_tree (Suc (2 * k)) (cache_mem (tree_cache ?w)) ea_tree n = NFree"
    proof (cases "node_id (Suc (2 * k)) n")
      case True
      then have n: "n \<le> unat (n_nodes geo) + 1" using k by (auto simp: node_id_def tree_limit_def split: if_splits)
      have un: "uint_id n" using node_id_uint[OF True uid] .
      have ln: "unat (sheap_tree_line n * 128) = n div 512 * 128"
        using tree_line_value[OF un] un by (subst unat_times_small) (simp_all add: uint_id_def)
      define q where "q = n div 512"
      have "q * 512 \<le> n" by (simp add: q_def)
      then have "q * 128 < unat (s_tree geo)" using n bits by simp
      then have "n div 512 * 128 < unat (s_tree geo)" by (simp add: q_def)
      then have "sheap_tree_line n * 128 < s_tree geo" using ln by (simp add: word_less_nat_alt)
      then have "cache_mem (tree_cache ?w) (line_ea ea_tree (sheap_tree_line n)) = replicate 32 0"
        using z by (simp add: line_ea_def)
      then show ?thesis using True
        by (simp add: memory_tree_def field_state_def sheap_tree_word_def code_state_def)
    qed (simp add: memory_tree_def)
  qed
  have fence: "cache_on (Suc (2 * k)) ea_tree ?d"
    "cache_abs (Suc (2 * k)) ?d = sheap_tree_fence flat (\<lambda>_. NFree) (unat (n_nodes geo))"
    using cached_tree.fence_sim[OF bg(1), of "unat (n_nodes geo)"] bg(2) free
      tree_limit_nodes[of "n_nodes geo"] k by simp_all
  note fl = cache_flush_memory[OF fence(1)]
  show "memory_tree (tree_limit (n_nodes geo)) (cache_mem (tree_cache w')) ea_tree
      = sheap_tree_fence flat (\<lambda>_. NFree) (unat (n_nodes geo))"
    using fl(1) fence(2) k by (simp add: w')
  show "memory_sized w'" using memory_sized_cache_on[OF fl(2)] by (simp add: w')
  show "headers w' = headers w" "keys w' = (\<lambda>a. if a - ea_tree < s_tree geo then 0 else keys w a)"
    using z by (simp_all add: w')
  show "h_lock h' = 0 \<and> h_ea_tree h' = ea_tree \<and> h_n_nodes h' = n_nodes geo \<and> h_s_root h' = s_root geo \<and>
      h_s_buffer h' = s_buffer geo \<and> h_ea_heap h' = ea_tree + s_tree geo \<and> h_ea_keytable h' = h_ea_keytable h"
    by (simp add: h')
qed

section \<open>A heap in memory\<close>

text \<open>The world holds a sound, unlocked heap at \<open>ea\<close>.\<close>

definition world_heap :: "heap_world \<Rightarrow> u64 \<Rightarrow> sheap_geometry \<Rightarrow> nat \<Rightarrow> nat \<Rightarrow> bool" where
  "world_heap w ea g D L \<longleftrightarrow> memory_sized w \<and> ea \<noteq> 0 \<and> ea AND 127 = 0 \<and>
     (let h = headers w ea in h_lock h = 0 \<and> h_n_nodes h = n_nodes g \<and> h_s_root h = s_root g \<and>
        h_s_buffer h = s_buffer g \<and> 0 < unat (h_ea_heap h) \<and>
        unat (h_ea_heap h) + unat (s_buffer g) \<le> 2 ^ 64) \<and>
     heap_ok g D L (heap_tree w ea)"

lemma core_initialize_world:
  assumes init: "core_initialize h ea ea_tree geo tag w = (h', w')"
    and geo: "sheap_init_geometry keyed sz = Some geo" "s_buffer geo \<noteq> 0"
    and base: "ea_tree = ea + 128 + (if keyed then 2048 else 0)"
    and fit: "unat ea + unat sz \<le> 2 ^ 64" and ea: "ea \<noteq> 0" "ea AND 127 = 0"
    and sized: "memory_sized w"
  shows "\<exists>D L. world_heap (sheap_publish ea h' (w'\<lparr>header := h'\<rparr>)) ea geo D L \<and>
    owned D (heap_tree (sheap_publish ea h' (w'\<lparr>header := h'\<rparr>)) ea) = {unat (s_buffer geo) ..< unat (s_root geo)}"
proof -
  let ?T = "sheap_tree_fence flat (\<lambda>_. NFree) (unat (n_nodes geo))"
  let ?w = "sheap_publish ea h' (w'\<lparr>header := h'\<rparr>)"
  obtain D L where I: "heap_ok geo D L ?T" "2 * (unat (n_nodes geo) + 2) \<le> 8 * unat (s_tree geo)"
    "128 + (if keyed then 2048 else 0) + unat (s_tree geo) + unat (s_buffer geo) \<le> unat sz"
    "owned D ?T = {unat (s_buffer geo) ..< unat (s_root geo)}"
    using init_heap_ok[OF geo] by blast
  note C = core_initialize_tree[OF init I(2) sized]
  have f: "headers ?w ea = h'" "tree_cache ?w = tree_cache w'" by (simp_all add: sheap_publish_def)
  have tree: "heap_tree ?w ea = ?T" using C(1,5) by (simp add: heap_tree_def f)
  have pos: "0 < unat (s_buffer geo)" using geo(2) by (simp add: unat_gt_0)
  have p: "unat (128 + (if keyed then 2048 else 0) :: u64) = 128 + (if keyed then 2048 else 0)" by simp
  have s1: "unat ea_tree = unat ea + 128 + (if keyed then 2048 else 0)"
  proof -
    have "unat (ea + 128) = unat ea + 128" using fit I(3) pos by (subst unat_plus_small) auto
    then show ?thesis unfolding base using fit I(3) pos by (subst unat_plus_small) auto
  qed
  then have s2: "unat (ea_tree + s_tree geo) = unat ea_tree + unat (s_tree geo)"
    using fit I(3) pos by (subst unat_plus_small) auto
  have "0 < unat (ea_tree + s_tree geo)" "unat (ea_tree + s_tree geo) + unat (s_buffer geo) \<le> 2 ^ 64"
    using s1 s2 fit I(3) by auto
  moreover have "memory_sized ?w" using C(2) by (simp add: memory_sized_def f)
  ultimately have "world_heap ?w ea geo D L"
    using C(5) I(1) tree ea by (simp add: world_heap_def f Let_def)
  then show ?thesis using I(4) tree by auto
qed

text \<open>A plain heap always has room for at least one block.\<close>

lemma plain_not_empty:
  assumes "sheap_init_geometry False sz = Some g" "0x800 \<le> unat sz"
  shows "s_buffer g \<noteq> 0"
proof -
  have sp: "unat (sheap_plain_span sz) = (unat sz - 128) div 128 * 128"
    using assms(2) unfolding sheap_plain_span_def
    by (simp only: unat_align_down) (simp add: unat_sub word_le_nat_alt)
  have g: "sheap_geometry_of (sheap_plain_span sz) = Some g"
    using assms(1) by (auto simp: sheap_init_geometry_def split: if_splits)
  define E where "E = unat (sheap_plain_span sz) div 128"
  have E: "2 \<le> E" "unat (sheap_plain_span sz) = 128 * E" using sp assms(2) by (simp_all add: E_def)
  note G = geometry_Some[OF g, folded E_def]
  have "ceil2 E < 2 * E" using E(1) by (intro ceil2_less) simp
  then have m: "geo_max_id E < 3 * E" by (simp add: geo_max_id_def)
  define q where "q = (2 * geo_max_id E + 9) div 8"
  have "8 * q \<le> 2 * geo_max_id E + 9" unfolding q_def by simp
  then have "q + 127 < 128 * E" using m E(1) by linarith
  moreover have "(q + 127) div 128 * 128 \<le> q + 127" by simp
  ultimately have "geo_tree_bytes (geo_max_id E) < 128 * E" unfolding geo_tree_bytes_def q_def[symmetric] by linarith
  then have "0 < unat (s_buffer g)" using G(5) E(2) by simp
  then show ?thesis by auto
qed

lemma initialize_world:
  assumes "memory_sized w" "unat ea + unat sz \<le> 2 ^ 64" "cellSheapInitialize ea sz tag w = (Inr (), w')"
  shows "\<exists>g D L. sheap_init_geometry False sz = Some g \<and> world_heap w' ea g D L \<and>
    owned D (heap_tree w' ea) = {unat (s_buffer g) ..< unat (s_root g)}"
proof -
  obtain g h w1 where g: "sheap_check_init_args ea sz tag = Inr ()" "sheap_init_geometry False sz = Some g"
    "core_initialize zero_header ea (ea + 128) g tag w = (h, w1)"
    "w' = sheap_publish ea h (w1\<lparr>header := h\<rparr>)"
    using assms(3) by (auto simp: cellSheapInitialize_def split: sum.splits option.splits prod.splits)
  then have a: "ea \<noteq> 0" "ea AND 127 = 0" "0x800 \<le> unat sz"
    by (auto simp: sheap_check_init_args_def word_less_nat_alt not_less split: if_splits)
  show ?thesis
    using core_initialize_world[OF g(3,2) plain_not_empty[OF g(2) a(3)] _ assms(2) a(1,2) assms(1)] g(2,4)
    by auto
qed

lemma key_initialize_world:
  assumes "memory_sized w" "unat ea + unat sz \<le> 2 ^ 64" "cellKeySheapInitialize ea sz tag w = (Inr (), w')"
    "sheap_init_geometry True sz = Some g" "s_buffer g \<noteq> 0"
  shows "\<exists>D L. world_heap w' ea g D L \<and> owned D (heap_tree w' ea) = {unat (s_buffer g) ..< unat (s_root g)} \<and>
    h_ea_keytable (headers w' ea) = ea + 128 \<and> (\<forall>key. unat key < 256 \<longrightarrow> keys w' (entry_ea (headers w' ea) key) = 0)"
proof -
  let ?h = "zero_header\<lparr>h_ea_keytable := ea + 128, h_s_keytable := 2048\<rparr>"
  let ?w = "sheap_dma_zero (ea + 128) 2048 w"
  obtain h w1 where g: "sheap_check_init_args ea sz tag = Inr ()"
    "core_initialize ?h ea (ea + 128 + 2048) g tag ?w = (h, w1)"
    "w' = sheap_publish ea h (w1\<lparr>header := h\<rparr>)"
    using assms(3,4) by (auto simp: cellKeySheapInitialize_def Let_def split: sum.splits option.splits prod.splits)
  then have a: "ea \<noteq> 0" "ea AND 127 = 0"
    by (auto simp: sheap_check_init_args_def split: if_splits)
  have sz: "memory_sized ?w" using assms(1) dma_zero_spec[of "ea + 128" 2048 w] by (simp add: memory_sized_def)
  have bits: "2 * (unat (n_nodes g) + 2) \<le> 8 * unat (s_tree g)" using init_heap_ok[OF assms(4,5)] by blast
  note C = core_initialize_tree[OF g(2) bits sz]
  have kt: "h_ea_keytable (headers w' ea) = ea + 128" using C(5) by (simp add: g(3) sheap_publish_def)
  have "keys w' (entry_ea (headers w' ea) key) = 0" if "unat key < 256" for key
  proof -
    have "unat (ucast key * 8 :: u64) = unat key * 8" using that by (subst unat_times_small) simp_all
    then have "(ucast key * 8 :: u64) < 2048" using that by (simp add: word_less_nat_alt)
    moreover have "keys w' = keys w1" by (simp add: g(3) sheap_publish_def)
    ultimately show ?thesis using C(4) dma_zero_spec[of "ea + 128" 2048 w] kt by (simp add: entry_ea_def)
  qed
  moreover have "\<exists>D L. world_heap w' ea g D L \<and> owned D (heap_tree w' ea) = {unat (s_buffer g) ..< unat (s_root g)}"
    using core_initialize_world[OF g(2) assms(4,5) _ assms(2) a sz] g(3) by simp
  ultimately show ?thesis using kt by blast
qed

text \<open>A failed allocation leaves the tree as it was.\<close>

lemma heap_allocate_none:
  assumes "heap_ok g D L T" "0 < unat ea_heap" "unat ea_heap + unat (s_buffer g) \<le> 2 ^ 64"
    "sheap_heap_allocate flat T (n_nodes g) (s_root g) ea_heap sz = (0, T')"
  shows "T' = T"
proof -
  have sh: "heap_shape g D L" and wf: "tree_wf D T" using assms(1) by (simp_all add: heap_ok_def)
  then have D: "D \<le> 31" and root: "s_root g = leaf_bytes (2 ^ D)"
    and small: "unat (n_nodes g) < 2 ^ Suc D" by (auto simp: heap_shape_def)
  show ?thesis
  proof (cases "sheap_size_to_row sz (s_root g)")
    case (Some row)
    obtain n T1 where al: "sheap_tree_allocate flat T (unat (n_nodes g)) row = (n, T1)" by (rule prod.exhaust)
    have row: "row \<le> D" using size_to_row_Some(1)[OF Some[unfolded root] D] .
    show ?thesis
    proof (cases "n = 0")
      case True
      then show ?thesis using al allocate_first_fit[OF wf small, of row] row D Some assms(4)
        by (auto simp: sheap_heap_allocate_def first_fit_Some split: option.splits)
    next
      case False
      note A = allocate_blocks[OF wf small al False]
      have nd: "tree_node D n" using A small False by (simp add: tree_node_def)
      have disj: "\<forall>b \<in> blocks D T. \<not> within n b \<and> \<not> within b n" using A by blast
      have "128 * (walk_start D n - 2 ^ D) \<in> byte_range D n" by (simp add: byte_range_def)
      then have "128 * (walk_start D n - 2 ^ D) < unat (s_buffer g)"
        using byte_range_inside[OF assms(1) nd disj] by blast
      then have "unat (ea_heap + sheap_node_offset (of_nat n) (s_root g)) \<noteq> 0"
        using node_offset_value[OF nd D] assms(2,3) unfolding root by (subst unat_plus_small) simp_all
      then have "ea_heap + sheap_node_offset (of_nat n) (s_root g) \<noteq> 0" by (metis unat_0)
      then show ?thesis using al Some False assms(4) by (simp add: sheap_heap_allocate_def)
    qed
  qed (use assms(4) in \<open>simp add: sheap_heap_allocate_def\<close>)
qed

text \<open>\<open>cellSheapAllocate\<close> and \<open>cellSheapFree\<close> on a heap in memory.\<close>

lemma world_heapD:
  assumes "world_heap w ea g D L"
  shows "memory_sized w" "ea \<noteq> 0" "ea AND 127 = 0" "h_lock (headers w ea) = 0"
    "h_n_nodes (headers w ea) = n_nodes g" "h_s_root (headers w ea) = s_root g"
    "0 < unat (h_ea_heap (headers w ea))" "unat (h_ea_heap (headers w ea)) + unat (s_buffer g) \<le> 2 ^ 64"
    "heap_ok g D L (heap_tree w ea)"
  using assms by (simp_all add: world_heap_def Let_def)

lemma world_heap_keep:
  assumes "world_heap w ea g D L" "headers w' = headers w" "memory_sized w'" "heap_ok g D L (heap_tree w' ea)"
  shows "world_heap w' ea g D L"
  using assms by (simp add: world_heap_def)

lemma allocate_world:
  assumes "world_heap w ea g D L"
  shows "\<exists>ptr w'. cellSheapAllocate ea sz w = Some (ptr, w') \<and> world_heap w' ea g D L \<and>
    (ptr = 0 \<and> owned D (heap_tree w' ea) = owned D (heap_tree w ea) \<or>
     ptr \<noteq> 0 \<and> (\<exists>off bytes. bytes = ceil2 (max 128 (unat sz)) \<and>
       unat ptr = unat (h_ea_heap (headers w ea)) + off \<and> bytes dvd off \<and> off + bytes \<le> unat (s_buffer g) \<and>
       {off ..< off + bytes} \<inter> owned D (heap_tree w ea) = {} \<and>
       owned D (heap_tree w' ea) = owned D (heap_tree w ea) \<union> {off ..< off + bytes}))"
proof -
  note W = world_heapD[OF assms]
  obtain ptr T' where r: "sheap_heap_allocate flat (heap_tree w ea) (n_nodes g) (s_root g)
    (h_ea_heap (headers w ea)) sz = (ptr, T')" by (rule prod.exhaust)
  obtain w' where w': "cellSheapAllocate ea sz w = Some (ptr, w')" "heap_tree w' ea = T'"
    "headers w' = headers w" "memory_sized w'"
    using allocate_refines[OF W(4,1,2,3), of sz] r by (auto simp: W(5,6))
  show ?thesis
  proof (cases "ptr = 0")
    case True
    then have "T' = heap_tree w ea" using heap_allocate_none[OF W(9,7,8)] r by simp
    then show ?thesis using True w' world_heap_keep[OF assms w'(3,4)] W(9) by auto
  next
    case False
    from heap_allocate_sound[OF W(9,7,8) r False] w' False world_heap_keep[OF assms w'(3,4)]
    show ?thesis by auto
  qed
qed

lemma free_world:
  assumes "world_heap w ea g D L" "b \<in> blocks D (heap_tree w ea)" "off \<in> byte_range D b" "128 dvd off"
    "off < unat (s_buffer g)" "unat ptr = unat (h_ea_heap (headers w ea)) + off"
  shows "\<exists>w'. cellSheapFree ea ptr w = Some (Inr (), w') \<and> world_heap w' ea g D L \<and>
    owned D (heap_tree w' ea) = owned D (heap_tree w ea) - byte_range D b"
proof -
  note W = world_heapD[OF assms(1)]
  obtain T' where r: "sheap_heap_free flat (heap_tree w ea) (n_nodes g) (s_root g) (h_ea_heap (headers w ea)) ptr
      = (Inr (), T')" "heap_ok g D L T'" "owned D T' = owned D (heap_tree w ea) - byte_range D b"
    by (rule heap_free_sound[OF W(9) assms(2,6,3,4,5)])
  obtain w' where w': "cellSheapFree ea ptr w = Some (Inr (), w')" "heap_tree w' ea = T'"
    "headers w' = headers w" "memory_sized w'"
    using free_refines[OF W(4,1,2,3), of ptr] r by (auto simp: W(5,6))
  then show ?thesis using r world_heap_keep[OF assms(1) w'(3,4)] by auto
qed

end
