(* ===== verification/Sheap_Props.thy ===== *)
theory Sheap_Props
  imports Sheap_Ops
begin

text \<open>
  Properties of the shared heap (\<open>sdk/libsheap\<close>), each with a concrete instance where it has
  hypotheses.  The instance is a plain heap of 2048 bytes at address 4096: 14 leaves of 128
  bytes under a root block of 2048, ids up to 29.
\<close>

section \<open>A concrete heap\<close>

definition demo_geometry :: sheap_geometry where
  "demo_geometry = \<lparr>s_tree = 128, s_buffer = 1792, s_root = 2048, n_nodes = 29\<rparr>"

definition demo_tree :: tree where
  "demo_tree = sheap_tree_fence flat (\<lambda>_. NFree) 29"

definition blank_world :: heap_world where
  "blank_world = \<lparr>headers = (\<lambda>_. zero_header), keys = (\<lambda>_. 0),
     tree_cache = \<lparr>cache_data = replicate 16 (replicate 32 0), cache_line = replicate 16 0,
       cache_valid = replicate 16 False, cache_dirty = replicate 16 False, cache_victim = 0, cache_last = 0,
       cache_tree = 0, cache_mem = (\<lambda>_. replicate 32 0)\<rparr>,
     header = zero_header, key_header = zero_header\<rparr>"

definition demo_world :: heap_world where
  "demo_world = snd (cellSheapInitialize 4096 2048 5 blank_world)"

lemma demo_init: "sheap_init_geometry False 2048 = Some demo_geometry"
  unfolding demo_geometry_def by code_simp

lemma demo_shape: "heap_shape demo_geometry 4 14"
  by (simp add: heap_shape_def demo_geometry_def leaf_bytes_def)

lemma demo_shape_unique: "heap_shape demo_geometry D L \<Longrightarrow> D = 4 \<and> L = 14"
proof -
  assume sh: "heap_shape demo_geometry D L"
  then have "unat (s_buffer demo_geometry) = 128 * L" "unat (n_nodes demo_geometry) = 2 ^ D + L - 1" "0 < L"
    by (simp_all add: heap_shape_def)
  then have L: "L = 14" and p: "2 ^ D = (2::nat) ^ 4" by (simp_all add: demo_geometry_def)
  have "D = 4" using p by (rule power_inject_exp[THEN iffD1, rotated]) simp
  with L show ?thesis by simp
qed

lemma blank_sized: "memory_sized blank_world"
  by (simp add: memory_sized_def blank_world_def ways_def)

lemma demo_init_runs: "cellSheapInitialize 4096 2048 5 blank_world = (Inr (), demo_world)"
proof -
  have "sheap_check_init_args 4096 2048 5 = Inr ()" by (simp add: sheap_check_init_args_def)
  then show ?thesis
    using demo_init by (simp add: demo_world_def cellSheapInitialize_def case_prod_beta)
qed

section \<open>Initialisation\<close>

text \<open>When \<open>cellSheapInitialize\<close> returns CELL_OK the world holds a sound, unlocked heap at the
  given address: header, tree and buffer fit in the given size, the node-state tree in main memory
  is well-formed, and exactly the bytes between the end of the buffer and the end of the root
  block are owned, so the whole buffer is free.\<close>

theorem initialize_sound:
  assumes "memory_sized w" "unat ea + unat sz \<le> 2 ^ 64" "cellSheapInitialize ea sz tag w = (Inr (), w')"
  shows "\<exists>g D L. sheap_init_geometry False sz = Some g \<and> world_heap w' ea g D L \<and>
    128 + unat (s_tree g) + unat (s_buffer g) \<le> unat sz \<and> s_buffer g \<noteq> 0 \<and>
    owned D (heap_tree w' ea) = {unat (s_buffer g) ..< unat (s_root g)}"
proof -
  obtain g D L where g: "sheap_init_geometry False sz = Some g" "world_heap w' ea g D L"
    "owned D (heap_tree w' ea) = {unat (s_buffer g) ..< unat (s_root g)}"
    using initialize_world[OF assms] by blast
  have "heap_shape g D L" using g(2) by (simp add: world_heap_def heap_ok_def)
  then have "s_buffer g \<noteq> 0" by (auto simp: heap_shape_def)
  then show ?thesis using g init_heap_ok[OF g(1)] by auto
qed

theorem initialize_sound_witness:
  "world_heap demo_world 4096 demo_geometry 4 14 \<and> owned 4 (heap_tree demo_world 4096) = {1792 ..< 2048}"
proof -
  obtain D L where w: "world_heap demo_world 4096 demo_geometry D L"
    "owned D (heap_tree demo_world 4096) = {unat (s_buffer demo_geometry) ..< unat (s_root demo_geometry)}"
    using initialize_sound[OF blank_sized _ demo_init_runs] demo_init by auto
  then have "D = 4 \<and> L = 14" by (intro demo_shape_unique) (simp add: world_heap_def heap_ok_def)
  with w show ?thesis by (simp add: demo_geometry_def)
qed

lemma demo_heap: "world_heap demo_world 4096 demo_geometry 4 14"
proof -
  obtain g D L where g: "sheap_init_geometry False 2048 = Some g" "world_heap demo_world 4096 g D L"
    using initialize_world[OF blank_sized _ demo_init_runs] by auto
  then have "g = demo_geometry" using demo_init by simp
  moreover have "D = 4 \<and> L = 14" using g(2) calculation
    by (intro demo_shape_unique) (simp add: world_heap_def heap_ok_def)
  ultimately show ?thesis using g(2) by simp
qed

text \<open>When \<open>cellKeySheapInitialize\<close> returns CELL_OK and its geometry has a buffer, the world
  holds a sound heap whose whole buffer is free, and every one of the 256 key entries is empty.\<close>

theorem key_initialize_sound:
  assumes "memory_sized w" "unat ea + unat sz \<le> 2 ^ 64" "cellKeySheapInitialize ea sz tag w = (Inr (), w')"
    "sheap_init_geometry True sz = Some g" "s_buffer g \<noteq> 0"
  shows "(\<exists>D L. world_heap w' ea g D L \<and> owned D (heap_tree w' ea) = {unat (s_buffer g) ..< unat (s_root g)}) \<and>
    (\<forall>key. unat key < 256 \<longrightarrow> sheap_key_state (keys w' (entry_ea (headers w' ea) key)) = KeyEmpty)"
  using key_initialize_world[OF assms] by fastforce

definition demo_key_geometry :: sheap_geometry where
  "demo_key_geometry = \<lparr>s_tree = 128, s_buffer = 1792, s_root = 2048, n_nodes = 29\<rparr>"

lemma demo_key_init: "sheap_init_geometry True 4096 = Some demo_key_geometry"
  unfolding demo_key_geometry_def by code_simp

theorem key_initialize_sound_witness:
  "\<exists>w'. cellKeySheapInitialize 8192 4096 5 blank_world = (Inr (), w') \<and>
     sheap_key_state (keys w' (entry_ea (headers w' 8192) 255)) = KeyEmpty"
proof -
  have "sheap_check_init_args 8192 4096 5 = Inr ()" by (simp add: sheap_check_init_args_def)
  then obtain w' where w': "cellKeySheapInitialize 8192 4096 5 blank_world = (Inr (), w')"
    using demo_key_init by (simp add: cellKeySheapInitialize_def case_prod_beta Let_def)
  have "s_buffer demo_key_geometry \<noteq> 0" by (simp add: demo_key_geometry_def)
  from key_initialize_sound[OF blank_sized _ w' demo_key_init this] w' show ?thesis by auto
qed

text \<open>Keyed heaps of 2304 to 2431 bytes are accepted although no heap fits behind the header,
  the key table and the tree: the geometry is returned with an empty buffer, no root block and no
  nodes.\<close>

theorem keyed_heap_may_be_empty:
  "sheap_check_init_args 4096 2304 0 = Inr () \<and>
   sheap_init_geometry True 2304 = Some \<lparr>s_tree = 128, s_buffer = 0, s_root = 0, n_nodes = 0\<rparr>"
proof
  show "sheap_check_init_args 4096 2304 0 = Inr ()" by (simp add: sheap_check_init_args_def)
  show "sheap_init_geometry True 2304 = Some \<lparr>s_tree = 128, s_buffer = 0, s_root = 0, n_nodes = 0\<rparr>"
    by code_simp
qed

section \<open>Allocate and Free\<close>

text \<open>C1: \<open>cellSheapAllocate\<close>, run through the line cache on a sound heap in main memory, ends and
  keeps the heap sound.  It returns 0 and owns nothing more, or the address of a byte range that
  lies in the buffer, is the request rounded up to a power of two of at least 128 bytes, is aligned
  to its own length, meets no byte already owned, and is added to the owned bytes.\<close>

theorem allocate_sound:
  assumes "world_heap w ea g D L"
  shows "\<exists>ptr w'. cellSheapAllocate ea sz w = Some (ptr, w') \<and> world_heap w' ea g D L \<and>
    (ptr = 0 \<and> owned D (heap_tree w' ea) = owned D (heap_tree w ea) \<or>
     ptr \<noteq> 0 \<and> (\<exists>off bytes. bytes = ceil2 (max 128 (unat sz)) \<and>
       unat ptr = unat (h_ea_heap (headers w ea)) + off \<and> bytes dvd off \<and> off + bytes \<le> unat (s_buffer g) \<and>
       {off ..< off + bytes} \<inter> owned D (heap_tree w ea) = {} \<and>
       owned D (heap_tree w' ea) = owned D (heap_tree w ea) \<union> {off ..< off + bytes}))"
  by (rule allocate_world[OF assms])

theorem allocate_sound_witness:
  "\<exists>ptr w'. cellSheapAllocate 4096 100 demo_world = Some (ptr, w') \<and> world_heap w' 4096 demo_geometry 4 14"
  using allocate_sound[OF demo_heap, of 100] by blast

text \<open>C2: \<open>cellSheapFree\<close> of any 128-byte aligned address inside an allocated block returns
  CELL_OK, keeps the heap sound, and releases exactly the bytes of that block.\<close>

theorem free_sound:
  assumes "world_heap w ea g D L" "b \<in> blocks D (heap_tree w ea)" "off \<in> byte_range D b" "128 dvd off"
    "off < unat (s_buffer g)" "unat ptr = unat (h_ea_heap (headers w ea)) + off"
  shows "\<exists>w'. cellSheapFree ea ptr w = Some (Inr (), w') \<and> world_heap w' ea g D L \<and>
    owned D (heap_tree w' ea) = owned D (heap_tree w ea) - byte_range D b"
  by (rule free_world[OF assms])

lemma demo_allocate: "fst (sheap_heap_allocate flat demo_tree 29 2048 4096 100) = 4096"
  unfolding demo_tree_def by code_simp

lemma demo_tree_ok: "heap_ok demo_geometry 4 14 demo_tree"
proof -
  have g: "heap_ok demo_geometry 4 14 (heap_tree demo_world 4096)" using world_heapD(9)[OF demo_heap] .
  obtain D L where "heap_ok demo_geometry D L (sheap_tree_fence flat (\<lambda>_. NFree) (unat (n_nodes demo_geometry)))"
    using init_heap_ok[OF demo_init] by (auto simp: demo_geometry_def)
  moreover have "D = 4 \<and> L = 14" using calculation by (intro demo_shape_unique) (simp add: heap_ok_def)
  ultimately show ?thesis by (simp add: demo_tree_def demo_geometry_def)
qed

text \<open>An allocated block of the demonstration heap, in memory.\<close>

lemma demo_allocated:
  obtains w b off where "world_heap w 4096 demo_geometry 4 14" "b \<in> blocks 4 (heap_tree w 4096)"
    "off \<in> byte_range 4 b" "128 dvd off" "off < unat (s_buffer demo_geometry)"
    "unat (h_ea_heap (headers w 4096)) + off < 2 ^ 64"
proof -
  let ?T = "heap_tree demo_world 4096"
  have ok: "heap_ok demo_geometry 4 14 ?T" using world_heapD(9)[OF demo_heap] .
  then have sh: "heap_shape demo_geometry 4 14" and wf: "tree_wf 4 ?T"
    and ins: "\<forall>b \<in> blocks 4 ?T. byte_range 4 b \<subseteq> {..< 1792} \<or> byte_range 4 b \<inter> {..< 1792} = {}"
    by (simp_all add: heap_ok_def demo_geometry_def)
  have own: "owned 4 ?T = {1792 ..< 2048}"
  proof -
    obtain D L where "world_heap demo_world 4096 demo_geometry D L"
      "owned D ?T = {unat (s_buffer demo_geometry) ..< unat (s_root demo_geometry)}"
      using initialize_world[OF blank_sized _ demo_init_runs] demo_init by auto
    moreover have "heap_shape demo_geometry D L" using world_heapD(9)[OF calculation(1)] by (simp add: heap_ok_def)
    then have "D = 4" using demo_shape_unique by blast
    ultimately show ?thesis by (simp add: demo_geometry_def)
  qed
  have nd: "tree_node 4 16" by (simp add: tree_node_def)
  have f16: "flog2 16 = 4" using flog2_power[of 4] by simp
  have r16: "byte_range 4 16 = {0 ..< 128}" by (simp add: byte_range_def walk_start_def f16)
  have al: "allocatable ?T 16"
    unfolding allocatable_iff[OF wf nd]
  proof (intro ballI conjI notI)
    fix b assume b: "b \<in> blocks 4 ?T"
    then have sub: "byte_range 4 b \<subseteq> {1792 ..< 2048}" and nb: "tree_node 4 b" using own by (auto simp: owned_def blocks_def)
    have "leaf 4 16" by (simp add: leaf_def)
    {
      assume "within 16 b"
      then have "0 \<in> byte_range 4 b" using byte_range_leaf[OF nb, of 0] by simp
      then show False using sub by auto
    next
      assume "within b 16"
      then have "b = 16" using leaf_within_leaf[OF \<open>leaf 4 16\<close>] nb by blast
      then show False using sub r16 by auto
    }
  qed
  then have "first_fit ?T (2 ^ 4) (min (2 ^ Suc 4 - 1) 29) = Some 16" by (simp add: first_fit_step)
  then have tr: "sheap_tree_allocate flat ?T 29 4 = (16, mark_used flat ?T 16)"
    using allocate_first_fit[OF wf, of 29 4] by simp
  have "sheap_size_to_row 100 2048 = Some 4" by code_simp
  then have run: "sheap_heap_allocate flat ?T (h_n_nodes (headers demo_world 4096)) (h_s_root (headers demo_world 4096))
      (h_ea_heap (headers demo_world 4096)) 100
    = (h_ea_heap (headers demo_world 4096) + sheap_node_offset 16 2048, mark_used flat ?T 16)"
    using tr world_heapD(5,6)[OF demo_heap] by (simp add: sheap_heap_allocate_def demo_geometry_def)
  note W = world_heapD[OF demo_heap]
  obtain w where w: "heap_tree w 4096 = mark_used flat ?T 16" "headers w = headers demo_world" "memory_sized w"
    using allocate_refines[OF W(4,1,2,3), of 100] run by auto
  note B = mark_used_blocks[OF wf nd al]
  have "heap_ok demo_geometry 4 14 (mark_used flat ?T 16)"
    using ok B r16 by (auto simp: heap_ok_def covered_def demo_geometry_def)
  then have "world_heap w 4096 demo_geometry 4 14" using world_heap_keep[OF demo_heap w(2,3)] w(1) by simp
  moreover have "16 \<in> blocks 4 (heap_tree w 4096)" using B w(1) by simp
  moreover have "0 \<in> byte_range 4 16" using r16 by simp
  moreover have "unat (h_ea_heap (headers w 4096)) + 0 < 2 ^ 64" using unat_u64_less by simp
  ultimately show ?thesis using that[of w 16 0] by (simp add: demo_geometry_def)
qed

theorem free_sound_witness:
  "\<exists>w ptr w'. cellSheapFree 4096 ptr w = Some (Inr (), w') \<and> world_heap w' 4096 demo_geometry 4 14"
proof -
  obtain w b off where w: "world_heap w 4096 demo_geometry 4 14" "b \<in> blocks 4 (heap_tree w 4096)"
    "off \<in> byte_range 4 b" "128 dvd off" "off < unat (s_buffer demo_geometry)"
    and fit: "unat (h_ea_heap (headers w 4096)) + off < 2 ^ 64"
    using demo_allocated .
  have p: "unat (of_nat (unat (h_ea_heap (headers w 4096)) + off) :: u64) = unat (h_ea_heap (headers w 4096)) + off"
    using fit by (intro unat_of_nat_small) simp
  from free_sound[OF w p] show ?thesis by blast
qed

text \<open>C6: Freeing a block right after it was allocated succeeds and restores the state of every
  node of the tree.\<close>

theorem allocate_free_restores:
  assumes "heap_ok g D L T" "0 < unat ea_heap" "unat ea_heap + unat (s_buffer g) \<le> 2 ^ 64"
    "sheap_heap_allocate flat T (n_nodes g) (s_root g) ea_heap sz = (ptr, T1)" "ptr \<noteq> 0"
  shows "\<exists>T2. sheap_heap_free flat T1 (n_nodes g) (s_root g) ea_heap ptr = (Inr (), T2) \<and>
    (\<forall>n. tree_node D n \<longrightarrow> T2 n = T n)"
  by (rule allocate_free_roundtrip[OF assms]) blast

theorem allocate_free_restores_witness:
  "\<exists>T1 T2. sheap_heap_allocate flat demo_tree 29 2048 4096 100 = (4096, T1) \<and>
     sheap_heap_free flat T1 29 2048 4096 4096 = (Inr (), T2) \<and> T2 16 = demo_tree 16"
proof -
  obtain T1 where run: "sheap_heap_allocate flat demo_tree 29 2048 4096 100 = (4096, T1)"
    using demo_allocate by (cases "sheap_heap_allocate flat demo_tree 29 2048 4096 100") simp
  have "tree_node 4 16" by (simp add: tree_node_def)
  with allocate_free_restores[OF demo_tree_ok, of 4096 100 4096 T1] run show ?thesis
    by (auto simp: demo_geometry_def)
qed

text \<open>C7: The row scan with its jumps over allocated subtrees is a first-fit search: it returns the
  first node of the row, short of the row's last id and of the last id of the heap, that is FREE
  with no allocated or full ancestor, and marks it; it returns 0 and changes nothing when there is
  none.\<close>

theorem tree_allocate_is_first_fit:
  assumes "tree_wf D T" "nodes < 2 ^ Suc D" "row \<le> 31"
  shows "sheap_tree_allocate flat T nodes row =
    (case find (allocatable T) [2 ^ row ..< min (2 ^ Suc row - 1) nodes] of
       None \<Rightarrow> (0, T) | Some n \<Rightarrow> (n, mark_used flat T n))"
  using allocate_first_fit[OF assms] by (simp add: first_fit_def)

theorem tree_allocate_is_first_fit_witness:
  "sheap_tree_allocate flat (\<lambda>_. NFree) 31 2 =
    (case find (allocatable (\<lambda>_. NFree)) [4 ..< 7] of
       None \<Rightarrow> (0, \<lambda>_. NFree) | Some n \<Rightarrow> (n, mark_used flat (\<lambda>_. NFree) n))"
proof -
  have "tree_wf 4 (\<lambda>_. NFree)" by (simp add: tree_wf_def ok_at_def)
  from tree_allocate_is_first_fit[OF this, of 31 2] show ?thesis by simp
qed

section \<open>Queries\<close>

text \<open>\<open>cellSheapQueryFree\<close> on a sound heap returns the number of bytes of the buffer that are
  not owned (cut to an \<open>int\<close>), and leaves the heap as it was.\<close>

theorem query_free_sound:
  assumes "world_heap w ea g D L"
  shows "\<exists>w'. cellSheapQueryFree ea w =
      Some (Inr (ucast (of_nat (card ({..< unat (s_buffer g)} - owned D (heap_tree w ea))) :: u64)), w') \<and>
    world_heap w' ea g D L \<and> heap_tree w' ea = heap_tree w ea"
proof -
  note W = world_heapD[OF assms]
  from query_free_refines[OF W(4,1,2,3)] query_free_bytes[OF W(9)] show ?thesis
    using world_heap_keep[OF assms] W(9) by (auto simp: W(5,6))
qed

theorem query_free_sound_witness:
  "\<exists>w'. cellSheapQueryFree 4096 demo_world = Some (Inr 1792, w')"
proof -
  have own: "owned 4 (heap_tree demo_world 4096) = {1792 ..< 2048}"
  proof -
    obtain D L where w: "world_heap demo_world 4096 demo_geometry D L"
      "owned D (heap_tree demo_world 4096) = {unat (s_buffer demo_geometry) ..< unat (s_root demo_geometry)}"
      using initialize_world[OF blank_sized _ demo_init_runs] demo_init by auto
    then have "heap_shape demo_geometry D L" by (simp add: world_heap_def heap_ok_def)
    then have "D = 4" using demo_shape_unique by blast
    then show ?thesis using w(2) by (simp add: demo_geometry_def)
  qed
  have "{..< 1792} - {1792 ..< 2048} = {..< 1792::nat}" by auto
  then have "card ({..< unat (s_buffer demo_geometry)} - owned 4 (heap_tree demo_world 4096)) = 1792"
    by (simp add: own demo_geometry_def)
  with query_free_sound[OF demo_heap] show ?thesis by auto
qed

text \<open>\<open>QueryMax\<close> is an upper bound of what can be had: whenever \<open>Allocate\<close> succeeds on a sound
  heap, the block it returns is no longer than the size \<open>QueryMax\<close> reports just before.\<close>

theorem query_max_bounds_allocate:
  assumes "heap_ok g D L T" "sheap_heap_allocate flat T (n_nodes g) (s_root g) ea_heap sz = (ptr, T')" "ptr \<noteq> 0"
  shows "ceil2 (max 128 (unat sz)) \<le> unat (fst (sheap_tree_query_max flat T (unat (n_nodes g)) (s_root g)))"
  by (rule query_max_covers[OF assms])

theorem query_max_bounds_allocate_witness:
  "128 \<le> unat (fst (sheap_tree_query_max flat demo_tree 29 2048))"
proof -
  obtain T1 where run: "sheap_heap_allocate flat demo_tree 29 2048 4096 100 = (4096, T1)"
    using demo_allocate by (cases "sheap_heap_allocate flat demo_tree 29 2048 4096 100") simp
  have "ceil2 128 = 128" using ceil2_power[of 7] by simp
  with query_max_bounds_allocate[OF demo_tree_ok, of 4096 100 4096 T1] run show ?thesis
    by (simp add: demo_geometry_def)
qed

section \<open>Keys\<close>

text \<open>C8: In every interleaving of clients on one key the entry counts the clients that create or
  hold the object; a client creates only while no other creates, holds or frees it; all holders
  have the same published address, inside the buffer; and a client frees the object only when
  nobody holds or creates it.\<close>

theorem key_protocol_safe:
  assumes "(key_sys_step ea_heap buffer)\<^sup>*\<^sup>* (0, replicate_mset n Idle) (e, M)" "n < 2 ^ 32"
  shows "unat (key_count e) = size {# c \<in># M. c = Creating \<or> (\<exists>a. c = Holding a) #} \<and>
    (Creating \<in># M \<longrightarrow> size {# c \<in># M. c \<noteq> Idle #} = 1) \<and>
    (\<forall>a. Freeing a \<in># M \<longrightarrow> size {# c \<in># M. c \<noteq> Idle #} = 1 \<and> published ea_heap buffer a (key_nval e)) \<and>
    (\<forall>a. Holding a \<in># M \<longrightarrow> published ea_heap buffer a (key_nval e) \<and> (\<forall>c \<in># M. c \<in> {Idle, Holding a}))"
proof -
  note S = key_reachable_shape[OF assms]
  then have sh: "key_shape ea_heap buffer (e, M)" and "size M < 2 ^ 32" using assms(2) by simp_all
  note count = key_shape_count[OF this]
  from sh show ?thesis
  proof cases
    case (live object v k m)
    then show ?thesis using count by (auto split: if_splits)
  qed (use count in \<open>auto simp: filter_replicate_mset split: if_splits\<close>)
qed

theorem key_protocol_safe_witness:
  "unat (key_count (key_entry 1 0)) = size {# c \<in># {# Creating, Idle #}. c = Creating \<or> (\<exists>a. c = Holding a) #}"
proof -
  have "key_sys_step 4096 2048 (0, add_mset Idle {# Idle #}) (key_entry 1 0, add_mset Creating {# Idle #})"
    by (rule key_sys_step.attach_create) (simp add: sheap_key_new_step_def)
  then have "(key_sys_step 4096 2048)\<^sup>*\<^sup>* (0, replicate_mset 2 Idle) (key_entry 1 0, {# Creating, Idle #})"
    by (intro r_into_rtranclp) (simp add: numeral_2_eq_2)
  from key_protocol_safe[OF this] show ?thesis by simp
qed

text \<open>On a heap laid out by the geometry functions, publishing an allocated block never
  overflows the entry: \<open>FinalizeNew\<close> by the creator commits, and the entry decodes to exactly the
  published address.\<close>

theorem publish_roundtrip:
  assumes "heap_shape g D L" "sheap_key_state e = KeyNewing" "object \<noteq> 0" "ea_heap \<le> object"
    "object - ea_heap < s_buffer g" "(object - ea_heap) AND 127 = 0"
  shows "\<exists>e'. sheap_key_finalize_new_step e object ea_heap (s_buffer g) = KeyCommit e' () \<and>
    key_count e' = key_count e \<and> sheap_key_decode (key_nval e') ea_heap = object \<and>
    sheap_key_state e' = KeyLive"
proof -
  have "(2::nat) ^ D \<le> 2 ^ 31" using assms(1) by (intro power_increasing) (auto simp: heap_shape_def)
  then have "unat (s_buffer g) \<le> 128 * 2 ^ 31" using assms(1) by (auto simp: heap_shape_def)
  then have "sheap_key_finalize_new_step e object ea_heap (s_buffer g) \<noteq> KeyOverflow"
    by (rule finalize_new_no_overflow)
  then obtain e' where e': "sheap_key_finalize_new_step e object ea_heap (s_buffer g) = KeyCommit e' ()"
    using assms(2-6) by (auto simp: sheap_key_finalize_new_step_def Let_def split: if_splits)
  obtain v where v: "e' = key_entry (key_count e) v" "published ea_heap (s_buffer g) object v"
    using finalize_new_publishes[OF e' assms(3)] by blast
  have "key_count e \<noteq> 0" using assms(2) by (auto simp: sheap_key_state_def split: if_splits)
  then show ?thesis using e' v by (auto simp: published_def)
qed

theorem publish_roundtrip_witness:
  "\<exists>e'. sheap_key_finalize_new_step (key_entry 1 0) 4352 4096 1792 = KeyCommit e' () \<and>
     sheap_key_decode (key_nval e') 4096 = 4352"
  using publish_roundtrip[OF demo_shape, of "key_entry 1 0" 4352 4096] by (auto simp: demo_geometry_def)

end
