(* ===== verification/Sync_Base.thy ===== *)
theory Sync_Base
  imports Llsc
begin

text \<open>
  What the objects of \<open>sdk/libsync\<close> share: the error codes, the alignment guards of the entry
  points, the two 16-bit halves that the ticket mutex, the barrier and the reader-writer lock pack
  into one word, the sizes the memory flow controller transfers, and a bounded piece of modular
  arithmetic on 16-bit counters.
\<close>

section \<open>Error codes and argument checks\<close>

datatype sync_error = SYNC_ALIGN | SYNC_INVAL | SYNC_BUSY | SYNC_AGAIN | SYNC_ABORT | SYNC_PERM | SYNC_STAT
  | SYNC_NULL_POINTER

type_synonym 'a sync_result = "sync_error + 'a"

definition word_aligned :: "u64 \<Rightarrow> bool" where
  "word_aligned ea \<longleftrightarrow> ea AND 3 = 0"

definition line_aligned :: "u64 \<Rightarrow> bool" where
  "line_aligned ea \<longleftrightarrow> ea AND 0x7F = 0"

definition mfc_legal_size :: "u32 \<Rightarrow> bool" where
  "mfc_legal_size sz \<longleftrightarrow> sz = 1 \<or> sz = 2 \<or> sz = 4 \<or> sz = 8 \<or> sz = 16 \<or> (sz \<le> 128 \<and> sz AND 15 = 0)"

section \<open>DMA\<close>

text \<open>A transfer between a buffer of local store and main memory, as its effect when it is complete.\<close>

type_synonym memory = "u64 \<Rightarrow> u8"

definition mfc_get :: "memory \<Rightarrow> u64 \<Rightarrow> u32 \<Rightarrow> u8 list" where
  "mfc_get mem ea sz = map (\<lambda>i. mem (ea + of_nat i)) [0..<unat sz]"

definition mfc_put :: "u8 list \<Rightarrow> u64 \<Rightarrow> memory \<Rightarrow> memory" where
  "mfc_put bytes ea mem = (\<lambda>a. if unat (a - ea) < length bytes then bytes ! unat (a - ea) else mem a)"

lemma unat_of_nat_u64: "i < 2 ^ 64 \<Longrightarrow> unat (of_nat i :: u64) = i"
  by (simp add: unat_of_nat)

lemma mfc_get_put: "length bytes = unat sz \<Longrightarrow> mfc_get (mfc_put bytes ea mem) ea sz = bytes"
  using unat_u32_less[of sz] by (auto simp: mfc_get_def mfc_put_def unat_of_nat_u64 intro!: nth_equalityI)

lemma length_mfc_get [simp]: "length (mfc_get mem ea sz) = unat sz"
  by (simp add: mfc_get_def)

text \<open>The bytes of one buffer have distinct addresses.\<close>

lemma buffer_addresses: "i < 2 ^ 64 \<Longrightarrow> j < 2 ^ 64 \<Longrightarrow> (ea :: u64) + of_nat i = ea + of_nat j \<longleftrightarrow> i = j"
  by (metis add_left_cancel unat_of_nat_u64)

text \<open>
  A transfer in progress has delivered some of its bytes, in whatever order: a map from offsets to
  bytes, complete when every offset of the buffer is defined.
\<close>

definition transfer_complete :: "nat \<Rightarrow> (nat \<Rightarrow> u8 option) \<Rightarrow> bool" where
  "transfer_complete n m \<longleftrightarrow> (\<forall>i < n. m i \<noteq> None)"

lemma mfc_get_nth: "mfc_get mem ea sz = v \<Longrightarrow> i < unat sz \<Longrightarrow> mem (ea + of_nat i) = v ! i"
  by (auto simp: mfc_get_def)

lemma mfc_get_eqI: "length v = unat sz \<Longrightarrow> (\<And>i. i < unat sz \<Longrightarrow> mem (ea + of_nat i) = v ! i) \<Longrightarrow> mfc_get mem ea sz = v"
  by (auto simp: mfc_get_def intro!: nth_equalityI)

section \<open>Reservation lines of double words\<close>

text \<open>A lock line of local store as sixteen double words.\<close>

type_synonym lockline = "nat \<Rightarrow> u64"

text \<open>The blocking variant starts over where the try variant gives up.\<close>

fun keep_trying :: "('l, 'e + 'r) decision \<Rightarrow> ('l, 'e + 'r) decision" where
  "keep_trying (Return (Inl e)) = Again"
| "keep_trying d = d"

lemma keep_trying_Store: "keep_trying d = Store l r \<Longrightarrow> d = Store l r"
  by (cases d rule: keep_trying.cases) auto

section \<open>Two halves of a word\<close>

definition hi16 :: "u32 \<Rightarrow> u16" where
  "hi16 w = ucast (drop_bit 16 w)"

definition lo16 :: "u32 \<Rightarrow> u16" where
  "lo16 w = ucast w"

definition pack16 :: "u16 \<Rightarrow> u16 \<Rightarrow> u32" where
  "pack16 h l = push_bit 16 (ucast h) OR ucast l"

lemma hi16_pack16 [simp]: "hi16 (pack16 h l) = h"
  by (rule bit_word_eqI) (auto simp: hi16_def pack16_def bit_simps dest: bit_imp_le_length)

lemma lo16_pack16 [simp]: "lo16 (pack16 h l) = l"
  by (rule bit_word_eqI) (auto simp: lo16_def pack16_def bit_simps dest: bit_imp_le_length)

lemma pack16_halves [simp]: "pack16 (hi16 w) (lo16 w) = w"
  by (rule bit_word_eqI) (auto simp: hi16_def lo16_def pack16_def bit_simps)

lemma pack16_eq_iff [simp]: "pack16 a b = pack16 c d \<longleftrightarrow> a = c \<and> b = d"
  by (metis hi16_pack16 lo16_pack16)

lemma hi16_lo16_zero [simp]: "hi16 0 = 0" "lo16 0 = 0"
  by (simp_all add: hi16_def lo16_def)

section \<open>16-bit counters\<close>

lemma of_nat_u16_eq:
  assumes "a < 65536" "b < 65536"
  shows "(of_nat a :: u16) = of_nat b \<longleftrightarrow> a = b"
proof
  assume "(of_nat a :: u16) = of_nat b"
  then have "unat (of_nat a :: u16) = unat (of_nat b :: u16)" by simp
  with assms show "a = b" by (simp add: unat_of_nat)
qed simp

lemma of_nat_u16_zero: "a < 65536 \<Longrightarrow> (of_nat a :: u16) = 0 \<longleftrightarrow> a = 0"
  using of_nat_u16_eq[of a 0] by simp

lemma mod_distinct: "a < b \<Longrightarrow> b - a < d \<Longrightarrow> a mod d \<noteq> b mod d" for a b d :: nat
proof
  assume a: "a < b" "b - a < d" and "a mod d = b mod d"
  then have "d dvd b - a" by (metis mod_eq_dvd_iff_nat less_imp_le_nat)
  then show False using a by (auto dest: dvd_imp_le)
qed

end
