(* ===== verification/Sync_Mutex.thy ===== *)
theory Sync_Mutex
  imports Sync_Base
begin

text \<open>
  \<open>sdk/libsync/src/mutex_ticket.h\<close> and \<open>mutex.c\<close>: the ticket mutex.  The word helpers and the
  decisions of the reservation loops are translated as they are; the processors sharing one mutex
  are a step relation whose moves are those decisions.  Two ghost logs record the order in which
  tickets were taken and in which the lock was entered: the second is always a prefix of the first,
  which is mutual exclusion's companion, first come first served.
\<close>

section \<open>The word\<close>

definition sync_mutex_current :: "u32 \<Rightarrow> u16" where
  "sync_mutex_current word = ucast (drop_bit 16 word)"

definition sync_mutex_next :: "u32 \<Rightarrow> u16" where
  "sync_mutex_next word = ucast word"

definition sync_mutex_take_ticket :: "u32 \<Rightarrow> u32" where
  "sync_mutex_take_ticket word = (word AND 0xffff0000) OR ucast (sync_mutex_next word + 1)"

definition sync_mutex_release :: "u32 \<Rightarrow> u32" where
  "sync_mutex_release word = push_bit 16 (ucast (sync_mutex_current word + 1)) OR ucast (sync_mutex_next word)"

definition sync_mutex_is_free :: "u32 \<Rightarrow> bool" where
  "sync_mutex_is_free word \<longleftrightarrow> sync_mutex_current word = sync_mutex_next word"

section \<open>The operations\<close>

text \<open>Initialize stores unconditionally: its result is the word it leaves.\<close>

definition cellSyncMutexInitialize :: "u64 \<Rightarrow> u32 sync_result" where
  "cellSyncMutexInitialize ea = (if \<not> word_aligned ea then Inl SYNC_ALIGN else Inr 0)"

text \<open>Lock: the ticket-taking loop returns the ticket; the waiting loop then spins on the word.\<close>

definition mutex_take_decision :: "u32 \<Rightarrow> (u32, u16) decision" where
  "mutex_take_decision word = Store (sync_mutex_take_ticket word) (sync_mutex_next word)"

definition mutex_wait_decision :: "u16 \<Rightarrow> u32 \<Rightarrow> (u32, unit) decision" where
  "mutex_wait_decision ticket word =
     (if sync_mutex_current word \<noteq> ticket then Again else Return ())"

definition cellSyncMutexLock ::
  "u64 \<Rightarrow> (u32 \<times> bool) list \<Rightarrow> (u32 \<times> bool) list \<Rightarrow> (u32, unit sync_result) outcome" where
  "cellSyncMutexLock ea take_answers wait_answers =
     (if \<not> word_aligned ea then Returned (Inl SYNC_ALIGN)
      else case llsc_loop mutex_take_decision take_answers of
        Stored old new ticket \<Rightarrow>
          (case llsc_loop (mutex_wait_decision ticket) wait_answers of
             Spinning \<Rightarrow> Spinning
           | _ \<Rightarrow> Stored old new (Inr ()))
      | _ \<Rightarrow> Spinning)"

definition try_lock_decision :: "u32 \<Rightarrow> (u32, unit sync_result) decision" where
  "try_lock_decision word =
     (if \<not> sync_mutex_is_free word then Return (Inl SYNC_BUSY)
      else Store (sync_mutex_take_ticket word) (Inr ()))"

definition cellSyncMutexTryLock :: "u64 \<Rightarrow> (u32 \<times> bool) list \<Rightarrow> (u32, unit sync_result) outcome" where
  "cellSyncMutexTryLock ea answers =
     (if \<not> word_aligned ea then Returned (Inl SYNC_ALIGN) else llsc_loop try_lock_decision answers)"

definition unlock_decision :: "u32 \<Rightarrow> (u32, unit sync_result) decision" where
  "unlock_decision word = Store (sync_mutex_release word) (Inr ())"

definition cellSyncMutexUnlock :: "u64 \<Rightarrow> (u32 \<times> bool) list \<Rightarrow> (u32, unit sync_result) outcome" where
  "cellSyncMutexUnlock ea answers =
     (if \<not> word_aligned ea then Returned (Inl SYNC_ALIGN) else llsc_loop unlock_decision answers)"

section \<open>Word arithmetic\<close>

lemma mutex_fields: "sync_mutex_current w = hi16 w" "sync_mutex_next w = lo16 w"
  by (simp_all add: sync_mutex_current_def sync_mutex_next_def hi16_def lo16_def)

lemma mutex_release_pack: "sync_mutex_release w = pack16 (hi16 w + 1) (lo16 w)"
  by (simp add: sync_mutex_release_def mutex_fields pack16_def)

lemma mutex_take_pack: "sync_mutex_take_ticket w = pack16 (hi16 w) (lo16 w + 1)"
proof -
  have mask: "(0xffff0000 :: u32) = push_bit 16 (mask 16)"
    by (simp add: mask_eq_exp_minus_1)
  have "w AND 0xffff0000 = push_bit 16 (ucast (hi16 w))"
    unfolding mask by (rule bit_word_eqI) (auto simp: hi16_def bit_simps)
  then show ?thesis by (simp add: sync_mutex_take_ticket_def mutex_fields pack16_def)
qed

lemma take_ticket_fields [simp]:
  "sync_mutex_current (sync_mutex_take_ticket w) = sync_mutex_current w"
  "sync_mutex_next (sync_mutex_take_ticket w) = sync_mutex_next w + 1"
  by (simp_all add: mutex_fields mutex_take_pack)

lemma release_fields [simp]:
  "sync_mutex_current (sync_mutex_release w) = sync_mutex_current w + 1"
  "sync_mutex_next (sync_mutex_release w) = sync_mutex_next w"
  by (simp_all add: mutex_fields mutex_release_pack)

section \<open>Processors sharing a mutex\<close>

datatype mutex_pc = MutexIdle | MutexWaiting u16 | MutexHolding u16

record mutex_system =
  mutex_word :: u32
  mutex_pc :: "nat \<Rightarrow> mutex_pc"
  mutex_arrived :: "nat list"
  mutex_entered :: "nat list"

definition mutex_start :: mutex_system where
  "mutex_start = \<lparr>mutex_word = 0, mutex_pc = (\<lambda>_. MutexIdle), mutex_arrived = [], mutex_entered = []\<rparr>"

inductive mutex_step :: "nat \<Rightarrow> mutex_system \<Rightarrow> mutex_system \<Rightarrow> bool" for n where
  take: "p < n \<Longrightarrow> mutex_pc s p = MutexIdle \<Longrightarrow> mutex_take_decision (mutex_word s) = Store w t \<Longrightarrow>
    mutex_step n s (s\<lparr>mutex_word := w, mutex_pc := (mutex_pc s)(p := MutexWaiting t),
      mutex_arrived := mutex_arrived s @ [p]\<rparr>)"
| enter: "p < n \<Longrightarrow> mutex_pc s p = MutexWaiting t \<Longrightarrow> mutex_wait_decision t (mutex_word s) = Return () \<Longrightarrow>
    mutex_step n s (s\<lparr>mutex_pc := (mutex_pc s)(p := MutexHolding t), mutex_entered := mutex_entered s @ [p]\<rparr>)"
| try_lock: "p < n \<Longrightarrow> mutex_pc s p = MutexIdle \<Longrightarrow> try_lock_decision (mutex_word s) = Store w (Inr ()) \<Longrightarrow>
    mutex_step n s (s\<lparr>mutex_word := w,
      mutex_pc := (mutex_pc s)(p := MutexHolding (sync_mutex_next (mutex_word s))),
      mutex_arrived := mutex_arrived s @ [p], mutex_entered := mutex_entered s @ [p]\<rparr>)"
| unlock: "p < n \<Longrightarrow> mutex_pc s p = MutexHolding t \<Longrightarrow> unlock_decision (mutex_word s) = Store w (Inr ()) \<Longrightarrow>
    mutex_step n s (s\<lparr>mutex_word := w, mutex_pc := (mutex_pc s)(p := MutexIdle)\<rparr>)"

text \<open>
  The invariant: the processors with a ticket, in ticket order, are a queue \<open>q\<close>; its tickets run
  from current to next without a gap, only its head may hold the lock, and the arrivals are the
  processors served before followed by the queue.
\<close>

fun queue_pcs :: "(nat \<Rightarrow> mutex_pc) \<Rightarrow> u16 \<Rightarrow> nat list \<Rightarrow> bool" where
  "queue_pcs pc t [] \<longleftrightarrow> True"
| "queue_pcs pc t (p # q) \<longleftrightarrow> pc p = MutexWaiting t \<and> queue_pcs pc (t + 1) q"

definition mutex_inv :: "nat \<Rightarrow> nat list \<Rightarrow> nat list \<Rightarrow> mutex_system \<Rightarrow> bool" where
  "mutex_inv n served q s \<longleftrightarrow> distinct q \<and> set q \<subseteq> {..<n} \<and>
     sync_mutex_next (mutex_word s) = sync_mutex_current (mutex_word s) + of_nat (length q) \<and>
     (\<forall>p. p \<notin> set q \<longrightarrow> mutex_pc s p = MutexIdle) \<and>
     mutex_arrived s = served @ q \<and>
     (queue_pcs (mutex_pc s) (sync_mutex_current (mutex_word s)) q \<and> mutex_entered s = served \<or>
      (\<exists>h r. q = h # r \<and> mutex_pc s h = MutexHolding (sync_mutex_current (mutex_word s)) \<and>
         queue_pcs (mutex_pc s) (sync_mutex_current (mutex_word s) + 1) r \<and> mutex_entered s = served @ [h]))"

lemma queue_pcs_upd [simp]: "p \<notin> set q \<Longrightarrow> queue_pcs (pc(p := x)) t q = queue_pcs pc t q"
  by (induction q arbitrary: t) auto

lemma queue_pcs_append:
  "queue_pcs pc t (q @ [p]) \<longleftrightarrow> queue_pcs pc t q \<and> pc p = MutexWaiting (t + of_nat (length q))"
  by (induction q arbitrary: t) (auto simp: algebra_simps)

text \<open>A waiting processor of the queue holds a ticket by its place, so the tickets are distinct.\<close>

lemma queue_pcs_nth:
  "queue_pcs pc t q \<Longrightarrow> i < length q \<Longrightarrow> pc (q ! i) = MutexWaiting (t + of_nat i)"
proof (induction q arbitrary: t i)
  case (Cons p q)
  then show ?case by (cases i) (auto simp: algebra_simps)
qed simp

lemma queue_pcs_hold: "queue_pcs pc t q \<Longrightarrow> p \<in> set q \<Longrightarrow> \<exists>u. pc p = MutexWaiting u"
  by (induction q arbitrary: t) auto

lemma queue_pcs_members [dest]:
  "queue_pcs pc t q \<Longrightarrow> pc p = MutexIdle \<Longrightarrow> p \<notin> set q"
  "queue_pcs pc t q \<Longrightarrow> pc p = MutexHolding u \<Longrightarrow> p \<notin> set q"
  using queue_pcs_hold[of pc t q p] by auto

lemma queue_pcs_first:
  assumes "queue_pcs pc t q" "p \<in> set q" "pc p = MutexWaiting t" "length q \<le> 65536"
  shows "p = hd q"
proof -
  obtain i where i: "i < length q" "p = q ! i" using assms(2) by (auto simp: in_set_conv_nth)
  then have "(of_nat i :: u16) = 0" using queue_pcs_nth[OF assms(1) i(1)] assms(3) by simp
  then have "i = 0" using i(1) assms(4) of_nat_u16_zero[of i] by simp
  then show ?thesis using i by (cases q) auto
qed

lemma queue_length: "distinct q \<Longrightarrow> set q \<subseteq> {..<n} \<Longrightarrow> length q \<le> n"
  using card_mono[of "{..<n}" "set q"] by (simp add: distinct_card)

lemma queue_room: "distinct q \<Longrightarrow> set q \<subseteq> {..<n} \<Longrightarrow> p < n \<Longrightarrow> p \<notin> set q \<Longrightarrow> length q < n"
  using queue_length[of "p # q" n] by simp

lemma mutex_start_inv: "mutex_inv n [] [] mutex_start"
  by (simp add: mutex_inv_def mutex_start_def sync_mutex_current_def sync_mutex_next_def)

lemma mutex_inv_idle: "mutex_inv n served q s \<Longrightarrow> mutex_pc s p = MutexIdle \<Longrightarrow> p \<notin> set q"
  unfolding mutex_inv_def by auto

lemma mutex_inv_take:
  assumes inv: "mutex_inv n served q s" and p: "p < n" "mutex_pc s p = MutexIdle"
  shows "mutex_inv n served (q @ [p]) (s\<lparr>mutex_word := sync_mutex_take_ticket (mutex_word s),
    mutex_pc := (mutex_pc s)(p := MutexWaiting (sync_mutex_next (mutex_word s))),
    mutex_arrived := mutex_arrived s @ [p]\<rparr>)"
  using inv mutex_inv_idle[OF inv p(2)] p(1) unfolding mutex_inv_def
  by (auto simp: queue_pcs_append algebra_simps)

lemma mutex_inv_unlock:
  assumes inv: "mutex_inv n served q s" and p: "mutex_pc s p = MutexHolding t"
  shows "\<exists>q'. mutex_inv n (served @ [p]) q' (s\<lparr>mutex_word := sync_mutex_release (mutex_word s),
    mutex_pc := (mutex_pc s)(p := MutexIdle)\<rparr>)"
proof -
  have "p \<in> set q" using inv p unfolding mutex_inv_def by force
  then obtain r where "q = p # r"
    "queue_pcs (mutex_pc s) (sync_mutex_current (mutex_word s) + 1) r" "mutex_entered s = served @ [p]"
    using inv p unfolding mutex_inv_def by auto
  then have "mutex_inv n (served @ [p]) r (s\<lparr>mutex_word := sync_mutex_release (mutex_word s),
    mutex_pc := (mutex_pc s)(p := MutexIdle)\<rparr>)"
    using inv unfolding mutex_inv_def by (auto simp: algebra_simps)
  then show ?thesis by blast
qed

lemma mutex_inv_enter:
  assumes inv: "mutex_inv n served q s" and n: "n \<le> 65536"
    and p: "mutex_pc s p = MutexWaiting (sync_mutex_current (mutex_word s))"
  shows "mutex_inv n served q (s\<lparr>mutex_pc := (mutex_pc s)(p := MutexHolding (sync_mutex_current (mutex_word s))),
    mutex_entered := mutex_entered s @ [p]\<rparr>)"
proof -
  let ?c = "sync_mutex_current (mutex_word s)"
  have len: "length q \<le> 65536" using inv n queue_length[of q n] by (auto simp: mutex_inv_def)
  have pq: "p \<in> set q" using inv p unfolding mutex_inv_def by force
  have "\<not> (\<exists>h r. q = h # r \<and> mutex_pc s h = MutexHolding ?c \<and> queue_pcs (mutex_pc s) (?c + 1) r)"
  proof
    assume "\<exists>h r. q = h # r \<and> mutex_pc s h = MutexHolding ?c \<and> queue_pcs (mutex_pc s) (?c + 1) r"
    then obtain h r where h: "q = h # r" "mutex_pc s h = MutexHolding ?c" "queue_pcs (mutex_pc s) (?c + 1) r"
      by blast
    then have "p \<in> set r" using pq p by auto
    then obtain i where i: "i < length r" "p = r ! i" by (auto simp: in_set_conv_nth)
    then have "(of_nat (Suc i) :: u16) = 0"
      using queue_pcs_nth[OF h(3) i(1)] p by (simp add: add.assoc)
    then show False using of_nat_u16_zero[of "Suc i"] i(1) len h(1) by simp
  qed
  then have q: "queue_pcs (mutex_pc s) ?c q" "mutex_entered s = served"
    using inv unfolding mutex_inv_def by blast+
  obtain h r where hr: "q = h # r" using pq by (cases q) auto
  then have "p = h" using queue_pcs_first[OF q(1) pq p len] by simp
  then show ?thesis using inv q hr unfolding mutex_inv_def by simp
qed

lemma mutex_inv_try_lock:
  assumes inv: "mutex_inv n served q s" and n: "n \<le> 65536" and p: "p < n" "mutex_pc s p = MutexIdle"
    and free: "sync_mutex_is_free (mutex_word s)"
  shows "mutex_inv n served [p] (s\<lparr>mutex_word := sync_mutex_take_ticket (mutex_word s),
    mutex_pc := (mutex_pc s)(p := MutexHolding (sync_mutex_next (mutex_word s))),
    mutex_arrived := mutex_arrived s @ [p], mutex_entered := mutex_entered s @ [p]\<rparr>)"
proof -
  have "length q < 65536"
    using queue_room[of q n p] mutex_inv_idle[OF inv p(2)] inv p(1) n by (auto simp: mutex_inv_def)
  moreover have "(of_nat (length q) :: u16) = 0"
    using inv free by (simp add: mutex_inv_def sync_mutex_is_free_def)
  ultimately have "q = []" by (simp add: of_nat_u16_zero)
  then show ?thesis using inv p(1) free unfolding mutex_inv_def sync_mutex_is_free_def by simp
qed

lemma mutex_step_inv:
  assumes "mutex_step n s t" "mutex_inv n served q s" "n \<le> 65536"
  shows "\<exists>served' q'. mutex_inv n served' q' t"
  using assms
proof (induction rule: mutex_step.induct)
  case (take p s w t)
  then show ?case using mutex_inv_take[of n served q s p] by (auto simp: mutex_take_decision_def)
next
  case (enter p s t)
  then show ?case using mutex_inv_enter[of n served q s p]
    by (auto simp: mutex_wait_decision_def split: if_splits)
next
  case (try_lock p s w)
  then show ?case using mutex_inv_try_lock[of n served q s p]
    by (auto simp: try_lock_decision_def split: if_splits)
next
  case (unlock p s t w)
  then show ?case using mutex_inv_unlock[of n served q s p t] by (auto simp: unlock_decision_def)
qed

lemma mutex_reachable_inv:
  assumes "(mutex_step n)\<^sup>*\<^sup>* mutex_start s" "n \<le> 65536"
  shows "\<exists>served q. mutex_inv n served q s"
  using assms by (induction rule: rtranclp_induct) (blast intro: mutex_start_inv dest: mutex_step_inv)+

lemma mutex_inv_holder:
  assumes "mutex_inv n served q s" "mutex_pc s p = MutexHolding t"
  shows "q \<noteq> [] \<and> p = hd q \<and> t = sync_mutex_current (mutex_word s)"
proof -
  have "p \<in> set q" using assms unfolding mutex_inv_def by force
  with assms show ?thesis unfolding mutex_inv_def by auto
qed

section \<open>Progress\<close>

text \<open>
  Whatever the reachable state, either nobody has a ticket or the head of the queue can move: it
  enters if it waits and unlocks if it holds the lock.
\<close>

lemma mutex_inv_progress:
  assumes "mutex_inv n served q s" "q \<noteq> []"
  shows "mutex_pc s (hd q) = MutexWaiting (sync_mutex_current (mutex_word s)) \<or>
    mutex_pc s (hd q) = MutexHolding (sync_mutex_current (mutex_word s))"
  using assms unfolding mutex_inv_def by (cases q) auto

end
