(* ===== verification/Sync_Barrier.thy ===== *)
theory Sync_Barrier
  imports Sync_Base
begin

text \<open>
  \<open>sdk/libsync/src/barrier.c\<close> with the union of \<open>sdk/include-spu/cell/sync/barrier_types.h\<close>: a
  one-shot barrier.  The word holds the arrivals still missing in its high half and the number of
  participants in its low half.
\<close>

section \<open>The word\<close>

record CellSyncBarrier =
  barrier_count :: u16
  total_count :: u16

text \<open>The two views of the union: \<open>count\<close> is the first half-word of the big-endian \<open>uint_val\<close>.\<close>

definition barrier_uint_val :: "CellSyncBarrier \<Rightarrow> u32" where
  "barrier_uint_val b = pack16 (barrier_count b) (total_count b)"

definition barrier_of_uint :: "u32 \<Rightarrow> CellSyncBarrier" where
  "barrier_of_uint w = \<lparr>barrier_count = hi16 w, total_count = lo16 w\<rparr>"

lemma barrier_of_uint_val [simp]: "barrier_of_uint (barrier_uint_val b) = b"
  by (simp add: barrier_of_uint_def barrier_uint_val_def)

lemma barrier_uint_of_uint [simp]: "barrier_uint_val (barrier_of_uint w) = w"
  by (simp add: barrier_of_uint_def barrier_uint_val_def)

section \<open>The operations\<close>

definition cellSyncBarrierInitialize :: "u64 \<Rightarrow> u16 \<Rightarrow> u32 sync_result" where
  "cellSyncBarrierInitialize ea participants =
     (if participants = 0 \<or> participants > 0x7fff then Inl SYNC_INVAL
      else if \<not> word_aligned ea then Inl SYNC_ALIGN
      else Inr (barrier_uint_val \<lparr>barrier_count = participants, total_count = participants\<rparr>))"

definition barrier_notify_decision :: "u32 \<Rightarrow> (u32, unit sync_result) decision" where
  "barrier_notify_decision w =
     (let b = barrier_of_uint w;
          b = (if barrier_count b > 0 then b\<lparr>barrier_count := barrier_count b - 1\<rparr> else b)
      in Store (barrier_uint_val b) (Inr ()))"

definition cellSyncBarrierNotify :: "(u32 \<times> bool) list \<Rightarrow> (u32, unit sync_result) outcome" where
  "cellSyncBarrierNotify answers = llsc_loop barrier_notify_decision answers"

definition barrier_try_notify_decision :: "u32 \<Rightarrow> (u32, unit sync_result) decision" where
  "barrier_try_notify_decision w =
     (let b = barrier_of_uint w
      in if barrier_count b = 0 then Return (Inl SYNC_AGAIN)
         else Store (barrier_uint_val (b\<lparr>barrier_count := barrier_count b - 1\<rparr>)) (Inr ()))"

definition cellSyncBarrierTryNotify :: "(u32 \<times> bool) list \<Rightarrow> (u32, unit sync_result) outcome" where
  "cellSyncBarrierTryNotify answers = llsc_loop barrier_try_notify_decision answers"

definition barrier_wait_decision :: "u32 \<Rightarrow> (u32, unit sync_result) decision" where
  "barrier_wait_decision w =
     (if barrier_count (barrier_of_uint w) \<noteq> 0 then Again else Return (Inr ()))"

definition cellSyncBarrierWait :: "(u32 \<times> bool) list \<Rightarrow> (u32, unit sync_result) outcome" where
  "cellSyncBarrierWait answers = llsc_loop barrier_wait_decision answers"

text \<open>TryWait looks at the line once.\<close>

definition cellSyncBarrierTryWait :: "u32 \<Rightarrow> unit sync_result" where
  "cellSyncBarrierTryWait w =
     (if barrier_count (barrier_of_uint w) \<noteq> 0 then Inl SYNC_AGAIN else Inr ())"

section \<open>Participants at a barrier\<close>

text \<open>
  Every participant runs its own calls; the log records, newest last, who notified with which
  result and who passed the barrier.
\<close>

datatype barrier_event = Notified nat | TryNotified nat "unit sync_result" | Passed nat | TryWaited nat "unit sync_result"

record barrier_system =
  barrier_word :: u32
  barrier_log :: "barrier_event list"

inductive barrier_step :: "barrier_system \<Rightarrow> barrier_system \<Rightarrow> bool" where
  notify: "barrier_notify_decision (barrier_word s) = Store w (Inr ()) \<Longrightarrow>
    barrier_step s (s\<lparr>barrier_word := w, barrier_log := barrier_log s @ [Notified p]\<rparr>)"
| try_notify: "barrier_try_notify_decision (barrier_word s) = Store w r \<Longrightarrow>
    barrier_step s (s\<lparr>barrier_word := w, barrier_log := barrier_log s @ [TryNotified p r]\<rparr>)"
| try_notify_busy: "barrier_try_notify_decision (barrier_word s) = Return r \<Longrightarrow>
    barrier_step s (s\<lparr>barrier_log := barrier_log s @ [TryNotified p r]\<rparr>)"
| wait: "barrier_wait_decision (barrier_word s) = Return (Inr ()) \<Longrightarrow>
    barrier_step s (s\<lparr>barrier_log := barrier_log s @ [Passed p]\<rparr>)"
| try_wait: "cellSyncBarrierTryWait (barrier_word s) = r \<Longrightarrow>
    barrier_step s (s\<lparr>barrier_log := barrier_log s @ [TryWaited p r]\<rparr>)"

fun barrier_arrival :: "barrier_event \<Rightarrow> bool" where
  "barrier_arrival (Notified p) = True"
| "barrier_arrival (TryNotified p r) = (r = Inr ())"
| "barrier_arrival _ = False"

definition barrier_arrivals :: "barrier_event list \<Rightarrow> nat" where
  "barrier_arrivals log = length (filter barrier_arrival log)"

text \<open>What each event of a log says about the arrivals before it, for \<open>m\<close> participants.\<close>

fun barrier_event_ok :: "nat \<Rightarrow> nat \<Rightarrow> barrier_event \<Rightarrow> bool" where
  "barrier_event_ok m k (Notified p) = True"
| "barrier_event_ok m k (TryNotified p r) = (if k < m then r = Inr () else r = Inl SYNC_AGAIN)"
| "barrier_event_ok m k (Passed p) = (m \<le> k)"
| "barrier_event_ok m k (TryWaited p r) = (if k < m then r = Inl SYNC_AGAIN else r = Inr ())"

definition barrier_log_ok :: "nat \<Rightarrow> barrier_event list \<Rightarrow> bool" where
  "barrier_log_ok m log \<longleftrightarrow> (\<forall>i < length log. barrier_event_ok m (barrier_arrivals (take i log)) (log ! i))"

definition barrier_inv :: "nat \<Rightarrow> barrier_system \<Rightarrow> bool" where
  "barrier_inv m s \<longleftrightarrow> m < 65536 \<and>
     barrier_word s = pack16 (of_nat (m - barrier_arrivals (barrier_log s))) (of_nat m) \<and>
     barrier_log_ok m (barrier_log s)"

lemma barrier_arrivals_snoc [simp]:
  "barrier_arrivals [] = 0"
  "barrier_arrivals (log @ [e]) = barrier_arrivals log + (if barrier_arrival e then 1 else 0)"
  by (simp_all add: barrier_arrivals_def)

lemma barrier_log_ok_snoc:
  "barrier_log_ok m (log @ [e]) \<longleftrightarrow> barrier_log_ok m log \<and> barrier_event_ok m (barrier_arrivals log) e"
  by (auto simp: barrier_log_ok_def less_Suc_eq nth_append)

lemma barrier_count_word [simp]:
  "barrier_count (barrier_of_uint (pack16 h l)) = h" "total_count (barrier_of_uint (pack16 h l)) = l"
  by (simp_all add: barrier_of_uint_def)

lemma of_nat_pred: "0 < k \<Longrightarrow> (of_nat k :: u16) - 1 = of_nat (k - 1)"
  by (cases k) simp_all

lemma missing_zero: "m < 65536 \<Longrightarrow> (of_nat (m - k) :: u16) = 0 \<longleftrightarrow> m \<le> k"
  using of_nat_u16_zero[of "m - k"] by auto

lemma barrier_step_inv: "barrier_step s t \<Longrightarrow> barrier_inv m s \<Longrightarrow> barrier_inv m t"
proof (induction rule: barrier_step.induct)
  case (notify s w p)
  then show ?case
    by (cases "m \<le> barrier_arrivals (barrier_log s)")
       (auto simp: barrier_inv_def barrier_notify_decision_def Let_def barrier_log_ok_snoc missing_zero
          word_greater_zero_iff of_nat_pred barrier_uint_val_def of_nat_u16_eq)
next
  case (try_notify s w r p)
  then show ?case
    by (auto simp: barrier_inv_def barrier_try_notify_decision_def Let_def barrier_log_ok_snoc missing_zero
          of_nat_pred barrier_uint_val_def split: if_splits)
next
  case (try_notify_busy s r p)
  then show ?case
    by (auto simp: barrier_inv_def barrier_try_notify_decision_def Let_def barrier_log_ok_snoc missing_zero
          split: if_splits)
next
  case (wait s p)
  then show ?case
    by (auto simp: barrier_inv_def barrier_wait_decision_def barrier_log_ok_snoc missing_zero split: if_splits)
next
  case (try_wait s r p)
  then show ?case
    by (auto simp: barrier_inv_def cellSyncBarrierTryWait_def barrier_log_ok_snoc missing_zero split: if_splits)
qed

lemma barrier_reachable_inv:
  assumes init: "cellSyncBarrierInitialize ea m = Inr w"
    and run: "barrier_step\<^sup>*\<^sup>* \<lparr>barrier_word = w, barrier_log = []\<rparr> s"
  shows "barrier_inv (unat m) s"
  using run
proof (induction rule: rtranclp_induct)
  case base
  have "unat m < 2 ^ LENGTH(16)" by (rule unsigned_less)
  then show ?case using init
    by (auto simp: cellSyncBarrierInitialize_def barrier_inv_def barrier_uint_val_def barrier_log_ok_def
        split: if_splits)
next
  case (step s t)
  then show ?case by (auto dest: barrier_step_inv)
qed

end
