(* ===== verification/Sync_Rwm.thy ===== *)
theory Sync_Rwm
  imports Sync_Base
begin

text \<open>
  \<open>sdk/libsync/src/rwm.c\<close>: the reader-writer lock with its data buffer.  Double word 0 of the
  line packs the number of readers, the writer flag (16 bits each) and the size of the buffer,
  double word 1 the address of the buffer.  In the step relation the transfers of the buffer are
  not atomic: the bytes move one at a time, in any order, between the reservation that takes the
  lock and the one that gives it back.
\<close>

section \<open>The line\<close>

definition rwm_read_lock :: "lockline \<Rightarrow> u32" where
  "rwm_read_lock l = ucast (drop_bit 32 (l 0))"

definition rwm_write_lock :: "u32 \<Rightarrow> lockline \<Rightarrow> lockline" where
  "rwm_write_lock lock l = l(0 := push_bit 32 (ucast lock) OR (l 0 AND 0xFFFFFFFF))"

definition rwm_buffer :: "lockline \<Rightarrow> u32 \<times> u64" where
  "rwm_buffer l = (ucast (l 0 AND 0xFFFFFFFF), l 1)"

lemma low_mask: "(0xFFFFFFFF :: u64) = mask 32"
  by (simp add: mask_eq_exp_minus_1)

lemma rwm_read_write [simp]: "rwm_read_lock (rwm_write_lock lock l) = lock"
  unfolding rwm_read_lock_def rwm_write_lock_def low_mask
  by (rule bit_word_eqI) (auto simp: bit_simps)

lemma rwm_buffer_write [simp]: "rwm_buffer (rwm_write_lock lock l) = rwm_buffer l"
  unfolding rwm_buffer_def rwm_write_lock_def low_mask
  by (auto intro!: bit_word_eqI simp: bit_simps)

section \<open>The operations\<close>

definition cellSyncRwmInitialize ::
  "u64 \<Rightarrow> u64 \<Rightarrow> u32 \<Rightarrow> u32 \<Rightarrow> (lockline \<times> bool) list \<Rightarrow> (lockline, unit sync_result) outcome" where
  "cellSyncRwmInitialize ea ptr_buffer buffer_size tag answers =
     (if \<not> line_aligned ea \<or> \<not> line_aligned ptr_buffer then Returned (Inl SYNC_ALIGN)
      else if tag > 31 then Returned (Inl SYNC_INVAL)
      else if buffer_size = 0 \<or> buffer_size > 128 then Returned (Inl SYNC_INVAL)
      else if \<not> mfc_legal_size buffer_size then Returned (Inl SYNC_INVAL)
      else llsc_loop (\<lambda>l. Store (l(1 := ptr_buffer, 0 := ucast buffer_size)) (Inr ())) answers)"

definition rwm_read_begin_decision :: "'r \<Rightarrow> lockline \<Rightarrow> (lockline, 'r + u32 \<times> u64) decision" where
  "rwm_read_begin_decision busy l =
     (let lock = rwm_read_lock l; rlock = drop_bit 16 lock; wlock = lock AND 0xFFFF
      in if wlock \<noteq> 0 then Return (Inl busy)
         else if rlock = 0xFFFF then Return (Inl busy)
         else let l' = rwm_write_lock (push_bit 16 (rlock + 1) OR wlock) l
              in Store l' (Inr (rwm_buffer l')))"

definition read_finish ::
  "memory \<Rightarrow> (lockline, sync_error + u32 \<times> u64) outcome \<Rightarrow> (lockline, u8 list sync_result) outcome" where
  "read_finish mem out =
     (case out of
        Spinning \<Rightarrow> Spinning
      | Returned (Inl e) \<Rightarrow> Returned (Inl e)
      | Returned (Inr _) \<Rightarrow> Spinning
      | Stored old new (Inl e) \<Rightarrow> Stored old new (Inl e)
      | Stored old new (Inr (sz, ea)) \<Rightarrow> Stored old new (Inr (mfc_get mem ea sz)))"

definition cellSyncRwmReadBegin ::
  "u32 \<Rightarrow> (lockline \<times> bool) list \<Rightarrow> memory \<Rightarrow> (lockline, u8 list sync_result) outcome" where
  "cellSyncRwmReadBegin tag answers mem =
     (if tag > 31 then Returned (Inl SYNC_INVAL)
      else read_finish mem (llsc_loop (keep_trying \<circ> rwm_read_begin_decision SYNC_AGAIN) answers))"

definition cellSyncRwmTryReadBegin ::
  "u32 \<Rightarrow> lockline \<times> bool \<Rightarrow> memory \<Rightarrow> (lockline, u8 list sync_result) outcome" where
  "cellSyncRwmTryReadBegin tag answer mem =
     (if tag > 31 then Returned (Inl SYNC_INVAL)
      else read_finish mem (llsc_once (Inl SYNC_AGAIN) (rwm_read_begin_decision SYNC_AGAIN) answer))"

definition rwm_read_end_decision :: "lockline \<Rightarrow> (lockline, unit sync_result) decision" where
  "rwm_read_end_decision l =
     (let lock = rwm_read_lock l; rlock = drop_bit 16 lock; wlock = lock AND 0xFFFF
      in if rlock = 0 then Return (Inl SYNC_ABORT)
         else Store (rwm_write_lock (push_bit 16 (rlock - 1) OR wlock) l) (Inr ()))"

definition cellSyncRwmReadEnd :: "(lockline \<times> bool) list \<Rightarrow> (lockline, unit sync_result) outcome" where
  "cellSyncRwmReadEnd answers = llsc_loop rwm_read_end_decision answers"

definition rwm_write_begin_decision :: "'r \<Rightarrow> lockline \<Rightarrow> (lockline, 'r + u32 \<times> u64) decision" where
  "rwm_write_begin_decision busy l =
     (let lock = rwm_read_lock l; rlock = drop_bit 16 lock; wlock = lock AND 0xFFFF
      in if rlock \<noteq> 0 \<or> wlock \<noteq> 0 then Return (Inl busy)
         else let l' = rwm_write_lock (0 OR 1) l in Store l' (Inr (rwm_buffer l')))"

definition rwm_write_end_decision :: "lockline \<Rightarrow> (lockline, unit sync_result) decision" where
  "rwm_write_end_decision l =
     (let lock = rwm_read_lock l; rlock = drop_bit 16 lock
      in Store (rwm_write_lock (push_bit 16 rlock OR 0) l) (Inr ()))"

text \<open>
  A write that took the lock transfers \<open>buffer_size\<close> bytes of the caller's buffer and releases
  the lock; the result is the memory and the line it leaves, or no result while a loop spins.
\<close>

definition write_finish ::
  "u8 list \<Rightarrow> (lockline \<times> bool) list \<Rightarrow> memory \<Rightarrow> (lockline, sync_error + u32 \<times> u64) outcome \<Rightarrow>
     (memory \<times> (lockline, unit sync_result) outcome)" where
  "write_finish bytes release mem out =
     (case out of
        Stored old new (Inr (sz, ea)) \<Rightarrow>
          (mfc_put (take (unat sz) bytes) ea mem, llsc_loop rwm_write_end_decision release)
      | Returned (Inl e) \<Rightarrow> (mem, Returned (Inl e))
      | _ \<Rightarrow> (mem, Spinning))"

definition cellSyncRwmWrite ::
  "u32 \<Rightarrow> u8 list \<Rightarrow> (lockline \<times> bool) list \<Rightarrow> (lockline \<times> bool) list \<Rightarrow> memory \<Rightarrow>
     (memory \<times> (lockline, unit sync_result) outcome)" where
  "cellSyncRwmWrite tag bytes acquire release mem =
     (if tag > 31 then (mem, Returned (Inl SYNC_INVAL))
      else write_finish bytes release mem
             (llsc_loop (keep_trying \<circ> rwm_write_begin_decision SYNC_AGAIN) acquire))"

definition cellSyncRwmTryWrite ::
  "u32 \<Rightarrow> u8 list \<Rightarrow> lockline \<times> bool \<Rightarrow> (lockline \<times> bool) list \<Rightarrow> memory \<Rightarrow>
     (memory \<times> (lockline, unit sync_result) outcome)" where
  "cellSyncRwmTryWrite tag bytes answer release mem =
     (if tag > 31 then (mem, Returned (Inl SYNC_INVAL))
      else write_finish bytes release mem
             (llsc_once (Inl SYNC_AGAIN) (rwm_write_begin_decision SYNC_AGAIN) answer))"

section \<open>The lock in terms of its halves\<close>

definition rwm_readers :: "lockline \<Rightarrow> u16" where
  "rwm_readers l = hi16 (rwm_read_lock l)"

definition rwm_writer :: "lockline \<Rightarrow> u16" where
  "rwm_writer l = lo16 (rwm_read_lock l)"

lemma lock_fields [simp]:
  "drop_bit 16 lock = (ucast (hi16 lock) :: u32)" "lock AND 0xFFFF = (ucast (lo16 lock) :: u32)"
proof -
  show "drop_bit 16 lock = (ucast (hi16 lock) :: u32)"
    by (rule bit_word_eqI) (auto simp: hi16_def bit_simps dest: bit_imp_le_length)
  have mask: "(0xFFFF :: u32) = mask 16" by (simp add: mask_eq_exp_minus_1)
  show "lock AND 0xFFFF = (ucast (lo16 lock) :: u32)"
    unfolding mask by (rule bit_word_eqI) (auto simp: lo16_def bit_simps)
qed

lemma pack16_any: "push_bit 16 x OR ucast w = pack16 (ucast (x :: u32)) w"
  unfolding pack16_def by (rule bit_word_eqI) (auto simp: bit_simps)

lemma ucast16_plus: "(ucast (x + y :: u32) :: u16) = ucast x + ucast y"
proof -
  have wrap: "(of_nat (n mod 2 ^ LENGTH(32)) :: u16) = of_nat n" for n
    by (simp only: word_of_nat_eq_iff take_bit_eq_mod) (simp add: mod_mod_cancel)
  have "(of_nat (unat (x + y)) :: u16) = of_nat (unat x) + of_nat (unat y)"
    by (simp only: unat_word_ariths(1) wrap of_nat_add)
  then show ?thesis by (simp only: of_nat_unat)
qed

lemma ucast_pm1:
  "(ucast (ucast (r :: u16) + 1 :: u32) :: u16) = r + 1" "(ucast (ucast (r :: u16) - 1 :: u32) :: u16) = r - 1"
proof -
  have r: "(ucast (ucast (r :: u16) :: u32) :: u16) = r"
    by (rule bit_word_eqI) (auto simp: bit_simps)
  show "(ucast (ucast (r :: u16) + 1 :: u32) :: u16) = r + 1" by (simp add: ucast16_plus r)
  have "(ucast (-1 :: u32) :: u16) = -1" by (rule bit_word_eqI) (auto simp: bit_simps)
  then show "(ucast (ucast (r :: u16) - 1 :: u32) :: u16) = r - 1"
    using ucast16_plus[of "ucast r" "-1"] by (simp add: r)
qed

lemma ucast16_inj: "(ucast (a :: u16) :: u32) = ucast b \<longleftrightarrow> a = (b :: u16)"
  using pack16_eq_iff[of 0 a 0 b] by (auto simp: pack16_def)

lemma ucast16_eq [simp]:
  "(ucast (r :: u16) :: u32) = 0 \<longleftrightarrow> r = 0" "(ucast (r :: u16) :: u32) = 0xFFFF \<longleftrightarrow> r = 0xFFFF"
  using ucast16_inj[of r 0] ucast16_inj[of r "0xFFFF"] by simp_all

lemma rwm_halves_write [simp]:
  "rwm_readers (rwm_write_lock (pack16 r w) l) = r" "rwm_writer (rwm_write_lock (pack16 r w) l) = w"
  by (simp_all add: rwm_readers_def rwm_writer_def)

lemma rwm_read_begin_cases:
  "rwm_read_begin_decision busy l =
     (if rwm_writer l \<noteq> 0 \<or> rwm_readers l = 0xFFFF then Return (Inl busy)
      else Store (rwm_write_lock (pack16 (rwm_readers l + 1) 0) l) (Inr (rwm_buffer l)))"
  using pack16_any[of "ucast (hi16 (rwm_read_lock l)) + 1" 0]
  by (auto simp: rwm_read_begin_decision_def Let_def rwm_readers_def rwm_writer_def ucast_pm1)

lemma rwm_read_end_cases:
  "rwm_read_end_decision l =
     (if rwm_readers l = 0 then Return (Inl SYNC_ABORT)
      else Store (rwm_write_lock (pack16 (rwm_readers l - 1) (rwm_writer l)) l) (Inr ()))"
  by (auto simp: rwm_read_end_decision_def Let_def rwm_readers_def rwm_writer_def pack16_any ucast_pm1)

lemma rwm_write_begin_cases:
  "rwm_write_begin_decision busy l =
     (if rwm_readers l \<noteq> 0 \<or> rwm_writer l \<noteq> 0 then Return (Inl busy)
      else Store (rwm_write_lock (pack16 0 1) l) (Inr (rwm_buffer l)))"
  by (auto simp: rwm_write_begin_decision_def Let_def rwm_readers_def rwm_writer_def pack16_def)

lemma rwm_write_end_cases:
  "rwm_write_end_decision l = Store (rwm_write_lock (pack16 (rwm_readers l) 0) l) (Inr ())"
  by (auto simp: rwm_write_end_decision_def Let_def rwm_readers_def pack16_def)

section \<open>Readers and writers\<close>

text \<open>
  A processor is idle, transfers the buffer to itself (with the bytes that have arrived), has a
  complete copy and has not called ReadEnd yet, or transfers its data to the buffer (with the
  offsets already written).
\<close>

datatype rwm_pc =
    RwmIdle
  | RwmCopying "nat \<Rightarrow> u8 option"
  | RwmReading "u8 list"
  | RwmWriting "u8 list" "nat set"

record rwm_system =
  rwm_line :: lockline
  rwm_mem :: memory
  rwm_pc :: "nat \<Rightarrow> rwm_pc"
  rwm_value :: "u8 list"

inductive rwm_step :: "rwm_system \<Rightarrow> rwm_system \<Rightarrow> bool" where
  read_begin: "rwm_pc s p = RwmIdle \<Longrightarrow>
    rwm_read_begin_decision SYNC_AGAIN (rwm_line s) = Store l (Inr buf) \<Longrightarrow>
    rwm_step s (s\<lparr>rwm_line := l, rwm_pc := (rwm_pc s)(p := RwmCopying (\<lambda>_. None))\<rparr>)"
| copy_byte: "rwm_pc s p = RwmCopying m \<Longrightarrow> rwm_buffer (rwm_line s) = (sz, ea) \<Longrightarrow> i < unat sz \<Longrightarrow>
    rwm_step s (s\<lparr>rwm_pc := (rwm_pc s)(p := RwmCopying (m(i \<mapsto> rwm_mem s (ea + of_nat i))))\<rparr>)"
| copy_done: "rwm_pc s p = RwmCopying m \<Longrightarrow> rwm_buffer (rwm_line s) = (sz, ea) \<Longrightarrow>
    transfer_complete (unat sz) m \<Longrightarrow>
    rwm_step s (s\<lparr>rwm_pc := (rwm_pc s)(p := RwmReading (map (the \<circ> m) [0..<unat sz]))\<rparr>)"
| read_end: "rwm_pc s p = RwmReading bytes \<Longrightarrow>
    rwm_read_end_decision (rwm_line s) = Store l (Inr ()) \<Longrightarrow>
    rwm_step s (s\<lparr>rwm_line := l, rwm_pc := (rwm_pc s)(p := RwmIdle)\<rparr>)"
| write_begin: "rwm_pc s p = RwmIdle \<Longrightarrow>
    rwm_write_begin_decision SYNC_AGAIN (rwm_line s) = Store l (Inr (sz, ea)) \<Longrightarrow> length bytes = unat sz \<Longrightarrow>
    rwm_step s (s\<lparr>rwm_line := l, rwm_pc := (rwm_pc s)(p := RwmWriting bytes {})\<rparr>)"
| put_byte: "rwm_pc s p = RwmWriting bytes w \<Longrightarrow> rwm_buffer (rwm_line s) = (sz, ea) \<Longrightarrow> i < unat sz \<Longrightarrow>
    rwm_step s (s\<lparr>rwm_mem := (rwm_mem s)(ea + of_nat i := bytes ! i),
      rwm_pc := (rwm_pc s)(p := RwmWriting bytes (insert i w))\<rparr>)"
| write_end: "rwm_pc s p = RwmWriting bytes w \<Longrightarrow> rwm_buffer (rwm_line s) = (sz, ea) \<Longrightarrow> {..<unat sz} \<subseteq> w \<Longrightarrow>
    rwm_write_end_decision (rwm_line s) = Store l (Inr ()) \<Longrightarrow>
    rwm_step s (s\<lparr>rwm_line := l, rwm_pc := (rwm_pc s)(p := RwmIdle), rwm_value := bytes\<rparr>)"

fun is_reader :: "rwm_pc \<Rightarrow> bool" where
  "is_reader (RwmCopying m) = True"
| "is_reader (RwmReading bytes) = True"
| "is_reader _ = False"

fun is_writer :: "rwm_pc \<Rightarrow> bool" where
  "is_writer (RwmWriting bytes w) = True"
| "is_writer _ = False"

definition readers :: "rwm_system \<Rightarrow> nat set" where
  "readers s = {p. is_reader (rwm_pc s p)}"

text \<open>What each processor knows, from the published value and the state of the memory.\<close>

fun pc_ok :: "u32 \<Rightarrow> u64 \<Rightarrow> rwm_system \<Rightarrow> rwm_pc \<Rightarrow> bool" where
  "pc_ok sz ea s RwmIdle \<longleftrightarrow> True"
| "pc_ok sz ea s (RwmCopying m) \<longleftrightarrow> (\<forall>i < unat sz. \<forall>b. m i = Some b \<longrightarrow> b = rwm_value s ! i)"
| "pc_ok sz ea s (RwmReading bytes) \<longleftrightarrow> bytes = rwm_value s"
| "pc_ok sz ea s (RwmWriting bytes w) \<longleftrightarrow>
     length bytes = unat sz \<and> (\<forall>i \<in> w. i < unat sz \<longrightarrow> rwm_mem s (ea + of_nat i) = bytes ! i)"

definition rwm_inv :: "u32 \<Rightarrow> u64 \<Rightarrow> rwm_system \<Rightarrow> bool" where
  "rwm_inv sz ea s \<longleftrightarrow>
     rwm_buffer (rwm_line s) = (sz, ea) \<and> length (rwm_value s) = unat sz \<and>
     finite (readers s) \<and> card (readers s) = unat (rwm_readers (rwm_line s)) \<and>
     (\<forall>p. pc_ok sz ea s (rwm_pc s p)) \<and>
     (if rwm_writer (rwm_line s) = 0
      then (\<forall>p. \<not> is_writer (rwm_pc s p)) \<and> mfc_get (rwm_mem s) ea sz = rwm_value s
      else rwm_readers (rwm_line s) = 0 \<and> (\<exists>!p. is_writer (rwm_pc s p)))"

lemma readers_upd:
  "readers (s\<lparr>rwm_line := l, rwm_pc := (rwm_pc s)(p := x)\<rparr>) =
     (if is_reader x then insert p (readers s) else readers s - {p})"
  by (auto simp: readers_def)

lemma readers_cong: "rwm_pc s = rwm_pc t \<Longrightarrow> readers s = readers t"
  by (simp add: readers_def)

lemma pc_ok_upd [simp]:
  "pc_ok sz ea (s\<lparr>rwm_line := l\<rparr>) x = pc_ok sz ea s x" "pc_ok sz ea (s\<lparr>rwm_pc := f\<rparr>) x = pc_ok sz ea s x"
  by (cases x; simp)+

text \<open>The two shapes of a good state: no writer and an intact buffer, or one writer alone.\<close>

lemma rwm_invI_free:
  "rwm_buffer (rwm_line s) = (sz, ea) \<Longrightarrow> length (rwm_value s) = unat sz \<Longrightarrow>
   finite (readers s) \<Longrightarrow> card (readers s) = unat (rwm_readers (rwm_line s)) \<Longrightarrow>
   (\<And>p. pc_ok sz ea s (rwm_pc s p)) \<Longrightarrow> rwm_writer (rwm_line s) = 0 \<Longrightarrow>
   (\<And>p. \<not> is_writer (rwm_pc s p)) \<Longrightarrow> mfc_get (rwm_mem s) ea sz = rwm_value s \<Longrightarrow> rwm_inv sz ea s"
  by (simp add: rwm_inv_def)

lemma rwm_inv_basic:
  assumes "rwm_inv sz ea s"
  shows "rwm_buffer (rwm_line s) = (sz, ea)" "length (rwm_value s) = unat sz" "finite (readers s)"
    "card (readers s) = unat (rwm_readers (rwm_line s))" "pc_ok sz ea s (rwm_pc s p)"
  using assms by (simp_all add: rwm_inv_def)

lemma rwm_inv_free:
  assumes "rwm_inv sz ea s" "rwm_writer (rwm_line s) = 0"
  shows "\<not> is_writer (rwm_pc s p)" "mfc_get (rwm_mem s) ea sz = rwm_value s"
  using assms by (simp_all add: rwm_inv_def)

lemma buffer_offsets:
  "i < unat (sz :: u32) \<Longrightarrow> j < unat sz \<Longrightarrow> (of_nat i :: u64) = of_nat j \<longleftrightarrow> i = j"
  using unat_u32_less[of sz] buffer_addresses[of i j 0] by simp

text \<open>A reader keeps the writers out, and a writer everybody else.\<close>

lemma rwm_inv_reader:
  assumes "rwm_inv sz ea s" "is_reader (rwm_pc s p)"
  shows "rwm_readers (rwm_line s) \<noteq> 0 \<and> rwm_writer (rwm_line s) = 0"
proof -
  have "p \<in> readers s" using assms(2) by (simp add: readers_def)
  then have "card (readers s) \<noteq> 0" using rwm_inv_basic(3)[OF assms(1)] by auto
  then show ?thesis using assms(1) by (auto simp: rwm_inv_def split: if_splits)
qed

lemma rwm_inv_writer:
  assumes "rwm_inv sz ea s" "is_writer (rwm_pc s p)"
  shows "rwm_writer (rwm_line s) \<noteq> 0 \<and> rwm_readers (rwm_line s) = 0 \<and> readers s = {} \<and>
    (\<forall>q. is_writer (rwm_pc s q) \<longrightarrow> q = p)"
  using assms unfolding rwm_inv_def by (auto split: if_splits)

lemma rwm_writer_alone:
  assumes "rwm_inv sz ea s" "is_writer (rwm_pc s p)" "q \<noteq> p"
  shows "rwm_pc s q = RwmIdle"
proof -
  have "\<not> is_reader (rwm_pc s q)" "\<not> is_writer (rwm_pc s q)"
    using rwm_inv_writer[OF assms(1,2)] assms(3) by (auto simp: readers_def)
  then show ?thesis by (cases "rwm_pc s q") auto
qed

lemma succ_u16: "(r :: u16) \<noteq> 0xFFFF \<Longrightarrow> unat (r + 1) = Suc (unat r)"
proof -
  assume "r \<noteq> 0xFFFF"
  moreover have "(0xFFFF :: u16) = - 1" by simp
  ultimately have "r \<noteq> - 1" by metis
  then have "1 + r \<noteq> 0" by (simp add: add_eq_0_iff)
  then show ?thesis by (metis unatSuc add.commute)
qed

lemma rwm_step_inv: "rwm_step s t \<Longrightarrow> rwm_inv sz ea s \<Longrightarrow> rwm_inv sz ea t"
proof (induction rule: rwm_step.induct)
  case (read_begin s p l buf)
  note inv = rwm_inv_basic[OF read_begin(3)]
  have p: "p \<notin> readers s" using read_begin(1) by (simp add: readers_def)
  have l: "rwm_writer (rwm_line s) = 0" "rwm_readers (rwm_line s) \<noteq> 0xFFFF"
    "l = rwm_write_lock (pack16 (rwm_readers (rwm_line s) + 1) 0) (rwm_line s)"
    using read_begin(2) by (auto simp: rwm_read_begin_cases split: if_splits)
  note free = rwm_inv_free[OF read_begin(3) l(1)]
  show ?case
  proof (rule rwm_invI_free)
    show "card (readers (s\<lparr>rwm_line := l, rwm_pc := (rwm_pc s)(p := RwmCopying (\<lambda>_. None))\<rparr>)) =
      unat (rwm_readers (rwm_line (s\<lparr>rwm_line := l, rwm_pc := (rwm_pc s)(p := RwmCopying (\<lambda>_. None))\<rparr>)))"
      using inv(3,4) p l(2,3) by (simp add: readers_upd succ_u16)
  qed (use inv free l in \<open>simp_all add: readers_upd\<close>)
next
  case (copy_byte s p m sz' ea' i)
  note inv = rwm_inv_basic[OF copy_byte(4)]
  have w: "rwm_writer (rwm_line s) = 0" using rwm_inv_reader[OF copy_byte(4), of p] copy_byte(1) by simp
  note free = rwm_inv_free[OF copy_byte(4) w]
  have R: "readers (s\<lparr>rwm_pc := (rwm_pc s)(p := RwmCopying m')\<rparr>) = readers s" for m'
    using copy_byte(1) by (auto simp: readers_def)
  have b: "rwm_mem s (ea + of_nat i) = rwm_value s ! i"
    using copy_byte(2,3) inv(1) mfc_get_nth[OF free(2), of i] by simp
  have m: "pc_ok sz ea s (RwmCopying m)" using inv(5)[of p] copy_byte(1) by simp
  show ?case
    by (rule rwm_invI_free) (use inv free R b m w copy_byte(2) in simp_all)
next
  case (copy_done s p m sz' ea')
  note inv = rwm_inv_basic[OF copy_done(4)]
  have w: "rwm_writer (rwm_line s) = 0" using rwm_inv_reader[OF copy_done(4), of p] copy_done(1) by simp
  note free = rwm_inv_free[OF copy_done(4) w]
  have R: "readers (s\<lparr>rwm_pc := (rwm_pc s)(p := RwmReading b)\<rparr>) = readers s" for b
    using copy_done(1) by (auto simp: readers_def)
  have m: "pc_ok sz ea s (RwmCopying m)" using inv(5)[of p] copy_done(1) by simp
  have "map (the \<circ> m) [0..<unat sz] = rwm_value s"
  proof (rule nth_equalityI)
    fix i assume "i < length (map (the \<circ> m) [0..<unat sz])"
    then show "map (the \<circ> m) [0..<unat sz] ! i = rwm_value s ! i"
      using m copy_done(2,3) inv(1) by (auto simp: transfer_complete_def)
  qed (use inv(2) in simp)
  then show ?case
    by (intro rwm_invI_free) (use inv free R w copy_done(2) in simp_all)
next
  case (read_end s p bytes l)
  note inv = rwm_inv_basic[OF read_end(3)]
  have p: "p \<in> readers s" using read_end(1) by (simp add: readers_def)
  have l: "rwm_readers (rwm_line s) \<noteq> 0" "rwm_writer (rwm_line s) = 0"
    using rwm_inv_reader[OF read_end(3), of p] read_end(1) by simp_all
  note free = rwm_inv_free[OF read_end(3) l(2)]
  have l': "l = rwm_write_lock (pack16 (rwm_readers (rwm_line s) - 1) 0) (rwm_line s)"
    using read_end(2) l by (simp add: rwm_read_end_cases)
  have n: "unat (rwm_readers (rwm_line s) - 1) = unat (rwm_readers (rwm_line s)) - 1"
    using l(1) by (simp add: unat_minus_one)
  show ?case
    by (rule rwm_invI_free) (use inv free l l' n p in \<open>simp_all add: readers_upd\<close>)
next
  case (write_begin s p l sz' ea' bytes)
  note inv = rwm_inv_basic[OF write_begin(4)]
  have l: "rwm_readers (rwm_line s) = 0" "rwm_writer (rwm_line s) = 0"
    "l = rwm_write_lock (pack16 0 1) (rwm_line s)" "rwm_buffer (rwm_line s) = (sz', ea')"
    using write_begin(2) by (auto simp: rwm_write_begin_cases split: if_splits)
  note free = rwm_inv_free[OF write_begin(4) l(2)]
  have "readers (s\<lparr>rwm_line := l, rwm_pc := (rwm_pc s)(p := RwmWriting bytes {})\<rparr>) = readers s"
    using write_begin(1) by (auto simp: readers_def)
  moreover have "\<exists>!q. is_writer (((rwm_pc s)(p := RwmWriting bytes {})) q)"
    using free(1) by (intro ex1I[of _ p]) (auto split: if_splits)
  ultimately show ?case using inv l write_begin(3) by (simp add: rwm_inv_def)
next
  case (put_byte s p bytes w sz' ea' i)
  let ?t = "s\<lparr>rwm_mem := (rwm_mem s)(ea' + of_nat i := bytes ! i), rwm_pc := (rwm_pc s)(p := RwmWriting bytes (insert i w))\<rparr>"
  note inv = rwm_inv_basic[OF put_byte(4)]
  have w: "rwm_writer (rwm_line s) \<noteq> 0" "rwm_readers (rwm_line s) = 0" "readers s = {}"
    "\<And>q. is_writer (rwm_pc s q) \<Longrightarrow> q = p"
    using rwm_inv_writer[OF put_byte(4), of p] put_byte(1) by auto
  have eq: "sz' = sz" "ea' = ea" using put_byte(2) inv(1) by auto
  note others = rwm_writer_alone[OF put_byte(4), of p]
  have "pc_ok sz ea ?t (rwm_pc ?t p)" using inv(5)[of p] put_byte(1,3) eq by (auto simp: buffer_offsets)
  then have "pc_ok sz ea ?t (rwm_pc ?t q)" for q using others[of q] put_byte(1) by (cases "q = p") simp_all
  moreover have "readers ?t = {}" using w(3) by (auto simp: readers_def)
  moreover have "\<exists>!q. is_writer (rwm_pc ?t q)" using w(4) by (intro ex1I[of _ p]) (auto split: if_splits)
  ultimately show ?case using inv w by (simp add: rwm_inv_def)
next
  case (write_end s p bytes w sz' ea' l)
  let ?t = "s\<lparr>rwm_line := l, rwm_pc := (rwm_pc s)(p := RwmIdle), rwm_value := bytes\<rparr>"
  note inv = rwm_inv_basic[OF write_end(5)]
  have w: "rwm_writer (rwm_line s) \<noteq> 0" "rwm_readers (rwm_line s) = 0" "readers s = {}"
    "\<And>q. is_writer (rwm_pc s q) \<Longrightarrow> q = p"
    using rwm_inv_writer[OF write_end(5), of p] write_end(1) by auto
  have eq: "sz' = sz" "ea' = ea" using write_end(2) inv(1) by auto
  have idle: "rwm_pc ?t q = RwmIdle" for q
    using rwm_writer_alone[OF write_end(5), of p q] write_end(1) by (cases "q = p") simp_all
  have ok: "length bytes = unat sz" "\<forall>i \<in> w. i < unat sz \<longrightarrow> rwm_mem s (ea + of_nat i) = bytes ! i"
    using inv(5)[of p] write_end(1) by simp_all
  then have "mfc_get (rwm_mem s) ea sz = bytes"
    using write_end(3) eq by (intro mfc_get_eqI) auto
  moreover have "readers ?t = {}" unfolding readers_def using idle by simp
  moreover have "rwm_readers l = 0" "rwm_writer l = 0" "rwm_buffer l = (sz, ea)"
    using write_end(4) inv(1) w(2) by (auto simp: rwm_write_end_cases)
  moreover have "pc_ok sz ea ?t (rwm_pc ?t q)" "\<not> is_writer (rwm_pc ?t q)" for q
    by (simp_all only: idle pc_ok.simps is_writer.simps not_False_eq_True)
  ultimately show ?case using ok by (intro rwm_invI_free) simp_all
qed


text \<open>A freshly initialised lock over a buffer with any contents is a good start.\<close>

definition rwm_start :: "lockline \<Rightarrow> memory \<Rightarrow> rwm_system" where
  "rwm_start l mem = \<lparr>rwm_line = l, rwm_mem = mem, rwm_pc = (\<lambda>_. RwmIdle),
     rwm_value = mfc_get mem (snd (rwm_buffer l)) (fst (rwm_buffer l))\<rparr>"

lemma rwm_initialized:
  assumes "cellSyncRwmInitialize ea ptr sz tag answers = Stored old l (Inr ())"
  shows "rwm_read_lock l = 0 \<and> rwm_buffer l = (sz, ptr)"
proof -
  have l: "l = old(1 := ptr, 0 := ucast sz)"
    using assms llsc_loop_Stored by (fastforce simp: cellSyncRwmInitialize_def split: if_splits)
  have "ucast (drop_bit 32 (ucast sz :: u64)) = (0 :: u32)"
    by (rule bit_word_eqI) (auto simp: bit_simps dest: bit_imp_le_length)
  moreover have "ucast ((ucast sz :: u64) AND 0xFFFFFFFF) = sz"
    unfolding low_mask by (rule bit_word_eqI) (auto simp: bit_simps)
  ultimately show ?thesis by (simp add: l rwm_read_lock_def rwm_buffer_def)
qed

lemma rwm_start_inv:
  assumes "cellSyncRwmInitialize ea ptr sz tag answers = Stored old l (Inr ())"
  shows "rwm_inv sz ptr (rwm_start l mem)"
proof -
  note l = rwm_initialized[OF assms]
  have "readers (rwm_start l mem) = {}" by (simp add: readers_def rwm_start_def)
  then show ?thesis
    using l by (intro rwm_invI_free) (simp_all add: rwm_start_def rwm_readers_def rwm_writer_def)
qed

lemma rwm_reachable_inv:
  assumes "cellSyncRwmInitialize ea ptr sz tag answers = Stored old l (Inr ())"
    and "rwm_step\<^sup>*\<^sup>* (rwm_start l mem) s"
  shows "rwm_inv sz ptr s"
  using assms(2) by (induction rule: rtranclp_induct) (auto intro: rwm_start_inv[OF assms(1)] rwm_step_inv)

section \<open>One processor's view\<close>

lemma read_finish_Stored:
  "read_finish mem out = Stored old new (Inr bytes) \<Longrightarrow>
   \<exists>sz ea. out = Stored old new (Inr (sz, ea)) \<and> bytes = mfc_get mem ea sz"
  by (auto simp: read_finish_def split: outcome.splits sum.splits)

lemma rwm_read_result:
  assumes "cellSyncRwmReadBegin tag answers mem = Stored old new (Inr bytes)"
  shows "bytes = mfc_get mem (snd (rwm_buffer old)) (fst (rwm_buffer old)) \<and> rwm_writer old = 0"
  using assms
  by (auto simp: cellSyncRwmReadBegin_def rwm_read_begin_cases split: if_splits
      dest!: read_finish_Stored llsc_loop_Stored keep_trying_Store)

lemma rwm_write_result:
  assumes "cellSyncRwmWrite tag bytes acquire release mem = (mem', Stored old new (Inr ()))"
  shows "\<exists>old' sz ea. rwm_buffer old' = (sz, ea) \<and> rwm_writer old' = 0 \<and> rwm_readers old' = 0 \<and>
     mem' = mfc_put (take (unat sz) bytes) ea mem \<and>
     rwm_writer new = 0 \<and> rwm_readers new = rwm_readers old \<and> rwm_buffer new = rwm_buffer old"
  using assms
  by (auto simp: cellSyncRwmWrite_def write_finish_def rwm_write_begin_cases rwm_write_end_cases
      split: if_splits outcome.splits sum.splits prod.splits dest!: llsc_loop_Stored keep_trying_Store) metis

end
