(* ===== verification/Sync_Queue.thy ===== *)
theory Sync_Queue
  imports Sync_Base
begin

text \<open>
  \<open>sdk/libsync/src/queue.c\<close> and the head accessors of \<open>sdk/include-spu/cell/sync/queue_types.h\<close>:
  the bounded ring buffer.  The head double word packs a reader flag, the write index (24 bits), a
  writer flag and the number of elements.  A push or pop takes its flag under one reservation,
  transfers the element while pushes and pops of others go on, and commits under a second one.
\<close>

section \<open>The head word\<close>

definition queue_get_rlock :: "u64 \<Rightarrow> u8" where
  "queue_get_rlock head = ucast (drop_bit 56 head)"

definition queue_get_index :: "u64 \<Rightarrow> u32" where
  "queue_get_index head = ucast (drop_bit 32 head AND 0xFFFFFF)"

definition queue_get_wlock :: "u64 \<Rightarrow> u8" where
  "queue_get_wlock head = ucast (drop_bit 24 head AND 0xFF)"

definition queue_get_size :: "u64 \<Rightarrow> u32" where
  "queue_get_size head = ucast (head AND 0xFFFFFF)"

definition queue_make_head :: "u8 \<Rightarrow> u32 \<Rightarrow> u8 \<Rightarrow> u32 \<Rightarrow> u64" where
  "queue_make_head rlock index wlock sz =
     push_bit 56 (ucast rlock) OR push_bit 32 (ucast (index AND 0xFFFFFF))
       OR push_bit 24 (ucast wlock) OR ucast (sz AND 0xFFFFFF)"

lemma head_masks: "(0xFFFFFF :: u64) = mask 24" "(0xFF :: u64) = mask 8" "(0xFFFFFF :: u32) = mask 24"
  by (simp_all add: mask_eq_exp_minus_1)

lemma queue_head_fields [simp]:
  "queue_get_rlock (queue_make_head r i w s) = r"
  "queue_get_index (queue_make_head r i w s) = i AND 0xFFFFFF"
  "queue_get_wlock (queue_make_head r i w s) = w"
  "queue_get_size (queue_make_head r i w s) = s AND 0xFFFFFF"
  unfolding queue_get_rlock_def queue_get_index_def queue_get_wlock_def queue_get_size_def
    queue_make_head_def head_masks
  by (rule bit_word_eqI; auto simp: bit_simps dest: bit_imp_le_length)+

lemma queue_head_zero [simp]:
  "queue_get_rlock 0 = 0" "queue_get_index 0 = 0" "queue_get_wlock 0 = 0" "queue_get_size 0 = 0"
  by (simp_all add: queue_get_rlock_def queue_get_index_def queue_get_wlock_def queue_get_size_def)

section \<open>The descriptor\<close>

definition read_depth :: "lockline \<Rightarrow> u32" where
  "read_depth l = ucast (l 1)"

definition read_bsize :: "lockline \<Rightarrow> u32" where
  "read_bsize l = ucast (drop_bit 32 (l 1))"

definition read_buffer_ea :: "lockline \<Rightarrow> u64" where
  "read_buffer_ea l = l 2"

definition queue_init_decision ::
  "u64 \<Rightarrow> u32 \<Rightarrow> u32 \<Rightarrow> u32 \<Rightarrow> lockline \<Rightarrow> (lockline, unit sync_result) decision" where
  "queue_init_decision ptr_buffer buffer_size depth tag l =
     Store (l(0 := 0, 1 := push_bit 32 (ucast buffer_size) OR ucast depth, 2 := ptr_buffer, 3 := ucast tag))
       (Inr ())"

definition cellSyncQueueInitialize ::
  "u64 \<Rightarrow> u64 \<Rightarrow> u32 \<Rightarrow> u32 \<Rightarrow> u32 \<Rightarrow> (lockline \<times> bool) list \<Rightarrow> (lockline, unit sync_result) outcome" where
  "cellSyncQueueInitialize ea ptr_buffer buffer_size depth tag answers =
     (if \<not> line_aligned ea \<or> \<not> line_aligned ptr_buffer then Returned (Inl SYNC_ALIGN)
      else if tag > 31 then Returned (Inl SYNC_INVAL)
      else if depth = 0 \<or> depth > 0xFFFFFF then Returned (Inl SYNC_INVAL)
      else if buffer_size > 128 then Returned (Inl SYNC_INVAL)
      else if \<not> mfc_legal_size buffer_size then Returned (Inl SYNC_INVAL)
      else llsc_loop (queue_init_decision ptr_buffer buffer_size depth tag) answers)"

section \<open>The reservations of push and pop\<close>

definition slot_ea :: "lockline \<Rightarrow> u32 \<Rightarrow> u64" where
  "slot_ea l i = read_buffer_ea l + ucast (i mod read_depth l) * ucast (read_bsize l)"

definition push_begin_decision :: "'e \<Rightarrow> lockline \<Rightarrow> (lockline, 'e + u64 \<times> u32) decision" where
  "push_begin_decision busy l =
     (let head = l 0; rlock = queue_get_rlock head; index = queue_get_index head;
          wlock = queue_get_wlock head; sz = queue_get_size head
      in if sz \<ge> read_depth l then Return (Inl busy)
         else if wlock \<noteq> 0 then Return (Inl busy)
         else Store (l(0 := queue_make_head rlock index 1 sz)) (Inr (slot_ea l index, read_bsize l)))"

definition push_commit_decision :: "lockline \<Rightarrow> (lockline, unit sync_result) decision" where
  "push_commit_decision l =
     (let head = l 0; rlock = queue_get_rlock head; index = queue_get_index head; sz = queue_get_size head
      in Store (l(0 := queue_make_head rlock (index + 1) 0 (sz + 1))) (Inr ()))"

definition pop_begin_decision :: "'e \<Rightarrow> lockline \<Rightarrow> (lockline, 'e + u64 \<times> u32) decision" where
  "pop_begin_decision busy l =
     (let head = l 0; rlock = queue_get_rlock head; index = queue_get_index head;
          wlock = queue_get_wlock head; sz = queue_get_size head
      in if sz = 0 then Return (Inl busy)
         else if rlock \<noteq> 0 then Return (Inl busy)
         else Store (l(0 := queue_make_head 1 index wlock sz)) (Inr (slot_ea l (index - sz), read_bsize l)))"

definition pop_commit_decision :: "lockline \<Rightarrow> (lockline, unit sync_result) decision" where
  "pop_commit_decision l =
     (let head = l 0; index = queue_get_index head; wlock = queue_get_wlock head; sz = queue_get_size head
      in Store (l(0 := queue_make_head 0 index wlock (sz - 1))) (Inr ()))"

definition peek_commit_decision :: "lockline \<Rightarrow> (lockline, unit sync_result) decision" where
  "peek_commit_decision l =
     (let head = l 0; index = queue_get_index head; wlock = queue_get_wlock head; sz = queue_get_size head
      in Store (l(0 := queue_make_head 0 index wlock sz)) (Inr ()))"

section \<open>The operations\<close>

text \<open>
  The second half of a push: the transfer of the caller's element and the commit.  The result
  is the memory and the outcome of the commit loop.
\<close>

definition push_finish ::
  "u8 list \<Rightarrow> (lockline \<times> bool) list \<Rightarrow> memory \<Rightarrow> (lockline, sync_error + u64 \<times> u32) outcome \<Rightarrow>
     memory \<times> (lockline, unit sync_result) outcome" where
  "push_finish buf commit mem out =
     (case out of
        Stored old new (Inr (slot, sz)) \<Rightarrow>
          (mfc_put (take (unat sz) buf) slot mem, llsc_loop push_commit_decision commit)
      | Returned (Inl e) \<Rightarrow> (mem, Returned (Inl e))
      | _ \<Rightarrow> (mem, Spinning))"

definition cellSyncQueuePush ::
  "u32 \<Rightarrow> u8 list \<Rightarrow> (lockline \<times> bool) list \<Rightarrow> (lockline \<times> bool) list \<Rightarrow> memory \<Rightarrow>
     memory \<times> (lockline, unit sync_result) outcome" where
  "cellSyncQueuePush tag buf begin_answers commit mem =
     (if tag > 31 then (mem, Returned (Inl SYNC_INVAL))
      else push_finish buf commit mem (llsc_loop (keep_trying \<circ> push_begin_decision SYNC_AGAIN) begin_answers))"

definition cellSyncQueueTryPush ::
  "u32 \<Rightarrow> u8 list \<Rightarrow> lockline \<times> bool \<Rightarrow> (lockline \<times> bool) list \<Rightarrow> memory \<Rightarrow>
     memory \<times> (lockline, unit sync_result) outcome" where
  "cellSyncQueueTryPush tag buf answer commit mem =
     (if tag > 31 then (mem, Returned (Inl SYNC_INVAL))
      else push_finish buf commit mem (llsc_once (Inl SYNC_AGAIN) (push_begin_decision SYNC_AGAIN) answer))"

text \<open>The second half of a pop or a peek: the transfer to the caller, then the commit of each.\<close>

definition pop_finish ::
  "(lockline \<Rightarrow> (lockline, unit sync_result) decision) \<Rightarrow> (lockline \<times> bool) list \<Rightarrow> memory \<Rightarrow>
     (lockline, sync_error + u64 \<times> u32) outcome \<Rightarrow> u8 list option \<times> (lockline, unit sync_result) outcome" where
  "pop_finish commit_decision commit mem out =
     (case out of
        Stored old new (Inr (slot, sz)) \<Rightarrow> (Some (mfc_get mem slot sz), llsc_loop commit_decision commit)
      | Returned (Inl e) \<Rightarrow> (None, Returned (Inl e))
      | _ \<Rightarrow> (None, Spinning))"

definition cellSyncQueuePop ::
  "u32 \<Rightarrow> (lockline \<times> bool) list \<Rightarrow> (lockline \<times> bool) list \<Rightarrow> memory \<Rightarrow>
     u8 list option \<times> (lockline, unit sync_result) outcome" where
  "cellSyncQueuePop tag begin_answers commit mem =
     (if tag > 31 then (None, Returned (Inl SYNC_INVAL))
      else pop_finish pop_commit_decision commit mem
             (llsc_loop (keep_trying \<circ> pop_begin_decision SYNC_AGAIN) begin_answers))"

definition cellSyncQueueTryPop ::
  "u32 \<Rightarrow> lockline \<times> bool \<Rightarrow> (lockline \<times> bool) list \<Rightarrow> memory \<Rightarrow>
     u8 list option \<times> (lockline, unit sync_result) outcome" where
  "cellSyncQueueTryPop tag answer commit mem =
     (if tag > 31 then (None, Returned (Inl SYNC_INVAL))
      else pop_finish pop_commit_decision commit mem
             (llsc_once (Inl SYNC_AGAIN) (pop_begin_decision SYNC_AGAIN) answer))"

definition cellSyncQueueSize :: "lockline \<Rightarrow> u32" where
  "cellSyncQueueSize l = queue_get_size (l 0)"

definition queue_clear_decision :: "lockline \<Rightarrow> (lockline, unit sync_result) decision" where
  "queue_clear_decision l =
     (let head = l 0; rlock = queue_get_rlock head; wlock = queue_get_wlock head
      in if rlock \<noteq> 0 \<or> wlock \<noteq> 0 then Again else Store (l(0 := 0)) (Inr ()))"

definition cellSyncQueueClear :: "(lockline \<times> bool) list \<Rightarrow> (lockline, unit sync_result) outcome" where
  "cellSyncQueueClear answers = llsc_loop queue_clear_decision answers"

definition cellSyncQueuePeek ::
  "u32 \<Rightarrow> (lockline \<times> bool) list \<Rightarrow> (lockline \<times> bool) list \<Rightarrow> memory \<Rightarrow>
     u8 list option \<times> (lockline, unit sync_result) outcome" where
  "cellSyncQueuePeek tag begin_answers commit mem =
     (if tag > 31 then (None, Returned (Inl SYNC_INVAL))
      else pop_finish peek_commit_decision commit mem
             (llsc_loop (keep_trying \<circ> pop_begin_decision SYNC_AGAIN) begin_answers))"

definition cellSyncQueueTryPeek ::
  "u32 \<Rightarrow> lockline \<times> bool \<Rightarrow> (lockline \<times> bool) list \<Rightarrow> memory \<Rightarrow>
     u8 list option \<times> (lockline, unit sync_result) outcome" where
  "cellSyncQueueTryPeek tag answer commit mem =
     (if tag > 31 then (None, Returned (Inl SYNC_INVAL))
      else pop_finish peek_commit_decision commit mem
             (llsc_once (Inl SYNC_AGAIN) (pop_begin_decision SYNC_AGAIN) answer))"

section \<open>Slots\<close>

text \<open>
  The geometry of a queue: its depth, element size and buffer, and the address of byte \<open>k\<close> of
  slot \<open>r\<close>.  Distinct bytes of the ring have distinct addresses.
\<close>

definition queue_geometry :: "lockline \<Rightarrow> nat \<Rightarrow> nat \<Rightarrow> u64 \<Rightarrow> bool" where
  "queue_geometry l d b base \<longleftrightarrow> unat (read_depth l) = d \<and> unat (read_bsize l) = b \<and> read_buffer_ea l = base \<and>
     0 < d \<and> d < 2 ^ 24 \<and> b \<le> 128"

definition slot_byte :: "nat \<Rightarrow> u64 \<Rightarrow> nat \<Rightarrow> nat \<Rightarrow> u64" where
  "slot_byte b base r k = base + of_nat (r * b + k)"

definition slot_bytes :: "memory \<Rightarrow> nat \<Rightarrow> u64 \<Rightarrow> nat \<Rightarrow> u8 list" where
  "slot_bytes mem b base r = map (\<lambda>k. mem (slot_byte b base r k)) [0..<b]"

lemma geometry_head [simp]: "queue_geometry (l(0 := h)) d b base = queue_geometry l d b base"
  by (simp add: queue_geometry_def read_depth_def read_bsize_def read_buffer_ea_def)

lemma slot_offset_less: "r < d \<Longrightarrow> k < b \<Longrightarrow> b \<le> 128 \<Longrightarrow> d < 2 ^ 24 \<Longrightarrow> r * b + k < 2 ^ 64" for r k b d :: nat
proof -
  assume a: "r < d" "k < b" "b \<le> 128" "d < 2 ^ 24"
  then have "r * b \<le> 2 ^ 24 * 128" by (intro mult_mono) auto
  then show ?thesis using a by simp
qed

lemma slot_offset_inj:
  assumes "k < b" "k' < b"
  shows "r * b + k = r' * b + k' \<longleftrightarrow> r = r' \<and> k = (k' :: nat)"
proof
  assume e: "r * b + k = r' * b + k'"
  have "(r * b + k) div b = r" "(r' * b + k') div b = r'" using assms by simp_all
  with e have "r = r'" by metis
  with e show "r = r' \<and> k = k'" by simp
qed simp

lemma slot_byte_inj:
  assumes "r < d" "r' < d" "k < b" "k' < b" "b \<le> 128" "d < 2 ^ 24"
  shows "slot_byte b base r k = slot_byte b base r' k' \<longleftrightarrow> r = r' \<and> k = k'"
proof -
  have "slot_byte b base r k = slot_byte b base r' k' \<longleftrightarrow> r * b + k = r' * b + k'"
    using buffer_addresses[OF slot_offset_less[OF assms(1,3,5,6)] slot_offset_less[OF assms(2,4,5,6)], of base]
    unfolding slot_byte_def .
  then show ?thesis using slot_offset_inj[OF assms(3,4)] by simp
qed

lemma slot_ea_byte:
  assumes "queue_geometry l d b base"
  shows "slot_ea l i + of_nat k = slot_byte b base (unat i mod d) k"
proof -
  have u: "(ucast (x :: u32) :: u64) = of_nat (unat x)" for x
    by (metis unat_u64_of_u32 of_nat_unat ucast_id)
  show ?thesis
    using assms by (auto simp: slot_ea_def slot_byte_def queue_geometry_def u unat_mod algebra_simps)
qed

section \<open>The abstract queue\<close>

text \<open>
  The contract: a bounded first-in first-out queue.  A history of completed operations is legal
  when it replays on a list; \<open>fifo_run\<close> computes the contents it leaves.
\<close>

datatype queue_event = Enqueued "u8 list" | Dequeued "u8 list" | Peeked "u8 list" | Cleared

fun fifo_event :: "nat \<Rightarrow> queue_event \<Rightarrow> u8 list list \<Rightarrow> u8 list list option" where
  "fifo_event d (Enqueued x) q = (if length q < d then Some (q @ [x]) else None)"
| "fifo_event d (Dequeued x) q = (if q \<noteq> [] \<and> hd q = x then Some (tl q) else None)"
| "fifo_event d (Peeked x) q = (if q \<noteq> [] \<and> hd q = x then Some q else None)"
| "fifo_event d Cleared q = Some []"

fun fifo_run :: "nat \<Rightarrow> queue_event list \<Rightarrow> u8 list list \<Rightarrow> u8 list list option" where
  "fifo_run d [] q = Some q"
| "fifo_run d (e # es) q = (case fifo_event d e q of None \<Rightarrow> None | Some q' \<Rightarrow> fifo_run d es q')"

lemma fifo_run_append:
  "fifo_run d (es @ fs) q = (case fifo_run d es q of None \<Rightarrow> None | Some q' \<Rightarrow> fifo_run d fs q')"
  by (induction es arbitrary: q) (auto split: option.splits)

lemma fifo_run_bound: "fifo_run d es q = Some q' \<Longrightarrow> length q \<le> d \<Longrightarrow> length q' \<le> d"
proof (induction es arbitrary: q)
  case (Cons e es)
  then show ?case by (cases e) (auto split: if_splits)
qed simp

fun is_enqueue :: "queue_event \<Rightarrow> bool" where
  "is_enqueue (Enqueued x) = True"
| "is_enqueue _ = False"

section \<open>Pushers and poppers\<close>

text \<open>
  A processor is idle, transfers an element into its slot (with the offsets written so far), or
  transfers an element out of its slot (with the bytes that have arrived), for a pop or a peek.
\<close>

datatype queue_pc =
    QueueIdle
  | QueuePushing u64 "u8 list" "nat set"
  | QueuePopping bool u64 "nat \<Rightarrow> u8 option"

record queue_system =
  queue_line :: lockline
  queue_mem :: memory
  queue_pc :: "nat \<Rightarrow> queue_pc"
  queue_log :: "queue_event list"

definition popped_event :: "bool \<Rightarrow> u8 list \<Rightarrow> queue_event" where
  "popped_event peek x = (if peek then Peeked x else Dequeued x)"

definition pop_commit :: "bool \<Rightarrow> lockline \<Rightarrow> (lockline, unit sync_result) decision" where
  "pop_commit peek = (if peek then peek_commit_decision else pop_commit_decision)"

inductive queue_step :: "queue_system \<Rightarrow> queue_system \<Rightarrow> bool" where
  push_begin: "queue_pc s p = QueueIdle \<Longrightarrow>
    push_begin_decision SYNC_AGAIN (queue_line s) = Store l (Inr (slot, sz)) \<Longrightarrow> length x = unat sz \<Longrightarrow>
    queue_step s (s\<lparr>queue_line := l, queue_pc := (queue_pc s)(p := QueuePushing slot x {})\<rparr>)"
| push_byte: "queue_pc s p = QueuePushing slot x w \<Longrightarrow> i < length x \<Longrightarrow>
    queue_step s (s\<lparr>queue_mem := (queue_mem s)(slot + of_nat i := x ! i),
      queue_pc := (queue_pc s)(p := QueuePushing slot x (insert i w))\<rparr>)"
| push_commit: "queue_pc s p = QueuePushing slot x w \<Longrightarrow> {..<length x} \<subseteq> w \<Longrightarrow>
    push_commit_decision (queue_line s) = Store l (Inr ()) \<Longrightarrow>
    queue_step s (s\<lparr>queue_line := l, queue_pc := (queue_pc s)(p := QueueIdle),
      queue_log := queue_log s @ [Enqueued x]\<rparr>)"
| pop_begin: "queue_pc s p = QueueIdle \<Longrightarrow>
    pop_begin_decision SYNC_AGAIN (queue_line s) = Store l (Inr (slot, sz)) \<Longrightarrow>
    queue_step s (s\<lparr>queue_line := l, queue_pc := (queue_pc s)(p := QueuePopping peek slot (\<lambda>_. None))\<rparr>)"
| pop_byte: "queue_pc s p = QueuePopping peek slot m \<Longrightarrow> i < unat (read_bsize (queue_line s)) \<Longrightarrow>
    queue_step s (s\<lparr>queue_pc := (queue_pc s)(p := QueuePopping peek slot (m(i \<mapsto> queue_mem s (slot + of_nat i))))\<rparr>)"
| pop_commit: "queue_pc s p = QueuePopping peek slot m \<Longrightarrow> b = unat (read_bsize (queue_line s)) \<Longrightarrow>
    transfer_complete b m \<Longrightarrow> pop_commit peek (queue_line s) = Store l (Inr ()) \<Longrightarrow>
    queue_step s (s\<lparr>queue_line := l, queue_pc := (queue_pc s)(p := QueueIdle),
      queue_log := queue_log s @ [popped_event peek (map (the \<circ> m) [0..<b])]\<rparr>)"
| clear: "queue_clear_decision (queue_line s) = Store l (Inr ()) \<Longrightarrow>
    queue_step s (s\<lparr>queue_line := l, queue_log := queue_log s @ [Cleared]\<rparr>)"

fun is_pusher :: "queue_pc \<Rightarrow> bool" where
  "is_pusher (QueuePushing a x w) = True"
| "is_pusher _ = False"

fun is_popper :: "queue_pc \<Rightarrow> bool" where
  "is_popper (QueuePopping k a m) = True"
| "is_popper _ = False"

text \<open>
  The invariant is about the contents \<open>q\<close> and the number \<open>n\<close> of pushes since the last Clear: the
  write index is \<open>n\<close> modulo \<open>2 ^ 24\<close> and the elements lie in the slots \<open>n - length q, \<dots>, n - 1\<close>,
  modulo the depth.
\<close>

fun queue_pc_ok :: "nat \<Rightarrow> nat \<Rightarrow> u64 \<Rightarrow> u8 list list \<Rightarrow> nat \<Rightarrow> memory \<Rightarrow> queue_pc \<Rightarrow> bool" where
  "queue_pc_ok d b base q n mem QueueIdle \<longleftrightarrow> True"
| "queue_pc_ok d b base q n mem (QueuePushing slot x w) \<longleftrightarrow> length q < d \<and> length x = b \<and>
     (\<forall>k. slot + of_nat k = slot_byte b base (n mod d) k) \<and>
     (\<forall>k \<in> w. k < b \<longrightarrow> mem (slot_byte b base (n mod d) k) = x ! k)"
| "queue_pc_ok d b base q n mem (QueuePopping peek slot m) \<longleftrightarrow> q \<noteq> [] \<and>
     (\<forall>k. slot + of_nat k = slot_byte b base ((n - length q) mod d) k) \<and>
     (\<forall>k < b. \<forall>v. m k = Some v \<longrightarrow> v = hd q ! k)"

definition flag_ok :: "u8 \<Rightarrow> (nat \<Rightarrow> bool) \<Rightarrow> bool" where
  "flag_ok flag busy \<longleftrightarrow> (if flag = 0 then \<forall>p. \<not> busy p else \<exists>!p. busy p)"

definition contents_ok :: "nat \<Rightarrow> nat \<Rightarrow> u64 \<Rightarrow> u8 list list \<Rightarrow> nat \<Rightarrow> memory \<Rightarrow> bool" where
  "contents_ok d b base q n mem \<longleftrightarrow>
     (\<forall>j < length q. slot_bytes mem b base ((n - length q + j) mod d) = q ! j)"

definition queue_inv :: "nat \<Rightarrow> nat \<Rightarrow> u64 \<Rightarrow> u8 list list \<Rightarrow> nat \<Rightarrow> queue_system \<Rightarrow> bool" where
  "queue_inv d b base q n s \<longleftrightarrow>
     queue_geometry (queue_line s) d b base \<and>
     fifo_run d (queue_log s) [] = Some q \<and> length q \<le> n \<and>
     n \<le> length (filter is_enqueue (queue_log s)) \<and>
     unat (cellSyncQueueSize (queue_line s)) = length q \<and>
     unat (queue_get_index (queue_line s 0)) = n mod 2 ^ 24 \<and>
     flag_ok (queue_get_wlock (queue_line s 0)) (\<lambda>p. is_pusher (queue_pc s p)) \<and>
     flag_ok (queue_get_rlock (queue_line s 0)) (\<lambda>p. is_popper (queue_pc s p)) \<and>
     contents_ok d b base q n (queue_mem s) \<and>
     (\<forall>p. queue_pc_ok d b base q n (queue_mem s) (queue_pc s p))"

text \<open>The write index stays exact, or its wrap-around at \<open>2 ^ 24\<close> is invisible modulo the depth.\<close>

definition index_exact :: "nat \<Rightarrow> queue_event list \<Rightarrow> bool" where
  "index_exact d log \<longleftrightarrow> d dvd 2 ^ 24 \<or> length (filter is_enqueue log) < 2 ^ 24"

lemma index_exact_mono: "index_exact d (log @ [e]) \<Longrightarrow> index_exact d log"
  by (auto simp: index_exact_def split: if_splits)

lemma index_slot: "index_exact d log \<Longrightarrow> n \<le> length (filter is_enqueue log) \<Longrightarrow> n mod 2 ^ 24 mod d = n mod d"
  by (auto simp: index_exact_def mod_mod_cancel)

lemma front_slot:
  assumes "index_exact d log" "n \<le> length (filter is_enqueue log)" "k \<le> n" "k < 2 ^ 24"
    and i: "unat (i :: u32) = n mod 2 ^ 24" and k: "unat (s :: u32) = k"
  shows "unat (i - s) mod d = (n - k) mod d"
proof (cases "k \<le> n mod 2 ^ 24 \<and> \<not> d dvd 2 ^ 24")
  case True
  then have "n mod 2 ^ 24 = n" using assms(1,2) by (auto simp: index_exact_def)
  then show ?thesis using True i k by (simp add: unat_sub word_le_nat_alt)
next
  case False
  then have d: "d dvd 2 ^ 24"
    using assms(1,2,3) by (auto simp: index_exact_def)
  then have d32: "d dvd 2 ^ 32" using dvd_trans[OF d, of "2 ^ 32"] by (simp add: le_imp_power_dvd)
  have "uint (i - s) = (uint i - uint s) mod 2 ^ LENGTH(32)" by (simp only: uint_word_ariths)
  then have "int (unat (i - s)) = (int (unat i) - int (unat s)) mod 2 ^ LENGTH(32)"
    by (simp only: uint_nat)
  then have "int (unat (i - s)) = (int (n mod 2 ^ 24) - int k) mod 2 ^ 32"
    by (simp only: i k) simp
  moreover have "int d dvd 2 ^ 32" using d32 by (metis of_nat_dvd_iff of_nat_numeral of_nat_power)
  ultimately have "int (unat (i - s)) mod int d = (int (n mod 2 ^ 24) - int k) mod int d"
    by (simp add: mod_mod_cancel)
  also have "int (n mod 2 ^ 24) mod int d = int n mod int d"
    using mod_mod_cancel[OF d, of n] by (simp only: zmod_int[symmetric])
  then have "(int (n mod 2 ^ 24) - int k) mod int d = (int n - int k) mod int d"
    by (rule mod_diff_cong) simp
  finally have "int (unat (i - s)) mod int d = int (n - k) mod int d"
    by (simp only: of_nat_diff[OF assms(3)])
  then show ?thesis by (simp only: zmod_int[symmetric] of_nat_eq_iff)
qed

section \<open>Steps on the head word\<close>

lemma unat_mask24: "unat ((x :: u32) AND 0xFFFFFF) = unat x mod 2 ^ 24"
  using unat_and_mask[of x 24] by (simp add: head_masks)

lemma head_field_less: "unat (queue_get_index h) < 2 ^ 24" "unat (queue_get_size h) < 2 ^ 24"
proof -
  have "unat (x AND 0xFFFFFF) < 2 ^ 24" for x :: u64
    using unat_and_mask[of x 24] by (simp add: mask_eq_exp_minus_1)
  then show "unat (queue_get_index h) < 2 ^ 24" "unat (queue_get_size h) < 2 ^ 24"
    by (auto simp: queue_get_index_def queue_get_size_def unat_u32_of_u64 intro: le_less_trans[OF mod_less_eq_dividend])
qed

lemma head_field_mask [simp]:
  "queue_get_index h AND 0xFFFFFF = queue_get_index h" "queue_get_size h AND 0xFFFFFF = queue_get_size h"
  using head_field_less[of h] by (simp_all add: word_unat_eq_iff unat_mask24)

lemma head_field_succ:
  "unat ((queue_get_index h + 1) AND 0xFFFFFF) = Suc (unat (queue_get_index h)) mod 2 ^ 24"
  "unat ((queue_get_size h + 1) AND 0xFFFFFF) = Suc (unat (queue_get_size h)) mod 2 ^ 24"
  using head_field_less[of h] by (simp_all add: unat_mask24 unat_plus_small)

lemma head_size_pred:
  "queue_get_size h \<noteq> 0 \<Longrightarrow> unat ((queue_get_size h - 1) AND 0xFFFFFF) = unat (queue_get_size h) - 1"
  using head_field_less[of h] by (simp add: unat_mask24 unat_minus_one)

lemma push_begin_Store:
  assumes "push_begin_decision busy l = Store l' (Inr (slot, sz))"
  shows "queue_get_size (l 0) < read_depth l" "queue_get_wlock (l 0) = 0"
    "slot = slot_ea l (queue_get_index (l 0))" "sz = read_bsize l"
    "l' = l(0 := queue_make_head (queue_get_rlock (l 0)) (queue_get_index (l 0)) 1 (queue_get_size (l 0)))"
  using assms by (auto simp: push_begin_decision_def Let_def split: if_splits)

lemma pop_begin_Store:
  assumes "pop_begin_decision busy l = Store l' (Inr (slot, sz))"
  shows "queue_get_size (l 0) \<noteq> 0" "queue_get_rlock (l 0) = 0"
    "slot = slot_ea l (queue_get_index (l 0) - queue_get_size (l 0))" "sz = read_bsize l"
    "l' = l(0 := queue_make_head 1 (queue_get_index (l 0)) (queue_get_wlock (l 0)) (queue_get_size (l 0)))"
  using assms by (auto simp: pop_begin_decision_def Let_def split: if_splits)

section \<open>Flags and slots\<close>

lemma flag_ok_set: "flag_ok 0 (\<lambda>q. P (pc q)) \<Longrightarrow> P x \<Longrightarrow> flag_ok 1 (\<lambda>q. P ((pc(p := x)) q))"
  by (auto simp: flag_ok_def)

lemma flag_ok_clear: "flag_ok f (\<lambda>q. P (pc q)) \<Longrightarrow> P (pc p) \<Longrightarrow> \<not> P x \<Longrightarrow> flag_ok 0 (\<lambda>q. P ((pc(p := x)) q))"
  by (auto simp: flag_ok_def split: if_splits)

lemma flag_ok_same: "flag_ok f (\<lambda>q. P (pc q)) \<Longrightarrow> P (pc p) = P x \<Longrightarrow> flag_ok f (\<lambda>q. P ((pc(p := x)) q))"
proof -
  assume a: "flag_ok f (\<lambda>q. P (pc q))" "P (pc p) = P x"
  have "(\<lambda>q. P ((pc(p := x)) q)) = (\<lambda>q. P (pc q))" using a(2) by auto
  with a(1) show ?thesis by simp
qed

lemma flag_ok_unique: "flag_ok f busy \<Longrightarrow> busy p \<Longrightarrow> busy q \<Longrightarrow> p = q"
  by (auto simp: flag_ok_def split: if_splits)

lemma flag_ok_free: "flag_ok 0 busy \<Longrightarrow> \<not> busy p"
  by (simp add: flag_ok_def)

lemma other_slot: "j < length q \<Longrightarrow> length q \<le> n \<Longrightarrow> length q < d \<Longrightarrow> (n - length q + j) mod d \<noteq> n mod d"
  by (rule mod_distinct) auto

lemma slot_bytes_upd:
  assumes "r \<noteq> r'" "r < d" "r' < d" "k < b" "b \<le> 128" "d < 2 ^ 24"
  shows "slot_bytes (mem(slot_byte b base r' k := v)) b base r = slot_bytes mem b base r"
  using assms slot_byte_inj[of r d r' _ b k base] by (auto simp: slot_bytes_def)

lemma contents_ok_push:
  assumes "contents_ok d b base q n mem" "length q \<le> n" "slot_bytes mem b base (n mod d) = x"
  shows "contents_ok d b base (q @ [x]) (Suc n) mem"
  unfolding contents_ok_def
proof (intro allI impI)
  fix j assume j: "j < length (q @ [x])"
  show "slot_bytes mem b base ((Suc n - length (q @ [x]) + j) mod d) = (q @ [x]) ! j"
    using assms j by (cases "j = length q") (auto simp: contents_ok_def nth_append)
qed

lemma contents_ok_pop:
  assumes "contents_ok d b base q n mem" "q \<noteq> []" "length q \<le> n"
  shows "contents_ok d b base (tl q) n mem"
  unfolding contents_ok_def
proof (intro allI impI)
  fix j assume j: "j < length (tl q)"
  then have "slot_bytes mem b base ((n - length q + Suc j) mod d) = q ! Suc j"
    using spec[OF assms(1)[unfolded contents_ok_def], of "Suc j"] by simp
  moreover have "n - length (tl q) + j = n - length q + Suc j" using assms(2,3) by (cases q) auto
  ultimately show "slot_bytes mem b base ((n - length (tl q) + j) mod d) = tl q ! j"
    using j by (simp add: nth_tl)
qed

lemma contents_ok_front: "contents_ok d b base q n mem \<Longrightarrow> q \<noteq> [] \<Longrightarrow> slot_bytes mem b base ((n - length q) mod d) = hd q"
  by (auto simp: contents_ok_def hd_conv_nth dest: spec[of _ 0])

lemma slot_bytes_nth: "k < b \<Longrightarrow> slot_bytes mem b base r ! k = mem (slot_byte b base r k)"
  by (simp add: slot_bytes_def)

lemma queue_invD:
  assumes "queue_inv d b base q n s"
  shows "queue_geometry (queue_line s) d b base" "fifo_run d (queue_log s) [] = Some q" "length q \<le> n"
    "n \<le> length (filter is_enqueue (queue_log s))" "unat (queue_get_size (queue_line s 0)) = length q"
    "unat (queue_get_index (queue_line s 0)) = n mod 2 ^ 24"
    "flag_ok (queue_get_wlock (queue_line s 0)) (\<lambda>p. is_pusher (queue_pc s p))"
    "flag_ok (queue_get_rlock (queue_line s 0)) (\<lambda>p. is_popper (queue_pc s p))"
    "contents_ok d b base q n (queue_mem s)" "queue_pc_ok d b base q n (queue_mem s) (queue_pc s p)"
  using assms by (simp_all add: queue_inv_def cellSyncQueueSize_def)

lemma geometry_depth: "queue_geometry l d b base \<Longrightarrow> x < read_depth l \<longleftrightarrow> unat x < d"
  by (auto simp: queue_geometry_def word_less_nat_alt)

lemma geometry_bounds: "queue_geometry l d b base \<Longrightarrow> 0 < d \<and> d < 2 ^ 24 \<and> b \<le> 128 \<and> unat (read_bsize l) = b"
  by (auto simp: queue_geometry_def)

lemma fifo_run_snoc: "fifo_run d log [] = Some q \<Longrightarrow> fifo_run d (log @ [e]) [] = fifo_event d e q"
  by (simp add: fifo_run_append split: option.splits)

section \<open>The invariant is kept\<close>

lemma queue_invI:
  "queue_geometry (queue_line s) d b base \<Longrightarrow> fifo_run d (queue_log s) [] = Some q \<Longrightarrow> length q \<le> n \<Longrightarrow>
   n \<le> length (filter is_enqueue (queue_log s)) \<Longrightarrow> unat (queue_get_size (queue_line s 0)) = length q \<Longrightarrow>
   unat (queue_get_index (queue_line s 0)) = n mod 2 ^ 24 \<Longrightarrow>
   flag_ok (queue_get_wlock (queue_line s 0)) (\<lambda>p. is_pusher (queue_pc s p)) \<Longrightarrow>
   flag_ok (queue_get_rlock (queue_line s 0)) (\<lambda>p. is_popper (queue_pc s p)) \<Longrightarrow>
   contents_ok d b base q n (queue_mem s) \<Longrightarrow>
   (\<And>p. queue_pc_ok d b base q n (queue_mem s) (queue_pc s p)) \<Longrightarrow> queue_inv d b base q n s"
  by (simp add: queue_inv_def cellSyncQueueSize_def)

lemma push_begin_inv:
  assumes inv: "queue_inv d b base q n s" and ex: "index_exact d (queue_log s)"
    and idle: "queue_pc s p = QueueIdle"
    and dec: "push_begin_decision SYNC_AGAIN (queue_line s) = Store l (Inr (slot, sz))" and len: "length x = unat sz"
  shows "queue_inv d b base q n (s\<lparr>queue_line := l, queue_pc := (queue_pc s)(p := QueuePushing slot x {})\<rparr>)"
proof -
  note I = queue_invD[OF inv] and D = push_begin_Store[OF dec]
  note G = geometry_bounds[OF I(1)]
  have room: "length q < d" using D(1) I(1,5) by (simp add: geometry_depth)
  have slot: "slot + of_nat k = slot_byte b base (n mod d) k" for k
    using slot_ea_byte[OF I(1), of "queue_get_index (queue_line s 0)" k] I(6) index_slot[OF ex I(4)] D(3) by simp
  have w: "flag_ok 1 (\<lambda>q. is_pusher (((queue_pc s)(p := QueuePushing slot x {})) q))"
    using I(7) D(2) by (intro flag_ok_set) simp_all
  have r: "flag_ok (queue_get_rlock (queue_line s 0)) (\<lambda>q. is_popper (((queue_pc s)(p := QueuePushing slot x {})) q))"
    using I(8) idle by (intro flag_ok_same) simp_all
  show ?thesis
    by (rule queue_invI[where n = n]) (use I D G room slot w r len in simp_all)
qed

lemma push_byte_inv:
  assumes inv: "queue_inv d b base q n s" and pc: "queue_pc s p = QueuePushing slot x w" and i: "i < length x"
  shows "queue_inv d b base q n (s\<lparr>queue_mem := (queue_mem s)(slot + of_nat i := x ! i),
      queue_pc := (queue_pc s)(p := QueuePushing slot x (insert i w))\<rparr>)"
proof -
  note I = queue_invD[OF inv]
  note G = geometry_bounds[OF I(1)]
  have ok: "length q < d" "length x = b" "slot + of_nat k = slot_byte b base (n mod d) k"
    "k \<in> w \<Longrightarrow> k < b \<Longrightarrow> queue_mem s (slot_byte b base (n mod d) k) = x ! k" for k
    using I(10)[of p] pc by simp_all
  have fn: "flag_ok f (\<lambda>q. P (((queue_pc s)(p := QueuePushing slot x (insert i w))) q))"
    if "flag_ok f (\<lambda>q. P (queue_pc s q))" "P (QueuePushing slot x (insert i w)) = P (QueuePushing slot x w)" for f P
    using that pc by (intro flag_ok_same) simp_all
  have bytes: "slot_bytes ((queue_mem s)(slot_byte b base (n mod d) i := x ! i)) b base ((n - length q + j) mod d) =
      slot_bytes (queue_mem s) b base ((n - length q + j) mod d)" if "j < length q" for j
    using other_slot[OF that I(3) ok(1)] i ok(2) G by (intro slot_bytes_upd[where d = d]) simp_all
  have mine: "slot_byte b base (n mod d) k = slot_byte b base (n mod d) i \<longleftrightarrow> k = i" if "k < b" for k
    using slot_byte_inj[of "n mod d" d "n mod d" k b i base] that i ok(2) G by simp
  have pcs: "queue_pc_ok d b base q n ((queue_mem s)(slot_byte b base (n mod d) i := x ! i))
      (((queue_pc s)(p := QueuePushing slot x (insert i w))) p')" for p'
  proof (cases "p' = p")
    case True
    then show ?thesis using ok i mine by auto
  next
    case False
    then have "\<not> is_pusher (queue_pc s p')" using flag_ok_unique[OF I(7), of p p'] pc by auto
    then show ?thesis using False I(10)[of p'] by (cases "queue_pc s p'") simp_all
  qed
  show ?thesis
    by (rule queue_invI[where n = n]) (use I ok(3) bytes pcs fn in \<open>simp_all add: contents_ok_def\<close>)
qed

lemma push_commit_inv:
  assumes inv: "queue_inv d b base q n s" and pc: "queue_pc s p = QueuePushing slot x w" and w: "{..<length x} \<subseteq> w"
    and dec: "push_commit_decision (queue_line s) = Store l (Inr ())"
  shows "queue_inv d b base (q @ [x]) (Suc n) (s\<lparr>queue_line := l, queue_pc := (queue_pc s)(p := QueueIdle),
      queue_log := queue_log s @ [Enqueued x]\<rparr>)"
proof -
  note I = queue_invD[OF inv]
  note G = geometry_bounds[OF I(1)]
  have l: "l = (queue_line s)(0 := queue_make_head (queue_get_rlock (queue_line s 0))
      (queue_get_index (queue_line s 0) + 1) 0 (queue_get_size (queue_line s 0) + 1))"
    using dec by (simp add: push_commit_decision_def Let_def)
  have ok: "length q < d" "length x = b" "k < b \<Longrightarrow> queue_mem s (slot_byte b base (n mod d) k) = x ! k" for k
    using I(10)[of p] pc w by auto
  have "slot_bytes (queue_mem s) b base (n mod d) = x"
    using ok by (auto simp: slot_bytes_def intro!: nth_equalityI)
  note cont = contents_ok_push[OF I(9,3) this]
  have lock: "flag_ok 0 (\<lambda>q. is_pusher (((queue_pc s)(p := QueueIdle)) q))"
    using pc flag_ok_clear[where P = is_pusher and p = p and x = QueueIdle, OF I(7)] by simp
  have rlock: "flag_ok (queue_get_rlock (queue_line s 0)) (\<lambda>q. is_popper (((queue_pc s)(p := QueueIdle)) q))"
    using pc flag_ok_same[where P = is_popper and p = p and x = QueueIdle, OF I(8)] by simp
  have pcs: "queue_pc_ok d b base (q @ [x]) (Suc n) (queue_mem s) (((queue_pc s)(p := QueueIdle)) p')" for p'
  proof (cases "p' = p")
    case False
    then have "\<not> is_pusher (queue_pc s p')" using flag_ok_unique[OF I(7), of p p'] pc by auto
    then show ?thesis using False I(10)[of p'] by (cases "queue_pc s p'") simp_all
  qed simp
  have idx: "Suc (n mod 2 ^ 24) mod 2 ^ 24 = Suc n mod 2 ^ 24" by (rule mod_Suc_eq)
  have run: "fifo_run d (queue_log s @ [Enqueued x]) [] = Some (q @ [x])"
    using fifo_run_snoc[OF I(2)] ok(1) by simp
  show ?thesis
    by (rule queue_invI)
       (use I(1,3-6) l G ok(1) cont lock rlock pcs run idx in \<open>simp_all add: head_field_succ\<close>)
qed

lemma pop_begin_inv:
  assumes inv: "queue_inv d b base q n s" and ex: "index_exact d (queue_log s)"
    and idle: "queue_pc s p = QueueIdle"
    and dec: "pop_begin_decision SYNC_AGAIN (queue_line s) = Store l (Inr (slot, sz))"
  shows "queue_inv d b base q n (s\<lparr>queue_line := l, queue_pc := (queue_pc s)(p := QueuePopping peek slot (\<lambda>_. None))\<rparr>)"
proof -
  note I = queue_invD[OF inv] and D = pop_begin_Store[OF dec]
  note G = geometry_bounds[OF I(1)]
  have ne: "q \<noteq> []" using D(1) I(5) by (auto simp: unat_eq_zero)
  have "unat (queue_get_index (queue_line s 0) - queue_get_size (queue_line s 0)) mod d = (n - length q) mod d"
    using front_slot[OF ex I(4,3) _ I(6,5)] fifo_run_bound[OF I(2)] G by simp
  then have slot: "slot + of_nat k = slot_byte b base ((n - length q) mod d) k" for k
    using slot_ea_byte[OF I(1)] D(3) by simp
  have w: "flag_ok 1 (\<lambda>q. is_popper (((queue_pc s)(p := QueuePopping peek slot (\<lambda>_. None))) q))"
    using I(8) D(2) by (intro flag_ok_set) simp_all
  have r: "flag_ok (queue_get_wlock (queue_line s 0)) (\<lambda>q. is_pusher (((queue_pc s)(p := QueuePopping peek slot (\<lambda>_. None))) q))"
    using I(7) idle by (intro flag_ok_same) simp_all
  show ?thesis
    by (rule queue_invI[where n = n]) (use I D G ne slot w r in simp_all)
qed

lemma pop_byte_inv:
  assumes inv: "queue_inv d b base q n s" and pc: "queue_pc s p = QueuePopping peek slot m"
    and i: "i < unat (read_bsize (queue_line s))"
  shows "queue_inv d b base q n
    (s\<lparr>queue_pc := (queue_pc s)(p := QueuePopping peek slot (m(i \<mapsto> queue_mem s (slot + of_nat i))))\<rparr>)"
proof -
  note I = queue_invD[OF inv]
  note G = geometry_bounds[OF I(1)]
  have ok: "q \<noteq> []" "slot + of_nat k = slot_byte b base ((n - length q) mod d) k"
    "k < b \<Longrightarrow> m k = Some v \<Longrightarrow> v = hd q ! k" for k v
    using I(10)[of p] pc by simp_all
  have "queue_mem s (slot + of_nat i) = hd q ! i"
    using contents_ok_front[OF I(9) ok(1)] slot_bytes_nth[of i b "queue_mem s"] i G ok(2) by metis
  then have pcs: "queue_pc_ok d b base q n (queue_mem s)
      (QueuePopping peek slot (m(i \<mapsto> queue_mem s (slot + of_nat i))))"
    using ok by auto
  have fn: "flag_ok f (\<lambda>q. P (((queue_pc s)(p := QueuePopping peek slot m')) q))"
    if "flag_ok f (\<lambda>q. P (queue_pc s q))" "P (QueuePopping peek slot m') = P (QueuePopping peek slot m)" for f P m'
    using that pc by (intro flag_ok_same) simp_all
  show ?thesis
    by (rule queue_invI[where n = n]) (use I pcs fn in simp_all)
qed

lemma pop_commit_inv:
  assumes inv: "queue_inv d b base q n s" and pc: "queue_pc s p = QueuePopping peek slot m"
    and bs: "b' = unat (read_bsize (queue_line s))" and full: "transfer_complete b' m"
    and dec: "pop_commit peek (queue_line s) = Store l (Inr ())"
  shows "queue_inv d b base (if peek then q else tl q) n (s\<lparr>queue_line := l, queue_pc := (queue_pc s)(p := QueueIdle),
      queue_log := queue_log s @ [popped_event peek (map (the \<circ> m) [0..<b'])]\<rparr>)"
proof -
  note I = queue_invD[OF inv]
  note G = geometry_bounds[OF I(1)]
  have b': "b' = b" using bs G by simp
  have ok: "q \<noteq> []" "k < b \<Longrightarrow> m k = Some v \<Longrightarrow> v = hd q ! k" for k v
    using I(10)[of p] pc by simp_all
  have "length (hd q) = b"
    using arg_cong[OF contents_ok_front[OF I(9) ok(1)], of length] by (simp add: slot_bytes_def)
  then have x: "map (the \<circ> m) [0..<b] = hd q"
    using ok(2) full b' by (fastforce simp: transfer_complete_def intro!: nth_equalityI)
  define q' where "q' = (if peek then q else tl q)"
  let ?e = "popped_event peek (hd q)"
  have run: "fifo_run d (queue_log s @ [?e]) [] = Some q'"
    using fifo_run_snoc[OF I(2)] ok(1) by (simp add: popped_event_def q'_def)
  have enq: "\<not> is_enqueue ?e" by (simp add: popped_event_def)
  have cont: "contents_ok d b base q' n (queue_mem s)"
    using I(9) contents_ok_pop[OF I(9) ok(1) I(3)] by (simp add: q'_def)
  have len: "length q' \<le> length q" "length q' \<le> n" using I(3) by (auto simp: q'_def)
  have lock: "flag_ok 0 (\<lambda>q. is_popper (((queue_pc s)(p := QueueIdle)) q))"
    using pc flag_ok_clear[where P = is_popper and p = p and x = QueueIdle, OF I(8)] by simp
  have wlock: "flag_ok (queue_get_wlock (queue_line s 0)) (\<lambda>q. is_pusher (((queue_pc s)(p := QueueIdle)) q))"
    using pc flag_ok_same[where P = is_pusher and p = p and x = QueueIdle, OF I(7)] by simp
  have pcs: "queue_pc_ok d b base q' n (queue_mem s) (((queue_pc s)(p := QueueIdle)) p')" for p'
  proof (cases "p' = p")
    case False
    then have "\<not> is_popper (queue_pc s p')" using flag_ok_unique[OF I(8), of p p'] pc by auto
    then show ?thesis using False I(10)[of p'] len(1) by (cases "queue_pc s p'") simp_all
  qed simp
  have ne: "queue_get_size (queue_line s 0) \<noteq> 0" using I(5) ok(1) by auto
  have l: "queue_geometry l d b base" "unat (queue_get_size (l 0)) = length q'"
    "queue_get_index (l 0) = queue_get_index (queue_line s 0)" "queue_get_wlock (l 0) = queue_get_wlock (queue_line s 0)"
    "queue_get_rlock (l 0) = 0"
    using dec I(1,5) head_size_pred[OF ne]
    by (auto simp: pop_commit_def pop_commit_decision_def peek_commit_decision_def Let_def q'_def split: if_splits)
  show ?thesis unfolding b' x q'_def[symmetric]
    by (rule queue_invI) (use I(4,6) l run enq cont len lock wlock pcs in simp_all)
qed

lemma clear_inv:
  assumes inv: "queue_inv d b base q n s" and dec: "queue_clear_decision (queue_line s) = Store l (Inr ())"
  shows "queue_inv d b base [] 0 (s\<lparr>queue_line := l, queue_log := queue_log s @ [Cleared]\<rparr>)"
proof -
  note I = queue_invD[OF inv]
  have l: "l = (queue_line s)(0 := 0)" "queue_get_wlock (queue_line s 0) = 0" "queue_get_rlock (queue_line s 0) = 0"
    using dec by (auto simp: queue_clear_decision_def Let_def split: if_splits)
  have idle: "queue_pc s p = QueueIdle" for p
    using flag_ok_free[OF I(7)[unfolded l(2)], of p] flag_ok_free[OF I(8)[unfolded l(3)], of p]
    by (cases "queue_pc s p") auto
  show ?thesis
    by (rule queue_invI)
       (use I(1) l idle fifo_run_snoc[OF I(2)] in \<open>simp_all add: flag_ok_def contents_ok_def\<close>)
qed

lemma queue_step_inv:
  assumes "queue_step s t" "index_exact d (queue_log t)" "queue_inv d b base q n s"
  shows "\<exists>q n. queue_inv d b base q n t"
  using assms
proof (cases rule: queue_step.cases)
  case (push_begin p l slot sz x)
  then show ?thesis using push_begin_inv[OF assms(3), of p l slot sz x] assms(2) by auto
next
  case (push_byte p slot x w i)
  then show ?thesis using push_byte_inv[OF assms(3), of p slot x w i] by auto
next
  case (push_commit p slot x w l)
  then show ?thesis using push_commit_inv[OF assms(3), of p slot x w l] by auto
next
  case (pop_begin p l slot sz peek)
  then show ?thesis using pop_begin_inv[OF assms(3), of p l slot sz peek] assms(2) by auto
next
  case (pop_byte p peek slot m i)
  then show ?thesis using pop_byte_inv[OF assms(3), of p peek slot m i] by auto
next
  case (pop_commit p peek slot m b' l)
  then show ?thesis using pop_commit_inv[OF assms(3), of p peek slot m b' l] by blast
next
  case (clear l)
  then show ?thesis using clear_inv[OF assms(3), of l] by auto
qed

section \<open>Reachable states\<close>

definition queue_start :: "lockline \<Rightarrow> memory \<Rightarrow> queue_system" where
  "queue_start l mem = \<lparr>queue_line = l, queue_mem = mem, queue_pc = (\<lambda>_. QueueIdle), queue_log = []\<rparr>"

lemma queue_initialized:
  assumes "cellSyncQueueInitialize ea ptr sz depth tag answers = Stored old l (Inr ())"
  shows "queue_geometry l (unat depth) (unat sz) ptr \<and> l 0 = 0"
proof -
  have args: "depth \<noteq> 0" "depth \<le> 0xFFFFFF" "sz \<le> 128"
    and l: "l = old(0 := 0, 1 := push_bit 32 (ucast sz) OR ucast depth, 2 := ptr, 3 := ucast tag)"
    using assms llsc_loop_Stored[of "queue_init_decision ptr sz depth tag"]
    by (auto simp: cellSyncQueueInitialize_def queue_init_decision_def not_less split: if_splits)
  have "ucast (push_bit 32 (ucast sz) OR ucast depth :: u64) = depth"
    by (rule bit_word_eqI) (auto simp: bit_simps)
  moreover have "ucast (drop_bit 32 (push_bit 32 (ucast sz) OR ucast depth :: u64)) = sz"
    by (rule bit_word_eqI) (auto simp: bit_simps dest: bit_imp_le_length)
  ultimately show ?thesis
    using args by (simp add: l queue_geometry_def read_depth_def read_bsize_def read_buffer_ea_def
        word_le_nat_alt unat_gt_0)
qed

lemma queue_start_inv:
  assumes "cellSyncQueueInitialize ea ptr sz depth tag answers = Stored old l (Inr ())"
  shows "queue_inv (unat depth) (unat sz) ptr [] 0 (queue_start l mem)"
  using queue_initialized[OF assms]
  by (intro queue_invI) (simp_all add: queue_start_def flag_ok_def contents_ok_def)

lemma queue_step_exact: "queue_step s t \<Longrightarrow> index_exact d (queue_log t) \<Longrightarrow> index_exact d (queue_log s)"
  by (induction rule: queue_step.induct) (auto dest: index_exact_mono)

lemma queue_reachable_inv:
  assumes init: "cellSyncQueueInitialize ea ptr sz depth tag answers = Stored old l (Inr ())"
    and "queue_step\<^sup>*\<^sup>* (queue_start l mem) s" "index_exact (unat depth) (queue_log s)"
  shows "\<exists>q n. queue_inv (unat depth) (unat sz) ptr q n s"
  using assms(2,3)
proof (induction rule: rtranclp_induct)
  case base
  then show ?case using queue_start_inv[OF init] by blast
next
  case (step s t)
  then show ?case using queue_step_exact queue_step_inv by meson
qed

section \<open>A queue used by one processor at a time\<close>

text \<open>Push and pop when nobody interferes: both reservations find the line as it was left.\<close>

definition push_alone :: "u8 list \<Rightarrow> lockline \<times> memory \<Rightarrow> (lockline \<times> memory) option" where
  "push_alone buf = (\<lambda>(l, mem).
     case push_begin_decision SYNC_AGAIN l of
       Store l' _ \<Rightarrow>
         (case cellSyncQueueTryPush 0 buf (l, True) [(l', True)] mem of
            (mem', Stored _ l'' (Inr ())) \<Rightarrow> Some (l'', mem')
          | _ \<Rightarrow> None)
     | _ \<Rightarrow> None)"

definition pop_alone :: "lockline \<times> memory \<Rightarrow> (u8 list \<times> lockline \<times> memory) option" where
  "pop_alone = (\<lambda>(l, mem).
     case pop_begin_decision SYNC_AGAIN l of
       Store l' _ \<Rightarrow>
         (case cellSyncQueueTryPop 0 (l, True) [(l', True)] mem of
            (Some x, Stored _ l'' (Inr ())) \<Rightarrow> Some (x, l'', mem)
          | _ \<Rightarrow> None)
     | _ \<Rightarrow> None)"

definition queue_line_at :: "u32 \<Rightarrow> u32 \<Rightarrow> u32 \<Rightarrow> u64 \<Rightarrow> lockline" where
  "queue_line_at index depth sz ptr = (\<lambda>_. 0)(0 := queue_make_head 0 index 0 0,
     1 := push_bit 32 (ucast sz) OR ucast depth, 2 := ptr)"

end
