(* ===== verification/Sheap_Keyed.thy ===== *)
theory Sheap_Keyed
  imports Sheap_Ops Sync_Mutex Sync_Barrier Sync_Rwm Sync_Queue
begin

text \<open>
  \<open>spu/key_objects.c\<close>: New and Delete for the six keyed object types, composed from the key table, the
  heap operations and libsync's Initialize functions, as one processor runs them.  \<open>None\<close> stands for a loop
  that waits for another processor.  The synchronisation objects are words and lines of main memory of
  their own, next to the heap's memory.
\<close>

section \<open>State\<close>

record keyed_memory =
  kheap :: heap_world
  sync_words :: "u64 \<Rightarrow> u32"
  sync_lines :: "u64 \<Rightarrow> lockline"

record key_object =
  ko_ea_ksheap :: u64
  ko_key :: u32
  ko_ea :: u64

record key_buffer = key_object +
  ko_size :: u64

text \<open>What a New function returns: an error of the heap, of libsync, or no return at all after a trap.\<close>

datatype keyed_error = HeapError sheap_error | SyncError sync_error | Trapped

section \<open>The four steps\<close>

text \<open>\<open>attach\<close>: the first argument says whether the caller's record is there.  The result is 0 for the creator.\<close>

definition key_attach :: "bool \<Rightarrow> u64 \<Rightarrow> u32 \<Rightarrow> heap_world \<Rightarrow> ((keyed_error + u64) \<times> heap_world) option" where
  "key_attach obj ea_ksheap key w =
     (if \<not> obj \<or> ea_ksheap = 0 \<or> key \<ge> 256 then Some (Inl (HeapError SHEAP_INVAL), w)
      else if ea_ksheap AND 127 \<noteq> 0 then Some (Inl (HeapError SHEAP_ALIGN), w)
      else case sheap_fetch ea_ksheap w of
        None \<Rightarrow> None
      | Some w \<Rightarrow>
          if h_ea_keytable (key_header w) = 0 then Some (Inl (HeapError SHEAP_INVAL), w)
          else case sheap_key_new_object (key_header w) key w of
            None \<Rightarrow> None
          | Some (object, w) \<Rightarrow> Some (Inr object, w))"

definition key_rc_result :: "key_rc \<Rightarrow> keyed_error + unit" where
  "key_rc_result rc = (case rc of KeyOk \<Rightarrow> Inr () | KeyRc e \<Rightarrow> Inl (HeapError e) | KeyTrap \<Rightarrow> Inl Trapped)"

definition key_create :: "u64 \<Rightarrow> u32 \<Rightarrow> u64 \<Rightarrow> heap_world \<Rightarrow> ((keyed_error + u64) \<times> heap_world) option" where
  "key_create ea_ksheap key bytes w =
     (case cellSheapAllocate ea_ksheap bytes w of
        None \<Rightarrow> None
      | Some (object, w) \<Rightarrow>
          if object \<noteq> 0 then Some (Inr object, w)
          else case sheap_key_finalize_new (key_header w) key 0 w of
            None \<Rightarrow> None
          | Some (rc, w) \<Rightarrow> Some (if rc = KeyTrap then Inl Trapped else Inl (HeapError SHEAP_SHORTAGE), w))"

definition key_publish :: "u64 \<Rightarrow> u32 \<Rightarrow> u64 \<Rightarrow> unit sync_result \<Rightarrow> heap_world \<Rightarrow> ((keyed_error + unit) \<times> heap_world) option" where
  "key_publish ea_ksheap key object init_rc w =
     (case init_rc of
        Inl e \<Rightarrow>
          (case cellSheapFree ea_ksheap object w of
             None \<Rightarrow> None
           | Some (_, w) \<Rightarrow>
               (case sheap_key_finalize_new (key_header w) key 0 w of
                  None \<Rightarrow> None
                | Some (rc, w) \<Rightarrow> Some (if rc = KeyTrap then Inl Trapped else Inl (SyncError e), w)))
      | Inr _ \<Rightarrow>
          (case sheap_key_finalize_new (key_header w) key object w of
             None \<Rightarrow> None
           | Some (rc, w) \<Rightarrow> Some (key_rc_result rc, w)))"

definition key_detach :: "u64 \<Rightarrow> u32 \<Rightarrow> heap_world \<Rightarrow> heap_world option" where
  "key_detach ea_ksheap key w =
     (if ea_ksheap = 0 \<or> ea_ksheap AND 127 \<noteq> 0 \<or> key \<ge> 256 then Some w
      else case sheap_fetch ea_ksheap w of
        None \<Rightarrow> None
      | Some w \<Rightarrow>
          if h_ea_keytable (key_header w) = 0 then Some w
          else case sheap_key_delete_object (key_header w) key w of
            None \<Rightarrow> None
          | Some ((rc, object), w) \<Rightarrow>
              if rc \<noteq> KeyOk \<or> object = 0 then Some w
              else case cellSheapFree ea_ksheap object w of
                None \<Rightarrow> None
              | Some (_, w) \<Rightarrow>
                  (case sheap_key_finalize_delete (key_header w) key w of None \<Rightarrow> None | Some (_, w) \<Rightarrow> Some w))"

section \<open>The objects\<close>

text \<open>
  The frame the six New functions share: attach, and for the creator create, initialise with the heap's
  DMA tag, and publish.  The initialisation acts on the synchronisation objects' memory.
\<close>

type_synonym object_init = "u64 \<Rightarrow> u32 \<Rightarrow> keyed_memory \<Rightarrow> (unit sync_result \<times> keyed_memory) option"

definition key_object_new ::
    "bool \<Rightarrow> u64 \<Rightarrow> u32 \<Rightarrow> u64 \<Rightarrow> object_init \<Rightarrow> keyed_memory \<Rightarrow> ((keyed_error + key_object) \<times> keyed_memory) option" where
  "key_object_new obj ea_ksheap key bytes init m =
     (let found = (\<lambda>object. \<lparr>ko_ea_ksheap = ea_ksheap, ko_key = key, ko_ea = object\<rparr>) in
      case key_attach obj ea_ksheap key (kheap m) of
        None \<Rightarrow> None
      | Some (Inl e, w) \<Rightarrow> Some (Inl e, m\<lparr>kheap := w\<rparr>)
      | Some (Inr object, w) \<Rightarrow>
          if object \<noteq> 0 then Some (Inr (found object), m\<lparr>kheap := w\<rparr>)
          else (case key_create ea_ksheap key bytes w of
            None \<Rightarrow> None
          | Some (Inl e, w) \<Rightarrow> Some (Inl e, m\<lparr>kheap := w\<rparr>)
          | Some (Inr object, w) \<Rightarrow>
              (case init object (h_spu_tag1 (key_header w)) (m\<lparr>kheap := w\<rparr>) of
                 None \<Rightarrow> None
               | Some (init_rc, m) \<Rightarrow>
                   (case key_publish ea_ksheap key object init_rc (kheap m) of
                      None \<Rightarrow> None
                    | Some (Inl e, w) \<Rightarrow> Some (Inl e, m\<lparr>kheap := w\<rparr>)
                    | Some (Inr _, w) \<Rightarrow> Some (Inr (found object), m\<lparr>kheap := w\<rparr>)))))"

definition no_init :: object_init where
  "no_init object tag m = Some (Inr (), m)"

definition cellKeySheapBufferNew ::
    "bool \<Rightarrow> u64 \<Rightarrow> u32 \<Rightarrow> u64 \<Rightarrow> keyed_memory \<Rightarrow> ((keyed_error + key_buffer) \<times> keyed_memory) option" where
  "cellKeySheapBufferNew obj ea_ksheap key sz m =
     (case key_object_new obj ea_ksheap key sz no_init m of
        None \<Rightarrow> None
      | Some (Inl e, m) \<Rightarrow> Some (Inl e, m)
      | Some (Inr rec, m) \<Rightarrow> Some (Inr (key_object.extend rec \<lparr>ko_size = sz\<rparr>), m))"

definition mutex_init :: object_init where
  "mutex_init object tag m =
     Some (Inr (), case cellSyncMutexInitialize object of
       Inl _ \<Rightarrow> m
     | Inr word \<Rightarrow> m\<lparr>sync_words := (sync_words m)(object := word)\<rparr>)"

definition cellKeySheapMutexNew ::
    "bool \<Rightarrow> u64 \<Rightarrow> u32 \<Rightarrow> keyed_memory \<Rightarrow> ((keyed_error + key_object) \<times> keyed_memory) option" where
  "cellKeySheapMutexNew obj ea_ksheap key m = key_object_new obj ea_ksheap key 128 mutex_init m"

definition barrier_init :: "u16 \<Rightarrow> object_init" where
  "barrier_init participants object tag m =
     (if participants = 0 \<or> participants > 0x7fff then Some (Inl SYNC_INVAL, m)
      else case cellSyncBarrierInitialize object participants of
        Inl e \<Rightarrow> Some (Inl e, m)
      | Inr word \<Rightarrow> Some (Inr (), m\<lparr>sync_words := (sync_words m)(object := word)\<rparr>))"

definition cellKeySheapBarrierNew ::
    "bool \<Rightarrow> u64 \<Rightarrow> u32 \<Rightarrow> u16 \<Rightarrow> keyed_memory \<Rightarrow> ((keyed_error + key_object) \<times> keyed_memory) option" where
  "cellKeySheapBarrierNew obj ea_ksheap key participants m = key_object_new obj ea_ksheap key 128 (barrier_init participants) m"

text \<open>A loop on the line at \<open>object\<close>, run undisturbed.\<close>

definition line_init :: "u64 \<Rightarrow> ((lockline \<times> bool) list \<Rightarrow> (lockline, unit sync_result) outcome) \<Rightarrow> keyed_memory
    \<Rightarrow> (unit sync_result \<times> keyed_memory) option" where
  "line_init object initialize m =
     (case initialize [(sync_lines m object, True)] of
        Spinning \<Rightarrow> None
      | Returned rc \<Rightarrow> Some (rc, m)
      | Stored _ line rc \<Rightarrow> Some (rc, m\<lparr>sync_lines := (sync_lines m)(object := line)\<rparr>))"

definition queue_init :: "u32 \<Rightarrow> u32 \<Rightarrow> object_init" where
  "queue_init buffer_size depth object tag m =
     line_init object (cellSyncQueueInitialize object (object + 128) buffer_size depth tag) m"

definition cellKeySheapQueueNew ::
    "bool \<Rightarrow> u64 \<Rightarrow> u32 \<Rightarrow> u32 \<Rightarrow> u32 \<Rightarrow> keyed_memory \<Rightarrow> ((keyed_error + key_object) \<times> keyed_memory) option" where
  "cellKeySheapQueueNew obj ea_ksheap key buffer_size depth m =
     key_object_new obj ea_ksheap key (ucast (buffer_size * depth) + 128) (queue_init buffer_size depth) m"

definition rwm_init :: "u32 \<Rightarrow> object_init" where
  "rwm_init buffer_size object tag m = line_init object (cellSyncRwmInitialize object (object + 128) buffer_size tag) m"

definition cellKeySheapRwmNew ::
    "bool \<Rightarrow> u64 \<Rightarrow> u32 \<Rightarrow> u32 \<Rightarrow> keyed_memory \<Rightarrow> ((keyed_error + key_object) \<times> keyed_memory) option" where
  "cellKeySheapRwmNew obj ea_ksheap key buffer_size m =
     key_object_new obj ea_ksheap key (ucast buffer_size + 128) (rwm_init buffer_size) m"

definition semaphore_init :: "u32 \<Rightarrow> object_init" where
  "semaphore_init n object tag m = Some (Inr (), m\<lparr>sync_words := (sync_words m)(object := n)\<rparr>)"

definition cellKeySheapSemaphoreNew ::
    "bool \<Rightarrow> u64 \<Rightarrow> u32 \<Rightarrow> u32 \<Rightarrow> keyed_memory \<Rightarrow> ((keyed_error + key_object) \<times> keyed_memory) option" where
  "cellKeySheapSemaphoreNew obj ea_ksheap key n m = key_object_new obj ea_ksheap key 128 (semaphore_init n) m"

text \<open>The six Delete functions have one body; the record is absent for a null pointer.\<close>

definition key_object_delete :: "key_object option \<Rightarrow> keyed_memory \<Rightarrow> keyed_memory option" where
  "key_object_delete obj m =
     (case obj of
        None \<Rightarrow> Some m
      | Some r \<Rightarrow> map_option (\<lambda>w. m\<lparr>kheap := w\<rparr>) (key_detach (ko_ea_ksheap r) (ko_key r) (kheap m)))"


section \<open>The heap operations among keyed objects\<close>

lemma locked_op_key_header: "locked_op ea body w = Some (r, w') \<Longrightarrow> key_header w' = key_header w"
  by (auto simp: locked_op_def sheap_begin_def sheap_lock_def sheap_end_def sheap_unlock_def sheap_publish_def Let_def
      split: option.splits prod.splits decision.splits)

lemma allocate_key_header: "cellSheapAllocate ea sz w = Some (r, w') \<Longrightarrow> key_header w' = key_header w"
  by (auto simp: cellSheapAllocate_def split: if_splits dest: locked_op_key_header)

lemma free_key_header: "cellSheapFree ea ptr w = Some (r, w') \<Longrightarrow> key_header w' = key_header w"
  by (auto simp: cellSheapFree_def split: if_splits dest: locked_op_key_header)

text \<open>A keyed heap in memory, with the empty entry or the entry and the owned bytes given.\<close>

definition keyed_heap :: "heap_world \<Rightarrow> u64 \<Rightarrow> sheap_geometry \<Rightarrow> nat \<Rightarrow> nat \<Rightarrow> u32 \<Rightarrow> bool" where
  "keyed_heap w ea g D L key \<longleftrightarrow> world_heap w ea g D L \<and> h_ea_keytable (headers w ea) \<noteq> 0 \<and> unat key < 256"

abbreviation the_entry :: "heap_world \<Rightarrow> u64 \<Rightarrow> u32 \<Rightarrow> u64" where
  "the_entry w ea key \<equiv> keys w (entry_ea (headers w ea) key)"

lemma keyed_heapD:
  assumes "keyed_heap w ea g D L key"
  shows "world_heap w ea g D L" "h_ea_keytable (headers w ea) \<noteq> 0" "\<not> key \<ge> 256" "ea \<noteq> 0" "ea AND 127 = 0"
    "h_s_buffer (headers w ea) = s_buffer g"
proof -
  show w: "world_heap w ea g D L" and "h_ea_keytable (headers w ea) \<noteq> 0" using assms by (simp_all add: keyed_heap_def)
  show "ea \<noteq> 0" "ea AND 127 = 0" by (rule world_heapD(2,3)[OF w])+
  show "h_s_buffer (headers w ea) = s_buffer g" using w by (simp only: world_heap_def Let_def)
  show "\<not> key \<ge> 256" using assms by (simp add: keyed_heap_def word_le_nat_alt)
qed

text \<open>What the steps do not touch: the headers, every other key entry, the header snapshot of the key operations.\<close>

definition key_frame :: "heap_world \<Rightarrow> u64 \<Rightarrow> u32 \<Rightarrow> heap_world \<Rightarrow> bool" where
  "key_frame w ea key w' \<longleftrightarrow> headers w' = headers w \<and> (\<forall>a. a \<noteq> entry_ea (headers w ea) key \<longrightarrow> keys w' a = keys w a)
     \<and> key_header w' = headers w ea"

text \<open>
  Every step below keeps the keyed heap, leaves the frame and, but for allocation and release, the tree.
\<close>

lemma fetch_runs:
  "sheap_fetch ea w = Some (w\<lparr>key_header := headers w ea\<rparr>)"
  by (simp add: sheap_fetch_def sheap_fetch_decision_def)

lemma keyed_heap_update:
  assumes "keyed_heap w ea g D L key"
  shows "keyed_heap (w\<lparr>keys := k, key_header := h\<rparr>) ea g D L key" "keyed_heap (w\<lparr>keys := k\<rparr>) ea g D L key"
    "keyed_heap (w\<lparr>key_header := h\<rparr>) ea g D L key"
    "heap_tree (w\<lparr>keys := k, key_header := h\<rparr>) ea = heap_tree w ea" "heap_tree (w\<lparr>keys := k\<rparr>) ea = heap_tree w ea"
    "heap_tree (w\<lparr>key_header := h\<rparr>) ea = heap_tree w ea"
  using assms by (simp_all add: keyed_heap_def world_heap_def heap_tree_def memory_sized_def)

lemma attach_entry:
  assumes "keyed_heap w ea g D L key"
  shows "key_attach True ea key w =
    (case sheap_key_new_step (the_entry w ea key) (h_ea_heap (headers w ea)) of
       KeyCommit nx object \<Rightarrow> Some (Inr object, w\<lparr>keys := (keys w)(entry_ea (headers w ea) key := nx), key_header := headers w ea\<rparr>)
     | _ \<Rightarrow> None)"
  using keyed_heapD[OF assms]
  by (auto simp: key_attach_def fetch_runs sheap_key_new_object_def update_entry_def key_new_decision_def
      split: key_step.splits)

lemma attach_empty:
  assumes "keyed_heap w ea g D L key" "the_entry w ea key = 0"
  shows "key_attach True ea key w =
    Some (Inr 0, w\<lparr>keys := (keys w)(entry_ea (headers w ea) key := key_entry 1 0), key_header := headers w ea\<rparr>)"
  unfolding attach_entry[OF assms(1)] assms(2) by (simp add: sheap_key_new_step_def Let_def)

text \<open>The address of a block of the buffer can be published on a key in creation.\<close>

lemma finalize_new_commits:
  assumes "heap_shape g D L" "0 < off + bytes" "128 dvd off" "off + bytes \<le> unat (s_buffer g)" "0 < bytes"
    "unat object = unat ea_heap + off" "object \<noteq> 0"
  obtains v where "sheap_key_finalize_new_step (key_entry 1 0) object ea_heap (s_buffer g) = KeyCommit (key_entry 1 v) ()"
    "published ea_heap (s_buffer g) object v"
proof -
  have L: "unat (s_buffer g) = 128 * L" "L \<le> 2 ^ D" "D \<le> 31" using assms(1) by (simp_all add: heap_shape_def)
  have "(2::nat) ^ D \<le> 2 ^ 31" using L(3) by (intro power_increasing) simp_all
  then have small: "unat (s_buffer g) \<le> 128 * 2 ^ 31" using L(1,2) by simp
  have o: "unat (object - ea_heap) = off" using assms(6) by (simp add: unat_sub word_le_nat_alt)
  have le: "\<not> object < ea_heap" using assms(6) by (simp add: word_less_nat_alt)
  have lt: "\<not> object - ea_heap \<ge> s_buffer g" using o assms(4,5) by (simp add: word_le_nat_alt)
  have al: "(object - ea_heap) AND 127 = 0"
  proof -
    have "unat ((object - ea_heap) AND 127) = off mod 128"
      unfolding mask_numerals using o by (simp only: unat_and_mask) simp
    then show ?thesis using assms(3) by (simp add: unat_eq_zero dvd_imp_mod_0)
  qed
  have "sheap_key_finalize_new_step (key_entry 1 0) object ea_heap (s_buffer g) \<noteq> KeyOverflow"
    by (rule finalize_new_no_overflow[OF small])
  then obtain nx where nx: "sheap_key_finalize_new_step (key_entry 1 0) object ea_heap (s_buffer g) = KeyCommit nx ()"
    using le lt al assms(7) by (auto simp: sheap_key_finalize_new_step_def Let_def split: if_splits)
  from finalize_new_publishes[OF this assms(7)] obtain v where
    "nx = key_entry 1 v" "published ea_heap (s_buffer g) object v" by auto
  with nx show ?thesis using that by simp
qed

lemma finalize_new_entry:
  assumes "key_header w = headers w ea"
  shows "sheap_key_finalize_new (key_header w) key object w =
    (case sheap_key_finalize_new_step (the_entry w ea key) object (h_ea_heap (headers w ea)) (h_s_buffer (headers w ea)) of
       KeyCommit nx _ \<Rightarrow> Some (KeyOk, w\<lparr>keys := (keys w)(entry_ea (headers w ea) key := nx)\<rparr>)
     | KeyError e \<Rightarrow> Some (KeyRc e, w) | _ \<Rightarrow> Some (KeyTrap, w))"
  unfolding assms by (auto simp: sheap_key_finalize_new_def update_entry_def key_finalize_new_decision_def split: key_step.splits)

lemma finalize_cancels:
  assumes "key_header w = headers w ea" "the_entry w ea key = key_entry 1 0"
  shows "sheap_key_finalize_new (key_header w) key 0 w = Some (KeyOk, w\<lparr>keys := (keys w)(entry_ea (headers w ea) key := 0)\<rparr>)"
  unfolding finalize_new_entry[OF assms(1)] assms(2) by (simp add: sheap_key_finalize_new_step_def)

lemma owned_cong: "(\<And>n. tree_node D n \<Longrightarrow> T n = T' n) \<Longrightarrow> owned D T = owned D T'"
  by (auto simp: owned_def blocks_def)

text \<open>Allocation, with what a later release of the block restores.\<close>

definition releases :: "heap_world \<Rightarrow> u64 \<Rightarrow> sheap_geometry \<Rightarrow> nat \<Rightarrow> nat \<Rightarrow> u64 \<Rightarrow> heap_world \<Rightarrow> bool" where
  "releases w ea g D L ptr w1 \<longleftrightarrow> (\<exists>w2. cellSheapFree ea ptr w1 = Some (Inr (), w2) \<and> world_heap w2 ea g D L
     \<and> owned D (heap_tree w2 ea) = owned D (heap_tree w ea)
     \<and> headers w2 = headers w1 \<and> keys w2 = keys w1 \<and> key_header w2 = key_header w1)"

lemma allocate_then_free:
  assumes "world_heap w ea g D L"
  obtains ptr w' where "cellSheapAllocate ea sz w = Some (ptr, w')" "world_heap w' ea g D L" "headers w' = headers w"
    "keys w' = keys w" "key_header w' = key_header w"
    "ptr = 0 \<and> owned D (heap_tree w' ea) = owned D (heap_tree w ea) \<or>
     ptr \<noteq> 0 \<and> (\<exists>off bytes. bytes = ceil2 (max 128 (unat sz)) \<and> unat ptr = unat (h_ea_heap (headers w ea)) + off
       \<and> bytes dvd off \<and> off + bytes \<le> unat (s_buffer g) \<and> {off ..< off + bytes} \<inter> owned D (heap_tree w ea) = {}
       \<and> owned D (heap_tree w' ea) = owned D (heap_tree w ea) \<union> {off ..< off + bytes})
       \<and> (\<forall>w1. headers w1 = headers w' \<and> world_heap w1 ea g D L \<and> heap_tree w1 ea = heap_tree w' ea \<longrightarrow> releases w ea g D L ptr w1)"
proof -
  note W = world_heapD[OF assms]
  obtain ptr T' where r: "sheap_heap_allocate flat (heap_tree w ea) (n_nodes g) (s_root g)
    (h_ea_heap (headers w ea)) sz = (ptr, T')" by (rule prod.exhaust)
  obtain w' where w': "cellSheapAllocate ea sz w = Some (ptr, w')" "heap_tree w' ea = T'"
    "headers w' = headers w" "keys w' = keys w" "memory_sized w'"
    using allocate_refines[OF W(4,1,2,3), of sz] r by (auto simp: W(5,6))
  obtain p v where pv: "cellSheapAllocate ea sz w = Some (p, v)" "world_heap v ea g D L"
    "p = 0 \<and> owned D (heap_tree v ea) = owned D (heap_tree w ea) \<or>
     p \<noteq> 0 \<and> (\<exists>off bytes. bytes = ceil2 (max 128 (unat sz)) \<and> unat p = unat (h_ea_heap (headers w ea)) + off
       \<and> bytes dvd off \<and> off + bytes \<le> unat (s_buffer g) \<and> {off ..< off + bytes} \<inter> owned D (heap_tree w ea) = {}
       \<and> owned D (heap_tree v ea) = owned D (heap_tree w ea) \<union> {off ..< off + bytes})"
    using allocate_world[OF assms, of sz] by blast
  have e: "p = ptr" "v = w'" using pv(1) w'(1) by simp_all
  have rel: "releases w ea g D L ptr w1"
    if nz: "ptr \<noteq> 0" and w1: "headers w1 = headers w' \<and> world_heap w1 ea g D L \<and> heap_tree w1 ea = heap_tree w' ea" for w1
  proof -
    note W1 = world_heapD[of w1 ea g D L]
    obtain T2 where T2: "sheap_heap_free flat T' (n_nodes g) (s_root g) (h_ea_heap (headers w ea)) ptr = (Inr (), T2)"
      "\<forall>n. tree_node D n \<longrightarrow> T2 n = heap_tree w ea n" "heap_ok g D L T2"
      by (rule allocate_free_roundtrip[OF W(9,7,8) r nz]) blast
    obtain w2 where w2: "cellSheapFree ea ptr w1 = Some (Inr (), w2)" "heap_tree w2 ea = T2" "headers w2 = headers w1"
      "keys w2 = keys w1" "memory_sized w2"
      using free_refines[OF W1(4,1,2,3), of ptr] w1 T2(1) W1(5,6) w'(2,3) by auto
    have "world_heap w2 ea g D L"
      by (rule world_heap_keep[OF _ w2(3,5)]) (use w1 w2(2) T2(3) in auto)
    moreover have "owned D (heap_tree w2 ea) = owned D (heap_tree w ea)"
      unfolding w2(2) by (rule owned_cong) (use T2(2) in blast)
    ultimately show ?thesis using w2 free_key_header[OF w2(1)] unfolding releases_def by blast
  qed
  show ?thesis
    using that[OF w'(1) pv(2)[unfolded e] w'(3,4) allocate_key_header[OF w'(1)]] pv(3) rel unfolding e by blast
qed


section \<open>New and Delete on one key\<close>

text \<open>An initialisation leaves the heap alone and always ends.\<close>

definition init_ends :: "object_init \<Rightarrow> bool" where
  "init_ends init \<longleftrightarrow> (\<forall>object tag m. \<exists>rc m'. init object tag m = Some (rc, m') \<and> kheap m' = kheap m)"

lemma init_endsD: "init_ends init \<Longrightarrow> \<exists>rc m'. init object tag m = Some (rc, m') \<and> kheap m' = kheap m"
  by (simp add: init_ends_def)

lemma inits_end:
  "init_ends no_init" "init_ends mutex_init" "init_ends (barrier_init n)" "init_ends (queue_init b d)"
  "init_ends (rwm_init b)" "init_ends (semaphore_init c)"
  by (auto simp: init_ends_def no_init_def mutex_init_def barrier_init_def queue_init_def rwm_init_def semaphore_init_def
      line_init_def cellSyncQueueInitialize_def cellSyncRwmInitialize_def queue_init_decision_def split: sum.splits)

text \<open>The state after New on an empty key: nothing happened, or the object is published with one reference.\<close>

definition key_undone :: "heap_world \<Rightarrow> u64 \<Rightarrow> sheap_geometry \<Rightarrow> nat \<Rightarrow> nat \<Rightarrow> u32 \<Rightarrow> heap_world \<Rightarrow> bool" where
  "key_undone w ea g D L key w' \<longleftrightarrow> keyed_heap w' ea g D L key \<and> headers w' = headers w \<and> keys w' = keys w
     \<and> owned D (heap_tree w' ea) = owned D (heap_tree w ea)"

definition key_created :: "heap_world \<Rightarrow> u64 \<Rightarrow> sheap_geometry \<Rightarrow> nat \<Rightarrow> nat \<Rightarrow> u32 \<Rightarrow> u64 \<Rightarrow> u64 \<Rightarrow> heap_world \<Rightarrow> bool" where
  "key_created w ea g D L key bytes object w' \<longleftrightarrow> keyed_heap w' ea g D L key \<and> headers w' = headers w
     \<and> (\<exists>v. keys w' = (keys w)(entry_ea (headers w ea) key := key_entry 1 v)
          \<and> published (h_ea_heap (headers w ea)) (s_buffer g) object v)
     \<and> (\<exists>off n. n = ceil2 (max 128 (unat bytes)) \<and> unat object = unat (h_ea_heap (headers w ea)) + off
          \<and> off + n \<le> unat (s_buffer g) \<and> {off ..< off + n} \<inter> owned D (heap_tree w ea) = {}
          \<and> owned D (heap_tree w' ea) = owned D (heap_tree w ea) \<union> {off ..< off + n})
     \<and> (\<forall>w1. headers w1 = headers w' \<and> world_heap w1 ea g D L \<and> heap_tree w1 ea = heap_tree w' ea \<longrightarrow> releases w ea g D L object w1)"

lemma key_created_cong:
  assumes "key_created w ea g D L key bytes object w'" "keyed_heap w1 ea g D L key" "headers w1 = headers w'"
    "keys w1 = keys w'" "heap_tree w1 ea = heap_tree w' ea"
  shows "key_created w ea g D L key bytes object w1"
  using assms unfolding key_created_def by metis

lemma key_create_publish:
  assumes K: "keyed_heap w ea g D L key" and e: "the_entry w ea key = key_entry 1 0" and kh: "key_header w = headers w ea"
  obtains (no_memory) w' where "key_create ea key bytes w = Some (Inl (HeapError SHEAP_SHORTAGE), w')"
      "key_undone (w\<lparr>keys := (keys w)(entry_ea (headers w ea) key := 0)\<rparr>) ea g D L key w'"
  | (created) object w' where "key_create ea key bytes w = Some (Inr object, w')" "key_header w' = headers w ea" "object \<noteq> 0"
      "\<exists>w2. key_publish ea key object (Inr ()) w' = Some (Inr (), w2)
        \<and> key_created (w\<lparr>keys := (keys w)(entry_ea (headers w ea) key := 0)\<rparr>) ea g D L key bytes object w2"
      "\<forall>err. \<exists>w2. key_publish ea key object (Inl err) w' = Some (Inl (SyncError err), w2)
        \<and> key_undone (w\<lparr>keys := (keys w)(entry_ea (headers w ea) key := 0)\<rparr>) ea g D L key w2"
proof -
  note KD = keyed_heapD[OF K]
  let ?a = "entry_ea (headers w ea) key"
  let ?w0 = "w\<lparr>keys := (keys w)(?a := 0)\<rparr>"
  obtain ptr w' where al: "cellSheapAllocate ea bytes w = Some (ptr, w')" "world_heap w' ea g D L" "headers w' = headers w"
    "keys w' = keys w" "key_header w' = key_header w"
    "ptr = 0 \<and> owned D (heap_tree w' ea) = owned D (heap_tree w ea) \<or>
     ptr \<noteq> 0 \<and> (\<exists>off n. n = ceil2 (max 128 (unat bytes)) \<and> unat ptr = unat (h_ea_heap (headers w ea)) + off
       \<and> n dvd off \<and> off + n \<le> unat (s_buffer g) \<and> {off ..< off + n} \<inter> owned D (heap_tree w ea) = {}
       \<and> owned D (heap_tree w' ea) = owned D (heap_tree w ea) \<union> {off ..< off + n})
       \<and> (\<forall>w1. headers w1 = headers w' \<and> world_heap w1 ea g D L \<and> heap_tree w1 ea = heap_tree w' ea \<longrightarrow> releases w ea g D L ptr w1)"
    by (rule allocate_then_free[OF KD(1)])
  have kh': "key_header w' = headers w' ea" and e': "the_entry w' ea key = key_entry 1 0" using al(3-5) kh e by simp_all
  have K': "keyed_heap w' ea g D L key" using K al(2,3) by (simp add: keyed_heap_def)
  show thesis
  proof (cases "ptr = 0")
    case True
    let ?w1 = "w'\<lparr>keys := (keys w')(?a := 0)\<rparr>"
    have "key_create ea key bytes w = Some (Inl (HeapError SHEAP_SHORTAGE), ?w1)"
      using al(1,3) True finalize_cancels[OF kh' e'] by (simp add: key_create_def)
    moreover have "key_undone ?w0 ea g D L key ?w1"
      using keyed_heap_update[OF K'] keyed_heap_update[OF K] al True by (auto simp: key_undone_def)
    ultimately show thesis by (rule no_memory)
  next
    case False
    then obtain off n where on: "n = ceil2 (max 128 (unat bytes))" "unat ptr = unat (h_ea_heap (headers w ea)) + off"
       "n dvd off" "off + n \<le> unat (s_buffer g)" "{off ..< off + n} \<inter> owned D (heap_tree w ea) = {}"
       "owned D (heap_tree w' ea) = owned D (heap_tree w ea) \<union> {off ..< off + n}"
      and rel: "\<forall>w1. headers w1 = headers w' \<and> world_heap w1 ea g D L \<and> heap_tree w1 ea = heap_tree w' ea \<longrightarrow> releases w ea g D L ptr w1"
      using al(6) by auto
    have "128 dvd n" "0 < n"
    proof -
      obtain j where j: "n = 2 ^ j" using ceil2_is_power[of "max 128 (unat bytes)"] on(1) by (metis less_max_iff_disj zero_less_numeral)
      have "2 ^ 7 \<le> n" using ceil2_ge[of "max 128 (unat bytes)"] on(1) by simp
      then have "7 \<le> j" unfolding j by (subst (asm) power_increasing_iff) simp_all
      then have "(2 :: nat) ^ 7 dvd 2 ^ j" by (rule le_imp_power_dvd)
      then show "128 dvd n" "0 < n" unfolding j by simp_all
    qed
    then have d: "128 dvd off" using on(3) dvd_trans by blast
    have sh: "heap_shape g D L" using KD(1) by (simp add: world_heap_def heap_ok_def)
    obtain v where v: "sheap_key_finalize_new_step (key_entry 1 0) ptr (h_ea_heap (headers w ea)) (s_buffer g) = KeyCommit (key_entry 1 v) ()"
      "published (h_ea_heap (headers w ea)) (s_buffer g) ptr v"
      by (rule finalize_new_commits[OF sh _ d on(4) \<open>0 < n\<close> on(2) False]) (use \<open>0 < n\<close> in simp)
    have c: "key_create ea key bytes w = Some (Inr ptr, w')" using al(1) False by (simp add: key_create_def)
    have kw: "key_header w' = headers w ea" using kh' al(3) by simp
    let ?w2 = "w'\<lparr>keys := (keys w')(?a := key_entry 1 v)\<rparr>"
    have p: "key_publish ea key ptr (Inr ()) w' = Some (Inr (), ?w2)"
      using finalize_new_entry[OF kh', of key ptr] v(1) e' al(3) KD(6) by (simp add: key_publish_def key_rc_result_def)
    have cr: "key_created ?w0 ea g D L key bytes ptr ?w2"
      using keyed_heap_update[OF K'] keyed_heap_update[OF K] al(3,4) v(2) on rel
      unfolding key_created_def releases_def by auto
    have f: "\<exists>w2. key_publish ea key ptr (Inl err) w' = Some (Inl (SyncError err), w2) \<and> key_undone ?w0 ea g D L key w2" for err
    proof -
      have "releases w ea g D L ptr w'" using rel al(2) by blast
      then obtain w3 where w3: "cellSheapFree ea ptr w' = Some (Inr (), w3)" "world_heap w3 ea g D L"
        "owned D (heap_tree w3 ea) = owned D (heap_tree w ea)" "headers w3 = headers w'" "keys w3 = keys w'"
        "key_header w3 = key_header w'" unfolding releases_def by blast
      have K3: "keyed_heap w3 ea g D L key" using K w3(2,4) al(3) by (simp add: keyed_heap_def)
      have h3: "key_header w3 = headers w3 ea" "the_entry w3 ea key = key_entry 1 0" using w3(4-6) kh' e' by simp_all
      have "key_publish ea key ptr (Inl err) w' = Some (Inl (SyncError err), w3\<lparr>keys := (keys w3)(?a := 0)\<rparr>)"
        using w3(1,4) al(3) finalize_cancels[OF h3] by (simp add: key_publish_def)
      moreover have "key_undone ?w0 ea g D L key (w3\<lparr>keys := (keys w3)(?a := 0)\<rparr>)"
        using keyed_heap_update[OF K3] keyed_heap_update[OF K] w3(3-5) al(3,4) by (simp add: key_undone_def)
      ultimately show ?thesis by blast
    qed
    show thesis by (rule created[OF c kw False]) (use p cr f in blast)+
  qed
qed


lemma new_on_empty_key:
  assumes K: "keyed_heap (kheap m) ea g D L key" and e: "the_entry (kheap m) ea key = 0" and ends: "init_ends init"
  obtains (failed) err m' where "key_object_new True ea key bytes init m = Some (Inl err, m')" "err \<noteq> Trapped"
      "key_undone (kheap m) ea g D L key (kheap m')"
      "err = HeapError SHEAP_SHORTAGE \<or> (\<exists>object tag x s x'. err = SyncError s \<and> init object tag x = Some (Inl s, x'))"
  | (made) object m' where "key_object_new True ea key bytes init m = Some (Inr \<lparr>ko_ea_ksheap = ea, ko_key = key, ko_ea = object\<rparr>, m')"
      "key_created (kheap m) ea g D L key bytes object (kheap m')"
proof -
  let ?w = "kheap m" and ?a = "entry_ea (headers (kheap m) ea) key"
  let ?w1 = "?w\<lparr>keys := (keys ?w)(?a := key_entry 1 0), key_header := headers ?w ea\<rparr>"
  note att = attach_empty[OF K e]
  have K1: "keyed_heap ?w1 ea g D L key" by (rule keyed_heap_update(1)[OF K])
  have same: "heap_tree (?w1\<lparr>keys := (keys ?w1)(?a := 0)\<rparr>) ea = heap_tree ?w ea"
    "headers (?w1\<lparr>keys := (keys ?w1)(?a := 0)\<rparr>) = headers ?w" "keys (?w1\<lparr>keys := (keys ?w1)(?a := 0)\<rparr>) = keys ?w"
    using e by (simp_all add: heap_tree_def fun_upd_idem)
  have undo: "key_undone (?w1\<lparr>keys := (keys ?w1)(?a := 0)\<rparr>) ea g D L key x \<Longrightarrow> key_undone ?w ea g D L key x"
    "key_created (?w1\<lparr>keys := (keys ?w1)(?a := 0)\<rparr>) ea g D L key bytes object x \<Longrightarrow> key_created ?w ea g D L key bytes object x" for x object
    unfolding key_undone_def key_created_def releases_def same by blast+
  have e1: "the_entry ?w1 ea key = key_entry 1 0" "key_header ?w1 = headers ?w1 ea" by simp_all
  from K1 e1 show thesis
  proof (cases rule: key_create_publish[where bytes = bytes])
    case (no_memory w')
    show thesis
    proof (rule failed[where err = "HeapError SHEAP_SHORTAGE" and m' = "m\<lparr>kheap := w'\<rparr>"])
      show "key_object_new True ea key bytes init m = Some (Inl (HeapError SHEAP_SHORTAGE), m\<lparr>kheap := w'\<rparr>)"
        using att no_memory(1) by (simp add: key_object_new_def)
      show "key_undone ?w ea g D L key (kheap (m\<lparr>kheap := w'\<rparr>))" using undo(1) no_memory(2) by simp
    qed simp_all
  next
    case (created object w')
    obtain rc mi where mi: "init object (h_spu_tag1 (key_header w')) (m\<lparr>kheap := w'\<rparr>) = Some (rc, mi)" "kheap mi = w'"
      using init_endsD[OF ends, of object "h_spu_tag1 (key_header w')" "m\<lparr>kheap := w'\<rparr>"] by auto
    show thesis
    proof (cases rc)
      case (Inl s)
      obtain w2 where w2: "key_publish ea key object (Inl s) w' = Some (Inl (SyncError s), w2)"
        "key_undone (?w1\<lparr>keys := (keys ?w1)(?a := 0)\<rparr>) ea g D L key w2" using created(5) by auto
      show thesis
      proof (rule failed[where err = "SyncError s" and m' = "mi\<lparr>kheap := w2\<rparr>"])
        show "key_object_new True ea key bytes init m = Some (Inl (SyncError s), mi\<lparr>kheap := w2\<rparr>)"
          using att created(1,3) mi w2(1) Inl by (simp add: key_object_new_def)
        show "key_undone ?w ea g D L key (kheap (mi\<lparr>kheap := w2\<rparr>))" using undo(1) w2(2) by simp
      qed (use mi Inl in auto)
    next
      case (Inr u)
      obtain w2 where w2: "key_publish ea key object (Inr ()) w' = Some (Inr (), w2)"
        "key_created (?w1\<lparr>keys := (keys ?w1)(?a := 0)\<rparr>) ea g D L key bytes object w2" using created(4) by auto
      show thesis
      proof (rule made[where object = object and m' = "mi\<lparr>kheap := w2\<rparr>"])
        show "key_object_new True ea key bytes init m
            = Some (Inr \<lparr>ko_ea_ksheap = ea, ko_key = key, ko_ea = object\<rparr>, mi\<lparr>kheap := w2\<rparr>)"
          using att created(1,3) mi w2(1) Inr by (simp add: key_object_new_def)
        show "key_created ?w ea g D L key bytes object (kheap (mi\<lparr>kheap := w2\<rparr>))" using undo(2) w2(2) by simp
      qed
    qed
  qed
qed

text \<open>New on a live key takes a reference and touches nothing else.\<close>

lemma new_on_live_key:
  assumes K: "keyed_heap (kheap m) ea g D L key" and e: "the_entry (kheap m) ea key = key_entry c v" "c \<noteq> 0"
    and p: "published (h_ea_heap (headers (kheap m) ea)) buffer object v"
  shows "key_object_new True ea key bytes init m = Some (Inr \<lparr>ko_ea_ksheap = ea, ko_key = key, ko_ea = object\<rparr>,
    m\<lparr>kheap := (kheap m)\<lparr>keys := (keys (kheap m))(entry_ea (headers (kheap m) ea) key := key_entry (c + 1) v),
      key_header := headers (kheap m) ea\<rparr>\<rparr>)"
  using publishedD[OF p] e(2)
  by (simp add: key_object_new_def attach_entry[OF K] e(1) sheap_key_new_step_def)

lemma detach_entry:
  assumes "keyed_heap w ea g D L key" "the_entry w ea key = key_entry c v" "c \<noteq> 0"
    "published (h_ea_heap (headers w ea)) buffer object v"
  defines "w1 \<equiv> w\<lparr>keys := (keys w)(entry_ea (headers w ea) key := key_entry (c - 1) v), key_header := headers w ea\<rparr>"
  shows "key_detach ea key w = (if c = 1 then
    (case cellSheapFree ea object w1 of
       None \<Rightarrow> None
     | Some (_, w) \<Rightarrow> (case sheap_key_finalize_delete (key_header w) key w of None \<Rightarrow> None | Some (_, w) \<Rightarrow> Some w)) else Some w1)"
proof -
  have "sheap_key_delete_object (headers w ea) key (w\<lparr>key_header := headers w ea\<rparr>) = Some ((KeyOk, if c = 1 then object else 0), w1)"
    using publishedD[OF assms(4)] assms(2,3)
    by (simp add: sheap_key_delete_object_def update_entry_def key_delete_decision_def sheap_key_delete_step_def Let_def w1_def)
  then show ?thesis
    using keyed_heapD[OF assms(1)] publishedD[OF assms(4)] by (simp add: key_detach_def fetch_runs)
qed

text \<open>Dropping the last reference of a created object undoes its creation.\<close>

lemma detach_last_undoes:
  assumes c: "key_created w ea g D L key bytes object w'" and K: "keyed_heap w ea g D L key" and e: "the_entry w ea key = 0"
  obtains w2 where "key_detach ea key w' = Some w2" "key_undone w ea g D L key w2"
proof -
  let ?a = "entry_ea (headers w ea) key"
  from c obtain v where K': "keyed_heap w' ea g D L key" and h: "headers w' = headers w"
    and k: "keys w' = (keys w)(?a := key_entry 1 v)" "published (h_ea_heap (headers w ea)) (s_buffer g) object v"
    and rel: "\<forall>w1. headers w1 = headers w' \<and> world_heap w1 ea g D L \<and> heap_tree w1 ea = heap_tree w' ea \<longrightarrow> releases w ea g D L object w1"
    unfolding key_created_def by blast
  have e': "the_entry w' ea key = key_entry 1 v" using k(1) h by simp
  have pv: "published (h_ea_heap (headers w' ea)) (s_buffer g) object v" using k(2) h by simp
  let ?w1 = "w'\<lparr>keys := (keys w')(entry_ea (headers w' ea) key := key_entry (1 - 1) v), key_header := headers w' ea\<rparr>"
  have K1: "keyed_heap ?w1 ea g D L key" "heap_tree ?w1 ea = heap_tree w' ea" by (rule keyed_heap_update[OF K'])+
  have "releases w ea g D L object ?w1"
    by (rule rel[THEN spec, THEN mp]) (use K1 in \<open>simp add: keyed_heap_def\<close>)
  then obtain w3 where w3: "cellSheapFree ea object ?w1 = Some (Inr (), w3)" "world_heap w3 ea g D L"
    "owned D (heap_tree w3 ea) = owned D (heap_tree w ea)" "headers w3 = headers ?w1" "keys w3 = keys ?w1"
    "key_header w3 = key_header ?w1" unfolding releases_def by blast
  have h3: "headers w3 = headers w" "key_header w3 = headers w ea" "the_entry w3 ea key = key_entry 0 v"
    using w3(4-6) h by simp_all
  have v0: "v \<noteq> 0" using publishedD[OF pv] by simp
  let ?w4 = "w3\<lparr>keys := (keys w3)(?a := 0)\<rparr>"
  have "sheap_key_finalize_delete (key_header w3) key w3 = Some (KeyOk, ?w4)"
    using h3 v0 by (simp add: sheap_key_finalize_delete_def update_entry_def key_finalize_delete_decision_def
        sheap_key_finalize_delete_step_def)
  then have r: "key_detach ea key w' = Some ?w4"
    using detach_entry[OF K' e' _ pv] w3(1) by simp
  have K3: "keyed_heap w3 ea g D L key" using K h3(1) w3(2) by (simp add: keyed_heap_def)
  have kk: "(keys w3)(?a := 0) = keys w" using w3(5) k(1) e h by (auto simp: fun_eq_iff)
  have "key_undone w ea g D L key ?w4"
    using keyed_heap_update(2,5)[OF K3] h3(1) w3(3) kk by (simp add: key_undone_def)
  with r show thesis by (rule that)
qed

section \<open>The six kinds of object\<close>

datatype keyed_kind = BufferOf u64 | MutexOf | BarrierOf u16 | QueueOf u32 u32 | RwmOf u32 | SemaphoreOf u32

text \<open>The New function of a kind, the buffer's record without its size.\<close>

definition keyed_new :: "keyed_kind \<Rightarrow> u64 \<Rightarrow> u32 \<Rightarrow> keyed_memory \<Rightarrow> ((keyed_error + key_object) \<times> keyed_memory) option" where
  "keyed_new kind ea key m =
     (case kind of
        BufferOf sz \<Rightarrow> map_option (map_prod (map_sum id key_object.truncate) id) (cellKeySheapBufferNew True ea key sz m)
      | MutexOf \<Rightarrow> cellKeySheapMutexNew True ea key m
      | BarrierOf n \<Rightarrow> cellKeySheapBarrierNew True ea key n m
      | QueueOf b d \<Rightarrow> cellKeySheapQueueNew True ea key b d m
      | RwmOf b \<Rightarrow> cellKeySheapRwmNew True ea key b m
      | SemaphoreOf n \<Rightarrow> cellKeySheapSemaphoreNew True ea key n m)"

text \<open>The bytes it asks for, and how it initialises them.\<close>

definition kind_bytes :: "keyed_kind \<Rightarrow> u64" where
  "kind_bytes kind = (case kind of BufferOf sz \<Rightarrow> sz | QueueOf b d \<Rightarrow> ucast (b * d) + 128 | RwmOf b \<Rightarrow> ucast b + 128 | _ \<Rightarrow> 128)"

definition kind_init :: "keyed_kind \<Rightarrow> object_init" where
  "kind_init kind = (case kind of BufferOf sz \<Rightarrow> no_init | MutexOf \<Rightarrow> mutex_init | BarrierOf n \<Rightarrow> barrier_init n
     | QueueOf b d \<Rightarrow> queue_init b d | RwmOf b \<Rightarrow> rwm_init b | SemaphoreOf n \<Rightarrow> semaphore_init n)"

lemma kind_init_ends: "init_ends (kind_init kind)"
  by (cases kind) (simp_all add: kind_init_def inits_end)

lemma truncate_extend: "key_object.truncate (key_object.extend r s) = r"
  by (cases r) (simp add: key_object.defs)

lemma keyed_new_frame: "keyed_new kind ea key m = key_object_new True ea key (kind_bytes kind) (kind_init kind) m"
  by (cases kind) (auto simp: keyed_new_def kind_bytes_def kind_init_def cellKeySheapBufferNew_def cellKeySheapMutexNew_def
      cellKeySheapBarrierNew_def cellKeySheapQueueNew_def cellKeySheapRwmNew_def cellKeySheapSemaphoreNew_def truncate_extend
      split: option.splits sum.splits)

lemma kind_init_error:
  "kind_init kind object tag m = Some (Inl s, m') \<Longrightarrow> (\<exists>n. kind = BarrierOf n) \<or> (\<exists>b d. kind = QueueOf b d) \<or> (\<exists>b. kind = RwmOf b)"
  by (cases kind) (simp_all add: kind_init_def no_init_def mutex_init_def semaphore_init_def)

end
