(* ===== verification/Sheap_Keyed_Props.thy ===== *)
theory Sheap_Keyed_Props
  imports Sheap_Keyed
begin

text \<open>
  Properties of the keyed objects of \<open>sdk/libsheap\<close>: New creates or leaves everything as it was, and the
  life of an object, reused and deleted, ends where it began.  The instances use a keyed heap of 4096
  bytes at address 8192.
\<close>

definition keyed_blank :: heap_world where
  "keyed_blank = \<lparr>headers = (\<lambda>_. zero_header), keys = (\<lambda>_. 0),
     tree_cache = \<lparr>cache_data = replicate 16 (replicate 32 0), cache_line = replicate 16 0,
       cache_valid = replicate 16 False, cache_dirty = replicate 16 False, cache_victim = 0, cache_last = 0,
       cache_tree = 0, cache_mem = (\<lambda>_. replicate 32 0)\<rparr>,
     header = zero_header, key_header = zero_header\<rparr>"

definition keyed_demo :: keyed_memory where
  "keyed_demo = \<lparr>kheap = snd (cellKeySheapInitialize 8192 4096 5 keyed_blank), sync_words = (\<lambda>_. 0), sync_lines = (\<lambda>_ _. 0)\<rparr>"

definition keyed_geometry :: sheap_geometry where
  "keyed_geometry = \<lparr>s_tree = 128, s_buffer = 1792, s_root = 2048, n_nodes = 29\<rparr>"

lemma keyed_demo_init:
  "cellKeySheapInitialize 8192 4096 5 keyed_blank = (Inr (), kheap keyed_demo)" "sheap_init_geometry True 4096 = Some keyed_geometry"
proof -
  show geo: "sheap_init_geometry True 4096 = Some keyed_geometry" unfolding keyed_geometry_def by code_simp
  have "sheap_check_init_args 8192 4096 5 = Inr ()" by (simp add: sheap_check_init_args_def)
  then show "cellKeySheapInitialize 8192 4096 5 keyed_blank = (Inr (), kheap keyed_demo)"
    using geo by (simp add: keyed_demo_def cellKeySheapInitialize_def case_prod_beta Let_def)
qed

lemma keyed_demo_tree:
  "heap_tree (kheap keyed_demo) 8192 = sheap_tree_fence flat (\<lambda>_. NFree) 29" "h_ea_heap (headers (kheap keyed_demo) 8192) = 10496"
proof -
  let ?h = "zero_header\<lparr>h_ea_keytable := 8320, h_s_keytable := 2048\<rparr>"
  obtain h w1 where c: "core_initialize ?h 8192 10368 keyed_geometry 5 (sheap_dma_zero 8320 2048 keyed_blank) = (h, w1)"
    "kheap keyed_demo = sheap_publish 8192 h (w1\<lparr>header := h\<rparr>)"
    using keyed_demo_init by (auto simp: cellKeySheapInitialize_def Let_def split: sum.splits prod.splits)
  have "memory_sized keyed_blank" by (simp add: memory_sized_def keyed_blank_def ways_def)
  then have sz: "memory_sized (sheap_dma_zero 8320 2048 keyed_blank)"
    using dma_zero_spec[of 8320 2048 keyed_blank] by (simp add: memory_sized_def)
  have bits: "2 * (unat (n_nodes keyed_geometry) + 2) \<le> 8 * unat (s_tree keyed_geometry)" by (simp add: keyed_geometry_def)
  note C = core_initialize_tree[OF c(1) bits sz]
  show "heap_tree (kheap keyed_demo) 8192 = sheap_tree_fence flat (\<lambda>_. NFree) 29"
    using C(1,5) by (simp add: c(2) heap_tree_def sheap_publish_def keyed_geometry_def)
  show "h_ea_heap (headers (kheap keyed_demo) 8192) = 10496"
    using C(5) by (simp add: c(2) sheap_publish_def keyed_geometry_def)
qed

lemma keyed_demo_heap:
  obtains D L where "keyed_heap (kheap keyed_demo) 8192 keyed_geometry D L 3" "the_entry (kheap keyed_demo) 8192 3 = 0"
proof -
  have sized: "memory_sized keyed_blank" by (simp add: memory_sized_def keyed_blank_def ways_def)
  have sb: "s_buffer keyed_geometry \<noteq> 0" by (simp add: keyed_geometry_def)
  obtain D L where w: "world_heap (kheap keyed_demo) 8192 keyed_geometry D L"
    "h_ea_keytable (headers (kheap keyed_demo) 8192) = 8192 + 128"
    "\<forall>key. unat key < 256 \<longrightarrow> the_entry (kheap keyed_demo) 8192 key = 0"
    using key_initialize_world[OF sized _ keyed_demo_init sb] by auto
  have "keyed_heap (kheap keyed_demo) 8192 keyed_geometry D L 3" using w(1,2) by (simp add: keyed_heap_def)
  moreover have "the_entry (kheap keyed_demo) 8192 3 = 0" using w(3) by simp
  ultimately show thesis by (rule that)
qed

lemma keyed_demo_block: "fst (sheap_heap_allocate flat (sheap_tree_fence flat (\<lambda>_. NFree) 29) 29 2048 10496 128) = 10496"
  by code_simp

text \<open>On the demonstration heap the creation of a semaphore succeeds.\<close>

lemma keyed_demo_semaphore: "\<exists>rec m1. keyed_new (SemaphoreOf 1) 8192 3 keyed_demo = Some (Inr rec, m1)"
proof -
  obtain D L where d: "keyed_heap (kheap keyed_demo) 8192 keyed_geometry D L 3" "the_entry (kheap keyed_demo) 8192 3 = 0"
    by (rule keyed_demo_heap)
  let ?w = "kheap keyed_demo" and ?a = "entry_ea (headers (kheap keyed_demo) 8192) 3"
  let ?w1 = "?w\<lparr>keys := (keys ?w)(?a := key_entry 1 0), key_header := headers ?w 8192\<rparr>"
  have K1: "keyed_heap ?w1 8192 keyed_geometry D L 3" "heap_tree ?w1 8192 = heap_tree ?w 8192"
    by (rule keyed_heap_update[OF d(1)])+
  note W = world_heapD[OF keyed_heapD(1)[OF K1(1)]]
  have "fst (sheap_heap_allocate flat (heap_tree ?w1 8192) (h_n_nodes (headers ?w1 8192)) (h_s_root (headers ?w1 8192))
      (h_ea_heap (headers ?w1 8192)) 128) = 10496"
    unfolding W(5,6) using keyed_demo_block keyed_demo_tree by (simp add: K1(2) keyed_geometry_def)
  moreover obtain w' where "cellSheapAllocate 8192 128 ?w1 = Some (fst (sheap_heap_allocate flat (heap_tree ?w1 8192)
      (h_n_nodes (headers ?w1 8192)) (h_s_root (headers ?w1 8192)) (h_ea_heap (headers ?w1 8192)) 128), w')"
    using allocate_refines[OF W(4,1,2,3), of 128] by blast
  ultimately have al: "cellSheapAllocate 8192 128 ?w1 = Some (10496, w')" by (simp only:)
  have e1: "the_entry ?w1 8192 3 = key_entry 1 0" "key_header ?w1 = headers ?w1 8192" by simp_all
  have c: "key_create 8192 3 128 ?w1 = Some (Inr 10496, w')" using al by (simp add: key_create_def)
  obtain w2 where "key_publish 8192 3 10496 (Inr ()) w' = Some (Inr (), w2)"
    using key_create_publish[OF K1(1) e1, of 128] c by auto
  then show ?thesis
    using attach_empty[OF d] c
    by (simp add: keyed_new_def cellKeySheapSemaphoreNew_def key_object_new_def semaphore_init_def)
qed

text \<open>C39: On an empty key of a sound keyed heap every New function ends, and either creates or leaves no
trace.  It fails only for lack of memory or because libsync refuses to initialise a barrier, a queue or a
reader-writer buffer, and then the key table and the owned bytes are as they were.  Otherwise the record
names the object, the entry holds one reference and the object's address, and the object is a block of the
requested bytes (rounded up) that nothing owned before.\<close>

theorem keyed_new_all_or_nothing:
  assumes "keyed_heap (kheap m) ea g D L key" "the_entry (kheap m) ea key = 0"
  shows "\<exists>r m'. keyed_new kind ea key m = Some (r, m') \<and>
    (case r of
       Inl e \<Rightarrow> key_undone (kheap m) ea g D L key (kheap m') \<and> (e = HeapError SHEAP_SHORTAGE \<or>
         (\<exists>s. e = SyncError s) \<and> ((\<exists>n. kind = BarrierOf n) \<or> (\<exists>b d. kind = QueueOf b d) \<or> (\<exists>b. kind = RwmOf b)))
     | Inr rec \<Rightarrow> ko_ea_ksheap rec = ea \<and> ko_key rec = key \<and>
         key_created (kheap m) ea g D L key (kind_bytes kind) (ko_ea rec) (kheap m'))"
proof (cases rule: new_on_empty_key[OF assms kind_init_ends[of kind], where bytes = "kind_bytes kind"])
  case (1 err m')
  have "err = HeapError SHEAP_SHORTAGE \<or>
     (\<exists>s. err = SyncError s) \<and> ((\<exists>n. kind = BarrierOf n) \<or> (\<exists>b d. kind = QueueOf b d) \<or> (\<exists>b. kind = RwmOf b))"
    using 1(4) kind_init_error by blast
  then show ?thesis using 1(1,3) by (simp add: keyed_new_frame)
next
  case (2 object m')
  then show ?thesis by (simp add: keyed_new_frame)
qed

theorem keyed_new_all_or_nothing_witness:
  "\<exists>r m'. keyed_new (QueueOf 16 4) 8192 3 keyed_demo = Some (r, m')"
proof -
  obtain D L where d: "keyed_heap (kheap keyed_demo) 8192 keyed_geometry D L 3" "the_entry (kheap keyed_demo) 8192 3 = 0"
    by (rule keyed_demo_heap)
  from keyed_new_all_or_nothing[OF d, of "QueueOf 16 4"] show ?thesis by blast
qed

section \<open>The life of an object\<close>

text \<open>
  What holders of references to one object do: a New function of any kind on its key, which counts only when it answers
  with the record of that object, or a Delete.
\<close>

datatype keyed_use = UseNew keyed_kind | UseDelete

definition keyed_use :: "u64 \<Rightarrow> u32 \<Rightarrow> key_object \<Rightarrow> keyed_use \<Rightarrow> keyed_memory \<Rightarrow> keyed_memory option" where
  "keyed_use ea key rec use m =
     (case use of
        UseNew kind \<Rightarrow> (case keyed_new kind ea key m of Some (Inr r, m') \<Rightarrow> if r = rec then Some m' else None | _ \<Rightarrow> None)
      | UseDelete \<Rightarrow> key_object_delete (Some rec) m)"

fun keyed_uses :: "u64 \<Rightarrow> u32 \<Rightarrow> key_object \<Rightarrow> keyed_use list \<Rightarrow> keyed_memory \<Rightarrow> keyed_memory option" where
  "keyed_uses ea key rec [] m = Some m"
| "keyed_uses ea key rec (use # uses) m =
     (case keyed_use ea key rec use m of None \<Rightarrow> None | Some m' \<Rightarrow> keyed_uses ea key rec uses m')"

text \<open>The references left, as long as the last is not deleted and the 32 bits of the count suffice.\<close>

fun references :: "nat \<Rightarrow> keyed_use list \<Rightarrow> nat option" where
  "references n [] = Some n"
| "references n (UseNew kind # uses) = (if n + 1 < 2 ^ 32 then references (n + 1) uses else None)"
| "references n (UseDelete # uses) = (if 1 < n then references (n - 1) uses else None)"

text \<open>The state with \<open>n\<close> references, compared with the one the creation left: nothing but the count has changed.\<close>

definition referenced :: "u64 \<Rightarrow> u32 \<Rightarrow> u32 \<Rightarrow> heap_world \<Rightarrow> nat \<Rightarrow> heap_world \<Rightarrow> bool" where
  "referenced ea key v w1 n w \<longleftrightarrow> 0 < n \<and> n < 2 ^ 32 \<and> headers w = headers w1 \<and> tree_cache w = tree_cache w1 \<and>
     keys w = (keys w1)(entry_ea (headers w1 ea) key := key_entry (of_nat n) v)"

lemma referenced_heap:
  assumes "referenced ea key v w1 n w" "keyed_heap w1 ea g D L key"
  shows "keyed_heap w ea g D L key" "heap_tree w ea = heap_tree w1 ea"
  using assms by (simp_all add: referenced_def keyed_heap_def world_heap_def heap_tree_def memory_sized_def)

lemma referenced_count: "referenced ea key v w1 n w \<Longrightarrow> (of_nat n :: u32) \<noteq> 0 \<and> ((of_nat n :: u32) = 1 \<longleftrightarrow> n = 1)"
proof -
  assume "referenced ea key v w1 n w"
  then have "0 < n" "unat (of_nat n :: u32) = n" by (simp_all add: referenced_def unat_of_nat)
  then show ?thesis by (auto simp: word_unat_eq_iff)
qed

lemma referenced_new:
  assumes "referenced ea key v w1 n (kheap m)" "keyed_heap w1 ea g D L key" "published (h_ea_heap (headers w1 ea)) buffer object v" "n + 1 < 2 ^ 32"
  shows "\<exists>m'. keyed_use ea key \<lparr>ko_ea_ksheap = ea, ko_key = key, ko_ea = object\<rparr> (UseNew kind) m = Some m' \<and>
    referenced ea key v w1 (n + 1) (kheap m')"
proof -
  have h: "headers (kheap m) = headers w1" using assms(1) by (simp add: referenced_def)
  have e: "the_entry (kheap m) ea key = key_entry (of_nat n) v" using assms(1) by (simp add: referenced_def)
  have p: "published (h_ea_heap (headers (kheap m) ea)) buffer object v" using assms(3) h by simp
  show ?thesis
    using new_on_live_key[OF referenced_heap(1)[OF assms(1,2)] e _ p] referenced_count[OF assms(1)] assms(1,4) h
    by (simp add: keyed_use_def keyed_new_frame referenced_def add.commute)
qed

lemma referenced_delete:
  assumes "referenced ea key v w1 n (kheap m)" "keyed_heap w1 ea g D L key" "published (h_ea_heap (headers w1 ea)) buffer object v" "1 < n"
  shows "\<exists>m'. keyed_use ea key \<lparr>ko_ea_ksheap = ea, ko_key = key, ko_ea = object\<rparr> UseDelete m = Some m' \<and>
    referenced ea key v w1 (n - 1) (kheap m')"
proof -
  have h: "headers (kheap m) = headers w1" using assms(1) by (simp add: referenced_def)
  have e: "the_entry (kheap m) ea key = key_entry (of_nat n) v" using assms(1) by (simp add: referenced_def)
  have p: "published (h_ea_heap (headers (kheap m) ea)) buffer object v" using assms(3) h by simp
  have d: "(of_nat n - 1 :: u32) = of_nat (n - 1)" using assms(4) by (simp add: of_nat_diff)
  have c: "(of_nat n :: u32) \<noteq> 0" "(of_nat n :: u32) \<noteq> 1" using referenced_count[OF assms(1)] assms(4) by auto
  let ?w = "(kheap m)\<lparr>keys := (keys (kheap m))(entry_ea (headers (kheap m) ea) key := key_entry (of_nat (n - 1)) v), key_header := headers (kheap m) ea\<rparr>"
  have "key_detach ea key (kheap m) = Some ?w"
    unfolding detach_entry[OF referenced_heap(1)[OF assms(1,2)] e c(1) p] if_not_P[OF c(2)] d by (rule refl)
  then have "keyed_use ea key \<lparr>ko_ea_ksheap = ea, ko_key = key, ko_ea = object\<rparr> UseDelete m = Some (m\<lparr>kheap := ?w\<rparr>)"
    by (simp add: keyed_use_def key_object_delete_def)
  moreover have "referenced ea key v w1 (n - 1) ?w" using assms(1,4) h by (auto simp: referenced_def)
  ultimately show ?thesis by (intro exI[of _ "m\<lparr>kheap := ?w\<rparr>"]) simp
qed

lemma referenced_uses:
  assumes "referenced ea key v w1 n (kheap m)" "keyed_heap w1 ea g D L key" "published (h_ea_heap (headers w1 ea)) buffer object v"
    "references n uses = Some n'"
  shows "\<exists>m'. keyed_uses ea key \<lparr>ko_ea_ksheap = ea, ko_key = key, ko_ea = object\<rparr> uses m = Some m' \<and> referenced ea key v w1 n' (kheap m')"
  using assms(1,4)
proof (induction n uses arbitrary: m rule: references.induct)
  case (2 n kind uses)
  then have l: "n + 1 < 2 ^ 32" "references (n + 1) uses = Some n'" by (simp_all split: if_splits)
  obtain m' where m': "keyed_use ea key \<lparr>ko_ea_ksheap = ea, ko_key = key, ko_ea = object\<rparr> (UseNew kind) m = Some m'"
      "referenced ea key v w1 (n + 1) (kheap m')"
    using referenced_new[OF 2(2) assms(2,3) l(1)] by blast
  show ?case using 2(1)[OF l(1) m'(2) l(2)] m'(1) by simp
next
  case (3 n uses)
  then have l: "1 < n" "references (n - 1) uses = Some n'" by (simp_all split: if_splits)
  obtain m' where m': "keyed_use ea key \<lparr>ko_ea_ksheap = ea, ko_key = key, ko_ea = object\<rparr> UseDelete m = Some m'"
      "referenced ea key v w1 (n - 1) (kheap m')"
    using referenced_delete[OF 3(2) assms(2,3) l(1)] by blast
  show ?case using 3(1)[OF l(1) m'(2) l(2)] m'(1) by simp
qed simp

text \<open>C40: The life of a keyed object, whatever its holders do after the creation: as long as a reference is left, every New
  function on its key, of any kind, answers with the same object, allocates nothing and adds one reference, and every Delete
  takes one away and frees nothing; and when one reference is left, deleting it frees the block and empties the key, so that
  the key table and the owned bytes are those from before the creation.\<close>

theorem keyed_object_lifetime:
  assumes "keyed_heap (kheap m) ea g D L key" "the_entry (kheap m) ea key = 0"
    and "keyed_new kind ea key m = Some (Inr rec, m1)" "references 1 uses = Some n"
  shows "\<exists>m2. keyed_uses ea key rec uses m1 = Some m2 \<and> heap_tree (kheap m2) ea = heap_tree (kheap m1) ea \<and>
    unat (key_count (the_entry (kheap m2) ea key)) = n \<and>
    (n = 1 \<longrightarrow> (\<exists>m3. key_object_delete (Some rec) m2 = Some m3 \<and> key_undone (kheap m) ea g D L key (kheap m3)))"
proof -
  obtain object where rec: "rec = \<lparr>ko_ea_ksheap = ea, ko_key = key, ko_ea = object\<rparr>"
    and cr: "key_created (kheap m) ea g D L key (kind_bytes kind) object (kheap m1)"
    using new_on_empty_key[OF assms(1,2) kind_init_ends[of kind], where bytes = "kind_bytes kind"] assms(3)
    by (auto simp: keyed_new_frame)
  then obtain v where K: "keyed_heap (kheap m1) ea g D L key" and h: "headers (kheap m1) = headers (kheap m)"
    and k: "keys (kheap m1) = (keys (kheap m))(entry_ea (headers (kheap m) ea) key := key_entry 1 v)"
      "published (h_ea_heap (headers (kheap m) ea)) (s_buffer g) object v"
    unfolding key_created_def by blast
  have p: "published (h_ea_heap (headers (kheap m1) ea)) (s_buffer g) object v" using k(2) h by simp
  have "referenced ea key v (kheap m1) 1 (kheap m1)" using k(1) h by (simp add: referenced_def)
  then obtain m2 where m2: "keyed_uses ea key rec uses m1 = Some m2" "referenced ea key v (kheap m1) n (kheap m2)"
    using referenced_uses[OF _ K p assms(4)] unfolding rec by blast
  have "key_count (key_entry (of_nat n) v) = of_nat n" by simp
  then have "unat (key_count (the_entry (kheap m2) ea key)) = n" using m2(2) by (simp add: referenced_def unat_of_nat)
  moreover have "\<exists>m3. key_object_delete (Some rec) m2 = Some m3 \<and> key_undone (kheap m) ea g D L key (kheap m3)" if "n = 1"
  proof -
    have "headers (kheap m2) = headers (kheap m1)" "keys (kheap m2) = keys (kheap m1)" "heap_tree (kheap m2) ea = heap_tree (kheap m1) ea"
      using m2(2) that k(1) h referenced_heap(2)[OF m2(2) K] by (simp_all add: referenced_def)
    then have "key_created (kheap m) ea g D L key (kind_bytes kind) object (kheap m2)"
      by (rule key_created_cong[OF cr referenced_heap(1)[OF m2(2) K]])
    then obtain w3 where "key_detach ea key (kheap m2) = Some w3" "key_undone (kheap m) ea g D L key w3"
      using detach_last_undoes assms(1,2) by blast
    then show ?thesis by (simp add: key_object_delete_def rec)
  qed
  ultimately show ?thesis using m2(1) referenced_heap(2)[OF m2(2) K] by blast
qed

text \<open>A semaphore reused as a mutex, twice, with two of the three references deleted, and then the last.\<close>

theorem keyed_object_lifetime_witness:
  "\<exists>rec m1 m2 m3. keyed_new (SemaphoreOf 1) 8192 3 keyed_demo = Some (Inr rec, m1)
     \<and> keyed_uses 8192 3 rec [UseNew MutexOf, UseDelete, UseNew MutexOf, UseNew (BarrierOf 2), UseDelete, UseDelete] m1 = Some m2
     \<and> key_object_delete (Some rec) m2 = Some m3 \<and> keys (kheap m3) = keys (kheap keyed_demo)"
proof -
  obtain D L where d: "keyed_heap (kheap keyed_demo) 8192 keyed_geometry D L 3" "the_entry (kheap keyed_demo) 8192 3 = 0"
    by (rule keyed_demo_heap)
  obtain rec m1 where n: "keyed_new (SemaphoreOf 1) 8192 3 keyed_demo = Some (Inr rec, m1)"
    using keyed_demo_semaphore by blast
  have "references 1 [UseNew MutexOf, UseDelete, UseNew MutexOf, UseNew (BarrierOf 2), UseDelete, UseDelete] = Some 1" by simp
  from keyed_object_lifetime[OF d n this] n show ?thesis unfolding key_undone_def by blast
qed

end
