(* ===== verification/Sync_Props.thy ===== *)
theory Sync_Props
  imports Sync_Mutex Sync_Barrier Sync_Rwm Sync_Queue
begin

text \<open>
  The properties of the objects of \<open>sdk/libsync\<close>, each with a witness at a concrete run.
\<close>

section \<open>Mutex\<close>

text \<open>C9: Up to 65536 processors may share one ticket mutex: whatever they do, at most one of them
  holds it, and the holder's ticket is the current one; and they enter in the order in which they
  drew their tickets.\<close>

theorem mutex_exclusive_fair:
  assumes "(mutex_step n)\<^sup>*\<^sup>* mutex_start s" "n \<le> 65536"
  shows "(\<forall>p r t u. mutex_pc s p = MutexHolding t \<longrightarrow> mutex_pc s r = MutexHolding u \<longrightarrow>
      p = r \<and> t = sync_mutex_current (mutex_word s)) \<and>
    (\<exists>waiting. mutex_arrived s = mutex_entered s @ waiting)"
proof -
  obtain served q where inv: "mutex_inv n served q s" using mutex_reachable_inv[OF assms] by blast
  then have "\<exists>waiting. mutex_arrived s = mutex_entered s @ waiting"
    unfolding mutex_inv_def by auto
  then show ?thesis using mutex_inv_holder[OF inv] by auto
qed

theorem mutex_exclusive_fair_witness:
  "\<exists>s. (mutex_step 2)\<^sup>*\<^sup>* mutex_start s \<and> mutex_entered s = [0] \<and> (\<exists>waiting. mutex_arrived s = [0] @ waiting)"
proof -
  let ?s = "mutex_start\<lparr>mutex_word := sync_mutex_take_ticket 0, mutex_pc := (\<lambda>_. MutexIdle)(0 := MutexHolding 0),
    mutex_arrived := [0], mutex_entered := [0]\<rparr>"
  have "mutex_step 2 mutex_start ?s"
    using mutex_step.try_lock[of 0 2 mutex_start "sync_mutex_take_ticket 0"]
    by (simp add: mutex_start_def try_lock_decision_def sync_mutex_is_free_def mutex_fields)
  then have run: "(mutex_step 2)\<^sup>*\<^sup>* mutex_start ?s" by blast
  show ?thesis using mutex_exclusive_fair[OF run] run by (intro exI[of _ ?s]) simp
qed

text \<open>The mutex does not get stuck: when somebody has a ticket, the processor whose turn it is
  waits with exactly the current ticket or already holds the lock.\<close>

theorem mutex_turn:
  assumes "(mutex_step n)\<^sup>*\<^sup>* mutex_start s" "n \<le> 65536" "\<not> sync_mutex_is_free (mutex_word s)"
  shows "\<exists>p < n. mutex_wait_decision (sync_mutex_current (mutex_word s)) (mutex_word s) = Return () \<and>
    (mutex_pc s p = MutexWaiting (sync_mutex_current (mutex_word s)) \<or>
     mutex_pc s p = MutexHolding (sync_mutex_current (mutex_word s)))"
proof -
  obtain served q where inv: "mutex_inv n served q s" using mutex_reachable_inv[OF assms(1,2)] by blast
  then have "q \<noteq> []" using assms(3) by (auto simp: mutex_inv_def sync_mutex_is_free_def)
  moreover from this have "hd q < n" using inv by (cases q) (auto simp: mutex_inv_def)
  ultimately show ?thesis
    using mutex_inv_progress[OF inv] by (auto simp: mutex_wait_decision_def)
qed

theorem mutex_turn_witness:
  "\<exists>s. (mutex_step 1)\<^sup>*\<^sup>* mutex_start s \<and> (\<exists>p < 1. mutex_pc s p = MutexWaiting 0 \<or> mutex_pc s p = MutexHolding 0)"
proof -
  let ?s = "mutex_start\<lparr>mutex_word := sync_mutex_take_ticket 0, mutex_pc := (\<lambda>_. MutexIdle)(0 := MutexWaiting 0),
    mutex_arrived := [0]\<rparr>"
  have "mutex_step 1 mutex_start ?s"
    using mutex_step.take[of 0 1 mutex_start "sync_mutex_take_ticket 0" 0]
    by (simp add: mutex_start_def mutex_take_decision_def mutex_fields)
  then have run: "(mutex_step 1)\<^sup>*\<^sup>* mutex_start ?s" by blast
  have busy: "\<not> sync_mutex_is_free (mutex_word ?s)" "sync_mutex_current (mutex_word ?s) = 0"
    by (simp_all add: sync_mutex_is_free_def, simp_all add: mutex_fields)
  have "\<exists>p < 1. mutex_pc ?s p = MutexWaiting 0 \<or> mutex_pc ?s p = MutexHolding 0"
    using mutex_turn[OF run _ busy(1)] unfolding busy(2) by simp
  with run show ?thesis by (intro exI[of _ ?s] conjI)
qed

section \<open>Barrier\<close>

text \<open>C10: After Initialize for \<open>m\<close> participants, in any interleaving of the calls, Wait returns and
  TryWait succeeds only once \<open>m\<close> notifications have been accepted, TryNotify is refused exactly from
  then on, and Notify never takes the count below zero.\<close>

theorem barrier_counts_arrivals:
  assumes "cellSyncBarrierInitialize ea m = Inr w"
    and "barrier_step\<^sup>*\<^sup>* \<lparr>barrier_word = w, barrier_log = []\<rparr> s"
  shows "barrier_log_ok (unat m) (barrier_log s) \<and> total_count (barrier_of_uint (barrier_word s)) = m \<and>
    unat (barrier_count (barrier_of_uint (barrier_word s))) = unat m - barrier_arrivals (barrier_log s)"
proof -
  have "barrier_inv (unat m) s" by (rule barrier_reachable_inv[OF assms])
  then show ?thesis by (auto simp: barrier_inv_def unat_of_nat)
qed

theorem barrier_counts_arrivals_witness:
  "\<exists>s :: barrier_system. cellSyncBarrierInitialize 0x1000 1 = Inr 0x10001 \<and> barrier_log s = [Notified 0, Passed 1] \<and>
     barrier_log_ok 1 (barrier_log s)"
proof -
  let ?w = "barrier_uint_val \<lparr>barrier_count = 1, total_count = 1\<rparr>"
  let ?s1 = "\<lparr>barrier_word = pack16 0 1, barrier_log = [Notified 0]\<rparr>"
  let ?s2 = "\<lparr>barrier_word = pack16 0 1, barrier_log = [Notified 0, Passed 1]\<rparr>"
  have w: "?w = 0x10001" by (simp add: barrier_uint_val_def pack16_def)
  have init: "cellSyncBarrierInitialize 0x1000 1 = Inr ?w"
    by (simp add: cellSyncBarrierInitialize_def word_aligned_def)
  have "barrier_step \<lparr>barrier_word = ?w, barrier_log = []\<rparr> ?s1"
    using barrier_step.notify[of "\<lparr>barrier_word = ?w, barrier_log = []\<rparr>" "pack16 0 1" 0]
    by (simp add: barrier_notify_decision_def barrier_uint_val_def Let_def)
  moreover have "barrier_step ?s1 ?s2"
    using barrier_step.wait[of ?s1 1] by (simp add: barrier_wait_decision_def)
  ultimately have run: "barrier_step\<^sup>*\<^sup>* \<lparr>barrier_word = ?w, barrier_log = []\<rparr> ?s2" by auto
  show ?thesis using barrier_counts_arrivals[OF init run] init unfolding w by (intro exI[of _ ?s2]) simp
qed

section \<open>Reader-writer lock\<close>

text \<open>C11: A reader-writer lock over an initialised buffer, used by any number of processors with
  their transfers interleaved byte by byte: a writer is alone, and every copy a ReadBegin delivered
  is the value the last Write published, never a mixture of two.\<close>

theorem rwm_readers_consistent:
  assumes "cellSyncRwmInitialize ea ptr sz tag answers = Stored old l (Inr ())"
    and "rwm_step\<^sup>*\<^sup>* (rwm_start l mem) s"
  shows "(\<forall>p bytes. rwm_pc s p = RwmReading bytes \<longrightarrow> bytes = rwm_value s) \<and>
    (\<forall>p q. is_writer (rwm_pc s p) \<longrightarrow> p \<noteq> q \<longrightarrow> rwm_pc s q = RwmIdle) \<and>
    card (readers s) = unat (rwm_readers (rwm_line s))"
proof -
  have inv: "rwm_inv sz ptr s" by (rule rwm_reachable_inv[OF assms])
  have "bytes = rwm_value s" if "rwm_pc s p = RwmReading bytes" for p bytes
    using rwm_inv_basic(5)[OF inv, of p] that by simp
  then show ?thesis using rwm_writer_alone[OF inv] rwm_inv_basic(4)[OF inv] by metis
qed

theorem rwm_readers_consistent_witness:
  "\<exists>l s. rwm_step\<^sup>*\<^sup>* (rwm_start l (\<lambda>_. 5)) s \<and> rwm_pc s 0 = RwmReading [5] \<and> [5] = rwm_value s"
proof -
  let ?l = "(\<lambda>_. 0)(1 := 0x1000, 0 := 1) :: lockline"
  let ?mem = "\<lambda>_. 5 :: u8"
  have init: "cellSyncRwmInitialize 0x80 0x1000 1 0 [(\<lambda>_. 0, True)] = Stored (\<lambda>_. 0) ?l (Inr ())"
    by (simp add: cellSyncRwmInitialize_def line_aligned_def mfc_legal_size_def)
  have buf: "rwm_buffer ?l = (1, 0x1000)" by (simp add: rwm_buffer_def)
  let ?l1 = "rwm_write_lock (pack16 1 0) ?l"
  let ?s0 = "rwm_start ?l ?mem"
  let ?s1 = "?s0\<lparr>rwm_line := ?l1, rwm_pc := (\<lambda>_. RwmIdle)(0 := RwmCopying (\<lambda>_. None))\<rparr>"
  let ?s2 = "?s1\<lparr>rwm_pc := (rwm_pc ?s1)(0 := RwmCopying ((\<lambda>_. None)(0 \<mapsto> 5)))\<rparr>"
  let ?s3 = "?s2\<lparr>rwm_pc := (rwm_pc ?s2)(0 := RwmReading [5])\<rparr>"
  have "rwm_step ?s0 ?s1"
    using rwm_step.read_begin[of ?s0 0 ?l1 "rwm_buffer ?l"]
    by (simp add: rwm_start_def rwm_read_begin_cases rwm_readers_def rwm_writer_def rwm_read_lock_def)
  moreover have "rwm_step ?s1 ?s2"
    using rwm_step.copy_byte[of ?s1 0 "\<lambda>_. None" 1 "0x1000" 0] buf
    by (simp add: rwm_start_def)
  moreover have "rwm_step ?s2 ?s3"
    using rwm_step.copy_done[of ?s2 0 "(\<lambda>_. None)(0 \<mapsto> 5)" 1 "0x1000"] buf
    by (simp add: rwm_start_def transfer_complete_def)
  ultimately have run: "rwm_step\<^sup>*\<^sup>* ?s0 ?s3" by auto
  show ?thesis using rwm_readers_consistent[OF init run] run by (intro exI[of _ ?l] exI[of _ ?s3]) simp
qed

section \<open>Queue\<close>

text \<open>C12: A bounded queue used by any number of pushers and poppers, with their element transfers
  interleaved byte by byte, is linearizable: the completed operations, in the order of their commits,
  are a history of a first-in first-out queue of the given depth, whose length the descriptor
  counts; provided the depth divides \<open>2 ^ 24\<close> or fewer than \<open>2 ^ 24\<close> elements were pushed.\<close>

theorem queue_linearizable:
  assumes "cellSyncQueueInitialize ea ptr sz depth tag answers = Stored old l (Inr ())"
    and "queue_step\<^sup>*\<^sup>* (queue_start l mem) s"
    and "unat depth dvd 2 ^ 24 \<or> length (filter is_enqueue (queue_log s)) < 2 ^ 24"
  shows "\<exists>q. fifo_run (unat depth) (queue_log s) [] = Some q \<and> length q \<le> unat depth \<and>
    unat (cellSyncQueueSize (queue_line s)) = length q"
proof -
  have "index_exact (unat depth) (queue_log s)" using assms(3) by (simp add: index_exact_def)
  then obtain q n where inv: "queue_inv (unat depth) (unat sz) ptr q n s"
    using queue_reachable_inv[OF assms(1,2)] by blast
  have "length q \<le> unat depth" using fifo_run_bound[OF queue_invD(2)[OF inv]] by simp
  then show ?thesis using queue_invD(2,5)[OF inv] by (auto simp: cellSyncQueueSize_def)
qed

theorem queue_linearizable_witness:
  "\<exists>l s. queue_step\<^sup>*\<^sup>* (queue_start l (\<lambda>_. 0)) s \<and> queue_log s = [Enqueued []] \<and>
     unat (cellSyncQueueSize (queue_line s)) = 1"
proof -
  let ?l = "queue_line_at 0 2 0 0x1000"
  let ?l' = "(\<lambda>_. 0) :: lockline"
  have l: "?l = ?l'(0 := 0, 1 := push_bit 32 (ucast (0 :: u32)) OR ucast (2 :: u32), 2 := 0x1000, 3 := ucast (0 :: u32))"
    by (auto simp: queue_line_at_def queue_make_head_def)
  have init: "cellSyncQueueInitialize 0x80 0x1000 0 2 0 [(?l', True)] = Stored ?l' ?l (Inr ())"
    unfolding l by (simp add: cellSyncQueueInitialize_def line_aligned_def mfc_legal_size_def queue_init_decision_def)
  let ?s0 = "queue_start ?l (\<lambda>_. 0)"
  let ?l1 = "?l(0 := queue_make_head 0 0 1 0)"
  let ?s1 = "?s0\<lparr>queue_line := ?l1, queue_pc := (\<lambda>_. QueueIdle)(0 := QueuePushing 0x1000 [] {})\<rparr>"
  let ?l2 = "?l1(0 := queue_make_head 0 1 0 1)"
  let ?s2 = "?s1\<lparr>queue_line := ?l2, queue_pc := (queue_pc ?s1)(0 := QueueIdle), queue_log := [Enqueued []]\<rparr>"
  have d: "read_depth ?l = 2" "read_bsize ?l = 0" "read_buffer_ea ?l = 0x1000" "?l 0 = 0"
    by (simp_all add: queue_line_at_def read_depth_def read_bsize_def read_buffer_ea_def queue_make_head_def)
  have "push_begin_decision SYNC_AGAIN ?l = Store ?l1 (Inr (0x1000, 0))"
    by (simp add: push_begin_decision_def Let_def d slot_ea_def)
  then have "queue_step ?s0 ?s1"
    using queue_step.push_begin[of ?s0 0 ?l1 "0x1000" 0 "[]"] by (simp add: queue_start_def)
  moreover have "push_commit_decision ?l1 = Store ?l2 (Inr ())"
    by (simp add: push_commit_decision_def Let_def)
  then have "queue_step ?s1 ?s2"
    using queue_step.push_commit[of ?s1 0 "0x1000" "[]" "{}" ?l2] by (simp add: queue_start_def)
  ultimately have run: "queue_step\<^sup>*\<^sup>* ?s0 ?s2" by auto
  show ?thesis
    using queue_linearizable[OF init run] run by (intro exI[of _ ?l] exI[of _ ?s2]) (auto simp: queue_start_def)
qed

text \<open>The 24-bit write index is not the monotonic pointer its comment describes: on a queue of
  depth 3 whose index has reached \<open>2 ^ 24 - 1\<close>, two pushes go to the same slot, so two pops deliver
  the second element twice and the first one is lost.\<close>

theorem queue_index_wrap_loses_element:
  "(case Option.bind (push_alone [7] (queue_line_at 0xFFFFFF 3 1 0x1000, \<lambda>_. 0)) (push_alone [9]) of
      None \<Rightarrow> None
    | Some q \<Rightarrow>
        (case pop_alone q of
           None \<Rightarrow> None
         | Some (x, q') \<Rightarrow> (case pop_alone q' of None \<Rightarrow> None | Some (y, q'') \<Rightarrow> Some (x, y)))) =
    Some ([9], [9])"
  by code_simp

end
