(* ===== verification/Sync_Lfqueue.thy ===== *)
theory Sync_Lfqueue
  imports Sync_Base
begin

text \<open>
  \<open>sdk/libsync/src/lfqueue.c\<close>: the lock-free queue.  Every update is a read-modify-write of one
  128-byte control block; this theory translates the block, the index and waiter-pack arithmetic and
  each entry point as a decision on the block.  \<open>Sync_Lfqueue_Pack\<close> and \<open>Sync_Lfqueue_Ring\<close> hold
  what is proved of them.  The callbacks of the task layer are parameters: the result \<open>wait\<close> of the
  sleep callback and the results \<open>signal\<close> of the wake callback.
\<close>

section \<open>The control block\<close>

record lfqueue =
  popCommit :: u16
  popDone :: u16
  ppuPopWait :: u16
  popReserve :: u16
  pushCommit :: u16
  pushDone :: u16
  ppuPushWait :: u16
  pushReserve :: u16
  lfq_size :: u32
  lfq_depth :: u32
  lfq_buffer :: u64
  lfq_port :: "u8 list"
  lfq_direction :: u32
  lfq_v1 :: u32
  lfq_init :: u32
  popWaitPack :: u16
  popWaiter :: "u16 list"
  pushWaitPack :: u16
  pushWaiter :: "u16 list"
  eaSignal :: u64
  lfq_v2 :: u32
  lfq_eqId :: u32

definition lfq_zero :: lfqueue where
  "lfq_zero = \<lparr>popCommit = 0, popDone = 0, ppuPopWait = 0, popReserve = 0, pushCommit = 0, pushDone = 0,
     ppuPushWait = 0, pushReserve = 0, lfq_size = 0, lfq_depth = 0, lfq_buffer = 0, lfq_port = replicate 4 0,
     lfq_direction = 0, lfq_v1 = 0, lfq_init = 0, popWaitPack = 0, popWaiter = replicate 15 0,
     pushWaitPack = 0, pushWaiter = replicate 15 0, eaSignal = 0, lfq_v2 = 0, lfq_eqId = 0\<rparr>"

definition SPU2SPU :: u32 where "SPU2SPU = 0"
definition SPU2PPU :: u32 where "SPU2PPU = 1"
definition PPU2SPU :: u32 where "PPU2SPU = 2"
definition ANY2ANY :: u32 where "ANY2ANY = 3"
definition PPU_SLEEPING :: u16 where "PPU_SLEEPING = 2"
definition PPU_WAITER :: u16 where "PPU_WAITER = 0xffff"

lemmas lfq_constants = SPU2SPU_def SPU2PPU_def PPU2SPU_def ANY2ANY_def PPU_SLEEPING_def PPU_WAITER_def

section \<open>Index and waiter-pack arithmetic\<close>

definition dist :: "int \<Rightarrow> int \<Rightarrow> int \<Rightarrow> int" where
  "dist x y depth = (if x \<ge> y then x - y else x - y + 2 * depth)"

definition advance :: "int \<Rightarrow> int \<Rightarrow> int \<Rightarrow> int" where
  "advance x k depth = (let x = x + k in if x \<ge> 2 * depth then x - 2 * depth else x)"

definition pk_lo :: "u16 \<Rightarrow> int" where "pk_lo p = uint (p AND 31)"
definition pk_mid :: "u16 \<Rightarrow> int" where "pk_mid p = uint (drop_bit 5 p AND 31)"
definition pk_hi :: "u16 \<Rightarrow> int" where "pk_hi p = uint (drop_bit 10 p AND 31)"
definition mod30 :: "int \<Rightarrow> int" where "mod30 x = (if x < 0 then x + 30 else x)"
definition inc30 :: "int \<Rightarrow> int" where "inc30 c = (if c = 29 then 0 else c + 1)"
definition slot15 :: "int \<Rightarrow> int" where "slot15 c = (if c \<le> 14 then c else c - 15)"
definition pk_signalled :: "u16 \<Rightarrow> int" where "pk_signalled p = mod30 (pk_hi p - pk_mid p)"
definition pk_registered :: "u16 \<Rightarrow> int" where "pk_registered p = mod30 (pk_lo p - pk_hi p)"

definition pk_set_lo :: "u16 \<Rightarrow> int \<Rightarrow> u16" where
  "pk_set_lo p v = (p AND NOT 0x1f) OR word_of_int v"

definition pk_set_mid :: "u16 \<Rightarrow> int \<Rightarrow> u16" where
  "pk_set_mid p v = (p AND 0xfc1f) OR push_bit 5 (word_of_int v)"

definition pk_set_hi :: "u16 \<Rightarrow> int \<Rightarrow> u16" where
  "pk_set_hi p v = (p AND 0x83ff) OR push_bit 10 (word_of_int v)"

text \<open>In ANY2ANY the waiter packs live in the words of the PPU sleepers.\<close>

definition pop_pack :: "lfqueue \<Rightarrow> u16" where
  "pop_pack q = (if lfq_direction q = ANY2ANY then ppuPopWait q else popWaitPack q)"

definition push_pack :: "lfqueue \<Rightarrow> u16" where
  "push_pack q = (if lfq_direction q = ANY2ANY then ppuPushWait q else pushWaitPack q)"

definition set_pop_pack :: "u16 \<Rightarrow> lfqueue \<Rightarrow> lfqueue" where
  "set_pop_pack p q = (if lfq_direction q = ANY2ANY then q\<lparr>ppuPopWait := p\<rparr> else q\<lparr>popWaitPack := p\<rparr>)"

definition set_push_pack :: "u16 \<Rightarrow> lfqueue \<Rightarrow> lfqueue" where
  "set_push_pack p q = (if lfq_direction q = ANY2ANY then q\<lparr>ppuPushWait := p\<rparr> else q\<lparr>pushWaitPack := p\<rparr>)"

text \<open>The four port bytes as the big-endian word the code copies them into.\<close>

definition port_word :: "u8 list \<Rightarrow> u32" where
  "port_word ps = push_bit 24 (ucast (ps ! 0)) OR push_bit 16 (ucast (ps ! 1)) OR push_bit 8 (ucast (ps ! 2))
     OR ucast (ps ! 3)"

definition ports_attached :: "lfqueue \<Rightarrow> bool" where
  "ports_attached q \<longleftrightarrow> port_word (lfq_port q) \<noteq> 0xffffffff"

definition check_ea :: "u64 \<Rightarrow> sync_error option" where
  "check_ea ea =
     (if ea = 0 then Some SYNC_NULL_POINTER
      else if ea AND 0x7f \<noteq> 0 then Some SYNC_ALIGN
      else None)"

section \<open>Initialization and queries\<close>

definition lfq_init_args :: "u64 \<Rightarrow> u64 \<Rightarrow> u32 \<Rightarrow> u32 \<Rightarrow> u32 \<Rightarrow> sync_error option" where
  "lfq_init_args ea buffer sz depth direction =
     (if ea = 0 \<or> (sz \<noteq> 0 \<and> buffer = 0) then Some SYNC_NULL_POINTER
      else if sz AND 15 \<noteq> 0 \<or> depth = 0 \<or> sz > 0x4000 \<or> depth AND 0xffff8000 \<noteq> 0 \<or> direction > ANY2ANY
      then Some SYNC_INVAL
      else if ea AND 0x7f \<noteq> 0 \<or> buffer AND 15 \<noteq> 0 then Some SYNC_ALIGN
      else None)"

definition lfq_fresh :: "u64 \<Rightarrow> u32 \<Rightarrow> u32 \<Rightarrow> u32 \<Rightarrow> u64 \<Rightarrow> lfqueue \<Rightarrow> lfqueue" where
  "lfq_fresh buffer sz depth direction signal_ea q =
     (let q = q\<lparr>lfq_size := sz, lfq_depth := depth, lfq_direction := direction, eaSignal := signal_ea, lfq_init := 2\<rparr>
      in if direction = ANY2ANY
         then q\<lparr>lfq_buffer := buffer OR 1, lfq_port := (lfq_port q)[0 := 0xff, 1 := 0xff], lfq_v1 := 0xffffffff,
                popWaitPack := 0xffff, pushWaitPack := 0xffff\<rparr>
         else q\<lparr>lfq_buffer := buffer, lfq_port := [0xff, 0xff, 0xff, 0xff]\<rparr>)"

definition lfq_init_decision ::
  "u64 \<Rightarrow> u32 \<Rightarrow> u32 \<Rightarrow> u32 \<Rightarrow> u64 \<Rightarrow> lfqueue \<Rightarrow> (lfqueue, unit sync_result) decision" where
  "lfq_init_decision buffer sz depth direction signal_ea q =
     (if lfq_init q = 1 then Return (Inl SYNC_BUSY)
      else if lfq_init q = 0
      then (if q \<noteq> lfq_zero then Return (Inl SYNC_STAT)
            else Store (lfq_fresh buffer sz depth direction signal_ea q) (Inr ()))
      else if lfq_init q = 2
      then (if lfq_size q \<noteq> sz \<or> lfq_depth q \<noteq> depth \<or> lfq_buffer q \<noteq> buffer \<or> eaSignal q \<noteq> signal_ea \<or>
              (lfq_direction q \<noteq> direction \<and> direction \<noteq> SPU2SPU)
            then Return (Inl SYNC_INVAL)
            else Store q (Inr ()))
      else Return (Inl SYNC_STAT))"

definition cellSyncLFQueueInitialize ::
  "u64 \<Rightarrow> u64 \<Rightarrow> u32 \<Rightarrow> u32 \<Rightarrow> u32 \<Rightarrow> u64 \<Rightarrow> (lfqueue \<times> bool) list \<Rightarrow> (lfqueue, unit sync_result) outcome" where
  "cellSyncLFQueueInitialize ea buffer sz depth direction signal_ea answers =
     (case lfq_init_args ea buffer sz depth direction of
        Some e \<Rightarrow> Returned (Inl e)
      | None \<Rightarrow> llsc_loop (lfq_init_decision buffer sz depth direction signal_ea) answers)"

text \<open>A query checks its two pointers, reads the block once and returns one value of it.\<close>

definition lfq_query :: "(lfqueue \<Rightarrow> 'a) \<Rightarrow> u64 \<Rightarrow> u32 \<Rightarrow> lfqueue \<Rightarrow> 'a sync_result" where
  "lfq_query get ea out q =
     (if ea = 0 \<or> out = 0 then Inl SYNC_NULL_POINTER
      else if ea AND 0x7f \<noteq> 0 then Inl SYNC_ALIGN
      else Inr (get q))"

definition cellSyncLFQueueSize :: "u64 \<Rightarrow> u32 \<Rightarrow> lfqueue \<Rightarrow> u32 sync_result" where
  "cellSyncLFQueueSize =
     lfq_query (\<lambda>q. word_of_int (dist (uint (pushCommit q)) (uint (popCommit q)) (uint (lfq_depth q))))"

definition cellSyncLFQueueDepth :: "u64 \<Rightarrow> u32 \<Rightarrow> lfqueue \<Rightarrow> u32 sync_result" where
  "cellSyncLFQueueDepth = lfq_query lfq_depth"

definition cellSyncLFQueueGetDirection :: "u64 \<Rightarrow> u32 \<Rightarrow> lfqueue \<Rightarrow> u32 sync_result" where
  "cellSyncLFQueueGetDirection = lfq_query lfq_direction"

definition cellSyncLFQueueGetEntrySize :: "u64 \<Rightarrow> u32 \<Rightarrow> lfqueue \<Rightarrow> u32 sync_result" where
  "cellSyncLFQueueGetEntrySize = lfq_query lfq_size"

definition cellSyncLFQueueGetSignalAddress :: "u64 \<Rightarrow> u32 \<Rightarrow> lfqueue \<Rightarrow> u64 sync_result" where
  "cellSyncLFQueueGetSignalAddress = lfq_query eaSignal"

definition lfq_clear_decision :: "lfqueue \<Rightarrow> (lfqueue, unit sync_result) decision" where
  "lfq_clear_decision q =
     (let q = (if lfq_direction q = ANY2ANY
               then q\<lparr>popWaitPack := ppuPopWait q, pushWaitPack := ppuPushWait q\<rparr> else q)
      in if popReserve q \<noteq> popCommit q \<or> pushReserve q \<noteq> pushCommit q
            \<or> pk_hi (popWaitPack q) \<noteq> pk_lo (popWaitPack q)
            \<or> pk_hi (pushWaitPack q) \<noteq> pk_lo (pushWaitPack q)
         then Return (Inl SYNC_BUSY)
         else Store (q\<lparr>popCommit := 0, popDone := 0, popReserve := 0,
                       pushCommit := 0, pushDone := 0, pushReserve := 0\<rparr>) (Inr ()))"

definition cellSyncLFQueueClear :: "u64 \<Rightarrow> (lfqueue \<times> bool) list \<Rightarrow> (lfqueue, unit sync_result) outcome" where
  "cellSyncLFQueueClear ea answers =
     (case check_ea ea of
        Some e \<Rightarrow> Returned (Inl e)
      | None \<Rightarrow> llsc_loop lfq_clear_decision answers)"

section \<open>Reservation\<close>

text \<open>
  One pass of \<open>get_pointer\<close>.  The pass grants an index, gives up (with the index it looked at),
  puts the caller to sleep after registering it, or starts over.
\<close>

datatype pointer_result = Granted int | NotNow int | Asleep int | StartOver | Forbidden

definition must_wait :: "bool \<Rightarrow> bool \<Rightarrow> lfqueue \<Rightarrow> bool" where
  "must_wait push woken q =
     (let depth = uint (lfq_depth q);
          h1 = uint (popCommit q); h4 = sint (popReserve q);
          h5 = uint (pushCommit q); h8 = sint (pushReserve q);
          pack = (if push then push_pack q else pop_pack q);
          a = pk_signalled pack; b = pk_registered pack
      in if push
         then (let used = dist h8 h1 depth; out = dist h8 h5 depth
               in if woken then used \<ge> depth \<or> out > 15 else used + a \<ge> depth \<or> out + a > 15 \<or> b \<noteq> 0)
         else (let used = dist h5 h4 depth; out = dist h4 h1 depth
               in if woken then used \<le> 0 \<or> out > 15 else used - a \<le> 0 \<or> out + a > 15 \<or> b \<noteq> 0))"

definition own_pack :: "bool \<Rightarrow> lfqueue \<Rightarrow> u16" where
  "own_pack push q = (if push then push_pack q else pop_pack q)"

definition set_own_pack :: "bool \<Rightarrow> u16 \<Rightarrow> lfqueue \<Rightarrow> lfqueue" where
  "set_own_pack push p q = (if push then set_push_pack p q else set_pop_pack p q)"

definition set_waiter :: "bool \<Rightarrow> int \<Rightarrow> u16 \<Rightarrow> lfqueue \<Rightarrow> lfqueue" where
  "set_waiter push i w q =
     (if push then q\<lparr>pushWaiter := (pushWaiter q)[nat i := w]\<rparr> else q\<lparr>popWaiter := (popWaiter q)[nat i := w]\<rparr>)"

definition own_index :: "bool \<Rightarrow> lfqueue \<Rightarrow> int" where
  "own_index push q = (if push then sint (pushReserve q) else sint (popReserve q))"

definition take_index :: "bool \<Rightarrow> lfqueue \<Rightarrow> lfqueue" where
  "take_index push q =
     (if push then q\<lparr>pushReserve := word_of_int (advance (sint (pushReserve q)) 1 (uint (lfq_depth q)))\<rparr>
      else q\<lparr>popReserve := word_of_int (advance (sint (popReserve q)) 1 (uint (lfq_depth q)))\<rparr>)"

definition get_pointer_decision ::
  "bool \<Rightarrow> bool \<Rightarrow> u16 \<Rightarrow> bool \<Rightarrow> lfqueue \<Rightarrow> (lfqueue, pointer_result) decision" where
  "get_pointer_decision push can_wait myId woken q =
     (if lfq_direction q = (if push then PPU2SPU else SPU2PPU) then Return Forbidden
      else let pack = own_pack push q; a = pk_signalled pack; b = pk_registered pack;
               waiting = must_wait push woken q; index = own_index push q
           in if woken
              then (if \<not> waiting
                    then Store (take_index push (set_own_pack push (pk_set_mid pack (inc30 (pk_mid pack))) q)) (Granted index)
                    else Store q StartOver)
              else if \<not> waiting then Store (take_index push q) (Granted index)
              else if \<not> can_wait then Return (NotNow index)
              else if a + b \<ge> 15 then Store q (NotNow index)
              else let lo = pk_lo pack
                   in Store (set_own_pack push (pk_set_lo pack (inc30 lo)) (set_waiter push (slot15 lo) myId q))
                        (Asleep index))"

text \<open>
  The loop of \<open>get_pointer\<close> against the answers of the memory.  The wait callback is called at most
  once, so its behaviour is the result code it returns (\<open>None\<close>: no callback).
\<close>

datatype reservation = Pending | Reserved int | Refused sync_error | WaitFailed u32

fun get_pointer :: "bool \<Rightarrow> u32 option \<Rightarrow> u16 \<Rightarrow> bool \<Rightarrow> (lfqueue \<times> bool) list \<Rightarrow> reservation" where
  "get_pointer push wait myId woken [] = Pending"
| "get_pointer push wait myId woken ((q, ok) # answers) =
     (case get_pointer_decision push (wait \<noteq> None) myId woken q of
        Return Forbidden \<Rightarrow> Refused SYNC_PERM
      | Return _ \<Rightarrow> Refused SYNC_AGAIN
      | Again \<Rightarrow> get_pointer push wait myId woken answers
      | Store q' r \<Rightarrow>
          if \<not> ok then get_pointer push wait myId woken answers
          else (case r of
                  Granted i \<Rightarrow> Reserved i
                | NotNow i \<Rightarrow> Refused SYNC_AGAIN
                | Asleep i \<Rightarrow>
                    (case wait of
                       Some rc \<Rightarrow> if rc \<noteq> 0 then WaitFailed rc else get_pointer push wait myId True answers
                     | None \<Rightarrow> Pending)
                | _ \<Rightarrow> get_pointer push wait myId woken answers))"

definition cellSyncLFQueueGetPushPointer :: "u32 option \<Rightarrow> u16 \<Rightarrow> (lfqueue \<times> bool) list \<Rightarrow> reservation" where
  "cellSyncLFQueueGetPushPointer wait myId answers = get_pointer True wait myId False answers"

definition cellSyncLFQueueGetPopPointer :: "u32 option \<Rightarrow> u16 \<Rightarrow> (lfqueue \<times> bool) list \<Rightarrow> reservation" where
  "cellSyncLFQueueGetPopPointer wait myId answers = get_pointer False wait myId False answers"

section \<open>Completion\<close>

text \<open>How many leading indices of the done map are complete, from position \<open>n\<close> on.\<close>

function completed_run :: "u32 \<Rightarrow> nat \<Rightarrow> nat" where
  "completed_run bm n = (if n < 16 \<and> bm AND drop_bit n 0x8000 \<noteq> 0 then completed_run bm (n + 1) else n)"
  by pat_completeness auto
termination by (relation "measure (\<lambda>(bm, n). 16 - n)") auto

declare completed_run.simps [simp del]

definition complete :: "u16 \<Rightarrow> u16 \<Rightarrow> int \<Rightarrow> int \<Rightarrow> u16 \<times> u16 \<times> nat" where
  "complete commit don pointer depth =
     (let var = dist pointer (uint commit) depth;
          bm = ucast don :: u32;
          bm = (if var \<le> 15 then bm OR push_bit (nat (15 - var)) 1 else bm);
          n = completed_run bm 0
      in (word_of_int (advance (uint commit) (int n) depth), ucast (push_bit n bm AND 0xffff), n))"

text \<open>The next signalled waiter: its id, or for a sleeping PPU thread its event port with \<open>0xff00\<close>.\<close>

definition signal_next :: "u16 \<Rightarrow> u16 list \<Rightarrow> u8 \<Rightarrow> u32 \<times> u16" where
  "signal_next pack waiter port =
     (let hi = pk_hi pack; id = waiter ! nat (slot15 hi)
      in (if id = PPU_WAITER then 0xff00 OR ucast port else ucast id, pk_set_hi pack (inc30 hi)))"

text \<open>
  The waking loop of a completion runs once per index advanced.  Its variables: the ids collected,
  the two packs, and the candidates and room of the poppers and the pushers.
\<close>

record wake =
  wake_list :: "u32 list"
  wake_pp :: u16
  wake_up :: u16
  popCand :: int
  popRoom :: int
  pushCand :: int
  pushRoom :: int

definition wake_popper :: "lfqueue \<Rightarrow> int \<Rightarrow> wake \<Rightarrow> wake" where
  "wake_popper q by w =
     (let (id, pp) = signal_next (wake_pp w) (popWaiter q) (lfq_port q ! 0)
      in w\<lparr>wake_list := wake_list w @ [id], wake_pp := pp, popCand := popCand w - 1, popRoom := popRoom w + by\<rparr>)"

definition wake_pusher :: "lfqueue \<Rightarrow> wake \<Rightarrow> wake" where
  "wake_pusher q w =
     (let (id, up) = signal_next (wake_up w) (pushWaiter q) (lfq_port q ! 1)
      in w\<lparr>wake_list := wake_list w @ [id], wake_up := up, pushCand := pushCand w - 1, pushRoom := pushRoom w + 1\<rparr>)"

fun push_wake_loop :: "nat \<Rightarrow> int \<Rightarrow> bool \<Rightarrow> lfqueue \<Rightarrow> wake \<Rightarrow> wake" where
  "push_wake_loop 0 depth arg5 q w = w"
| "push_wake_loop (Suc n) depth arg5 q w =
     (let w = (if popCand w > 0 \<and> popRoom w \<le> 15 then wake_popper q 1 w else w);
          w = (if pushCand w > 0 \<and> (depth > pushRoom w \<or> arg5) then wake_pusher q w else w)
      in push_wake_loop n depth arg5 q w)"

fun pop_wake_loop :: "nat \<Rightarrow> lfqueue \<Rightarrow> wake \<Rightarrow> wake" where
  "pop_wake_loop 0 q w = w"
| "pop_wake_loop (Suc n) q w =
     (let w = (if popCand w > 0 \<and> popRoom w > 0 then wake_popper q (-1) w else w);
          w = (if pushCand w > 0 \<and> pushRoom w \<le> 15 then wake_pusher q w else w)
      in pop_wake_loop n q w)"

text \<open>A completion stores the new block and yields the throw flag and the ids to wake.\<close>

datatype completion = Woke bool "u32 list" | NotPermitted

definition complete_push :: "int \<Rightarrow> bool \<Rightarrow> lfqueue \<Rightarrow> lfqueue \<times> bool \<times> u32 list" where
  "complete_push pointer arg5 q =
     (let depth = uint (lfq_depth q);
          h1 = uint (popCommit q); h4 = sint (popReserve q);
          h5 = uint (pushCommit q); h8 = sint (pushReserve q);
          (commit, don, n) = complete (pushCommit q) (pushDone q) pointer depth;
          q = q\<lparr>pushCommit := commit, pushDone := don\<rparr>;
          q = (if h5 = h8 then q\<lparr>pushReserve := pushCommit q\<rparr> else q);
          h8 = sint (pushReserve q);
          throw = lfq_direction q = SPU2PPU \<and> h5 = h4 \<and> (ppuPopWait q AND PPU_SLEEPING \<noteq> 0 \<or> ports_attached q);
          q = (if throw then q\<lparr>ppuPopWait := ppuPopWait q AND NOT PPU_SLEEPING\<rparr> else q);
          pp = pop_pack q; up = push_pack q;
          poproom = dist h4 h1 depth + pk_signalled pp;
          pushroom = dist h8 h1 depth + pk_signalled up;
          w = push_wake_loop n depth arg5 q
                \<lparr>wake_list = [], wake_pp = pp, wake_up = up,
                 popCand = (if poproom \<le> 15 then pk_registered pp else 0), popRoom = poproom,
                 pushCand = (if depth > pushroom \<or> arg5 then pk_registered up else 0), pushRoom = pushroom\<rparr>
      in (set_push_pack (wake_up w) (set_pop_pack (wake_pp w) q), throw, wake_list w))"

definition complete_pop :: "int \<Rightarrow> bool \<Rightarrow> lfqueue \<Rightarrow> lfqueue \<times> bool \<times> u32 list" where
  "complete_pop pointer noQueueFull q =
     (let depth = uint (lfq_depth q);
          h1 = uint (popCommit q); h4 = sint (popReserve q);
          h5 = uint (pushCommit q); h8 = sint (pushReserve q);
          throw = lfq_direction q = PPU2SPU \<and> dist h8 h1 depth = depth
            \<and> (ppuPushWait q AND PPU_SLEEPING \<noteq> 0 \<or> ports_attached q);
          q = (if throw then q\<lparr>ppuPushWait := ppuPushWait q AND NOT PPU_SLEEPING\<rparr> else q);
          (commit, don, n) = complete (popCommit q) (popDone q) pointer depth;
          q = q\<lparr>popCommit := commit, popDone := don\<rparr>;
          pp = pop_pack q; up = push_pack q;
          poproom = dist h5 h4 depth - pk_signalled pp;
          pushroom = dist h8 h5 depth + pk_signalled up;
          w = pop_wake_loop n q
                \<lparr>wake_list = [], wake_pp = pp, wake_up = up,
                 popCand = (if poproom > 0 then pk_registered pp else 0), popRoom = poproom,
                 pushCand = (if pushroom \<le> 15 \<and> \<not> noQueueFull then pk_registered up else 0), pushRoom = pushroom\<rparr>
      in (set_push_pack (wake_up w) (set_pop_pack (wake_pp w) q), throw, wake_list w))"

definition complete_pointer_decision :: "bool \<Rightarrow> int \<Rightarrow> bool \<Rightarrow> lfqueue \<Rightarrow> (lfqueue, completion) decision" where
  "complete_pointer_decision push pointer arg5 q =
     (if lfq_direction q = (if push then PPU2SPU else SPU2PPU) then Return NotPermitted
      else let (q', throw, ids) = (if push then complete_push pointer arg5 q else complete_pop pointer arg5 q)
           in Store q' (Woke throw ids))"

text \<open>
  Waking: the events thrown to PPU queues and the ids signalled, in order, with the result.  The
  callback \<open>signal\<close> answers each id with a code; a contradiction in the block stops the processor.
\<close>

datatype wake_effect = Threw u32 | Signalled u64 u32

datatype wake_result = WokeAll | NoCallback | SignalFailed u32 | Halted

definition throw_event :: "u32 \<Rightarrow> wake_effect list" where
  "throw_event port = (let port = port AND 0xff in if port > 63 then [] else [Threw port])"

fun wake_ids ::
  "bool \<Rightarrow> bool \<Rightarrow> (u32 \<Rightarrow> u32) \<Rightarrow> u64 \<Rightarrow> u32 list \<Rightarrow> wake_effect list \<times> wake_result" where
  "wake_ids thrown allowThrow signal ea [] = ([], WokeAll)"
| "wake_ids thrown allowThrow signal ea (e # ids) =
     (if e AND 0xff00 = 0xff00
      then if e AND 0xff = 0xff \<or> thrown \<or> \<not> allowThrow then ([], Halted)
           else let (es, r) = wake_ids thrown allowThrow signal ea ids in (throw_event e @ es, r)
      else if signal e \<noteq> 0 then ([Signalled ea e], SignalFailed (signal e))
      else let (es, r) = wake_ids thrown allowThrow signal ea ids in (Signalled ea e # es, r))"

definition cellSyncLFQueueWakeUp ::
  "bool \<Rightarrow> u32 list \<Rightarrow> (u32 \<Rightarrow> u32) option \<Rightarrow> bool \<Rightarrow> lfqueue \<Rightarrow> wake_effect list \<times> wake_result" where
  "cellSyncLFQueueWakeUp throwFlag ids signal allowThrow q =
     (let ports = port_word (lfq_port q)
      in if throwFlag \<and> allowThrow \<and> ports = 0xffffffff then ([], Halted)
         else let first = (if throwFlag \<and> allowThrow then throw_event ports else [])
              in (case signal of
                    None \<Rightarrow> (first, if ids \<noteq> [] then NoCallback else WokeAll)
                  | Some f \<Rightarrow>
                      let (es, r) = wake_ids (throwFlag \<and> allowThrow) allowThrow f (eaSignal q) ids
                      in (first @ es, r)))"

text \<open>A whole completion: the loop on the block, then the waking with the block it stored.\<close>

definition complete_pointer ::
  "bool \<Rightarrow> int \<Rightarrow> (u32 \<Rightarrow> u32) option \<Rightarrow> bool \<Rightarrow> bool \<Rightarrow> (lfqueue \<times> bool) list \<Rightarrow>
     (lfqueue, (wake_effect list \<times> wake_result) sync_result) outcome" where
  "complete_pointer push pointer signal allowThrow arg5 answers =
     (case llsc_loop (complete_pointer_decision push pointer arg5) answers of
        Stored old new (Woke throw ids) \<Rightarrow>
          Stored old new (Inr (cellSyncLFQueueWakeUp throw ids signal allowThrow new))
      | Returned _ \<Rightarrow> Returned (Inl SYNC_PERM)
      | _ \<Rightarrow> Spinning)"

section \<open>Entry transfer and the public operations\<close>

definition entry_slot :: "lfqueue \<Rightarrow> int \<Rightarrow> int" where
  "entry_slot q pointer =
     (let depth = uint (lfq_depth q) in if pointer \<ge> depth then pointer - depth else pointer)"

definition lfq_entry_ea :: "lfqueue \<Rightarrow> int \<Rightarrow> u64" where
  "lfq_entry_ea q pointer =
     (lfq_buffer q AND NOT 1) + scast ((word_of_int (entry_slot q pointer) :: u32) * lfq_size q)"

record container =
  container_buffer :: u32
  container_pointer :: int
  container_tag :: u32

definition check_container :: "u64 \<Rightarrow> container option \<Rightarrow> sync_error option" where
  "check_container ea c =
     (case c of
        None \<Rightarrow> Some SYNC_NULL_POINTER
      | Some c \<Rightarrow>
          if ea = 0 \<or> container_buffer c = 0 then Some SYNC_NULL_POINTER
          else if container_buffer c AND 15 \<noteq> 0 \<or> ea AND 0x7f \<noteq> 0 then Some SYNC_ALIGN
          else if container_tag c > 31 then Some SYNC_INVAL
          else None)"

text \<open>
  A Begin without callbacks: a blocking one repeats while the answer is AGAIN, so it runs on the
  same stream of answers with the giving up replaced by another pass.  The result is the pointer
  for the container and the address and size of the transfer it starts.
\<close>

fun spin_pointer :: "bool \<Rightarrow> (lfqueue \<times> bool) list \<Rightarrow> (lfqueue \<times> int) sync_result option" where
  "spin_pointer push [] = None"
| "spin_pointer push ((q, ok) # answers) =
     (case get_pointer_decision push False 0 False q of
        Return Forbidden \<Rightarrow> Some (Inl SYNC_PERM)
      | Store q' (Granted i) \<Rightarrow> if ok then Some (Inr (q', i)) else spin_pointer push answers
      | _ \<Rightarrow> spin_pointer push answers)"

fun try_pointer :: "bool \<Rightarrow> (lfqueue \<times> bool) list \<Rightarrow> (lfqueue \<times> int) sync_result option" where
  "try_pointer push [] = None"
| "try_pointer push ((q, ok) # answers) =
     (case get_pointer_decision push False 0 False q of
        Return Forbidden \<Rightarrow> Some (Inl SYNC_PERM)
      | Return _ \<Rightarrow> Some (Inl SYNC_AGAIN)
      | Store q' (Granted i) \<Rightarrow> if ok then Some (Inr (q', i)) else try_pointer push answers
      | _ \<Rightarrow> try_pointer push answers)"

definition begin_body ::
  "bool \<Rightarrow> u64 \<Rightarrow> container option \<Rightarrow> bool \<Rightarrow> (lfqueue \<times> bool) list \<Rightarrow> (lfqueue \<times> int \<times> u64 \<times> u32) sync_result option" where
  "begin_body push ea c isBlocking answers =
     (case check_container ea c of
        Some e \<Rightarrow> Some (Inl e)
      | None \<Rightarrow>
          (case (if isBlocking then spin_pointer push answers else try_pointer push answers) of
             None \<Rightarrow> None
           | Some (Inl e) \<Rightarrow> Some (Inl e)
           | Some (Inr (q, i)) \<Rightarrow> Some (Inr (q, i, lfq_entry_ea q i, lfq_size q))))"

definition cellSyncLFQueuePushBeginBody where
  "cellSyncLFQueuePushBeginBody = begin_body True"

definition cellSyncLFQueuePopBeginBody where
  "cellSyncLFQueuePopBeginBody = begin_body False"

definition end_body ::
  "bool \<Rightarrow> u64 \<Rightarrow> container option \<Rightarrow> (lfqueue \<times> bool) list \<Rightarrow>
     (lfqueue, (wake_effect list \<times> wake_result) sync_result) outcome" where
  "end_body push ea c answers =
     (case check_container ea c of
        Some e \<Rightarrow> Returned (Inl e)
      | None \<Rightarrow> complete_pointer push (container_pointer (the c)) None False False answers)"

definition cellSyncLFQueuePushEnd where
  "cellSyncLFQueuePushEnd = end_body True"

definition cellSyncLFQueuePopEnd where
  "cellSyncLFQueuePopEnd = end_body False"

end
