(* ===== verification/Bounded_Fifo.thy ===== *)
theory Bounded_Fifo
  imports Prelude
begin

text \<open>
  The interface of a bounded first-in first-out store, as its clients see it: the laws of one
  insertion and one removal over an abstraction to lists, and what follows for whole histories.
\<close>

locale bounded_fifo =
  fixes enq :: "'a \<Rightarrow> 's \<Rightarrow> 's" and deq :: "'s \<Rightarrow> 'a \<times> 's" and contents :: "'s \<Rightarrow> 'a list"
    and inv :: "'s \<Rightarrow> bool" and room :: "'s \<Rightarrow> bool"
  assumes enq_inv: "inv s \<Longrightarrow> room s \<Longrightarrow> inv (enq x s)"
    and enq_contents: "inv s \<Longrightarrow> room s \<Longrightarrow> contents (enq x s) = contents s @ [x]"
    and deq_inv: "inv s \<Longrightarrow> contents s \<noteq> [] \<Longrightarrow> inv (snd (deq s))"
    and deq_contents: "inv s \<Longrightarrow> contents s \<noteq> [] \<Longrightarrow> fst (deq s) # contents (snd (deq s)) = contents s"
begin

text \<open>Removing repeatedly yields the contents in order.\<close>

fun drain :: "nat \<Rightarrow> 's \<Rightarrow> 'a list \<times> 's" where
  "drain 0 s = ([], s)"
| "drain (Suc n) s = (let (x, s) = deq s; (xs, s) = drain n s in (x # xs, s))"

lemma drain_take:
  "inv s \<Longrightarrow> n \<le> length (contents s) \<Longrightarrow>
   fst (drain n s) = take n (contents s) \<and> contents (snd (drain n s)) = drop n (contents s) \<and> inv (snd (drain n s))"
proof (induction n arbitrary: s)
  case (Suc n)
  then have ne: "contents s \<noteq> []" by auto
  have step: "fst (deq s) # contents (snd (deq s)) = contents s" "inv (snd (deq s))"
    using deq_contents[OF Suc.prems(1) ne] deq_inv[OF Suc.prems(1) ne] by simp_all
  then have "n \<le> length (contents (snd (deq s)))" using Suc.prems(2) by (metis Suc_le_mono length_Cons)
  then have IH: "fst (drain n (snd (deq s))) = take n (contents (snd (deq s)))"
    "contents (snd (drain n (snd (deq s)))) = drop n (contents (snd (deq s)))" "inv (snd (drain n (snd (deq s))))"
    using Suc.IH[OF step(2)] by simp_all
  show ?case unfolding step(1)[symmetric] using IH by (simp add: case_prod_beta Let_def)
qed simp

lemma enq_deq_other:
  "inv s \<Longrightarrow> room s \<Longrightarrow> contents s \<noteq> [] \<Longrightarrow> fst (deq (enq x s)) = hd (contents s)"
  using deq_contents[of "enq x s"] enq_inv[of s x] enq_contents[of s x] by (metis Nil_is_append_conv hd_append2 list.sel(1))

end

end
