(* ===== verification/Sync_Lfqueue_Pack.thy ===== *)
theory Sync_Lfqueue_Pack
  imports Sync_Lfqueue Bounded_Fifo
begin

text \<open>
  The waiter packs of \<open>lfqueue.c\<close>: three 5-bit counters modulo 30 over an array of 15 ids.  A caller
  that must wait registers its id, a completion signals the oldest registered one, and a woken caller
  resumes.  Registering and signalling implement a first-in first-out store of at most 15 ids.
\<close>

section \<open>The counters of a pack\<close>

lemma pack_masks:
  "(31 :: u16) = mask 5" "(0x1f :: u16) = mask 5" "(0xfc1f :: u16) = NOT (push_bit 5 (mask 5))"
  "(0x83ff :: u16) = NOT (push_bit 10 (mask 5))"
  by (simp_all add: mask_eq_exp_minus_1)

lemma small5: "0 \<le> v \<Longrightarrow> v < 32 \<Longrightarrow> (word_of_int v :: u16) AND mask 5 = word_of_int v"
proof -
  assume v: "0 \<le> v" "v < 32"
  then have "take_bit 5 v = v" by (intro take_bit_int_eq_self) simp_all
  then have "take_bit 5 (word_of_int v :: u16) = word_of_int v" by (metis of_int_take_bit)
  then show ?thesis by (simp add: take_bit_eq_mask)
qed

lemma uint_small5: "0 \<le> v \<Longrightarrow> v < 32 \<Longrightarrow> uint (word_of_int v :: u16) = v"
  by (simp add: uint_word_of_int_eq take_bit_int_eq_self)

lemma pack_fields:
  assumes w: "(w :: u16) AND mask 5 = w"
  shows "((p AND NOT (mask 5)) OR w) AND mask 5 = w"
    "drop_bit 5 ((p AND NOT (mask 5)) OR w) = drop_bit 5 p"
    "drop_bit 10 ((p AND NOT (mask 5)) OR w) = drop_bit 10 p"
    "((p AND NOT (push_bit 5 (mask 5))) OR push_bit 5 w) AND mask 5 = p AND mask 5"
    "drop_bit 5 ((p AND NOT (push_bit 5 (mask 5))) OR push_bit 5 w) AND mask 5 = w"
    "drop_bit 10 ((p AND NOT (push_bit 5 (mask 5))) OR push_bit 5 w) = drop_bit 10 p"
    "((p AND NOT (push_bit 10 (mask 5))) OR push_bit 10 w) AND mask 5 = p AND mask 5"
    "drop_bit 5 ((p AND NOT (push_bit 10 (mask 5))) OR push_bit 10 w) AND mask 5 = drop_bit 5 p AND mask 5"
    "drop_bit 10 ((p AND NOT (push_bit 10 (mask 5))) OR push_bit 10 w) AND mask 5 = w"
proof -
  have b: "bit w i \<Longrightarrow> i < 5" for i using w by (metis bit_and_iff bit_mask_iff)
  then have n: "\<not> i < 5 \<Longrightarrow> \<not> bit w i" for i by blast
  show "((p AND NOT (mask 5)) OR w) AND mask 5 = w" by (rule bit_word_eqI) (auto simp: bit_simps dest: b)
  show "drop_bit 5 ((p AND NOT (mask 5)) OR w) = drop_bit 5 p" by (rule bit_word_eqI) (auto simp: bit_simps n dest: bit_imp_le_length)
  show "drop_bit 10 ((p AND NOT (mask 5)) OR w) = drop_bit 10 p" by (rule bit_word_eqI) (auto simp: bit_simps n dest: bit_imp_le_length)
  show "((p AND NOT (push_bit 5 (mask 5))) OR push_bit 5 w) AND mask 5 = p AND mask 5"
    by (rule bit_word_eqI) (auto simp: bit_simps)
  show "drop_bit 5 ((p AND NOT (push_bit 5 (mask 5))) OR push_bit 5 w) AND mask 5 = w"
    by (rule bit_word_eqI) (auto simp: bit_simps dest: b)
  show "drop_bit 10 ((p AND NOT (push_bit 5 (mask 5))) OR push_bit 5 w) = drop_bit 10 p"
    by (rule bit_word_eqI) (auto simp: bit_simps n dest: bit_imp_le_length)
  show "((p AND NOT (push_bit 10 (mask 5))) OR push_bit 10 w) AND mask 5 = p AND mask 5"
    by (rule bit_word_eqI) (auto simp: bit_simps)
  show "drop_bit 5 ((p AND NOT (push_bit 10 (mask 5))) OR push_bit 10 w) AND mask 5 = drop_bit 5 p AND mask 5"
    by (rule bit_word_eqI) (auto simp: bit_simps)
  show "drop_bit 10 ((p AND NOT (push_bit 10 (mask 5))) OR push_bit 10 w) AND mask 5 = w"
    by (rule bit_word_eqI) (auto simp: bit_simps dest: b)
qed

lemma pk_set [simp]:
  assumes "0 \<le> v" "v < 32"
  shows "pk_lo (pk_set_lo p v) = v" "pk_mid (pk_set_lo p v) = pk_mid p" "pk_hi (pk_set_lo p v) = pk_hi p"
    "pk_lo (pk_set_mid p v) = pk_lo p" "pk_mid (pk_set_mid p v) = v" "pk_hi (pk_set_mid p v) = pk_hi p"
    "pk_lo (pk_set_hi p v) = pk_lo p" "pk_mid (pk_set_hi p v) = pk_mid p" "pk_hi (pk_set_hi p v) = v"
  unfolding pk_lo_def pk_mid_def pk_hi_def pk_set_lo_def pk_set_mid_def pk_set_hi_def pack_masks
    pack_fields[OF small5[OF assms]] uint_small5[OF assms] by (rule refl)+

section \<open>The waiting ids\<close>

text \<open>
  A good pack: with \<open>m\<close> resumed, \<open>a\<close> signalled and \<open>b\<close> registered waiters.  The registered ids, oldest
  first, lie in the slots from the signalled counter on.
\<close>

definition pack_counts :: "u16 \<Rightarrow> nat \<Rightarrow> nat \<Rightarrow> nat \<Rightarrow> bool" where
  "pack_counts p m a b \<longleftrightarrow> a + b \<le> 15 \<and>
     pk_mid p = int (m mod 30) \<and> pk_hi p = int ((m + a) mod 30) \<and> pk_lo p = int ((m + a + b) mod 30)"

definition waiting_ids :: "u16 \<Rightarrow> u16 list \<Rightarrow> u16 list" where
  "waiting_ids p arr = map (\<lambda>i. arr ! ((nat (pk_hi p) + i) mod 15)) [0..<nat (pk_registered p)]"

lemma mod30_diff: "x < 30 \<Longrightarrow> mod30 (int ((k + x) mod 30) - int (k mod 30)) = int x"
proof -
  assume x: "x < 30"
  define r where "r = k mod 30"
  have "(k + x) mod 30 = (r + x) mod 30" by (simp add: r_def mod_add_left_eq)
  moreover have "r < 30" by (simp add: r_def)
  ultimately show ?thesis using x unfolding r_def[symmetric]
    by (cases "r + x < 30") (auto simp: mod30_def le_mod_geq)
qed

lemma inc30_mod: "inc30 (int (k mod 30)) = int (Suc k mod 30)"
  by (simp add: inc30_def mod_Suc)

lemma slot15_mod: "nat (slot15 (int (k mod 30))) = k mod 15"
proof -
  define r where "r = k mod 30"
  have "k mod 15 = r mod 15" by (simp add: r_def mod_mod_cancel)
  moreover have "r < 30" by (simp add: r_def)
  ultimately show ?thesis unfolding r_def[symmetric]
    by (cases "r < 15") (auto simp: slot15_def le_mod_geq)
qed

lemma pack_counts_values:
  assumes "pack_counts p m a b"
  shows "pk_signalled p = int a" "pk_registered p = int b"
  using assms mod30_diff[of a m] mod30_diff[of b "m + a"]
  by (simp_all add: pack_counts_def pk_signalled_def pk_registered_def)

lemma waiting_ids_eq:
  assumes "pack_counts p m a b"
  shows "waiting_ids p arr = map (\<lambda>i. arr ! ((m + a + i) mod 15)) [0..<b]"
proof -
  have "((m + a) mod 30 + i) mod 15 = (m + a + i) mod 15" for i
  proof -
    have "(m + a) mod 30 mod 15 = (m + a) mod 15" by (rule mod_mod_cancel) simp
    then show ?thesis by (metis mod_add_left_eq)
  qed
  then show ?thesis using assms pack_counts_values[OF assms] by (simp add: waiting_ids_def pack_counts_def)
qed

text \<open>The operations of a pack with its id array, as the reservation and completion passes do them.\<close>

definition pack_register :: "u16 \<Rightarrow> u16 \<times> u16 list \<Rightarrow> u16 \<times> u16 list" where
  "pack_register myId = (\<lambda>(p, arr). (pk_set_lo p (inc30 (pk_lo p)), arr[nat (slot15 (pk_lo p)) := myId]))"

definition pack_signal :: "u16 \<times> u16 list \<Rightarrow> u16 \<times> u16 \<times> u16 list" where
  "pack_signal = (\<lambda>(p, arr). (arr ! nat (slot15 (pk_hi p)), pk_set_hi p (inc30 (pk_hi p)), arr))"

definition pack_resume :: "u16 \<times> u16 list \<Rightarrow> u16 \<times> u16 list" where
  "pack_resume = (\<lambda>(p, arr). (pk_set_mid p (inc30 (pk_mid p)), arr))"

definition pack_inv :: "u16 \<times> u16 list \<Rightarrow> bool" where
  "pack_inv s \<longleftrightarrow> length (snd s) = 15 \<and> (\<exists>m a b. pack_counts (fst s) m a b)"

definition pack_room :: "u16 \<times> u16 list \<Rightarrow> bool" where
  "pack_room s \<longleftrightarrow> pk_signalled (fst s) + pk_registered (fst s) < 15"

lemma small30 [simp]: "int (k mod 30) < 32"
proof -
  have "k mod 30 < 30" by simp
  then show ?thesis by linarith
qed

lemma pack_counts_register:
  assumes "pack_counts p m a b" "a + b < 15"
  shows "pack_counts (pk_set_lo p (inc30 (pk_lo p))) m a (Suc b)"
  using assms by (simp add: pack_counts_def inc30_mod)

lemma pack_counts_signal:
  assumes "pack_counts p m a (Suc b)"
  shows "pack_counts (pk_set_hi p (inc30 (pk_hi p))) m (Suc a) b"
  using assms by (simp add: pack_counts_def inc30_mod)

lemma pack_counts_resume:
  assumes "pack_counts p m (Suc a) b"
  shows "pack_counts (pk_set_mid p (inc30 (pk_mid p))) (Suc m) a b"
  using assms by (simp add: pack_counts_def inc30_mod)

lemma waiting_ids_register:
  assumes c: "pack_counts p m a b" "a + b < 15" and arr: "length arr = 15"
  shows "waiting_ids (pk_set_lo p (inc30 (pk_lo p))) (arr[nat (slot15 (pk_lo p)) := x]) = waiting_ids p arr @ [x]"
proof -
  have slot: "nat (slot15 (pk_lo p)) = (m + a + b) mod 15"
    using c(1) by (simp add: pack_counts_def slot15_mod)
  have old: "(m + a + b) mod 15 \<noteq> (m + a + i) mod 15" if "i < b" for i
    using mod_distinct[of "m + a + i" "m + a + b" 15] that c(2) by (simp add: eq_commute)
  show ?thesis
    unfolding waiting_ids_eq[OF pack_counts_register[OF c]] waiting_ids_eq[OF c(1)] slot
    using arr by (auto simp: nth_list_update old)
qed

lemma waiting_ids_signal:
  assumes c: "pack_counts p m a (Suc b)"
  shows "waiting_ids p arr = arr ! nat (slot15 (pk_hi p)) # waiting_ids (pk_set_hi p (inc30 (pk_hi p))) arr"
proof -
  have slot: "nat (slot15 (pk_hi p)) = (m + a) mod 15"
    using c by (simp add: pack_counts_def slot15_mod)
  show ?thesis
    unfolding waiting_ids_eq[OF c] waiting_ids_eq[OF pack_counts_signal[OF c]] slot
    by (simp add: upt_conv_Cons map_Suc_upt[symmetric] del: upt_Suc)
qed

lemma pack_waiting:
  assumes "pack_counts p m a b" "waiting_ids p arr \<noteq> []"
  obtains b' where "b = Suc b'"
  using assms waiting_ids_eq[OF assms(1), of arr] by (cases b) auto

lemma waiting_ids_resume:
  assumes "pack_counts p m (Suc a) b"
  shows "waiting_ids (pk_set_mid p (inc30 (pk_mid p))) arr = waiting_ids p arr"
  unfolding waiting_ids_eq[OF assms] waiting_ids_eq[OF pack_counts_resume[OF assms]] by simp

interpretation waiters: bounded_fifo pack_register pack_signal "\<lambda>(p, arr). waiting_ids p arr" pack_inv pack_room
proof unfold_locales
  fix s :: "u16 \<times> u16 list" and x assume inv: "pack_inv s" and room: "pack_room s"
  obtain p arr where s: "s = (p, arr)" by (cases s)
  obtain m a b where c: "pack_counts p m a b" and arr: "length arr = 15" using inv s by (auto simp: pack_inv_def)
  have ab: "a + b < 15" using room s pack_counts_values[OF c] by (simp add: pack_room_def)
  show "pack_inv (pack_register x s)"
    using pack_counts_register[OF c ab] arr by (auto simp: pack_inv_def pack_register_def s)
  show "(case pack_register x s of (p, arr) \<Rightarrow> waiting_ids p arr) = (case s of (p, arr) \<Rightarrow> waiting_ids p arr) @ [x]"
    using waiting_ids_register[OF c ab arr] by (simp add: pack_register_def s)
next
  fix s :: "u16 \<times> u16 list" assume inv: "pack_inv s" and ne: "(case s of (p, arr) \<Rightarrow> waiting_ids p arr) \<noteq> []"
  obtain p arr where s: "s = (p, arr)" by (cases s)
  obtain m a b where c: "pack_counts p m a b" and arr: "length arr = 15" using inv s by (auto simp: pack_inv_def)
  have "waiting_ids p arr \<noteq> []" using ne s by simp
  then obtain b' where b: "b = Suc b'" using pack_waiting[OF c] by blast
  show "pack_inv (snd (pack_signal s))"
    using pack_counts_signal[OF c[unfolded b]] arr by (auto simp: pack_inv_def pack_signal_def s)
  show "fst (pack_signal s) # (case snd (pack_signal s) of (p, arr) \<Rightarrow> waiting_ids p arr) =
      (case s of (p, arr) \<Rightarrow> waiting_ids p arr)"
    using waiting_ids_signal[OF c[unfolded b], of arr] by (simp add: pack_signal_def s)
qed

section \<open>The passes use the pack as that store\<close>

text \<open>A completion takes its ids from the pack with \<open>signal_next\<close>.\<close>

lemma signal_next_pack:
  "signal_next p arr port =
     (let (id, p', arr') = pack_signal (p, arr) in (if id = PPU_WAITER then 0xff00 OR ucast port else ucast id, p'))"
  by (simp add: signal_next_def pack_signal_def Let_def)

definition own_waiters :: "bool \<Rightarrow> lfqueue \<Rightarrow> u16 \<times> u16 list" where
  "own_waiters push q = (own_pack push q, if push then pushWaiter q else popWaiter q)"

lemma asleep_registers:
  assumes "get_pointer_decision push True myId False q = Store q' (Asleep i)"
  shows "own_waiters push q' = pack_register myId (own_waiters push q)"
    "pk_signalled (own_pack push q) + pk_registered (own_pack push q) < 15"
  using assms
  by (auto simp: get_pointer_decision_def Let_def own_waiters_def pack_register_def own_pack_def set_own_pack_def
      set_waiter_def push_pack_def pop_pack_def set_push_pack_def set_pop_pack_def split: if_splits)

end
