(* ===== verification/Sync_Lfqueue_Ring.thy ===== *)
theory Sync_Lfqueue_Ring
  imports Sync_Lfqueue_Pack
begin

text \<open>
  The lock-free queue used by any number of pushers and poppers, with or without waiting: the indices of
  the control block count, modulo twice the depth, four unbounded counters (pops completed, pops
  begun, pushes completed, pushes begun), and the done maps record which indices between a commit
  and its reserve index are complete.  Each popper is given the element pushed under its index.
\<close>

section \<open>Indices\<close>

lemma dist_mod:
  assumes "b \<le> a" "a < b + 2 * d"
  shows "dist (int (a mod (2 * d))) (int (b mod (2 * d))) (int d) = int (a - b)"
proof -
  let ?m = "2 * d"
  have d: "0 < ?m" using assms by simp
  define q where "q = b div ?m"
  define r where "r = b mod ?m"
  have b: "b = q * ?m + r" "r < ?m" using d div_mult_mod_eq[of b ?m] unfolding q_def r_def by simp_all
  show ?thesis
  proof (cases "r + (a - b) < ?m")
    case True
    have "a = q * ?m + (r + (a - b))" using assms(1) b(1) by simp
    then have "a mod ?m = r + (a - b)" using True by (metis mod_mult_self3 mod_less)
    then show ?thesis using assms(1) by (simp add: dist_def r_def[symmetric])
  next
    case False
    have "a = Suc q * ?m + (r + (a - b) - ?m)" using assms(1) b(1) False by simp
    moreover have "r + (a - b) - ?m < ?m" using assms b(2) by simp
    ultimately have "a mod ?m = r + (a - b) - ?m" by (metis mod_mult_self3 mod_less)
    then show ?thesis using assms b(2) False by (auto simp: dist_def r_def[symmetric] of_nat_diff)
  qed
qed

lemma advance_mod:
  assumes "n \<le> 2 * d" "0 < d"
  shows "advance (int (a mod (2 * d))) (int n) (int d) = int ((a + n) mod (2 * d))"
proof -
  let ?m = "2 * d"
  define r where "r = a mod ?m"
  have r: "r < ?m" using assms(2) by (simp add: r_def)
  have e: "(a + n) mod ?m = (r + n) mod ?m" by (simp add: r_def mod_add_left_eq)
  show ?thesis
  proof (cases "r + n < ?m")
    case True
    then show ?thesis using e by (simp add: advance_def Let_def r_def[symmetric])
  next
    case False
    then have "(r + n) mod ?m = r + n - ?m" using r assms(1) by (simp add: mod_if)
    then show ?thesis using e False by (simp add: advance_def Let_def r_def[symmetric] of_nat_diff)
  qed
qed

text \<open>An index field holds a counter, modulo twice the depth; it is small enough to be unsigned.\<close>

definition counts :: "u16 \<Rightarrow> nat \<Rightarrow> nat \<Rightarrow> bool" where
  "counts w d k \<longleftrightarrow> unat w = k mod (2 * d)"

lemma counts_uint: "counts w d k \<Longrightarrow> uint w = int (k mod (2 * d))"
  unfolding counts_def using uint_nat[of w] by presburger

lemma sint_u16: "unat (w :: u16) < 32768 \<Longrightarrow> sint w = int (unat w)"
proof -
  assume a: "unat w < 32768"
  have u: "uint w = int (unat w)" by (rule uint_nat)
  have "uint w < 32768" using a u by linarith
  then have "signed_take_bit 15 (uint w) = uint w"
    using order_trans[of "- (2 ^ 15)" 0 "uint w"] by (intro signed_take_bit_int_eq_self) simp_all
  then have "sint w = uint w" by (simp add: sint_uint)
  then show ?thesis using u by (rule trans)
qed

lemma counts_sint: "counts w d k \<Longrightarrow> 0 < d \<Longrightarrow> d \<le> 16384 \<Longrightarrow> sint w = int (k mod (2 * d))"
proof -
  assume a: "counts w d k" "0 < d" "d \<le> 16384"
  have "k mod (2 * d) < 2 * d" using a(2) by simp
  then have "unat w < 32768" using a(1,3) unfolding counts_def by linarith
  then show ?thesis using a(1) sint_u16[of w] by (simp add: counts_def)
qed

lemma counts_of_int: "0 < d \<Longrightarrow> d \<le> 16384 \<Longrightarrow> counts (word_of_int (int (k mod (2 * d)))) d k"
proof -
  assume a: "0 < d" "d \<le> 16384"
  have "k mod (2 * d) < 2 * d" using a(1) by simp
  then have "k mod (2 * d) < 2 ^ 16" using a(2) by simp
  then show ?thesis by (simp add: counts_def unat_of_nat)
qed

section \<open>The done map\<close>

definition marked :: "u16 \<Rightarrow> nat \<Rightarrow> bool" where
  "marked don j \<longleftrightarrow> j < 16 \<and> bit don (15 - j)"

lemma drop_bit_exp: "n \<le> m \<Longrightarrow> m < 32 \<Longrightarrow> drop_bit n (2 ^ m :: u32) = 2 ^ (m - n)"
  by (rule bit_word_eqI) (auto simp: bit_simps)

lemma test_bit_drop: "n < 16 \<Longrightarrow> (bm :: u32) AND drop_bit n 0x8000 \<noteq> 0 \<longleftrightarrow> bit bm (15 - n)"
  using drop_bit_exp[of n 15] by (simp add: and_exp_eq_0_iff_not_bit)

lemma completed_run_spec:
  "completed_run bm n = m \<Longrightarrow> n \<le> 16 \<Longrightarrow> n \<le> m \<and> m \<le> 16 \<and> (\<forall>j. n \<le> j \<and> j < m \<longrightarrow> bit bm (15 - j))"
proof (induction bm n rule: completed_run.induct)
  case (1 bm n)
  show ?case
  proof (cases "n < 16 \<and> bm AND drop_bit n 0x8000 \<noteq> 0")
    case True
    then have "Suc n \<le> m \<and> m \<le> 16 \<and> (\<forall>j. Suc n \<le> j \<and> j < m \<longrightarrow> bit bm (15 - j))"
      using 1 by (simp add: completed_run.simps[of bm n])
    moreover have "bit bm (15 - n)" using True test_bit_drop by blast
    ultimately show ?thesis by (metis Suc_leI le_neq_implies_less order_trans less_or_eq_imp_le Suc_le_lessD)
  next
    case False
    then show ?thesis using 1(2,3) by (auto simp: completed_run.simps[of bm n])
  qed
qed

text \<open>What a completion of index \<open>k\<close> does to a commit counter \<open>c\<close> and its done map.\<close>

lemma complete_spec:
  assumes c: "counts commit d c" and d: "0 < d" "d \<le> 16384"
    and k: "c \<le> k" "k < c + 16" "k < c + 2 * d" and pointer: "pointer = int (k mod (2 * d))"
    and inside: "\<And>j. marked don j \<Longrightarrow> j < m" "k < c + m" "m \<le> 2 * d"
    and res: "complete commit don pointer (int d) = (commit', don', n)"
  shows "n \<le> m" "counts commit' d (c + n)" "\<And>j. j < n \<Longrightarrow> marked don j \<or> j = k - c"
    "\<And>j. marked don' j \<longleftrightarrow> marked don (j + n) \<or> j + n = k - c"
proof -
  have var: "dist pointer (uint commit) (int d) = int (k - c)"
    using dist_mod[of c k d] k counts_uint[OF c] pointer by simp
  define bm where "bm = (ucast don :: u32) OR push_bit (15 - (k - c)) 1"
  have shift: "nat (15 - int (k - c)) = 15 - (k - c)" by simp
  have "int (k - c) \<le> 15" using k by simp
  then have r: "n = completed_run bm 0" "commit' = word_of_int (advance (uint commit) (int n) (int d))"
    "don' = ucast (push_bit n bm AND 0xffff)"
    using res unfolding complete_def Let_def var bm_def shift by auto
  have bits: "bit bm (15 - j) \<longleftrightarrow> marked don j \<or> j = k - c" if "j < 16" for j
    using that k unfolding bm_def marked_def by (auto simp: bit_simps)
  have run: "n \<le> 16" "\<And>j. j < n \<Longrightarrow> bit bm (15 - j)"
    using completed_run_spec[of bm 0 n] r(1) by auto
  show mark: "marked don j \<or> j = k - c" if "j < n" for j using run bits[of j] that by simp
  show n: "n \<le> m"
  proof (rule ccontr)
    assume "\<not> n \<le> m"
    then have "m < n" by simp
    then have "marked don m \<or> m = k - c" by (rule mark)
    then show False using inside(1)[of m] inside(2) k(1) by auto
  qed
  then have "advance (uint commit) (int n) (int d) = int ((c + n) mod (2 * d))"
    using advance_mod[of n d c] inside(3) d counts_uint[OF c] by simp
  then show "counts commit' d (c + n)" using counts_of_int[OF d] r(2) by simp
  have mask: "(0xffff :: u32) = mask 16" by (simp add: mask_eq_exp_minus_1)
  show "marked don' j \<longleftrightarrow> marked don (j + n) \<or> j + n = k - c" for j
  proof (cases "j + n < 16")
    case True
    have "bit don' (15 - j) \<longleftrightarrow> bit bm (15 - (j + n))"
      using True by (auto simp: r(3) mask bit_simps)
    then show ?thesis using bits[OF True] True by (simp add: marked_def)
  next
    case False
    then show ?thesis using k by (auto simp: marked_def r(3) mask bit_simps)
  qed
qed

section \<open>The waiter packs\<close>

text \<open>All that the indices need of the two packs: their counters are in range, so that no number of waiters is negative.\<close>

definition pk_ok :: "u16 \<Rightarrow> bool" where
  "pk_ok p \<longleftrightarrow> pk_lo p < 30 \<and> pk_mid p < 30 \<and> pk_hi p < 30"

definition packs_ok :: "lfqueue \<Rightarrow> bool" where
  "packs_ok q \<longleftrightarrow> pk_ok (pop_pack q) \<and> pk_ok (push_pack q)"

lemma pk_zero [simp]: "pk_signalled 0 = 0" "pk_registered 0 = 0"
  by (simp_all add: pk_signalled_def pk_registered_def pk_hi_def pk_mid_def pk_lo_def mod30_def)

lemma pk_zero_ok: "pk_ok 0"
  by (simp add: pk_ok_def pk_lo_def pk_mid_def pk_hi_def)

lemma pk_nonneg: "0 \<le> pk_lo p" "0 \<le> pk_mid p" "0 \<le> pk_hi p"
  by (simp_all add: pk_lo_def pk_mid_def pk_hi_def)

lemma inc30_range: "0 \<le> c \<Longrightarrow> c < 30 \<Longrightarrow> 0 \<le> inc30 c \<and> inc30 c < 30"
  by (auto simp: inc30_def)

lemma pk_signalled_nonneg: "pk_ok p \<Longrightarrow> 0 \<le> pk_signalled p"
  using pk_nonneg[of p] by (auto simp: pk_ok_def pk_signalled_def mod30_def)

lemma pk_ok_moves:
  assumes "pk_ok p"
  shows "pk_ok (pk_set_lo p (inc30 (pk_lo p)))" "pk_ok (pk_set_mid p (inc30 (pk_mid p)))" "pk_ok (pk_set_hi p (inc30 (pk_hi p)))"
proof -
  have r: "0 \<le> inc30 (pk_lo p)" "inc30 (pk_lo p) < 30" "0 \<le> inc30 (pk_mid p)" "inc30 (pk_mid p) < 30"
      "0 \<le> inc30 (pk_hi p)" "inc30 (pk_hi p) < 30"
    using assms pk_nonneg[of p] inc30_range[of "pk_lo p"] inc30_range[of "pk_mid p"] inc30_range[of "pk_hi p"] by (simp_all add: pk_ok_def)
  then have "inc30 (pk_lo p) < 32" "inc30 (pk_mid p) < 32" "inc30 (pk_hi p) < 32" by linarith+
  then show "pk_ok (pk_set_lo p (inc30 (pk_lo p)))" "pk_ok (pk_set_mid p (inc30 (pk_mid p)))" "pk_ok (pk_set_hi p (inc30 (pk_hi p)))"
    using assms r by (simp_all add: pk_ok_def)
qed

lemma signal_next_ok: "pk_ok pack \<Longrightarrow> pk_ok (snd (signal_next pack waiter port))"
  by (simp add: signal_next_def Let_def pk_ok_moves(3))

lemma wake_one_ok:
  assumes "pk_ok (wake_pp w)" "pk_ok (wake_up w)"
  shows "pk_ok (wake_pp (wake_popper q by1 w))" "pk_ok (wake_up (wake_popper q by1 w))"
    "pk_ok (wake_pp (wake_pusher q w))" "pk_ok (wake_up (wake_pusher q w))"
  using assms signal_next_ok[of "wake_pp w"] signal_next_ok[of "wake_up w"]
  by (simp_all add: wake_popper_def wake_pusher_def case_prod_beta)

lemma push_wake_loop_ok:
  "pk_ok (wake_pp w) \<Longrightarrow> pk_ok (wake_up w) \<Longrightarrow>
   pk_ok (wake_pp (push_wake_loop n depth arg5 q w)) \<and> pk_ok (wake_up (push_wake_loop n depth arg5 q w))"
  by (induction n arbitrary: w) (simp_all add: Let_def wake_one_ok)

lemma pop_wake_loop_ok:
  "pk_ok (wake_pp w) \<Longrightarrow> pk_ok (wake_up w) \<Longrightarrow>
   pk_ok (wake_pp (pop_wake_loop n q w)) \<and> pk_ok (wake_up (pop_wake_loop n q w))"
  by (induction n arbitrary: w) (simp_all add: Let_def wake_one_ok)

lemma pack_upd [simp]:
  "pop_pack (q\<lparr>pushReserve := x\<rparr>) = pop_pack q" "push_pack (q\<lparr>pushReserve := x\<rparr>) = push_pack q"
  "pop_pack (q\<lparr>popReserve := x\<rparr>) = pop_pack q" "push_pack (q\<lparr>popReserve := x\<rparr>) = push_pack q"
  "pop_pack (q\<lparr>pushCommit := x\<rparr>) = pop_pack q" "push_pack (q\<lparr>pushCommit := x\<rparr>) = push_pack q"
  "pop_pack (q\<lparr>popCommit := x\<rparr>) = pop_pack q" "push_pack (q\<lparr>popCommit := x\<rparr>) = push_pack q"
  "pop_pack (q\<lparr>pushDone := x\<rparr>) = pop_pack q" "push_pack (q\<lparr>pushDone := x\<rparr>) = push_pack q"
  "pop_pack (q\<lparr>popDone := x\<rparr>) = pop_pack q" "push_pack (q\<lparr>popDone := x\<rparr>) = push_pack q"
  "pop_pack (q\<lparr>pushWaiter := w\<rparr>) = pop_pack q" "push_pack (q\<lparr>pushWaiter := w\<rparr>) = push_pack q"
  "pop_pack (q\<lparr>popWaiter := w\<rparr>) = pop_pack q" "push_pack (q\<lparr>popWaiter := w\<rparr>) = push_pack q"
  by (simp_all add: pop_pack_def push_pack_def)

lemma pack_upd_throw [simp]:
  "lfq_direction q = SPU2PPU \<Longrightarrow> pop_pack (q\<lparr>ppuPopWait := x\<rparr>) = pop_pack q"
  "push_pack (q\<lparr>ppuPopWait := x\<rparr>) = push_pack q"
  "lfq_direction q = PPU2SPU \<Longrightarrow> push_pack (q\<lparr>ppuPushWait := x\<rparr>) = push_pack q"
  "pop_pack (q\<lparr>ppuPushWait := x\<rparr>) = pop_pack q"
  by (auto simp: pop_pack_def push_pack_def lfq_constants)

lemma set_pack_fields [simp]:
  "pop_pack (set_pop_pack p q) = p" "push_pack (set_pop_pack p q) = push_pack q"
  "push_pack (set_push_pack p q) = p" "pop_pack (set_push_pack p q) = pop_pack q"
  by (simp_all add: pop_pack_def push_pack_def set_pop_pack_def set_push_pack_def)

lemma set_pack_same [simp]: "set_pop_pack (pop_pack q) q = q" "set_push_pack (push_pack q) q = q"
  by (cases q; simp add: pop_pack_def push_pack_def set_pop_pack_def set_push_pack_def)+

text \<open>The fields a completion leaves alone, and the two it changes.\<close>

definition same_ring :: "lfqueue \<Rightarrow> lfqueue \<Rightarrow> bool" where
  "same_ring q r \<longleftrightarrow> lfq_depth r = lfq_depth q \<and> lfq_direction r = lfq_direction q \<and> lfq_size r = lfq_size q \<and>
     lfq_buffer r = lfq_buffer q \<and> popReserve r = popReserve q \<and> pushReserve r = pushReserve q"

lemma set_pack_ring [simp]:
  "same_ring q (set_pop_pack p r) = same_ring q r" "same_ring q (set_push_pack p r) = same_ring q r"
  "popCommit (set_pop_pack p r) = popCommit r" "popCommit (set_push_pack p r) = popCommit r"
  "popDone (set_pop_pack p r) = popDone r" "popDone (set_push_pack p r) = popDone r"
  "pushCommit (set_pop_pack p r) = pushCommit r" "pushCommit (set_push_pack p r) = pushCommit r"
  "pushDone (set_pop_pack p r) = pushDone r" "pushDone (set_push_pack p r) = pushDone r"
  "popReserve (set_pop_pack p r) = popReserve r" "popReserve (set_push_pack p r) = popReserve r"
  "pushReserve (set_pop_pack p r) = pushReserve r" "pushReserve (set_push_pack p r) = pushReserve r"
  "lfq_depth (set_pop_pack p r) = lfq_depth r" "lfq_depth (set_push_pack p r) = lfq_depth r"
  by (simp_all add: same_ring_def set_pop_pack_def set_push_pack_def)

lemma complete_push_ring:
  assumes w: "packs_ok q" and ne: "uint (pushCommit q) \<noteq> sint (pushReserve q)"
    and c: "complete (pushCommit q) (pushDone q) pointer (uint (lfq_depth q)) = (commit, don, n)"
    and r: "complete_push pointer arg5 q = (q', t, ids)"
  shows "same_ring q q' \<and> packs_ok q' \<and> popCommit q' = popCommit q \<and> popDone q' = popDone q \<and>
    pushCommit q' = commit \<and> pushDone q' = don"
proof -
  define q1 where "q1 = q\<lparr>pushCommit := commit, pushDone := don\<rparr>"
  define throw where "throw \<longleftrightarrow> lfq_direction q1 = SPU2PPU \<and> uint (pushCommit q) = sint (popReserve q) \<and>
    (ppuPopWait q1 AND PPU_SLEEPING \<noteq> 0 \<or> ports_attached q1)"
  define q2 where "q2 = (if throw then q1\<lparr>ppuPopWait := ppuPopWait q1 AND NOT PPU_SLEEPING\<rparr> else q1)"
  have packs: "pk_ok (pop_pack q2)" "pk_ok (push_pack q2)"
    using w by (auto simp: q2_def throw_def q1_def packs_ok_def)
  note q' = r[unfolded complete_push_def c Let_def prod.case q1_def[symmetric] if_not_P[OF ne] throw_def[symmetric] q2_def[symmetric] prod.inject]
  show ?thesis unfolding conjunct1[OF q', symmetric]
    by (simp add: packs_ok_def push_wake_loop_ok packs) (simp add: q2_def q1_def same_ring_def)
qed

lemma complete_pop_ring:
  assumes w: "packs_ok q"
    and c: "complete (popCommit q) (popDone q) pointer (uint (lfq_depth q)) = (commit, don, n)"
    and r: "complete_pop pointer arg5 q = (q', t, ids)"
  shows "same_ring q q' \<and> packs_ok q' \<and> pushCommit q' = pushCommit q \<and> pushDone q' = pushDone q \<and>
    popCommit q' = commit \<and> popDone q' = don"
proof -
  define throw where "throw \<longleftrightarrow> lfq_direction q = PPU2SPU \<and>
    dist (sint (pushReserve q)) (uint (popCommit q)) (uint (lfq_depth q)) = uint (lfq_depth q) \<and>
    (ppuPushWait q AND PPU_SLEEPING \<noteq> 0 \<or> ports_attached q)"
  define q1 where "q1 = (if throw then q\<lparr>ppuPushWait := ppuPushWait q AND NOT PPU_SLEEPING\<rparr> else q)"
  define q2 where "q2 = q1\<lparr>popCommit := commit, popDone := don\<rparr>"
  have packs: "pk_ok (pop_pack q2)" "pk_ok (push_pack q2)"
    using w by (auto simp: q2_def throw_def q1_def packs_ok_def)
  have same: "popCommit q1 = popCommit q" "popDone q1 = popDone q" by (simp_all add: q1_def)
  note q' = r[unfolded complete_pop_def Let_def prod.case throw_def[symmetric] q1_def[symmetric] same c prod.inject, folded q2_def]
  show ?thesis unfolding conjunct1[OF q', symmetric]
    by (simp add: packs_ok_def pop_wake_loop_ok packs) (simp add: q2_def q1_def same_ring_def)
qed

section \<open>Pushers and poppers\<close>

text \<open>
  A pusher has an index (its number in the order of reservations), the pointer the code gave it and
  its element, and has written it or not; a popper has an index, a pointer and, once transferred,
  the element.  A pusher or popper that had to wait is asleep in its callback; once that returns it reserves as a
  woken one, or gives up when the callback failed.  A reservation that is refused, and a woken caller's pass that starts
  over, leave the block as it is.  Before a pusher has written its element its transfer may leave anything in the slot.
  The logs are ghosts: the elements in the order of their reservations, the number of pops begun,
  and what each completed pop delivered.
\<close>

datatype ring_pc = RingIdle | RingPushing nat int "u8 list" bool | RingPopping nat int "u8 list option"
  | RingPushAsleep "u8 list" | RingPopAsleep

record ring_system =
  ring_q :: lfqueue
  ring_slot :: "int \<Rightarrow> u8 list"
  ring_pc :: "nat \<Rightarrow> ring_pc"
  ring_elems :: "u8 list list"
  ring_pops :: nat
  ring_got :: "(nat \<times> u8 list) list"

inductive ring_step :: "ring_system \<Rightarrow> ring_system \<Rightarrow> bool" where
  push_begin: "ring_pc s p = RingIdle \<Longrightarrow>
    get_pointer_decision True can_wait myId False (ring_q s) = Store q (Granted i) \<Longrightarrow>
    ring_step s (s\<lparr>ring_q := q,
      ring_pc := (ring_pc s)(p := RingPushing (length (ring_elems s)) i x False), ring_elems := ring_elems s @ [x]\<rparr>)"
| push_sleep: "ring_pc s p = RingIdle \<Longrightarrow>
    get_pointer_decision True True myId False (ring_q s) = Store q (Asleep i) \<Longrightarrow>
    ring_step s (s\<lparr>ring_q := q, ring_pc := (ring_pc s)(p := RingPushAsleep x)\<rparr>)"
| push_woken: "ring_pc s p = RingPushAsleep x \<Longrightarrow>
    get_pointer_decision True True myId True (ring_q s) = Store q (Granted i) \<Longrightarrow>
    ring_step s (s\<lparr>ring_q := q,
      ring_pc := (ring_pc s)(p := RingPushing (length (ring_elems s)) i x False), ring_elems := ring_elems s @ [x]\<rparr>)"
| push_partial: "ring_pc s p = RingPushing k i x False \<Longrightarrow>
    ring_step s (s\<lparr>ring_slot := (ring_slot s)(entry_slot (ring_q s) i := y)\<rparr>)"
| push_put: "ring_pc s p = RingPushing k i x False \<Longrightarrow>
    ring_step s (s\<lparr>ring_slot := (ring_slot s)(entry_slot (ring_q s) i := x),
      ring_pc := (ring_pc s)(p := RingPushing k i x True)\<rparr>)"
| push_end: "ring_pc s p = RingPushing k i x True \<Longrightarrow>
    complete_pointer_decision True i arg5 (ring_q s) = Store q r \<Longrightarrow>
    ring_step s (s\<lparr>ring_q := q, ring_pc := (ring_pc s)(p := RingIdle)\<rparr>)"
| pop_begin: "ring_pc s p = RingIdle \<Longrightarrow>
    get_pointer_decision False can_wait myId False (ring_q s) = Store q (Granted i) \<Longrightarrow>
    ring_step s (s\<lparr>ring_q := q, ring_pc := (ring_pc s)(p := RingPopping (ring_pops s) i None),
      ring_pops := Suc (ring_pops s)\<rparr>)"
| pop_sleep: "ring_pc s p = RingIdle \<Longrightarrow>
    get_pointer_decision False True myId False (ring_q s) = Store q (Asleep i) \<Longrightarrow>
    ring_step s (s\<lparr>ring_q := q, ring_pc := (ring_pc s)(p := RingPopAsleep)\<rparr>)"
| pop_woken: "ring_pc s p = RingPopAsleep \<Longrightarrow>
    get_pointer_decision False True myId True (ring_q s) = Store q (Granted i) \<Longrightarrow>
    ring_step s (s\<lparr>ring_q := q, ring_pc := (ring_pc s)(p := RingPopping (ring_pops s) i None),
      ring_pops := Suc (ring_pops s)\<rparr>)"
| pop_get: "ring_pc s p = RingPopping k i None \<Longrightarrow>
    ring_step s (s\<lparr>ring_pc := (ring_pc s)(p := RingPopping k i (Some (ring_slot s (entry_slot (ring_q s) i))))\<rparr>)"
| pop_end: "ring_pc s p = RingPopping k i (Some v) \<Longrightarrow>
    complete_pointer_decision False i arg5 (ring_q s) = Store q r \<Longrightarrow>
    ring_step s (s\<lparr>ring_q := q, ring_pc := (ring_pc s)(p := RingIdle), ring_got := ring_got s @ [(k, v)]\<rparr>)"
| wait_failed: "ring_pc s p = RingPushAsleep x \<or> ring_pc s p = RingPopAsleep \<Longrightarrow>
    ring_step s (s\<lparr>ring_pc := (ring_pc s)(p := RingIdle)\<rparr>)"

fun push_index :: "ring_pc \<Rightarrow> nat option" where
  "push_index (RingPushing k i x w) = Some k"
| "push_index _ = None"

fun pop_index :: "ring_pc \<Rightarrow> nat option" where
  "pop_index (RingPopping k i v) = Some k"
| "pop_index _ = None"

fun writing :: "ring_pc \<Rightarrow> nat \<Rightarrow> bool" where
  "writing (RingPushing k i x w) k' = (\<not> w \<and> k = k')"
| "writing _ k' = False"

text \<open>The four counters, for commit counters \<open>c\<close> and \<open>u\<close> of the pops and the pushes.\<close>

definition ring_counters :: "nat \<Rightarrow> nat \<Rightarrow> nat \<Rightarrow> ring_system \<Rightarrow> bool" where
  "ring_counters d c u s \<longleftrightarrow>
     0 < d \<and> d \<le> 16384 \<and> uint (lfq_depth (ring_q s)) = int d \<and> packs_ok (ring_q s) \<and>
     counts (popCommit (ring_q s)) d c \<and> counts (popReserve (ring_q s)) d (ring_pops s) \<and>
     counts (pushCommit (ring_q s)) d u \<and> counts (pushReserve (ring_q s)) d (length (ring_elems s)) \<and>
     c \<le> ring_pops s \<and> ring_pops s \<le> u \<and> u \<le> length (ring_elems s) \<and> length (ring_elems s) \<le> c + d \<and>
     length (ring_elems s) \<le> u + 16 \<and> ring_pops s \<le> c + 16 \<and>
     (\<forall>j. marked (pushDone (ring_q s)) j \<longrightarrow> u + j < length (ring_elems s)) \<and>
     (\<forall>j. marked (popDone (ring_q s)) j \<longrightarrow> c + j < ring_pops s)"

fun ring_pc_ok :: "nat \<Rightarrow> nat \<Rightarrow> nat \<Rightarrow> ring_system \<Rightarrow> ring_pc \<Rightarrow> bool" where
  "ring_pc_ok d c u s RingIdle \<longleftrightarrow> True"
| "ring_pc_ok d c u s (RingPushing k i x w) \<longleftrightarrow> u \<le> k \<and> k < length (ring_elems s) \<and> i = int (k mod (2 * d)) \<and>
     x = ring_elems s ! k \<and> \<not> marked (pushDone (ring_q s)) (k - u)"
| "ring_pc_ok d c u s (RingPopping k i v) \<longleftrightarrow> c \<le> k \<and> k < ring_pops s \<and> i = int (k mod (2 * d)) \<and>
     (\<forall>y. v = Some y \<longrightarrow> y = ring_elems s ! k) \<and> \<not> marked (popDone (ring_q s)) (k - c) \<and> k \<notin> fst ` set (ring_got s)"
| "ring_pc_ok d c u s (RingPushAsleep x) \<longleftrightarrow> True"
| "ring_pc_ok d c u s RingPopAsleep \<longleftrightarrow> True"

definition ring_slots :: "nat \<Rightarrow> nat \<Rightarrow> ring_system \<Rightarrow> bool" where
  "ring_slots d c s \<longleftrightarrow> (\<forall>k. c \<le> k \<longrightarrow> k < length (ring_elems s) \<longrightarrow> (\<forall>p. \<not> writing (ring_pc s p) k) \<longrightarrow>
     ring_slot s (int (k mod d)) = ring_elems s ! k)"

definition ring_got_ok :: "ring_system \<Rightarrow> bool" where
  "ring_got_ok s \<longleftrightarrow> distinct (map fst (ring_got s)) \<and>
     (\<forall>(k, v) \<in> set (ring_got s). k < ring_pops s \<and> v = ring_elems s ! k)"

definition ring_distinct :: "ring_system \<Rightarrow> bool" where
  "ring_distinct s \<longleftrightarrow> (\<forall>p p' k. push_index (ring_pc s p) = Some k \<longrightarrow> push_index (ring_pc s p') = Some k \<longrightarrow> p = p') \<and>
     (\<forall>p p' k. pop_index (ring_pc s p) = Some k \<longrightarrow> pop_index (ring_pc s p') = Some k \<longrightarrow> p = p')"

definition ring_inv :: "nat \<Rightarrow> nat \<Rightarrow> nat \<Rightarrow> ring_system \<Rightarrow> bool" where
  "ring_inv d c u s \<longleftrightarrow> ring_counters d c u s \<and> (\<forall>p. ring_pc_ok d c u s (ring_pc s p)) \<and>
     ring_slots d c s \<and> ring_got_ok s \<and> ring_distinct s"

lemma ring_countersD:
  assumes "ring_counters d c u s"
  shows "0 < d" "d \<le> 16384" "uint (lfq_depth (ring_q s)) = int d" "packs_ok (ring_q s)"
    "counts (popCommit (ring_q s)) d c" "counts (popReserve (ring_q s)) d (ring_pops s)"
    "counts (pushCommit (ring_q s)) d u" "counts (pushReserve (ring_q s)) d (length (ring_elems s))"
    "c \<le> ring_pops s" "ring_pops s \<le> u" "u \<le> length (ring_elems s)" "length (ring_elems s) \<le> c + d"
    "length (ring_elems s) \<le> u + 16" "ring_pops s \<le> c + 16"
    "marked (pushDone (ring_q s)) j \<Longrightarrow> u + j < length (ring_elems s)"
    "marked (popDone (ring_q s)) j \<Longrightarrow> c + j < ring_pops s"
  using assms by (auto simp: ring_counters_def)

lemma ring_invD:
  assumes "ring_inv d c u s"
  shows "ring_counters d c u s" "ring_pc_ok d c u s (ring_pc s p)" "ring_slots d c s" "ring_got_ok s" "ring_distinct s"
  using assms by (simp_all add: ring_inv_def)

lemma entry_slot_mod:
  assumes "uint (lfq_depth q) = int d" "0 < d"
  shows "entry_slot q (int (k mod (2 * d))) = int (k mod d)"
proof -
  have "k mod (2 * d) = d * (k div d mod 2) + k mod d"
    using mod_mult2_eq[of k d 2] by (simp add: mult.commute)
  moreover have "k div d mod 2 = 0 \<or> k div d mod 2 = 1" by auto
  moreover have "k mod d < d" using assms(2) by simp
  ultimately show ?thesis using assms(1) by (auto simp: entry_slot_def Let_def)
qed

text \<open>What a reservation that is granted says, to a caller that has just come or to a woken one.\<close>

lemma granted:
  assumes "get_pointer_decision push can_wait myId woken q = Store q' (Granted i)" "packs_ok q"
  shows "\<not> must_wait push woken q" "i = own_index push q"
    "\<exists>p. q' = take_index push (set_own_pack push p q) \<and> pk_ok p"
proof -
  have own: "pk_ok (own_pack push q)" "set_own_pack push (own_pack push q) q = q"
    using assms(2) by (simp_all add: packs_ok_def own_pack_def set_own_pack_def)
  show "\<not> must_wait push woken q" "i = own_index push q"
    using assms(1) by (auto simp: get_pointer_decision_def Let_def split: if_splits)
  from assms(1) have "q' = take_index push q \<or>
      q' = take_index push (set_own_pack push (pk_set_mid (own_pack push q) (inc30 (pk_mid (own_pack push q)))) q)"
    by (auto simp: get_pointer_decision_def Let_def split: if_splits)
  then show "\<exists>p. q' = take_index push (set_own_pack push p q) \<and> pk_ok p" using own pk_ok_moves(2)[OF own(1)] by metis
qed

text \<open>The block with the caller's index taken: a reserve index and a pack have changed.\<close>

definition index_taken :: "bool \<Rightarrow> lfqueue \<Rightarrow> lfqueue \<Rightarrow> bool" where
  "index_taken push q r \<longleftrightarrow> popCommit r = popCommit q \<and> pushCommit r = pushCommit q \<and> popDone r = popDone q \<and>
     pushDone r = pushDone q \<and> lfq_depth r = lfq_depth q \<and> packs_ok r \<and>
     popReserve r = (if push then popReserve q else word_of_int (advance (sint (popReserve q)) 1 (uint (lfq_depth q)))) \<and>
     pushReserve r = (if push then word_of_int (advance (sint (pushReserve q)) 1 (uint (lfq_depth q))) else pushReserve q)"

lemma index_takenI: "packs_ok q \<Longrightarrow> pk_ok p \<Longrightarrow> index_taken push q (take_index push (set_own_pack push p q))"
  by (cases push) (simp_all add: index_taken_def take_index_def set_own_pack_def packs_ok_def)

lemma push_granted:
  assumes C: "ring_counters d c u s"
    and g: "get_pointer_decision True can_wait myId woken (ring_q s) = Store q (Granted i)"
  shows "length (ring_elems s) < c + d" "length (ring_elems s) < u + 16"
    "i = int (length (ring_elems s) mod (2 * d))" "index_taken True (ring_q s) q"
proof -
  note R = ring_countersD[OF C]
  have pack: "0 \<le> pk_signalled (push_pack (ring_q s))" using R(4) by (simp add: packs_ok_def pk_signalled_nonneg)
  note h = counts_sint[OF R(8,1,2)] counts_uint[OF R(5)] counts_uint[OF R(7)]
  have used: "dist (sint (pushReserve (ring_q s))) (uint (popCommit (ring_q s))) (int d) = int (length (ring_elems s) - c)"
    unfolding h using R(1,9-12) by (intro dist_mod) simp_all
  have out: "dist (sint (pushReserve (ring_q s))) (uint (pushCommit (ring_q s))) (int d) = int (length (ring_elems s) - u)"
    unfolding h using R(1,9-12) by (intro dist_mod) simp_all
  note ok = granted[OF g R(4)]
  have "int (length (ring_elems s) - c) < int d \<and> int (length (ring_elems s) - u) \<le> 15"
  proof (cases woken)
    case True
    then show ?thesis using ok(1) by (auto simp: must_wait_def Let_def R(3) used out)
  next
    case False
    then have "int (length (ring_elems s) - c) + pk_signalled (push_pack (ring_q s)) < int d"
        "int (length (ring_elems s) - u) + pk_signalled (push_pack (ring_q s)) \<le> 15"
      using ok(1) by (auto simp: must_wait_def Let_def R(3) used out)
    then show ?thesis using pack by linarith
  qed
  then show "length (ring_elems s) < c + d" "length (ring_elems s) < u + 16" by linarith+
  show "i = int (length (ring_elems s) mod (2 * d))" using ok(2) h(1) by (simp add: own_index_def)
  show "index_taken True (ring_q s) q" using ok(3) index_takenI[OF R(4)] by blast
qed

lemma pop_granted:
  assumes C: "ring_counters d c u s"
    and g: "get_pointer_decision False can_wait myId woken (ring_q s) = Store q (Granted i)"
  shows "ring_pops s < u" "ring_pops s < c + 16" "i = int (ring_pops s mod (2 * d))" "index_taken False (ring_q s) q"
proof -
  note R = ring_countersD[OF C]
  have pack: "0 \<le> pk_signalled (pop_pack (ring_q s))" using R(4) by (simp add: packs_ok_def pk_signalled_nonneg)
  note h = counts_sint[OF R(6,1,2)] counts_uint[OF R(5)] counts_uint[OF R(7)]
  have used: "dist (uint (pushCommit (ring_q s))) (sint (popReserve (ring_q s))) (int d) = int (u - ring_pops s)"
    unfolding h using R(1,9-12) by (intro dist_mod) simp_all
  have out: "dist (sint (popReserve (ring_q s))) (uint (popCommit (ring_q s))) (int d) = int (ring_pops s - c)"
    unfolding h using R(1,9-12) by (intro dist_mod) simp_all
  note ok = granted[OF g R(4)]
  have "0 < int (u - ring_pops s) \<and> int (ring_pops s - c) \<le> 15"
  proof (cases woken)
    case True
    then show ?thesis using ok(1) by (auto simp: must_wait_def Let_def R(3) used out)
  next
    case False
    then have "0 < int (u - ring_pops s) - pk_signalled (pop_pack (ring_q s))"
        "int (ring_pops s - c) + pk_signalled (pop_pack (ring_q s)) \<le> 15"
      using ok(1) by (auto simp: must_wait_def Let_def R(3) used out)
    then show ?thesis using pack by linarith
  qed
  then show "ring_pops s < u" "ring_pops s < c + 16" by linarith+
  show "i = int (ring_pops s mod (2 * d))" using ok(2) h(1) by (simp add: own_index_def)
  show "index_taken False (ring_q s) q" using ok(3) index_takenI[OF R(4)] by blast
qed

lemma counts_succ:
  "counts w d k \<Longrightarrow> 0 < d \<Longrightarrow> d \<le> 16384 \<Longrightarrow> counts (word_of_int (advance (sint w) 1 (int d))) d (Suc k)"
  using counts_sint[of w d k] advance_mod[of 1 d k] counts_of_int[of d "Suc k"] by simp

section \<open>The invariant is kept\<close>

lemma slot_distinct: "c \<le> a \<Longrightarrow> a < c + d \<Longrightarrow> c \<le> b \<Longrightarrow> b < c + d \<Longrightarrow> a \<noteq> b \<Longrightarrow> a mod d \<noteq> b mod d" for a b c d :: nat
  using mod_distinct[of a b d] mod_distinct[of b a d] by linarith

lemma ring_writing:
  assumes "ring_inv d c u s" "writing (ring_pc s p) k"
  shows "u \<le> k \<and> k < length (ring_elems s)"
  using assms(2) ring_invD(2)[OF assms(1), of p] by (cases "ring_pc s p") auto

lemma ring_push_begin_inv:
  assumes inv: "ring_inv d c u s" and idle: "ring_pc s p = RingIdle \<or> ring_pc s p = RingPushAsleep x"
    and g: "get_pointer_decision True can_wait myId woken (ring_q s) = Store q (Granted i)"
  shows "ring_inv d c u (s\<lparr>ring_q := q,
      ring_pc := (ring_pc s)(p := RingPushing (length (ring_elems s)) i x False), ring_elems := ring_elems s @ [x]\<rparr>)"
    (is "ring_inv d c u ?t")
proof -
  note I = ring_invD[OF inv]
  note C = ring_countersD[OF I(1)] and G = push_granted[OF I(1) g]
  note T = G(4)[unfolded index_taken_def]
  have reserve: "counts (pushReserve q) d (Suc (length (ring_elems s)))"
    using counts_succ[OF C(8,1,2)] T C(3) by simp
  have fresh: "\<not> marked (pushDone (ring_q s)) (length (ring_elems s) - u)"
    using C(15)[of "length (ring_elems s) - u"] C(11) by auto
  have "ring_counters d c u ?t"
    using C(1-14) C(15,16) G(1,2) reserve T by (fastforce simp: ring_counters_def)
  moreover have "ring_pc_ok d c u ?t (ring_pc ?t p')" for p'
    using I(2)[of p'] C(10,11) fresh G(3) T by (cases "ring_pc s p'") (auto simp: nth_append)
  moreover have "ring_slots d c ?t"
    unfolding ring_slots_def
  proof (intro allI impI)
    fix k assume k: "c \<le> k" "k < length (ring_elems ?t)" and nw: "\<forall>p'. \<not> writing (ring_pc ?t p') k"
    have "k \<noteq> length (ring_elems s)" using spec[OF nw, of p] by auto
    moreover have "\<not> writing (ring_pc s p') k" for p' using spec[OF nw, of p'] idle by (auto split: if_splits)
    ultimately show "ring_slot ?t (int (k mod d)) = ring_elems ?t ! k"
      using I(3) k by (auto simp: ring_slots_def nth_append)
  qed
  moreover have "ring_got_ok ?t"
    using I(4) C(10,11) by (auto simp: ring_got_ok_def nth_append)
  moreover have "ring_distinct ?t"
  proof -
    have "push_index (ring_pc s p') \<noteq> Some (length (ring_elems s))" for p'
      using I(2)[of p'] by (cases "ring_pc s p'") auto
    then show ?thesis using I(5) idle by (fastforce simp: ring_distinct_def)
  qed
  ultimately show ?thesis by (simp add: ring_inv_def)
qed

lemma push_write_inv:
  assumes inv: "ring_inv d c u s" and pc: "ring_pc s p = RingPushing k i x False"
    and w: "w \<longrightarrow> y = x"
  shows "ring_inv d c u (s\<lparr>ring_slot := (ring_slot s)(entry_slot (ring_q s) i := y),
      ring_pc := (ring_pc s)(p := RingPushing k i x w)\<rparr>)" (is "ring_inv d c u ?t")
proof -
  note I = ring_invD[OF inv]
  note C = ring_countersD[OF I(1)]
  have k: "u \<le> k" "k < length (ring_elems s)" "i = int (k mod (2 * d))" "x = ring_elems s ! k"
    using I(2)[of p] pc by simp_all
  have slot: "entry_slot (ring_q s) i = int (k mod d)"
    using entry_slot_mod[OF C(3,1)] k(3) by simp
  have "ring_counters d c u ?t" using I(1) by (simp add: ring_counters_def)
  moreover have "ring_pc_ok d c u ?t (ring_pc ?t p')" for p'
    using I(2)[of p'] pc by (cases "ring_pc s p'") auto
  moreover have "ring_slots d c ?t"
    unfolding ring_slots_def
  proof (intro allI impI)
    fix k' assume k': "c \<le> k'" "k' < length (ring_elems ?t)" and nw: "\<forall>p'. \<not> writing (ring_pc ?t p') k'"
    show "ring_slot ?t (int (k' mod d)) = ring_elems ?t ! k'"
    proof (cases "k' = k")
      case True
      then have "w" using spec[OF nw, of p] by simp
      then show ?thesis using True w k(4) slot by simp
    next
      case False
      have "\<not> writing (ring_pc s p') k'" for p'
        using spec[OF nw, of p'] False pc by (cases "p' = p") auto
      moreover have "k' mod d \<noteq> k mod d"
        using slot_distinct[of c k' d k] k' k False C(9-12) by simp
      ultimately show ?thesis using I(3) k' slot by (simp add: ring_slots_def)
    qed
  qed
  moreover have "ring_got_ok ?t" using I(4) by (simp add: ring_got_ok_def)
  moreover have "ring_distinct ?t"
    using I(5) pc by (fastforce simp: ring_distinct_def)
  ultimately show ?thesis by (simp add: ring_inv_def)
qed

lemma push_end_inv:
  assumes inv: "ring_inv d c u s" and pc: "ring_pc s p = RingPushing k i x True"
    and g: "complete_pointer_decision True i arg5 (ring_q s) = Store q r"
  shows "\<exists>u'. ring_inv d c u' (s\<lparr>ring_q := q, ring_pc := (ring_pc s)(p := RingIdle)\<rparr>)"
proof -
  note I = ring_invD[OF inv]
  note C = ring_countersD[OF I(1)]
  let ?len = "length (ring_elems s)"
  have k: "u \<le> k" "k < ?len" "i = int (k mod (2 * d))" using I(2)[of p] pc by simp_all
  obtain commit don n where cm: "complete (pushCommit (ring_q s)) (pushDone (ring_q s)) i (int d) = (commit, don, n)"
    by (cases "complete (pushCommit (ring_q s)) (pushDone (ring_q s)) i (int d)") auto
  have S: "n \<le> ?len - u" "counts commit d (u + n)" "\<And>j. j < n \<Longrightarrow> marked (pushDone (ring_q s)) j \<or> j = k - u"
    "\<And>j. marked don j \<longleftrightarrow> marked (pushDone (ring_q s)) (j + n) \<or> j + n = k - u"
  proof -
    have m: "marked (pushDone (ring_q s)) j \<Longrightarrow> j < ?len - u" for j using C(15)[of j] by simp
    have b: "u \<le> k" "k < u + 16" "k < u + 2 * d" "k < u + (?len - u)" "?len - u \<le> 2 * d"
      using k C(9-13) by simp_all
    note spec = complete_spec[OF C(7,1,2) b(1-3) k(3) m b(4,5) cm]
    show "n \<le> ?len - u" "counts commit d (u + n)" using spec(1,2) by auto
    show "\<And>j. j < n \<Longrightarrow> marked (pushDone (ring_q s)) j \<or> j = k - u" using spec(3) by auto
    show "\<And>j. marked don j \<longleftrightarrow> marked (pushDone (ring_q s)) (j + n) \<or> j + n = k - u" using spec(4) by auto
  qed
  have ne: "uint (pushCommit (ring_q s)) \<noteq> sint (pushReserve (ring_q s))"
    using mod_distinct[of u ?len "2 * d"] k C(1,9-12) counts_uint[OF C(7)] counts_sint[OF C(8,1,2)] by simp
  obtain t ids where "complete_push i arg5 (ring_q s) = (q, t, ids)"
    using g by (auto simp: complete_pointer_decision_def split: if_splits prod.splits)
  then have Q: "same_ring (ring_q s) q" "packs_ok q" "popCommit q = popCommit (ring_q s)"
    "popDone q = popDone (ring_q s)" "pushCommit q = commit" "pushDone q = don"
    using complete_push_ring[OF C(4) ne cm[folded C(3)]] by auto
  have done_bound: "u + n + j < ?len" if "marked don j" for j
    using S(4)[of j] that C(15)[of "j + n"] k by auto
  let ?t = "s\<lparr>ring_q := q, ring_pc := (ring_pc s)(p := RingIdle)\<rparr>"
  have "ring_counters d c (u + n) ?t"
    using C(1-14) C(16) S(1,2) Q done_bound k by (auto simp: ring_counters_def same_ring_def)
  moreover have "ring_pc_ok d c (u + n) ?t (ring_pc ?t p')" for p'
  proof (cases "ring_pc s p'")
    case (RingPushing k' i' x' w')
    show ?thesis
    proof (cases "p' = p")
      case False
      then have ne: "k' \<noteq> k" using I(5) RingPushing pc by (fastforce simp: ring_distinct_def)
      have k': "u \<le> k'" "k' < ?len" "\<not> marked (pushDone (ring_q s)) (k' - u)" using I(2)[of p'] RingPushing by simp_all
      have "u + n \<le> k'"
      proof (rule ccontr)
        assume "\<not> u + n \<le> k'"
        then have "k' - u < n" using k' by simp
        then show False using S(3)[of "k' - u"] k' ne k by auto
      qed
      then show ?thesis using I(2)[of p'] RingPushing False S(4)[of "k' - (u + n)"] Q(6) ne k k' by auto
    qed simp
  qed (use I(2)[of p'] Q(4) in auto)
  moreover have "writing (ring_pc ?t p') k' = writing (ring_pc s p') k'" for p' k'
    using pc by simp
  then have "ring_slots d c ?t" using I(3) by (simp add: ring_slots_def)
  moreover have "ring_got_ok ?t" using I(4) by (simp add: ring_got_ok_def)
  moreover have "ring_distinct ?t" using I(5) by (auto simp: ring_distinct_def)
  ultimately have "ring_inv d c (u + n) ?t" by (simp add: ring_inv_def)
  then show ?thesis ..
qed

lemma ring_pop_begin_inv:
  assumes inv: "ring_inv d c u s" and idle: "ring_pc s p = RingIdle \<or> ring_pc s p = RingPopAsleep"
    and g: "get_pointer_decision False can_wait myId woken (ring_q s) = Store q (Granted i)"
  shows "ring_inv d c u (s\<lparr>ring_q := q, ring_pc := (ring_pc s)(p := RingPopping (ring_pops s) i None),
      ring_pops := Suc (ring_pops s)\<rparr>)" (is "ring_inv d c u ?t")
proof -
  note I = ring_invD[OF inv]
  note C = ring_countersD[OF I(1)] and G = pop_granted[OF I(1) g]
  note T = G(4)[unfolded index_taken_def]
  have reserve: "counts (popReserve q) d (Suc (ring_pops s))"
    using counts_succ[OF C(6,1,2)] T C(3) by simp
  have fresh: "\<not> marked (popDone (ring_q s)) (ring_pops s - c)"
    using C(16)[of "ring_pops s - c"] C(9) by auto
  have new: "ring_pops s \<notin> fst ` set (ring_got s)" using I(4) by (auto simp: ring_got_ok_def)
  have "ring_counters d c u ?t"
    using C(1-14) C(15,16) G(1,2) reserve T by (fastforce simp: ring_counters_def)
  moreover have "ring_pc_ok d c u ?t (ring_pc ?t p')" for p'
    using I(2)[of p'] C(9) fresh G(3) new T by (cases "ring_pc s p'") auto
  moreover have "writing (ring_pc ?t p') k' = writing (ring_pc s p') k'" for p' k'
    using idle by auto
  then have "ring_slots d c ?t" using I(3) by (simp add: ring_slots_def)
  moreover have "ring_got_ok ?t" using I(4) by (auto simp: ring_got_ok_def)
  moreover have "ring_distinct ?t"
  proof -
    have "pop_index (ring_pc s p') \<noteq> Some (ring_pops s)" for p'
      using I(2)[of p'] by (cases "ring_pc s p'") auto
    then show ?thesis using I(5) idle by (fastforce simp: ring_distinct_def)
  qed
  ultimately show ?thesis by (simp add: ring_inv_def)
qed

lemma pop_get_inv:
  assumes inv: "ring_inv d c u s" and pc: "ring_pc s p = RingPopping k i None"
  shows "ring_inv d c u (s\<lparr>ring_pc := (ring_pc s)(p := RingPopping k i (Some (ring_slot s (entry_slot (ring_q s) i))))\<rparr>)"
    (is "ring_inv d c u ?t")
proof -
  note I = ring_invD[OF inv]
  note C = ring_countersD[OF I(1)]
  have k: "c \<le> k" "k < ring_pops s" "i = int (k mod (2 * d))" using I(2)[of p] pc by simp_all
  have "\<not> writing (ring_pc s p') k" for p' using ring_writing[OF inv, of p' k] k C(10) by auto
  then have v: "ring_slot s (entry_slot (ring_q s) i) = ring_elems s ! k"
    using I(3) k C(10,11) entry_slot_mod[OF C(3,1)] by (simp add: ring_slots_def)
  have "ring_counters d c u ?t" using I(1) by (simp add: ring_counters_def)
  moreover have "ring_pc_ok d c u ?t (ring_pc ?t p')" for p'
    using I(2)[of p'] pc v by (cases "p' = p"; cases "ring_pc s p'") simp_all
  moreover have "writing (ring_pc ?t p') k' = writing (ring_pc s p') k'" for p' k'
    using pc by simp
  then have "ring_slots d c ?t" using I(3) by (simp add: ring_slots_def)
  moreover have "ring_got_ok ?t" using I(4) by (simp add: ring_got_ok_def)
  moreover have "ring_distinct ?t" using I(5) pc by (fastforce simp: ring_distinct_def)
  ultimately show ?thesis by (simp add: ring_inv_def)
qed

lemma pop_end_inv:
  assumes inv: "ring_inv d c u s" and pc: "ring_pc s p = RingPopping k i (Some v)"
    and g: "complete_pointer_decision False i arg5 (ring_q s) = Store q r"
  shows "\<exists>c'. ring_inv d c' u (s\<lparr>ring_q := q, ring_pc := (ring_pc s)(p := RingIdle), ring_got := ring_got s @ [(k, v)]\<rparr>)"
proof -
  note I = ring_invD[OF inv]
  note C = ring_countersD[OF I(1)]
  let ?len = "ring_pops s"
  have k: "c \<le> k" "k < ?len" "i = int (k mod (2 * d))" "v = ring_elems s ! k" "k \<notin> fst ` set (ring_got s)"
    using I(2)[of p] pc by simp_all
  obtain commit don n where cm: "complete (popCommit (ring_q s)) (popDone (ring_q s)) i (int d) = (commit, don, n)"
    by (cases "complete (popCommit (ring_q s)) (popDone (ring_q s)) i (int d)") auto
  have S: "n \<le> ?len - c" "counts commit d (c + n)" "\<And>j. j < n \<Longrightarrow> marked (popDone (ring_q s)) j \<or> j = k - c"
    "\<And>j. marked don j \<longleftrightarrow> marked (popDone (ring_q s)) (j + n) \<or> j + n = k - c"
  proof -
    have m: "marked (popDone (ring_q s)) j \<Longrightarrow> j < ?len - c" for j using C(16)[of j] by simp
    have b: "c \<le> k" "k < c + 16" "k < c + 2 * d" "k < c + (?len - c)" "?len - c \<le> 2 * d"
      using k C(9-14) by simp_all
    note spec = complete_spec[OF C(5,1,2) b(1-3) k(3) m b(4,5) cm]
    show "n \<le> ?len - c" "counts commit d (c + n)" using spec(1,2) by auto
    show "\<And>j. j < n \<Longrightarrow> marked (popDone (ring_q s)) j \<or> j = k - c" using spec(3) by auto
    show "\<And>j. marked don j \<longleftrightarrow> marked (popDone (ring_q s)) (j + n) \<or> j + n = k - c" using spec(4) by auto
  qed
  obtain t ids where "complete_pop i arg5 (ring_q s) = (q, t, ids)"
    using g by (auto simp: complete_pointer_decision_def split: if_splits prod.splits)
  then have Q: "same_ring (ring_q s) q" "packs_ok q" "pushCommit q = pushCommit (ring_q s)"
    "pushDone q = pushDone (ring_q s)" "popCommit q = commit" "popDone q = don"
    using complete_pop_ring[OF C(4) cm[folded C(3)]] by auto
  have done_bound: "c + n + j < ?len" if "marked don j" for j
    using S(4)[of j] that C(16)[of "j + n"] k by auto
  let ?t = "s\<lparr>ring_q := q, ring_pc := (ring_pc s)(p := RingIdle), ring_got := ring_got s @ [(k, v)]\<rparr>"
  have "ring_counters d (c + n) u ?t"
    using C(1-14) C(15) S(1,2) Q done_bound k by (auto simp: ring_counters_def same_ring_def)
  moreover have "ring_pc_ok d (c + n) u ?t (ring_pc ?t p')" for p'
  proof (cases "ring_pc s p'")
    case (RingPopping k' i' v')
    show ?thesis
    proof (cases "p' = p")
      case False
      then have ne: "k' \<noteq> k" using I(5) RingPopping pc by (fastforce simp: ring_distinct_def)
      have k': "c \<le> k'" "k' < ?len" "\<not> marked (popDone (ring_q s)) (k' - c)" using I(2)[of p'] RingPopping by simp_all
      have "c + n \<le> k'"
      proof (rule ccontr)
        assume "\<not> c + n \<le> k'"
        then have "k' - c < n" using k' by simp
        then show False using S(3)[of "k' - c"] k' ne k by auto
      qed
      then show ?thesis using I(2)[of p'] RingPopping False S(4)[of "k' - (c + n)"] Q(6) ne k k' by auto
    qed simp
  qed (use I(2)[of p'] Q(4) in auto)
  moreover have "writing (ring_pc ?t p') k' = writing (ring_pc s p') k'" for p' k'
    using pc by simp
  then have "ring_slots d (c + n) ?t" using I(3) by (simp add: ring_slots_def)
  moreover have "ring_got_ok ?t" using I(4) k by (auto simp: ring_got_ok_def)
  moreover have "ring_distinct ?t" using I(5) by (auto simp: ring_distinct_def)
  ultimately have "ring_inv d (c + n) u ?t" by (simp add: ring_inv_def)
  then show ?thesis ..
qed

text \<open>Going to sleep and giving up change no index.\<close>

lemma asleep_frame:
  assumes "get_pointer_decision push True myId False q = Store q' (Asleep i)" "packs_ok q"
  shows "same_ring q q' \<and> packs_ok q' \<and> popCommit q' = popCommit q \<and> popDone q' = popDone q \<and>
    pushCommit q' = pushCommit q \<and> pushDone q' = pushDone q"
proof -
  let ?p = "pk_set_lo (own_pack push q) (inc30 (pk_lo (own_pack push q)))"
  have own: "pk_ok (own_pack push q)" using assms(2) by (simp add: packs_ok_def own_pack_def)
  obtain j where q': "q' = set_own_pack push ?p (set_waiter push j myId q)"
    using assms(1) by (auto simp: get_pointer_decision_def Let_def split: if_splits)
  show ?thesis using assms(2) pk_ok_moves(1)[OF own] unfolding q'
    by (cases push) (simp_all add: set_own_pack_def set_waiter_def packs_ok_def, simp_all add: same_ring_def)
qed

lemma ring_aside_inv:
  assumes inv: "ring_inv d c u s" and pc: "push_index (ring_pc s p) = None" "pop_index (ring_pc s p) = None"
    and pc': "push_index r = None" "pop_index r = None"
    and q: "same_ring (ring_q s) q \<and> packs_ok q \<and> popCommit q = popCommit (ring_q s) \<and> popDone q = popDone (ring_q s) \<and>
      pushCommit q = pushCommit (ring_q s) \<and> pushDone q = pushDone (ring_q s)"
  shows "ring_inv d c u (s\<lparr>ring_q := q, ring_pc := (ring_pc s)(p := r)\<rparr>)" (is "ring_inv d c u ?t")
proof -
  note I = ring_invD[OF inv]
  have "ring_counters d c u ?t" using I(1) q by (simp add: ring_counters_def same_ring_def)
  moreover have "ring_pc_ok d c u ?t r" using pc' by (cases r) simp_all
  then have "ring_pc_ok d c u ?t (ring_pc ?t p')" for p'
    using I(2)[of p'] q by (cases "p' = p"; cases "ring_pc s p'") simp_all
  moreover have "writing (ring_pc ?t p') k' = writing (ring_pc s p') k'" for p' k'
    using pc pc' by (cases r; cases "ring_pc s p") simp_all
  then have "ring_slots d c ?t" using I(3) by (simp add: ring_slots_def)
  moreover have "ring_got_ok ?t" using I(4) by (simp add: ring_got_ok_def)
  moreover have "ring_distinct ?t" using I(5) pc' by (simp add: ring_distinct_def)
  ultimately show ?thesis by (simp add: ring_inv_def)
qed

lemma ring_step_inv:
  assumes "ring_step s t" "ring_inv d c u s"
  shows "\<exists>c u. ring_inv d c u t"
proof -
  have ok: "packs_ok (ring_q s)" by (rule ring_countersD(4)[OF ring_invD(1)[OF assms(2)]])
  from assms(1) show ?thesis
  proof cases
    case (push_begin p can_wait myId q i x)
    then show ?thesis using ring_push_begin_inv[OF assms(2), of p x can_wait myId False q i] by blast
  next
    case (push_sleep p myId q i x)
    then show ?thesis using ring_aside_inv[OF assms(2) _ _ _ _ asleep_frame[OF push_sleep(3) ok], of p "RingPushAsleep x"] by auto
  next
    case (push_woken p x myId q i)
    then show ?thesis using ring_push_begin_inv[OF assms(2), of p x True myId True q i] by blast
  next
    case (push_partial p k i x y)
    then show ?thesis using push_write_inv[OF assms(2), of p k i x False y] by (auto simp: fun_upd_idem)
  next
    case (push_put p k i x)
    then show ?thesis using push_write_inv[OF assms(2), of p k i x True x] by auto
  next
    case (push_end p k i x arg5 q r)
    then show ?thesis using push_end_inv[OF assms(2), of p k i x arg5 q r] by auto
  next
    case (pop_begin p can_wait myId q i)
    then show ?thesis using ring_pop_begin_inv[OF assms(2), of p can_wait myId False q i] by blast
  next
    case (pop_sleep p myId q i)
    then show ?thesis using ring_aside_inv[OF assms(2) _ _ _ _ asleep_frame[OF pop_sleep(3) ok], of p RingPopAsleep] by auto
  next
    case (pop_woken p myId q i)
    then show ?thesis using ring_pop_begin_inv[OF assms(2), of p True myId True q i] by blast
  next
    case (pop_get p k i)
    then show ?thesis using pop_get_inv[OF assms(2), of p k i] by auto
  next
    case (pop_end p k i v arg5 q r)
    then show ?thesis using pop_end_inv[OF assms(2), of p k i v arg5 q r] by auto
  next
    case (wait_failed p x)
    have "ring_inv d c u (s\<lparr>ring_q := ring_q s, ring_pc := (ring_pc s)(p := RingIdle)\<rparr>)"
      by (rule ring_aside_inv[OF assms(2)]) (use wait_failed(2) ok in \<open>auto simp: same_ring_def\<close>)
    then show ?thesis using wait_failed(1) by auto
  qed
qed

section \<open>Reachable states\<close>

definition ring_start :: "lfqueue \<Rightarrow> (int \<Rightarrow> u8 list) \<Rightarrow> ring_system" where
  "ring_start q slots = \<lparr>ring_q = q, ring_slot = slots, ring_pc = (\<lambda>_. RingIdle), ring_elems = [],
     ring_pops = 0, ring_got = []\<rparr>"

lemma lfq_initialized:
  assumes "cellSyncLFQueueInitialize ea buffer sz depth direction sig answers = Stored lfq_zero q (Inr ())"
  shows "q = lfq_fresh buffer sz depth direction sig lfq_zero \<and> 0 < unat depth \<and> unat depth < 2 ^ 15 \<and>
    unat sz \<le> 2 ^ 14 \<and> buffer AND 15 = 0"
proof -
  have args: "lfq_init_args ea buffer sz depth direction = None"
    using assms by (auto simp: cellSyncLFQueueInitialize_def split: option.splits)
  then have "lfq_init_decision buffer sz depth direction sig lfq_zero = Store q (Inr ())"
    using assms by (auto simp: cellSyncLFQueueInitialize_def dest!: llsc_loop_Stored)
  then have q: "q = lfq_fresh buffer sz depth direction sig lfq_zero"
    by (simp add: lfq_init_decision_def lfq_zero_def)
  have m: "(0xffff8000 :: u32) = NOT (mask 15)" by (simp add: mask_eq_exp_minus_1)
  have "depth AND 0xffff8000 = 0"
    using args unfolding lfq_init_args_def by (metis option.distinct(1))
  then have "unat depth div 2 ^ 15 * 2 ^ 15 = 0"
    unfolding m using unat_and_not_mask[of depth 15] by (metis unat_0)
  then have "unat depth < 2 ^ 15" by (simp add: div_eq_0_iff)
  moreover have "depth \<noteq> 0" "sz \<le> 0x4000" "buffer AND 15 = 0"
    using args by (auto simp: lfq_init_args_def not_less split: if_splits)
  ultimately show ?thesis using q by (auto simp: word_le_nat_alt unat_gt_0)
qed

lemma ring_start_inv:
  assumes "cellSyncLFQueueInitialize ea buffer sz depth direction sig answers = Stored lfq_zero q (Inr ())"
    and "unat depth \<le> 16384"
  shows "ring_inv (unat depth) 0 0 (ring_start q slots)"
proof -
  note q = lfq_initialized[OF assms(1)]
  have fields: "lfq_depth q = depth" "packs_ok q" "popCommit q = 0" "popReserve q = 0" "pushCommit q = 0"
    "pushReserve q = 0" "pushDone q = 0" "popDone q = 0"
    using q by (auto simp: lfq_fresh_def lfq_zero_def packs_ok_def pk_zero_ok pop_pack_def push_pack_def Let_def)
  have "uint depth = int (unat depth)" by (rule uint_nat)
  then show ?thesis
    using q fields assms(2)
    by (simp add: ring_inv_def ring_counters_def counts_def marked_def ring_slots_def ring_got_ok_def
        ring_distinct_def ring_start_def)
qed

lemma ring_reachable_inv:
  assumes "cellSyncLFQueueInitialize ea buffer sz depth direction sig answers = Stored lfq_zero q (Inr ())"
    and "unat depth \<le> 16384" and "ring_step\<^sup>*\<^sup>* (ring_start q slots) s"
  shows "\<exists>c u. ring_inv (unat depth) c u s"
  using assms(3)
proof (induction rule: rtranclp_induct)
  case base
  then show ?case using ring_start_inv[OF assms(1,2)] by blast
next
  case (step s t)
  then show ?case using ring_step_inv by blast
qed

text \<open>The size the code reports is the number of elements between the two commit counters.\<close>

lemma ring_size:
  assumes "ring_inv d c u s"
  shows "dist (uint (pushCommit (ring_q s))) (uint (popCommit (ring_q s))) (uint (lfq_depth (ring_q s))) = int (u - c)"
proof -
  note C = ring_countersD[OF ring_invD(1)[OF assms]]
  show ?thesis
    unfolding C(3) counts_uint[OF C(5)] counts_uint[OF C(7)] using C(1,9-12) by (intro dist_mod) simp_all
qed

section \<open>Entry addresses\<close>

lemma scast_small: "m < 2 ^ 31 \<Longrightarrow> (scast (of_nat m :: u32) :: u64) = of_nat m"
proof -
  assume m: "m < 2 ^ 31"
  then have "unat (of_nat m :: u32) = m" by (simp add: unat_of_nat)
  then have "uint (of_nat m :: u32) = int m" using uint_nat[of "of_nat m :: u32"] by presburger
  moreover have "signed_take_bit 31 (int m) = int m"
    using m order_trans[of "- (2 ^ 31)" 0 "int m"] by (intro signed_take_bit_int_eq_self) simp_all
  ultimately have "sint (of_nat m :: u32) = int m" by (simp add: sint_uint)
  then have "(word_of_int (sint (of_nat m :: u32)) :: u64) = word_of_int (int m)" by (rule arg_cong)
  then show ?thesis by simp
qed

text \<open>Every pointer below \<open>2 * depth\<close> addresses an entry inside the buffer.\<close>

lemma lfq_entry_ea_in_buffer:
  assumes d: "uint (lfq_depth q) = int d" "0 < d" "d < 2 ^ 15" and sz: "unat (lfq_size q) \<le> 2 ^ 14"
  shows "lfq_entry_ea q (int (k mod (2 * d))) = (lfq_buffer q AND NOT 1) + of_nat (k mod d * unat (lfq_size q))"
proof -
  let ?o = "k mod d * unat (lfq_size q)"
  have "k mod d \<le> 2 ^ 15" using d(2,3) by (meson mod_less_divisor less_imp_le order_trans)
  then have "?o \<le> 2 ^ 15 * 2 ^ 14" using sz by (rule mult_le_mono)
  then have small: "?o < 2 ^ 31" by simp
  have "(word_of_int (int (k mod d)) :: u32) * lfq_size q = of_nat ?o" by simp
  then show ?thesis unfolding lfq_entry_ea_def entry_slot_mod[OF d(1,2)] by (simp only: scast_small[OF small])
qed

end
