(* ===== verification/Sync_Lfqueue_Props.thy ===== *)
theory Sync_Lfqueue_Props
  imports Sync_Lfqueue_Ring Sync_Lfqueue_Pack
begin

text \<open>
  The properties of the lock-free queue, each with a witness at a concrete run.
\<close>

section \<open>Delivery\<close>

text \<open>C33: A lock-free queue of depth at most 16384, used by any number of pushers and poppers, with or without
  waiting (a caller that must wait sleeps in its callback and, whenever that returns, reserves as a woken one), whose
  transfers overlap and may leave anything in a slot before they are complete: the element a completed pop delivers is the one
  pushed under the same index, no index is delivered twice, and at most \<open>depth\<close> elements are in the ring, which is at
  least the size it reports.\<close>

theorem lfqueue_delivers:
  assumes "cellSyncLFQueueInitialize ea buffer sz depth direction sig answers = Stored lfq_zero q (Inr ())"
    and "unat depth \<le> 16384" and "ring_step\<^sup>*\<^sup>* (ring_start q slots) s"
  shows "distinct (map fst (ring_got s)) \<and>
    (\<forall>(k, v) \<in> set (ring_got s). k < length (ring_elems s) \<and> v = ring_elems s ! k) \<and>
    (\<exists>c \<le> ring_pops s. length (ring_elems s) \<le> c + unat depth \<and>
       dist (uint (pushCommit (ring_q s))) (uint (popCommit (ring_q s))) (uint (lfq_depth (ring_q s)))
         \<le> int (length (ring_elems s) - c))"
proof -
  obtain c u where inv: "ring_inv (unat depth) c u s" using ring_reachable_inv[OF assms] by blast
  note C = ring_countersD[OF ring_invD(1)[OF inv]]
  have "distinct (map fst (ring_got s))" using ring_invD(4)[OF inv] by (simp add: ring_got_ok_def)
  moreover have "\<forall>(k, v) \<in> set (ring_got s). k < length (ring_elems s) \<and> v = ring_elems s ! k"
    using ring_invD(4)[OF inv] C(10,11) by (fastforce simp: ring_got_ok_def)
  ultimately show ?thesis using C(9-12) ring_size[OF inv] by (intro conjI exI[of _ c]) simp_all
qed

definition demo_queue :: lfqueue where
  "demo_queue = lfq_fresh 0x1000 16 2 0 0 lfq_zero"

lemma demo_initialized:
  "cellSyncLFQueueInitialize 0x80 0x1000 16 2 0 0 [(lfq_zero, True)] = Stored lfq_zero demo_queue (Inr ())"
  by (simp add: cellSyncLFQueueInitialize_def lfq_init_args_def ANY2ANY_def lfq_init_decision_def
      demo_queue_def) (simp add: lfq_zero_def)

text \<open>The blocks of a run in which a popper finds the queue empty, sleeps, is woken by the push and takes the element.\<close>

definition demo_blocks :: "lfqueue list" where
  "demo_blocks =
     (let q1 = demo_queue\<lparr>pushReserve := 1\<rparr>;
          q2 = q1\<lparr>popWaiter := (popWaiter q1)[0 := 5], popWaitPack := 1\<rparr>;
          q3 = q2\<lparr>pushCommit := 1, popWaitPack := 0x401\<rparr>;
          q4 = q3\<lparr>popReserve := 1, popWaitPack := 0x421\<rparr>;
          q5 = q4\<lparr>popCommit := 1\<rparr>
      in [q1, q2, q3, q4, q5])"

lemma demo_decisions:
  "get_pointer_decision True False 0 False demo_queue = Store (demo_blocks ! 0) (Granted 0)"
  "get_pointer_decision False True 5 False (demo_blocks ! 0) = Store (demo_blocks ! 1) (Asleep 0)"
  "complete_pointer_decision True 0 False (demo_blocks ! 1) = Store (demo_blocks ! 2) (Woke False [5])"
  "get_pointer_decision False True 5 True (demo_blocks ! 2) = Store (demo_blocks ! 3) (Granted 0)"
  "complete_pointer_decision False 0 False (demo_blocks ! 3) = Store (demo_blocks ! 4) (Woke False [])"
  by code_simp+

lemma demo_slot: "entry_slot (demo_blocks ! 0) 0 = 0" "entry_slot (demo_blocks ! Suc 0) 0 = 0" "entry_slot (demo_blocks ! 3) 0 = 0"
  by code_simp+

definition demo_states :: "ring_system list" where
  "demo_states =
     (let s0 = ring_start demo_queue (\<lambda>_. []);
          s1 = s0\<lparr>ring_q := demo_blocks ! 0, ring_pc := (ring_pc s0)(0 := RingPushing 0 0 [7] False), ring_elems := [[7]]\<rparr>;
          s2 = s1\<lparr>ring_q := demo_blocks ! 1, ring_pc := (ring_pc s1)(1 := RingPopAsleep)\<rparr>;
          s3 = s2\<lparr>ring_slot := (ring_slot s2)(0 := [7]), ring_pc := (ring_pc s2)(0 := RingPushing 0 0 [7] True)\<rparr>;
          s4 = s3\<lparr>ring_q := demo_blocks ! 2, ring_pc := (ring_pc s3)(0 := RingIdle)\<rparr>;
          s5 = s4\<lparr>ring_q := demo_blocks ! 3, ring_pc := (ring_pc s4)(1 := RingPopping 0 0 None), ring_pops := 1\<rparr>;
          s6 = s5\<lparr>ring_pc := (ring_pc s5)(1 := RingPopping 0 0 (Some [7]))\<rparr>;
          s7 = s6\<lparr>ring_q := demo_blocks ! 4, ring_pc := (ring_pc s6)(1 := RingIdle), ring_got := [(0, [7])]\<rparr>
      in [s0, s1, s2, s3, s4, s5, s6, s7])"

lemma demo_run: "ring_step\<^sup>*\<^sup>* (demo_states ! 0) (demo_states ! 7)"
proof -
  have s1: "ring_step (demo_states ! 0) (demo_states ! 1)"
    using ring_step.push_begin[of "demo_states ! 0" 0 False 0 "demo_blocks ! 0" 0 "[7]"] demo_decisions(1)
    by (simp add: demo_states_def Let_def ring_start_def)
  have s2: "ring_step (demo_states ! 1) (demo_states ! 2)"
    using ring_step.pop_sleep[of "demo_states ! 1" 1 5 "demo_blocks ! 1" 0] demo_decisions(2)
    by (simp add: demo_states_def Let_def ring_start_def)
  have s3: "ring_step (demo_states ! 2) (demo_states ! 3)"
    using ring_step.push_put[of "demo_states ! 2" 0 0 0 "[7]"]
    by (simp add: demo_states_def Let_def ring_start_def demo_slot)
  have s4: "ring_step (demo_states ! 3) (demo_states ! 4)"
    using ring_step.push_end[of "demo_states ! 3" 0 0 0 "[7]" False "demo_blocks ! 2"] demo_decisions(3)
    by (simp add: demo_states_def Let_def ring_start_def)
  have s5: "ring_step (demo_states ! 4) (demo_states ! 5)"
    using ring_step.pop_woken[of "demo_states ! 4" 1 5 "demo_blocks ! 3" 0] demo_decisions(4)
    by (simp add: demo_states_def Let_def ring_start_def)
  have s6: "ring_step (demo_states ! 5) (demo_states ! 6)"
    using ring_step.pop_get[of "demo_states ! 5" 1 0 0]
    by (simp add: demo_states_def Let_def ring_start_def demo_slot)
  have s7: "ring_step (demo_states ! 6) (demo_states ! 7)"
    using ring_step.pop_end[of "demo_states ! 6" 1 0 0 "[7]" False "demo_blocks ! 4"] demo_decisions(5)
    by (simp add: demo_states_def Let_def ring_start_def)
  show ?thesis using s1 s2 s3 s4 s5 s6 s7 by (meson rtranclp.rtrancl_into_rtrancl rtranclp.rtrancl_refl)
qed

lemma demo_ends: "demo_states ! 0 = ring_start demo_queue (\<lambda>_. [])" "ring_got (demo_states ! 7) = [(0, [7])]"
    "ring_elems (demo_states ! 7) = [[7]]"
  by (simp_all add: demo_states_def Let_def)

theorem lfqueue_delivers_witness:
  "\<exists>s. ring_step\<^sup>*\<^sup>* (ring_start demo_queue (\<lambda>_. [])) s \<and> ring_got s = [(0, [7])] \<and>
     0 < length (ring_elems s) \<and> [7] = ring_elems s ! 0"
proof -
  have run: "ring_step\<^sup>*\<^sup>* (ring_start demo_queue (\<lambda>_. [])) (demo_states ! 7)"
    using demo_run unfolding demo_ends(1) .
  have d: "unat (2 :: u32) \<le> 16384" by simp
  show ?thesis
    using lfqueue_delivers[OF demo_initialized d run] run demo_ends(2,3) by (intro exI[of _ "demo_states ! 7"]) simp
qed

section \<open>Entry addresses\<close>

text \<open>In every reachable state each transfer in progress is within the buffer the queue was
  initialised with, and two transfers in progress never touch the same entry unless both read it.\<close>

theorem lfqueue_transfers_disjoint:
  assumes "cellSyncLFQueueInitialize ea buffer sz depth direction sig answers = Stored lfq_zero q (Inr ())"
    and "unat depth \<le> 16384" and "ring_step\<^sup>*\<^sup>* (ring_start q slots) s"
    and "ring_pc s p = RingPushing k i x w"
  shows "0 \<le> entry_slot (ring_q s) i \<and> nat (entry_slot (ring_q s) i) < unat depth \<and>
    (\<forall>p' k' i' x' w'. ring_pc s p' = RingPushing k' i' x' w' \<longrightarrow> p' \<noteq> p \<longrightarrow>
       entry_slot (ring_q s) i' \<noteq> entry_slot (ring_q s) i) \<and>
    (\<forall>p' k' i' v. ring_pc s p' = RingPopping k' i' v \<longrightarrow> entry_slot (ring_q s) i' \<noteq> entry_slot (ring_q s) i)"
proof -
  obtain c u where inv: "ring_inv (unat depth) c u s" using ring_reachable_inv[OF assms(1-3)] by blast
  note I = ring_invD[OF inv]
  note C = ring_countersD[OF I(1)]
  let ?d = "unat depth"
  have k: "u \<le> k" "k < length (ring_elems s)" "i = int (k mod (2 * ?d))" using I(2)[of p] assms(4) by simp_all
  have slot: "entry_slot (ring_q s) (int (k' mod (2 * ?d))) = int (k' mod ?d)" for k'
    by (rule entry_slot_mod[OF C(3,1)])
  have push: "entry_slot (ring_q s) i' \<noteq> entry_slot (ring_q s) i"
    if "ring_pc s p' = RingPushing k' i' x' w'" "p' \<noteq> p" for p' k' i' x' w'
  proof -
    have "k' \<noteq> k" using I(5) that assms(4) by (fastforce simp: ring_distinct_def)
    then show ?thesis
      using I(2)[of p'] that(1) k C(9-12) slot slot_distinct[of c k' ?d k] by simp
  qed
  have pop: "entry_slot (ring_q s) i' \<noteq> entry_slot (ring_q s) i" if "ring_pc s p' = RingPopping k' i' v" for p' k' i' v
    using I(2)[of p'] that k C(9-12) slot slot_distinct[of c k' ?d k] by simp
  show ?thesis using push pop k(3) slot[of k] C(1) by auto
qed

theorem lfqueue_transfers_disjoint_witness:
  "\<exists>s. ring_step\<^sup>*\<^sup>* (ring_start demo_queue (\<lambda>_. [])) s \<and> ring_pc s 0 = RingPushing 0 0 [7] False \<and>
     0 \<le> entry_slot (ring_q s) 0 \<and> nat (entry_slot (ring_q s) 0) < 2"
proof -
  let ?s = "demo_states ! 1"
  have "ring_step (demo_states ! 0) ?s"
    using ring_step.push_begin[of "demo_states ! 0" 0 False 0 "demo_blocks ! 0" 0 "[7]"] demo_decisions(1)
    by (simp add: demo_states_def Let_def ring_start_def)
  then have run: "ring_step\<^sup>*\<^sup>* (ring_start demo_queue (\<lambda>_. [])) ?s" unfolding demo_ends(1) by blast
  have pc: "ring_pc ?s 0 = RingPushing 0 0 [7] False" by (simp add: demo_states_def Let_def)
  have d: "unat (2 :: u32) \<le> 16384" by simp
  show ?thesis
    using lfqueue_transfers_disjoint[OF demo_initialized d run pc] run pc by (intro exI[of _ ?s]) simp
qed

text \<open>Depths above 16384 are accepted, but there the code reads its 16-bit reserve index as a signed
  number: on a queue of depth 20000 that has passed 32768 elements, the next pusher is granted the
  negative pointer -32768 and its entry lies in front of the buffer.\<close>

definition deep_queue :: lfqueue where
  "deep_queue = (lfq_fresh 0x100000 16 20000 0 0 lfq_zero)\<lparr>popCommit := 32768, popReserve := 32768,
     pushCommit := 32768, pushReserve := 32768\<rparr>"

theorem lfqueue_deep_pointer_negative:
  "cellSyncLFQueueInitialize 0x80 0x100000 16 20000 0 0 [(lfq_zero, True)] =
     Stored lfq_zero (deep_queue\<lparr>popCommit := 0, popReserve := 0, pushCommit := 0, pushReserve := 0\<rparr>) (Inr ()) \<and>
   get_pointer_decision True False 0 False deep_queue = Store (deep_queue\<lparr>pushReserve := 32769\<rparr>) (Granted (-32768)) \<and>
   lfq_entry_ea deep_queue (-32768) = 0x100000 - 32768 * 16 \<and> lfq_entry_ea deep_queue (-32768) < 0x100000"
  by code_simp

section \<open>Initialization\<close>

text \<open>Initializing an initialised queue again with the same arguments succeeds and changes nothing,
  except in the direction ANY2ANY, where the stored buffer address carries a flag bit that the
  comparison does not mask: there the identical request is refused.\<close>

theorem lfqueue_initialize_again:
  assumes "cellSyncLFQueueInitialize ea buffer sz depth direction sig answers = Stored lfq_zero q (Inr ())"
  shows "cellSyncLFQueueInitialize ea buffer sz depth direction sig [(q, True)] =
    (if direction = ANY2ANY then Returned (Inl SYNC_INVAL) else Stored q q (Inr ()))"
proof -
  note q = lfq_initialized[OF assms]
  have args: "lfq_init_args ea buffer sz depth direction = None"
    using assms by (auto simp: cellSyncLFQueueInitialize_def split: option.splits)
  have "\<not> bit buffer 0"
  proof -
    have "buffer AND mask 4 = 0" using q by (simp add: mask_eq_exp_minus_1)
    then have "\<not> bit (buffer AND mask 4) 0" by simp
    then show ?thesis by (simp add: bit_simps)
  qed
  moreover have "bit (buffer OR 1) 0" by (simp add: bit_simps)
  ultimately have flag: "buffer OR 1 \<noteq> buffer" by metis
  show ?thesis
  proof (cases "direction = ANY2ANY")
    case True
    then have "lfq_init q = 2" "lfq_buffer q = buffer OR 1" using q by (simp_all add: lfq_fresh_def Let_def)
    then show ?thesis using True args flag by (simp add: cellSyncLFQueueInitialize_def lfq_init_decision_def)
  next
    case False
    then have "lfq_init q = 2" "lfq_buffer q = buffer" "lfq_size q = sz" "lfq_depth q = depth" "eaSignal q = sig"
      "lfq_direction q = direction" using q by (simp_all add: lfq_fresh_def Let_def)
    then show ?thesis using False args by (simp add: cellSyncLFQueueInitialize_def lfq_init_decision_def)
  qed
qed

theorem lfqueue_initialize_again_witness:
  "cellSyncLFQueueInitialize 0x80 0x1000 16 2 0 0 [(demo_queue, True)] = Stored demo_queue demo_queue (Inr ())"
  using lfqueue_initialize_again[OF demo_initialized] by (simp add: ANY2ANY_def)

section \<open>Waiters\<close>

text \<open>Callers that must wait are woken in the order in which they registered: a reservation pass that
  puts its caller to sleep appends its id to the waiting ids, never more than 15, and a completion
  signals the oldest of them.\<close>

theorem lfqueue_waiters_fifo:
  assumes "pack_inv (own_waiters push q)"
    and "get_pointer_decision push True myId False q = Store q' (Asleep i)"
  shows "pack_inv (own_waiters push q') \<and>
    (let ids = (\<lambda>(p, arr). waiting_ids p arr);
         (id, rest) = pack_signal (own_waiters push q')
     in ids (own_waiters push q') = ids (own_waiters push q) @ [myId] \<and>
        length (ids (own_waiters push q')) \<le> 15 \<and>
        id # ids rest = ids (own_waiters push q'))"
proof -
  let ?s = "own_waiters push q"
  have room: "pack_room ?s" and q': "own_waiters push q' = pack_register myId ?s"
    using asleep_registers[OF assms(2)] by (simp_all add: pack_room_def own_waiters_def)
  have inv: "pack_inv (own_waiters push q')" unfolding q' by (rule waiters.enq_inv[OF assms(1) room])
  have app: "(\<lambda>(p, arr). waiting_ids p arr) (own_waiters push q') = (\<lambda>(p, arr). waiting_ids p arr) ?s @ [myId]"
    unfolding q' by (rule waiters.enq_contents[OF assms(1) room])
  then have ne: "(\<lambda>(p, arr). waiting_ids p arr) (own_waiters push q') \<noteq> []" by simp
  obtain m a b where c: "pack_counts (fst (own_waiters push q')) m a b" using inv by (auto simp: pack_inv_def)
  have "length ((\<lambda>(p, arr). waiting_ids p arr) (own_waiters push q')) \<le> 15"
    using c waiting_ids_eq[OF c] by (simp add: case_prod_beta pack_counts_def)
  then show ?thesis using inv app waiters.deq_contents[OF inv ne] by (simp add: Let_def case_prod_beta)
qed

theorem lfqueue_waiters_fifo_witness:
  "let q = demo_queue\<lparr>pushReserve := 2\<rparr>;
       q' = q\<lparr>pushWaiter := (pushWaiter q)[0 := 5], pushWaitPack := 1\<rparr>
   in get_pointer_decision True True 5 False q = Store q' (Asleep 2) \<and>
      (\<lambda>(p, arr). waiting_ids p arr) (own_waiters True q') = [5]"
proof -
  let ?q = "demo_queue\<lparr>pushReserve := 2\<rparr>"
  let ?q' = "?q\<lparr>pushWaiter := (pushWaiter ?q)[0 := 5], pushWaitPack := 1\<rparr>"
  have own: "own_waiters True ?q = (0, replicate 15 0)"
    by (simp add: own_waiters_def own_pack_def push_pack_def demo_queue_def lfq_fresh_def lfq_zero_def Let_def ANY2ANY_def)
  have "pack_counts 0 0 0 0" by (simp add: pack_counts_def pk_lo_def pk_mid_def pk_hi_def)
  then have inv: "pack_inv (own_waiters True ?q)" unfolding own pack_inv_def by auto
  have none: "(\<lambda>(p, arr). waiting_ids p arr) (own_waiters True ?q) = []" unfolding own by (simp add: waiting_ids_def)
  have dec: "get_pointer_decision True True 5 False ?q = Store ?q' (Asleep 2)" by code_simp
  show ?thesis using lfqueue_waiters_fifo[OF inv dec] none dec by (simp add: Let_def case_prod_beta)
qed

end
