(* ===== verification/Counting.thy ===== *)
theory Counting
  imports Prelude
begin

text \<open>
  How many of finitely many threads are in a state of some kind, or what they contribute together, and how that changes
  when one of them moves.
\<close>

section \<open>Counting up\<close>

lemma u16_up: "unat (x :: u16) < unat (y :: u16) \<Longrightarrow> unat (x + 1) = unat x + 1"
proof -
  assume "unat x < unat y"
  moreover have "unat y < 2 ^ 16" using unsigned_less[of y] by simp
  ultimately show ?thesis by (intro unat_up) simp
qed

section \<open>Counting threads\<close>

definition number :: "nat \<Rightarrow> ('s \<Rightarrow> bool) \<Rightarrow> (nat \<Rightarrow> 's) \<Rightarrow> nat" where
  "number N P thr = card {t. t < N \<and> P (thr t)}"

lemma number_update:
  assumes "t < N"
  shows "number N P (thr(t := s)) + (if P (thr t) then 1 else 0) = number N P thr + (if P s then 1 else 0)"
proof -
  let ?R = "{u. u < N \<and> u \<noteq> t \<and> P (thr u)}"
  have fin: "finite ?R" "t \<notin> ?R" by auto
  have "{u. u < N \<and> P ((thr(t := s)) u)} = (if P s then insert t ?R else ?R)" using assms by auto
  moreover have "{u. u < N \<and> P (thr u)} = (if P (thr t) then insert t ?R else ?R)" using assms by auto
  ultimately show ?thesis using fin by (simp add: number_def)
qed

lemma number_pos: "t < N \<Longrightarrow> P (thr t) \<Longrightarrow> 0 < number N P thr"
  unfolding number_def by (subst card_gt_0_iff) auto

lemma number_ex: "0 < number N P thr \<Longrightarrow> \<exists>t < N. P (thr t)"
  unfolding number_def by (metis (mono_tags, lifting) card.empty empty_Collect_eq less_numeral_extra(3))

lemma number_one_unique:
  assumes "number N P thr \<le> 1" "t < N" "P (thr t)" "u < N" "P (thr u)"
  shows "t = u"
proof (rule ccontr)
  assume "t \<noteq> u"
  then have "card {t, u} = 2" by simp
  moreover have "{t, u} \<subseteq> {v. v < N \<and> P (thr v)}" "finite {v. v < N \<and> P (thr v)}" using assms by auto
  ultimately have "2 \<le> number N P thr" unfolding number_def by (metis card_mono)
  then show False using assms(1) by simp
qed

lemma number_none: "(\<And>t. t < N \<Longrightarrow> \<not> P (thr t)) \<Longrightarrow> number N P thr = 0"
  unfolding number_def by auto

text \<open>The same for a quantity each thread contributes.\<close>

definition total :: "nat \<Rightarrow> ('s \<Rightarrow> nat) \<Rightarrow> (nat \<Rightarrow> 's) \<Rightarrow> nat" where
  "total N f thr = (\<Sum>t<N. f (thr t))"

lemma total_update:
  assumes "t < N"
  shows "total N f (thr(t := s)) + f (thr t) = total N f thr + f s"
proof -
  have "total N f (thr(t := s)) = f s + (\<Sum>u \<in> {..<N} - {t}. f (thr u))"
    unfolding total_def using assms by (subst sum.remove[of _ t]) (auto intro!: sum.cong)
  moreover have "total N f thr = f (thr t) + (\<Sum>u \<in> {..<N} - {t}. f (thr u))"
    unfolding total_def using assms by (subst sum.remove[of _ t]) auto
  ultimately show ?thesis by simp
qed

lemma total_ge: "t < N \<Longrightarrow> f (thr t) \<le> total N f thr"
  unfolding total_def by (rule member_le_sum) auto

lemma total_ge2: "t < N \<Longrightarrow> u < N \<Longrightarrow> t \<noteq> u \<Longrightarrow> f (thr t) + f (thr u) \<le> total N f thr"
proof -
  assume a: "t < N" "u < N" "t \<noteq> u"
  have "(\<Sum>v \<in> {t, u}. f (thr v)) \<le> (\<Sum>v<N. f (thr v))" using a by (intro sum_mono2) auto
  then show ?thesis using a(3) by (simp add: total_def)
qed

lemma total_ex: "0 < total N f thr \<Longrightarrow> \<exists>t < N. 0 < f (thr t)"
  unfolding total_def by (metis gr0I lessThan_iff less_numeral_extra(3) sum.neutral)

lemma total_cong: "(\<And>t. t < N \<Longrightarrow> f (thr t) = g (thr t)) \<Longrightarrow> total N f thr = total N g thr"
  by (simp add: total_def)

lemma total_add: "total N (\<lambda>s. f s + g s) thr = total N f thr + total N g thr"
  by (simp add: total_def sum.distrib)

end
