(* ===== verification/Sync2_Base.thy ===== *)
theory Sync2_Base
  imports Llsc Counting
begin

text \<open>
  What the objects of \<open>sdk/libsync2\<close> share: error codes, the caller and notifier descriptions with the checks
  the operations make on them.
\<close>

section \<open>Errors\<close>

datatype s2_error = S2_AGAIN | S2_INVAL | S2_NOMEM | S2_DEADLK | S2_PERM | S2_BUSY | S2_STAT | S2_ALIGN
  | S2_NULL_POINTER | S2_NOT_SUPPORTED_THREAD | S2_NO_NOTIFIER

section \<open>Callers\<close>

text \<open>A callback is described by whether its pointer is set; what it returns is an argument of the operations.\<close>

record s2_caller =
  threadTypeId :: u16
  self_id :: u64
  has_allocate :: bool
  has_free :: bool
  has_wait :: bool

record s2_notifier =
  nt_threadTypeId :: u16
  nt_sendSignal :: bool

record s2_config =
  callerThreadType :: "s2_caller option"
  notifierTable :: "s2_notifier list option"

text \<open>\<open>s2_check_args\<close>, the first thing every entry point does.\<close>

definition s2_check_args :: "u64 \<Rightarrow> s2_config option \<Rightarrow> u32 \<Rightarrow> s2_error + unit" where
  "s2_check_args ea config dmaTag =
     (if ea = 0 \<or> config = None then Inl S2_NULL_POINTER
      else if ea AND 0x7f \<noteq> 0 then Inl S2_ALIGN
      else if dmaTag \<ge> 32 then Inl S2_INVAL
      else Inr ())"

definition can_block :: "s2_caller \<Rightarrow> bool" where
  "can_block caller \<longleftrightarrow> has_allocate caller \<and> has_free caller \<and> has_wait caller"

text \<open>The loop over the notifiers: it returns what is left of the thread types nobody notifies.\<close>

fun cover_notifiers :: "s2_notifier list \<Rightarrow> u32 \<Rightarrow> s2_error + u32" where
  "cover_notifiers [] uncovered = Inr uncovered"
| "cover_notifiers (nt # nts) uncovered =
     (if nt_threadTypeId nt = 0 then Inl S2_INVAL
      else if \<not> nt_sendSignal nt then Inl S2_NULL_POINTER
      else cover_notifiers nts (uncovered AND NOT (ucast (nt_threadTypeId nt))))"

definition check_notifiers :: "u16 \<Rightarrow> s2_notifier list \<Rightarrow> s2_error + unit" where
  "check_notifiers thread_types nts =
     (if nts = [] then Inl S2_INVAL
      else case cover_notifiers nts (ucast thread_types AND 0xff) of
        Inl e \<Rightarrow> Inl e
      | Inr uncovered \<Rightarrow> if uncovered \<noteq> 0 then Inl S2_NO_NOTIFIER else Inr ())"

text \<open>The checks of cond.c and queue.c on the caller and the notifiers, in one piece.\<close>

definition check_caller :: "u16 \<Rightarrow> s2_caller option \<Rightarrow> s2_notifier list option \<Rightarrow> bool \<Rightarrow> s2_error + unit" where
  "check_caller thread_types caller notifiers wait =
     (case caller of
        None \<Rightarrow> Inl S2_NULL_POINTER
      | Some c \<Rightarrow>
          if threadTypeId c = 0 then Inl S2_INVAL
          else if thread_types AND threadTypeId c = 0 then Inl S2_NOT_SUPPORTED_THREAD
          else if wait \<and> \<not> can_block c then Inl S2_PERM
          else case notifiers of
            None \<Rightarrow> Inl S2_NULL_POINTER
          | Some nts \<Rightarrow> check_notifiers thread_types nts)"

text \<open>A table passes exactly if every entry is complete and every blockable type the object admits is in it.\<close>

lemma cover_notifiers_bits:
  "cover_notifiers nts unc = Inr rest \<Longrightarrow> bit rest k \<longleftrightarrow> bit unc k \<and> (\<forall>nt \<in> set nts. \<not> bit (nt_threadTypeId nt) k)"
proof (induction nts arbitrary: unc)
  case (Cons nt nts)
  then have "bit rest k \<longleftrightarrow> bit (unc AND NOT (ucast (nt_threadTypeId nt))) k \<and> (\<forall>x \<in> set nts. \<not> bit (nt_threadTypeId x) k)"
    by (auto split: if_splits)
  moreover have "bit (unc AND NOT (ucast (nt_threadTypeId nt)) :: u32) k \<longleftrightarrow> bit unc k \<and> \<not> bit (nt_threadTypeId nt) k"
    by (auto simp: bit_simps dest: bit_imp_le_length)
  ultimately show ?case by auto
qed simp

lemma check_notifiers_covers:
  assumes "check_notifiers types nts = Inr ()" "bit types k" "k < 8"
  shows "\<exists>nt \<in> set nts. bit (nt_threadTypeId nt) k"
proof -
  from assms(1) have c: "cover_notifiers nts (ucast types AND 0xff) = Inr 0"
    by (auto simp: check_notifiers_def split: if_splits sum.splits)
  have ff: "(0xff :: u32) = mask 8" by (simp add: mask_eq_exp_minus_1)
  have "bit (ucast types AND 0xff :: u32) k"
    unfolding ff using assms(2,3) bit_imp_le_length[OF assms(2)] by (simp add: bit_simps)
  with cover_notifiers_bits[OF c, of k] show ?thesis by auto
qed

end
