(* ===== verification/Sync2_Mutex.thy ===== *)
theory Sync2_Mutex
  imports Sync2_Base
begin

text \<open>
  \<open>sdk/libsync2/src/mutex.c\<close> and its entry points: a recursive mutex with a waiting queue, handed over by the
  unlocker.  Each loop on the line is given by its passes; the threads that share a mutex are a step
  relation, in which a wake-up of the waiting queue releases one queued thread.
\<close>

section \<open>The line\<close>

record s2_mutex =
  m_owner_type :: u16
  m_count :: u32
  m_owner :: u64
  m_flags :: u8
  m_signalled :: u16
  m_waiters :: u16
  m_recursive :: u32
  m_thread_types :: u16
  m_max_waiters :: u16

abbreviation (input) HELD :: u8 where "HELD \<equiv> 0x80"

definition owned_by :: "s2_mutex \<Rightarrow> s2_caller \<Rightarrow> bool" where
  "owned_by m caller \<longleftrightarrow> m_owner_type m = threadTypeId caller \<and> m_owner m = self_id caller"

section \<open>Lock\<close>

text \<open>How a pass of the loop goes on: out of it with the count to write, to the allocation of a receiver, or queued.\<close>

datatype lock_next = LockTaken u32 | LockReceiver | LockQueued

definition mutex_lock_check :: "s2_caller \<Rightarrow> bool \<Rightarrow> s2_mutex \<Rightarrow> s2_error + unit" where
  "mutex_lock_check caller wait m =
     (if threadTypeId caller = 0 then Inl S2_INVAL
      else if m_thread_types m AND threadTypeId caller = 0 then Inl S2_NOT_SUPPORTED_THREAD
      else if wait \<and> \<not> can_block caller then Inl S2_PERM
      else if wait \<and> m_max_waiters m = 0 then Inl S2_NOMEM
      else Inr ())"

definition mutex_lock_pass ::
    "s2_caller \<Rightarrow> bool \<Rightarrow> u32 \<Rightarrow> bool \<Rightarrow> bool \<Rightarrow> s2_mutex \<Rightarrow> (s2_mutex, s2_error + lock_next) decision" where
  "mutex_lock_pass caller wait count first haveReceiver m =
     (case (if first then mutex_lock_check caller wait m else Inr ()) of
        Inl e \<Rightarrow> Return (Inl e)
      | Inr _ \<Rightarrow>
          if m_flags m AND HELD = 0 then Store (m\<lparr>m_flags := m_flags m OR HELD\<rparr>) (Inr (LockTaken count))
          else if owned_by m caller
          then if m_recursive m AND 1 = 0 then Return (Inl S2_DEADLK)
               else if m_count m = 0xffffffff then Return (Inl S2_AGAIN)
               else Return (Inr (LockTaken (m_count m + 1)))
          else if \<not> wait then Return (Inl S2_BUSY)
          else if m_waiters m = m_max_waiters m then Return (Inl S2_NOMEM)
          else if \<not> haveReceiver then Return (Inr LockReceiver)
          else Store (m\<lparr>m_waiters := m_waiters m + 1\<rparr>) (Inr LockQueued))"

text \<open>
  The loop against its environment: for each pass the line, whether the store succeeds, and whether the
  thread still spins before it allocates a receiver; the allocation returns a result code.
\<close>

datatype lock_outcome = LockSpins | LockFails s2_error | LockAllocFails u32 | LockLeaves lock_next bool | LockNoCaller

fun mutex_lock_loop :: "s2_caller \<Rightarrow> bool \<Rightarrow> u32 \<Rightarrow> u32 \<Rightarrow> bool \<Rightarrow> bool \<Rightarrow> (s2_mutex \<times> bool \<times> bool) list \<Rightarrow> lock_outcome" where
  "mutex_lock_loop caller wait count alloc first haveReceiver [] = LockSpins"
| "mutex_lock_loop caller wait count alloc first haveReceiver ((m, ok, spinning) # answers) =
     (case mutex_lock_pass caller wait count first haveReceiver m of
        Store m' (Inr nx) \<Rightarrow>
          if ok then LockLeaves nx haveReceiver
          else mutex_lock_loop caller wait count alloc False haveReceiver answers
      | Return (Inr LockReceiver) \<Rightarrow>
          if spinning then mutex_lock_loop caller wait count alloc False False answers
          else if alloc \<noteq> 0 then LockAllocFails alloc
          else mutex_lock_loop caller wait count alloc False True answers
      | Return (Inr nx) \<Rightarrow> LockLeaves nx haveReceiver
      | Return (Inl e) \<Rightarrow> LockFails e
      | _ \<Rightarrow> LockSpins)"

text \<open>A woken waiter leaves the queue's counts; whoever took the mutex then writes the owner's 16 bytes.\<close>

definition mutex_leave_decision :: "s2_mutex \<Rightarrow> (s2_mutex, unit) decision" where
  "mutex_leave_decision m = Store (m\<lparr>m_signalled := m_signalled m - 1, m_waiters := m_waiters m - 1\<rparr>) ()"

definition write_owner :: "s2_caller \<Rightarrow> u32 \<Rightarrow> s2_mutex \<Rightarrow> s2_mutex" where
  "write_owner caller count m = m\<lparr>m_owner_type := threadTypeId caller, m_count := count, m_owner := self_id caller\<rparr>"

definition mutex_entry :: "bool \<Rightarrow> u64 \<Rightarrow> s2_config option \<Rightarrow> u32 \<Rightarrow> u32 \<Rightarrow> (s2_mutex \<times> bool \<times> bool) list \<Rightarrow> lock_outcome" where
  "mutex_entry wait ea config dmaTag alloc answers =
     (case s2_check_args ea config dmaTag of
        Inl e \<Rightarrow> LockFails e
      | Inr _ \<Rightarrow>
          (case callerThreadType (the config) of
             None \<Rightarrow> LockNoCaller
           | Some caller \<Rightarrow> mutex_lock_loop caller wait 1 alloc True False answers))"

definition cellSync2MutexLock :: "u64 \<Rightarrow> s2_config option \<Rightarrow> u32 \<Rightarrow> u32 \<Rightarrow> (s2_mutex \<times> bool \<times> bool) list \<Rightarrow> lock_outcome" where
  "cellSync2MutexLock = mutex_entry True"

definition cellSync2MutexTryLock :: "u64 \<Rightarrow> s2_config option \<Rightarrow> u32 \<Rightarrow> u32 \<Rightarrow> (s2_mutex \<times> bool \<times> bool) list \<Rightarrow> lock_outcome" where
  "cellSync2MutexTryLock = mutex_entry False"

section \<open>Unlock\<close>

definition mutex_unlock_check :: "s2_caller option \<Rightarrow> s2_notifier list \<Rightarrow> s2_mutex \<Rightarrow> s2_error + unit" where
  "mutex_unlock_check caller nts m =
     (case caller of
        None \<Rightarrow> Inl S2_NULL_POINTER
      | Some c \<Rightarrow>
          if threadTypeId c = 0 then Inl S2_INVAL
          else if m_thread_types m AND threadTypeId c = 0 then Inl S2_NOT_SUPPORTED_THREAD
          else check_notifiers (m_thread_types m) nts)"

text \<open>The result of a pass: whether to wake a waiter, and the count that was dropped.\<close>

definition mutex_unlock_pass ::
    "s2_caller option \<Rightarrow> s2_notifier list \<Rightarrow> bool \<Rightarrow> bool \<Rightarrow> s2_mutex \<Rightarrow> (s2_mutex, s2_error + bool \<times> u32) decision" where
  "mutex_unlock_pass caller nts countOut checked m =
     (case (if checked then Inr () else mutex_unlock_check caller nts m) of
        Inl e \<Rightarrow> Return (Inl e)
      | Inr _ \<Rightarrow>
          if m_flags m AND HELD = 0 then Return (Inl S2_STAT)
          else if \<not> owned_by m (the caller) then Return (Inl S2_PERM)
          else let dropped = m_count m;
                   m = m\<lparr>m_count := (if countOut then 0 else m_count m - 1)\<rparr>;
                   handOver = (m_count m = 0 \<and> int (unat (m_waiters m)) - int (unat (m_signalled m)) > 0);
                   m = (if m_count m \<noteq> 0 then m
                        else (if handOver then m\<lparr>m_signalled := m_signalled m + 1\<rparr>
                              else m\<lparr>m_flags := m_flags m AND NOT HELD\<rparr>)\<lparr>m_owner_type := 0, m_owner := 0\<rparr>)
               in Store m (Inr (handOver, dropped)))"

fun mutex_unlock_loop :: "s2_caller option \<Rightarrow> s2_notifier list \<Rightarrow> bool \<Rightarrow> bool \<Rightarrow> (s2_mutex \<times> bool) list \<Rightarrow>
    (s2_mutex, s2_error + bool \<times> u32) outcome" where
  "mutex_unlock_loop caller nts countOut checked [] = Spinning"
| "mutex_unlock_loop caller nts countOut checked ((m, ok) # answers) =
     (case mutex_unlock_pass caller nts countOut checked m of
        Store m' r \<Rightarrow> if ok then Stored m m' r else mutex_unlock_loop caller nts countOut True answers
      | Return r \<Rightarrow> Returned r
      | Again \<Rightarrow> Spinning)"

definition cellSync2MutexUnlock :: "u64 \<Rightarrow> s2_config option \<Rightarrow> u32 \<Rightarrow> (s2_mutex \<times> bool) list \<Rightarrow>
    (s2_mutex, s2_error + bool \<times> u32) outcome" where
  "cellSync2MutexUnlock ea config dmaTag answers =
     (case s2_check_args ea config dmaTag of
        Inl e \<Rightarrow> Returned (Inl e)
      | Inr _ \<Rightarrow>
          let c = the config; nts = (case notifierTable c of None \<Rightarrow> [] | Some nts \<Rightarrow> nts)
          in mutex_unlock_loop (callerThreadType c) nts False False answers)"

section \<open>Threads sharing a mutex\<close>

text \<open>
  What a thread is doing: nothing with the mutex, about to write the owner's bytes, owning it with a
  depth, about to wake the thread it hands the mutex to, waiting, or woken.
\<close>

datatype s2_thread = MIdle | MTaking u32 | MOwner u32 | MWaking | MQueued u32 | MGranted u32

type_synonym mutex_sys = "s2_mutex \<times> (nat \<Rightarrow> s2_thread)"

inductive s2_mutex_step :: "nat \<Rightarrow> (nat \<Rightarrow> s2_caller) \<Rightarrow> mutex_sys \<Rightarrow> mutex_sys \<Rightarrow> bool" for N caller where
  lock: "t < N \<Longrightarrow> thr t = MIdle \<or> thr t = MOwner d \<Longrightarrow> count \<noteq> 0 \<Longrightarrow>
    mutex_lock_pass (caller t) wait count first rcv m = Store m' (Inr (LockTaken n)) \<Longrightarrow>
    s2_mutex_step N caller (m, thr) (m', thr(t := MTaking n))"
| relock: "t < N \<Longrightarrow> thr t = MIdle \<or> thr t = MOwner d \<Longrightarrow>
    mutex_lock_pass (caller t) wait count first rcv m = Return (Inr (LockTaken n)) \<Longrightarrow>
    s2_mutex_step N caller (m, thr) (m, thr(t := MTaking n))"
| enqueue: "t < N \<Longrightarrow> thr t = MIdle \<or> thr t = MOwner d \<Longrightarrow> count \<noteq> 0 \<Longrightarrow>
    mutex_lock_pass (caller t) wait count first rcv m = Store m' (Inr LockQueued) \<Longrightarrow>
    s2_mutex_step N caller (m, thr) (m', thr(t := MQueued count))"
| owner: "t < N \<Longrightarrow> thr t = MTaking n \<Longrightarrow>
    s2_mutex_step N caller (m, thr) (write_owner (caller t) n m, thr(t := MOwner n))"
| unlock: "t < N \<Longrightarrow> thr t = MIdle \<or> thr t = MOwner d \<Longrightarrow>
    mutex_unlock_pass (Some (caller t)) nts countOut checked m = Store m' (Inr (handOver, dropped)) \<Longrightarrow>
    s2_mutex_step N caller (m, thr)
      (m', thr(t := if handOver then MWaking else if m_count m' = 0 then MIdle else MOwner (m_count m')))"
| wake: "t < N \<Longrightarrow> u < N \<Longrightarrow> thr t = MWaking \<Longrightarrow> thr u = MQueued n \<Longrightarrow>
    s2_mutex_step N caller (m, thr) (m, thr(t := MIdle, u := MGranted n))"
| leave: "t < N \<Longrightarrow> thr t = MGranted n \<Longrightarrow> mutex_leave_decision m = Store m' () \<Longrightarrow>
    s2_mutex_step N caller (m, thr) (m', thr(t := MTaking n))"

section \<open>The invariant\<close>

fun holding :: "s2_thread \<Rightarrow> bool" where
  "holding MIdle = False" | "holding (MQueued n) = False" | "holding s = True"

fun queued :: "s2_thread \<Rightarrow> bool" where "queued (MQueued n) = True" | "queued s = False"

fun granted :: "s2_thread \<Rightarrow> bool" where "granted (MGranted n) = True" | "granted s = False"

fun waking :: "s2_thread \<Rightarrow> bool" where "waking MWaking = True" | "waking s = False"

text \<open>What the owner's bytes say while a thread holds the mutex in each of its ways.\<close>

fun owner_view :: "s2_caller \<Rightarrow> s2_mutex \<Rightarrow> s2_thread \<Rightarrow> bool" where
  "owner_view caller m (MOwner n) \<longleftrightarrow> owned_by m caller \<and> m_count m = n \<and> n \<noteq> 0"
| "owner_view caller m (MTaking n) \<longleftrightarrow> n \<noteq> 0 \<and> (m_owner_type m = 0 \<or> owned_by m caller)"
| "owner_view caller m MWaking \<longleftrightarrow> m_owner_type m = 0"
| "owner_view caller m (MGranted n) \<longleftrightarrow> n \<noteq> 0 \<and> m_owner_type m = 0"
| "owner_view caller m (MQueued n) \<longleftrightarrow> n \<noteq> 0"
| "owner_view caller m MIdle \<longleftrightarrow> True"

definition s2_mutex_inv :: "nat \<Rightarrow> (nat \<Rightarrow> s2_caller) \<Rightarrow> mutex_sys \<Rightarrow> bool" where
  "s2_mutex_inv N caller = (\<lambda>(m, thr).
     number N holding thr = (if m_flags m AND HELD = 0 then 0 else 1) \<and>
     unat (m_waiters m) = number N queued thr + number N granted thr \<and>
     unat (m_signalled m) = number N waking thr + number N granted thr \<and>
     number N waking thr \<le> number N queued thr \<and>
     unat (m_waiters m) \<le> unat (m_max_waiters m) \<and>
     (m_flags m AND HELD = 0 \<longrightarrow> m_owner_type m = 0 \<and> number N queued thr = 0) \<and>
     (\<forall>t < N. owner_view (caller t) m (thr t)))"

definition distinct_callers :: "nat \<Rightarrow> (nat \<Rightarrow> s2_caller) \<Rightarrow> bool" where
  "distinct_callers N caller \<longleftrightarrow> (\<forall>t < N. threadTypeId (caller t) \<noteq> 0) \<and>
     (\<forall>t < N. \<forall>u < N. t \<noteq> u \<longrightarrow> (threadTypeId (caller t), self_id (caller t)) \<noteq> (threadTypeId (caller u), self_id (caller u)))"


lemma s2_mutex_invD:
  assumes "s2_mutex_inv N caller (m, thr)"
  shows "number N holding thr = (if m_flags m AND HELD = 0 then 0 else 1)"
    "unat (m_waiters m) = number N queued thr + number N granted thr"
    "unat (m_signalled m) = number N waking thr + number N granted thr"
    "number N waking thr \<le> number N queued thr" "unat (m_waiters m) \<le> unat (m_max_waiters m)"
    "m_flags m AND HELD = 0 \<Longrightarrow> m_owner_type m = 0 \<and> number N queued thr = 0" "t < N \<Longrightarrow> owner_view (caller t) m (thr t)"
  using assms by (simp_all add: s2_mutex_inv_def)

text \<open>Only the owner matches the owner's bytes.\<close>

lemma owned_by_owner:
  assumes "s2_mutex_inv N caller (m, thr)" "distinct_callers N caller" "t < N" "owned_by m (caller t)" "thr t = MIdle \<or> thr t = MOwner d"
    "m_flags m AND HELD \<noteq> 0"
  shows "thr t = MOwner (m_count m) \<and> m_count m \<noteq> 0"
proof -
  note I = s2_mutex_invD[OF assms(1)]
  have nz: "m_owner_type m \<noteq> 0" using assms(2-4) by (auto simp: distinct_callers_def owned_by_def)
  obtain h where h: "h < N" "holding (thr h)" using I(1) assms(6) number_ex[of N holding thr] by auto
  have "owner_view (caller h) m (thr h)" by (rule I(7)[OF h(1)])
  then have "owned_by m (caller h)" using h(2) nz by (cases "thr h") auto
  then have "threadTypeId (caller h) = threadTypeId (caller t) \<and> self_id (caller h) = self_id (caller t)"
    using assms(4) by (simp add: owned_by_def)
  then have "h = t" using assms(2,3) h(1) by (auto simp: distinct_callers_def)
  then show ?thesis using h(2) assms(5) I(7)[OF assms(3)] by auto
qed

lemma held_after_take: "(f OR HELD) AND HELD \<noteq> 0" and free_after_release: "(f AND NOT HELD) AND HELD = 0" for f :: u8
proof -
  have h: "(HELD :: u8) = push_bit 7 1" by simp
  have "bit ((f OR HELD) AND HELD) 7" unfolding h by (simp add: bit_simps)
  then show "(f OR HELD) AND HELD \<noteq> 0" by (metis bit_0_eq bot_apply bot_bool_def)
  show "(f AND NOT HELD) AND HELD = 0" by (rule bit_word_eqI) (simp add: bit_simps)
qed

text \<open>The other threads, when one takes over what another let go.\<close>

lemma owner_views_update:
  assumes "\<forall>u < N. u \<noteq> t \<longrightarrow> owner_view (caller u) m' (thr u)" "owner_view (caller t) m' s"
  shows "\<forall>u < N. owner_view (caller u) m' ((thr(t := s)) u)"
  using assms by simp

lemma not_holding_view: "\<not> holding s \<Longrightarrow> owner_view c m s \<Longrightarrow> owner_view c m' s"
  by (cases s) auto

lemma others_not_holding:
  assumes "s2_mutex_inv N caller (m, thr)" "t < N" "holding (thr t) \<or> m_flags m AND HELD = 0" "u < N" "u \<noteq> t"
  shows "\<not> holding (thr u)"
proof
  assume u: "holding (thr u)"
  note I = s2_mutex_invD[OF assms(1)]
  have "0 < number N holding thr" by (rule number_pos[of u N holding thr, OF assms(4) u])
  then have "holding (thr t)" "number N holding thr \<le> 1" using I(1) assms(3) by (auto split: if_splits)
  then show False using number_one_unique[of N holding thr t u] assms(2,4,5) u by auto
qed

lemma other_views:
  assumes "s2_mutex_inv N caller (m, thr)" "t < N" "holding (thr t) \<or> m_flags m AND HELD = 0"
  shows "\<forall>u < N. u \<noteq> t \<longrightarrow> owner_view (caller u) m' (thr u)"
  using others_not_holding[OF assms] s2_mutex_invD(7)[OF assms(1)] not_holding_view by blast

lemma same_views:
  assumes "s2_mutex_inv N caller (m, thr)" "m_owner_type m' = m_owner_type m" "m_owner m' = m_owner m" "m_count m' = m_count m"
  shows "\<forall>u < N. u \<noteq> t \<longrightarrow> owner_view (caller u) m' (thr u)"
proof (intro allI impI)
  fix u assume "u < N" "u \<noteq> t"
  then have "owner_view (caller u) m (thr u)" using s2_mutex_invD(7)[OF assms(1)] by blast
  then show "owner_view (caller u) m' (thr u)" using assms(2-4) by (cases "thr u") (auto simp: owned_by_def)
qed

text \<open>How the four counts change when one thread changes its state.\<close>

lemmas thread_counts = number_update[where P = holding] number_update[where P = queued]
  number_update[where P = granted] number_update[where P = waking]

lemma inv_lock:
  assumes "s2_mutex_inv N caller (m, thr)" "distinct_callers N caller" "t < N" "thr t = MIdle \<or> thr t = MOwner d" "count \<noteq> 0"
    "mutex_lock_pass (caller t) wait count first rcv m = Store m' (Inr (LockTaken n))"
  shows "s2_mutex_inv N caller (m', thr(t := MTaking n))"
proof -
  note I = s2_mutex_invD[OF assms(1)]
  have f: "m_flags m AND HELD = 0" "m' = m\<lparr>m_flags := m_flags m OR HELD\<rparr>" "n = count"
    using assms(6) by (auto simp: mutex_lock_pass_def split: sum.splits if_splits)
  have no: "number N holding thr = 0" using I(1) f(1) by simp
  then have idle: "thr t = MIdle" using assms(3,4) number_pos[of t N holding thr] by auto
  have "\<forall>u < N. owner_view (caller u) m' ((thr(t := MTaking n)) u)"
    by (rule owner_views_update[OF other_views[OF assms(1,3)]]) (use f I(6) assms(5) in auto)
  then show ?thesis
    using I(1-6) f held_after_take[of "m_flags m"] idle no thread_counts[OF assms(3), of thr "MTaking n"]
    by (simp add: s2_mutex_inv_def)
qed

lemma inv_relock:
  assumes "s2_mutex_inv N caller (m, thr)" "distinct_callers N caller" "t < N" "thr t = MIdle \<or> thr t = MOwner d"
    "mutex_lock_pass (caller t) wait count first rcv m = Return (Inr (LockTaken n))"
  shows "s2_mutex_inv N caller (m, thr(t := MTaking n)) \<and> thr t = MOwner (n - 1) \<and> n - 1 \<noteq> 0"
proof -
  note I = s2_mutex_invD[OF assms(1)]
  have f: "m_flags m AND HELD \<noteq> 0" "owned_by m (caller t)" "m_count m \<noteq> 0xffffffff" "n = m_count m + 1"
    using assms(5) by (auto simp: mutex_lock_pass_def split: sum.splits if_splits)
  have o: "thr t = MOwner (m_count m)" "m_count m \<noteq> 0" using owned_by_owner[OF assms(1-3) f(2) assms(4) f(1)] by auto
  have nz: "n \<noteq> 0"
  proof
    assume "n = 0"
    then have "m_count m = - 1" using f(4) by (simp add: eq_neg_iff_add_eq_0)
    then show False using f(3) by simp
  qed
  have "\<forall>u < N. owner_view (caller u) m ((thr(t := MTaking n)) u)"
    by (rule owner_views_update[OF same_views[OF assms(1)]]) (use f nz in auto)
  then have "s2_mutex_inv N caller (m, thr(t := MTaking n))"
    using I(1-6) f(1) o thread_counts[OF assms(3), of thr "MTaking n"] by (simp add: s2_mutex_inv_def)
  then show ?thesis using o f(4) by simp
qed

lemma inv_enqueue:
  assumes "s2_mutex_inv N caller (m, thr)" "distinct_callers N caller" "t < N" "thr t = MIdle \<or> thr t = MOwner d" "count \<noteq> 0"
    "mutex_lock_pass (caller t) wait count first rcv m = Store m' (Inr LockQueued)"
  shows "s2_mutex_inv N caller (m', thr(t := MQueued count))"
proof -
  note I = s2_mutex_invD[OF assms(1)]
  have f: "m_flags m AND HELD \<noteq> 0" "\<not> owned_by m (caller t)" "m_waiters m \<noteq> m_max_waiters m"
    "m' = m\<lparr>m_waiters := m_waiters m + 1\<rparr>"
    using assms(6) by (auto simp: mutex_lock_pass_def split: sum.splits if_splits)
  have idle: "thr t = MIdle" using assms(4) I(7)[OF assms(3)] f(2) by auto
  have lt: "unat (m_waiters m) < unat (m_max_waiters m)" using f(3) I(5) by (metis nat_less_le word_unat_eq_iff)
  have "unat (m_max_waiters m) < 2 ^ 16" using unsigned_less[of "m_max_waiters m"] by simp
  then have w: "unat (m_waiters m + 1) = unat (m_waiters m) + 1" using lt by (subst unat_plus_small) simp_all
  have "\<forall>u < N. owner_view (caller u) m' ((thr(t := MQueued count)) u)"
    by (rule owner_views_update[OF same_views[OF assms(1)]]) (use f assms(5) in auto)
  then show ?thesis
    using I(1-6) f(1,4) idle w lt thread_counts[OF assms(3), of thr "MQueued count"] by (simp add: s2_mutex_inv_def)
qed

lemma inv_owner:
  assumes "s2_mutex_inv N caller (m, thr)" "t < N" "thr t = MTaking n"
  shows "s2_mutex_inv N caller (write_owner (caller t) n m, thr(t := MOwner n))"
proof -
  note I = s2_mutex_invD[OF assms(1)]
  have h: "holding (thr t)" using assms(3) by simp
  have n0: "n \<noteq> 0" using I(7)[OF assms(2)] assms(3) by simp
  have "0 < number N holding thr" by (rule number_pos[of t N holding thr, OF assms(2) h])
  then have f: "m_flags m AND HELD \<noteq> 0" using I(1) by (auto split: if_splits)
  have "\<forall>u < N. owner_view (caller u) (write_owner (caller t) n m) ((thr(t := MOwner n)) u)"
    by (rule owner_views_update[OF other_views[OF assms(1,2)]]) (use h n0 in \<open>auto simp: write_owner_def owned_by_def\<close>)
  then show ?thesis
    using I(1-6) f thread_counts[OF assms(2), of thr "MOwner n"] assms(3) by (simp add: s2_mutex_inv_def write_owner_def)
qed

lemma inv_unlock:
  assumes "s2_mutex_inv N caller (m, thr)" "distinct_callers N caller" "t < N" "thr t = MIdle \<or> thr t = MOwner d"
    "mutex_unlock_pass (Some (caller t)) nts countOut checked m = Store m' (Inr (handOver, dropped))"
  shows "s2_mutex_inv N caller (m', thr(t := if handOver then MWaking else if m_count m' = 0 then MIdle else MOwner (m_count m')))
    \<and> thr t = MOwner dropped"
proof -
  note I = s2_mutex_invD[OF assms(1)]
  have f: "m_flags m AND HELD \<noteq> 0" "owned_by m (caller t)"
    using assms(5) by (auto simp: mutex_unlock_pass_def split: sum.splits if_splits)
  note o = owned_by_owner[OF assms(1-3) f(2) assms(4) f(1)]
  have h: "holding (thr t)" using o by simp
  let ?c = "if countOut then 0 else m_count m - 1"
  let ?hand = "?c = 0 \<and> int (unat (m_waiters m)) - int (unat (m_signalled m)) > 0"
  have res: "handOver = ?hand" "dropped = m_count m"
    "m' = (if ?c \<noteq> 0 then m\<lparr>m_count := ?c\<rparr>
       else (if ?hand then m\<lparr>m_count := ?c, m_signalled := m_signalled m + 1\<rparr>
             else m\<lparr>m_count := ?c, m_flags := m_flags m AND NOT HELD\<rparr>)\<lparr>m_owner_type := 0, m_owner := 0\<rparr>)"
    using assms(5) f by (auto simp: mutex_unlock_pass_def Let_def split: sum.splits if_splits)
  have cnt: "m_count m' = ?c" using res(3) by (auto split: if_splits)
  have d: "thr t = MOwner dropped" using o res(2) by simp
  let ?s = "if handOver then MWaking else if m_count m' = 0 then MIdle else MOwner (m_count m')"
  have views: "\<forall>u < N. owner_view (caller u) m' ((thr(t := ?s)) u)"
    by (rule owner_views_update[OF other_views[OF assms(1,3)]]) (use h f(2) cnt res in \<open>auto simp: owned_by_def\<close>)
  consider (deep) "?c \<noteq> 0" | (hand) "?hand" | (free) "?c = 0" "\<not> ?hand" by blast
  then have "s2_mutex_inv N caller (m', thr(t := ?s))"
  proof cases
    case deep
    then have m': "m' = m\<lparr>m_count := ?c\<rparr>" "?s = MOwner ?c" using res(1,3) cnt by auto
    show ?thesis
      using views I(1-6) f(1) d thread_counts[OF assms(3), of thr "MOwner ?c"] unfolding m'(2)
      by (simp add: s2_mutex_inv_def m'(1))
  next
    case hand
    then have m': "m' = m\<lparr>m_count := ?c, m_signalled := m_signalled m + 1, m_owner_type := 0, m_owner := 0\<rparr>" "?s = MWaking"
      using res(1,3) by auto
    have lt: "unat (m_signalled m) < unat (m_waiters m)" using hand by linarith
    have "unat (m_waiters m) < 2 ^ 16" using unsigned_less[of "m_waiters m"] by simp
    then have w: "unat (m_signalled m + 1) = unat (m_signalled m) + 1" using lt by (subst unat_plus_small) simp_all
    show ?thesis
      using views I(1-6) f(1) d w lt thread_counts[OF assms(3), of thr MWaking] unfolding m'(2)
      by (simp add: s2_mutex_inv_def m'(1))
  next
    case free
    then have m': "m' = m\<lparr>m_count := ?c, m_flags := m_flags m AND NOT HELD, m_owner_type := 0, m_owner := 0\<rparr>" "?s = MIdle"
      using res(1,3) cnt by auto
    have "number N waking thr = 0"
    proof (rule number_none)
      fix u assume "u < N"
      then show "\<not> waking (thr u)" using others_not_holding[OF assms(1,3), of u] h d by (cases "u = t"; cases "thr u") auto
    qed
    then have "number N queued thr = 0" using free I(2,3) by simp
    then show ?thesis
      using views I(1-6) f(1) d free_after_release[of "m_flags m"] thread_counts[OF assms(3), of thr MIdle] unfolding m'(2)
      by (simp add: s2_mutex_inv_def m'(1))
  qed
  then show ?thesis using d by simp
qed

lemma inv_wake:
  assumes "s2_mutex_inv N caller (m, thr)" "t < N" "u < N" "thr t = MWaking" "thr u = MQueued n"
  shows "s2_mutex_inv N caller (m, thr(t := MIdle, u := MGranted n))"
proof -
  note I = s2_mutex_invD[OF assms(1)]
  have tu: "t \<noteq> u" using assms(4,5) by auto
  have o: "m_owner_type m = 0" "n \<noteq> 0" using I(7)[OF assms(2)] I(7)[OF assms(3)] assms(4,5) by simp_all
  have "0 < number N holding thr" by (rule number_pos[of t N holding thr, OF assms(2)]) (simp add: assms(4))
  then have f: "m_flags m AND HELD \<noteq> 0" using I(1) by (auto split: if_splits)
  have "\<forall>v < N. owner_view (caller v) m ((thr(t := MIdle, u := MGranted n)) v)" using I(7) o by simp
  then show ?thesis
    using I(1-6) f tu assms(4,5) thread_counts[OF assms(2), of thr MIdle] thread_counts[OF assms(3), of "thr(t := MIdle)" "MGranted n"]
    by (simp add: s2_mutex_inv_def)
qed

lemma inv_leave:
  assumes "s2_mutex_inv N caller (m, thr)" "t < N" "thr t = MGranted n" "mutex_leave_decision m = Store m' ()"
  shows "s2_mutex_inv N caller (m', thr(t := MTaking n))"
proof -
  note I = s2_mutex_invD[OF assms(1)]
  have m': "m' = m\<lparr>m_signalled := m_signalled m - 1, m_waiters := m_waiters m - 1\<rparr>"
    using assms(4) by (simp add: mutex_leave_decision_def)
  have h: "holding (thr t)" "granted (thr t)" using assms(3) by simp_all
  have v: "n \<noteq> 0" "m_owner_type m = 0" using I(7)[OF assms(2)] assms(3) by simp_all
  have "0 < number N holding thr" by (rule number_pos[of t N holding thr, OF assms(2) h(1)])
  then have f: "m_flags m AND HELD \<noteq> 0" using I(1) by (auto split: if_splits)
  have g: "0 < number N granted thr" by (rule number_pos[of t N granted thr, OF assms(2) h(2)])
  have w: "unat (m_waiters m - 1) = unat (m_waiters m) - 1" "unat (m_signalled m - 1) = unat (m_signalled m) - 1"
  proof -
    have "0 < unat (m_waiters m)" "0 < unat (m_signalled m)" using I(2,3) g by simp_all
    then have "m_waiters m \<noteq> 0" "m_signalled m \<noteq> 0" by auto
    then show "unat (m_waiters m - 1) = unat (m_waiters m) - 1" "unat (m_signalled m - 1) = unat (m_signalled m) - 1"
      by (simp_all add: unat_minus_one)
  qed
  have "\<forall>u < N. owner_view (caller u) m' ((thr(t := MTaking n)) u)"
    by (rule owner_views_update[OF same_views[OF assms(1)]]) (use m' v in auto)
  then show ?thesis
    using I(1-6) f g w thread_counts[OF assms(2), of thr "MTaking n"] assms(3)
    by (simp add: s2_mutex_inv_def m', intro conjI; linarith)
qed

theorem s2_mutex_inv_step:
  assumes "s2_mutex_step N caller s s'" "distinct_callers N caller" "s2_mutex_inv N caller s"
  shows "s2_mutex_inv N caller s'"
  using assms(1)
proof cases
  case lock
  then show ?thesis using inv_lock[OF _ assms(2)] assms(3) by blast
next
  case relock
  then show ?thesis using inv_relock[OF _ assms(2)] assms(3) by blast
next
  case enqueue
  then show ?thesis using inv_enqueue[OF _ assms(2)] assms(3) by blast
next
  case owner
  then show ?thesis using inv_owner assms(3) by blast
next
  case (unlock t thr d m nts countOut checked m' handOver dropped)
  show ?thesis unfolding unlock(2)
    by (rule conjunct1[OF inv_unlock[OF assms(3)[unfolded unlock(1)] assms(2) unlock(3-5)]])
next
  case wake
  then show ?thesis using inv_wake assms(3) by blast
next
  case leave
  then show ?thesis using inv_leave assms(3) by blast
qed

text \<open>A fresh mutex with idle threads.\<close>

definition mutex_fresh :: "s2_mutex \<Rightarrow> bool" where
  "mutex_fresh m \<longleftrightarrow> m_flags m AND HELD = 0 \<and> m_owner_type m = 0 \<and> m_waiters m = 0 \<and> m_signalled m = 0"

lemma s2_mutex_inv_start: "mutex_fresh m \<Longrightarrow> s2_mutex_inv N caller (m, \<lambda>_. MIdle)"
  by (simp add: mutex_fresh_def s2_mutex_inv_def number_none)

lemma s2_mutex_reachable_inv:
  assumes "(s2_mutex_step N caller)\<^sup>*\<^sup>* (m, \<lambda>_. MIdle) s" "distinct_callers N caller" "mutex_fresh m"
  shows "s2_mutex_inv N caller s"
  using assms(1)
proof (induction rule: rtranclp_induct)
  case base
  then show ?case by (rule s2_mutex_inv_start[OF assms(3)])
next
  case (step s t)
  then show ?case using s2_mutex_inv_step assms(2) by blast
qed

end
