(* ===== verification/Sync2_Semaphore.thy ===== *)
theory Sync2_Semaphore
  imports Sync2_Base Sync_Base
begin

text \<open>
  \<open>sdk/libsync2/src/semaphore.c\<close> and its entry points: a counting semaphore.  One word of the line is used in two
  ways: as two counts of waiters, or, when only one waiter is admitted, as what that waiter still lacks.
  The loops are given by their passes; threads sharing a semaphore are a step relation that also counts
  the units acquired and released.
\<close>

section \<open>The line\<close>

text \<open>\<open>s_word\<close> is the union at +0x14.  The count is stored in 32 bits and read with its sign.\<close>

record s2_semaphore =
  s_count :: u32
  s_word :: u32
  s_thread_types :: u16
  s_max_waiters :: u16

abbreviation (input) SINGLE_SIGNALLED :: u32 where "SINGLE_SIGNALLED \<equiv> 0x80000000"
abbreviation (input) SINGLE_WAITING :: u32 where "SINGLE_WAITING \<equiv> 0x40000000"
abbreviation (input) SINGLE_LACKING :: u32 where "SINGLE_LACKING \<equiv> 0x3fffffff"
abbreviation (input) COUNT_MAX :: nat where "COUNT_MAX \<equiv> 0x7fffff"

definition s_signalled :: "s2_semaphore \<Rightarrow> u16" where
  "s_signalled s = hi16 (s_word s)"

definition s_waiters :: "s2_semaphore \<Rightarrow> u16" where
  "s_waiters s = lo16 (s_word s)"

section \<open>Acquire\<close>

datatype acquire_next = SemTaken | SemReceiver | SemQueued

text \<open>The checks before the loop; \<open>Inr False\<close> is the early success for a count of 0.\<close>

definition sem_acquire_check :: "s2_caller option \<Rightarrow> bool \<Rightarrow> u32 \<Rightarrow> s2_semaphore \<Rightarrow> s2_error + bool" where
  "sem_acquire_check caller wait n s =
     (case caller of
        None \<Rightarrow> Inl S2_NULL_POINTER
      | Some c \<Rightarrow>
          if threadTypeId c = 0 then Inl S2_INVAL
          else if s_thread_types s AND threadTypeId c = 0 then Inl S2_NOT_SUPPORTED_THREAD
          else if wait \<and> \<not> can_block c then Inl S2_PERM
          else if wait \<and> unat n > 1 \<and> s_max_waiters s \<noteq> 1 then Inl S2_INVAL
          else if unat n > COUNT_MAX then Inl S2_INVAL
          else Inr (n \<noteq> 0))"

definition sem_acquire_pass :: "bool \<Rightarrow> u32 \<Rightarrow> bool \<Rightarrow> s2_semaphore \<Rightarrow> (s2_semaphore, s2_error + acquire_next) decision" where
  "sem_acquire_pass wait n haveReceiver s =
     (if sint n \<le> sint (s_count s) then Store (s\<lparr>s_count := s_count s - n\<rparr>) (Inr SemTaken)
      else if \<not> wait then Return (Inl S2_AGAIN)
      else if \<not> haveReceiver then Return (Inr SemReceiver)
      else if s_max_waiters s = 1
      then if s_word s AND SINGLE_WAITING \<noteq> 0 then Return (Inl S2_BUSY)
           else Store (s\<lparr>s_word := (s_word s AND SINGLE_SIGNALLED) OR SINGLE_WAITING OR ((n - s_count s) AND SINGLE_LACKING),
                         s_count := 0\<rparr>) (Inr SemQueued)
      else if s_waiters s = s_max_waiters s then Return (Inl S2_NOMEM)
      else Store (s\<lparr>s_word := pack16 (s_signalled s) (s_waiters s + 1)\<rparr>) (Inr SemQueued))"

text \<open>A woken waiter leaves the queue's counts.\<close>

definition sem_leave_decision :: "s2_semaphore \<Rightarrow> (s2_semaphore, unit) decision" where
  "sem_leave_decision s =
     (if s_max_waiters s = 1
      then Store (s\<lparr>s_word := s_word s AND NOT (SINGLE_SIGNALLED OR SINGLE_WAITING)\<rparr>) ()
      else Store (s\<lparr>s_word := pack16 (s_signalled s - 1) (s_waiters s - 1)\<rparr>) ())"

datatype acquire_outcome = AcquireSpins | AcquireFails s2_error | AcquireAllocFails u32 | AcquireNothing | AcquireLeaves acquire_next bool

fun sem_acquire_loop :: "bool \<Rightarrow> u32 \<Rightarrow> u32 \<Rightarrow> bool \<Rightarrow> (s2_semaphore \<times> bool) list \<Rightarrow> acquire_outcome" where
  "sem_acquire_loop wait n alloc haveReceiver [] = AcquireSpins"
| "sem_acquire_loop wait n alloc haveReceiver ((s, ok) # answers) =
     (case sem_acquire_pass wait n haveReceiver s of
        Store s' (Inr nx) \<Rightarrow>
          if ok then AcquireLeaves nx haveReceiver else sem_acquire_loop wait n alloc haveReceiver answers
      | Return (Inr nx) \<Rightarrow>
          if alloc \<noteq> 0 then AcquireAllocFails alloc else sem_acquire_loop wait n alloc True answers
      | Return (Inl e) \<Rightarrow> AcquireFails e
      | _ \<Rightarrow> AcquireSpins)"

text \<open>The line the checks read first, then the loop.\<close>

definition sync2_semaphore_acquire ::
    "bool \<Rightarrow> u32 \<Rightarrow> s2_caller option \<Rightarrow> u32 \<Rightarrow> s2_semaphore \<Rightarrow> (s2_semaphore \<times> bool) list \<Rightarrow> acquire_outcome" where
  "sync2_semaphore_acquire wait n caller alloc s0 answers =
     (case sem_acquire_check caller wait n s0 of
        Inl e \<Rightarrow> AcquireFails e
      | Inr go \<Rightarrow> if go then sem_acquire_loop wait n alloc False answers else AcquireNothing)"

definition sem_acquire_entry ::
    "bool \<Rightarrow> u64 \<Rightarrow> u32 \<Rightarrow> s2_config option \<Rightarrow> u32 \<Rightarrow> u32 \<Rightarrow> s2_semaphore \<Rightarrow> (s2_semaphore \<times> bool) list \<Rightarrow> acquire_outcome" where
  "sem_acquire_entry wait ea n config dmaTag alloc s0 answers =
     (case s2_check_args ea config dmaTag of
        Inl e \<Rightarrow> AcquireFails e
      | Inr _ \<Rightarrow> sync2_semaphore_acquire wait n (callerThreadType (the config)) alloc s0 answers)"

definition cellSync2SemaphoreAcquire ::
    "u64 \<Rightarrow> u32 \<Rightarrow> s2_config option \<Rightarrow> u32 \<Rightarrow> u32 \<Rightarrow> s2_semaphore \<Rightarrow> (s2_semaphore \<times> bool) list \<Rightarrow> acquire_outcome" where
  "cellSync2SemaphoreAcquire = sem_acquire_entry True"

definition cellSync2SemaphoreTryAcquire ::
    "u64 \<Rightarrow> u32 \<Rightarrow> s2_config option \<Rightarrow> u32 \<Rightarrow> u32 \<Rightarrow> s2_semaphore \<Rightarrow> (s2_semaphore \<times> bool) list \<Rightarrow> acquire_outcome" where
  "cellSync2SemaphoreTryAcquire = sem_acquire_entry False"

definition cellSync2SemaphoreGetCount :: "u64 \<Rightarrow> bool \<Rightarrow> s2_semaphore \<Rightarrow> s2_error + int" where
  "cellSync2SemaphoreGetCount ea pCount s =
     (if ea = 0 \<or> \<not> pCount then Inl S2_NULL_POINTER else if ea AND 0x7f \<noteq> 0 then Inl S2_ALIGN else Inr (sint (s_count s)))"

section \<open>Release\<close>

definition sem_release_check :: "s2_caller option \<Rightarrow> s2_notifier list option \<Rightarrow> u32 \<Rightarrow> s2_semaphore \<Rightarrow> s2_error + bool" where
  "sem_release_check caller notifiers n s =
     (case check_caller (s_thread_types s) caller notifiers False of
        Inl e \<Rightarrow> Inl e
      | Inr _ \<Rightarrow> if unat n > COUNT_MAX then Inl S2_INVAL else Inr (n \<noteq> 0))"

text \<open>The result of a pass: how many waiters to wake, or a halt of the processor.\<close>

datatype release_next = SemHalt | SemWake nat

definition sem_release_pass :: "u32 \<Rightarrow> s2_semaphore \<Rightarrow> (s2_semaphore, s2_error + release_next) decision" where
  "sem_release_pass n s =
     (let count = s_count s + n in
      if sint count > int COUNT_MAX then Return (Inl S2_STAT)
      else let s = s\<lparr>s_count := count\<rparr> in
      if sint count > 0
      then if s_max_waiters s = 1
           then if s_word s AND (SINGLE_SIGNALLED OR SINGLE_WAITING) = SINGLE_WAITING
                then let lacking = s_word s AND SINGLE_LACKING in
                  if lacking = 0 then Return (Inr SemHalt)
                  else if sint lacking > sint count
                  then Store (s\<lparr>s_word := (s_word s AND NOT SINGLE_LACKING) OR (lacking - count), s_count := 0\<rparr>) (Inr (SemWake 0))
                  else Store (s\<lparr>s_count := count - lacking,
                                s_word := (s_word s AND NOT SINGLE_LACKING) OR SINGLE_SIGNALLED\<rparr>) (Inr (SemWake 1))
                else Store s (Inr (SemWake 0))
           else let pending = int (unat (s_waiters s)) - int (unat (s_signalled s)) in
             if pending > 0
             then let wake = (if sint count > pending then pending else sint count) in
               if sint count - wake < 0 then Return (Inr SemHalt)
               else Store (s\<lparr>s_word := pack16 (s_signalled s + of_int wake) (s_waiters s), s_count := count - of_int wake\<rparr>)
                      (Inr (SemWake (nat wake)))
             else Store s (Inr (SemWake 0))
      else Store s (Inr (SemWake 0)))"

definition sync2_semaphore_release ::
    "u32 \<Rightarrow> s2_caller option \<Rightarrow> s2_notifier list option \<Rightarrow> s2_semaphore \<Rightarrow> (s2_semaphore \<times> bool) list
     \<Rightarrow> (s2_semaphore, s2_error + release_next) outcome" where
  "sync2_semaphore_release n caller notifiers s0 answers =
     (case sem_release_check caller notifiers n s0 of
        Inl e \<Rightarrow> Returned (Inl e)
      | Inr go \<Rightarrow> if go then llsc_loop (sem_release_pass n) answers else Returned (Inr (SemWake 0)))"

definition cellSync2SemaphoreRelease ::
    "u64 \<Rightarrow> u32 \<Rightarrow> s2_config option \<Rightarrow> u32 \<Rightarrow> s2_semaphore \<Rightarrow> (s2_semaphore \<times> bool) list
     \<Rightarrow> (s2_semaphore, s2_error + release_next) outcome" where
  "cellSync2SemaphoreRelease ea n config dmaTag s0 answers =
     (case s2_check_args ea config dmaTag of
        Inl e \<Rightarrow> Returned (Inl e)
      | Inr _ \<Rightarrow> sync2_semaphore_release n (callerThreadType (the config)) (notifierTable (the config)) s0 answers)"

section \<open>Threads sharing a semaphore\<close>

text \<open>
  A thread is idle, waits for a number of units, is woken, or still has wake-ups to do after a release.
  The state counts the units acquired and released so far.
\<close>

datatype sem_thread = SIdle | SQueued nat | SGranted nat | SReleasing nat

record sem_sys =
  sem_line :: s2_semaphore
  sem_threads :: "nat \<Rightarrow> sem_thread"
  acquired :: nat
  released :: nat

inductive s2_sem_step :: "nat \<Rightarrow> sem_sys \<Rightarrow> sem_sys \<Rightarrow> bool" for N where
  take: "t < N \<Longrightarrow> sem_threads x t = SIdle \<Longrightarrow> sem_acquire_check (Some c) wait n s0 = Inr True \<Longrightarrow>
    s_max_waiters s0 = s_max_waiters (sem_line x) \<Longrightarrow> sem_acquire_pass wait n rcv (sem_line x) = Store s' (Inr SemTaken) \<Longrightarrow>
    s2_sem_step N x (x\<lparr>sem_line := s', acquired := acquired x + unat n\<rparr>)"
| enqueue: "t < N \<Longrightarrow> sem_threads x t = SIdle \<Longrightarrow> sem_acquire_check (Some c) wait n s0 = Inr True \<Longrightarrow>
    s_max_waiters s0 = s_max_waiters (sem_line x) \<Longrightarrow> sem_acquire_pass wait n rcv (sem_line x) = Store s' (Inr SemQueued) \<Longrightarrow>
    s2_sem_step N x (x\<lparr>sem_line := s', sem_threads := (sem_threads x)(t := SQueued (unat n))\<rparr>)"
| release: "t < N \<Longrightarrow> sem_threads x t = SIdle \<Longrightarrow> unat n \<le> COUNT_MAX \<Longrightarrow>
    sem_release_pass n (sem_line x) = Store s' (Inr (SemWake k)) \<Longrightarrow>
    s2_sem_step N x (x\<lparr>sem_line := s', sem_threads := (sem_threads x)(t := if k = 0 then SIdle else SReleasing k),
      released := released x + unat n\<rparr>)"
| wake: "t < N \<Longrightarrow> u < N \<Longrightarrow> sem_threads x t = SReleasing (Suc k) \<Longrightarrow> sem_threads x u = SQueued n \<Longrightarrow>
    s2_sem_step N x (x\<lparr>sem_threads := (sem_threads x)(t := if k = 0 then SIdle else SReleasing k, u := SGranted n)\<rparr>)"
| leave: "t < N \<Longrightarrow> sem_threads x t = SGranted n \<Longrightarrow> sem_leave_decision (sem_line x) = Store s' () \<Longrightarrow>
    s2_sem_step N x (x\<lparr>sem_line := s', sem_threads := (sem_threads x)(t := SIdle), acquired := acquired x + n\<rparr>)"


section \<open>The word of a single waiter\<close>

definition lack :: "u32 \<Rightarrow> nat" where
  "lack w = unat (w AND SINGLE_LACKING)"

lemma single_masks: "(SINGLE_LACKING :: u32) = mask 30" "(SINGLE_WAITING :: u32) = push_bit 30 1" "(SINGLE_SIGNALLED :: u32) = push_bit 31 1"
  by (simp_all add: mask_eq_exp_minus_1)

lemma lack_mod: "lack w = unat w mod 2 ^ 30"
  unfolding lack_def single_masks by (rule unat_and_mask)

lemma single_bits:
  "bit (SINGLE_SIGNALLED :: u32) k \<longleftrightarrow> k = 31" "bit (SINGLE_WAITING :: u32) k \<longleftrightarrow> k = 30" "bit (SINGLE_LACKING :: u32) k \<longleftrightarrow> k < 30"
proof -
  have "bit (push_bit 31 1 :: u32) k \<longleftrightarrow> k = 31" "bit (push_bit 30 1 :: u32) k \<longleftrightarrow> k = 30" "bit (mask 30 :: u32) k \<longleftrightarrow> k < 30"
    by (auto simp only: bit_simps) simp_all
  then show "bit (SINGLE_SIGNALLED :: u32) k \<longleftrightarrow> k = 31" "bit (SINGLE_WAITING :: u32) k \<longleftrightarrow> k = 30" "bit (SINGLE_LACKING :: u32) k \<longleftrightarrow> k < 30"
    unfolding single_masks .
qed

text \<open>The updates, for any three words with these bits.\<close>

lemma lack_eqI: "(\<And>k. k < 30 \<Longrightarrow> bit w k = bit v k) \<Longrightarrow> lack w = lack v"
proof -
  assume e: "\<And>k. k < 30 \<Longrightarrow> bit w k = bit v k"
  have "w AND SINGLE_LACKING = v AND SINGLE_LACKING"
    by (rule bit_word_eqI) (use e in \<open>auto simp only: bit_and_iff single_bits\<close>)
  then show ?thesis by (simp only: lack_def)
qed

lemma waiting_bit: "w AND SINGLE_WAITING \<noteq> 0 \<longleftrightarrow> bit w 30"
proof
  assume nz: "w AND SINGLE_WAITING \<noteq> 0"
  show "bit w 30"
  proof (rule ccontr)
    assume "\<not> bit w 30"
    then have "w AND SINGLE_WAITING = 0"
      by (intro bit_word_eqI) (auto simp only: bit_and_iff single_bits bit_0_eq bot_apply bot_bool_def)
    then show False using nz by simp
  qed
next
  assume "bit w 30"
  then have "bit (w AND SINGLE_WAITING) 30" by (simp only: bit_and_iff single_bits simp_thms)
  then show "w AND SINGLE_WAITING \<noteq> 0" by (metis bit_0_eq bot_apply bot_bool_def)
qed

lemma only_waiting_bit: "w AND (SINGLE_SIGNALLED OR SINGLE_WAITING) = SINGLE_WAITING \<longleftrightarrow> bit w 30 \<and> \<not> bit w 31"
proof
  assume e: "w AND (SINGLE_SIGNALLED OR SINGLE_WAITING) = SINGLE_WAITING"
  have "bit (w AND (SINGLE_SIGNALLED OR SINGLE_WAITING)) k = bit (SINGLE_WAITING :: u32) k" for k by (simp only: e)
  then have b: "bit w k \<and> (k = 31 \<or> k = 30) \<longleftrightarrow> k = 30" for k by (simp only: bit_and_iff bit_or_iff single_bits)
  from b[of 30] b[of 31] show "bit w 30 \<and> \<not> bit w 31" by simp
next
  assume "bit w 30 \<and> \<not> bit w 31"
  then show "w AND (SINGLE_SIGNALLED OR SINGLE_WAITING) = SINGLE_WAITING"
    by (intro bit_word_eqI) (auto simp only: bit_and_iff bit_or_iff single_bits)
qed

lemma queued_word:
  "bit ((w AND SINGLE_SIGNALLED) OR SINGLE_WAITING OR (x AND SINGLE_LACKING)) 31 = bit w 31"
  "bit ((w AND SINGLE_SIGNALLED) OR SINGLE_WAITING OR (x AND SINGLE_LACKING)) 30 = True"
  "lack ((w AND SINGLE_SIGNALLED) OR SINGLE_WAITING OR (x AND SINGLE_LACKING)) = unat x mod 2 ^ 30"
proof -
  show "bit ((w AND SINGLE_SIGNALLED) OR SINGLE_WAITING OR (x AND SINGLE_LACKING)) 31 = bit w 31"
    "bit ((w AND SINGLE_SIGNALLED) OR SINGLE_WAITING OR (x AND SINGLE_LACKING)) 30 = True"
    by (simp_all only: bit_and_iff bit_or_iff single_bits) simp_all
  have "lack ((w AND SINGLE_SIGNALLED) OR SINGLE_WAITING OR (x AND SINGLE_LACKING)) = lack x"
    by (rule lack_eqI) (simp only: bit_and_iff bit_or_iff single_bits, simp)
  then show "lack ((w AND SINGLE_SIGNALLED) OR SINGLE_WAITING OR (x AND SINGLE_LACKING)) = unat x mod 2 ^ 30"
    by (simp only: lack_mod)
qed

lemma left_word:
  "bit (w AND NOT (SINGLE_SIGNALLED OR SINGLE_WAITING)) 31 = False" "bit (w AND NOT (SINGLE_SIGNALLED OR SINGLE_WAITING)) 30 = False"
  "lack (w AND NOT (SINGLE_SIGNALLED OR SINGLE_WAITING)) = lack w"
proof -
  show "bit (w AND NOT (SINGLE_SIGNALLED OR SINGLE_WAITING)) 31 = False" "bit (w AND NOT (SINGLE_SIGNALLED OR SINGLE_WAITING)) 30 = False"
    by (simp_all only: bit_and_iff bit_or_iff bit_not_iff single_bits) simp_all
  show "lack (w AND NOT (SINGLE_SIGNALLED OR SINGLE_WAITING)) = lack w"
    by (rule lack_eqI) (simp only: bit_and_iff bit_or_iff bit_not_iff single_bits, auto dest: bit_imp_le_length)
qed

lemma filled_word:
  "bit ((w AND NOT SINGLE_LACKING) OR SINGLE_SIGNALLED) 31 = True" "bit ((w AND NOT SINGLE_LACKING) OR SINGLE_SIGNALLED) 30 = bit w 30"
  "lack ((w AND NOT SINGLE_LACKING) OR SINGLE_SIGNALLED) = 0"
proof -
  show "bit ((w AND NOT SINGLE_LACKING) OR SINGLE_SIGNALLED) 31 = True" "bit ((w AND NOT SINGLE_LACKING) OR SINGLE_SIGNALLED) 30 = bit w 30"
    by (simp_all only: bit_and_iff bit_or_iff bit_not_iff single_bits) (auto dest: bit_imp_le_length)
  have "lack ((w AND NOT SINGLE_LACKING) OR SINGLE_SIGNALLED) = lack 0"
    by (rule lack_eqI) (simp only: bit_and_iff bit_or_iff bit_not_iff single_bits, simp)
  then show "lack ((w AND NOT SINGLE_LACKING) OR SINGLE_SIGNALLED) = 0" by (simp add: lack_def)
qed

lemma partly_filled_word:
  assumes "unat x < 2 ^ 30"
  shows "bit ((w AND NOT SINGLE_LACKING) OR x) 31 = bit w 31" "bit ((w AND NOT SINGLE_LACKING) OR x) 30 = bit w 30"
    "lack ((w AND NOT SINGLE_LACKING) OR x) = unat x"
proof -
  have "x AND mask 30 = x" using assms by (simp add: word_unat_eq_iff unat_and_mask)
  then have x: "\<not> bit x k" if "30 \<le> k" for k using that by (metis bit_and_iff bit_mask_iff leD)
  show "bit ((w AND NOT SINGLE_LACKING) OR x) 31 = bit w 31" "bit ((w AND NOT SINGLE_LACKING) OR x) 30 = bit w 30"
    using x[of 30] x[of 31] by (simp_all only: bit_and_iff bit_or_iff bit_not_iff single_bits) (auto dest: bit_imp_le_length)
  have "lack ((w AND NOT SINGLE_LACKING) OR x) = lack x"
    by (rule lack_eqI) (simp only: bit_and_iff bit_or_iff bit_not_iff single_bits, simp)
  then show "lack ((w AND NOT SINGLE_LACKING) OR x) = unat x" using assms by (simp add: lack_mod)
qed

section \<open>The invariant\<close>

fun sem_queued :: "sem_thread \<Rightarrow> nat" where "sem_queued (SQueued n) = 1" | "sem_queued s = 0"

fun sem_granted :: "sem_thread \<Rightarrow> nat" where "sem_granted (SGranted n) = 1" | "sem_granted s = 0"

fun sem_wakes :: "sem_thread \<Rightarrow> nat" where "sem_wakes (SReleasing k) = k" | "sem_wakes s = 0"

fun sem_needs :: "sem_thread \<Rightarrow> nat" where "sem_needs (SQueued n) = n" | "sem_needs (SGranted n) = n" | "sem_needs s = 0"

definition counts_inv :: "nat \<Rightarrow> nat \<Rightarrow> sem_sys \<Rightarrow> bool" where
  "counts_inv N initial x \<longleftrightarrow>
     (let s = sem_line x; Q = total N sem_queued (sem_threads x); G = total N sem_granted (sem_threads x);
          K = total N sem_wakes (sem_threads x)
      in unat (s_waiters s) = Q + G \<and> unat (s_signalled s) = K + G \<and> unat (s_waiters s) \<le> unat (s_max_waiters s)
         \<and> (K < Q \<longrightarrow> s_count s = 0) \<and> (\<forall>t < N. sem_needs (sem_threads x t) = sem_queued (sem_threads x t) + sem_granted (sem_threads x t))
         \<and> initial + released x = acquired x + unat (s_count s) + (K + G))"

definition single_inv :: "nat \<Rightarrow> nat \<Rightarrow> sem_sys \<Rightarrow> bool" where
  "single_inv N initial x \<longleftrightarrow>
     (let s = sem_line x; w = s_word s; Q = total N sem_queued (sem_threads x); G = total N sem_granted (sem_threads x);
          K = total N sem_wakes (sem_threads x); need = total N sem_needs (sem_threads x)
      in Q + G = (if bit w 30 then 1 else 0) \<and> K + G = (if bit w 31 then 1 else 0)
         \<and> (if bit w 30 \<and> \<not> bit w 31 then 0 < lack w \<and> s_count s = 0 else lack w = 0)
         \<and> lack w \<le> need \<and> lack w \<le> COUNT_MAX
         \<and> initial + released x + lack w = acquired x + unat (s_count s) + need)"

definition sem_inv :: "nat \<Rightarrow> nat \<Rightarrow> sem_sys \<Rightarrow> bool" where
  "sem_inv N initial x \<longleftrightarrow>
     unat (s_count (sem_line x)) \<le> COUNT_MAX
     \<and> total N sem_wakes (sem_threads x) \<le> total N sem_queued (sem_threads x)
     \<and> (if s_max_waiters (sem_line x) = 1 then single_inv N initial x else counts_inv N initial x)"

lemma sint_small:
  assumes "unat (w :: u32) < 2 ^ 31"
  shows "sint w = int (unat w)"
proof -
  have u: "uint w < 2 ^ 31" using assms by (metis of_nat_less_iff of_nat_numeral of_nat_power uint_nat)
  have l: "LENGTH(32) - Suc 0 = 31" by simp
  have "sint w = signed_take_bit 31 (uint w)" by (simp only: sint_uint l)
  also have "\<dots> = uint w"
    by (rule signed_take_bit_int_eq_self) (use u in \<open>auto intro: order_trans[of _ 0]\<close>)
  finally show ?thesis by (simp only: uint_nat)
qed

lemma count_minus:
  assumes "unat (a :: u32) \<le> COUNT_MAX" "unat b \<le> COUNT_MAX" "sint b \<le> sint a"
  shows "unat b \<le> unat a \<and> unat (a - b) = unat a - unat b"
proof -
  have "sint a = int (unat a)" "sint b = int (unat b)" by (rule sint_small, use assms in simp)+
  then have "unat b \<le> unat a" using assms(3) by linarith
  then show ?thesis by (simp add: unat_sub word_le_nat_alt)
qed

lemma count_plus:
  assumes "unat (a :: u32) \<le> COUNT_MAX" "unat b \<le> COUNT_MAX"
  shows "unat (a + b) = unat a + unat b" "sint (a + b) = int (unat a + unat b)"
proof -
  show u: "unat (a + b) = unat a + unat b" by (rule unat_plus_small) (use assms in simp)
  then show "sint (a + b) = int (unat a + unat b)" using sint_small[of "a + b"] assms by simp
qed

lemma lack_sint: "lack w \<le> COUNT_MAX \<Longrightarrow> sint (w AND SINGLE_LACKING) = int (lack w)"
  unfolding lack_def by (rule sint_small) simp

text \<open>How the four sums change when one thread changes its state.\<close>

lemmas sem_totals = total_update[where f = sem_queued] total_update[where f = sem_granted]
  total_update[where f = sem_wakes] total_update[where f = sem_needs]

lemma sem_total_ge:
  assumes "t < N"
  shows "sem_queued (thr t) \<le> total N sem_queued thr" "sem_granted (thr t) \<le> total N sem_granted thr"
    "sem_wakes (thr t) \<le> total N sem_wakes thr" "sem_needs (thr t) \<le> total N sem_needs thr"
  by (rule total_ge[of t N _ thr, OF assms])+

lemma inv_take:
  assumes "sem_inv N i x" "unat n \<le> COUNT_MAX" "sem_acquire_pass wait n rcv (sem_line x) = Store s' (Inr SemTaken)"
  shows "sem_inv N i (x\<lparr>sem_line := s', acquired := acquired x + unat n\<rparr>)"
proof -
  let ?s = "sem_line x"
  have c: "unat (s_count ?s) \<le> COUNT_MAX" using assms(1) by (simp add: sem_inv_def)
  have f: "sint n \<le> sint (s_count ?s)" "s' = ?s\<lparr>s_count := s_count ?s - n\<rparr>"
    using assms(3) by (auto simp: sem_acquire_pass_def split: if_splits)
  note m = count_minus[OF c assms(2) f(1)]
  have z: "s_count ?s = 0 \<Longrightarrow> s_count ?s - n = 0" using m by (simp add: unat_eq_0)
  have le: "unat (s_count ?s - n) \<le> COUNT_MAX" using m c by linarith
  show ?thesis
    using assms(1) m z le unfolding sem_inv_def
    by (simp add: f(2) counts_inv_def single_inv_def s_waiters_def s_signalled_def Let_def split: if_splits)
qed

lemma inv_enqueue_one:
  assumes "sem_inv N i x" "t < N" "sem_threads x t = SIdle" "s_max_waiters (sem_line x) = 1" "unat n \<le> COUNT_MAX"
    "sem_acquire_pass wait n rcv (sem_line x) = Store s' (Inr SemQueued)"
  shows "sem_inv N i (x\<lparr>sem_line := s', sem_threads := (sem_threads x)(t := SQueued (unat n))\<rparr>)"
proof -
  let ?s = "sem_line x" and ?d = "n - s_count (sem_line x)"
  have c: "unat (s_count ?s) \<le> COUNT_MAX" using assms(1) by (simp add: sem_inv_def)
  have f: "\<not> sint n \<le> sint (s_count ?s)" "\<not> bit (s_word ?s) 30"
    "s' = ?s\<lparr>s_word := (s_word ?s AND SINGLE_SIGNALLED) OR SINGLE_WAITING OR (?d AND SINGLE_LACKING), s_count := 0\<rparr>"
    using assms(4,6) by (simp_all add: sem_acquire_pass_def waiting_bit split: if_splits)
  have lt: "unat (s_count ?s) < unat n" "unat ?d = unat n - unat (s_count ?s)"
  proof -
    have "sint n = int (unat n)" "sint (s_count ?s) = int (unat (s_count ?s))" by (rule sint_small, use assms(5) c in simp)+
    then show "unat (s_count ?s) < unat n" using f(1) by linarith
    then show "unat ?d = unat n - unat (s_count ?s)" by (simp add: unat_sub word_le_nat_alt)
  qed
  have w: "s_word s' = (s_word ?s AND SINGLE_SIGNALLED) OR SINGLE_WAITING OR (?d AND SINGLE_LACKING)" by (simp add: f(3))
  have "lack (s_word s') = unat ?d mod 2 ^ 30" by (simp only: w queued_word)
  then have l: "lack (s_word s') = unat n - unat (s_count ?s)" using lt assms(5) by simp
  have b: "bit (s_word s') 31 = bit (s_word ?s) 31" "bit (s_word s') 30" by (simp_all only: w queued_word)
  have o: "s_count s' = 0" "s_max_waiters s' = 1" using assms(4) by (simp_all add: f(3))
  have I: "total N sem_wakes (sem_threads x) \<le> total N sem_queued (sem_threads x)" "single_inv N i x"
    using assms(1,4) by (simp_all add: sem_inv_def)
  then have z: "total N sem_queued (sem_threads x) = 0" "total N sem_granted (sem_threads x) = 0"
      "total N sem_wakes (sem_threads x) = 0" "\<not> bit (s_word ?s) 31" "lack (s_word ?s) = 0"
      "i + released x = acquired x + unat (s_count ?s) + total N sem_needs (sem_threads x)"
    using f(2) by (auto simp: single_inv_def Let_def split: if_splits)
  show ?thesis
    using z lt l b o assms(5) diff_le_self[of "unat n" "unat (s_count ?s)"] le_trans[OF diff_le_self[of "unat n" "unat (s_count ?s)"] assms(5)]
      sem_totals[OF assms(2), of "sem_threads x" "SQueued (unat n)"] assms(3)
    by (simp add: sem_inv_def single_inv_def)
qed

lemma inv_enqueue_many:
  assumes "sem_inv N i x" "t < N" "sem_threads x t = SIdle" "s_max_waiters (sem_line x) \<noteq> 1" "unat n = 1"
    "sem_acquire_pass wait n rcv (sem_line x) = Store s' (Inr SemQueued)"
  shows "sem_inv N i (x\<lparr>sem_line := s', sem_threads := (sem_threads x)(t := SQueued (unat n))\<rparr>)"
proof -
  let ?s = "sem_line x"
  have c: "unat (s_count ?s) \<le> COUNT_MAX" and I: "counts_inv N i x"
      and k: "total N sem_wakes (sem_threads x) \<le> total N sem_queued (sem_threads x)"
    using assms(1,4) by (simp_all add: sem_inv_def)
  have f: "\<not> sint n \<le> sint (s_count ?s)" "s_waiters ?s \<noteq> s_max_waiters ?s"
    "s' = ?s\<lparr>s_word := pack16 (s_signalled ?s) (s_waiters ?s + 1)\<rparr>"
    using assms(4,6) by (simp_all add: sem_acquire_pass_def split: if_splits)
  have "sint n = int (unat n)" "sint (s_count ?s) = int (unat (s_count ?s))" by (rule sint_small, use assms(5) c in simp)+
  then have "unat (s_count ?s) = 0" using f(1) assms(5) by linarith
  then have z: "s_count ?s = 0" by (simp add: unat_eq_0)
  have lt: "unat (s_waiters ?s) < unat (s_max_waiters ?s)"
    using f(2) I unfolding counts_inv_def Let_def by (metis nat_less_le word_unat_eq_iff)
  have "unat (s_max_waiters ?s) < 2 ^ 16" using unsigned_less[of "s_max_waiters ?s"] by simp
  then have w: "unat (s_waiters ?s + 1) = unat (s_waiters ?s) + 1" using lt by (subst unat_plus_small) simp_all
  have s': "s_waiters s' = s_waiters ?s + 1" "s_signalled s' = s_signalled ?s" "s_count s' = 0" "s_max_waiters s' = s_max_waiters ?s"
    using z by (simp_all add: f(3) s_waiters_def s_signalled_def)
  show ?thesis
    using I k w lt s' z assms(3-5) sem_totals[OF assms(2), of "sem_threads x" "SQueued (unat n)"]
    by (simp add: sem_inv_def counts_inv_def Let_def)
qed

section \<open>What a release does\<close>

lemma count_update_word [simp]:
  "s_waiters (s\<lparr>s_count := c\<rparr>) = s_waiters s" "s_signalled (s\<lparr>s_count := c\<rparr>) = s_signalled s"
  by (simp_all add: s_waiters_def s_signalled_def)

lemma release_too_many:
  assumes "unat (s_count s) \<le> COUNT_MAX" "unat n \<le> COUNT_MAX" "COUNT_MAX < unat (s_count s) + unat n"
  shows "sem_release_pass n s = Return (Inl S2_STAT)"
  using count_plus(2)[OF assms(1,2)] assms(3) by (simp add: sem_release_pass_def del: of_nat_add)

text \<open>With several waiters admitted, units go to the waiters nobody has signalled, one each, and the rest to the count.\<close>

lemma release_many:
  assumes "unat (s_count s) + unat n = c" "c \<le> COUNT_MAX" "s_max_waiters s \<noteq> 1"
    "unat (s_waiters s) = W" "unat (s_signalled s) = S" "S \<le> W"
  shows "sem_release_pass n s =
    Store (s\<lparr>s_word := pack16 (s_signalled s + of_nat (min c (W - S))) (s_waiters s),
             s_count := s_count s + n - of_nat (min c (W - S))\<rparr>) (Inr (SemWake (min c (W - S))))"
proof -
  have si: "sint (s_count s + n) = int c"
    by (subst count_plus(2)) (use assms(1,2) in auto)
  have w: "pack16 (s_signalled s) (s_waiters s) = s_word s" by (simp add: s_signalled_def s_waiters_def)
  obtain d where d: "W = S + d" using assms(6) le_Suc_ex by blast
  consider (none) "c = 0 \<or> d = 0" | (all) "0 < d" "d < c" | (some) "0 < c" "0 < d" "c \<le> d" by linarith
  then show ?thesis
  proof cases
    case none
    then have "min c (W - S) = 0" using d by auto
    then show ?thesis using si assms none w d by (auto simp: sem_release_pass_def Let_def)
  next
    case all
    then have m: "min c (W - S) = d" using d by auto
    show ?thesis unfolding m using si assms(2-5) all d by (simp add: sem_release_pass_def Let_def)
  next
    case some
    then have m: "min c (W - S) = c" using d by auto
    show ?thesis unfolding m using si assms(2-5) some d by (simp add: sem_release_pass_def Let_def)
  qed
qed

text \<open>With one waiter admitted, units go to what it lacks first.\<close>

lemma release_one:
  assumes "unat (s_count s) + unat n = c" "c \<le> COUNT_MAX" "s_max_waiters s = 1" "lack (s_word s) = l" "l \<le> COUNT_MAX"
    "bit (s_word s) 30 \<and> \<not> bit (s_word s) 31 \<longrightarrow> 0 < l"
  shows "sem_release_pass n s =
    (if c = 0 \<or> \<not> (bit (s_word s) 30 \<and> \<not> bit (s_word s) 31) then Store (s\<lparr>s_count := s_count s + n\<rparr>) (Inr (SemWake 0))
     else if c < l
     then Store (s\<lparr>s_word := (s_word s AND NOT SINGLE_LACKING) OR ((s_word s AND SINGLE_LACKING) - (s_count s + n)), s_count := 0\<rparr>) (Inr (SemWake 0))
     else Store (s\<lparr>s_count := s_count s + n - (s_word s AND SINGLE_LACKING), s_word := (s_word s AND NOT SINGLE_LACKING) OR SINGLE_SIGNALLED\<rparr>)
            (Inr (SemWake 1)))"
proof -
  have si: "sint (s_count s + n) = int c"
    by (subst count_plus(2)) (use assms(1,2) in auto)
  have li: "sint (s_word s AND SINGLE_LACKING) = int l" using lack_sint[of "s_word s"] assms(4,5) by simp
  have z: "s_word s AND SINGLE_LACKING = 0 \<longleftrightarrow> l = 0" using assms(4) by (simp only: lack_def unat_eq_0 flip: assms(4))
  show ?thesis
    unfolding sem_release_pass_def Let_def s2_semaphore.simps only_waiting_bit si using assms(2,3,6) by (auto simp: li z)
qed

lemma inv_release_many:
  assumes "sem_inv N i x" "t < N" "sem_threads x t = SIdle" "s_max_waiters (sem_line x) \<noteq> 1" "unat n \<le> COUNT_MAX"
    "sem_release_pass n (sem_line x) = Store s' (Inr (SemWake k))"
  shows "sem_inv N i (x\<lparr>sem_line := s', sem_threads := (sem_threads x)(t := if k = 0 then SIdle else SReleasing k),
      released := released x + unat n\<rparr>)"
proof -
  let ?s = "sem_line x" and ?st = "if k = 0 then SIdle else SReleasing k"
  define W S c where WSc: "W = unat (s_waiters ?s)" "S = unat (s_signalled ?s)" "c = unat (s_count ?s) + unat n"
  have c0: "unat (s_count ?s) \<le> COUNT_MAX" and I: "counts_inv N i x"
      and k: "total N sem_wakes (sem_threads x) \<le> total N sem_queued (sem_threads x)"
    using assms(1,4) by (simp_all add: sem_inv_def)
  have SW: "S \<le> W" using I k by (simp add: WSc counts_inv_def Let_def)
  have le: "c \<le> COUNT_MAX" using release_too_many[OF c0 assms(5)] assms(6) by (cases "c \<le> COUNT_MAX") (auto simp: WSc)
  define w where "w = min c (W - S)"
  have s': "k = w" "s' = ?s\<lparr>s_word := pack16 (s_signalled ?s + of_nat w) (s_waiters ?s), s_count := s_count ?s + n - of_nat w\<rparr>"
    using release_many[OF WSc(3)[symmetric] le assms(4) WSc(1,2)[symmetric] SW] assms(6) by (simp_all add: w_def)
  have w: "w \<le> c" "w \<le> W - S" "w < W - S \<Longrightarrow> w = c" "W < 2 ^ 16"
    using unsigned_less[of "s_waiters ?s"] by (auto simp: w_def WSc)
  have "unat (of_nat w :: u32) = w" "unat (of_nat w :: u16) = w"
    using w by (simp_all add: unat_of_nat)
  moreover have "unat (s_count ?s + n) = c" using count_plus(1)[OF c0 assms(5)] by (simp add: WSc)
  ultimately have a: "unat (s_signalled ?s + of_nat w) = S + w" "unat (s_count ?s + n - of_nat w) = c - w"
    using w SW by (simp_all add: unat_plus_small unat_sub word_le_nat_alt flip: WSc)
  have f: "unat (s_waiters s') = W" "unat (s_signalled s') = S + w" "unat (s_count s') = c - w" "s_max_waiters s' = s_max_waiters ?s"
    using a by (simp_all add: s' s_waiters_def s_signalled_def WSc)
  have z: "s_count s' = 0" if "w < W - S" using f(3) w(3)[OF that] by (simp add: unat_eq_0)
  have st: "sem_wakes ?st = w" "sem_queued ?st = 0" "sem_granted ?st = 0" "sem_needs ?st = 0" using s'(1) by simp_all
  note tot = sem_totals[OF assms(2), of "sem_threads x" ?st, unfolded st assms(3)]
  have J: "W = total N sem_queued (sem_threads x) + total N sem_granted (sem_threads x)"
      "S = total N sem_wakes (sem_threads x) + total N sem_granted (sem_threads x)" "W \<le> unat (s_max_waiters ?s)"
      "\<forall>u < N. sem_needs (sem_threads x u) = sem_queued (sem_threads x u) + sem_granted (sem_threads x u)"
      "i + released x = acquired x + unat (s_count ?s) + S"
    using I by (simp_all add: WSc counts_inv_def Let_def)
  have "i + (released x + unat n) = acquired x + (c - w) + (S + w)" "c - w \<le> COUNT_MAX"
    using J(5) w(1) le WSc(3) by linarith+
  moreover have "S + w \<le> W" using w(2) SW by linarith
  ultimately show ?thesis
    using J f z st tot assms(3,4) s'(1) w(2) by (simp add: sem_inv_def counts_inv_def Let_def)
qed

lemma single_invD:
  assumes "sem_inv N i x" "s_max_waiters (sem_line x) = 1"
  shows "total N sem_queued (sem_threads x) + total N sem_granted (sem_threads x) = (if bit (s_word (sem_line x)) 30 then 1 else 0)"
    "total N sem_wakes (sem_threads x) + total N sem_granted (sem_threads x) = (if bit (s_word (sem_line x)) 31 then 1 else 0)"
    "if bit (s_word (sem_line x)) 30 \<and> \<not> bit (s_word (sem_line x)) 31
     then 0 < lack (s_word (sem_line x)) \<and> s_count (sem_line x) = 0 else lack (s_word (sem_line x)) = 0"
    "lack (s_word (sem_line x)) \<le> total N sem_needs (sem_threads x)" "lack (s_word (sem_line x)) \<le> COUNT_MAX"
    "i + released x + lack (s_word (sem_line x)) = acquired x + unat (s_count (sem_line x)) + total N sem_needs (sem_threads x)"
    "unat (s_count (sem_line x)) \<le> COUNT_MAX" "total N sem_wakes (sem_threads x) \<le> total N sem_queued (sem_threads x)"
  using assms by (simp_all add: sem_inv_def single_inv_def Let_def)

lemma inv_release_one:
  assumes "sem_inv N i x" "t < N" "sem_threads x t = SIdle" "s_max_waiters (sem_line x) = 1" "unat n \<le> COUNT_MAX"
    "sem_release_pass n (sem_line x) = Store s' (Inr (SemWake k))"
  shows "sem_inv N i (x\<lparr>sem_line := s', sem_threads := (sem_threads x)(t := if k = 0 then SIdle else SReleasing k),
      released := released x + unat n\<rparr>)"
proof -
  let ?s = "sem_line x" and ?st = "if k = 0 then SIdle else SReleasing k"
  define c l where cl: "c = unat (s_count ?s) + unat n" "l = lack (s_word ?s)"
  note J = single_invD[OF assms(1,4)]
  have le: "c \<le> COUNT_MAX" using release_too_many[OF J(7) assms(5)] assms(6) by (cases "c \<le> COUNT_MAX") (auto simp: cl)
  have pos: "bit (s_word ?s) 30 \<and> \<not> bit (s_word ?s) 31 \<longrightarrow> 0 < l" using J(3) by (auto simp: cl)
  note R = release_one[OF cl(1)[symmetric] le assms(4) cl(2)[symmetric] J(5)[folded cl] pos, unfolded assms(6)]
  have uc: "unat (s_count ?s + n) = c" using count_plus(1)[OF J(7) assms(5)] by (simp add: cl)
  have ul: "unat (s_word ?s AND SINGLE_LACKING) = l" by (simp only: cl lack_def)
  have st: "sem_wakes ?st = k" "sem_queued ?st = 0" "sem_granted ?st = 0" "sem_needs ?st = 0" by simp_all
  note tot = sem_totals[OF assms(2), of "sem_threads x" ?st, unfolded st assms(3)]
  consider (plain) "c = 0 \<or> \<not> (bit (s_word ?s) 30 \<and> \<not> bit (s_word ?s) 31)"
    | (part) "0 < c" "bit (s_word ?s) 30" "\<not> bit (s_word ?s) 31" "c < l"
    | (full) "0 < c" "bit (s_word ?s) 30" "\<not> bit (s_word ?s) 31" "l \<le> c" by linarith
  then show ?thesis
  proof cases
    case plain
    then have s': "s' = ?s\<lparr>s_count := s_count ?s + n\<rparr>" "k = 0" using R by simp_all
    have z: "s_count ?s + n = 0" if "bit (s_word ?s) 30" "\<not> bit (s_word ?s) 31"
      using plain that uc by (simp add: unat_eq_0)
    show ?thesis using J uc le cl z s' tot st assms(3,4) by (simp add: sem_inv_def single_inv_def Let_def)
  next
    case part
    have u: "unat ((s_word ?s AND SINGLE_LACKING) - (s_count ?s + n)) = l - c"
      by (subst unat_sub) (use part(4) uc ul in \<open>simp_all only: word_le_nat_alt less_imp_le\<close>)
    then have "unat ((s_word ?s AND SINGLE_LACKING) - (s_count ?s + n)) < 2 ^ 30" using J(5) by (simp add: cl)
    note W = partly_filled_word[OF this, of "s_word ?s", unfolded u]
    have s': "s_word s' = (s_word ?s AND NOT SINGLE_LACKING) OR ((s_word ?s AND SINGLE_LACKING) - (s_count ?s + n))" "s_count s' = 0" "k = 0"
      "s_max_waiters s' = 1"
      using R part assms(4) by simp_all
    note W' = W[folded s'(1)]
    have z: "s_count ?s = 0" using J(3) part by simp
    have tot0: "?st = SIdle" using s'(3) by simp
    show ?thesis
      using J z W' s'(2,4) part le cl tot st assms(3) unfolding s'(3)
      by (simp add: sem_inv_def single_inv_def Let_def, intro conjI; linarith)
  next
    case full
    note W = filled_word[of "s_word ?s"]
    have s': "s_word s' = (s_word ?s AND NOT SINGLE_LACKING) OR SINGLE_SIGNALLED" "s_count s' = s_count ?s + n - (s_word ?s AND SINGLE_LACKING)" "k = 1"
      "s_max_waiters s' = 1"
      using R full assms(4) by simp_all
    note W' = W[folded s'(1)]
    have u: "unat (s_count s') = c - l" unfolding s'(2)
      by (subst unat_sub) (use full(4) uc ul in \<open>simp_all only: word_le_nat_alt\<close>)
    have b: "c - l \<le> COUNT_MAX" "l \<le> c" using le full by linarith+
    show ?thesis
      using J b u W' s'(4) full cl tot st assms(3) unfolding s'(3) by (simp add: sem_inv_def single_inv_def Let_def)
  qed
qed

lemma inv_sem_wake:
  assumes "sem_inv N i x" "t < N" "u < N" "sem_threads x t = SReleasing (Suc k)" "sem_threads x u = SQueued n"
  shows "sem_inv N i (x\<lparr>sem_threads := (sem_threads x)(t := if k = 0 then SIdle else SReleasing k, u := SGranted n)\<rparr>)"
proof -
  let ?st = "if k = 0 then SIdle else SReleasing k"
  have tu: "t \<noteq> u" using assms(4,5) by auto
  have st: "sem_wakes ?st = k" "sem_queued ?st = 0" "sem_granted ?st = 0" "sem_needs ?st = 0" by simp_all
  have u: "((sem_threads x)(t := ?st)) u = SQueued n" using tu assms(5) by simp
  note tot = sem_totals[OF assms(2), of "sem_threads x" ?st, unfolded st assms(4)]
    sem_totals[OF assms(3), of "(sem_threads x)(t := ?st)" "SGranted n", unfolded u]
  show ?thesis
    using assms(1) tot by (auto simp: sem_inv_def counts_inv_def single_inv_def Let_def tu assms(5) split: if_splits)
qed

lemma inv_sem_leave:
  assumes "sem_inv N i x" "t < N" "sem_threads x t = SGranted n" "sem_leave_decision (sem_line x) = Store s' ()"
  shows "sem_inv N i (x\<lparr>sem_line := s', sem_threads := (sem_threads x)(t := SIdle), acquired := acquired x + n\<rparr>)"
proof (cases "s_max_waiters (sem_line x) = 1")
  case True
  let ?s = "sem_line x"
  note J = single_invD[OF assms(1) True]
  have w: "s_word s' = s_word ?s AND NOT (SINGLE_SIGNALLED OR SINGLE_WAITING)" "s_count s' = s_count ?s" "s_max_waiters s' = 1"
    using assms(4) True by (auto simp: sem_leave_decision_def)
  note W = left_word[of "s_word ?s", folded w(1)]
  show ?thesis
    using J W w(2,3) sem_totals[OF assms(2), of "sem_threads x" SIdle] assms(3)
    by (simp add: sem_inv_def single_inv_def Let_def split: if_splits)
next
  case False
  let ?s = "sem_line x"
  have s': "s' = ?s\<lparr>s_word := pack16 (s_signalled ?s - 1) (s_waiters ?s - 1)\<rparr>"
    using assms(4) False by (auto simp: sem_leave_decision_def)
  have g: "0 < total N sem_granted (sem_threads x)" using sem_total_ge(2)[OF assms(2), of "sem_threads x"] assms(3) by simp
  have I: "counts_inv N i x" using assms(1) False by (simp add: sem_inv_def)
  then have one: "n = 1" using assms(2,3) by (auto simp: counts_inv_def Let_def)
  have "0 < unat (s_waiters ?s)" "0 < unat (s_signalled ?s)" using I g by (simp_all add: counts_inv_def Let_def)
  then have "s_waiters ?s \<noteq> 0" "s_signalled ?s \<noteq> 0" by auto
  then have u: "unat (s_waiters s') = unat (s_waiters ?s) - 1" "unat (s_signalled s') = unat (s_signalled ?s) - 1"
    by (simp_all add: s' s_waiters_def s_signalled_def unat_minus_one)
  have o: "s_count s' = s_count ?s" "s_max_waiters s' = s_max_waiters ?s" by (simp_all add: s')
  show ?thesis
    using assms(1) False u o g one sem_totals[OF assms(2), of "sem_threads x" SIdle] assms(3)
    by (simp add: sem_inv_def counts_inv_def Let_def, intro conjI; linarith)
qed

text \<open>What the checks before the loop let through.\<close>

lemma checked_units:
  "sem_acquire_check caller wait n s = Inr go \<Longrightarrow> unat n \<le> COUNT_MAX"
  "sem_acquire_check caller wait n s = Inr True \<Longrightarrow> n \<noteq> 0"
  "sem_acquire_check caller True n s = Inr True \<Longrightarrow> s_max_waiters s \<noteq> 1 \<Longrightarrow> unat n = 1"
proof -
  show "sem_acquire_check caller wait n s = Inr go \<Longrightarrow> unat n \<le> COUNT_MAX"
    by (auto simp: sem_acquire_check_def Let_def split: option.splits if_splits)
  show nz: "sem_acquire_check caller wait n s = Inr True \<Longrightarrow> n \<noteq> 0" for wait
    by (auto simp: sem_acquire_check_def Let_def split: option.splits if_splits)
  assume a: "sem_acquire_check caller True n s = Inr True" "s_max_waiters s \<noteq> 1"
  then have "\<not> 1 < unat n" by (auto simp: sem_acquire_check_def Let_def split: option.splits if_splits)
  moreover have "0 < unat n" using nz[OF a(1)] by (simp add: unat_gt_0)
  ultimately show "unat n = 1" by linarith
qed

theorem sem_inv_step:
  assumes "s2_sem_step N x y" "sem_inv N i x"
  shows "sem_inv N i y"
  using assms(1)
proof cases
  case (take t c wait n s0 rcv s')
  show ?thesis unfolding take(1) by (rule inv_take[OF assms(2) checked_units(1)[OF take(4)] take(6)])
next
  case (enqueue t c wait n s0 rcv s')
  have w: "wait" using enqueue(6) by (auto simp: sem_acquire_pass_def split: if_splits)
  show ?thesis
  proof (cases "s_max_waiters (sem_line x) = 1")
    case True
    show ?thesis unfolding enqueue(1) by (rule inv_enqueue_one[OF assms(2) enqueue(2,3) True checked_units(1)[OF enqueue(4)] enqueue(6)])
  next
    case False
    then have "unat n = 1" using checked_units(3) enqueue(4,5) w by simp
    then show ?thesis unfolding enqueue(1) by (rule inv_enqueue_many[OF assms(2) enqueue(2,3) False _ enqueue(6)])
  qed
next
  case (release t n s' k)
  show ?thesis
    unfolding release(1)
    by (cases "s_max_waiters (sem_line x) = 1")
       (rule inv_release_one[OF assms(2) release(2,3) _ release(4,5)] inv_release_many[OF assms(2) release(2,3) _ release(4,5)], assumption)+
next
  case (wake t u k n)
  show ?thesis unfolding wake(1) by (rule inv_sem_wake[OF assms(2) wake(2-5)])
next
  case (leave t n s')
  show ?thesis unfolding leave(1) by (rule inv_sem_leave[OF assms(2) leave(2-4)])
qed

text \<open>Idle threads around a semaphore with a given count.\<close>

definition sem_fresh :: "nat \<Rightarrow> sem_sys \<Rightarrow> bool" where
  "sem_fresh i x \<longleftrightarrow> unat (s_count (sem_line x)) = i \<and> i \<le> COUNT_MAX \<and> s_word (sem_line x) = 0
     \<and> sem_threads x = (\<lambda>_. SIdle) \<and> acquired x = 0 \<and> released x = 0"

lemma sem_inv_start: "sem_fresh i x \<Longrightarrow> sem_inv N i x"
proof -
  have h: "hi16 0 = 0" "lo16 0 = 0" by (rule bit_word_eqI, simp add: hi16_def lo16_def bit_simps)+
  have "total N f (\<lambda>_. SIdle) = 0" if "f SIdle = 0" for f using that by (simp add: total_def)
  then show "sem_fresh i x \<Longrightarrow> sem_inv N i x"
    by (simp add: sem_fresh_def sem_inv_def counts_inv_def single_inv_def Let_def s_waiters_def s_signalled_def h lack_def)
qed

lemma sem_reachable_inv:
  assumes "(s2_sem_step N)\<^sup>*\<^sup>* x y" "sem_fresh i x"
  shows "sem_inv N i y"
  using assms(1)
proof (induction rule: rtranclp_induct)
  case base
  then show ?case by (rule sem_inv_start[OF assms(2)])
next
  case (step y z)
  then show ?case using sem_inv_step by blast
qed

text \<open>A release that keeps the count in bounds succeeds, with no more wake-ups than threads nobody has signalled.\<close>

lemma release_succeeds:
  assumes "sem_inv N i x" "unat n \<le> COUNT_MAX" "unat (s_count (sem_line x)) + unat n \<le> COUNT_MAX"
  shows "\<exists>s' k. sem_release_pass n (sem_line x) = Store s' (Inr (SemWake k)) \<and>
    total N sem_wakes (sem_threads x) + k \<le> total N sem_queued (sem_threads x)"
proof (cases "s_max_waiters (sem_line x) = 1")
  case True
  note J = single_invD[OF assms(1) True]
  have "bit (s_word (sem_line x)) 30 \<and> \<not> bit (s_word (sem_line x)) 31 \<longrightarrow> 0 < lack (s_word (sem_line x))" using J(3) by simp
  from release_one[OF refl assms(3) True refl J(5) this] show ?thesis using J(1,2,8) by auto
next
  case False
  then have I: "counts_inv N i x" "total N sem_wakes (sem_threads x) \<le> total N sem_queued (sem_threads x)"
    using assms(1) by (simp_all add: sem_inv_def)
  have "unat (s_signalled (sem_line x)) \<le> unat (s_waiters (sem_line x))"
    and d: "unat (s_waiters (sem_line x)) - unat (s_signalled (sem_line x)) = total N sem_queued (sem_threads x) - total N sem_wakes (sem_threads x)"
    using I by (simp_all add: counts_inv_def Let_def)
  from release_many[OF refl assms(3) False refl refl this(1)] show ?thesis using I(2) unfolding d by simp
qed

end
