(* ===== verification/Sync2_Props.thy ===== *)
theory Sync2_Props
  imports Sync2_Mutex Sync2_Semaphore
begin

text \<open>
  The properties of the objects of \<open>sdk/libsync2\<close>, each with a witness at a concrete run.
\<close>

section \<open>Mutex\<close>

text \<open>C13: Whatever the threads that share a mutex do, at most one of them holds it in any of the ways of holding
  (taking, owning, handing over, being handed to); the owner's bytes on the line name the owner and its recursion depth;
  a thread that does not hold the mutex is refused the unlock, with an error and without a change of the line; and no
  more threads wait than the mutex admits.\<close>

theorem s2_mutex_exclusive:
  assumes "(s2_mutex_step N caller)\<^sup>*\<^sup>* (m0, \<lambda>_. MIdle) (m, thr)" "distinct_callers N caller" "mutex_fresh m0"
  shows "(\<forall>t < N. \<forall>u < N. holding (thr t) \<longrightarrow> holding (thr u) \<longrightarrow> t = u) \<and>
    (\<forall>t < N. \<forall>d. thr t = MOwner d \<longrightarrow> owned_by m (caller t) \<and> m_count m = d \<and> d \<noteq> 0) \<and>
    (\<forall>t < N. \<forall>nts countOut. thr t = MIdle \<longrightarrow>
       mutex_unlock_pass (Some (caller t)) nts countOut True m \<in> {Return (Inl S2_STAT), Return (Inl S2_PERM)}) \<and>
    number N queued thr \<le> unat (m_max_waiters m)"
proof (intro conjI allI impI)
  note inv = s2_mutex_reachable_inv[OF assms]
  note I = s2_mutex_invD[OF inv]
  have one: "number N holding thr \<le> 1" using I(1) by simp
  show "t = u" if "t < N" "u < N" "holding (thr t)" "holding (thr u)" for t u
    by (rule number_one_unique[of N holding thr, OF one that(1,3,2,4)])
  show "owned_by m (caller t)" "m_count m = d" "d \<noteq> 0" if "t < N" "thr t = MOwner d" for t d
    using I(7)[OF that(1)] that(2) by simp_all
  show "mutex_unlock_pass (Some (caller t)) nts countOut True m \<in> {Return (Inl S2_STAT), Return (Inl S2_PERM)}"
    if "t < N" "thr t = MIdle" for t nts countOut
    using owned_by_owner[OF inv assms(2) that(1)] that(2) by (auto simp: mutex_unlock_pass_def)
  show "number N queued thr \<le> unat (m_max_waiters m)" using I(2,5) by linarith
qed

text \<open>A line and two callers for the witnesses, and the run in which the first locks and the second queues.\<close>

definition example_mutex :: s2_mutex where
  "example_mutex = \<lparr>m_owner_type = 0, m_count = 0, m_owner = 0, m_flags = 0, m_signalled = 0, m_waiters = 0,
     m_recursive = 1, m_thread_types = 0xff, m_max_waiters = 2\<rparr>"

definition example_caller :: "nat \<Rightarrow> s2_caller" where
  "example_caller t = \<lparr>threadTypeId = 1, self_id = of_nat t, has_allocate = True, has_free = True, has_wait = True\<rparr>"

lemma example_callers: "distinct_callers 2 example_caller" "mutex_fresh example_mutex"
  by (auto simp: distinct_callers_def example_caller_def less_2_cases_iff mutex_fresh_def example_mutex_def)

definition example_owned :: s2_mutex where
  "example_owned = write_owner (example_caller 0) 1 (example_mutex\<lparr>m_flags := 0x80\<rparr>)"

lemma example_lock: "(s2_mutex_step 2 example_caller)\<^sup>*\<^sup>* (example_mutex, \<lambda>_. MIdle) (example_owned, (\<lambda>_. MIdle)(0 := MOwner 1))"
proof -
  let ?T = "(\<lambda>_. MIdle)(0 := MTaking 1)"
  have "s2_mutex_step 2 example_caller (example_mutex, \<lambda>_. MIdle) (example_mutex\<lparr>m_flags := 0x80\<rparr>, ?T)"
    by (rule s2_mutex_step.lock[where count = 1 and wait = True and first = True and rcv = False])
       (simp_all add: mutex_lock_pass_def mutex_lock_check_def example_mutex_def example_caller_def can_block_def)
  moreover have "s2_mutex_step 2 example_caller (example_mutex\<lparr>m_flags := 0x80\<rparr>, ?T)
      (example_owned, (\<lambda>_. MIdle)(0 := MOwner 1))"
    using s2_mutex_step.owner[of 0 2 ?T 1 example_caller "example_mutex\<lparr>m_flags := 0x80\<rparr>"] by (simp add: example_owned_def)
  ultimately show ?thesis by (meson r_into_rtranclp rtranclp.rtrancl_into_rtrancl)
qed

lemma example_queue: "(s2_mutex_step 2 example_caller)\<^sup>*\<^sup>* (example_mutex, \<lambda>_. MIdle)
    (example_owned\<lparr>m_waiters := 1\<rparr>, (\<lambda>_. MIdle)(0 := MOwner 1, 1 := MQueued 1))"
proof -
  have "s2_mutex_step 2 example_caller (example_owned, (\<lambda>_. MIdle)(0 := MOwner 1))
      (example_owned\<lparr>m_waiters := 1\<rparr>, (\<lambda>_. MIdle)(0 := MOwner 1, 1 := MQueued 1))"
    by (rule s2_mutex_step.enqueue[where count = 1 and wait = True and first = False and rcv = True])
       (simp_all add: mutex_lock_pass_def example_owned_def write_owner_def owned_by_def example_mutex_def example_caller_def)
  with example_lock show ?thesis by (rule rtranclp.rtrancl_into_rtrancl)
qed

theorem s2_mutex_exclusive_witness:
  "\<exists>m. (s2_mutex_step 2 example_caller)\<^sup>*\<^sup>* (example_mutex, \<lambda>_. MIdle) (m, (\<lambda>_. MIdle)(0 := MOwner 1)) \<and>
    owned_by m (example_caller 0) \<and> m_count m = 1"
  using s2_mutex_exclusive[OF example_lock example_callers] example_lock by (intro exI[of _ example_owned]) (simp add: example_owned_def write_owner_def)

text \<open>No waiter of a mutex is forgotten: while a thread waits, exactly one thread has the mutex, and if that
  thread owns it, giving it up entirely keeps the mutex held and hands it over to a waiter instead of releasing it;
  if it is about to wake somebody, there is a thread to wake.\<close>

theorem s2_mutex_handover:
  assumes "(s2_mutex_step N caller)\<^sup>*\<^sup>* (m0, \<lambda>_. MIdle) (m, thr)" "distinct_callers N caller" "mutex_fresh m0"
    "u < N" "thr u = MQueued k"
  shows "\<exists>t < N. holding (thr t) \<and>
    (\<forall>d nts. thr t = MOwner d \<longrightarrow> (\<exists>m'. mutex_unlock_pass (Some (caller t)) nts True True m = Store m' (Inr (True, d)) \<and>
        m_flags m' = m_flags m \<and> m_flags m' AND HELD \<noteq> 0))"
proof -
  note inv = s2_mutex_reachable_inv[OF assms(1-3)]
  note I = s2_mutex_invD[OF inv]
  have q: "0 < number N queued thr" by (rule number_pos[of u N queued thr, OF assms(4)]) (simp add: assms(5))
  then have h: "m_flags m AND HELD \<noteq> 0" using I(6) by auto
  then obtain t where t: "t < N" "holding (thr t)" using I(1) number_ex[of N holding thr] by auto
  have "\<exists>m'. mutex_unlock_pass (Some (caller t)) nts True True m = Store m' (Inr (True, d)) \<and>
        m_flags m' = m_flags m \<and> m_flags m' AND HELD \<noteq> 0" if o: "thr t = MOwner d" for d nts
  proof -
    have v: "owned_by m (caller t)" "m_count m = d" using I(7)[OF t(1)] o by simp_all
    have "number N waking thr = 0"
    proof (rule number_none)
      fix v assume "v < N"
      then show "\<not> waking (thr v)" using others_not_holding[OF inv t(1), of v] t(2) o by (cases "v = t"; cases "thr v") auto
    qed
    then have "unat (m_signalled m) < unat (m_waiters m)" using I(2,3) q by linarith
    then have "int (unat (m_waiters m)) - int (unat (m_signalled m)) > 0" by linarith
    then show ?thesis using h v by (simp add: mutex_unlock_pass_def Let_def)
  qed
  with t show ?thesis by blast
qed

theorem s2_mutex_handover_witness:
  "\<exists>t < (2 :: nat). holding (((\<lambda>_. MIdle)(0 := MOwner 1, 1 := MQueued 1)) t)"
proof -
  have q: "(1 :: nat) < 2" "((\<lambda>_. MIdle)(0 := MOwner 1, 1 := MQueued 1)) (1 :: nat) = MQueued 1" by simp_all
  show ?thesis using s2_mutex_handover[OF example_queue example_callers q] by blast
qed

section \<open>Semaphore\<close>

text \<open>C16: The units of a semaphore are conserved, in both uses of its word: what it started with and was given is what
  was taken, what it counts and what it has handed to threads that are woken or about to be; with a single waiter,
  less what that waiter lacks. So no more is ever taken than there was, and the count stays in its bounds.\<close>

theorem s2_semaphore_conserves:
  assumes "(s2_sem_step N)\<^sup>*\<^sup>* x y" "sem_fresh i x"
  shows "acquired y \<le> i + released y \<and> unat (s_count (sem_line y)) \<le> COUNT_MAX \<and>
    (if s_max_waiters (sem_line y) = 1
     then i + released y + lack (s_word (sem_line y)) = acquired y + unat (s_count (sem_line y)) + total N sem_needs (sem_threads y)
     else i + released y = acquired y + unat (s_count (sem_line y)) + unat (s_signalled (sem_line y)))"
proof -
  note inv = sem_reachable_inv[OF assms]
  have c: "unat (s_count (sem_line y)) \<le> COUNT_MAX" using inv by (simp add: sem_inv_def)
  show ?thesis
  proof (cases "s_max_waiters (sem_line y) = 1")
    case True
    note J = single_invD[OF inv True]
    have "acquired y \<le> i + released y" using J(4,6) by linarith
    then show ?thesis using True c J(6) by simp
  next
    case False
    then have "counts_inv N i y" using inv by (simp add: sem_inv_def)
    then show ?thesis using False c by (simp add: counts_inv_def Let_def)
  qed
qed

definition example_semaphore :: "u16 \<Rightarrow> sem_sys" where
  "example_semaphore waiters = \<lparr>sem_line = \<lparr>s_count = 2, s_word = 0, s_thread_types = 0xff, s_max_waiters = waiters\<rparr>,
     sem_threads = (\<lambda>_. SIdle), acquired = 0, released = 0\<rparr>"

definition example_taken :: sem_sys where
  "example_taken = (example_semaphore 2)\<lparr>sem_line := (sem_line (example_semaphore 2))\<lparr>s_count := 0\<rparr>, acquired := Suc (Suc 0)\<rparr>"

lemma example_take: "(s2_sem_step 1)\<^sup>*\<^sup>* (example_semaphore 2) example_taken" "sem_fresh 2 (example_semaphore w)"
proof -
  let ?s = "sem_line (example_semaphore 2)"
  have "sem_acquire_check (Some (example_caller 0)) False 2 ?s = Inr True"
      "sem_acquire_pass False 2 False ?s = Store (?s\<lparr>s_count := 0\<rparr>) (Inr SemTaken)" "sem_threads (example_semaphore 2) 0 = SIdle"
    by (simp_all add: example_semaphore_def sem_acquire_check_def sem_acquire_pass_def example_caller_def)
  from s2_sem_step.take[OF _ this(3) this(1) refl this(2), of 1]
  show "(s2_sem_step 1)\<^sup>*\<^sup>* (example_semaphore 2) example_taken"
    by (intro r_into_rtranclp) (simp add: example_taken_def example_semaphore_def)
  show "sem_fresh 2 (example_semaphore w)" by (simp add: sem_fresh_def example_semaphore_def)
qed

theorem s2_semaphore_conserves_witness: "acquired example_taken = 2 \<and> (2 :: nat) \<le> 2 + released example_taken"
  using s2_semaphore_conserves[OF example_take] by (simp add: example_taken_def)

text \<open>No release halts the processor, wakes an empty queue or leaves a waiter behind: in every reachable state a
  release of an admissible number of units is refused exactly if the count would pass its bound, and otherwise stores,
  with no more wake-ups to be done than threads that wait; and while a thread waits whom nobody is about to wake,
  there are no units in the count.\<close>

theorem s2_semaphore_wakes:
  assumes "(s2_sem_step N)\<^sup>*\<^sup>* x y" "sem_fresh i x" "unat n \<le> COUNT_MAX"
  shows "(if COUNT_MAX < unat (s_count (sem_line y)) + unat n then sem_release_pass n (sem_line y) = Return (Inl S2_STAT)
      else \<exists>s' k. sem_release_pass n (sem_line y) = Store s' (Inr (SemWake k)) \<and>
        total N sem_wakes (sem_threads y) + k \<le> total N sem_queued (sem_threads y)) \<and>
    (total N sem_wakes (sem_threads y) < total N sem_queued (sem_threads y) \<longrightarrow> s_count (sem_line y) = 0)"
proof
  note inv = sem_reachable_inv[OF assms(1,2)]
  have c: "unat (s_count (sem_line y)) \<le> COUNT_MAX" using inv by (simp add: sem_inv_def)
  show "if COUNT_MAX < unat (s_count (sem_line y)) + unat n then sem_release_pass n (sem_line y) = Return (Inl S2_STAT)
      else \<exists>s' k. sem_release_pass n (sem_line y) = Store s' (Inr (SemWake k)) \<and>
        total N sem_wakes (sem_threads y) + k \<le> total N sem_queued (sem_threads y)"
    using release_too_many[OF c assms(3)] release_succeeds[OF inv assms(3)] by simp
  show "total N sem_wakes (sem_threads y) < total N sem_queued (sem_threads y) \<longrightarrow> s_count (sem_line y) = 0"
    using inv by (auto simp: sem_inv_def single_inv_def counts_inv_def Let_def split: if_splits)
qed

theorem s2_semaphore_wakes_witness:
  "\<exists>s' k. sem_release_pass 5 (sem_line example_taken) = Store s' (Inr (SemWake k))"
  using s2_semaphore_wakes[OF example_take, of 5] by (auto simp: example_taken_def)

end
