(* ===== verification/Sync2_Waiting.thy ===== *)
theory Sync2_Waiting
  imports Sync2_Base
begin

text \<open>
  \<open>sdk/libsync2/src/waiting_queue.c\<close>: the queue of blocked threads inside every libsync2 object.  Enter and
  wake-up run the same loop on different fields, so the loop is modelled once, for either side.  The
  pieces of the code between two accesses to shared memory are functions of what was read; threads that
  share a queue are a step relation over those accesses.
\<close>

section \<open>The header and the waiting buffer\<close>

record s2_queue_header =
  wake_ctl :: u16
  wake_idx :: u16
  enter_ctl :: u16
  enter_idx :: u16
  q_entries :: u16

record s2_entry =
  word0 :: u32
  word1 :: u32

datatype q_side = Enter | Wake

abbreviation (input) S2_PHASE :: u16 where "S2_PHASE \<equiv> 0x8000"
abbreviation (input) S2_COUNT :: u16 where "S2_COUNT \<equiv> 0x7fff"
abbreviation (input) S2_ENTRY_P :: u32 where "S2_ENTRY_P \<equiv> 0x80000000"
abbreviation (input) S2_ENTRY_S :: u32 where "S2_ENTRY_S \<equiv> 0x40000000"
abbreviation (input) S2_ENTRY_E :: u32 where "S2_ENTRY_E \<equiv> 0x20000000"
abbreviation (input) S2_ENTRY_TAG :: u32 where "S2_ENTRY_TAG \<equiv> 0x1ff00000"
abbreviation (input) S2_ENTRY_TLOG :: u32 where "S2_ENTRY_TLOG \<equiv> 0x000f0000"
abbreviation (input) S2_ENTRY_RECV :: u32 where "S2_ENTRY_RECV \<equiv> 0x0000ffff"

definition q_ctl :: "q_side \<Rightarrow> s2_queue_header \<Rightarrow> u16" where
  "q_ctl side h = (case side of Enter \<Rightarrow> enter_ctl h | Wake \<Rightarrow> wake_ctl h)"

definition q_idx :: "q_side \<Rightarrow> s2_queue_header \<Rightarrow> u32" where
  "q_idx side h = ucast (case side of Enter \<Rightarrow> enter_idx h | Wake \<Rightarrow> wake_idx h)"

definition q_phase :: "q_side \<Rightarrow> s2_queue_header \<Rightarrow> u32" where
  "q_phase side h = ucast (drop_bit 15 (q_ctl side h))"

text \<open>The bit of an entry that shows its lap: written for enter, signalled for wake-up.\<close>

definition q_bit :: "q_side \<Rightarrow> nat" where
  "q_bit side = (case side of Enter \<Rightarrow> 31 | Wake \<Rightarrow> 30)"

section \<open>Announcing and retiring\<close>

definition enter_announce :: "s2_queue_header \<Rightarrow> s2_queue_header" where
  "enter_announce h = h\<lparr>enter_ctl := (enter_ctl h AND S2_PHASE) OR ((enter_ctl h + 1) AND S2_COUNT)\<rparr>"

definition enter_retire :: "s2_queue_header \<Rightarrow> s2_queue_header" where
  "enter_retire h =
     (let ctl = (enter_ctl h AND S2_PHASE) OR ((enter_ctl h - 1) AND S2_COUNT);
          idx = q_idx Enter h + 1
      in if idx = ucast (q_entries h) then h\<lparr>enter_ctl := ctl XOR S2_PHASE, enter_idx := 0\<rparr>
         else h\<lparr>enter_ctl := ctl, enter_idx := ucast idx\<rparr>)"

text \<open>A wake-up is refused when it would run a whole lap ahead of the waiters; \<open>None\<close> is that refusal.\<close>

definition wake_announce :: "s2_queue_header \<Rightarrow> s2_queue_header option" where
  "wake_announce h =
     (let busy = ((wake_ctl h AND S2_COUNT) + 1) AND S2_COUNT;
          sum = q_idx Wake h + ucast busy;
          entries = ucast (q_entries h)
      in if sum mod entries = q_idx Enter h
            \<and> (q_phase Wake h XOR (if sum \<ge> entries then 1 else 0)) \<noteq> q_phase Enter h
         then None
         else Some (h\<lparr>wake_ctl := (wake_ctl h AND S2_PHASE) OR busy\<rparr>))"

definition wake_retire :: "bool \<Rightarrow> s2_queue_header \<Rightarrow> s2_queue_header" where
  "wake_retire rc_ok h =
     (let ctl = (wake_ctl h AND S2_PHASE) OR ((wake_ctl h - 1) AND S2_COUNT);
          idx = q_idx Wake h + 1
      in if \<not> rc_ok then h\<lparr>wake_ctl := ctl\<rparr>
         else if idx = ucast (q_entries h) then h\<lparr>wake_ctl := ctl XOR S2_PHASE, wake_idx := 0\<rparr>
         else h\<lparr>wake_ctl := ctl, wake_idx := ucast idx\<rparr>)"

section \<open>Claiming an entry\<close>

text \<open>Distance from one index forward to another.\<close>

definition queue_forward :: "u32 \<Rightarrow> u32 \<Rightarrow> u32 \<Rightarrow> u32" where
  "queue_forward from to entries = (if to \<ge> from then to - from else to + entries - from)"

definition scan_slot :: "u32 \<Rightarrow> u32 \<Rightarrow> u32 \<Rightarrow> u32 \<Rightarrow> u32 \<times> u32" where
  "scan_slot idx phase entries j =
     (let slot = idx + j in if slot \<ge> entries then (slot - entries, phase XOR 1) else (slot, phase))"

definition entry_shows :: "q_side \<Rightarrow> u32 \<Rightarrow> u32 \<Rightarrow> bool" where
  "entry_shows side w0 parity \<longleftrightarrow> drop_bit (q_bit side) w0 AND 1 = parity"

text \<open>\<open>entries_done\<close> over the words it reads, from the \<open>j\<close>-th entry on.\<close>

fun entries_done :: "q_side \<Rightarrow> u32 \<Rightarrow> u32 \<Rightarrow> u32 \<Rightarrow> u32 \<Rightarrow> u32 list \<Rightarrow> bool" where
  "entries_done side idx phase entries j [] = True"
| "entries_done side idx phase entries j (w0 # seen) =
     (if \<not> entry_shows side w0 (snd (scan_slot idx phase entries j)) then False
      else entries_done side idx phase entries (j + 1) seen)"

text \<open>
  The decision of a pass, from the entry's copy, the fresh header and what \<open>entries_done\<close> read: back to the top
  of the loop with a base and an offset, or claim the entry with a parity.
\<close>

datatype claim_next = GoOn u32 u32 | Claim u32

definition claim_pass :: "q_side \<Rightarrow> u32 \<Rightarrow> u32 \<Rightarrow> u32 \<Rightarrow> s2_entry \<Rightarrow> s2_queue_header \<Rightarrow> u32 list \<Rightarrow> claim_next" where
  "claim_pass side base i slot e h seen =
     (let idx = q_idx side h; phase = q_phase side h; entries = ucast (q_entries h);
          dist = queue_forward idx slot entries
      in if ucast (q_ctl side h AND S2_COUNT) \<le> dist \<or> \<not> entries_done side idx phase entries 0 seen
         then GoOn idx 0
         else let parity = phase XOR (if idx > slot then 1 else 0)
              in if entry_shows side (word0 e) parity
                 then (if idx \<noteq> base then GoOn idx 0 else GoOn base (i + 1))
                 else Claim parity)"

text \<open>What a claim writes: the waiter's type and receiver, unless the wake-up was there first; the flag says so.\<close>

definition enter_claim :: "u16 \<Rightarrow> u64 \<Rightarrow> u32 \<Rightarrow> s2_entry \<Rightarrow> s2_entry \<times> bool" where
  "enter_claim ty receiver parity e =
     (let w0 = word0 e; tlog = (of_nat (flog2 (unat ty)) :: u32)
      in if w0 AND S2_ENTRY_E \<noteq> 0
         then (\<lparr>word0 = (w0 AND (S2_ENTRY_S OR S2_ENTRY_TAG)) OR push_bit 31 parity, word1 = 0\<rparr>, True)
         else (\<lparr>word0 = (w0 AND (S2_ENTRY_S OR S2_ENTRY_TAG)) OR push_bit 31 parity OR push_bit 16 tlog
                          OR (ucast (drop_bit 32 receiver) AND S2_ENTRY_RECV),
                 word1 = ucast receiver\<rparr>, False))"

text \<open>The thread type and the receiver to signal, or nothing when the waiter has not written its entry.\<close>

definition wake_claim :: "u32 \<Rightarrow> s2_entry \<Rightarrow> s2_entry \<times> (u32 \<times> u64) option" where
  "wake_claim parity e =
     (let w0 = word0 e; tag = (w0 + 0x100000) AND S2_ENTRY_TAG
      in if entry_shows Enter w0 parity
         then (e\<lparr>word0 := (w0 AND NOT (S2_ENTRY_S OR S2_ENTRY_E OR S2_ENTRY_TAG)) OR push_bit 30 parity OR tag\<rparr>,
               Some (push_bit (unat (drop_bit 16 (w0 AND S2_ENTRY_TLOG))) 1,
                     push_bit 32 (ucast (w0 AND S2_ENTRY_RECV)) OR ucast (word1 e)))
         else (\<lparr>word0 = (w0 AND S2_ENTRY_P) OR push_bit 30 parity OR S2_ENTRY_E OR tag, word1 = 0\<rparr>, None))"

text \<open>The loop over the notifiers: the last one of the type counts.\<close>

fun find_notifier :: "s2_notifier list \<Rightarrow> u32 \<Rightarrow> s2_notifier option \<Rightarrow> s2_notifier option" where
  "find_notifier [] typeId found = found"
| "find_notifier (n # ns) typeId found = find_notifier ns typeId (if ucast (nt_threadTypeId n) = typeId then Some n else found)"

definition notifies :: "s2_notifier option \<Rightarrow> bool" where
  "notifies n \<longleftrightarrow> (case n of None \<Rightarrow> False | Some n \<Rightarrow> nt_sendSignal n)"

section \<open>Threads sharing a queue\<close>

text \<open>
  Where a thread stands: outside; counted as a waiter by the object; in the loop of either side (at its top, with an
  entry loaded and reserved, or reading the earlier entries); with an entry, as a waiter or as a waker; waiting for its
  signal; released; or about to wake, to send, or stopped by a failed wake-up.
\<close>

datatype wq_thread = WIdle | WRegistered | WLoop q_side u32 u32 | WLoaded q_side u32 u32 u32 s2_entry nat
  | WScan q_side u32 u32 u32 s2_entry nat s2_queue_header "u32 list"
  | WEntered nat bool | WWaiting nat | WAwake nat
  | WSignaller | WWoke nat "(u32 \<times> u64) option" | WSending nat u64 | WFailed

text \<open>
  The queue, the object's two counts (waiters, and waiters it has decided to wake), the signals sent and not yet
  received, and as history the threads that got entries with whether they found the mark, what each wake-up found,
  who made it, and which entries' threads are gone.  A counter per entry stands for the reservation on it.
\<close>

record wq_sys =
  wq_header :: s2_queue_header
  wq_buffer :: "nat \<Rightarrow> s2_entry"
  wq_stores :: "nat \<Rightarrow> nat"
  wq_threads :: "nat \<Rightarrow> wq_thread"
  wq_waiters :: nat
  wq_signalled :: nat
  wq_signals :: "u64 set"
  wq_entered :: "(nat \<times> bool) list"
  wq_woken :: "(u32 \<times> u64) option list"
  wq_wakers :: "nat list"
  wq_gone :: "nat set"

definition wq_set :: "nat \<Rightarrow> wq_thread \<Rightarrow> wq_sys \<Rightarrow> wq_sys" where
  "wq_set t s x = x\<lparr>wq_threads := (wq_threads x)(t := s)\<rparr>"

definition wq_store :: "nat \<Rightarrow> s2_entry \<Rightarrow> wq_sys \<Rightarrow> wq_sys" where
  "wq_store slot e x = x\<lparr>wq_buffer := (wq_buffer x)(slot := e), wq_stores := (wq_stores x)(slot := wq_stores x slot + 1)\<rparr>"

text \<open>Whether \<open>entries_done\<close> still has an entry to read.\<close>

definition scan_more :: "q_side \<Rightarrow> u32 \<Rightarrow> s2_queue_header \<Rightarrow> u32 list \<Rightarrow> bool" where
  "scan_more side slot h seen \<longleftrightarrow>
     (let dist = queue_forward (q_idx side h) slot (ucast (q_entries h))
      in \<not> ucast (q_ctl side h AND S2_COUNT) \<le> dist \<and> length seen < unat dist)"

text \<open>
  One access of thread \<open>t\<close>, with the choice the environment has: whether an idle thread waits or wakes, and whether
  a conditional store is let through, which it can be only if the entry was not stored to since it was loaded.
\<close>

definition wq_move :: "(nat \<Rightarrow> u16) \<Rightarrow> (nat \<Rightarrow> u64) \<Rightarrow> s2_notifier list \<Rightarrow> nat \<Rightarrow> bool \<Rightarrow> wq_sys \<Rightarrow> wq_sys option" where
  "wq_move typeOf receiverOf nts t choice x =
     (let h = wq_header x in
      case wq_threads x t of
        WIdle \<Rightarrow>
          if choice
          then if wq_waiters x + 1 < unat (q_entries h) then Some (wq_set t WRegistered (x\<lparr>wq_waiters := wq_waiters x + 1\<rparr>)) else None
          else if wq_signalled x < wq_waiters x then Some (wq_set t WSignaller (x\<lparr>wq_signalled := wq_signalled x + 1\<rparr>)) else None
      | WRegistered \<Rightarrow> Some (wq_set t (WLoop Enter (q_idx Enter h) 0) (x\<lparr>wq_header := enter_announce h\<rparr>))
      | WSignaller \<Rightarrow>
          (case wake_announce h of
             None \<Rightarrow> Some (wq_set t WFailed x)
           | Some h' \<Rightarrow> Some (wq_set t (WLoop Wake (q_idx Wake h) 0) (x\<lparr>wq_header := h'\<rparr>)))
      | WLoop side base i \<Rightarrow>
          (let slot = (base + i) mod ucast (q_entries h)
           in Some (wq_set t (WLoaded side base i slot (wq_buffer x (unat slot)) (wq_stores x (unat slot))) x))
      | WLoaded side base i slot e v \<Rightarrow> Some (wq_set t (WScan side base i slot e v h []) x)
      | WScan side base i slot e v h' seen \<Rightarrow>
          if scan_more side slot h' seen
          then Some (wq_set t (WScan side base i slot e v h' (seen @
                 [word0 (wq_buffer x (unat (fst (scan_slot (q_idx side h') (q_phase side h') (ucast (q_entries h')) (of_nat (length seen))))))])) x)
          else (case claim_pass side base i slot e h' seen of
                  GoOn base i \<Rightarrow> Some (wq_set t (WLoop side base i) x)
                | Claim parity \<Rightarrow>
                    if \<not> (choice \<and> wq_stores x (unat slot) = v) then Some (wq_set t (WLoop side base i) x)
                    else (case side of
                        Enter \<Rightarrow> (case enter_claim (typeOf t) (receiverOf t) parity e of (e', signalled) \<Rightarrow>
                          Some (wq_set t (WEntered (length (wq_entered x)) signalled)
                            (wq_store (unat slot) e' (x\<lparr>wq_entered := wq_entered x @ [(t, signalled)]\<rparr>))))
                      | Wake \<Rightarrow> (case wake_claim parity e of (e', found) \<Rightarrow>
                          Some (wq_set t (WWoke (length (wq_woken x)) found)
                            (wq_store (unat slot) e' (x\<lparr>wq_woken := wq_woken x @ [found], wq_wakers := wq_wakers x @ [t]\<rparr>))))))
      | WEntered k signalled \<Rightarrow> Some (wq_set t (if signalled then WAwake k else WWaiting k) (x\<lparr>wq_header := enter_retire h\<rparr>))
      | WWaiting k \<Rightarrow>
          if receiverOf t \<in> wq_signals x then Some (wq_set t (WAwake k) (x\<lparr>wq_signals := wq_signals x - {receiverOf t}\<rparr>)) else None
      | WAwake k \<Rightarrow>
          Some (wq_set t WIdle (x\<lparr>wq_waiters := wq_waiters x - 1, wq_signalled := wq_signalled x - 1, wq_gone := insert k (wq_gone x)\<rparr>))
      | WWoke k found \<Rightarrow>
          (case found of
             None \<Rightarrow> Some (wq_set t WIdle (x\<lparr>wq_header := wake_retire True h\<rparr>))
           | Some (typeId, receiver) \<Rightarrow>
               if notifies (find_notifier nts typeId None)
               then Some (wq_set t (WSending k receiver) (x\<lparr>wq_header := wake_retire True h\<rparr>))
               else Some (wq_set t WFailed (x\<lparr>wq_header := wake_retire False h\<rparr>)))
      | WSending k receiver \<Rightarrow> Some (wq_set t WIdle (x\<lparr>wq_signals := insert receiver (wq_signals x)\<rparr>))
      | WFailed \<Rightarrow> None)"

inductive wq_step :: "nat \<Rightarrow> (nat \<Rightarrow> u16) \<Rightarrow> (nat \<Rightarrow> u64) \<Rightarrow> s2_notifier list \<Rightarrow> wq_sys \<Rightarrow> wq_sys \<Rightarrow> bool"
  for N typeOf receiverOf nts where
  move: "t < N \<Longrightarrow> wq_move typeOf receiverOf nts t choice x = Some y \<Longrightarrow> wq_step N typeOf receiverOf nts x y"

text \<open>A queue as the test of the sources sets it up: an empty buffer, both phases set.\<close>

definition wq_start :: "u16 \<Rightarrow> wq_sys" where
  "wq_start entries = \<lparr>wq_header = \<lparr>wake_ctl = S2_PHASE, wake_idx = 0, enter_ctl = S2_PHASE, enter_idx = 0, q_entries = entries\<rparr>,
     wq_buffer = (\<lambda>_. \<lparr>word0 = 0, word1 = 0\<rparr>), wq_stores = (\<lambda>_. 0), wq_threads = (\<lambda>_. WIdle),
     wq_waiters = 0, wq_signalled = 0, wq_signals = {}, wq_entered = [], wq_woken = [], wq_wakers = [], wq_gone = {}\<rparr>"

end
