(* ===== verification/Sync2_Waiting_Pos.thy ===== *)
theory Sync2_Waiting_Pos
  imports Sync2_Waiting
begin

text \<open>
  The waiting queue's words read as positions: an index and a phase name a position modulo two laps, and
  the bits of the buffer's entries show how far a side has come.
\<close>

section \<open>Laps\<close>

lemma lap_step:
  fixes B d n :: nat
  assumes "d < n"
  shows "(B + d) mod n = (if B mod n + d < n then B mod n + d else B mod n + d - n)"
    "(B + d) div n = B div n + (if B mod n + d < n then 0 else 1)"
proof -
  define k r where kr: "k = B div n" "r = B mod n"
  have B: "B + d = k * n + (r + d)" using div_mult_mod_eq[of B n] by (simp add: kr)
  have r: "r < n" using assms by (simp add: kr)
  have m: "(r + d) mod n = (if r + d < n then r + d else r + d - n)"
  proof (cases "r + d < n")
    case False
    then have "(r + d) mod n = (r + d - n) mod n" by (simp add: le_mod_geq)
    then show ?thesis using False r assms by simp
  qed simp
  have v: "(r + d) div n = (if r + d < n then 0 else 1)"
  proof (cases "r + d < n")
    case False
    then have "(r + d) div n = Suc ((r + d - n) div n)" using r by (intro le_div_geq) simp_all
    moreover have "(r + d - n) div n = 0" using r assms by (intro div_less) linarith
    ultimately show ?thesis using False by simp
  qed simp
  have n0: "n \<noteq> 0" using assms by simp
  show "(B + d) mod n = (if B mod n + d < n then B mod n + d else B mod n + d - n)"
    unfolding B kr(2)[symmetric] mod_mult_self3 by (rule m)
  show "(B + d) div n = B div n + (if B mod n + d < n then 0 else 1)"
    unfolding B kr[symmetric] div_mult_self3[OF n0] v by simp
qed

lemma same_slot_far:
  fixes p q n :: nat
  assumes "p mod n = q mod n" "p < q" shows "p + n \<le> q"
proof -
  have "(q - p) mod n = 0" using assms by (metis less_imp_le mod_eq_dvd_iff_nat mod_eq_0_iff_dvd)
  then have "n dvd q - p" by (simp add: mod_eq_0_iff_dvd)
  then have "n \<le> q - p" using assms(2) by (auto dest: dvd_imp_le)
  then show ?thesis using assms(2) by linarith
qed

text \<open>Marks: each of the last \<open>n\<close> positions before \<open>W\<close> shows the parity of its lap.\<close>

definition marks_upto :: "nat \<Rightarrow> nat \<Rightarrow> (nat \<Rightarrow> bool) \<Rightarrow> bool" where
  "marks_upto n W b \<longleftrightarrow> (\<forall>q. W \<le> q + n \<longrightarrow> q < W \<longrightarrow> b (q mod n) = odd (q div n))"

lemma marks_read:
  assumes "marks_upto n W b" "n \<le> W" "0 < n" "W \<le> p + n" "p < W + n"
  shows "b (p mod n) = odd (p div n) \<longleftrightarrow> p < W"
proof
  show "b (p mod n) = odd (p div n)" if "p < W" using assms(1,4) that by (simp add: marks_upto_def)
  show "p < W" if e: "b (p mod n) = odd (p div n)"
  proof (rule ccontr)
    assume "\<not> p < W"
    then have p: "n \<le> p" "p - n < W" "W \<le> (p - n) + n" using assms(2,5) by linarith+
    have "(p - n) mod n = p mod n" "p div n = Suc ((p - n) div n)"
      using p(1) assms(3) by (simp_all add: le_mod_geq le_div_geq)
    moreover have "b ((p - n) mod n) = odd ((p - n) div n)" using assms(1) p(2,3) unfolding marks_upto_def by blast
    ultimately show False using e by simp
  qed
qed

lemma marks_write:
  assumes "marks_upto n W b" "0 < n" "\<And>s. s < n \<Longrightarrow> s \<noteq> W mod n \<Longrightarrow> b' s = b s" "b' (W mod n) = odd (W div n)"
  shows "marks_upto n (W + 1) b'"
  unfolding marks_upto_def
proof (intro allI impI)
  fix q assume q: "W + 1 \<le> q + n" "q < W + 1"
  show "b' (q mod n) = odd (q div n)"
  proof (cases "q = W")
    case False
    then have "q mod n \<noteq> W mod n" using q same_slot_far[of q n W] by auto
    then show ?thesis using assms(1-3) q False by (simp add: marks_upto_def)
  qed (simp add: assms(4))
qed

lemma marks_cong: "marks_upto n W b \<Longrightarrow> 0 < n \<Longrightarrow> (\<And>s. s < n \<Longrightarrow> b' s = b s) \<Longrightarrow> marks_upto n W b'"
  by (simp add: marks_upto_def)

section \<open>The header\<close>

definition at_pos :: "q_side \<Rightarrow> nat \<Rightarrow> nat \<Rightarrow> s2_queue_header \<Rightarrow> bool" where
  "at_pos side B c h \<longleftrightarrow> unat (q_idx side h) = B mod unat (q_entries h) \<and> (bit (q_ctl side h) 15 \<longleftrightarrow> odd (B div unat (q_entries h)))
     \<and> unat (q_ctl side h AND S2_COUNT) = c"

lemma ctl_masks: "(S2_COUNT :: u16) = mask 15" "(S2_PHASE :: u16) = push_bit 15 1"
  by (simp_all add: mask_eq_exp_minus_1)

lemma ctl_bit:
  "bit ((c AND S2_PHASE) OR (d AND S2_COUNT)) 15 = bit c 15" "((c AND S2_PHASE) OR (d AND S2_COUNT)) AND S2_COUNT = d AND S2_COUNT"
  "bit (((c AND S2_PHASE) OR (d AND S2_COUNT)) XOR S2_PHASE) 15 = (\<not> bit c 15)"
  "(((c AND S2_PHASE) OR (d AND S2_COUNT)) XOR S2_PHASE) AND S2_COUNT = d AND S2_COUNT" for c d :: u16
proof -
  show "bit ((c AND S2_PHASE) OR (d AND S2_COUNT)) 15 = bit c 15"
    "bit (((c AND S2_PHASE) OR (d AND S2_COUNT)) XOR S2_PHASE) 15 = (\<not> bit c 15)"
    unfolding ctl_masks by (simp_all add: bit_simps)
  show "((c AND S2_PHASE) OR (d AND S2_COUNT)) AND S2_COUNT = d AND S2_COUNT"
    "(((c AND S2_PHASE) OR (d AND S2_COUNT)) XOR S2_PHASE) AND S2_COUNT = d AND S2_COUNT"
    unfolding ctl_masks by (rule bit_word_eqI, auto simp only: bit_simps)+
qed

lemma ctl_up: "unat (c AND S2_COUNT) = k \<Longrightarrow> k + 1 < 2 ^ 15 \<Longrightarrow> unat ((c + 1) AND S2_COUNT) = k + 1" for c :: u16
proof -
  assume a: "unat (c AND S2_COUNT) = k" "k + 1 < 2 ^ 15"
  have k: "unat c mod 2 ^ 15 = k" using a(1) unfolding ctl_masks by (simp add: unat_and_mask)
  have "unat ((c + 1) AND S2_COUNT) = unat (c + 1) mod 2 ^ 15" unfolding ctl_masks by (simp add: unat_and_mask)
  also have "\<dots> = (unat c + 1) mod 2 ^ 15" by (simp add: unat_word_ariths mod_mod_cancel)
  also have "\<dots> = (unat c mod 2 ^ 15 + 1) mod 2 ^ 15" by (simp add: mod_simps)
  finally show ?thesis using k a(2) by simp
qed

lemma ctl_down: "unat (c AND S2_COUNT) = Suc k \<Longrightarrow> unat ((c - 1) AND S2_COUNT) = k" for c :: u16
proof -
  assume a: "unat (c AND S2_COUNT) = Suc k"
  have k: "unat c mod 2 ^ 15 = Suc k" using a unfolding ctl_masks by (simp add: unat_and_mask)
  have "0 < unat c" using k by (metis mod_0 not_gr_zero nat.distinct(1))
  then have "unat (c - 1) = unat c - 1" by (simp add: unat_minus_one unat_gt_0)
  moreover have "unat c = (unat c div 2 ^ 15) * 2 ^ 15 + Suc k" using k by (metis div_mult_mod_eq)
  ultimately have "unat (c - 1) = k + (unat c div 2 ^ 15) * 2 ^ 15" by linarith
  moreover have "k < 2 ^ 15" using k using mod_less_divisor[of "2 ^ 15" "unat c"] by simp
  ultimately have "unat (c - 1) mod 2 ^ 15 = k" by simp
  then show ?thesis unfolding ctl_masks by (simp add: unat_and_mask)
qed

lemma retire_step:
  fixes idx entries :: u16
  assumes "unat idx = B mod unat entries" "1 < unat entries" "bit c 15 \<longleftrightarrow> odd (B div unat entries)" "unat (c AND S2_COUNT) = Suc k"
  defines "ctl \<equiv> (c AND S2_PHASE) OR ((c - 1) AND S2_COUNT)"
  shows "(ucast idx + 1 = (ucast entries :: u32)) = (Suc (B mod unat entries) = unat entries)"
    "ucast idx + 1 = (ucast entries :: u32) \<Longrightarrow> Suc B mod unat entries = 0 \<and>
       (bit (ctl XOR S2_PHASE) 15 \<longleftrightarrow> odd (Suc B div unat entries)) \<and> unat ((ctl XOR S2_PHASE) AND S2_COUNT) = k"
    "ucast idx + 1 \<noteq> (ucast entries :: u32) \<Longrightarrow> unat (ucast (ucast idx + 1 :: u32) :: u16) = Suc B mod unat entries \<and>
       (bit ctl 15 \<longleftrightarrow> odd (Suc B div unat entries)) \<and> unat (ctl AND S2_COUNT) = k"
proof -
  let ?n = "unat entries"
  have lt: "B mod ?n < ?n" "?n < 2 ^ 16" using assms(2) unsigned_less[of entries] by simp_all
  have u: "unat (ucast idx + 1 :: u32) = Suc (B mod ?n)" using assms(1) lt
    by (subst unat_plus_small) (simp_all add: unsigned_ucast_eq take_bit_eq_mod)
  have e: "unat (ucast entries :: u32) = ?n" using lt by (simp add: unsigned_ucast_eq take_bit_eq_mod)
  show iff: "(ucast idx + 1 = (ucast entries :: u32)) = (Suc (B mod ?n) = ?n)"
    unfolding word_unat_eq_iff u e ..
  have k: "unat (ctl AND S2_COUNT) = k" "unat ((ctl XOR S2_PHASE) AND S2_COUNT) = k"
    unfolding ctl_def ctl_bit using ctl_down[OF assms(4)] by simp_all
  have b: "bit ctl 15 = bit c 15" "bit (ctl XOR S2_PHASE) 15 = (\<not> bit c 15)" unfolding ctl_def ctl_bit by simp_all
  note L = lap_step[OF assms(2), of B]
  show "Suc B mod ?n = 0 \<and> (bit (ctl XOR S2_PHASE) 15 \<longleftrightarrow> odd (Suc B div ?n)) \<and> unat ((ctl XOR S2_PHASE) AND S2_COUNT) = k"
    if "ucast idx + 1 = (ucast entries :: u32)"
    using that L k(2) b(2) assms(3) unfolding iff by simp
  show "unat (ucast (ucast idx + 1 :: u32) :: u16) = Suc B mod ?n \<and> (bit ctl 15 \<longleftrightarrow> odd (Suc B div ?n)) \<and> unat (ctl AND S2_COUNT) = k"
    if ne: "ucast idx + 1 \<noteq> (ucast entries :: u32)"
  proof -
    have l: "Suc (B mod ?n) < ?n" using ne lt unfolding iff by simp
    have "unat (ucast (ucast idx + 1 :: u32) :: u16) = Suc (B mod ?n)"
      using u l lt by (simp add: unsigned_ucast_eq take_bit_eq_mod)
    then show ?thesis using L l k(1) b(1) assms(3) by simp
  qed
qed

lemma enter_announce_pos:
  assumes "at_pos Enter B c h" "c + 1 < 2 ^ 15"
  shows "at_pos Enter B (c + 1) (enter_announce h)" "at_pos Wake W d (enter_announce h) = at_pos Wake W d h"
    "q_entries (enter_announce h) = q_entries h"
proof -
  have "unat ((enter_ctl h + 1) AND S2_COUNT) = c + 1"
    by (rule ctl_up) (use assms in \<open>simp_all add: at_pos_def q_ctl_def\<close>)
  then show "at_pos Enter B (c + 1) (enter_announce h)"
    using assms(1) by (simp add: at_pos_def q_ctl_def q_idx_def enter_announce_def ctl_bit)
  show "at_pos Wake W d (enter_announce h) = at_pos Wake W d h" "q_entries (enter_announce h) = q_entries h"
    by (simp_all add: at_pos_def q_ctl_def q_idx_def enter_announce_def)
qed

lemma enter_retire_pos:
  assumes "at_pos Enter B (Suc c) h" "1 < unat (q_entries h)"
  shows "at_pos Enter (Suc B) c (enter_retire h)" "at_pos Wake W d (enter_retire h) = at_pos Wake W d h"
    "q_entries (enter_retire h) = q_entries h"
proof -
  have a: "unat (enter_idx h) = B mod unat (q_entries h)" "bit (enter_ctl h) 15 \<longleftrightarrow> odd (B div unat (q_entries h))"
      "unat (enter_ctl h AND S2_COUNT) = Suc c"
    using assms(1) by (simp_all add: at_pos_def q_ctl_def q_idx_def)
  note R = retire_step[OF a(1) assms(2) a(2,3)]
  show "at_pos Enter (Suc B) c (enter_retire h)"
  proof (cases "ucast (enter_idx h) + 1 = (ucast (q_entries h) :: u32)")
    case True
    then show ?thesis using R(2) by (simp add: at_pos_def q_ctl_def q_idx_def enter_retire_def Let_def)
  next
    case False
    then show ?thesis using R(3) by (simp add: at_pos_def q_ctl_def q_idx_def enter_retire_def Let_def)
  qed
  show "at_pos Wake W d (enter_retire h) = at_pos Wake W d h" "q_entries (enter_retire h) = q_entries h"
    by (simp_all add: at_pos_def q_ctl_def q_idx_def enter_retire_def Let_def)
qed

lemma wake_retire_pos:
  assumes "at_pos Wake B (Suc c) h" "1 < unat (q_entries h)"
  shows "at_pos Wake (Suc B) c (wake_retire True h)" "at_pos Enter W d (wake_retire True h) = at_pos Enter W d h"
    "q_entries (wake_retire True h) = q_entries h"
proof -
  have a: "unat (wake_idx h) = B mod unat (q_entries h)" "bit (wake_ctl h) 15 \<longleftrightarrow> odd (B div unat (q_entries h))"
      "unat (wake_ctl h AND S2_COUNT) = Suc c"
    using assms(1) by (simp_all add: at_pos_def q_ctl_def q_idx_def)
  note R = retire_step[OF a(1) assms(2) a(2,3)]
  show "at_pos Wake (Suc B) c (wake_retire True h)"
  proof (cases "ucast (wake_idx h) + 1 = (ucast (q_entries h) :: u32)")
    case True
    then show ?thesis using R(2) by (simp add: at_pos_def q_ctl_def q_idx_def wake_retire_def Let_def)
  next
    case False
    then show ?thesis using R(3) by (simp add: at_pos_def q_ctl_def q_idx_def wake_retire_def Let_def)
  qed
  show "at_pos Enter W d (wake_retire True h) = at_pos Enter W d h" "q_entries (wake_retire True h) = q_entries h"
    by (simp_all add: at_pos_def q_ctl_def q_idx_def wake_retire_def Let_def)
qed

lemma wake_announce_pos:
  assumes "at_pos Wake B c h" "c + 1 < 2 ^ 15" "wake_announce h = Some h'"
  shows "at_pos Wake B (c + 1) h'" "at_pos Enter W d h' = at_pos Enter W d h" "q_entries h' = q_entries h"
proof -
  let ?busy = "((wake_ctl h AND S2_COUNT) + 1) AND S2_COUNT"
  have h': "h' = h\<lparr>wake_ctl := (wake_ctl h AND S2_PHASE) OR ?busy\<rparr>"
    using assms(3) by (auto simp: wake_announce_def Let_def split: if_splits)
  have c: "unat ((wake_ctl h AND S2_COUNT) AND S2_COUNT) = c"
    using assms(1) by (simp add: at_pos_def q_ctl_def and.assoc)
  then have "unat ?busy = c + 1" by (rule ctl_up) (use assms(2) in simp)
  then show "at_pos Wake B (c + 1) h'"
    using assms(1) by (simp add: at_pos_def q_ctl_def q_idx_def h' ctl_bit)
  show "at_pos Enter W d h' = at_pos Enter W d h" "q_entries h' = q_entries h"
    by (simp_all add: at_pos_def q_ctl_def q_idx_def h')
qed

section \<open>The claim\<close>

lemma entry_shows_bit: "entry_shows side w (of_bool b) \<longleftrightarrow> bit w (q_bit side) = b"
  unfolding entry_shows_def and_one_eq mod_2_eq_odd bit_iff_odd_drop_bit[of w] by (cases b) simp_all

lemma q_phase_bit: "q_phase side h = of_bool (bit (q_ctl side h) 15)"
proof (rule bit_word_eqI)
  fix k assume k: "k < LENGTH(32)"
  have "bit (q_phase side h) k \<longleftrightarrow> bit (q_ctl side h) (15 + k)" using k by (simp add: q_phase_def bit_simps)
  then show "bit (q_phase side h) k = bit (of_bool (bit (q_ctl side h) 15) :: u32) k"
    using bit_imp_le_length[of "q_ctl side h" "15 + k"] by (cases "k = 0") (auto simp: bit_simps)
qed

lemma of_bool_flip: "(of_bool b XOR 1 :: u32) = of_bool (\<not> b)"
  by (cases b) simp_all

text \<open>A side that stands at a position sees a slot as the position some steps on, with that position's parity.\<close>

lemma slot_pos:
  assumes "at_pos side B c h" "unat slot < unat (q_entries h)"
  defines "n \<equiv> unat (q_entries h)" and "d \<equiv> unat (queue_forward (q_idx side h) slot (ucast (q_entries h)))"
  shows "d < n" "unat slot = (B + d) mod n" "q_phase side h XOR (if q_idx side h > slot then 1 else 0) = of_bool (odd ((B + d) div n))"
proof -
  have n: "n < 2 ^ 16" "0 < n" "unat (ucast (q_entries h) :: u32) = n"
    using unsigned_less[of "q_entries h"] assms(2) by (simp_all add: n_def)
  have i: "unat (q_idx side h) = B mod n" "B mod n < n" using assms(1) n(2) by (simp_all add: at_pos_def n_def)
  have d: "d = (if B mod n \<le> unat slot then unat slot - B mod n else unat slot + n - B mod n)"
  proof (cases "B mod n \<le> unat slot")
    case True
    then show ?thesis using i(1) by (simp add: d_def queue_forward_def word_le_nat_alt unat_sub)
  next
    case False
    have "unat (slot + ucast (q_entries h)) = unat slot + n"
      by (subst unat_plus_small) (use assms(2) n in \<open>simp_all add: n_def\<close>)
    moreover have "unat (slot + ucast (q_entries h) - q_idx side h) = unat (slot + ucast (q_entries h)) - unat (q_idx side h)"
      by (rule unat_sub) (use calculation False i in \<open>simp add: word_le_nat_alt\<close>)
    ultimately show ?thesis using False i n by (simp add: d_def queue_forward_def word_le_nat_alt)
  qed
  have sl: "unat slot < n" using assms(2) by (simp add: n_def)
  have wrap: "B mod n + d < n \<longleftrightarrow> B mod n \<le> unat slot" "B mod n + d = (if B mod n \<le> unat slot then unat slot else unat slot + n)"
    and dn: "d < n"
  proof -
    have "B mod n + d = (if B mod n \<le> unat slot then unat slot else unat slot + n) \<and> d < n \<and> (B mod n + d < n \<longleftrightarrow> B mod n \<le> unat slot)"
    proof (cases "B mod n \<le> unat slot")
      case True
      then have "d = unat slot - B mod n" by (simp only: d if_True)
      then have "B mod n + d = unat slot" "d < n" using True sl by linarith+
      then show ?thesis using True sl by (simp only: if_True simp_thms)
    next
      case False
      then have "d = unat slot + n - B mod n" by (simp only: d if_False)
      then have "B mod n + d = unat slot + n" "d < n" using False i(2) by linarith+
      then show ?thesis using False by (simp only: if_False simp_thms)
    qed
    then show "B mod n + d < n \<longleftrightarrow> B mod n \<le> unat slot"
      "B mod n + d = (if B mod n \<le> unat slot then unat slot else unat slot + n)" "d < n" by blast+
  qed
  show "d < n" by (rule dn)
  show "unat slot = (B + d) mod n" using lap_step(1)[OF dn, of B] sl unfolding wrap by (auto split: if_splits)
  have gt: "q_idx side h > slot \<longleftrightarrow> unat slot < B mod n" using i(1) by (simp add: word_less_nat_alt)
  have ph: "q_phase side h = of_bool (odd (B div n))" using assms(1) by (simp add: q_phase_bit at_pos_def n_def)
  show "q_phase side h XOR (if q_idx side h > slot then 1 else 0) = of_bool (odd ((B + d) div n))"
    using lap_step(2)[OF dn, of B] sl unfolding gt ph wrap by (auto simp: of_bool_flip)
qed

lemma scan_slot_pos:
  assumes "at_pos side B c h" "j < unat (q_entries h)"
  defines "n \<equiv> unat (q_entries h)"
  shows "unat (fst (scan_slot (q_idx side h) (q_phase side h) (ucast (q_entries h)) (of_nat j))) = (B + j) mod n"
    "snd (scan_slot (q_idx side h) (q_phase side h) (ucast (q_entries h)) (of_nat j)) = of_bool (odd ((B + j) div n))"
proof -
  have n: "n < 2 ^ 16" "0 < n" "unat (ucast (q_entries h) :: u32) = n"
    using unsigned_less[of "q_entries h"] assms(2) by (simp_all add: n_def)
  have i: "unat (q_idx side h) = B mod n" "B mod n < n" using assms(1) n(2) by (simp_all add: at_pos_def n_def)
  have j: "unat (of_nat j :: u32) = j" using assms(2) n(1) by (simp add: n_def unat_of_nat)
  have u: "unat (q_idx side h + of_nat j) = B mod n + j"
  proof -
    have "B mod n < 2 ^ 16" "j < 2 ^ 16" using i(2) n(1) assms(2) by (simp_all only: n_def less_trans)
    then have "B mod n + j < 2 ^ 32" by simp
    then show ?thesis by (subst unat_plus_small) (simp_all add: i j)
  qed
  have ge: "q_idx side h + of_nat j \<ge> ucast (q_entries h) \<longleftrightarrow> \<not> B mod n + j < n"
    unfolding word_le_nat_alt u n(3) by linarith
  have ph: "q_phase side h = of_bool (odd (B div n))" using assms(1) by (simp add: q_phase_bit at_pos_def n_def)
  have jn: "j < n" using assms(2) by (simp add: n_def)
  show "unat (fst (scan_slot (q_idx side h) (q_phase side h) (ucast (q_entries h)) (of_nat j))) = (B + j) mod n"
  proof (cases "B mod n + j < n")
    case False
    then have "unat (q_idx side h + of_nat j - ucast (q_entries h)) = B mod n + j - n"
      using ge u n(3) by (subst unat_sub) simp_all
    then show ?thesis using False ge lap_step(1)[OF jn, of B] by (simp add: scan_slot_def Let_def)
  qed (use ge u lap_step(1)[OF jn, of B] in \<open>simp add: scan_slot_def Let_def\<close>)
  show "snd (scan_slot (q_idx side h) (q_phase side h) (ucast (q_entries h)) (of_nat j)) = of_bool (odd ((B + j) div n))"
    using lap_step(2)[OF jn, of B] ge unfolding scan_slot_def Let_def ph by (simp add: of_bool_flip)
qed

lemma entries_done_pos:
  assumes "at_pos side B c h" "j + length seen \<le> unat (q_entries h)"
  shows "entries_done side (q_idx side h) (q_phase side h) (ucast (q_entries h)) (of_nat j) seen \<longleftrightarrow>
    (\<forall>k < length seen. bit (seen ! k) (q_bit side) = odd ((B + (j + k)) div unat (q_entries h)))"
  using assms(2)
proof (induction seen arbitrary: j)
  case (Cons w seen)
  have j: "(of_nat j :: u32) + 1 = of_nat (Suc j)" by simp
  have "entries_done side (q_idx side h) (q_phase side h) (ucast (q_entries h)) (of_nat (Suc j)) seen \<longleftrightarrow>
      (\<forall>k < length seen. bit (seen ! k) (q_bit side) = odd ((B + (Suc j + k)) div unat (q_entries h)))"
    by (rule Cons.IH) (use Cons.prems in simp)
  moreover have "snd (scan_slot (q_idx side h) (q_phase side h) (ucast (q_entries h)) (of_nat j)) = of_bool (odd ((B + j) div unat (q_entries h)))"
    by (rule scan_slot_pos(2)[OF assms(1)]) (use Cons.prems in simp)
  ultimately show ?case unfolding entries_done.simps j by (simp add: All_less_Suc2 entry_shows_bit)
qed simp

text \<open>So a pass claims an entry only in the window of its side, with the entries before it done and the entry not.\<close>

lemma claim_pass_pos:
  assumes "at_pos side B c h" "unat slot < unat (q_entries h)" "\<not> scan_more side slot h seen"
    "length seen \<le> unat (queue_forward (q_idx side h) slot (ucast (q_entries h)))" "claim_pass side base i slot e h seen = Claim parity"
  defines "n \<equiv> unat (q_entries h)"
  shows "\<exists>d < n. unat slot = (B + d) mod n \<and> parity = of_bool (odd ((B + d) div n)) \<and> length seen = d \<and>
     bit (word0 e) (q_bit side) \<noteq> odd ((B + d) div n) \<and>
     (\<forall>k < d. bit (seen ! k) (q_bit side) = odd ((B + k) div n)) \<and> d = unat (queue_forward (q_idx side h) slot (ucast (q_entries h)))"
proof -
  let ?d = "unat (queue_forward (q_idx side h) slot (ucast (q_entries h)))"
  note S = slot_pos[OF assms(1,2)]
  have f: "\<not> ucast (q_ctl side h AND S2_COUNT) \<le> queue_forward (q_idx side h) slot (ucast (q_entries h))"
      "entries_done side (q_idx side h) (q_phase side h) (ucast (q_entries h)) 0 seen"
      "parity = of_bool (odd ((B + ?d) div n))" "\<not> entry_shows side (word0 e) parity"
    using assms(5) S(3) by (auto simp: claim_pass_def Let_def n_def split: if_splits)
  have l: "length seen = ?d" using assms(3,4) f(1) by (simp add: scan_more_def Let_def)
  have "\<forall>k < ?d. bit (seen ! k) (q_bit side) = odd ((B + k) div n)"
    using entries_done_pos[OF assms(1), of 0 seen] f(2) S(1) l by (simp add: n_def)
  moreover have "bit (word0 e) (q_bit side) \<noteq> odd ((B + ?d) div n)" using f(4) unfolding f(3) entry_shows_bit .
  ultimately show ?thesis using S f(3) l by (intro exI[of _ ?d]) (simp add: n_def)
qed

section \<open>What a claim writes\<close>

lemma entry_mask_bits:
  "bit (S2_ENTRY_P :: u32) k \<longleftrightarrow> k = 31" "bit (S2_ENTRY_S :: u32) k \<longleftrightarrow> k = 30" "bit (S2_ENTRY_E :: u32) k \<longleftrightarrow> k = 29"
  "bit (S2_ENTRY_TAG :: u32) k \<longleftrightarrow> 20 \<le> k \<and> k < 29" "bit (S2_ENTRY_TLOG :: u32) k \<longleftrightarrow> 16 \<le> k \<and> k < 20"
  "bit (S2_ENTRY_RECV :: u32) k \<longleftrightarrow> k < 16"
proof -
  have "bit (push_bit 31 1 :: u32) k \<longleftrightarrow> k = 31" "bit (push_bit 30 1 :: u32) k \<longleftrightarrow> k = 30" "bit (push_bit 29 1 :: u32) k \<longleftrightarrow> k = 29"
    "bit (push_bit 20 (mask 9) :: u32) k \<longleftrightarrow> 20 \<le> k \<and> k < 29" "bit (push_bit 16 (mask 4) :: u32) k \<longleftrightarrow> 16 \<le> k \<and> k < 20"
    "bit (mask 16 :: u32) k \<longleftrightarrow> k < 16"
    by (auto simp only: bit_simps) simp_all
  then show "bit (S2_ENTRY_P :: u32) k \<longleftrightarrow> k = 31" "bit (S2_ENTRY_S :: u32) k \<longleftrightarrow> k = 30" "bit (S2_ENTRY_E :: u32) k \<longleftrightarrow> k = 29"
    "bit (S2_ENTRY_TAG :: u32) k \<longleftrightarrow> 20 \<le> k \<and> k < 29" "bit (S2_ENTRY_TLOG :: u32) k \<longleftrightarrow> 16 \<le> k \<and> k < 20"
    "bit (S2_ENTRY_RECV :: u32) k \<longleftrightarrow> k < 16"
    by (simp_all add: mask_eq_exp_minus_1)
qed

lemma parity_bits: "bit (push_bit m (of_bool b) :: u32) k \<longleftrightarrow> b \<and> k = m \<and> m < 32"
  by (auto simp: bit_simps)

definition entry_receiver :: "s2_entry \<Rightarrow> u32 \<times> u64" where
  "entry_receiver e = (push_bit (unat (drop_bit 16 (word0 e AND S2_ENTRY_TLOG))) 1,
     push_bit 32 (ucast (word0 e AND S2_ENTRY_RECV)) OR ucast (word1 e))"

lemma early_bit: "w AND S2_ENTRY_E \<noteq> 0 \<longleftrightarrow> bit w 29" for w :: u32
proof
  assume nz: "w AND S2_ENTRY_E \<noteq> 0"
  show "bit w 29"
  proof (rule ccontr)
    assume "\<not> bit w 29"
    then have "w AND S2_ENTRY_E = 0"
      by (intro bit_word_eqI) (auto simp only: bit_and_iff entry_mask_bits bit_0_eq bot_apply bot_bool_def)
    then show False using nz by simp
  qed
next
  assume "bit w 29"
  then have "bit (w AND S2_ENTRY_E) 29" by (simp only: bit_and_iff entry_mask_bits simp_thms)
  then show "w AND S2_ENTRY_E \<noteq> 0" by (metis bit_0_eq bot_apply bot_bool_def)
qed

lemma high_bits_zero: "unat x < 2 ^ m \<Longrightarrow> m \<le> k \<Longrightarrow> \<not> bit x k" for x :: "'a :: len word"
proof -
  assume a: "unat x < 2 ^ m" "m \<le> k"
  have "x AND mask m = x" using a(1) by (simp add: word_unat_eq_iff unat_and_mask)
  then show ?thesis using a(2) by (metis bit_and_iff bit_mask_iff leD)
qed

lemma enter_claim_bits:
  assumes "enter_claim ty r (of_bool b) e = (e', sig)" "flog2 (unat ty) < 16"
  shows "sig = bit (word0 e) 29" "bit (word0 e') 31 = b" "bit (word0 e') 30 = bit (word0 e) 30" "bit (word0 e') 29 = False"
proof -
  have tl: "\<not> bit (push_bit 16 (of_nat (flog2 (unat ty))) :: u32) k" if "20 \<le> k" for k
  proof -
    have "\<not> bit (of_nat (flog2 (unat ty)) :: u32) (k - 16)"
      by (rule high_bits_zero[where m = 4]) (use that assms(2) in \<open>simp_all add: unat_of_nat\<close>)
    then show ?thesis by (simp add: bit_push_bit_iff)
  qed
  show "sig = bit (word0 e) 29" using assms(1) by (auto simp: enter_claim_def Let_def early_bit split: if_splits)
  have w: "word0 e' = (if bit (word0 e) 29
      then (word0 e AND (S2_ENTRY_S OR S2_ENTRY_TAG)) OR push_bit 31 (of_bool b)
      else (word0 e AND (S2_ENTRY_S OR S2_ENTRY_TAG)) OR push_bit 31 (of_bool b) OR push_bit 16 (of_nat (flog2 (unat ty)))
             OR (ucast (drop_bit 32 r) AND S2_ENTRY_RECV))"
    using assms(1) unfolding enter_claim_def Let_def early_bit by (auto split: if_splits)
  show "bit (word0 e') 31 = b" "bit (word0 e') 30 = bit (word0 e) 30" "bit (word0 e') 29 = False"
    unfolding w using tl by (cases "bit (word0 e) 29"; simp only: if_True if_False bit_or_iff bit_and_iff entry_mask_bits parity_bits; simp)+
qed

lemma enter_claim_receiver:
  assumes "enter_claim ty r (of_bool b) e = (e', False)" "ty = push_bit j 1" "j < 16" "unat r < 2 ^ 48"
  shows "entry_receiver e' = (push_bit j 1, r)"
proof -
  have "unat (push_bit j 1 :: u16) = unat (1 :: u16) * 2 ^ j"
    by (rule unat_shiftl_small) (use power_strict_increasing[OF assms(3), of "2 :: nat"] in simp)
  then have "unat ty = 2 ^ j" using assms(2) by (simp only: unsigned_1 mult_1)
  then have fl: "flog2 (unat ty) = j" by simp
  have w: "word0 e' = (word0 e AND (S2_ENTRY_S OR S2_ENTRY_TAG)) OR push_bit 31 (of_bool b) OR push_bit 16 (of_nat j)
             OR (ucast (drop_bit 32 r) AND S2_ENTRY_RECV)" and w1: "word1 e' = ucast r"
    using assms(1) unfolding enter_claim_def Let_def fl by (auto split: if_splits)
  have jbits: "\<not> bit (of_nat j :: u32) k" if "4 \<le> k" for k
    by (rule high_bits_zero[where m = 4]) (use that assms(3) in \<open>simp_all add: unat_of_nat\<close>)
  have "drop_bit 16 (word0 e' AND S2_ENTRY_TLOG) = of_nat j"
  proof (rule bit_word_eqI)
    fix k assume k: "k < LENGTH(32)"
    have "bit (drop_bit 16 (word0 e' AND S2_ENTRY_TLOG)) k \<longleftrightarrow> k < 4 \<and> bit (of_nat j :: u32) k"
      unfolding w using k
      by (auto simp only: bit_drop_bit_eq comp_apply bit_or_iff bit_and_iff entry_mask_bits parity_bits bit_push_bit_iff; simp)
    then show "bit (drop_bit 16 (word0 e' AND S2_ENTRY_TLOG)) k = bit (of_nat j :: u32) k" using jbits[of k] by (cases "k < 4") auto
  qed
  moreover have "unat (of_nat j :: u32) = j" using assms(3) by (simp add: unat_of_nat)
  moreover have "push_bit 32 (ucast (word0 e' AND S2_ENTRY_RECV)) OR ucast (word1 e') = r"
  proof (rule bit_word_eqI)
    fix k assume k: "k < LENGTH(64)"
    have rb: "\<not> bit r k" if "48 \<le> k" by (rule high_bits_zero[OF assms(4) that])
    have x: "bit (word0 e' AND S2_ENTRY_RECV) m \<longleftrightarrow> m < 16 \<and> bit r (32 + m)" for m
      unfolding w
      by (auto simp only: bit_or_iff bit_and_iff entry_mask_bits parity_bits bit_push_bit_iff bit_unsigned_iff bit_drop_bit_eq comp_apply; simp)
    have "bit (push_bit 32 (ucast (word0 e' AND S2_ENTRY_RECV)) :: u64) k \<longleftrightarrow> 32 \<le> k \<and> bit (word0 e' AND S2_ENTRY_RECV) (k - 32)"
      using k by (auto simp: bit_push_bit_iff bit_unsigned_iff)
    moreover have "bit (ucast (word1 e') :: u64) k \<longleftrightarrow> k < 32 \<and> bit r k"
      using k by (auto simp: w1 bit_unsigned_iff dest: bit_imp_le_length)
    ultimately show "bit (push_bit 32 (ucast (word0 e' AND S2_ENTRY_RECV)) OR ucast (word1 e') :: u64) k = bit r k"
      using x[of "k - 32"] rb unfolding bit_or_iff by (cases "k < 32"; cases "48 \<le> k") auto
  qed
  ultimately show ?thesis by (simp add: entry_receiver_def)
qed

lemma wake_claim_bits:
  assumes "wake_claim (of_bool b) e = (e', found)"
  shows "found = (if bit (word0 e) 31 = b then Some (entry_receiver e) else None)" "bit (word0 e') 31 = bit (word0 e) 31" "bit (word0 e') 30 = b"
    "bit (word0 e') 29 = (bit (word0 e) 31 \<noteq> b)"
proof -
  have s: "entry_shows Enter (word0 e) (of_bool b) \<longleftrightarrow> bit (word0 e) 31 = b" using entry_shows_bit[of Enter] by (simp add: q_bit_def)
  show "found = (if bit (word0 e) 31 = b then Some (entry_receiver e) else None)"
    using assms by (auto simp: wake_claim_def Let_def s entry_receiver_def split: if_splits)
  have w: "word0 e' = (if bit (word0 e) 31 = b
      then (word0 e AND NOT (S2_ENTRY_S OR S2_ENTRY_E OR S2_ENTRY_TAG)) OR push_bit 30 (of_bool b) OR ((word0 e + 0x100000) AND S2_ENTRY_TAG)
      else (word0 e AND S2_ENTRY_P) OR push_bit 30 (of_bool b) OR S2_ENTRY_E OR ((word0 e + 0x100000) AND S2_ENTRY_TAG))"
    using assms unfolding wake_claim_def Let_def s by (auto split: if_splits)
  show "bit (word0 e') 31 = bit (word0 e) 31" "bit (word0 e') 30 = b" "bit (word0 e') 29 = (bit (word0 e) 31 \<noteq> b)"
    unfolding w by (cases "bit (word0 e) 31 = b"; simp only: if_True if_False bit_or_iff bit_and_iff bit_not_iff entry_mask_bits parity_bits;
      auto dest: bit_imp_le_length)+
qed

end
