(* ===== verification/Sync2_Waiting_Inv.thy ===== *)
theory Sync2_Waiting_Inv
  imports Sync2_Waiting_Pos
begin

text \<open>
  The invariant of threads sharing a waiting queue.  Positions number the entries handed out on either side; the
  first is \<open>n\<close>, the number of entries, so that a position's lap is its quotient by \<open>n\<close>.
\<close>

section \<open>What is counted\<close>

fun in_side :: "q_side \<Rightarrow> wq_thread \<Rightarrow> bool" where
  "in_side side (WLoop s b i) = (s = side)"
| "in_side side (WLoaded s b i slot e v) = (s = side)"
| "in_side side (WScan s b i slot e v h seen) = (s = side)"
| "in_side side (WEntered k f) = (side = Enter)"
| "in_side side (WWoke k f) = (side = Wake)"
| "in_side side s = False"

fun has_claimed :: "q_side \<Rightarrow> wq_thread \<Rightarrow> bool" where
  "has_claimed side (WEntered k f) = (side = Enter)"
| "has_claimed side (WWoke k f) = (side = Wake)"
| "has_claimed side s = False"

fun is_resting :: "wq_thread \<Rightarrow> bool" where
  "is_resting (WWaiting k) = True" | "is_resting (WAwake k) = True" | "is_resting s = False"

fun is_registered :: "wq_thread \<Rightarrow> bool" where
  "is_registered WRegistered = True" | "is_registered s = False"

fun is_signaller :: "wq_thread \<Rightarrow> bool" where
  "is_signaller WSignaller = True" | "is_signaller WFailed = True" | "is_signaller s = False"

definition wq_n :: "wq_sys \<Rightarrow> nat" where
  "wq_n x = unat (q_entries (wq_header x))"

text \<open>The next position of a side.\<close>

definition next_pos :: "q_side \<Rightarrow> wq_sys \<Rightarrow> nat" where
  "next_pos side x = wq_n x + (case side of Enter \<Rightarrow> length (wq_entered x) | Wake \<Rightarrow> length (wq_woken x))"

text \<open>
  The header's fields count the retired and the announced of each side, and the object's counts account for every
  thread; \<open>base\<close> are the positions the header's indices stand for.
\<close>

definition wq_counts :: "nat \<Rightarrow> (q_side \<Rightarrow> nat) \<Rightarrow> wq_sys \<Rightarrow> bool" where
  "wq_counts N base x \<longleftrightarrow>
     1 < wq_n x \<and>
     (\<forall>side. at_pos side (base side) (number N (in_side side) (wq_threads x)) (wq_header x)) \<and>
     (\<forall>side. next_pos side x = base side + number N (has_claimed side) (wq_threads x)) \<and>
     (\<forall>side. next_pos side x \<le> base side + wq_n x) \<and>
     wq_n x + card (wq_gone x) + number N is_resting (wq_threads x) = base Enter \<and>
     wq_waiters x = number N is_registered (wq_threads x) + number N (in_side Enter) (wq_threads x) + number N is_resting (wq_threads x) \<and>
     wq_signalled x + card (wq_gone x) + wq_n x = number N is_signaller (wq_threads x) + number N (in_side Wake) (wq_threads x) + base Wake \<and>
     wq_signalled x \<le> wq_waiters x \<and> wq_waiters x < wq_n x \<and> finite (wq_gone x) \<and> wq_gone x \<subseteq> {..<length (wq_woken x)}"

lemmas wq_numbers = number_update[where P = "in_side Enter"] number_update[where P = "in_side Wake"]
  number_update[where P = "has_claimed Enter"] number_update[where P = "has_claimed Wake"] number_update[where P = is_resting]
  number_update[where P = is_registered] number_update[where P = is_signaller]

lemma all_sides: "(\<forall>side. P side) \<longleftrightarrow> P Enter \<and> P Wake"
  by (metis q_side.exhaust)

lemma number_le: "number N P thr \<le> N"
proof -
  have "{t. t < N \<and> P (thr t)} \<subseteq> {..<N}" by auto
  then have "card {t. t < N \<and> P (thr t)} \<le> card {..<N}" by (rule card_mono[rotated]) simp
  then show ?thesis by (simp add: number_def)
qed

lemma claimed_in_side: "number N (has_claimed side) thr \<le> number N (in_side side) thr"
proof -
  have "has_claimed side s \<Longrightarrow> in_side side s" for s by (cases s) auto
  then have "{t. t < N \<and> has_claimed side (thr t)} \<subseteq> {t. t < N \<and> in_side side (thr t)}" by auto
  then show ?thesis unfolding number_def by (rule card_mono[rotated]) simp
qed

text \<open>So neither side gets a lap ahead of the other.\<close>

lemma gone_le: "wq_counts N base x \<Longrightarrow> card (wq_gone x) \<le> length (wq_woken x)"
  using card_mono[of "{..<length (wq_woken x)}" "wq_gone x"] by (simp add: wq_counts_def)

lemma sides_close:
  assumes "wq_counts N base x"
  shows "next_pos Enter x < next_pos Wake x + wq_n x" "next_pos Wake x < next_pos Enter x + wq_n x"
    "base Wake + number N (in_side Wake) (wq_threads x) < base Enter + wq_n x"
    "base Enter + number N (in_side Enter) (wq_threads x) < next_pos Wake x + wq_n x"
proof -
  note I = assms[unfolded wq_counts_def all_sides]
  have c: "number N (has_claimed side) (wq_threads x) \<le> number N (in_side side) (wq_threads x)" for side by (rule claimed_in_side)
  have w: "wq_n x + length (wq_woken x) = next_pos Wake x" by (simp add: next_pos_def)
  show e: "base Enter + number N (in_side Enter) (wq_threads x) < next_pos Wake x + wq_n x"
    using I gone_le[OF assms] w by linarith
  show b: "base Wake + number N (in_side Wake) (wq_threads x) < base Enter + wq_n x" using I by linarith
  show "next_pos Enter x < next_pos Wake x + wq_n x" using I c[of Enter] e by linarith
  show "next_pos Wake x < next_pos Enter x + wq_n x" using I c[of Wake] b by linarith
qed

section \<open>What the buffer shows\<close>

definition wq_ident :: "(nat \<Rightarrow> u16) \<Rightarrow> (nat \<Rightarrow> u64) \<Rightarrow> nat \<Rightarrow> u32 \<times> u64" where
  "wq_ident typeOf receiverOf t = (ucast (typeOf t), receiverOf t)"

definition shown :: "wq_sys \<Rightarrow> nat \<Rightarrow> nat \<Rightarrow> bool" where
  "shown x b slot = bit (word0 (wq_buffer x slot)) b"

text \<open>
  The entries show how far either side has come, the mark stands exactly on the entries signalled and not yet
  written, and an entry written and not yet signalled has its thread's type and receiver.
\<close>

definition wq_entries_show :: "(nat \<Rightarrow> u16) \<Rightarrow> (nat \<Rightarrow> u64) \<Rightarrow> wq_sys \<Rightarrow> bool" where
  "wq_entries_show typeOf receiverOf x \<longleftrightarrow>
     (\<forall>side. marks_upto (wq_n x) (next_pos side x) (shown x (q_bit side))) \<and>
     (\<forall>q. next_pos Enter x \<le> q \<longrightarrow> q < next_pos Enter x + wq_n x \<longrightarrow> shown x 29 (q mod wq_n x) = (q < next_pos Wake x)) \<and>
     (\<forall>q. next_pos Wake x \<le> q \<longrightarrow> q < next_pos Enter x \<longrightarrow>
        entry_receiver (wq_buffer x (q mod wq_n x)) = wq_ident typeOf receiverOf (fst (wq_entered x ! (q - wq_n x))))"

text \<open>The history: the \<open>k\<close>-th wake-up found the \<open>k\<close>-th waiter, or came first and left the mark the waiter found.\<close>

definition wq_paired :: "(nat \<Rightarrow> u16) \<Rightarrow> (nat \<Rightarrow> u64) \<Rightarrow> wq_sys \<Rightarrow> bool" where
  "wq_paired typeOf receiverOf x \<longleftrightarrow>
     (\<forall>k < length (wq_woken x). wq_woken x ! k =
        (if k < length (wq_entered x) \<and> \<not> snd (wq_entered x ! k) then Some (wq_ident typeOf receiverOf (fst (wq_entered x ! k))) else None)) \<and>
     (\<forall>k < length (wq_entered x). snd (wq_entered x ! k) \<longrightarrow> k < length (wq_woken x))"

section \<open>What a thread in the loop knows\<close>

text \<open>
  As long as the loaded entry was not stored to: it is as loaded; and if it does not show the parity of the position
  the header gave it, the side has not come past that position, and has come past the positions found done.
\<close>

definition scan_knows :: "(q_side \<Rightarrow> nat) \<Rightarrow> wq_sys \<Rightarrow> q_side \<Rightarrow> u32 \<Rightarrow> s2_entry \<Rightarrow> nat \<Rightarrow> s2_queue_header \<Rightarrow> u32 list \<Rightarrow> bool" where
  "scan_knows base x side slot e v h seen \<longleftrightarrow>
     (\<exists>B c. q_entries h = q_entries (wq_header x) \<and> at_pos side B c h \<and> B \<le> base side \<and>
        length seen \<le> unat (queue_forward (q_idx side h) slot (ucast (q_entries h))) \<and>
        (let p = B + unat (queue_forward (q_idx side h) slot (ucast (q_entries h)))
         in wq_stores x (unat slot) = v \<longrightarrow> bit (word0 e) (q_bit side) \<noteq> odd (p div wq_n x) \<longrightarrow>
            next_pos side x \<le> p \<and>
            ((\<forall>k < length seen. bit (seen ! k) (q_bit side) = odd ((B + k) div wq_n x)) \<longrightarrow> B + length seen \<le> next_pos side x)))"

definition entry_loaded :: "wq_sys \<Rightarrow> u32 \<Rightarrow> s2_entry \<Rightarrow> nat \<Rightarrow> bool" where
  "entry_loaded x slot e v \<longleftrightarrow> unat slot < wq_n x \<and> v \<le> wq_stores x (unat slot) \<and>
     (wq_stores x (unat slot) = v \<longrightarrow> wq_buffer x (unat slot) = e)"

fun wq_local :: "(q_side \<Rightarrow> nat) \<Rightarrow> wq_sys \<Rightarrow> wq_thread \<Rightarrow> bool" where
  "wq_local base x (WLoaded side b i slot e v) = entry_loaded x slot e v"
| "wq_local base x (WScan side b i slot e v h seen) = (entry_loaded x slot e v \<and> scan_knows base x side slot e v h seen)"
| "wq_local base x s = True"

section \<open>Who waits and who is on the way\<close>

definition awaiting :: "wq_sys \<Rightarrow> nat \<Rightarrow> bool" where
  "awaiting x k \<longleftrightarrow> k < length (wq_entered x) \<and>
     (wq_threads x (fst (wq_entered x ! k)) = WEntered k False \<or> wq_threads x (fst (wq_entered x ! k)) = WWaiting k)"

definition underway :: "wq_sys \<Rightarrow> nat \<Rightarrow> bool" where
  "underway x k \<longleftrightarrow> k < length (wq_woken x) \<and>
     ((\<exists>f. wq_threads x (wq_wakers x ! k) = WWoke k f) \<or> (\<exists>r. wq_threads x (wq_wakers x ! k) = WSending k r))"

text \<open>The entry a thread has as a waiter.\<close>

fun keeps :: "wq_thread \<Rightarrow> nat option" where
  "keeps (WEntered k f) = Some k" | "keeps (WWaiting k) = Some k" | "keeps (WAwake k) = Some k" | "keeps s = None"

fun wq_holds :: "wq_sys \<Rightarrow> nat \<Rightarrow> wq_thread \<Rightarrow> bool" where
  "wq_holds x t (WEntered k f) = (k < length (wq_entered x) \<and> wq_entered x ! k = (t, f) \<and> k \<notin> wq_gone x)"
| "wq_holds x t (WWaiting k) = (k < length (wq_entered x) \<and> wq_entered x ! k = (t, False) \<and> k \<notin> wq_gone x)"
| "wq_holds x t (WAwake k) = (k < length (wq_entered x) \<and> fst (wq_entered x ! k) = t \<and> k \<notin> wq_gone x \<and> k < length (wq_woken x))"
| "wq_holds x t (WWoke k f) = (k < length (wq_woken x) \<and> wq_woken x ! k = f \<and> wq_wakers x ! k = t)"
| "wq_holds x t (WSending k r) = (k < length (wq_woken x) \<and> map_option snd (wq_woken x ! k) = Some r \<and> wq_wakers x ! k = t)"
| "wq_holds x t s = True"

text \<open>
  A signal that is sent is for a thread that waits and whose waker is through; a waker with a receiver has a thread
  that waits; and a thread that waits for a wake-up already made has a signal or its waker on the way.
\<close>

definition wq_tokens :: "nat \<Rightarrow> (nat \<Rightarrow> u64) \<Rightarrow> wq_sys \<Rightarrow> bool" where
  "wq_tokens N receiverOf x \<longleftrightarrow>
     (\<forall>t < N. wq_holds x t (wq_threads x t)) \<and> length (wq_wakers x) = length (wq_woken x) \<and>
     (\<forall>k < length (wq_entered x). fst (wq_entered x ! k) < N) \<and> (\<forall>k < length (wq_wakers x). wq_wakers x ! k < N) \<and>
     wq_gone x \<subseteq> {..<length (wq_entered x)} \<and>
     (\<forall>k < length (wq_entered x). k \<notin> wq_gone x \<longrightarrow> keeps (wq_threads x (fst (wq_entered x ! k))) = Some k) \<and>
     (\<forall>r \<in> wq_signals x. \<exists>k. awaiting x k \<and> k < length (wq_woken x) \<and> r = receiverOf (fst (wq_entered x ! k)) \<and> \<not> underway x k) \<and>
     (\<forall>k. underway x k \<longrightarrow> wq_woken x ! k \<noteq> None \<longrightarrow> awaiting x k) \<and>
     (\<forall>k < length (wq_woken x). awaiting x k \<longrightarrow> underway x k \<or> receiverOf (fst (wq_entered x ! k)) \<in> wq_signals x)"

definition wq_inv :: "nat \<Rightarrow> (nat \<Rightarrow> u16) \<Rightarrow> (nat \<Rightarrow> u64) \<Rightarrow> wq_sys \<Rightarrow> bool" where
  "wq_inv N typeOf receiverOf x \<longleftrightarrow>
     (\<exists>base. wq_counts N base x \<and> (\<forall>t < N. wq_local base x (wq_threads x t))) \<and>
     wq_entries_show typeOf receiverOf x \<and> wq_paired typeOf receiverOf x \<and> wq_tokens N receiverOf x"

section \<open>Frames\<close>

lemma wq_set_simps [simp]:
  "wq_header (wq_set t s x) = wq_header x" "wq_buffer (wq_set t s x) = wq_buffer x" "wq_stores (wq_set t s x) = wq_stores x"
  "wq_threads (wq_set t s x) = (wq_threads x)(t := s)" "wq_waiters (wq_set t s x) = wq_waiters x" "wq_signalled (wq_set t s x) = wq_signalled x"
  "wq_signals (wq_set t s x) = wq_signals x" "wq_entered (wq_set t s x) = wq_entered x" "wq_woken (wq_set t s x) = wq_woken x"
  "wq_wakers (wq_set t s x) = wq_wakers x" "wq_gone (wq_set t s x) = wq_gone x" "wq_n (wq_set t s x) = wq_n x"
  "next_pos side (wq_set t s x) = next_pos side x"
  by (simp_all add: wq_set_def wq_n_def next_pos_def split: q_side.split)

lemma wq_store_simps [simp]:
  "wq_header (wq_store i e x) = wq_header x" "wq_buffer (wq_store i e x) = (wq_buffer x)(i := e)"
  "wq_stores (wq_store i e x) = (wq_stores x)(i := wq_stores x i + 1)"
  "wq_threads (wq_store i e x) = wq_threads x" "wq_waiters (wq_store i e x) = wq_waiters x" "wq_signalled (wq_store i e x) = wq_signalled x"
  "wq_signals (wq_store i e x) = wq_signals x" "wq_entered (wq_store i e x) = wq_entered x" "wq_woken (wq_store i e x) = wq_woken x"
  "wq_wakers (wq_store i e x) = wq_wakers x" "wq_gone (wq_store i e x) = wq_gone x" "wq_n (wq_store i e x) = wq_n x"
  "next_pos side (wq_store i e x) = next_pos side x"
  by (simp_all add: wq_store_def wq_n_def next_pos_def split: q_side.split)

lemma wq_update_simps [simp]:
  "wq_n (x\<lparr>wq_waiters := a\<rparr>) = wq_n x" "next_pos side (x\<lparr>wq_waiters := a\<rparr>) = next_pos side x"
  "wq_n (x\<lparr>wq_signalled := a\<rparr>) = wq_n x" "next_pos side (x\<lparr>wq_signalled := a\<rparr>) = next_pos side x"
  "wq_n (x\<lparr>wq_signals := r\<rparr>) = wq_n x" "next_pos side (x\<lparr>wq_signals := r\<rparr>) = next_pos side x"
  "wq_n (x\<lparr>wq_gone := g\<rparr>) = wq_n x" "next_pos side (x\<lparr>wq_gone := g\<rparr>) = next_pos side x"
  "wq_n (x\<lparr>wq_wakers := l\<rparr>) = wq_n x" "next_pos side (x\<lparr>wq_wakers := l\<rparr>) = next_pos side x"
  "wq_n (x\<lparr>wq_entered := en\<rparr>) = wq_n x" "wq_n (x\<lparr>wq_woken := wo\<rparr>) = wq_n x"
  by (simp_all add: wq_n_def next_pos_def split: q_side.split)

lemma next_pos_append [simp]:
  "next_pos Enter (x\<lparr>wq_entered := wq_entered x @ [a]\<rparr>) = Suc (next_pos Enter x)" "next_pos Wake (x\<lparr>wq_entered := en\<rparr>) = next_pos Wake x"
  "next_pos Wake (x\<lparr>wq_woken := wq_woken x @ [b]\<rparr>) = Suc (next_pos Wake x)" "next_pos Enter (x\<lparr>wq_woken := wo\<rparr>) = next_pos Enter x"
  by (simp_all add: next_pos_def)

lemma wq_header_simps:
  "q_entries h = q_entries (wq_header x) \<Longrightarrow> wq_n (x\<lparr>wq_header := h\<rparr>) = wq_n x"
  "q_entries h = q_entries (wq_header x) \<Longrightarrow> next_pos side (x\<lparr>wq_header := h\<rparr>) = next_pos side x"
  by (simp_all add: wq_n_def next_pos_def split: q_side.split)

lemma counts_frame:
  assumes "wq_counts N base x" "t < N" "\<And>side. in_side side s = in_side side (wq_threads x t)"
    "\<And>side. has_claimed side s = has_claimed side (wq_threads x t)" "is_resting s = is_resting (wq_threads x t)"
    "is_registered s = is_registered (wq_threads x t)" "is_signaller s = is_signaller (wq_threads x t)"
  shows "wq_counts N base (wq_set t s x)"
  using assms(1,3-7) wq_numbers[OF assms(2), of "wq_threads x" s] unfolding wq_counts_def all_sides by simp

lemma scan_frame:
  assumes "scan_knows base x side slot e v h seen" "q_entries (wq_header y) = q_entries (wq_header x)" "wq_stores y = wq_stores x"
    "next_pos side y = next_pos side x" "base side \<le> base' side"
  shows "scan_knows base' y side slot e v h seen"
proof -
  have "wq_n y = wq_n x" using assms(2) by (simp add: wq_n_def)
  then show ?thesis
    using assms(1) le_trans[OF _ assms(5)] unfolding scan_knows_def Let_def assms(2-4) by metis
qed

lemma local_frame:
  assumes "wq_local base x s" "q_entries (wq_header y) = q_entries (wq_header x)" "wq_stores y = wq_stores x" "wq_buffer y = wq_buffer x"
    "\<And>side. next_pos side y = next_pos side x" "\<And>side. base side \<le> base' side"
  shows "wq_local base' y s"
proof -
  have "wq_n y = wq_n x" using assms(2) by (simp add: wq_n_def)
  then show ?thesis
    using assms scan_frame[of base x _ _ _ _ _ _ y base'] by (cases s) (auto simp: entry_loaded_def)
qed

lemma locals_frame:
  assumes "\<forall>u < N. wq_local base x (wq_threads x u)" "q_entries (wq_header y) = q_entries (wq_header x)" "wq_stores y = wq_stores x"
    "wq_buffer y = wq_buffer x" "\<And>side. next_pos side y = next_pos side x" "\<And>side. base side \<le> base' side"
    "wq_threads y = (wq_threads x)(t := s)" "wq_local base' y s"
  shows "\<forall>u < N. wq_local base' y (wq_threads y u)"
  using assms local_frame[of base x _ y base'] by (simp add: assms(7))

lemma shows_frame:
  assumes "wq_entries_show typeOf receiverOf x" "wq_n y = wq_n x" "wq_buffer y = wq_buffer x"
    "wq_entered y = wq_entered x" "wq_woken y = wq_woken x"
  shows "wq_entries_show typeOf receiverOf y"
proof -
  have "next_pos side y = next_pos side x" for side using assms by (simp add: next_pos_def split: q_side.split)
  moreover have "shown y b slot = shown x b slot" for b slot using assms by (simp add: shown_def)
  ultimately show ?thesis using assms(1) unfolding wq_entries_show_def by (simp add: assms marks_upto_def)
qed

lemma paired_frame: "wq_paired typeOf receiverOf x \<Longrightarrow> wq_entered y = wq_entered x \<Longrightarrow> wq_woken y = wq_woken x \<Longrightarrow> wq_paired typeOf receiverOf y"
  by (simp add: wq_paired_def)

text \<open>A thread that neither waits nor is on the way.\<close>

fun quiet :: "wq_thread \<Rightarrow> bool" where
  "quiet (WEntered k f) = False" | "quiet (WWaiting k) = False" | "quiet (WWoke k f) = False" | "quiet (WSending k r) = False"
| "quiet s = True"

lemma quiet_awaiting:
  assumes "quiet s" "quiet (wq_threads x t)" "wq_threads y = (wq_threads x)(t := s)" "wq_entered y = wq_entered x" "wq_woken y = wq_woken x"
    "wq_wakers y = wq_wakers x"
  shows "awaiting y k = awaiting x k" "underway y k = underway x k"
  using assms(1,2) unfolding awaiting_def underway_def assms(3-6) by auto

lemma tokens_cong:
  assumes "wq_tokens N receiverOf x" "wq_threads y = (wq_threads x)(t := s)" "wq_entered y = wq_entered x"
    "wq_woken y = wq_woken x" "wq_wakers y = wq_wakers x" "wq_signals y = wq_signals x"
    "\<And>k. awaiting y k = awaiting x k" "\<And>k. underway y k = underway x k" "\<And>u. u < N \<Longrightarrow> wq_holds y u (wq_threads y u)"
    "\<And>k. k < length (wq_entered x) \<Longrightarrow> k \<notin> wq_gone y \<Longrightarrow> keeps (wq_threads y (fst (wq_entered x ! k))) = Some k"
    "wq_gone y \<subseteq> {..<length (wq_entered x)}"
  shows "wq_tokens N receiverOf y"
  using assms(1,9-11) unfolding wq_tokens_def assms(3-8) by blast

lemma tokens_frame:
  assumes "wq_tokens N receiverOf x" "quiet s" "quiet (wq_threads x t)" "wq_threads y = (wq_threads x)(t := s)" "wq_entered y = wq_entered x"
    "wq_woken y = wq_woken x" "wq_wakers y = wq_wakers x" "wq_signals y = wq_signals x" "wq_gone y = wq_gone x" "wq_holds y t s"
    "keeps s = keeps (wq_threads x t)"
  shows "wq_tokens N receiverOf y"
proof (rule tokens_cong[OF assms(1,4-8)])
  show "awaiting y k = awaiting x k" "underway y k = underway x k" for k by (rule quiet_awaiting[OF assms(2-7)])+
  show "wq_holds y u (wq_threads y u)" if "u < N" for u
  proof (cases "u = t")
    case False
    have "wq_holds x u (wq_threads x u)" using assms(1) that by (simp add: wq_tokens_def)
    then show ?thesis using False by (cases "wq_threads x u") (auto simp: assms(4-9))
  qed (simp add: assms(4,10))
  show "keeps (wq_threads y (fst (wq_entered x ! k))) = Some k" if "k < length (wq_entered x)" "k \<notin> wq_gone y" for k
    using assms(1) that by (auto simp: wq_tokens_def assms(4,9,11))
  show "wq_gone y \<subseteq> {..<length (wq_entered x)}" using assms(1,9) by (simp add: wq_tokens_def)
qed

section \<open>Steps outside the entries\<close>

text \<open>A step of the loop that changes only what its thread knows.\<close>

lemma inv_loop_step:
  assumes "wq_inv N typeOf receiverOf x" "t < N" "\<And>side. in_side side s = in_side side (wq_threads x t)"
    "\<And>side. has_claimed side s = has_claimed side (wq_threads x t)" "is_resting s = is_resting (wq_threads x t)"
    "is_registered s = is_registered (wq_threads x t)" "is_signaller s = is_signaller (wq_threads x t)"
    "quiet s" "quiet (wq_threads x t)" "wq_holds (wq_set t s x) t s" "keeps s = keeps (wq_threads x t)"
    "\<And>base. wq_counts N base x \<Longrightarrow> wq_local base x (wq_threads x t) \<Longrightarrow> wq_local base x s"
  shows "wq_inv N typeOf receiverOf (wq_set t s x)"
proof -
  obtain base where b: "wq_counts N base x" "\<forall>u < N. wq_local base x (wq_threads x u)" using assms(1) by (auto simp: wq_inv_def)
  have rest: "wq_entries_show typeOf receiverOf x" "wq_paired typeOf receiverOf x" "wq_tokens N receiverOf x" using assms(1) by (auto simp: wq_inv_def)
  have "wq_local base x s" using assms(12) b assms(2) by blast
  then have l: "wq_local base (wq_set t s x) s" by (rule local_frame) simp_all
  show ?thesis unfolding wq_inv_def
    by (intro conjI exI[of _ base] counts_frame[OF b(1) assms(2-7)] locals_frame[OF b(2), where t = t and s = s]
        shows_frame[OF rest(1)] paired_frame[OF rest(2)] tokens_frame[OF rest(3) assms(8,9)] l)
      (simp_all add: assms(10,11))
qed

lemma inv_load:
  assumes "wq_inv N typeOf receiverOf x" "t < N" "wq_threads x t = WLoop side base0 i"
    "slot = (base0 + i) mod ucast (q_entries (wq_header x))"
  shows "wq_inv N typeOf receiverOf (wq_set t (WLoaded side base0 i slot (wq_buffer x (unat slot)) (wq_stores x (unat slot))) x)"
proof (rule inv_loop_step[OF assms(1,2)])
  fix base assume c: "wq_counts N base x"
  have "unat slot < wq_n x"
    using c unfolding assms(4) unat_mod wq_n_def wq_counts_def by simp
  then show "wq_local base x (WLoaded side base0 i slot (wq_buffer x (unat slot)) (wq_stores x (unat slot)))"
    by (simp add: entry_loaded_def)
qed (simp_all add: assms(3))

text \<open>Reading the header: at that time the side has come at most to the end of its window.\<close>

lemma inv_read_header:
  assumes "wq_inv N typeOf receiverOf x" "t < N" "wq_threads x t = WLoaded side base0 i slot e v"
  shows "wq_inv N typeOf receiverOf (wq_set t (WScan side base0 i slot e v (wq_header x) []) x)"
proof (rule inv_loop_step[OF assms(1,2)])
  fix base assume c: "wq_counts N base x" and l: "wq_local base x (wq_threads x t)"
  have le: "entry_loaded x slot e v" using l assms(3) by simp
  let ?h = "wq_header x" and ?n = "wq_n x"
  let ?d = "unat (queue_forward (q_idx side ?h) slot (ucast (q_entries ?h)))"
  have pos: "at_pos side (base side) (number N (in_side side) (wq_threads x)) ?h"
    "base side \<le> next_pos side x" "next_pos side x \<le> base side + ?n" "0 < ?n"
    using c by (auto simp: wq_counts_def)
  note S = slot_pos[OF pos(1), of slot, folded wq_n_def, OF conjunct1[OF le[unfolded entry_loaded_def]]]
  have "next_pos side x \<le> base side + ?d"
    if same: "wq_stores x (unat slot) = v" and un: "bit (word0 e) (q_bit side) \<noteq> odd ((base side + ?d) div ?n)"
  proof -
    have e: "wq_buffer x (unat slot) = e" using le same by (simp add: entry_loaded_def)
    have m: "marks_upto ?n (next_pos side x) (shown x (q_bit side))" using assms(1) by (simp add: wq_inv_def wq_entries_show_def)
    have "shown x (q_bit side) ((base side + ?d) mod ?n) = odd ((base side + ?d) div ?n) \<longleftrightarrow> base side + ?d < next_pos side x"
      by (rule marks_read[OF m]) (use pos S(1) in \<open>simp_all add: next_pos_def\<close>)
    then show ?thesis using un e S(2) by (simp add: shown_def)
  qed
  then have "scan_knows base x side slot e v ?h []"
    unfolding scan_knows_def Let_def using pos(1,2) by (intro exI[of _ "base side"] exI[of _ "number N (in_side side) (wq_threads x)"]) simp
  then show "wq_local base x (WScan side base0 i slot e v ?h [])" using le by simp
qed (simp_all add: assms(3))

text \<open>Reading one of the earlier entries.\<close>

lemma inv_read_entry:
  assumes "wq_inv N typeOf receiverOf x" "t < N" "wq_threads x t = WScan side base0 i slot e v h seen" "scan_more side slot h seen"
    "w = word0 (wq_buffer x (unat (fst (scan_slot (q_idx side h) (q_phase side h) (ucast (q_entries h)) (of_nat (length seen))))))"
  shows "wq_inv N typeOf receiverOf (wq_set t (WScan side base0 i slot e v h (seen @ [w])) x)"
proof (rule inv_loop_step[OF assms(1,2)])
  fix base assume c: "wq_counts N base x" and l: "wq_local base x (wq_threads x t)"
  have le: "entry_loaded x slot e v" and k: "scan_knows base x side slot e v h seen" using l assms(3) by simp_all
  let ?n = "wq_n x"
  let ?d = "unat (queue_forward (q_idx side h) slot (ucast (q_entries h)))"
  obtain B c0 where B: "q_entries h = q_entries (wq_header x)" "at_pos side B c0 h" "B \<le> base side" "length seen \<le> ?d"
    and K: "wq_stores x (unat slot) = v \<Longrightarrow> bit (word0 e) (q_bit side) \<noteq> odd ((B + ?d) div ?n) \<Longrightarrow>
            next_pos side x \<le> B + ?d \<and>
            ((\<forall>k < length seen. bit (seen ! k) (q_bit side) = odd ((B + k) div ?n)) \<longrightarrow> B + length seen \<le> next_pos side x)"
    using k unfolding scan_knows_def Let_def by blast
  have n: "unat (q_entries h) = ?n" "0 < ?n" using B(1) c by (simp_all add: wq_n_def wq_counts_def)
  have more: "length seen < ?d" using assms(4) by (simp add: scan_more_def Let_def)
  note S = slot_pos(1)[OF B(2), of slot, unfolded n(1), OF conjunct1[OF le[unfolded entry_loaded_def]]]
  have rd: "bit w (q_bit side) = shown x (q_bit side) ((B + length seen) mod ?n)"
    unfolding assms(5) shown_def using scan_slot_pos(1)[OF B(2), of "length seen"] more S n(1) by simp
  have "next_pos side x \<le> B + ?d \<and>
      ((\<forall>k < Suc (length seen). bit ((seen @ [w]) ! k) (q_bit side) = odd ((B + k) div ?n)) \<longrightarrow> Suc (B + length seen) \<le> next_pos side x)"
    if same: "wq_stores x (unat slot) = v" and un: "bit (word0 e) (q_bit side) \<noteq> odd ((B + ?d) div ?n)"
  proof (intro conjI impI)
    show le: "next_pos side x \<le> B + ?d" using K[OF same un] by blast
    assume all: "\<forall>k < Suc (length seen). bit ((seen @ [w]) ! k) (q_bit side) = odd ((B + k) div ?n)"
    have "\<forall>k < length seen. bit (seen ! k) (q_bit side) = odd ((B + k) div ?n)"
      using all by (metis less_SucI nth_append)
    then have ge: "B + length seen \<le> next_pos side x" using K[OF same un] by blast
    have last: "bit w (q_bit side) = odd ((B + length seen) div ?n)" using all by (metis lessI nth_append_length)
    have m: "marks_upto ?n (next_pos side x) (shown x (q_bit side))" using assms(1) by (simp add: wq_inv_def wq_entries_show_def)
    have "shown x (q_bit side) ((B + length seen) mod ?n) = odd ((B + length seen) div ?n) \<longleftrightarrow> B + length seen < next_pos side x"
      by (rule marks_read[OF m]) (use n(2) S more le ge in \<open>simp_all add: next_pos_def\<close>)
    then show "Suc (B + length seen) \<le> next_pos side x" using last rd by simp
  qed
  then have "scan_knows base x side slot e v h (seen @ [w])"
    unfolding scan_knows_def Let_def using B more by (intro exI[of _ B] exI[of _ c0]) simp
  then show "wq_local base x (WScan side base0 i slot e v h (seen @ [w]))" using le by simp
qed (simp_all add: assms(3))

section \<open>Steps on the header and the object's counts\<close>

lemma inv_outer:
  assumes "wq_inv N typeOf receiverOf x" "wq_threads y = (wq_threads x)(t := s)" "wq_buffer y = wq_buffer x" "wq_stores y = wq_stores x"
    "wq_entered y = wq_entered x" "wq_woken y = wq_woken x" "q_entries (wq_header y) = q_entries (wq_header x)" "\<And>b. wq_local b y s"
    "\<And>base. wq_counts N base x \<Longrightarrow> \<exists>base'. wq_counts N base' y \<and> (\<forall>side. base side \<le> base' side)" "wq_tokens N receiverOf y"
  shows "wq_inv N typeOf receiverOf y"
proof -
  obtain base where b: "wq_counts N base x" "\<forall>u < N. wq_local base x (wq_threads x u)" using assms(1) by (auto simp: wq_inv_def)
  obtain base' where c: "wq_counts N base' y" "\<And>side. base side \<le> base' side" using assms(9)[OF b(1)] by blast
  have rest: "wq_entries_show typeOf receiverOf x" "wq_paired typeOf receiverOf x" using assms(1) by (auto simp: wq_inv_def)
  have n: "wq_n y = wq_n x" using assms(7) by (simp add: wq_n_def)
  have np: "next_pos side y = next_pos side x" for side using assms(5,6) n by (simp add: next_pos_def split: q_side.split)
  show ?thesis unfolding wq_inv_def
    by (intro conjI exI[of _ base'] c(1) locals_frame[OF b(2) assms(7,4,3) np c(2) assms(2,8)]
        shows_frame[OF rest(1) n assms(3,5,6)] paired_frame[OF rest(2) assms(5,6)] assms(10))
qed

lemma inv_tokens: "wq_inv N typeOf receiverOf x \<Longrightarrow> wq_tokens N receiverOf x"
  by (simp add: wq_inv_def)

lemma holds_of: "wq_inv N typeOf receiverOf x \<Longrightarrow> t < N \<Longrightarrow> wq_holds x t (wq_threads x t)"
  by (simp add: wq_inv_def wq_tokens_def)

lemma inv_register:
  assumes "wq_inv N typeOf receiverOf x" "t < N" "wq_threads x t = WIdle" "wq_waiters x + 1 < wq_n x"
  shows "wq_inv N typeOf receiverOf (wq_set t WRegistered (x\<lparr>wq_waiters := wq_waiters x + 1\<rparr>))"
proof (rule inv_outer[OF assms(1), where t = t and s = WRegistered])
  let ?y = "wq_set t WRegistered (x\<lparr>wq_waiters := wq_waiters x + 1\<rparr>)"
  show "\<exists>base'. wq_counts N base' ?y \<and> (\<forall>side. base side \<le> base' side)" if "wq_counts N base x" for base
    using that assms(3,4) wq_numbers[OF assms(2), of "wq_threads x" WRegistered]
    by (intro exI[of _ base]) (simp add: wq_counts_def all_sides)
  show "wq_tokens N receiverOf ?y"
    by (rule tokens_frame[OF inv_tokens[OF assms(1)], where t = t and s = WRegistered]) (simp_all add: assms(3))
qed simp_all

lemma inv_signal:
  assumes "wq_inv N typeOf receiverOf x" "t < N" "wq_threads x t = WIdle" "wq_signalled x < wq_waiters x"
  shows "wq_inv N typeOf receiverOf (wq_set t WSignaller (x\<lparr>wq_signalled := wq_signalled x + 1\<rparr>))"
proof (rule inv_outer[OF assms(1), where t = t and s = WSignaller])
  let ?y = "wq_set t WSignaller (x\<lparr>wq_signalled := wq_signalled x + 1\<rparr>)"
  show "\<exists>base'. wq_counts N base' ?y \<and> (\<forall>side. base side \<le> base' side)" if "wq_counts N base x" for base
    using that assms(3,4) wq_numbers[OF assms(2), of "wq_threads x" WSignaller]
    by (intro exI[of _ base]) (simp add: wq_counts_def all_sides)
  show "wq_tokens N receiverOf ?y"
    by (rule tokens_frame[OF inv_tokens[OF assms(1)], where t = t and s = WSignaller]) (simp_all add: assms(3))
qed simp_all

lemma inv_enter_announce:
  assumes "wq_inv N typeOf receiverOf x" "t < N" "N < 2 ^ 15" "wq_threads x t = WRegistered"
  shows "wq_inv N typeOf receiverOf (wq_set t (WLoop Enter b i) (x\<lparr>wq_header := enter_announce (wq_header x)\<rparr>))"
proof (rule inv_outer[OF assms(1), where t = t and s = "WLoop Enter b i"])
  let ?y = "wq_set t (WLoop Enter b i) (x\<lparr>wq_header := enter_announce (wq_header x)\<rparr>)"
  have q: "q_entries (enter_announce (wq_header x)) = q_entries (wq_header x)" by (simp add: enter_announce_def)
  then show "q_entries (wq_header ?y) = q_entries (wq_header x)" by simp
  show "\<exists>base'. wq_counts N base' ?y \<and> (\<forall>side. base side \<le> base' side)" if c: "wq_counts N base x" for base
  proof (intro exI conjI allI)
    note num = wq_numbers[OF assms(2), of "wq_threads x" "WLoop Enter b i"]
    have p: "at_pos Enter (base Enter) (number N (in_side Enter) (wq_threads x)) (wq_header x)" using c by (simp add: wq_counts_def)
    have "number N (in_side Enter) (wq_threads x) + 1 \<le> N"
      using num(1) assms(4) number_le[of N "in_side Enter" "(wq_threads x)(t := WLoop Enter b i)"] by simp
    then have lt: "number N (in_side Enter) (wq_threads x) + 1 < 2 ^ 15" using assms(3) by linarith
    show "wq_counts N base ?y"
      using c assms(4) num enter_announce_pos[OF p lt]
      by (simp add: wq_counts_def all_sides wq_header_simps q)
  qed simp
  show "wq_tokens N receiverOf ?y"
    by (rule tokens_frame[OF inv_tokens[OF assms(1)], where t = t and s = "WLoop Enter b i"]) (simp_all add: assms(4))
qed simp_all

lemma inv_wake_announce:
  assumes "wq_inv N typeOf receiverOf x" "t < N" "N < 2 ^ 15" "wq_threads x t = WSignaller" "wake_announce (wq_header x) = Some h'"
  shows "wq_inv N typeOf receiverOf (wq_set t (WLoop Wake b i) (x\<lparr>wq_header := h'\<rparr>))"
proof (rule inv_outer[OF assms(1), where t = t and s = "WLoop Wake b i"])
  let ?y = "wq_set t (WLoop Wake b i) (x\<lparr>wq_header := h'\<rparr>)"
  have q: "q_entries h' = q_entries (wq_header x)" using assms(5) by (auto simp: wake_announce_def Let_def split: if_splits)
  then show "q_entries (wq_header ?y) = q_entries (wq_header x)" by simp
  show "\<exists>base'. wq_counts N base' ?y \<and> (\<forall>side. base side \<le> base' side)" if c: "wq_counts N base x" for base
  proof (intro exI conjI allI)
    note num = wq_numbers[OF assms(2), of "wq_threads x" "WLoop Wake b i"]
    have p: "at_pos Wake (base Wake) (number N (in_side Wake) (wq_threads x)) (wq_header x)" using c by (simp add: wq_counts_def)
    have "number N (in_side Wake) (wq_threads x) + 1 \<le> N"
      using num(2) assms(4) number_le[of N "in_side Wake" "(wq_threads x)(t := WLoop Wake b i)"] by simp
    then have lt: "number N (in_side Wake) (wq_threads x) + 1 < 2 ^ 15" using assms(3) by linarith
    show "wq_counts N base ?y"
      using c assms(4) num wake_announce_pos[OF p lt assms(5)]
      by (simp add: wq_counts_def all_sides wq_header_simps q)
  qed simp
  show "wq_tokens N receiverOf ?y"
    by (rule tokens_frame[OF inv_tokens[OF assms(1)], where t = t and s = "WLoop Wake b i"]) (simp_all add: assms(4))
qed simp_all

lemma inv_loop_announce:
  "wq_inv N typeOf receiverOf x \<Longrightarrow> t < N \<Longrightarrow> wq_threads x t = WSignaller \<Longrightarrow> wq_inv N typeOf receiverOf (wq_set t WFailed x)"
  by (rule inv_loop_step) simp_all

section \<open>Steps of waiters and wakers with an entry\<close>

lemma tokensD:
  assumes "wq_tokens N receiverOf x"
  shows "t < N \<Longrightarrow> wq_holds x t (wq_threads x t)" "length (wq_wakers x) = length (wq_woken x)"
    "k < length (wq_entered x) \<Longrightarrow> fst (wq_entered x ! k) < N" "k < length (wq_wakers x) \<Longrightarrow> wq_wakers x ! k < N"
    "k < length (wq_entered x) \<Longrightarrow> k \<notin> wq_gone x \<Longrightarrow> keeps (wq_threads x (fst (wq_entered x ! k))) = Some k"
    "r \<in> wq_signals x \<Longrightarrow> \<exists>k. awaiting x k \<and> k < length (wq_woken x) \<and> r = receiverOf (fst (wq_entered x ! k)) \<and> \<not> underway x k"
    "underway x k \<Longrightarrow> wq_woken x ! k \<noteq> None \<Longrightarrow> awaiting x k"
    "k < length (wq_woken x) \<Longrightarrow> awaiting x k \<Longrightarrow> underway x k \<or> receiverOf (fst (wq_entered x ! k)) \<in> wq_signals x"
    "wq_gone x \<subseteq> {..<length (wq_entered x)}"
  using assms unfolding wq_tokens_def by blast+

lemma inv_enter_retire:
  assumes "wq_inv N typeOf receiverOf x" "t < N" "wq_threads x t = WEntered k f"
  shows "wq_inv N typeOf receiverOf (wq_set t (if f then WAwake k else WWaiting k) (x\<lparr>wq_header := enter_retire (wq_header x)\<rparr>))"
proof (rule inv_outer[OF assms(1), where t = t and s = "if f then WAwake k else WWaiting k"])
  let ?s = "if f then WAwake k else WWaiting k"
  let ?y = "wq_set t ?s (x\<lparr>wq_header := enter_retire (wq_header x)\<rparr>)"
  note T = inv_tokens[OF assms(1)]
  have q: "q_entries (enter_retire (wq_header x)) = q_entries (wq_header x)" by (simp add: enter_retire_def Let_def)
  then show "q_entries (wq_header ?y) = q_entries (wq_header x)" by simp
  have h: "k < length (wq_entered x)" "wq_entered x ! k = (t, f)" "k \<notin> wq_gone x"
    using holds_of[OF assms(1,2)] assms(3) by simp_all
  have sp: "in_side side ?s = False" "has_claimed side ?s = False" "is_resting ?s" "is_registered ?s = False" "is_signaller ?s = False" for side
    by simp_all
  show "\<exists>base'. wq_counts N base' ?y \<and> (\<forall>side. base side \<le> base' side)" if c: "wq_counts N base x" for base
  proof (intro exI conjI allI)
    note num = wq_numbers[OF assms(2), of "wq_threads x" ?s, unfolded sp assms(3)]
    have p: "at_pos Enter (base Enter) (Suc (number N (in_side Enter) ((wq_threads x)(t := ?s)))) (wq_header x)"
      using c num(1) by (simp add: wq_counts_def all_sides)
    have n: "1 < unat (q_entries (wq_header x))" using c by (simp add: wq_counts_def wq_n_def)
    show "wq_counts N (base(Enter := Suc (base Enter))) ?y"
      using c num enter_retire_pos[OF p n] by (simp add: wq_counts_def all_sides wq_header_simps q)
  qed simp
  show "wq_tokens N receiverOf ?y"
  proof (rule tokens_cong[OF T, where t = t and s = ?s])
    show "awaiting ?y i = awaiting x i" for i using h(1,2) assms(3) by (auto simp: awaiting_def)
    show "underway ?y i = underway x i" for i using assms(3) by (auto simp: underway_def)
    show "wq_holds ?y u (wq_threads ?y u)" if "u < N" for u
    proof (cases "u = t")
      case True
      have "f \<longrightarrow> k < length (wq_woken x)" using assms(1) h by (auto simp: wq_inv_def wq_paired_def)
      then show ?thesis using True h by simp
    next
      case False
      then show ?thesis using tokensD(1)[OF T that] by (cases "wq_threads x u") auto
    qed
    show "keeps (wq_threads ?y (fst (wq_entered x ! i))) = Some i" if "i < length (wq_entered x)" "i \<notin> wq_gone ?y" for i
      using tokensD(5)[OF T that(1)] that(2) assms(3) by auto
  qed (use tokensD(9)[OF T] in simp_all)
qed simp_all

text \<open>The thread of an entry that awaits its wake-up.\<close>

lemma awaiting_thread:
  assumes "wq_tokens N receiverOf x" "t < N" "wq_threads x t = WWaiting k"
  shows "awaiting x k" "fst (wq_entered x ! k) = t" "awaiting x i \<Longrightarrow> fst (wq_entered x ! i) = t \<Longrightarrow> i = k"
  using tokensD(1)[OF assms(1,2)] assms(3) by (auto simp: awaiting_def)

lemma inv_wait:
  assumes "wq_inv N typeOf receiverOf x" "t < N" "wq_threads x t = WWaiting k" "receiverOf t \<in> wq_signals x" "inj_on receiverOf {..<N}"
  shows "wq_inv N typeOf receiverOf (wq_set t (WAwake k) (x\<lparr>wq_signals := wq_signals x - {receiverOf t}\<rparr>))"
proof (rule inv_outer[OF assms(1), where t = t and s = "WAwake k"])
  let ?y = "wq_set t (WAwake k) (x\<lparr>wq_signals := wq_signals x - {receiverOf t}\<rparr>)"
  note T = inv_tokens[OF assms(1)]
  note A = awaiting_thread[OF T assms(2,3)]
  obtain k0 where k0: "awaiting x k0" "k0 < length (wq_woken x)" "receiverOf t = receiverOf (fst (wq_entered x ! k0))" "\<not> underway x k0"
    using tokensD(6)[OF T assms(4)] by blast
  have "fst (wq_entered x ! k0) < N" using tokensD(3)[OF T] k0(1) by (simp add: awaiting_def)
  then have "fst (wq_entered x ! k0) = t" using assms(2,5) k0(3) by (auto simp: inj_on_def)
  then have kk: "k0 = k" using A(3) k0(1) by blast
  have h: "k < length (wq_entered x)" "wq_entered x ! k = (t, False)" "k \<notin> wq_gone x"
    using holds_of[OF assms(1,2)] assms(3) by simp_all
  have aw: "awaiting ?y i \<longleftrightarrow> awaiting x i \<and> i \<noteq> k" for i using assms(3) A(2) by (auto simp: awaiting_def)
  have un: "underway ?y i = underway x i" for i using assms(3) by (auto simp: underway_def)
  show "\<exists>base'. wq_counts N base' ?y \<and> (\<forall>side. base side \<le> base' side)" if "wq_counts N base x" for base
    using that assms(3) wq_numbers[OF assms(2), of "wq_threads x" "WAwake k"]
    by (intro exI[of _ base]) (simp add: wq_counts_def all_sides)
  show "wq_tokens N receiverOf ?y"
    unfolding wq_tokens_def aw un
  proof (intro conjI)
    show "\<forall>u < N. wq_holds ?y u (wq_threads ?y u)"
    proof (intro allI impI)
      fix u assume u: "u < N"
      show "wq_holds ?y u (wq_threads ?y u)"
      proof (cases "u = t")
        case True
        then show ?thesis using h k0(2) kk by simp
      next
        case False
        then show ?thesis using tokensD(1)[OF T u] by (cases "wq_threads x u") auto
      qed
    qed
    show "\<forall>i < length (wq_entered ?y). i \<notin> wq_gone ?y \<longrightarrow> keeps (wq_threads ?y (fst (wq_entered ?y ! i))) = Some i"
      using tokensD(5)[OF T] assms(3) by fastforce
    show "\<forall>r \<in> wq_signals ?y. \<exists>i. (awaiting x i \<and> i \<noteq> k) \<and> i < length (wq_woken ?y) \<and> r = receiverOf (fst (wq_entered ?y ! i)) \<and> \<not> underway x i"
    proof
      fix r assume "r \<in> wq_signals ?y"
      then have r: "r \<in> wq_signals x" "r \<noteq> receiverOf t" by auto
      obtain i where "awaiting x i" "i < length (wq_woken x)" "r = receiverOf (fst (wq_entered x ! i))" "\<not> underway x i"
        using tokensD(6)[OF T r(1)] by blast
      moreover from this have "i \<noteq> k" using A(2) r(2) by auto
      ultimately show "\<exists>i. (awaiting x i \<and> i \<noteq> k) \<and> i < length (wq_woken ?y) \<and> r = receiverOf (fst (wq_entered ?y ! i)) \<and> \<not> underway x i"
        by auto
    qed
    show "\<forall>i. underway x i \<longrightarrow> wq_woken ?y ! i \<noteq> None \<longrightarrow> awaiting x i \<and> i \<noteq> k"
      using tokensD(7)[OF T] k0(4) kk by auto
    show "\<forall>i < length (wq_woken ?y). awaiting x i \<and> i \<noteq> k \<longrightarrow> underway x i \<or> receiverOf (fst (wq_entered ?y ! i)) \<in> wq_signals ?y"
    proof (intro allI impI)
      fix i assume i: "i < length (wq_woken ?y)" "awaiting x i \<and> i \<noteq> k"
      then have "underway x i \<or> receiverOf (fst (wq_entered x ! i)) \<in> wq_signals x" using tokensD(8)[OF T, of i] by simp
      moreover have "receiverOf (fst (wq_entered x ! i)) \<noteq> receiverOf t"
      proof
        assume e: "receiverOf (fst (wq_entered x ! i)) = receiverOf t"
        have "fst (wq_entered x ! i) < N" using tokensD(3)[OF T] i by (simp add: awaiting_def)
        then have "fst (wq_entered x ! i) = t" using assms(2,5) e by (auto simp: inj_on_def)
        then show False using A(3) i(2) by blast
      qed
      ultimately show "underway x i \<or> receiverOf (fst (wq_entered ?y ! i)) \<in> wq_signals ?y" by auto
    qed
  qed (use tokensD(2-4,9)[OF T] in auto)
qed simp_all

lemma inv_leave_queue:
  assumes "wq_inv N typeOf receiverOf x" "t < N" "wq_threads x t = WAwake k"
  shows "wq_inv N typeOf receiverOf (wq_set t WIdle (x\<lparr>wq_waiters := wq_waiters x - 1, wq_signalled := wq_signalled x - 1, wq_gone := insert k (wq_gone x)\<rparr>))"
proof (rule inv_outer[OF assms(1), where t = t and s = WIdle])
  let ?y = "wq_set t WIdle (x\<lparr>wq_waiters := wq_waiters x - 1, wq_signalled := wq_signalled x - 1, wq_gone := insert k (wq_gone x)\<rparr>)"
  note T = inv_tokens[OF assms(1)]
  have h: "k < length (wq_entered x)" "fst (wq_entered x ! k) = t" "k \<notin> wq_gone x" "k < length (wq_woken x)"
    using holds_of[OF assms(1,2)] assms(3) by simp_all
  show "\<exists>base'. wq_counts N base' ?y \<and> (\<forall>side. base side \<le> base' side)" if c: "wq_counts N base x" for base
  proof (intro exI[of _ base] conjI allI)
    note I = c[unfolded wq_counts_def all_sides]
    have fin: "finite (wq_gone x)" "wq_gone x \<subseteq> {..<length (wq_woken x)}" using I by blast+
    have "insert k (wq_gone x) \<subseteq> {..<length (wq_woken x)}" using fin(2) h(4) by simp
    then have "card (insert k (wq_gone x)) \<le> length (wq_woken x)" using card_mono[of "{..<length (wq_woken x)}"] by fastforce
    then have g: "card (wq_gone x) + 1 \<le> length (wq_woken x)" using fin(1) h(3) by simp
    have "wq_n x + length (wq_woken x) = base Wake + number N (has_claimed Wake) (wq_threads x)"
      using I by (simp add: next_pos_def)
    then have s: "0 < wq_signalled x" using I g claimed_in_side[of N Wake "wq_threads x"] by linarith
    note num = wq_numbers[OF assms(2), of "wq_threads x" WIdle]
    have "0 < wq_waiters x" using I s by linarith
    then show "wq_counts N base ?y"
      using c assms(3) num fin h(3,4) s by (simp add: wq_counts_def all_sides, linarith?)
  qed simp
  have aw: "awaiting ?y i = awaiting x i" for i using assms(3) by (auto simp: awaiting_def)
  have un: "underway ?y i = underway x i" for i using assms(3) by (auto simp: underway_def)
  show "wq_tokens N receiverOf ?y"
  proof (rule tokens_cong[OF T, where t = t and s = WIdle])
    show "awaiting ?y i = awaiting x i" "underway ?y i = underway x i" for i by (rule aw, rule un)
    show "wq_holds ?y u (wq_threads ?y u)" if "u < N" for u
    proof (cases "u = t")
      case False
      then show ?thesis using tokensD(1)[OF T that] h by (cases "wq_threads x u") auto
    qed simp
    show "keeps (wq_threads ?y (fst (wq_entered x ! i))) = Some i" if "i < length (wq_entered x)" "i \<notin> wq_gone ?y" for i
      using tokensD(5)[OF T that(1)] that(2) assms(3) by auto
  qed (use tokensD(9)[OF T] h(1) in simp_all)
qed simp_all

text \<open>What a wake-up found is what its entry's thread is.\<close>

lemma woken_found:
  assumes "wq_paired typeOf receiverOf x" "k < length (wq_woken x)" "wq_woken x ! k = Some found"
  shows "k < length (wq_entered x)" "\<not> snd (wq_entered x ! k)" "found = wq_ident typeOf receiverOf (fst (wq_entered x ! k))"
  using assms by (auto simp: wq_paired_def split: if_splits)

lemma inv_send:
  assumes "wq_inv N typeOf receiverOf x" "t < N" "wq_threads x t = WSending k r"
  shows "wq_inv N typeOf receiverOf (wq_set t WIdle (x\<lparr>wq_signals := insert r (wq_signals x)\<rparr>))"
proof (rule inv_outer[OF assms(1), where t = t and s = WIdle])
  let ?y = "wq_set t WIdle (x\<lparr>wq_signals := insert r (wq_signals x)\<rparr>)"
  note T = inv_tokens[OF assms(1)]
  have h: "k < length (wq_woken x)" "map_option snd (wq_woken x ! k) = Some r" "wq_wakers x ! k = t"
    using holds_of[OF assms(1,2)] assms(3) by simp_all
  obtain ty where f: "wq_woken x ! k = Some (ty, r)" using h(2) by auto
  have "wq_paired typeOf receiverOf x" using assms(1) by (simp add: wq_inv_def)
  note F = woken_found[OF this h(1) f]
  have r: "r = receiverOf (fst (wq_entered x ! k))" using F(3) by (simp add: wq_ident_def)
  have uk: "underway x k" using h(1,3) assms(3) by (auto simp: underway_def)
  have ak: "awaiting x k" using tokensD(7)[OF T uk] f by simp
  have aw: "awaiting ?y i = awaiting x i" for i using assms(3) by (auto simp: awaiting_def)
  have un: "underway ?y i \<longleftrightarrow> underway x i \<and> i \<noteq> k" for i using assms(3) h(3) by (auto simp: underway_def)
  show "\<exists>base'. wq_counts N base' ?y \<and> (\<forall>side. base side \<le> base' side)" if "wq_counts N base x" for base
    using that assms(3) wq_numbers[OF assms(2), of "wq_threads x" WIdle]
    by (intro exI[of _ base]) (simp add: wq_counts_def all_sides)
  show "wq_tokens N receiverOf ?y"
    unfolding wq_tokens_def aw un
  proof (intro conjI)
    show "\<forall>u < N. wq_holds ?y u (wq_threads ?y u)"
    proof (intro allI impI)
      fix u assume u: "u < N"
      show "wq_holds ?y u (wq_threads ?y u)"
      proof (cases "u = t")
        case False
        then show ?thesis using tokensD(1)[OF T u] by (cases "wq_threads x u") auto
      qed simp
    qed
    show "\<forall>i < length (wq_entered ?y). i \<notin> wq_gone ?y \<longrightarrow> keeps (wq_threads ?y (fst (wq_entered ?y ! i))) = Some i"
      using tokensD(5)[OF T] assms(3) by fastforce
    show "\<forall>s \<in> wq_signals ?y. \<exists>i. awaiting x i \<and> i < length (wq_woken ?y) \<and> s = receiverOf (fst (wq_entered ?y ! i)) \<and> \<not> (underway x i \<and> i \<noteq> k)"
      using tokensD(6)[OF T] ak h(1) r by auto
    show "\<forall>i. underway x i \<and> i \<noteq> k \<longrightarrow> wq_woken ?y ! i \<noteq> None \<longrightarrow> awaiting x i"
      using tokensD(7)[OF T] by auto
    show "\<forall>i < length (wq_woken ?y). awaiting x i \<longrightarrow> underway x i \<and> i \<noteq> k \<or> receiverOf (fst (wq_entered ?y ! i)) \<in> wq_signals ?y"
      using tokensD(8)[OF T] r by auto
  qed (use tokensD(2-4,9)[OF T] in auto)
qed simp_all

lemma awaiting_entry:
  assumes "wq_tokens N receiverOf x" "awaiting x k"
  shows "k < length (wq_entered x)" "\<not> snd (wq_entered x ! k)"
proof -
  show l: "k < length (wq_entered x)" using assms(2) by (simp add: awaiting_def)
  have "wq_holds x (fst (wq_entered x ! k)) (wq_threads x (fst (wq_entered x ! k)))"
    using tokensD(1,3)[OF assms(1)] l by simp
  then have "wq_entered x ! k = (fst (wq_entered x ! k), False)" using assms(2) by (auto simp: awaiting_def)
  then show "\<not> snd (wq_entered x ! k)" by (metis snd_conv)
qed

lemma inv_wake_retire:
  assumes "wq_inv N typeOf receiverOf x" "t < N" "wq_threads x t = WWoke k found"
  shows "wq_inv N typeOf receiverOf (wq_set t (case found of None \<Rightarrow> WIdle | Some f \<Rightarrow> WSending k (snd f))
    (x\<lparr>wq_header := wake_retire True (wq_header x)\<rparr>))"
proof (rule inv_outer[OF assms(1), where t = t and s = "case found of None \<Rightarrow> WIdle | Some f \<Rightarrow> WSending k (snd f)"])
  let ?s = "case found of None \<Rightarrow> WIdle | Some f \<Rightarrow> WSending k (snd f)"
  let ?y = "wq_set t ?s (x\<lparr>wq_header := wake_retire True (wq_header x)\<rparr>)"
  note T = inv_tokens[OF assms(1)]
  have q: "q_entries (wake_retire True (wq_header x)) = q_entries (wq_header x)" by (simp add: wake_retire_def Let_def)
  then show "q_entries (wq_header ?y) = q_entries (wq_header x)" by simp
  have h: "k < length (wq_woken x)" "wq_woken x ! k = found" "wq_wakers x ! k = t"
    using holds_of[OF assms(1,2)] assms(3) by simp_all
  have sp: "in_side side ?s = False" "has_claimed side ?s = False" "is_resting ?s = False" "is_registered ?s = False" "is_signaller ?s = False" for side
    by (cases found; simp)+
  show "wq_local b ?y ?s" for b by (cases found) simp_all
  show "\<exists>base'. wq_counts N base' ?y \<and> (\<forall>side. base side \<le> base' side)" if c: "wq_counts N base x" for base
  proof (intro exI conjI allI)
    note num = wq_numbers[OF assms(2), of "wq_threads x" ?s, unfolded sp assms(3)]
    have p: "at_pos Wake (base Wake) (Suc (number N (in_side Wake) ((wq_threads x)(t := ?s)))) (wq_header x)"
      using c num(2) by (simp add: wq_counts_def all_sides)
    have n: "1 < unat (q_entries (wq_header x))" using c by (simp add: wq_counts_def wq_n_def)
    show "wq_counts N (base(Wake := Suc (base Wake))) ?y"
      using c num wake_retire_pos[OF p n] by (simp add: wq_counts_def all_sides wq_header_simps q)
  qed simp
  have no: "found = None \<Longrightarrow> \<not> awaiting x k"
  proof
    assume f: "found = None" and a: "awaiting x k"
    have "k < length (wq_entered x)" "\<not> snd (wq_entered x ! k)" by (rule awaiting_entry[OF T a])+
    then have "wq_woken x ! k \<noteq> None" using assms(1) h(1) by (simp add: wq_inv_def wq_paired_def)
    then show False using h(2) f by simp
  qed
  have aw: "awaiting ?y i = awaiting x i" for i using assms(3) by (cases found) (auto simp: awaiting_def)
  have un: "underway ?y i \<longleftrightarrow> underway x i \<and> (found \<noteq> None \<or> i \<noteq> k)" for i using assms(3) h(3) by (cases found) (auto simp: underway_def)
  show "wq_tokens N receiverOf ?y"
    unfolding wq_tokens_def aw un
  proof (intro conjI)
    show "\<forall>u < N. wq_holds ?y u (wq_threads ?y u)"
    proof (intro allI impI)
      fix u assume u: "u < N"
      show "wq_holds ?y u (wq_threads ?y u)"
      proof (cases "u = t")
        case True
        then show ?thesis using h by (cases found) simp_all
      next
        case False
        then show ?thesis using tokensD(1)[OF T u] by (cases "wq_threads x u") auto
      qed
    qed
    show "\<forall>i < length (wq_entered ?y). i \<notin> wq_gone ?y \<longrightarrow> keeps (wq_threads ?y (fst (wq_entered ?y ! i))) = Some i"
      using tokensD(5)[OF T] assms(3) by fastforce
    show "\<forall>s \<in> wq_signals ?y. \<exists>i. awaiting x i \<and> i < length (wq_woken ?y) \<and> s = receiverOf (fst (wq_entered ?y ! i)) \<and>
        \<not> (underway x i \<and> (found \<noteq> None \<or> i \<noteq> k))"
      using tokensD(6)[OF T] by fastforce
    show "\<forall>i. underway x i \<and> (found \<noteq> None \<or> i \<noteq> k) \<longrightarrow> wq_woken ?y ! i \<noteq> None \<longrightarrow> awaiting x i"
      using tokensD(7)[OF T] by auto
    show "\<forall>i < length (wq_woken ?y). awaiting x i \<longrightarrow> underway x i \<and> (found \<noteq> None \<or> i \<noteq> k) \<or> receiverOf (fst (wq_entered ?y ! i)) \<in> wq_signals ?y"
      using tokensD(8)[OF T] no by (cases found) auto
  qed (use tokensD(2-4,9)[OF T] in auto)
qed simp_all

section \<open>Claims\<close>

text \<open>A claim that is let through is at the side's next position.\<close>

lemma claim_at:
  assumes "wq_counts N base x" "wq_local base x (WScan side base0 i slot e v h seen)" "\<not> scan_more side slot h seen"
    "claim_pass side base0 i slot e h seen = Claim parity" "wq_stores x (unat slot) = v"
  shows "unat slot = next_pos side x mod wq_n x" "parity = of_bool (odd (next_pos side x div wq_n x))"
    "next_pos side x < base side + wq_n x" "wq_buffer x (unat slot) = e"
proof -
  let ?n = "wq_n x"
  let ?d = "unat (queue_forward (q_idx side h) slot (ucast (q_entries h)))"
  have le: "entry_loaded x slot e v" and k: "scan_knows base x side slot e v h seen" using assms(2) by simp_all
  obtain B c0 where B: "q_entries h = q_entries (wq_header x)" "at_pos side B c0 h" "B \<le> base side" "length seen \<le> ?d"
    and K: "bit (word0 e) (q_bit side) \<noteq> odd ((B + ?d) div ?n) \<Longrightarrow>
            next_pos side x \<le> B + ?d \<and>
            ((\<forall>k < length seen. bit (seen ! k) (q_bit side) = odd ((B + k) div ?n)) \<longrightarrow> B + length seen \<le> next_pos side x)"
    using k assms(5) unfolding scan_knows_def Let_def by blast
  have n: "unat (q_entries h) = ?n" using B(1) by (simp add: wq_n_def)
  have sl: "unat slot < unat (q_entries h)" using le n by (simp add: entry_loaded_def)
  obtain d where d: "d < ?n" "unat slot = (B + d) mod ?n" "parity = of_bool (odd ((B + d) div ?n))" "length seen = d"
      "bit (word0 e) (q_bit side) \<noteq> odd ((B + d) div ?n)" "\<forall>k < d. bit (seen ! k) (q_bit side) = odd ((B + k) div ?n)" "d = ?d"
    using claim_pass_pos[OF B(2) sl assms(3) B(4) assms(4)] unfolding n by blast
  have "next_pos side x = B + d" using K d(4-6) unfolding d(7)[symmetric] by (metis le_antisym)
  then show "unat slot = next_pos side x mod ?n" "parity = of_bool (odd (next_pos side x div ?n))" "next_pos side x < base side + ?n"
    using d(1-3) B(3) by simp_all
  show "wq_buffer x (unat slot) = e" using le assms(5) by (simp add: entry_loaded_def)
qed

text \<open>What the other threads in the loop know survives it: the entry's count of stores went up.\<close>

lemma local_claim:
  assumes "wq_local base x s" "q_entries (wq_header y) = q_entries (wq_header x)" "wq_stores y = (wq_stores x)(i := wq_stores x i + 1)"
    "wq_buffer y = (wq_buffer x)(i := e')"
    "\<And>side. next_pos side y = next_pos side x \<or> next_pos side y = Suc (next_pos side x) \<and> i = next_pos side x mod wq_n x"
  shows "wq_local base y s"
proof -
  have n: "wq_n y = wq_n x" using assms(2) by (simp add: wq_n_def)
  have le: "entry_loaded y slot e v" if "entry_loaded x slot e v" for slot e v
    using that unfolding entry_loaded_def n assms(3,4) by auto
  have "scan_knows base y side slot e v h seen"
    if l: "entry_loaded x slot e v" and k: "scan_knows base x side slot e v h seen" for side slot e v h seen
  proof -
    let ?d = "unat (queue_forward (q_idx side h) slot (ucast (q_entries h)))"
    obtain B c0 where B: "q_entries h = q_entries (wq_header x)" "at_pos side B c0 h" "B \<le> base side" "length seen \<le> ?d"
      and K: "wq_stores x (unat slot) = v \<Longrightarrow> bit (word0 e) (q_bit side) \<noteq> odd ((B + ?d) div wq_n x) \<Longrightarrow>
            next_pos side x \<le> B + ?d \<and>
            ((\<forall>k < length seen. bit (seen ! k) (q_bit side) = odd ((B + k) div wq_n x)) \<longrightarrow> B + length seen \<le> next_pos side x)"
      using k unfolding scan_knows_def Let_def by blast
    have sl: "unat slot < unat (q_entries h)" using l B(1) by (simp add: entry_loaded_def wq_n_def)
    have p: "unat slot = (B + ?d) mod wq_n x" using slot_pos(2)[OF B(2) sl] B(1) by (simp add: wq_n_def)
    have "next_pos side y \<le> B + ?d \<and>
          ((\<forall>k < length seen. bit (seen ! k) (q_bit side) = odd ((B + k) div wq_n x)) \<longrightarrow> B + length seen \<le> next_pos side y)"
      if same: "wq_stores y (unat slot) = v" and un: "bit (word0 e) (q_bit side) \<noteq> odd ((B + ?d) div wq_n x)"
    proof -
      have ne: "unat slot \<noteq> i"
      proof
        assume "unat slot = i"
        then have "wq_stores x (unat slot) + 1 = v" using same unfolding assms(3) by simp
        then show False using l by (simp add: entry_loaded_def)
      qed
      then have "wq_stores x (unat slot) = v" using same unfolding assms(3) by simp
      note K = K[OF this un]
      have "next_pos side y = next_pos side x \<or> next_pos side y = Suc (next_pos side x) \<and> next_pos side x \<noteq> B + ?d"
        using assms(5)[of side] ne p by auto
      then show ?thesis using K by auto
    qed
    then show ?thesis
      unfolding scan_knows_def Let_def n assms(2) using B by (intro exI[of _ B] exI[of _ c0]) simp
  qed
  then show ?thesis using assms(1) le by (cases s) auto
qed

lemma shownD:
  assumes "wq_entries_show typeOf receiverOf x"
  shows "marks_upto (wq_n x) (next_pos side x) (shown x (q_bit side))"
    "next_pos Enter x \<le> q \<Longrightarrow> q < next_pos Enter x + wq_n x \<Longrightarrow> shown x 29 (q mod wq_n x) = (q < next_pos Wake x)"
    "next_pos Wake x \<le> q \<Longrightarrow> q < next_pos Enter x \<Longrightarrow>
        entry_receiver (wq_buffer x (q mod wq_n x)) = wq_ident typeOf receiverOf (fst (wq_entered x ! (q - wq_n x)))"
  using assms unfolding wq_entries_show_def by blast+

lemma flog2_type: "ty = push_bit j (1 :: u16) \<Longrightarrow> j < 16 \<Longrightarrow> flog2 (unat ty) = j"
proof -
  assume a: "ty = push_bit j (1 :: u16)" "j < 16"
  have "unat (push_bit j 1 :: u16) = unat (1 :: u16) * 2 ^ j"
    by (rule unat_shiftl_small) (use power_strict_increasing[OF a(2), of "2 :: nat"] in simp)
  then show ?thesis unfolding a(1) by (simp only: unsigned_1 mult_1 flog2_power)
qed

lemma shows_enter_claim:
  assumes "wq_entries_show typeOf receiverOf x" "wq_counts N base x" "wq_buffer x i = e" "i = next_pos Enter x mod wq_n x"
    "enter_claim (typeOf t) (receiverOf t) (of_bool (odd (next_pos Enter x div wq_n x))) e = (e', sig)"
    "typeOf t = push_bit j 1" "j < 16" "unat (receiverOf t) < 2 ^ 48"
    "wq_buffer y = (wq_buffer x)(i := e')" "wq_entered y = wq_entered x @ [(t, sig)]" "wq_woken y = wq_woken x" "wq_n y = wq_n x"
  shows "wq_entries_show typeOf receiverOf y" "sig = (next_pos Enter x < next_pos Wake x)"
proof -
  let ?n = "wq_n x" and ?W = "next_pos Enter x" and ?V = "next_pos Wake x"
  have n: "0 < ?n" using assms(2) by (simp add: wq_counts_def)
  have np: "next_pos Enter y = ?W + 1" "next_pos Wake y = ?V" using assms(10-12) by (simp_all add: next_pos_def)
  note close = sides_close(1,2)[OF assms(2)]
  have fl: "flog2 (unat (typeOf t)) < 16" using flog2_type[OF assms(6,7)] assms(7) by simp
  note b = enter_claim_bits[OF assms(5) fl]
  have at: "shown y k i = bit (word0 e') k" "shown x k i = bit (word0 e) k" for k by (simp_all add: shown_def assms(3,9))
  have other: "shown y k s = shown x k s" if "s \<noteq> i" for k s using that by (simp add: shown_def assms(9))
  have "shown x 29 (?W mod ?n) = (?W < ?V)" by (rule shownD(2)[OF assms(1)]) (use n in simp_all)
  then show sig: "sig = (?W < ?V)" using b(1) at(2) assms(4) by simp
  show "wq_entries_show typeOf receiverOf y"
    unfolding wq_entries_show_def all_sides np assms(12)
  proof (intro conjI allI impI)
    show "marks_upto ?n (?W + 1) (shown y (q_bit Enter))"
      by (rule marks_write[OF shownD(1)[OF assms(1), of Enter] n]) (use other at b(2) assms(4) in \<open>simp_all add: q_bit_def\<close>)
    show "marks_upto ?n ?V (shown y (q_bit Wake))"
    proof (rule marks_cong[OF shownD(1)[OF assms(1), of Wake] n])
      show "shown y (q_bit Wake) s = shown x (q_bit Wake) s" for s
        using other[of s] at b(3) by (cases "s = i") (simp_all add: q_bit_def)
    qed
    fix q
    show "shown y 29 (q mod ?n) = (q < ?V)" if q: "?W + 1 \<le> q" "q < ?W + 1 + ?n"
    proof (cases "q = ?W + ?n")
      case True
      then have "shown y 29 (q mod ?n) = False" using at(1) b(4) assms(4) by simp
      then show ?thesis using True close(2) by simp
    next
      case False
      then have "q mod ?n \<noteq> ?W mod ?n" using same_slot_far[of ?W ?n q] q by auto
      then show ?thesis using other assms(4) shownD(2)[OF assms(1), of q] q False by simp
    qed
    show "entry_receiver (wq_buffer y (q mod ?n)) = wq_ident typeOf receiverOf (fst (wq_entered y ! (q - ?n)))" if q: "?V \<le> q" "q < ?W + 1"
    proof (cases "q = ?W")
      case True
      then have nosig: "sig = False" using sig q by simp
      have "entry_receiver e' = (push_bit j 1, receiverOf t)"
        by (rule enter_claim_receiver[OF _ assms(6-8)]) (use assms(5) nosig in simp)
      moreover have "(ucast (typeOf t) :: u32) = push_bit j 1"
        unfolding assms(6) by (rule bit_word_eqI) (use assms(7) in \<open>auto simp: bit_simps\<close>)
      moreover have "wq_entered y ! (?W - ?n) = (t, sig)" by (simp add: assms(10) next_pos_def)
      ultimately show ?thesis using True assms(4,9) by (simp add: wq_ident_def)
    next
      case False
      then have "q mod ?n \<noteq> ?W mod ?n" using same_slot_far[of q ?n ?W] q close(1) by auto
      then have "wq_buffer y (q mod ?n) = wq_buffer x (q mod ?n)" using assms(4,9) by simp
      moreover have "q - ?n < length (wq_entered x)" using False q n by (simp add: next_pos_def)
      then have "wq_entered y ! (q - ?n) = wq_entered x ! (q - ?n)" by (simp add: assms(10) nth_append)
      ultimately show ?thesis using shownD(3)[OF assms(1), of q] q False by simp
    qed
  qed
qed

lemma shows_wake_claim:
  assumes "wq_entries_show typeOf receiverOf x" "wq_paired typeOf receiverOf x" "wq_counts N base x" "wq_buffer x i = e"
    "i = next_pos Wake x mod wq_n x"
    "wake_claim (of_bool (odd (next_pos Wake x div wq_n x))) e = (e', found)"
    "wq_buffer y = (wq_buffer x)(i := e')" "wq_entered y = wq_entered x" "wq_woken y = wq_woken x @ [found]" "wq_n y = wq_n x"
  shows "wq_entries_show typeOf receiverOf y" "wq_paired typeOf receiverOf y"
    "found \<noteq> None \<longleftrightarrow> length (wq_woken x) < length (wq_entered x)"
proof -
  let ?n = "wq_n x" and ?W = "next_pos Enter x" and ?V = "next_pos Wake x"
  have n: "0 < ?n" using assms(3) by (simp add: wq_counts_def)
  have np: "next_pos Enter y = ?W" "next_pos Wake y = ?V + 1" using assms(8-10) by (simp_all add: next_pos_def)
  note close = sides_close(1,2)[OF assms(3)]
  note b = wake_claim_bits[OF assms(6)]
  have at: "shown y k i = bit (word0 e') k" "shown x k i = bit (word0 e) k" for k by (simp_all add: shown_def assms(4,7))
  have other: "shown y k s = shown x k s" if "s \<noteq> i" for k s using that by (simp add: shown_def assms(7))
  have "shown x 31 (?V mod ?n) = odd (?V div ?n) \<longleftrightarrow> ?V < ?W"
    by (rule marks_read[OF shownD(1)[OF assms(1), of Enter, unfolded q_bit_def q_side.case]])
      (use n close in \<open>simp_all add: next_pos_def\<close>)
  then have written: "bit (word0 e) 31 = odd (?V div ?n) \<longleftrightarrow> ?V < ?W" using at(2) assms(5) by simp
  have VW: "?V < ?W \<longleftrightarrow> length (wq_woken x) < length (wq_entered x)" by (simp add: next_pos_def)
  show f: "found \<noteq> None \<longleftrightarrow> length (wq_woken x) < length (wq_entered x)" using b(1) written VW by simp
  show "wq_entries_show typeOf receiverOf y"
    unfolding wq_entries_show_def all_sides np assms(10)
  proof (intro conjI allI impI)
    show "marks_upto ?n (?V + 1) (shown y (q_bit Wake))"
      by (rule marks_write[OF shownD(1)[OF assms(1), of Wake] n]) (use other at b(3) assms(5) in \<open>simp_all add: q_bit_def\<close>)
    show "marks_upto ?n ?W (shown y (q_bit Enter))"
    proof (rule marks_cong[OF shownD(1)[OF assms(1), of Enter] n])
      show "shown y (q_bit Enter) s = shown x (q_bit Enter) s" for s
        using other[of s] at b(2) by (cases "s = i") (simp_all add: q_bit_def)
    qed
    fix q
    show "shown y 29 (q mod ?n) = (q < ?V + 1)" if q: "?W \<le> q" "q < ?W + ?n"
    proof (cases "q mod ?n = ?V mod ?n")
      case True
      have e29: "shown y 29 (q mod ?n) = (\<not> ?V < ?W)" using True at(1) assms(5) b(4) written by simp
      show ?thesis
      proof (cases "?V < ?W")
        case v: True
        then have "?V < q" using q by simp
        then show ?thesis using e29 v by simp
      next
        case v: False
        have "q = ?V"
        proof (rule ccontr)
          assume "q \<noteq> ?V"
          then consider "q < ?V" | "?V < q" by linarith
          then show False
          proof cases
            case 1
            then show False using same_slot_far[OF True 1] q close(2) by simp
          next
            case 2
            then show False using same_slot_far[OF True[symmetric] 2] q v by simp
          qed
        qed
        then show ?thesis using e29 v by simp
      qed
    next
      case False
      then have "shown y 29 (q mod ?n) = (q < ?V)" using other assms(5) shownD(2)[OF assms(1), of q] q by simp
      moreover have "q \<noteq> ?V" using False by auto
      ultimately show ?thesis by auto
    qed
    show "entry_receiver (wq_buffer y (q mod ?n)) = wq_ident typeOf receiverOf (fst (wq_entered y ! (q - ?n)))" if q: "?V + 1 \<le> q" "q < ?W"
    proof -
      have "?V mod ?n \<noteq> q mod ?n" using same_slot_far[of ?V ?n q] q close(1) by auto
      then have "wq_buffer y (q mod ?n) = wq_buffer x (q mod ?n)" using assms(5,7) by simp
      then show ?thesis using shownD(3)[OF assms(1), of q] q assms(8) by simp
    qed
  qed
  have fnd: "found = (if length (wq_woken x) < length (wq_entered x) \<and> \<not> snd (wq_entered x ! length (wq_woken x))
      then Some (wq_ident typeOf receiverOf (fst (wq_entered x ! length (wq_woken x)))) else None)"
  proof (cases "?V < ?W")
    case True
    then have "entry_receiver e = wq_ident typeOf receiverOf (fst (wq_entered x ! (?V - ?n)))"
      using shownD(3)[OF assms(1), of ?V] assms(4,5) by simp
    moreover have "?V - ?n = length (wq_woken x)" by (simp add: next_pos_def)
    moreover have "\<not> snd (wq_entered x ! length (wq_woken x))" using assms(2) True VW by (auto simp: wq_paired_def)
    ultimately show ?thesis using b(1) written True VW by simp
  next
    case False
    then show ?thesis using f VW by (cases found) auto
  qed
  show "wq_paired typeOf receiverOf y"
    using assms(2) fnd unfolding wq_paired_def assms(8,9) by (auto simp: nth_append less_Suc_eq)
qed

lemma paired_enter_claim:
  assumes "wq_paired typeOf receiverOf x" "sig = (length (wq_entered x) < length (wq_woken x))"
    "wq_entered y = wq_entered x @ [(t, sig)]" "wq_woken y = wq_woken x"
  shows "wq_paired typeOf receiverOf y"
  unfolding wq_paired_def assms(3,4)
proof (intro conjI allI impI)
  fix k assume k: "k < length (wq_woken x)"
  have "wq_woken x ! k = (if k < length (wq_entered x) \<and> \<not> snd (wq_entered x ! k) then Some (wq_ident typeOf receiverOf (fst (wq_entered x ! k))) else None)"
    using assms(1) k by (simp add: wq_paired_def)
  then show "wq_woken x ! k = (if k < length (wq_entered x @ [(t, sig)]) \<and> \<not> snd ((wq_entered x @ [(t, sig)]) ! k)
      then Some (wq_ident typeOf receiverOf (fst ((wq_entered x @ [(t, sig)]) ! k))) else None)"
    using assms(2) k by (auto simp: nth_append less_Suc_eq split: if_splits)
next
  fix k assume "k < length (wq_entered x @ [(t, sig)])" "snd ((wq_entered x @ [(t, sig)]) ! k)"
  then show "k < length (wq_woken x)" using assms(1,2) by (auto simp: wq_paired_def nth_append less_Suc_eq split: if_splits)
qed

lemma tokens_enter_claim:
  assumes "wq_tokens N receiverOf x" "wq_paired typeOf receiverOf x" "t < N" "quiet (wq_threads x t)" "keeps (wq_threads x t) = None"
    "sig = (length (wq_entered x) < length (wq_woken x))"
    "wq_threads y = (wq_threads x)(t := WEntered (length (wq_entered x)) sig)" "wq_entered y = wq_entered x @ [(t, sig)]"
    "wq_woken y = wq_woken x" "wq_wakers y = wq_wakers x" "wq_signals y = wq_signals x" "wq_gone y = wq_gone x"
  shows "wq_tokens N receiverOf y"
proof -
  note T = tokensD[OF assms(1)]
  let ?k = "length (wq_entered x)"
  have ne: "i < length (wq_entered x) \<Longrightarrow> i \<notin> wq_gone x \<Longrightarrow> fst (wq_entered x ! i) \<noteq> t" for i
    using T(5)[of i] assms(5) by auto
  have en: "wq_entered y ! k = (if k < ?k then wq_entered x ! k else if k = ?k then (t, sig) else wq_entered y ! k)" for k
    by (simp add: assms(8) nth_append)
  have k: "?k \<notin> wq_gone x" using T(9) by auto
  have aw: "awaiting y i \<longleftrightarrow> awaiting x i \<or> i = ?k \<and> \<not> sig" for i
    using assms(4,5) unfolding awaiting_def assms(7,8) by (auto simp: nth_append less_Suc_eq)
  have un: "underway y i = underway x i" for i
    using assms(4) unfolding underway_def assms(7,9,10) by auto
  have nu: "underway x ?k \<Longrightarrow> wq_woken x ! ?k = None"
    using assms(2) by (auto simp: wq_paired_def underway_def)
  show ?thesis
    unfolding wq_tokens_def aw un
  proof (intro conjI)
    show "\<forall>u < N. wq_holds y u (wq_threads y u)"
    proof (intro allI impI)
      fix u assume u: "u < N"
      show "wq_holds y u (wq_threads y u)"
      proof (cases "u = t")
        case True
        then show ?thesis using k by (simp add: assms(7,8,12))
      next
        case False
        then show ?thesis using T(1)[OF u] by (cases "wq_threads x u") (auto simp: assms(7-10,12) nth_append)
      qed
    qed
    show "\<forall>i < length (wq_entered y). fst (wq_entered y ! i) < N" using T(3) assms(3) by (auto simp: assms(8) nth_append less_Suc_eq)
    show "\<forall>i < length (wq_entered y). i \<notin> wq_gone y \<longrightarrow> keeps (wq_threads y (fst (wq_entered y ! i))) = Some i"
      using T(5) ne by (auto simp: assms(7,8,12) nth_append less_Suc_eq)
    show "\<forall>r \<in> wq_signals y. \<exists>i. (awaiting x i \<or> i = ?k \<and> \<not> sig) \<and> i < length (wq_woken y) \<and> r = receiverOf (fst (wq_entered y ! i)) \<and> \<not> underway x i"
    proof
      fix r assume "r \<in> wq_signals y"
      then obtain i where i: "awaiting x i" "i < length (wq_woken x)" "r = receiverOf (fst (wq_entered x ! i))" "\<not> underway x i"
        using T(6) assms(11) by auto
      moreover have "i < ?k" using i(1) by (simp add: awaiting_def)
      ultimately show "\<exists>i. (awaiting x i \<or> i = ?k \<and> \<not> sig) \<and> i < length (wq_woken y) \<and> r = receiverOf (fst (wq_entered y ! i)) \<and> \<not> underway x i"
        using en[of i] by (auto simp: assms(9))
    qed
    show "\<forall>i. underway x i \<longrightarrow> wq_woken y ! i \<noteq> None \<longrightarrow> awaiting x i \<or> i = ?k \<and> \<not> sig"
      using T(7) by (simp add: assms(9))
    show "\<forall>i < length (wq_woken y). awaiting x i \<or> i = ?k \<and> \<not> sig \<longrightarrow> underway x i \<or> receiverOf (fst (wq_entered y ! i)) \<in> wq_signals y"
    proof (intro allI impI)
      fix i assume i: "i < length (wq_woken y)" "awaiting x i \<or> i = ?k \<and> \<not> sig"
      then have a: "awaiting x i" using assms(6,9) by auto
      then have "i < ?k" by (simp add: awaiting_def)
      then show "underway x i \<or> receiverOf (fst (wq_entered y ! i)) \<in> wq_signals y"
        using T(8)[of i] i(1) a en[of i] by (simp add: assms(9,11))
    qed
    show "wq_gone y \<subseteq> {..<length (wq_entered y)}" using T(9) by (auto simp: assms(8,12))
  qed (use T(2,4) in \<open>auto simp: assms(9,10)\<close>)
qed

lemma tokens_wake_claim:
  assumes "wq_tokens N receiverOf x" "wq_paired typeOf receiverOf x" "t < N" "quiet (wq_threads x t)" "keeps (wq_threads x t) = None"
    "wq_gone x \<subseteq> {..<length (wq_woken x)}" "found \<noteq> None \<longleftrightarrow> length (wq_woken x) < length (wq_entered x)"
    "wq_threads y = (wq_threads x)(t := WWoke (length (wq_woken x)) found)" "wq_entered y = wq_entered x"
    "wq_woken y = wq_woken x @ [found]" "wq_wakers y = wq_wakers x @ [t]" "wq_signals y = wq_signals x" "wq_gone y = wq_gone x"
  shows "wq_tokens N receiverOf y"
proof -
  note T = tokensD[OF assms(1)]
  let ?k = "length (wq_woken x)"
  have ne: "i < length (wq_entered x) \<Longrightarrow> i \<notin> wq_gone x \<Longrightarrow> fst (wq_entered x ! i) \<noteq> t" for i
    using T(5)[of i] assms(5) by auto
  have aw: "awaiting y i = awaiting x i" for i
    using assms(4,5) unfolding awaiting_def assms(8,9) by auto
  have un: "underway y i \<longleftrightarrow> underway x i \<or> i = ?k" for i
    using assms(4) T(2) unfolding underway_def assms(8,10,11) by (auto simp: nth_append less_Suc_eq)
  have new: "awaiting x ?k" if f: "found \<noteq> None"
  proof -
    have l: "?k < length (wq_entered x)" using assms(7) f by simp
    have "?k \<notin> wq_gone x" using assms(6) by auto
    note K = T(5)[OF l this]
    have holds: "wq_holds x (fst (wq_entered x ! ?k)) (wq_threads x (fst (wq_entered x ! ?k)))" using T(1,3) l by blast
    have ns: "\<not> snd (wq_entered x ! ?k)" using assms(2) l by (auto simp: wq_paired_def)
    show ?thesis
    proof (cases "wq_threads x (fst (wq_entered x ! ?k))")
      case (WEntered i f)
      then have "wq_entered x ! ?k = (fst (wq_entered x ! ?k), f)" "i = ?k" using K holds by simp_all
      then show ?thesis using WEntered ns l by (metis (full_types) awaiting_def snd_conv)
    next
      case (WWaiting i)
      then show ?thesis using K l by (simp add: awaiting_def)
    next
      case (WAwake i)
      then show ?thesis using K holds by simp
    qed (use K in simp_all)
  qed
  show ?thesis
    unfolding wq_tokens_def aw un
  proof (intro conjI)
    show "\<forall>u < N. wq_holds y u (wq_threads y u)"
    proof (intro allI impI)
      fix u assume u: "u < N"
      show "wq_holds y u (wq_threads y u)"
      proof (cases "u = t")
        case True
        then show ?thesis using T(2) by (simp add: assms(8,10,11) nth_append)
      next
        case False
        then show ?thesis using T(1)[OF u] T(2) by (cases "wq_threads x u") (auto simp: assms(8-11,13) nth_append)
      qed
    qed
    show "length (wq_wakers y) = length (wq_woken y)" using T(2) by (simp add: assms(10,11))
    show "\<forall>i < length (wq_wakers y). wq_wakers y ! i < N" using T(4) assms(3) by (auto simp: assms(11) nth_append less_Suc_eq)
    show "\<forall>i < length (wq_entered y). i \<notin> wq_gone y \<longrightarrow> keeps (wq_threads y (fst (wq_entered y ! i))) = Some i"
      using T(5) ne by (auto simp: assms(8,9,13))
    show "\<forall>r \<in> wq_signals y. \<exists>i. awaiting x i \<and> i < length (wq_woken y) \<and> r = receiverOf (fst (wq_entered y ! i)) \<and> \<not> (underway x i \<or> i = ?k)"
      using T(6) by (fastforce simp: assms(9,10,12))
    show "\<forall>i. underway x i \<or> i = ?k \<longrightarrow> wq_woken y ! i \<noteq> None \<longrightarrow> awaiting x i"
    proof (intro allI impI)
      fix i assume i: "underway x i \<or> i = ?k" "wq_woken y ! i \<noteq> None"
      show "awaiting x i"
      proof (cases "i = ?k")
        case True
        then show ?thesis using i(2) new by (simp add: assms(10) nth_append)
      next
        case False
        then have "underway x i" using i(1) by simp
        then show ?thesis using T(7)[of i] i(2) by (auto simp: assms(10) nth_append underway_def)
      qed
    qed
    show "\<forall>i < length (wq_woken y). awaiting x i \<longrightarrow> (underway x i \<or> i = ?k) \<or> receiverOf (fst (wq_entered y ! i)) \<in> wq_signals y"
      using T(8) by (auto simp: assms(9,10,12) less_Suc_eq)
  qed (use T(3,9) in \<open>auto simp: assms(9,13)\<close>)
qed

lemma inv_enter_claim:
  assumes "wq_inv N typeOf receiverOf x" "t < N" "wq_threads x t = WScan Enter b i slot e v h seen" "\<not> scan_more Enter slot h seen"
    "claim_pass Enter b i slot e h seen = Claim parity" "wq_stores x (unat slot) = v"
    "enter_claim (typeOf t) (receiverOf t) parity e = (e', sig)" "typeOf t = push_bit j 1" "j < 16" "unat (receiverOf t) < 2 ^ 48"
  shows "wq_inv N typeOf receiverOf (wq_set t (WEntered (length (wq_entered x)) sig)
           (wq_store (unat slot) e' (x\<lparr>wq_entered := wq_entered x @ [(t, sig)]\<rparr>)))"
proof -
  let ?y = "wq_set t (WEntered (length (wq_entered x)) sig) (wq_store (unat slot) e' (x\<lparr>wq_entered := wq_entered x @ [(t, sig)]\<rparr>))"
  obtain base where base: "wq_counts N base x" "\<forall>u < N. wq_local base x (wq_threads x u)" using assms(1) by (auto simp: wq_inv_def)
  have rest: "wq_entries_show typeOf receiverOf x" "wq_paired typeOf receiverOf x" "wq_tokens N receiverOf x" using assms(1) by (auto simp: wq_inv_def)
  have l: "wq_local base x (WScan Enter b i slot e v h seen)" using base(2) assms(2,3) by metis
  note at = claim_at[OF base(1) l assms(4-6)]
  have np: "next_pos Enter ?y = Suc (next_pos Enter x)" "next_pos Wake ?y = next_pos Wake x" by (simp_all add: next_pos_def)
  have y: "wq_buffer ?y = (wq_buffer x)(unat slot := e')" "wq_entered ?y = wq_entered x @ [(t, sig)]" "wq_woken ?y = wq_woken x"
    "wq_n ?y = wq_n x" "wq_stores ?y = (wq_stores x)(unat slot := wq_stores x (unat slot) + 1)" "q_entries (wq_header ?y) = q_entries (wq_header x)"
    by simp_all
  note S = shows_enter_claim[OF rest(1) base(1) at(4,1) assms(7)[unfolded at(2)] assms(8-10) y(1-4)]
  have sig: "sig = (length (wq_entered x) < length (wq_woken x))" using S(2) by (simp add: next_pos_def)
  note num = wq_numbers[OF assms(2), of "wq_threads x" "WEntered (length (wq_entered x)) sig"]
  have "wq_counts N base ?y"
    using base(1) assms(3) num at(3) by (simp add: wq_counts_def all_sides np)
  moreover have sides: "\<forall>side. next_pos side ?y = next_pos side x \<or> next_pos side ?y = Suc (next_pos side x) \<and> unat slot = next_pos side x mod wq_n x"
    unfolding all_sides np using at(1) by simp
  then have "\<forall>u < N. wq_local base ?y (wq_threads ?y u)"
  proof (intro allI impI)
    fix u assume u: "u < N"
    have "wq_local base ?y (wq_threads x u)"
      by (rule local_claim[OF _ y(6,5,1) sides[rule_format]]) (use base(2) u in blast)
    then show "wq_local base ?y (wq_threads ?y u)" by simp
  qed
  moreover have "wq_tokens N receiverOf ?y"
    by (rule tokens_enter_claim[OF rest(3,2) assms(2) _ _ sig]) (simp_all add: assms(3))
  ultimately show ?thesis
    unfolding wq_inv_def using S(1) paired_enter_claim[OF rest(2) sig y(2,3)] by blast
qed

lemma inv_wake_claim:
  assumes "wq_inv N typeOf receiverOf x" "t < N" "wq_threads x t = WScan Wake b i slot e v h seen" "\<not> scan_more Wake slot h seen"
    "claim_pass Wake b i slot e h seen = Claim parity" "wq_stores x (unat slot) = v" "wake_claim parity e = (e', found)"
  shows "wq_inv N typeOf receiverOf (wq_set t (WWoke (length (wq_woken x)) found)
           (wq_store (unat slot) e' (x\<lparr>wq_woken := wq_woken x @ [found], wq_wakers := wq_wakers x @ [t]\<rparr>)))"
proof -
  let ?y = "wq_set t (WWoke (length (wq_woken x)) found) (wq_store (unat slot) e' (x\<lparr>wq_woken := wq_woken x @ [found], wq_wakers := wq_wakers x @ [t]\<rparr>))"
  obtain base where base: "wq_counts N base x" "\<forall>u < N. wq_local base x (wq_threads x u)" using assms(1) by (auto simp: wq_inv_def)
  have rest: "wq_entries_show typeOf receiverOf x" "wq_paired typeOf receiverOf x" "wq_tokens N receiverOf x" using assms(1) by (auto simp: wq_inv_def)
  have l: "wq_local base x (WScan Wake b i slot e v h seen)" using base(2) assms(2,3) by metis
  note at = claim_at[OF base(1) l assms(4-6)]
  have np: "next_pos Wake ?y = Suc (next_pos Wake x)" "next_pos Enter ?y = next_pos Enter x" by (simp_all add: next_pos_def)
  have y: "wq_buffer ?y = (wq_buffer x)(unat slot := e')" "wq_entered ?y = wq_entered x" "wq_woken ?y = wq_woken x @ [found]"
    "wq_n ?y = wq_n x" "wq_stores ?y = (wq_stores x)(unat slot := wq_stores x (unat slot) + 1)" "q_entries (wq_header ?y) = q_entries (wq_header x)"
    by (simp_all add: wq_n_def)
  note S = shows_wake_claim[OF rest(1,2) base(1) at(4,1) assms(7)[unfolded at(2)] y(1-4)]
  have gone: "wq_gone x \<subseteq> {..<length (wq_woken x)}" using base(1) by (simp add: wq_counts_def)
  note num = wq_numbers[OF assms(2), of "wq_threads x" "WWoke (length (wq_woken x)) found"]
  have "wq_counts N base ?y"
    using base(1) assms(3) num at(3) by (auto simp: wq_counts_def all_sides np)
  moreover have sides: "\<forall>side. next_pos side ?y = next_pos side x \<or> next_pos side ?y = Suc (next_pos side x) \<and> unat slot = next_pos side x mod wq_n x"
    unfolding all_sides np using at(1) by simp
  then have "\<forall>u < N. wq_local base ?y (wq_threads ?y u)"
  proof (intro allI impI)
    fix u assume u: "u < N"
    have "wq_local base ?y (wq_threads x u)"
      by (rule local_claim[OF _ y(6,5,1) sides[rule_format]]) (use base(2) u in blast)
    then show "wq_local base ?y (wq_threads ?y u)" by simp
  qed
  moreover have "wq_tokens N receiverOf ?y"
    by (rule tokens_wake_claim[OF rest(3,2) assms(2) _ _ gone S(3)]) (simp_all add: assms(3))
  ultimately show ?thesis
    unfolding wq_inv_def using S(1,2) by blast
qed

section \<open>Every step\<close>

text \<open>
  What the platform provides: thread types of one bit, distinct 48-bit receivers, fewer threads than the counts of
  the header can hold, and a notifier for each thread's type, as the objects' checks ask for.
\<close>

definition wq_env :: "nat \<Rightarrow> (nat \<Rightarrow> u16) \<Rightarrow> (nat \<Rightarrow> u64) \<Rightarrow> s2_notifier list \<Rightarrow> bool" where
  "wq_env N typeOf receiverOf nts \<longleftrightarrow> N < 2 ^ 15 \<and> (\<forall>t < N. \<exists>j < 16. typeOf t = push_bit j 1) \<and>
     (\<forall>t < N. unat (receiverOf t) < 2 ^ 48) \<and> inj_on receiverOf {..<N} \<and>
     (\<forall>t < N. notifies (find_notifier nts (ucast (typeOf t)) None))"

lemma inv_scan_decide:
  assumes "wq_inv N typeOf receiverOf x" "wq_env N typeOf receiverOf nts" "t < N" "wq_threads x t = WScan side b i slot e v h seen"
    "\<not> scan_more side slot h seen" "wq_move typeOf receiverOf nts t choice x = Some y"
  shows "wq_inv N typeOf receiverOf y"
proof (cases "claim_pass side b i slot e h seen")
  case (GoOn b' i')
  then have "y = wq_set t (WLoop side b' i') x" using assms(4-6) by (simp add: wq_move_def Let_def)
  then show ?thesis using inv_loop_step[OF assms(1,3), of "WLoop side b' i'"] assms(4) by simp
next
  case (Claim parity)
  show ?thesis
  proof (cases "choice \<and> wq_stores x (unat slot) = v")
    case False
    then have "y = wq_set t (WLoop side b i) x" using assms(4-6) Claim by (auto simp: wq_move_def Let_def)
    then show ?thesis using inv_loop_step[OF assms(1,3), of "WLoop side b i"] assms(4) by simp
  next
    case True
    obtain j where j: "j < 16" "typeOf t = push_bit j 1" using assms(2,3) by (auto simp: wq_env_def)
    have r: "unat (receiverOf t) < 2 ^ 48" using assms(2,3) by (simp add: wq_env_def)
    show ?thesis
    proof (cases side)
      case Enter
      obtain e' sig where c: "enter_claim (typeOf t) (receiverOf t) parity e = (e', sig)" by fastforce
      have "y = wq_set t (WEntered (length (wq_entered x)) sig) (wq_store (unat slot) e' (x\<lparr>wq_entered := wq_entered x @ [(t, sig)]\<rparr>))"
        using assms(4-6) Claim True c Enter by (simp add: wq_move_def Let_def)
      then show ?thesis
        using inv_enter_claim[OF assms(1,3) assms(4,5)[unfolded Enter] Claim[unfolded Enter] _ c j(2,1) r] True by simp
    next
      case Wake
      obtain e' found where c: "wake_claim parity e = (e', found)" by fastforce
      have "y = wq_set t (WWoke (length (wq_woken x)) found)
          (wq_store (unat slot) e' (x\<lparr>wq_woken := wq_woken x @ [found], wq_wakers := wq_wakers x @ [t]\<rparr>))"
        using assms(4-6) Claim True c Wake by (simp add: wq_move_def Let_def)
      then show ?thesis
        using inv_wake_claim[OF assms(1,3) assms(4,5)[unfolded Wake] Claim[unfolded Wake] _ c] True by simp
    qed
  qed
qed

text \<open>The notifier of the type a wake-up found is there.\<close>

lemma woken_notified:
  assumes "wq_inv N typeOf receiverOf x" "wq_env N typeOf receiverOf nts" "t < N" "wq_threads x t = WWoke k (Some (typeId, receiver))"
  shows "notifies (find_notifier nts typeId None)"
proof -
  have h: "k < length (wq_woken x)" "wq_woken x ! k = Some (typeId, receiver)" using holds_of[OF assms(1,3)] assms(4) by simp_all
  have "wq_paired typeOf receiverOf x" using assms(1) by (simp add: wq_inv_def)
  note F = woken_found[OF this h]
  have "fst (wq_entered x ! k) < N" by (rule tokensD(3)[OF inv_tokens[OF assms(1)] F(1)])
  then show ?thesis using assms(2) F(3) by (simp add: wq_env_def wq_ident_def)
qed

theorem wq_inv_step:
  assumes "wq_step N typeOf receiverOf nts x y" "wq_env N typeOf receiverOf nts" "wq_inv N typeOf receiverOf x"
  shows "wq_inv N typeOf receiverOf y"
  using assms(1)
proof cases
  case (move t choice)
  note env = assms(2)[unfolded wq_env_def]
  show ?thesis
  proof (cases "wq_threads x t")
    case WIdle
    then show ?thesis
      using move inv_register[OF assms(3) move(1) WIdle] inv_signal[OF assms(3) move(1) WIdle]
      by (auto simp: wq_move_def Let_def wq_n_def split: if_splits)
  next
    case WRegistered
    then show ?thesis using move inv_enter_announce[OF assms(3) move(1) _ WRegistered] env by (auto simp: wq_move_def Let_def)
  next
    case (WLoop side b i)
    then show ?thesis using move inv_load[OF assms(3) move(1) WLoop refl] by (auto simp: wq_move_def Let_def)
  next
    case (WLoaded side b i slot e v)
    then show ?thesis using move inv_read_header[OF assms(3) move(1) WLoaded] by (auto simp: wq_move_def Let_def)
  next
    case (WScan side b i slot e v h seen)
    show ?thesis
    proof (cases "scan_more side slot h seen")
      case True
      then show ?thesis using move inv_read_entry[OF assms(3) move(1) WScan True refl] WScan by (auto simp: wq_move_def Let_def)
    next
      case False
      show ?thesis by (rule inv_scan_decide[OF assms(3,2) move(1) WScan False move(2)])
    qed
  next
    case (WEntered k f)
    then show ?thesis using move inv_enter_retire[OF assms(3) move(1) WEntered] by (auto simp: wq_move_def Let_def)
  next
    case (WWaiting k)
    then show ?thesis using move inv_wait[OF assms(3) move(1) WWaiting] env by (auto simp: wq_move_def Let_def split: if_splits)
  next
    case (WAwake k)
    then show ?thesis using move inv_leave_queue[OF assms(3) move(1) WAwake] by (auto simp: wq_move_def Let_def)
  next
    case WSignaller
    then show ?thesis
      using move inv_wake_announce[OF assms(3) move(1) _ WSignaller] inv_loop_announce[OF assms(3) move(1) WSignaller] env
      by (auto simp: wq_move_def Let_def split: option.splits)
  next
    case (WWoke k found)
    show ?thesis
    proof (cases found)
      case None
      then show ?thesis using move inv_wake_retire[OF assms(3) move(1) WWoke] WWoke by (auto simp: wq_move_def Let_def)
    next
      case (Some f)
      obtain ty r where f: "f = (ty, r)" by (cases f)
      then have "notifies (find_notifier nts ty None)" using woken_notified[OF assms(3,2) move(1)] WWoke Some by simp
      then show ?thesis using move inv_wake_retire[OF assms(3) move(1) WWoke] WWoke Some f by (auto simp: wq_move_def Let_def)
    qed
  next
    case (WSending k r)
    then show ?thesis using move inv_send[OF assms(3) move(1) WSending] by (auto simp: wq_move_def Let_def)
  next
    case WFailed
    then show ?thesis using move by (simp add: wq_move_def Let_def)
  qed
qed

lemma wq_inv_start:
  assumes "1 < unat entries"
  shows "wq_inv N typeOf receiverOf (wq_start entries)"
proof -
  let ?x = "wq_start entries" and ?n = "unat entries"
  have n: "wq_n ?x = ?n" "next_pos side ?x = ?n" for side by (simp_all add: wq_start_def wq_n_def next_pos_def split: q_side.split)
  have zero: "number N P (wq_threads ?x) = 0" if "\<not> P WIdle" for P using that by (simp add: number_none wq_start_def)
  have pos: "at_pos side ?n 0 (wq_header ?x)" for side
  proof -
    have "bit (S2_PHASE :: u16) 15" "unat (S2_PHASE AND S2_COUNT :: u16) = 0" by simp_all
    then show ?thesis using assms by (cases side) (simp_all add: at_pos_def q_idx_def q_ctl_def wq_start_def)
  qed
  have "wq_counts N (\<lambda>_. ?n) ?x"
    using pos assms by (simp add: wq_counts_def all_sides n zero) (simp add: wq_start_def)
  moreover have "wq_entries_show typeOf receiverOf ?x"
  proof -
    have sh: "shown ?x b s = False" for b s by (simp add: shown_def wq_start_def)
    have "marks_upto ?n ?n (shown ?x b)" for b by (auto simp: marks_upto_def sh)
    then show ?thesis by (simp add: wq_entries_show_def n sh)
  qed
  moreover have "wq_paired typeOf receiverOf ?x" by (simp add: wq_paired_def wq_start_def)
  moreover have "wq_tokens N receiverOf ?x" by (simp add: wq_tokens_def wq_start_def underway_def)
  ultimately show ?thesis unfolding wq_inv_def by (auto simp: wq_start_def)
qed

theorem wq_reachable_inv:
  assumes "(wq_step N typeOf receiverOf nts)\<^sup>*\<^sup>* (wq_start entries) x" "wq_env N typeOf receiverOf nts" "1 < unat entries"
  shows "wq_inv N typeOf receiverOf x"
  using assms(1)
proof (induction rule: rtranclp_induct)
  case base
  then show ?case by (rule wq_inv_start[OF assms(3)])
next
  case (step x y)
  then show ?case using wq_inv_step assms(2) by blast
qed

end
