(* ===== verification/Sync2_Waiting_Props.thy ===== *)
theory Sync2_Waiting_Props
  imports Sync2_Waiting_Inv
begin

text \<open>
  The properties of the waiting queue of \<open>sdk/libsync2\<close>: pairing of waiters and wake-ups, delivery, and when
  a wake-up is refused, with runs that are executed.
\<close>

section \<open>Runs\<close>

text \<open>A run given by its moves.\<close>

fun wq_run :: "(nat \<Rightarrow> u16) \<Rightarrow> (nat \<Rightarrow> u64) \<Rightarrow> s2_notifier list \<Rightarrow> (nat \<times> bool) list \<Rightarrow> wq_sys \<Rightarrow> wq_sys option" where
  "wq_run typeOf receiverOf nts [] x = Some x"
| "wq_run typeOf receiverOf nts ((t, choice) # moves) x =
     (case wq_move typeOf receiverOf nts t choice x of None \<Rightarrow> None | Some y \<Rightarrow> wq_run typeOf receiverOf nts moves y)"

lemma wq_run_reaches:
  "wq_run typeOf receiverOf nts moves x = Some y \<Longrightarrow> (\<forall>m \<in> set moves. fst m < N) \<Longrightarrow> (wq_step N typeOf receiverOf nts)\<^sup>*\<^sup>* x y"
proof (induction moves arbitrary: x)
  case (Cons m moves)
  obtain t choice where m: "m = (t, choice)" by (cases m)
  then obtain z where z: "wq_move typeOf receiverOf nts t choice x = Some z" "wq_run typeOf receiverOf nts moves z = Some y"
    using Cons.prems(1) by (auto split: option.splits)
  have "t < N" using Cons.prems(2) m by simp
  then have "wq_step N typeOf receiverOf nts x z" using z(1) by (rule wq_step.move)
  moreover have "(wq_step N typeOf receiverOf nts)\<^sup>*\<^sup>* z y" using Cons z(2) by simp
  ultimately show ?case by (rule converse_rtranclp_into_rtranclp)
qed simp

text \<open>Four threads of one type on a queue for a single waiter: thread 0 waits, the others wake.\<close>

definition one_type :: "nat \<Rightarrow> u16" where "one_type t = 1"

definition own_receiver :: "nat \<Rightarrow> u64" where "own_receiver t = of_nat t"

definition one_notifier :: "s2_notifier list" where "one_notifier = [\<lparr>nt_threadTypeId = 1, nt_sendSignal = True\<rparr>]"

lemma example_env: "wq_env 4 one_type own_receiver one_notifier"
proof -
  have four: "t < (4 :: nat) \<longleftrightarrow> t = 0 \<or> t = 1 \<or> t = 2 \<or> t = 3" for t by auto
  have "inj_on own_receiver {..<4}" by (auto simp: inj_on_def own_receiver_def lessThan_iff four)
  moreover have "one_type t = push_bit 0 1" for t by (simp add: one_type_def)
  moreover have "\<forall>t < 4. unat (own_receiver t) < 2 ^ 48" by (auto simp: own_receiver_def four)
  ultimately show ?thesis
    by (auto simp: wq_env_def one_notifier_def notifies_def one_type_def intro: exI[of _ 0])
qed

text \<open>A waiter that enters and blocks; a waker up to its claim; its retirement; and a waiter that finds the mark.\<close>

definition enters_and_waits :: "(nat \<times> bool) list" where "enters_and_waits = replicate 6 (0, True)"

definition wakes :: "nat \<Rightarrow> (nat \<times> bool) list" where "wakes w = (w, False) # replicate 4 (w, True)"

definition passes :: "(nat \<times> bool) list" where "passes = replicate 6 (0, True)"

section \<open>Pairing\<close>

lemma entries_constant_step:
  assumes "wq_move typeOf receiverOf nts t choice x = Some y"
  shows "q_entries (wq_header y) = q_entries (wq_header x)"
  using assms
  by (auto simp: wq_move_def Let_def wake_announce_def enter_announce_def enter_retire_def wake_retire_def
      split: wq_thread.splits if_splits option.splits claim_next.splits q_side.splits prod.splits)

lemma entries_constant: "(wq_step N typeOf receiverOf nts)\<^sup>*\<^sup>* (wq_start entries) x \<Longrightarrow> wq_n x = unat entries"
proof -
  assume "(wq_step N typeOf receiverOf nts)\<^sup>*\<^sup>* (wq_start entries) x"
  then have "q_entries (wq_header x) = entries"
  proof (induction rule: rtranclp_induct)
    case (step x y)
    then show ?case using entries_constant_step by (auto elim!: wq_step.cases)
  qed (simp add: wq_start_def)
  then show ?thesis by (simp add: wq_n_def)
qed

text \<open>C17: Waiters and wake-ups of a waiting queue are paired in order, whatever the interleaving of the accesses to
  header and entries: the \<open>k\<close>-th wake-up to get an entry is handed the thread type and the receiver of the \<open>k\<close>-th
  waiter if that waiter blocks, and otherwise leaves the mark; a waiter that finds the mark is one whose wake-up has been;
  and neither side gets as many entries ahead of the other as the queue has.\<close>

theorem waiting_queue_fifo:
  assumes "(wq_step N typeOf receiverOf nts)\<^sup>*\<^sup>* (wq_start entries) x" "wq_env N typeOf receiverOf nts" "1 < unat entries"
  shows "(\<forall>k < length (wq_woken x). wq_woken x ! k =
        (if k < length (wq_entered x) \<and> \<not> snd (wq_entered x ! k)
         then Some (ucast (typeOf (fst (wq_entered x ! k))), receiverOf (fst (wq_entered x ! k))) else None)) \<and>
    (\<forall>k < length (wq_entered x). snd (wq_entered x ! k) \<longrightarrow> k < length (wq_woken x)) \<and>
    length (wq_entered x) < length (wq_woken x) + unat entries \<and> length (wq_woken x) < length (wq_entered x) + unat entries"
proof -
  have inv: "wq_inv N typeOf receiverOf x" by (rule wq_reachable_inv[OF assms])
  then obtain base where "wq_counts N base x" by (auto simp: wq_inv_def)
  note close = sides_close(1,2)[OF this]
  have "wq_paired typeOf receiverOf x" using inv by (simp add: wq_inv_def)
  then show ?thesis using close entries_constant[OF assms(1)] by (simp add: wq_paired_def wq_ident_def next_pos_def)
qed

text \<open>A run in which the first waiter blocks and is handed its wake-up, and the second finds the mark.\<close>

definition example_moves :: "(nat \<times> bool) list" where
  "example_moves = enters_and_waits @ wakes 1 @ [(1, True), (1, True), (0, True), (0, True)] @ [(0, True)] @ wakes 2 @ tl passes"

lemma example_outcome:
  "map_option (\<lambda>x. (wq_entered x, wq_woken x)) (wq_run one_type own_receiver one_notifier example_moves (wq_start 2)) =
    Some ([(0, False), (0, True)], [Some (1, 0), None])"
  by code_simp

lemma example_reaches:
  obtains x where "(wq_step 4 one_type own_receiver one_notifier)\<^sup>*\<^sup>* (wq_start 2) x"
    "wq_entered x = [(0, False), (0, True)]" "wq_woken x = [Some (1, 0), None]"
proof -
  obtain x where x: "wq_run one_type own_receiver one_notifier example_moves (wq_start 2) = Some x"
      "wq_entered x = [(0, False), (0, True)]" "wq_woken x = [Some (1, 0), None]"
    using example_outcome by auto
  have "\<forall>m \<in> set example_moves. fst m < 4"
    by (simp add: example_moves_def enters_and_waits_def wakes_def passes_def)
  from wq_run_reaches[OF x(1) this] show ?thesis using that x(2,3) by blast
qed

theorem waiting_queue_fifo_witness:
  "\<exists>x. (wq_step 4 one_type own_receiver one_notifier)\<^sup>*\<^sup>* (wq_start 2) x \<and> length (wq_entered x) = 2 \<and>
    wq_woken x ! 0 = Some (ucast (one_type 0), own_receiver 0) \<and> wq_woken x ! 1 = None"
proof -
  obtain x where x: "(wq_step 4 one_type own_receiver one_notifier)\<^sup>*\<^sup>* (wq_start 2) x"
    "wq_entered x = [(0, False), (0, True)]" "wq_woken x = [Some (1, 0), None]" by (rule example_reaches)
  have e: "1 < unat (2 :: u16)" by simp
  note P = conjunct1[OF waiting_queue_fifo[OF x(1) example_env e]]
  have "wq_woken x ! 0 = Some (ucast (one_type 0), own_receiver 0)" "wq_woken x ! 1 = None"
    using P[rule_format, of 0] P[rule_format, of 1] x(2,3) by simp_all
  then show ?thesis using x(1,2) by (intro exI[of _ x]) simp
qed

section \<open>Delivery\<close>

text \<open>C18: A blocked waiter gets its signal exactly when its own wake-up has been: a signal is there for it only if the
  wake-up with its number has got an entry; from then on, either the signal is there or one waker is still on its way with
  that number and this waiter's receiver; and a waiter is released only after the wake-up with its number.\<close>

theorem waiting_queue_delivers:
  assumes "(wq_step N typeOf receiverOf nts)\<^sup>*\<^sup>* (wq_start entries) x" "wq_env N typeOf receiverOf nts" "1 < unat entries" "t < N"
  shows "(\<forall>k. wq_threads x t = WWaiting k \<longrightarrow>
      fst (wq_entered x ! k) = t \<and>
      (receiverOf t \<in> wq_signals x \<longrightarrow> k < length (wq_woken x)) \<and>
      (k < length (wq_woken x) \<longrightarrow> receiverOf t \<in> wq_signals x \<or>
         (\<exists>u < N. wq_threads x u = WWoke k (Some (ucast (typeOf t), receiverOf t)) \<or> wq_threads x u = WSending k (receiverOf t)))) \<and>
    (\<forall>k. wq_threads x t = WAwake k \<longrightarrow> k < length (wq_woken x))"
proof (intro conjI allI impI)
  have inv: "wq_inv N typeOf receiverOf x" by (rule wq_reachable_inv[OF assms(1-3)])
  note T = tokensD[OF inv_tokens[OF inv]]
  have paired: "wq_paired typeOf receiverOf x" using inv by (simp add: wq_inv_def)
  show "k < length (wq_woken x)" if "wq_threads x t = WAwake k" for k using holds_of[OF inv assms(4)] that by simp
  fix k assume w: "wq_threads x t = WWaiting k"
  note A = awaiting_thread[OF inv_tokens[OF inv] assms(4) w]
  show "fst (wq_entered x ! k) = t" by (rule A(2))
  show "k < length (wq_woken x)" if s: "receiverOf t \<in> wq_signals x"
  proof -
    obtain i where i: "awaiting x i" "i < length (wq_woken x)" "receiverOf t = receiverOf (fst (wq_entered x ! i))" using T(6)[OF s] by blast
    have "fst (wq_entered x ! i) < N" using T(3) i(1) by (simp add: awaiting_def)
    then have "fst (wq_entered x ! i) = t" using assms(2,4) i(3) by (auto simp: wq_env_def inj_on_def)
    then show ?thesis using A(3) i by blast
  qed
  assume k: "k < length (wq_woken x)"
  show "receiverOf t \<in> wq_signals x \<or>
         (\<exists>u < N. wq_threads x u = WWoke k (Some (ucast (typeOf t), receiverOf t)) \<or> wq_threads x u = WSending k (receiverOf t))"
  proof (cases "receiverOf t \<in> wq_signals x")
    case False
    then have u: "underway x k" using T(8)[OF k A(1)] A(2) by simp
    have un: "wq_wakers x ! k < N" using T(2,4) k by simp
    have e: "k < length (wq_entered x)" "\<not> snd (wq_entered x ! k)" by (rule awaiting_entry[OF inv_tokens[OF inv] A(1)])+
    then have f: "wq_woken x ! k = Some (ucast (typeOf t), receiverOf t)" using paired k A(2) by (simp add: wq_paired_def wq_ident_def)
    have "wq_holds x (wq_wakers x ! k) (wq_threads x (wq_wakers x ! k))" by (rule T(1)[OF un])
    then have "wq_threads x (wq_wakers x ! k) = WWoke k (Some (ucast (typeOf t), receiverOf t)) \<or> wq_threads x (wq_wakers x ! k) = WSending k (receiverOf t)"
      using u f by (auto simp: underway_def)
    then show ?thesis using un by blast
  qed simp
qed

lemma example_signalled:
  "map_option (\<lambda>x. (wq_threads x 0, length (wq_woken x))) (wq_run one_type own_receiver one_notifier (enters_and_waits @ wakes 1) (wq_start 2)) =
    Some (WWaiting 0, 1)"
  by code_simp

theorem waiting_queue_delivers_witness:
  "\<exists>x. (wq_step 4 one_type own_receiver one_notifier)\<^sup>*\<^sup>* (wq_start 2) x \<and> wq_threads x 0 = WWaiting 0 \<and>
    (own_receiver 0 \<in> wq_signals x \<or> (\<exists>u < 4. wq_threads x u = WWoke 0 (Some (1, own_receiver 0)) \<or> wq_threads x u = WSending 0 (own_receiver 0)))"
proof -
  obtain x where x: "wq_run one_type own_receiver one_notifier (enters_and_waits @ wakes 1) (wq_start 2) = Some x"
      "wq_threads x 0 = WWaiting 0" "length (wq_woken x) = 1"
    using example_signalled by auto
  have "\<forall>m \<in> set (enters_and_waits @ wakes 1). fst m < 4" by (simp add: enters_and_waits_def wakes_def)
  note r = wq_run_reaches[OF x(1) this]
  have e: "1 < unat (2 :: u16)" "(0 :: nat) < 4" by simp_all
  have "(ucast (one_type 0) :: u32) = 1" by (simp add: one_type_def)
  then show ?thesis using waiting_queue_delivers[OF r example_env e] x(2,3) r by (intro exI[of _ x]) simp
qed

section \<open>Refusals\<close>

text \<open>
  The announcement's test, exactly.  It compares the slot behind the announced wake-ups with the enter index, and the laps'
  parities with one wrap at most, where \<open>w\<close> is how often the sum wraps: an even number of two or more is taken for none.
\<close>

definition wake_wraps :: "nat \<Rightarrow> s2_queue_header \<Rightarrow> nat" where
  "wake_wraps b h = (unat (wake_idx h) + b + 1) div unat (q_entries h)"

lemma announce_exact:
  assumes "at_pos Wake B b h" "at_pos Enter E a h" "0 < unat (q_entries h)" "b + 1 < 2 ^ 15"
    "B + b + 1 < E + unat (q_entries h)" "E < B + b + 1 + unat (q_entries h)"
  shows "wake_announce h = None \<longleftrightarrow> B + b + 1 = E \<and> 2 \<le> wake_wraps b h \<and> even (wake_wraps b h)"
    "B + b + 1 = E \<longleftrightarrow> (unat (wake_idx h) + b + 1) mod unat (q_entries h) = unat (enter_idx h)"
proof -
  let ?n = "unat (q_entries h)"
  define busy where "busy = ((wake_ctl h AND S2_COUNT) + 1) AND S2_COUNT"
  have n: "?n < 2 ^ 16" using unsigned_less[of "q_entries h"] by simp
  have c: "unat ((wake_ctl h AND S2_COUNT) AND S2_COUNT) = b"
    using assms(1) by (simp add: at_pos_def q_ctl_def and.assoc)
  then have bz: "unat busy = b + 1" unfolding busy_def by (rule ctl_up) (use assms(4) in simp)
  have idx: "unat (q_idx Wake h) = B mod ?n" "unat (q_idx Enter h) = E mod ?n" using assms(1,2) by (simp_all add: at_pos_def)
  have fields: "unat (wake_idx h) = B mod ?n" "unat (enter_idx h) = E mod ?n"
    using idx by (simp_all add: q_idx_def unsigned_ucast_eq take_bit_word_eq_self)
  have lt: "B mod ?n < ?n" using assms(3) by simp
  define w where "w = (B mod ?n + (b + 1)) div ?n"
  have ww: "wake_wraps b h = w" by (simp add: wake_wraps_def w_def fields add.assoc)
  have sum: "unat (q_idx Wake h + ucast busy) = B mod ?n + (b + 1)"
  proof -
    have "B mod ?n + (b + 1) < 2 ^ 32" using less_trans[OF lt n] assms(4) by simp
    then show ?thesis by (subst unat_plus_small) (simp_all add: idx bz)
  qed
  have ph: "q_phase Wake h = of_bool (odd (B div ?n))" "q_phase Enter h = of_bool (odd (E div ?n))"
    using assms(1,2) by (simp_all add: q_phase_bit at_pos_def)
  let ?s = "q_idx Wake h + ucast busy"
  have ge: "(ucast (q_entries h) :: u32) \<le> ?s \<longleftrightarrow> 1 \<le> w"
    using assms(3) by (simp add: word_le_nat_alt sum w_def div_greater_zero_iff Suc_le_eq)
  have slot: "?s mod ucast (q_entries h) = q_idx Enter h \<longleftrightarrow> (B + (b + 1)) mod ?n = E mod ?n"
    unfolding mod_add_left_eq[of B ?n "b + 1", symmetric] by (simp only: word_unat_eq_iff unat_mod sum idx) simp
  have same: "(B + (b + 1)) mod ?n = E mod ?n \<longleftrightarrow> B + (b + 1) = E"
  proof
    assume s: "(B + (b + 1)) mod ?n = E mod ?n"
    show "B + (b + 1) = E"
    proof (rule ccontr)
      assume "B + (b + 1) \<noteq> E"
      then consider "B + (b + 1) < E" | "E < B + (b + 1)" by linarith
      then show False
      proof cases
        case 1
        then show False using same_slot_far[OF s 1] assms(6) by simp
      next
        case 2
        then show False using same_slot_far[OF s[symmetric] 2] assms(5) by simp
      qed
    qed
  qed simp
  have laps: "(B + (b + 1)) div ?n = B div ?n + w"
  proof -
    have "B + (b + 1) = B div ?n * ?n + (B mod ?n + (b + 1))" using div_mult_mod_eq[of B ?n] by linarith
    then have "(B + (b + 1)) div ?n = (B div ?n * ?n + (B mod ?n + (b + 1))) div ?n" by (rule arg_cong)
    also have "\<dots> = B div ?n + w" unfolding w_def by (rule div_mult_self3) (use assms(3) in simp)
    finally show ?thesis .
  qed
  have none: "wake_announce h = None \<longleftrightarrow> B + (b + 1) = E \<and>
      (q_phase Wake h XOR (if ucast (q_entries h) \<le> ?s then 1 else 0)) \<noteq> q_phase Enter h"
    unfolding slot[unfolded same, symmetric] by (simp add: wake_announce_def Let_def busy_def)
  show "B + b + 1 = E \<longleftrightarrow> (unat (wake_idx h) + b + 1) mod ?n = unat (enter_idx h)"
    using same unfolding fields add.assoc mod_add_left_eq by (rule sym)
  show "wake_announce h = None \<longleftrightarrow> B + b + 1 = E \<and> 2 \<le> wake_wraps b h \<and> even (wake_wraps b h)"
  proof (cases "B + (b + 1) = E")
    case True
    then have "odd (E div ?n) \<longleftrightarrow> (odd (B div ?n) \<noteq> odd w)" using laps by auto
    moreover have "2 \<le> w \<and> even w \<longleftrightarrow> (1 \<le> w) \<noteq> odd w" by (cases "w = 0"; cases "w = 1") auto
    ultimately show ?thesis using True unfolding none ph ge ww by (cases "w = 0") (auto simp: of_bool_flip split: if_splits)
  qed (use none in simp)
qed

lemma few_wraps: "unat (wake_idx h) < unat (q_entries h) \<Longrightarrow> b + 1 \<le> unat (q_entries h) \<Longrightarrow> wake_wraps b h \<le> 1"
proof -
  assume a: "unat (wake_idx h) < unat (q_entries h)" "b + 1 \<le> unat (q_entries h)"
  then have "unat (wake_idx h) + b + 1 < 2 * unat (q_entries h)" by linarith
  then have "wake_wraps b h < 2" unfolding wake_wraps_def by (rule less_mult_imp_div_less)
  then show ?thesis by linarith
qed

text \<open>A thread about to announce a wake-up, in a reachable state: the two positions are less than a lap apart.\<close>

lemma signaller_position:
  assumes "(wq_step N typeOf receiverOf nts)\<^sup>*\<^sup>* (wq_start entries) x" "wq_env N typeOf receiverOf nts" "1 < unat entries"
    "t < N" "wq_threads x t = WSignaller"
  defines "b \<equiv> number N (in_side Wake) (wq_threads x)"
  obtains base where "wq_counts N base x" "at_pos Wake (base Wake) b (wq_header x)"
    "at_pos Enter (base Enter) (number N (in_side Enter) (wq_threads x)) (wq_header x)" "b + 1 < 2 ^ 15"
    "base Wake + b + 1 < base Enter + unat (q_entries (wq_header x))" "base Enter < base Wake + b + 1 + unat (q_entries (wq_header x))"
    "unat (q_entries (wq_header x)) = unat entries"
proof -
  have inv: "wq_inv N typeOf receiverOf x" by (rule wq_reachable_inv[OF assms(1-3)])
  then obtain base where c: "wq_counts N base x" by (auto simp: wq_inv_def)
  note I = c[unfolded wq_counts_def all_sides]
  have n: "unat (q_entries (wq_header x)) = unat entries" "wq_n x = unat entries" using entries_constant[OF assms(1)] by (simp_all add: wq_n_def)
  have s: "0 < number N is_signaller (wq_threads x)" by (rule number_pos[of t N is_signaller, OF assms(4)]) (simp add: assms(5))
  have "b + 1 \<le> N"
    using wq_numbers(2)[OF assms(4), of "wq_threads x" "WLoop Wake 0 0"] assms(5) number_le[of N "in_side Wake" "(wq_threads x)(t := WLoop Wake 0 0)"]
    by (simp add: b_def)
  then have b: "b + 1 < 2 ^ 15" using assms(2) by (simp add: wq_env_def)
  have ahead: "base Wake + b + 1 < base Enter + unat entries" using I s n(2) unfolding b_def by linarith
  have "next_pos Enter x < next_pos Wake x + unat entries" using sides_close(1)[OF c] n(2) by simp
  then have behind: "base Enter < base Wake + b + 1 + unat entries"
    using I claimed_in_side[of N Wake "wq_threads x"] unfolding b_def by linarith
  show thesis by (rule that[OF c]) (use I n b ahead behind in \<open>simp_all add: b_def\<close>)
qed

text \<open>C19: While fewer wake-ups are in progress than the queue has entries, a wake-up that the object has counted
  is never refused, so it never fails.\<close>

theorem waiting_queue_accepts_wakeups:
  assumes "(wq_step N typeOf receiverOf nts)\<^sup>*\<^sup>* (wq_start entries) x" "wq_env N typeOf receiverOf nts" "1 < unat entries"
    "t < N" "wq_threads x t = WSignaller" "number N (in_side Wake) (wq_threads x) < unat entries"
  shows "\<exists>h'. wake_announce (wq_header x) = Some h' \<and>
    wq_move typeOf receiverOf nts t choice x = Some (wq_set t (WLoop Wake (q_idx Wake (wq_header x)) 0) (x\<lparr>wq_header := h'\<rparr>))"
proof (rule signaller_position[OF assms(1-5)])
  fix base
  let ?b = "number N (in_side Wake) (wq_threads x)"
  assume p: "at_pos Wake (base Wake) ?b (wq_header x)" "at_pos Enter (base Enter) (number N (in_side Enter) (wq_threads x)) (wq_header x)"
    "?b + 1 < 2 ^ 15" "base Wake + ?b + 1 < base Enter + unat (q_entries (wq_header x))"
    "base Enter < base Wake + ?b + 1 + unat (q_entries (wq_header x))" "unat (q_entries (wq_header x)) = unat entries"
  have n: "0 < unat (q_entries (wq_header x))" using p(6) assms(3) by simp
  have "unat (wake_idx (wq_header x)) < unat (q_entries (wq_header x))"
    using p(1) n by (auto simp: at_pos_def q_idx_def unsigned_ucast_eq take_bit_word_eq_self)
  then have "wake_wraps ?b (wq_header x) \<le> 1" by (rule few_wraps) (use p(6) assms(6) in simp)
  then have "wake_announce (wq_header x) \<noteq> None" using announce_exact(1)[OF p(1,2) n p(3-5)] by simp
  then show ?thesis using assms(5) by (auto simp: wq_move_def Let_def)
qed

lemma example_signaller:
  "map_option (\<lambda>x. (wq_threads x 1, wq_threads x 2)) (wq_run one_type own_receiver one_notifier (take 4 enters_and_waits @ [(1, False)]) (wq_start 2)) =
    Some (WSignaller, WIdle)"
  by code_simp

theorem waiting_queue_accepts_wakeups_witness:
  "\<exists>x h'. (wq_step 4 one_type own_receiver one_notifier)\<^sup>*\<^sup>* (wq_start 2) x \<and> wake_announce (wq_header x) = Some h'"
proof -
  let ?m = "take 4 enters_and_waits @ [(1, False)]"
  obtain x where x: "wq_run one_type own_receiver one_notifier ?m (wq_start 2) = Some x"
    using example_signaller by auto
  have thr: "map (wq_threads x) [0, 1, 2, 3] = map (wq_threads (the (wq_run one_type own_receiver one_notifier ?m (wq_start 2)))) [0, 1, 2, 3]"
    using x by simp
  have v: "map (wq_threads (the (wq_run one_type own_receiver one_notifier ?m (wq_start 2)))) [1, 2, 3] = [WSignaller, WIdle, WIdle]"
    "\<not> in_side Wake (wq_threads (the (wq_run one_type own_receiver one_notifier ?m (wq_start 2))) 0)"
    by code_simp+
  have "\<forall>m \<in> set ?m. fst m < 4" by (simp add: enters_and_waits_def)
  note r = wq_run_reaches[OF x this]
  have "t < 4 \<Longrightarrow> \<not> in_side Wake (wq_threads x t)" for t
  proof -
    assume "t < (4 :: nat)"
    then consider "t = 0" | "t = 1" | "t = 2" | "t = 3" by linarith
    then show ?thesis using thr v by cases simp_all
  qed
  then have "number 4 (in_side Wake) (wq_threads x) = 0" by (rule number_none)
  then have few: "number 4 (in_side Wake) (wq_threads x) < unat (2 :: u16)" by simp
  have e: "1 < unat (2 :: u16)" "(1 :: nat) < 4" "wq_threads x 1 = WSignaller" using thr v by simp_all
  show ?thesis using waiting_queue_accepts_wakeups[OF r example_env e few, of True] r by blast
qed

text \<open>A run that leaves two wake-ups unretired on a queue of two entries, while the waiter they were for goes on.\<close>

definition refusing_moves :: "(nat \<times> bool) list" where
  "refusing_moves = (0, True) # wakes 1 @ (1, True) # passes @ (0, True) # wakes 1 @ passes
     @ (0, True) # wakes 2 @ replicate 4 (2, True) @ passes @ enters_and_waits @ [(3, False)]"

lemma refusing_outcome:
  "map_option (\<lambda>x. (map (wq_threads x) [0, 1, 2, 3], length (wq_woken x), length (wq_entered x), wake_announce (wq_header x)))
     (wq_run one_type own_receiver one_notifier refusing_moves (wq_start 2)) =
   Some ([WWaiting 3, WWoke 1 None, WWoke 2 None, WSignaller], 3, 4, None)"
  by code_simp

text \<open>C20: When a wake-up that the object has counted is refused, exactly: with \<open>b\<close> wake-ups announced and not retired, the
  position behind them and the new one is that of the enter index, and the sum of index and announced wake-ups wraps the buffer an
  even number of times, at least twice.  The refusal is wrong each time: a waiter has an entry no wake-up has claimed, so the
  wake-ups are behind the waiters and not a lap ahead; and the waker's call fails.\<close>

theorem waiting_queue_refuses_wakeup:
  assumes "(wq_step N typeOf receiverOf nts)\<^sup>*\<^sup>* (wq_start entries) x" "wq_env N typeOf receiverOf nts" "1 < unat entries"
    "t < N" "wq_threads x t = WSignaller" "b = number N (in_side Wake) (wq_threads x)"
  shows "(wake_announce (wq_header x) = None \<longleftrightarrow>
      (unat (wake_idx (wq_header x)) + b + 1) mod unat entries = unat (enter_idx (wq_header x)) \<and>
      2 \<le> (unat (wake_idx (wq_header x)) + b + 1) div unat entries \<and> even ((unat (wake_idx (wq_header x)) + b + 1) div unat entries)) \<and>
    (wake_announce (wq_header x) = None \<longrightarrow> length (wq_woken x) < length (wq_entered x) \<and>
      wq_move typeOf receiverOf nts t choice x = Some (wq_set t WFailed x))"
proof (rule signaller_position[OF assms(1-5)])
  fix base
  let ?h = "wq_header x" and ?b = "number N (in_side Wake) (wq_threads x)"
  assume c: "wq_counts N base x" and p: "at_pos Wake (base Wake) ?b ?h" "at_pos Enter (base Enter) (number N (in_side Enter) (wq_threads x)) ?h"
    "?b + 1 < 2 ^ 15" "base Wake + ?b + 1 < base Enter + unat (q_entries ?h)" "base Enter < base Wake + ?b + 1 + unat (q_entries ?h)"
    "unat (q_entries ?h) = unat entries"
  have n: "0 < unat (q_entries ?h)" using p(6) assms(3) by simp
  note E = announce_exact[OF p(1,2) n p(3-5)]
  have "length (wq_woken x) < length (wq_entered x)" if "wake_announce ?h = None"
  proof -
    have "base Wake + ?b + 1 = base Enter" using that E(1) by blast
    then have "next_pos Wake x < next_pos Enter x"
      using c[unfolded wq_counts_def all_sides] claimed_in_side[of N Wake "wq_threads x"] by linarith
    then show ?thesis by (simp add: next_pos_def)
  qed
  moreover have "wq_move typeOf receiverOf nts t choice x = Some (wq_set t WFailed x)" if "wake_announce ?h = None"
    using assms(5) that by (simp add: wq_move_def Let_def)
  ultimately show ?thesis using E unfolding wake_wraps_def p(6) assms(6) by blast
qed

text \<open>It happens: on a queue for one waiter, with two wake-ups in progress, while that waiter sleeps.\<close>

theorem waiting_queue_refuses_wakeup_witness:
  "\<exists>x. (wq_step 4 one_type own_receiver one_notifier)\<^sup>*\<^sup>* (wq_start 2) x \<and> wq_threads x 0 = WWaiting 3 \<and> wq_threads x 3 = WSignaller \<and>
    length (wq_woken x) < length (wq_entered x) \<and> even ((unat (wake_idx (wq_header x)) + number 4 (in_side Wake) (wq_threads x) + 1) div 2) \<and>
    wq_move one_type own_receiver one_notifier 3 True x = Some (wq_set 3 WFailed x)"
proof -
  obtain x where x: "wq_run one_type own_receiver one_notifier refusing_moves (wq_start 2) = Some x"
      "map (wq_threads x) [0, 1, 2, 3] = [WWaiting 3, WWoke 1 None, WWoke 2 None, WSignaller]" "wake_announce (wq_header x) = None"
    using refusing_outcome by auto
  have "\<forall>m \<in> set refusing_moves. fst m < 4"
    by (simp add: refusing_moves_def enters_and_waits_def wakes_def passes_def)
  note r = wq_run_reaches[OF x(1) this]
  have e: "1 < unat (2 :: u16)" "(3 :: nat) < 4" "wq_threads x 3 = WSignaller" using x(2) by simp_all
  show ?thesis
    using waiting_queue_refuses_wakeup[OF r example_env e refl, of True] x(2,3) r by (intro exI[of _ x]) simp
qed

section \<open>A claim undisturbed\<close>

lemma wq_run_append:
  "wq_run typeOf receiverOf nts (xs @ ys) x =
     (case wq_run typeOf receiverOf nts xs x of None \<Rightarrow> None | Some y \<Rightarrow> wq_run typeOf receiverOf nts ys y)"
  by (induction xs arbitrary: x) (auto split: option.splits)

lemma wq_set_twice [simp]: "wq_set t s (wq_set t s' x) = wq_set t s x"
  by (simp add: wq_set_def)

text \<open>What \<open>entries_done\<close> reads when nothing else moves.\<close>

definition would_see :: "wq_sys \<Rightarrow> nat \<Rightarrow> nat \<Rightarrow> u32 list" where
  "would_see x B k = map (\<lambda>j. word0 (wq_buffer x ((B + j) mod wq_n x))) [0..<k]"

lemma solo_scan:
  assumes "at_pos side B c (wq_header x)" "\<not> c \<le> d" "d < wq_n x"
    "unat (queue_forward (q_idx side (wq_header x)) slot (ucast (q_entries (wq_header x)))) = d" "k \<le> d"
  shows "wq_run typeOf receiverOf nts (replicate k (t, True)) (wq_set t (WScan side b i slot e v (wq_header x) []) x) =
    Some (wq_set t (WScan side b i slot e v (wq_header x) (would_see x B k)) x)"
  using assms(5)
proof (induction k)
  case 0
  then show ?case by (simp add: would_see_def)
next
  case (Suc k)
  let ?h = "wq_header x" and ?W = "WScan side b i slot e v (wq_header x)"
  have cd: "\<not> ucast (q_ctl side ?h AND S2_COUNT) \<le> queue_forward (q_idx side ?h) slot (ucast (q_entries ?h))"
    using assms(1,2,4) by (simp add: at_pos_def word_le_nat_alt)
  have more: "scan_more side slot ?h (would_see x B k)"
    using cd Suc.prems assms(4) by (simp add: scan_more_def would_see_def Let_def)
  have sl: "unat (fst (scan_slot (q_idx side ?h) (q_phase side ?h) (ucast (q_entries ?h)) (of_nat k))) = (B + k) mod wq_n x"
    using scan_slot_pos(1)[OF assms(1), of k] Suc.prems assms(3) by (simp add: wq_n_def)
  have "wq_move typeOf receiverOf nts t True (wq_set t (?W (would_see x B k)) x) = Some (wq_set t (?W (would_see x B (Suc k))) x)"
    using more sl by (simp add: wq_move_def Let_def) (simp add: would_see_def)
  moreover have "replicate (Suc k) (t, True) = replicate k (t, True) @ [(t, True)]" by (simp add: replicate_append_same)
  ultimately show ?case using Suc by (simp only: wq_run_append) simp
qed

text \<open>A pass on its own up to its decision.\<close>

lemma solo_to_decision:
  assumes "at_pos side B c (wq_header x)" "0 < wq_n x" "slot = (b + i) mod ucast (q_entries (wq_header x))"
  shows "\<exists>m seen. wq_run typeOf receiverOf nts (replicate m (t, True)) (wq_set t (WLoop side b i) x) =
      Some (wq_set t (WScan side b i slot (wq_buffer x (unat slot)) (wq_stores x (unat slot)) (wq_header x) seen) x) \<and>
    \<not> scan_more side slot (wq_header x) seen \<and>
    (\<not> c \<le> unat (queue_forward (q_idx side (wq_header x)) slot (ucast (q_entries (wq_header x)))) \<longrightarrow>
       seen = would_see x B (unat (queue_forward (q_idx side (wq_header x)) slot (ucast (q_entries (wq_header x))))))"
proof -
  let ?h = "wq_header x"
  let ?d = "unat (queue_forward (q_idx side ?h) slot (ucast (q_entries ?h)))"
  let ?W = "WScan side b i slot (wq_buffer x (unat slot)) (wq_stores x (unat slot)) ?h"
  have two: "wq_run typeOf receiverOf nts (replicate 2 (t, True)) (wq_set t (WLoop side b i) x) = Some (wq_set t (?W []) x)"
    using assms(3) by (simp add: numeral_2_eq_2 wq_move_def Let_def)
  show ?thesis
  proof (cases "c \<le> ?d")
    case True
    then have "\<not> scan_more side slot ?h []"
      using assms(1) by (simp add: scan_more_def Let_def at_pos_def word_le_nat_alt)
    then show ?thesis using two True by blast
  next
    case False
    have "unat slot < wq_n x" using assms(2) unfolding assms(3) unat_mod by (simp add: wq_n_def)
    then have dn: "?d < wq_n x" using slot_pos(1)[OF assms(1), of slot] by (simp add: wq_n_def)
    have "wq_run typeOf receiverOf nts (replicate ?d (t, True)) (wq_set t (?W []) x) = Some (wq_set t (?W (would_see x B ?d)) x)"
      by (rule solo_scan[OF assms(1) False dn refl le_refl])
    then have "wq_run typeOf receiverOf nts (replicate (2 + ?d) (t, True)) (wq_set t (WLoop side b i) x) = Some (wq_set t (?W (would_see x B ?d)) x)"
      using two by (simp only: replicate_add wq_run_append) simp
    moreover have "\<not> scan_more side slot ?h (would_see x B ?d)" by (simp add: scan_more_def would_see_def Let_def)
    ultimately show ?thesis by blast
  qed
qed

definition claims_alone :: "(nat \<Rightarrow> u16) \<Rightarrow> (nat \<Rightarrow> u64) \<Rightarrow> s2_notifier list \<Rightarrow> nat \<Rightarrow> wq_sys \<Rightarrow> bool" where
  "claims_alone typeOf receiverOf nts t x \<longleftrightarrow>
     (\<exists>m y k. wq_run typeOf receiverOf nts (replicate m (t, True)) x = Some y \<and>
        ((\<exists>f. wq_threads y t = WEntered k f) \<or> (\<exists>f. wq_threads y t = WWoke k f)))"

lemma claims_later:
  assumes "wq_run typeOf receiverOf nts (replicate m (t, True)) x = Some y" "claims_alone typeOf receiverOf nts t y"
  shows "claims_alone typeOf receiverOf nts t x"
proof -
  obtain m' z k where "wq_run typeOf receiverOf nts (replicate m' (t, True)) y = Some z"
      "(\<exists>f. wq_threads z t = WEntered k f) \<or> (\<exists>f. wq_threads z t = WWoke k f)"
    using assms(2) by (auto simp: claims_alone_def)
  then show ?thesis
    using assms(1) unfolding claims_alone_def by (intro exI[of _ "m + m'"] exI[of _ z] exI[of _ k]) (simp add: replicate_add wq_run_append)
qed

lemma claim_stores:
  assumes "claim_pass side b i slot e h seen = Claim parity" "\<not> scan_more side slot h seen"
  shows "\<exists>y k. wq_move typeOf receiverOf nts t True (wq_set t (WScan side b i slot e (wq_stores x (unat slot)) h seen) x) = Some y \<and>
    ((\<exists>f. wq_threads y t = WEntered k f) \<or> (\<exists>f. wq_threads y t = WWoke k f))"
  using assms by (cases side) (auto simp: wq_move_def Let_def wq_store_def split: prod.splits)

text \<open>The decision: with the earlier entries done it claims the side's next entry, moves on from one before it, and starts over otherwise.\<close>

lemma solo_pass:
  assumes "at_pos side B c (wq_header x)" "1 < wq_n x" "marks_upto (wq_n x) (next_pos side x) (shown x (q_bit side))"
    "B \<le> next_pos side x" "next_pos side x < B + wq_n x" "next_pos side x < B + c" "wq_n x \<le> next_pos side x"
    "slot = (b + i) mod ucast (q_entries (wq_header x))"
    "d = unat (queue_forward (q_idx side (wq_header x)) slot (ucast (q_entries (wq_header x))))"
  shows "claims_alone typeOf receiverOf nts t (wq_set t (WLoop side b i) x) \<or>
    (B + d \<noteq> next_pos side x \<and> (\<exists>m b' i'. wq_run typeOf receiverOf nts (replicate m (t, True)) (wq_set t (WLoop side b i) x) =
       Some (wq_set t (WLoop side b' i') x) \<and>
       (b' = q_idx side (wq_header x) \<and> i' = 0 \<and> \<not> (b = q_idx side (wq_header x) \<and> B + d < next_pos side x) \<or>
        b = q_idx side (wq_header x) \<and> b' = b \<and> i' = i + 1 \<and> B + d < next_pos side x)))"
proof -
  let ?h = "wq_header x" and ?n = "wq_n x" and ?C = "next_pos side x"
  let ?e = "wq_buffer x (unat slot)" and ?v = "wq_stores x (unat slot)"
  obtain m seen where r: "wq_run typeOf receiverOf nts (replicate m (t, True)) (wq_set t (WLoop side b i) x) =
      Some (wq_set t (WScan side b i slot ?e ?v ?h seen) x)" "\<not> scan_more side slot ?h seen" "\<not> c \<le> d \<Longrightarrow> seen = would_see x B d"
    using solo_to_decision[OF assms(1) _ assms(8), of typeOf receiverOf nts t] assms(2,9) by auto
  have sl: "unat slot < unat (q_entries ?h)" using assms(2) unfolding assms(8) unat_mod by (simp add: wq_n_def)
  note S = slot_pos[OF assms(1) sl, folded wq_n_def assms(9)]
  have cd: "ucast (q_ctl side ?h AND S2_COUNT) \<le> queue_forward (q_idx side ?h) slot (ucast (q_entries ?h)) \<longleftrightarrow> c \<le> d"
    using assms(1,9) by (simp add: at_pos_def word_le_nat_alt)
  have mark: "shown x (q_bit side) ((B + j) mod ?n) = odd ((B + j) div ?n) \<longleftrightarrow> B + j < ?C" if "j < ?n" for j
    by (rule marks_read[OF assms(3,7)]) (use assms(2,4,5) that in simp_all)
  have fin: "entries_done side (q_idx side ?h) (q_phase side ?h) (ucast (q_entries ?h)) 0 seen \<longleftrightarrow> B + d \<le> ?C" if "\<not> c \<le> d"
  proof -
    have len: "length seen = d" using r(3)[OF that] by (simp add: would_see_def)
    have "entries_done side (q_idx side ?h) (q_phase side ?h) (ucast (q_entries ?h)) 0 seen \<longleftrightarrow>
        (\<forall>k < d. shown x (q_bit side) ((B + k) mod ?n) = odd ((B + k) div ?n))"
      using entries_done_pos[OF assms(1), of 0 seen] S(1) len r(3)[OF that] by (simp add: would_see_def shown_def wq_n_def)
    also have "\<dots> \<longleftrightarrow> (\<forall>k < d. B + k < ?C)" using mark S(1) by auto
    also have "\<dots> \<longleftrightarrow> B + d \<le> ?C" using assms(4) by (cases d) (auto dest: spec[of _ "d - 1"])
    finally show ?thesis .
  qed
  have shows_d: "entry_shows side (word0 ?e) (q_phase side ?h XOR (if q_idx side ?h > slot then 1 else 0)) \<longleftrightarrow> B + d < ?C"
    using mark[OF S(1)] S(2) unfolding S(3) entry_shows_bit by (simp add: shown_def)
  have pass: "claim_pass side b i slot ?e ?h seen =
      (if c \<le> d \<or> ?C < B + d then GoOn (q_idx side ?h) 0
       else if B + d < ?C then (if q_idx side ?h \<noteq> b then GoOn (q_idx side ?h) 0 else GoOn b (i + 1))
       else Claim (q_phase side ?h XOR (if q_idx side ?h > slot then 1 else 0)))"
    using fin shows_d by (auto simp: claim_pass_def Let_def cd)
  show ?thesis
  proof (cases "B + d = ?C")
    case True
    then have nc: "\<not> c \<le> d" using assms(6) by simp
    obtain parity where "claim_pass side b i slot ?e ?h seen = Claim parity" using pass True nc by auto
    from claim_stores[OF this r(2)] obtain y k where "wq_move typeOf receiverOf nts t True (wq_set t (WScan side b i slot ?e ?v ?h seen) x) = Some y"
        "(\<exists>f. wq_threads y t = WEntered k f) \<or> (\<exists>f. wq_threads y t = WWoke k f)" by blast
    then have "claims_alone typeOf receiverOf nts t (wq_set t (WScan side b i slot ?e ?v ?h seen) x)"
      unfolding claims_alone_def by (intro exI[of _ 1] exI[of _ y] exI[of _ k]) simp
    then show ?thesis using claims_later[OF r(1)] by blast
  next
    case False
    then obtain b' i' where g: "claim_pass side b i slot ?e ?h seen = GoOn b' i'" using pass by (auto split: if_splits)
    have "wq_run typeOf receiverOf nts (replicate (m + 1) (t, True)) (wq_set t (WLoop side b i) x) = Some (wq_set t (WLoop side b' i') x)"
      using r(1,2) g by (simp only: replicate_add wq_run_append) (simp add: wq_move_def Let_def)
    moreover have "b' = q_idx side ?h \<and> i' = 0 \<and> \<not> (b = q_idx side ?h \<and> B + d < ?C) \<or> b = q_idx side ?h \<and> b' = b \<and> i' = i + 1 \<and> B + d < ?C"
      using pass g False assms(6) by (auto split: if_splits)
    ultimately show ?thesis using False by blast
  qed
qed

text \<open>From the side's index on, the offsets are the distances: the pass that reaches the next entry claims it.\<close>

lemma solo_from_index:
  assumes "at_pos side B c (wq_header x)" "1 < wq_n x" "marks_upto (wq_n x) (next_pos side x) (shown x (q_bit side))"
    "next_pos side x < B + wq_n x" "next_pos side x < B + c" "wq_n x \<le> next_pos side x" "B + k \<le> next_pos side x"
  shows "claims_alone typeOf receiverOf nts t (wq_set t (WLoop side (q_idx side (wq_header x)) (of_nat k)) x)"
  using assms(7)
proof (induction "next_pos side x - B - k" arbitrary: k rule: less_induct)
  case less
  let ?h = "wq_header x" and ?n = "wq_n x" and ?C = "next_pos side x"
  define b where "b = q_idx side ?h"
  define slot where "slot = (b + of_nat k) mod ucast (q_entries ?h)"
  define d where "d = unat (queue_forward (q_idx side ?h) slot (ucast (q_entries ?h)))"
  have n: "?n < 2 ^ 16" "unat (ucast (q_entries ?h) :: u32) = ?n"
    using unsigned_less[of "q_entries ?h"] by (simp_all add: wq_n_def)
  have kn: "k < ?n" using less.prems assms(4) by linarith
  have b: "unat b = B mod ?n" "B mod ?n < ?n" using assms(1,2) by (simp_all add: b_def at_pos_def wq_n_def)
  have k: "unat (of_nat k :: u32) = k" using kn n(1) by (simp add: unat_of_nat)
  have "?n < 65536" using n(1) by simp
  then have "B mod ?n < 65536" "k < 65536" using b(2) kn by linarith+
  then have "unat b + unat (of_nat k :: u32) < 2 ^ 32" unfolding b(1) k by simp
  then have "unat (b + of_nat k) = B mod ?n + k" using b(1) k by (simp add: unat_word_ariths)
  then have s: "unat slot = (B + k) mod ?n" unfolding slot_def unat_mod n(2) by (simp add: mod_add_left_eq)
  have sl: "unat slot < unat (q_entries ?h)" using s assms(2) by (simp add: wq_n_def)
  note S = slot_pos(1,2)[OF assms(1) sl, folded wq_n_def d_def]
  have "d = k"
  proof (rule ccontr)
    assume "d \<noteq> k"
    then show False using same_slot_far[of "B + d" ?n "B + k"] same_slot_far[of "B + k" ?n "B + d"] S s kn by fastforce
  qed
  have BC: "B \<le> ?C" using less.prems by linarith
  from solo_pass[OF assms(1-3) BC assms(4-6) slot_def d_def, of typeOf receiverOf nts t]
  show ?case
  proof (elim disjE conjE exE)
    fix m b' i' assume ne: "B + d \<noteq> ?C"
      and r: "wq_run typeOf receiverOf nts (replicate m (t, True)) (wq_set t (WLoop side b (of_nat k)) x) = Some (wq_set t (WLoop side b' i') x)"
      and c: "b' = b" "i' = of_nat k + 1"
    have lt: "B + (k + 1) \<le> ?C" using ne \<open>d = k\<close> less.prems by linarith
    then have "?C - B - (k + 1) < ?C - B - k" by linarith
    from less.hyps[OF this lt] have "claims_alone typeOf receiverOf nts t (wq_set t (WLoop side b' i') x)"
      by (simp add: c b_def add.commute)
    from claims_later[OF r this] show ?thesis by (simp only: b_def)
  qed (use less.prems \<open>d = k\<close> b_def in auto)
qed

lemma solo_claims:
  assumes "at_pos side B c (wq_header x)" "1 < wq_n x" "marks_upto (wq_n x) (next_pos side x) (shown x (q_bit side))"
    "B \<le> next_pos side x" "next_pos side x < B + wq_n x" "next_pos side x < B + c" "wq_n x \<le> next_pos side x"
  shows "claims_alone typeOf receiverOf nts t (wq_set t (WLoop side b i) x)"
proof (induction "2 ^ 32 - unat i" arbitrary: b i rule: less_induct)
  case less
  let ?h = "wq_header x"
  have base: "claims_alone typeOf receiverOf nts t (wq_set t (WLoop side (q_idx side ?h) 0) x)"
    using solo_from_index[OF assms(1-3) assms(5-7), of 0 typeOf receiverOf nts t] assms(4) by simp
  from solo_pass[OF assms refl refl, of typeOf receiverOf nts t b i]
  show ?case
  proof (elim disjE conjE exE)
    fix m b' i'
    assume r: "wq_run typeOf receiverOf nts (replicate m (t, True)) (wq_set t (WLoop side b i) x) = Some (wq_set t (WLoop side b' i') x)"
      and c: "b' = q_idx side ?h" "i' = 0"
    show ?thesis using claims_later[OF r] base c by simp
  next
    fix m b' i'
    assume r: "wq_run typeOf receiverOf nts (replicate m (t, True)) (wq_set t (WLoop side b i) x) = Some (wq_set t (WLoop side b' i') x)"
      and c: "b = q_idx side ?h" "b' = b" "i' = i + 1"
    have "claims_alone typeOf receiverOf nts t (wq_set t (WLoop side b' i') x)"
    proof (cases "i + 1 = 0")
      case True
      then show ?thesis using base c by simp
    next
      case False
      then have "unat (i + 1) = unat i + 1" by (simp add: add.commute unatSuc)
      moreover have "unat (i + 1) < 2 ^ 32" using unsigned_less[of "i + 1"] by simp
      ultimately show ?thesis unfolding c(3) by (intro less.hyps) linarith
    qed
    then show ?thesis by (rule claims_later[OF r])
  qed
qed

text \<open>No thread loops for ever at a waiting queue by itself: a thread in the loop of either side, whatever base and
  offset it has got to, gets an entry after finitely many of its own accesses if nothing else moves and its conditional store
  is let through, unless there are as many threads with unretired entries on that side as the queue has entries.\<close>

theorem waiting_queue_claim_terminates:
  assumes "(wq_step N typeOf receiverOf nts)\<^sup>*\<^sup>* (wq_start entries) x" "wq_env N typeOf receiverOf nts" "1 < unat entries"
    "t < N" "wq_threads x t = WLoop side b i" "number N (has_claimed side) (wq_threads x) < unat entries"
  shows "\<exists>m y k. wq_run typeOf receiverOf nts (replicate m (t, True)) x = Some y \<and>
    ((\<exists>f. wq_threads y t = WEntered k f) \<or> (\<exists>f. wq_threads y t = WWoke k f))"
proof -
  have inv: "wq_inv N typeOf receiverOf x" by (rule wq_reachable_inv[OF assms(1-3)])
  then obtain base where cnt: "wq_counts N base x" by (auto simp: wq_inv_def)
  note I = cnt[unfolded wq_counts_def, THEN conjunct2, THEN conjunct1, rule_format, of side]
    cnt[unfolded wq_counts_def, THEN conjunct2, THEN conjunct2, THEN conjunct1, rule_format, of side]
  have n: "wq_n x = unat entries" by (rule entries_constant[OF assms(1)])
  have "{u. u < N \<and> has_claimed side (wq_threads x u)} \<subset> {u. u < N \<and> in_side side (wq_threads x u)}"
  proof -
    have "has_claimed side s \<Longrightarrow> in_side side s" for s by (cases s) auto
    moreover have "\<not> has_claimed side (wq_threads x t)" "in_side side (wq_threads x t)" using assms(5) by simp_all
    ultimately show ?thesis using assms(4) by blast
  qed
  then have "number N (has_claimed side) (wq_threads x) < number N (in_side side) (wq_threads x)"
    unfolding number_def by (rule psubset_card_mono[rotated]) simp
  moreover have "marks_upto (wq_n x) (next_pos side x) (shown x (q_bit side))" using inv by (simp add: wq_inv_def wq_entries_show_def)
  ultimately have "claims_alone typeOf receiverOf nts t (wq_set t (WLoop side b i) x)"
    using I assms(3,6) n by (intro solo_claims[OF I(1)]) (simp_all add: next_pos_def)
  moreover have "wq_set t (WLoop side b i) x = x" using assms(5) by (simp add: wq_set_def fun_upd_idem)
  ultimately show ?thesis by (simp only: claims_alone_def)
qed

lemma example_loop:
  "map_option (\<lambda>x. (wq_threads x 0, wq_threads x 1, wq_threads x 2, wq_threads x 3)) (wq_run one_type own_receiver one_notifier [(0, True), (0, True)] (wq_start 2)) =
    Some (WLoop Enter 0 0, WIdle, WIdle, WIdle)"
  by code_simp

theorem waiting_queue_claim_terminates_witness:
  "\<exists>x m y k. (wq_step 4 one_type own_receiver one_notifier)\<^sup>*\<^sup>* (wq_start 2) x \<and> wq_threads x 0 = WLoop Enter 0 0 \<and>
    wq_run one_type own_receiver one_notifier (replicate m (0, True)) x = Some y \<and>
    ((\<exists>f. wq_threads y 0 = WEntered k f) \<or> (\<exists>f. wq_threads y 0 = WWoke k f))"
proof -
  obtain x where x: "wq_run one_type own_receiver one_notifier [(0, True), (0, True)] (wq_start 2) = Some x"
      "wq_threads x 0 = WLoop Enter 0 0" "wq_threads x 1 = WIdle" "wq_threads x 2 = WIdle" "wq_threads x 3 = WIdle"
    using example_loop by auto
  have r: "(wq_step 4 one_type own_receiver one_notifier)\<^sup>*\<^sup>* (wq_start 2) x" by (rule wq_run_reaches[OF x(1)]) simp
  have "u < (4::nat) \<Longrightarrow> u = 0 \<or> u = 1 \<or> u = 2 \<or> u = 3" for u by presburger
  then have e: "{u. u < 4 \<and> has_claimed Enter (wq_threads x u)} = {}" using x(2-5) by fastforce
  have c: "number 4 (has_claimed Enter) (wq_threads x) < unat (2 :: u16)" unfolding number_def e by simp
  from waiting_queue_claim_terminates[OF r example_env _ _ x(2) c] show ?thesis using r x(2) by fastforce
qed

end
