(* ===== verification/Sync2_Queue.thy ===== *)
theory Sync2_Queue
  imports Sync2_Base
begin

text \<open>
  \<open>sdk/libsync2/src/queue.c\<close> and its entry points: a bounded queue kept as a linked list of entries with a dummy
  head.  The links, the elements, the bitmap of entries in use and the queue line are separate pieces of main
  memory; the decisions of the loops on the line are functions of the line, and threads that share a queue are
  a step relation over the accesses of push and pop.
\<close>

section \<open>The line\<close>

text \<open>The addresses of the arrays and the two waiting queue headers are left out: arrays are indexed by entry.\<close>

record s2_queue =
  sq_size :: u32
  pop_queued :: u16
  pop_signalled :: u16
  sq_head :: u32
  sq_tail :: u32
  free_entries :: u32
  push_queued :: u16
  push_signalled :: u16
  sq_search :: u32
  sq_entries :: u32
  sq_thread_types :: u16
  max_push_waiters :: u16
  max_pop_waiters :: u16

abbreviation (input) NO_ENTRY :: u32 where "NO_ENTRY \<equiv> 0xffffffff"

section \<open>Entry points\<close>

definition queue_entry_check :: "u64 \<Rightarrow> u64 \<Rightarrow> s2_config option \<Rightarrow> u32 \<Rightarrow> s2_error + unit" where
  "queue_entry_check ea data config dmaTag =
     (if ea = 0 \<or> data = 0 \<or> config = None then Inl S2_NULL_POINTER
      else if ea AND 0x7f \<noteq> 0 \<or> data AND 15 \<noteq> 0 then Inl S2_ALIGN
      else if dmaTag \<ge> 32 then Inl S2_INVAL
      else Inr ())"

text \<open>What push and pop check before they touch the queue.\<close>

definition queue_push_check :: "bool \<Rightarrow> s2_caller option \<Rightarrow> s2_notifier list option \<Rightarrow> s2_queue \<Rightarrow> s2_error + unit" where
  "queue_push_check wait caller notifiers q =
     (case check_caller (sq_thread_types q) caller notifiers wait of
        Inl e \<Rightarrow> Inl e
      | Inr _ \<Rightarrow> if wait \<and> max_push_waiters q = 0 then Inl S2_NOMEM else Inr ())"

definition queue_pop_check :: "bool \<Rightarrow> s2_caller option \<Rightarrow> s2_notifier list option \<Rightarrow> s2_queue \<Rightarrow> s2_error + unit" where
  "queue_pop_check wait caller notifiers q =
     (case check_caller (sq_thread_types q) caller notifiers wait of
        Inl e \<Rightarrow> Inl e
      | Inr _ \<Rightarrow> if wait \<and> max_pop_waiters q = 0 then Inl S2_NOMEM else Inr ())"

definition queue_op_entry ::
    "(bool \<Rightarrow> s2_caller option \<Rightarrow> s2_notifier list option \<Rightarrow> s2_queue \<Rightarrow> s2_error + unit) \<Rightarrow> bool \<Rightarrow>
     u64 \<Rightarrow> u64 \<Rightarrow> s2_config option \<Rightarrow> u32 \<Rightarrow> s2_queue \<Rightarrow> s2_error + unit" where
  "queue_op_entry check wait ea data config dmaTag q =
     (case queue_entry_check ea data config dmaTag of
        Inl e \<Rightarrow> Inl e
      | Inr _ \<Rightarrow> check wait (callerThreadType (the config)) (notifierTable (the config)) q)"

definition cellSync2QueuePush :: "u64 \<Rightarrow> u64 \<Rightarrow> s2_config option \<Rightarrow> u32 \<Rightarrow> s2_queue \<Rightarrow> s2_error + unit" where
  "cellSync2QueuePush = queue_op_entry queue_push_check True"

definition cellSync2QueueTryPush :: "u64 \<Rightarrow> u64 \<Rightarrow> s2_config option \<Rightarrow> u32 \<Rightarrow> s2_queue \<Rightarrow> s2_error + unit" where
  "cellSync2QueueTryPush = queue_op_entry queue_push_check False"

definition cellSync2QueuePop :: "u64 \<Rightarrow> u64 \<Rightarrow> s2_config option \<Rightarrow> u32 \<Rightarrow> s2_queue \<Rightarrow> s2_error + unit" where
  "cellSync2QueuePop = queue_op_entry queue_pop_check True"

definition cellSync2QueueTryPop :: "u64 \<Rightarrow> u64 \<Rightarrow> s2_config option \<Rightarrow> u32 \<Rightarrow> s2_queue \<Rightarrow> s2_error + unit" where
  "cellSync2QueueTryPop = queue_op_entry queue_pop_check False"

definition cellSync2QueueGetDepth :: "u64 \<Rightarrow> bool \<Rightarrow> s2_queue \<Rightarrow> s2_error + u32" where
  "cellSync2QueueGetDepth ea depth q =
     (if ea = 0 \<or> \<not> depth then Inl S2_NULL_POINTER else if ea AND 0x7f \<noteq> 0 then Inl S2_ALIGN else Inr (sq_entries q - 1))"

definition cellSync2QueueGetSize :: "u64 \<Rightarrow> bool \<Rightarrow> s2_queue \<Rightarrow> s2_error + u32" where
  "cellSync2QueueGetSize ea size_ptr q =
     (if ea = 0 \<or> \<not> size_ptr then Inl S2_NULL_POINTER else if ea AND 0x7f \<noteq> 0 then Inl S2_ALIGN else Inr (sq_size q))"

section \<open>The loops on the line\<close>

text \<open>A side's first loop: a unit taken (with the place to search from), a place in the waiting queue, or a receiver needed first.\<close>

datatype queue_next = UnitTaken u32 | WaitQueued | NeedsReceiver

definition search_next :: "s2_queue \<Rightarrow> u32" where
  "search_next q = (if sq_search q + 1 = sq_entries q then 0 else sq_search q + 1)"

definition allocate_entry_pass :: "bool \<Rightarrow> bool \<Rightarrow> s2_queue \<Rightarrow> (s2_queue, s2_error + queue_next) decision" where
  "allocate_entry_pass wait haveReceiver q =
     (if free_entries q > ucast (push_queued q)
      then Store (q\<lparr>free_entries := free_entries q - 1, sq_search := search_next q\<rparr>) (Inr (UnitTaken (sq_search q)))
      else if \<not> wait then Return (Inl S2_AGAIN)
      else if push_queued q = max_push_waiters q then Return (Inl S2_NOMEM)
      else if \<not> haveReceiver then Return (Inr NeedsReceiver)
      else Store (q\<lparr>push_queued := push_queued q + 1\<rparr>) (Inr WaitQueued))"

text \<open>A woken pusher takes its unit; \<open>None\<close> is a halt of the processor.\<close>

definition push_leave :: "s2_queue \<Rightarrow> (s2_queue \<times> u32) option" where
  "push_leave q =
     (if free_entries q = 0 \<or> push_queued q = 0 \<or> push_signalled q = 0 then None
      else Some (q\<lparr>push_signalled := push_signalled q - 1, push_queued := push_queued q - 1,
                   free_entries := free_entries q - 1, sq_search := search_next q\<rparr>, sq_search q))"

definition take_element_pass :: "bool \<Rightarrow> bool \<Rightarrow> s2_queue \<Rightarrow> (s2_queue, s2_error + queue_next) decision" where
  "take_element_pass wait haveReceiver q =
     (if sq_size q > ucast (pop_queued q) then Store (q\<lparr>sq_size := sq_size q - 1\<rparr>) (Inr (UnitTaken 0))
      else if \<not> wait then Return (Inl S2_AGAIN)
      else if pop_queued q = max_pop_waiters q then Return (Inl S2_NOMEM)
      else if \<not> haveReceiver then Return (Inr NeedsReceiver)
      else Store (q\<lparr>pop_queued := pop_queued q + 1\<rparr>) (Inr WaitQueued))"

definition pop_leave :: "s2_queue \<Rightarrow> s2_queue option" where
  "pop_leave q =
     (if sq_size q = 0 \<or> pop_queued q = 0 \<or> pop_signalled q = 0 then None
      else Some (q\<lparr>pop_queued := pop_queued q - 1, pop_signalled := pop_signalled q - 1, sq_size := sq_size q - 1\<rparr>))"

text \<open>Giving a unit back to either side, and whether a waiter is to be woken.\<close>

definition free_count :: "s2_queue \<Rightarrow> s2_queue \<times> bool" where
  "free_count q =
     (let q = q\<lparr>free_entries := free_entries q + 1\<rparr>;
          wake = int (unat (push_queued q)) - int (unat (push_signalled q)) > 0
      in (if wake then q\<lparr>push_signalled := push_signalled q + 1\<rparr> else q, wake))"

definition push_count :: "u32 \<Rightarrow> s2_queue \<Rightarrow> s2_queue \<times> bool" where
  "push_count linked q =
     (let q = q\<lparr>sq_size := sq_size q + 1\<rparr>;
          wake = int (unat (pop_queued q)) - int (unat (pop_signalled q)) > 0;
          q = (if wake then q\<lparr>pop_signalled := pop_signalled q + 1\<rparr> else q)
      in (if linked \<noteq> NO_ENTRY then q\<lparr>sq_tail := linked\<rparr> else q, wake))"

section \<open>The bitmap\<close>

definition bitmap_word :: "u32 \<Rightarrow> nat" where
  "bitmap_word e = unat (drop_bit 5 e)"

definition bitmap_bit :: "u32 \<Rightarrow> u32" where
  "bitmap_bit e = drop_bit (unat (e AND 31)) 0x80000000"

section \<open>Threads sharing a queue\<close>

text \<open>
  Where a thread stands.  A push: in \<open>allocate_entry\<close> (before its unit, queued, woken, searching the bitmap), writing
  element and link, linking (reading the tail, reserving its link, checking the tail, storing), counting, waking a
  popper.  A pop: likewise up to its unit, then taking the element after the head, freeing the old head in the bitmap
  and in the count, waking a pusher.  Both may repair the tail in between.  \<open>QHalted\<close> is a halt on a check of the queue's own
  state; \<open>QRefused s\<close> is the halt of a thread at \<open>s\<close> because a call was refused: entering or waking the waiting queue, or
  freeing the signal receiver.
\<close>

datatype ('d) repairer = ForPush 'd u32 | ForPop

datatype 'd queue_thread = QIdle | QHalted
  | QAllocate 'd bool bool | QPushQueued 'd | QPushWoken 'd | QSearch 'd u32 u32
  | QPutElement 'd u32 | QPutLink 'd u32
  | QTail 'd u32 | QReserve 'd u32 u32 | QCheck 'd u32 u32 u32 nat | QLink 'd u32 u32 u32 nat
  | QRepair "'d repairer" | QRepairRead "'d repairer" s2_queue nat | QRepairStore "'d repairer" s2_queue nat u32
  | QCount | QCountRead s2_queue nat | QCountStore s2_queue nat u32 | QPushWaking
  | QTake bool bool | QPopQueued | QPopWoken | QHead | QHeadRead s2_queue nat | QGet s2_queue nat u32 | QPopStore s2_queue nat u32 'd
  | QFree u32 | QFreeBit u32 | QFreeCount | QPopWaking
  | QRefused "'d queue_thread"

text \<open>
  The memory, with a counter of the stores to the line and to each link that stands for the reservations on them; the
  threads; the threads that have a signal receiver; and as history what was linked and what was taken.
\<close>

record 'd queue_sys =
  sq_line :: s2_queue
  line_stores :: nat
  sq_links :: "nat \<Rightarrow> u32"
  link_stores :: "nat \<Rightarrow> nat"
  sq_elements :: "nat \<Rightarrow> 'd"
  sq_bitmap :: "nat \<Rightarrow> u32"
  sq_threads :: "nat \<Rightarrow> 'd queue_thread"
  sq_receivers :: "nat \<Rightarrow> nat"
  sq_pushed :: "'d list"
  sq_popped :: "'d list"

definition sq_set :: "nat \<Rightarrow> 'd queue_thread \<Rightarrow> 'd queue_sys \<Rightarrow> 'd queue_sys" where
  "sq_set t s x = x\<lparr>sq_threads := (sq_threads x)(t := s)\<rparr>"

definition put_line :: "s2_queue \<Rightarrow> 'd queue_sys \<Rightarrow> 'd queue_sys" where
  "put_line q x = x\<lparr>sq_line := q, line_stores := line_stores x + 1\<rparr>"

definition put_link :: "u32 \<Rightarrow> u32 \<Rightarrow> 'd queue_sys \<Rightarrow> 'd queue_sys" where
  "put_link e next x = x\<lparr>sq_links := (sq_links x)(unat e := next), link_stores := (link_stores x)(unat e := link_stores x (unat e) + 1)\<rparr>"

definition after_repair :: "'d repairer \<Rightarrow> 'd queue_thread" where
  "after_repair r = (case r of ForPush d e \<Rightarrow> QTail d e | ForPop \<Rightarrow> QHead)"

text \<open>Freeing the receiver of a thread that has allocated one.\<close>

definition drop_receiver :: "bool \<Rightarrow> nat \<Rightarrow> 'd queue_sys \<Rightarrow> 'd queue_sys" where
  "drop_receiver haveReceiver t x =
     (if haveReceiver then x\<lparr>sq_receivers := (sq_receivers x)(t := sq_receivers x t - 1)\<rparr> else x)"

text \<open>
  What the environment does: start an operation (with or without waiting), or let a thread go on, with the choice
  whether its conditional store goes through or its receiver is allocated, or have it wake a queued thread, or refuse the
  call it makes.
\<close>

datatype 'd queue_act = StartPush 'd bool | StartPop bool | GoOnWith bool | WakeThread nat | RefuseCall bool

text \<open>\<open>allocate_entry\<close>.\<close>

definition queue_allocating :: "nat \<Rightarrow> bool \<Rightarrow> 'd queue_sys \<Rightarrow> 'd queue_sys option" where
  "queue_allocating t choice x =
     (let q = sq_line x in
      case sq_threads x t of
        QAllocate d wait rcv \<Rightarrow>
          (case allocate_entry_pass wait rcv q of
             Store q' (Inr (UnitTaken start)) \<Rightarrow>
               if choice then Some (sq_set t (QSearch d start 0) (put_line q' (drop_receiver rcv t x))) else Some x
           | Store q' _ \<Rightarrow> if choice then Some (sq_set t (QPushQueued d) (put_line q' x)) else Some x
           | Return (Inr _) \<Rightarrow>
               if choice then Some (sq_set t (QAllocate d wait True) (x\<lparr>sq_receivers := (sq_receivers x)(t := sq_receivers x t + 1)\<rparr>))
               else Some (sq_set t QIdle x)
           | Return (Inl _) \<Rightarrow> Some (sq_set t QIdle x)
           | Again \<Rightarrow> Some x)
      | QPushWoken d \<Rightarrow>
          (case push_leave q of
             None \<Rightarrow> Some (sq_set t QHalted x)
           | Some (q', start) \<Rightarrow> if choice then Some (sq_set t (QSearch d start 0) (put_line q' (drop_receiver True t x))) else Some x)
      | QSearch d start i \<Rightarrow>
          (let e = (start + i) mod sq_entries q; w = sq_bitmap x (bitmap_word e)
           in if w AND bitmap_bit e \<noteq> 0 then Some (sq_set t (QSearch d start (i + 1)) x)
              else if choice
              then Some (sq_set t (QPutElement d e) (x\<lparr>sq_bitmap := (sq_bitmap x)(bitmap_word e := w OR bitmap_bit e)\<rparr>))
              else Some x)
      | _ \<Rightarrow> None)"

text \<open>\<open>__sync2_queue_push\<close> from its entry on.\<close>

definition queue_pushing :: "nat \<Rightarrow> bool \<Rightarrow> 'd queue_sys \<Rightarrow> 'd queue_sys option" where
  "queue_pushing t choice x =
     (let q = sq_line x in
      case sq_threads x t of
        QPutElement d e \<Rightarrow> Some (sq_set t (QPutLink d e) (x\<lparr>sq_elements := (sq_elements x)(unat e := d)\<rparr>))
      | QPutLink d e \<Rightarrow> Some (sq_set t (QTail d e) (put_link e NO_ENTRY x))
      | QTail d e \<Rightarrow> Some (sq_set t (QReserve d e (sq_tail q)) x)
      | QReserve d e tail \<Rightarrow> Some (sq_set t (QCheck d e tail (sq_links x (unat tail)) (link_stores x (unat tail))) x)
      | QCheck d e tail next v \<Rightarrow>
          if sq_tail q \<noteq> tail then Some (sq_set t (QTail d e) x)
          else if next \<noteq> NO_ENTRY then Some (sq_set t (QRepair (ForPush d e)) x)
          else Some (sq_set t (QLink d e tail next v) x)
      | QLink d e tail next v \<Rightarrow>
          if choice \<and> link_stores x (unat tail) = v
          then Some (sq_set t QCount (put_link tail e (x\<lparr>sq_pushed := sq_pushed x @ [d]\<rparr>)))
          else Some (sq_set t (QTail d e) x)
      | QCount \<Rightarrow> Some (sq_set t (QCountRead q (line_stores x)) x)
      | QCountRead q' v \<Rightarrow> Some (sq_set t (QCountStore q' v (sq_links x (unat (sq_tail q')))) x)
      | QCountStore q' v next \<Rightarrow>
          if choice \<and> line_stores x = v
          then Some (sq_set t (if snd (push_count next q') then QPushWaking else QIdle) (put_line (fst (push_count next q')) x))
          else Some (sq_set t QCount x)
      | _ \<Rightarrow> None)"

text \<open>\<open>repair_tail\<close>.\<close>

definition queue_repairing :: "nat \<Rightarrow> bool \<Rightarrow> 'd queue_sys \<Rightarrow> 'd queue_sys option" where
  "queue_repairing t choice x =
     (case sq_threads x t of
        QRepair r \<Rightarrow> Some (sq_set t (QRepairRead r (sq_line x) (line_stores x)) x)
      | QRepairRead r q v \<Rightarrow>
          (let next = sq_links x (unat (sq_tail q))
           in if next = NO_ENTRY then Some (sq_set t (after_repair r) x) else Some (sq_set t (QRepairStore r q v next) x))
      | QRepairStore r q v next \<Rightarrow>
          if choice \<and> line_stores x = v then Some (sq_set t (QRepair r) (put_line (q\<lparr>sq_tail := next\<rparr>) x))
          else Some (sq_set t (QRepair r) x)
      | _ \<Rightarrow> None)"

text \<open>\<open>free_entry\<close>.\<close>

definition queue_freeing :: "nat \<Rightarrow> bool \<Rightarrow> 'd queue_sys \<Rightarrow> 'd queue_sys option" where
  "queue_freeing t choice x =
     (let q = sq_line x in
      case sq_threads x t of
        QFree e \<Rightarrow>
          if e = NO_ENTRY \<or> e \<ge> sq_entries q then Some (sq_set t QHalted x) else Some (sq_set t (QFreeBit e) x)
      | QFreeBit e \<Rightarrow>
          (let w = sq_bitmap x (bitmap_word e)
           in if w AND bitmap_bit e = 0 then Some (sq_set t QHalted x)
              else if choice then Some (sq_set t QFreeCount (x\<lparr>sq_bitmap := (sq_bitmap x)(bitmap_word e := w AND NOT (bitmap_bit e))\<rparr>))
              else Some x)
      | QFreeCount \<Rightarrow>
          if choice then Some (sq_set t (if snd (free_count q) then QPopWaking else QIdle) (put_line (fst (free_count q)) x))
          else Some x
      | _ \<Rightarrow> None)"

text \<open>\<open>__sync2_queue_pop\<close>.\<close>

definition queue_popping :: "nat \<Rightarrow> bool \<Rightarrow> 'd queue_sys \<Rightarrow> 'd queue_sys option" where
  "queue_popping t choice x =
     (let q = sq_line x in
      case sq_threads x t of
        QTake wait rcv \<Rightarrow>
          (case take_element_pass wait rcv q of
             Store q' (Inr (UnitTaken _)) \<Rightarrow> if choice then Some (sq_set t QHead (put_line q' (drop_receiver rcv t x))) else Some x
           | Store q' _ \<Rightarrow> if choice then Some (sq_set t QPopQueued (put_line q' x)) else Some x
           | Return (Inr _) \<Rightarrow>
               if choice then Some (sq_set t (QTake wait True) (x\<lparr>sq_receivers := (sq_receivers x)(t := sq_receivers x t + 1)\<rparr>))
               else Some (sq_set t QIdle x)
           | Return (Inl _) \<Rightarrow> Some (sq_set t QIdle x)
           | Again \<Rightarrow> Some x)
      | QPopWoken \<Rightarrow>
          (case pop_leave q of
             None \<Rightarrow> Some (sq_set t QHalted x)
           | Some q' \<Rightarrow> if choice then Some (sq_set t QHead (put_line q' (drop_receiver True t x))) else Some x)
      | QHead \<Rightarrow> if sq_head q = sq_tail q then Some (sq_set t (QRepair ForPop) x) else Some (sq_set t (QHeadRead q (line_stores x)) x)
      | QHeadRead q' v \<Rightarrow>
          (let next = sq_links x (unat (sq_head q'))
           in if next = NO_ENTRY then Some (sq_set t QHead x) else Some (sq_set t (QGet q' v next) x))
      | QGet q' v next \<Rightarrow> Some (sq_set t (QPopStore q' v next (sq_elements x (unat next))) x)
      | QPopStore q' v next d \<Rightarrow>
          if choice \<and> line_stores x = v
          then Some (sq_set t (QFree (sq_head q')) (put_line (q'\<lparr>sq_head := next\<rparr>) (x\<lparr>sq_popped := sq_popped x @ [d]\<rparr>)))
          else Some (sq_set t QHead x)
      | _ \<Rightarrow> None)"

text \<open>
  A wake-up that \<open>__sync2_queue_wakeup\<close> makes, of a thread queued on that side or of one that halted, its wait refused, with its
  entry in the waiting queue; and the calls that fail, each of which halts the processor: the enter of the waiting queue, with its wait for the signal (before a wake-up or, if \<open>entering\<close>,
  after it), its wake-up, for either of its reasons, and the free of the receiver, which comes after the store that takes the unit.
\<close>

definition queue_waking :: "nat \<Rightarrow> nat \<Rightarrow> 'd queue_sys \<Rightarrow> 'd queue_sys option" where
  "queue_waking t u x =
     (case (sq_threads x t, sq_threads x u) of
        (QPushWaking, QPopQueued) \<Rightarrow> Some (sq_set t QIdle (sq_set u QPopWoken x))
      | (QPopWaking, QPushQueued d) \<Rightarrow> Some (sq_set t QIdle (sq_set u (QPushWoken d) x))
      | (QPushWaking, QRefused QPopQueued) \<Rightarrow> Some (sq_set t QIdle (sq_set u (QRefused QPopWoken) x))
      | (QPopWaking, QRefused (QPushQueued d)) \<Rightarrow> Some (sq_set t QIdle (sq_set u (QRefused (QPushWoken d)) x))
      | _ \<Rightarrow> None)"

definition queue_refusing :: "nat \<Rightarrow> bool \<Rightarrow> 'd queue_sys \<Rightarrow> 'd queue_sys option" where
  "queue_refusing t entering x =
     (let q = sq_line x; s = sq_threads x t in
      case s of
        QPushQueued d \<Rightarrow> Some (sq_set t (QRefused s) x)
      | QPopQueued \<Rightarrow> Some (sq_set t (QRefused s) x)
      | QPushWaking \<Rightarrow> Some (sq_set t (QRefused s) x)
      | QPopWaking \<Rightarrow> Some (sq_set t (QRefused s) x)
      | QAllocate d wait True \<Rightarrow>
          (case allocate_entry_pass wait True q of
             Store q' (Inr (UnitTaken start)) \<Rightarrow> Some (sq_set t (QRefused (QSearch d start 0)) (put_line q' x))
           | _ \<Rightarrow> None)
      | QPushWoken d \<Rightarrow>
          if entering then Some (sq_set t (QRefused s) x)
          else (case push_leave q of None \<Rightarrow> None | Some (q', start) \<Rightarrow> Some (sq_set t (QRefused (QSearch d start 0)) (put_line q' x)))
      | QTake wait True \<Rightarrow>
          (case take_element_pass wait True q of
             Store q' (Inr (UnitTaken _)) \<Rightarrow> Some (sq_set t (QRefused QHead) (put_line q' x))
           | _ \<Rightarrow> None)
      | QPopWoken \<Rightarrow>
          if entering then Some (sq_set t (QRefused s) x)
          else (case pop_leave q of None \<Rightarrow> None | Some q' \<Rightarrow> Some (sq_set t (QRefused QHead) (put_line q' x)))
      | _ \<Rightarrow> None)"

definition queue_move ::
    "(nat \<Rightarrow> s2_caller option) \<Rightarrow> s2_notifier list option \<Rightarrow> nat \<Rightarrow> 'd queue_act \<Rightarrow> 'd queue_sys \<Rightarrow> 'd queue_sys option" where
  "queue_move caller notifiers t act x =
     (case act of
        StartPush d wait \<Rightarrow>
          if sq_threads x t = QIdle \<and> queue_push_check wait (caller t) notifiers (sq_line x) = Inr ()
          then Some (sq_set t (QAllocate d wait False) x) else None
      | StartPop wait \<Rightarrow>
          if sq_threads x t = QIdle \<and> queue_pop_check wait (caller t) notifiers (sq_line x) = Inr ()
          then Some (sq_set t (QTake wait False) x) else None
      | GoOnWith choice \<Rightarrow>
          (case queue_allocating t choice x of Some y \<Rightarrow> Some y | None \<Rightarrow>
           (case queue_pushing t choice x of Some y \<Rightarrow> Some y | None \<Rightarrow>
            (case queue_repairing t choice x of Some y \<Rightarrow> Some y | None \<Rightarrow>
             (case queue_popping t choice x of Some y \<Rightarrow> Some y | None \<Rightarrow> queue_freeing t choice x))))
      | WakeThread u \<Rightarrow> queue_waking t u x
      | RefuseCall entering \<Rightarrow> queue_refusing t entering x)"

inductive s2_queue_step ::
    "nat \<Rightarrow> (nat \<Rightarrow> s2_caller option) \<Rightarrow> s2_notifier list option \<Rightarrow> 'd queue_sys \<Rightarrow> 'd queue_sys \<Rightarrow> bool"
  for N caller notifiers where
  go: "t < N \<Longrightarrow> queue_move caller notifiers t (GoOnWith choice) x = Some y \<Longrightarrow> s2_queue_step N caller notifiers x y"
| push: "t < N \<Longrightarrow> queue_move caller notifiers t (StartPush d wait) x = Some y \<Longrightarrow> s2_queue_step N caller notifiers x y"
| pop: "t < N \<Longrightarrow> queue_move caller notifiers t (StartPop wait) x = Some y \<Longrightarrow> s2_queue_step N caller notifiers x y"
| wake: "t < N \<Longrightarrow> u < N \<Longrightarrow> queue_move caller notifiers t (WakeThread u) x = Some y \<Longrightarrow> s2_queue_step N caller notifiers x y"
| refuse: "t < N \<Longrightarrow> queue_move caller notifiers t (RefuseCall entering) x = Some y \<Longrightarrow> s2_queue_step N caller notifiers x y"

end
