(* ===== verification/Sync2_Queue_Inv.thy ===== *)
theory Sync2_Queue_Inv
  imports Sync2_Queue
begin

text \<open>
  The invariant of threads sharing a libsync2 queue: the counts on the line against the threads, the linked list
  against the history, the ownership of entries, and what each thread knows of the memory while no store
  takes its reservation.
\<close>

section \<open>The counts of one side\<close>

text \<open>
  A side has units (free entries, or elements), threads queued for one, threads woken to take one, and threads about to
  wake one; every signal has its unit, and while some thread waits unsignalled there are no other units.
\<close>

definition side_counts :: "u16 \<Rightarrow> u16 \<Rightarrow> u16 \<Rightarrow> u32 \<Rightarrow> nat \<Rightarrow> nat \<Rightarrow> nat \<Rightarrow> bool" where
  "side_counts queued_h signalled_h most units queued woken waking \<longleftrightarrow>
     unat queued_h = queued + woken \<and> unat signalled_h = woken + waking \<and> waking \<le> queued \<and>
     unat queued_h \<le> unat most \<and> unat signalled_h \<le> unat units \<and> (waking < queued \<longrightarrow> unat units = unat signalled_h)"

lemma less_ucast16: "(ucast (x :: u16) :: u32) < y \<longleftrightarrow> unat x < unat y"
  by (simp add: word_less_nat_alt)

lemma side_take:
  assumes "side_counts Q S M F q w k" "F > ucast Q"
  shows "side_counts Q S M (F - 1) q w k" "unat (F - 1) + 1 = unat F"
proof -
  have lt: "unat Q < unat F" using assms(2) by (simp add: less_ucast16)
  then have F: "unat (F - 1) = unat F - 1" by (intro unat_down) simp
  then show "unat (F - 1) + 1 = unat F" using lt by simp
  have "\<not> k < q" using assms(1) lt by (auto simp: side_counts_def)
  then show "side_counts Q S M (F - 1) q w k" using assms(1) lt F by (auto simp: side_counts_def)
qed

lemma side_queue:
  assumes "side_counts Q S M F q w k" "\<not> F > ucast Q" "Q \<noteq> M"
  shows "side_counts (Q + 1) S M F (q + 1) w k"
proof -
  have "unat Q \<noteq> unat M" using assms(3) by (simp add: word_unat_eq_iff)
  then have QM: "unat Q < unat M" using assms(1) by (simp add: side_counts_def)
  note Q = u16_up[OF QM]
  have le: "unat F \<le> unat Q" using assms(2) by (simp add: less_ucast16)
  have "unat F = unat S"
  proof (cases "k < q")
    case False
    then show ?thesis using assms(1) le by (simp add: side_counts_def)
  qed (use assms(1) in \<open>simp add: side_counts_def\<close>)
  then show ?thesis using assms(1) Q QM by (simp add: side_counts_def)
qed

lemma side_leave:
  assumes "side_counts Q S M F q (Suc w) k"
  shows "F \<noteq> 0" "Q \<noteq> 0" "S \<noteq> 0" "side_counts (Q - 1) (S - 1) M (F - 1) q w k" "unat (F - 1) + 1 = unat F"
proof -
  have p: "0 < unat F" "0 < unat Q" "0 < unat S" using assms by (auto simp: side_counts_def)
  then show "F \<noteq> 0" "Q \<noteq> 0" "S \<noteq> 0" by auto
  note d = unat_down[OF p(1)] unat_down[OF p(2)] unat_down[OF p(3)]
  show "side_counts (Q - 1) (S - 1) M (F - 1) q w k" using assms p unfolding side_counts_def d by auto
  show "unat (F - 1) + 1 = unat F" using d(1) p(1) by simp
qed

lemma side_give:
  assumes "side_counts Q S M F q w k" "unat F + 1 < 2 ^ 32"
  shows "side_counts Q (if int (unat Q) - int (unat S) > 0 then S + 1 else S) M (F + 1) q w
      (if int (unat Q) - int (unat S) > 0 then k + 1 else k)" "unat (F + 1) = unat F + 1"
proof -
  show F: "unat (F + 1) = unat F + 1" using assms(2) by (intro unat_up) simp
  show "side_counts Q (if int (unat Q) - int (unat S) > 0 then S + 1 else S) M (F + 1) q w
      (if int (unat Q) - int (unat S) > 0 then k + 1 else k)"
  proof (cases "unat S < unat Q")
    case True
    note S = u16_up[OF this]
    have "k < q" using assms(1) True by (simp add: side_counts_def)
    then show ?thesis using assms(1) True S F by (auto simp: side_counts_def)
  next
    case False
    then show ?thesis using assms(1) F by (auto simp: side_counts_def)
  qed
qed

lemma side_wake:
  "side_counts Q S M F (Suc q) w (Suc k) \<Longrightarrow> side_counts Q S M F q (w + 1) k"
  by (auto simp: side_counts_def)

section \<open>Threads by what they count for\<close>

datatype queue_class = CSearch | CFreeCount | CPushQueued | CPushWoken | CPopWaking
  | CPopQueued | CPopWoken | CPushWaking | CUnit | CCount | CNone

definition repair_class :: "'d repairer \<Rightarrow> queue_class" where
  "repair_class r = (case r of ForPush d e \<Rightarrow> CNone | ForPop \<Rightarrow> CUnit)"

fun q_class :: "'d queue_thread \<Rightarrow> queue_class" where
  "q_class (QPushQueued d) = CPushQueued" | "q_class (QPushWoken d) = CPushWoken" | "q_class (QSearch d start i) = CSearch"
| "q_class QCount = CCount" | "q_class (QCountRead q v) = CCount" | "q_class (QCountStore q v next) = CCount"
| "q_class QPushWaking = CPushWaking" | "q_class QPopQueued = CPopQueued" | "q_class QPopWoken = CPopWoken"
| "q_class QHead = CUnit" | "q_class (QHeadRead q v) = CUnit" | "q_class (QGet q v next) = CUnit" | "q_class (QPopStore q v next d) = CUnit"
| "q_class (QRepair r) = repair_class r" | "q_class (QRepairRead r q v) = repair_class r" | "q_class (QRepairStore r q v next) = repair_class r"
| "q_class QFreeCount = CFreeCount" | "q_class QPopWaking = CPopWaking" | "q_class (QRefused s) = q_class s" | "q_class s = CNone"

definition q_num :: "nat \<Rightarrow> (nat \<Rightarrow> 'd queue_thread) \<Rightarrow> queue_class \<Rightarrow> nat" where
  "q_num N thr c = number N (\<lambda>s. q_class s = c) thr"

lemma q_num_move:
  assumes "t < N" "q_class (thr t) = a" "q_class s = b" "a \<noteq> b"
  shows "q_num N (thr(t := s)) = (q_num N thr)(a := q_num N thr a - 1, b := q_num N thr b + 1)" "0 < q_num N thr a"
proof -
  show "0 < q_num N thr a" unfolding q_num_def by (rule number_pos[OF assms(1)]) (rule assms(2))
  show "q_num N (thr(t := s)) = (q_num N thr)(a := q_num N thr a - 1, b := q_num N thr b + 1)"
  proof
    fix c show "q_num N (thr(t := s)) c = ((q_num N thr)(a := q_num N thr a - 1, b := q_num N thr b + 1)) c"
      using number_update[OF assms(1), of "\<lambda>s. q_class s = c" thr s] assms(2-4) by (auto simp: q_num_def)
  qed
qed

lemma q_num_same: "t < N \<Longrightarrow> q_class s = q_class (thr t) \<Longrightarrow> q_num N (thr(t := s)) = q_num N thr"
proof
  fix c assume "t < N" "q_class s = q_class (thr t)"
  then show "q_num N (thr(t := s)) c = q_num N thr c"
    using number_update[of t N "\<lambda>s. q_class s = c" thr s] by (simp add: q_num_def split: if_splits)
qed

definition line_counts :: "s2_queue \<Rightarrow> (queue_class \<Rightarrow> nat) \<Rightarrow> nat \<Rightarrow> nat \<Rightarrow> bool" where
  "line_counts q m linked clear \<longleftrightarrow>
     side_counts (push_queued q) (push_signalled q) (max_push_waiters q) (free_entries q) (m CPushQueued) (m CPushWoken) (m CPopWaking) \<and>
     side_counts (pop_queued q) (pop_signalled q) (max_pop_waiters q) (sq_size q) (m CPopQueued) (m CPopWoken) (m CPushWaking) \<and>
     linked = unat (sq_size q) + m CUnit + m CCount \<and> clear = unat (free_entries q) + m CSearch + m CFreeCount"

text \<open>The moves that change the counts, on a function that numbers the classes.\<close>

lemma count_allocate:
  assumes "line_counts q m linked clear" "free_entries q > ucast (push_queued q)"
  shows "line_counts (q\<lparr>free_entries := free_entries q - 1, sq_search := s\<rparr>) (m(CNone := i, CSearch := m CSearch + 1)) linked clear"
  using assms side_take[of "push_queued q" "push_signalled q" "max_push_waiters q" "free_entries q"]
  by (fastforce simp: line_counts_def)

lemma count_push_queue:
  assumes "line_counts q m linked clear" "\<not> free_entries q > ucast (push_queued q)" "push_queued q \<noteq> max_push_waiters q"
  shows "line_counts (q\<lparr>push_queued := push_queued q + 1\<rparr>) (m(CNone := i, CPushQueued := m CPushQueued + 1)) linked clear"
  using assms side_queue[of "push_queued q" "push_signalled q" "max_push_waiters q" "free_entries q"]
  by (simp add: line_counts_def)

lemma count_push_leave:
  assumes "line_counts q m linked clear" "0 < m CPushWoken"
  shows "\<exists>q'. push_leave q = Some (q', sq_search q) \<and> sq_head q' = sq_head q \<and> sq_tail q' = sq_tail q \<and> sq_entries q' = sq_entries q \<and>
    line_counts q' (m(CPushWoken := m CPushWoken - 1, CSearch := m CSearch + 1)) linked clear"
proof -
  obtain w where w: "m CPushWoken = Suc w" using assms(2) gr0_implies_Suc by blast
  have "side_counts (push_queued q) (push_signalled q) (max_push_waiters q) (free_entries q) (m CPushQueued) (Suc w) (m CPopWaking)"
    using assms(1) w by (simp add: line_counts_def)
  note L = side_leave[OF this]
  show ?thesis using L assms(1) w by (simp add: push_leave_def line_counts_def)
qed

lemma count_take:
  assumes "line_counts q m linked clear" "sq_size q > ucast (pop_queued q)"
  shows "line_counts (q\<lparr>sq_size := sq_size q - 1\<rparr>) (m(CNone := i, CUnit := m CUnit + 1)) linked clear"
  using assms side_take[of "pop_queued q" "pop_signalled q" "max_pop_waiters q" "sq_size q"]
  by (fastforce simp: line_counts_def)

lemma count_pop_queue:
  assumes "line_counts q m linked clear" "\<not> sq_size q > ucast (pop_queued q)" "pop_queued q \<noteq> max_pop_waiters q"
  shows "line_counts (q\<lparr>pop_queued := pop_queued q + 1\<rparr>) (m(CNone := i, CPopQueued := m CPopQueued + 1)) linked clear"
  using assms side_queue[of "pop_queued q" "pop_signalled q" "max_pop_waiters q" "sq_size q"]
  by (simp add: line_counts_def)

lemma count_pop_leave:
  assumes "line_counts q m linked clear" "0 < m CPopWoken"
  shows "\<exists>q'. pop_leave q = Some q' \<and> sq_head q' = sq_head q \<and> sq_tail q' = sq_tail q \<and> sq_entries q' = sq_entries q \<and>
    line_counts q' (m(CPopWoken := m CPopWoken - 1, CUnit := m CUnit + 1)) linked clear"
proof -
  obtain w where w: "m CPopWoken = Suc w" using assms(2) gr0_implies_Suc by blast
  have "side_counts (pop_queued q) (pop_signalled q) (max_pop_waiters q) (sq_size q) (m CPopQueued) (Suc w) (m CPushWaking)"
    using assms(1) w by (simp add: line_counts_def)
  note L = side_leave[OF this]
  show ?thesis using L assms(1) w by (simp add: pop_leave_def line_counts_def)
qed

lemma count_free:
  assumes "line_counts q m linked clear" "clear < 2 ^ 32" "0 < m CFreeCount"
  shows "line_counts (fst (free_count q)) (m(CFreeCount := m CFreeCount - 1,
      (if snd (free_count q) then CPopWaking else CNone) := m (if snd (free_count q) then CPopWaking else CNone) + 1)) linked clear"
    "sq_head (fst (free_count q)) = sq_head q" "sq_tail (fst (free_count q)) = sq_tail q" "sq_entries (fst (free_count q)) = sq_entries q"
proof -
  have s: "side_counts (push_queued q) (push_signalled q) (max_push_waiters q) (free_entries q) (m CPushQueued) (m CPushWoken) (m CPopWaking)"
    and b: "unat (free_entries q) + 1 < 2 ^ 32 \<or> unat (free_entries q) + 1 \<le> clear"
    using assms by (auto simp: line_counts_def)
  have "unat (free_entries q) + 1 < 2 ^ 32" using b assms(2) by auto
  note G = side_give[OF s this]
  show "line_counts (fst (free_count q)) (m(CFreeCount := m CFreeCount - 1,
      (if snd (free_count q) then CPopWaking else CNone) := m (if snd (free_count q) then CPopWaking else CNone) + 1)) linked clear"
    using G assms by (auto simp: free_count_def Let_def line_counts_def split: if_splits)
  show "sq_head (fst (free_count q)) = sq_head q" "sq_tail (fst (free_count q)) = sq_tail q" "sq_entries (fst (free_count q)) = sq_entries q"
    by (simp_all add: free_count_def Let_def)
qed

lemma count_push:
  assumes "line_counts q m linked clear" "linked < 2 ^ 32" "0 < m CCount"
  shows "line_counts (fst (push_count next q)) (m(CCount := m CCount - 1,
      (if snd (push_count next q) then CPushWaking else CNone) := m (if snd (push_count next q) then CPushWaking else CNone) + 1)) linked clear"
    "sq_head (fst (push_count next q)) = sq_head q" "sq_entries (fst (push_count next q)) = sq_entries q"
    "sq_tail (fst (push_count next q)) = (if next = NO_ENTRY then sq_tail q else next)"
proof -
  have s: "side_counts (pop_queued q) (pop_signalled q) (max_pop_waiters q) (sq_size q) (m CPopQueued) (m CPopWoken) (m CPushWaking)"
    and b: "unat (sq_size q) + 1 \<le> linked"
    using assms by (auto simp: line_counts_def)
  have "unat (sq_size q) + 1 < 2 ^ 32" using b assms(2) by auto
  note G = side_give[OF s this]
  show "line_counts (fst (push_count next q)) (m(CCount := m CCount - 1,
      (if snd (push_count next q) then CPushWaking else CNone) := m (if snd (push_count next q) then CPushWaking else CNone) + 1)) linked clear"
    using G assms(1,3) by (auto simp: push_count_def Let_def line_counts_def split: if_splits)
  show "sq_head (fst (push_count next q)) = sq_head q" "sq_entries (fst (push_count next q)) = sq_entries q"
    "sq_tail (fst (push_count next q)) = (if next = NO_ENTRY then sq_tail q else next)"
    by (simp_all add: push_count_def Let_def)
qed

lemma count_wake_push:
  assumes "line_counts q m linked clear" "0 < m CPushQueued" "0 < m CPopWaking"
  shows "line_counts q (m(CPopWaking := m CPopWaking - 1, CNone := i, CPushQueued := m CPushQueued - 1, CPushWoken := m CPushWoken + 1)) linked clear"
  using assms by (auto simp: line_counts_def side_counts_def)

lemma count_wake_pop:
  assumes "line_counts q m linked clear" "0 < m CPopQueued" "0 < m CPushWaking"
  shows "line_counts q (m(CPushWaking := m CPushWaking - 1, CNone := i, CPopQueued := m CPopQueued - 1, CPopWoken := m CPopWoken + 1)) linked clear"
  using assms by (auto simp: line_counts_def side_counts_def)

section \<open>The bitmap\<close>

definition in_use :: "(nat \<Rightarrow> u32) \<Rightarrow> nat \<Rightarrow> bool" where
  "in_use bm k \<longleftrightarrow> bit (bm (k div 32)) (31 - k mod 32)"

lemma bitmap_place: "bitmap_word e = unat e div 32" "unat (e AND 31) = unat e mod 32"
proof -
  show "bitmap_word e = unat e div 32" unfolding bitmap_word_def unat_drop_bit_eq by (simp add: drop_bit_eq_div)
  have m: "(31 :: u32) = mask 5" by (simp add: mask_eq_exp_minus_1)
  show "unat (e AND 31) = unat e mod 32" unfolding m by (simp add: unat_and_mask)
qed

lemma bit_bitmap_bit: "bit (bitmap_bit e) k \<longleftrightarrow> k = 31 - unat e mod 32"
proof -
  have "bit (push_bit 31 1 :: u32) j \<longleftrightarrow> j = 31" for j by (auto simp only: bit_simps) simp_all
  then have hi: "bit (0x80000000 :: u32) j \<longleftrightarrow> j = 31" for j by simp
  have "unat e mod 32 < 32" by simp
  then have "unat e mod 32 + k = 31 \<longleftrightarrow> k = 31 - unat e mod 32" by linarith
  then show ?thesis unfolding bitmap_bit_def bitmap_place(2) bit_drop_bit_eq comp_def hi .
qed

lemma bitmap_test: "w AND bitmap_bit e \<noteq> 0 \<longleftrightarrow> bit w (31 - unat e mod 32)"
proof
  assume "w AND bitmap_bit e \<noteq> 0"
  then obtain k where "bit (w AND bitmap_bit e) k" by (metis bit_0_eq bit_word_eqI bot_apply bot_bool_def)
  then show "bit w (31 - unat e mod 32)" by (auto simp: bit_and_iff bit_bitmap_bit)
next
  assume "bit w (31 - unat e mod 32)"
  then have "bit (w AND bitmap_bit e) (31 - unat e mod 32)" by (simp add: bit_and_iff bit_bitmap_bit)
  then show "w AND bitmap_bit e \<noteq> 0" by (metis bit_0_eq bot_apply bot_bool_def)
qed

lemma same_bit: "(31 :: nat) - k mod 32 = 31 - l mod 32 \<Longrightarrow> k div 32 = l div 32 \<Longrightarrow> k = l"
proof -
  assume a: "(31 :: nat) - k mod 32 = 31 - l mod 32" "k div 32 = l div 32"
  have "k mod 32 \<le> 31" "l mod 32 \<le> 31" by simp_all
  then have "k mod 32 = l mod 32" using a(1) by linarith
  then show "k = l" using a(2) by (metis div_mod_decomp)
qed

lemma bitmap_set: "in_use (bm(bitmap_word e := bm (bitmap_word e) OR bitmap_bit e)) k \<longleftrightarrow> in_use bm k \<or> k = unat e"
  unfolding in_use_def bitmap_place(1) by (auto simp: bit_or_iff bit_bitmap_bit dest: same_bit)

lemma bitmap_clear: "in_use (bm(bitmap_word e := bm (bitmap_word e) AND NOT (bitmap_bit e))) k \<longleftrightarrow> in_use bm k \<and> k \<noteq> unat e"
proof -
  have "31 - k mod 32 < (32 :: nat)" by simp
  then show ?thesis unfolding in_use_def bitmap_place(1) by (auto simp: bit_and_iff bit_not_iff bit_bitmap_bit dest: same_bit)
qed

lemma bitmap_tests: "bm (bitmap_word e) AND bitmap_bit e \<noteq> 0 \<longleftrightarrow> in_use bm (unat e)"
  by (simp add: bitmap_test in_use_def bitmap_place(1))

definition clear_entries :: "nat \<Rightarrow> (nat \<Rightarrow> u32) \<Rightarrow> nat" where
  "clear_entries n bm = card {k. k < n \<and> \<not> in_use bm k}"

lemma clear_entries_le: "clear_entries n bm \<le> n"
  using card_mono[of "{..<n}" "{k. k < n \<and> \<not> in_use bm k}"] by (auto simp: clear_entries_def)

lemma clear_entries_set:
  assumes "unat e < n" "\<not> in_use bm (unat e)"
  shows "clear_entries n (bm(bitmap_word e := bm (bitmap_word e) OR bitmap_bit e)) + 1 = clear_entries n bm"
proof -
  have "{k. k < n \<and> \<not> in_use bm k} = insert (unat e) {k. k < n \<and> \<not> (in_use bm k \<or> k = unat e)}" using assms by auto
  then show ?thesis by (simp add: clear_entries_def bitmap_set)
qed

lemma clear_entries_clear:
  assumes "unat e < n" "in_use bm (unat e)"
  shows "clear_entries n (bm(bitmap_word e := bm (bitmap_word e) AND NOT (bitmap_bit e))) = clear_entries n bm + 1"
proof -
  have "{k. k < n \<and> \<not> (in_use bm k \<and> k \<noteq> unat e)} = insert (unat e) {k. k < n \<and> \<not> in_use bm k}" using assms by auto
  moreover have "unat e \<notin> {k. k < n \<and> \<not> in_use bm k}" using assms(2) by simp
  ultimately show ?thesis by (simp add: clear_entries_def bitmap_clear)
qed

section \<open>The list\<close>

text \<open>The entries from the head on, each linked to the next; the tail is the last of them or the one before.\<close>

definition list_chain :: "nat \<Rightarrow> (nat \<Rightarrow> u32) \<Rightarrow> u32 \<Rightarrow> u32 \<Rightarrow> u32 list \<Rightarrow> bool" where
  "list_chain n links head tail es \<longleftrightarrow>
     es \<noteq> [] \<and> hd es = head \<and> distinct es \<and> (\<forall>e \<in> set es. unat e < n) \<and>
     (\<forall>i. Suc i < length es \<longrightarrow> links (unat (es ! i)) = es ! Suc i) \<and> links (unat (last es)) = NO_ENTRY \<and>
     (\<exists>k < length es. tail = es ! k \<and> length es \<le> k + 2)"

lemma chain_in: "list_chain n links head tail es \<Longrightarrow> head \<in> set es \<and> tail \<in> set es"
  by (auto simp: list_chain_def)

lemma chain_frame:
  assumes "list_chain n links head tail es" "\<And>e. e \<in> set es \<Longrightarrow> links' (unat e) = links (unat e)"
  shows "list_chain n links' head tail es"
  using assms by (auto simp: list_chain_def)

lemma no_entry_unused: "unat e < n \<Longrightarrow> n < 2 ^ 32 \<Longrightarrow> e \<noteq> NO_ENTRY"
  by auto

lemma chain_length: "list_chain n links head tail es \<Longrightarrow> 1 \<le> length es \<and> length es \<le> n"
proof -
  assume c: "list_chain n links head tail es"
  then have "inj_on unat (set es)" "unat ` set es \<subseteq> {..<n}" by (auto simp: list_chain_def inj_on_def word_unat_eq_iff[symmetric])
  then have "card (set es) \<le> n" using card_mono[of "{..<n}" "unat ` set es"] by (simp add: card_image)
  then show ?thesis using c by (auto simp: list_chain_def distinct_card Suc_le_eq)
qed

lemma chain_tail_free:
  assumes "list_chain n links head tail es" "n < 2 ^ 32" "links (unat tail) = NO_ENTRY"
  shows "tail = last es"
proof -
  obtain k where k: "k < length es" "tail = es ! k" "length es \<le> k + 2" using assms(1) by (auto simp: list_chain_def)
  have "\<not> Suc k < length es"
  proof
    assume a: "Suc k < length es"
    then have "links (unat tail) = es ! Suc k" "unat (es ! Suc k) < n" using assms(1) k(2) by (auto simp: list_chain_def)
    then show False using no_entry_unused[OF _ assms(2)] assms(3) by metis
  qed
  then have "k = length es - 1" using k(1) by linarith
  then show ?thesis using k assms(1) by (simp add: list_chain_def last_conv_nth)
qed

lemma chain_append:
  assumes "list_chain n links head tail es" "n < 2 ^ 32" "links (unat tail) = NO_ENTRY" "unat e < n" "e \<notin> set es" "links (unat e) = NO_ENTRY"
  shows "list_chain n (links(unat tail := e)) head tail (es @ [e])"
proof -
  note C = assms(1)[unfolded list_chain_def]
  have l: "tail = last es" by (rule chain_tail_free[OF assms(1-3)])
  then have le: "tail = es ! (length es - 1)" using C by (simp add: last_conv_nth)
  have ne: "tail \<noteq> e" using l C assms(5) by auto
  have "(links(unat tail := e)) (unat ((es @ [e]) ! i)) = (es @ [e]) ! Suc i" if "Suc i < length (es @ [e])" for i
  proof (cases "i = length es - 1")
    case True
    then show ?thesis using le C by (simp add: nth_append)
  next
    case False
    then have i: "Suc i < length es" using that by simp
    then have "es ! i \<noteq> tail" using le C False by (simp add: nth_eq_iff_index_eq)
    then have "unat (es ! i) \<noteq> unat tail" by (simp add: word_unat_eq_iff[symmetric])
    then show ?thesis using i C by (simp add: nth_append)
  qed
  moreover have "\<exists>k < length (es @ [e]). tail = (es @ [e]) ! k \<and> length (es @ [e]) \<le> k + 2"
    using C le by (intro exI[of _ "length es - 1"]) (simp add: nth_append)
  moreover have "(links(unat tail := e)) (unat (last (es @ [e]))) = NO_ENTRY"
    using ne assms(6) by (auto simp: word_unat_eq_iff[symmetric])
  moreover have "es @ [e] \<noteq> []" "hd (es @ [e]) = head" "distinct (es @ [e])" "\<forall>e' \<in> set (es @ [e]). unat e' < n"
    using C assms(4,5) by auto
  ultimately show ?thesis unfolding list_chain_def by blast
qed

lemma chain_next_place:
  assumes "list_chain n links head tail es" "links (unat tail) \<noteq> NO_ENTRY"
  shows "1 < length es \<and> links (unat tail) = es ! (length es - 1)"
proof -
  note C = assms(1)[unfolded list_chain_def]
  have l: "last es = es ! (length es - 1)" using C last_conv_nth by blast
  obtain k where k: "k < length es" "tail = es ! k" "length es \<le> k + 2" using C by blast
  have "Suc k < length es"
  proof (rule ccontr)
    assume "\<not> Suc k < length es"
    then have "k = length es - 1" using k(1) by linarith
    then show False using C assms(2) k(2) l by simp
  qed
  then have "links (unat tail) = es ! Suc k" "Suc k = length es - 1" using C k(2,3) by auto
  then show ?thesis using \<open>Suc k < length es\<close> by simp
qed

lemma chain_advance:
  assumes "list_chain n links head tail es" "links (unat tail) = next" "next \<noteq> NO_ENTRY"
  shows "list_chain n links head next es"
proof -
  have p: "1 < length es \<and> next = es ! (length es - 1)" using chain_next_place[OF assms(1)] assms(2,3) by simp
  then have "\<exists>k < length es. next = es ! k \<and> length es \<le> k + 2" by (intro exI[of _ "length es - 1"]) auto
  then show ?thesis using assms(1) by (simp add: list_chain_def)
qed

lemma chain_next_last:
  assumes "list_chain n links head tail es" "links (unat tail) \<noteq> NO_ENTRY"
  shows "links (unat (links (unat tail))) = NO_ENTRY"
proof -
  have "links (unat tail) = last es"
    using chain_next_place[OF assms] last_conv_nth[of es] by (cases es) auto
  then show ?thesis using assms(1) by (simp add: list_chain_def)
qed

lemma chain_pop:
  assumes "list_chain n links head tail es" "head \<noteq> tail"
  shows "\<exists>rest. es = head # links (unat head) # rest \<and> list_chain n links (links (unat head)) tail (tl es)"
proof -
  note C = assms(1)[unfolded list_chain_def]
  obtain es' where es: "es = head # es'" using C by (cases es) auto
  obtain k where k: "k < length es" "tail = es ! k" "length es \<le> k + 2" using C by blast
  have k0: "0 < k" using k(2) assms(2) es by (cases k) auto
  then obtain x rest where r: "es' = x # rest" using k(1) es by (cases es') auto
  have x: "links (unat head) = x" using C es r by (auto dest: spec[of _ 0])
  have "links (unat (es' ! i)) = es' ! Suc i" if "Suc i < length es'" for i
    using C es that by (auto dest: spec[of _ "Suc i"])
  moreover have "\<exists>k < length es'. tail = es' ! k \<and> length es' \<le> k + 2"
    using k k0 es by (intro exI[of _ "k - 1"]) auto
  ultimately have "list_chain n links x tail es'" using C es r by (auto simp: list_chain_def)
  then show ?thesis using es r x by simp
qed

lemma chain_more:
  assumes "list_chain n links head tail es" "n < 2 ^ 32" "1 < length es"
  shows "links (unat head) \<noteq> NO_ENTRY"
proof -
  note C = assms(1)[unfolded list_chain_def]
  have "head = es ! 0" using C by (auto simp: hd_conv_nth)
  then have "links (unat head) = es ! 1" "es ! 1 \<in> set es" using C assms(3) by auto
  then show ?thesis using C no_entry_unused[OF _ assms(2)] by metis
qed

section \<open>Ownership and local knowledge\<close>

definition repair_owns :: "'d repairer \<Rightarrow> u32 option" where
  "repair_owns r = (case r of ForPush d e \<Rightarrow> Some e | ForPop \<Rightarrow> None)"

text \<open>The entry a thread has for itself: a pusher until it is linked, a popper until its bit is cleared.\<close>

fun q_owns :: "'d queue_thread \<Rightarrow> u32 option" where
  "q_owns (QPutElement d e) = Some e" | "q_owns (QPutLink d e) = Some e" | "q_owns (QTail d e) = Some e"
| "q_owns (QReserve d e tail) = Some e" | "q_owns (QCheck d e tail next v) = Some e" | "q_owns (QLink d e tail next v) = Some e"
| "q_owns (QRepair r) = repair_owns r" | "q_owns (QRepairRead r q v) = repair_owns r" | "q_owns (QRepairStore r q v next) = repair_owns r"
| "q_owns (QFree e) = Some e" | "q_owns (QFreeBit e) = Some e" | "q_owns s = None"

definition entries_owned :: "nat \<Rightarrow> nat \<Rightarrow> (nat \<Rightarrow> 'd queue_thread) \<Rightarrow> (nat \<Rightarrow> u32) \<Rightarrow> u32 list \<Rightarrow> bool" where
  "entries_owned N n thr bm es \<longleftrightarrow>
     (\<forall>e \<in> set es. in_use bm (unat e)) \<and>
     (\<forall>t < N. \<forall>e. q_owns (thr t) = Some e \<longrightarrow> unat e < n \<and> in_use bm (unat e) \<and> e \<notin> set es) \<and>
     (\<forall>t < N. \<forall>u < N. \<forall>e. q_owns (thr t) = Some e \<longrightarrow> q_owns (thr u) = Some e \<longrightarrow> t = u)"

definition entry_ready :: "'d queue_sys \<Rightarrow> 'd \<Rightarrow> u32 \<Rightarrow> bool" where
  "entry_ready x d e \<longleftrightarrow> sq_elements x (unat e) = d \<and> sq_links x (unat e) = NO_ENTRY"

definition repair_ready :: "'d queue_sys \<Rightarrow> 'd repairer \<Rightarrow> bool" where
  "repair_ready x r = (case r of ForPush d e \<Rightarrow> entry_ready x d e | ForPop \<Rightarrow> True)"

text \<open>A copy of the line, good as long as nobody stored to it.\<close>

definition line_copy :: "'d queue_sys \<Rightarrow> s2_queue \<Rightarrow> nat \<Rightarrow> bool \<Rightarrow> bool" where
  "line_copy x q v P \<longleftrightarrow> v \<le> line_stores x \<and> (line_stores x = v \<longrightarrow> q = sq_line x \<and> P)"

definition link_copy :: "'d queue_sys \<Rightarrow> u32 \<Rightarrow> u32 \<Rightarrow> nat \<Rightarrow> bool \<Rightarrow> bool" where
  "link_copy x tail next v P \<longleftrightarrow> v \<le> link_stores x (unat tail) \<and> (link_stores x (unat tail) = v \<longrightarrow> sq_links x (unat tail) = next \<and> P)"

text \<open>Where a call can be refused; the thread keeps what it counts for.\<close>

fun refusable :: "'d queue_thread \<Rightarrow> bool" where
  "refusable (QPushQueued d) = True" | "refusable QPopQueued = True" | "refusable QPushWaking = True" | "refusable QPopWaking = True"
| "refusable (QSearch d start i) = True" | "refusable QHead = True" | "refusable (QPushWoken d) = True" | "refusable QPopWoken = True" | "refusable s = False"

fun q_local :: "'d queue_sys \<Rightarrow> 'd queue_thread \<Rightarrow> bool" where
  "q_local x QHalted = False"
| "q_local x (QRefused s) = refusable s"
| "q_local x (QPutLink d e) = (sq_elements x (unat e) = d)"
| "q_local x (QTail d e) = entry_ready x d e"
| "q_local x (QReserve d e tail) = entry_ready x d e"
| "q_local x (QCheck d e tail next v) = (entry_ready x d e \<and> link_copy x tail next v True)"
| "q_local x (QLink d e tail next v) = (entry_ready x d e \<and> next = NO_ENTRY \<and> link_copy x tail next v (sq_tail (sq_line x) = tail))"
| "q_local x (QRepair r) = repair_ready x r"
| "q_local x (QRepairRead r q v) = (repair_ready x r \<and> line_copy x q v True)"
| "q_local x (QRepairStore r q v next) =
     (repair_ready x r \<and> next \<noteq> NO_ENTRY \<and> line_copy x q v (sq_links x (unat (sq_tail q)) = next))"
| "q_local x (QCountRead q v) = line_copy x q v True"
| "q_local x (QCountStore q v next) = line_copy x q v (next \<noteq> NO_ENTRY \<longrightarrow> sq_links x (unat (sq_tail q)) = next)"
| "q_local x (QHeadRead q v) = (sq_head q \<noteq> sq_tail q \<and> line_copy x q v True)"
| "q_local x (QGet q v next) = (sq_head q \<noteq> sq_tail q \<and> line_copy x q v (sq_links x (unat (sq_head q)) = next))"
| "q_local x (QPopStore q v next d) =
     (sq_head q \<noteq> sq_tail q \<and> line_copy x q v (sq_links x (unat (sq_head q)) = next \<and> sq_elements x (unat next) = d))"
| "q_local x s = True"

definition sq_n :: "'d queue_sys \<Rightarrow> nat" where
  "sq_n x = unat (sq_entries (sq_line x))"

definition sq_history :: "'d queue_sys \<Rightarrow> u32 list \<Rightarrow> bool" where
  "sq_history x es \<longleftrightarrow> sq_popped x @ map (\<lambda>e. sq_elements x (unat e)) (tl es) = sq_pushed x"

definition sq_view :: "nat \<Rightarrow> 'd queue_sys \<Rightarrow> u32 list \<Rightarrow> bool" where
  "sq_view N x es \<longleftrightarrow>
     list_chain (sq_n x) (sq_links x) (sq_head (sq_line x)) (sq_tail (sq_line x)) es \<and> sq_history x es \<and>
     entries_owned N (sq_n x) (sq_threads x) (sq_bitmap x) es \<and>
     line_counts (sq_line x) (q_num N (sq_threads x)) (length es - 1) (clear_entries (sq_n x) (sq_bitmap x)) \<and>
     (\<forall>t < N. q_local x (sq_threads x t))"

definition sq_inv :: "nat \<Rightarrow> 'd queue_sys \<Rightarrow> bool" where
  "sq_inv N x \<longleftrightarrow> (\<exists>es. sq_view N x es)"

lemma sq_viewD:
  assumes "sq_view N x es"
  shows "list_chain (sq_n x) (sq_links x) (sq_head (sq_line x)) (sq_tail (sq_line x)) es" "sq_history x es"
    "entries_owned N (sq_n x) (sq_threads x) (sq_bitmap x) es"
    "line_counts (sq_line x) (q_num N (sq_threads x)) (length es - 1) (clear_entries (sq_n x) (sq_bitmap x))"
    "t < N \<Longrightarrow> q_local x (sq_threads x t)"
  using assms by (simp_all add: sq_view_def)

section \<open>What the moves of others leave known\<close>

lemmas local_defs = entry_ready_def repair_ready_def line_copy_def link_copy_def

lemma local_others [simp]:
  "q_local (x\<lparr>sq_threads := thr\<rparr>) s = q_local x s" "q_local (x\<lparr>sq_bitmap := bm\<rparr>) s = q_local x s"
  "q_local (x\<lparr>sq_receivers := r\<rparr>) s = q_local x s" "q_local (x\<lparr>sq_pushed := h\<rparr>) s = q_local x s"
  "q_local (x\<lparr>sq_popped := h\<rparr>) s = q_local x s"
  by (cases s; simp add: local_defs split: repairer.splits)+

lemma local_line:
  assumes "q_local x s" "sq_tail q' = sq_tail (sq_line x) \<or> sq_links x (unat (sq_tail (sq_line x))) \<noteq> NO_ENTRY"
  shows "q_local (put_line q' x) s"
  using assms by (cases s) (auto simp: local_defs put_line_def split: repairer.splits)

lemma local_link:
  assumes "q_local x s" "q_owns s \<noteq> Some e" "e \<noteq> sq_tail (sq_line x) \<or> sq_links x (unat e) = NO_ENTRY"
    "e \<noteq> sq_head (sq_line x) \<or> e = sq_tail (sq_line x)"
  shows "q_local (put_link e z x) s"
  using assms
  by (cases s) (auto simp: local_defs put_link_def repair_owns_def word_unat_eq_iff[symmetric] split: repairer.splits)

lemma local_element:
  assumes "q_local x s" "q_owns s \<noteq> Some e" "e \<noteq> sq_links x (unat (sq_head (sq_line x))) \<or> sq_head (sq_line x) = sq_tail (sq_line x)"
  shows "q_local (x\<lparr>sq_elements := (sq_elements x)(unat e := d)\<rparr>) s"
  using assms
  by (cases s) (auto simp: local_defs repair_owns_def word_unat_eq_iff[symmetric] split: repairer.splits)

section \<open>Ownership under the moves\<close>

lemma owned_keep:
  assumes "entries_owned N n thr bm es" "t < N" "q_owns s = q_owns (thr t)"
  shows "entries_owned N n (thr(t := s)) bm es"
proof -
  have "q_owns ((thr(t := s)) u) = q_owns (thr u)" for u using assms(3) by simp
  then show ?thesis using assms(1) unfolding entries_owned_def by presburger
qed

lemma owned_claim:
  assumes "entries_owned N n thr bm es" "t < N" "q_owns (thr t) = None" "q_owns s = Some e" "unat e < n" "\<not> in_use bm (unat e)"
  shows "entries_owned N n (thr(t := s)) (bm(bitmap_word e := bm (bitmap_word e) OR bitmap_bit e)) es"
proof -
  have "e \<notin> set es" "\<And>u. u < N \<Longrightarrow> q_owns (thr u) \<noteq> Some e" using assms(1,6) by (auto simp: entries_owned_def)
  then show ?thesis using assms unfolding entries_owned_def bitmap_set by auto
qed

lemma owned_link:
  assumes "entries_owned N n thr bm es" "t < N" "q_owns (thr t) = Some e" "q_owns s = None"
  shows "entries_owned N n (thr(t := s)) bm (es @ [e])"
  using assms unfolding entries_owned_def by auto

lemma owned_pop:
  assumes "entries_owned N n thr bm (h # es)" "t < N" "q_owns (thr t) = None" "q_owns s = Some h" "unat h < n" "h \<notin> set es"
  shows "entries_owned N n (thr(t := s)) bm es"
  using assms unfolding entries_owned_def by auto

lemma owned_clear:
  assumes "entries_owned N n thr bm es" "t < N" "q_owns (thr t) = Some e" "q_owns s = None"
  shows "entries_owned N n (thr(t := s)) (bm(bitmap_word e := bm (bitmap_word e) AND NOT (bitmap_bit e))) es"
proof -
  note O = assms(1)[unfolded entries_owned_def]
  have e: "e \<notin> set es" using O assms(2,3) by blast
  have other: "q_owns (thr u) = Some e' \<and> e' \<noteq> e" if "u < N" "q_owns ((thr(t := s)) u) = Some e'" for u e'
  proof -
    have "u \<noteq> t" using that(2) assms(4) by auto
    then show ?thesis using that O assms(2,3) by auto
  qed
  show ?thesis unfolding entries_owned_def bitmap_clear word_unat_eq_iff[symmetric]
  proof (intro conjI ballI allI impI)
    show "in_use bm (unat e')" "e' \<noteq> e" if "e' \<in> set es" for e' using that e O by auto
    show "unat e' < n" "in_use bm (unat e')" "e' \<noteq> e" "e' \<notin> set es" if "u < N" "q_owns ((thr(t := s)) u) = Some e'" for u e'
      using other[OF that] that(1) O by blast+
    show "u = v" if "u < N" "v < N" "q_owns ((thr(t := s)) u) = Some e'" "q_owns ((thr(t := s)) v) = Some e'" for u v e'
      using other[OF that(1,3)] other[OF that(2,4)] that(1,2) O by blast
  qed
qed

section \<open>The moves\<close>

lemma sq_n_less: "sq_n x < 2 ^ 32"
  using unsigned_less[of "sq_entries (sq_line x)"] by (simp add: sq_n_def)

text \<open>A move that changes only what a thread knows.\<close>

lemma inv_quiet:
  assumes "sq_inv N x" "t < N" "q_class s = q_class (sq_threads x t)" "q_owns s = q_owns (sq_threads x t)" "q_local x s"
  shows "sq_inv N (sq_set t s x)"
proof -
  obtain es where view: "sq_view N x es" using assms(1) by (auto simp: sq_inv_def)
  note I = sq_viewD[OF view]
  show ?thesis unfolding sq_inv_def sq_view_def
    using I(1,2,4,5) owned_keep[OF I(3) assms(2,4)] q_num_same[where thr = "sq_threads x", OF assms(2,3)] assms(5)
    by (intro exI[of _ es]) (simp add: sq_set_def sq_n_def sq_history_def)
qed

lemma inv_receivers [simp]: "sq_inv N (x\<lparr>sq_receivers := r\<rparr>) = sq_inv N x"
  by (simp add: sq_inv_def sq_view_def sq_n_def sq_history_def)

text \<open>A store to the line that keeps the head, and keeps the tail or moves it on.\<close>

lemma inv_line:
  assumes "sq_inv N x" "t < N" "sq_head q' = sq_head (sq_line x)" "sq_entries q' = sq_entries (sq_line x)"
    "sq_tail q' = sq_tail (sq_line x) \<or> sq_tail q' = sq_links x (unat (sq_tail (sq_line x))) \<and> sq_tail q' \<noteq> NO_ENTRY"
    "q_owns s = q_owns (sq_threads x t)" "q_local x s \<or> q_local (put_line q' x) s"
    "\<And>linked clear. line_counts (sq_line x) (q_num N (sq_threads x)) linked clear \<Longrightarrow> linked < 2 ^ 32 \<Longrightarrow> clear < 2 ^ 32 \<Longrightarrow>
       line_counts q' (q_num N ((sq_threads x)(t := s))) linked clear"
  shows "sq_inv N (sq_set t s (put_line q' x))"
proof -
  obtain es where view: "sq_view N x es" using assms(1) by (auto simp: sq_inv_def)
  note I = sq_viewD[OF view]
  have n: "sq_n (put_line q' x) = sq_n x" using assms(4) by (simp add: sq_n_def put_line_def)
  have chain: "list_chain (sq_n x) (sq_links x) (sq_head q') (sq_tail q') es"
    using I(1) chain_advance[OF I(1)] assms(3,5) by auto
  have other: "sq_tail q' = sq_tail (sq_line x) \<or> sq_links x (unat (sq_tail (sq_line x))) \<noteq> NO_ENTRY" using assms(5) by auto
  have loc: "q_local (put_line q' x) (((sq_threads x)(t := s)) u)" if "u < N" for u
    using local_line[OF _ other] I(5) that assms(7) by (cases "u = t") auto
  have "length es - 1 < 2 ^ 32" using chain_length[OF I(1)] sq_n_less[of x] by linarith
  moreover have "clear_entries (sq_n x) (sq_bitmap x) < 2 ^ 32" using clear_entries_le[of "sq_n x" "sq_bitmap x"] sq_n_less[of x] by linarith
  ultimately have cnt: "line_counts q' (q_num N ((sq_threads x)(t := s))) (length es - 1) (clear_entries (sq_n x) (sq_bitmap x))"
    by (rule assms(8)[OF I(4)])
  show ?thesis unfolding sq_inv_def sq_view_def
    using chain I(2) owned_keep[OF I(3) assms(2,6)] cnt loc n
    by (intro exI[of _ es]) (simp add: sq_set_def sq_n_def sq_history_def put_line_def)
qed

lemma inv_claim:
  assumes "sq_inv N x" "t < N" "sq_threads x t = QSearch d start i" "unat e < sq_n x" "\<not> in_use (sq_bitmap x) (unat e)"
  shows "sq_inv N (sq_set t (QPutElement d e) (x\<lparr>sq_bitmap := (sq_bitmap x)(bitmap_word e := sq_bitmap x (bitmap_word e) OR bitmap_bit e)\<rparr>))"
proof -
  let ?thr = "(sq_threads x)(t := QPutElement d e)"
  let ?bm = "(sq_bitmap x)(bitmap_word e := sq_bitmap x (bitmap_word e) OR bitmap_bit e)"
  obtain es where view: "sq_view N x es" using assms(1) by (auto simp: sq_inv_def)
  note I = sq_viewD[OF view]
  have m: "q_num N ?thr = (q_num N (sq_threads x))(CSearch := q_num N (sq_threads x) CSearch - 1, CNone := q_num N (sq_threads x) CNone + 1)"
      "0 < q_num N (sq_threads x) CSearch"
    using q_num_move[of t N "sq_threads x" CSearch "QPutElement d e" CNone] assms(2,3) by simp_all
  have cnt: "line_counts (sq_line x) (q_num N ?thr) (length es - 1) (clear_entries (sq_n x) ?bm)"
    using I(4) m clear_entries_set[OF assms(4,5)] by (simp add: line_counts_def)
  have own: "entries_owned N (sq_n x) ?thr ?bm es" using owned_claim[OF I(3) assms(2) _ _ assms(4,5)] assms(3) by simp
  show ?thesis unfolding sq_inv_def sq_view_def
    using I(1,2,5) own cnt by (intro exI[of _ es]) (simp add: sq_set_def sq_n_def sq_history_def)
qed

lemma inv_put_element:
  assumes "sq_inv N x" "t < N" "sq_threads x t = QPutElement d e"
  shows "sq_inv N (sq_set t (QPutLink d e) (x\<lparr>sq_elements := (sq_elements x)(unat e := d)\<rparr>))"
proof -
  let ?s = "QPutLink d e" and ?y = "x\<lparr>sq_elements := (sq_elements x)(unat e := d)\<rparr>"
  obtain es where view: "sq_view N x es" using assms(1) by (auto simp: sq_inv_def)
  note I = sq_viewD[OF view]
  have e: "e \<notin> set es" "\<And>u. u < N \<Longrightarrow> u \<noteq> t \<Longrightarrow> q_owns (sq_threads x u) \<noteq> Some e"
    using I(3) assms(2,3) unfolding entries_owned_def by fastforce+
  have nx: "e \<noteq> sq_links x (unat (sq_head (sq_line x))) \<or> sq_head (sq_line x) = sq_tail (sq_line x)"
    using chain_pop[OF I(1)] e(1) by force
  have loc: "q_local ?y (((sq_threads x)(t := ?s)) u)" if "u < N" for u
    using local_element[OF I(5)[OF that] _ nx] e(2)[OF that] by (cases "u = t") auto
  have "map (\<lambda>e'. sq_elements ?y (unat e')) (tl es) = map (\<lambda>e'. sq_elements x (unat e')) (tl es)"
    using e(1) by (cases es) (auto simp: word_unat_eq_iff[symmetric])
  then have hist: "sq_history ?y es" using I(2) by (auto simp: sq_history_def cong: map_cong simp del: map_eq_conv)
  show ?thesis unfolding sq_inv_def sq_view_def
    using I(1,4) hist owned_keep[OF I(3) assms(2), of ?s] q_num_same[where thr = "sq_threads x" and s = ?s, OF assms(2)] loc assms(3)
    by (intro exI[of _ es]) (simp add: sq_set_def sq_n_def sq_history_def)
qed

lemma inv_put_link:
  assumes "sq_inv N x" "t < N" "sq_threads x t = QPutLink d e"
  shows "sq_inv N (sq_set t (QTail d e) (put_link e NO_ENTRY x))"
proof -
  let ?s = "QTail d e" and ?y = "put_link e NO_ENTRY x"
  obtain es where view: "sq_view N x es" using assms(1) by (auto simp: sq_inv_def)
  note I = sq_viewD[OF view]
  have e: "e \<notin> set es" "\<And>u. u < N \<Longrightarrow> u \<noteq> t \<Longrightarrow> q_owns (sq_threads x u) \<noteq> Some e"
    using I(3) assms(2,3) unfolding entries_owned_def by fastforce+
  then have ht: "e \<noteq> sq_head (sq_line x)" "e \<noteq> sq_tail (sq_line x)" using chain_in[OF I(1)] by auto
  have "sq_elements x (unat e) = d" using I(5)[OF assms(2)] assms(3) by simp
  then have own: "q_local ?y ?s" by (simp add: entry_ready_def put_link_def)
  have loc: "q_local ?y (((sq_threads x)(t := ?s)) u)" if "u < N" for u
    using local_link[OF I(5)[OF that], of e NO_ENTRY] e(2)[OF that] ht own by (cases "u = t") auto
  have chain: "list_chain (sq_n x) (sq_links ?y) (sq_head (sq_line x)) (sq_tail (sq_line x)) es"
    by (rule chain_frame[OF I(1)]) (use e(1) in \<open>auto simp: put_link_def word_unat_eq_iff[symmetric]\<close>)
  show ?thesis unfolding sq_inv_def sq_view_def
    using chain I(2,4) owned_keep[OF I(3) assms(2), of ?s] q_num_same[where thr = "sq_threads x" and s = ?s, OF assms(2)] loc assms(3)
    by (intro exI[of _ es]) (simp add: sq_set_def sq_n_def sq_history_def put_link_def)
qed

lemma inv_link:
  assumes "sq_inv N x" "t < N" "sq_threads x t = QLink d e tail next v" "link_stores x (unat tail) = v"
  shows "sq_inv N (sq_set t QCount (put_link tail e (x\<lparr>sq_pushed := sq_pushed x @ [d]\<rparr>)))"
proof -
  let ?y = "put_link tail e (x\<lparr>sq_pushed := sq_pushed x @ [d]\<rparr>)" and ?thr = "(sq_threads x)(t := QCount)"
  obtain es where view: "sq_view N x es" using assms(1) by (auto simp: sq_inv_def)
  note I = sq_viewD[OF view]
  have k: "sq_elements x (unat e) = d" "sq_links x (unat e) = NO_ENTRY" "sq_links x (unat tail) = NO_ENTRY" "sq_tail (sq_line x) = tail"
    using I(5)[OF assms(2)] assms(3,4) by (simp_all add: local_defs)
  have e: "e \<notin> set es" "unat e < sq_n x" using I(3) assms(2,3) unfolding entries_owned_def by fastforce+
  have tl_in: "tail \<in> set es" using chain_in[OF I(1)] k(4) by simp
  have other: "q_owns (sq_threads x u) \<noteq> Some tail" if "u < N" for u
    using I(3) that tl_in unfolding entries_owned_def by blast
  have loc: "q_local ?y (?thr u)" if "u < N" for u
    using local_link[of "x\<lparr>sq_pushed := sq_pushed x @ [d]\<rparr>" "sq_threads x u" tail e] I(5)[OF that] other[OF that] k(3,4)
    by (cases "u = t") auto
  have chain: "list_chain (sq_n x) ((sq_links x)(unat tail := e)) (sq_head (sq_line x)) tail (es @ [e])"
    using chain_append[of "sq_n x" "sq_links x" "sq_head (sq_line x)" tail es e] I(1) sq_n_less[of x] k e by simp
  have ne: "es \<noteq> []" using I(1) by (simp add: list_chain_def)
  have hist: "sq_history (x\<lparr>sq_pushed := sq_pushed x @ [d]\<rparr>) (es @ [e])"
    using I(2) ne k(1) by (simp add: sq_history_def flip: append_assoc)
  have m: "q_num N ?thr = (q_num N (sq_threads x))(CNone := q_num N (sq_threads x) CNone - 1, CCount := q_num N (sq_threads x) CCount + 1)"
    using q_num_move(1)[of t N "sq_threads x" CNone QCount CCount] assms(2,3) by simp
  have "1 \<le> length es" using ne by (simp add: Suc_le_eq)
  then have cnt: "line_counts (sq_line x) (q_num N ?thr) (length (es @ [e]) - 1) (clear_entries (sq_n x) (sq_bitmap x))"
    using I(4) m by (auto simp: line_counts_def)
  have own: "entries_owned N (sq_n x) ?thr (sq_bitmap x) (es @ [e])" using owned_link[OF I(3) assms(2)] assms(3) by simp
  show ?thesis unfolding sq_inv_def sq_view_def
    using chain hist own cnt loc k(4) by (intro exI[of _ "es @ [e]"]) (simp add: sq_set_def sq_n_def sq_history_def put_link_def)
qed

lemma inv_pop:
  assumes "sq_inv N x" "t < N" "sq_threads x t = QPopStore q' v next d" "line_stores x = v"
  shows "sq_inv N (sq_set t (QFree (sq_head q')) (put_line (q'\<lparr>sq_head := next\<rparr>) (x\<lparr>sq_popped := sq_popped x @ [d]\<rparr>)))"
proof -
  let ?y = "put_line (q'\<lparr>sq_head := next\<rparr>) (x\<lparr>sq_popped := sq_popped x @ [d]\<rparr>)" and ?thr = "(sq_threads x)(t := QFree (sq_head q'))"
  obtain es where view: "sq_view N x es" using assms(1) by (auto simp: sq_inv_def)
  note I = sq_viewD[OF view]
  have "sq_head q' \<noteq> sq_tail q' \<and> q' = sq_line x \<and> sq_links x (unat (sq_head q')) = next \<and> sq_elements x (unat next) = d"
    using I(5)[OF assms(2)] assms(3,4) by (auto simp: local_defs)
  then have k: "sq_head q' \<noteq> sq_tail q'" "q' = sq_line x" "sq_links x (unat (sq_head q')) = next" "sq_elements x (unat next) = d"
    by - (elim conjE, assumption)+
  have ne: "sq_head (sq_line x) \<noteq> sq_tail (sq_line x)" using k(1,2) by simp
  obtain rest where es: "es = sq_head (sq_line x) # next # rest" "list_chain (sq_n x) (sq_links x) next (sq_tail (sq_line x)) (next # rest)"
    using chain_pop[OF I(1) ne] k(2,3) by auto
  have loc: "q_local ?y (?thr u)" if "u < N" for u
    using local_line[of "x\<lparr>sq_popped := sq_popped x @ [d]\<rparr>" "sq_threads x u" "q'\<lparr>sq_head := next\<rparr>"] I(5)[OF that] k(2)
    by (cases "u = t") auto
  have hist: "sq_history (x\<lparr>sq_popped := sq_popped x @ [d]\<rparr>) (next # rest)" using I(2) k(4) es(1) by (simp add: sq_history_def)
  have m: "q_num N ?thr = (q_num N (sq_threads x))(CUnit := q_num N (sq_threads x) CUnit - 1, CNone := q_num N (sq_threads x) CNone + 1)"
      "0 < q_num N (sq_threads x) CUnit"
    using q_num_move[of t N "sq_threads x" CUnit "QFree (sq_head q')" CNone] assms(2,3) by simp_all
  have cnt: "line_counts (q'\<lparr>sq_head := next\<rparr>) (q_num N ?thr) (length (next # rest) - 1) (clear_entries (sq_n x) (sq_bitmap x))"
    using I(4) m k(2) es(1) by (auto simp: line_counts_def)
  have h: "unat (sq_head (sq_line x)) < sq_n x" "sq_head (sq_line x) \<notin> set (next # rest)"
    using I(1) unfolding list_chain_def es(1) by simp_all
  have own: "entries_owned N (sq_n x) ?thr (sq_bitmap x) (next # rest)"
    using owned_pop[OF I(3)[unfolded es(1)] assms(2) _ _ h] assms(3) k(2) by simp
  show ?thesis unfolding sq_inv_def sq_view_def
    using es(2) hist own cnt loc k(2) by (intro exI[of _ "next # rest"]) (simp add: sq_set_def sq_n_def sq_history_def put_line_def)
qed

lemma inv_clear:
  assumes "sq_inv N x" "t < N" "sq_threads x t = QFreeBit e"
  shows "in_use (sq_bitmap x) (unat e) \<and>
    sq_inv N (sq_set t QFreeCount (x\<lparr>sq_bitmap := (sq_bitmap x)(bitmap_word e := sq_bitmap x (bitmap_word e) AND NOT (bitmap_bit e))\<rparr>))"
proof -
  let ?thr = "(sq_threads x)(t := QFreeCount)"
  let ?bm = "(sq_bitmap x)(bitmap_word e := sq_bitmap x (bitmap_word e) AND NOT (bitmap_bit e))"
  obtain es where view: "sq_view N x es" using assms(1) by (auto simp: sq_inv_def)
  note I = sq_viewD[OF view]
  have e: "unat e < sq_n x" "in_use (sq_bitmap x) (unat e)" using I(3) assms(2,3) unfolding entries_owned_def by fastforce+
  have m: "q_num N ?thr = (q_num N (sq_threads x))(CNone := q_num N (sq_threads x) CNone - 1, CFreeCount := q_num N (sq_threads x) CFreeCount + 1)"
    using q_num_move(1)[of t N "sq_threads x" CNone QFreeCount CFreeCount] assms(2,3) by simp
  have cnt: "line_counts (sq_line x) (q_num N ?thr) (length es - 1) (clear_entries (sq_n x) ?bm)"
    using I(4) m clear_entries_clear[OF e] by (simp add: line_counts_def)
  have own: "entries_owned N (sq_n x) ?thr ?bm es" using owned_clear[OF I(3) assms(2)] assms(3) by simp
  show ?thesis unfolding sq_inv_def sq_view_def
    using e I(1,2,5) own cnt by (intro conjI exI[of _ es]) (simp_all add: sq_set_def sq_n_def sq_history_def)
qed

section \<open>Every move keeps the invariant\<close>

lemma inv_dropped [simp]: "sq_inv N (sq_set t s (put_line q (drop_receiver b t x))) = sq_inv N (sq_set t s (put_line q x))"
proof -
  have "sq_set t s (put_line q (x\<lparr>sq_receivers := r\<rparr>)) = (sq_set t s (put_line q x))\<lparr>sq_receivers := r\<rparr>" for r
    by (simp add: sq_set_def put_line_def)
  then show ?thesis by (simp add: drop_receiver_def)
qed

lemma inv_allocated [simp]: "sq_inv N (sq_set t s (x\<lparr>sq_receivers := r\<rparr>)) = sq_inv N (sq_set t s x)"
proof -
  have "sq_set t s (x\<lparr>sq_receivers := r\<rparr>) = (sq_set t s x)\<lparr>sq_receivers := r\<rparr>" by (simp add: sq_set_def)
  then show ?thesis by simp
qed

text \<open>A store that moves the thread from one class to another.\<close>

lemma inv_count:
  assumes "sq_inv N x" "t < N" "q_class (sq_threads x t) = a" "q_class s = b" "a \<noteq> b"
    "sq_head q' = sq_head (sq_line x)" "sq_entries q' = sq_entries (sq_line x)"
    "sq_tail q' = sq_tail (sq_line x) \<or> sq_tail q' = sq_links x (unat (sq_tail (sq_line x))) \<and> sq_tail q' \<noteq> NO_ENTRY"
    "q_owns s = q_owns (sq_threads x t)" "q_local x s \<or> q_local (put_line q' x) s"
    "\<And>m linked clear. line_counts (sq_line x) m linked clear \<Longrightarrow> linked < 2 ^ 32 \<Longrightarrow> clear < 2 ^ 32 \<Longrightarrow> 0 < m a \<Longrightarrow>
       line_counts q' (m(a := m a - 1, b := m b + 1)) linked clear"
  shows "sq_inv N (sq_set t s (put_line q' x))"
proof (rule inv_line[OF assms(1,2,6-10)])
  note m = q_num_move[where thr = "sq_threads x", OF assms(2-5)]
  fix linked clear
  assume "line_counts (sq_line x) (q_num N (sq_threads x)) linked clear" "linked < 2 ^ 32" "clear < 2 ^ 32"
  then show "line_counts q' (q_num N ((sq_threads x)(t := s))) linked clear" unfolding m(1) using m(2) by (rule assms(11))
qed

lemma class_has: "t < N \<Longrightarrow> q_class (sq_threads x t) = c \<Longrightarrow> 0 < q_num N (sq_threads x) c"
  unfolding q_num_def by (rule number_pos)

lemma inv_allocate:
  assumes "sq_inv N x" "t < N" "sq_threads x t = QAllocate d wait rcv" "queue_allocating t choice x = Some y"
  shows "sq_inv N y"
proof -
  let ?q = "sq_line x"
  consider "free_entries ?q > ucast (push_queued ?q)" | "\<not> free_entries ?q > ucast (push_queued ?q)" "wait" "push_queued ?q \<noteq> max_push_waiters ?q" "rcv"
    | "\<not> free_entries ?q > ucast (push_queued ?q)" "\<not> (wait \<and> push_queued ?q \<noteq> max_push_waiters ?q \<and> rcv)" by blast
  then show ?thesis
  proof cases
    case 1
    let ?q' = "?q\<lparr>free_entries := free_entries ?q - 1, sq_search := search_next ?q\<rparr>"
    have "sq_inv N (sq_set t (QSearch d (sq_search ?q) 0) (put_line ?q' x))"
      by (rule inv_count[OF assms(1,2), where a = CNone and b = CSearch])
         (use assms(3) 1 count_allocate in \<open>simp_all del: fun_upd_apply\<close>)
    then show ?thesis using assms(1,3,4) 1 by (auto simp: queue_allocating_def Let_def allocate_entry_pass_def split: if_splits)
  next
    case 2
    let ?q' = "?q\<lparr>push_queued := push_queued ?q + 1\<rparr>"
    have "sq_inv N (sq_set t (QPushQueued d) (put_line ?q' x))"
      by (rule inv_count[OF assms(1,2), where a = CNone and b = CPushQueued])
         (use assms(3) 2 count_push_queue in \<open>simp_all del: fun_upd_apply\<close>)
    then show ?thesis using assms(1,3,4) 2 by (auto simp: queue_allocating_def Let_def allocate_entry_pass_def split: if_splits)
  next
    case 3
    have quiet: "sq_inv N (sq_set t QIdle x)" "sq_inv N (sq_set t (QAllocate d wait True) x)"
      by (rule inv_quiet[OF assms(1,2)]; use assms(3) in simp)+
    show ?thesis using assms(3,4) 3 quiet by (auto simp: queue_allocating_def Let_def allocate_entry_pass_def split: if_splits)
  qed
qed

lemma inv_take_element:
  assumes "sq_inv N x" "t < N" "sq_threads x t = QTake wait rcv" "queue_popping t choice x = Some y"
  shows "sq_inv N y"
proof -
  let ?q = "sq_line x"
  consider "sq_size ?q > ucast (pop_queued ?q)" | "\<not> sq_size ?q > ucast (pop_queued ?q)" "wait" "pop_queued ?q \<noteq> max_pop_waiters ?q" "rcv"
    | "\<not> sq_size ?q > ucast (pop_queued ?q)" "\<not> (wait \<and> pop_queued ?q \<noteq> max_pop_waiters ?q \<and> rcv)" by blast
  then show ?thesis
  proof cases
    case 1
    let ?q' = "?q\<lparr>sq_size := sq_size ?q - 1\<rparr>"
    have "sq_inv N (sq_set t QHead (put_line ?q' x))"
      by (rule inv_count[OF assms(1,2), where a = CNone and b = CUnit])
         (use assms(3) 1 count_take in \<open>simp_all del: fun_upd_apply\<close>)
    then show ?thesis using assms(1,3,4) 1 by (auto simp: queue_popping_def Let_def take_element_pass_def split: if_splits)
  next
    case 2
    let ?q' = "?q\<lparr>pop_queued := pop_queued ?q + 1\<rparr>"
    have "sq_inv N (sq_set t QPopQueued (put_line ?q' x))"
      by (rule inv_count[OF assms(1,2), where a = CNone and b = CPopQueued])
         (use assms(3) 2 count_pop_queue in \<open>simp_all del: fun_upd_apply\<close>)
    then show ?thesis using assms(1,3,4) 2 by (auto simp: queue_popping_def Let_def take_element_pass_def split: if_splits)
  next
    case 3
    have quiet: "sq_inv N (sq_set t QIdle x)" "sq_inv N (sq_set t (QTake wait True) x)"
      by (rule inv_quiet[OF assms(1,2)]; use assms(3) in simp)+
    show ?thesis using assms(3,4) 3 quiet by (auto simp: queue_popping_def Let_def take_element_pass_def split: if_splits)
  qed
qed

lemma inv_push_woken:
  assumes "sq_inv N x" "t < N" "sq_threads x t = QPushWoken d" "queue_allocating t choice x = Some y"
  shows "sq_inv N y"
proof -
  obtain es where view: "sq_view N x es" using assms(1) by (auto simp: sq_inv_def)
  have has: "0 < q_num N (sq_threads x) CPushWoken" by (rule class_has[OF assms(2)]) (simp add: assms(3))
  obtain q' where q': "push_leave (sq_line x) = Some (q', sq_search (sq_line x))" "sq_head q' = sq_head (sq_line x)"
      "sq_tail q' = sq_tail (sq_line x)" "sq_entries q' = sq_entries (sq_line x)"
    using count_push_leave[OF sq_viewD(4)[OF view] has] by blast
  have "sq_inv N (sq_set t (QSearch d (sq_search (sq_line x)) 0) (put_line q' x))"
  proof (rule inv_count[OF assms(1,2), where a = CPushWoken and b = CSearch])
    show "line_counts q' (m(CPushWoken := m CPushWoken - 1, CSearch := m CSearch + 1)) linked clear"
      if "line_counts (sq_line x) m linked clear" "0 < m CPushWoken" for m linked clear
      using count_push_leave[OF that] q'(1) by auto
  qed (use assms(3) q' in simp_all)
  then show ?thesis using assms(1,3,4) q'(1) by (auto simp: queue_allocating_def split: if_splits)
qed

lemma inv_pop_woken:
  assumes "sq_inv N x" "t < N" "sq_threads x t = QPopWoken" "queue_popping t choice x = Some y"
  shows "sq_inv N y"
proof -
  obtain es where view: "sq_view N x es" using assms(1) by (auto simp: sq_inv_def)
  have has: "0 < q_num N (sq_threads x) CPopWoken" by (rule class_has[OF assms(2)]) (simp add: assms(3))
  obtain q' where q': "pop_leave (sq_line x) = Some q'" "sq_head q' = sq_head (sq_line x)"
      "sq_tail q' = sq_tail (sq_line x)" "sq_entries q' = sq_entries (sq_line x)"
    using count_pop_leave[OF sq_viewD(4)[OF view] has] by blast
  have "sq_inv N (sq_set t QHead (put_line q' x))"
  proof (rule inv_count[OF assms(1,2), where a = CPopWoken and b = CUnit])
    show "line_counts q' (m(CPopWoken := m CPopWoken - 1, CUnit := m CUnit + 1)) linked clear"
      if "line_counts (sq_line x) m linked clear" "0 < m CPopWoken" for m linked clear
      using count_pop_leave[OF that] q'(1) by auto
  qed (use assms(3) q' in simp_all)
  then show ?thesis using assms(1,3,4) q'(1) by (auto simp: queue_popping_def split: if_splits)
qed

lemma inv_search:
  assumes "sq_inv N x" "t < N" "sq_threads x t = QSearch d start i" "queue_allocating t choice x = Some y"
  shows "sq_inv N y"
proof -
  obtain es where view: "sq_view N x es" using assms(1) by (auto simp: sq_inv_def)
  let ?e = "(start + i) mod sq_entries (sq_line x)"
  have "0 < sq_n x" using chain_length[OF sq_viewD(1)[OF view]] by linarith
  then have e: "unat ?e < sq_n x" unfolding unat_mod by (simp add: sq_n_def)
  have quiet: "sq_inv N (sq_set t (QSearch d start (i + 1)) x)" by (rule inv_quiet[OF assms(1,2)]; use assms(3) in simp)
  show ?thesis
  proof (cases "in_use (sq_bitmap x) (unat ?e)")
    case True
    then show ?thesis using assms(3,4) quiet bitmap_tests[of "sq_bitmap x" ?e] by (simp add: queue_allocating_def Let_def)
  next
    case False
    show ?thesis using assms(1,3,4) inv_claim[OF assms(1-3) e False] bitmap_tests[of "sq_bitmap x" ?e] False
      by (auto simp: queue_allocating_def Let_def split: if_splits)
  qed
qed

text \<open>The other moves of a push.\<close>

lemma inv_count_store:
  assumes "sq_inv N x" "t < N" "sq_threads x t = QCountStore q' v next" "line_stores x = v"
  shows "sq_inv N (sq_set t (if snd (push_count next q') then QPushWaking else QIdle) (put_line (fst (push_count next q')) x))"
proof -
  obtain es where view: "sq_view N x es" using assms(1) by (auto simp: sq_inv_def)
  note loc = sq_viewD(5)[OF view assms(2)]
  have k: "q' = sq_line x" using loc assms(3,4) by (simp add: line_copy_def)
  have kn: "next \<noteq> NO_ENTRY \<longrightarrow> sq_links x (unat (sq_tail (sq_line x))) = next"
    using loc assms(3,4) k by (simp add: line_copy_def)
  have has: "0 < q_num N (sq_threads x) CCount" by (rule class_has[OF assms(2)]) (simp add: assms(3))
  let ?w = "snd (push_count next q')"
  show ?thesis
  proof (rule inv_count[OF assms(1,2), where a = CCount and b = "if ?w then CPushWaking else CNone"])
    show "line_counts (fst (push_count next q')) (m(CCount := m CCount - 1,
        (if ?w then CPushWaking else CNone) := m (if ?w then CPushWaking else CNone) + 1)) linked clear"
      if "line_counts (sq_line x) m linked clear" "linked < 2 ^ 32" "0 < m CCount" for m linked clear
      using count_push(1)[OF that, of "next"] k by simp
    show "sq_tail (fst (push_count next q')) = sq_tail (sq_line x) \<or>
        sq_tail (fst (push_count next q')) = sq_links x (unat (sq_tail (sq_line x))) \<and> sq_tail (fst (push_count next q')) \<noteq> NO_ENTRY"
      using k kn by (simp add: push_count_def Let_def)
  qed (use assms(3) k in \<open>simp_all add: push_count_def Let_def\<close>)
qed

lemma inv_pushing_rest:
  assumes "sq_inv N x" "t < N" "queue_pushing t choice x = Some y"
    "sq_threads x t \<in> {QTail d e, QReserve d e tail, QCheck d e tail next v, QCount, QCountRead q' v, QCountStore q' v next}"
  shows "sq_inv N y"
proof -
  obtain es where view: "sq_view N x es" using assms(1) by (auto simp: sq_inv_def)
  note loc = sq_viewD(5)[OF view assms(2)]
  have quiet: "sq_inv N (sq_set t s x)" if "q_class s = q_class (sq_threads x t)" "q_owns s = q_owns (sq_threads x t)" "q_local x s" for s
    by (rule inv_quiet[OF assms(1,2) that])
  from assms(4) consider "sq_threads x t = QTail d e" | "sq_threads x t = QReserve d e tail" | "sq_threads x t = QCheck d e tail next v"
    | "sq_threads x t = QCount" | "sq_threads x t = QCountRead q' v" | "sq_threads x t = QCountStore q' v next" by auto
  then show ?thesis
  proof cases
    case 3
    have "sq_inv N (sq_set t (QTail d e) x)" "sq_inv N (sq_set t (QRepair (ForPush d e)) x)"
      using 3 loc by (intro quiet; simp add: repair_class_def repair_owns_def repair_ready_def)+
    moreover have "sq_inv N (sq_set t (QLink d e tail next v) x)" if "sq_tail (sq_line x) = tail" "next = NO_ENTRY"
      using 3 loc that by (intro quiet) (simp_all add: link_copy_def)
    ultimately show ?thesis using assms(3) 3 by (auto simp: queue_pushing_def Let_def split: if_splits)
  next
    case 6
    have "sq_inv N (sq_set t QCount x)" using 6 by (intro quiet) simp_all
    then show ?thesis using assms(3) 6 inv_count_store[OF assms(1,2) 6] by (auto simp: queue_pushing_def Let_def split: if_splits)
  qed (use assms(3) loc in \<open>auto simp: queue_pushing_def Let_def local_defs intro!: quiet\<close>)
qed

lemma inv_pushing:
  assumes "sq_inv N x" "t < N" "queue_pushing t choice x = Some y"
  shows "sq_inv N y"
proof (cases "sq_threads x t")
  case (QLink d e tail nx v)
  obtain es where view: "sq_view N x es" using assms(1) by (auto simp: sq_inv_def)
  have "sq_inv N (sq_set t (QTail d e) x)"
    using sq_viewD(5)[OF view assms(2)] QLink by (intro inv_quiet[OF assms(1,2)]) simp_all
  then show ?thesis using assms(3) QLink inv_link[OF assms(1,2) QLink] by (auto simp: queue_pushing_def Let_def split: if_splits)
next
  case (QPutElement d e)
  then show ?thesis using assms(3) inv_put_element[OF assms(1,2) QPutElement] by (simp add: queue_pushing_def Let_def)
next
  case (QPutLink d e)
  then show ?thesis using assms(3) inv_put_link[OF assms(1,2) QPutLink] by (simp add: queue_pushing_def Let_def)
qed (use assms inv_pushing_rest[OF assms] in \<open>simp_all add: queue_pushing_def Let_def\<close>)

lemma inv_allocating:
  assumes "sq_inv N x" "t < N" "queue_allocating t choice x = Some y"
  shows "sq_inv N y"
proof (cases "sq_threads x t")
  case (QAllocate d wait rcv) then show ?thesis using inv_allocate[OF assms(1,2) _ assms(3)] by blast
next
  case (QPushWoken d) then show ?thesis using inv_push_woken[OF assms(1,2) _ assms(3)] by blast
next
  case (QSearch d start i) then show ?thesis using inv_search[OF assms(1,2) _ assms(3)] by blast
qed (use assms(3) in \<open>simp_all add: queue_allocating_def Let_def\<close>)

lemma inv_repairing:
  assumes "sq_inv N x" "t < N" "queue_repairing t choice x = Some y"
  shows "sq_inv N y"
proof -
  obtain es where view: "sq_view N x es" using assms(1) by (auto simp: sq_inv_def)
  note loc = sq_viewD(5)[OF view assms(2)]
  have quiet: "sq_inv N (sq_set t s x)" if "q_class s = q_class (sq_threads x t)" "q_owns s = q_owns (sq_threads x t)" "q_local x s" for s
    by (rule inv_quiet[OF assms(1,2) that])
  show ?thesis
  proof (cases "sq_threads x t")
    case (QRepair r)
    then show ?thesis using assms(3) loc by (auto simp: queue_repairing_def line_copy_def intro!: quiet)
  next
    case (QRepairRead r q v)
    have "sq_inv N (sq_set t (after_repair r) x)"
      using QRepairRead loc
      by (intro quiet) (auto simp: after_repair_def repair_class_def repair_owns_def repair_ready_def split: repairer.splits)
    moreover have "sq_inv N (sq_set t (QRepairStore r q v (sq_links x (unat (sq_tail q)))) x)" if "sq_links x (unat (sq_tail q)) \<noteq> NO_ENTRY"
      using QRepairRead loc that by (intro quiet) (simp_all add: line_copy_def)
    ultimately show ?thesis using assms(3) QRepairRead by (auto simp: queue_repairing_def Let_def split: if_splits)
  next
    case (QRepairStore r q v nx)
    have keep: "sq_inv N (sq_set t (QRepair r) x)" using QRepairStore loc by (intro quiet) simp_all
    have store: "sq_inv N (sq_set t (QRepair r) (put_line (q\<lparr>sq_tail := nx\<rparr>) x))" if "line_stores x = v"
    proof -
      have k: "q = sq_line x \<and> nx \<noteq> NO_ENTRY \<and> sq_links x (unat (sq_tail q)) = nx \<and> repair_ready x r"
        using loc QRepairStore that by (auto simp: line_copy_def)
      show ?thesis
      proof (rule inv_line[OF assms(1,2)])
        show "line_counts (q\<lparr>sq_tail := nx\<rparr>) (q_num N ((sq_threads x)(t := QRepair r))) linked clear"
          if "line_counts (sq_line x) (q_num N (sq_threads x)) linked clear" for linked clear
          using that k q_num_same[where thr = "sq_threads x" and s = "QRepair r", OF assms(2)] QRepairStore by (simp add: line_counts_def)
      qed (use k QRepairStore in auto)
    qed
    show ?thesis using assms(3) QRepairStore keep store by (auto simp: queue_repairing_def split: if_splits)
  qed (use assms(3) in \<open>simp_all add: queue_repairing_def\<close>)
qed

lemma inv_freeing:
  assumes "sq_inv N x" "t < N" "queue_freeing t choice x = Some y"
  shows "sq_inv N y"
proof -
  obtain es where view: "sq_view N x es" using assms(1) by (auto simp: sq_inv_def)
  note loc = sq_viewD(5)[OF view assms(2)]
  have quiet: "sq_inv N (sq_set t s x)" if "q_class s = q_class (sq_threads x t)" "q_owns s = q_owns (sq_threads x t)" "q_local x s" for s
    by (rule inv_quiet[OF assms(1,2) that])
  show ?thesis
  proof (cases "sq_threads x t")
    case (QFree e)
    have "unat e < sq_n x" using sq_viewD(3)[OF view] assms(2) QFree unfolding entries_owned_def by fastforce
    then have "e \<noteq> NO_ENTRY" "\<not> e \<ge> sq_entries (sq_line x)"
      using no_entry_unused[OF _ sq_n_less] by (auto simp: sq_n_def word_le_nat_alt)
    moreover have "sq_inv N (sq_set t (QFreeBit e) x)" using QFree by (intro quiet) simp_all
    ultimately show ?thesis using assms(3) QFree by (simp add: queue_freeing_def Let_def)
  next
    case (QFreeBit e)
    note C = inv_clear[OF assms(1,2) QFreeBit]
    have "sq_bitmap x (bitmap_word e) AND bitmap_bit e \<noteq> 0" using C by (simp only: bitmap_tests)
    then show ?thesis using assms(1,3) QFreeBit C by (auto simp: queue_freeing_def Let_def split: if_splits)
  next
    case QFreeCount
    let ?w = "snd (free_count (sq_line x))"
    have "sq_inv N (sq_set t (if ?w then QPopWaking else QIdle) (put_line (fst (free_count (sq_line x))) x))"
    proof (rule inv_count[OF assms(1,2), where a = CFreeCount and b = "if ?w then CPopWaking else CNone"])
      show "line_counts (fst (free_count (sq_line x))) (m(CFreeCount := m CFreeCount - 1,
          (if ?w then CPopWaking else CNone) := m (if ?w then CPopWaking else CNone) + 1)) linked clear"
        if "line_counts (sq_line x) m linked clear" "clear < 2 ^ 32" "0 < m CFreeCount" for m linked clear
        by (rule count_free(1)[OF that])
    qed (use QFreeCount in \<open>simp_all add: free_count_def Let_def\<close>)
    then show ?thesis using assms(1,3) QFreeCount by (auto simp: queue_freeing_def Let_def split: if_splits)
  qed (use assms(3) in \<open>simp_all add: queue_freeing_def Let_def\<close>)
qed

lemma inv_popping:
  assumes "sq_inv N x" "t < N" "queue_popping t choice x = Some y"
  shows "sq_inv N y"
proof -
  obtain es where view: "sq_view N x es" using assms(1) by (auto simp: sq_inv_def)
  note loc = sq_viewD(5)[OF view assms(2)]
  have quiet: "sq_inv N (sq_set t s x)" if "q_class s = q_class (sq_threads x t)" "q_owns s = q_owns (sq_threads x t)" "q_local x s" for s
    by (rule inv_quiet[OF assms(1,2) that])
  show ?thesis
  proof (cases "sq_threads x t")
    case QHead
    have "sq_inv N (sq_set t (QRepair ForPop) x)"
      using QHead by (intro quiet) (simp_all add: repair_class_def repair_owns_def repair_ready_def)
    moreover have "sq_inv N (sq_set t (QHeadRead (sq_line x) (line_stores x)) x)" if "sq_head (sq_line x) \<noteq> sq_tail (sq_line x)"
      using QHead that by (intro quiet) (simp_all add: line_copy_def)
    ultimately show ?thesis using assms(3) QHead by (auto simp: queue_popping_def Let_def split: if_splits)
  next
    case (QHeadRead q v)
    have "sq_inv N (sq_set t QHead x)" using QHeadRead by (intro quiet) simp_all
    moreover have "sq_inv N (sq_set t (QGet q v (sq_links x (unat (sq_head q)))) x)"
      using QHeadRead loc by (intro quiet) (simp_all add: line_copy_def)
    ultimately show ?thesis using assms(3) QHeadRead by (auto simp: queue_popping_def Let_def split: if_splits)
  next
    case (QGet q v nx)
    have "sq_inv N (sq_set t (QPopStore q v nx (sq_elements x (unat nx))) x)"
      using QGet loc by (intro quiet) (auto simp: line_copy_def)
    then show ?thesis using assms(3) QGet by (simp add: queue_popping_def Let_def)
  next
    case (QPopStore q v nx d)
    have "sq_inv N (sq_set t QHead x)" using QPopStore by (intro quiet) simp_all
    then show ?thesis using assms(3) QPopStore inv_pop[OF assms(1,2) QPopStore]
      by (auto simp: queue_popping_def Let_def split: if_splits)
  next
    case (QTake wait rcv) then show ?thesis by (rule inv_take_element[OF assms(1,2) _ assms(3)])
  next
    case QPopWoken then show ?thesis by (rule inv_pop_woken[OF assms(1,2) _ assms(3)])
  qed (use assms(3) in \<open>simp_all add: queue_popping_def Let_def\<close>)
qed

text \<open>A wake-up moves two threads.\<close>

lemma inv_wake_up:
  assumes "sq_inv N x" "t < N" "u < N" "t \<noteq> u" "q_class (sq_threads x t) = a" "q_class (sq_threads x u) = b"
    "q_class s = CNone" "q_class r = c" "a \<noteq> CNone" "b \<noteq> c"
    "q_owns s = q_owns (sq_threads x t)" "q_owns r = q_owns (sq_threads x u)" "q_local x s" "q_local x r"
    "\<And>m i linked clear. line_counts (sq_line x) m linked clear \<Longrightarrow> 0 < m a \<Longrightarrow> 0 < m b \<Longrightarrow>
       line_counts (sq_line x) (m(b := m b - 1, c := m c + 1, a := (m(b := m b - 1, c := m c + 1)) a - 1, CNone := i)) linked clear"
  shows "sq_inv N (sq_set t s (sq_set u r x))"
proof -
  obtain es where view: "sq_view N x es" using assms(1) by (auto simp: sq_inv_def)
  note I = sq_viewD[OF view]
  let ?m = "q_num N (sq_threads x)" and ?thr = "(sq_threads x)(u := r)"
  have m1: "q_num N ?thr = ?m(b := ?m b - 1, c := ?m c + 1)" "0 < ?m b"
    by (rule q_num_move[where thr = "sq_threads x", OF assms(3,6,8,10)])+
  have at: "q_class (?thr t) = a" using assms(4,5) by simp
  have m2: "q_num N (?thr(t := s)) = (q_num N ?thr)(a := q_num N ?thr a - 1, CNone := q_num N ?thr CNone + 1)"
    by (rule q_num_move(1)[where thr = ?thr, OF assms(2) at assms(7,9)])
  have ma: "0 < ?m a" by (rule class_has[OF assms(2,5)])
  have cnt: "line_counts (sq_line x) (q_num N (?thr(t := s))) (length es - 1) (clear_entries (sq_n x) (sq_bitmap x))"
    unfolding m2 unfolding m1(1) by (rule assms(15)[OF I(4) ma m1(2)])
  have o1: "entries_owned N (sq_n x) ?thr (sq_bitmap x) es" by (rule owned_keep[OF I(3) assms(3,12)])
  have own: "entries_owned N (sq_n x) (?thr(t := s)) (sq_bitmap x) es" by (rule owned_keep[OF o1 assms(2)]) (use assms(4,11) in simp)
  show ?thesis unfolding sq_inv_def sq_view_def
    using I(1,2,5) own cnt assms(13,14) by (intro exI[of _ es]) (simp add: sq_set_def sq_n_def sq_history_def)
qed

lemma inv_waking:
  assumes "sq_inv N x" "t < N" "u < N" "queue_waking t u x = Some y"
  shows "sq_inv N y"
proof -
  from assms(4) consider
      "sq_threads x t = QPushWaking" "sq_threads x u = QPopQueued" "y = sq_set t QIdle (sq_set u QPopWoken x)"
    | d where "sq_threads x t = QPopWaking" "sq_threads x u = QPushQueued d" "y = sq_set t QIdle (sq_set u (QPushWoken d) x)"
    | "sq_threads x t = QPushWaking" "sq_threads x u = QRefused QPopQueued" "y = sq_set t QIdle (sq_set u (QRefused QPopWoken) x)"
    | d where "sq_threads x t = QPopWaking" "sq_threads x u = QRefused (QPushQueued d)" "y = sq_set t QIdle (sq_set u (QRefused (QPushWoken d)) x)"
    by (auto simp: queue_waking_def split: queue_thread.splits)
  then show ?thesis
  proof cases
    case 1
    have ne: "t \<noteq> u" using 1 by auto
    show ?thesis unfolding 1(3)
      by (rule inv_wake_up[OF assms(1-3) ne, where a = CPushWaking and b = CPopQueued and c = CPopWoken])
         (use 1 in \<open>auto simp: line_counts_def side_counts_def\<close>)
  next
    case 2
    have ne: "t \<noteq> u" using 2 by auto
    show ?thesis unfolding 2(3)
      by (rule inv_wake_up[OF assms(1-3) ne, where a = CPopWaking and b = CPushQueued and c = CPushWoken])
         (use 2 in \<open>auto simp: line_counts_def side_counts_def\<close>)
  next
    case 3
    have ne: "t \<noteq> u" using 3 by auto
    show ?thesis unfolding 3(3)
      by (rule inv_wake_up[OF assms(1-3) ne, where a = CPushWaking and b = CPopQueued and c = CPopWoken])
         (use 3 in \<open>auto simp: line_counts_def side_counts_def\<close>)
  next
    case 4
    have ne: "t \<noteq> u" using 4 by auto
    show ?thesis unfolding 4(3)
      by (rule inv_wake_up[OF assms(1-3) ne, where a = CPopWaking and b = CPushQueued and c = CPushWoken])
         (use 4 in \<open>auto simp: line_counts_def side_counts_def\<close>)
  qed
qed

text \<open>A call refused: the thread stays counted, with its unit when it has one.\<close>

lemma inv_take_refused:
  assumes "sq_inv N x" "t < N" "sq_threads x t = QAllocate d wait rcv" "free_entries (sq_line x) > ucast (push_queued (sq_line x))"
  shows "sq_inv N (sq_set t (QRefused (QSearch d (sq_search (sq_line x)) 0))
    (put_line ((sq_line x)\<lparr>free_entries := free_entries (sq_line x) - 1, sq_search := search_next (sq_line x)\<rparr>) x))"
  by (rule inv_count[OF assms(1,2), where a = CNone and b = CSearch])
     (use assms(3,4) count_allocate in \<open>simp_all del: fun_upd_apply\<close>)

lemma inv_refusing:
  assumes "sq_inv N x" "t < N" "queue_refusing t entering x = Some y"
  shows "sq_inv N y"
proof -
  let ?q = "sq_line x"
  obtain es where view: "sq_view N x es" using assms(1) by (auto simp: sq_inv_def)
  have quiet: "sq_inv N (sq_set t (QRefused (sq_threads x t)) x)" if "refusable (sq_threads x t)" "q_owns (sq_threads x t) = None"
    by (rule inv_quiet[OF assms(1,2)]) (use that in simp_all)
  show ?thesis
  proof (cases "sq_threads x t")
    case (QAllocate d wait rcv)
    then show ?thesis using assms(3) inv_take_refused[OF assms(1,2) QAllocate]
      by (cases rcv) (auto simp: queue_refusing_def Let_def allocate_entry_pass_def split: if_splits)
  next
    case (QPushWoken d)
    have has: "0 < q_num N (sq_threads x) CPushWoken" by (rule class_has[OF assms(2)]) (simp add: QPushWoken)
    obtain q' where q': "push_leave ?q = Some (q', sq_search ?q)" "sq_head q' = sq_head ?q" "sq_tail q' = sq_tail ?q" "sq_entries q' = sq_entries ?q"
      using count_push_leave[OF sq_viewD(4)[OF view] has] by blast
    have "sq_inv N (sq_set t (QRefused (QSearch d (sq_search ?q) 0)) (put_line q' x))"
    proof (rule inv_count[OF assms(1,2), where a = CPushWoken and b = CSearch])
      show "line_counts q' (m(CPushWoken := m CPushWoken - 1, CSearch := m CSearch + 1)) linked clear"
        if "line_counts ?q m linked clear" "0 < m CPushWoken" for m linked clear
        using count_push_leave[OF that] q'(1) by auto
    qed (use QPushWoken q' in simp_all)
    then show ?thesis using assms(3) QPushWoken q'(1) quiet by (auto simp: queue_refusing_def Let_def split: if_splits)
  next
    case (QTake wait rcv)
    have "sq_inv N (sq_set t (QRefused QHead) (put_line (?q\<lparr>sq_size := sq_size ?q - 1\<rparr>) x))" if "sq_size ?q > ucast (pop_queued ?q)"
      by (rule inv_count[OF assms(1,2), where a = CNone and b = CUnit])
         (use QTake that count_take in \<open>simp_all del: fun_upd_apply\<close>)
    then show ?thesis using assms(3) QTake
      by (cases rcv) (auto simp: queue_refusing_def Let_def take_element_pass_def split: if_splits)
  next
    case QPopWoken
    have has: "0 < q_num N (sq_threads x) CPopWoken" by (rule class_has[OF assms(2)]) (simp add: QPopWoken)
    obtain q' where q': "pop_leave ?q = Some q'" "sq_head q' = sq_head ?q" "sq_tail q' = sq_tail ?q" "sq_entries q' = sq_entries ?q"
      using count_pop_leave[OF sq_viewD(4)[OF view] has] by blast
    have "sq_inv N (sq_set t (QRefused QHead) (put_line q' x))"
    proof (rule inv_count[OF assms(1,2), where a = CPopWoken and b = CUnit])
      show "line_counts q' (m(CPopWoken := m CPopWoken - 1, CUnit := m CUnit + 1)) linked clear"
        if "line_counts ?q m linked clear" "0 < m CPopWoken" for m linked clear
        using count_pop_leave[OF that] q'(1) by auto
    qed (use QPopWoken q' in simp_all)
    then show ?thesis using assms(3) QPopWoken q'(1) quiet by (auto simp: queue_refusing_def Let_def split: if_splits)
  qed (use assms(3) quiet in \<open>simp_all add: queue_refusing_def Let_def\<close>)
qed

section \<open>Reachable states\<close>

text \<open>A queue as its initialisation leaves it: one entry in use, the dummy, and all others free.\<close>

definition queue_fresh :: "'d queue_sys \<Rightarrow> bool" where
  "queue_fresh x \<longleftrightarrow>
     (let q = sq_line x in
      sq_size q = 0 \<and> pop_queued q = 0 \<and> pop_signalled q = 0 \<and> push_queued q = 0 \<and> push_signalled q = 0 \<and>
      sq_head q = sq_tail q \<and> sq_head q < sq_entries q \<and> free_entries q = sq_entries q - 1 \<and>
      sq_links x (unat (sq_head q)) = NO_ENTRY \<and>
      (\<forall>k < unat (sq_entries q). in_use (sq_bitmap x) k \<longleftrightarrow> k = unat (sq_head q)) \<and>
      sq_threads x = (\<lambda>_. QIdle) \<and> sq_pushed x = [] \<and> sq_popped x = [])"

lemma fresh_inv: "queue_fresh x \<Longrightarrow> sq_inv N x"
proof -
  assume f: "queue_fresh x"
  let ?q = "sq_line x"
  let ?h = "sq_head ?q"
  have "?h < sq_entries ?q" using f unfolding queue_fresh_def Let_def by blast
  then have h: "unat ?h < sq_n x" by (simp only: word_less_nat_alt sq_n_def)
  have "{k. k < sq_n x \<and> \<not> in_use (sq_bitmap x) k} = {..<sq_n x} - {unat ?h}"
    using f by (auto simp: queue_fresh_def Let_def sq_n_def)
  then have clear: "clear_entries (sq_n x) (sq_bitmap x) = sq_n x - 1" using h by (simp add: clear_entries_def)
  have free: "unat (free_entries ?q) = sq_n x - 1"
    using f h unat_down[of "sq_entries ?q"] by (simp add: queue_fresh_def Let_def sq_n_def)
  note F = f[unfolded queue_fresh_def Let_def]
  have thr: "sq_threads x = (\<lambda>_. QIdle)" using F by blast
  have m: "q_num N (\<lambda>_. QIdle) c = 0" if "c \<noteq> CNone" for c
    unfolding q_num_def by (rule number_none) (use that in auto)
  have ht: "sq_tail ?q = ?h" "sq_links x (unat ?h) = NO_ENTRY" using F by metis+
  have "list_chain (sq_n x) (sq_links x) ?h (sq_tail ?q) [?h]" using h ht by (simp add: list_chain_def)
  moreover have "sq_history x [?h]" using F by (simp add: sq_history_def)
  moreover have "entries_owned N (sq_n x) (sq_threads x) (sq_bitmap x) [?h]"
    using F h thr by (auto simp: entries_owned_def sq_n_def)
  moreover have "line_counts ?q (q_num N (sq_threads x)) (length [?h] - 1) (clear_entries (sq_n x) (sq_bitmap x))"
    unfolding thr line_counts_def side_counts_def clear using F free by (simp add: m)
  ultimately have "sq_view N x [?h]" unfolding sq_view_def by (simp add: thr)
  then show ?thesis by (auto simp: sq_inv_def)
qed

lemma inv_move:
  assumes "sq_inv N x" "t < N" "queue_move caller notifiers t act x = Some y" "\<And>u. act = WakeThread u \<Longrightarrow> u < N"
  shows "sq_inv N y"
proof (cases act)
  case (StartPush d wait)
  then have "sq_threads x t = QIdle" "y = sq_set t (QAllocate d wait False) x" using assms(3) by (auto simp: queue_move_def split: if_splits)
  then show ?thesis using inv_quiet[OF assms(1,2), of "QAllocate d wait False"] by simp
next
  case (StartPop wait)
  then have "sq_threads x t = QIdle" "y = sq_set t (QTake wait False) x" using assms(3) by (auto simp: queue_move_def split: if_splits)
  then show ?thesis using inv_quiet[OF assms(1,2), of "QTake wait False"] by simp
next
  case (GoOnWith choice)
  then show ?thesis using assms(3) inv_allocating[OF assms(1,2)] inv_pushing[OF assms(1,2)] inv_repairing[OF assms(1,2)] inv_popping[OF assms(1,2)]
      inv_freeing[OF assms(1,2)]
    by (auto simp: queue_move_def split: option.splits)
next
  case (WakeThread u)
  then show ?thesis using assms(3) inv_waking[OF assms(1,2) assms(4)[OF WakeThread]] by (simp add: queue_move_def)
next
  case (RefuseCall entering)
  then show ?thesis using assms(3) inv_refusing[OF assms(1,2)] by (simp add: queue_move_def)
qed

lemma inv_step:
  assumes "sq_inv N x" "s2_queue_step N caller notifiers x y"
  shows "sq_inv N y"
  using assms(2)
proof cases
  case (go t choice)
  show ?thesis by (rule inv_move[OF assms(1) go]) simp
next
  case (push t d wait)
  show ?thesis by (rule inv_move[OF assms(1) push]) simp
next
  case (pop t wait)
  show ?thesis by (rule inv_move[OF assms(1) pop]) simp
next
  case (wake t u)
  show ?thesis by (rule inv_move[OF assms(1) wake(1,3)]) (use wake(2) in simp)
next
  case (refuse t entering)
  show ?thesis by (rule inv_move[OF assms(1) refuse]) simp
qed

lemma sq_reachable_inv:
  assumes "(s2_queue_step N caller notifiers)\<^sup>*\<^sup>* x0 x" "queue_fresh x0"
  shows "sq_inv N x"
  using assms(1) by (induction rule: rtranclp_induct) (auto intro: fresh_inv[OF assms(2)] inv_step)

end
