(* ===== verification/Sync2_Queue_Props.thy ===== *)
theory Sync2_Queue_Props
  imports Sync2_Queue_Inv
begin

text \<open>
  The properties of the libsync2 queue: order, conservation and wake-ups, progress, and what becomes of a receiver when
  the queue of waiters is full.
\<close>

section \<open>Runs\<close>

fun queue_run :: "(nat \<Rightarrow> s2_caller option) \<Rightarrow> s2_notifier list option \<Rightarrow> (nat \<times> 'd queue_act) list \<Rightarrow> 'd queue_sys \<Rightarrow> 'd queue_sys option" where
  "queue_run caller notifiers [] x = Some x"
| "queue_run caller notifiers (a # acts) x =
     (case queue_move caller notifiers (fst a) (snd a) x of None \<Rightarrow> None | Some y \<Rightarrow> queue_run caller notifiers acts y)"

fun act_within :: "nat \<Rightarrow> nat \<times> 'd queue_act \<Rightarrow> bool" where
  "act_within N (t, WakeThread u) = (t < N \<and> u < N)"
| "act_within N (t, a) = (t < N)"

lemma queue_move_step:
  assumes "queue_move caller notifiers t a x = Some y" "act_within N (t, a)"
  shows "s2_queue_step N caller notifiers x y"
  using assms by (cases a) (auto intro: s2_queue_step.intros)

lemma queue_run_reaches:
  "queue_run caller notifiers acts x = Some y \<Longrightarrow> \<forall>a \<in> set acts. act_within N a \<Longrightarrow> (s2_queue_step N caller notifiers)\<^sup>*\<^sup>* x y"
proof (induction acts arbitrary: x)
  case (Cons a acts)
  then obtain z where z: "queue_move caller notifiers (fst a) (snd a) x = Some z" "queue_run caller notifiers acts z = Some y"
    by (auto split: option.splits)
  have "act_within N (fst a, snd a)" using Cons.prems(2) by simp
  then have "s2_queue_step N caller notifiers x z" by (rule queue_move_step[OF z(1)])
  then show ?case using Cons.IH[OF z(2)] Cons.prems(2) by (meson converse_rtranclp_into_rtranclp list.set_intros(2))
qed simp

lemma queue_run_append:
  "queue_run caller notifiers (xs @ ys) x =
     (case queue_run caller notifiers xs x of None \<Rightarrow> None | Some y \<Rightarrow> queue_run caller notifiers ys y)"
  by (induction xs arbitrary: x) (auto split: option.splits)

text \<open>A queue for two elements that may each have one waiter, with both threads' callers.\<close>

definition example_line :: s2_queue where
  "example_line = \<lparr>sq_size = 0, pop_queued = 0, pop_signalled = 0, sq_head = 0, sq_tail = 0, free_entries = 2, push_queued = 0,
     push_signalled = 0, sq_search = 1, sq_entries = 3, sq_thread_types = 1, max_push_waiters = 1, max_pop_waiters = 1\<rparr>"

definition example_queue :: "nat queue_sys" where
  "example_queue = \<lparr>sq_line = example_line, line_stores = 0, sq_links = (\<lambda>_. NO_ENTRY), link_stores = (\<lambda>_. 0), sq_elements = (\<lambda>_. 0),
     sq_bitmap = (\<lambda>_. 0x80000000), sq_threads = (\<lambda>_. QIdle), sq_receivers = (\<lambda>_. 0), sq_pushed = [], sq_popped = []\<rparr>"

definition queue_caller :: "nat \<Rightarrow> s2_caller option" where
  "queue_caller t = Some \<lparr>threadTypeId = 1, self_id = of_nat t, has_allocate = True, has_free = True, has_wait = True\<rparr>"

definition queue_notifiers :: "s2_notifier list option" where
  "queue_notifiers = Some [\<lparr>nt_threadTypeId = 1, nt_sendSignal = True\<rparr>]"

lemma example_fresh: "queue_fresh example_queue"
proof -
  have "in_use (\<lambda>_. 0x80000000) k \<longleftrightarrow> k = 0" if "k < 3" for k
  proof -
    have "k = 0 \<or> k = 1 \<or> k = 2" using that by linarith
    then show ?thesis by (auto simp: in_use_def bit_iff_odd)
  qed
  then show ?thesis by (simp add: queue_fresh_def example_queue_def example_line_def Let_def)
qed

definition keep_going :: "nat \<Rightarrow> nat \<Rightarrow> (nat \<times> 'd queue_act) list" where
  "keep_going t m = replicate m (t, GoOnWith True)"

section \<open>Order and capacity\<close>

text \<open>C21: Whatever the threads that share a queue do, the elements taken out are the elements linked in, in that order, and
  what is in between is the linked list: the elements of the entries after the head, of which there are never more than the depth.\<close>

theorem s2_queue_fifo:
  assumes "(s2_queue_step N caller notifiers)\<^sup>*\<^sup>* x0 x" "queue_fresh x0"
  shows "\<exists>es. list_chain (sq_n x) (sq_links x) (sq_head (sq_line x)) (sq_tail (sq_line x)) es \<and>
    sq_pushed x = sq_popped x @ map (\<lambda>e. sq_elements x (unat e)) (tl es) \<and> length (sq_pushed x) \<le> length (sq_popped x) + (sq_n x - 1)"
proof -
  obtain es where view: "sq_view N x es" using sq_reachable_inv[OF assms] by (auto simp: sq_inv_def)
  note I = sq_viewD[OF view]
  have "sq_pushed x = sq_popped x @ map (\<lambda>e. sq_elements x (unat e)) (tl es)" using I(2) by (simp add: sq_history_def)
  moreover have "length (tl es) \<le> sq_n x - 1" using chain_length[OF I(1)] by (simp add: diff_le_mono)
  ultimately show ?thesis using I(1) by (intro exI[of _ es]) simp
qed

text \<open>Two pushes and a pop.\<close>

definition example_acts :: "(nat \<times> nat queue_act) list" where
  "example_acts = (0, StartPush 7 True) # keep_going 0 11 @ (1, StartPush 8 True) # keep_going 1 11 @ (0, StartPop True) # keep_going 0 8"

lemma example_result:
  "map_option (\<lambda>x. (sq_pushed x, sq_popped x)) (queue_run queue_caller queue_notifiers example_acts example_queue) = Some ([7, 8], [7])"
  by code_simp

theorem s2_queue_fifo_witness:
  "\<exists>x es. (s2_queue_step 2 queue_caller queue_notifiers)\<^sup>*\<^sup>* example_queue x \<and> sq_pushed x = [7, 8] \<and>
    map (\<lambda>e. sq_elements x (unat e)) (tl es) = [8] \<and> list_chain (sq_n x) (sq_links x) (sq_head (sq_line x)) (sq_tail (sq_line x)) es"
proof -
  obtain x where x: "queue_run queue_caller queue_notifiers example_acts example_queue = Some x" "sq_pushed x = [7, 8]" "sq_popped x = [7]"
    using example_result by auto
  have r: "(s2_queue_step 2 queue_caller queue_notifiers)\<^sup>*\<^sup>* example_queue x"
    by (rule queue_run_reaches[OF x(1)]) (auto simp: example_acts_def keep_going_def)
  from s2_queue_fifo[OF r example_fresh] obtain es where es: "list_chain (sq_n x) (sq_links x) (sq_head (sq_line x)) (sq_tail (sq_line x)) es"
      "sq_pushed x = sq_popped x @ map (\<lambda>e. sq_elements x (unat e)) (tl es)" by blast
  have "map (\<lambda>e. sq_elements x (unat e)) (tl es) = [8]" using es(2) x(2,3) by (simp del: map_eq_Cons_conv)
  then show ?thesis using r x(2) es(1) by (intro exI[of _ x] exI[of _ es]) simp
qed

section \<open>Conservation and wake-ups\<close>

fun queue_halted :: "'d queue_thread \<Rightarrow> bool" where
  "queue_halted QHalted = True" | "queue_halted (QRefused s) = True" | "queue_halted s = False"

text \<open>Only a refusal makes a thread one that was refused.\<close>

lemma going_not_refused:
  assumes "queue_move caller notifiers t (GoOnWith choice) x = Some y" "sq_threads y u = QRefused s"
  shows "sq_threads x u = QRefused s"
proof -
  have a: "sq_threads x u = QRefused s" if "queue_allocating t choice x = Some y"
    using that assms(2)
    by (cases "sq_threads x t")
      (auto simp: queue_allocating_def Let_def sq_set_def put_line_def drop_receiver_def
        split: decision.splits sum.splits queue_next.splits option.splits prod.splits if_splits)
  have b: "sq_threads x u = QRefused s" if "queue_pushing t choice x = Some y"
    using that assms(2) by (cases "sq_threads x t") (auto simp: queue_pushing_def Let_def sq_set_def put_line_def put_link_def split: if_splits)
  have c: "sq_threads x u = QRefused s" if "queue_repairing t choice x = Some y"
    using that assms(2)
    by (cases "sq_threads x t") (auto simp: queue_repairing_def Let_def sq_set_def put_line_def after_repair_def split: if_splits repairer.splits)
  have d: "sq_threads x u = QRefused s" if "queue_popping t choice x = Some y"
    using that assms(2)
    by (cases "sq_threads x t")
      (auto simp: queue_popping_def Let_def sq_set_def put_line_def drop_receiver_def
        split: decision.splits sum.splits queue_next.splits option.splits prod.splits if_splits)
  have e: "sq_threads x u = QRefused s" if "queue_freeing t choice x = Some y"
    using that assms(2) by (cases "sq_threads x t") (auto simp: queue_freeing_def Let_def sq_set_def put_line_def split: if_splits)
  show ?thesis using assms(1) a b c d e by (auto simp: queue_move_def split: option.splits)
qed

lemma refusing_self:
  "queue_refusing t entering x = Some y \<Longrightarrow> u \<noteq> t \<Longrightarrow> sq_threads y u = sq_threads x u"
  by (cases "sq_threads x t")
    (auto simp: queue_refusing_def Let_def sq_set_def put_line_def
      split: decision.splits sum.splits queue_next.splits option.splits prod.splits if_splits bool.splits)

lemma halts_by_refusal:
  assumes "sq_inv N x" "s2_queue_step N caller notifiers x y" "t < N" "queue_halted (sq_threads y t)" "\<not> queue_halted (sq_threads x t)"
  shows "\<exists>entering. queue_refusing t entering x = Some y"
proof -
  have inv: "sq_inv N y" by (rule inv_step[OF assms(1,2)])
  then have "sq_threads y t \<noteq> QHalted" using assms(3) by (auto simp: sq_inv_def dest!: sq_viewD(5))
  then obtain s where s: "sq_threads y t = QRefused s" using assms(4) by (cases "sq_threads y t") simp_all
  from assms(2) show ?thesis
  proof cases
    case (go t' choice)
    then show ?thesis using going_not_refused[OF go(2) s] assms(5) by simp
  next
    case (push t' d wait)
    then show ?thesis using s assms(5) by (auto simp: queue_move_def sq_set_def split: if_splits)
  next
    case (pop t' wait)
    then show ?thesis using s assms(5) by (auto simp: queue_move_def sq_set_def split: if_splits)
  next
    case (wake t' u)
    have "sq_threads y u' = QRefused s' \<Longrightarrow> queue_halted (sq_threads x u')" for u' s'
      using wake(3)
      by (auto simp: queue_move_def queue_waking_def sq_set_def split: queue_thread.splits if_splits)
    then show ?thesis using s assms(5) by blast
  next
    case (refuse t' entering)
    from refuse(2) have r: "queue_refusing t' entering x = Some y" by (simp add: queue_move_def)
    have "t = t'"
    proof (rule ccontr)
      assume "t \<noteq> t'"
      then have "sq_threads x t = QRefused s" using refusing_self[OF r] s by simp
      then show False using assms(5) by simp
    qed
    then show ?thesis using r by blast
  qed
qed

text \<open>Who counts as queued sleeps, or was refused when it went to.\<close>

lemma queued_thread:
  assumes "q_local x s"
  shows "q_class s = CPopQueued \<Longrightarrow> s = QPopQueued \<or> s = QRefused QPopQueued"
    "q_class s = CPushQueued \<Longrightarrow> \<exists>d. s = QPushQueued d \<or> s = QRefused (QPushQueued d)"
proof -
  have r: "q_class s' = CPopQueued \<Longrightarrow> refusable s' \<Longrightarrow> s' = QPopQueued" "q_class s' = CPushQueued \<Longrightarrow> refusable s' \<Longrightarrow> \<exists>d. s' = QPushQueued d" for s' :: "'a queue_thread"
    by (cases s'; simp)+
  show "q_class s = CPopQueued \<Longrightarrow> s = QPopQueued \<or> s = QRefused QPopQueued"
    using assms r(1) by (cases s) (auto simp: repair_class_def split: repairer.splits)
  show "q_class s = CPushQueued \<Longrightarrow> \<exists>d. s = QPushQueued d \<or> s = QRefused (QPushQueued d)"
    using assms r(2) by (cases s) (auto simp: repair_class_def split: repairer.splits)
qed

lemma waker_has_sleeper:
  assumes "sq_inv N x" "t < N"
  shows "sq_threads x t = QPushWaking \<Longrightarrow> \<exists>u < N. sq_threads x u = QPopQueued \<or> sq_threads x u = QRefused QPopQueued"
    "sq_threads x t = QPopWaking \<Longrightarrow> \<exists>u < N. \<exists>d. sq_threads x u = QPushQueued d \<or> sq_threads x u = QRefused (QPushQueued d)"
proof -
  obtain es where view: "sq_view N x es" using assms(1) by (auto simp: sq_inv_def)
  note I = sq_viewD[OF view]
  let ?m = "q_num N (sq_threads x)"
  have sides: "side_counts (push_queued (sq_line x)) (push_signalled (sq_line x)) (max_push_waiters (sq_line x)) (free_entries (sq_line x))
        (?m CPushQueued) (?m CPushWoken) (?m CPopWaking)"
      "side_counts (pop_queued (sq_line x)) (pop_signalled (sq_line x)) (max_pop_waiters (sq_line x)) (sq_size (sq_line x))
        (?m CPopQueued) (?m CPopWoken) (?m CPushWaking)"
    using I(4) by (simp_all add: line_counts_def)
  show "\<exists>u < N. sq_threads x u = QPopQueued \<or> sq_threads x u = QRefused QPopQueued" if "sq_threads x t = QPushWaking"
  proof -
    have "0 < ?m CPushWaking" by (rule class_has[OF assms(2)]) (simp add: that)
    then have "0 < ?m CPopQueued" using sides(2) by (simp add: side_counts_def)
    then obtain u where u: "u < N" "q_class (sq_threads x u) = CPopQueued" using number_ex[of N _ "sq_threads x"] by (auto simp: q_num_def)
    then show ?thesis using queued_thread(1)[OF I(5)[OF u(1)]] by blast
  qed
  show "\<exists>u < N. \<exists>d. sq_threads x u = QPushQueued d \<or> sq_threads x u = QRefused (QPushQueued d)" if "sq_threads x t = QPopWaking"
  proof -
    have "0 < ?m CPopWaking" by (rule class_has[OF assms(2)]) (simp add: that)
    then have "0 < ?m CPushQueued" using sides(1) by (simp add: side_counts_def)
    then obtain u where u: "u < N" "q_class (sq_threads x u) = CPushQueued" using number_ex[of N _ "sq_threads x"] by (auto simp: q_num_def)
    then show ?thesis using queued_thread(2)[OF I(5)[OF u(1)]] by blast
  qed
qed

text \<open>C22: No thread halts its processor on a check of the queue, and the only step by which one halts is a call that is
  refused: entering the waiting queue, waking it (which the waiting queue can refuse, as \<open>Sync2_Waiting_Props\<close> shows) or freeing a receiver.  Whatever is refused,
  every element linked in is taken out, counted in the size, claimed by a popper or about to be counted; every entry clear in the
  bitmap is counted free, claimed by a pusher that searches or about to be counted; a thread about to wake a waiter has one to
  wake, or one whose enter was refused; and while a waiter of either side is not being woken, that side has no more units than
  the waiters that are, so no waiter sleeps on a unit nobody was promised.\<close>

theorem s2_queue_conserves:
  assumes "(s2_queue_step N caller notifiers)\<^sup>*\<^sup>* x0 x" "queue_fresh x0"
  shows "(\<forall>t < N. sq_threads x t \<noteq> QHalted) \<and>
    (\<forall>y t. s2_queue_step N caller notifiers x y \<longrightarrow> t < N \<longrightarrow> queue_halted (sq_threads y t) \<longrightarrow> \<not> queue_halted (sq_threads x t) \<longrightarrow>
      (\<exists>entering. queue_refusing t entering x = Some y)) \<and>
    length (sq_pushed x) = length (sq_popped x) + unat (sq_size (sq_line x)) + q_num N (sq_threads x) CUnit + q_num N (sq_threads x) CCount \<and>
    card {k. k < sq_n x \<and> \<not> in_use (sq_bitmap x) k} =
      unat (free_entries (sq_line x)) + q_num N (sq_threads x) CSearch + q_num N (sq_threads x) CFreeCount \<and>
    (\<forall>t < N. sq_threads x t = QPushWaking \<longrightarrow> (\<exists>u < N. sq_threads x u = QPopQueued \<or> sq_threads x u = QRefused QPopQueued)) \<and>
    (\<forall>t < N. sq_threads x t = QPopWaking \<longrightarrow> (\<exists>u < N. \<exists>d. sq_threads x u = QPushQueued d \<or> sq_threads x u = QRefused (QPushQueued d))) \<and>
    (pop_signalled (sq_line x) \<noteq> pop_queued (sq_line x) \<longrightarrow> unat (sq_size (sq_line x)) = unat (pop_signalled (sq_line x))) \<and>
    (push_signalled (sq_line x) \<noteq> push_queued (sq_line x) \<longrightarrow> unat (free_entries (sq_line x)) = unat (push_signalled (sq_line x)))"
proof -
  have inv: "sq_inv N x" by (rule sq_reachable_inv[OF assms])
  obtain es where view: "sq_view N x es" using inv by (auto simp: sq_inv_def)
  note I = sq_viewD[OF view]
  let ?m = "q_num N (sq_threads x)"
  have sides: "side_counts (push_queued (sq_line x)) (push_signalled (sq_line x)) (max_push_waiters (sq_line x)) (free_entries (sq_line x))
        (?m CPushQueued) (?m CPushWoken) (?m CPopWaking)"
      "side_counts (pop_queued (sq_line x)) (pop_signalled (sq_line x)) (max_pop_waiters (sq_line x)) (sq_size (sq_line x))
        (?m CPopQueued) (?m CPopWoken) (?m CPushWaking)"
    using I(4) by (simp_all add: line_counts_def)
  have "\<forall>t < N. sq_threads x t \<noteq> QHalted" using I(5) by fastforce
  moreover have "\<forall>y t. s2_queue_step N caller notifiers x y \<longrightarrow> t < N \<longrightarrow> queue_halted (sq_threads y t) \<longrightarrow>
      \<not> queue_halted (sq_threads x t) \<longrightarrow> (\<exists>entering. queue_refusing t entering x = Some y)"
    using halts_by_refusal[OF inv] by blast
  moreover have "length (sq_pushed x) = length (sq_popped x) + unat (sq_size (sq_line x)) + ?m CUnit + ?m CCount"
  proof -
    have "length (sq_popped x @ map (\<lambda>e. sq_elements x (unat e)) (tl es)) = length (sq_pushed x)" using I(2) by (simp only: sq_history_def)
    then have "length (sq_pushed x) = length (sq_popped x) + (length es - 1)" by simp
    then show ?thesis using I(4) by (simp add: line_counts_def)
  qed
  moreover have "card {k. k < sq_n x \<and> \<not> in_use (sq_bitmap x) k} = unat (free_entries (sq_line x)) + ?m CSearch + ?m CFreeCount"
    using I(4) by (simp add: line_counts_def clear_entries_def)
  moreover note waker_has_sleeper[OF inv]
  moreover have "unat (sq_size (sq_line x)) = unat (pop_signalled (sq_line x))" if "pop_signalled (sq_line x) \<noteq> pop_queued (sq_line x)"
    using sides(2) that by (auto simp: side_counts_def word_unat_eq_iff)
  moreover have "unat (free_entries (sq_line x)) = unat (push_signalled (sq_line x))" if "push_signalled (sq_line x) \<noteq> push_queued (sq_line x)"
    using sides(1) that by (auto simp: side_counts_def word_unat_eq_iff)
  ultimately show ?thesis by (intro conjI) blast+
qed

text \<open>A popper queues; a push finds it and is about to wake it.  The waiting queue may refuse: then the pusher halts.\<close>

definition waking_acts :: "(nat \<times> nat queue_act) list" where
  "waking_acts = (1, StartPop True) # keep_going 1 2 @ (0, StartPush 7 True) # keep_going 0 11"

lemma waking_result:
  "map_option (\<lambda>x. (sq_threads x 0, sq_threads x 1)) (queue_run queue_caller queue_notifiers waking_acts example_queue) = Some (QPushWaking, QPopQueued)"
  by code_simp

theorem s2_queue_conserves_witness:
  "\<exists>x y. (s2_queue_step 2 queue_caller queue_notifiers)\<^sup>*\<^sup>* example_queue x \<and> sq_threads x 0 = QPushWaking \<and>
    (\<exists>u < 2. sq_threads x u = QPopQueued \<or> sq_threads x u = QRefused QPopQueued) \<and>
    s2_queue_step 2 queue_caller queue_notifiers x y \<and> sq_threads y 0 = QRefused QPushWaking"
proof -
  obtain x where x: "queue_run queue_caller queue_notifiers waking_acts example_queue = Some x" "sq_threads x 0 = QPushWaking"
    using waking_result by auto
  have r: "(s2_queue_step 2 queue_caller queue_notifiers)\<^sup>*\<^sup>* example_queue x"
    by (rule queue_run_reaches[OF x(1)]) (auto simp: waking_acts_def keep_going_def)
  have "\<exists>u < 2. sq_threads x u = QPopQueued \<or> sq_threads x u = QRefused QPopQueued"
    using s2_queue_conserves[OF r example_fresh] x(2) by (meson zero_less_numeral)
  moreover have "s2_queue_step 2 queue_caller queue_notifiers x (sq_set 0 (QRefused QPushWaking) x)"
    by (rule s2_queue_step.refuse[of 0 _ _ _ False]) (simp_all add: queue_move_def queue_refusing_def x(2))
  moreover have "sq_threads (sq_set 0 (QRefused QPushWaking) x) 0 = QRefused QPushWaking" by (simp add: sq_set_def)
  ultimately show ?thesis using r x(2) by blast
qed

section \<open>Progress\<close>

text \<open>A thread on its own, with its conditional stores let through.\<close>

definition alone :: "nat \<Rightarrow> 'd queue_sys \<Rightarrow> 'd queue_sys \<Rightarrow> bool" where
  "alone t x y \<longleftrightarrow> (\<exists>m. queue_run (\<lambda>_. None) None (keep_going t m) x = Some y)"

lemma run_any_caller: "queue_run caller notifiers (keep_going t m) x = queue_run caller' notifiers' (keep_going t m) x"
proof (induction m arbitrary: x)
  case (Suc m)
  have "queue_move caller notifiers t (GoOnWith c) x = queue_move caller' notifiers' t (GoOnWith c) x" for c and x :: "'a queue_sys"
    by (simp add: queue_move_def)
  then show ?case using Suc by (simp add: keep_going_def split: option.splits)
qed (simp add: keep_going_def)

lemma alone_refl [simp]: "alone t x x"
  unfolding alone_def by (intro exI[of _ 0]) (simp add: keep_going_def)

lemma alone_first:
  assumes "queue_move (\<lambda>_. None) None t (GoOnWith True) x = Some y" "alone t y z"
  shows "alone t x z"
proof -
  obtain m where "queue_run (\<lambda>_. None) None (keep_going t m) y = Some z" using assms(2) by (auto simp: alone_def)
  then have "queue_run (\<lambda>_. None) None (keep_going t (Suc m)) x = Some z" using assms(1) by (simp add: keep_going_def)
  then show ?thesis unfolding alone_def by blast
qed

lemma alone_trans: "alone t x y \<Longrightarrow> alone t y z \<Longrightarrow> alone t x z"
proof -
  assume a: "alone t x y" "alone t y z"
  then obtain m m' where "queue_run (\<lambda>_. None) None (keep_going t m) x = Some y" "queue_run (\<lambda>_. None) None (keep_going t m') y = Some z"
    by (auto simp: alone_def)
  then have "queue_run (\<lambda>_. None) None (keep_going t (m + m')) x = Some z"
    by (simp add: keep_going_def replicate_add queue_run_append)
  then show ?thesis unfolding alone_def by blast
qed

lemma alone_inv:
  assumes "alone t x y" "sq_inv N x" "t < N"
  shows "sq_inv N y"
proof -
  obtain m where "queue_run (\<lambda>_. None) None (keep_going t m) x = Some y" using assms(1) by (auto simp: alone_def)
  then show ?thesis using assms(2)
  proof (induction m arbitrary: x)
    case (Suc m)
    then obtain z where z: "queue_move (\<lambda>_. None) None t (GoOnWith True) x = Some z" "queue_run (\<lambda>_. None) None (keep_going t m) z = Some y"
      by (auto simp: keep_going_def split: option.splits)
    have "sq_inv N z" by (rule inv_move[OF Suc.prems(2) assms(3) z(1)]) simp
    then show ?case by (rule Suc.IH[OF z(2)])
  qed (simp add: keep_going_def)
qed

lemmas move_defs = queue_move_def queue_allocating_def queue_pushing_def queue_repairing_def queue_popping_def queue_freeing_def Let_def

text \<open>A repair of the tail, from a state whose list is in order.\<close>

lemma alone_repair:
  assumes "sq_inv N x" "t < N" "sq_threads x t = QRepair r"
  shows "\<exists>y. alone t x y \<and> sq_threads y t = after_repair r \<and> sq_links y (unat (sq_tail (sq_line y))) = NO_ENTRY \<and>
    sq_pushed y = sq_pushed x \<and> sq_popped y = sq_popped x"
proof -
  let ?links = "sq_links x"
  have clean: "\<exists>y. alone t x y \<and> sq_threads y t = after_repair r \<and> sq_links y (unat (sq_tail (sq_line y))) = NO_ENTRY \<and>
      sq_pushed y = sq_pushed x \<and> sq_popped y = sq_popped x"
    if "sq_threads x t = QRepair r" "sq_links x (unat (sq_tail (sq_line x))) = NO_ENTRY" for x :: "'a queue_sys"
  proof -
    let ?a = "sq_set t (QRepairRead r (sq_line x) (line_stores x)) x"
    let ?b = "sq_set t (after_repair r) ?a"
    have "queue_move (\<lambda>_. None) None t (GoOnWith True) x = Some ?a" using that(1) by (simp add: move_defs)
    moreover have "queue_move (\<lambda>_. None) None t (GoOnWith True) ?a = Some ?b" using that(2) by (simp add: move_defs sq_set_def)
    ultimately have "alone t x ?b" by (metis alone_first alone_refl)
    then show ?thesis using that(2) by (intro exI[of _ ?b]) (simp add: sq_set_def)
  qed
  show ?thesis
  proof (cases "sq_links x (unat (sq_tail (sq_line x))) = NO_ENTRY")
    case True
    then show ?thesis by (rule clean[OF assms(3)])
  next
    case False
    let ?q = "sq_line x" and ?nx = "sq_links x (unat (sq_tail (sq_line x)))"
    let ?a = "sq_set t (QRepairRead r ?q (line_stores x)) x"
    let ?b = "sq_set t (QRepairStore r ?q (line_stores x) ?nx) ?a"
    let ?c = "sq_set t (QRepair r) (put_line (?q\<lparr>sq_tail := ?nx\<rparr>) ?b)"
    have "queue_move (\<lambda>_. None) None t (GoOnWith True) x = Some ?a" using assms(3) by (simp add: move_defs)
    moreover have "queue_move (\<lambda>_. None) None t (GoOnWith True) ?a = Some ?b" using False by (simp add: move_defs sq_set_def)
    moreover have "queue_move (\<lambda>_. None) None t (GoOnWith True) ?b = Some ?c" by (simp add: move_defs sq_set_def put_line_def)
    ultimately have go: "alone t x ?c" by (metis alone_first alone_refl)
    obtain es where view: "sq_view N x es" using assms(1) by (auto simp: sq_inv_def)
    have "?links (unat ?nx) = NO_ENTRY" by (rule chain_next_last[OF sq_viewD(1)[OF view] False])
    then have "sq_links ?c (unat (sq_tail (sq_line ?c))) = NO_ENTRY" by (simp add: sq_set_def put_line_def)
    moreover have "sq_threads ?c t = QRepair r" by (simp add: sq_set_def put_line_def)
    ultimately obtain y where "alone t ?c y" "sq_threads y t = after_repair r" "sq_links y (unat (sq_tail (sq_line y))) = NO_ENTRY"
        "sq_pushed y = sq_pushed ?c" "sq_popped y = sq_popped ?c" using clean by blast
    then show ?thesis using alone_trans[OF go] by (intro exI[of _ y]) (simp add: sq_set_def put_line_def)
  qed
qed

text \<open>Linking an entry when the tail is at the end.\<close>

lemma alone_link:
  assumes "sq_threads x t = QTail d e" "sq_links x (unat (sq_tail (sq_line x))) = NO_ENTRY"
  shows "\<exists>y. alone t x y \<and> sq_threads y t = QCount \<and> sq_pushed y = sq_pushed x @ [d]"
proof -
  let ?tail = "sq_tail (sq_line x)"
  let ?v = "link_stores x (unat ?tail)"
  let ?a = "sq_set t (QReserve d e ?tail) x"
  let ?b = "sq_set t (QCheck d e ?tail NO_ENTRY ?v) ?a"
  let ?c = "sq_set t (QLink d e ?tail NO_ENTRY ?v) ?b"
  let ?y = "sq_set t QCount (put_link ?tail e (?c\<lparr>sq_pushed := sq_pushed ?c @ [d]\<rparr>))"
  have "queue_move (\<lambda>_. None) None t (GoOnWith True) x = Some ?a" using assms(1) by (simp add: move_defs)
  moreover have "queue_move (\<lambda>_. None) None t (GoOnWith True) ?a = Some ?b" using assms(2) by (simp add: move_defs sq_set_def)
  moreover have "queue_move (\<lambda>_. None) None t (GoOnWith True) ?b = Some ?c" by (simp add: move_defs sq_set_def)
  moreover have "queue_move (\<lambda>_. None) None t (GoOnWith True) ?c = Some ?y" by (simp add: move_defs sq_set_def)
  ultimately have "alone t x ?y" by (metis alone_first alone_refl)
  then show ?thesis by (intro exI[of _ ?y]) (simp add: sq_set_def put_link_def)
qed

lemma push_alone:
  assumes "sq_inv N x" "t < N" "sq_threads x t = QTail d e"
  shows "\<exists>y. alone t x y \<and> sq_threads y t = QCount \<and> sq_pushed y = sq_pushed x @ [d]"
proof (cases "sq_links x (unat (sq_tail (sq_line x))) = NO_ENTRY")
  case True
  then show ?thesis by (rule alone_link[OF assms(3)])
next
  case False
  let ?tail = "sq_tail (sq_line x)"
  let ?a = "sq_set t (QReserve d e ?tail) x"
  let ?b = "sq_set t (QCheck d e ?tail (sq_links x (unat ?tail)) (link_stores x (unat ?tail))) ?a"
  let ?c = "sq_set t (QRepair (ForPush d e)) ?b"
  have "queue_move (\<lambda>_. None) None t (GoOnWith True) x = Some ?a" using assms(3) by (simp add: move_defs)
  moreover have "queue_move (\<lambda>_. None) None t (GoOnWith True) ?a = Some ?b" by (simp add: move_defs sq_set_def)
  moreover have "queue_move (\<lambda>_. None) None t (GoOnWith True) ?b = Some ?c" using False by (simp add: move_defs sq_set_def)
  ultimately have go: "alone t x ?c" by (metis alone_first alone_refl)
  have c: "sq_threads ?c t = QRepair (ForPush d e)" "sq_pushed ?c = sq_pushed x" by (simp_all add: sq_set_def)
  obtain y where y: "alone t ?c y" "sq_threads y t = QTail d e" "sq_links y (unat (sq_tail (sq_line y))) = NO_ENTRY" "sq_pushed y = sq_pushed x"
    using alone_repair[OF alone_inv[OF go assms(1,2)] assms(2) c(1)] c(2) by (auto simp: after_repair_def)
  from alone_link[OF y(2,3)] y(4) show ?thesis using alone_trans[OF alone_trans[OF go y(1)]] by auto
qed

text \<open>Taking an element: a thread with a unit finds one.\<close>

lemma unit_has_element:
  assumes "sq_view N x es" "t < N" "q_class (sq_threads x t) = CUnit"
  shows "1 < length es"
proof -
  have "0 < q_num N (sq_threads x) CUnit" by (rule class_has[OF assms(2,3)])
  moreover have "length es - 1 = unat (sq_size (sq_line x)) + q_num N (sq_threads x) CUnit + q_num N (sq_threads x) CCount"
    using sq_viewD(4)[OF assms(1)] by (simp add: line_counts_def)
  ultimately show ?thesis by linarith
qed

lemma alone_pop:
  assumes "sq_inv N x" "t < N" "sq_threads x t = QHead" "sq_head (sq_line x) \<noteq> sq_tail (sq_line x)"
  shows "\<exists>y. alone t x y \<and> sq_threads y t = QFree (sq_head (sq_line x)) \<and> length (sq_popped y) = Suc (length (sq_popped x)) \<and> sq_pushed y = sq_pushed x"
proof -
  obtain es where view: "sq_view N x es" using assms(1) by (auto simp: sq_inv_def)
  let ?q = "sq_line x" and ?nx = "sq_links x (unat (sq_head (sq_line x)))" and ?v = "line_stores x"
  have nx: "?nx \<noteq> NO_ENTRY"
    by (rule chain_more[OF sq_viewD(1)[OF view] sq_n_less]) (use unit_has_element[OF view assms(2)] assms(3) in simp)
  let ?a = "sq_set t (QHeadRead ?q ?v) x"
  let ?b = "sq_set t (QGet ?q ?v ?nx) ?a"
  let ?c = "sq_set t (QPopStore ?q ?v ?nx (sq_elements x (unat ?nx))) ?b"
  let ?y = "sq_set t (QFree (sq_head ?q)) (put_line (?q\<lparr>sq_head := ?nx\<rparr>) (?c\<lparr>sq_popped := sq_popped ?c @ [sq_elements x (unat ?nx)]\<rparr>))"
  have "queue_move (\<lambda>_. None) None t (GoOnWith True) x = Some ?a" using assms(3,4) by (simp add: move_defs)
  moreover have "queue_move (\<lambda>_. None) None t (GoOnWith True) ?a = Some ?b" using nx by (simp add: move_defs sq_set_def)
  moreover have "queue_move (\<lambda>_. None) None t (GoOnWith True) ?b = Some ?c" by (simp add: move_defs sq_set_def)
  moreover have "queue_move (\<lambda>_. None) None t (GoOnWith True) ?c = Some ?y" by (simp add: move_defs sq_set_def)
  ultimately have "alone t x ?y" by (metis alone_first alone_refl)
  then show ?thesis by (intro exI[of _ ?y]) (simp add: sq_set_def put_line_def)
qed

lemma pop_alone:
  assumes "sq_inv N x" "t < N" "sq_threads x t = QHead"
  shows "\<exists>y e. alone t x y \<and> sq_threads y t = QFree e \<and> length (sq_popped y) = Suc (length (sq_popped x)) \<and> sq_pushed y = sq_pushed x"
proof (cases "sq_head (sq_line x) = sq_tail (sq_line x)")
  case False
  from alone_pop[OF assms False] show ?thesis by blast
next
  case True
  let ?a = "sq_set t (QRepair ForPop) x"
  have "queue_move (\<lambda>_. None) None t (GoOnWith True) x = Some ?a" using assms(3) True by (simp add: move_defs)
  then have go: "alone t x ?a" by (metis alone_first alone_refl)
  have a: "sq_threads ?a t = QRepair ForPop" by (simp add: sq_set_def)
  obtain y where y: "alone t ?a y" "sq_threads y t = QHead" "sq_links y (unat (sq_tail (sq_line y))) = NO_ENTRY"
      "sq_pushed y = sq_pushed x" "sq_popped y = sq_popped x"
    using alone_repair[OF alone_inv[OF go assms(1,2)] assms(2) a] by (auto simp: after_repair_def sq_set_def)
  have xy: "alone t x y" by (rule alone_trans[OF go y(1)])
  note inv = alone_inv[OF xy assms(1,2)]
  then obtain es where view: "sq_view N y es" by (auto simp: sq_inv_def)
  have "sq_links y (unat (sq_head (sq_line y))) \<noteq> NO_ENTRY"
    by (rule chain_more[OF sq_viewD(1)[OF view] sq_n_less]) (use unit_has_element[OF view assms(2)] y(2) in simp)
  then have "sq_head (sq_line y) \<noteq> sq_tail (sq_line y)" using y(3) by auto
  from alone_pop[OF inv assms(2) y(2) this] y(4,5) show ?thesis using alone_trans[OF xy] by fastforce
qed

text \<open>Searching the bitmap: the offset that reaches a clear bit comes up, wherever the search stands.\<close>

lemma search_alone:
  fixes e :: u32
  assumes "unat e < sq_n x" "\<not> in_use (sq_bitmap x) (unat e)" "sq_threads x t = QSearch d start i"
  shows "\<exists>y e. alone t x y \<and> sq_threads y t = QPutElement d e \<and> \<not> in_use (sq_bitmap x) (unat e) \<and> sq_pushed y = sq_pushed x"
  using assms
proof (induction "unat (e - start - i)" arbitrary: i x rule: less_induct)
  case less
  let ?e = "(start + i) mod sq_entries (sq_line x)"
  show ?case
  proof (cases "in_use (sq_bitmap x) (unat ?e)")
    case False
    let ?y = "sq_set t (QPutElement d ?e) (x\<lparr>sq_bitmap := (sq_bitmap x)(bitmap_word ?e := sq_bitmap x (bitmap_word ?e) OR bitmap_bit ?e)\<rparr>)"
    have "queue_move (\<lambda>_. None) None t (GoOnWith True) x = Some ?y"
      using less.prems(3) False bitmap_tests[of "sq_bitmap x" ?e] by (simp add: move_defs)
    then have "alone t x ?y" by (metis alone_first alone_refl)
    then show ?thesis using False by (intro exI[of _ ?y] exI[of _ ?e]) (simp add: sq_set_def)
  next
    case True
    let ?y = "sq_set t (QSearch d start (i + 1)) x"
    have "queue_move (\<lambda>_. None) None t (GoOnWith True) x = Some ?y"
      using less.prems(3) True bitmap_tests[of "sq_bitmap x" ?e] by (simp add: move_defs)
    then have go: "alone t x ?y" by (metis alone_first alone_refl)
    have "i \<noteq> e - start"
    proof
      assume "i = e - start"
      then have "?e = e mod sq_entries (sq_line x)" by simp
      then have "unat ?e = unat e" using less.prems(1) by (simp add: sq_n_def unat_mod)
      then show False using True less.prems(2) by simp
    qed
    then have pos: "0 < unat (e - start - i)" by (simp add: unat_gt_0)
    have d: "e - start - (i + 1) = e - start - i - 1" by (simp add: diff_diff_eq)
    have "unat (e - start - (i + 1)) < unat (e - start - i)" unfolding d unat_down[OF pos] using pos by linarith
    from less.hyps[OF this, of ?y] less.prems(1,2) obtain y e' where "alone t ?y y" "sq_threads y t = QPutElement d e'"
        "\<not> in_use (sq_bitmap x) (unat e')" "sq_pushed y = sq_pushed x" by (auto simp: sq_set_def sq_n_def)
    then show ?thesis using alone_trans[OF go] by blast
  qed
qed

lemma clear_exists:
  assumes "sq_inv N x" "t < N" "sq_threads x t = QSearch d start i"
  shows "\<exists>e :: u32. unat e < sq_n x \<and> \<not> in_use (sq_bitmap x) (unat e)"
proof -
  obtain es where view: "sq_view N x es" using assms(1) by (auto simp: sq_inv_def)
  have "0 < q_num N (sq_threads x) CSearch" by (rule class_has[OF assms(2)]) (simp add: assms(3))
  then have "0 < clear_entries (sq_n x) (sq_bitmap x)" using sq_viewD(4)[OF view] by (simp add: line_counts_def)
  then obtain k where k: "k < sq_n x" "\<not> in_use (sq_bitmap x) k"
    unfolding clear_entries_def by (metis (mono_tags, lifting) card.empty empty_Collect_eq less_numeral_extra(3))
  have "unat (of_nat k :: u32) = k" using k(1) sq_n_less[of x] by (simp add: unat_of_nat)
  then show ?thesis using k by (intro exI[of _ "of_nat k"]) simp
qed

text \<open>A call at rest: over, asleep among the waiters, or at its wake-up, which the waiting queue makes.\<close>

fun at_rest :: "'d queue_thread \<Rightarrow> bool" where
  "at_rest QIdle = True" | "at_rest (QPushQueued d) = True" | "at_rest QPopQueued = True" | "at_rest QPushWaking = True"
| "at_rest QPopWaking = True" | "at_rest s = False"

definition rests :: "nat \<Rightarrow> 'd queue_sys \<Rightarrow> bool" where
  "rests t x \<longleftrightarrow> (\<exists>y. alone t x y \<and> at_rest (sq_threads y t))"

definition leads :: "nat \<Rightarrow> nat \<Rightarrow> 'd queue_thread \<Rightarrow> bool" where
  "leads N t s \<longleftrightarrow> (\<forall>x. sq_inv N x \<longrightarrow> t < N \<longrightarrow> sq_threads x t = s \<longrightarrow> rests t x)"

lemma leads_rest: "at_rest s \<Longrightarrow> leads N t s"
  unfolding leads_def rests_def using alone_refl by blast

lemma leads_rests: "leads N t (sq_threads x t) \<Longrightarrow> sq_inv N x \<Longrightarrow> t < N \<Longrightarrow> rests t x"
  by (simp add: leads_def)

lemma leads_alone:
  assumes "\<And>x. sq_inv N x \<Longrightarrow> t < N \<Longrightarrow> sq_threads x t = s \<Longrightarrow> \<exists>y. alone t x y \<and> leads N t (sq_threads y t)"
  shows "leads N t s"
  unfolding leads_def
proof (intro allI impI)
  fix x assume x: "sq_inv N x" "t < N" "sq_threads x t = s"
  obtain y where y: "alone t x y" "leads N t (sq_threads y t)" using assms[OF x] by blast
  have "rests t y" by (rule leads_rests[OF y(2) alone_inv[OF y(1) x(1,2)] x(2)])
  then show "rests t x" using alone_trans[OF y(1)] by (auto simp: rests_def)
qed

text \<open>One move: into a state from which the rest follows; a halt the invariant excludes.\<close>

lemma leads_move:
  assumes "\<And>x. sq_inv N x \<Longrightarrow> t < N \<Longrightarrow> sq_threads x t = s \<Longrightarrow>
    \<exists>y. queue_move (\<lambda>_. None) None t (GoOnWith True) x = Some y \<and> (sq_threads y t = QHalted \<or> leads N t (sq_threads y t))"
  shows "leads N t s"
proof (rule leads_alone)
  fix x assume x: "sq_inv N x" "t < N" "sq_threads x t = s"
  obtain y where y: "queue_move (\<lambda>_. None) None t (GoOnWith True) x = Some y" "sq_threads y t = QHalted \<or> leads N t (sq_threads y t)"
    using assms[OF x] by blast
  have "sq_inv N y" by (rule inv_move[OF x(1,2) y(1)]) simp
  then have "sq_threads y t \<noteq> QHalted" using x(2) by (auto simp: sq_inv_def dest!: sq_viewD(5))
  then show "\<exists>y. alone t x y \<and> leads N t (sq_threads y t)" using y alone_first[OF y(1) alone_refl] by blast
qed

lemma leads_free: "leads N t QFreeCount" "leads N t (QFreeBit e)" "leads N t (QFree e)"
proof -
  show c: "leads N t QFreeCount"
    by (rule leads_move) (auto simp: move_defs sq_set_def put_line_def leads_rest)
  show b: "leads N t (QFreeBit e)" for e
    by (rule leads_move) (simp add: move_defs sq_set_def c)
  show "leads N t (QFree e)"
    by (rule leads_move) (simp add: move_defs sq_set_def b)
qed

lemma leads_head: "leads N t QHead"
proof (rule leads_alone)
  fix x assume x: "sq_inv N x" "t < N" "sq_threads x t = QHead"
  from pop_alone[OF x] obtain y e where "alone t x y" "sq_threads y t = QFree e" by blast
  then show "\<exists>y. alone t x y \<and> leads N t (sq_threads y t)" using leads_free(3) by (intro exI[of _ y]) simp
qed

lemma leads_pop:
  "leads N t (QPopStore q v nx d)" "leads N t (QGet q v nx)" "leads N t (QHeadRead q v)" "leads N t QPopWoken" "leads N t (QTake wait rcv)"
proof -
  note h = leads_head[of N t] leads_free[of N t] leads_rest[of _ N t]
  show s: "leads N t (QPopStore q v nx d)" for nx d
    by (rule leads_move) (simp add: move_defs sq_set_def h)
  show g: "leads N t (QGet q v nx)" for nx
    by (rule leads_move) (simp add: move_defs sq_set_def s)
  show "leads N t (QHeadRead q v)"
    by (rule leads_move) (simp add: move_defs sq_set_def g h)
  show "leads N t QPopWoken"
    by (rule leads_move) (auto simp: move_defs sq_set_def h put_line_def drop_receiver_def split: option.splits)
  have t: "leads N t (QTake wait True)" for wait
    by (rule leads_move) (simp add: move_defs sq_set_def h take_element_pass_def put_line_def drop_receiver_def)
  have "leads N t (QTake wait False)"
    by (rule leads_move) (simp add: move_defs sq_set_def h t take_element_pass_def put_line_def drop_receiver_def)
  then show "leads N t (QTake wait rcv)" using t by (cases rcv) simp_all
qed

text \<open>The count of an element read, and stored when nothing intervened.\<close>

lemma alone_count:
  assumes "sq_threads x t = QCount"
  shows "\<exists>y. alone t x y \<and> at_rest (sq_threads y t)"
proof -
  let ?q = "sq_line x" and ?v = "line_stores x"
  let ?nx = "sq_links x (unat (sq_tail ?q))"
  let ?a = "sq_set t (QCountRead ?q ?v) x"
  let ?b = "sq_set t (QCountStore ?q ?v ?nx) ?a"
  let ?y = "sq_set t (if snd (push_count ?nx ?q) then QPushWaking else QIdle) (put_line (fst (push_count ?nx ?q)) ?b)"
  have "queue_move (\<lambda>_. None) None t (GoOnWith True) x = Some ?a" using assms by (simp add: move_defs)
  moreover have "queue_move (\<lambda>_. None) None t (GoOnWith True) ?a = Some ?b" by (simp add: move_defs sq_set_def)
  moreover have "queue_move (\<lambda>_. None) None t (GoOnWith True) ?b = Some ?y" by (simp add: move_defs sq_set_def)
  ultimately have "alone t x ?y" by (metis alone_first alone_refl)
  then show ?thesis by (intro exI[of _ ?y]) (simp add: sq_set_def)
qed

lemma leads_count: "leads N t QCount" "leads N t (QCountStore q v nx)" "leads N t (QCountRead q v)"
proof -
  show c: "leads N t QCount" unfolding leads_def rests_def using alone_count by blast
  show s: "leads N t (QCountStore q v nx)" for nx
    by (rule leads_move) (simp add: move_defs sq_set_def c leads_rest)
  show "leads N t (QCountRead q v)"
    by (rule leads_move) (simp add: move_defs sq_set_def s)
qed

lemma leads_tail: "leads N t (QTail d e)"
proof (rule leads_alone)
  fix x assume x: "sq_inv N x" "t < N" "sq_threads x t = QTail d e"
  from push_alone[OF x] obtain y where "alone t x y" "sq_threads y t = QCount" by blast
  then show "\<exists>y. alone t x y \<and> leads N t (sq_threads y t)" using leads_count(1) by (intro exI[of _ y]) simp
qed

lemma leads_repair: "leads N t (QRepair r)" "leads N t (QRepairStore r q v nx)" "leads N t (QRepairRead r q v)"
proof -
  have a: "leads N t (after_repair r)" by (cases r) (simp_all add: after_repair_def leads_tail leads_head)
  show r: "leads N t (QRepair r)"
  proof (rule leads_alone)
    fix x assume x: "sq_inv N x" "t < N" "sq_threads x t = QRepair r"
    from alone_repair[OF x] obtain y where "alone t x y" "sq_threads y t = after_repair r" by blast
    then show "\<exists>y. alone t x y \<and> leads N t (sq_threads y t)" using a by (intro exI[of _ y]) simp
  qed
  show s: "leads N t (QRepairStore r q v nx)" for nx
    by (rule leads_move) (simp add: move_defs sq_set_def r)
  show "leads N t (QRepairRead r q v)"
    by (rule leads_move) (simp add: move_defs sq_set_def s a)
qed

lemma leads_push:
  "leads N t (QLink d e tail nx v)" "leads N t (QCheck d e tail nx v)" "leads N t (QReserve d e tail)" "leads N t (QPutLink d e)"
  "leads N t (QPutElement d e)"
proof -
  show l: "leads N t (QLink d e tail nx v)" for nx v
    by (rule leads_move) (simp add: move_defs sq_set_def leads_tail leads_count)
  show c: "leads N t (QCheck d e tail nx v)" for nx v
    by (rule leads_move) (simp add: move_defs sq_set_def leads_tail leads_repair l)
  show "leads N t (QReserve d e tail)"
    by (rule leads_move) (simp add: move_defs sq_set_def c)
  show p: "leads N t (QPutLink d e)"
    by (rule leads_move) (simp add: move_defs sq_set_def leads_tail)
  show "leads N t (QPutElement d e)"
    by (rule leads_move) (simp add: move_defs sq_set_def p)
qed

lemma leads_search: "leads N t (QSearch d start i)"
proof (rule leads_alone)
  fix x assume x: "sq_inv N x" "t < N" "sq_threads x t = QSearch d start i"
  obtain e :: u32 where e: "unat e < sq_n x" "\<not> in_use (sq_bitmap x) (unat e)" using clear_exists[OF x] by blast
  from search_alone[OF e x(3)] obtain y e' where "alone t x y" "sq_threads y t = QPutElement d e'" by blast
  then show "\<exists>y. alone t x y \<and> leads N t (sq_threads y t)" using leads_push(5) by (intro exI[of _ y]) simp
qed

lemma leads_allocate: "leads N t (QPushWoken d)" "leads N t (QAllocate d wait rcv)"
proof -
  note h = leads_search[of N t] leads_rest[of _ N t]
  show "leads N t (QPushWoken d)"
    by (rule leads_move) (auto simp: move_defs sq_set_def h put_line_def drop_receiver_def split: option.splits)
  have t: "leads N t (QAllocate d wait True)" for wait
    by (rule leads_move) (simp add: move_defs sq_set_def h allocate_entry_pass_def put_line_def drop_receiver_def)
  have "leads N t (QAllocate d wait False)"
    by (rule leads_move) (simp add: move_defs sq_set_def h t allocate_entry_pass_def put_line_def drop_receiver_def)
  then show "leads N t (QAllocate d wait rcv)" using t by (cases rcv) simp_all
qed

lemma all_rest:
  assumes "sq_inv N x" "t < N" "\<not> queue_halted (sq_threads x t)"
  shows "\<exists>y. alone t x y \<and> at_rest (sq_threads y t)"
proof -
  have "leads N t (sq_threads x t)"
    using assms(3)
    by (cases "sq_threads x t")
      (simp_all add: leads_rest leads_free leads_head leads_pop leads_count leads_tail leads_repair leads_push leads_search leads_allocate)
  from leads_rests[OF this assms(1,2)] show ?thesis by (simp add: rests_def)
qed

text \<open>The wake-up has a thread to wake.\<close>

lemma waker_wakes:
  assumes "sq_inv N x" "t < N" "sq_threads x t = QPushWaking \<or> sq_threads x t = QPopWaking"
  shows "\<exists>u < N. \<exists>y. queue_move caller notifiers t (WakeThread u) x = Some y \<and> sq_threads y t = QIdle"
  using assms(3)
proof
  assume w: "sq_threads x t = QPushWaking"
  obtain u where "u < N" "sq_threads x u = QPopQueued \<or> sq_threads x u = QRefused QPopQueued"
    using waker_has_sleeper(1)[OF assms(1,2) w] by blast
  then show ?thesis using w by (intro exI[of _ u]) (auto simp: queue_move_def queue_waking_def sq_set_def)
next
  assume w: "sq_threads x t = QPopWaking"
  obtain u d where "u < N" "sq_threads x u = QPushQueued d \<or> sq_threads x u = QRefused (QPushQueued d)"
    using waker_has_sleeper(2)[OF assms(1,2) w] by blast
  then show ?thesis using w by (intro exI[of _ u]) (auto simp: queue_move_def queue_waking_def sq_set_def)
qed

lemma rest_cases:
  assumes "at_rest s"
  shows "s = QIdle \<or> s = QPopQueued \<or> (\<exists>d. s = QPushQueued d) \<or> s = QPushWaking \<or> s = QPopWaking"
  using assms by (cases s) simp_all

text \<open>C23: None of the loops over shared memory needs another thread: from every reachable state a thread that goes on alone, with its
  conditional stores let through, finishes each of them in finitely many accesses.  A pusher with a unit finds an entry that is
  clear in the bitmap, a pusher with its entry written links its element, a lagging tail repaired on the way, and a popper with a
  unit takes an element.  From wherever in its call a thread stands that has not halted, it comes to the end of the call, to a sleep among
  the waiters, or to a wake-up for which there is a thread to wake and which ends the call.\<close>

theorem s2_queue_progress:
  assumes "(s2_queue_step N caller notifiers)\<^sup>*\<^sup>* x0 x" "queue_fresh x0" "t < N"
  shows "(\<forall>d start i. sq_threads x t = QSearch d start i \<longrightarrow>
      (\<exists>m y e. queue_run caller notifiers (keep_going t m) x = Some y \<and> sq_threads y t = QPutElement d e \<and> \<not> in_use (sq_bitmap x) (unat e))) \<and>
    (\<forall>d e. sq_threads x t = QTail d e \<longrightarrow>
      (\<exists>m y. queue_run caller notifiers (keep_going t m) x = Some y \<and> sq_threads y t = QCount \<and> sq_pushed y = sq_pushed x @ [d])) \<and>
    (sq_threads x t = QHead \<longrightarrow>
      (\<exists>m y e. queue_run caller notifiers (keep_going t m) x = Some y \<and> sq_threads y t = QFree e \<and> length (sq_popped y) = Suc (length (sq_popped x)))) \<and>
    (\<not> queue_halted (sq_threads x t) \<longrightarrow>
      (\<exists>m y. queue_run caller notifiers (keep_going t m) x = Some y \<and>
        (sq_threads y t = QIdle \<or> sq_threads y t = QPopQueued \<or> (\<exists>d. sq_threads y t = QPushQueued d) \<or>
         (\<exists>u < N. \<exists>z. queue_move caller notifiers t (WakeThread u) y = Some z \<and> sq_threads z t = QIdle))))"
proof -
  note inv = sq_reachable_inv[OF assms(1,2)]
  note any = run_any_caller[of "\<lambda>_. None" None t _ x caller notifiers]
  have search: "\<exists>m y e. queue_run caller notifiers (keep_going t m) x = Some y \<and> sq_threads y t = QPutElement d e \<and> \<not> in_use (sq_bitmap x) (unat e)"
    if s: "sq_threads x t = QSearch d start i" for d start i
  proof -
    obtain e :: u32 where e: "unat e < sq_n x" "\<not> in_use (sq_bitmap x) (unat e)" using clear_exists[OF inv assms(3) s] by blast
    show ?thesis using search_alone[OF e s] unfolding alone_def any by blast
  qed
  have link: "\<exists>m y. queue_run caller notifiers (keep_going t m) x = Some y \<and> sq_threads y t = QCount \<and> sq_pushed y = sq_pushed x @ [d]"
    if "sq_threads x t = QTail d e" for d e
    using push_alone[OF inv assms(3) that] unfolding alone_def any by blast
  have pop: "\<exists>m y e. queue_run caller notifiers (keep_going t m) x = Some y \<and> sq_threads y t = QFree e \<and> length (sq_popped y) = Suc (length (sq_popped x))"
    if "sq_threads x t = QHead"
    using pop_alone[OF inv assms(3) that] unfolding alone_def any by blast
  have rest: "\<exists>m y. queue_run caller notifiers (keep_going t m) x = Some y \<and>
      (sq_threads y t = QIdle \<or> sq_threads y t = QPopQueued \<or> (\<exists>d. sq_threads y t = QPushQueued d) \<or>
       (\<exists>u < N. \<exists>z. queue_move caller notifiers t (WakeThread u) y = Some z \<and> sq_threads z t = QIdle))"
    if going: "\<not> queue_halted (sq_threads x t)"
  proof -
    obtain y where y: "alone t x y" "at_rest (sq_threads y t)" using all_rest[OF inv assms(3) going] by blast
    have "sq_threads y t = QIdle \<or> sq_threads y t = QPopQueued \<or> (\<exists>d. sq_threads y t = QPushQueued d) \<or>
       (\<exists>u < N. \<exists>z. queue_move caller notifiers t (WakeThread u) y = Some z \<and> sq_threads z t = QIdle)"
      using rest_cases[OF y(2)] waker_wakes[OF alone_inv[OF y(1) inv assms(3)] assms(3), of caller notifiers] by blast
    then show ?thesis using y(1) unfolding alone_def any by blast
  qed
  show ?thesis using search link pop rest by blast
qed

theorem s2_queue_progress_witness:
  "\<exists>x m y. (s2_queue_step 2 queue_caller queue_notifiers)\<^sup>*\<^sup>* example_queue x \<and>
    queue_run queue_caller queue_notifiers (keep_going 0 m) x = Some y \<and> sq_pushed y = [7]"
proof -
  let ?acts = "(0, StartPush 7 True) # keep_going 0 4"
  have "map_option (\<lambda>x. (sq_threads x 0, sq_pushed x)) (queue_run queue_caller queue_notifiers ?acts example_queue) = Some (QTail 7 1, [])" by code_simp
  then obtain x where x: "queue_run queue_caller queue_notifiers ?acts example_queue = Some x" "sq_threads x 0 = QTail 7 1" "sq_pushed x = []" by auto
  have r: "(s2_queue_step 2 queue_caller queue_notifiers)\<^sup>*\<^sup>* example_queue x" by (rule queue_run_reaches[OF x(1)]) (simp add: keep_going_def)
  obtain m y where "queue_run queue_caller queue_notifiers (keep_going 0 m) x = Some y" "sq_pushed y = sq_pushed x @ [7]"
    using s2_queue_progress[OF r example_fresh, of 0] x(2) by (meson zero_less_numeral)
  then show ?thesis using r x(3) by auto
qed

section \<open>A receiver lost\<close>

text \<open>Two poppers on an empty queue for one waiter: the first has its receiver when the second takes the place.\<close>

definition crowded_acts :: "(nat \<times> nat queue_act) list" where
  "crowded_acts = (0, StartPop True) # keep_going 0 1 @ (1, StartPop True) # keep_going 1 2"

lemma crowded_outcome:
  "map_option (\<lambda>x. (sq_threads x 0, sq_receivers x 0, take_element_pass True True (sq_line x)))
     (queue_run queue_caller queue_notifiers crowded_acts example_queue) = Some (QTake True True, 1, Return (Inl S2_NOMEM))"
  by code_simp

text \<open>A call that is refused for want of a place among the waiters may have allocated a signal receiver, and does not free it:
  there is a reachable state in which a popper with a receiver finds the waiters full, returns \<open>S2_NOMEM\<close> and still has the receiver,
  which no later step of its call will free.\<close>

theorem s2_queue_leaks_receiver:
  "\<exists>x y. (s2_queue_step 2 queue_caller queue_notifiers)\<^sup>*\<^sup>* example_queue x \<and> sq_threads x 0 = QTake True True \<and>
    take_element_pass True True (sq_line x) = Return (Inl S2_NOMEM) \<and>
    queue_move queue_caller queue_notifiers 0 (GoOnWith choice) x = Some y \<and> sq_threads y 0 = QIdle \<and> sq_receivers y 0 = 1"
proof -
  obtain x where x: "queue_run queue_caller queue_notifiers crowded_acts example_queue = Some x" "sq_threads x 0 = QTake True True"
      "sq_receivers x 0 = 1" "take_element_pass True True (sq_line x) = Return (Inl S2_NOMEM)"
    using crowded_outcome by auto
  have r: "(s2_queue_step 2 queue_caller queue_notifiers)\<^sup>*\<^sup>* example_queue x"
    by (rule queue_run_reaches[OF x(1)]) (auto simp: crowded_acts_def keep_going_def)
  have "queue_move queue_caller queue_notifiers 0 (GoOnWith choice) x = Some (sq_set 0 QIdle x)" using x(2,4) by (simp add: move_defs)
  then show ?thesis using r x(2-4) by (intro exI[of _ x] exI[of _ "sq_set 0 QIdle x"]) (simp add: sq_set_def)
qed

end
