(* ===== verification/Sync2_Cond.thy ===== *)
theory Sync2_Cond
  imports Sync2_Mutex
begin

text \<open>
  \<open>sdk/libsync2/src/cond.c\<close> and its entry points: a condition variable used with a mutex of \<open>Sync2_Mutex\<close>.  Threads
  that share both are a step relation which composes the steps of the mutex with those of wait and signal, and an
  invariant over that of the mutex.
\<close>

section \<open>The line\<close>

record s2_cond =
  c_signalled :: u16
  c_waiters :: u16
  c_max_waiters :: u16
  c_thread_types :: u16

section \<open>Wait\<close>

text \<open>The checks before the loop; the caller must own the condition's mutex.\<close>

definition cond_wait_check :: "s2_caller option \<Rightarrow> s2_notifier list option \<Rightarrow> s2_cond \<Rightarrow> s2_mutex \<Rightarrow> s2_error + unit" where
  "cond_wait_check caller notifiers c m =
     (case check_caller (c_thread_types c) caller notifiers True of
        Inl e \<Rightarrow> Inl e
      | Inr _ \<Rightarrow>
          if m_flags m AND HELD = 0 then Inl S2_STAT
          else if \<not> owned_by m (the caller) then Inl S2_PERM
          else Inr ())"

text \<open>A refused caller frees its receiver; \<open>cond_wait_loop\<close> also tells whether it still has one.\<close>

definition cond_enqueue_pass :: "s2_cond \<Rightarrow> (s2_cond, s2_error + unit) decision" where
  "cond_enqueue_pass c =
     (if c_waiters c = c_max_waiters c then Return (Inl S2_NOMEM)
      else Store (c\<lparr>c_waiters := c_waiters c + 1\<rparr>) (Inr ()))"

datatype cond_outcome = CondSpins | CondFails s2_error | CondAllocFails u32 | CondQueued s2_cond | CondHalts

definition cond_wait_loop ::
    "s2_caller option \<Rightarrow> s2_notifier list option \<Rightarrow> u32 \<Rightarrow> u32 \<Rightarrow> s2_cond \<Rightarrow> s2_mutex \<Rightarrow> (s2_cond \<times> bool) list \<Rightarrow> cond_outcome" where
  "cond_wait_loop caller notifiers alloc free c0 m answers =
     (case cond_wait_check caller notifiers c0 m of
        Inl e \<Rightarrow> CondFails e
      | Inr _ \<Rightarrow>
          if alloc \<noteq> 0 then CondAllocFails alloc
          else (case llsc_loop cond_enqueue_pass answers of
                  Spinning \<Rightarrow> CondSpins
                | Returned (Inl e) \<Rightarrow> if free \<noteq> 0 then CondHalts else CondFails e
                | Returned (Inr _) \<Rightarrow> CondSpins
                | Stored c c' r \<Rightarrow> CondQueued c'))"

definition cellSync2CondWait ::
    "u64 \<Rightarrow> s2_config option \<Rightarrow> u32 \<Rightarrow> u32 \<Rightarrow> u32 \<Rightarrow> s2_cond \<Rightarrow> s2_mutex \<Rightarrow> (s2_cond \<times> bool) list \<Rightarrow> cond_outcome" where
  "cellSync2CondWait ea config dmaTag alloc free c0 m answers =
     (case s2_check_args ea config dmaTag of
        Inl e \<Rightarrow> CondFails e
      | Inr _ \<Rightarrow> cond_wait_loop (callerThreadType (the config)) (notifierTable (the config)) alloc free c0 m answers)"

definition cond_leave_decision :: "s2_cond \<Rightarrow> (s2_cond, unit) decision" where
  "cond_leave_decision c = Store (c\<lparr>c_signalled := c_signalled c - 1, c_waiters := c_waiters c - 1\<rparr>) ()"

section \<open>Signal\<close>

definition wake_one_pass :: "s2_cond \<Rightarrow> (s2_cond, s2_error + unit) decision" where
  "wake_one_pass c =
     (if c_signalled c = c_waiters c then Return (Inl S2_AGAIN)
      else Store (c\<lparr>c_signalled := c_signalled c + 1\<rparr>) (Inr ()))"

text \<open>The loop of signal and signal-all on a line nobody else stores to, with the number of wake-ups it makes.\<close>

function cond_signal_loop :: "bool \<Rightarrow> s2_cond \<Rightarrow> s2_cond \<times> nat" where
  "cond_signal_loop all c =
     (case wake_one_pass c of
        Store c' _ \<Rightarrow> if all then (case cond_signal_loop all c' of (c'', k) \<Rightarrow> (c'', Suc k)) else (c', 1)
      | _ \<Rightarrow> (c, 0))"
  by pat_completeness auto

termination
proof (relation "measure (\<lambda>(all, c). unat (c_waiters c - c_signalled c))")
  fix all c c' and r :: "s2_error + unit"
  assume "wake_one_pass c = Store c' r"
  then have ne: "c_signalled c \<noteq> c_waiters c" and c': "c' = c\<lparr>c_signalled := c_signalled c + 1\<rparr>"
    by (auto simp: wake_one_pass_def split: if_splits)
  have pos: "0 < unat (c_waiters c - c_signalled c)" using ne by (simp add: unat_gt_0)
  have "c_waiters c' - c_signalled c' = c_waiters c - c_signalled c - 1" by (simp add: c' diff_diff_eq)
  then show "((all, c'), all, c) \<in> measure (\<lambda>(all, c). unat (c_waiters c - c_signalled c))"
    using unat_down[OF pos] pos by simp
qed simp

declare cond_signal_loop.simps [simp del]

definition sync2_cond_signal :: "bool \<Rightarrow> s2_caller option \<Rightarrow> s2_notifier list option \<Rightarrow> s2_cond \<Rightarrow> s2_error + s2_cond \<times> nat" where
  "sync2_cond_signal all caller notifiers c =
     (case check_caller (c_thread_types c) caller notifiers False of
        Inl e \<Rightarrow> Inl e
      | Inr _ \<Rightarrow> Inr (cond_signal_loop all c))"

definition cond_signal_entry :: "bool \<Rightarrow> u64 \<Rightarrow> s2_config option \<Rightarrow> u32 \<Rightarrow> s2_cond \<Rightarrow> s2_error + s2_cond \<times> nat" where
  "cond_signal_entry all ea config dmaTag c =
     (case s2_check_args ea config dmaTag of
        Inl e \<Rightarrow> Inl e
      | Inr _ \<Rightarrow> sync2_cond_signal all (callerThreadType (the config)) (notifierTable (the config)) c)"

definition cellSync2CondSignal :: "u64 \<Rightarrow> s2_config option \<Rightarrow> u32 \<Rightarrow> s2_cond \<Rightarrow> s2_error + s2_cond \<times> nat" where
  "cellSync2CondSignal = cond_signal_entry False"

definition cellSync2CondSignalAll :: "u64 \<Rightarrow> s2_config option \<Rightarrow> u32 \<Rightarrow> s2_cond \<Rightarrow> s2_error + s2_cond \<times> nat" where
  "cellSync2CondSignalAll = cond_signal_entry True"

section \<open>Threads sharing a condition and its mutex\<close>

text \<open>
  Where a thread stands with the condition: outside; counted as a waiter and about to unlock the mutex; unlocked, with
  the depth it dropped, and entering the waiting queue or blocked there; taking the mutex back; in the loop of a signal, or
  having to wake the waiter it counted; and with its processor halted, because the unlock or the lock inside a wait failed.
  The flag of a waiter says whether its wake-up has been.
\<close>

datatype cond_thread = CIdle | CRegistered bool | CUnlocked bool u32 | CRelock u32 | CSignalling bool | CWaking bool
  | CStuck bool | CHalted

fun cond_unwoken :: "cond_thread \<Rightarrow> bool" where
  "cond_unwoken (CRegistered w) = (\<not> w)" | "cond_unwoken (CUnlocked w d) = (\<not> w)" | "cond_unwoken (CStuck w) = (\<not> w)" | "cond_unwoken s = False"

fun cond_woken :: "cond_thread \<Rightarrow> bool" where
  "cond_woken (CRegistered w) = w" | "cond_woken (CUnlocked w d) = w" | "cond_woken (CStuck w) = w" | "cond_woken s = False"

fun cond_waking :: "cond_thread \<Rightarrow> bool" where "cond_waking (CWaking a) = True" | "cond_waking s = False"

fun wake_waiter :: "cond_thread \<Rightarrow> cond_thread" where
  "wake_waiter (CRegistered w) = CRegistered True" | "wake_waiter (CUnlocked w d) = CUnlocked True d"
| "wake_waiter (CStuck w) = CStuck True" | "wake_waiter s = s"

text \<open>The steps of the mutex a thread can make from each place: any outside, the wake-up of an unlock, or those of one lock.\<close>

fun mutex_allows :: "cond_thread \<Rightarrow> s2_thread \<Rightarrow> s2_thread \<Rightarrow> bool" where
  "mutex_allows CIdle old new = True"
| "mutex_allows (CUnlocked w d) old new = (old = MWaking \<and> new = MIdle)"
| "mutex_allows (CRelock d) old new = (new \<in> {MQueued d, MGranted d, MTaking d, MOwner d})"
| "mutex_allows s old new = False"

text \<open>Each thread's depth at its last call of wait is kept as history.\<close>

record cond_sys =
  cs_line :: s2_cond
  cs_mutex :: s2_mutex
  cs_owners :: "nat \<Rightarrow> s2_thread"
  cs_threads :: "nat \<Rightarrow> cond_thread"
  cs_depth :: "nat \<Rightarrow> u32"

definition cs_set :: "nat \<Rightarrow> cond_thread \<Rightarrow> cond_sys \<Rightarrow> cond_sys" where
  "cs_set t s x = x\<lparr>cs_threads := (cs_threads x)(t := s)\<rparr>"

inductive s2_cond_step :: "nat \<Rightarrow> (nat \<Rightarrow> s2_caller) \<Rightarrow> s2_notifier list \<Rightarrow> cond_sys \<Rightarrow> cond_sys \<Rightarrow> bool" for N caller nts where
  on_mutex: "s2_mutex_step N caller (cs_mutex x, cs_owners x) (m', thr') \<Longrightarrow>
    (\<forall>u < N. thr' u \<noteq> cs_owners x u \<longrightarrow> mutex_allows (cs_threads x u) (cs_owners x u) (thr' u)) \<Longrightarrow>
    s2_cond_step N caller nts x (x\<lparr>cs_mutex := m', cs_owners := thr'\<rparr>)"
| enqueue: "t < N \<Longrightarrow> cs_threads x t = CIdle \<Longrightarrow> cs_owners x t = MIdle \<or> cs_owners x t = MOwner d \<Longrightarrow>
    cond_wait_check (Some (caller t)) (Some nts) (cs_line x) (cs_mutex x) = Inr () \<Longrightarrow>
    cond_enqueue_pass (cs_line x) = Store c' (Inr ()) \<Longrightarrow>
    s2_cond_step N caller nts x (cs_set t (CRegistered False) (x\<lparr>cs_line := c', cs_depth := (cs_depth x)(t := m_count (cs_mutex x))\<rparr>))"
| unlock: "t < N \<Longrightarrow> cs_threads x t = CRegistered w \<Longrightarrow>
    mutex_unlock_pass (Some (caller t)) nts True checked (cs_mutex x) = Store m' (Inr (handOver, dropped)) \<Longrightarrow>
    s2_cond_step N caller nts x (cs_set t (CUnlocked w dropped)
      (x\<lparr>cs_mutex := m', cs_owners := (cs_owners x)(t := if handOver then MWaking else MIdle)\<rparr>))"
| unlock_fails: "t < N \<Longrightarrow> cs_threads x t = CRegistered w \<Longrightarrow>
    mutex_unlock_pass (Some (caller t)) nts True checked (cs_mutex x) = Return (Inl e) \<Longrightarrow>
    s2_cond_step N caller nts x (cs_set t (CStuck w) x)"
| leave: "t < N \<Longrightarrow> cs_threads x t = CUnlocked True d \<Longrightarrow> cs_owners x t = MIdle \<Longrightarrow> cond_leave_decision (cs_line x) = Store c' () \<Longrightarrow>
    s2_cond_step N caller nts x (cs_set t (CRelock d) (x\<lparr>cs_line := c'\<rparr>))"
| lock_fails: "t < N \<Longrightarrow> cs_threads x t = CRelock d \<Longrightarrow> cs_owners x t = MIdle \<Longrightarrow>
    mutex_lock_pass (caller t) True d first rcv (cs_mutex x) = Return (Inl e) \<Longrightarrow>
    s2_cond_step N caller nts x (cs_set t CHalted x)"
| finish: "t < N \<Longrightarrow> cs_threads x t = CRelock d \<Longrightarrow> cs_owners x t = MOwner d \<Longrightarrow>
    s2_cond_step N caller nts x (cs_set t CIdle x)"
| signal: "t < N \<Longrightarrow> cs_threads x t = CIdle \<Longrightarrow> cs_owners x t = MIdle \<or> cs_owners x t = MOwner d \<Longrightarrow>
    check_caller (c_thread_types (cs_line x)) (Some (caller t)) (Some nts) False = Inr () \<Longrightarrow>
    s2_cond_step N caller nts x (cs_set t (CSignalling all) x)"
| nobody: "t < N \<Longrightarrow> cs_threads x t = CSignalling all \<Longrightarrow> wake_one_pass (cs_line x) = Return (Inl S2_AGAIN) \<Longrightarrow>
    s2_cond_step N caller nts x (cs_set t CIdle x)"
| somebody: "t < N \<Longrightarrow> cs_threads x t = CSignalling all \<Longrightarrow> wake_one_pass (cs_line x) = Store c' (Inr ()) \<Longrightarrow>
    s2_cond_step N caller nts x (cs_set t (CWaking all) (x\<lparr>cs_line := c'\<rparr>))"
| wake: "t < N \<Longrightarrow> u < N \<Longrightarrow> cs_threads x t = CWaking all \<Longrightarrow> cond_unwoken (cs_threads x u) \<Longrightarrow>
    s2_cond_step N caller nts x (cs_set t (if all then CSignalling all else CIdle) (cs_set u (wake_waiter (cs_threads x u)) x))"

end
