(* ===== verification/Sync2_Cond_Inv.thy ===== *)
theory Sync2_Cond_Inv
  imports Sync2_Cond
begin

text \<open>
  The invariant of the threads that share a condition variable and its mutex: that of the mutex, what the two counts of
  the condition's line count, and where a thread that waits stands with the mutex.
\<close>

fun cond_view :: "cond_thread \<Rightarrow> s2_thread \<Rightarrow> u32 \<Rightarrow> bool" where
  "cond_view CIdle s k = True"
| "cond_view (CRegistered w) s k = (s = MOwner k \<and> k \<noteq> 0)"
| "cond_view (CUnlocked w d) s k = (d = k \<and> k \<noteq> 0 \<and> s \<in> {MIdle, MWaking})"
| "cond_view (CRelock d) s k = (d = k \<and> k \<noteq> 0 \<and> s \<in> {MIdle, MQueued d, MGranted d, MTaking d, MOwner d})"
| "cond_view (CSignalling a) s k = (s = MIdle \<or> (\<exists>d. s = MOwner d))"
| "cond_view (CWaking a) s k = (s = MIdle \<or> (\<exists>d. s = MOwner d))"
| "cond_view (CStuck w) s k = (s = MOwner k \<and> k \<noteq> 0)"
| "cond_view CHalted s k = (s = MIdle)"

definition cond_counts :: "nat \<Rightarrow> s2_cond \<Rightarrow> (nat \<Rightarrow> cond_thread) \<Rightarrow> bool" where
  "cond_counts N c thr \<longleftrightarrow>
     unat (c_waiters c) = number N cond_unwoken thr + number N cond_woken thr \<and>
     unat (c_signalled c) = number N cond_woken thr + number N cond_waking thr \<and>
     number N cond_waking thr \<le> number N cond_unwoken thr \<and>
     unat (c_waiters c) \<le> unat (c_max_waiters c)"

definition cond_inv :: "nat \<Rightarrow> (nat \<Rightarrow> s2_caller) \<Rightarrow> cond_sys \<Rightarrow> bool" where
  "cond_inv N caller x \<longleftrightarrow> s2_mutex_inv N caller (cs_mutex x, cs_owners x) \<and> cond_counts N (cs_line x) (cs_threads x) \<and>
     (\<forall>t < N. cond_view (cs_threads x t) (cs_owners x t) (cs_depth x t))"

lemma cond_invD:
  assumes "cond_inv N caller x"
  shows "s2_mutex_inv N caller (cs_mutex x, cs_owners x)" "cond_counts N (cs_line x) (cs_threads x)"
    "t < N \<Longrightarrow> cond_view (cs_threads x t) (cs_owners x t) (cs_depth x t)"
  using assms by (simp_all add: cond_inv_def)

section \<open>The counts\<close>

lemmas cond_numbers = number_update[where P = cond_unwoken] number_update[where P = cond_woken] number_update[where P = cond_waking]

text \<open>A thread moves between places that count alike.\<close>

lemma cond_counts_same:
  assumes "cond_counts N c thr" "t < N" "cond_unwoken s = cond_unwoken (thr t)" "cond_woken s = cond_woken (thr t)"
    "cond_waking s = cond_waking (thr t)"
  shows "cond_counts N c (thr(t := s))"
  using assms cond_numbers[OF assms(2), of thr s] by (auto simp: cond_counts_def split: if_splits)

lemma cond_counts_enqueue:
  assumes "cond_counts N c thr" "t < N" "thr t = CIdle" "cond_enqueue_pass c = Store c' (Inr ())"
  shows "cond_counts N c' (thr(t := CRegistered False))"
proof -
  have c': "c' = c\<lparr>c_waiters := c_waiters c + 1\<rparr>" and ne: "c_waiters c \<noteq> c_max_waiters c"
    using assms(4) by (auto simp: cond_enqueue_pass_def split: if_splits)
  have lt: "unat (c_waiters c) < unat (c_max_waiters c)"
    using ne assms(1) by (metis cond_counts_def nat_less_le word_unat_eq_iff)
  show ?thesis
    using assms(1,3) lt u16_up[OF lt] cond_numbers[OF assms(2), of thr "CRegistered False"] by (simp add: cond_counts_def c')
qed

lemma cond_counts_leave:
  assumes "cond_counts N c thr" "t < N" "thr t = CUnlocked True d" "cond_leave_decision c = Store c' ()"
  shows "cond_counts N c' (thr(t := CRelock d))"
proof -
  have c': "c' = c\<lparr>c_signalled := c_signalled c - 1, c_waiters := c_waiters c - 1\<rparr>"
    using assms(4) by (simp add: cond_leave_decision_def)
  have w: "0 < number N cond_woken thr" by (rule number_pos[of t N cond_woken thr, OF assms(2)]) (simp add: assms(3))
  then have p: "0 < unat (c_signalled c)" "0 < unat (c_waiters c)" using assms(1) by (simp_all add: cond_counts_def)
  note n = cond_numbers[OF assms(2), of thr "CRelock d"]
  have u: "number N cond_unwoken (thr(t := CRelock d)) = number N cond_unwoken thr"
    "number N cond_woken (thr(t := CRelock d)) + 1 = number N cond_woken thr"
    "number N cond_waking (thr(t := CRelock d)) = number N cond_waking thr" using n assms(3) by simp_all
  show ?thesis
    using assms(1) u unat_down[OF p(1)] unat_down[OF p(2)] unfolding cond_counts_def c' by (auto simp: le_diff_conv)
qed

lemma cond_counts_somebody:
  assumes "cond_counts N c thr" "t < N" "thr t = CSignalling all" "wake_one_pass c = Store c' (Inr ())"
  shows "cond_counts N c' (thr(t := CWaking all))"
proof -
  have c': "c' = c\<lparr>c_signalled := c_signalled c + 1\<rparr>" and ne: "c_signalled c \<noteq> c_waiters c"
    using assms(4) by (auto simp: wake_one_pass_def split: if_splits)
  have "unat (c_signalled c) \<noteq> unat (c_waiters c)" using ne by (simp add: word_unat_eq_iff)
  moreover have "unat (c_signalled c) \<le> unat (c_waiters c)" using assms(1) by (simp add: cond_counts_def)
  ultimately have lt: "unat (c_signalled c) < unat (c_waiters c)" by simp
  have less: "number N cond_waking thr < number N cond_unwoken thr" using lt assms(1) by (simp add: cond_counts_def)
  show ?thesis
    using assms(1,3) less u16_up[OF lt] cond_numbers[OF assms(2), of thr "CWaking all"] by (simp add: cond_counts_def c')
qed

lemma wake_waiter_woken: "cond_unwoken s \<Longrightarrow> cond_woken (wake_waiter s) \<and> \<not> cond_unwoken (wake_waiter s) \<and> \<not> cond_waking (wake_waiter s)
    \<and> \<not> cond_woken s \<and> \<not> cond_waking s"
  by (cases s) auto

lemma cond_counts_wake:
  assumes "cond_counts N c thr" "t < N" "u < N" "thr t = CWaking all" "cond_unwoken (thr u)" "s = CSignalling all \<or> s = CIdle"
  shows "cond_counts N c (thr(u := wake_waiter (thr u), t := s))"
proof -
  have tu: "t \<noteq> u" using assms(4,5) by auto
  note n = cond_numbers[OF assms(3), of thr "wake_waiter (thr u)"] cond_numbers[OF assms(2), of "thr(u := wake_waiter (thr u))" s]
  have s: "\<not> cond_unwoken s" "\<not> cond_woken s" "\<not> cond_waking s" using assms(6) by auto
  note w = wake_waiter_woken[OF assms(5)]
  have "number N cond_unwoken (thr(u := wake_waiter (thr u), t := s)) + 1 = number N cond_unwoken thr"
    "number N cond_woken (thr(u := wake_waiter (thr u), t := s)) = number N cond_woken thr + 1"
    "number N cond_waking (thr(u := wake_waiter (thr u), t := s)) + 1 = number N cond_waking thr"
    using n s w tu assms(4,5) by simp_all
  then show ?thesis using assms(1) unfolding cond_counts_def by linarith
qed

section \<open>The steps\<close>

text \<open>A step that leaves the mutex alone.\<close>

lemma cond_inv_set:
  assumes "cond_inv N caller x" "cond_counts N c ((cs_threads x)(t := s))" "t < N" "cond_view s (cs_owners x t) (cs_depth x t)"
  shows "cond_inv N caller (cs_set t s (x\<lparr>cs_line := c\<rparr>))"
  using assms by (auto simp: cond_inv_def cs_set_def)

lemma cond_inv_mutex:
  assumes "cond_inv N caller x" "distinct_callers N caller" "s2_mutex_step N caller (cs_mutex x, cs_owners x) (m', thr')"
    "\<forall>u < N. thr' u \<noteq> cs_owners x u \<longrightarrow> mutex_allows (cs_threads x u) (cs_owners x u) (thr' u)"
  shows "cond_inv N caller (x\<lparr>cs_mutex := m', cs_owners := thr'\<rparr>)"
proof -
  note I = cond_invD[OF assms(1)]
  have "cond_view (cs_threads x u) (thr' u) (cs_depth x u)" if u: "u < N" for u
  proof (cases "thr' u = cs_owners x u")
    case True
    then show ?thesis using I(3)[OF u] by simp
  next
    case False
    then show ?thesis using assms(4) u I(3)[OF u] by (cases "cs_threads x u") auto
  qed
  then show ?thesis using I(2) s2_mutex_inv_step[OF assms(3,2) I(1)] by (simp add: cond_inv_def)
qed

lemma cond_inv_enqueue:
  assumes "cond_inv N caller x" "distinct_callers N caller" "t < N" "cs_threads x t = CIdle" "cs_owners x t = MIdle \<or> cs_owners x t = MOwner d"
    "cond_wait_check (Some (caller t)) (Some nts) (cs_line x) (cs_mutex x) = Inr ()" "cond_enqueue_pass (cs_line x) = Store c' (Inr ())"
  shows "cond_inv N caller (cs_set t (CRegistered False) (x\<lparr>cs_line := c', cs_depth := (cs_depth x)(t := m_count (cs_mutex x))\<rparr>))"
proof -
  note I = cond_invD[OF assms(1)]
  have f: "m_flags (cs_mutex x) AND HELD \<noteq> 0" "owned_by (cs_mutex x) (caller t)"
    using assms(6) by (auto simp: cond_wait_check_def split: sum.splits if_splits)
  note o = owned_by_owner[OF I(1) assms(2,3) f(2) assms(5) f(1)]
  show ?thesis using o I cond_counts_enqueue[OF I(2) assms(3,4,7)] by (auto simp: cond_inv_def cs_set_def)
qed

lemma cond_inv_unlock:
  assumes "cond_inv N caller x" "distinct_callers N caller" "t < N" "cs_threads x t = CRegistered w"
    "mutex_unlock_pass (Some (caller t)) nts True checked (cs_mutex x) = Store m' (Inr (handOver, dropped))"
  shows "cond_inv N caller (cs_set t (CUnlocked w dropped)
      (x\<lparr>cs_mutex := m', cs_owners := (cs_owners x)(t := if handOver then MWaking else MIdle)\<rparr>))"
proof -
  note I = cond_invD[OF assms(1)]
  have v: "cs_owners x t = MOwner (cs_depth x t)" "cs_depth x t \<noteq> 0" using I(3)[OF assms(3)] assms(4) by simp_all
  note u = inv_unlock[OF I(1) assms(2,3) disjI2[OF v(1)] assms(5)]
  have "m_count m' = 0" using assms(5) by (auto simp: mutex_unlock_pass_def Let_def split: sum.splits if_splits)
  then have "s2_mutex_inv N caller (m', (cs_owners x)(t := if handOver then MWaking else MIdle))" "dropped = cs_depth x t"
    using u v(1) by (auto split: if_splits)
  moreover have "cond_counts N (cs_line x) ((cs_threads x)(t := CUnlocked w dropped))"
    by (rule cond_counts_same[OF I(2) assms(3)]) (simp_all add: assms(4))
  ultimately show ?thesis using I(3) v(2) by (simp add: cond_inv_def cs_set_def)
qed

lemma cond_inv_wake:
  assumes "cond_inv N caller x" "t < N" "u < N" "cs_threads x t = CWaking all" "cond_unwoken (cs_threads x u)"
  shows "cond_inv N caller (cs_set t (if all then CSignalling all else CIdle) (cs_set u (wake_waiter (cs_threads x u)) x))"
proof -
  note I = cond_invD[OF assms(1)]
  have "cond_view (wake_waiter (cs_threads x u)) (cs_owners x u) (cs_depth x u)"
    using I(3)[OF assms(3)] by (cases "cs_threads x u") auto
  moreover have "cond_view (if all then CSignalling all else CIdle) (cs_owners x t) (cs_depth x t)"
    using I(3)[OF assms(2)] assms(4) by simp
  moreover have "cond_counts N (cs_line x) ((cs_threads x)(u := wake_waiter (cs_threads x u), t := if all then CSignalling all else CIdle))"
    by (rule cond_counts_wake[OF I(2) assms(2-5)]) simp
  ultimately show ?thesis using I by (auto simp: cond_inv_def cs_set_def)
qed

theorem cond_inv_step:
  assumes "s2_cond_step N caller nts x y" "distinct_callers N caller" "cond_inv N caller x"
  shows "cond_inv N caller y"
  using assms(1)
proof cases
  case on_mutex
  then show ?thesis using cond_inv_mutex[OF assms(3,2)] by blast
next
  case enqueue
  then show ?thesis using cond_inv_enqueue[OF assms(3,2)] by blast
next
  case unlock
  then show ?thesis using cond_inv_unlock[OF assms(3,2)] by blast
next
  case (unlock_fails t w)
  have "cond_counts N (cs_line x) ((cs_threads x)(t := CStuck w))"
    by (rule cond_counts_same[OF cond_invD(2)[OF assms(3)]]) (simp_all add: unlock_fails)
  then show ?thesis using cond_inv_set[OF assms(3), of "cs_line x" t "CStuck w"] cond_invD(3)[OF assms(3), of t] unlock_fails by simp
next
  case (leave t d c')
  show ?thesis unfolding leave(1)
    by (rule cond_inv_set[OF assms(3) cond_counts_leave[OF cond_invD(2)[OF assms(3)] leave(2,3,5)] leave(2)])
       (use cond_invD(3)[OF assms(3), of t] leave in simp)
next
  case (lock_fails t d)
  have "cond_counts N (cs_line x) ((cs_threads x)(t := CHalted))"
    by (rule cond_counts_same[OF cond_invD(2)[OF assms(3)]]) (simp_all add: lock_fails)
  then show ?thesis using cond_inv_set[OF assms(3), of "cs_line x" t CHalted] lock_fails by simp
next
  case (finish t d)
  have "cond_counts N (cs_line x) ((cs_threads x)(t := CIdle))"
    by (rule cond_counts_same[OF cond_invD(2)[OF assms(3)]]) (simp_all add: finish)
  then show ?thesis using cond_inv_set[OF assms(3), of "cs_line x" t CIdle] finish by simp
next
  case (signal t d all)
  have "cond_counts N (cs_line x) ((cs_threads x)(t := CSignalling all))"
    by (rule cond_counts_same[OF cond_invD(2)[OF assms(3)]]) (simp_all add: signal)
  then show ?thesis using cond_inv_set[OF assms(3), of "cs_line x" t "CSignalling all"] signal by auto
next
  case (nobody t all)
  have "cond_counts N (cs_line x) ((cs_threads x)(t := CIdle))"
    by (rule cond_counts_same[OF cond_invD(2)[OF assms(3)]]) (simp_all add: nobody)
  then show ?thesis using cond_inv_set[OF assms(3), of "cs_line x" t CIdle] nobody by simp
next
  case (somebody t all c')
  show ?thesis unfolding somebody(1)
    by (rule cond_inv_set[OF assms(3) cond_counts_somebody[OF cond_invD(2)[OF assms(3)] somebody(2-4)] somebody(2)])
       (use cond_invD(3)[OF assms(3), of t] somebody in simp)
next
  case wake
  then show ?thesis using cond_inv_wake[OF assms(3)] by blast
qed

section \<open>The start\<close>

definition cond_fresh :: "cond_sys \<Rightarrow> bool" where
  "cond_fresh x \<longleftrightarrow> mutex_fresh (cs_mutex x) \<and> cs_owners x = (\<lambda>_. MIdle) \<and> cs_threads x = (\<lambda>_. CIdle) \<and>
     c_waiters (cs_line x) = 0 \<and> c_signalled (cs_line x) = 0"

lemma cond_inv_start: "cond_fresh x \<Longrightarrow> cond_inv N caller x"
  by (simp add: cond_fresh_def cond_inv_def cond_counts_def s2_mutex_inv_start number_none)

lemma cond_reachable_inv:
  assumes "(s2_cond_step N caller nts)\<^sup>*\<^sup>* x y" "distinct_callers N caller" "cond_fresh x"
  shows "cond_inv N caller y"
  using assms(1)
proof (induction rule: rtranclp_induct)
  case base
  then show ?case by (rule cond_inv_start[OF assms(3)])
next
  case (step y z)
  then show ?case using cond_inv_step assms(2) by blast
qed

end
