(* ===== verification/Sync2_Cond_Props.thy ===== *)
theory Sync2_Cond_Props
  imports Sync2_Cond_Inv
begin

text \<open>
  The properties of the condition variable of \<open>sdk/libsync2\<close>, each with a witness at a concrete run.
\<close>

section \<open>Signal\<close>

lemma cond_signal_loop_step:
  assumes "c_signalled c \<noteq> c_waiters c"
  shows "cond_signal_loop all c = (let c' = c\<lparr>c_signalled := c_signalled c + 1\<rparr>
    in if all then (case cond_signal_loop all c' of (c'', k) \<Rightarrow> (c'', Suc k)) else (c', 1))"
  using assms by (subst cond_signal_loop.simps) (simp add: wake_one_pass_def)

lemma cond_signal_loop_done: "c_signalled c = c_waiters c \<Longrightarrow> cond_signal_loop all c = (c, 0)"
  by (subst cond_signal_loop.simps) (simp add: wake_one_pass_def)

lemma cond_signal_all:
  assumes "unat (c_signalled c) \<le> unat (c_waiters c)"
  shows "cond_signal_loop True c = (c\<lparr>c_signalled := c_waiters c\<rparr>, unat (c_waiters c) - unat (c_signalled c))"
  using assms
proof (induction "unat (c_waiters c) - unat (c_signalled c)" arbitrary: c)
  case 0
  then have "unat (c_signalled c) = unat (c_waiters c)" by simp
  then have "c_signalled c = c_waiters c" by (simp add: word_unat_eq_iff)
  then show ?case using cond_signal_loop_done[of c True] by (metis s2_cond.surjective s2_cond.update_convs(1) diff_self_eq_0)
next
  case (Suc n)
  then have lt: "unat (c_signalled c) < unat (c_waiters c)" by simp
  note up = u16_up[OF lt]
  let ?c = "c\<lparr>c_signalled := c_signalled c + 1\<rparr>"
  have "cond_signal_loop True ?c = (?c\<lparr>c_signalled := c_waiters c\<rparr>, n)"
    using Suc.hyps(1)[of ?c] Suc.hyps(2) lt up by simp
  moreover have "c_signalled c \<noteq> c_waiters c" using lt by auto
  ultimately show ?case using cond_signal_loop_step[of c True] Suc.hyps(2) by (simp add: Let_def)
qed

text \<open>Signal and signal-all end, on every line. Where no more waiters are signalled than there are, signal-all leaves
  every waiter signalled and makes one wake-up for each that was not, signal makes one wake-up if there is such a waiter
  and none otherwise, and neither touches the rest of the line; a refused caller changes nothing.\<close>

theorem s2_cond_signal_wakes:
  assumes "unat (c_signalled c) \<le> unat (c_waiters c)"
  shows "sync2_cond_signal all caller notifiers c =
    (case check_caller (c_thread_types c) caller notifiers False of
       Inl e \<Rightarrow> Inl e
     | Inr _ \<Rightarrow> Inr (if all then (c\<lparr>c_signalled := c_waiters c\<rparr>, unat (c_waiters c) - unat (c_signalled c))
         else if c_signalled c = c_waiters c then (c, 0) else (c\<lparr>c_signalled := c_signalled c + 1\<rparr>, 1)))"
  using cond_signal_all[OF assms] cond_signal_loop_step[of c False] cond_signal_loop_done[of c False]
  by (auto simp: sync2_cond_signal_def Let_def split: sum.splits)

definition example_cond :: s2_cond where
  "example_cond = \<lparr>c_signalled = 1, c_waiters = 3, c_max_waiters = 4, c_thread_types = 1\<rparr>"

definition example_thread :: "nat \<Rightarrow> s2_caller" where
  "example_thread t = \<lparr>threadTypeId = 1, self_id = of_nat t, has_allocate = True, has_free = True, has_wait = True\<rparr>"

definition example_table :: "s2_notifier list" where "example_table = [\<lparr>nt_threadTypeId = 1, nt_sendSignal = True\<rparr>]"

lemma example_check: "check_caller 1 (Some (example_thread t)) (Some example_table) w = Inr ()"
  by (simp add: check_caller_def example_thread_def example_table_def check_notifiers_def can_block_def)

theorem s2_cond_signal_wakes_witness:
  "sync2_cond_signal True (Some (example_thread 0)) (Some example_table) example_cond = Inr (example_cond\<lparr>c_signalled := 3\<rparr>, 2)"
  using s2_cond_signal_wakes[of example_cond True "Some (example_thread 0)" "Some example_table"] example_check[of 0 False]
  by (simp add: example_cond_def)

section \<open>Waiting\<close>

text \<open>C14: Whatever the threads that share a condition variable and its mutex do, one of them at most holds the mutex;
  a thread that has unlocked it inside a wait neither owns it nor waits for it until it is woken; a wait that has the
  mutex back has it at the depth at which the thread last called wait, and the mutex's bytes say so; every wake-up that
  a signaller still has to do has its waiter; and no more threads wait than the condition admits.\<close>

theorem s2_cond_safe:
  assumes "(s2_cond_step N caller nts)\<^sup>*\<^sup>* x y" "distinct_callers N caller" "cond_fresh x"
  shows "(\<forall>t < N. \<forall>u < N. holding (cs_owners y t) \<longrightarrow> holding (cs_owners y u) \<longrightarrow> t = u) \<and>
    (\<forall>t < N. \<forall>w d. cs_threads y t = CUnlocked w d \<longrightarrow> cs_owners y t \<in> {MIdle, MWaking} \<and> d = cs_depth y t) \<and>
    (\<forall>t < N. \<forall>d k. cs_threads y t = CRelock d \<longrightarrow> cs_owners y t = MOwner k \<longrightarrow>
       k = cs_depth y t \<and> owned_by (cs_mutex y) (caller t) \<and> m_count (cs_mutex y) = cs_depth y t) \<and>
    (\<forall>t < N. \<forall>all. cs_threads y t = CWaking all \<longrightarrow> (\<exists>u < N. cond_unwoken (cs_threads y u))) \<and>
    number N cond_unwoken (cs_threads y) + number N cond_woken (cs_threads y) \<le> unat (c_max_waiters (cs_line y))"
proof (intro conjI allI impI)
  note I = cond_invD[OF cond_reachable_inv[OF assms]]
  note M = s2_mutex_invD[OF I(1)]
  have one: "number N holding (cs_owners y) \<le> 1" using M(1) by simp
  show "t = u" if "t < N" "u < N" "holding (cs_owners y t)" "holding (cs_owners y u)" for t u
    by (rule number_one_unique[of N holding "cs_owners y", OF one that(1,3,2,4)])
  show "cs_owners y t \<in> {MIdle, MWaking}" "d = cs_depth y t" if "t < N" "cs_threads y t = CUnlocked w d" for t w d
    using I(3)[OF that(1)] that(2) by auto
  show "k = cs_depth y t" "owned_by (cs_mutex y) (caller t)" "m_count (cs_mutex y) = cs_depth y t"
    if "t < N" "cs_threads y t = CRelock d" "cs_owners y t = MOwner k" for t d k
    using I(3)[OF that(1)] M(7)[OF that(1)] that(2,3) by auto
  show "\<exists>u < N. cond_unwoken (cs_threads y u)" if "t < N" "cs_threads y t = CWaking all" for t all
  proof -
    have "0 < number N cond_waking (cs_threads y)" by (rule number_pos[of t N cond_waking "cs_threads y", OF that(1)]) (simp add: that(2))
    then show ?thesis using I(2) number_ex[of N cond_unwoken "cs_threads y"] by (auto simp: cond_counts_def)
  qed
  show "number N cond_unwoken (cs_threads y) + number N cond_woken (cs_threads y) \<le> unat (c_max_waiters (cs_line y))"
    using I(2) by (simp add: cond_counts_def)
qed

section \<open>Halting\<close>

text \<open>The places and the thread types of the mutex never change, and its checks look at nothing else.\<close>

lemma s2_mutex_step_config:
  assumes "s2_mutex_step N caller (m, thr) (m', thr')"
  shows "m_thread_types m' = m_thread_types m \<and> m_max_waiters m' = m_max_waiters m"
  using assms
  by cases (auto simp: mutex_lock_pass_def mutex_unlock_pass_def mutex_leave_decision_def write_owner_def Let_def
    split: sum.splits if_splits)

lemma unlock_config:
  "mutex_unlock_pass caller nts countOut checked m = Store m' r \<Longrightarrow>
    m_thread_types m' = m_thread_types m \<and> m_max_waiters m' = m_max_waiters m"
  by (auto simp: mutex_unlock_pass_def Let_def split: sum.splits if_splits)

lemma s2_cond_step_config:
  assumes "s2_cond_step N caller nts x y"
  shows "m_thread_types (cs_mutex y) = m_thread_types (cs_mutex x) \<and> m_max_waiters (cs_mutex y) = m_max_waiters (cs_mutex x)"
  using assms by cases (auto simp: cs_set_def dest: s2_mutex_step_config unlock_config)

lemma mutex_waiters_less:
  assumes "t < N" "thr t = MIdle"
  shows "number N queued thr + number N granted thr < N"
proof -
  let ?Q = "{u. u < N \<and> queued (thr u)}" and ?G = "{u. u < N \<and> granted (thr u)}"
  have "?Q \<inter> ?G = {}" "finite ?Q" "finite ?G" by (auto elim!: queued.elims granted.elims)
  then have "card ?Q + card ?G = card (?Q \<union> ?G)" by (simp add: card_Un_disjoint)
  also have "\<dots> \<le> card ({..<N} - {t})" by (rule card_mono) (use assms(2) in \<open>auto\<close>)
  also have "\<dots> < N" using assms(1) by simp
  finally show ?thesis by (simp add: number_def)
qed

lemma mutex_checks_config:
  assumes "m_thread_types m' = m_thread_types m" "m_max_waiters m' = m_max_waiters m"
  shows "mutex_lock_check c wait m' = mutex_lock_check c wait m" "mutex_unlock_check caller nts m' = mutex_unlock_check caller nts m"
  using assms by (simp_all add: mutex_lock_check_def mutex_unlock_check_def split: option.split)

text \<open>What a refused lock or unlock inside a wait comes from.\<close>

lemma relock_refused:
  assumes "cond_inv N caller x" "distinct_callers N caller" "t < N" "cs_owners x t = MIdle"
    "mutex_lock_pass (caller t) True d first rcv (cs_mutex x) = Return (Inl e)" "mutex_lock_check (caller t) True (cs_mutex x) = Inr ()"
  shows "m_waiters (cs_mutex x) = m_max_waiters (cs_mutex x) \<and> e = S2_NOMEM"
  using assms(5,6) owned_by_owner[OF cond_invD(1)[OF assms(1)] assms(2,3)] assms(4)
  by (auto simp: mutex_lock_pass_def split: if_splits)

lemma unlock_not_refused:
  assumes "cond_inv N caller x" "t < N" "cs_threads x t = CRegistered w" "mutex_unlock_check (Some (caller t)) nts (cs_mutex x) = Inr ()"
  shows "mutex_unlock_pass (Some (caller t)) nts True checked (cs_mutex x) \<noteq> Return (Inl e)"
proof -
  note I = cond_invD[OF assms(1)]
  have o: "cs_owners x t = MOwner (cs_depth x t)" using I(3)[OF assms(2)] assms(3) by simp
  have "0 < number N holding (cs_owners x)" by (rule number_pos[of t N holding "cs_owners x", OF assms(2)]) (simp add: o)
  then have "m_flags (cs_mutex x) AND HELD \<noteq> 0" using s2_mutex_invD(1)[OF I(1)] by (auto split: if_splits)
  moreover have "owned_by (cs_mutex x) (caller t)" using s2_mutex_invD(7)[OF I(1) assms(2)] o by simp
  ultimately show ?thesis using assms(4) by (simp add: mutex_unlock_pass_def Let_def)
qed

definition not_halted :: "cond_thread \<Rightarrow> bool" where
  "not_halted s \<longleftrightarrow> s \<noteq> CHalted \<and> (\<forall>w. s \<noteq> CStuck w)"

lemma not_halted_wake: "not_halted s \<Longrightarrow> not_halted (wake_waiter s)"
  by (cases s) (auto simp: not_halted_def)

lemma not_halted_step:
  assumes "s2_cond_step N caller nts x y" "cond_inv N caller x" "distinct_callers N caller" "N \<le> unat (m_max_waiters (cs_mutex x))"
    "\<forall>t < N. mutex_lock_check (caller t) True (cs_mutex x) = Inr () \<and> mutex_unlock_check (Some (caller t)) nts (cs_mutex x) = Inr ()"
    "\<forall>t < N. not_halted (cs_threads x t)"
  shows "\<forall>t < N. not_halted (cs_threads y t)"
  using assms(1)
proof cases
  case (unlock_fails t w)
  then show ?thesis using unlock_not_refused[OF assms(2) unlock_fails(2,3)] assms(5) by blast
next
  case (lock_fails t d)
  then have "unat (m_waiters (cs_mutex x)) = unat (m_max_waiters (cs_mutex x))"
    using relock_refused[OF assms(2,3) lock_fails(2,4,5)] assms(5) by simp
  then show ?thesis
    using mutex_waiters_less[where thr = "cs_owners x", OF lock_fails(2,4)] s2_mutex_invD(2)[OF cond_invD(1)[OF assms(2)]] assms(4) by simp
next
  case (wake t u all)
  then show ?thesis using assms(6) not_halted_wake[of "cs_threads x u"] by (auto simp: cs_set_def not_halted_def)
qed (use assms(6) in \<open>auto simp: cs_set_def not_halted_def\<close>)

text \<open>A wait never halts the processor when the mutex has as many places for waiters as there are threads, and
  admits the threads and covers their types with notifiers: in no reachable state has an unlock or a lock inside a wait
  been refused.\<close>

theorem s2_cond_never_halts:
  assumes "(s2_cond_step N caller nts)\<^sup>*\<^sup>* x y" "distinct_callers N caller" "cond_fresh x" "N \<le> unat (m_max_waiters (cs_mutex x))"
    "\<forall>t < N. mutex_lock_check (caller t) True (cs_mutex x) = Inr () \<and> mutex_unlock_check (Some (caller t)) nts (cs_mutex x) = Inr ()"
  shows "\<forall>t < N. cs_threads y t \<noteq> CHalted \<and> (\<forall>w. cs_threads y t \<noteq> CStuck w)"
proof -
  have "(\<forall>t < N. not_halted (cs_threads y t)) \<and> m_thread_types (cs_mutex y) = m_thread_types (cs_mutex x) \<and>
      m_max_waiters (cs_mutex y) = m_max_waiters (cs_mutex x)"
    using assms(1)
  proof (induction rule: rtranclp_induct)
    case base
    then show ?case using assms(3) by (simp add: cond_fresh_def not_halted_def)
  next
    case (step y z)
    have "\<forall>t < N. mutex_lock_check (caller t) True (cs_mutex y) = Inr () \<and> mutex_unlock_check (Some (caller t)) nts (cs_mutex y) = Inr ()"
      using assms(5) mutex_checks_config[of "cs_mutex y" "cs_mutex x"] step.IH by simp
    then show ?case
      using not_halted_step[OF step(2) cond_reachable_inv[OF step(1) assms(2,3)] assms(2)] s2_cond_step_config[OF step(2)] step.IH assms(4)
      by simp
  qed
  then show ?thesis by (simp add: not_halted_def)
qed

text \<open>
  A run of three threads for the witnesses: the first locks the mutex and waits, the second locks it and the third
  queues for it, the second signals and wakes the first, which leaves the condition and comes to take the mutex back.
\<close>

definition triple :: "'a \<Rightarrow> 'a \<Rightarrow> 'a \<Rightarrow> 'a \<Rightarrow> nat \<Rightarrow> 'a" where
  "triple d a b c t = (if t = 0 then a else if t = Suc 0 then b else if t = 2 then c else d)"

lemma triple_simps [simp]:
  "triple d a b c 0 = a" "triple d a b c (Suc 0) = b" "triple d a b c 2 = c"
  "(triple d a b c)(0 := s) = triple d s b c" "(triple d a b c)(Suc 0 := s) = triple d a s c" "(triple d a b c)(2 := s) = triple d a b s"
  by (auto simp: triple_def fun_eq_iff)

lemma below_three: "(\<forall>u < 3. P u) \<longleftrightarrow> P 0 \<and> P (Suc 0) \<and> P (2 :: nat)"
proof -
  have "u < 3 \<longleftrightarrow> u = 0 \<or> u = Suc 0 \<or> u = 2" for u :: nat by linarith
  then show ?thesis by auto
qed

definition demo_mutex :: "u8 \<Rightarrow> u16 \<Rightarrow> u32 \<Rightarrow> u64 \<Rightarrow> u16 \<Rightarrow> u16 \<Rightarrow> s2_mutex" where
  "demo_mutex flags owner_type count owner waiters most = \<lparr>m_owner_type = owner_type, m_count = count, m_owner = owner, m_flags = flags,
     m_signalled = 0, m_waiters = waiters, m_recursive = 1, m_thread_types = 1, m_max_waiters = most\<rparr>"

definition demo_state :: "s2_mutex \<Rightarrow> (nat \<Rightarrow> s2_thread) \<Rightarrow> (nat \<Rightarrow> cond_thread) \<Rightarrow> u16 \<Rightarrow> u16 \<Rightarrow> u32 \<Rightarrow> cond_sys" where
  "demo_state m owners threads signalled waiters depth = \<lparr>cs_line = \<lparr>c_signalled = signalled, c_waiters = waiters, c_max_waiters = 2,
     c_thread_types = 1\<rparr>, cs_mutex = m, cs_owners = owners, cs_threads = threads, cs_depth = triple 0 depth 0 0\<rparr>"

abbreviation (input) demo_step :: "cond_sys \<Rightarrow> cond_sys \<Rightarrow> bool" where
  "demo_step \<equiv> s2_cond_step 3 example_thread example_table"

lemmas demo_defs = demo_mutex_def demo_state_def example_thread_def cs_set_def

lemma demo_callers: "distinct_callers 3 example_thread"
  by (simp add: distinct_callers_def below_three example_thread_def)

lemma demo_fresh: "cond_fresh (demo_state (demo_mutex 0 0 c 0 0 w) (triple MIdle MIdle MIdle MIdle) (triple CIdle CIdle CIdle CIdle) 0 0 0)"
  by (simp add: cond_fresh_def mutex_fresh_def demo_defs triple_def fun_eq_iff)

text \<open>Steps on the mutex, of the first two threads or the third.\<close>

lemma demo_on_mutex:
  assumes "s2_mutex_step 3 example_thread (m, triple MIdle a b c) (m', triple MIdle a' b' c')"
    "a' \<noteq> a \<longrightarrow> mutex_allows s a a'" "b' \<noteq> b \<longrightarrow> mutex_allows s' b b'" "c' \<noteq> c \<longrightarrow> mutex_allows s'' c c'"
  shows "demo_step (demo_state m (triple MIdle a b c) (triple CIdle s s' s'') k l d) (demo_state m' (triple MIdle a' b' c') (triple CIdle s s' s'') k l d)"
  using s2_cond_step.on_mutex[where x = "demo_state m (triple MIdle a b c) (triple CIdle s s' s'') k l d" and m' = m' and
      thr' = "triple MIdle a' b' c'" and N = 3 and caller = example_thread and nts = example_table] assms
  by (simp add: demo_state_def below_three)

lemma demo_lock:
  "s2_mutex_step 3 example_thread (demo_mutex 0 0 c 0 0 w, triple MIdle MIdle b d) (demo_mutex 0x80 0 c 0 0 w, triple MIdle (MTaking 1) b d)" (is ?A)
  "s2_mutex_step 3 example_thread (demo_mutex 0x80 0 c 0 0 w, triple MIdle (MTaking 1) b d) (demo_mutex 0x80 1 1 0 0 w, triple MIdle (MOwner 1) b d)" (is ?B)
  "s2_mutex_step 3 example_thread (demo_mutex 0 0 c 0 0 w, triple MIdle a MIdle d) (demo_mutex 0x80 0 c 0 0 w, triple MIdle a (MTaking 1) d)" (is ?C)
  "s2_mutex_step 3 example_thread (demo_mutex 0x80 0 c 0 0 w, triple MIdle a (MTaking 1) d) (demo_mutex 0x80 1 1 1 0 w, triple MIdle a (MOwner 1) d)" (is ?D)
proof -
  have l: "mutex_lock_pass (example_thread t) True 1 False False (demo_mutex 0 0 c 0 0 w) = Store (demo_mutex 0x80 0 c 0 0 w) (Inr (LockTaken 1))" for t
    by (simp add: mutex_lock_pass_def demo_defs)
  show ?A using s2_mutex_step.lock[where N = 3 and t = 0 and caller = example_thread and thr = "triple MIdle MIdle b d", OF _ _ _ l] by simp
  show ?C using s2_mutex_step.lock[where N = 3 and t = "Suc 0" and caller = example_thread and thr = "triple MIdle a MIdle d", OF _ _ _ l] by simp
  show ?B using s2_mutex_step.owner[of 0 3 "triple MIdle (MTaking 1) b d" 1 example_thread "demo_mutex 0x80 0 c 0 0 w"]
    by (simp add: write_owner_def demo_defs)
  show ?D using s2_mutex_step.owner[of "Suc 0" 3 "triple MIdle a (MTaking 1) d" 1 example_thread "demo_mutex 0x80 0 c 0 0 w"]
    by (simp add: write_owner_def demo_defs)
qed

lemma demo_wait:
  "demo_step\<^sup>*\<^sup>* (demo_state (demo_mutex 0 0 0 0 0 w) (triple MIdle MIdle MIdle MIdle) (triple CIdle CIdle CIdle CIdle) 0 0 0)
     (demo_state (demo_mutex 0 0 0 0 0 w) (triple MIdle MIdle MIdle MIdle) (triple CIdle (CUnlocked False 1) CIdle CIdle) 0 1 1)"
proof -
  let ?s1 = "demo_state (demo_mutex 0x80 1 1 0 0 w) (triple MIdle (MOwner 1) MIdle MIdle) (triple CIdle CIdle CIdle CIdle) 0 0 0"
  let ?s2 = "demo_state (demo_mutex 0x80 1 1 0 0 w) (triple MIdle (MOwner 1) MIdle MIdle) (triple CIdle (CRegistered False) CIdle CIdle) 0 1 1"
  have e: "cond_wait_check (Some (example_thread 0)) (Some example_table) (cs_line ?s1) (cs_mutex ?s1) = Inr ()"
      "cond_enqueue_pass (cs_line ?s1) = Store ((cs_line ?s1)\<lparr>c_waiters := 1\<rparr>) (Inr ())"
    using example_check[of 0 True] by (simp_all add: cond_wait_check_def cond_enqueue_pass_def demo_state_def demo_mutex_def owned_by_def example_thread_def)
  have "demo_step ?s1 ?s2"
    using s2_cond_step.enqueue[where N = 3 and x = ?s1 and t = 0 and caller = example_thread, OF _ _ _ e] by (simp add: demo_defs)
  moreover have "demo_step ?s2 (demo_state (demo_mutex 0 0 0 0 0 w) (triple MIdle MIdle MIdle MIdle) (triple CIdle (CUnlocked False 1) CIdle CIdle) 0 1 1)"
  proof -
    have "mutex_unlock_pass (Some (example_thread 0)) example_table True False (cs_mutex ?s2) = Store (demo_mutex 0 0 0 0 0 w) (Inr (False, 1))"
      by (simp add: mutex_unlock_pass_def mutex_unlock_check_def check_notifiers_def example_table_def demo_defs owned_by_def)
    from s2_cond_step.unlock[where N = 3 and x = ?s2 and t = 0 and caller = example_thread, OF _ _ this, of False]
    show ?thesis by (simp add: demo_defs)
  qed
  moreover note demo_on_mutex[OF demo_lock(1)[of 0 w MIdle MIdle], of CIdle CIdle CIdle 0 0 0]
    demo_on_mutex[OF demo_lock(2)[of 0 w MIdle MIdle], of CIdle CIdle CIdle 0 0 0]
  ultimately show ?thesis by (meson converse_rtranclp_into_rtranclp mutex_allows.simps(1) rtranclp.rtrancl_refl)
qed

lemma demo_signal:
  "demo_step\<^sup>*\<^sup>* (demo_state (demo_mutex 0 0 0 0 0 1) (triple MIdle MIdle MIdle MIdle) (triple CIdle (CUnlocked False 1) CIdle CIdle) 0 1 1)
     (demo_state (demo_mutex 0x80 1 1 1 1 1) (triple MIdle MIdle (MOwner 1) (MQueued 1)) (triple CIdle (CRelock 1) CIdle CIdle) 0 0 1)"
proof -
  let ?o = "triple MIdle MIdle (MOwner 1) (MQueued 1)" and ?w = "CUnlocked False 1"
  let ?m = "demo_mutex 0x80 1 1 1 0 1" and ?m1 = "demo_mutex 0x80 1 1 1 1 1"
  let ?s1 = "demo_state ?m1 ?o (triple CIdle ?w CIdle CIdle) 0 1 1"
  let ?s2 = "demo_state ?m1 ?o (triple CIdle ?w (CSignalling False) CIdle) 0 1 1"
  let ?s3 = "demo_state ?m1 ?o (triple CIdle ?w (CWaking False) CIdle) 1 1 1"
  let ?s4 = "demo_state ?m1 ?o (triple CIdle (CUnlocked True 1) CIdle CIdle) 1 1 1"
  let ?s5 = "demo_state ?m1 ?o (triple CIdle (CRelock 1) CIdle CIdle) 0 0 1"
  have "mutex_lock_pass (example_thread 2) True 1 False True ?m = Store ?m1 (Inr LockQueued)"
    by (simp add: mutex_lock_pass_def demo_defs owned_by_def)
  from s2_mutex_step.enqueue[where N = 3 and t = 2 and thr = "triple MIdle MIdle (MOwner 1) MIdle" and caller = example_thread, OF _ _ _ this]
  have queue: "s2_mutex_step 3 example_thread (?m, triple MIdle MIdle (MOwner 1) MIdle) (?m1, ?o)" by simp
  have "demo_step ?s1 ?s2"
    using s2_cond_step.signal[where N = 3 and x = ?s1 and t = "Suc 0" and all = False and caller = example_thread and nts = example_table]
      example_check[of "Suc 0" False] by (simp add: demo_state_def cs_set_def)
  moreover have "demo_step ?s2 ?s3"
  proof -
    have "wake_one_pass (cs_line ?s2) = Store ((cs_line ?s2)\<lparr>c_signalled := 1\<rparr>) (Inr ())"
      by (simp add: wake_one_pass_def demo_state_def)
    from s2_cond_step.somebody[where N = 3 and x = ?s2 and t = "Suc 0" and all = False and caller = example_thread and nts = example_table, OF _ _ this]
    show ?thesis by (simp add: demo_state_def cs_set_def)
  qed
  moreover have "demo_step ?s3 ?s4"
    using s2_cond_step.wake[where N = 3 and x = ?s3 and t = "Suc 0" and u = 0 and all = False and caller = example_thread and nts = example_table]
    by (simp add: demo_state_def cs_set_def)
  moreover have "demo_step ?s4 ?s5"
  proof -
    have "cond_leave_decision (cs_line ?s4) = Store ((cs_line ?s4)\<lparr>c_signalled := 0, c_waiters := 0\<rparr>) ()"
      by (simp add: cond_leave_decision_def demo_state_def)
    from s2_cond_step.leave[where N = 3 and x = ?s4 and t = 0 and d = 1 and caller = example_thread and nts = example_table, OF _ _ _ this]
    show ?thesis by (simp add: demo_state_def cs_set_def)
  qed
  moreover note demo_on_mutex[OF demo_lock(3)[of 0 1 MIdle MIdle], of ?w CIdle CIdle 0 1 1]
    demo_on_mutex[OF demo_lock(4)[of 0 1 MIdle MIdle], of ?w CIdle CIdle 0 1 1] demo_on_mutex[OF queue, of ?w CIdle CIdle 0 1 1]
  ultimately show ?thesis by (meson converse_rtranclp_into_rtranclp mutex_allows.simps(1) rtranclp.rtrancl_refl)
qed

text \<open>The witness of the first property on this run, at the wait.\<close>

theorem s2_cond_safe_witness:
  "\<exists>y. demo_step\<^sup>*\<^sup>* (demo_state (demo_mutex 0 0 0 0 0 1) (triple MIdle MIdle MIdle MIdle) (triple CIdle CIdle CIdle CIdle) 0 0 0) y \<and>
    cs_threads y 0 = CUnlocked False 1 \<and> cs_depth y 0 = 1 \<and> cs_owners y 0 \<in> {MIdle, MWaking}"
proof -
  let ?y = "demo_state (demo_mutex 0 0 0 0 0 1) (triple MIdle MIdle MIdle MIdle) (triple CIdle (CUnlocked False 1) CIdle CIdle) 0 1 1"
  have "(0 :: nat) < 3" "cs_threads ?y 0 = CUnlocked False 1" by (simp_all add: demo_state_def)
  then show ?thesis using s2_cond_safe[OF demo_wait demo_callers demo_fresh] demo_wait by metis
qed

theorem s2_cond_never_halts_witness:
  "cs_threads (demo_state (demo_mutex 0 0 0 0 0 3) (triple MIdle MIdle MIdle MIdle) (triple CIdle (CUnlocked False 1) CIdle CIdle) 0 1 1) 2 \<noteq> CHalted"
proof -
  have c: "\<forall>t < 3. mutex_lock_check (example_thread t) True (demo_mutex 0 0 0 0 0 3) = Inr () \<and>
      mutex_unlock_check (Some (example_thread t)) example_table (demo_mutex 0 0 0 0 0 3) = Inr ()"
    by (simp add: mutex_lock_check_def mutex_unlock_check_def check_notifiers_def example_table_def demo_defs can_block_def)
  have m: "cs_mutex (demo_state m owners threads s w d) = m" for m owners threads s w d by (simp add: demo_state_def)
  have n: "3 \<le> unat (m_max_waiters (demo_mutex 0 0 0 0 0 3))" by (simp add: demo_mutex_def)
  have two: "(2 :: nat) < 3" by simp
  show ?thesis by (rule conjunct1[OF s2_cond_never_halts[OF demo_wait demo_callers demo_fresh, unfolded m, OF n c, rule_format, OF two]])
qed

text \<open>C15: A wait can halt the processor: the places of the mutex are not kept for the threads that wait for the condition,
  so when a woken one comes to take the mutex back while it is held and its waiters are full, the lock is refused with
  NOMEM and the processor halts instead of returning from the wait.\<close>

theorem s2_cond_halts_when_mutex_full:
  assumes "(s2_cond_step N caller nts)\<^sup>*\<^sup>* x y" "distinct_callers N caller" "cond_fresh x" "t < N"
    "cs_threads y t = CRelock d" "cs_owners y t = MIdle" "mutex_lock_check (caller t) True (cs_mutex y) = Inr ()"
    "m_flags (cs_mutex y) AND HELD \<noteq> 0" "m_waiters (cs_mutex y) = m_max_waiters (cs_mutex y)"
  shows "mutex_lock_pass (caller t) True d first rcv (cs_mutex y) = Return (Inl S2_NOMEM) \<and>
    s2_cond_step N caller nts y (cs_set t CHalted y)"
proof -
  have "\<not> owned_by (cs_mutex y) (caller t)"
    using owned_by_owner[OF cond_invD(1)[OF cond_reachable_inv[OF assms(1-3)]] assms(2,4)] assms(6,8) by auto
  then have p: "mutex_lock_pass (caller t) True d first rcv (cs_mutex y) = Return (Inl S2_NOMEM)"
    using assms(7-9) by (simp add: mutex_lock_pass_def)
  then show ?thesis using s2_cond_step.lock_fails[where caller = caller and x = y, OF assms(4-6) p] by blast
qed

theorem s2_cond_halts_when_mutex_full_witness:
  "\<exists>y. demo_step\<^sup>*\<^sup>* (demo_state (demo_mutex 0 0 0 0 0 1) (triple MIdle MIdle MIdle MIdle) (triple CIdle CIdle CIdle CIdle) 0 0 0) y \<and>
    cs_threads y 0 = CHalted"
proof -
  let ?y = "demo_state (demo_mutex 0x80 1 1 1 1 1) (triple MIdle MIdle (MOwner 1) (MQueued 1)) (triple CIdle (CRelock 1) CIdle CIdle) 0 0 1"
  note run = rtranclp_trans[OF demo_wait demo_signal]
  have "(0 :: nat) < 3" "cs_threads ?y 0 = CRelock 1" "cs_owners ?y 0 = MIdle" "mutex_lock_check (example_thread 0) True (cs_mutex ?y) = Inr ()"
    "m_flags (cs_mutex ?y) AND HELD \<noteq> 0" "m_waiters (cs_mutex ?y) = m_max_waiters (cs_mutex ?y)"
    by (simp_all add: demo_defs mutex_lock_check_def can_block_def)
  from s2_cond_halts_when_mutex_full[OF run demo_callers demo_fresh this]
  have "demo_step ?y (cs_set 0 CHalted ?y)" by blast
  with run have "demo_step\<^sup>*\<^sup>* (demo_state (demo_mutex 0 0 0 0 0 1) (triple MIdle MIdle MIdle MIdle) (triple CIdle CIdle CIdle CIdle) 0 0 0)
    (cs_set 0 CHalted ?y)" by (rule rtranclp.rtrancl_into_rtrancl)
  then show ?thesis by (intro exI[of _ "cs_set 0 CHalted ?y"]) (simp add: cs_set_def)
qed

end
