(* ===== verification/Spurs_Base.thy ===== *)
theory Spurs_Base
  imports Llsc Counting
begin

text \<open>
  What the objects of \<open>sdk/libspurs_task\<close> share: error codes, the checks of an object's address, the identity of
  tasks and the signals that block and release them.
\<close>

section \<open>Errors and addresses\<close>

datatype spurs_error = SP_AGAIN | SP_INVAL | SP_NOMEM | SP_NOEXEC | SP_PERM | SP_BUSY | SP_STAT | SP_ALIGN | SP_NULL_POINTER | SP_FATAL | SP_SHUTDOWN

definition spurs_check_ea :: "u64 \<Rightarrow> spurs_error + unit" where
  "spurs_check_ea ea = (if ea = 0 then Inl SP_NULL_POINTER else if ea AND 127 \<noteq> 0 then Inl SP_ALIGN else Inr ())"

lemma spurs_check_ea_ok: "spurs_check_ea ea = Inr () \<longleftrightarrow> ea \<noteq> 0 \<and> ea AND 127 = 0"
  by (simp add: spurs_check_ea_def)

section \<open>Tasks\<close>

text \<open>A task runs in a taskset under an id; a workload id leads to the taskset through the SPURS instance.\<close>

record spurs_task =
  task_taskset :: u64
  task_id :: u8
  task_wkl :: u8

text \<open>The signal of a task: \<open>cellSpursSendSignal\<close> sets the one of the task it names, \<open>cellSpursWaitSignal\<close> waits for its own and takes it.\<close>

definition send_signal :: "nat \<Rightarrow> (nat \<Rightarrow> spurs_task) \<Rightarrow> u64 \<Rightarrow> u8 \<Rightarrow> (nat \<Rightarrow> bool) \<Rightarrow> (nat \<Rightarrow> bool) option" where
  "send_signal N task taskset i signals =
     (let named = (\<lambda>t. t < N \<and> task_taskset (task t) = taskset \<and> task_id (task t) = i)
      in if \<exists>t \<in> set [0..<N]. named t then Some (\<lambda>t. signals t \<or> named t) else None)"

definition distinct_tasks :: "nat \<Rightarrow> (nat \<Rightarrow> spurs_task) \<Rightarrow> bool" where
  "distinct_tasks N task \<longleftrightarrow> (\<forall>t < N. \<forall>u < N. t \<noteq> u \<longrightarrow> (task_taskset (task t), task_id (task t)) \<noteq> (task_taskset (task u), task_id (task u)))"

lemma send_signal_reaches:
  assumes "t < N" "task_taskset (task t) = taskset" "task_id (task t) = i"
  shows "\<exists>s. send_signal N task taskset i signals = Some s \<and> s t \<and> (\<forall>u. signals u \<longrightarrow> s u)"
  using assms by (auto simp: send_signal_def Let_def)

lemma send_signal_mono: "send_signal N task taskset i signals = Some s \<Longrightarrow> signals u \<Longrightarrow> s u"
  by (auto simp: send_signal_def Let_def split: if_splits)

end
