(* ===== verification/Spurs_Event_Flag.thy ===== *)
theory Spurs_Event_Flag
  imports Spurs_Base
begin

text \<open>
  \<open>sdk/libspurs_task/src/spurs_event_flag.c\<close>: the event flag of SPURS, one line on which tasks set, clear and wait for
  bits.  Each loop on the line is given by its decision; tasks that share a flag are a step relation.
\<close>

section \<open>The line\<close>

record event_flag =
  ef_events :: u16
  spuTaskPendingRecv :: u16
  ppuWaitMask :: u16
  ppuWaitSlotAndMode :: u8
  ppuPendingRecv :: u8
  spuTaskUsedWaitSlots :: u16
  spuTaskWaitMode :: u16
  ef_spuPort :: u8
  ef_isIwl :: u8
  ef_direction :: u8
  ef_clearMode :: u8
  spuTaskWaitMask :: "u16 list"
  pendingRecvTaskEvents :: "u16 list"
  waitingTaskId :: "u8 list"
  waitingTaskWklId :: "u8 list"
  ef_addr :: u64
  ef_eventPortId :: u32
  ef_eventQueueId :: u32

abbreviation (input) MODE_OR :: u32 where "MODE_OR \<equiv> 0"
abbreviation (input) MODE_AND :: u32 where "MODE_AND \<equiv> 1"
abbreviation (input) CLEAR_AUTO :: u8 where "CLEAR_AUTO \<equiv> 0"
abbreviation (input) SPU2PPU_EF :: u8 where "SPU2PPU_EF \<equiv> 1"
abbreviation (input) PPU2SPU_EF :: u8 where "PPU2SPU_EF \<equiv> 2"
abbreviation (input) ANY2ANY_EF :: u8 where "ANY2ANY_EF \<equiv> 3"

definition slot_of_bit :: "nat \<Rightarrow> nat" where "slot_of_bit b = 15 - b"

text \<open>
  The condition of a waiter: what is relevant to it covers its mask, or, in OR mode, is not empty.  The code spells it
  out at each of its three uses.
\<close>

definition ef_satisfied :: "u16 \<Rightarrow> bool \<Rightarrow> u16 \<Rightarrow> bool" where
  "ef_satisfied want or_mode relevant \<longleftrightarrow> want AND NOT relevant = 0 \<or> or_mode \<and> relevant \<noteq> 0"

section \<open>Initialize\<close>

text \<open>The address of the flag's taskset, or of its SPURS instance, is what the services of the library return.\<close>

definition cellSpursEventFlagInitialize :: "u64 \<Rightarrow> u64 \<Rightarrow> u64 \<Rightarrow> u32 \<Rightarrow> u32 \<Rightarrow> bool \<Rightarrow> spurs_error + event_flag" where
  "cellSpursEventFlagInitialize taskset spurs ea clear_mode direction isIwl =
     (case spurs_check_ea ea of
        Inl e \<Rightarrow> Inl e
      | Inr _ \<Rightarrow>
          if direction > 3 \<or> clear_mode > 1 then Inl SP_INVAL
          else Inr \<lparr>ef_events = 0, spuTaskPendingRecv = 0, ppuWaitMask = 0, ppuWaitSlotAndMode = 0, ppuPendingRecv = 0,
            spuTaskUsedWaitSlots = 0, spuTaskWaitMode = 0, ef_spuPort = 0xff, ef_isIwl = (if isIwl then 1 else 0),
            ef_direction = ucast direction, ef_clearMode = ucast clear_mode, spuTaskWaitMask = replicate 16 0,
            pendingRecvTaskEvents = replicate 16 0, waitingTaskId = replicate 16 0, waitingTaskWklId = replicate 16 0,
            ef_addr = (if isIwl then spurs else taskset), ef_eventPortId = 0, ef_eventQueueId = 0\<rparr>)"

section \<open>Set\<close>

text \<open>The PPU waiter: the line, the bits it consumes and whether to wake it.\<close>

definition ef_set_ppu :: "u16 \<Rightarrow> event_flag \<Rightarrow> event_flag \<times> u16 \<times> bool" where
  "ef_set_ppu bits l =
     (let relevant = (ef_events l OR bits) AND ppuWaitMask l
      in if (ef_direction l = SPU2PPU_EF \<or> ef_direction l = ANY2ANY_EF) \<and> ppuWaitMask l \<noteq> 0 \<and>
            ef_satisfied (ppuWaitMask l) (ppuWaitSlotAndMode l AND 0x0f = 0) relevant
         then (l\<lparr>ppuPendingRecv := 1, ppuWaitMask := 0, pendingRecvTaskEvents :=
                 (pendingRecvTaskEvents l)[unat (drop_bit 4 (ppuWaitSlotAndMode l)) := relevant]\<rparr>, relevant, True)
         else (l, 0, False))"

text \<open>The scan of the waiting tasks in \<open>used\<close>: it collects the bits to clear, the slots delivered to, and whom to signal.\<close>

record ef_scan =
  scan_line :: event_flag
  scan_toClear :: u16
  scan_pending :: u16
  scan_wakes :: "(u8 \<times> u8) list"

definition ef_scan_bit :: "u16 \<Rightarrow> u16 \<Rightarrow> nat \<Rightarrow> ef_scan \<Rightarrow> ef_scan" where
  "ef_scan_bit bits used b s =
     (let l = scan_line s; slot = slot_of_bit b; want = spuTaskWaitMask l ! slot; relevant = (ef_events l OR bits) AND want
      in if bit used b \<and> ef_satisfied want (\<not> bit (spuTaskWaitMode l) b) relevant
         then s\<lparr>scan_line := l\<lparr>pendingRecvTaskEvents := (pendingRecvTaskEvents l)[slot := relevant]\<rparr>,
                scan_toClear := scan_toClear s OR relevant, scan_pending := set_bit b (scan_pending s),
                scan_wakes := scan_wakes s @ [(waitingTaskWklId l ! slot, waitingTaskId l ! slot)]\<rparr>
         else s)"

text \<open>What a set leaves to be done once its line is stored: the port to send an event to, and the tasks to signal.\<close>

record ef_wake =
  wake_ppu :: bool
  wake_port :: u8
  wake_isIwl :: bool
  wake_addr :: u64
  wake_tasks :: "(u8 \<times> u8) list"

definition ef_set_decision :: "u16 \<Rightarrow> event_flag \<Rightarrow> (event_flag, spurs_error + ef_wake) decision" where
  "ef_set_decision bits l0 =
     (if ef_direction l0 = PPU2SPU_EF then Return (Inl SP_PERM)
      else let (l, toClear, ppu) = ef_set_ppu bits l0;
               used = spuTaskUsedWaitSlots l AND NOT (spuTaskPendingRecv l);
               s = fold (ef_scan_bit bits used) [0..<16] \<lparr>scan_line = l, scan_toClear = toClear, scan_pending = 0, scan_wakes = []\<rparr>;
               l = scan_line s;
               l = l\<lparr>ef_events := ef_events l OR bits, spuTaskPendingRecv := spuTaskPendingRecv l OR scan_pending s\<rparr>;
               l = (if ef_clearMode l = CLEAR_AUTO then l\<lparr>ef_events := ef_events l AND NOT (scan_toClear s)\<rparr> else l)
           in Store l (Inr \<lparr>wake_ppu = ppu, wake_port = ef_spuPort l, wake_isIwl = (ef_isIwl l \<noteq> 0), wake_addr = ef_addr l,
                wake_tasks = scan_wakes s\<rparr>))"

text \<open>
  The taskset of a waiter; \<open>read64\<close> is the main memory.  The mailboxes of \<open>send_port_event\<close> are given by whether the
  inbound one is empty and by the PPU's answer.
\<close>

definition waiter_taskset :: "(u64 \<Rightarrow> u64) \<Rightarrow> u64 \<Rightarrow> bool \<Rightarrow> u8 \<Rightarrow> u64 option" where
  "waiter_taskset read64 addr isIwl wkl =
     (if \<not> isIwl then Some addr
      else if wkl \<ge> 32 then None
      else Some (read64 (addr + (if wkl AND 0x10 \<noteq> 0 then 0x1000 else 0xb00) + ucast (wkl AND 0xf) * 0x20 + 0x08)))"

definition send_port_event :: "bool \<Rightarrow> u32 \<Rightarrow> u8 \<Rightarrow> u32" where
  "send_port_event mbox_empty answer port =
     (if port > 63 then 0x80010002 else if \<not> mbox_empty then 0x8001000a else answer)"

text \<open>The wake-ups of a set one after the other, over the signals of the tasks.\<close>

fun ef_signal_all :: "nat \<Rightarrow> (nat \<Rightarrow> spurs_task) \<Rightarrow> (u64 \<Rightarrow> u64) \<Rightarrow> u64 \<Rightarrow> bool \<Rightarrow> (u8 \<times> u8) list \<Rightarrow> (nat \<Rightarrow> bool) \<Rightarrow>
    (spurs_error + unit) \<times> (nat \<Rightarrow> bool)" where
  "ef_signal_all N task read64 addr isIwl [] signals = (Inr (), signals)"
| "ef_signal_all N task read64 addr isIwl ((wkl, i) # ws) signals =
     (case waiter_taskset read64 addr isIwl wkl of
        None \<Rightarrow> (Inl SP_FATAL, signals)
      | Some taskset \<Rightarrow>
          (case send_signal N task taskset i signals of
             None \<Rightarrow> (Inl SP_FATAL, signals)
           | Some signals' \<Rightarrow> ef_signal_all N task read64 addr isIwl ws signals'))"

definition ef_set_finish :: "nat \<Rightarrow> (nat \<Rightarrow> spurs_task) \<Rightarrow> (u64 \<Rightarrow> u64) \<Rightarrow> bool \<Rightarrow> u32 \<Rightarrow> ef_wake \<Rightarrow> (nat \<Rightarrow> bool) \<Rightarrow>
    (spurs_error + unit) \<times> (nat \<Rightarrow> bool)" where
  "ef_set_finish N task read64 mbox_empty answer w signals =
     (if wake_ppu w \<and> send_port_event mbox_empty answer (wake_port w) \<noteq> 0 then (Inl SP_FATAL, signals)
      else ef_signal_all N task read64 (wake_addr w) (wake_isIwl w) (wake_tasks w) signals)"

definition cellSpursEventFlagSet :: "nat \<Rightarrow> (nat \<Rightarrow> spurs_task) \<Rightarrow> (u64 \<Rightarrow> u64) \<Rightarrow> bool \<Rightarrow> u32 \<Rightarrow> u64 \<Rightarrow> u16 \<Rightarrow>
    (event_flag \<times> bool) list \<Rightarrow> (nat \<Rightarrow> bool) \<Rightarrow> (event_flag, (spurs_error + unit) \<times> (nat \<Rightarrow> bool)) outcome" where
  "cellSpursEventFlagSet N task read64 mbox_empty answer ea bits answers signals =
     (case spurs_check_ea ea of
        Inl e \<Rightarrow> Returned (Inl e, signals)
      | Inr _ \<Rightarrow>
          (case llsc_loop (ef_set_decision bits) answers of
             Spinning \<Rightarrow> Spinning
           | Returned (Inl e) \<Rightarrow> Returned (Inl e, signals)
           | Returned (Inr w) \<Rightarrow> Spinning
           | Stored l l' (Inr w) \<Rightarrow> Stored l l' (ef_set_finish N task read64 mbox_empty answer w signals)
           | Stored l l' (Inl e) \<Rightarrow> Stored l l' (Inl e, signals)))"

section \<open>Clear\<close>

definition ef_clear_decision :: "u16 \<Rightarrow> event_flag \<Rightarrow> (event_flag, unit) decision" where
  "ef_clear_decision bits l = Store (l\<lparr>ef_events := ef_events l AND NOT bits\<rparr>) ()"

definition cellSpursEventFlagClear :: "u64 \<Rightarrow> u16 \<Rightarrow> (event_flag \<times> bool) list \<Rightarrow> (event_flag, spurs_error + unit) outcome" where
  "cellSpursEventFlagClear ea bits answers =
     (case spurs_check_ea ea of
        Inl e \<Rightarrow> Returned (Inl e)
      | Inr _ \<Rightarrow> (case llsc_loop (ef_clear_decision bits) answers of
             Stored l l' r \<Rightarrow> Stored l l' (Inr ())
           | _ \<Rightarrow> Spinning))"

section \<open>Wait\<close>

text \<open>An AND waiter conflicts with any waiter whose mask overlaps its own and differs; an OR waiter only with AND waiters.\<close>

definition ef_conflict :: "u16 \<Rightarrow> bool \<Rightarrow> event_flag \<Rightarrow> bool" where
  "ef_conflict want or_mode l =
     (let others = spuTaskUsedWaitSlots l AND NOT (spuTaskPendingRecv l);
          others = (if or_mode then others AND spuTaskWaitMode l else others)
      in \<exists>b \<in> set [0..<16]. let m = spuTaskWaitMask l ! slot_of_bit b in bit others b \<and> m AND want \<noteq> 0 \<and> m \<noteq> want)"

definition ef_free_bit :: "event_flag \<Rightarrow> nat option" where
  "ef_free_bit l = List.find (\<lambda>b. \<not> bit (spuTaskUsedWaitSlots l) b) [0..<16]"

text \<open>A pass of the loop ends the call with an error, with the bits received, or with the slot to block in.\<close>

datatype ef_wait_next = EfReceived u16 | EfBlock nat

definition ef_wait_decision :: "spurs_task \<Rightarrow> u16 \<Rightarrow> bool \<Rightarrow> bool \<Rightarrow> event_flag \<Rightarrow> (event_flag, spurs_error + ef_wait_next) decision" where
  "ef_wait_decision task want or_mode block l =
     (if ef_direction l = SPU2PPU_EF then Return (Inl SP_PERM)
      else let relevant = ef_events l AND want
        in if ef_direction l = ANY2ANY_EF \<and> ef_conflict want or_mode l then Return (Inl SP_AGAIN)
           else if ef_satisfied want or_mode relevant
           then Store (if ef_clearMode l = CLEAR_AUTO then l\<lparr>ef_events := ef_events l AND NOT relevant\<rparr> else l) (Inr (EfReceived relevant))
           else if \<not> block then Return (Inl SP_BUSY)
           else (case ef_free_bit l of
                   None \<Rightarrow> Return (Inl SP_BUSY)
                 | Some b \<Rightarrow> let slot = slot_of_bit b in
                     Store (l\<lparr>spuTaskUsedWaitSlots := set_bit b (spuTaskUsedWaitSlots l),
                              spuTaskPendingRecv := unset_bit b (spuTaskPendingRecv l),
                              spuTaskWaitMode := (if or_mode then unset_bit b (spuTaskWaitMode l) else set_bit b (spuTaskWaitMode l)),
                              spuTaskWaitMask := (spuTaskWaitMask l)[slot := want],
                              waitingTaskId := (waitingTaskId l)[slot := task_id task],
                              waitingTaskWklId := (waitingTaskWklId l)[slot := task_wkl task]\<rparr>) (Inr (EfBlock b))))"

text \<open>A signalled waiter looks whether its slot was delivered to; if so it takes the bits and frees the slot.\<close>

definition ef_receive_decision :: "nat \<Rightarrow> event_flag \<Rightarrow> (event_flag, u16 option) decision" where
  "ef_receive_decision b l =
     (if \<not> bit (spuTaskPendingRecv l) b then Return None
      else Store (l\<lparr>spuTaskUsedWaitSlots := unset_bit b (spuTaskUsedWaitSlots l),
                    spuTaskPendingRecv := unset_bit b (spuTaskPendingRecv l)\<rparr>) (Some (pendingRecvTaskEvents l ! slot_of_bit b)))"

definition ef_wait_check :: "u64 \<Rightarrow> bool \<Rightarrow> u32 \<Rightarrow> spurs_error + unit" where
  "ef_wait_check ea bits_given mode =
     (case spurs_check_ea ea of
        Inl e \<Rightarrow> Inl e
      | Inr _ \<Rightarrow> if \<not> bits_given then Inl SP_NULL_POINTER else if mode > MODE_AND then Inl SP_INVAL else Inr ())"

text \<open>The whole call: the loop, then for each wake-up the result of \<open>cellSpursWaitSignal\<close> and the answers to the loop after it.\<close>

fun ef_wait_rest :: "nat \<Rightarrow> ((spurs_error + unit) \<times> (event_flag \<times> bool) list) list \<Rightarrow> (spurs_error + u16) option" where
  "ef_wait_rest b [] = None"
| "ef_wait_rest b ((Inl e, answers) # rest) = Some (Inl e)"
| "ef_wait_rest b ((Inr _, answers) # rest) =
     (case llsc_loop (ef_receive_decision b) answers of
        Stored l l' (Some received) \<Rightarrow> Some (Inr received)
      | Returned None \<Rightarrow> ef_wait_rest b rest
      | _ \<Rightarrow> None)"

definition cellSpursEventFlagWait :: "spurs_task \<Rightarrow> u64 \<Rightarrow> u16 option \<Rightarrow> u32 \<Rightarrow> bool \<Rightarrow> (event_flag \<times> bool) list \<Rightarrow>
    ((spurs_error + unit) \<times> (event_flag \<times> bool) list) list \<Rightarrow> (spurs_error + u16) option" where
  "cellSpursEventFlagWait task ea bits mode block answers rest =
     (case ef_wait_check ea (bits \<noteq> None) mode of
        Inl e \<Rightarrow> Some (Inl e)
      | Inr _ \<Rightarrow>
          (case llsc_loop (ef_wait_decision task (the bits) (mode = MODE_OR) block) answers of
             Returned (Inl e) \<Rightarrow> Some (Inl e)
           | Stored l l' (Inr (EfReceived received)) \<Rightarrow> Some (Inr received)
           | Stored l l' (Inr (EfBlock b)) \<Rightarrow> ef_wait_rest b rest
           | _ \<Rightarrow> None))"

section \<open>Queries\<close>

definition ef_query :: "(event_flag \<Rightarrow> 'a) \<Rightarrow> u64 \<Rightarrow> bool \<Rightarrow> event_flag \<Rightarrow> spurs_error + 'a" where
  "ef_query field ea given l =
     (case spurs_check_ea ea of Inl e \<Rightarrow> Inl e | Inr _ \<Rightarrow> if \<not> given then Inl SP_NULL_POINTER else Inr (field l))"

definition cellSpursEventFlagGetDirection :: "u64 \<Rightarrow> bool \<Rightarrow> event_flag \<Rightarrow> spurs_error + u8" where
  "cellSpursEventFlagGetDirection = ef_query ef_direction"

definition cellSpursEventFlagGetClearMode :: "u64 \<Rightarrow> bool \<Rightarrow> event_flag \<Rightarrow> spurs_error + u8" where
  "cellSpursEventFlagGetClearMode = ef_query ef_clearMode"

definition cellSpursEventFlagGetTasksetAddress :: "u64 \<Rightarrow> bool \<Rightarrow> event_flag \<Rightarrow> spurs_error + u64" where
  "cellSpursEventFlagGetTasksetAddress = ef_query (\<lambda>l. if ef_isIwl l \<noteq> 0 then 0 else ef_addr l)"

section \<open>Tasks sharing a flag\<close>

text \<open>
  A task does nothing with the flag, is blocked in the slot of a bit with its mask and mode, has been signalled and
  is about to look, has returned with the bits it received, has waiters left to signal, or has failed to.
\<close>

datatype ef_thread = EfIdle | EfBlocked nat u16 bool | EfSignalled nat u16 bool | EfGot u16 bool u16 | EfSetting "(u8 \<times> u8) list" | EfFatal

record ef_sys =
  es_line :: event_flag
  es_signals :: "nat \<Rightarrow> bool"
  es_threads :: "nat \<Rightarrow> ef_thread"

fun ef_ready :: "ef_thread \<Rightarrow> bool" where
  "ef_ready EfIdle = True" | "ef_ready (EfGot want or_mode r) = True" | "ef_ready s = False"

definition es_set :: "nat \<Rightarrow> ef_thread \<Rightarrow> ef_sys \<Rightarrow> ef_sys" where
  "es_set t s x = x\<lparr>es_threads := (es_threads x)(t := s)\<rparr>"

text \<open>Another object's use of the signals can wake a task at any time.\<close>

inductive ef_step :: "nat \<Rightarrow> (nat \<Rightarrow> spurs_task) \<Rightarrow> (u64 \<Rightarrow> u64) \<Rightarrow> ef_sys \<Rightarrow> ef_sys \<Rightarrow> bool" for N task read64 where
  set: "t < N \<Longrightarrow> ef_ready (es_threads x t) \<Longrightarrow> ef_set_decision bits (es_line x) = Store l' (Inr w) \<Longrightarrow>
    ef_step N task read64 x (es_set t (EfSetting (wake_tasks w)) (x\<lparr>es_line := l'\<rparr>))"
| signal: "t < N \<Longrightarrow> es_threads x t = EfSetting ((wkl, i) # ws) \<Longrightarrow>
    waiter_taskset read64 (ef_addr (es_line x)) (ef_isIwl (es_line x) \<noteq> 0) wkl = Some taskset \<Longrightarrow>
    send_signal N task taskset i (es_signals x) = Some signals' \<Longrightarrow>
    ef_step N task read64 x (es_set t (EfSetting ws) (x\<lparr>es_signals := signals'\<rparr>))"
| signal_fails: "t < N \<Longrightarrow> es_threads x t = EfSetting ((wkl, i) # ws) \<Longrightarrow>
    (case waiter_taskset read64 (ef_addr (es_line x)) (ef_isIwl (es_line x) \<noteq> 0) wkl of
       None \<Rightarrow> True | Some taskset \<Rightarrow> send_signal N task taskset i (es_signals x) = None) \<Longrightarrow>
    ef_step N task read64 x (es_set t EfFatal x)"
| set_done: "t < N \<Longrightarrow> es_threads x t = EfSetting [] \<Longrightarrow> ef_step N task read64 x (es_set t EfIdle x)"
| clear: "t < N \<Longrightarrow> ef_ready (es_threads x t) \<Longrightarrow> ef_clear_decision bits (es_line x) = Store l' () \<Longrightarrow>
    ef_step N task read64 x (x\<lparr>es_line := l'\<rparr>)"
| receive_now: "t < N \<Longrightarrow> ef_ready (es_threads x t) \<Longrightarrow>
    ef_wait_decision (task t) want or_mode block (es_line x) = Store l' (Inr (EfReceived r)) \<Longrightarrow>
    ef_step N task read64 x (es_set t (EfGot want or_mode r) (x\<lparr>es_line := l'\<rparr>))"
| block: "t < N \<Longrightarrow> ef_ready (es_threads x t) \<Longrightarrow>
    ef_wait_decision (task t) want or_mode block (es_line x) = Store l' (Inr (EfBlock b)) \<Longrightarrow>
    ef_step N task read64 x (es_set t (EfBlocked b want or_mode) (x\<lparr>es_line := l'\<rparr>))"
| signalled: "t < N \<Longrightarrow> es_threads x t = EfBlocked b want or_mode \<Longrightarrow> es_signals x t \<Longrightarrow>
    ef_step N task read64 x (es_set t (EfSignalled b want or_mode) (x\<lparr>es_signals := (es_signals x)(t := False)\<rparr>))"
| not_yet: "t < N \<Longrightarrow> es_threads x t = EfSignalled b want or_mode \<Longrightarrow> ef_receive_decision b (es_line x) = Return None \<Longrightarrow>
    ef_step N task read64 x (es_set t (EfBlocked b want or_mode) x)"
| receive: "t < N \<Longrightarrow> es_threads x t = EfSignalled b want or_mode \<Longrightarrow> ef_receive_decision b (es_line x) = Store l' (Some r) \<Longrightarrow>
    ef_step N task read64 x (es_set t (EfGot want or_mode r) (x\<lparr>es_line := l'\<rparr>))"
| other_signal: "t < N \<Longrightarrow> ef_step N task read64 x (x\<lparr>es_signals := (es_signals x)(t := True)\<rparr>)"

end
