(* ===== verification/Spurs_Event_Flag_Inv.thy ===== *)
theory Spurs_Event_Flag_Inv
  imports Spurs_Event_Flag
begin

text \<open>
  What a set does to the line, bit by bit, and the invariant of the tasks that share an event flag: who waits in which
  slot, what the slot says, and who still has to be signalled.
\<close>

section \<open>Conditions\<close>

lemma bit_u16_less: "bit (w :: u16) k \<Longrightarrow> k < 16"
  using bit_imp_le_length[of w k] by simp

lemma ef_satisfied_bits:
  "ef_satisfied want or_mode r \<longleftrightarrow> (\<forall>k. bit want k \<longrightarrow> bit r k) \<or> or_mode \<and> (\<exists>k. bit r k)"
proof -
  have "want AND NOT r = 0 \<longleftrightarrow> (\<forall>k. bit want k \<longrightarrow> bit r k)"
    using bit_u16_less by (auto simp: bit_eq_iff bit_simps)
  moreover have "r \<noteq> 0 \<longleftrightarrow> (\<exists>k. bit r k)" using bit_u16_less by (auto simp: bit_eq_iff)
  ultimately show ?thesis by (simp add: ef_satisfied_def)
qed

lemma ef_satisfied_mono:
  assumes "ef_satisfied want or_mode (e AND want)" "\<And>k. bit e k \<Longrightarrow> bit e' k"
  shows "ef_satisfied want or_mode (e' AND want)"
  using assms by (auto simp: ef_satisfied_bits bit_simps)

text \<open>Bits received: part of the mask, and enough for the mode.\<close>

definition ef_delivery :: "u16 \<Rightarrow> bool \<Rightarrow> u16 \<Rightarrow> bool" where
  "ef_delivery want or_mode r \<longleftrightarrow> ef_satisfied want or_mode r \<and> r AND NOT want = 0"

lemma ef_delivery_and: "ef_satisfied want or_mode (e AND want) \<Longrightarrow> ef_delivery want or_mode (e AND want)"
  by (auto simp: ef_delivery_def bit_eq_iff bit_simps)

lemma ef_delivery_and': "ef_satisfied want or_mode (want AND e) \<Longrightarrow> ef_delivery want or_mode (want AND e)"
  using ef_delivery_and[of want or_mode e] by (simp add: and.commute)

section \<open>Set\<close>

definition ef_relevant :: "u16 \<Rightarrow> event_flag \<Rightarrow> nat \<Rightarrow> u16" where
  "ef_relevant bits l b = (ef_events l OR bits) AND spuTaskWaitMask l ! slot_of_bit b"

definition ef_hit :: "u16 \<Rightarrow> u16 \<Rightarrow> event_flag \<Rightarrow> nat \<Rightarrow> bool" where
  "ef_hit bits used l b \<longleftrightarrow> bit used b \<and> ef_satisfied (spuTaskWaitMask l ! slot_of_bit b) (\<not> bit (spuTaskWaitMode l) b) (ef_relevant bits l b)"

definition ef_waiter_of :: "event_flag \<Rightarrow> nat \<Rightarrow> u8 \<times> u8" where
  "ef_waiter_of l b = (waitingTaskWklId l ! slot_of_bit b, waitingTaskId l ! slot_of_bit b)"

lemma ef_hit_frame [simp]:
  "ef_hit bits used (l\<lparr>pendingRecvTaskEvents := p\<rparr>) = ef_hit bits used l"
  "ef_relevant bits (l\<lparr>pendingRecvTaskEvents := p\<rparr>) = ef_relevant bits l"
  "ef_waiter_of (l\<lparr>pendingRecvTaskEvents := p\<rparr>) = ef_waiter_of l"
  by (simp_all add: fun_eq_iff ef_hit_def ef_relevant_def ef_waiter_of_def)

lemma ef_scan_bit_fields:
  "scan_line (ef_scan_bit bits used b s) = (scan_line s)\<lparr>pendingRecvTaskEvents := (if ef_hit bits used (scan_line s) b
     then (pendingRecvTaskEvents (scan_line s))[slot_of_bit b := ef_relevant bits (scan_line s) b] else pendingRecvTaskEvents (scan_line s))\<rparr>"
  "scan_toClear (ef_scan_bit bits used b s) = scan_toClear s OR (if ef_hit bits used (scan_line s) b then ef_relevant bits (scan_line s) b else 0)"
  "scan_pending (ef_scan_bit bits used b s) = (if ef_hit bits used (scan_line s) b then set_bit b (scan_pending s) else scan_pending s)"
  "scan_wakes (ef_scan_bit bits used b s) = scan_wakes s @ (if ef_hit bits used (scan_line s) b then [ef_waiter_of (scan_line s) b] else [])"
  by (simp_all add: ef_scan_bit_def ef_hit_def ef_relevant_def ef_waiter_of_def Let_def)

lemma slot_inj: "b < 16 \<Longrightarrow> c < 16 \<Longrightarrow> slot_of_bit b = slot_of_bit c \<longleftrightarrow> b = c"
  by (auto simp: slot_of_bit_def)

lemma slot_less [simp]: "slot_of_bit b < 16" by (simp add: slot_of_bit_def)

text \<open>The scan over a list of bits.\<close>

lemma ef_scan_wakes:
  "scan_wakes (fold (ef_scan_bit bits used) bs s) = scan_wakes s @ map (ef_waiter_of (scan_line s)) (filter (ef_hit bits used (scan_line s)) bs)"
  by (induction bs arbitrary: s) (simp_all add: ef_scan_bit_fields)

lemma ef_scan_toClear:
  fixes bits used :: u16
  shows "bit (scan_toClear (fold (ef_scan_bit bits used) bs s)) k \<longleftrightarrow>
    bit (scan_toClear s) k \<or> (\<exists>b \<in> set bs. ef_hit bits used (scan_line s) b \<and> bit (ef_relevant bits (scan_line s) b) k)"
  by (induction bs arbitrary: s) (simp_all add: ef_scan_bit_fields bit_or_iff disj_assoc)

lemma ef_scan_pending:
  fixes bits used :: u16
  assumes "k < 16"
  shows "bit (scan_pending (fold (ef_scan_bit bits used) bs s)) k \<longleftrightarrow>
    bit (scan_pending s) k \<or> k \<in> set bs \<and> ef_hit bits used (scan_line s) k"
  using assms by (induction bs arbitrary: s) (auto simp: ef_scan_bit_fields bit_set_bit_iff)

lemma ef_scan_line:
  fixes bits used :: u16
  assumes "length (pendingRecvTaskEvents (scan_line s)) = 16" "\<forall>b \<in> set bs. b < 16"
  shows "\<exists>p. length p = 16 \<and> scan_line (fold (ef_scan_bit bits used) bs s) = (scan_line s)\<lparr>pendingRecvTaskEvents := p\<rparr> \<and>
    (\<forall>b < 16. p ! slot_of_bit b = (if b \<in> set bs \<and> ef_hit bits used (scan_line s) b then ef_relevant bits (scan_line s) b
       else pendingRecvTaskEvents (scan_line s) ! slot_of_bit b))"
  using assms
proof (induction bs arbitrary: s)
  case Nil
  then show ?case by (intro exI[of _ "pendingRecvTaskEvents (scan_line s)"]) simp
next
  case (Cons b bs)
  let ?r = "ef_relevant bits (scan_line s) b"
  let ?p = "(pendingRecvTaskEvents (scan_line s))[slot_of_bit b := ?r]"
  have bs: "\<forall>b \<in> set bs. b < 16" and b: "b < 16" using Cons.prems by simp_all
  show ?case
  proof (cases "ef_hit bits used (scan_line s) b")
    case False
    define s' where "s' = ef_scan_bit bits used b s"
    have "scan_line s' = scan_line s" using False by (simp add: s'_def ef_scan_bit_fields)
    then show ?thesis using Cons.IH[of s'] Cons.prems(1) bs False by (auto simp: s'_def)
  next
    case True
    define s' where "s' = ef_scan_bit bits used b s"
    have l: "scan_line s' = (scan_line s)\<lparr>pendingRecvTaskEvents := ?p\<rparr>" using True by (simp add: s'_def ef_scan_bit_fields)
    have "length (pendingRecvTaskEvents (scan_line s')) = 16" using Cons.prems(1) by (simp add: l)
    from Cons.IH[OF this bs] obtain p where p: "length p = 16"
        "scan_line (fold (ef_scan_bit bits used) bs s') = (scan_line s)\<lparr>pendingRecvTaskEvents := p\<rparr>"
        "\<forall>c < 16. p ! slot_of_bit c = (if c \<in> set bs \<and> ef_hit bits used (scan_line s) c then ef_relevant bits (scan_line s) c else ?p ! slot_of_bit c)"
      unfolding l by auto
    have q: "?p ! slot_of_bit c = (if c = b then ?r else pendingRecvTaskEvents (scan_line s) ! slot_of_bit c)" if "c < 16" for c
      using slot_inj[OF that b] Cons.prems(1) by auto
    have f: "fold (ef_scan_bit bits used) (b # bs) s = fold (ef_scan_bit bits used) bs s'" by (simp add: s'_def)
    have "\<forall>c < 16. p ! slot_of_bit c = (if c \<in> set (b # bs) \<and> ef_hit bits used (scan_line s) c then ef_relevant bits (scan_line s) c
        else pendingRecvTaskEvents (scan_line s) ! slot_of_bit c)"
      using p(3) q True by simp
    then show ?thesis unfolding f using p(1,2) by blast
  qed
qed

text \<open>What is done for the PPU waiter first.\<close>

definition ef_ppu_hit :: "u16 \<Rightarrow> event_flag \<Rightarrow> bool" where
  "ef_ppu_hit bits l \<longleftrightarrow> (ef_direction l = SPU2PPU_EF \<or> ef_direction l = ANY2ANY_EF) \<and> ppuWaitMask l \<noteq> 0 \<and>
     ef_satisfied (ppuWaitMask l) (ppuWaitSlotAndMode l AND 0x0f = 0) ((ef_events l OR bits) AND ppuWaitMask l)"

lemma ef_set_ppu_none: "ppuWaitMask l = 0 \<Longrightarrow> ef_set_ppu bits l = (l, 0, False)"
  by (simp add: ef_set_ppu_def)

text \<open>The waiting bits, the bits a set uses up, and the whole of its decision.\<close>

definition ef_pendable :: "event_flag \<Rightarrow> u16" where
  "ef_pendable l = spuTaskUsedWaitSlots l AND NOT (spuTaskPendingRecv l)"

definition ef_used_up :: "u16 \<Rightarrow> event_flag \<Rightarrow> nat \<Rightarrow> bool" where
  "ef_used_up bits l k \<longleftrightarrow> ef_ppu_hit bits l \<and> bit ((ef_events l OR bits) AND ppuWaitMask l) k \<or>
     (\<exists>b < 16. ef_hit bits (ef_pendable l) l b \<and> bit (ef_relevant bits l b) k)"

lemma ef_set_spec:
  fixes bits :: u16
  assumes "ef_direction l \<noteq> PPU2SPU_EF" "length (pendingRecvTaskEvents l) = 16"
  defines "hit \<equiv> ef_hit bits (ef_pendable l) l"
  shows "\<exists>e f p q c w. ef_set_decision bits l = Store (l\<lparr>ef_events := e, spuTaskPendingRecv := f, pendingRecvTaskEvents := p,
        ppuPendingRecv := q, ppuWaitMask := c\<rparr>) (Inr w) \<and>
      (\<forall>k. bit e k \<longleftrightarrow> (bit (ef_events l) k \<or> bit bits k) \<and> \<not> (ef_clearMode l = CLEAR_AUTO \<and> ef_used_up bits l k)) \<and>
      (\<forall>b < 16. bit f b \<longleftrightarrow> bit (spuTaskPendingRecv l) b \<or> hit b) \<and> length p = 16 \<and>
      (\<forall>b < 16. hit b \<longrightarrow> p ! slot_of_bit b = ef_relevant bits l b) \<and>
      (\<forall>b < 16. \<not> hit b \<longrightarrow> \<not> ef_ppu_hit bits l \<longrightarrow> p ! slot_of_bit b = pendingRecvTaskEvents l ! slot_of_bit b) \<and>
      c = (if ef_ppu_hit bits l then 0 else ppuWaitMask l) \<and>
      w = \<lparr>wake_ppu = ef_ppu_hit bits l, wake_port = ef_spuPort l, wake_isIwl = (ef_isIwl l \<noteq> 0), wake_addr = ef_addr l,
        wake_tasks = map (ef_waiter_of l) (filter hit [0..<16])\<rparr>"
proof -
  let ?R = "(ef_events l OR bits) AND ppuWaitMask l"
  let ?p0 = "if ef_ppu_hit bits l then (pendingRecvTaskEvents l)[unat (drop_bit 4 (ppuWaitSlotAndMode l)) := ?R] else pendingRecvTaskEvents l"
  let ?l0 = "l\<lparr>ppuPendingRecv := (if ef_ppu_hit bits l then 1 else ppuPendingRecv l), ppuWaitMask := (if ef_ppu_hit bits l then 0 else ppuWaitMask l),
     pendingRecvTaskEvents := ?p0\<rparr>"
  let ?c0 = "if ef_ppu_hit bits l then ?R else 0"
  have ppu: "ef_set_ppu bits l = (?l0, ?c0, ef_ppu_hit bits l)"
    by (auto simp: ef_set_ppu_def ef_ppu_hit_def Let_def)
  let ?s = "\<lparr>scan_line = ?l0, scan_toClear = ?c0, scan_pending = 0, scan_wakes = []\<rparr>"
  have fr: "ef_hit bits u ?l0 = ef_hit bits u l" "ef_relevant bits ?l0 = ef_relevant bits l" "ef_waiter_of ?l0 = ef_waiter_of l" for u
    by (simp_all add: fun_eq_iff ef_hit_def ef_relevant_def ef_waiter_of_def)
  have len: "length (pendingRecvTaskEvents (scan_line ?s)) = 16" using assms(2) by simp
  have below: "\<forall>b \<in> set [0..<16]. b < 16" by simp
  let ?f = "fold (ef_scan_bit bits (ef_pendable l)) [0..<16] ?s"
  obtain p where p: "length p = 16" "scan_line ?f = ?l0\<lparr>pendingRecvTaskEvents := p\<rparr>"
      "\<forall>b < 16. p ! slot_of_bit b = (if hit b then ef_relevant bits l b else ?p0 ! slot_of_bit b)"
    using ef_scan_line[OF len below, of bits "ef_pendable l"] by (auto simp only: hit_def ef_scan.simps fr set_upt atLeastLessThan_iff) simp
  have clr: "bit (scan_toClear ?f) k \<longleftrightarrow> ef_used_up bits l k" for k
    unfolding ef_scan_toClear ef_scan.simps fr ef_used_up_def by auto
  have pend: "\<forall>b < 16. bit (scan_pending ?f) b \<longleftrightarrow> hit b"
    using ef_scan_pending[of _ bits "ef_pendable l" "[0..<16]" ?s] unfolding ef_scan.simps fr hit_def by simp
  have wk: "scan_wakes ?f = map (ef_waiter_of l) (filter hit [0..<16])" unfolding ef_scan_wakes ef_scan.simps fr hit_def by simp
  let ?e = "if ef_clearMode l = CLEAR_AUTO then (ef_events l OR bits) AND NOT (scan_toClear ?f) else ef_events l OR bits"
  let ?l' = "l\<lparr>ef_events := ?e, spuTaskPendingRecv := spuTaskPendingRecv l OR scan_pending ?f, pendingRecvTaskEvents := p,
     ppuPendingRecv := (if ef_ppu_hit bits l then 1 else ppuPendingRecv l), ppuWaitMask := (if ef_ppu_hit bits l then 0 else ppuWaitMask l)\<rparr>"
  let ?w = "\<lparr>wake_ppu = ef_ppu_hit bits l, wake_port = ef_spuPort l, wake_isIwl = (ef_isIwl l \<noteq> 0), wake_addr = ef_addr l,
        wake_tasks = map (ef_waiter_of l) (filter hit [0..<16])\<rparr>"
  have u: "spuTaskUsedWaitSlots ?l0 AND NOT (spuTaskPendingRecv ?l0) = ef_pendable l" by (simp add: ef_pendable_def)
  have "ef_set_decision bits l = Store ?l' (Inr ?w)"
    unfolding ef_set_decision_def ppu Let_def case_prod_conv u p(2) wk using assms(1) by simp
  moreover have "\<forall>k. bit ?e k \<longleftrightarrow> (bit (ef_events l) k \<or> bit bits k) \<and> \<not> (ef_clearMode l = CLEAR_AUTO \<and> ef_used_up bits l k)"
    using clr bit_u16_less by (auto simp: bit_simps)
  moreover have "\<forall>b < 16. bit (spuTaskPendingRecv l OR scan_pending ?f) b \<longleftrightarrow> bit (spuTaskPendingRecv l) b \<or> hit b"
    using pend by (auto simp: bit_simps)
  ultimately show ?thesis using p(1,3) by (intro exI conjI) auto
qed

section \<open>The invariant\<close>

definition ef_wf :: "event_flag \<Rightarrow> bool" where
  "ef_wf l \<longleftrightarrow> length (spuTaskWaitMask l) = 16 \<and> length (pendingRecvTaskEvents l) = 16 \<and> length (waitingTaskId l) = 16 \<and>
     length (waitingTaskWklId l) = 16 \<and> ppuWaitMask l = 0"

text \<open>What the slot of a waiting task says: who and what waits there, and a fitting delivery or that there is nothing for it.\<close>

definition ef_slot_ok :: "spurs_task \<Rightarrow> event_flag \<Rightarrow> nat \<Rightarrow> u16 \<Rightarrow> bool \<Rightarrow> bool" where
  "ef_slot_ok task l b want or_mode \<longleftrightarrow> b < 16 \<and> bit (spuTaskUsedWaitSlots l) b \<and> spuTaskWaitMask l ! slot_of_bit b = want \<and>
     (bit (spuTaskWaitMode l) b \<longleftrightarrow> \<not> or_mode) \<and> ef_waiter_of l b = (task_wkl task, task_id task) \<and>
     (if bit (spuTaskPendingRecv l) b then ef_delivery want or_mode (pendingRecvTaskEvents l ! slot_of_bit b)
      else \<not> ef_satisfied want or_mode (ef_events l AND want))"

fun ef_at :: "nat \<Rightarrow> ef_thread \<Rightarrow> bool" where
  "ef_at b (EfBlocked c want or_mode) = (c = b)" | "ef_at b (EfSignalled c want or_mode) = (c = b)" | "ef_at b s = False"

fun ef_view :: "spurs_task \<Rightarrow> event_flag \<Rightarrow> ef_thread \<Rightarrow> bool" where
  "ef_view task l (EfBlocked b want or_mode) = ef_slot_ok task l b want or_mode"
| "ef_view task l (EfSignalled b want or_mode) = ef_slot_ok task l b want or_mode"
| "ef_view task l (EfGot want or_mode r) = ef_delivery want or_mode r"
| "ef_view task l EfFatal = False"
| "ef_view task l s = True"

definition ef_names :: "spurs_task \<Rightarrow> u8 \<times> u8" where "ef_names task = (task_wkl task, task_id task)"

definition ef_owed :: "nat \<Rightarrow> (nat \<Rightarrow> spurs_task) \<Rightarrow> ef_sys \<Rightarrow> nat \<Rightarrow> bool" where
  "ef_owed N task x t \<longleftrightarrow> es_signals x t \<or> (\<exists>s < N. \<exists>ws. es_threads x s = EfSetting ws \<and> ef_names (task t) \<in> set ws)"

definition ef_slots :: "nat \<Rightarrow> event_flag \<Rightarrow> (nat \<Rightarrow> ef_thread) \<Rightarrow> bool" where
  "ef_slots N l thr \<longleftrightarrow> (\<forall>b. bit (spuTaskUsedWaitSlots l) b \<longrightarrow> (\<exists>t < N. ef_at b (thr t))) \<and>
     (\<forall>t < N. \<forall>u < N. \<forall>b. ef_at b (thr t) \<longrightarrow> ef_at b (thr u) \<longrightarrow> t = u) \<and>
     (\<forall>b. bit (spuTaskPendingRecv l) b \<longrightarrow> bit (spuTaskUsedWaitSlots l) b)"

text \<open>The taskset that the flag resolves a waiter to is the waiter's.\<close>

definition ef_resolves :: "nat \<Rightarrow> (nat \<Rightarrow> spurs_task) \<Rightarrow> (u64 \<Rightarrow> u64) \<Rightarrow> event_flag \<Rightarrow> bool" where
  "ef_resolves N task read64 l \<longleftrightarrow> (\<forall>t < N. waiter_taskset read64 (ef_addr l) (ef_isIwl l \<noteq> 0) (task_wkl (task t)) = Some (task_taskset (task t)))"

definition ef_inv :: "nat \<Rightarrow> (nat \<Rightarrow> spurs_task) \<Rightarrow> (u64 \<Rightarrow> u64) \<Rightarrow> ef_sys \<Rightarrow> bool" where
  "ef_inv N task read64 x \<longleftrightarrow> ef_wf (es_line x) \<and> ef_resolves N task read64 (es_line x) \<and> ef_slots N (es_line x) (es_threads x) \<and>
     (\<forall>t < N. ef_view (task t) (es_line x) (es_threads x t)) \<and>
     (\<forall>t < N. \<forall>b want or_mode. es_threads x t = EfBlocked b want or_mode \<longrightarrow> bit (spuTaskPendingRecv (es_line x)) b \<longrightarrow> ef_owed N task x t) \<and>
     (\<forall>t < N. \<forall>ws. es_threads x t = EfSetting ws \<longrightarrow> (\<forall>k \<in> set ws. \<exists>u < N. k = ef_names (task u)))"

lemma ef_invD:
  assumes "ef_inv N task read64 x"
  shows "ef_wf (es_line x)" "ef_resolves N task read64 (es_line x)" "ef_slots N (es_line x) (es_threads x)"
    "t < N \<Longrightarrow> ef_view (task t) (es_line x) (es_threads x t)"
    "t < N \<Longrightarrow> es_threads x t = EfBlocked b want or_mode \<Longrightarrow> bit (spuTaskPendingRecv (es_line x)) b \<Longrightarrow> ef_owed N task x t"
    "t < N \<Longrightarrow> es_threads x t = EfSetting ws \<Longrightarrow> k \<in> set ws \<Longrightarrow> \<exists>u < N. k = ef_names (task u)"
  using assms unfolding ef_inv_def by blast+

lemma ef_view_slot:
  assumes "ef_view task l s" "ef_at b s"
  shows "\<exists>want or_mode. ef_slot_ok task l b want or_mode"
  using assms by (cases s) auto

text \<open>A line on which the waiters' slots say what they said, and a thread's step between places outside the slots.\<close>

lemma ef_view_mono:
  assumes "ef_view task l s" "\<And>b want or_mode. ef_slot_ok task l b want or_mode \<Longrightarrow> ef_at b s \<Longrightarrow> ef_slot_ok task l' b want or_mode"
  shows "ef_view task l' s"
  using assms by (cases s) auto

lemma ef_slots_same:
  assumes "ef_slots N l thr" "spuTaskUsedWaitSlots l' = spuTaskUsedWaitSlots l" "\<forall>b. ef_at b s \<longleftrightarrow> ef_at b (thr t)"
    "\<forall>b. bit (spuTaskPendingRecv l') b \<longrightarrow> bit (spuTaskUsedWaitSlots l') b"
  shows "ef_slots N l' (thr(t := s))"
proof -
  have "ef_at b ((thr(t := s)) u) \<longleftrightarrow> ef_at b (thr u)" for b u using assms(3) by simp
  then show ?thesis using assms(1,2,4) by (simp add: ef_slots_def)
qed

section \<open>The steps\<close>

lemma ef_set_slot_ok:
  fixes bits :: u16
  assumes "ef_wf l" "ef_set_decision bits l = Store l' (Inr w)"
  shows "ef_wf l'" "spuTaskUsedWaitSlots l' = spuTaskUsedWaitSlots l" "ef_addr l' = ef_addr l" "ef_isIwl l' = ef_isIwl l"
    "ef_slot_ok task l b want or_mode \<Longrightarrow> ef_slot_ok task l' b want or_mode"
    "bit (spuTaskPendingRecv l') b \<Longrightarrow> bit (spuTaskPendingRecv l) b \<or> bit (spuTaskUsedWaitSlots l) b \<and> ef_waiter_of l b \<in> set (wake_tasks w)"
    "k \<in> set (wake_tasks w) \<Longrightarrow> \<exists>b. bit (spuTaskUsedWaitSlots l) b \<and> k = ef_waiter_of l b"
proof -
  let ?hit = "ef_hit bits (ef_pendable l) l"
  have dir: "ef_direction l \<noteq> PPU2SPU_EF" using assms(2) by (auto simp: ef_set_decision_def)
  have len: "length (pendingRecvTaskEvents l) = 16" using assms(1) by (simp add: ef_wf_def)
  have ppu: "\<not> ef_ppu_hit bits l" using assms(1) by (simp add: ef_wf_def ef_ppu_hit_def)
  obtain e f p q c where S: "l' = l\<lparr>ef_events := e, spuTaskPendingRecv := f, pendingRecvTaskEvents := p, ppuPendingRecv := q, ppuWaitMask := c\<rparr>"
      "\<forall>k. bit e k \<longleftrightarrow> (bit (ef_events l) k \<or> bit bits k) \<and> \<not> (ef_clearMode l = CLEAR_AUTO \<and> ef_used_up bits l k)"
      "\<forall>b < 16. bit f b \<longleftrightarrow> bit (spuTaskPendingRecv l) b \<or> ?hit b" "length p = 16"
      "\<forall>b < 16. ?hit b \<longrightarrow> p ! slot_of_bit b = ef_relevant bits l b"
      "\<forall>b < 16. \<not> ?hit b \<longrightarrow> p ! slot_of_bit b = pendingRecvTaskEvents l ! slot_of_bit b" "c = ppuWaitMask l"
      "wake_tasks w = map (ef_waiter_of l) (filter ?hit [0..<16])"
    using ef_set_spec[OF dir len, of bits] assms(2) ppu by auto
  show "ef_wf l'" "spuTaskUsedWaitSlots l' = spuTaskUsedWaitSlots l" "ef_addr l' = ef_addr l" "ef_isIwl l' = ef_isIwl l"
    using assms(1) S(1,4,7) by (simp_all add: ef_wf_def)
  have hitD: "bit (spuTaskUsedWaitSlots l) b \<and> \<not> bit (spuTaskPendingRecv l) b" if "?hit b" for b
    using that by (auto simp: ef_hit_def ef_pendable_def bit_simps)
  show "ef_slot_ok task l' b want or_mode" if ok: "ef_slot_ok task l b want or_mode"
  proof -
    have b: "b < 16" using ok by (simp add: ef_slot_ok_def)
    have w: "ef_waiter_of l' b = ef_waiter_of l b" by (simp add: S(1) ef_waiter_of_def)
    show ?thesis
    proof (cases "?hit b")
      case True
      then have "ef_delivery want or_mode (ef_relevant bits l b)"
        using ok ef_delivery_and by (auto simp: ef_slot_ok_def ef_hit_def ef_relevant_def)
      then show ?thesis using ok True S(3,5) b w by (simp add: ef_slot_ok_def S(1))
    next
      case False
      then have p: "bit f b \<longleftrightarrow> bit (spuTaskPendingRecv l) b" "p ! slot_of_bit b = pendingRecvTaskEvents l ! slot_of_bit b"
        using S(3,6) b by auto
      have "\<not> ef_satisfied want or_mode (e AND want)" if "\<not> bit (spuTaskPendingRecv l) b"
      proof
        assume "ef_satisfied want or_mode (e AND want)"
        then have "ef_satisfied want or_mode ((ef_events l OR bits) AND want)"
          by (rule ef_satisfied_mono) (use S(2) in \<open>simp add: bit_or_iff\<close>)
        then show False using False ok that b by (simp add: ef_hit_def ef_relevant_def ef_slot_ok_def ef_pendable_def bit_simps)
      qed
      then show ?thesis using ok p w by (auto simp: ef_slot_ok_def S(1))
    qed
  qed
  show "bit (spuTaskPendingRecv l) b \<or> bit (spuTaskUsedWaitSlots l) b \<and> ef_waiter_of l b \<in> set (wake_tasks w)" if "bit (spuTaskPendingRecv l') b"
    using S(1,3,8) that bit_u16_less[OF that] hitD[of b] by auto
  show "\<exists>b. bit (spuTaskUsedWaitSlots l) b \<and> k = ef_waiter_of l b" if "k \<in> set (wake_tasks w)"
    using that hitD by (auto simp: S(8))
qed

lemma ef_lower_slot_ok:
  assumes "ef_slot_ok task l b want or_mode" "\<And>k. bit e k \<Longrightarrow> bit (ef_events l) k"
  shows "ef_slot_ok task (l\<lparr>ef_events := e\<rparr>) b want or_mode"
  using assms ef_satisfied_mono[of want or_mode e "ef_events l"] by (auto simp: ef_slot_ok_def ef_waiter_of_def)

lemma ef_free_bit_found: "ef_free_bit l = Some b \<Longrightarrow> b < 16 \<and> \<not> bit (spuTaskUsedWaitSlots l) b"
  by (auto simp: ef_free_bit_def find_Some_iff)

lemma ef_free_bit_none: "ef_free_bit l = None \<longleftrightarrow> (\<forall>b < 16. bit (spuTaskUsedWaitSlots l) b)"
  by (auto simp: ef_free_bit_def find_None_iff)

lemma ef_received_now:
  assumes "ef_wait_decision task want or_mode block l = Store l' (Inr (EfReceived r))"
  shows "ef_delivery want or_mode r \<and> (\<exists>e. l' = l\<lparr>ef_events := e\<rparr> \<and> (\<forall>k. bit e k \<longrightarrow> bit (ef_events l) k))"
proof -
  let ?r = "ef_events l AND want"
  have s: "ef_satisfied want or_mode ?r" "r = ?r" "l' = (if ef_clearMode l = CLEAR_AUTO then l\<lparr>ef_events := ef_events l AND NOT ?r\<rparr> else l)"
    using assms by (auto simp: ef_wait_decision_def Let_def split: if_splits option.splits)
  have "\<exists>e. l' = l\<lparr>ef_events := e\<rparr> \<and> (\<forall>k. bit e k \<longrightarrow> bit (ef_events l) k)"
    by (rule exI[of _ "if ef_clearMode l = CLEAR_AUTO then ef_events l AND NOT ?r else ef_events l"])
       (simp add: s(3) bit_and_iff)
  then show ?thesis using ef_delivery_and[OF s(1)] s(2) by simp
qed

lemma ef_blocked_slot:
  assumes "ef_wait_decision task want or_mode block l = Store l' (Inr (EfBlock b))" "ef_wf l"
  shows "b < 16" "\<not> bit (spuTaskUsedWaitSlots l) b" "ef_wf l'" "ef_addr l' = ef_addr l" "ef_isIwl l' = ef_isIwl l" "ef_slot_ok task l' b want or_mode"
    "bit (spuTaskUsedWaitSlots l') k \<longleftrightarrow> bit (spuTaskUsedWaitSlots l) k \<or> k = b" "bit (spuTaskPendingRecv l') k \<longleftrightarrow> bit (spuTaskPendingRecv l) k \<and> k \<noteq> b"
    "c \<noteq> b \<Longrightarrow> ef_slot_ok u l c w o' \<Longrightarrow> ef_slot_ok u l' c w o'"
proof -
  let ?slot = "slot_of_bit b"
  have un: "\<not> ef_satisfied want or_mode (ef_events l AND want)" and fb: "ef_free_bit l = Some b"
    and l': "l' = l\<lparr>spuTaskUsedWaitSlots := set_bit b (spuTaskUsedWaitSlots l), spuTaskPendingRecv := unset_bit b (spuTaskPendingRecv l),
       spuTaskWaitMode := (if or_mode then unset_bit b (spuTaskWaitMode l) else set_bit b (spuTaskWaitMode l)),
       spuTaskWaitMask := (spuTaskWaitMask l)[?slot := want], waitingTaskId := (waitingTaskId l)[?slot := task_id task],
       waitingTaskWklId := (waitingTaskWklId l)[?slot := task_wkl task]\<rparr>"
    using assms(1) by (auto simp: ef_wait_decision_def Let_def split: if_splits option.splits)
  show b: "b < 16" "\<not> bit (spuTaskUsedWaitSlots l) b" using ef_free_bit_found[OF fb] by auto
  have len: "length (spuTaskWaitMask l) = 16" "length (waitingTaskId l) = 16" "length (waitingTaskWklId l) = 16"
    using assms(2) by (simp_all add: ef_wf_def)
  show "ef_wf l'" "ef_addr l' = ef_addr l" "ef_isIwl l' = ef_isIwl l" using assms(2) by (simp_all add: ef_wf_def l')
  show "ef_slot_ok task l' b want or_mode" using b un len by (simp add: ef_slot_ok_def l' bit_simps ef_waiter_of_def)
  show "bit (spuTaskUsedWaitSlots l') k \<longleftrightarrow> bit (spuTaskUsedWaitSlots l) k \<or> k = b"
      "bit (spuTaskPendingRecv l') k \<longleftrightarrow> bit (spuTaskPendingRecv l) k \<and> k \<noteq> b"
    using b(1) by (auto simp: l' bit_simps)
  show "ef_slot_ok u l' c w o'" if c: "c \<noteq> b" "ef_slot_ok u l c w o'"
  proof -
    have "slot_of_bit c \<noteq> ?slot" using c slot_inj[of c b] b(1) by (auto simp: ef_slot_ok_def)
    then show ?thesis using c by (auto simp: ef_slot_ok_def l' bit_simps ef_waiter_of_def)
  qed
qed

lemma ef_received_slot:
  assumes "ef_receive_decision b l = Store l' (Some r)"
  shows "bit (spuTaskPendingRecv l) b" "r = pendingRecvTaskEvents l ! slot_of_bit b" "ef_addr l' = ef_addr l" "ef_isIwl l' = ef_isIwl l" "ef_wf l \<Longrightarrow> ef_wf l'"
    "bit (spuTaskUsedWaitSlots l') k \<longleftrightarrow> bit (spuTaskUsedWaitSlots l) k \<and> k \<noteq> b" "bit (spuTaskPendingRecv l') k \<longleftrightarrow> bit (spuTaskPendingRecv l) k \<and> k \<noteq> b"
    "c \<noteq> b \<Longrightarrow> ef_slot_ok u l c w o' \<Longrightarrow> ef_slot_ok u l' c w o'"
proof -
  have l': "bit (spuTaskPendingRecv l) b" "r = pendingRecvTaskEvents l ! slot_of_bit b"
      "l' = l\<lparr>spuTaskUsedWaitSlots := unset_bit b (spuTaskUsedWaitSlots l), spuTaskPendingRecv := unset_bit b (spuTaskPendingRecv l)\<rparr>"
    using assms by (auto simp: ef_receive_decision_def split: if_splits)
  show "bit (spuTaskPendingRecv l) b" "r = pendingRecvTaskEvents l ! slot_of_bit b" by (fact l'(1,2))+
  show "ef_addr l' = ef_addr l" "ef_isIwl l' = ef_isIwl l" "ef_wf l \<Longrightarrow> ef_wf l'" by (simp_all add: l'(3) ef_wf_def)
  show "bit (spuTaskUsedWaitSlots l') k \<longleftrightarrow> bit (spuTaskUsedWaitSlots l) k \<and> k \<noteq> b"
      "bit (spuTaskPendingRecv l') k \<longleftrightarrow> bit (spuTaskPendingRecv l) k \<and> k \<noteq> b" by (auto simp: l'(3) bit_simps)
  show "ef_slot_ok u l' c w o'" if "c \<noteq> b" "ef_slot_ok u l c w o'"
    using that by (auto simp: ef_slot_ok_def l'(3) bit_simps ef_waiter_of_def)
qed

text \<open>What has to be shown of a step of one task.\<close>

lemma ef_inv_intro:
  assumes "ef_inv N task read64 x" "t < N" "ef_wf l'" "ef_addr l' = ef_addr (es_line x)" "ef_isIwl l' = ef_isIwl (es_line x)"
    "ef_slots N l' ((es_threads x)(t := s))" "\<And>u. u < N \<Longrightarrow> u \<noteq> t \<Longrightarrow> ef_view (task u) l' (es_threads x u)" "ef_view (task t) l' s"
    "\<And>u b want or_mode. u < N \<Longrightarrow> ((es_threads x)(t := s)) u = EfBlocked b want or_mode \<Longrightarrow> bit (spuTaskPendingRecv l') b \<Longrightarrow>
       ef_owed N task (es_set t s (x\<lparr>es_line := l', es_signals := sg\<rparr>)) u"
    "\<And>ws k. s = EfSetting ws \<Longrightarrow> k \<in> set ws \<Longrightarrow> \<exists>u < N. k = ef_names (task u)"
  shows "ef_inv N task read64 (es_set t s (x\<lparr>es_line := l', es_signals := sg\<rparr>))"
proof -
  have "ef_resolves N task read64 l'" using ef_invD(2)[OF assms(1)] assms(4,5) by (simp add: ef_resolves_def)
  moreover have "\<exists>u < N. k = ef_names (task u)" if "v < N" "((es_threads x)(t := s)) v = EfSetting ws" "k \<in> set ws" for v ws k
    using that assms(10)[of ws k] ef_invD(6)[OF assms(1), of v ws k] by (auto split: if_splits)
  moreover have "ef_view (task u) l' (((es_threads x)(t := s)) u)" if "u < N" for u using that assms(7,8) by simp
  ultimately show ?thesis using assms(3,6,9) unfolding ef_inv_def by (simp add: es_set_def)
qed

lemma ef_owed_frame:
  assumes "ef_owed N task x u" "\<And>u. es_signals x u \<Longrightarrow> sg u" "\<And>ws. es_threads x t \<noteq> EfSetting ws"
  shows "ef_owed N task (es_set t s (x\<lparr>es_line := l', es_signals := sg\<rparr>)) u"
proof (cases "es_signals x u")
  case True
  then show ?thesis using assms(2) by (simp add: ef_owed_def es_set_def)
next
  case False
  then obtain v ws where "v < N" "es_threads x v = EfSetting ws" "ef_names (task u) \<in> set ws" using assms(1) by (auto simp: ef_owed_def)
  moreover have "v \<noteq> t" using calculation(2) assms(3) by auto
  ultimately show ?thesis by (auto simp: ef_owed_def es_set_def)
qed

lemma ef_ready_not: "ef_ready s \<Longrightarrow> s \<noteq> EfSetting ws \<and> \<not> ef_at b s"
  by (cases s) auto

lemma ef_inv_set:
  assumes "ef_inv N task read64 x" "t < N" "ef_ready (es_threads x t)" "ef_set_decision bits (es_line x) = Store l' (Inr w)"
  shows "ef_inv N task read64 (es_set t (EfSetting (wake_tasks w)) (x\<lparr>es_line := l', es_signals := es_signals x\<rparr>))"
proof (rule ef_inv_intro[OF assms(1,2)])
  note I = ef_invD[OF assms(1)] and S = ef_set_slot_ok[OF ef_invD(1)[OF assms(1)] assms(4)] and R = ef_ready_not[OF assms(3)]
  show "ef_wf l'" "ef_addr l' = ef_addr (es_line x)" "ef_isIwl l' = ef_isIwl (es_line x)" by (fact S)+
  have at: "\<exists>u < N. ef_at b (es_threads x u) \<and> ef_waiter_of (es_line x) b = ef_names (task u)" if "bit (spuTaskUsedWaitSlots (es_line x)) b" for b
  proof -
    obtain u where u: "u < N" "ef_at b (es_threads x u)" using I(3) \<open>bit (spuTaskUsedWaitSlots (es_line x)) b\<close> unfolding ef_slots_def by blast
    then show ?thesis using ef_view_slot[OF I(4)[OF u(1)] u(2)] by (auto simp: ef_slot_ok_def ef_names_def)
  qed
  have "\<forall>b. bit (spuTaskPendingRecv l') b \<longrightarrow> bit (spuTaskUsedWaitSlots l') b" using S(2,6) I(3) unfolding ef_slots_def by metis
  then show "ef_slots N l' ((es_threads x)(t := EfSetting (wake_tasks w)))" using ef_slots_same[OF I(3) S(2)] R by simp
  show "ef_view (task u) l' (es_threads x u)" if "u < N" "u \<noteq> t" for u
    by (rule ef_view_mono[OF I(4)[OF that(1)]]) (use S(5) in simp)
  show "ef_view (task t) l' (EfSetting (wake_tasks w))" by simp
  show "\<exists>u < N. k = ef_names (task u)" if "EfSetting (wake_tasks w) = EfSetting ws" "k \<in> set ws" for ws k
    using S(7)[of k] at that by auto
  show "ef_owed N task (es_set t (EfSetting (wake_tasks w)) (x\<lparr>es_line := l', es_signals := es_signals x\<rparr>)) u"
    if u: "u < N" "((es_threads x)(t := EfSetting (wake_tasks w))) u = EfBlocked b want or_mode" "bit (spuTaskPendingRecv l') b" for u b want or_mode
  proof -
    have ut: "es_threads x u = EfBlocked b want or_mode" using u(2) by (auto split: if_splits)
    have sl: "ef_slot_ok (task u) (es_line x) b want or_mode" using I(4)[OF u(1)] ut by simp
    show ?thesis
    proof (cases "bit (spuTaskPendingRecv (es_line x)) b")
      case True
      show ?thesis by (rule ef_owed_frame[OF I(5)[OF u(1) ut True]]) (use R in auto)
    next
      case False
      then have "ef_names (task u) \<in> set (wake_tasks w)" using S(6)[OF u(3)] sl by (auto simp: ef_slot_ok_def ef_names_def)
      then show ?thesis using assms(2) by (auto simp: ef_owed_def es_set_def)
    qed
  qed
qed

text \<open>Lowering the events, as clear and a satisfied wait do.\<close>

lemma ef_inv_lower:
  assumes "ef_inv N task read64 x" "t < N" "ef_ready (es_threads x t)" "\<And>k. bit e k \<Longrightarrow> bit (ef_events (es_line x)) k" "ef_ready s"
    "ef_view (task t) (es_line x) s"
  shows "ef_inv N task read64 (es_set t s (x\<lparr>es_line := (es_line x)\<lparr>ef_events := e\<rparr>, es_signals := es_signals x\<rparr>))"
proof (rule ef_inv_intro[OF assms(1,2)])
  note I = ef_invD[OF assms(1)] and R = ef_ready_not[OF assms(3)] and R' = ef_ready_not[OF assms(5)]
  let ?l = "(es_line x)\<lparr>ef_events := e\<rparr>"
  show "ef_wf ?l" using I(1) by (simp add: ef_wf_def)
  have "\<forall>b. bit (spuTaskPendingRecv ?l) b \<longrightarrow> bit (spuTaskUsedWaitSlots ?l) b" using I(3) by (simp add: ef_slots_def)
  then show "ef_slots N ?l ((es_threads x)(t := s))" using ef_slots_same[OF I(3), of ?l s t] R R' by simp
  show "ef_view (task u) ?l (es_threads x u)" if "u < N" "u \<noteq> t" for u
    by (rule ef_view_mono[OF I(4)[OF that(1)]]) (use ef_lower_slot_ok assms(4) in blast)
  show "ef_view (task t) ?l s" using assms(5,6) by (cases s) auto
  show "ef_owed N task (es_set t s (x\<lparr>es_line := ?l, es_signals := es_signals x\<rparr>)) u"
    if u: "u < N" "((es_threads x)(t := s)) u = EfBlocked b want or_mode" "bit (spuTaskPendingRecv ?l) b" for u b want or_mode
  proof -
    have "es_threads x u = EfBlocked b want or_mode" using u(2) R' assms(5) by (cases "u = t") auto
    then show ?thesis by (intro ef_owed_frame[OF I(5)[OF u(1)]]) (use u(3) R in auto)
  qed
qed (use ef_ready_not[OF assms(5)] in auto)

lemma ef_inv_block:
  assumes "ef_inv N task read64 x" "t < N" "ef_ready (es_threads x t)"
    "ef_wait_decision (task t) want or_mode block (es_line x) = Store l' (Inr (EfBlock b))"
  shows "ef_inv N task read64 (es_set t (EfBlocked b want or_mode) (x\<lparr>es_line := l', es_signals := es_signals x\<rparr>))"
proof (rule ef_inv_intro[OF assms(1,2)])
  note I = ef_invD[OF assms(1)] and R = ef_ready_not[OF assms(3)] and B = ef_blocked_slot[OF assms(4) ef_invD(1)[OF assms(1)]]
  show "ef_wf l'" "ef_addr l' = ef_addr (es_line x)" "ef_isIwl l' = ef_isIwl (es_line x)" by (fact B)+
  have free: "\<not> ef_at b (es_threads x u)" if "u < N" for u
    using ef_view_slot[OF I(4)[OF that]] B(2) by (auto simp: ef_slot_ok_def)
  show "ef_slots N l' ((es_threads x)(t := EfBlocked b want or_mode))"
    unfolding ef_slots_def
  proof (intro conjI allI impI)
    fix c assume "bit (spuTaskUsedWaitSlots l') c"
    then consider "c = b" | "bit (spuTaskUsedWaitSlots (es_line x)) c" using B(7) by blast
    then show "\<exists>u < N. ef_at c (((es_threads x)(t := EfBlocked b want or_mode)) u)"
    proof cases
      case 1
      then show ?thesis using assms(2) by (intro exI[of _ t]) simp
    next
      case 2
      then obtain u where "u < N" "ef_at c (es_threads x u)" using I(3) unfolding ef_slots_def by blast
      then show ?thesis using R by (intro exI[of _ u]) auto
    qed
  next
    fix u v c assume "u < N" "v < N" "ef_at c (((es_threads x)(t := EfBlocked b want or_mode)) u)" "ef_at c (((es_threads x)(t := EfBlocked b want or_mode)) v)"
    then show "u = v" using free I(3) unfolding ef_slots_def by (auto split: if_splits)
  next
    fix c assume "bit (spuTaskPendingRecv l') c"
    then show "bit (spuTaskUsedWaitSlots l') c" using B(7,8) I(3) unfolding ef_slots_def by blast
  qed
  show "ef_view (task u) l' (es_threads x u)" if "u < N" "u \<noteq> t" for u
    by (rule ef_view_mono[OF I(4)[OF that(1)]]) (metis B(9) free that(1))
  show "ef_view (task t) l' (EfBlocked b want or_mode)" using B(6) by simp
  show "ef_owed N task (es_set t (EfBlocked b want or_mode) (x\<lparr>es_line := l', es_signals := es_signals x\<rparr>)) u"
    if u: "u < N" "((es_threads x)(t := EfBlocked b want or_mode)) u = EfBlocked c w o'" "bit (spuTaskPendingRecv l') c" for u c w o'
  proof -
    have "es_threads x u = EfBlocked c w o'" "bit (spuTaskPendingRecv (es_line x)) c" using u(2,3) B(8) by (auto split: if_splits)
    then show ?thesis by (intro ef_owed_frame[OF I(5)[OF u(1)]]) (use R in auto)
  qed
qed simp

lemma ef_inv_receive:
  assumes "ef_inv N task read64 x" "t < N" "es_threads x t = EfSignalled b want or_mode" "ef_receive_decision b (es_line x) = Store l' (Some r)"
  shows "ef_inv N task read64 (es_set t (EfGot want or_mode r) (x\<lparr>es_line := l', es_signals := es_signals x\<rparr>))"
proof (rule ef_inv_intro[OF assms(1,2)])
  note I = ef_invD[OF assms(1)] and B = ef_received_slot[OF assms(4)]
  show "ef_wf l'" by (rule B(5)[OF I(1)])
  show "ef_addr l' = ef_addr (es_line x)" "ef_isIwl l' = ef_isIwl (es_line x)" by (fact B)+
  have only: "u = t" if "u < N" "ef_at b (es_threads x u)" for u
    using I(3) that assms(2,3) unfolding ef_slots_def by (metis ef_at.simps(2))
  show "ef_slots N l' ((es_threads x)(t := EfGot want or_mode r))"
    unfolding ef_slots_def
  proof (intro conjI allI impI)
    fix c assume "bit (spuTaskUsedWaitSlots l') c"
    then have c: "bit (spuTaskUsedWaitSlots (es_line x)) c" "c \<noteq> b" using B(6) by auto
    then obtain u where "u < N" "ef_at c (es_threads x u)" using I(3) unfolding ef_slots_def by blast
    then show "\<exists>u < N. ef_at c (((es_threads x)(t := EfGot want or_mode r)) u)" using c(2) assms(3) by (intro exI[of _ u]) auto
  next
    fix u v c assume "u < N" "v < N" "ef_at c (((es_threads x)(t := EfGot want or_mode r)) u)" "ef_at c (((es_threads x)(t := EfGot want or_mode r)) v)"
    then show "u = v" using I(3) unfolding ef_slots_def by (auto split: if_splits)
  next
    fix c assume "bit (spuTaskPendingRecv l') c"
    then show "bit (spuTaskUsedWaitSlots l') c" using B(6,7) I(3) unfolding ef_slots_def by blast
  qed
  show "ef_view (task u) l' (es_threads x u)" if "u < N" "u \<noteq> t" for u
    by (rule ef_view_mono[OF I(4)[OF that(1)]]) (metis B(8) only that)
  show "ef_view (task t) l' (EfGot want or_mode r)" using I(4)[OF assms(2)] assms(3) B(1,2) by (simp add: ef_slot_ok_def)
  show "ef_owed N task (es_set t (EfGot want or_mode r) (x\<lparr>es_line := l', es_signals := es_signals x\<rparr>)) u"
    if u: "u < N" "((es_threads x)(t := EfGot want or_mode r)) u = EfBlocked c w o'" "bit (spuTaskPendingRecv l') c" for u c w o'
  proof -
    have "es_threads x u = EfBlocked c w o'" "bit (spuTaskPendingRecv (es_line x)) c" using u(2,3) B(7) by (auto split: if_splits)
    then show ?thesis by (intro ef_owed_frame[OF I(5)[OF u(1)]]) (use assms(3) in auto)
  qed
qed simp

text \<open>The steps that leave the line alone.\<close>

lemma ef_inv_signal:
  assumes "ef_inv N task read64 x" "t < N" "es_threads x t = EfSetting ((wkl, i) # ws)"
    "waiter_taskset read64 (ef_addr (es_line x)) (ef_isIwl (es_line x) \<noteq> 0) wkl = Some taskset"
    "send_signal N task taskset i (es_signals x) = Some sg"
  shows "ef_inv N task read64 (es_set t (EfSetting ws) (x\<lparr>es_line := es_line x, es_signals := sg\<rparr>))"
proof (rule ef_inv_intro[OF assms(1,2)])
  note I = ef_invD[OF assms(1)]
  show "ef_wf (es_line x)" by (rule I(1))
  show "ef_slots N (es_line x) ((es_threads x)(t := EfSetting ws))"
    by (rule ef_slots_same[OF I(3) refl]) (use assms(3) I(3) in \<open>auto simp: ef_slots_def\<close>)
  show "ef_view (task u) (es_line x) (es_threads x u)" if "u < N" for u by (rule I(4)[OF that])
  show "\<exists>u < N. k = ef_names (task u)" if "EfSetting ws = EfSetting ws'" "k \<in> set ws'" for ws' k
    using I(6)[OF assms(2,3), of k] that by auto
  show "ef_owed N task (es_set t (EfSetting ws) (x\<lparr>es_line := es_line x, es_signals := sg\<rparr>)) u"
    if u: "u < N" "((es_threads x)(t := EfSetting ws)) u = EfBlocked b want or_mode" "bit (spuTaskPendingRecv (es_line x)) b" for u b want or_mode
  proof -
    have "es_threads x u = EfBlocked b want or_mode" using u(2) by (auto split: if_splits)
    then have "ef_owed N task x u" using I(5) u(1,3) by blast
    then consider "es_signals x u" | v vs where "v < N" "v \<noteq> t" "es_threads x v = EfSetting vs" "ef_names (task u) \<in> set vs"
      | "ef_names (task u) \<in> set ((wkl, i) # ws)"
      using assms(3) unfolding ef_owed_def by (metis ef_thread.inject(4))
    then show ?thesis
    proof cases
      case 1
      then show ?thesis using send_signal_mono[OF assms(5)] by (simp add: ef_owed_def es_set_def)
    next
      case 2
      then show ?thesis by (auto simp: ef_owed_def es_set_def)
    next
      case 3
      show ?thesis
      proof (cases "ef_names (task u) \<in> set ws")
        case True
        then show ?thesis using assms(2) by (auto simp: ef_owed_def es_set_def)
      next
        case False
        then have n: "task_wkl (task u) = wkl" "task_id (task u) = i" using 3 by (simp_all add: ef_names_def)
        have "waiter_taskset read64 (ef_addr (es_line x)) (ef_isIwl (es_line x) \<noteq> 0) (task_wkl (task u)) = Some (task_taskset (task u))"
          using I(2) u(1) by (simp add: ef_resolves_def)
        then have "task_taskset (task u) = taskset" using assms(4) n(1) by simp
        then have "sg u" using send_signal_reaches[of u N task taskset i "es_signals x"] u(1) n(2) assms(5) by auto
        then show ?thesis by (simp add: ef_owed_def es_set_def)
      qed
    qed
  qed
qed simp_all

lemma ef_signal_reaches:
  assumes "ef_inv N task read64 x" "t < N" "es_threads x t = EfSetting ((wkl, i) # ws)"
  shows "\<exists>taskset sg. waiter_taskset read64 (ef_addr (es_line x)) (ef_isIwl (es_line x) \<noteq> 0) wkl = Some taskset \<and>
    send_signal N task taskset i (es_signals x) = Some sg"
proof -
  note I = ef_invD[OF assms(1)]
  obtain u where u: "u < N" "(wkl, i) = ef_names (task u)" using I(6)[OF assms(2,3), of "(wkl, i)"] by auto
  then have "waiter_taskset read64 (ef_addr (es_line x)) (ef_isIwl (es_line x) \<noteq> 0) wkl = Some (task_taskset (task u))"
    using I(2) by (auto simp: ef_resolves_def ef_names_def)
  moreover have "\<exists>sg. send_signal N task (task_taskset (task u)) i (es_signals x) = Some sg"
    using send_signal_reaches[of u N task "task_taskset (task u)" i "es_signals x"] u by (auto simp: ef_names_def)
  ultimately show ?thesis by blast
qed

lemma ef_inv_move:
  assumes "ef_inv N task read64 x" "t < N" "\<forall>b. ef_at b s \<longleftrightarrow> ef_at b (es_threads x t)" "ef_view (task t) (es_line x) s"
    "\<And>ws. s \<noteq> EfSetting ws" "\<And>k ws. es_threads x t = EfSetting ws \<Longrightarrow> ws = []" "\<And>u. u \<noteq> t \<Longrightarrow> es_signals x u \<Longrightarrow> sg u"
    "\<And>b want or_mode. s = EfBlocked b want or_mode \<Longrightarrow> bit (spuTaskPendingRecv (es_line x)) b \<Longrightarrow> False"
  shows "ef_inv N task read64 (es_set t s (x\<lparr>es_line := es_line x, es_signals := sg\<rparr>))"
proof (rule ef_inv_intro[OF assms(1,2)])
  note I = ef_invD[OF assms(1)]
  show "ef_wf (es_line x)" by (rule I(1))
  show "ef_slots N (es_line x) ((es_threads x)(t := s))"
    by (rule ef_slots_same[OF I(3) refl assms(3)]) (use I(3) in \<open>simp add: ef_slots_def\<close>)
  show "ef_view (task u) (es_line x) (es_threads x u)" if "u < N" for u by (rule I(4)[OF that])
  show "ef_view (task t) (es_line x) s" by (rule assms(4))
  show "\<exists>u < N. k = ef_names (task u)" if "s = EfSetting ws" "k \<in> set ws" for ws k using assms(5) that by blast
  show "ef_owed N task (es_set t s (x\<lparr>es_line := es_line x, es_signals := sg\<rparr>)) u"
    if u: "u < N" "((es_threads x)(t := s)) u = EfBlocked b want or_mode" "bit (spuTaskPendingRecv (es_line x)) b" for u b want or_mode
  proof -
    have ut: "u \<noteq> t" using u(2,3) assms(8) by auto
    then have "ef_owed N task x u" using I(5)[OF u(1)] u(2,3) by simp
    then consider "es_signals x u" | v vs where "v < N" "v \<noteq> t" "es_threads x v = EfSetting vs" "ef_names (task u) \<in> set vs"
      using assms(6) unfolding ef_owed_def by (metis emptyE list.set(1))
    then show ?thesis by cases (use ut assms(7) in \<open>auto simp: ef_owed_def es_set_def\<close>)
  qed
qed simp_all

theorem ef_inv_step:
  assumes "ef_step N task read64 x y" "ef_inv N task read64 x"
  shows "ef_inv N task read64 y"
  using assms(1)
proof cases
  case (set t bits l' w)
  then show ?thesis using ef_inv_set[OF assms(2)] by (simp add: es_set_def)
next
  case (signal t wkl i ws taskset sg)
  then show ?thesis using ef_inv_signal[OF assms(2)] by (simp add: es_set_def)
next
  case (signal_fails t wkl i ws)
  then show ?thesis using ef_signal_reaches[OF assms(2) signal_fails(2,3)] by auto
next
  case (set_done t)
  then show ?thesis using ef_inv_move[OF assms(2), of t EfIdle "es_signals x"] by (simp add: es_set_def)
next
  case (clear t bits l')
  have "l' = (es_line x)\<lparr>ef_events := ef_events (es_line x) AND NOT bits\<rparr>" using clear(4) by (simp add: ef_clear_decision_def)
  moreover have "ef_view (task t) (es_line x) (es_threads x t)" by (rule ef_invD(4)[OF assms(2) clear(2)])
  ultimately show ?thesis
    using ef_inv_lower[OF assms(2) clear(2,3), of "ef_events (es_line x) AND NOT bits" "es_threads x t"] clear(1,3) by (simp add: es_set_def bit_and_iff)
next
  case (receive_now t want or_mode block l' r)
  obtain e where "l' = (es_line x)\<lparr>ef_events := e\<rparr>" "\<forall>k. bit e k \<longrightarrow> bit (ef_events (es_line x)) k" "ef_delivery want or_mode r"
    using ef_received_now[OF receive_now(4)] by blast
  then show ?thesis using ef_inv_lower[OF assms(2) receive_now(2,3), of e "EfGot want or_mode r"] receive_now(1) by (simp add: es_set_def)
next
  case block
  then show ?thesis using ef_inv_block[OF assms(2)] by (simp add: es_set_def)
next
  case (signalled t b want or_mode)
  then show ?thesis
    using ef_inv_move[OF assms(2), of t "EfSignalled b want or_mode" "(es_signals x)(t := False)"] ef_invD(4)[OF assms(2), of t] by (simp add: es_set_def)
next
  case (not_yet t b want or_mode)
  have "\<not> bit (spuTaskPendingRecv (es_line x)) b" using not_yet(4) by (auto simp: ef_receive_decision_def split: if_splits)
  then show ?thesis
    using ef_inv_move[OF assms(2), of t "EfBlocked b want or_mode" "es_signals x"] ef_invD(4)[OF assms(2), of t] not_yet by (simp add: es_set_def)
next
  case receive
  then show ?thesis using ef_inv_receive[OF assms(2)] by (simp add: es_set_def)
next
  case (other_signal t)
  then show ?thesis using assms(2) unfolding ef_inv_def ef_owed_def by auto
qed

section \<open>The start\<close>

definition ef_fresh :: "nat \<Rightarrow> (nat \<Rightarrow> spurs_task) \<Rightarrow> (u64 \<Rightarrow> u64) \<Rightarrow> ef_sys \<Rightarrow> bool" where
  "ef_fresh N task read64 x \<longleftrightarrow> (\<exists>taskset spurs ea clear_mode direction isIwl.
     cellSpursEventFlagInitialize taskset spurs ea clear_mode direction isIwl = Inr (es_line x)) \<and>
     ef_resolves N task read64 (es_line x) \<and> es_threads x = (\<lambda>_. EfIdle)"

lemma ef_initialized:
  assumes "cellSpursEventFlagInitialize taskset spurs ea clear_mode direction isIwl = Inr l"
  shows "ef_wf l \<and> spuTaskUsedWaitSlots l = 0 \<and> spuTaskPendingRecv l = 0"
  using assms by (cases "spurs_check_ea ea") (auto simp: cellSpursEventFlagInitialize_def ef_wf_def split: if_splits)

lemma ef_inv_start:
  assumes "ef_fresh N task read64 x"
  shows "ef_inv N task read64 x"
proof -
  have "ef_wf (es_line x) \<and> spuTaskUsedWaitSlots (es_line x) = 0 \<and> spuTaskPendingRecv (es_line x) = 0"
  proof -
    obtain taskset spurs ea c d i where "cellSpursEventFlagInitialize taskset spurs ea c d i = Inr (es_line x)"
      using assms by (auto simp: ef_fresh_def)
    then show ?thesis by (rule ef_initialized)
  qed
  then show ?thesis using assms by (auto simp: ef_fresh_def ef_inv_def ef_slots_def)
qed

lemma ef_reachable_inv:
  assumes "(ef_step N task read64)\<^sup>*\<^sup>* x y" "ef_fresh N task read64 x"
  shows "ef_inv N task read64 y"
  using assms(1)
proof (induction rule: rtranclp_induct)
  case base
  then show ?case by (rule ef_inv_start[OF assms(2)])
next
  case (step y z)
  then show ?case using ef_inv_step by blast
qed

end
