(* ===== verification/Spurs_Event_Flag_Props.thy ===== *)
theory Spurs_Event_Flag_Props
  imports Spurs_Event_Flag_Inv
begin

text \<open>
  The properties of the SPURS event flag, each with a witness.
\<close>

section \<open>Set\<close>

text \<open>C27: What a set does, bit by bit, on every line it may change: it delivers to exactly those slots that hold an
  undelivered waiter whose condition the old and the new bits together satisfy, each getting its part of them; it
  signals exactly the tasks of these slots; and the events afterwards are the old and the new ones, less, in automatic
  mode, every bit that was delivered to a task or to the PPU.\<close>

theorem ef_set_delivers:
  fixes bits :: u16
  assumes "ef_direction l \<noteq> PPU2SPU_EF" "length (pendingRecvTaskEvents l) = 16"
  defines "hit \<equiv> ef_hit bits (ef_pendable l) l"
  shows "\<exists>l' w. ef_set_decision bits l = Store l' (Inr w) \<and>
    (\<forall>k. bit (ef_events l') k \<longleftrightarrow> (bit (ef_events l) k \<or> bit bits k) \<and> \<not> (ef_clearMode l = CLEAR_AUTO \<and> ef_used_up bits l k)) \<and>
    (\<forall>b < 16. hit b \<longrightarrow> bit (spuTaskPendingRecv l') b \<and> pendingRecvTaskEvents l' ! slot_of_bit b = ef_relevant bits l b \<and>
       ef_waiter_of l b \<in> set (wake_tasks w)) \<and>
    (\<forall>b < 16. \<not> hit b \<longrightarrow> (bit (spuTaskPendingRecv l') b \<longleftrightarrow> bit (spuTaskPendingRecv l) b)) \<and>
    wake_tasks w = map (ef_waiter_of l) (filter hit [0..<16]) \<and> wake_ppu w = ef_ppu_hit bits l \<and>
    spuTaskUsedWaitSlots l' = spuTaskUsedWaitSlots l \<and> spuTaskWaitMask l' = spuTaskWaitMask l \<and> spuTaskWaitMode l' = spuTaskWaitMode l"
proof -
  obtain e f p q c w where "ef_set_decision bits l = Store (l\<lparr>ef_events := e, spuTaskPendingRecv := f, pendingRecvTaskEvents := p,
        ppuPendingRecv := q, ppuWaitMask := c\<rparr>) (Inr w)"
      "\<forall>k. bit e k \<longleftrightarrow> (bit (ef_events l) k \<or> bit bits k) \<and> \<not> (ef_clearMode l = CLEAR_AUTO \<and> ef_used_up bits l k)"
      "\<forall>b < 16. bit f b \<longleftrightarrow> bit (spuTaskPendingRecv l) b \<or> hit b" "\<forall>b < 16. hit b \<longrightarrow> p ! slot_of_bit b = ef_relevant bits l b"
      "w = \<lparr>wake_ppu = ef_ppu_hit bits l, wake_port = ef_spuPort l, wake_isIwl = (ef_isIwl l \<noteq> 0), wake_addr = ef_addr l,
        wake_tasks = map (ef_waiter_of l) (filter hit [0..<16])\<rparr>"
    using ef_set_spec[OF assms(1,2), of bits] unfolding hit_def[symmetric] by auto
  then show ?thesis by (intro exI[of _ "l\<lparr>ef_events := e, spuTaskPendingRecv := f, pendingRecvTaskEvents := p, ppuPendingRecv := q, ppuWaitMask := c\<rparr>"] exI[of _ w]) auto
qed

text \<open>A flag of a taskset, two tasks of it, and the first waiting for two bits.\<close>

definition example_flag :: event_flag where
  "example_flag = \<lparr>ef_events = 0, spuTaskPendingRecv = 0, ppuWaitMask = 0, ppuWaitSlotAndMode = 0, ppuPendingRecv = 0,
     spuTaskUsedWaitSlots = 0, spuTaskWaitMode = 0, ef_spuPort = 0xff, ef_isIwl = 0, ef_direction = 3, ef_clearMode = 0,
     spuTaskWaitMask = replicate 16 0, pendingRecvTaskEvents = replicate 16 0, waitingTaskId = replicate 16 0,
     waitingTaskWklId = replicate 16 0, ef_addr = 0x1000, ef_eventPortId = 0, ef_eventQueueId = 0\<rparr>"

definition example_task :: "nat \<Rightarrow> spurs_task" where
  "example_task t = \<lparr>task_taskset = 0x1000, task_id = of_nat t, task_wkl = 0\<rparr>"

definition example_waiting :: event_flag where
  "example_waiting = example_flag\<lparr>spuTaskUsedWaitSlots := 1, spuTaskWaitMode := 1, spuTaskWaitMask := (replicate 16 0)[15 := 3]\<rparr>"

lemma example_block: "ef_wait_decision (example_task 0) 3 False True example_flag = Store example_waiting (Inr (EfBlock 0))"
  by code_simp

definition example_delivered :: event_flag where
  "example_delivered = example_waiting\<lparr>spuTaskPendingRecv := 1, ef_events := 4, pendingRecvTaskEvents := (replicate 16 0)[15 := 3]\<rparr>"

definition example_wake :: ef_wake where
  "example_wake = \<lparr>wake_ppu = False, wake_port = 0xff, wake_isIwl = False, wake_addr = 0x1000, wake_tasks = [(0, 0)]\<rparr>"

lemma example_set: "ef_set_decision 7 example_waiting = Store example_delivered (Inr example_wake)"
  by code_simp

theorem ef_set_delivers_witness:
  "\<exists>l' w. ef_set_decision 7 example_waiting = Store l' (Inr w) \<and> wake_ppu w = ef_ppu_hit 7 example_waiting"
proof -
  have "ef_direction example_waiting \<noteq> PPU2SPU_EF" "length (pendingRecvTaskEvents example_waiting) = 16"
    by (simp_all add: example_waiting_def example_flag_def)
  from ef_set_delivers[OF this, of 7] show ?thesis by blast
qed

section \<open>Waiting\<close>

text \<open>C28: Whatever the tasks that share a flag do, no wait loses its wake-up and no two waits share a slot: a task that is
  blocked either has nothing on the line that satisfies it, or has had bits delivered that do, and then its signal is
  set or some setter is still to send it; a task that returned from a wait has bits of its mask that satisfy its mode;
  and no setter fails to signal, so that each can always take its next step.\<close>

theorem ef_no_lost_wakeup:
  assumes "(ef_step N task read64)\<^sup>*\<^sup>* x y" "ef_fresh N task read64 x"
  shows "(\<forall>t < N. \<forall>b want or_mode. es_threads y t = EfBlocked b want or_mode \<longrightarrow>
      (if bit (spuTaskPendingRecv (es_line y)) b
       then ef_delivery want or_mode (pendingRecvTaskEvents (es_line y) ! slot_of_bit b) \<and> ef_owed N task y t
       else \<not> ef_satisfied want or_mode (ef_events (es_line y) AND want))) \<and>
    (\<forall>t < N. \<forall>u < N. \<forall>b. ef_at b (es_threads y t) \<longrightarrow> ef_at b (es_threads y u) \<longrightarrow> t = u) \<and>
    (\<forall>t < N. \<forall>want or_mode r. es_threads y t = EfGot want or_mode r \<longrightarrow> ef_satisfied want or_mode r \<and> r AND NOT want = 0) \<and>
    (\<forall>t < N. es_threads y t \<noteq> EfFatal \<and> (\<forall>ws. es_threads y t = EfSetting ws \<longrightarrow> (\<exists>z. ef_step N task read64 y z \<and> es_threads z t \<noteq> EfSetting ws)))"
proof (intro conjI allI impI)
  note inv = ef_reachable_inv[OF assms] and I = ef_invD[OF ef_reachable_inv[OF assms]]
  show "if bit (spuTaskPendingRecv (es_line y)) b
       then ef_delivery want or_mode (pendingRecvTaskEvents (es_line y) ! slot_of_bit b) \<and> ef_owed N task y t
       else \<not> ef_satisfied want or_mode (ef_events (es_line y) AND want)"
    if "t < N" "es_threads y t = EfBlocked b want or_mode" for t b want or_mode
    using I(4)[OF that(1)] I(5)[OF that] that(2) by (auto simp: ef_slot_ok_def split: if_splits)
  show "t = u" if "t < N" "u < N" "ef_at b (es_threads y t)" "ef_at b (es_threads y u)" for t u b
    using I(3) that unfolding ef_slots_def by blast
  show "ef_satisfied want or_mode r" "r AND NOT want = 0" if "t < N" "es_threads y t = EfGot want or_mode r" for t want or_mode r
    using I(4)[OF that(1)] that(2) by (simp_all add: ef_delivery_def)
  show "es_threads y t \<noteq> EfFatal" if "t < N" for t using I(4)[OF that] by auto
  show "\<exists>z. ef_step N task read64 y z \<and> es_threads z t \<noteq> EfSetting ws" if t: "t < N" "es_threads y t = EfSetting ws" for t ws
  proof (cases ws)
    case Nil
    then show ?thesis using ef_step.set_done[of t N y task read64] t by (auto simp: es_set_def)
  next
    case (Cons k vs)
    obtain wkl i where k: "k = (wkl, i)" by (cases k)
    obtain taskset sg where s: "waiter_taskset read64 (ef_addr (es_line y)) (ef_isIwl (es_line y) \<noteq> 0) wkl = Some taskset"
        "send_signal N task taskset i (es_signals y) = Some sg"
      using ef_signal_reaches[OF inv t(1)] t(2) Cons k by blast
    show ?thesis using ef_step.signal[OF t(1) _ s] t(2) Cons k by (auto simp: es_set_def)
  qed
qed

definition example_start :: ef_sys where
  "example_start = \<lparr>es_line = example_flag, es_signals = (\<lambda>_. False), es_threads = (\<lambda>_. EfIdle)\<rparr>"

lemma example_flag_fresh: "ef_fresh 2 example_task (\<lambda>_. 0) example_start"
proof -
  have "cellSpursEventFlagInitialize 0x1000 0 0x80 0 3 False = Inr example_flag"
    by (simp add: cellSpursEventFlagInitialize_def spurs_check_ea_def example_flag_def)
  then have "\<exists>taskset spurs ea c d i. cellSpursEventFlagInitialize taskset spurs ea c d i = Inr (es_line example_start)"
    by (metis ef_sys.select_convs(1) example_start_def)
  then show ?thesis
    unfolding ef_fresh_def by (simp add: ef_resolves_def waiter_taskset_def example_task_def example_start_def example_flag_def)
qed

definition example_end :: ef_sys where
  "example_end = \<lparr>es_line = example_delivered, es_signals = (\<lambda>_. False), es_threads = (\<lambda>_. EfIdle)(0 := EfBlocked 0 3 False, 1 := EfSetting [(0, 0)])\<rparr>"

lemma example_flag_run: "(ef_step 2 example_task (\<lambda>_. 0))\<^sup>*\<^sup>* example_start example_end"
proof -
  let ?m = "es_set 0 (EfBlocked 0 3 False) (example_start\<lparr>es_line := example_waiting\<rparr>)"
  have "ef_step 2 example_task (\<lambda>_. 0) example_start ?m"
    by (rule ef_step.block[where block = True]) (simp_all add: example_start_def example_block)
  moreover have "ef_step 2 example_task (\<lambda>_. 0) ?m (es_set 1 (EfSetting (wake_tasks example_wake)) (?m\<lparr>es_line := example_delivered\<rparr>))"
    by (rule ef_step.set[where bits = 7]) (simp_all add: example_start_def es_set_def example_set)
  moreover have "es_set 1 (EfSetting (wake_tasks example_wake)) (?m\<lparr>es_line := example_delivered\<rparr>) = example_end"
    by (simp add: example_end_def es_set_def example_wake_def example_start_def)
  ultimately show ?thesis by (metis r_into_rtranclp rtranclp.rtrancl_into_rtrancl)
qed

theorem ef_no_lost_wakeup_witness:
  "ef_delivery 3 False 3 \<and> ef_owed 2 example_task example_end 0"
proof -
  have "(0 :: nat) < 2" "es_threads example_end 0 = EfBlocked 0 3 False" "bit (spuTaskPendingRecv (es_line example_end)) 0"
    "pendingRecvTaskEvents (es_line example_end) ! slot_of_bit 0 = 3"
    by (simp_all add: example_end_def example_delivered_def slot_of_bit_def)
  then show ?thesis using ef_no_lost_wakeup[OF example_flag_run example_flag_fresh] by metis
qed

end
