(* ===== verification/Spurs_Barrier.thy ===== *)
theory Spurs_Barrier
  imports Spurs_Base
begin

text \<open>
  \<open>sdk/libspurs_task/src/spurs_barrier.c\<close>: the barrier of SPURS, which opens once every task has notified; tasks that
  wait register in a set of ids on the line and the last notifier signals them.  The tasks that share a barrier are a
  step relation, with the invariant and its properties.
\<close>

section \<open>The line\<close>

text \<open>The words of the line the code uses; it stores the others as it loaded them.\<close>

record spurs_barrier =
  sb_released :: u32
  sb_remained :: u32
  sb_waiting :: "u32 list"
  sb_taskset :: u32

definition cellSpursBarrierInitialize :: "u64 \<Rightarrow> u64 \<Rightarrow> u32 \<Rightarrow> spurs_error + spurs_barrier" where
  "cellSpursBarrierInitialize taskset ea most =
     (case spurs_check_ea ea of
        Inl e \<Rightarrow> Inl e
      | Inr _ \<Rightarrow>
          if most = 0 \<or> most > 128 then Inl SP_INVAL
          else Inr \<lparr>sb_released = 0, sb_remained = most, sb_waiting = [0, 0, 0, 0], sb_taskset = ucast taskset\<rparr>)"

section \<open>The set of waiting tasks\<close>

definition sb_waits :: "u32 list \<Rightarrow> nat \<Rightarrow> bool" where
  "sb_waits w i \<longleftrightarrow> w ! (i div 32) AND drop_bit (i mod 32) 0x80000000 \<noteq> 0"

definition sb_register :: "u32 list \<Rightarrow> nat \<Rightarrow> u32 list" where
  "sb_register w i = w[i div 32 := w ! (i div 32) OR drop_bit (i mod 32) 0x80000000]"

section \<open>Notify\<close>

text \<open>The result of a stored pass: the waiting set to be signalled, if it was the last.\<close>

definition sb_notify_decision :: "spurs_barrier \<Rightarrow> (spurs_barrier, spurs_error + u32 list option) decision" where
  "sb_notify_decision l =
     (if sb_released l \<noteq> 0 \<or> sb_remained l = 0 then Return (Inl SP_STAT)
      else let l = l\<lparr>sb_remained := sb_remained l - 1\<rparr>
           in if sb_remained l = 0
              then Store (l\<lparr>sb_released := 1, sb_waiting := [0, 0, 0, 0]\<rparr>) (Inr (Some (sb_waiting l)))
              else Store l (Inr None))"

definition sb_to_signal :: "u32 list \<Rightarrow> nat list" where
  "sb_to_signal w = filter (sb_waits w) [0..<128]"

fun sb_signal_all :: "nat \<Rightarrow> (nat \<Rightarrow> spurs_task) \<Rightarrow> u64 \<Rightarrow> nat list \<Rightarrow> (nat \<Rightarrow> bool) \<Rightarrow> (spurs_error + unit) \<times> (nat \<Rightarrow> bool)" where
  "sb_signal_all N task taskset [] signals = (Inr (), signals)"
| "sb_signal_all N task taskset (i # js) signals =
     (case send_signal N task taskset (of_nat i) signals of
        None \<Rightarrow> (Inl SP_STAT, signals)
      | Some signals' \<Rightarrow> sb_signal_all N task taskset js signals')"

definition spurs_barrier_notify :: "nat \<Rightarrow> (nat \<Rightarrow> spurs_task) \<Rightarrow> u64 \<Rightarrow> bool \<Rightarrow> (spurs_barrier \<times> bool) list \<Rightarrow> (nat \<Rightarrow> bool) \<Rightarrow>
    (spurs_barrier, (spurs_error + unit) \<times> (nat \<Rightarrow> bool)) outcome" where
  "spurs_barrier_notify N task ea isBlocking answers signals =
     (case spurs_check_ea ea of
        Inl e \<Rightarrow> Returned (Inl e, signals)
      | Inr _ \<Rightarrow>
          (case llsc_loop sb_notify_decision answers of
             Stored l l' (Inr (Some w)) \<Rightarrow> Stored l l' (sb_signal_all N task (ucast (sb_taskset l')) (sb_to_signal w) signals)
           | Stored l l' (Inr None) \<Rightarrow> Stored l l' (Inr (), signals)
           | Stored l l' (Inl e) \<Rightarrow> Stored l l' (Inl e, signals)
           | Returned (Inl e) \<Rightarrow> Returned (Inl e, signals)
           | _ \<Rightarrow> Spinning))"

section \<open>Wait\<close>

definition sb_wait_decision :: "bool \<Rightarrow> nat \<Rightarrow> spurs_barrier \<Rightarrow> (spurs_barrier, spurs_error + unit) decision" where
  "sb_wait_decision isBlocking i l =
     (if sb_released l \<noteq> 0 then Return (Inr ())
      else if \<not> isBlocking then Return (Inl SP_BUSY)
      else Store (l\<lparr>sb_waiting := sb_register (sb_waiting l) i\<rparr>) (Inr ()))"

text \<open>The call: for each round the answers to its loop and the result of \<open>cellSpursWaitSignal\<close> after it.\<close>

fun sb_wait_loop :: "bool \<Rightarrow> nat \<Rightarrow> ((spurs_barrier \<times> bool) list \<times> (spurs_error + unit)) list \<Rightarrow> (spurs_error + unit) option" where
  "sb_wait_loop isBlocking i [] = None"
| "sb_wait_loop isBlocking i ((answers, wake) # rounds) =
     (case llsc_loop (sb_wait_decision isBlocking i) answers of
        Returned r \<Rightarrow> Some r
      | Stored l l' r \<Rightarrow> (case wake of Inl e \<Rightarrow> Some (Inl e) | Inr _ \<Rightarrow> sb_wait_loop isBlocking i rounds)
      | Spinning \<Rightarrow> None)"

definition spurs_barrier_wait :: "nat \<Rightarrow> (spurs_error + unit) \<Rightarrow> u64 \<Rightarrow> bool \<Rightarrow>
    ((spurs_barrier \<times> bool) list \<times> (spurs_error + unit)) list \<Rightarrow> (spurs_error + unit) option" where
  "spurs_barrier_wait i can_block ea isBlocking rounds =
     (case spurs_check_ea ea of
        Inl e \<Rightarrow> Some (Inl e)
      | Inr _ \<Rightarrow> (case (if isBlocking then can_block else Inr ()) of
             Inl e \<Rightarrow> Some (Inl e)
           | Inr _ \<Rightarrow> sb_wait_loop isBlocking i rounds))"

definition cellSpursBarrierGetTasksetAddress :: "u64 \<Rightarrow> bool \<Rightarrow> spurs_barrier \<Rightarrow> spurs_error + u64" where
  "cellSpursBarrierGetTasksetAddress ea given l =
     (case spurs_check_ea ea of Inl e \<Rightarrow> Inl e | Inr _ \<Rightarrow> if \<not> given then Inl SP_NULL_POINTER else Inr (ucast (sb_taskset l)))"

definition cellSpursBarrierNotify where "cellSpursBarrierNotify N task ea = spurs_barrier_notify N task ea True"
definition cellSpursBarrierTryNotify where "cellSpursBarrierTryNotify N task ea = spurs_barrier_notify N task ea False"
definition cellSpursBarrierWait where "cellSpursBarrierWait i can_block ea = spurs_barrier_wait i can_block ea True"
definition cellSpursBarrierTryWait where "cellSpursBarrierTryWait i can_block ea = spurs_barrier_wait i can_block ea False"

section \<open>Tasks sharing a barrier\<close>

text \<open>A task is outside, registered and blocked, woken and about to look again, past the barrier, or signalling.\<close>

datatype sb_thread = BIdle | BBlocked | BWoken | BPassed | BNotifying "nat list" | BFailed

text \<open>The number of accepted notifications is kept as history.\<close>

record sb_sys =
  bs_line :: spurs_barrier
  bs_signals :: "nat \<Rightarrow> bool"
  bs_threads :: "nat \<Rightarrow> sb_thread"
  bs_notified :: nat

definition bs_set :: "nat \<Rightarrow> sb_thread \<Rightarrow> sb_sys \<Rightarrow> sb_sys" where
  "bs_set t s x = x\<lparr>bs_threads := (bs_threads x)(t := s)\<rparr>"

definition bs_id :: "(nat \<Rightarrow> spurs_task) \<Rightarrow> nat \<Rightarrow> nat" where "bs_id task t = unat (task_id (task t))"

inductive sb_step :: "nat \<Rightarrow> (nat \<Rightarrow> spurs_task) \<Rightarrow> sb_sys \<Rightarrow> sb_sys \<Rightarrow> bool" for N task where
  notify: "t < N \<Longrightarrow> bs_threads x t \<in> {BIdle, BPassed} \<Longrightarrow> sb_notify_decision (bs_line x) = Store l' (Inr None) \<Longrightarrow>
    sb_step N task x (bs_set t BIdle (x\<lparr>bs_line := l', bs_notified := bs_notified x + 1\<rparr>))"
| notify_last: "t < N \<Longrightarrow> bs_threads x t \<in> {BIdle, BPassed} \<Longrightarrow> sb_notify_decision (bs_line x) = Store l' (Inr (Some w)) \<Longrightarrow>
    sb_step N task x (bs_set t (BNotifying (sb_to_signal w)) (x\<lparr>bs_line := l', bs_notified := bs_notified x + 1\<rparr>))"
| signal: "t < N \<Longrightarrow> bs_threads x t = BNotifying (i # js) \<Longrightarrow>
    send_signal N task (ucast (sb_taskset (bs_line x))) (of_nat i) (bs_signals x) = Some signals' \<Longrightarrow>
    sb_step N task x (bs_set t (BNotifying js) (x\<lparr>bs_signals := signals'\<rparr>))"
| signal_fails: "t < N \<Longrightarrow> bs_threads x t = BNotifying (i # js) \<Longrightarrow>
    send_signal N task (ucast (sb_taskset (bs_line x))) (of_nat i) (bs_signals x) = None \<Longrightarrow>
    sb_step N task x (bs_set t BFailed x)"
| notified: "t < N \<Longrightarrow> bs_threads x t = BNotifying [] \<Longrightarrow> sb_step N task x (bs_set t BIdle x)"
| pass: "t < N \<Longrightarrow> bs_threads x t \<in> {BIdle, BPassed, BWoken} \<Longrightarrow> sb_wait_decision b (bs_id task t) (bs_line x) = Return (Inr ()) \<Longrightarrow>
    sb_step N task x (bs_set t BPassed x)"
| block: "t < N \<Longrightarrow> bs_threads x t \<in> {BIdle, BPassed, BWoken} \<Longrightarrow> sb_wait_decision True (bs_id task t) (bs_line x) = Store l' (Inr ()) \<Longrightarrow>
    sb_step N task x (bs_set t BBlocked (x\<lparr>bs_line := l'\<rparr>))"
| woken: "t < N \<Longrightarrow> bs_threads x t = BBlocked \<Longrightarrow> bs_signals x t \<Longrightarrow>
    sb_step N task x (bs_set t BWoken (x\<lparr>bs_signals := (bs_signals x)(t := False)\<rparr>))"
| other_signal: "t < N \<Longrightarrow> sb_step N task x (x\<lparr>bs_signals := (bs_signals x)(t := True)\<rparr>)"

section \<open>The set, bit by bit\<close>

lemma sb_mask: "k < 32 \<Longrightarrow> drop_bit k (0x80000000 :: u32) = push_bit (31 - k) 1"
proof -
  have "\<forall>k \<in> set [0..<32]. drop_bit k (0x80000000 :: u32) = push_bit (31 - k) 1" by code_simp
  then show "k < 32 \<Longrightarrow> drop_bit k (0x80000000 :: u32) = push_bit (31 - k) 1" by simp
qed

lemma sb_bit: "k < 32 \<Longrightarrow> (x AND drop_bit k 0x80000000 \<noteq> 0) \<longleftrightarrow> bit (x :: u32) (31 - k)"
  by (simp add: sb_mask bit_iff_and_push_bit_not_eq_0)

lemma sb_waits_bit: "sb_waits w i \<longleftrightarrow> bit (w ! (i div 32)) (31 - i mod 32)"
  by (simp add: sb_waits_def sb_bit)

lemma sb_waits_register:
  assumes "length w = 4" "i < 128" "j < 128"
  shows "sb_waits (sb_register w i) j \<longleftrightarrow> sb_waits w j \<or> j = i"
proof -
  have "drop_bit (i mod 32) (0x80000000 :: u32) = push_bit (31 - i mod 32) 1" by (rule sb_mask) simp
  moreover have "i div 32 = j div 32 \<Longrightarrow> 31 - i mod 32 = 31 - j mod 32 \<longleftrightarrow> i = j"
  proof -
    assume d: "i div 32 = j div 32"
    have "i mod 32 < 32" "j mod 32 < 32" by simp_all
    then have "31 - i mod 32 = 31 - j mod 32 \<longleftrightarrow> i mod 32 = j mod 32" by linarith
    then show ?thesis using d by (metis div_mult_mod_eq)
  qed
  ultimately show ?thesis using assms unfolding sb_waits_bit sb_register_def
    by (cases "i div 32 = j div 32") (auto simp: bit_simps)
qed

lemma sb_waits_empty: "i < 128 \<Longrightarrow> \<not> sb_waits [0, 0, 0, 0] i"
proof -
  assume "i < 128"
  then have "i div 32 < 4" by simp
  moreover have "[0, 0, 0, 0 :: u32] = replicate 4 0" by (simp add: eval_nat_numeral)
  ultimately have "[0, 0, 0, 0 :: u32] ! (i div 32) = 0" by (metis nth_replicate)
  then show ?thesis by (simp add: sb_waits_def)
qed

lemma sb_to_signal_iff: "i \<in> set (sb_to_signal w) \<longleftrightarrow> i < 128 \<and> sb_waits w i"
  by (simp add: sb_to_signal_def)

section \<open>The invariant\<close>

definition sb_tasks_ok :: "nat \<Rightarrow> (nat \<Rightarrow> spurs_task) \<Rightarrow> spurs_barrier \<Rightarrow> bool" where
  "sb_tasks_ok N task l \<longleftrightarrow> distinct_tasks N task \<and>
     (\<forall>t < N. task_taskset (task t) = ucast (sb_taskset l) \<and> bs_id task t < 128)"

definition sb_owed :: "nat \<Rightarrow> (nat \<Rightarrow> spurs_task) \<Rightarrow> sb_sys \<Rightarrow> nat \<Rightarrow> bool" where
  "sb_owed N task x t \<longleftrightarrow> bs_signals x t \<or> (\<exists>s < N. \<exists>js. bs_threads x s = BNotifying js \<and> bs_id task t \<in> set js)"

definition sb_thread_ok :: "nat \<Rightarrow> (nat \<Rightarrow> spurs_task) \<Rightarrow> sb_sys \<Rightarrow> nat \<Rightarrow> bool" where
  "sb_thread_ok N task x t =
     (case bs_threads x t of
        BBlocked \<Rightarrow> if sb_released (bs_line x) = 0 then sb_waits (sb_waiting (bs_line x)) (bs_id task t) else sb_owed N task x t
      | BNotifying js \<Rightarrow> \<forall>i \<in> set js. \<exists>u < N. i = bs_id task u
      | BPassed \<Rightarrow> sb_released (bs_line x) \<noteq> 0
      | BFailed \<Rightarrow> False
      | _ \<Rightarrow> True)"

definition sb_line_ok :: "nat \<Rightarrow> (nat \<Rightarrow> spurs_task) \<Rightarrow> nat \<Rightarrow> nat \<Rightarrow> spurs_barrier \<Rightarrow> bool" where
  "sb_line_ok N task most notified l \<longleftrightarrow> sb_tasks_ok N task l \<and> length (sb_waiting l) = 4 \<and>
     unat (sb_remained l) + notified = most \<and> (sb_released l \<noteq> 0 \<longleftrightarrow> sb_remained l = 0) \<and>
     (\<forall>i < 128. sb_waits (sb_waiting l) i \<longrightarrow> (\<exists>t < N. i = bs_id task t))"

definition sb_inv :: "nat \<Rightarrow> (nat \<Rightarrow> spurs_task) \<Rightarrow> nat \<Rightarrow> sb_sys \<Rightarrow> bool" where
  "sb_inv N task most x \<longleftrightarrow> sb_line_ok N task most (bs_notified x) (bs_line x) \<and> (\<forall>t < N. sb_thread_ok N task x t)"

lemma sb_thread_okD:
  assumes "sb_thread_ok N task x t"
  shows "bs_threads x t = BBlocked \<Longrightarrow> sb_released (bs_line x) = 0 \<Longrightarrow> sb_waits (sb_waiting (bs_line x)) (bs_id task t)"
    "bs_threads x t = BBlocked \<Longrightarrow> sb_released (bs_line x) \<noteq> 0 \<Longrightarrow> sb_owed N task x t"
    "bs_threads x t = BNotifying js \<Longrightarrow> i \<in> set js \<Longrightarrow> \<exists>u < N. i = bs_id task u"
    "bs_threads x t = BPassed \<Longrightarrow> sb_released (bs_line x) \<noteq> 0" "bs_threads x t \<noteq> BFailed"
  using assms by (auto simp: sb_thread_ok_def split: if_splits)

text \<open>A step of one task, seen by another, before and after the release.\<close>

lemma sb_thread_ok_frame:
  assumes "sb_thread_ok N task x u" "bs_threads y u = bs_threads x u" "sb_released (bs_line x) \<noteq> 0 \<Longrightarrow> sb_released (bs_line y) \<noteq> 0"
    "bs_threads x u = BBlocked \<Longrightarrow> sb_released (bs_line y) = 0 \<Longrightarrow> sb_waits (sb_waiting (bs_line x)) (bs_id task u) \<Longrightarrow>
       sb_waits (sb_waiting (bs_line y)) (bs_id task u)"
    "bs_threads x u = BBlocked \<Longrightarrow> sb_released (bs_line y) \<noteq> 0 \<Longrightarrow> sb_owed N task y u"
  shows "sb_thread_ok N task y u"
  using assms by (cases "bs_threads x u") (auto simp: sb_thread_ok_def split: if_splits)

lemma sb_owed_frame:
  assumes "sb_owed N task x u" "\<And>js. bs_threads x t = BNotifying js \<Longrightarrow> js = []" "bs_signals x u \<Longrightarrow> bs_signals y u"
    "bs_threads y = (bs_threads x)(t := s)"
  shows "sb_owed N task y u"
proof (cases "bs_signals x u")
  case True
  then show ?thesis using assms(3) by (simp add: sb_owed_def)
next
  case False
  then obtain v vs where v: "v < N" "bs_threads x v = BNotifying vs" "bs_id task u \<in> set vs" using assms(1) by (auto simp: sb_owed_def)
  then have "v \<noteq> t" using assms(2)[of vs] by auto
  then show ?thesis using v assms(4) by (auto simp: sb_owed_def)
qed

text \<open>A task that is not signalling moves, on a line that stays the same or has more waiters, or fewer to notify.\<close>

lemma sb_inv_move:
  assumes "sb_inv N task most x" "\<And>js. bs_threads x t = BNotifying js \<Longrightarrow> js = []" "sb_line_ok N task most n l'"
    "sb_released l' = sb_released (bs_line x)" "\<And>i. sb_waits (sb_waiting (bs_line x)) i \<Longrightarrow> i < 128 \<Longrightarrow> sb_waits (sb_waiting l') i"
    "\<And>u. u \<noteq> t \<Longrightarrow> bs_signals x u \<Longrightarrow> sg u" "s \<in> {BIdle, BWoken} \<or> s = BPassed \<and> sb_released l' \<noteq> 0 \<or>
       s = BBlocked \<and> sb_released l' = 0 \<and> sb_waits (sb_waiting l') (bs_id task t)"
  shows "sb_inv N task most (bs_set t s (x\<lparr>bs_line := l', bs_signals := sg, bs_notified := n\<rparr>))" (is "sb_inv N task most ?y")
proof -
  have ids: "bs_id task u < 128" if "u < N" for u using assms(3) that by (simp add: sb_line_ok_def sb_tasks_ok_def)
  have "sb_thread_ok N task ?y u" if u: "u < N" for u
  proof (cases "u = t")
    case True
    then show ?thesis using assms(7) by (auto simp: sb_thread_ok_def bs_set_def)
  next
    case False
    have ok: "sb_thread_ok N task x u" using assms(1) u by (simp add: sb_inv_def)
    show ?thesis
    proof (rule sb_thread_ok_frame[OF ok])
      show "sb_owed N task ?y u" if "bs_threads x u = BBlocked" "sb_released (bs_line ?y) \<noteq> 0"
        by (rule sb_owed_frame[OF sb_thread_okD(2)[OF ok that(1)] assms(2), of t ?y s])
           (use that(2) assms(4,6) False in \<open>simp_all add: bs_set_def\<close>)
    qed (use assms(4,5) ids[OF u] False in \<open>simp_all add: bs_set_def\<close>)
  qed
  then show ?thesis using assms(3) by (simp add: sb_inv_def bs_set_def)
qed

lemma sb_notify_line:
  assumes "sb_line_ok N task most n l" "sb_notify_decision l = Store l' (Inr w)"
  shows "sb_line_ok N task most (n + 1) l'" "sb_released l = 0"
    "w = None \<Longrightarrow> sb_released l' = 0 \<and> sb_waiting l' = sb_waiting l" "w = Some ws \<Longrightarrow> sb_released l' \<noteq> 0 \<and> ws = sb_waiting l"
    "sb_taskset l' = sb_taskset l"
proof -
  have l': "l' = (if sb_remained l - 1 = 0 then l\<lparr>sb_remained := sb_remained l - 1, sb_released := 1, sb_waiting := [0, 0, 0, 0]\<rparr>
      else l\<lparr>sb_remained := sb_remained l - 1\<rparr>)" "sb_released l = 0" "sb_remained l \<noteq> 0"
      "w = (if sb_remained l - 1 = 0 then Some (sb_waiting l) else None)"
    using assms(2) by (auto simp: sb_notify_decision_def Let_def split: if_splits)
  have "0 < unat (sb_remained l)" using l'(3) by (simp add: unat_gt_0)
  then have r: "unat (sb_remained l - 1) + 1 = unat (sb_remained l)" by (simp add: unat_down)
  have "unat (sb_remained l') = unat (sb_remained l - 1)" by (simp add: l'(1))
  then have "unat (sb_remained l') + (n + 1) = most" using assms(1) r by (simp add: sb_line_ok_def)
  then show "sb_line_ok N task most (n + 1) l'"
    using assms(1) l'(2) unfolding sb_line_ok_def by (simp add: l'(1) sb_tasks_ok_def sb_waits_empty)
  show "sb_released l = 0" by (rule l'(2))
  show "w = None \<Longrightarrow> sb_released l' = 0 \<and> sb_waiting l' = sb_waiting l" "w = Some ws \<Longrightarrow> sb_released l' \<noteq> 0 \<and> ws = sb_waiting l"
    "sb_taskset l' = sb_taskset l"
    using l'(1,2,4) by (auto split: if_splits)
qed

lemma sb_inv_notify_last:
  assumes "sb_inv N task most x" "t < N" "bs_threads x t \<in> {BIdle, BPassed}" "sb_notify_decision (bs_line x) = Store l' (Inr (Some w))"
  shows "sb_inv N task most (bs_set t (BNotifying (sb_to_signal w)) (x\<lparr>bs_line := l', bs_notified := bs_notified x + 1\<rparr>))"
    (is "sb_inv N task most ?y")
proof -
  have line: "sb_line_ok N task most (bs_notified x) (bs_line x)" using assms(1) by (simp add: sb_inv_def)
  note L = sb_notify_line[OF line assms(4)]
  have "sb_thread_ok N task ?y u" if u: "u < N" for u
  proof (cases "u = t")
    case True
    have "\<exists>u < N. i = bs_id task u" if "i \<in> set (sb_to_signal w)" for i
      using that line L(4)[OF refl] by (auto simp: sb_to_signal_iff sb_line_ok_def)
    then show ?thesis using True by (simp add: sb_thread_ok_def bs_set_def)
  next
    case False
    have ok: "sb_thread_ok N task x u" using assms(1) u by (simp add: sb_inv_def)
    show ?thesis
    proof (rule sb_thread_ok_frame[OF ok])
      show "sb_owed N task ?y u" if "bs_threads x u = BBlocked"
      proof -
        have "sb_waits w (bs_id task u)" using sb_thread_okD(1)[OF ok that L(2)] L(4)[OF refl] by simp
        then have "bs_id task u \<in> set (sb_to_signal w)" using line u by (simp add: sb_to_signal_iff sb_line_ok_def sb_tasks_ok_def)
        then show ?thesis using assms(2) by (auto simp: sb_owed_def bs_set_def)
      qed
    qed (use L(2) L(4)[OF refl] False in \<open>simp_all add: bs_set_def\<close>)
  qed
  then show ?thesis using L(1) by (simp add: sb_inv_def bs_set_def)
qed

lemma sb_send_reaches:
  assumes "sb_inv N task most x" "t < N" "bs_threads x t = BNotifying (i # js)"
  shows "\<exists>sg. send_signal N task (ucast (sb_taskset (bs_line x))) (of_nat i) (bs_signals x) = Some sg \<and>
    (\<forall>u < N. i = bs_id task u \<longrightarrow> sg u)"
proof -
  let ?ts = "ucast (sb_taskset (bs_line x)) :: u64"
  have ts: "task_taskset (task u) = ?ts" if "u < N" for u using assms(1) that by (simp add: sb_inv_def sb_line_ok_def sb_tasks_ok_def)
  have n: "of_nat (bs_id task u) = task_id (task u)" for u by (simp add: bs_id_def)
  have ok: "sb_thread_ok N task x t" using assms(1,2) by (simp add: sb_inv_def)
  obtain u where u: "u < N" "i = bs_id task u" using sb_thread_okD(3)[OF ok assms(3), of i] by auto
  from send_signal_reaches[of u N task ?ts "of_nat i" "bs_signals x"] obtain sg where
    sg: "send_signal N task ?ts (of_nat i) (bs_signals x) = Some sg" using u ts n by auto
  moreover have "sg v" if "v < N" "i = bs_id task v" for v
    using send_signal_reaches[of v N task ?ts "of_nat i" "bs_signals x"] that ts n sg by auto
  ultimately show ?thesis by blast
qed

lemma sb_inv_signal:
  assumes "sb_inv N task most x" "t < N" "bs_threads x t = BNotifying (i # js)"
    "send_signal N task (ucast (sb_taskset (bs_line x))) (of_nat i) (bs_signals x) = Some sg"
  shows "sb_inv N task most (bs_set t (BNotifying js) (x\<lparr>bs_signals := sg\<rparr>))" (is "sb_inv N task most ?y")
proof -
  have sgi: "sg u" if "u < N" "i = bs_id task u" for u using sb_send_reaches[OF assms(1-3)] assms(4) that by auto
  have "sb_thread_ok N task ?y u" if u: "u < N" for u
  proof (cases "u = t")
    case True
    have ok: "sb_thread_ok N task x t" using assms(1,2) by (simp add: sb_inv_def)
    show ?thesis using True sb_thread_okD(3)[OF ok assms(3)] by (simp add: sb_thread_ok_def bs_set_def)
  next
    case False
    have ok: "sb_thread_ok N task x u" using assms(1) u by (simp add: sb_inv_def)
    show ?thesis
    proof (rule sb_thread_ok_frame[OF ok])
      show "sb_owed N task ?y u" if "bs_threads x u = BBlocked" "sb_released (bs_line ?y) \<noteq> 0"
      proof -
        have "sb_owed N task x u" using sb_thread_okD(2)[OF ok that(1)] that(2) by (simp add: bs_set_def)
        then consider "bs_signals x u" | v vs where "v < N" "v \<noteq> t" "bs_threads x v = BNotifying vs" "bs_id task u \<in> set vs"
          | "bs_id task u \<in> set js" | "bs_id task u = i"
          using assms(3) unfolding sb_owed_def by (metis sb_thread.inject set_ConsD)
        then show ?thesis
        proof cases
          case 1
          then show ?thesis using send_signal_mono[OF assms(4)] by (simp add: sb_owed_def bs_set_def)
        next
          case 4
          then show ?thesis using sgi[OF u] by (simp add: sb_owed_def bs_set_def)
        qed (use assms(2) in \<open>auto simp: sb_owed_def bs_set_def\<close>)
      qed
    qed (use False in \<open>simp_all add: bs_set_def\<close>)
  qed
  then show ?thesis using assms(1) by (simp add: sb_inv_def bs_set_def)
qed

theorem sb_inv_step:
  assumes "sb_step N task x y" "sb_inv N task most x"
  shows "sb_inv N task most y"
  using assms(1)
proof cases
  case (notify t l')
  have line: "sb_line_ok N task most (bs_notified x) (bs_line x)" using assms(2) by (simp add: sb_inv_def)
  note L = sb_notify_line[OF line notify(4)]
  show ?thesis
    using sb_inv_move[OF assms(2), of t "bs_notified x + 1" l' "bs_signals x" BIdle] L(1,2) L(3)[OF refl] notify(1,3) by (auto simp: bs_set_def)
next
  case notify_last
  then show ?thesis using sb_inv_notify_last[OF assms(2)] by blast
next
  case signal
  then show ?thesis using sb_inv_signal[OF assms(2)] by blast
next
  case (signal_fails t i js)
  then show ?thesis using sb_send_reaches[OF assms(2) signal_fails(2,3)] by auto
next
  case (notified t)
  then show ?thesis
    using sb_inv_move[OF assms(2), of t "bs_notified x" "bs_line x" "bs_signals x" BIdle] assms(2) by (simp add: bs_set_def sb_inv_def)
next
  case (pass t b)
  have "sb_released (bs_line x) \<noteq> 0" using pass(4) by (auto simp: sb_wait_decision_def split: if_splits)
  then show ?thesis
    using sb_inv_move[OF assms(2), of t "bs_notified x" "bs_line x" "bs_signals x" BPassed] assms(2) pass by (auto simp: bs_set_def sb_inv_def)
next
  case (block t l')
  have l': "l' = (bs_line x)\<lparr>sb_waiting := sb_register (sb_waiting (bs_line x)) (bs_id task t)\<rparr>" "sb_released (bs_line x) = 0"
    using block(4) by (auto simp: sb_wait_decision_def split: if_splits)
  have line: "sb_line_ok N task most (bs_notified x) (bs_line x)" using assms(2) by (simp add: sb_inv_def)
  then have id: "bs_id task t < 128" "length (sb_waiting (bs_line x)) = 4" using block(2) by (simp_all add: sb_line_ok_def sb_tasks_ok_def)
  note reg = sb_waits_register[OF id(2,1)]
  have "sb_line_ok N task most (bs_notified x) l'"
    using line block(2) reg by (auto simp: sb_line_ok_def sb_tasks_ok_def l'(1) sb_register_def)
  then show ?thesis
    using sb_inv_move[OF assms(2), of t "bs_notified x" l' "bs_signals x" BBlocked] block(1,3) reg[of "bs_id task t"] reg id(1) l'
    by (auto simp: bs_set_def)
next
  case (woken t)
  then show ?thesis
    using sb_inv_move[OF assms(2), of t "bs_notified x" "bs_line x" "(bs_signals x)(t := False)" BWoken] assms(2) by (simp add: bs_set_def sb_inv_def)
next
  case (other_signal t)
  have "sb_owed N task x u \<Longrightarrow> sb_owed N task y u" for u by (auto simp: sb_owed_def other_signal(1))
  then have "sb_thread_ok N task x u \<Longrightarrow> sb_thread_ok N task y u" for u
    by (cases "bs_threads x u") (auto simp: sb_thread_ok_def other_signal(1) split: if_splits)
  then show ?thesis using assms(2) by (simp add: sb_inv_def other_signal(1))
qed

definition sb_fresh :: "nat \<Rightarrow> (nat \<Rightarrow> spurs_task) \<Rightarrow> nat \<Rightarrow> sb_sys \<Rightarrow> bool" where
  "sb_fresh N task most x \<longleftrightarrow> (\<exists>taskset ea. cellSpursBarrierInitialize taskset ea (of_nat most) = Inr (bs_line x)) \<and> most \<le> 128 \<and>
     sb_tasks_ok N task (bs_line x) \<and> bs_threads x = (\<lambda>_. BIdle) \<and> bs_notified x = 0"

lemma sb_initialized:
  assumes "cellSpursBarrierInitialize taskset ea (of_nat most) = Inr l" "most \<le> 128"
  shows "sb_released l = 0 \<and> unat (sb_remained l) = most \<and> sb_remained l \<noteq> 0 \<and> sb_waiting l = [0, 0, 0, 0]"
proof -
  have "of_nat most \<noteq> (0 :: u32) \<and> l = \<lparr>sb_released = 0, sb_remained = of_nat most, sb_waiting = [0, 0, 0, 0], sb_taskset = ucast taskset\<rparr>"
    using assms(1) by (cases "spurs_check_ea ea") (auto simp: cellSpursBarrierInitialize_def split: if_splits)
  then show ?thesis using assms(2) by (simp add: unat_of_nat)
qed

lemma sb_inv_start: "sb_fresh N task most x \<Longrightarrow> sb_inv N task most x"
  using sb_initialized by (auto simp: sb_fresh_def sb_inv_def sb_line_ok_def sb_thread_ok_def sb_waits_empty)

lemma sb_reachable_inv:
  assumes "(sb_step N task)\<^sup>*\<^sup>* x y" "sb_fresh N task most x"
  shows "sb_inv N task most y"
  using assms(1)
proof (induction rule: rtranclp_induct)
  case base
  then show ?case by (rule sb_inv_start[OF assms(2)])
next
  case (step y z)
  then show ?case using sb_inv_step by blast
qed

section \<open>Property\<close>

text \<open>C29: A barrier for a number of notifications accepts exactly so many and opens with the last: no task passes it
  before, a further notification is refused, and no waiter is left behind: a task that is blocked is in the
  waiting set while notifications are missing, and once they are complete its signal is set or the last notifier is
  still to send it, which it can always do.\<close>

theorem sb_opens_with_last:
  assumes "(sb_step N task)\<^sup>*\<^sup>* x y" "sb_fresh N task most x"
  shows "(\<forall>t < N. bs_threads y t = BPassed \<longrightarrow> bs_notified y = most) \<and> bs_notified y \<le> most \<and>
    (bs_notified y = most \<longleftrightarrow> sb_notify_decision (bs_line y) = Return (Inl SP_STAT)) \<and>
    (\<forall>t < N. bs_threads y t = BBlocked \<longrightarrow>
       (if bs_notified y < most then sb_waits (sb_waiting (bs_line y)) (bs_id task t) else sb_owed N task y t)) \<and>
    (\<forall>t < N. bs_threads y t \<noteq> BFailed \<and>
       (\<forall>i js. bs_threads y t = BNotifying (i # js) \<longrightarrow> (\<exists>z. sb_step N task y z \<and> bs_threads z t = BNotifying js)))"
proof -
  note inv = sb_reachable_inv[OF assms]
  have line: "sb_line_ok N task most (bs_notified y) (bs_line y)" and ok: "\<And>t. t < N \<Longrightarrow> sb_thread_ok N task y t"
    using inv by (simp_all add: sb_inv_def)
  have r: "sb_released (bs_line y) \<noteq> 0 \<longleftrightarrow> bs_notified y = most" "bs_notified y \<le> most"
    using line by (auto simp: sb_line_ok_def unat_eq_zero)
  have "sb_notify_decision (bs_line y) = Return (Inl SP_STAT) \<longleftrightarrow> sb_released (bs_line y) \<noteq> 0"
    using line by (auto simp: sb_notify_decision_def sb_line_ok_def Let_def)
  moreover have "\<exists>z. sb_step N task y z \<and> bs_threads z t = BNotifying js" if w: "t < N" "bs_threads y t = BNotifying (i # js)" for t i js
  proof -
    obtain sg where "send_signal N task (ucast (sb_taskset (bs_line y))) (of_nat i) (bs_signals y) = Some sg"
      using sb_send_reaches[OF inv w] by blast
    from sb_step.signal[OF w this] show ?thesis by (auto simp: bs_set_def)
  qed
  moreover have "bs_notified y = most" if "t < N" "bs_threads y t = BPassed" for t
    using sb_thread_okD(4)[OF ok[OF that(1)] that(2)] r(1) by simp
  moreover have "if bs_notified y < most then sb_waits (sb_waiting (bs_line y)) (bs_id task t) else sb_owed N task y t"
    if "t < N" "bs_threads y t = BBlocked" for t
    using sb_thread_okD(1,2)[OF ok[OF that(1)] that(2)] r by auto
  moreover have "bs_threads y t \<noteq> BFailed" if "t < N" for t using sb_thread_okD(5)[OF ok[OF that]] .
  ultimately show ?thesis using r by simp
qed

definition example_member :: "nat \<Rightarrow> spurs_task" where
  "example_member t = \<lparr>task_taskset = 0x1000, task_id = of_nat t, task_wkl = 0\<rparr>"

definition example_barrier :: spurs_barrier where
  "example_barrier = \<lparr>sb_released = 0, sb_remained = 1, sb_waiting = [0, 0, 0, 0], sb_taskset = 0x1000\<rparr>"

definition example_gate :: sb_sys where
  "example_gate = \<lparr>bs_line = example_barrier, bs_signals = (\<lambda>_. False), bs_threads = (\<lambda>_. BIdle), bs_notified = 0\<rparr>"

lemma example_gate_fresh: "sb_fresh 2 example_member 1 example_gate"
proof -
  have "cellSpursBarrierInitialize 0x1000 0x80 (of_nat 1) = Inr (bs_line example_gate)"
    by (simp add: cellSpursBarrierInitialize_def spurs_check_ea_def example_gate_def example_barrier_def)
  moreover have "sb_tasks_ok 2 example_member (bs_line example_gate)"
    by (auto simp: sb_tasks_ok_def distinct_tasks_def example_gate_def example_barrier_def example_member_def bs_id_def less_2_cases_iff)
  ultimately show ?thesis unfolding sb_fresh_def by (auto simp: example_gate_def)
qed

definition example_gate_end :: sb_sys where
  "example_gate_end = \<lparr>bs_line = \<lparr>sb_released = 1, sb_remained = 0, sb_waiting = [0, 0, 0, 0], sb_taskset = 0x1000\<rparr>,
     bs_signals = (\<lambda>_. False), bs_threads = (\<lambda>_. BIdle)(0 := BBlocked, 1 := BNotifying [0]), bs_notified = 1\<rparr>"

lemma example_gate_run: "(sb_step 2 example_member)\<^sup>*\<^sup>* example_gate example_gate_end"
proof -
  let ?l = "example_barrier\<lparr>sb_waiting := [0x80000000, 0, 0, 0]\<rparr>"
  let ?m = "bs_set 0 BBlocked (example_gate\<lparr>bs_line := ?l\<rparr>)"
  have "sb_wait_decision True (bs_id example_member 0) example_barrier = Store ?l (Inr ())" by code_simp
  then have "sb_step 2 example_member example_gate ?m" by (intro sb_step.block) (simp_all add: example_gate_def)
  moreover have "sb_step 2 example_member ?m example_gate_end"
  proof -
    have d: "sb_notify_decision ?l = Store (bs_line example_gate_end) (Inr (Some [0x80000000, 0, 0, 0]))"
        "sb_to_signal [0x80000000, 0, 0, 0] = [0]" by code_simp+
    have "sb_step 2 example_member ?m (bs_set 1 (BNotifying (sb_to_signal [0x80000000, 0, 0, 0])) (?m\<lparr>bs_line := bs_line example_gate_end, bs_notified := bs_notified ?m + 1\<rparr>))"
      by (rule sb_step.notify_last) (simp_all add: bs_set_def example_gate_def d(1))
    then show ?thesis by (simp add: d(2) bs_set_def example_gate_def example_gate_end_def)
  qed
  ultimately show ?thesis by (meson r_into_rtranclp rtranclp.rtrancl_into_rtrancl)
qed

theorem sb_opens_with_last_witness: "sb_owed 2 example_member example_gate_end 0 \<and> bs_notified example_gate_end \<le> 1"
proof -
  have "(0 :: nat) < 2" "bs_threads example_gate_end 0 = BBlocked" "\<not> bs_notified example_gate_end < 1"
    by (simp_all add: example_gate_end_def)
  then show ?thesis using sb_opens_with_last[OF example_gate_run example_gate_fresh] by metis
qed

end
