(* ===== verification/Spurs_Queue.thy ===== *)
theory Spurs_Queue
  imports Spurs_Event_Flag
begin

text \<open>
  \<open>sdk/libspurs_task/src/spurs_queue.c\<close>: the queue of SPURS, a ring of entries with one push and one pop in flight at a
  time; an index in flight is stored complemented, and whoever ends an operation reserves the next index for the
  first waiter before signalling it.  Tasks that share a queue are a step relation.
\<close>

section \<open>The line\<close>

record spurs_queue =
  spq_popIndex :: u32
  spq_pushIndex :: u32
  spq_entrySize :: u32
  spq_depth :: u32
  spq_buffer :: u64
  spq_spuPort :: u32
  spq_direction :: u32
  spq_popWait :: "u8 list"
  spq_pushWait :: "u8 list"
  spq_popWaitWkl :: "u8 list"
  spq_pushWaitWkl :: "u8 list"
  spq_taskset :: u64
  spq_spurs :: u64

abbreviation (input) NO_PORT :: u32 where "NO_PORT \<equiv> 0xffffffff"
abbreviation (input) SPQ_SPU2PPU :: u32 where "SPQ_SPU2PPU \<equiv> 1"
abbreviation (input) SPQ_PPU2SPU :: u32 where "SPQ_PPU2SPU \<equiv> 2"

definition in_flight :: "u32 \<Rightarrow> bool" where "in_flight v \<longleftrightarrow> sint v < 0"

definition index_of :: "u32 \<Rightarrow> u32" where "index_of v = (if in_flight v then NOT v else v)"

definition spq_entries :: "u32 \<Rightarrow> u32 \<Rightarrow> u32 \<Rightarrow> u32" where
  "spq_entries pop push depth = (if pop > push then push - pop + 2 * depth else push - pop)"

definition next_index :: "u32 \<Rightarrow> u32 \<Rightarrow> u32" where
  "next_index i depth = (if i + 1 < 2 * depth then i + 1 else 0)"

definition spq_dequeue :: "u8 list \<Rightarrow> u8 list" where
  "spq_dequeue l = map (\<lambda>i. if i = 0 then (if l ! 0 \<noteq> 0 then l ! 0 - 1 else 0) else if i < 15 then l ! (i + 1) else 0) [0..<16]"

definition spq_n :: "spurs_queue \<Rightarrow> u32" where
  "spq_n l = spq_entries (index_of (spq_popIndex l)) (index_of (spq_pushIndex l)) (spq_depth l)"

text \<open>The fields of one side, chosen by \<open>push\<close>.\<close>

definition spq_mine :: "bool \<Rightarrow> spurs_queue \<Rightarrow> u32" where
  "spq_mine push l = (if push then spq_pushIndex l else spq_popIndex l)"

definition spq_wait :: "bool \<Rightarrow> spurs_queue \<Rightarrow> u8 list" where
  "spq_wait push l = (if push then spq_pushWait l else spq_popWait l)"

definition spq_waitWkl :: "bool \<Rightarrow> spurs_queue \<Rightarrow> u8 list" where
  "spq_waitWkl push l = (if push then spq_pushWaitWkl l else spq_popWaitWkl l)"

definition spq_set_mine :: "bool \<Rightarrow> u32 \<Rightarrow> spurs_queue \<Rightarrow> spurs_queue" where
  "spq_set_mine push v l = (if push then l\<lparr>spq_pushIndex := v\<rparr> else l\<lparr>spq_popIndex := v\<rparr>)"

definition spq_set_wait :: "bool \<Rightarrow> u8 list \<Rightarrow> u8 list \<Rightarrow> spurs_queue \<Rightarrow> spurs_queue" where
  "spq_set_wait push w k l = (if push then l\<lparr>spq_pushWait := w, spq_pushWaitWkl := k\<rparr> else l\<lparr>spq_popWait := w, spq_popWaitWkl := k\<rparr>)"

definition cellSpursQueueInitialize :: "u64 \<Rightarrow> u64 \<Rightarrow> u64 \<Rightarrow> u64 \<Rightarrow> u32 \<Rightarrow> u32 \<Rightarrow> u32 \<Rightarrow> bool \<Rightarrow> spurs_error + spurs_queue" where
  "cellSpursQueueInitialize taskset spurs ea buffer sz depth direction isIwl =
     (if ea = 0 \<or> sz \<noteq> 0 \<and> buffer = 0 then Inl SP_NULL_POINTER
      else if sz > 0x4000 \<or> sz AND 15 \<noteq> 0 \<or> depth = 0 \<or> depth AND 0xc0000000 \<noteq> 0 \<or> direction > SPQ_PPU2SPU then Inl SP_INVAL
      else if ea AND 127 \<noteq> 0 \<or> buffer AND 15 \<noteq> 0 then Inl SP_ALIGN
      else Inr \<lparr>spq_popIndex = 0, spq_pushIndex = 0, spq_entrySize = sz, spq_depth = depth, spq_buffer = buffer, spq_spuPort = NO_PORT,
        spq_direction = direction, spq_popWait = replicate 16 0, spq_pushWait = replicate 16 0, spq_popWaitWkl = replicate 16 0,
        spq_pushWaitWkl = replicate 16 0, spq_taskset = (if isIwl then 0 else taskset), spq_spurs = spurs\<rparr>)"

section \<open>Begin\<close>

text \<open>A pass ends the call with an error, with an index reserved for the caller, or with the caller queued.\<close>

datatype spq_begin_next = SpqReserved u32 | SpqQueued

definition spq_begin_decision :: "bool \<Rightarrow> bool \<Rightarrow> bool \<Rightarrow> spurs_task \<Rightarrow> spurs_queue \<Rightarrow> (spurs_queue, spurs_error + spq_begin_next) decision" where
  "spq_begin_decision push block woken task l =
     (if spq_direction l = (if push then SPQ_PPU2SPU else SPQ_SPU2PPU) then Return (Inl SP_PERM)
      else let mine = spq_mine push l; w = spq_wait push l; k = spq_waitWkl push l;
               stuck = (spq_n l = (if push then spq_depth l else 0));
               mustWait = (in_flight mine \<or> stuck \<or> w ! 0 \<noteq> 0);
               index = index_of mine
        in if \<not> block \<and> stuck then Return (Inl SP_AGAIN)
           else if \<not> block \<and> mustWait then Return (Inl SP_BUSY)
           else if woken then Store (spq_set_mine push (NOT index) (spq_set_wait push (spq_dequeue w) (spq_dequeue k) l)) (Inr (SpqReserved index))
           else if mustWait
           then if w ! 0 \<ge> 15 then Return (Inl SP_AGAIN)
                else let w = w[0 := w ! 0 + 1]; w = w[unat (w ! 0) := task_id task];
                         k = k[0 := w ! 0]; k = k[unat (w ! 0) := task_wkl task]
                     in Store (spq_set_wait push w k l) (Inr SpqQueued)
           else Store (spq_set_mine push (NOT index) l) (Inr (SpqReserved index)))"

definition spq_entry_ea :: "spurs_queue \<Rightarrow> u32 \<Rightarrow> u64" where
  "spq_entry_ea l index = (let slot = (if index < spq_depth l then index else index - spq_depth l)
     in spq_buffer l + ucast slot * ucast (spq_entrySize l))"

definition spq_begin_check :: "u64 \<Rightarrow> u32 \<Rightarrow> u32 \<Rightarrow> bool \<Rightarrow> (spurs_error + unit) \<Rightarrow> spurs_error + unit" where
  "spq_begin_check ea ls tag block can_block =
     (if ea = 0 \<or> ls = 0 then Inl SP_NULL_POINTER
      else if ls AND 15 \<noteq> 0 \<or> ea AND 127 \<noteq> 0 then Inl SP_ALIGN
      else if tag > 31 then Inl SP_INVAL
      else if block then can_block else Inr ())"

text \<open>
  The call: for each round the answers to its loop, then, when it queued itself, the results of the check and of
  \<open>cellSpursWaitSignal\<close>.  It returns the address of the entry to transfer.
\<close>

fun spq_begin_loop :: "bool \<Rightarrow> bool \<Rightarrow> spurs_task \<Rightarrow> bool \<Rightarrow>
    ((spurs_queue \<times> bool) list \<times> (spurs_error + unit) \<times> (spurs_error + unit)) list \<Rightarrow> (spurs_error + u64) option" where
  "spq_begin_loop push block task woken [] = None"
| "spq_begin_loop push block task woken ((answers, can_block, wake) # rounds) =
     (case llsc_loop (spq_begin_decision push block woken task) answers of
        Stored l l' (Inr (SpqReserved index)) \<Rightarrow> Some (Inr (spq_entry_ea l' index))
      | Stored l l' (Inr SpqQueued) \<Rightarrow>
          (case can_block of
             Inl e \<Rightarrow> Some (Inl e)
           | Inr _ \<Rightarrow> (case wake of Inl e \<Rightarrow> Some (Inl e) | Inr _ \<Rightarrow> spq_begin_loop push block task True rounds))
      | Returned (Inl e) \<Rightarrow> Some (Inl e)
      | _ \<Rightarrow> None)"

definition spq_queue_begin where
  "spq_queue_begin push ea ls tag block can_block task rounds =
     (case spq_begin_check ea ls tag block can_block of
        Inl e \<Rightarrow> Some (Inl e)
      | Inr _ \<Rightarrow> spq_begin_loop push block task False rounds)"

definition cellSpursQueuePushBegin where "cellSpursQueuePushBegin = spq_queue_begin True"
definition cellSpursQueuePopBegin where "cellSpursQueuePopBegin = spq_queue_begin False"

section \<open>End\<close>

record spq_wakes =
  spq_wakePop :: bool
  spq_wakePush :: bool
  spq_throwPpu :: bool
  spq_popTask :: "u8 \<times> u8"
  spq_pushTask :: "u8 \<times> u8"

definition spq_end_decision :: "bool \<Rightarrow> bool \<Rightarrow> spurs_queue \<Rightarrow> (spurs_queue, spurs_error + spq_wakes) decision" where
  "spq_end_decision push peek l =
     (if spq_direction l = (if push then SPQ_PPU2SPU else SPQ_SPU2PPU) then Return (Inl SP_PERM)
      else let a = index_of (spq_popIndex l); b = index_of (spq_pushIndex l); n = spq_entries a b (spq_depth l);
               port = spq_spuPort l \<noteq> NO_PORT;
               popW = spq_popWait l ! 0 \<noteq> 0; pushW = spq_pushWait l ! 0 \<noteq> 0
        in let (l', wakePop, wakePush, throwPpu) =
             (if push
              then let wakePop = (popW \<and> \<not> in_flight (spq_popIndex l)); wakePush = (pushW \<and> n + 1 < spq_depth l);
                       throwPpu = (port \<and> in_flight (spq_popIndex l) \<and> n = 0); b = next_index b (spq_depth l)
                   in (l\<lparr>spq_popIndex := (if wakePop then NOT a else spq_popIndex l), spq_pushIndex := (if wakePush then NOT b else b)\<rparr>,
                       wakePop, wakePush, throwPpu)
              else let wakePop = (popW \<and> (if peek then n else n - 1) > 0); wakePush = (pushW \<and> \<not> peek \<and> \<not> in_flight (spq_pushIndex l));
                       throwPpu = (port \<and> \<not> peek \<and> in_flight (spq_pushIndex l) \<and> n = spq_depth l);
                       a = (if peek then a else next_index a (spq_depth l))
                   in (l\<lparr>spq_popIndex := (if wakePop then NOT a else a), spq_pushIndex := (if wakePush then NOT b else spq_pushIndex l)\<rparr>,
                       wakePop, wakePush, throwPpu))
           in Store l' (Inr \<lparr>spq_wakePop = wakePop, spq_wakePush = wakePush, spq_throwPpu = throwPpu,
                spq_popTask = (spq_popWaitWkl l ! 1, spq_popWait l ! 1), spq_pushTask = (spq_pushWaitWkl l ! 1, spq_pushWait l ! 1)\<rparr>))"

definition spq_to_wake :: "spq_wakes \<Rightarrow> (u8 \<times> u8) list" where
  "spq_to_wake w = (if spq_wakePop w then [spq_popTask w] else []) @ (if spq_wakePush w then [spq_pushTask w] else [])"

text \<open>The taskset of a waiter: the queue's own, or for a queue of a SPURS instance the argument of the waiter's workload.\<close>

definition spq_waiter_taskset :: "(u64 \<Rightarrow> u64) \<Rightarrow> spurs_queue \<Rightarrow> u8 \<Rightarrow> u64 option" where
  "spq_waiter_taskset read64 l wkl =
     (if spq_taskset l \<noteq> 0 then Some (spq_taskset l)
      else if wkl \<ge> 32 then None
      else Some (read64 (spq_spurs l + (if wkl AND 0x10 \<noteq> 0 then 0x1000 else 0xb00) + ucast (wkl AND 0xf) * 0x20 + 0x08)))"

fun spq_wake_all :: "nat \<Rightarrow> (nat \<Rightarrow> spurs_task) \<Rightarrow> (u64 \<Rightarrow> u64) \<Rightarrow> spurs_queue \<Rightarrow> (u8 \<times> u8) list \<Rightarrow> (nat \<Rightarrow> bool) \<Rightarrow>
    (spurs_error + unit) \<times> (nat \<Rightarrow> bool)" where
  "spq_wake_all N task read64 l [] signals = (Inr (), signals)"
| "spq_wake_all N task read64 l ((wkl, i) # ws) signals =
     (case spq_waiter_taskset read64 l wkl of
        None \<Rightarrow> (Inl SP_FATAL, signals)
      | Some taskset \<Rightarrow>
          (case send_signal N task taskset i signals of
             None \<Rightarrow> (Inl SP_FATAL, signals)
           | Some signals' \<Rightarrow> spq_wake_all N task read64 l ws signals'))"

definition spq_queue_end :: "bool \<Rightarrow> nat \<Rightarrow> (nat \<Rightarrow> spurs_task) \<Rightarrow> (u64 \<Rightarrow> u64) \<Rightarrow> u64 \<Rightarrow> u32 \<Rightarrow> bool \<Rightarrow> (spurs_queue \<times> bool) list \<Rightarrow>
    (nat \<Rightarrow> bool) \<Rightarrow> (spurs_queue, (spurs_error + unit) \<times> (nat \<Rightarrow> bool)) outcome" where
  "spq_queue_end push N task read64 ea tag peek answers signals =
     (case spurs_check_ea ea of
        Inl e \<Rightarrow> Returned (Inl e, signals)
      | Inr _ \<Rightarrow>
          if tag > 31 then Returned (Inl SP_INVAL, signals)
          else (case llsc_loop (spq_end_decision push peek) answers of
                  Stored l l' (Inr w) \<Rightarrow> Stored l l' (spq_wake_all N task read64 l' (spq_to_wake w) signals)
                | Returned (Inl e) \<Rightarrow> Returned (Inl e, signals)
                | _ \<Rightarrow> Spinning))"

definition cellSpursQueuePushEnd where "cellSpursQueuePushEnd N task read64 ea tag = spq_queue_end True N task read64 ea tag False"
definition cellSpursQueuePopEnd where "cellSpursQueuePopEnd = spq_queue_end False"

section \<open>The other calls\<close>

definition spq_query :: "(spurs_queue \<Rightarrow> 'a) \<Rightarrow> u64 \<Rightarrow> bool \<Rightarrow> spurs_queue \<Rightarrow> spurs_error + 'a" where
  "spq_query field ea given l =
     (case spurs_check_ea ea of Inl e \<Rightarrow> Inl e | Inr _ \<Rightarrow> if \<not> given then Inl SP_NULL_POINTER else Inr (field l))"

definition cellSpursQueueSize where "cellSpursQueueSize = spq_query spq_n"
definition cellSpursQueueDepth where "cellSpursQueueDepth = spq_query spq_depth"
definition cellSpursQueueGetEntrySize where "cellSpursQueueGetEntrySize = spq_query spq_entrySize"
definition cellSpursQueueGetDirection where "cellSpursQueueGetDirection = spq_query spq_direction"
definition cellSpursQueueGetTasksetAddress where "cellSpursQueueGetTasksetAddress = spq_query spq_taskset"

definition spq_clear_decision :: "spurs_queue \<Rightarrow> (spurs_queue, spurs_error + unit) decision" where
  "spq_clear_decision l =
     (if in_flight (spq_popIndex l) \<or> in_flight (spq_pushIndex l) \<or> spq_popWait l ! 0 \<noteq> 0 \<or> spq_pushWait l ! 0 \<noteq> 0
      then Return (Inl SP_BUSY)
      else Store (l\<lparr>spq_popIndex := 0, spq_pushIndex := 0\<rparr>) (Inr ()))"

definition cellSpursQueueClear :: "u64 \<Rightarrow> (spurs_queue \<times> bool) list \<Rightarrow> (spurs_queue, spurs_error + unit) outcome" where
  "cellSpursQueueClear ea answers = (case spurs_check_ea ea of Inl e \<Rightarrow> Returned (Inl e) | Inr _ \<Rightarrow> llsc_loop spq_clear_decision answers)"

section \<open>Tasks sharing a queue\<close>

datatype 'e spq_op = OpPush 'e | OpPop bool

fun op_push :: "'e spq_op \<Rightarrow> bool" where "op_push (OpPush v) = True" | "op_push (OpPop peek) = False"

fun op_peek :: "'e spq_op \<Rightarrow> bool" where "op_peek (OpPush v) = False" | "op_peek (OpPop peek) = peek"

text \<open>
  A task is outside, queued and blocked, signalled and about to reserve, holding an index with its transfer under way
  or complete, left with waiters to wake, or has failed to.
\<close>

datatype 'e spq_thread = SpqIdle | SpqBlocked "'e spq_op" | SpqWoken "'e spq_op" | SpqFlight "'e spq_op" u32 "'e option"
  | SpqWaking "(u8 \<times> u8) list" | SpqFailed

text \<open>
  The ring lies in memory, an entry at its address.  The waiters of each side in the order in which they queued, and the
  elements pushed and popped since the last clear, are kept as history.
\<close>

record 'e spq_sys =
  sp_line :: spurs_queue
  sp_mem :: "u64 \<Rightarrow> 'e"
  sp_signals :: "nat \<Rightarrow> bool"
  sp_threads :: "nat \<Rightarrow> 'e spq_thread"
  sp_waiting :: "bool \<Rightarrow> nat list"
  sp_pushed :: "'e list"
  sp_popped :: "'e list"

definition sp_set :: "nat \<Rightarrow> 'e spq_thread \<Rightarrow> 'e spq_sys \<Rightarrow> 'e spq_sys" where
  "sp_set t s x = x\<lparr>sp_threads := (sp_threads x)(t := s)\<rparr>"

inductive spq_step :: "nat \<Rightarrow> (nat \<Rightarrow> spurs_task) \<Rightarrow> (u64 \<Rightarrow> u64) \<Rightarrow> 'e spq_sys \<Rightarrow> 'e spq_sys \<Rightarrow> bool" for N task read64 where
  reserve: "t < N \<Longrightarrow> sp_threads x t = SpqIdle \<Longrightarrow>
    spq_begin_decision (op_push a) block False (task t) (sp_line x) = Store l' (Inr (SpqReserved i)) \<Longrightarrow>
    spq_step N task read64 x (sp_set t (SpqFlight a i None) (x\<lparr>sp_line := l'\<rparr>))"
| queue: "t < N \<Longrightarrow> sp_threads x t = SpqIdle \<Longrightarrow>
    spq_begin_decision (op_push a) block False (task t) (sp_line x) = Store l' (Inr SpqQueued) \<Longrightarrow>
    spq_step N task read64 x (sp_set t (SpqBlocked a)
      (x\<lparr>sp_line := l', sp_waiting := (sp_waiting x)(op_push a := sp_waiting x (op_push a) @ [t])\<rparr>))"
| signalled: "t < N \<Longrightarrow> sp_threads x t = SpqBlocked a \<Longrightarrow> sp_signals x t \<Longrightarrow>
    spq_step N task read64 x (sp_set t (SpqWoken a) (x\<lparr>sp_signals := (sp_signals x)(t := False)\<rparr>))"
| resume: "t < N \<Longrightarrow> sp_threads x t = SpqWoken a \<Longrightarrow>
    spq_begin_decision (op_push a) True True (task t) (sp_line x) = Store l' (Inr (SpqReserved i)) \<Longrightarrow>
    spq_step N task read64 x (sp_set t (SpqFlight a i None)
      (x\<lparr>sp_line := l', sp_waiting := (sp_waiting x)(op_push a := tl (sp_waiting x (op_push a)))\<rparr>))"
| put: "t < N \<Longrightarrow> sp_threads x t = SpqFlight (OpPush v) i None \<Longrightarrow>
    spq_step N task read64 x (sp_set t (SpqFlight (OpPush v) i (Some v)) (x\<lparr>sp_mem := (sp_mem x)(spq_entry_ea (sp_line x) i := v)\<rparr>))"
| get: "t < N \<Longrightarrow> sp_threads x t = SpqFlight (OpPop peek) i None \<Longrightarrow>
    spq_step N task read64 x (sp_set t (SpqFlight (OpPop peek) i (Some (sp_mem x (spq_entry_ea (sp_line x) i)))) x)"
| finish: "t < N \<Longrightarrow> sp_threads x t = SpqFlight a i (Some v) \<Longrightarrow>
    spq_end_decision (op_push a) (op_peek a) (sp_line x) = Store l' (Inr w) \<Longrightarrow>
    spq_step N task read64 x (sp_set t (SpqWaking (spq_to_wake w)) (x\<lparr>sp_line := l',
      sp_pushed := (if op_push a then sp_pushed x @ [v] else sp_pushed x),
      sp_popped := (if op_push a \<or> op_peek a then sp_popped x else sp_popped x @ [v])\<rparr>))"
| wake: "t < N \<Longrightarrow> sp_threads x t = SpqWaking ((wkl, i) # ws) \<Longrightarrow> spq_waiter_taskset read64 (sp_line x) wkl = Some taskset \<Longrightarrow>
    send_signal N task taskset i (sp_signals x) = Some signals' \<Longrightarrow>
    spq_step N task read64 x (sp_set t (SpqWaking ws) (x\<lparr>sp_signals := signals'\<rparr>))"
| wake_fails: "t < N \<Longrightarrow> sp_threads x t = SpqWaking ((wkl, i) # ws) \<Longrightarrow>
    (case spq_waiter_taskset read64 (sp_line x) wkl of
       None \<Rightarrow> True | Some taskset \<Rightarrow> send_signal N task taskset i (sp_signals x) = None) \<Longrightarrow>
    spq_step N task read64 x (sp_set t SpqFailed x)"
| woken_all: "t < N \<Longrightarrow> sp_threads x t = SpqWaking [] \<Longrightarrow> spq_step N task read64 x (sp_set t SpqIdle x)"
| clear: "spq_clear_decision (sp_line x) = Store l' (Inr ()) \<Longrightarrow>
    spq_step N task read64 x (x\<lparr>sp_line := l', sp_pushed := [], sp_popped := []\<rparr>)"

end
