(* ===== verification/Spurs_Queue_Inv.thy ===== *)
theory Spurs_Queue_Inv
  imports Spurs_Queue
begin

text \<open>
  The arithmetic of the ring of the SPURS queue, and the invariant of the tasks that share it: the ring holds what was
  pushed and not popped, an index is in flight for one task or for the first waiter, and that waiter has exactly one
  signal on its way.
\<close>

section \<open>Indices\<close>

lemma in_flight_unat: "in_flight v \<longleftrightarrow> 2 ^ 31 \<le> unat v"
proof -
  have "sint v < 0 \<longleftrightarrow> bit v 31" using bit_last_iff[of v] by simp
  also have "\<dots> \<longleftrightarrow> bit (unat v) 31" by (simp add: bit_unsigned_iff)
  also have "\<dots> \<longleftrightarrow> odd (unat v div 2 ^ 31)" by (rule bit_iff_odd)
  also have "\<dots> \<longleftrightarrow> 2 ^ 31 \<le> unat v"
  proof -
    have "unat v < 2 * 2 ^ 31" using unsigned_less[of v] by simp
    then have "unat v div 2 ^ 31 < 2" by (rule less_mult_imp_div_less)
    then have "unat v div 2 ^ 31 = 0 \<or> unat v div 2 ^ 31 = 1" by linarith
    moreover have "unat v div 2 ^ 31 = 0 \<longleftrightarrow> unat v < 2 ^ 31" by (simp add: div_eq_0_iff)
    ultimately show ?thesis by auto
  qed
  finally show ?thesis by (simp add: in_flight_def)
qed

lemma unat_not: "unat (NOT (v :: u32)) = 2 ^ 32 - 1 - unat v"
proof -
  have "NOT v = - 1 - v" by (simp add: not_eq_complement)
  moreover have "v \<le> - 1" by simp
  ultimately have "unat (NOT v) = unat (- 1 :: u32) - unat v" by (metis unat_sub)
  moreover have "unat (- 1 :: u32) = 2 ^ 32 - 1" by (simp add: unsigned_minus_1_eq_mask mask_eq_exp_minus_1)
  ultimately show ?thesis by simp
qed

lemma index_of_plain: "unat v < 2 ^ 31 \<Longrightarrow> \<not> in_flight v \<and> index_of v = v"
  by (simp add: in_flight_unat index_of_def)

lemma index_of_not: "unat v < 2 ^ 31 \<Longrightarrow> in_flight (NOT v) \<and> index_of (NOT v) = v"
  by (simp add: in_flight_unat index_of_def unat_not)

text \<open>The index after \<open>k\<close> operations runs modulo twice the depth.\<close>

definition spq_index :: "nat \<Rightarrow> nat \<Rightarrow> u32" where
  "spq_index d k = of_nat (k mod (2 * d))"

lemma index_less: "0 < d \<Longrightarrow> d < 2 ^ 30 \<Longrightarrow> k mod (2 * d) < 2 ^ 31" for k d :: nat
proof -
  assume d: "0 < d" "d < 2 ^ 30"
  have "k mod (2 * d) < 2 * d" by (rule mod_less_divisor) (use d in simp)
  also have "\<dots> < 2 ^ 31" using d by simp
  finally show ?thesis .
qed

lemma unat_spq_index: "0 < d \<Longrightarrow> d < 2 ^ 30 \<Longrightarrow> unat (spq_index d k) = k mod (2 * d)"
proof -
  assume "0 < d" "d < 2 ^ 30"
  then have "k mod (2 * d) < 2 ^ 31" by (rule index_less)
  also have "(2 :: nat) ^ 31 \<le> 2 ^ 32" by simp
  finally show ?thesis by (simp add: spq_index_def unat_of_nat take_bit_eq_mod)
qed

lemma spq_index_small:
  assumes "0 < d" "d < 2 ^ 30"
  shows "\<not> in_flight (spq_index d k)" "index_of (spq_index d k) = spq_index d k"
    "in_flight (NOT (spq_index d k))" "index_of (NOT (spq_index d k)) = spq_index d k"
proof -
  have "unat (spq_index d k) < 2 ^ 31" unfolding unat_spq_index[OF assms] by (rule index_less[OF assms])
  then show "\<not> in_flight (spq_index d k)" "index_of (spq_index d k) = spq_index d k"
    "in_flight (NOT (spq_index d k))" "index_of (NOT (spq_index d k)) = spq_index d k"
    using index_of_plain index_of_not by blast+
qed

lemma add_mod_cases: "k \<le> d \<Longrightarrow> 0 < d \<Longrightarrow> (p + k) mod (2 * d) = (if p mod (2 * d) + k < 2 * d then p mod (2 * d) + k else p mod (2 * d) + k - 2 * d)" for d k p :: nat
proof -
  assume a: "k \<le> d" "0 < d"
  define r where "r = p mod (2 * d)"
  have r: "r < 2 * d" unfolding r_def by (rule mod_less_divisor) (use a in simp)
  have m: "(p + k) mod (2 * d) = (r + k) mod (2 * d)" by (simp add: r_def mod_add_left_eq)
  show ?thesis
  proof (cases "r + k < 2 * d")
    case True
    then show ?thesis using m by (simp add: r_def[symmetric])
  next
    case False
    then have "(r + k) mod (2 * d) = (r + k - 2 * d) mod (2 * d)" by (intro le_mod_geq) simp
    also have "\<dots> = r + k - 2 * d" using r a by (intro mod_less) linarith
    finally show ?thesis using m False by (simp add: r_def[symmetric])
  qed
qed

lemma spq_entries_index:
  assumes "p \<le> q" "q \<le> p + d" "unat depth = d" "0 < d" "d < 2 ^ 30"
  shows "unat (spq_entries (spq_index d p) (spq_index d q) depth) = q - p"
proof -
  define k where "k = q - p"
  have k: "q = p + k" "k \<le> d" using assms(1,2) by (auto simp: k_def)
  note a = unat_spq_index[OF assms(4,5), of p] and b = unat_spq_index[OF assms(4,5), of q]
  have bq: "q mod (2 * d) = (if p mod (2 * d) + k < 2 * d then p mod (2 * d) + k else p mod (2 * d) + k - 2 * d)"
    unfolding k(1) by (rule add_mod_cases[OF k(2) assms(4)])
  have r: "p mod (2 * d) < 2 * d" by (rule mod_less_divisor) (use assms(4) in simp)
  have le: "p mod (2 * d) + k - 2 * d \<le> p mod (2 * d)" using k(2) by linarith
  show ?thesis
  proof (cases "p mod (2 * d) + k < 2 * d")
    case True
    then have "\<not> spq_index d p > spq_index d q" using a b bq by (simp add: word_less_nat_alt)
    moreover have "unat (spq_index d q - spq_index d p) = k"
      using True a b bq by (subst unat_sub) (simp_all add: word_le_nat_alt)
    ultimately show ?thesis by (simp add: spq_entries_def k_def[symmetric])
  next
    case False
    then have lt: "spq_index d p > spq_index d q" using a b bq k(2) assms(4) by (simp add: word_less_nat_alt)
    have d2: "unat (2 * depth) = 2 * d"
    proof -
      have "unat (2 * depth) = unat (2 :: u32) * unat depth" by (subst unat_mult_lem[THEN iffD1]) (use assms(3,5) in simp_all)
      then show ?thesis using assms(3) by simp
    qed
    have "spq_index d q - spq_index d p + 2 * depth = 2 * depth - (spq_index d p - spq_index d q)" by simp
    moreover have u: "unat (spq_index d p - spq_index d q) = 2 * d - k" using False a b bq lt le k(2) r by (subst unat_sub) (auto simp: word_le_nat_alt)
    moreover have "unat (2 * depth - (spq_index d p - spq_index d q)) = k"
      using d2 u k(2) by (subst unat_sub) (auto simp: word_le_nat_alt)
    ultimately have "unat (spq_index d q - spq_index d p + 2 * depth) = k" by (simp only:)
    then show ?thesis using lt by (simp add: spq_entries_def k_def[symmetric])
  qed
qed

lemma next_index_index:
  assumes "unat depth = d" "0 < d" "d < 2 ^ 30"
  shows "next_index (spq_index d k) depth = spq_index d (k + 1)"
proof -
  have d2: "unat (2 * depth) = 2 * d"
  proof -
    have "unat (2 * depth) = unat (2 :: u32) * unat depth" by (subst unat_mult_lem[THEN iffD1]) (use assms(1,3) in simp_all)
    then show ?thesis using assms(1) by simp
  qed
  note a = unat_spq_index[OF assms(2,3), of k] and b = unat_spq_index[OF assms(2,3), of "k + 1"]
  have r: "k mod (2 * d) < 2 * d" by (rule mod_less_divisor) (use assms(2) in simp)
  have "unat (spq_index d k) + 1 < 2 ^ LENGTH(32)" using index_less[OF assms(2,3), of k] a by simp
  then have u: "unat (spq_index d k + 1) = k mod (2 * d) + 1" using a by (simp add: unat_up)
  have m: "(k + 1) mod (2 * d) = (if k mod (2 * d) + 1 < 2 * d then k mod (2 * d) + 1 else k mod (2 * d) + 1 - 2 * d)"
    by (rule add_mod_cases) (use assms(2) in simp_all)
  show ?thesis
  proof (cases "k mod (2 * d) + 1 < 2 * d")
    case True
    then have "spq_index d k + 1 < 2 * depth" using u d2 by (simp add: word_less_nat_alt)
    moreover have "spq_index d k + 1 = spq_index d (k + 1)" using u b m True by (simp add: word_unat_eq_iff)
    ultimately show ?thesis by (simp add: next_index_def)
  next
    case False
    then have "\<not> spq_index d k + 1 < 2 * depth" using u d2 by (simp add: word_less_nat_alt)
    moreover have "spq_index d (k + 1) = 0" using b m False r by (simp add: word_unat_eq_iff)
    ultimately show ?thesis by (simp add: next_index_def)
  qed
qed

section \<open>Entries\<close>

definition spq_geometry :: "nat \<Rightarrow> spurs_queue \<Rightarrow> bool" where
  "spq_geometry d l \<longleftrightarrow> unat (spq_depth l) = d \<and> 0 < d \<and> d < 2 ^ 30 \<and> spq_entrySize l \<noteq> 0 \<and> unat (spq_entrySize l) \<le> 0x4000"

definition spq_slot :: "spurs_queue \<Rightarrow> nat \<Rightarrow> u64" where
  "spq_slot l k = spq_buffer l + of_nat ((k mod unat (spq_depth l)) * unat (spq_entrySize l))"

lemma unat_word_u64: "(ucast (x :: u32) :: u64) = of_nat (unat x)"
  by (metis unat_u64_of_u32 of_nat_unat ucast_id)

lemma spq_entry_ea_slot:
  assumes "spq_geometry d l"
  shows "spq_entry_ea l (spq_index d k) = spq_slot l k"
proof -
  have g: "unat (spq_depth l) = d" "0 < d" "d < 2 ^ 30" using assms by (simp_all add: spq_geometry_def)
  note a = unat_spq_index[OF g(2,3), of k]
  have m: "k mod d = (if k mod (2 * d) < d then k mod (2 * d) else k mod (2 * d) - d)"
  proof -
    define r where "r = k mod (2 * d)"
    have "r mod d = k mod d" unfolding r_def by (rule mod_mod_cancel) simp
    moreover have "r < 2 * d" unfolding r_def by (rule mod_less_divisor) (use g(2) in simp)
    moreover have "r mod d = (if r < d then r else r - d)" if "r < 2 * d"
      using that le_mod_geq[of d r] by (cases "r < d") auto
    ultimately show ?thesis by (simp add: r_def)
  qed
  let ?slot = "if spq_index d k < spq_depth l then spq_index d k else spq_index d k - spq_depth l"
  have "unat ?slot = k mod d"
  proof (cases "k mod (2 * d) < d")
    case True
    then show ?thesis using a m g(1) by (simp add: word_less_nat_alt)
  next
    case False
    then have "\<not> spq_index d k < spq_depth l" using a g(1) by (simp add: word_less_nat_alt)
    then show ?thesis using False a m g(1) by (simp add: unat_sub word_le_nat_alt)
  qed
  then have "(ucast ?slot :: u64) = of_nat (k mod d)" using unat_word_u64 by metis
  moreover have "(ucast (spq_entrySize l) :: u64) = of_nat (unat (spq_entrySize l))" by (rule unat_word_u64)
  ultimately show ?thesis using g(1) by (simp add: spq_entry_ea_def spq_slot_def Let_def)
qed

lemma of_nat_eq64: "x < 2 ^ 64 \<Longrightarrow> y < 2 ^ 64 \<Longrightarrow> (of_nat x :: u64) = of_nat y \<Longrightarrow> x = y"
proof -
  have u: "z < 2 ^ 64 \<Longrightarrow> unat (of_nat z :: u64) = z" for z by (simp add: unat_of_nat take_bit_eq_mod)
  assume "x < 2 ^ 64" "y < 2 ^ 64" "(of_nat x :: u64) = of_nat y"
  then show "x = y" using u by metis
qed

lemma spq_slot_inj:
  assumes "spq_geometry d l" "i \<le> j" "j < i + d"
  shows "spq_slot l i = spq_slot l j \<longleftrightarrow> i = j"
proof
  assume e: "spq_slot l i = spq_slot l j"
  have g: "unat (spq_depth l) = d" "0 < d" "d < 2 ^ 30" "unat (spq_entrySize l) \<le> 0x4000" "0 < unat (spq_entrySize l)"
    using assms(1) by (simp_all add: spq_geometry_def unat_gt_0)
  let ?s = "unat (spq_entrySize l)"
  have b: "(k mod d) * ?s < 2 ^ 64" for k
  proof -
    have "(k mod d) * ?s \<le> 2 ^ 30 * 0x4000" using g(2-4) by (intro mult_mono) (auto intro: less_imp_le less_trans[OF mod_less_divisor])
    then show ?thesis by simp
  qed
  have "(of_nat ((i mod d) * ?s) :: u64) = of_nat ((j mod d) * ?s)" using e g(1) by (simp add: spq_slot_def)
  then have "(i mod d) * ?s = (j mod d) * ?s" using b of_nat_eq64[of "(i mod d) * ?s" "(j mod d) * ?s"] by blast
  then have "i mod d = j mod d" using g(5) by simp
  then have "(j - i) mod d = 0" using assms(2) by (metis mod_eq_dvd_iff_nat dvd_imp_mod_0)
  then show "i = j" using assms(2,3) by simp
qed simp

section \<open>Fields\<close>

lemma spq_field_simps [simp]:
  "spq_mine p (spq_set_mine q v l) = (if p = q then v else spq_mine p l)"
  "spq_mine p (spq_set_wait q w k l) = spq_mine p l"
  "spq_wait p (spq_set_mine q v l) = spq_wait p l" "spq_waitWkl p (spq_set_mine q v l) = spq_waitWkl p l"
  "spq_wait p (spq_set_wait q w k l) = (if p = q then w else spq_wait p l)"
  "spq_waitWkl p (spq_set_wait q w k l) = (if p = q then k else spq_waitWkl p l)"
  by (simp_all add: spq_mine_def spq_set_mine_def spq_set_wait_def spq_wait_def spq_waitWkl_def)

lemma spq_frame_simps [simp]:
  "spq_depth (spq_set_mine q v l) = spq_depth l" "spq_depth (spq_set_wait q w k l) = spq_depth l"
  "spq_buffer (spq_set_mine q v l) = spq_buffer l" "spq_buffer (spq_set_wait q w k l) = spq_buffer l"
  "spq_entrySize (spq_set_mine q v l) = spq_entrySize l" "spq_entrySize (spq_set_wait q w k l) = spq_entrySize l"
  "spq_taskset (spq_set_mine q v l) = spq_taskset l" "spq_taskset (spq_set_wait q w k l) = spq_taskset l"
  "spq_spurs (spq_set_mine q v l) = spq_spurs l" "spq_spurs (spq_set_wait q w k l) = spq_spurs l"
  by (simp_all add: spq_set_mine_def spq_set_wait_def)

definition spq_same_place :: "spurs_queue \<Rightarrow> spurs_queue \<Rightarrow> bool" where
  "spq_same_place l l' \<longleftrightarrow> spq_depth l' = spq_depth l \<and> spq_buffer l' = spq_buffer l \<and> spq_entrySize l' = spq_entrySize l \<and>
     spq_taskset l' = spq_taskset l \<and> spq_spurs l' = spq_spurs l"

section \<open>The invariant\<close>

fun spq_flies :: "bool \<Rightarrow> 'e spq_thread \<Rightarrow> bool" where
  "spq_flies p (SpqFlight a i v) = (op_push a = p)" | "spq_flies p s = False"

fun spq_waits :: "bool \<Rightarrow> 'e spq_thread \<Rightarrow> bool" where
  "spq_waits p (SpqBlocked a) = (op_push a = p)" | "spq_waits p (SpqWoken a) = (op_push a = p)" | "spq_waits p s = False"

fun spq_woken :: "'e spq_thread \<Rightarrow> bool" where "spq_woken (SpqWoken a) = True" | "spq_woken s = False"

fun spq_owes :: "u8 \<times> u8 \<Rightarrow> 'e spq_thread \<Rightarrow> nat" where
  "spq_owes nm (SpqWaking ws) = count_list ws nm" | "spq_owes nm s = 0"

definition spq_name :: "spurs_task \<Rightarrow> u8 \<times> u8" where "spq_name task = (task_wkl task, task_id task)"

definition spq_room :: "nat \<Rightarrow> bool \<Rightarrow> nat \<Rightarrow> nat \<Rightarrow> bool" where
  "spq_room d push p q \<longleftrightarrow> (if push then q < p + d else p < q)"

abbreviation (input) sp_P where "sp_P x \<equiv> length (sp_popped x)"
abbreviation (input) sp_Q where "sp_Q x \<equiv> length (sp_pushed x)"

definition spq_ring :: "nat \<Rightarrow> 'e spq_sys \<Rightarrow> bool" where
  "spq_ring d x \<longleftrightarrow> spq_geometry d (sp_line x) \<and> index_of (spq_mine False (sp_line x)) = spq_index d (sp_P x) \<and>
     index_of (spq_mine True (sp_line x)) = spq_index d (sp_Q x) \<and> sp_P x \<le> sp_Q x \<and> sp_Q x \<le> sp_P x + d \<and>
     sp_popped x = take (sp_P x) (sp_pushed x) \<and>
     (\<forall>k. sp_P x \<le> k \<and> k < sp_Q x \<longrightarrow> sp_mem x (spq_slot (sp_line x) k) = sp_pushed x ! k)"

fun spq_data :: "nat \<Rightarrow> 'e spq_sys \<Rightarrow> 'e spq_thread \<Rightarrow> bool" where
  "spq_data d x (SpqFlight (OpPush e) i v) \<longleftrightarrow> i = spq_index d (sp_Q x) \<and>
     (v = None \<or> v = Some e \<and> sp_mem x (spq_slot (sp_line x) (sp_Q x)) = e)"
| "spq_data d x (SpqFlight (OpPop peek) i v) \<longleftrightarrow> i = spq_index d (sp_P x) \<and> (v = None \<or> v = Some (sp_pushed x ! sp_P x))"
| "spq_data d x SpqFailed \<longleftrightarrow> False"
| "spq_data d x s \<longleftrightarrow> True"

definition spq_list_ok :: "(nat \<Rightarrow> spurs_task) \<Rightarrow> u8 list \<Rightarrow> u8 list \<Rightarrow> nat list \<Rightarrow> bool" where
  "spq_list_ok task w k L \<longleftrightarrow> length w = 16 \<and> length k = 16 \<and> length L \<le> 15 \<and> w ! 0 = of_nat (length L) \<and>
     (\<forall>j < length L. (k ! Suc j, w ! Suc j) = spq_name (task (L ! j)))"

definition spq_side :: "nat \<Rightarrow> (nat \<Rightarrow> spurs_task) \<Rightarrow> nat \<Rightarrow> bool \<Rightarrow> 'e spq_sys \<Rightarrow> bool" where
  "spq_side N task d p x \<longleftrightarrow> (let fl = in_flight (spq_mine p (sp_line x)); L = sp_waiting x p; n = number N (spq_flies p) (sp_threads x);
       room = spq_room d p (sp_P x) (sp_Q x)
     in spq_list_ok task (spq_wait p (sp_line x)) (spq_waitWkl p (sp_line x)) L \<and> distinct L \<and>
        (\<forall>t. t \<in> set L \<longleftrightarrow> t < N \<and> spq_waits p (sp_threads x t)) \<and> n \<le> 1 \<and> (0 < n \<longrightarrow> fl) \<and> (fl \<longrightarrow> room) \<and>
        (\<not> fl \<and> L \<noteq> [] \<longrightarrow> \<not> room) \<and> (fl \<and> n = 0 \<longrightarrow> L \<noteq> []))"

text \<open>The signals on their way to a task, and whether there should be one: for the first waiter, if the index in flight is its own.\<close>

definition spq_tokens :: "nat \<Rightarrow> (nat \<Rightarrow> spurs_task) \<Rightarrow> 'e spq_sys \<Rightarrow> nat \<Rightarrow> nat" where
  "spq_tokens N task x t = (if sp_signals x t then 1 else 0) + (if spq_woken (sp_threads x t) then 1 else 0) +
     total N (spq_owes (spq_name (task t))) (sp_threads x)"

definition spq_expects :: "nat \<Rightarrow> 'e spq_sys \<Rightarrow> nat \<Rightarrow> bool" where
  "spq_expects N x t \<longleftrightarrow> (\<exists>p. sp_waiting x p \<noteq> [] \<and> hd (sp_waiting x p) = t \<and> in_flight (spq_mine p (sp_line x)) \<and>
     number N (spq_flies p) (sp_threads x) = 0)"

definition spq_tasks :: "nat \<Rightarrow> (nat \<Rightarrow> spurs_task) \<Rightarrow> (u64 \<Rightarrow> u64) \<Rightarrow> spurs_queue \<Rightarrow> bool" where
  "spq_tasks N task read64 l \<longleftrightarrow> distinct_tasks N task \<and>
     (\<forall>t < N. spq_waiter_taskset read64 l (task_wkl (task t)) = Some (task_taskset (task t)))"

definition spq_inv :: "nat \<Rightarrow> (nat \<Rightarrow> spurs_task) \<Rightarrow> (u64 \<Rightarrow> u64) \<Rightarrow> nat \<Rightarrow> 'e spq_sys \<Rightarrow> bool" where
  "spq_inv N task read64 d x \<longleftrightarrow> spq_tasks N task read64 (sp_line x) \<and> spq_ring d x \<and> (\<forall>p. spq_side N task d p x) \<and>
     (\<forall>t < N. spq_data d x (sp_threads x t)) \<and> (\<forall>t < N. spq_tokens N task x t = (if spq_expects N x t then 1 else 0)) \<and>
     (\<forall>t < N. \<forall>ws. sp_threads x t = SpqWaking ws \<longrightarrow> (\<forall>k \<in> set ws. \<exists>u < N. k = spq_name (task u)))"

lemma spq_invD:
  assumes "spq_inv N task read64 d x"
  shows "spq_tasks N task read64 (sp_line x)" "spq_ring d x" "spq_side N task d p x" "t < N \<Longrightarrow> spq_data d x (sp_threads x t)"
    "t < N \<Longrightarrow> spq_tokens N task x t = (if spq_expects N x t then 1 else 0)"
    "t < N \<Longrightarrow> sp_threads x t = SpqWaking ws \<Longrightarrow> k \<in> set ws \<Longrightarrow> \<exists>u < N. k = spq_name (task u)"
  using assms unfolding spq_inv_def by blast+

lemma spq_sideD:
  assumes "spq_side N task d p x"
  shows "spq_list_ok task (spq_wait p (sp_line x)) (spq_waitWkl p (sp_line x)) (sp_waiting x p)" "distinct (sp_waiting x p)"
    "t \<in> set (sp_waiting x p) \<longleftrightarrow> t < N \<and> spq_waits p (sp_threads x t)" "number N (spq_flies p) (sp_threads x) \<le> 1"
    "0 < number N (spq_flies p) (sp_threads x) \<Longrightarrow> in_flight (spq_mine p (sp_line x))"
    "in_flight (spq_mine p (sp_line x)) \<Longrightarrow> spq_room d p (sp_P x) (sp_Q x)"
    "\<not> in_flight (spq_mine p (sp_line x)) \<Longrightarrow> sp_waiting x p \<noteq> [] \<Longrightarrow> \<not> spq_room d p (sp_P x) (sp_Q x)"
    "in_flight (spq_mine p (sp_line x)) \<Longrightarrow> number N (spq_flies p) (sp_threads x) = 0 \<Longrightarrow> sp_waiting x p \<noteq> []"
  using assms unfolding spq_side_def Let_def by blast+

lemma spq_ringD:
  assumes "spq_ring d x"
  shows "spq_geometry d (sp_line x)" "index_of (spq_mine p (sp_line x)) = spq_index d (if p then sp_Q x else sp_P x)"
    "sp_P x \<le> sp_Q x" "sp_Q x \<le> sp_P x + d" "sp_popped x = take (sp_P x) (sp_pushed x)"
    "sp_P x \<le> k \<Longrightarrow> k < sp_Q x \<Longrightarrow> sp_mem x (spq_slot (sp_line x) k) = sp_pushed x ! k"
    "unat (spq_depth (sp_line x)) = d" "0 < d" "d < 2 ^ 30"
  using assms unfolding spq_ring_def spq_geometry_def by (cases p; simp)+

lemma spq_name_inj:
  assumes "spq_tasks N task read64 l" "t < N" "u < N" "spq_name (task t) = spq_name (task u)"
  shows "t = u"
proof (rule ccontr)
  assume "t \<noteq> u"
  have "task_wkl (task t) = task_wkl (task u)" "task_id (task t) = task_id (task u)" using assms(4) by (simp_all add: spq_name_def)
  moreover have "task_taskset (task t) = task_taskset (task u)"
    using assms(1-3) calculation(1) unfolding spq_tasks_def by (metis option.inject)
  ultimately show False using assms(1-3) \<open>t \<noteq> u\<close> by (auto simp: spq_tasks_def distinct_tasks_def)
qed

section \<open>What the decisions read\<close>

lemma spq_n_unat: "spq_ring d x \<Longrightarrow> unat (spq_n (sp_line x)) = sp_Q x - sp_P x"
proof -
  assume r: "spq_ring d x"
  note R = spq_ringD[OF r]
  have "index_of (spq_popIndex (sp_line x)) = spq_index d (sp_P x)" "index_of (spq_pushIndex (sp_line x)) = spq_index d (sp_Q x)"
    using R(2)[of False] R(2)[of True] by (simp_all add: spq_mine_def)
  then show ?thesis unfolding spq_n_def using spq_entries_index[OF R(3,4,7-9)] by simp
qed

lemma spq_stuck:
  assumes "spq_ring d x"
  shows "spq_n (sp_line x) = (if p then spq_depth (sp_line x) else 0) \<longleftrightarrow> \<not> spq_room d p (sp_P x) (sp_Q x)"
  using spq_n_unat[OF assms] spq_ringD(3,4,7)[OF assms] by (auto simp: word_unat_eq_iff spq_room_def)

lemma spq_reserveD:
  assumes "spq_begin_decision p block False task (sp_line x) = Store l' (Inr (SpqReserved i))" "spq_ring d x"
  shows "\<not> in_flight (spq_mine p (sp_line x))" "spq_room d p (sp_P x) (sp_Q x)" "spq_wait p (sp_line x) ! 0 = 0"
    "i = index_of (spq_mine p (sp_line x))" "l' = spq_set_mine p (NOT i) (sp_line x)"
  using assms(1) unfolding spq_begin_decision_def Let_def spq_stuck[OF assms(2)] by (auto split: if_splits)

lemma spq_queueD:
  assumes "spq_begin_decision p block False task (sp_line x) = Store l' (Inr SpqQueued)" "spq_ring d x"
  defines "w \<equiv> spq_wait p (sp_line x)" and "k \<equiv> spq_waitWkl p (sp_line x)"
  shows "in_flight (spq_mine p (sp_line x)) \<or> \<not> spq_room d p (sp_P x) (sp_Q x) \<or> w ! 0 \<noteq> 0" "w ! 0 < 15"
    "l' = (let w' = w[0 := w ! 0 + 1]; w' = w'[unat (w' ! 0) := task_id task]; k' = k[0 := w' ! 0]; k' = k'[unat (w' ! 0) := task_wkl task]
       in spq_set_wait p w' k' (sp_line x))"
  using assms(1) unfolding spq_begin_decision_def Let_def spq_stuck[OF assms(2)] w_def k_def by (auto split: if_splits)

lemma spq_resumeD:
  assumes "spq_begin_decision p True True task (sp_line x) = Store l' (Inr (SpqReserved i))"
  shows "i = index_of (spq_mine p (sp_line x))"
    "l' = spq_set_mine p (NOT i) (spq_set_wait p (spq_dequeue (spq_wait p (sp_line x))) (spq_dequeue (spq_waitWkl p (sp_line x))) (sp_line x))"
  using assms unfolding spq_begin_decision_def Let_def by (auto split: if_splits)

lemma spq_finishD:
  assumes "spq_end_decision p peek (sp_line x) = Store l' (Inr w)" "spq_ring d x" "p \<longrightarrow> \<not> peek" "spq_room d p (sp_P x) (sp_Q x)"
  defines "P' \<equiv> if p \<or> peek then sp_P x else sp_P x + 1" and "Q' \<equiv> if p then sp_Q x + 1 else sp_Q x" and "l \<equiv> sp_line x"
  defines "mine' \<equiv> spq_wait p l ! 0 \<noteq> 0 \<and> spq_room d p P' Q'"
    and "other \<equiv> spq_wait (\<not> p) l ! 0 \<noteq> 0 \<and> \<not> in_flight (spq_mine (\<not> p) l) \<and> \<not> peek"
    and "i' \<equiv> spq_index d (if p then Q' else P')"
  shows "\<exists>l0. l0 = (if other then spq_set_mine (\<not> p) (NOT (index_of (spq_mine (\<not> p) l))) l else l) \<and>
      l' = spq_set_mine p (if mine' then NOT i' else i') l0" (is ?A)
    "count_list (spq_to_wake w) nm = (if mine' \<and> (spq_waitWkl p l ! 1, spq_wait p l ! 1) = nm then 1 else 0) +
      (if other \<and> (spq_waitWkl (\<not> p) l ! 1, spq_wait (\<not> p) l ! 1) = nm then 1 else 0)" (is ?B)
proof -
  note R = spq_ringD[OF assms(2)]
  have g: "spq_geometry d l" using R(1) by (simp add: l_def)
  have ab: "index_of (spq_popIndex l) = spq_index d (sp_P x)" "index_of (spq_pushIndex l) = spq_index d (sp_Q x)"
    using R(2)[of False] R(2)[of True] by (simp_all add: spq_mine_def l_def)
  let ?n = "spq_entries (spq_index d (sp_P x)) (spq_index d (sp_Q x)) (spq_depth l)"
  have n: "unat ?n = sp_Q x - sp_P x" using spq_entries_index[OF R(3,4,7-9)] by (simp add: l_def)
  have dl: "unat (spq_depth l) = d" using R(7) by (simp add: l_def)
  have nx: "next_index (spq_index d k) (spq_depth l) = spq_index d (k + 1)" for k by (rule next_index_index[OF dl R(8,9)])
  have E: "spq_end_decision p peek l = Store l' (Inr w)" using assms(1) by (simp add: l_def)
  have "?A \<and> ?B"
  proof (cases p)
    case True
    have lt: "sp_Q x < sp_P x + d" using assms(4) True by (simp add: spq_room_def)
    have "unat ?n + 1 < 2 ^ LENGTH(32)" using n lt R(9) by simp
    then have "unat (?n + 1) = sp_Q x - sp_P x + 1" using n by (simp add: unat_up)
    then have room: "?n + 1 < spq_depth l \<longleftrightarrow> spq_room d p P' Q'"
      using True R(3) lt dl by (auto simp: word_less_nat_alt spq_room_def P'_def Q'_def)
    have m: "mine' \<longleftrightarrow> spq_pushWait l ! 0 \<noteq> 0 \<and> ?n + 1 < spq_depth l" "other \<longleftrightarrow> spq_popWait l ! 0 \<noteq> 0 \<and> \<not> in_flight (spq_popIndex l)"
        "i' = spq_index d (sp_Q x + 1)"
      using True assms(3) room by (simp_all add: mine'_def other_def i'_def Q'_def spq_wait_def spq_mine_def)
    have "l' = l\<lparr>spq_popIndex := (if other then NOT (spq_index d (sp_P x)) else spq_popIndex l), spq_pushIndex := (if mine' then NOT i' else i')\<rparr>"
        "spq_to_wake w = (if other then [(spq_popWaitWkl l ! 1, spq_popWait l ! 1)] else []) @ (if mine' then [(spq_pushWaitWkl l ! 1, spq_pushWait l ! 1)] else [])"
      using E True assms(3) unfolding m by (auto simp: spq_end_decision_def Let_def ab nx spq_to_wake_def split: if_split_asm)
    then show ?thesis using True by (simp add: spq_set_mine_def spq_mine_def spq_wait_def spq_waitWkl_def ab)
  next
    case False
    have lt: "sp_P x < sp_Q x" using assms(4) False by (simp add: spq_room_def)
    have "0 < unat ?n" using n lt by simp
    then have "unat (?n - 1) = sp_Q x - sp_P x - 1" using n by (simp add: unat_down)
    then have room: "(if peek then ?n else ?n - 1) > 0 \<longleftrightarrow> spq_room d p P' Q'"
      using False lt n by (auto simp: word_less_nat_alt spq_room_def P'_def Q'_def)
    have m: "mine' \<longleftrightarrow> spq_popWait l ! 0 \<noteq> 0 \<and> (if peek then ?n else ?n - 1) > 0"
        "other \<longleftrightarrow> spq_pushWait l ! 0 \<noteq> 0 \<and> \<not> in_flight (spq_pushIndex l) \<and> \<not> peek"
        "i' = (if peek then spq_index d (sp_P x) else spq_index d (sp_P x + 1))"
      using False room by (auto simp: mine'_def other_def i'_def P'_def spq_wait_def spq_mine_def)
    have "l' = l\<lparr>spq_popIndex := (if mine' then NOT i' else i'), spq_pushIndex := (if other then NOT (spq_index d (sp_Q x)) else spq_pushIndex l)\<rparr>"
        "spq_to_wake w = (if mine' then [(spq_popWaitWkl l ! 1, spq_popWait l ! 1)] else []) @ (if other then [(spq_pushWaitWkl l ! 1, spq_pushWait l ! 1)] else [])"
      using E False unfolding m by (auto simp: spq_end_decision_def Let_def ab nx spq_to_wake_def split: if_split_asm)
    then show ?thesis using False by (simp add: spq_set_mine_def spq_mine_def spq_wait_def spq_waitWkl_def ab)
  qed
  then show ?A ?B by blast+
qed

section \<open>The lists of waiters\<close>

lemma unat_u8_small: "n \<le> 16 \<Longrightarrow> unat (of_nat n :: u8) = n"
  by (simp add: unat_of_nat take_bit_eq_mod)

lemma spq_list_head:
  assumes "spq_list_ok task w k L"
  shows "w ! 0 \<noteq> 0 \<longleftrightarrow> L \<noteq> []" "w ! 0 < 15 \<longleftrightarrow> length L < 15" "L \<noteq> [] \<Longrightarrow> (k ! 1, w ! 1) = spq_name (task (hd L))"
proof -
  have u: "unat (w ! 0) = length L" using assms unat_u8_small[of "length L"] by (simp add: spq_list_ok_def)
  show "w ! 0 \<noteq> 0 \<longleftrightarrow> L \<noteq> []" using u by (auto simp: word_unat_eq_iff)
  show "w ! 0 < 15 \<longleftrightarrow> length L < 15" using u by (simp add: word_less_nat_alt)
  show "(k ! 1, w ! 1) = spq_name (task (hd L))" if "L \<noteq> []"
    using assms that by (auto simp: spq_list_ok_def hd_conv_nth)
qed

lemma spq_list_register:
  assumes "spq_list_ok task w k L" "w ! 0 < 15"
  defines "w' \<equiv> w[0 := w ! 0 + 1]"
  shows "spq_list_ok task (w'[unat (w' ! 0) := task_id (task t)]) (k[0 := v, unat (w' ! 0) := task_wkl (task t)]) (L @ [t])"
proof -
  have len: "length w = 16" "length k = 16" "w ! 0 = of_nat (length L)" using assms(1) by (simp_all add: spq_list_ok_def)
  have L: "length L < 15" using spq_list_head(2)[OF assms(1)] assms(2) by simp
  have w0: "w' ! 0 = of_nat (Suc (length L))" using len by (simp add: w'_def)
  then have u: "unat (w' ! 0) = Suc (length L)" using L unat_u8_small[of "Suc (length L)"] by simp
  have n: "(k ! Suc j, w ! Suc j) = spq_name (task (L ! j))" if "j < length L" for j using assms(1) that by (simp add: spq_list_ok_def)
  have "((k[0 := v, unat (w' ! 0) := task_wkl (task t)]) ! Suc j, (w'[unat (w' ! 0) := task_id (task t)]) ! Suc j) = spq_name (task ((L @ [t]) ! j))"
    if "j < length (L @ [t])" for j
    using that n[of j] len L unfolding u by (auto simp: w'_def nth_append nth_list_update spq_name_def)
  moreover have "w'[unat (w' ! 0) := task_id (task t)] ! 0 = of_nat (length (L @ [t]))" using w0 u by simp
  ultimately show ?thesis using len L by (simp add: spq_list_ok_def w'_def)
qed

lemma spq_dequeue_nth: "length (spq_dequeue l) = 16" "spq_dequeue l ! 0 = (if l ! 0 \<noteq> 0 then l ! 0 - 1 else 0)"
    "0 < i \<Longrightarrow> i < 15 \<Longrightarrow> spq_dequeue l ! i = l ! (i + 1)"
  by (simp_all add: spq_dequeue_def del: upt.simps)

lemma spq_list_dequeue:
  assumes "spq_list_ok task w k L" "L \<noteq> []"
  shows "spq_list_ok task (spq_dequeue w) (spq_dequeue k) (tl L)"
proof -
  have len: "length L \<le> 15" "w ! 0 = of_nat (length L)" using assms(1) by (simp_all add: spq_list_ok_def)
  obtain m where m: "length L = Suc m" using assms(2) by (cases L) auto
  have "w ! 0 - 1 = of_nat m" using len(2) m by simp
  then have "spq_dequeue w ! 0 = of_nat (length (tl L))" using spq_list_head(1)[OF assms(1)] assms(2) m by (simp add: spq_dequeue_nth(2))
  moreover have "(spq_dequeue k ! Suc j, spq_dequeue w ! Suc j) = spq_name (task (tl L ! j))" if "j < length (tl L)" for j
  proof -
    have "Suc j < length L" using that m by simp
    then have "(k ! Suc (Suc j), w ! Suc (Suc j)) = spq_name (task (L ! Suc j))" using assms(1) unfolding spq_list_ok_def by blast
    moreover have "Suc j < 15" using that m len(1) by simp
    ultimately show ?thesis using that by (simp add: spq_dequeue_nth(3) nth_tl)
  qed
  ultimately show ?thesis using len(1) by (simp add: spq_list_ok_def spq_dequeue_nth(1))
qed

section \<open>The steps\<close>

text \<open>How the numbers change when one task moves.\<close>

lemma spq_tokens_move:
  assumes "t < N" "sp_threads y = (sp_threads x)(t := s)"
  shows "spq_tokens N task y u + (if sp_signals x u then 1 else 0) + (if u = t \<and> spq_woken (sp_threads x t) then 1 else 0) +
      spq_owes (spq_name (task u)) (sp_threads x t) =
    spq_tokens N task x u + (if sp_signals y u then 1 else 0) + (if u = t \<and> spq_woken s then 1 else 0) + spq_owes (spq_name (task u)) s"
  using total_update[OF assms(1), of "spq_owes (spq_name (task u))" "sp_threads x" s]
  unfolding spq_tokens_def assms(2) by auto

lemma spq_flies_move:
  assumes "t < N" "sp_threads y = (sp_threads x)(t := s)"
  shows "number N (spq_flies p) (sp_threads y) + (if spq_flies p (sp_threads x t) then 1 else 0) =
    number N (spq_flies p) (sp_threads x) + (if spq_flies p s then 1 else 0)"
  using number_update[OF assms(1), of "spq_flies p" "sp_threads x" s] unfolding assms(2) .

text \<open>A side on which neither index nor list changes and no task comes or goes.\<close>

lemma spq_side_frame:
  assumes "spq_side N task d p x" "t < N" "sp_threads y = (sp_threads x)(t := s)" "spq_flies p s = spq_flies p (sp_threads x t)"
    "spq_waits p s = spq_waits p (sp_threads x t)" "spq_mine p (sp_line y) = spq_mine p (sp_line x)"
    "spq_wait p (sp_line y) = spq_wait p (sp_line x)" "spq_waitWkl p (sp_line y) = spq_waitWkl p (sp_line x)"
    "sp_waiting y p = sp_waiting x p" "spq_room d p (sp_P y) (sp_Q y) = spq_room d p (sp_P x) (sp_Q x) \<or>
       in_flight (spq_mine p (sp_line x)) \<and> spq_room d p (sp_P y) (sp_Q y)"
  shows "spq_side N task d p y"
proof -
  have n: "number N (spq_flies p) (sp_threads y) = number N (spq_flies p) (sp_threads x)"
    using spq_flies_move[OF assms(2,3), of p] assms(4) by simp
  have w: "spq_waits p (sp_threads y u) \<longleftrightarrow> spq_waits p (sp_threads x u)" for u using assms(3,5) by simp
  show ?thesis using assms(1,10) unfolding spq_side_def Let_def n w assms(6-9) by blast
qed

text \<open>A task moves between places alike for both sides, on a line that stays as it is: signals, transfers, wake-ups.\<close>

lemma spq_inv_local:
  assumes "spq_inv N task read64 d x" "t < N" "\<forall>p. spq_flies p s = spq_flies p (sp_threads x t) \<and> spq_waits p s = spq_waits p (sp_threads x t)"
    "spq_ring d y" "sp_threads y = (sp_threads x)(t := s)" "sp_line y = sp_line x" "sp_waiting y = sp_waiting x"
    "sp_pushed y = sp_pushed x" "sp_popped y = sp_popped x"
    "spq_data d y s" "\<And>u. u < N \<Longrightarrow> u \<noteq> t \<Longrightarrow> spq_data d x (sp_threads x u) \<Longrightarrow> spq_data d y (sp_threads x u)"
    "\<And>u. u < N \<Longrightarrow> spq_tokens N task y u = spq_tokens N task x u"
    "\<And>ws k. s = SpqWaking ws \<Longrightarrow> k \<in> set ws \<Longrightarrow> \<exists>u < N. k = spq_name (task u)"
  shows "spq_inv N task read64 d y"
proof -
  note I = spq_invD[OF assms(1)]
  have n: "number N (spq_flies p) (sp_threads y) = number N (spq_flies p) (sp_threads x)" for p
    using spq_flies_move[OF assms(2,5), of p] assms(3) by simp
  have e: "spq_expects N y u \<longleftrightarrow> spq_expects N x u" for u by (simp add: spq_expects_def n assms(6,7))
  have "spq_side N task d p y" for p
    by (rule spq_side_frame[OF I(3) assms(2,5)]) (use assms(3,6-9) in simp_all)
  moreover have "spq_data d y (sp_threads y u)" if "u < N" for u using assms(5,10,11) I(4)[OF that] that by simp
  moreover have "spq_tokens N task y u = (if spq_expects N y u then 1 else 0)" if "u < N" for u
    unfolding e assms(12)[OF that] by (rule I(5)[OF that])
  moreover have "\<exists>u < N. k = spq_name (task u)" if "v < N" "sp_threads y v = SpqWaking ws" "k \<in> set ws" for v ws k
    using that I(6)[OF that(1)] assms(5,13) by (auto split: if_splits)
  ultimately show ?thesis using I(1) assms(4,6) by (simp add: spq_inv_def)
qed

text \<open>What is due on one side; \<open>spq_expects\<close> is that on either.\<close>

definition spq_due :: "nat \<Rightarrow> bool \<Rightarrow> 'e spq_sys \<Rightarrow> nat \<Rightarrow> bool" where
  "spq_due N p x t \<longleftrightarrow> sp_waiting x p \<noteq> [] \<and> hd (sp_waiting x p) = t \<and> in_flight (spq_mine p (sp_line x)) \<and>
     number N (spq_flies p) (sp_threads x) = 0"

lemma spq_expects_due: "spq_expects N x t \<longleftrightarrow> spq_due N p x t \<or> spq_due N (\<not> p) x t"
  unfolding spq_expects_def spq_due_def by (cases p) (simp_all add: ex_bool_eq disj_commute)

lemma spq_due_waits:
  assumes "spq_side N task d p x" "spq_due N p x t"
  shows "t < N \<and> spq_waits p (sp_threads x t)"
proof -
  have "t \<in> set (sp_waiting x p)" using assms(2) by (auto simp: spq_due_def)
  then show ?thesis using spq_sideD(3)[OF assms(1)] by blast
qed

lemma spq_waits_one: "spq_waits p s \<Longrightarrow> spq_waits q s \<Longrightarrow> p = q"
  by (cases s) auto

lemma spq_same_place_frame:
  assumes "spq_same_place l l'"
  shows "spq_geometry d l' = spq_geometry d l" "spq_slot l' = spq_slot l" "spq_tasks N task read64 l' = spq_tasks N task read64 l"
  using assms by (auto simp: spq_same_place_def spq_geometry_def spq_slot_def spq_tasks_def spq_waiter_taskset_def fun_eq_iff)

lemma spq_ring_frame:
  assumes "spq_ring d x" "spq_same_place (sp_line x) (sp_line y)" "\<And>q. index_of (spq_mine q (sp_line y)) = index_of (spq_mine q (sp_line x))"
    "sp_mem y = sp_mem x" "sp_pushed y = sp_pushed x" "sp_popped y = sp_popped x"
  shows "spq_ring d y"
  using assms(1) unfolding spq_ring_def spq_same_place_frame[OF assms(2)] assms(3-6) .

lemma spq_data_frame:
  assumes "spq_data d x s" "spq_same_place (sp_line x) (sp_line y)" "sp_mem y = sp_mem x" "sp_pushed y = sp_pushed x" "sp_popped y = sp_popped x"
  shows "spq_data d y s"
  using assms(1) by (cases "(d, x, s)" rule: spq_data.cases) (simp_all add: spq_same_place_frame[OF assms(2)] assms(3-5))

text \<open>A task passes the begin of its side: the indices stay, and the other side does not notice.\<close>

lemma spq_inv_begin:
  assumes "spq_inv N task read64 d x" "t < N" "sp_threads y = (sp_threads x)(t := s)"
    "\<not> spq_flies (\<not> p) s" "\<not> spq_waits (\<not> p) s" "\<not> spq_flies (\<not> p) (sp_threads x t)" "\<not> spq_waits (\<not> p) (sp_threads x t)"
    "spq_owes (spq_name (task t)) s = 0" "\<And>ws. s \<noteq> SpqWaking ws"
    "spq_same_place (sp_line x) (sp_line y)" "\<And>q. index_of (spq_mine q (sp_line y)) = index_of (spq_mine q (sp_line x))"
    "sp_mem y = sp_mem x" "sp_pushed y = sp_pushed x" "sp_popped y = sp_popped x"
    "spq_mine (\<not> p) (sp_line y) = spq_mine (\<not> p) (sp_line x)" "spq_wait (\<not> p) (sp_line y) = spq_wait (\<not> p) (sp_line x)"
    "spq_waitWkl (\<not> p) (sp_line y) = spq_waitWkl (\<not> p) (sp_line x)" "sp_waiting y (\<not> p) = sp_waiting x (\<not> p)"
    "spq_side N task d p y" "spq_data d y s"
    "\<And>u. u < N \<Longrightarrow> spq_tokens N task y u + (if spq_due N p x u then 1 else 0) = spq_tokens N task x u + (if spq_due N p y u then 1 else 0)"
  shows "spq_inv N task read64 d y"
proof -
  note I = spq_invD[OF assms(1)]
  have n: "number N (spq_flies (\<not> p)) (sp_threads y) = number N (spq_flies (\<not> p)) (sp_threads x)"
    using spq_flies_move[OF assms(2,3), of "\<not> p"] assms(4,6) by simp
  have due: "spq_due N (\<not> p) y u \<longleftrightarrow> spq_due N (\<not> p) x u" for u by (simp only: spq_due_def n assms(15,18))
  have other: "spq_side N task d (\<not> p) y"
    by (rule spq_side_frame[OF I(3) assms(2,3)]) (use assms(4-7,13-18) in simp_all)
  then have sides: "spq_side N task d q y" for q using assms(19) by (cases "q = p") auto
  have "spq_data d y (sp_threads y u)" if "u < N" for u
    using spq_data_frame[OF I(4)[OF that] assms(10,12-14)] assms(3,20) by simp
  moreover have "spq_tokens N task y u = (if spq_expects N y u then 1 else 0)" if "u < N" for u
  proof -
    have "\<not> (spq_due N p x u \<and> spq_due N (\<not> p) x u)" "\<not> (spq_due N p y u \<and> spq_due N (\<not> p) y u)"
      using spq_due_waits[OF I(3)] spq_due_waits[OF sides] spq_waits_one by metis+
    then show ?thesis
      using assms(21)[OF that] I(5)[OF that] due[of u]
      unfolding spq_expects_due[of N y u p] spq_expects_due[of N x u p] by (auto split: if_splits)
  qed
  moreover have "\<exists>u < N. k = spq_name (task u)" if "v < N" "sp_threads y v = SpqWaking ws" "k \<in> set ws" for v ws k
    using that I(6)[OF that(1) _ that(3)] assms(3,9) by (metis fun_upd_apply)
  moreover have "spq_ring d y" by (rule spq_ring_frame[OF I(2) assms(10-14)])
  ultimately show ?thesis using I(1) spq_same_place_frame(3)[OF assms(10)] sides by (simp add: spq_inv_def)
qed

lemma spq_index_of_not:
  assumes "spq_ring d x"
  shows "in_flight (NOT (index_of (spq_mine p (sp_line x))))" "index_of (NOT (index_of (spq_mine p (sp_line x)))) = index_of (spq_mine p (sp_line x))"
  unfolding spq_ringD(2)[OF assms] using spq_index_small[OF spq_ringD(8,9)[OF assms]] by simp_all

lemma spq_inv_reserve:
  assumes inv: "spq_inv N task read64 d x" and t: "t < N" "sp_threads x t = SpqIdle"
    and dec: "spq_begin_decision (op_push a) block False (task t) (sp_line x) = Store l' (Inr (SpqReserved i))"
  shows "spq_inv N task read64 d (sp_set t (SpqFlight a i None) (x\<lparr>sp_line := l'\<rparr>))" (is "spq_inv _ _ _ _ ?y")
proof -
  note I = spq_invD[OF inv] and D = spq_reserveD[OF dec spq_invD(2)[OF inv]] and S = spq_sideD[OF spq_invD(3)[OF inv]]
  let ?p = "op_push a"
  note l' = D(5)[unfolded D(4)]
  have L: "sp_waiting x ?p = []" using spq_list_head(1)[OF S(1)[of ?p]] D(3) by blast
  have n0: "number N (spq_flies ?p) (sp_threads x) = 0" using S(5)[of ?p] D(1) by blast
  have thr: "sp_threads ?y = (sp_threads x)(t := SpqFlight a i None)" by (simp add: sp_set_def)
  have n1: "number N (spq_flies ?p) (sp_threads ?y) = 1" using spq_flies_move[OF t(1) thr, of ?p] n0 t(2) by simp
  have w: "spq_waits ?p (sp_threads ?y u) \<longleftrightarrow> spq_waits ?p (sp_threads x u)" for u using t(2) by (simp add: thr)
  have wn: "\<not> (u < N \<and> spq_waits ?p (sp_threads x u))" for u using S(3)[of u ?p] L by simp
  show ?thesis
  proof (rule spq_inv_begin[OF inv t(1) thr, of ?p])
    show "spq_side N task d ?p ?y"
      unfolding spq_side_def Let_def n1 w using S(1)[of ?p] D(2) L wn
      by (simp add: sp_set_def l' spq_index_of_not[OF I(2)])
    show "spq_data d ?y (SpqFlight a i None)"
      unfolding D(4) spq_ringD(2)[OF I(2)] by (cases a) (simp_all add: sp_set_def)
    show "spq_tokens N task ?y u + (if spq_due N ?p x u then 1 else 0) = spq_tokens N task x u + (if spq_due N ?p ?y u then 1 else 0)" if "u < N" for u
      using spq_tokens_move[where task = task and u = u, OF t(1) thr] t(2) n1 L by (simp add: spq_due_def sp_set_def)
    show "index_of (spq_mine q (sp_line ?y)) = index_of (spq_mine q (sp_line x))" for q
      using spq_index_of_not(2)[OF I(2), of ?p] by (simp add: sp_set_def l')
  qed (use t(2) in \<open>simp_all add: sp_set_def l' spq_same_place_def\<close>)
qed

lemma spq_inv_queue:
  assumes inv: "spq_inv N task read64 d x" and t: "t < N" "sp_threads x t = SpqIdle"
    and dec: "spq_begin_decision (op_push a) block False (task t) (sp_line x) = Store l' (Inr SpqQueued)"
  shows "spq_inv N task read64 d (sp_set t (SpqBlocked a)
      (x\<lparr>sp_line := l', sp_waiting := (sp_waiting x)(op_push a := sp_waiting x (op_push a) @ [t])\<rparr>))" (is "spq_inv _ _ _ _ ?y")
proof -
  note I = spq_invD[OF inv] and D = spq_queueD[OF dec spq_invD(2)[OF inv]] and S = spq_sideD[OF spq_invD(3)[OF inv]]
  let ?p = "op_push a" and ?L = "sp_waiting x (op_push a)"
  define w' k' where "w' = (let w = (spq_wait ?p (sp_line x))[0 := spq_wait ?p (sp_line x) ! 0 + 1] in w[unat (w ! 0) := task_id (task t)])"
    and "k' = (let w = (spq_wait ?p (sp_line x))[0 := spq_wait ?p (sp_line x) ! 0 + 1] in (spq_waitWkl ?p (sp_line x))[0 := w' ! 0, unat (w ! 0) := task_wkl (task t)])"
  have thr: "sp_threads ?y = (sp_threads x)(t := SpqBlocked a)" by (simp add: sp_set_def)
  have ok: "spq_list_ok task w' k' (?L @ [t])"
    unfolding w'_def k'_def Let_def by (rule spq_list_register[OF S(1) D(2)])
  have "length (spq_wait ?p (sp_line x)) = 16" using S(1)[of ?p] by (simp add: spq_list_ok_def)
  moreover have "unat (spq_wait ?p (sp_line x) ! 0 + 1) = unat (spq_wait ?p (sp_line x) ! 0) + 1"
    using D(2) unfolding word_less_nat_alt by (intro unat_up) simp
  ultimately have l': "l' = spq_set_wait ?p w' k' (sp_line x)" using D(3) by (simp add: w'_def k'_def Let_def)
  have n: "number N (spq_flies ?p) (sp_threads ?y) = number N (spq_flies ?p) (sp_threads x)"
    using spq_flies_move[OF t(1) thr, of ?p] t(2) by simp
  have tL: "t \<notin> set ?L" using S(3)[of t ?p] t(2) by simp
  have stuck: "?L = [] \<Longrightarrow> in_flight (spq_mine ?p (sp_line x)) \<or> \<not> spq_room d ?p (sp_P x) (sp_Q x)"
    using D(1) spq_list_head(1)[OF S(1)[of ?p]] by blast
  have mem: "u \<in> set (?L @ [t]) \<longleftrightarrow> u < N \<and> spq_waits ?p (sp_threads ?y u)" for u using S(3)[of u ?p] t(1) by (auto simp: thr)
  show ?thesis
  proof (rule spq_inv_begin[OF inv t(1) thr, of ?p])
    have "\<not> in_flight (spq_mine ?p (sp_line x)) \<longrightarrow> \<not> spq_room d ?p (sp_P x) (sp_Q x)" using stuck S(7)[of ?p] by blast
    then show "spq_side N task d ?p ?y"
      unfolding spq_side_def Let_def n mem[symmetric] using ok S(2)[of ?p] S(4-6)[of ?p] tL by (simp add: sp_set_def l')
    show "spq_tokens N task ?y u + (if spq_due N ?p x u then 1 else 0) = spq_tokens N task x u + (if spq_due N ?p ?y u then 1 else 0)" if "u < N" for u
    proof -
      have "spq_due N ?p ?y u = spq_due N ?p x u"
      proof (cases ?L)
        case Nil
        then have "\<not> (in_flight (spq_mine ?p (sp_line x)) \<and> number N (spq_flies ?p) (sp_threads x) = 0)" using S(8)[of ?p] by blast
        then show ?thesis using n by (auto simp: spq_due_def sp_set_def l')
      qed (use n in \<open>simp add: spq_due_def sp_set_def l'\<close>)
      then show ?thesis using spq_tokens_move[where task = task and u = u, OF t(1) thr] t(2) by (simp add: sp_set_def)
    qed
  qed (use t(2) in \<open>simp_all add: sp_set_def l' spq_same_place_def\<close>)
qed

lemma spq_woken_due:
  assumes "spq_inv N task read64 d x" "t < N" "sp_threads x t = SpqWoken a"
  shows "spq_due N (op_push a) x t"
proof -
  note I = spq_invD[OF assms(1)]
  have "0 < spq_tokens N task x t" using assms(3) by (simp add: spq_tokens_def)
  then have e: "spq_due N (op_push a) x t \<or> spq_due N (\<not> op_push a) x t" using I(5)[OF assms(2)] spq_expects_due[of N x t "op_push a"] by (auto split: if_splits)
  have "\<not> spq_waits (\<not> op_push a) (sp_threads x t)" using assms(3) by simp
  then show ?thesis using e spq_due_waits[OF I(3)] by blast
qed

lemma spq_inv_resume:
  assumes inv: "spq_inv N task read64 d x" and t: "t < N" "sp_threads x t = SpqWoken a"
    and dec: "spq_begin_decision (op_push a) True True (task t) (sp_line x) = Store l' (Inr (SpqReserved i))"
  shows "spq_inv N task read64 d (sp_set t (SpqFlight a i None)
      (x\<lparr>sp_line := l', sp_waiting := (sp_waiting x)(op_push a := tl (sp_waiting x (op_push a)))\<rparr>))" (is "spq_inv _ _ _ _ ?y")
proof -
  note I = spq_invD[OF inv] and D = spq_resumeD[OF dec] and S = spq_sideD[OF spq_invD(3)[OF inv]]
  let ?p = "op_push a"
  let ?L = "sp_waiting x ?p"
  have due: "?L \<noteq> []" "hd ?L = t" "in_flight (spq_mine ?p (sp_line x))" "number N (spq_flies ?p) (sp_threads x) = 0"
    using spq_woken_due[OF inv t] by (simp_all add: spq_due_def)
  have thr: "sp_threads ?y = (sp_threads x)(t := SpqFlight a i None)" by (simp add: sp_set_def)
  have n1: "number N (spq_flies ?p) (sp_threads ?y) = 1" using spq_flies_move[OF t(1) thr, of ?p] due(4) t(2) by simp
  have Lt: "?L = t # tl ?L" using due(1,2) by (cases ?L) auto
  have dist: "distinct (t # tl ?L)" using S(2)[of ?p] Lt by simp
  have mem: "u \<in> set (tl ?L) \<longleftrightarrow> u < N \<and> spq_waits ?p (sp_threads ?y u)" for u
  proof -
    have "u \<in> set ?L \<longleftrightarrow> u = t \<or> u \<in> set (tl ?L)" using Lt by (metis set_ConsD list.set_intros)
    then show ?thesis using S(3)[of u ?p] dist t(2) by (auto simp: thr)
  qed
  note l' = D(2)[unfolded D(1)]
  have ok: "spq_list_ok task (spq_dequeue (spq_wait ?p (sp_line x))) (spq_dequeue (spq_waitWkl ?p (sp_line x))) (tl ?L)"
    by (rule spq_list_dequeue[OF S(1) due(1)])
  show ?thesis
  proof (rule spq_inv_begin[OF inv t(1) thr, of ?p])
    show "spq_side N task d ?p ?y"
      unfolding spq_side_def Let_def n1 mem[symmetric] using ok dist S(6)[OF due(3)]
      by (simp add: sp_set_def l' spq_index_of_not[OF I(2)])
    show "spq_data d ?y (SpqFlight a i None)"
      unfolding D(1) spq_ringD(2)[OF I(2)] by (cases a) (simp_all add: sp_set_def)
    show "spq_tokens N task ?y u + (if spq_due N ?p x u then 1 else 0) = spq_tokens N task x u + (if spq_due N ?p ?y u then 1 else 0)" if "u < N" for u
    proof -
      have "spq_due N ?p x u \<longleftrightarrow> u = t" using due by (auto simp: spq_due_def)
      moreover have "\<not> spq_due N ?p ?y u" using n1 by (simp add: spq_due_def)
      moreover have "spq_tokens N task ?y u + (if u = t then 1 else 0) = spq_tokens N task x u"
        using spq_tokens_move[where task = task and u = u, OF t(1) thr] t(2) by (simp add: sp_set_def)
      ultimately show ?thesis by simp
    qed
    show "index_of (spq_mine q (sp_line ?y)) = index_of (spq_mine q (sp_line x))" for q
      using spq_index_of_not(2)[OF I(2), of ?p] by (simp add: sp_set_def l')
  qed (use t(2) in \<open>simp_all add: sp_set_def l' spq_same_place_def\<close>)
qed

text \<open>Transfers.\<close>

lemma spq_flight_room:
  assumes "spq_inv N task read64 d x" "t < N" "sp_threads x t = SpqFlight a i v"
  shows "spq_room d (op_push a) (sp_P x) (sp_Q x)" "number N (spq_flies (op_push a)) (sp_threads x) = 1"
    "u < N \<Longrightarrow> spq_flies (op_push a) (sp_threads x u) \<Longrightarrow> u = t"
proof -
  note S = spq_sideD[OF spq_invD(3)[OF assms(1)]]
  have f: "spq_flies (op_push a) (sp_threads x t)" using assms(3) by simp
  have n: "0 < number N (spq_flies (op_push a)) (sp_threads x)" by (rule number_pos[OF assms(2)]) (rule f)
  show "spq_room d (op_push a) (sp_P x) (sp_Q x)" using S(5,6) n by blast
  show "number N (spq_flies (op_push a)) (sp_threads x) = 1" using n S(4)[of "op_push a"] by simp
  show "u = t" if "u < N" "spq_flies (op_push a) (sp_threads x u)"
    using number_one_unique[where P = "spq_flies (op_push a)", OF S(4) that(1,2) assms(2) f] .
qed

lemma spq_data_other:
  assumes "spq_data d x s" "\<not> spq_flies p s" "spq_same_place (sp_line x) (sp_line y)"
    "p \<Longrightarrow> sp_P y = sp_P x \<and> (\<forall>k < sp_Q x. sp_pushed y ! k = sp_pushed x ! k) \<and> (\<not> p \<longrightarrow> sp_Q y = sp_Q x) \<and> (spq_flies False s \<longrightarrow> sp_P x < sp_Q x)"
    "\<not> p \<Longrightarrow> sp_mem y = sp_mem x \<and> sp_pushed y = sp_pushed x"
  shows "spq_data d y s"
  using assms(1,2,4,5) spq_same_place_frame(2)[OF assms(3)]
  by (cases "(d, x, s)" rule: spq_data.cases) auto

lemma spq_inv_put:
  assumes inv: "spq_inv N task read64 d x" and t: "t < N" "sp_threads x t = SpqFlight (OpPush v) i None"
  shows "spq_inv N task read64 d (sp_set t (SpqFlight (OpPush v) i (Some v)) (x\<lparr>sp_mem := (sp_mem x)(spq_entry_ea (sp_line x) i := v)\<rparr>))"
    (is "spq_inv _ _ _ _ ?y")
proof -
  note I = spq_invD[OF inv] and F = spq_flight_room[OF inv t]
  note R = spq_ringD[OF I(2)]
  have i: "i = spq_index d (sp_Q x)" using I(4)[OF t(1)] t(2) by simp
  have ea: "spq_entry_ea (sp_line x) i = spq_slot (sp_line x) (sp_Q x)" unfolding i by (rule spq_entry_ea_slot[OF R(1)])
  have lt: "sp_Q x < sp_P x + d" using F(1) by (simp add: spq_room_def)
  have apart: "spq_slot (sp_line x) k \<noteq> spq_slot (sp_line x) (sp_Q x)" if "sp_P x \<le> k" "k < sp_Q x" for k
    using spq_slot_inj[OF R(1), of k "sp_Q x"] that lt by simp
  have thr: "sp_threads ?y = (sp_threads x)(t := SpqFlight (OpPush v) i (Some v))" by (simp add: sp_set_def)
  show ?thesis
  proof (rule spq_inv_local[OF inv t(1) _ _ thr])
    show "spq_ring d ?y" using I(2) apart by (simp add: spq_ring_def sp_set_def ea)
    show "spq_data d ?y (sp_threads x u)" if u: "u < N" "u \<noteq> t" "spq_data d x (sp_threads x u)" for u
    proof (rule spq_data_other[OF u(3), of True])
      show "\<not> spq_flies True (sp_threads x u)" using F(3)[OF u(1)] u(2) by auto
      have "sp_P x < sp_Q x" if "spq_flies False (sp_threads x u)"
      proof -
        have "0 < number N (spq_flies False) (sp_threads x)" by (rule number_pos[OF u(1)]) (rule that)
        then show ?thesis using spq_sideD(5,6)[OF I(3)[of False]] by (simp add: spq_room_def)
      qed
      then show "sp_P ?y = sp_P x \<and> (\<forall>k < sp_Q x. sp_pushed ?y ! k = sp_pushed x ! k) \<and> (\<not> True \<longrightarrow> sp_Q ?y = sp_Q x) \<and> (spq_flies False (sp_threads x u) \<longrightarrow> sp_P x < sp_Q x)"
        by (simp add: sp_set_def)
    qed (simp_all add: sp_set_def spq_same_place_def)
    show "spq_tokens N task ?y u = spq_tokens N task x u" if "u < N" for u
      using spq_tokens_move[where task = task and u = u, OF t(1) thr] t(2) by (simp add: sp_set_def)
    show "spq_data d ?y (SpqFlight (OpPush v) i (Some v))" using i ea by (simp add: sp_set_def)
  qed (use t(2) in \<open>simp_all add: sp_set_def\<close>)
qed

lemma spq_inv_get:
  assumes inv: "spq_inv N task read64 d x" and t: "t < N" "sp_threads x t = SpqFlight (OpPop peek) i None"
  shows "spq_inv N task read64 d (sp_set t (SpqFlight (OpPop peek) i (Some (sp_mem x (spq_entry_ea (sp_line x) i)))) x)"
    (is "spq_inv _ _ _ _ ?y")
proof -
  note I = spq_invD[OF inv] and F = spq_flight_room[OF inv t]
  note R = spq_ringD[OF I(2)]
  have i: "i = spq_index d (sp_P x)" using I(4)[OF t(1)] t(2) by simp
  have lt: "sp_P x < sp_Q x" using F(1) by (simp add: spq_room_def)
  have "spq_entry_ea (sp_line x) i = spq_slot (sp_line x) (sp_P x)" unfolding i by (rule spq_entry_ea_slot[OF R(1)])
  then have v: "sp_mem x (spq_entry_ea (sp_line x) i) = sp_pushed x ! sp_P x" using R(6)[OF order_refl lt] by simp
  have thr: "sp_threads ?y = (sp_threads x)(t := SpqFlight (OpPop peek) i (Some (sp_mem x (spq_entry_ea (sp_line x) i))))" by (simp add: sp_set_def)
  have frame: "spq_data d ?y s = spq_data d x s" for s
    by (cases "(d, x, s)" rule: spq_data.cases) (simp_all add: sp_set_def)
  show ?thesis
  proof (rule spq_inv_local[OF inv t(1) _ _ thr])
    show "spq_ring d ?y" using I(2) by (simp add: spq_ring_def sp_set_def)
    show "spq_tokens N task ?y u = spq_tokens N task x u" if "u < N" for u
      using spq_tokens_move[where task = task and u = u, OF t(1) thr] t(2) by (simp add: sp_set_def)
    show "spq_data d ?y (SpqFlight (OpPop peek) i (Some (sp_mem x (spq_entry_ea (sp_line x) i))))" using i v by (simp add: sp_set_def)
  qed (use t(2) frame in \<open>simp_all add: sp_set_def\<close>)
qed

text \<open>Signals.\<close>

lemma spq_inv_signalled:
  assumes inv: "spq_inv N task read64 d x" and t: "t < N" "sp_threads x t = SpqBlocked a" "sp_signals x t"
  shows "spq_inv N task read64 d (sp_set t (SpqWoken a) (x\<lparr>sp_signals := (sp_signals x)(t := False)\<rparr>))" (is "spq_inv _ _ _ _ ?y")
proof -
  have thr: "sp_threads ?y = (sp_threads x)(t := SpqWoken a)" by (simp add: sp_set_def)
  have frame: "spq_data d ?y s = spq_data d x s" for s
    by (cases "(d, x, s)" rule: spq_data.cases) (simp_all add: sp_set_def)
  show ?thesis
  proof (rule spq_inv_local[OF inv t(1) _ _ thr])
    show "spq_ring d ?y" using spq_invD(2)[OF inv] by (simp add: spq_ring_def sp_set_def)
    show "spq_tokens N task ?y u = spq_tokens N task x u" if "u < N" for u
      using spq_tokens_move[where task = task and u = u, OF t(1) thr] t(2,3) by (simp add: sp_set_def split: if_splits)
  qed (use t(2) frame in \<open>simp_all add: sp_set_def\<close>)
qed

lemma spq_inv_woken_all:
  assumes inv: "spq_inv N task read64 d x" and t: "t < N" "sp_threads x t = SpqWaking []"
  shows "spq_inv N task read64 d (sp_set t SpqIdle x)" (is "spq_inv _ _ _ _ ?y")
proof -
  have thr: "sp_threads ?y = (sp_threads x)(t := SpqIdle)" by (simp add: sp_set_def)
  have frame: "spq_data d ?y s = spq_data d x s" for s
    by (cases "(d, x, s)" rule: spq_data.cases) (simp_all add: sp_set_def)
  show ?thesis
  proof (rule spq_inv_local[OF inv t(1) _ _ thr])
    show "spq_ring d ?y" using spq_invD(2)[OF inv] by (simp add: spq_ring_def sp_set_def)
    show "spq_tokens N task ?y u = spq_tokens N task x u" if "u < N" for u
      using spq_tokens_move[where task = task and u = u, OF t(1) thr] t(2) by (simp add: sp_set_def)
  qed (use t(2) frame in \<open>simp_all add: sp_set_def\<close>)
qed

lemma spq_waker:
  assumes inv: "spq_inv N task read64 d x" and t: "t < N" "sp_threads x t = SpqWaking ((wkl, i) # ws)"
  obtains u where "u < N" "(wkl, i) = spq_name (task u)" "spq_waiter_taskset read64 (sp_line x) wkl = Some (task_taskset (task u))"
    "send_signal N task (task_taskset (task u)) i (sp_signals x) = Some ((sp_signals x)(u := True))" "\<not> sp_signals x u" "t \<noteq> u"
proof -
  note I = spq_invD[OF inv]
  have "\<exists>u < N. (wkl, i) = spq_name (task u)" by (rule I(6)[OF t]) simp
  then obtain u where u: "u < N" "(wkl, i) = spq_name (task u)" by blast
  have r: "spq_waiter_taskset read64 (sp_line x) wkl = Some (task_taskset (task u))"
    using I(1) u by (simp add: spq_tasks_def spq_name_def)
  have i: "task_id (task u) = i" using u(2) by (simp add: spq_name_def)
  have only: "v < N \<and> task_taskset (task v) = task_taskset (task u) \<and> task_id (task v) = i \<longleftrightarrow> v = u" for v
    using I(1) u(1) i unfolding spq_tasks_def distinct_tasks_def by (metis prod.inject)
  have sg: "send_signal N task (task_taskset (task u)) i (sp_signals x) = Some ((sp_signals x)(u := True))"
    unfolding send_signal_def Let_def only using u(1) by (auto simp: fun_eq_iff)
  have "spq_owes (spq_name (task u)) (sp_threads x t) \<le> total N (spq_owes (spq_name (task u))) (sp_threads x)" by (rule total_ge[OF t(1)])
  then have "0 < total N (spq_owes (spq_name (task u))) (sp_threads x)" using t(2) u(2) by simp
  then have e: "\<not> sp_signals x u" "spq_expects N x u" using I(5)[OF u(1)] by (auto simp: spq_tokens_def split: if_splits)
  have "t \<noteq> u"
  proof
    assume "t = u"
    then have "\<not> spq_waits p (sp_threads x u)" for p using t(2) by simp
    then show False using e(2) spq_expects_due[of N x u True] spq_due_waits[OF I(3)] by blast
  qed
  then show ?thesis using that u r sg e(1) by blast
qed

lemma spq_inv_wake:
  assumes inv: "spq_inv N task read64 d x" and t: "t < N" "sp_threads x t = SpqWaking ((wkl, i) # ws)"
    and reach: "spq_waiter_taskset read64 (sp_line x) wkl = Some taskset" "send_signal N task taskset i (sp_signals x) = Some signals'"
  shows "spq_inv N task read64 d (sp_set t (SpqWaking ws) (x\<lparr>sp_signals := signals'\<rparr>))" (is "spq_inv _ _ _ _ ?y")
proof (rule spq_waker[OF inv t])
  fix u
  assume u: "u < N" "(wkl, i) = spq_name (task u)" "spq_waiter_taskset read64 (sp_line x) wkl = Some (task_taskset (task u))"
    "send_signal N task (task_taskset (task u)) i (sp_signals x) = Some ((sp_signals x)(u := True))" "\<not> sp_signals x u" "t \<noteq> u"
  have sg: "signals' = (sp_signals x)(u := True)" using reach u(3,4) by simp
  have thr: "sp_threads ?y = (sp_threads x)(t := SpqWaking ws)" by (simp add: sp_set_def)
  have frame: "spq_data d ?y s = spq_data d x s" for s
    by (cases "(d, x, s)" rule: spq_data.cases) (simp_all add: sp_set_def)
  show ?thesis
  proof (rule spq_inv_local[OF inv t(1) _ _ thr])
    show "spq_ring d ?y" using spq_invD(2)[OF inv] by (simp add: spq_ring_def sp_set_def)
    show "spq_tokens N task ?y v = spq_tokens N task x v" if v: "v < N" for v
    proof (cases "v = u")
      case True
      then show ?thesis using spq_tokens_move[where task = task and u = v, OF t(1) thr] t(2) u(2,5,6) by (simp add: sp_set_def sg)
    next
      case False
      then have "(wkl, i) \<noteq> spq_name (task v)" using spq_name_inj[OF spq_invD(1)[OF inv] v u(1)] u(2) by metis
      then show ?thesis using spq_tokens_move[where task = task and u = v, OF t(1) thr] t(2) False by (simp add: sp_set_def sg)
    qed
    show "\<exists>u < N. k = spq_name (task u)" if "SpqWaking ws = SpqWaking vs" "k \<in> set vs" for vs k
      using spq_invD(6)[OF inv t] that by simp
  qed (use t(2) frame in \<open>simp_all add: sp_set_def\<close>)
qed

text \<open>
  The end of an operation on the side \<open>p\<close>: what was in flight there is published, and an index is reserved for the first
  waiter of either side that can proceed.
\<close>

definition spq_published :: "nat \<Rightarrow> (nat \<Rightarrow> spurs_task) \<Rightarrow> nat \<Rightarrow> 'e spq_op \<Rightarrow> 'e \<Rightarrow> (u8 \<times> u8) list \<Rightarrow> bool \<Rightarrow> bool \<Rightarrow> 'e spq_sys \<Rightarrow> 'e spq_sys \<Rightarrow> bool" where
  "spq_published d task t a v ws mine other x y \<longleftrightarrow> (let p = op_push a in
     sp_threads y = (sp_threads x)(t := SpqWaking ws) \<and> spq_same_place (sp_line x) (sp_line y) \<and>
     spq_mine p (sp_line y) = (let i = spq_index d (if p then sp_Q y else sp_P y) in if mine then NOT i else i) \<and>
     spq_mine (\<not> p) (sp_line y) = (if other then NOT (index_of (spq_mine (\<not> p) (sp_line x))) else spq_mine (\<not> p) (sp_line x)) \<and>
     (\<forall>q. spq_wait q (sp_line y) = spq_wait q (sp_line x) \<and> spq_waitWkl q (sp_line y) = spq_waitWkl q (sp_line x)) \<and>
     sp_waiting y = sp_waiting x \<and> sp_signals y = sp_signals x \<and> sp_mem y = sp_mem x \<and>
     sp_pushed y = (if p then sp_pushed x @ [v] else sp_pushed x) \<and>
     sp_popped y = (if p \<or> op_peek a then sp_popped x else sp_popped x @ [v]) \<and>
     (mine \<longleftrightarrow> sp_waiting x p \<noteq> [] \<and> spq_room d p (sp_P y) (sp_Q y)) \<and>
     (other \<longleftrightarrow> sp_waiting x (\<not> p) \<noteq> [] \<and> \<not> in_flight (spq_mine (\<not> p) (sp_line x)) \<and> \<not> op_peek a) \<and>
     (\<forall>nm. count_list ws nm = (if mine \<and> spq_name (task (hd (sp_waiting x p))) = nm then 1 else 0) +
        (if other \<and> spq_name (task (hd (sp_waiting x (\<not> p)))) = nm then 1 else 0)))"

lemma spq_publishedD:
  assumes "spq_published d task t a v ws mine other x y"
  defines "p \<equiv> op_push a"
  shows "sp_threads y = (sp_threads x)(t := SpqWaking ws)" "spq_same_place (sp_line x) (sp_line y)"
    "spq_mine p (sp_line y) = (if mine then NOT (spq_index d (if p then sp_Q y else sp_P y)) else spq_index d (if p then sp_Q y else sp_P y))"
    "spq_mine (\<not> p) (sp_line y) = (if other then NOT (index_of (spq_mine (\<not> p) (sp_line x))) else spq_mine (\<not> p) (sp_line x))"
    "spq_wait q (sp_line y) = spq_wait q (sp_line x)" "spq_waitWkl q (sp_line y) = spq_waitWkl q (sp_line x)"
    "sp_waiting y = sp_waiting x" "sp_signals y = sp_signals x" "sp_mem y = sp_mem x"
    "sp_pushed y = (if p then sp_pushed x @ [v] else sp_pushed x)"
    "sp_popped y = (if p \<or> op_peek a then sp_popped x else sp_popped x @ [v])"
    "mine \<longleftrightarrow> sp_waiting x p \<noteq> [] \<and> spq_room d p (sp_P y) (sp_Q y)"
    "other \<longleftrightarrow> sp_waiting x (\<not> p) \<noteq> [] \<and> \<not> in_flight (spq_mine (\<not> p) (sp_line x)) \<and> \<not> op_peek a"
    "count_list ws nm = (if mine \<and> spq_name (task (hd (sp_waiting x p))) = nm then 1 else 0) +
        (if other \<and> spq_name (task (hd (sp_waiting x (\<not> p)))) = nm then 1 else 0)"
  using assms(1) unfolding spq_published_def Let_def p_def by blast+

lemma spq_published_room:
  assumes "spq_inv N task read64 d x" "t < N" "sp_threads x t = SpqFlight a i (Some v)" "spq_published d task t a v ws mine other x y"
  shows "sp_P x \<le> sp_P y" "sp_P y \<le> sp_Q x" "sp_Q x \<le> sp_Q y" "sp_Q y \<le> sp_P x + d"
    "\<not> op_peek a \<Longrightarrow> spq_room d (\<not> op_push a) (sp_P y) (sp_Q y)"
    "op_peek a \<Longrightarrow> sp_P y = sp_P x \<and> sp_Q y = sp_Q x"
proof -
  note P = spq_publishedD(10,11)[OF assms(4)] and r = spq_flight_room(1)[OF assms(1-3)] and R = spq_ringD(3,4,8)[OF spq_invD(2)[OF assms(1)]]
  show "sp_P x \<le> sp_P y" "sp_P y \<le> sp_Q x" "sp_Q x \<le> sp_Q y" "sp_Q y \<le> sp_P x + d"
    using P r R by (auto simp: spq_room_def split: if_splits)
  show "spq_room d (\<not> op_push a) (sp_P y) (sp_Q y)" if "\<not> op_peek a"
    using P r R that by (cases a) (auto simp: spq_room_def)
  show "sp_P y = sp_P x \<and> sp_Q y = sp_Q x" if "op_peek a" using P that by (cases a) auto
qed

lemma spq_published_value:
  assumes "spq_inv N task read64 d x" "t < N" "sp_threads x t = SpqFlight a i (Some v)"
  shows "if op_push a then sp_mem x (spq_slot (sp_line x) (sp_Q x)) = v else v = sp_pushed x ! sp_P x"
  using spq_invD(4)[OF assms(1,2)] assms(3) by (cases a) auto

lemma spq_published_ring:
  assumes "spq_inv N task read64 d x" "t < N" "sp_threads x t = SpqFlight a i (Some v)" "spq_published d task t a v ws mine other x y"
  shows "spq_ring d y"
proof -
  note P = spq_publishedD[OF assms(4)] and B = spq_published_room[OF assms] and V = spq_published_value[OF assms(1-3)]
  note I2 = spq_invD(2)[OF assms(1)]
  note R = spq_ringD[OF I2] and F = spq_same_place_frame[OF P(2)]
  have small: "index_of (spq_index d k) = spq_index d k" "index_of (NOT (spq_index d k)) = spq_index d k" for k
    using spq_index_small[OF R(8,9)] by simp_all
  have mine: "index_of (spq_mine (op_push a) (sp_line y)) = spq_index d (if op_push a then sp_Q y else sp_P y)"
    using P(3) small by simp
  have "index_of (spq_mine (\<not> op_push a) (sp_line y)) = index_of (spq_mine (\<not> op_push a) (sp_line x))"
    using P(4) spq_index_of_not(2)[OF I2] by simp
  also have "\<dots> = spq_index d (if op_push a then sp_P y else sp_Q y)"
    unfolding R(2) using P(10,11) by simp
  finally have index: "index_of (spq_mine q (sp_line y)) = spq_index d (if q then sp_Q y else sp_P y)" for q
    using mine by (cases "op_push a"; cases q) simp_all
  have popped: "sp_popped y = take (sp_P y) (sp_pushed y)"
  proof (cases "op_push a \<or> op_peek a")
    case True
    then show ?thesis using P(10,11) R(3,5) by auto
  next
    case False
    then have lt: "sp_P x < sp_Q x" using B(2) P(11) by simp
    have "sp_popped y = take (sp_P x) (sp_pushed x) @ [sp_pushed x ! sp_P x]" using False P(11) R(5) V by simp
    also have "\<dots> = take (Suc (sp_P x)) (sp_pushed x)" using lt by (simp add: take_Suc_conv_app_nth)
    finally have taken: "sp_popped y = take (Suc (sp_P x)) (sp_pushed x)" .
    have "sp_P y = Suc (sp_P x)" "sp_pushed y = sp_pushed x" using False P(10,11) by simp_all
    then show ?thesis by (simp only: taken)
  qed
  have mem: "sp_mem y (spq_slot (sp_line y) k) = sp_pushed y ! k" if "sp_P y \<le> k" "k < sp_Q y" for k
  proof (cases "k < sp_Q x")
    case True
    then show ?thesis using R(6)[of k] B(1) that(1) P(9,10) F(2) by (auto simp: nth_append)
  next
    case False
    then have "op_push a" "k = sp_Q x" using that(2) P(10) by (auto split: if_splits)
    then show ?thesis using V P(9,10) F(2) by (simp add: nth_append)
  qed
  show ?thesis
    unfolding spq_ring_def using R(1) F(1) index index[of True] index[of False] popped mem B(1-4) by auto
qed

lemma spq_published_side:
  assumes "spq_inv N task read64 d x" "t < N" "sp_threads x t = SpqFlight a i (Some v)" "spq_published d task t a v ws mine other x y"
  shows "spq_side N task d q y" "number N (spq_flies (op_push a)) (sp_threads y) = 0"
    "number N (spq_flies (\<not> op_push a)) (sp_threads y) = number N (spq_flies (\<not> op_push a)) (sp_threads x)"
proof -
  let ?p = "op_push a"
  note P = spq_publishedD[OF assms(4)] and B = spq_published_room[OF assms] and F = spq_flight_room[OF assms(1-3)]
  note S = spq_sideD[OF spq_invD(3)[OF assms(1)]] and I2 = spq_invD(2)[OF assms(1)]
  note R = spq_ringD[OF I2]
  have nmove: "number N (spq_flies r) (sp_threads y) + (if spq_flies r (sp_threads x t) then 1 else 0) = number N (spq_flies r) (sp_threads x)" for r
    using spq_flies_move[OF assms(2) P(1), of r] by simp
  show n: "number N (spq_flies ?p) (sp_threads y) = 0" using nmove[of ?p] F(2) assms(3) by simp
  show n': "number N (spq_flies (\<not> ?p)) (sp_threads y) = number N (spq_flies (\<not> ?p)) (sp_threads x)" using nmove[of "\<not> ?p"] assms(3) by simp
  have waits: "spq_waits r (sp_threads y u) \<longleftrightarrow> spq_waits r (sp_threads x u)" for r u using assms(3) by (simp add: P(1))
  have fl: "in_flight (spq_mine ?p (sp_line y)) \<longleftrightarrow> mine" using P(3) spq_index_small[OF R(8,9)] by simp
  have fl': "in_flight (spq_mine (\<not> ?p) (sp_line y)) \<longleftrightarrow> other \<or> in_flight (spq_mine (\<not> ?p) (sp_line x))"
    using P(4) spq_index_of_not(1)[OF I2] by simp
  have base: "spq_list_ok task (spq_wait r (sp_line y)) (spq_waitWkl r (sp_line y)) (sp_waiting y r)" "distinct (sp_waiting y r)"
    "u \<in> set (sp_waiting y r) \<longleftrightarrow> u < N \<and> spq_waits r (sp_threads y u)" for r u
    using S(1,2)[of r] S(3)[of u r] by (simp_all add: P(5-7) waits)
  have "spq_side N task d ?p y" unfolding spq_side_def Let_def n fl using base P(7,12) by auto
  moreover have "spq_side N task d (\<not> ?p) y"
  proof -
    have room: "other \<or> in_flight (spq_mine (\<not> ?p) (sp_line x)) \<Longrightarrow> spq_room d (\<not> ?p) (sp_P y) (sp_Q y)"
      using B(5,6) P(13) S(6)[of "\<not> ?p"] by (cases "op_peek a") auto
    moreover have "\<not> other \<and> \<not> in_flight (spq_mine (\<not> ?p) (sp_line x)) \<Longrightarrow> sp_waiting x (\<not> ?p) \<noteq> [] \<Longrightarrow> \<not> spq_room d (\<not> ?p) (sp_P y) (sp_Q y)"
      using B(6) P(13) S(7)[of "\<not> ?p"] by auto
    moreover have "other \<or> in_flight (spq_mine (\<not> ?p) (sp_line x)) \<Longrightarrow> number N (spq_flies (\<not> ?p)) (sp_threads x) = 0 \<Longrightarrow> sp_waiting x (\<not> ?p) \<noteq> []"
      using P(13) S(8)[of "\<not> ?p"] by auto
    ultimately show ?thesis
      unfolding spq_side_def Let_def n' fl' using base S(4,5)[of "\<not> ?p"] P(7) by auto
  qed
  ultimately show "spq_side N task d q y" by (cases "q = ?p") auto
qed

lemma spq_published_data:
  assumes "spq_inv N task read64 d x" "t < N" "sp_threads x t = SpqFlight a i (Some v)" "spq_published d task t a v ws mine other x y" "u < N"
  shows "spq_data d y (sp_threads y u)"
proof (cases "u = t")
  case True
  then show ?thesis using spq_publishedD(1)[OF assms(4)] by simp
next
  case False
  note P = spq_publishedD[OF assms(4)] and I = spq_invD[OF assms(1)]
  have thr: "sp_threads y u = sp_threads x u" using P(1) False by simp
  have nf: "\<not> spq_flies (op_push a) (sp_threads x u)" using spq_flight_room(3)[OF assms(1-3,5)] False by blast
  have room: "spq_room d (\<not> op_push a) (sp_P x) (sp_Q x)" if "spq_flies (\<not> op_push a) (sp_threads x u)"
  proof -
    have "0 < number N (spq_flies (\<not> op_push a)) (sp_threads x)" by (rule number_pos[OF assms(5)]) (rule that)
    then show ?thesis using spq_sideD(5,6)[OF I(3)] by blast
  qed
  have "spq_data d y (sp_threads x u)"
    using I(4)[OF assms(5)]
  proof (rule spq_data_other[OF _ nf P(2)])
    show "sp_P y = sp_P x \<and> (\<forall>k < sp_Q x. sp_pushed y ! k = sp_pushed x ! k) \<and> (\<not> op_push a \<longrightarrow> sp_Q y = sp_Q x) \<and> (spq_flies False (sp_threads x u) \<longrightarrow> sp_P x < sp_Q x)" if "op_push a"
      using that P(10,11) room by (simp add: nth_append spq_room_def)
    show "sp_mem y = sp_mem x \<and> sp_pushed y = sp_pushed x" if "\<not> op_push a" using that P(9,10) by simp
  qed
  then show ?thesis by (simp only: thr)
qed

lemma spq_published_tokens:
  assumes "spq_inv N task read64 d x" "t < N" "sp_threads x t = SpqFlight a i (Some v)" "spq_published d task t a v ws mine other x y" "u < N"
  shows "spq_tokens N task y u = (if spq_expects N y u then 1 else 0)"
proof -
  let ?p = "op_push a"
  note P = spq_publishedD[OF assms(4)] and I = spq_invD[OF assms(1)] and n = spq_published_side(2,3)[OF assms(1-4)]
  note S = spq_sideD[OF I(3)] and I2 = I(2)
  note R = spq_ringD[OF I2]
  have first: "spq_name (task (hd (sp_waiting x q))) = spq_name (task u) \<longleftrightarrow> hd (sp_waiting x q) = u" if "sp_waiting x q \<noteq> []" for q
  proof -
    have "hd (sp_waiting x q) < N" using S(3)[of "hd (sp_waiting x q)" q] that by simp
    then show ?thesis using spq_name_inj[OF I(1) _ assms(5)] by metis
  qed
  have L: "mine \<Longrightarrow> sp_waiting x ?p \<noteq> []" "other \<Longrightarrow> sp_waiting x (\<not> ?p) \<noteq> []" using P(12,13) by blast+
  have "spq_tokens N task y u = spq_tokens N task x u + count_list ws (spq_name (task u))"
    using spq_tokens_move[where task = task and u = u, OF assms(2) P(1)] assms(3) by (simp add: P(8))
  also have "spq_tokens N task x u = (if spq_due N (\<not> ?p) x u then 1 else 0)"
  proof -
    have "\<not> spq_due N ?p x u" using spq_flight_room(2)[OF assms(1-3)] by (simp add: spq_due_def)
    then show ?thesis using I(5)[OF assms(5)] by (simp add: spq_expects_due[of N x u ?p])
  qed
  also have "count_list ws (spq_name (task u)) = (if mine \<and> hd (sp_waiting x ?p) = u then 1 else 0) + (if other \<and> hd (sp_waiting x (\<not> ?p)) = u then 1 else 0)"
  proof -
    have "mine \<and> spq_name (task (hd (sp_waiting x ?p))) = spq_name (task u) \<longleftrightarrow> mine \<and> hd (sp_waiting x ?p) = u" using first L(1) by blast
    moreover have "other \<and> spq_name (task (hd (sp_waiting x (\<not> ?p)))) = spq_name (task u) \<longleftrightarrow> other \<and> hd (sp_waiting x (\<not> ?p)) = u" using first L(2) by blast
    ultimately show ?thesis unfolding P(14) by simp
  qed
  finally have tok: "spq_tokens N task y u = (if spq_due N (\<not> ?p) x u then 1 else 0) +
      ((if mine \<and> hd (sp_waiting x ?p) = u then 1 else 0) + (if other \<and> hd (sp_waiting x (\<not> ?p)) = u then 1 else 0))" .
  have "in_flight (spq_mine ?p (sp_line y)) \<longleftrightarrow> mine" using P(3) spq_index_small[OF R(8,9)] by simp
  then have d1: "spq_due N ?p y u \<longleftrightarrow> mine \<and> hd (sp_waiting x ?p) = u" using L(1) by (auto simp: spq_due_def n(1) P(7))
  have d2: "spq_due N (\<not> ?p) y u \<longleftrightarrow> spq_due N (\<not> ?p) x u \<or> other \<and> hd (sp_waiting x (\<not> ?p)) = u"
  proof (cases other)
    case True
    then have "number N (spq_flies (\<not> ?p)) (sp_threads x) = 0" using P(13) S(5)[of "\<not> ?p"] by blast
    then show ?thesis using True L(2) P(4,13) spq_index_of_not(1)[OF I2] by (auto simp: spq_due_def n(2) P(7))
  qed (use P(4) in \<open>auto simp: spq_due_def n(2) P(7)\<close>)
  have excl: "\<not> (spq_due N (\<not> ?p) x u \<and> other)" using P(13) by (simp add: spq_due_def)
  have one: "\<not> (spq_due N ?p y u \<and> spq_due N (\<not> ?p) y u)"
    using spq_due_waits[OF spq_published_side(1)[OF assms(1-4)]] spq_waits_one by metis
  show ?thesis unfolding tok spq_expects_due[of N y u ?p] using d1 d2 excl one by auto
qed

lemma spq_inv_published:
  assumes "spq_inv N task read64 d x" "t < N" "sp_threads x t = SpqFlight a i (Some v)" "spq_published d task t a v ws mine other x y"
  shows "spq_inv N task read64 d y"
proof -
  note P = spq_publishedD[OF assms(4)] and I = spq_invD[OF assms(1)]
  have first: "hd (sp_waiting x q) < N" if "sp_waiting x q \<noteq> []" for q
    using spq_sideD(3)[OF I(3), of "hd (sp_waiting x q)" q] that by simp
  have "\<exists>u < N. k = spq_name (task u)" if "k \<in> set ws" for k
  proof -
    have "count_list ws k \<noteq> 0" using that by (simp add: count_list_0_iff)
    then have "mine \<and> spq_name (task (hd (sp_waiting x (op_push a)))) = k \<or> other \<and> spq_name (task (hd (sp_waiting x (\<not> op_push a)))) = k"
      using P(14)[of k] by (auto split: if_splits)
    then show ?thesis using P(12,13) first by metis
  qed
  then have "\<exists>u < N. k = spq_name (task u)" if "u < N" "sp_threads y u = SpqWaking vs" "k \<in> set vs" for u vs k
    using that I(6)[OF that(1) _ that(3)] P(1) by (auto split: if_splits)
  then show ?thesis
    using I(1) spq_same_place_frame(3)[OF P(2)] spq_published_ring[OF assms] spq_published_side(1)[OF assms]
      spq_published_data[OF assms] spq_published_tokens[OF assms]
    by (simp add: spq_inv_def)
qed

lemma spq_inv_finish:
  assumes inv: "spq_inv N task read64 d x" and t: "t < N" "sp_threads x t = SpqFlight a i (Some v)"
    and dec: "spq_end_decision (op_push a) (op_peek a) (sp_line x) = Store l' (Inr w)"
  shows "spq_inv N task read64 d (sp_set t (SpqWaking (spq_to_wake w)) (x\<lparr>sp_line := l',
      sp_pushed := (if op_push a then sp_pushed x @ [v] else sp_pushed x),
      sp_popped := (if op_push a \<or> op_peek a then sp_popped x else sp_popped x @ [v])\<rparr>))" (is "spq_inv _ _ _ _ ?y")
proof -
  note I = spq_invD[OF inv] and F = spq_flight_room[OF inv t] and R = spq_ringD[OF spq_invD(2)[OF inv]]
  note S = spq_sideD[OF spq_invD(3)[OF inv]]
  let ?p = "op_push a" and ?l = "sp_line x"
  let ?L = "sp_waiting x ?p" and ?M = "sp_waiting x (\<not> ?p)"
  have peek: "?p \<longrightarrow> \<not> op_peek a" by (cases a) simp_all
  define P' where "P' = (if ?p \<or> op_peek a then sp_P x else sp_P x + 1)"
  define Q' where "Q' = (if ?p then sp_Q x + 1 else sp_Q x)"
  define mine' where "mine' \<longleftrightarrow> spq_wait ?p ?l ! 0 \<noteq> 0 \<and> spq_room d ?p P' Q'"
  define other where "other \<longleftrightarrow> spq_wait (\<not> ?p) ?l ! 0 \<noteq> 0 \<and> \<not> in_flight (spq_mine (\<not> ?p) ?l) \<and> \<not> op_peek a"
  define i' where "i' = spq_index d (if ?p then Q' else P')"
  define l0 where "l0 = (if other then spq_set_mine (\<not> ?p) (NOT (index_of (spq_mine (\<not> ?p) ?l))) ?l else ?l)"
  have l': "l' = spq_set_mine ?p (if mine' then NOT i' else i') l0"
    and woken: "\<And>nm. count_list (spq_to_wake w) nm = (if mine' \<and> (spq_waitWkl ?p ?l ! 1, spq_wait ?p ?l ! 1) = nm then 1 else 0) +
      (if other \<and> (spq_waitWkl (\<not> ?p) ?l ! 1, spq_wait (\<not> ?p) ?l ! 1) = nm then 1 else 0)"
    using spq_finishD[OF dec I(2) peek F(1)] unfolding P'_def[symmetric] Q'_def[symmetric] mine'_def[symmetric] other_def[symmetric] i'_def[symmetric] l0_def
    by simp_all
  have lists: "spq_wait q ?l ! 0 \<noteq> 0 \<longleftrightarrow> sp_waiting x q \<noteq> []"
      "sp_waiting x q \<noteq> [] \<Longrightarrow> (spq_waitWkl q ?l ! 1, spq_wait q ?l ! 1) = spq_name (task (hd (sp_waiting x q)))" for q
    using spq_list_head(1,3)[OF S(1)] by blast+
  have PQ: "sp_P ?y = P'" "sp_Q ?y = Q'" by (simp_all add: P'_def Q'_def sp_set_def)
  have count: "count_list (spq_to_wake w) nm = (if mine' \<and> spq_name (task (hd (sp_waiting x ?p))) = nm then 1 else 0) +
      (if other \<and> spq_name (task (hd (sp_waiting x (\<not> ?p)))) = nm then 1 else 0)" for nm
  proof -
    have "mine' \<Longrightarrow> sp_waiting x ?p \<noteq> []" "other \<Longrightarrow> sp_waiting x (\<not> ?p) \<noteq> []" unfolding mine'_def other_def lists(1) by blast+
    then have "mine' \<Longrightarrow> (spq_waitWkl ?p ?l ! 1, spq_wait ?p ?l ! 1) = spq_name (task (hd (sp_waiting x ?p)))"
      "other \<Longrightarrow> (spq_waitWkl (\<not> ?p) ?l ! 1, spq_wait (\<not> ?p) ?l ! 1) = spq_name (task (hd (sp_waiting x (\<not> ?p))))"
      using lists(2) by blast+
    then show ?thesis unfolding woken by (cases mine'; cases other) (simp_all only: simp_thms if_True if_False)
  qed
  have "spq_published d task t a v (spq_to_wake w) mine' other x ?y"
    unfolding spq_published_def Let_def PQ
    by (intro conjI allI; (rule count)?)
       (simp_all add: sp_set_def l' l0_def i'_def[symmetric] spq_same_place_def mine'_def[unfolded lists(1)] other_def[unfolded lists(1)])
  then show ?thesis by (rule spq_inv_published[OF inv t])
qed

lemma spq_inv_clear:
  assumes inv: "spq_inv N task read64 d x" and dec: "spq_clear_decision (sp_line x) = Store l' (Inr ())"
  shows "spq_inv N task read64 d (x\<lparr>sp_line := l', sp_pushed := [], sp_popped := []\<rparr>)" (is "spq_inv _ _ _ _ ?y")
proof -
  note I = spq_invD[OF inv] and S = spq_sideD[OF spq_invD(3)[OF inv]]
  let ?l = "sp_line x"
  have c: "\<not> in_flight (spq_mine q ?l)" "spq_wait q ?l ! 0 = 0" for q
    using dec by (auto simp: spq_clear_decision_def spq_mine_def spq_wait_def split: if_splits)
  have l': "l' = ?l\<lparr>spq_popIndex := 0, spq_pushIndex := 0\<rparr>" using dec by (auto simp: spq_clear_decision_def split: if_splits)
  have L: "sp_waiting x q = []" for q using spq_list_head(1)[OF S(1)[of q]] c(2)[of q] by blast
  have n: "number N (spq_flies q) (sp_threads x) = 0" for q using S(5)[of q] c(1)[of q] by blast
  have zero: "spq_mine q l' = 0" "\<not> in_flight (spq_mine q l')" "index_of (spq_mine q l') = spq_index d 0" for q
    by (simp_all add: l' spq_mine_def in_flight_def index_of_def spq_index_def)
  have lists: "spq_wait q l' = spq_wait q ?l" "spq_waitWkl q l' = spq_waitWkl q ?l" for q
    by (simp_all add: l' spq_wait_def spq_waitWkl_def)
  have place: "spq_same_place ?l l'" by (simp add: l' spq_same_place_def)
  have "spq_ring d ?y" using spq_ringD(1)[OF I(2)] spq_same_place_frame(1)[OF place] zero(3) by (simp add: spq_ring_def)
  moreover have "spq_side N task d q ?y" for q
    using S(1,2)[of q] S(3)[of _ q] n[of q] zero(2)[of q] L[of q] by (simp add: spq_side_def Let_def lists spq_room_def)
  moreover have "spq_data d ?y (sp_threads x u)" if u: "u < N" for u
  proof -
    have "\<not> spq_flies q (sp_threads x u)" for q using number_pos[OF u, of "spq_flies q" "sp_threads x"] n[of q] by auto
    then show ?thesis using I(4)[OF u] by (cases "(d, ?y, sp_threads x u)" rule: spq_data.cases) auto
  qed
  moreover have "spq_tokens N task ?y u = (if spq_expects N ?y u then 1 else 0)" if u: "u < N" for u
    using I(5)[OF u] L by (simp add: spq_tokens_def spq_expects_def)
  ultimately show ?thesis using I(1,6) spq_same_place_frame(3)[OF place] by (simp add: spq_inv_def)
qed

lemma spq_inv_step: "spq_step N task read64 x y \<Longrightarrow> spq_inv N task read64 d x \<Longrightarrow> spq_inv N task read64 d y"
proof (induction rule: spq_step.induct)
  case (wake_fails t x wkl i ws)
  obtain u where "spq_waiter_taskset read64 (sp_line x) wkl = Some (task_taskset (task u))"
      "send_signal N task (task_taskset (task u)) i (sp_signals x) = Some ((sp_signals x)(u := True))"
    using spq_waker[OF wake_fails(4,1,2)] by metis
  then show ?case using wake_fails(3) by simp
qed (rule spq_inv_reserve spq_inv_queue spq_inv_signalled spq_inv_resume spq_inv_put spq_inv_get spq_inv_finish
    spq_inv_wake spq_inv_woken_all spq_inv_clear; assumption)+

section \<open>A new queue\<close>

definition spq_fresh :: "nat \<Rightarrow> (nat \<Rightarrow> spurs_task) \<Rightarrow> (u64 \<Rightarrow> u64) \<Rightarrow> 'e spq_sys \<Rightarrow> bool" where
  "spq_fresh N task read64 x \<longleftrightarrow>
     (\<exists>taskset spurs ea buffer sz depth direction isIwl. cellSpursQueueInitialize taskset spurs ea buffer sz depth direction isIwl = Inr (sp_line x)) \<and>
     spq_entrySize (sp_line x) \<noteq> 0 \<and> spq_tasks N task read64 (sp_line x) \<and> (\<forall>t. \<not> sp_signals x t \<and> sp_threads x t = SpqIdle) \<and>
     (\<forall>p. sp_waiting x p = []) \<and> sp_pushed x = [] \<and> sp_popped x = []"

lemma top_bits_clear:
  assumes "(w :: u32) AND 0xc0000000 = 0"
  shows "unat w < 2 ^ 30"
proof -
  have "(0xc0000000 :: u32) = push_bit 30 (mask 2)" by (simp add: mask_eq_exp_minus_1 push_bit_eq_mult)
  then have "bit w k \<Longrightarrow> k < 30" for k
    using assms bit_imp_le_length[of w k] by (auto simp: bit_eq_iff bit_simps)
  then have "take_bit 30 w = w" by (auto simp: bit_eq_iff bit_take_bit_iff)
  then have "unat w = take_bit 30 (unat w)" by (metis unsigned_take_bit_eq)
  then show ?thesis by (metis take_bit_nat_less_exp)
qed

lemma spq_inv_fresh:
  assumes "spq_fresh N task read64 x"
  shows "spq_inv N task read64 (unat (spq_depth (sp_line x))) x"
proof -
  obtain taskset spurs ea buffer sz depth direction isIwl
    where init: "cellSpursQueueInitialize taskset spurs ea buffer sz depth direction isIwl = Inr (sp_line x)"
      and x: "spq_entrySize (sp_line x) \<noteq> 0" "spq_tasks N task read64 (sp_line x)" "\<And>t. \<not> sp_signals x t" "\<And>t. sp_threads x t = SpqIdle"
        "\<And>p. sp_waiting x p = []" "sp_pushed x = []" "sp_popped x = []"
    using assms unfolding spq_fresh_def by blast
  have ok: "\<not> sz > 0x4000" "depth \<noteq> 0" "depth AND 0xc0000000 = 0" using init by (auto simp: cellSpursQueueInitialize_def split: if_splits)
  have line: "sp_line x = \<lparr>spq_popIndex = 0, spq_pushIndex = 0, spq_entrySize = sz, spq_depth = depth, spq_buffer = buffer, spq_spuPort = NO_PORT,
        spq_direction = direction, spq_popWait = replicate 16 0, spq_pushWait = replicate 16 0, spq_popWaitWkl = replicate 16 0,
        spq_pushWaitWkl = replicate 16 0, spq_taskset = (if isIwl then 0 else taskset), spq_spurs = spurs\<rparr>"
    using init unfolding cellSpursQueueInitialize_def by (metis Inl_Inr_False Inr_inject)
  have f: "spq_popIndex (sp_line x) = 0" "spq_pushIndex (sp_line x) = 0" "spq_entrySize (sp_line x) = sz" "spq_depth (sp_line x) = depth"
      "spq_wait p (sp_line x) = replicate 16 0" "spq_waitWkl p (sp_line x) = replicate 16 0" for p
    unfolding spq_wait_def spq_waitWkl_def line by simp_all
  have m: "spq_mine p (sp_line x) = 0" for p using f(1,2) by (simp add: spq_mine_def)
  have zero: "\<not> in_flight 0" "index_of 0 = 0" by (simp_all add: in_flight_def index_of_def)
  have "spq_geometry (unat depth) (sp_line x)"
    using ok x(1) top_bits_clear[of depth] by (simp add: spq_geometry_def f word_less_nat_alt unat_gt_0 not_less)
  then have "spq_ring (unat depth) x" by (simp add: spq_ring_def m zero spq_index_def x)
  moreover have "number N (spq_flies p) (sp_threads x) = 0" for p by (rule number_none) (simp add: x)
  then have "spq_side N task (unat depth) p x" for p
    by (simp add: spq_side_def Let_def m zero x f spq_list_ok_def)
  moreover have "total N (spq_owes nm) (sp_threads x) = 0" for nm by (simp add: total_def x)
  then have "spq_tokens N task x u = 0" for u by (simp add: spq_tokens_def x)
  ultimately show ?thesis using x by (simp add: spq_inv_def f spq_expects_def)
qed

lemma spq_reachable_inv:
  assumes "(spq_step N task read64)\<^sup>*\<^sup>* x y" "spq_fresh N task read64 x"
  shows "spq_inv N task read64 (unat (spq_depth (sp_line x))) y"
  using assms(1) by (induction rule: rtranclp_induct) (auto intro: spq_inv_fresh[OF assms(2)] spq_inv_step)

end
