(* ===== verification/Spurs_Queue_Props.thy ===== *)
theory Spurs_Queue_Props
  imports Spurs_Queue_Inv
begin

text \<open>
  The properties of the SPURS queue, each with a witness.
\<close>

section \<open>First in, first out\<close>

lemma spq_in_flight_one:
  assumes "spq_inv N task read64 d y" "t < N" "u < N" "spq_flies p (sp_threads y t)" "spq_flies p (sp_threads y u)"
  shows "t = u"
  using number_one_unique[where P = "spq_flies p", OF spq_sideD(4)[OF spq_invD(3)[OF assms(1)]] assms(2,4,3,5)] .

text \<open>C24: Whatever the tasks that share a queue do, the elements popped are the first of those pushed, in their order, and at
  most as many as fit are pushed and not popped; these are what the ring holds and their number is what
  \<open>cellSpursQueueSize\<close> reads, across the wrap of the indices; at most one push and one pop are in flight, and what a pop
  has transferred is the oldest element.\<close>

theorem spq_is_fifo:
  assumes "(spq_step N task read64)\<^sup>*\<^sup>* x y" "spq_fresh N task read64 x"
  defines "d \<equiv> unat (spq_depth (sp_line x))" and "p \<equiv> length (sp_popped y)" and "q \<equiv> length (sp_pushed y)"
  shows "sp_popped y = take p (sp_pushed y) \<and> p \<le> q \<and> q \<le> p + d \<and> unat (spq_n (sp_line y)) = q - p \<and>
    (\<forall>k. p \<le> k \<and> k < q \<longrightarrow> sp_mem y (spq_entry_ea (sp_line y) (spq_index d k)) = sp_pushed y ! k) \<and>
    (\<forall>t < N. \<forall>u < N. \<forall>side. spq_flies side (sp_threads y t) \<longrightarrow> spq_flies side (sp_threads y u) \<longrightarrow> t = u) \<and>
    (\<forall>t < N. \<forall>peek i e. sp_threads y t = SpqFlight (OpPop peek) i (Some e) \<longrightarrow> p < q \<and> e = sp_pushed y ! p)"
proof (intro conjI allI impI)
  note inv = spq_reachable_inv[OF assms(1,2), folded d_def]
  note I = spq_invD[OF inv]
  note R = spq_ringD[OF I(2)]
  show "sp_popped y = take p (sp_pushed y)" "p \<le> q" "q \<le> p + d" "unat (spq_n (sp_line y)) = q - p"
    using R(3-5) spq_n_unat[OF I(2)] by (simp_all add: p_def q_def)
  show "sp_mem y (spq_entry_ea (sp_line y) (spq_index d k)) = sp_pushed y ! k" if "p \<le> k \<and> k < q" for k
    using R(6)[of k] that spq_entry_ea_slot[OF R(1), of k] by (simp add: p_def q_def)
  show "t = u" if "t < N" "u < N" "spq_flies side (sp_threads y t)" "spq_flies side (sp_threads y u)" for t u side
    by (rule spq_in_flight_one[OF inv that])
  show "p < q" "e = sp_pushed y ! p" if t: "t < N" "sp_threads y t = SpqFlight (OpPop peek) i (Some e)" for t peek i e
    using spq_flight_room(1)[OF inv t] spq_published_value[OF inv t] by (simp_all add: spq_room_def p_def q_def)
qed

text \<open>A queue of two entries of a taskset, on which one task pops before another has pushed.\<close>

definition example_spurs_queue :: spurs_queue where
  "example_spurs_queue = \<lparr>spq_popIndex = 0, spq_pushIndex = 0, spq_entrySize = 16, spq_depth = 2, spq_buffer = 0x1000, spq_spuPort = NO_PORT,
     spq_direction = 0, spq_popWait = replicate 16 0, spq_pushWait = replicate 16 0, spq_popWaitWkl = replicate 16 0,
     spq_pushWaitWkl = replicate 16 0, spq_taskset = 0x2000, spq_spurs = 0\<rparr>"

definition example_queue_task :: "nat \<Rightarrow> spurs_task" where
  "example_queue_task t = \<lparr>task_taskset = 0x2000, task_id = of_nat t, task_wkl = 0\<rparr>"

definition example_queued :: spurs_queue where
  "example_queued = example_spurs_queue\<lparr>spq_popWait := (replicate 16 0)[0 := 1], spq_popWaitWkl := (replicate 16 0)[0 := 1]\<rparr>"

lemma example_queue_up: "spq_begin_decision False True False (example_queue_task 0) example_spurs_queue = Store example_queued (Inr SpqQueued)"
  by code_simp

lemma example_push_begin: "spq_begin_decision True True False (example_queue_task 1) example_queued =
    Store (example_queued\<lparr>spq_pushIndex := NOT 0\<rparr>) (Inr (SpqReserved 0))"
  by code_simp

definition example_wakes :: spq_wakes where
  "example_wakes = \<lparr>spq_wakePop = True, spq_wakePush = False, spq_throwPpu = False, spq_popTask = (0, 0), spq_pushTask = (0, 0)\<rparr>"

lemma example_push_end: "spq_end_decision True False (example_queued\<lparr>spq_pushIndex := NOT 0\<rparr>) =
    Store (example_queued\<lparr>spq_popIndex := NOT 0, spq_pushIndex := 1\<rparr>) (Inr example_wakes)"
  by code_simp

definition example_queue_start :: "nat spq_sys" where
  "example_queue_start = \<lparr>sp_line = example_spurs_queue, sp_mem = (\<lambda>_. 0), sp_signals = (\<lambda>_. False), sp_threads = (\<lambda>_. SpqIdle),
     sp_waiting = (\<lambda>_. []), sp_pushed = [], sp_popped = []\<rparr>"

definition example_queue_end :: "nat spq_sys" where
  "example_queue_end = \<lparr>sp_line = example_queued\<lparr>spq_popIndex := NOT 0, spq_pushIndex := 1\<rparr>, sp_mem = (\<lambda>_. 0)(0x1000 := 7),
     sp_signals = (\<lambda>_. False), sp_threads = (\<lambda>_. SpqIdle)(0 := SpqBlocked (OpPop False), 1 := SpqWaking [(0, 0)]),
     sp_waiting = (\<lambda>_. [])(False := [0]), sp_pushed = [7], sp_popped = []\<rparr>"

lemma example_queue_fresh: "spq_fresh 2 example_queue_task (\<lambda>_. 0) example_queue_start"
proof -
  have "cellSpursQueueInitialize 0x2000 0 0x80 0x1000 16 2 0 False = Inr example_spurs_queue"
    by (simp add: cellSpursQueueInitialize_def example_spurs_queue_def)
  then have "\<exists>taskset spurs ea b s d r i. cellSpursQueueInitialize taskset spurs ea b s d r i = Inr (sp_line example_queue_start)"
    by (metis example_queue_start_def spq_sys.select_convs(1))
  moreover have "distinct_tasks 2 example_queue_task"
    by (simp add: distinct_tasks_def example_queue_task_def numeral_2_eq_2 less_Suc_eq)
  ultimately show ?thesis
    by (simp add: spq_fresh_def spq_tasks_def spq_waiter_taskset_def example_queue_task_def example_queue_start_def example_spurs_queue_def)
qed

lemma example_queue_run: "(spq_step 2 example_queue_task (\<lambda>_. 0))\<^sup>*\<^sup>* example_queue_start example_queue_end"
proof -
  let ?R = "spq_step 2 example_queue_task (\<lambda>_. 0)"
  let ?a = "sp_set 0 (SpqBlocked (OpPop False)) (example_queue_start\<lparr>sp_line := example_queued, sp_waiting := (sp_waiting example_queue_start)(False := [0])\<rparr>)"
  let ?b = "sp_set 1 (SpqFlight (OpPush 7) 0 None) (?a\<lparr>sp_line := example_queued\<lparr>spq_pushIndex := NOT 0\<rparr>\<rparr>)"
  let ?c = "sp_set 1 (SpqFlight (OpPush 7) 0 (Some 7)) (?b\<lparr>sp_mem := (sp_mem ?b)(0x1000 := 7)\<rparr>)"
  let ?l = "example_queued\<lparr>spq_popIndex := NOT 0, spq_pushIndex := 1\<rparr>"
  have s1: "?R example_queue_start ?a"
    using spq_step.queue[of 0 2 example_queue_start "OpPop False" True example_queue_task example_queued] example_queue_up
    by (simp add: example_queue_start_def)
  have s2: "?R ?a ?b"
    by (rule spq_step.reserve[where block = True]) (simp_all add: sp_set_def example_queue_start_def example_push_begin[simplified])
  have s3: "?R ?b ?c"
  proof -
    have "spq_entry_ea (sp_line ?b) 0 = 0x1000" by (simp add: spq_entry_ea_def sp_set_def example_queued_def example_spurs_queue_def)
    then show ?thesis using spq_step.put[of 1 2 ?b 7 0 example_queue_task "\<lambda>_. 0"] by (simp add: sp_set_def)
  qed
  have s4: "?R ?c example_queue_end"
    using spq_step.finish[of 1 2 ?c "OpPush 7" 0 7 ?l example_wakes example_queue_task "\<lambda>_. 0"] example_push_end
    by (simp add: sp_set_def example_queue_end_def example_queue_start_def example_wakes_def spq_to_wake_def)
  have "?R\<^sup>*\<^sup>* ?c example_queue_end" using s4 by (rule r_into_rtranclp)
  with s3 have "?R\<^sup>*\<^sup>* ?b example_queue_end" by (rule converse_rtranclp_into_rtranclp)
  with s2 have "?R\<^sup>*\<^sup>* ?a example_queue_end" by (rule converse_rtranclp_into_rtranclp)
  with s1 show ?thesis by (rule converse_rtranclp_into_rtranclp)
qed

theorem spq_is_fifo_witness:
  "unat (spq_n (sp_line example_queue_end)) = 1 \<and> sp_mem example_queue_end (spq_entry_ea (sp_line example_queue_end) (spq_index 2 0)) = 7"
  using spq_is_fifo[OF example_queue_run example_queue_fresh]
  by (simp add: example_queue_end_def example_queue_start_def example_spurs_queue_def)

section \<open>Waiting and signals\<close>

text \<open>A signal on its way to a task: set, taken by it and not yet used, or still to be sent by a task that ends an operation.\<close>

definition spq_owed :: "nat \<Rightarrow> (nat \<Rightarrow> spurs_task) \<Rightarrow> 'e spq_sys \<Rightarrow> nat \<Rightarrow> bool" where
  "spq_owed N task y t \<longleftrightarrow> sp_signals y t \<or> spq_woken (sp_threads y t) \<or>
     (\<exists>u < N. \<exists>ws. sp_threads y u = SpqWaking ws \<and> spq_name (task t) \<in> set ws)"

lemma spq_owed_tokens: "spq_owed N task y t \<longleftrightarrow> 0 < spq_tokens N task y t"
proof -
  have "0 < total N (spq_owes nm) (sp_threads y) \<longleftrightarrow> (\<exists>u < N. \<exists>ws. sp_threads y u = SpqWaking ws \<and> nm \<in> set ws)" for nm
  proof
    assume "0 < total N (spq_owes nm) (sp_threads y)"
    then obtain u where u: "u < N" "0 < spq_owes nm (sp_threads y u)" using total_ex by blast
    then show "\<exists>u < N. \<exists>ws. sp_threads y u = SpqWaking ws \<and> nm \<in> set ws"
      by (cases "sp_threads y u") (auto intro: count_notin ccontr)
  next
    assume "\<exists>u < N. \<exists>ws. sp_threads y u = SpqWaking ws \<and> nm \<in> set ws"
    then obtain u ws where u: "u < N" "sp_threads y u = SpqWaking ws" "nm \<in> set ws" by blast
    then have "0 < spq_owes nm (sp_threads y u)" using count_list_0_iff[of ws nm] by simp
    also have "\<dots> \<le> total N (spq_owes nm) (sp_threads y)" by (rule total_ge[OF u(1)])
    finally show "0 < total N (spq_owes nm) (sp_threads y)" .
  qed
  then show ?thesis by (simp add: spq_owed_def spq_tokens_def)
qed

text \<open>C25: No task waits in vain and none is woken for nothing: while tasks wait on a side, either the ring gives that side
  nothing to do, or a transfer of that side is under way, or the next index is reserved for the one that queued first
  and the signal for it is on its way; a signal is on its way to no other task; a task that was woken is the first of its
  side, the ring has an element or room for it and no transfer is under way; and every signal an operation has to send
  finds its task.\<close>

theorem spq_wakes_the_first:
  assumes "(spq_step N task read64)\<^sup>*\<^sup>* x y" "spq_fresh N task read64 x"
  defines "stuck \<equiv> \<lambda>side. spq_n (sp_line y) = (if side then spq_depth (sp_line y) else 0)"
    and "moves \<equiv> \<lambda>side. \<exists>u < N. spq_flies side (sp_threads y u)"
  shows "(\<forall>side. sp_waiting y side \<noteq> [] \<longrightarrow> \<not> in_flight (spq_mine side (sp_line y)) \<and> stuck side \<or> moves side \<or>
      in_flight (spq_mine side (sp_line y)) \<and> \<not> stuck side \<and> spq_owed N task y (hd (sp_waiting y side))) \<and>
    (\<forall>t < N. spq_owed N task y t \<longrightarrow> (\<exists>side. sp_waiting y side \<noteq> [] \<and> t = hd (sp_waiting y side) \<and> \<not> stuck side \<and> \<not> moves side)) \<and>
    (\<forall>t < N. \<forall>side. spq_waits side (sp_threads y t) \<longleftrightarrow> t \<in> set (sp_waiting y side)) \<and>
    (\<forall>t < N. sp_threads y t \<noteq> SpqFailed \<and> (\<forall>ws. sp_threads y t = SpqWaking ws \<longrightarrow> (\<exists>z. spq_step N task read64 y z \<and> sp_threads z t \<noteq> SpqWaking ws)))"
proof (intro conjI allI impI)
  define d where "d = unat (spq_depth (sp_line x))"
  note inv = spq_reachable_inv[OF assms(1,2), folded d_def]
  note I = spq_invD[OF inv] and S = spq_sideD[OF spq_invD(3)[OF inv]]
  have st: "stuck side \<longleftrightarrow> \<not> spq_room d side (sp_P y) (sp_Q y)" for side unfolding stuck_def by (rule spq_stuck[OF I(2)])
  have mv: "moves side \<longleftrightarrow> number N (spq_flies side) (sp_threads y) \<noteq> 0" for side
    unfolding moves_def using number_ex[of N "spq_flies side" "sp_threads y"] number_pos[of _ N "spq_flies side" "sp_threads y"] by auto
  have due: "spq_owed N task y t \<longleftrightarrow> (\<exists>side. spq_due N side y t)" if "t < N" for t
    using I(5)[OF that] unfolding spq_owed_tokens spq_expects_def spq_due_def by (auto split: if_splits)
  show "\<not> in_flight (spq_mine side (sp_line y)) \<and> stuck side \<or> moves side \<or>
      in_flight (spq_mine side (sp_line y)) \<and> \<not> stuck side \<and> spq_owed N task y (hd (sp_waiting y side))" if w: "sp_waiting y side \<noteq> []" for side
  proof (cases "in_flight (spq_mine side (sp_line y)) \<and> \<not> moves side")
    case True
    then have d: "spq_due N side y (hd (sp_waiting y side))" using w mv by (simp add: spq_due_def)
    have "hd (sp_waiting y side) < N" using spq_due_waits[OF I(3) d] by blast
    then show ?thesis using True d due st S(6)[of side] by blast
  qed (use w st S(7)[of side] in blast)
  show "\<exists>side. sp_waiting y side \<noteq> [] \<and> t = hd (sp_waiting y side) \<and> \<not> stuck side \<and> \<not> moves side" if t: "t < N" "spq_owed N task y t" for t
  proof -
    obtain side where "spq_due N side y t" using due[OF t(1)] t(2) by blast
    then show ?thesis using st mv S(6)[of side] by (auto simp: spq_due_def)
  qed
  show "spq_waits side (sp_threads y t) \<longleftrightarrow> t \<in> set (sp_waiting y side)" if "t < N" for t side using S(3)[of t side] that by blast
  show "sp_threads y t \<noteq> SpqFailed" if "t < N" for t using I(4)[OF that] by auto
  show "\<exists>z. spq_step N task read64 y z \<and> sp_threads z t \<noteq> SpqWaking ws" if t: "t < N" "sp_threads y t = SpqWaking ws" for t ws
  proof (cases ws)
    case Nil
    then show ?thesis using spq_step.woken_all[of t N y task read64] t by (auto simp: sp_set_def)
  next
    case (Cons k vs)
    obtain wkl i where k: "k = (wkl, i)" by (cases k)
    obtain u where "spq_waiter_taskset read64 (sp_line y) wkl = Some (task_taskset (task u))"
        "send_signal N task (task_taskset (task u)) i (sp_signals y) = Some ((sp_signals y)(u := True))"
      using spq_waker[OF inv t(1)] t(2) Cons k by metis
    from spq_step.wake[OF t(1) _ this] show ?thesis using t(2) Cons k by (auto simp: sp_set_def)
  qed
qed

theorem spq_wakes_the_first_witness:
  "spq_owed 2 example_queue_task example_queue_end 0"
proof -
  have "sp_waiting example_queue_end False \<noteq> []" "hd (sp_waiting example_queue_end False) = 0"
    "in_flight (spq_mine False (sp_line example_queue_end))"
    "\<not> (\<exists>u < 2. spq_flies False (sp_threads example_queue_end u))"
    by (simp_all add: example_queue_end_def spq_mine_def in_flight_def numeral_2_eq_2 less_Suc_eq)
  then show ?thesis using spq_wakes_the_first[OF example_queue_run example_queue_fresh] by metis
qed

section \<open>A signal that is not the queue's\<close>

text \<open>C26: A wait on the queue takes any signal for the queue's: when the signal of a task blocked in a pop on an empty ring is
  set for another reason, the pop reserves the index of an entry that was never pushed, and its end leaves a queue that
  counts one element less than twice its depth.\<close>

theorem spq_foreign_signal_underflows:
  assumes "spq_geometry d l" "spq_popIndex l = spq_index d k" "spq_pushIndex l = spq_index d k"
    "spq_direction l \<noteq> SPQ_SPU2PPU" "spq_popWait l ! 0 = 1" "spq_pushWait l ! 0 = 0"
  shows "spq_n l = 0 \<and> (\<exists>l1 l2 w. spq_begin_decision False True True task l = Store l1 (Inr (SpqReserved (spq_index d k))) \<and>
    spq_end_decision False False l1 = Store l2 (Inr w) \<and> spq_to_wake w = [] \<and> unat (spq_n l2) = 2 * d - 1)"
proof -
  have g: "unat (spq_depth l) = d" "0 < d" "d < 2 ^ 30" using assms(1) by (simp_all add: spq_geometry_def)
  note small = spq_index_small[OF g(2,3)]
  have n: "spq_n l = 0" using small assms(2,3) by (simp add: spq_n_def spq_entries_def)
  define l1 where "l1 = spq_set_mine False (NOT (spq_index d k)) (spq_set_wait False (spq_dequeue (spq_popWait l)) (spq_dequeue (spq_popWaitWkl l)) l)"
  have b: "spq_begin_decision False True True task l = Store l1 (Inr (SpqReserved (spq_index d k)))"
    using assms small by (simp add: spq_begin_decision_def Let_def l1_def spq_mine_def spq_wait_def spq_waitWkl_def)
  have f: "spq_popIndex l1 = NOT (spq_index d k)" "spq_pushIndex l1 = spq_index d k" "spq_depth l1 = spq_depth l" "spq_popWait l1 ! 0 = 0"
      "spq_pushWait l1 ! 0 = 0" "spq_direction l1 = spq_direction l"
    using assms by (simp_all add: l1_def spq_set_mine_def spq_set_wait_def spq_dequeue_nth(2))
  define l2 where "l2 = l1\<lparr>spq_popIndex := spq_index d (k + 1), spq_pushIndex := spq_index d k\<rparr>"
  have "\<exists>w. spq_end_decision False False l1 = Store l2 (Inr w) \<and> spq_to_wake w = []"
    using assms(4) small next_index_index[OF g] by (simp add: spq_end_decision_def Let_def f l2_def spq_to_wake_def)
  moreover have "unat (spq_n l2) = 2 * d - 1"
  proof -
    define r where "r = k mod (2 * d)"
    have u: "unat (spq_index d k) = r" "unat (spq_index d (k + 1)) = (if r + 1 < 2 * d then r + 1 else r + 1 - 2 * d)" and r: "r < 2 * d"
      using unat_spq_index[OF g(2,3)] add_mod_cases[of 1 d k] g(2) by (simp_all add: r_def)
    have e: "spq_n l2 = spq_entries (spq_index d (k + 1)) (spq_index d k) (spq_depth l)" using small by (simp add: spq_n_def l2_def f)
    have d2: "unat (2 * spq_depth l) = 2 * d"
    proof -
      have "unat (2 * spq_depth l) = unat (2 :: u32) * unat (spq_depth l)" by (subst unat_mult_lem[THEN iffD1]) (use g in simp_all)
      then show ?thesis using g by simp
    qed
    show ?thesis
    proof (cases "r + 1 < 2 * d")
      case True
      then have "spq_index d (k + 1) > spq_index d k" using u by (simp add: word_less_nat_alt)
      moreover have "unat (spq_index d k + 1) = r + 1" using u(1) True g(3) by (subst unat_up) simp_all
      then have "spq_index d (k + 1) = spq_index d k + 1" using u(2) True by (simp add: word_unat_eq_iff)
      ultimately have "spq_n l2 = 2 * spq_depth l - 1" by (simp add: e spq_entries_def)
      then show ?thesis using unat_down[of "2 * spq_depth l"] d2 g(2) by simp
    next
      case False
      then have "r = 2 * d - 1" "spq_index d (k + 1) = 0" using u(2) r by (simp_all add: word_unat_eq_iff)
      then show ?thesis using u(1) by (simp add: e spq_entries_def)
    qed
  qed
  ultimately show ?thesis using n b by blast
qed

theorem spq_foreign_signal_underflows_witness:
  "\<exists>l1 l2 w. spq_begin_decision False True True (example_queue_task 0) example_queued = Store l1 (Inr (SpqReserved 0)) \<and>
    spq_end_decision False False l1 = Store l2 (Inr w) \<and> unat (spq_n l2) = 3"
proof -
  have "spq_geometry 2 example_queued" "spq_popIndex example_queued = spq_index 2 0" "spq_pushIndex example_queued = spq_index 2 0"
    "spq_direction example_queued \<noteq> SPQ_SPU2PPU" "spq_popWait example_queued ! 0 = 1" "spq_pushWait example_queued ! 0 = 0"
    by (simp_all add: example_queued_def example_spurs_queue_def spq_geometry_def spq_index_def)
  from spq_foreign_signal_underflows[OF this, of "example_queue_task 0"] show ?thesis by (auto simp: spq_index_def)
qed

end
