(* ===== verification/Spurs_Exit_Code.thy ===== *)
theory Spurs_Exit_Code
  imports Spurs_Base
begin

text \<open>
  \<open>sdk/libspurs_task/src/spurs_exit_code.c\<close>: the container in which a task leaves its exit code for whoever asks, over
  and over: a task is attached, the call that created it makes the container ready to wait, the task exits, and getting
  the code frees the container for another task.
\<close>

section \<open>The line\<close>

record exit_code_line =
  ec_state :: u32
  ec_code :: u32
  ec_waiter_taskset :: u64
  ec_waiter_id :: u8
  ec_task_id :: u8
  ec_spurs :: u64
  ec_task_taskset :: u64

abbreviation (input) ST_ATTACHED :: u32 where "ST_ATTACHED \<equiv> 1"
abbreviation (input) ST_READY :: u32 where "ST_READY \<equiv> 2"
abbreviation (input) ST_EXITED :: u32 where "ST_EXITED \<equiv> 4"
abbreviation (input) ST_NO_CODE :: u32 where "ST_NO_CODE \<equiv> 8"
abbreviation (input) ST_PPU_WAITER :: u32 where "ST_PPU_WAITER \<equiv> 0x10000"
abbreviation (input) ST_SPU_WAITER :: u32 where "ST_SPU_WAITER \<equiv> 0x20000"

definition cellSpursTaskExitCodeInitialize :: "u64 \<Rightarrow> spurs_error + exit_code_line" where
  "cellSpursTaskExitCodeInitialize ea =
     (case spurs_check_ea ea of
        Inl e \<Rightarrow> Inl e
      | Inr _ \<Rightarrow> Inr \<lparr>ec_state = 0, ec_code = 0, ec_waiter_taskset = 0, ec_waiter_id = 0, ec_task_id = 0, ec_spurs = 0, ec_task_taskset = 0\<rparr>)"

section \<open>Attach, ready, exit\<close>

definition ec_attach_decision :: "u64 \<Rightarrow> u32 \<Rightarrow> exit_code_line \<Rightarrow> (exit_code_line, spurs_error + unit) decision" where
  "ec_attach_decision taskset i l =
     (if ec_state l \<noteq> 0 then Return (Inl SP_BUSY)
      else Store (l\<lparr>ec_state := ST_ATTACHED, ec_task_taskset := taskset, ec_task_id := ucast i\<rparr>) (Inr ()))"

definition cellSpursTaskExitCodeAttachTask :: "u64 \<Rightarrow> u64 \<Rightarrow> u32 \<Rightarrow> (exit_code_line \<times> bool) list \<Rightarrow> (exit_code_line, spurs_error + unit) outcome" where
  "cellSpursTaskExitCodeAttachTask ea taskset i answers =
     (if ea = 0 \<or> taskset = 0 then Returned (Inl SP_NULL_POINTER)
      else if ea AND 0x7f \<noteq> 0 \<or> taskset AND 0x7f \<noteq> 0 then Returned (Inl SP_ALIGN)
      else llsc_loop (ec_attach_decision taskset i) answers)"

definition ec_ready_decision :: "bool \<Rightarrow> exit_code_line \<Rightarrow> (exit_code_line, spurs_error + unit) decision" where
  "ec_ready_decision noCode l =
     (let st = ec_state l
      in if st AND NOT (ST_ATTACHED OR ST_EXITED OR ST_NO_CODE) \<noteq> 0 then Return (Inl SP_STAT)
         else let st = (if noCode \<and> st AND ST_EXITED = 0 then st OR ST_EXITED OR ST_NO_CODE else st)
              in Store (l\<lparr>ec_state := st OR ST_READY\<rparr>) (Inr ()))"

definition cellSpursTaskExitCodeMakeReadyToWait :: "u64 \<Rightarrow> bool \<Rightarrow> (exit_code_line \<times> bool) list \<Rightarrow> (exit_code_line, spurs_error + unit) outcome" where
  "cellSpursTaskExitCodeMakeReadyToWait ea noCode answers =
     (case spurs_check_ea ea of Inl e \<Rightarrow> Returned (Inl e) | Inr _ \<Rightarrow> llsc_loop (ec_ready_decision noCode) answers)"

text \<open>What an exit leaves to be done: the task to signal, and the SPURS instance to post an event to.\<close>

record ec_wakes =
  ec_wake_task :: "(u64 \<times> u8) option"
  ec_wake_spurs :: "u64 option"

definition ec_set_decision :: "u32 \<Rightarrow> bool \<Rightarrow> exit_code_line \<Rightarrow> (exit_code_line, spurs_error + ec_wakes) decision" where
  "ec_set_decision code noCode l =
     (let st = ec_state l
      in if st AND ST_ATTACHED = 0 then Return (Inl SP_STAT)
         else Store (l\<lparr>ec_state := st OR ST_EXITED OR (if noCode then ST_NO_CODE else 0), ec_code := code\<rparr>)
           (Inr \<lparr>ec_wake_task = (if st AND ST_SPU_WAITER \<noteq> 0 then Some (ec_waiter_taskset l, ec_waiter_id l) else None),
                 ec_wake_spurs = (if st AND ST_PPU_WAITER \<noteq> 0 then Some (ec_spurs l) else None)\<rparr>))"

text \<open>The wake-ups after the store; \<open>signal_error\<close> is what \<open>cellSpursSendSignal\<close> answers when it finds no task, \<open>post\<close> the event call.\<close>

definition ec_set_finish :: "nat \<Rightarrow> (nat \<Rightarrow> spurs_task) \<Rightarrow> spurs_error \<Rightarrow> (u64 \<Rightarrow> spurs_error + unit) \<Rightarrow> ec_wakes \<Rightarrow> (nat \<Rightarrow> bool) \<Rightarrow>
    (spurs_error + unit) \<times> (nat \<Rightarrow> bool)" where
  "ec_set_finish N task signal_error post w signals =
     (let posted = (case ec_wake_spurs w of None \<Rightarrow> Inr () | Some spurs \<Rightarrow> post spurs)
      in case ec_wake_task w of
           None \<Rightarrow> (posted, signals)
         | Some (taskset, i) \<Rightarrow>
             (case send_signal N task taskset i signals of
                None \<Rightarrow> (Inl signal_error, signals)
              | Some signals' \<Rightarrow> (posted, signals')))"

definition cellSpursTaskExitCodeSet :: "nat \<Rightarrow> (nat \<Rightarrow> spurs_task) \<Rightarrow> spurs_error \<Rightarrow> (u64 \<Rightarrow> spurs_error + unit) \<Rightarrow> u64 \<Rightarrow> u32 \<Rightarrow> bool \<Rightarrow>
    (exit_code_line \<times> bool) list \<Rightarrow> (nat \<Rightarrow> bool) \<Rightarrow> (exit_code_line, (spurs_error + unit) \<times> (nat \<Rightarrow> bool)) outcome" where
  "cellSpursTaskExitCodeSet N task signal_error post ea code noCode answers signals =
     (case spurs_check_ea ea of
        Inl e \<Rightarrow> Returned (Inl e, signals)
      | Inr _ \<Rightarrow> (case llsc_loop (ec_set_decision code noCode) answers of
             Stored l l' (Inr w) \<Rightarrow> Stored l l' (ec_set_finish N task signal_error post w signals)
           | Returned (Inl e) \<Rightarrow> Returned (Inl e, signals)
           | _ \<Rightarrow> Spinning))"

section \<open>Get\<close>

definition ec_deliver :: "u32 \<Rightarrow> exit_code_line \<Rightarrow> spurs_error + u32" where
  "ec_deliver st l = (if st AND ST_NO_CODE \<noteq> 0 then Inl SP_SHUTDOWN else Inr (ec_code l))"

datatype ec_get_next = EcDelivered "spurs_error + u32" | EcWait

definition ec_get_decision :: "bool \<Rightarrow> spurs_task \<Rightarrow> exit_code_line \<Rightarrow> (exit_code_line, spurs_error + ec_get_next) decision" where
  "ec_get_decision block task l =
     (let st = ec_state l
      in if st AND ST_READY = 0 then Return (Inl SP_STAT)
         else if st AND (ST_PPU_WAITER OR ST_SPU_WAITER) \<noteq> 0 then Return (Inl SP_BUSY)
         else if st AND ST_EXITED \<noteq> 0 then Store (l\<lparr>ec_state := 0\<rparr>) (Inr (EcDelivered (ec_deliver st l)))
         else if \<not> block then Return (Inl SP_AGAIN)
         else Store (l\<lparr>ec_state := st OR ST_SPU_WAITER, ec_waiter_taskset := task_taskset task, ec_waiter_id := task_id task\<rparr>) (Inr EcWait))"

definition ec_take_decision :: "exit_code_line \<Rightarrow> (exit_code_line, spurs_error + u32) decision" where
  "ec_take_decision l = Store (l\<lparr>ec_waiter_taskset := 0, ec_waiter_id := 0, ec_state := 0\<rparr>) (ec_deliver (ec_state l) l)"

definition ec_get_check :: "u64 \<Rightarrow> bool \<Rightarrow> bool \<Rightarrow> (spurs_error + unit) \<Rightarrow> spurs_error + unit" where
  "ec_get_check ea given block can_block =
     (if ea = 0 \<or> \<not> given then Inl SP_NULL_POINTER
      else if ea AND 0x7f \<noteq> 0 then Inl SP_ALIGN
      else if block then can_block else Inr ())"

text \<open>The call: the answers to its first loop, the second check, the result of \<open>cellSpursWaitSignal\<close> and the answers to its last loop.\<close>

definition exit_code_get :: "u64 \<Rightarrow> bool \<Rightarrow> bool \<Rightarrow> spurs_task \<Rightarrow> (spurs_error + unit) \<Rightarrow> (exit_code_line \<times> bool) list \<Rightarrow>
    (spurs_error + unit) \<Rightarrow> (spurs_error + unit) \<Rightarrow> (exit_code_line \<times> bool) list \<Rightarrow> (spurs_error + u32) option" where
  "exit_code_get ea given block task can_block answers can_block' wake answers' =
     (case ec_get_check ea given block can_block of
        Inl e \<Rightarrow> Some (Inl e)
      | Inr _ \<Rightarrow>
          (case llsc_loop (ec_get_decision block task) answers of
             Returned (Inl e) \<Rightarrow> Some (Inl e)
           | Stored l l' (Inr (EcDelivered r)) \<Rightarrow> Some r
           | Stored l l' (Inr EcWait) \<Rightarrow>
               (case can_block' of Inl e \<Rightarrow> Some (Inl e)
                | Inr _ \<Rightarrow> (case wake of Inl e \<Rightarrow> Some (Inl e)
                    | Inr _ \<Rightarrow> (case llsc_loop ec_take_decision answers' of Stored l l' r \<Rightarrow> Some r | _ \<Rightarrow> None)))
           | _ \<Rightarrow> None))"

definition cellSpursTaskExitCodeGet where "cellSpursTaskExitCodeGet ea given = exit_code_get ea given True"
definition cellSpursTaskExitCodeTryGet where "cellSpursTaskExitCodeTryGet ea given = exit_code_get ea given False"

section \<open>Tasks sharing a container\<close>

text \<open>A task is outside, blocked, woken and about to take, back with a result, or about to signal a waiter, which may fail.\<close>

datatype ec_thread = EcIdle | EcBlocked | EcWoken | EcGot "spurs_error + u32" | EcSignalling u64 u8 | EcFailed

fun ec_free :: "ec_thread \<Rightarrow> bool" where "ec_free EcIdle = True" | "ec_free (EcGot r) = True" | "ec_free s = False"

text \<open>
  As history: how many tasks have been attached and made ready, the results of those that exited, and the results that
  were got.  A task is attached once for each time it is made ready and exits at most once.
\<close>

record ec_sys =
  ex_line :: exit_code_line
  ex_signals :: "nat \<Rightarrow> bool"
  ex_threads :: "nat \<Rightarrow> ec_thread"
  ex_attached :: nat
  ex_readied :: nat
  ex_exits :: "(spurs_error + u32) list"
  ex_got :: "(spurs_error + u32) list"

definition ex_set :: "nat \<Rightarrow> ec_thread \<Rightarrow> ec_sys \<Rightarrow> ec_sys" where
  "ex_set t s x = x\<lparr>ex_threads := (ex_threads x)(t := s)\<rparr>"

inductive ec_step :: "nat \<Rightarrow> (nat \<Rightarrow> spurs_task) \<Rightarrow> ec_sys \<Rightarrow> ec_sys \<Rightarrow> bool" for N task where
  attach: "ec_attach_decision taskset i (ex_line x) = Store l' (Inr ()) \<Longrightarrow>
    ec_step N task x (x\<lparr>ex_line := l', ex_attached := ex_attached x + 1\<rparr>)"
| ready: "ex_readied x < ex_attached x \<Longrightarrow> ec_ready_decision noCode (ex_line x) = Store l' (Inr ()) \<Longrightarrow>
    ec_step N task x (x\<lparr>ex_line := l', ex_readied := ex_readied x + 1,
      ex_exits := (if noCode \<and> length (ex_exits x) < ex_attached x then ex_exits x @ [Inl SP_SHUTDOWN] else ex_exits x)\<rparr>)"
| exit: "t < N \<Longrightarrow> ec_free (ex_threads x t) \<Longrightarrow> length (ex_exits x) < ex_attached x \<Longrightarrow>
    ec_set_decision code noCode (ex_line x) = Store l' (Inr w) \<Longrightarrow>
    ec_step N task x (ex_set t (case ec_wake_task w of None \<Rightarrow> EcIdle | Some (taskset, i) \<Rightarrow> EcSignalling taskset i)
      (x\<lparr>ex_line := l', ex_exits := ex_exits x @ [if noCode then Inl SP_SHUTDOWN else Inr code]\<rparr>))"
| signal: "t < N \<Longrightarrow> ex_threads x t = EcSignalling taskset i \<Longrightarrow> send_signal N task taskset i (ex_signals x) = Some signals' \<Longrightarrow>
    ec_step N task x (ex_set t EcIdle (x\<lparr>ex_signals := signals'\<rparr>))"
| signal_fails: "t < N \<Longrightarrow> ex_threads x t = EcSignalling taskset i \<Longrightarrow> send_signal N task taskset i (ex_signals x) = None \<Longrightarrow>
    ec_step N task x (ex_set t EcFailed x)"
| get_now: "t < N \<Longrightarrow> ec_free (ex_threads x t) \<Longrightarrow> ec_get_decision block (task t) (ex_line x) = Store l' (Inr (EcDelivered r)) \<Longrightarrow>
    ec_step N task x (ex_set t (EcGot r) (x\<lparr>ex_line := l', ex_got := ex_got x @ [r]\<rparr>))"
| get_wait: "t < N \<Longrightarrow> ec_free (ex_threads x t) \<Longrightarrow> ec_get_decision block (task t) (ex_line x) = Store l' (Inr EcWait) \<Longrightarrow>
    ec_step N task x (ex_set t EcBlocked (x\<lparr>ex_line := l'\<rparr>))"
| signalled: "t < N \<Longrightarrow> ex_threads x t = EcBlocked \<Longrightarrow> ex_signals x t \<Longrightarrow>
    ec_step N task x (ex_set t EcWoken (x\<lparr>ex_signals := (ex_signals x)(t := False)\<rparr>))"
| take: "t < N \<Longrightarrow> ex_threads x t = EcWoken \<Longrightarrow> ec_take_decision (ex_line x) = Store l' r \<Longrightarrow>
    ec_step N task x (ex_set t (EcGot r) (x\<lparr>ex_line := l', ex_got := ex_got x @ [r]\<rparr>))"

section \<open>The invariant of the line\<close>

definition ec_bits :: "bool \<Rightarrow> bool \<Rightarrow> bool \<Rightarrow> bool \<Rightarrow> u32" where
  "ec_bits r e n w = ST_ATTACHED OR (if r then ST_READY else 0) OR (if e then ST_EXITED else 0) OR (if n then ST_NO_CODE else 0) OR
     (if w then ST_SPU_WAITER else 0)"

lemma ec_bits_tests:
  "ec_bits r e n w \<noteq> 0" "ec_bits r e n w AND ST_ATTACHED \<noteq> 0" "ec_bits r e n w AND ST_READY \<noteq> 0 \<longleftrightarrow> r"
  "ec_bits r e n w AND ST_EXITED \<noteq> 0 \<longleftrightarrow> e" "ec_bits r e n w AND ST_NO_CODE \<noteq> 0 \<longleftrightarrow> n"
  "ec_bits r e n w AND ST_SPU_WAITER \<noteq> 0 \<longleftrightarrow> w" "ec_bits r e n w AND ST_PPU_WAITER = 0"
  "ec_bits r e n w AND (ST_PPU_WAITER OR ST_SPU_WAITER) \<noteq> 0 \<longleftrightarrow> w"
  "ec_bits r e n w AND NOT (ST_ATTACHED OR ST_EXITED OR ST_NO_CODE) \<noteq> 0 \<longleftrightarrow> r \<or> w"
  by (cases r; cases e; cases n; cases w; simp add: ec_bits_def)+

lemma ec_bits_sets:
  "ec_bits r e n w OR ST_READY = ec_bits True e n w" "ec_bits r e n w OR ST_EXITED = ec_bits r True n w"
  "ec_bits r e n w OR ST_NO_CODE = ec_bits r e True w" "ec_bits r e n w OR ST_SPU_WAITER = ec_bits r e n True"
  by (cases r; cases e; cases n; cases w; simp add: ec_bits_def)+

type_synonym ec_result = "spurs_error + u32"

text \<open>
  With \<open>a\<close> tasks attached, \<open>r\<close> made ready, the exits and gets so far, and whether a task waits: at most one attached task
  has not been got, and the line says how far it is.
\<close>

definition ec_line_ok :: "exit_code_line \<Rightarrow> nat \<Rightarrow> nat \<Rightarrow> ec_result list \<Rightarrow> ec_result list \<Rightarrow> bool \<Rightarrow> bool" where
  "ec_line_ok l a r exits got w \<longleftrightarrow>
     (let g = length got; e = length exits
      in got = take g exits \<and> a \<le> g + 1 \<and> g \<le> r \<and> r \<le> a \<and> g \<le> e \<and> e \<le> a \<and> (w \<longrightarrow> a = g + 1 \<and> r = a) \<and>
         ec_state l = (if a = g then 0 else ec_bits (r = a) (e = a) (e = a \<and> exits ! g = Inl SP_SHUTDOWN) w) \<and>
         (g < e \<longrightarrow> exits ! g = Inl SP_SHUTDOWN \<or> exits ! g = Inr (ec_code l)))"

lemma ec_line_okD:
  assumes "ec_line_ok l a r exits got w"
  shows "got = take (length got) exits" "a \<le> length got + 1" "length got \<le> r" "r \<le> a" "length got \<le> length exits" "length exits \<le> a"
    "w \<Longrightarrow> a = length got + 1 \<and> r = a"
    "ec_state l = (if a = length got then 0 else ec_bits (r = a) (length exits = a) (length exits = a \<and> exits ! length got = Inl SP_SHUTDOWN) w)"
    "length got < length exits \<Longrightarrow> exits ! length got = Inl SP_SHUTDOWN \<or> exits ! length got = Inr (ec_code l)"
  using assms unfolding ec_line_ok_def Let_def by blast+

lemma ec_line_attach:
  assumes "ec_line_ok l a r exits got w" "ec_attach_decision taskset i l = Store l' (Inr ())"
  shows "\<not> w" "ec_line_ok l' (a + 1) r exits got False"
proof -
  note D = ec_line_okD[OF assms(1)]
  have z: "ec_state l = 0" and l': "l' = l\<lparr>ec_state := ST_ATTACHED, ec_task_taskset := taskset, ec_task_id := ucast i\<rparr>"
    using assms(2) by (auto simp: ec_attach_decision_def split: if_splits)
  have a: "a = length got" using D(8) z ec_bits_tests(1) by (metis (no_types, lifting))
  then show "\<not> w" using D(7) by auto
  show "ec_line_ok l' (a + 1) r exits got False"
    using D(1-6) a unfolding ec_line_ok_def Let_def by (simp add: l' ec_bits_def)
qed

lemma ec_line_ready:
  assumes "ec_line_ok l a r exits got w" "r < a" "ec_ready_decision noCode l = Store l' (Inr ())"
  shows "\<not> w" "ec_line_ok l' a (r + 1) (if noCode \<and> length exits < a then exits @ [Inl SP_SHUTDOWN] else exits) got False"
    "length exits \<noteq> length got \<Longrightarrow> length exits = a"
proof -
  note D = ec_line_okD[OF assms(1)]
  show w: "\<not> w" using D(7) assms(2) by auto
  have a: "a = length got + 1" "r = length got" using D(2-4) assms(2) by simp_all
  define e where "e \<longleftrightarrow> length exits = a"
  have st: "ec_state l = ec_bits False e (e \<and> exits ! length got = Inl SP_SHUTDOWN) False" using D(8) a w by (simp add: e_def)
  show "length exits \<noteq> length got \<Longrightarrow> length exits = a" using D(5,6) a by simp
  let ?st = "ec_state l"
  have l': "l' = l\<lparr>ec_state := (if noCode \<and> \<not> e then ?st OR ST_EXITED OR ST_NO_CODE else ?st) OR ST_READY\<rparr>"
    using assms(3) ec_bits_tests(4,9) unfolding ec_ready_decision_def Let_def st by (auto split: if_splits)
  show "ec_line_ok l' a (r + 1) (if noCode \<and> length exits < a then exits @ [Inl SP_SHUTDOWN] else exits) got False"
  proof (cases "noCode \<and> \<not> e")
    case True
    then have le: "length exits = length got" using D(5,6) a by (simp add: e_def)
    then have "ec_state l' = ec_bits True True True False" using True by (simp add: l' st ec_bits_def)
    moreover have "got = exits" using D(1) le by simp
    ultimately show ?thesis using True a by (simp add: ec_line_ok_def Let_def e_def)
  next
    case False
    then have "l' = l\<lparr>ec_state := ec_state l OR ST_READY\<rparr>" unfolding l' by (simp only: if_False)
    then have "ec_state l' = ec_bits True e (e \<and> exits ! length got = Inl SP_SHUTDOWN) False" "ec_code l' = ec_code l" by (simp_all add: st ec_bits_sets)
    moreover have "\<not> (noCode \<and> length exits < a)" using False D(6) by (simp add: e_def)
    ultimately show ?thesis using D a by (simp add: ec_line_ok_def Let_def e_def)
  qed
qed

lemma ec_line_exit:
  assumes "ec_line_ok l a r exits got w" "length exits < a" "ec_set_decision code noCode l = Store l' (Inr wk)"
  shows "ec_line_ok l' a r (exits @ [if noCode then Inl SP_SHUTDOWN else Inr code]) got w" "length exits = length got"
    "ec_wake_task wk = (if w then Some (ec_waiter_taskset l, ec_waiter_id l) else None)" "ec_wake_spurs wk = None"
    "ec_waiter_taskset l' = ec_waiter_taskset l" "ec_waiter_id l' = ec_waiter_id l"
proof -
  note D = ec_line_okD[OF assms(1)]
  have a: "a = length got + 1" and le: "length exits = length got" using D(2,5) assms(2) by simp_all
  then show "length exits = length got" by simp
  have st: "ec_state l = ec_bits (r = a) False False w" using D(8) a le by simp
  have l': "l' = l\<lparr>ec_state := ec_bits (r = a) True noCode w, ec_code := code\<rparr>"
    and wk: "wk = \<lparr>ec_wake_task = (if w then Some (ec_waiter_taskset l, ec_waiter_id l) else None), ec_wake_spurs = None\<rparr>"
    using assms(3) ec_bits_tests(2,6,7) unfolding ec_set_decision_def Let_def st by (auto simp: ec_bits_sets or.assoc[symmetric] split: if_splits)
  show "ec_wake_task wk = (if w then Some (ec_waiter_taskset l, ec_waiter_id l) else None)" "ec_wake_spurs wk = None"
    "ec_waiter_taskset l' = ec_waiter_taskset l" "ec_waiter_id l' = ec_waiter_id l" by (simp_all add: wk l')
  have "got = exits" using D(1) le by simp
  then show "ec_line_ok l' a r (exits @ [if noCode then Inl SP_SHUTDOWN else Inr code]) got w"
    using D(3,4,7) a by (simp add: ec_line_ok_def Let_def l')
qed

lemma ec_line_delivers:
  assumes "ec_line_ok l a r exits got w" "length exits = a" "a \<noteq> length got" "r = a"
  shows "ec_deliver (ec_state l) l = exits ! length got" "ec_state l' = 0 \<Longrightarrow> ec_line_ok l' a r exits (got @ [exits ! length got]) False"
proof -
  note D = ec_line_okD[OF assms(1)]
  have a: "a = length got + 1" using D(2,5,6) assms(2,3) by simp
  have "ec_state l = ec_bits True True (exits ! length got = Inl SP_SHUTDOWN) w" using D(8) assms by simp
  then show "ec_deliver (ec_state l) l = exits ! length got" using D(9) a assms(2) ec_bits_tests(5) by (auto simp: ec_deliver_def)
  have "got @ [exits ! length got] = take (length got + 1) exits" using D(1) a assms(2) by (metis take_Suc_conv_app_nth Suc_eq_plus1 lessI)
  then show "ec_line_ok l' a r exits (got @ [exits ! length got]) False" if "ec_state l' = 0"
    using that a assms(2,4) by (simp add: ec_line_ok_def Let_def)
qed

lemma ec_line_get:
  assumes "ec_line_ok l a r exits got w" "ec_get_decision block task l = Store l' (Inr nxt)"
  shows "\<not> w" "a = length got + 1" "r = a"
    "nxt = EcDelivered res \<Longrightarrow> length exits = a \<and> res = exits ! length got \<and> ec_line_ok l' a r exits (got @ [res]) False"
    "nxt = EcWait \<Longrightarrow> length exits = length got \<and> ec_line_ok l' a r exits got True \<and> ec_waiter_taskset l' = task_taskset task \<and> ec_waiter_id l' = task_id task"
proof -
  note D = ec_line_okD[OF assms(1)]
  have "ec_state l \<noteq> 0" using assms(2) by (auto simp: ec_get_decision_def Let_def split: if_splits)
  then have ne: "a \<noteq> length got" using D(8) by auto
  then show a: "a = length got + 1" using D(2-4) by simp
  define e where "e \<longleftrightarrow> length exits = a"
  have st: "ec_state l = ec_bits (r = a) e (e \<and> exits ! length got = Inl SP_SHUTDOWN) w" using D(8) ne by (simp add: e_def)
  have g: "r = a" "\<not> w" "if e then nxt = EcDelivered (ec_deliver (ec_state l) l) \<and> l' = l\<lparr>ec_state := 0\<rparr>
      else nxt = EcWait \<and> l' = l\<lparr>ec_state := ec_state l OR ST_SPU_WAITER, ec_waiter_taskset := task_taskset task, ec_waiter_id := task_id task\<rparr>"
    using assms(2) ec_bits_tests(3,4,8) unfolding ec_get_decision_def Let_def st by (auto split: if_splits)
  show "r = a" "\<not> w" using g by simp_all
  show "length exits = a \<and> res = exits ! length got \<and> ec_line_ok l' a r exits (got @ [res]) False" if "nxt = EcDelivered res"
  proof -
    have e: "length exits = a" using g(3) that by (auto simp: e_def split: if_splits)
    then have "nxt = EcDelivered (ec_deliver (ec_state l) l)" "ec_state l' = 0" using g(3) by (simp_all add: e_def)
    then show ?thesis using ec_line_delivers[OF assms(1) e ne g(1)] e that by simp
  qed
  show "length exits = length got \<and> ec_line_ok l' a r exits got True \<and> ec_waiter_taskset l' = task_taskset task \<and> ec_waiter_id l' = task_id task" if "nxt = EcWait"
  proof -
    have ne: "\<not> e" using g(3) that by auto
    then have le: "length exits = length got" using D(5,6) a by (simp add: e_def)
    have l': "l' = l\<lparr>ec_state := ec_bits True False False True, ec_waiter_taskset := task_taskset task, ec_waiter_id := task_id task\<rparr>"
      using g ne by (simp add: st ec_bits_sets)
    have "got = exits" using D(1) le by simp
    then show ?thesis using a g(1) by (simp add: ec_line_ok_def Let_def l')
  qed
qed

section \<open>The invariant of the tasks\<close>

fun ec_waits :: "ec_thread \<Rightarrow> bool" where "ec_waits EcBlocked = True" | "ec_waits EcWoken = True" | "ec_waits s = False"

fun ec_owes :: "u64 \<times> u8 \<Rightarrow> ec_thread \<Rightarrow> nat" where
  "ec_owes nm (EcSignalling taskset i) = (if (taskset, i) = nm then 1 else 0)" | "ec_owes nm s = 0"

definition ec_name :: "spurs_task \<Rightarrow> u64 \<times> u8" where "ec_name task = (task_taskset task, task_id task)"

text \<open>The signals on their way to a task.\<close>

definition ec_tokens :: "nat \<Rightarrow> (nat \<Rightarrow> spurs_task) \<Rightarrow> ec_sys \<Rightarrow> nat \<Rightarrow> nat" where
  "ec_tokens N task x t = (if ex_signals x t then 1 else 0) + (if ex_threads x t = EcWoken then 1 else 0) +
     total N (ec_owes (ec_name (task t))) (ex_threads x)"

abbreviation (input) ec_waiting where "ec_waiting N x \<equiv> 0 < number N ec_waits (ex_threads x)"

definition ec_inv :: "nat \<Rightarrow> (nat \<Rightarrow> spurs_task) \<Rightarrow> ec_sys \<Rightarrow> bool" where
  "ec_inv N task x \<longleftrightarrow> distinct_tasks N task \<and> number N ec_waits (ex_threads x) \<le> 1 \<and>
     ec_line_ok (ex_line x) (ex_attached x) (ex_readied x) (ex_exits x) (ex_got x) (ec_waiting N x) \<and>
     (\<forall>t < N. ec_waits (ex_threads x t) \<longrightarrow> (ec_waiter_taskset (ex_line x), ec_waiter_id (ex_line x)) = ec_name (task t)) \<and>
     (\<forall>t < N. ec_tokens N task x t = (if ec_waits (ex_threads x t) \<and> length (ex_exits x) = ex_attached x then 1 else 0)) \<and>
     (\<forall>t < N. ex_threads x t \<noteq> EcFailed \<and> (\<forall>ts i. ex_threads x t = EcSignalling ts i \<longrightarrow> (\<exists>u < N. (ts, i) = ec_name (task u))))"

lemma ec_invD:
  assumes "ec_inv N task x"
  shows "distinct_tasks N task" "number N ec_waits (ex_threads x) \<le> 1"
    "ec_line_ok (ex_line x) (ex_attached x) (ex_readied x) (ex_exits x) (ex_got x) (ec_waiting N x)"
    "t < N \<Longrightarrow> ec_waits (ex_threads x t) \<Longrightarrow> (ec_waiter_taskset (ex_line x), ec_waiter_id (ex_line x)) = ec_name (task t)"
    "t < N \<Longrightarrow> ec_tokens N task x t = (if ec_waits (ex_threads x t) \<and> length (ex_exits x) = ex_attached x then 1 else 0)"
    "t < N \<Longrightarrow> ex_threads x t \<noteq> EcFailed" "t < N \<Longrightarrow> ex_threads x t = EcSignalling ts i \<Longrightarrow> \<exists>u < N. (ts, i) = ec_name (task u)"
  using assms unfolding ec_inv_def by blast+

lemma ec_name_inj: "distinct_tasks N task \<Longrightarrow> t < N \<Longrightarrow> u < N \<Longrightarrow> ec_name (task t) = ec_name (task u) \<Longrightarrow> t = u"
proof (rule ccontr)
  assume a: "distinct_tasks N task" "t < N" "u < N" "ec_name (task t) = ec_name (task u)" "t \<noteq> u"
  then have "(task_taskset (task t), task_id (task t)) \<noteq> (task_taskset (task u), task_id (task u))"
    unfolding distinct_tasks_def by blast
  then show False using a(4) unfolding ec_name_def by blast
qed

lemma ec_tokens_move:
  assumes "t < N" "ex_threads y = (ex_threads x)(t := s)"
  shows "ec_tokens N task y u + (if ex_signals x u then 1 else 0) + (if u = t \<and> ex_threads x t = EcWoken then 1 else 0) +
      ec_owes (ec_name (task u)) (ex_threads x t) =
    ec_tokens N task x u + (if ex_signals y u then 1 else 0) + (if u = t \<and> s = EcWoken then 1 else 0) + ec_owes (ec_name (task u)) s"
  using total_update[OF assms(1), of "ec_owes (ec_name (task u))" "ex_threads x" s] unfolding ec_tokens_def assms(2) by auto

lemma ec_waiting_move:
  assumes "t < N" "ex_threads y = (ex_threads x)(t := s)"
  shows "number N ec_waits (ex_threads y) + (if ec_waits (ex_threads x t) then 1 else 0) = number N ec_waits (ex_threads x) + (if ec_waits s then 1 else 0)"
  using number_update[OF assms(1), of ec_waits "ex_threads x" s] unfolding assms(2) .

lemma ec_no_waiter: "\<not> ec_waiting N x \<Longrightarrow> t < N \<Longrightarrow> \<not> ec_waits (ex_threads x t)"
  using number_pos[of t N ec_waits "ex_threads x"] by auto

lemma ec_one_waiter: "ec_inv N task x \<Longrightarrow> t < N \<Longrightarrow> u < N \<Longrightarrow> ec_waits (ex_threads x t) \<Longrightarrow> ec_waits (ex_threads x u) \<Longrightarrow> t = u"
  using number_one_unique[where P = ec_waits, OF ec_invD(2)] by blast

text \<open>A move of one task that neither waits nor leaves a wait.\<close>

lemma ec_inv_still:
  assumes "ec_inv N task x" "t < N" "ex_threads y = (ex_threads x)(t := s)" "ec_waits s = ec_waits (ex_threads x t)"
    "ec_line_ok (ex_line y) (ex_attached y) (ex_readied y) (ex_exits y) (ex_got y) (ec_waiting N x)"
    "ec_waiting N x \<Longrightarrow> ec_waiter_taskset (ex_line y) = ec_waiter_taskset (ex_line x) \<and> ec_waiter_id (ex_line y) = ec_waiter_id (ex_line x)"
    "\<And>u. u < N \<Longrightarrow> ec_tokens N task y u = (if ec_waits (ex_threads y u) \<and> length (ex_exits y) = ex_attached y then 1 else 0)"
    "s \<noteq> EcFailed" "\<And>ts i. s = EcSignalling ts i \<Longrightarrow> \<exists>u < N. (ts, i) = ec_name (task u)"
  shows "ec_inv N task y"
proof -
  note I = ec_invD[OF assms(1)]
  have n: "number N ec_waits (ex_threads y) = number N ec_waits (ex_threads x)" using ec_waiting_move[OF assms(2,3)] assms(4) by simp
  have "(ec_waiter_taskset (ex_line y), ec_waiter_id (ex_line y)) = ec_name (task u)" if u: "u < N" "ec_waits (ex_threads y u)" for u
  proof -
    have w: "ec_waits (ex_threads x u)" using u(2) assms(3,4) by (auto split: if_splits)
    then have "ec_waiting N x" using ec_no_waiter u(1) by blast
    then show ?thesis using assms(6) I(4)[OF u(1) w] by simp
  qed
  moreover have "ex_threads y u \<noteq> EcFailed \<and> (\<forall>ts i. ex_threads y u = EcSignalling ts i \<longrightarrow> (\<exists>v < N. (ts, i) = ec_name (task v)))" if "u < N" for u
    using I(6,7)[OF that] assms(3,8,9) by (cases "u = t") auto
  ultimately show ?thesis using I(1,2) assms(5,7) n by (simp add: ec_inv_def)
qed

text \<open>The steps.\<close>

lemma ec_inv_lineonly:
  assumes "ec_inv N task x" "\<not> ec_waiting N x" "ex_threads y = ex_threads x" "ex_signals y = ex_signals x"
    "ec_line_ok (ex_line y) (ex_attached y) (ex_readied y) (ex_exits y) (ex_got y) False"
  shows "ec_inv N task y"
proof -
  note I = ec_invD[OF assms(1)]
  have nw: "\<not> ec_waits (ex_threads x u)" if "u < N" for u using ec_no_waiter assms(2) that by blast
  have "ec_tokens N task y u = 0" if "u < N" for u using I(5)[OF that] nw[OF that] by (simp add: ec_tokens_def assms(3,4))
  then show ?thesis using I(1,2,6,7) assms(2,5) nw by (simp add: ec_inv_def assms(3))
qed

lemma ec_inv_exit:
  assumes inv: "ec_inv N task x" and t: "t < N" "ec_free (ex_threads x t)" "length (ex_exits x) < ex_attached x"
    and dec: "ec_set_decision code noCode (ex_line x) = Store l' (Inr w)"
  shows "ec_inv N task (ex_set t (case ec_wake_task w of None \<Rightarrow> EcIdle | Some (taskset, i) \<Rightarrow> EcSignalling taskset i)
      (x\<lparr>ex_line := l', ex_exits := ex_exits x @ [if noCode then Inl SP_SHUTDOWN else Inr code]\<rparr>))" (is "ec_inv _ _ ?y")
proof -
  note I = ec_invD[OF inv] and L = ec_line_exit[OF ec_invD(3)[OF inv] t(3) dec]
  define s where "s = (case ec_wake_task w of None \<Rightarrow> EcIdle | Some (taskset, i) \<Rightarrow> EcSignalling taskset i)"
  have thr: "ex_threads ?y = (ex_threads x)(t := s)" by (simp add: ex_set_def s_def)
  have s: "s = (if ec_waiting N x then EcSignalling (ec_waiter_taskset (ex_line x)) (ec_waiter_id (ex_line x)) else EcIdle)"
    unfolding s_def L(3) by simp
  have free: "\<not> ec_waits (ex_threads x t)" "ex_threads x t \<noteq> EcWoken" "ec_owes nm (ex_threads x t) = 0" for nm using t(2) by (cases "ex_threads x t"; simp)+
  have sw: "\<not> ec_waits s" "s \<noteq> EcWoken" "s \<noteq> EcFailed" unfolding s by simp_all
  have a: "ex_attached x = length (ex_exits x) + 1" using ec_line_okD(2,5)[OF I(3)] L(2) t(3) by simp
  have tok: "ec_tokens N task ?y u = (if ec_waits (ex_threads x u) then 1 else 0)" if u: "u < N" for u
  proof -
    have "ec_tokens N task ?y u = ec_owes (ec_name (task u)) s"
      using ec_tokens_move[where task = task and u = u, OF t(1) thr] free sw I(5)[OF u] t(3) by (simp add: ex_set_def)
    also have "\<dots> = (if ec_waits (ex_threads x u) then 1 else 0)"
    proof (cases "ec_waiting N x")
      case False
      then show ?thesis using ec_no_waiter[OF False u] by (simp add: s)
    next
      case True
      then obtain v where v: "v < N" "ec_waits (ex_threads x v)" using number_ex by blast
      have "(ec_waiter_taskset (ex_line x), ec_waiter_id (ex_line x)) = ec_name (task u) \<longleftrightarrow> u = v"
        using I(4)[OF v] ec_name_inj[OF I(1) u v(1)] by auto
      moreover have "ec_waits (ex_threads x u) \<longleftrightarrow> u = v" using ec_one_waiter[OF inv u v(1)] v(2) by blast
      ultimately show ?thesis using True by (simp add: s)
    qed
    finally show ?thesis .
  qed
  show ?thesis
  proof (rule ec_inv_still[OF inv t(1) thr])
    show "ec_tokens N task ?y u = (if ec_waits (ex_threads ?y u) \<and> length (ex_exits ?y) = ex_attached ?y then 1 else 0)" if "u < N" for u
      unfolding tok[OF that] thr using free(1) sw(1) a by (simp add: ex_set_def)
    show "\<exists>u < N. (ts, i) = ec_name (task u)" if "s = EcSignalling ts i" for ts i
    proof -
      have "ec_waiting N x" using that s by (auto split: if_splits)
      then obtain v where "v < N" "ec_waits (ex_threads x v)" using number_ex by blast
      then show ?thesis using I(4)[of v] that \<open>ec_waiting N x\<close> by (auto simp: s)
    qed
  qed (use free(1) sw L in \<open>simp_all add: ex_set_def\<close>)
qed

lemma ec_free_still: "ec_free s \<Longrightarrow> \<not> ec_waits s \<and> s \<noteq> EcWoken \<and> ec_owes nm s = 0"
  by (cases s) simp_all

lemma ec_inv_signal:
  assumes inv: "ec_inv N task x" and t: "t < N" "ex_threads x t = EcSignalling taskset i"
  obtains u where "u < N" "t \<noteq> u" "ec_waits (ex_threads x u)" "send_signal N task taskset i (ex_signals x) = Some ((ex_signals x)(u := True))"
    "ec_inv N task (ex_set t EcIdle (x\<lparr>ex_signals := (ex_signals x)(u := True)\<rparr>))"
proof -
  note I = ec_invD[OF inv]
  obtain u where u: "u < N" "(taskset, i) = ec_name (task u)" using I(7)[OF t] by blast
  have named: "v < N \<and> task_taskset (task v) = taskset \<and> task_id (task v) = i \<longleftrightarrow> v = u" for v
    using u ec_name_inj[OF I(1) _ u(1)] by (auto simp: ec_name_def)
  have sg: "send_signal N task taskset i (ex_signals x) = Some ((ex_signals x)(u := True))"
    unfolding send_signal_def Let_def named using u(1) by (auto simp: fun_eq_iff)
  have "ec_owes (ec_name (task u)) (ex_threads x t) \<le> total N (ec_owes (ec_name (task u))) (ex_threads x)" by (rule total_ge[OF t(1)])
  then have pos: "0 < total N (ec_owes (ec_name (task u))) (ex_threads x)" using t(2) u(2) by simp
  then have e: "\<not> ex_signals x u" "ec_waits (ex_threads x u)" using I(5)[OF u(1)] by (auto simp: ec_tokens_def split: if_splits)
  have tu: "t \<noteq> u" using e(2) t(2) by auto
  let ?y = "ex_set t EcIdle (x\<lparr>ex_signals := (ex_signals x)(u := True)\<rparr>)"
  have thr: "ex_threads ?y = (ex_threads x)(t := EcIdle)" by (simp add: ex_set_def)
  have tok: "ec_tokens N task ?y v = ec_tokens N task x v" if "v < N" for v
  proof (cases "v = u")
    case True
    then show ?thesis using ec_tokens_move[where task = task and u = v, OF t(1) thr] t(2) u(2) e(1) by (simp add: ex_set_def)
  next
    case False
    then have "(taskset, i) \<noteq> ec_name (task v)" using ec_name_inj[OF I(1) that u(1)] u(2) by metis
    then show ?thesis using ec_tokens_move[where task = task and u = v, OF t(1) thr] t(2) False by (simp add: ex_set_def)
  qed
  have "ec_inv N task ?y"
  proof (rule ec_inv_still[OF inv t(1) thr])
    show "ec_tokens N task ?y v = (if ec_waits (ex_threads ?y v) \<and> length (ex_exits ?y) = ex_attached ?y then 1 else 0)" if "v < N" for v
      unfolding tok[OF that] I(5)[OF that] using t(2) by (simp add: ex_set_def)
  qed (use I(3) t(2) in \<open>simp_all add: ex_set_def\<close>)
  then show ?thesis using that u(1) tu e(2) sg by blast
qed

lemma ec_inv_get_now:
  assumes inv: "ec_inv N task x" and t: "t < N" "ec_free (ex_threads x t)"
    and dec: "ec_get_decision block (task t) (ex_line x) = Store l' (Inr (EcDelivered r))"
  shows "ec_inv N task (ex_set t (EcGot r) (x\<lparr>ex_line := l', ex_got := ex_got x @ [r]\<rparr>))" (is "ec_inv _ _ ?y")
proof -
  note I = ec_invD[OF inv] and L = ec_line_get[OF ec_invD(3)[OF inv] dec]
  have ok: "length (ex_exits x) = ex_attached x" "ec_line_ok l' (ex_attached x) (ex_readied x) (ex_exits x) (ex_got x @ [r]) False"
    using L(4)[OF refl] by blast+
  have thr: "ex_threads ?y = (ex_threads x)(t := EcGot r)" by (simp add: ex_set_def)
  have nw: "\<not> ec_waits (ex_threads x u)" if "u < N" for u using ec_no_waiter[OF L(1) that] .
  show ?thesis
  proof (rule ec_inv_still[OF inv t(1) thr])
    show "ec_tokens N task ?y u = (if ec_waits (ex_threads ?y u) \<and> length (ex_exits ?y) = ex_attached ?y then 1 else 0)" if "u < N" for u
      using ec_tokens_move[where task = task and u = u, OF t(1) thr] ec_free_still[OF t(2), of "ec_name (task u)"] I(5)[OF that] nw[OF that]
      by (simp add: ex_set_def)
  qed (use ec_free_still[OF t(2)] ok L(1) in \<open>simp_all add: ex_set_def\<close>)
qed

lemma ec_inv_get_wait:
  assumes inv: "ec_inv N task x" and t: "t < N" "ec_free (ex_threads x t)"
    and dec: "ec_get_decision block (task t) (ex_line x) = Store l' (Inr EcWait)"
  shows "ec_inv N task (ex_set t EcBlocked (x\<lparr>ex_line := l'\<rparr>))" (is "ec_inv _ _ ?y")
proof -
  note I = ec_invD[OF inv] and L = ec_line_get[OF ec_invD(3)[OF inv] dec]
  have ok: "length (ex_exits x) = length (ex_got x)" "ec_line_ok l' (ex_attached x) (ex_readied x) (ex_exits x) (ex_got x) True"
      "(ec_waiter_taskset l', ec_waiter_id l') = ec_name (task t)"
    using L(5)[OF refl] by (simp_all add: ec_name_def)
  have thr: "ex_threads ?y = (ex_threads x)(t := EcBlocked)" by (simp add: ex_set_def)
  have nw: "\<not> ec_waits (ex_threads x u)" if "u < N" for u using ec_no_waiter[OF L(1) that] .
  have n: "number N ec_waits (ex_threads ?y) = 1" using ec_waiting_move[OF t(1) thr] nw[OF t(1)] L(1) by simp
  have tok: "ec_tokens N task ?y u = 0" if "u < N" for u
    using ec_tokens_move[where task = task and u = u, OF t(1) thr] ec_free_still[OF t(2), of "ec_name (task u)"] I(5)[OF that] nw[OF that]
    by (simp add: ex_set_def)
  have ne: "length (ex_exits x) \<noteq> ex_attached x" using ok(1) L(2) by simp
  have w: "ec_waits (ex_threads ?y u) \<longleftrightarrow> u = t" if "u < N" for u using nw[OF that] by (simp add: thr)
  have bad: "ex_threads ?y u \<noteq> EcFailed \<and> (\<forall>ts i. ex_threads ?y u = EcSignalling ts i \<longrightarrow> (\<exists>v < N. (ts, i) = ec_name (task v)))" if "u < N" for u
    using I(6,7)[OF that] by (cases "u = t") (auto simp: thr)
  have "\<forall>u < N. ec_waits (ex_threads ?y u) \<longrightarrow> (ec_waiter_taskset (ex_line ?y), ec_waiter_id (ex_line ?y)) = ec_name (task u)"
    using w ok(3) by (simp add: ex_set_def)
  moreover have "ec_line_ok (ex_line ?y) (ex_attached ?y) (ex_readied ?y) (ex_exits ?y) (ex_got ?y) (ec_waiting N ?y)"
    unfolding n using ok(2) by (simp add: ex_set_def)
  moreover have "length (ex_exits ?y) \<noteq> ex_attached ?y" using ne by (simp add: ex_set_def)
  ultimately show ?thesis using I(1) n tok bad unfolding ec_inv_def by simp
qed

lemma ec_inv_signalled:
  assumes inv: "ec_inv N task x" and t: "t < N" "ex_threads x t = EcBlocked" "ex_signals x t"
  shows "ec_inv N task (ex_set t EcWoken (x\<lparr>ex_signals := (ex_signals x)(t := False)\<rparr>))" (is "ec_inv _ _ ?y")
proof -
  note I = ec_invD[OF inv]
  have thr: "ex_threads ?y = (ex_threads x)(t := EcWoken)" by (simp add: ex_set_def)
  have tok: "ec_tokens N task ?y u = ec_tokens N task x u" for u
    using ec_tokens_move[where task = task and u = u, OF t(1) thr] t(2,3) by (simp add: ex_set_def split: if_splits)
  show ?thesis
  proof (rule ec_inv_still[OF inv t(1) thr])
    show "ec_tokens N task ?y u = (if ec_waits (ex_threads ?y u) \<and> length (ex_exits ?y) = ex_attached ?y then 1 else 0)" if "u < N" for u
      unfolding tok I(5)[OF that] using t(2) by (simp add: ex_set_def)
  qed (use I(3) t(2) in \<open>simp_all add: ex_set_def\<close>)
qed

lemma ec_inv_take:
  assumes inv: "ec_inv N task x" and t: "t < N" "ex_threads x t = EcWoken" and dec: "ec_take_decision (ex_line x) = Store l' r"
  shows "ec_inv N task (ex_set t (EcGot r) (x\<lparr>ex_line := l', ex_got := ex_got x @ [r]\<rparr>))" (is "ec_inv _ _ ?y")
proof -
  note I = ec_invD[OF inv]
  have wt: "ec_waits (ex_threads x t)" using t(2) by simp
  have w: "ec_waiting N x" using number_pos[of t N ec_waits "ex_threads x"] t(1) wt by simp
  have "0 < ec_tokens N task x t" using t(2) by (simp add: ec_tokens_def)
  then have e: "length (ex_exits x) = ex_attached x" using I(5)[OF t(1)] by (auto split: if_splits)
  have a: "ex_attached x \<noteq> length (ex_got x)" "ex_readied x = ex_attached x" using ec_line_okD(7)[OF I(3) w] by simp_all
  note L = ec_line_delivers[OF I(3) e a]
  have "ec_state l' = 0" "r = ex_exits x ! length (ex_got x)" using dec L(1) by (auto simp: ec_take_decision_def)
  then have ok: "ec_line_ok l' (ex_attached x) (ex_readied x) (ex_exits x) (ex_got x @ [r]) False" using L(2) by simp
  have thr: "ex_threads ?y = (ex_threads x)(t := EcGot r)" by (simp add: ex_set_def)
  have n: "number N ec_waits (ex_threads ?y) = 0" using ec_waiting_move[OF t(1) thr] wt I(2) by simp
  have nw: "\<not> ec_waits (ex_threads ?y u)" if "u < N" for u using number_pos[of u N ec_waits "ex_threads ?y"] that n by auto
  have tok: "ec_tokens N task ?y u = 0" if "u < N" for u
    using ec_tokens_move[where task = task and u = u, OF t(1) thr] I(5)[OF that] e t(2) wt ec_one_waiter[OF inv that t(1)]
    by (auto simp: ex_set_def split: if_splits)
  have bad: "ex_threads ?y u \<noteq> EcFailed \<and> (\<forall>ts i. ex_threads ?y u = EcSignalling ts i \<longrightarrow> (\<exists>v < N. (ts, i) = ec_name (task v)))" if "u < N" for u
    using I(6,7)[OF that] by (cases "u = t") (auto simp: thr)
  have "ec_line_ok (ex_line ?y) (ex_attached ?y) (ex_readied ?y) (ex_exits ?y) (ex_got ?y) (ec_waiting N ?y)"
    unfolding n using ok by (simp add: ex_set_def)
  then show ?thesis using I(1) n tok bad nw unfolding ec_inv_def by simp
qed

lemma ec_inv_step: "ec_step N task x y \<Longrightarrow> ec_inv N task x \<Longrightarrow> ec_inv N task y"
proof (induction rule: ec_step.induct)
  case (attach taskset i x l')
  show ?case by (rule ec_inv_lineonly[OF attach(2)]) (use ec_line_attach[OF ec_invD(3)[OF attach(2)] attach(1)] in simp_all)
next
  case (ready x noCode l')
  note L = ec_line_ready[OF ec_invD(3)[OF ready(3)] ready(1,2)]
  show ?case by (rule ec_inv_lineonly[OF ready(3)]) (use L(1,2) in simp_all)
next
  case (signal t x taskset i signals')
  show ?case using ec_inv_signal[OF signal(4,1,2)] signal(3) by (metis option.inject)
next
  case (signal_fails t x taskset i)
  show ?case using ec_inv_signal[OF signal_fails(4,1,2)] signal_fails(3) by (metis option.distinct(1))
qed (rule ec_inv_exit ec_inv_get_now ec_inv_get_wait ec_inv_signalled ec_inv_take; assumption)+

section \<open>A new container\<close>

definition ec_fresh :: "nat \<Rightarrow> (nat \<Rightarrow> spurs_task) \<Rightarrow> ec_sys \<Rightarrow> bool" where
  "ec_fresh N task x \<longleftrightarrow> distinct_tasks N task \<and> (\<exists>ea. cellSpursTaskExitCodeInitialize ea = Inr (ex_line x)) \<and>
     (\<forall>t. \<not> ex_signals x t \<and> ex_threads x t = EcIdle) \<and> ex_attached x = 0 \<and> ex_readied x = 0 \<and> ex_exits x = [] \<and> ex_got x = []"

lemma ec_inv_fresh: "ec_fresh N task x \<Longrightarrow> ec_inv N task x"
proof -
  assume f: "ec_fresh N task x"
  then obtain ea where init: "cellSpursTaskExitCodeInitialize ea = Inr (ex_line x)" unfolding ec_fresh_def by blast
  have "ex_line x = \<lparr>ec_state = 0, ec_code = 0, ec_waiter_taskset = 0, ec_waiter_id = 0, ec_task_id = 0, ec_spurs = 0, ec_task_taskset = 0\<rparr>"
    using init by (cases "spurs_check_ea ea") (simp_all add: cellSpursTaskExitCodeInitialize_def)
  then have "ec_state (ex_line x) = 0" by simp
  moreover have thr: "ex_threads x t = EcIdle" "\<not> ex_signals x t" for t using f by (simp_all add: ec_fresh_def)
  then have "number N ec_waits (ex_threads x) = 0" by (intro number_none) simp
  moreover have "ec_tokens N task x t = 0" for t using thr by (simp add: ec_tokens_def total_def)
  ultimately show ?thesis using f thr by (simp add: ec_inv_def ec_fresh_def ec_line_ok_def)
qed

lemma ec_reachable_inv: "(ec_step N task)\<^sup>*\<^sup>* x y \<Longrightarrow> ec_fresh N task x \<Longrightarrow> ec_inv N task y"
  by (induction rule: rtranclp_induct) (auto intro: ec_inv_fresh ec_inv_step)

section \<open>Property\<close>

text \<open>C30: The container delivers each exit exactly once and to one task: the results got are those of the tasks attached one
  after the other, in order, and at most the last of these is still to be got; while it is, no other task can be attached.
  At most one task waits, and a second one is refused; no signal is on its way to it before the exit, and exactly one
  from then on until it takes the result; a signal that has to be sent finds its task.\<close>

theorem exit_codes_delivered_once:
  assumes "(ec_step N task)\<^sup>*\<^sup>* x y" "ec_fresh N task x"
  shows "ex_got y = take (length (ex_got y)) (ex_exits y) \<and> length (ex_exits y) \<le> ex_attached y \<and> ex_attached y \<le> length (ex_got y) + 1 \<and>
    (ex_attached y = length (ex_got y) \<longleftrightarrow> ec_attach_decision taskset i (ex_line y) \<noteq> Return (Inl SP_BUSY)) \<and>
    (\<forall>t < N. \<forall>u < N. ec_waits (ex_threads y t) \<longrightarrow> ec_waits (ex_threads y u) \<longrightarrow> t = u) \<and>
    (\<forall>t < N. ec_waits (ex_threads y t) \<longrightarrow> ec_get_decision block other (ex_line y) = Return (Inl SP_BUSY)) \<and>
    (\<forall>t < N. ec_tokens N task y t = (if ec_waits (ex_threads y t) \<and> length (ex_exits y) = ex_attached y then 1 else 0)) \<and>
    (\<forall>t < N. ex_threads y t \<noteq> EcFailed \<and>
       (\<forall>ts j. ex_threads y t = EcSignalling ts j \<longrightarrow> (\<exists>z. ec_step N task y z \<and> ex_threads z t = EcIdle)))"
proof (intro conjI allI impI)
  note inv = ec_reachable_inv[OF assms]
  note I = ec_invD[OF inv]
  note D = ec_line_okD[OF I(3)]
  show "ex_got y = take (length (ex_got y)) (ex_exits y)" "length (ex_exits y) \<le> ex_attached y" "ex_attached y \<le> length (ex_got y) + 1"
    using D(1,2,6) by blast+
  show "ex_attached y = length (ex_got y) \<longleftrightarrow> ec_attach_decision taskset i (ex_line y) \<noteq> Return (Inl SP_BUSY)"
    using D(8) ec_bits_tests(1) by (auto simp: ec_attach_decision_def)
  show "t = u" if "t < N" "u < N" "ec_waits (ex_threads y t)" "ec_waits (ex_threads y u)" for t u by (rule ec_one_waiter[OF inv that])
  show "ec_get_decision block other (ex_line y) = Return (Inl SP_BUSY)" if t: "t < N" "ec_waits (ex_threads y t)" for t
  proof -
    have w: "ec_waiting N y" using number_pos[of t N ec_waits "ex_threads y"] t by simp
    then have "ex_attached y \<noteq> length (ex_got y)" "ex_readied y = ex_attached y" using D(7) by auto
    then obtain e n where "ec_state (ex_line y) = ec_bits True e n True" using D(8) w by auto
    then show ?thesis using ec_bits_tests(3,8)[of True e n True] by (simp add: ec_get_decision_def Let_def)
  qed
  show "ec_tokens N task y t = (if ec_waits (ex_threads y t) \<and> length (ex_exits y) = ex_attached y then 1 else 0)" if "t < N" for t by (rule I(5)[OF that])
  show "ex_threads y t \<noteq> EcFailed" if "t < N" for t by (rule I(6)[OF that])
  show "\<exists>z. ec_step N task y z \<and> ex_threads z t = EcIdle" if t: "t < N" "ex_threads y t = EcSignalling ts j" for t ts j
  proof -
    obtain u where "send_signal N task ts j (ex_signals y) = Some ((ex_signals y)(u := True))" by (rule ec_inv_signal[OF inv t]) blast
    from ec_step.signal[OF t this] show ?thesis by (auto simp: ex_set_def)
  qed
qed

text \<open>A task is attached and ready, another waits for it, and it exits with 7.\<close>

definition example_exit_task :: "nat \<Rightarrow> spurs_task" where
  "example_exit_task t = \<lparr>task_taskset = 0x2000, task_id = of_nat t, task_wkl = 0\<rparr>"

definition example_container :: exit_code_line where
  "example_container = \<lparr>ec_state = 0, ec_code = 0, ec_waiter_taskset = 0, ec_waiter_id = 0, ec_task_id = 0, ec_spurs = 0, ec_task_taskset = 0\<rparr>"

definition example_exit_start :: ec_sys where
  "example_exit_start = \<lparr>ex_line = example_container, ex_signals = (\<lambda>_. False), ex_threads = (\<lambda>_. EcIdle), ex_attached = 0, ex_readied = 0,
     ex_exits = [], ex_got = []\<rparr>"

definition example_exit_end :: ec_sys where
  "example_exit_end = \<lparr>ex_line = example_container\<lparr>ec_state := 0x20007, ec_code := 7, ec_waiter_taskset := 0x2000, ec_task_taskset := 0x2000, ec_task_id := 1\<rparr>,
     ex_signals = (\<lambda>_. False), ex_threads = (\<lambda>_. EcIdle)(0 := EcBlocked, 1 := EcSignalling 0x2000 0), ex_attached = 1, ex_readied = 1,
     ex_exits = [Inr 7], ex_got = []\<rparr>"

lemma example_exit_fresh: "ec_fresh 2 example_exit_task example_exit_start"
proof -
  have "cellSpursTaskExitCodeInitialize 0x80 = Inr example_container"
    by (simp add: cellSpursTaskExitCodeInitialize_def spurs_check_ea_def example_container_def)
  then have "\<exists>ea. cellSpursTaskExitCodeInitialize ea = Inr (ex_line example_exit_start)" by (metis ec_sys.select_convs(1) example_exit_start_def)
  moreover have "distinct_tasks 2 example_exit_task"
    by (simp add: distinct_tasks_def example_exit_task_def numeral_2_eq_2 less_Suc_eq)
  ultimately show ?thesis by (simp add: ec_fresh_def example_exit_start_def)
qed

lemma example_exit_run: "(ec_step 2 example_exit_task)\<^sup>*\<^sup>* example_exit_start example_exit_end"
proof -
  let ?R = "ec_step 2 example_exit_task"
  let ?l1 = "example_container\<lparr>ec_state := 1, ec_task_taskset := 0x2000, ec_task_id := 1\<rparr>"
  let ?l3 = "?l1\<lparr>ec_state := 0x20003, ec_waiter_taskset := 0x2000, ec_waiter_id := 0\<rparr>"
  let ?a = "example_exit_start\<lparr>ex_line := ?l1, ex_attached := 1\<rparr>"
  let ?b = "?a\<lparr>ex_line := ?l1\<lparr>ec_state := 3\<rparr>, ex_readied := 1\<rparr>"
  let ?c = "ex_set 0 EcBlocked (?b\<lparr>ex_line := ?l3\<rparr>)"
  have s1: "?R example_exit_start ?a"
    using ec_step.attach[of "0x2000" 1 example_exit_start ?l1 2 example_exit_task]
    by (simp add: ec_attach_decision_def example_exit_start_def example_container_def)
  have s2: "?R ?a ?b"
    using ec_step.ready[of ?a False "?l1\<lparr>ec_state := 3\<rparr>" 2 example_exit_task]
    by (simp add: ec_ready_decision_def Let_def example_exit_start_def example_container_def)
  have s3: "?R ?b ?c"
    using ec_step.get_wait[of 0 2 ?b True example_exit_task ?l3]
    by (simp add: ec_get_decision_def Let_def example_exit_start_def example_container_def example_exit_task_def)
  have s4: "?R ?c example_exit_end"
    using ec_step.exit[of 1 2 ?c 7 False "?l3\<lparr>ec_state := 0x20007, ec_code := 7\<rparr>" "\<lparr>ec_wake_task = Some (0x2000, 0), ec_wake_spurs = None\<rparr>" example_exit_task]
    by (simp add: ec_set_decision_def Let_def ex_set_def example_exit_start_def example_container_def example_exit_end_def)
  have "?R\<^sup>*\<^sup>* ?c example_exit_end" using s4 by (rule r_into_rtranclp)
  with s3 have "?R\<^sup>*\<^sup>* ?b example_exit_end" by (rule converse_rtranclp_into_rtranclp)
  with s2 have "?R\<^sup>*\<^sup>* ?a example_exit_end" by (rule converse_rtranclp_into_rtranclp)
  with s1 show ?thesis by (rule converse_rtranclp_into_rtranclp)
qed

theorem exit_codes_delivered_once_witness:
  "ec_tokens 2 example_exit_task example_exit_end 0 = 1 \<and> ec_attach_decision 0x2000 1 (ex_line example_exit_end) = Return (Inl SP_BUSY)"
proof -
  have e: "ex_threads example_exit_end 0 = EcBlocked" "length (ex_exits example_exit_end) = ex_attached example_exit_end"
    "ex_attached example_exit_end \<noteq> length (ex_got example_exit_end)" by (simp_all add: example_exit_end_def)
  show ?thesis
    using exit_codes_delivered_once[OF example_exit_run example_exit_fresh, where taskset = "0x2000" and i = 1] e
    by (metis ec_waits.simps(1) zero_less_numeral)
qed

end
