(* ===== verification/Spurs_Ls_Pattern.thy ===== *)
theory Spurs_Ls_Pattern
  imports Spurs_Base
begin

text \<open>
  \<open>sdk/libspurs_task/src/spurs_ls_pattern.c\<close>: the sets of 2 KB blocks of local storage that are saved when a task is
  switched out, and their computation from the program headers of the task's ELF image.
\<close>

section \<open>Patterns\<close>

text \<open>A pattern is a vector of four words, block 0 in the most significant bit of the first.\<close>

type_synonym ls_pattern = "u32 list"

definition block_in :: "ls_pattern \<Rightarrow> nat \<Rightarrow> bool" where
  "block_in p b \<longleftrightarrow> bit (p ! (b div 32)) (31 - b mod 32)"

definition popcount :: "u32 \<Rightarrow> u32" where
  "popcount w = of_nat (length (filter (bit w) [0..<32]))"

definition ls_blocks :: "ls_pattern \<Rightarrow> u32" where
  "ls_blocks v = fold (\<lambda>i n. n + popcount (v ! i)) [0..<4] 0"

definition ls_block_word :: "u32 \<Rightarrow> u32 \<Rightarrow> nat \<Rightarrow> u32" where
  "ls_block_word first stop k =
     (let lo = sint first - 32 * int k; hi = sint stop - 32 * int k;
          lo = (if lo < 0 then 0 else lo); hi = (if hi > 32 then 32 else hi)
      in if lo \<ge> hi then 0 else drop_bit (nat lo) 0xffffffff AND NOT (if hi = 32 then 0 else drop_bit (nat hi) 0xffffffff))"

definition block_range :: "u32 \<Rightarrow> u32 \<Rightarrow> ls_pattern" where
  "block_range first stop = map (ls_block_word first stop) [0..<4]"

abbreviation (input) LS_SIZE :: u32 where "LS_SIZE \<equiv> 0x40000"
abbreviation (input) SPURS_AREA :: u32 where "SPURS_AREA \<equiv> 0xfc000000"

text \<open>The words of the policy module's copy of the task record that the calls use, and the quadwords of main memory.\<close>

record ls_context =
  pm_module_id :: u16
  ctx_alloc :: u32
  ctx_pattern :: ls_pattern
  ctx_taskset :: u64
  ctx_task_id :: u32
  ctx_memory :: "u64 \<Rightarrow> ls_pattern"

definition cellSpursContextGetLsPattern :: "ls_context \<Rightarrow> ls_pattern" where
  "cellSpursContextGetLsPattern c = ctx_pattern c"

definition cellSpursContextSetLsPattern :: "ls_pattern \<Rightarrow> ls_context \<Rightarrow> (spurs_error + unit) \<times> ls_context" where
  "cellSpursContextSetLsPattern p c =
     (if pm_module_id c \<noteq> 0x544b then (Inl SP_PERM, c)
      else if p ! 0 AND SPURS_AREA \<noteq> 0 \<or> ls_blocks p > ctx_alloc c AND 0x7f then (Inl SP_INVAL, c)
      else let ea = ctx_taskset c + 0x80 + 0x20 + ucast (ctx_task_id c) * 0x30
           in (Inr (), c\<lparr>ctx_pattern := p, ctx_memory := (ctx_memory c)(ea := p)\<rparr>))"

definition cellSpursTaskGenerateLsPattern :: "bool \<Rightarrow> u32 \<Rightarrow> u32 \<Rightarrow> spurs_error + ls_pattern" where
  "cellSpursTaskGenerateLsPattern given start sz =
     (if \<not> given then Inl SP_NULL_POINTER
      else if (start OR sz) AND 2047 \<noteq> 0 then Inl SP_ALIGN
      else if start + sz > LS_SIZE then Inl SP_INVAL
      else Inr (block_range (drop_bit 11 start) (drop_bit 11 (start + sz))))"

definition cellSpursTaskGetContextSaveAreaSize :: "ls_pattern \<Rightarrow> spurs_error + u32" where
  "cellSpursTaskGetContextSaveAreaSize p =
     (if p ! 0 AND SPURS_AREA \<noteq> 0 then Inl SP_INVAL else Inr (push_bit 11 (ls_blocks p) + 1024))"

section \<open>Program headers\<close>

definition s_ident :: "u8 list" where
  "s_ident = [0x7f, 0x45, 0x4c, 0x46, 1, 2, 1, 0, 0, 0, 0, 0, 0, 0, 0, 0]"

text \<open>Reads of the fetched bytes; \<open>None\<close> is a read outside them.\<close>

definition rd8 :: "u8 list \<Rightarrow> nat \<Rightarrow> u8 option" where
  "rd8 h i = (if i < length h then Some (h ! i) else None)"

definition be16 :: "u8 list \<Rightarrow> nat \<Rightarrow> u32 option" where
  "be16 h i = (case (rd8 h i, rd8 h (i + 1)) of
     (Some a, Some b) \<Rightarrow> Some (push_bit 8 (ucast a) OR ucast b) | _ \<Rightarrow> None)"

definition be32 :: "u8 list \<Rightarrow> nat \<Rightarrow> u32 option" where
  "be32 h i = (case (rd8 h i, rd8 h (i + 1), rd8 h (i + 2), rd8 h (i + 3)) of
     (Some a, Some b, Some c, Some d) \<Rightarrow> Some (push_bit 24 (ucast a) OR push_bit 16 (ucast b) OR push_bit 8 (ucast c) OR ucast d)
   | _ \<Rightarrow> None)"

definition dma_get :: "(u64 \<Rightarrow> u8) \<Rightarrow> u64 \<Rightarrow> nat \<Rightarrow> u8 list" where
  "dma_get mem ea n = map (\<lambda>i. mem (ea + of_nat i)) [0..<n]"

text \<open>The size of the headers of an image, from its first 128 bytes.\<close>

definition headers_total :: "u8 list \<Rightarrow> u32" where
  "headers_total h = (the (be16 h 0x2c) * the (be16 h 0x2a) + the (be32 h 0x1c) + 127) AND NOT 127"

definition cellSpursTaskDmaGetProgramHeader :: "(u64 \<Rightarrow> u8) \<Rightarrow> u64 \<Rightarrow> u32 \<Rightarrow> u32 \<Rightarrow> spurs_error + u8 list" where
  "cellSpursTaskDmaGetProgramHeader mem eaElf buf tag =
     (if tag > 31 then Inl SP_INVAL
      else if eaElf = 0 \<or> buf = 0 then Inl SP_NULL_POINTER
      else if buf AND 15 \<noteq> 0 \<or> eaElf AND 15 \<noteq> 0 then Inl SP_ALIGN
      else let h = dma_get mem eaElf 128
        in if \<exists>i \<in> set [0..<16]. h ! i \<noteq> s_ident ! i then Inl SP_NOEXEC
           else if the (be16 h 0x12) \<noteq> 23 \<or> the (be32 h 0x18) < 0x3000 then Inl SP_NOEXEC
           else let total = headers_total h
             in if total > 0x300 then Inl SP_NOMEM
                else Inr (h @ (if total > 128 then dma_get mem (eaElf + 128) (unat (total - 128)) else [])))"

text \<open>One program header: an error, or the pattern with what it adds; \<open>None\<close> when it is not within the fetched bytes.\<close>

definition or_pattern :: "ls_pattern \<Rightarrow> ls_pattern \<Rightarrow> ls_pattern" where
  "or_pattern p q = map2 (OR) p q"

definition segment_pattern :: "bool \<Rightarrow> u8 list \<Rightarrow> nat \<Rightarrow> ls_pattern \<Rightarrow> (spurs_error + ls_pattern) option" where
  "segment_pattern loadable h ph pattern =
     Option.bind (be32 h (ph + 8)) (\<lambda>vaddr. Option.bind (be32 h (ph + 16)) (\<lambda>filesz. Option.bind (be32 h (ph + 20)) (\<lambda>memsz.
       if vaddr + memsz > LS_SIZE then Some (Inl SP_INVAL)
       else Option.bind (be32 h ph) (\<lambda>ptype.
         if ptype \<noteq> 1 then Some (Inr pattern)
         else Option.bind (be32 h (ph + 12)) (\<lambda>paddr.
           if paddr \<ge> LS_SIZE then Some (Inr pattern)
           else if loadable
           then Some (Inr (or_pattern pattern (block_range (drop_bit 11 vaddr) (drop_bit 11 (vaddr + memsz + 2047)))))
           else Option.bind (be32 h (ph + 24)) (\<lambda>flags.
             if flags AND 2 = 0
             then Some (Inr (or_pattern pattern (block_range (drop_bit 11 (vaddr + 2047)) (drop_bit 11 (vaddr + filesz)))))
             else Some (Inr pattern)))))))"

fun segments_pattern :: "bool \<Rightarrow> u8 list \<Rightarrow> nat \<Rightarrow> nat \<Rightarrow> nat \<Rightarrow> ls_pattern \<Rightarrow> (spurs_error + ls_pattern) option" where
  "segments_pattern loadable h 0 step ph pattern = Some (Inr pattern)"
| "segments_pattern loadable h (Suc n) step ph pattern =
     (case segment_pattern loadable h ph pattern of
        Some (Inr pattern') \<Rightarrow> segments_pattern loadable h n step (ph + step) pattern'
      | r \<Rightarrow> r)"

text \<open>The stack buffer stands in for a missing one; its address \<open>local\<close> is aligned.\<close>

definition headers_pattern :: "bool \<Rightarrow> (u64 \<Rightarrow> u8) \<Rightarrow> bool \<Rightarrow> u64 \<Rightarrow> u32 \<Rightarrow> u32 \<Rightarrow> u32 \<Rightarrow> (spurs_error + ls_pattern) option" where
  "headers_pattern loadable mem given eaElf local buf tag =
     (if \<not> given then Some (Inl SP_NULL_POINTER)
      else case cellSpursTaskDmaGetProgramHeader mem eaElf (if buf = 0 then local else buf) tag of
        Inl e \<Rightarrow> Some (Inl e)
      | Inr h \<Rightarrow> segments_pattern loadable h (unat (the (be16 h 0x2c))) (unat (the (be16 h 0x2a))) (unat (the (be32 h 0x1c))) [0, 0, 0, 0])"

definition cellSpursTaskGetReadOnlyAreaPattern where "cellSpursTaskGetReadOnlyAreaPattern = headers_pattern False"
definition cellSpursTaskGetLoadableSegmentPattern where "cellSpursTaskGetLoadableSegmentPattern = headers_pattern True"

section \<open>Blocks\<close>

lemma bit_ones: "bit (drop_bit k (0xffffffff :: u32)) i \<longleftrightarrow> i + k < 32"
proof -
  have e: "(0xffffffff :: u32) = mask 32" by (simp add: mask_eq_exp_minus_1)
  show ?thesis unfolding e by (auto simp: bit_drop_bit_eq bit_mask_iff add.commute)
qed

lemma bit_ls_block_word:
  assumes "j < 32"
  shows "bit (ls_block_word first stop k) (31 - j) \<longleftrightarrow> sint first \<le> 32 * int k + int j \<and> 32 * int k + int j < sint stop"
proof -
  define lo where "lo = (if sint first - 32 * int k < 0 then 0 else sint first - 32 * int k)"
  define hi where "hi = (if sint stop - 32 * int k > 32 then 32 else sint stop - 32 * int k)"
  have w: "ls_block_word first stop k = (if lo \<ge> hi then 0 else drop_bit (nat lo) 0xffffffff AND NOT (if hi = 32 then 0 else drop_bit (nat hi) 0xffffffff))"
    by (simp add: ls_block_word_def lo_def hi_def Let_def)
  have r: "sint first \<le> 32 * int k + int j \<and> 32 * int k + int j < sint stop \<longleftrightarrow> lo \<le> int j \<and> int j < hi"
    using assms by (auto simp: lo_def hi_def)
  have "0 \<le> lo" "hi \<le> 32" by (simp_all add: lo_def hi_def)
  then show ?thesis
    unfolding r w using assms by (auto simp: bit_and_iff bit_not_iff bit_ones)
qed

lemma block_range_in:
  assumes "b < 128"
  shows "block_in (block_range first stop) b \<longleftrightarrow> sint first \<le> int b \<and> int b < sint stop"
proof -
  have "b div 32 < 4" using assms by (simp add: less_mult_imp_div_less)
  then have "block_range first stop ! (b div 32) = ls_block_word first stop (b div 32)" by (simp add: block_range_def)
  moreover have "32 * int (b div 32) + int (b mod 32) = int b" by (metis mult_div_mod_eq of_nat_add of_nat_mult of_nat_numeral)
  ultimately show ?thesis using bit_ls_block_word[of "b mod 32" first stop "b div 32"] by (simp add: block_in_def)
qed

lemma unat_block: "unat (drop_bit 11 w :: u32) = unat w div 2048" "sint (drop_bit 11 w :: u32) = int (unat w div 2048)"
proof -
  show u: "unat (drop_bit 11 w) = unat w div 2048" using unat_shiftr[of 11 w] by simp
  have "unat w < 2 ^ 32" by (rule unat_u32_less)
  then have "unat w div 2048 < 2 ^ 31" by simp
  then have "uint (drop_bit 11 w) < 2 ^ 31" using u by (simp add: uint_nat)
  then have "signed_take_bit 31 (uint (drop_bit 11 w)) = uint (drop_bit 11 w)" by (intro signed_take_bit_int_eq_self) (simp_all add: order_trans[OF _ uint_nonnegative])
  then have "sint (drop_bit 11 w) = uint (drop_bit 11 w)" by (simp add: sint_uint)
  then show "sint (drop_bit 11 w) = int (unat w div 2048)" using u by (simp add: uint_nat)
qed

lemma popcount_unat: "unat (popcount w) = length (filter (bit w) [0..<32])"
proof -
  have "length (filter (bit w) [0..<32]) \<le> 32" by (metis length_filter_le length_upt minus_nat.diff_0)
  then show ?thesis by (simp add: popcount_def unat_of_nat take_bit_eq_mod)
qed

lemma block_count: "length (filter (block_in p) [0..<128]) = (\<Sum>k<4. length (filter (bit (p ! k)) [0..<32]))"
proof -
  have row: "length (filter (block_in p) (map (\<lambda>j. 32 * k + j) [0..<32])) = length (filter (bit (p ! k)) [0..<32])" for k
  proof -
    have "filter (block_in p) (map (\<lambda>j. 32 * k + j) [0..<32]) = map (\<lambda>j. 32 * k + j) (filter (\<lambda>j. bit (p ! k) (31 - j)) [0..<32])"
      unfolding filter_map by (intro arg_cong[where f = "map _"] filter_cong) (simp_all add: block_in_def)
    then have "length (filter (block_in p) (map (\<lambda>j. 32 * k + j) [0..<32])) = length (filter (\<lambda>j. bit (p ! k) (31 - j)) [0..<32])" by simp
    also have "\<dots> = length (filter (bit (p ! k)) (map (\<lambda>j. 31 - j) [0..<32]))" by (simp add: filter_map comp_def)
    also have "map (\<lambda>j. 31 - j) [0..<32] = rev [0..<32 :: nat]" by code_simp
    finally show ?thesis by (simp add: rev_filter[symmetric])
  qed
  have "[0..<128 :: nat] = concat (map (\<lambda>k. map (\<lambda>j. 32 * k + j) [0..<32]) [0..<4])" by code_simp
  then have "length (filter (block_in p) [0..<128]) = sum_list (map (\<lambda>k. length (filter (block_in p) (map (\<lambda>j. 32 * k + j) [0..<32]))) [0..<4])"
    by (simp add: filter_concat length_concat comp_def del: upt.simps)
  also have "\<dots> = (\<Sum>k<4. length (filter (bit (p ! k)) [0..<32]))"
    unfolding row by (simp add: interv_sum_list_conv_sum_set_nat atLeast0LessThan)
  finally show ?thesis .
qed

lemma ls_blocks_unat: "unat (ls_blocks p) = card {b. b < 128 \<and> block_in p b}"
proof -
  have four: "(\<Sum>k<4. f k) = f 0 + f 1 + f 2 + f 3" for f :: "nat \<Rightarrow> nat" by (simp add: numeral_eq_Suc lessThan_Suc)
  have "[0..<4] = [0, 1, 2, 3 :: nat]" by code_simp
  then have "ls_blocks p = of_nat (\<Sum>k<4. length (filter (bit (p ! k)) [0..<32]))"
    unfolding four ls_blocks_def by (simp add: popcount_def del: upt.simps)
  then have "ls_blocks p = of_nat (length (filter (block_in p) [0..<128]))" by (simp only: block_count)
  moreover have "length (filter (block_in p) [0..<128]) \<le> 128" by (metis length_filter_le length_upt minus_nat.diff_0)
  ultimately have "unat (ls_blocks p) = length (filter (block_in p) [0..<128])" by (simp add: unat_of_nat take_bit_eq_mod)
  also have "\<dots> = card (set (filter (block_in p) [0..<128]))" by (rule distinct_card[symmetric]) simp
  also have "set (filter (block_in p) [0..<128]) = {b. b < 128 \<and> block_in p b}" by auto
  finally show ?thesis .
qed

lemma spurs_area: "p ! 0 AND SPURS_AREA \<noteq> 0 \<longleftrightarrow> (\<exists>b < 6. block_in p b)"
proof -
  have m: "(SPURS_AREA :: u32) = push_bit 26 (mask 6)" by (simp add: mask_eq_exp_minus_1 push_bit_eq_mult)
  have a: "bit (p ! 0 AND SPURS_AREA) i \<longleftrightarrow> bit (p ! 0) i \<and> 26 \<le> i \<and> i < 32" for i
    unfolding m by (auto simp: bit_and_iff bit_push_bit_iff bit_mask_iff)
  show ?thesis
  proof
    assume "p ! 0 AND SPURS_AREA \<noteq> 0"
    then obtain i where i: "bit (p ! 0) i" "26 \<le> i" "i < 32" using a by (metis bit_0_eq bit_eqI bot_apply bot_bool_def)
    then have "31 - i < 6 \<and> block_in p (31 - i)" by (auto simp: block_in_def)
    then show "\<exists>b < 6. block_in p b" by blast
  next
    assume "\<exists>b < 6. block_in p b"
    then obtain b where b: "b < 6" "bit (p ! 0) (31 - b)" by (auto simp: block_in_def)
    have "26 \<le> 31 - b" "31 - b < 32" using b(1) by arith+
    then have "bit (p ! 0 AND SPURS_AREA) (31 - b)" using a b(2) by blast
    then show "p ! 0 AND SPURS_AREA \<noteq> 0" by (metis bit_0_eq bot_apply bot_bool_def)
  qed
qed

section \<open>The pattern of a range\<close>

lemma aligned_iff: "(w :: u32) AND 2047 = 0 \<longleftrightarrow> 2048 dvd unat w"
proof -
  have e: "(2047 :: u32) = mask 11" by (simp add: mask_eq_exp_minus_1)
  have "w AND 2047 = 0 \<longleftrightarrow> unat (w AND mask 11) = 0" unfolding e by (simp add: unat_eq_0)
  also have "\<dots> \<longleftrightarrow> 2048 dvd unat w" unfolding unat_and_mask by (simp add: mod_eq_0_iff_dvd)
  finally show ?thesis .
qed

lemma or_aligned_iff: "((v :: u32) OR w) AND 2047 = 0 \<longleftrightarrow> 2048 dvd unat v \<and> 2048 dvd unat w"
proof -
  have "(v OR w) AND 2047 = (v AND 2047) OR (w AND 2047)" by (rule bit_word_eqI) (auto simp: bit_simps)
  then show ?thesis by (simp add: aligned_iff[symmetric] or_eq_0_iff)
qed

text \<open>Where the end of a range of local storage is representable, the pattern generated for it holds exactly the blocks of
  the range, for an aligned range within the 256 KB and for no other; the save area it needs is the size of the range and
  the execution context, and is refused when the range begins in the blocks of SPURS.\<close>

theorem ls_pattern_of_range:
  assumes "unat start + unat sz < 2 ^ 32"
  shows "(case cellSpursTaskGenerateLsPattern True start sz of
      Inl e \<Rightarrow> if 2048 dvd unat start \<and> 2048 dvd unat sz then e = SP_INVAL \<and> unat start + unat sz > 0x40000 else e = SP_ALIGN
    | Inr p \<Rightarrow> 2048 dvd unat start \<and> 2048 dvd unat sz \<and> unat start + unat sz \<le> 0x40000 \<and>
        (\<forall>b < 128. block_in p b \<longleftrightarrow> unat start \<le> 2048 * b \<and> 2048 * b + 2048 \<le> unat start + unat sz) \<and>
        cellSpursTaskGetContextSaveAreaSize p = (if unat start < 0x3000 \<and> sz \<noteq> 0 then Inl SP_INVAL else Inr (sz + 1024)))"
proof -
  have sum: "unat (start + sz) = unat start + unat sz" using assms by (intro unat_plus_small) simp
  show ?thesis
  proof (cases "2048 dvd unat start \<and> 2048 dvd unat sz \<and> unat start + unat sz \<le> 0x40000")
    case False
    then show ?thesis using sum by (auto simp: cellSpursTaskGenerateLsPattern_def or_aligned_iff word_less_nat_alt)
  next
    case True
    obtain m n where mn: "unat start = 2048 * m" "unat sz = 2048 * n" using True by (auto elim!: dvdE)
    have le: "m + n \<le> 128" using True mn by simp
    define p where "p = block_range (drop_bit 11 start) (drop_bit 11 (start + sz))"
    have gen: "cellSpursTaskGenerateLsPattern True start sz = Inr p"
      using True sum by (simp add: cellSpursTaskGenerateLsPattern_def or_aligned_iff word_less_nat_alt p_def)
    have ends: "sint (drop_bit 11 start) = int m" "sint (drop_bit 11 (start + sz)) = int (m + n)" unfolding unat_block(2) sum mn by simp_all
    have mem: "block_in p b \<longleftrightarrow> m \<le> b \<and> b < m + n" if "b < 128" for b
      unfolding p_def block_range_in[OF that] ends by presburger
    have "{b. b < 128 \<and> block_in p b} = {m..<m + n}" using mem le by auto
    then have count: "unat (ls_blocks p) = n" by (simp add: ls_blocks_unat)
    have "unat (push_bit 11 (ls_blocks p)) = unat sz" using le mn(2) by (subst unat_shiftl_small) (simp_all add: count)
    then have area: "push_bit 11 (ls_blocks p) = sz" by (simp add: word_unat_eq_iff)
    have "(\<exists>b < 6. block_in p b) \<longleftrightarrow> unat start < 0x3000 \<and> sz \<noteq> 0"
    proof
      assume "\<exists>b < 6. block_in p b"
      then obtain b where "b < 6" "block_in p b" by blast
      then show "unat start < 0x3000 \<and> sz \<noteq> 0" using mem[of b] mn by (auto simp: unat_eq_0[symmetric])
    next
      assume a: "unat start < 0x3000 \<and> sz \<noteq> 0"
      then have "m < 6 \<and> 0 < n" using mn by (auto simp: unat_gt_0[symmetric])
      then show "\<exists>b < 6. block_in p b" using mem[of m] by (intro exI[of _ m]) simp
    qed
    then have "cellSpursTaskGetContextSaveAreaSize p = (if unat start < 0x3000 \<and> sz \<noteq> 0 then Inl SP_INVAL else Inr (sz + 1024))"
      unfolding cellSpursTaskGetContextSaveAreaSize_def spurs_area area by simp
    then show ?thesis using gen True mem mn by (auto simp: gen)
  qed
qed

theorem ls_pattern_of_range_witness:
  "cellSpursTaskGetContextSaveAreaSize (block_range 6 8) = Inr 0x1400 \<and> block_in (block_range 6 8) 7"
proof -
  have "cellSpursTaskGenerateLsPattern True 0x3000 0x1000 = Inr (block_range 6 8)" by (simp add: cellSpursTaskGenerateLsPattern_def)
  then show ?thesis using ls_pattern_of_range[of "0x3000" "0x1000"] by simp
qed

section \<open>Patterns from headers\<close>

text \<open>The fields of a program header that lies within the fetched bytes, and the blocks a segment adds.\<close>

definition field :: "u8 list \<Rightarrow> nat \<Rightarrow> nat" where "field h i = unat (the (be32 h i))"

definition segment_loads :: "u8 list \<Rightarrow> nat \<Rightarrow> bool" where
  "segment_loads h ph \<longleftrightarrow> field h ph = 1 \<and> field h (ph + 12) < 0x40000"

definition segment_covers :: "bool \<Rightarrow> u8 list \<Rightarrow> nat \<Rightarrow> nat \<Rightarrow> bool" where
  "segment_covers loadable h ph b \<longleftrightarrow> segment_loads h ph \<and>
     (if loadable then field h (ph + 8) div 2048 \<le> b \<and> 2048 * b < field h (ph + 8) + field h (ph + 20)
      else even (field h (ph + 24) div 2) \<and> field h (ph + 8) \<le> 2048 * b \<and> 2048 * b + 2048 \<le> field h (ph + 8) + field h (ph + 16))"

definition segment_fits :: "u8 list \<Rightarrow> nat \<Rightarrow> bool" where
  "segment_fits h ph \<longleftrightarrow> field h (ph + 8) + field h (ph + 20) \<le> 0x40000"

text \<open>What is assumed of a header: its end is representable, and the file image is within the memory image.\<close>

definition segment_sane :: "u8 list \<Rightarrow> nat \<Rightarrow> bool" where
  "segment_sane h ph \<longleftrightarrow> field h (ph + 8) + field h (ph + 20) < 2 ^ 32 \<and> field h (ph + 16) \<le> field h (ph + 20)"

lemma be32_within: "i + 4 \<le> length h \<Longrightarrow> be32 h i = Some (the (be32 h i))"
  by (simp add: be32_def rd8_def)

lemma or_pattern_in: "length p = 4 \<Longrightarrow> length q = 4 \<Longrightarrow> b < 128 \<Longrightarrow> block_in (or_pattern p q) b \<longleftrightarrow> block_in p b \<or> block_in q b"
  by (simp add: or_pattern_def block_in_def bit_or_iff less_mult_imp_div_less)

lemma flag_write: "(w :: u32) AND 2 = 0 \<longleftrightarrow> even (unat w div 2)"
proof -
  have "w AND 2 = 0 \<longleftrightarrow> \<not> bit w 1"
  proof -
    have "(2 :: u32) = push_bit 1 1" by simp
    then show ?thesis using bit_iff_and_push_bit_not_eq_0[of w 1] by simp
  qed
  also have "\<dots> \<longleftrightarrow> \<not> bit (unat w) 1" by (simp add: bit_unsigned_iff)
  also have "\<dots> \<longleftrightarrow> even (unat w div 2)" by (simp add: bit_iff_odd)
  finally show ?thesis .
qed

lemma block_range_length: "length (block_range first stop) = 4"
  by (simp add: block_range_def)

lemma segment_pattern_spec:
  assumes "ph + 28 \<le> length h" "segment_sane h ph" "length pattern = 4"
  shows "if segment_fits h ph
    then \<exists>p. segment_pattern loadable h ph pattern = Some (Inr p) \<and> length p = 4 \<and>
      (\<forall>b < 128. block_in p b \<longleftrightarrow> block_in pattern b \<or> segment_covers loadable h ph b)
    else segment_pattern loadable h ph pattern = Some (Inl SP_INVAL)"
proof -
  obtain vaddr filesz memsz ptype paddr flags
    where r: "be32 h (ph + 8) = Some vaddr" "be32 h (ph + 16) = Some filesz" "be32 h (ph + 20) = Some memsz"
      "be32 h ph = Some ptype" "be32 h (ph + 12) = Some paddr" "be32 h (ph + 24) = Some flags"
    using assms(1) be32_within[of "ph + 8" h] be32_within[of "ph + 16" h] be32_within[of "ph + 20" h] be32_within[of ph h]
      be32_within[of "ph + 12" h] be32_within[of "ph + 24" h] by simp
  have f: "field h (ph + 8) = unat vaddr" "field h (ph + 16) = unat filesz" "field h (ph + 20) = unat memsz"
      "field h ph = unat ptype" "field h (ph + 12) = unat paddr" "field h (ph + 24) = unat flags"
    by (simp_all add: field_def r)
  have sane: "unat vaddr + unat memsz < 2 ^ 32" "unat filesz \<le> unat memsz" using assms(2) by (simp_all add: segment_sane_def f)
  have sum: "unat (vaddr + memsz) = unat vaddr + unat memsz" using sane by (intro unat_plus_small) simp
  show ?thesis
  proof (cases "segment_fits h ph")
    case False
    then have "\<not> unat (vaddr + memsz) \<le> 0x40000" by (simp only: segment_fits_def f sum) simp
    then have "vaddr + memsz > LS_SIZE" by (simp add: word_less_nat_alt)
    then show ?thesis using False r by (simp add: segment_pattern_def)
  next
    case True
    then have le: "unat vaddr + unat memsz \<le> 0x40000" by (simp add: segment_fits_def f)
    then have fits: "\<not> vaddr + memsz > LS_SIZE" by (simp add: sum word_less_nat_alt)
    have loads: "segment_loads h ph \<longleftrightarrow> ptype = 1 \<and> \<not> paddr \<ge> LS_SIZE"
      by (simp add: segment_loads_def f word_le_nat_alt word_unat_eq_iff not_le)
    have writes: "even (field h (ph + 24) div 2) \<longleftrightarrow> flags AND 2 = 0" by (simp only: f flag_write)
    show ?thesis
    proof (cases "segment_loads h ph \<and> (loadable \<or> even (field h (ph + 24) div 2))")
      case False
      then have "segment_pattern loadable h ph pattern = Some (Inr pattern)"
        using r fits unfolding loads writes by (auto simp: segment_pattern_def)
      then show ?thesis using True False assms(3) by (auto simp: segment_covers_def)
    next
      case covers: True
      define q where "q = (if loadable then block_range (drop_bit 11 vaddr) (drop_bit 11 (vaddr + memsz + 2047))
        else block_range (drop_bit 11 (vaddr + 2047)) (drop_bit 11 (vaddr + filesz)))"
      have p: "segment_pattern loadable h ph pattern = Some (Inr (or_pattern pattern q))"
        using r fits covers unfolding loads writes by (auto simp: segment_pattern_def q_def)
      have up: "unat (vaddr + memsz + 2047) = unat vaddr + unat memsz + 2047" "unat (vaddr + 2047) = unat vaddr + 2047"
          "unat (vaddr + filesz) = unat vaddr + unat filesz"
        using le sane sum by (simp_all add: unat_plus_small)
      have "block_in q b \<longleftrightarrow> segment_covers loadable h ph b" if "b < 128" for b
        using covers unfolding q_def segment_covers_def f
        by (cases loadable) (simp_all add: block_range_in[OF that] unat_block(2) up, linarith+)
      moreover have q: "length q = 4" by (simp add: q_def block_range_length)
      moreover have "length (or_pattern pattern q) = 4" using assms(3) q by (simp add: or_pattern_def)
      ultimately show ?thesis using True p assms(3) by (simp add: or_pattern_in)
    qed
  qed
qed

lemma segments_pattern_spec:
  assumes "\<And>i. i < n \<Longrightarrow> ph + i * step + 28 \<le> length h \<and> segment_sane h (ph + i * step)" "length pattern = 4"
  shows "if \<forall>i < n. segment_fits h (ph + i * step)
    then \<exists>p. segments_pattern loadable h n step ph pattern = Some (Inr p) \<and>
      (\<forall>b < 128. block_in p b \<longleftrightarrow> block_in pattern b \<or> (\<exists>i < n. segment_covers loadable h (ph + i * step) b))
    else segments_pattern loadable h n step ph pattern = Some (Inl SP_INVAL)"
  using assms
proof (induction n arbitrary: ph pattern)
  case 0
  then show ?case by simp
next
  case (Suc n)
  have first: "ph + 28 \<le> length h" "segment_sane h ph" using Suc.prems(1)[of 0] by simp_all
  have rest: "ph + step + i * step + 28 \<le> length h \<and> segment_sane h (ph + step + i * step)" if "i < n" for i
    using Suc.prems(1)[of "Suc i"] that by (simp add: add.assoc)
  have all: "(\<forall>i < Suc n. segment_fits h (ph + i * step)) \<longleftrightarrow> segment_fits h ph \<and> (\<forall>i < n. segment_fits h (ph + step + i * step))"
    by (simp add: All_less_Suc2 add.assoc)
  have some: "(\<exists>i < Suc n. segment_covers loadable h (ph + i * step) b) \<longleftrightarrow>
      segment_covers loadable h ph b \<or> (\<exists>i < n. segment_covers loadable h (ph + step + i * step) b)" for b
    by (simp add: Ex_less_Suc2 add.assoc)
  note one = segment_pattern_spec[OF first Suc.prems(2), of loadable]
  show ?case
  proof (cases "segment_fits h ph")
    case False
    then show ?thesis using one all by simp
  next
    case True
    then obtain p where p: "segment_pattern loadable h ph pattern = Some (Inr p)" "length p = 4"
        "\<forall>b < 128. block_in p b \<longleftrightarrow> block_in pattern b \<or> segment_covers loadable h ph b" using one by auto
    show ?thesis using Suc.IH[OF rest p(2)] p(1,3) True unfolding all some by auto
  qed
qed

lemma be16_append: "i + 2 \<le> length h \<Longrightarrow> be16 (h @ r) i = be16 h i"
  by (simp add: be16_def rd8_def nth_append)

lemma be32_append: "i + 4 \<le> length h \<Longrightarrow> be32 (h @ r) i = be32 h i"
  by (simp add: be32_def rd8_def nth_append)

lemma be16_less: "be16 h i = Some v \<Longrightarrow> unat v < 2 ^ 16"
proof -
  assume "be16 h i = Some v"
  then obtain a b where v: "v = push_bit 8 (ucast (a :: u8)) OR ucast (b :: u8)" by (auto simp: be16_def split: option.splits)
  have "take_bit 16 v = v" unfolding v by (rule bit_word_eqI) (auto simp: bit_simps dest: bit_imp_le_length)
  then have "unat v = take_bit 16 (unat v)" by (metis unsigned_take_bit_eq)
  then show ?thesis by (metis take_bit_nat_less_exp)
qed

lemma dma_get_length [simp]: "length (dma_get mem ea n) = n"
  by (simp add: dma_get_def)

lemma round_up_128: "unat w + 127 < 2 ^ 32 \<Longrightarrow> unat w \<le> unat ((w + 127) AND NOT 127 :: u32) \<and> unat ((w + 127) AND NOT 127 :: u32) < unat w + 128"
proof -
  assume a: "unat w + 127 < 2 ^ 32"
  have e: "(127 :: u32) = mask 7" by (simp add: mask_eq_exp_minus_1)
  have "unat (w + 127) = unat w + 127" using a by (subst unat_plus_small) simp_all
  then have "unat ((w + 127) AND NOT 127) = (unat w + 127) div 128 * 128" unfolding e unat_and_not_mask by (simp add: e[symmetric])
  moreover have "x \<le> (x + 127) div 128 * 128 \<and> (x + 127) div 128 * 128 < x + 128" for x :: nat
    using div_mult_mod_eq[of "x + 127" 128] mod_less_divisor[of 128 "x + 127"] by linarith
  ultimately show ?thesis by metis
qed

lemma fetched_headers:
  assumes "cellSpursTaskDmaGetProgramHeader mem eaElf buf tag = Inr h"
  defines "n \<equiv> unat (the (be16 h 0x2c))" and "step \<equiv> unat (the (be16 h 0x2a))" and "phoff \<equiv> field h 0x1c"
  shows "length h = max 128 (unat (headers_total h))" "length h \<le> 0x300"
    "phoff + n * step + 127 < 2 ^ 32 \<Longrightarrow> phoff + n * step \<le> length h"
proof -
  let ?h = "dma_get mem eaElf 128"
  obtain r where h: "h = ?h @ r" and r: "r = (if headers_total ?h > 128 then dma_get mem (eaElf + 128) (unat (headers_total ?h - 128)) else [])"
      and t: "\<not> headers_total ?h > 0x300"
    using assms(1) unfolding cellSpursTaskDmaGetProgramHeader_def Let_def by (auto split: if_splits)
  have e: "be16 h 0x2c = be16 ?h 0x2c" "be16 h 0x2a = be16 ?h 0x2a" "be32 h 0x1c = be32 ?h 0x1c"
    unfolding h by (simp_all add: be16_append be32_append)
  then have tot: "headers_total h = headers_total ?h" by (simp add: headers_total_def)
  show len: "length h = max 128 (unat (headers_total h))"
  proof -
    have "length h = 128 + length r" by (subst h) simp
    then show ?thesis unfolding tot r by (auto simp: word_less_nat_alt unat_sub word_le_nat_alt)
  qed
  show "length h \<le> 0x300" using len t tot by (simp add: word_less_nat_alt)
  show "phoff + n * step \<le> length h" if small: "phoff + n * step + 127 < 2 ^ 32"
  proof -
    obtain c s where cs: "be16 h 0x2c = Some c" "be16 h 0x2a = Some s" unfolding h by (simp add: be16_def rd8_def nth_append)
    let ?w = "c * s + the (be32 h 0x1c)"
    have "unat c * unat s \<le> (2 ^ 16 - 1) * (2 ^ 16 - 1)" using be16_less[OF cs(1)] be16_less[OF cs(2)] by (intro mult_mono) simp_all
    also have "\<dots> < (2 :: nat) ^ 32" by simp
    finally have "unat (c * s) = unat c * unat s" by (intro unat_times_small) simp
    then have "unat ?w = phoff + n * step" using small by (subst unat_plus_small) (simp_all add: phoff_def field_def n_def step_def cs)
    then have "phoff + n * step \<le> unat (headers_total h)" using round_up_128[of ?w] small by (simp add: headers_total_def cs)
    then show ?thesis using len by simp
  qed
qed

text \<open>C31: For an image whose header table ends below \<open>2 ^ 32\<close>, has entries that hold a program header, and segments that end
  below \<open>2 ^ 32\<close> with no more in the file than in memory, the walk reads only the bytes that were fetched, at most 768;
  it is refused exactly when a segment does not fit local storage; and the pattern holds exactly the blocks that a
  loadable segment touches, or those wholly in the file image of one that is not writable.\<close>

theorem headers_pattern_exact:
  assumes "cellSpursTaskDmaGetProgramHeader mem eaElf (if buf = 0 then local_buf else buf) tag = Inr h"
  defines "n \<equiv> unat (the (be16 h 0x2c))" and "step \<equiv> unat (the (be16 h 0x2a))" and "phoff \<equiv> field h 0x1c"
  assumes "28 \<le> step" "phoff + n * step + 127 < 2 ^ 32" "\<forall>i < n. segment_sane h (phoff + i * step)"
  shows "length h \<le> 0x300 \<and> (if \<forall>i < n. segment_fits h (phoff + i * step)
    then \<exists>p. headers_pattern loadable mem True eaElf local_buf buf tag = Some (Inr p) \<and>
      (\<forall>b < 128. block_in p b \<longleftrightarrow> (\<exists>i < n. segment_covers loadable h (phoff + i * step) b))
    else headers_pattern loadable mem True eaElf local_buf buf tag = Some (Inl SP_INVAL))"
proof -
  note F = fetched_headers[OF assms(1), folded n_def step_def phoff_def]
  have "phoff + i * step + 28 \<le> length h" if "i < n" for i
  proof -
    have "(i + 1) * step \<le> n * step" using that by (intro mult_right_mono) simp_all
    then show ?thesis using F(3)[OF assms(6)] assms(5) by simp
  qed
  then have each: "phoff + i * step + 28 \<le> length h \<and> segment_sane h (phoff + i * step)" if "i < n" for i using that assms(7) by simp
  have walk: "headers_pattern loadable mem True eaElf local_buf buf tag = segments_pattern loadable h n step phoff [0, 0, 0, 0]"
    using assms(1) by (simp add: headers_pattern_def n_def step_def phoff_def field_def)
  have none: "\<not> block_in [0, 0, 0, 0] b" if "b < 128" for b
  proof -
    have "b div 32 < 4" using that by (simp add: less_mult_imp_div_less)
    then have "b div 32 = 0 \<or> b div 32 = 1 \<or> b div 32 = 2 \<or> b div 32 = 3" by linarith
    then have "[0, 0, 0, 0 :: u32] ! (b div 32) = 0" by (elim disjE) simp_all
    then show ?thesis by (simp add: block_in_def)
  qed
  note spec = segments_pattern_spec[of n phoff step h "[0, 0, 0, 0]" loadable, OF each, simplified]
  show ?thesis
  proof (cases "\<forall>i < n. segment_fits h (phoff + i * step)")
    case False
    then show ?thesis using spec F(2) walk by auto
  next
    case True
    then obtain p where p: "segments_pattern loadable h n step phoff [0, 0, 0, 0] = Some (Inr p)"
        "\<forall>b < 128. block_in p b \<longleftrightarrow> block_in [0, 0, 0, 0] b \<or> (\<exists>i < n. segment_covers loadable h (phoff + i * step) b)" using spec by auto
    then have "\<forall>b < 128. block_in p b \<longleftrightarrow> (\<exists>i < n. segment_covers loadable h (phoff + i * step) b)" using none by blast
    then show ?thesis using True p(1) F(2) walk by simp
  qed
qed

text \<open>An image with one segment of two blocks, of which the file gives one, and one whose table wraps around the address space.\<close>

definition example_image :: "u8 list" where
  "example_image =
     [0x7f, 0x45, 0x4c, 0x46, 1, 2, 1, 0, 0, 0, 0, 0, 0, 0, 0, 0, 0, 0, 0, 0x17, 0, 0, 0, 0, 0, 0, 0x30, 0, 0, 0, 0, 0x34, 0,
     0, 0, 0, 0, 0, 0, 0, 0, 0, 0, 0x20, 0, 1, 0, 0, 0, 0, 0, 0, 0, 0, 0, 1, 0, 0, 0, 0, 0, 0, 0x30, 0, 0, 0, 0x30, 0, 0, 0,
     8, 0, 0, 0, 0x10, 0, 0, 0, 0, 5, 0, 0, 0, 0, 0, 0, 0, 0, 0, 0, 0, 0, 0, 0, 0, 0, 0, 0, 0, 0, 0, 0, 0, 0, 0, 0, 0, 0, 0,
     0, 0, 0, 0, 0, 0, 0, 0, 0, 0, 0, 0, 0, 0, 0, 0, 0, 0, 0]"

definition example_memory :: "u8 list \<Rightarrow> u64 \<Rightarrow> u8" where
  "example_memory bytes a = (if unat (a - 0x1000) < length bytes then bytes ! unat (a - 0x1000) else 0)"

lemma example_fetch: "length bytes = 128 \<Longrightarrow> dma_get (example_memory bytes) 0x1000 128 = bytes"
proof -
  assume len: "length bytes = 128"
  have "example_memory bytes (0x1000 + of_nat i) = bytes ! i" if "i < 128" for i
  proof -
    have "unat (of_nat i :: u64) = i" using that by (intro unat_of_nat_small) simp
    then show ?thesis using that len by (simp add: example_memory_def)
  qed
  then have "dma_get (example_memory bytes) 0x1000 128 = map (\<lambda>i. bytes ! i) [0..<128]" unfolding dma_get_def by (intro map_cong) simp_all
  then show ?thesis using map_nth[of bytes] len by simp
qed

lemma example_ident: "\<not> (\<exists>i \<in> set [0..<16]. example_image ! i \<noteq> s_ident ! i)"
  by code_simp

lemma example_fields: "be16 example_image 0x12 = Some 23" "be32 example_image 0x18 = Some 0x3000" "be16 example_image 0x2c = Some 1"
    "be16 example_image 0x2a = Some 32" "be32 example_image 0x1c = Some 52"
  by (simp_all add: be16_def be32_def rd8_def example_image_def)

lemma example_segment: "field example_image 52 = 1" "field example_image 60 = 0x3000" "field example_image 64 = 0x3000"
    "field example_image 68 = 0x800" "field example_image 72 = 0x1000" "field example_image 76 = 5"
  by (simp_all add: field_def be32_def rd8_def example_image_def)

lemma example_headers: "cellSpursTaskDmaGetProgramHeader (example_memory example_image) 0x1000 0x100 3 = Inr example_image"
proof -
  have len: "length example_image = 128" by code_simp
  have "headers_total example_image = 128" by (simp add: headers_total_def example_fields)
  then show ?thesis
    unfolding cellSpursTaskDmaGetProgramHeader_def example_fetch[OF len] Let_def
    using example_ident by (simp add: example_fields del: upt.simps)
qed

theorem headers_pattern_exact_witness:
  "\<exists>p. headers_pattern False (example_memory example_image) True 0x1000 0x200 0x100 3 = Some (Inr p) \<and> block_in p 6 \<and> \<not> block_in p 7"
proof -
  have h: "cellSpursTaskDmaGetProgramHeader (example_memory example_image) 0x1000 (if (0x100 :: u32) = 0 then 0x200 else 0x100) 3 = Inr example_image"
    using example_headers by simp
  have "\<forall>i < 1. segment_sane example_image (52 + i * 32)" "\<forall>i < 1. segment_fits example_image (52 + i * 32)"
    by (simp_all add: segment_sane_def segment_fits_def example_segment)
  moreover have "segment_covers False example_image 52 b \<longleftrightarrow> b = 6" for b
    by (auto simp: segment_covers_def segment_loads_def example_segment)
  ultimately have "\<exists>p. headers_pattern False (example_memory example_image) True 0x1000 0x200 0x100 3 = Some (Inr p) \<and> (\<forall>b < 128. block_in p b = (b = 6))"
    using headers_pattern_exact[OF h, of False] by (simp add: example_fields field_def)
  then obtain p where "headers_pattern False (example_memory example_image) True 0x1000 0x200 0x100 3 = Some (Inr p)" "\<forall>b < 128. block_in p b = (b = 6)"
    by blast
  then show ?thesis by (intro exI[of _ p]) simp
qed

section \<open>Where the check of the size fails\<close>

text \<open>C32: The size of the header table is computed modulo \<open>2 ^ 32\<close>: an image whose table ends past it is accepted with the
  bytes that remain, and when its first program header begins behind the fetched bytes, the walk reads outside them.\<close>

theorem headers_walk_escapes:
  assumes "cellSpursTaskDmaGetProgramHeader mem eaElf (if buf = 0 then local_buf else buf) tag = Inr h"
    "0 < unat (the (be16 h 0x2c))" "0x300 < field h 0x1c"
  shows "length h < field h 0x1c \<and> headers_pattern loadable mem True eaElf local_buf buf tag = None \<and>
    2 ^ 32 \<le> field h 0x1c + unat (the (be16 h 0x2c)) * unat (the (be16 h 0x2a)) + 127"
proof (intro conjI)
  note F = fetched_headers[OF assms(1)]
  show out: "length h < field h 0x1c" using F(2) assms(3) by simp
  show "2 ^ 32 \<le> field h 0x1c + unat (the (be16 h 0x2c)) * unat (the (be16 h 0x2a)) + 127"
    using F(3) out by (metis add_leD1 leD not_le_imp_less)
  obtain n where n: "unat (the (be16 h 0x2c)) = Suc n" using assms(2) by (cases "unat (the (be16 h 0x2c))") auto
  have "be32 h (field h 0x1c + 8) = None" using out by (simp add: be32_def rd8_def)
  then have "segment_pattern loadable h (field h 0x1c) p = None" for p by (simp add: segment_pattern_def)
  then show "headers_pattern loadable mem True eaElf local_buf buf tag = None"
    using assms(1) n by (simp add: headers_pattern_def field_def[symmetric])
qed

definition example_wrapping :: "u8 list" where
  "example_wrapping = example_image[0x1c := 0xff, 0x1d := 0xff, 0x1e := 0xff, 0x1f := 0xe0]"

lemma example_wrapping_ident: "\<not> (\<exists>i \<in> set [0..<16]. example_wrapping ! i \<noteq> s_ident ! i)"
  by code_simp

lemma example_wrapping_fields: "be16 example_wrapping 0x12 = Some 23" "be32 example_wrapping 0x18 = Some 0x3000"
    "be16 example_wrapping 0x2c = Some 1" "be16 example_wrapping 0x2a = Some 32" "be32 example_wrapping 0x1c = Some 0xffffffe0"
  by (simp_all add: be16_def be32_def rd8_def example_wrapping_def example_image_def)

theorem headers_walk_escapes_witness:
  "headers_pattern True (example_memory example_wrapping) True 0x1000 0x200 0x100 3 = None"
proof -
  have len: "length example_wrapping = 128" by code_simp
  have "headers_total example_wrapping = 0" by (simp add: headers_total_def example_wrapping_fields)
  then have h: "cellSpursTaskDmaGetProgramHeader (example_memory example_wrapping) 0x1000 (if (0x100 :: u32) = 0 then 0x200 else 0x100) 3 = Inr example_wrapping"
    unfolding cellSpursTaskDmaGetProgramHeader_def example_fetch[OF len] Let_def
    using example_wrapping_ident by (simp add: example_wrapping_fields del: upt.simps)
  show ?thesis using headers_walk_escapes[OF h, of True] by (simp add: example_wrapping_fields field_def)
qed

end
