(* ===== verification/Librt_Heap.thy ===== *)
theory Librt_Heap
  imports Prelude
begin

text \<open>
  \<open>runtime/lv2/librt/heap.c\<close> and \<open>heap.inl\<close>: a boundary-tag allocator whose free blocks form a circular
  doubly linked list through a sentinel inside \<open>heap_cntrl\<close>.

  Addresses and sizes are 64-bit \<open>uintptr_t\<close> values, modelled as naturals with the wrap-around written
  out (\<open>add64\<close>, \<open>sub64\<close>).  Memory maps the address of a \<open>heap_block\<close> header to its four fields.  The
  headers the allocator touches do not overlap: blocks are at least 32 bytes, the size of a header.
  What the owner of an allocated block may write (its two link fields, which lie in the payload, and
  the \<open>prev_size\<close> of the block after it, the ``bonus'' word) is unconstrained by the invariant of
  \<open>Librt_Heap_Inv\<close>.  The spin lock makes each operation one step and is not modelled.
\<close>

section \<open>Words\<close>

definition add64 :: "nat \<Rightarrow> nat \<Rightarrow> nat" where
  "add64 a b = (a + b) mod 2 ^ 64"

definition sub64 :: "nat \<Rightarrow> nat \<Rightarrow> nat" where
  "sub64 a b = (a + (2 ^ 64 - b)) mod 2 ^ 64"

text \<open>\<open>x & ~m\<close>, \<open>x | HEAP_BLOCK_PREV_USED\<close> and \<open>x & ~HEAP_BLOCK_PREV_USED\<close>.\<close>

definition and_not :: "nat \<Rightarrow> nat \<Rightarrow> nat" where
  "and_not x m = x - (x AND m)"

definition set_flag :: "nat \<Rightarrow> nat" where
  "set_flag x = (if even x then x + 1 else x)"

definition clear_flag :: "nat \<Rightarrow> nat" where
  "clear_flag x = x - x mod 2"

abbreviation (input) HEAP_BLOCK_ALLOC_BONUS :: nat where "HEAP_BLOCK_ALLOC_BONUS \<equiv> 8"
abbreviation (input) HEAP_BLOCK_HEADER_SIZE :: nat where "HEAP_BLOCK_HEADER_SIZE \<equiv> 16"
abbreviation (input) CPU_ALIGNMENT :: nat where "CPU_ALIGNMENT \<equiv> 8"
abbreviation (input) sizeof_heap_block :: nat where "sizeof_heap_block \<equiv> 32"

section \<open>Blocks, memory and the control structure\<close>

record heap_block =
  blk_prev_size :: nat
  blk_size :: nat
  blk_next :: nat
  blk_prev :: nat

type_synonym heap_mem = "nat \<Rightarrow> heap_block"

text \<open>\<open>free_list\<close> is the address of the sentinel inside the structure; its links live in the memory.\<close>

record heap_cntrl =
  free_list :: nat
  page_size :: nat
  min_block_size :: nat
  heap_begin :: nat
  heap_end :: nat
  first_block :: nat
  last_block :: nat

definition put_prev_size :: "nat \<Rightarrow> nat \<Rightarrow> heap_mem \<Rightarrow> heap_mem" where
  "put_prev_size a v m = m(a := (m a)\<lparr>blk_prev_size := v\<rparr>)"
definition put_size :: "nat \<Rightarrow> nat \<Rightarrow> heap_mem \<Rightarrow> heap_mem" where
  "put_size a v m = m(a := (m a)\<lparr>blk_size := v\<rparr>)"
definition put_next :: "nat \<Rightarrow> nat \<Rightarrow> heap_mem \<Rightarrow> heap_mem" where
  "put_next a v m = m(a := (m a)\<lparr>blk_next := v\<rparr>)"
definition put_prev :: "nat \<Rightarrow> nat \<Rightarrow> heap_mem \<Rightarrow> heap_mem" where
  "put_prev a v m = m(a := (m a)\<lparr>blk_prev := v\<rparr>)"

section \<open>Inline operations\<close>

definition heap_head :: "heap_cntrl \<Rightarrow> nat" where
  "heap_head c = free_list c"
definition heap_tail :: "heap_cntrl \<Rightarrow> nat" where
  "heap_tail c = free_list c"
definition heap_first :: "heap_cntrl \<Rightarrow> heap_mem \<Rightarrow> nat" where
  "heap_first c m = blk_next (m (heap_head c))"
definition heap_last :: "heap_cntrl \<Rightarrow> heap_mem \<Rightarrow> nat" where
  "heap_last c m = blk_prev (m (heap_tail c))"

definition heap_block_size :: "heap_mem \<Rightarrow> nat \<Rightarrow> nat" where
  "heap_block_size m block = clear_flag (blk_size (m block))"

definition heap_prev_used :: "heap_mem \<Rightarrow> nat \<Rightarrow> bool" where
  "heap_prev_used m block = odd (blk_size (m block))"

definition heap_block_at :: "nat \<Rightarrow> nat \<Rightarrow> nat" where
  "heap_block_at block offset = add64 block offset"

definition heap_block_prev :: "heap_mem \<Rightarrow> nat \<Rightarrow> nat" where
  "heap_block_prev m block = heap_block_at block (sub64 0 (blk_prev_size (m block)))"

definition heap_alloc_area_of_block :: "nat \<Rightarrow> nat" where
  "heap_alloc_area_of_block block = add64 block HEAP_BLOCK_HEADER_SIZE"

definition heap_block_set_size :: "nat \<Rightarrow> nat \<Rightarrow> heap_mem \<Rightarrow> heap_mem" where
  "heap_block_set_size block sz m =
     put_size block (if heap_prev_used m block then set_flag sz else sz) m"

definition heap_block_remove :: "nat \<Rightarrow> heap_mem \<Rightarrow> heap_mem" where
  "heap_block_remove block m =
     (let m = put_next (blk_prev (m block)) (blk_next (m block)) m
      in put_prev (blk_next (m block)) (blk_prev (m block)) m)"

definition heap_block_insert_after :: "nat \<Rightarrow> nat \<Rightarrow> heap_mem \<Rightarrow> heap_mem" where
  "heap_block_insert_after anchor block m =
     (let m = put_next block (blk_next (m anchor)) m;
          m = put_prev block anchor m;
          m = put_prev (blk_next (m anchor)) block m
      in put_next anchor block m)"

definition heap_block_replace :: "nat \<Rightarrow> nat \<Rightarrow> heap_mem \<Rightarrow> heap_mem" where
  "heap_block_replace old_block new_block m =
     (let m = put_next new_block (blk_next (m old_block)) m;
          m = put_prev new_block (blk_prev (m old_block)) m;
          m = put_prev (blk_next (m old_block)) new_block m
      in put_next (blk_prev (m old_block)) new_block m)"

text \<open>The page size is an argument the code does not use.\<close>

definition heap_block_of_alloc_area :: "nat \<Rightarrow> nat \<Rightarrow> nat" where
  "heap_block_of_alloc_area alloc_begin page = sub64 alloc_begin HEAP_BLOCK_HEADER_SIZE"

definition heap_block_in :: "heap_cntrl \<Rightarrow> nat \<Rightarrow> bool" where
  "heap_block_in c block \<longleftrightarrow> block \<ge> first_block c \<and> block \<le> last_block c"

definition heap_align_up :: "nat \<Rightarrow> nat \<Rightarrow> nat" where
  "heap_align_up v alignment = and_not (sub64 (add64 v alignment) 1) (sub64 alignment 1)"

definition heap_align_down :: "nat \<Rightarrow> nat \<Rightarrow> nat" where
  "heap_align_down v alignment = and_not v (sub64 alignment 1)"

definition heap_min_block_size :: "nat \<Rightarrow> nat" where
  "heap_min_block_size page = heap_align_up sizeof_heap_block page"

definition heap_set_last_block_size :: "heap_cntrl \<Rightarrow> heap_mem \<Rightarrow> heap_mem" where
  "heap_set_last_block_size c m = heap_block_set_size (last_block c) (sub64 (first_block c) (last_block c)) m"

section \<open>The operations\<close>

definition heap_get_first_last_block :: "nat \<Rightarrow> nat \<Rightarrow> nat \<Rightarrow> nat \<Rightarrow> (nat \<times> nat) option" where
  "heap_get_first_last_block start len page min_size =
     (let heap_end = add64 start len;
          alloc_begin = heap_align_up (add64 start HEAP_BLOCK_HEADER_SIZE) page;
          first_block_begin = sub64 alloc_begin HEAP_BLOCK_HEADER_SIZE;
          overhead = add64 HEAP_BLOCK_HEADER_SIZE (sub64 first_block_begin start);
          first_block_size = heap_align_down (sub64 len overhead) page
      in if heap_end < start \<or> len \<le> overhead \<or> first_block_size < min_size then None
         else Some (first_block_begin, heap_block_at first_block_begin first_block_size))"

definition heap_block_split :: "heap_cntrl \<Rightarrow> nat \<Rightarrow> nat \<Rightarrow> nat \<Rightarrow> nat \<Rightarrow> heap_mem \<Rightarrow> heap_mem" where
  "heap_block_split c block next_block free_anchor alloc_size m =
     (let min_alloc_size = sub64 (min_block_size c) HEAP_BLOCK_HEADER_SIZE;
          block_size = heap_block_size m block;
          used_size = add64 (max alloc_size min_alloc_size) HEAP_BLOCK_HEADER_SIZE;
          used_block_size = heap_align_up used_size (page_size c);
          free_size = sub64 (add64 block_size HEAP_BLOCK_ALLOC_BONUS) used_size;
          free_size_limit = add64 (min_block_size c) HEAP_BLOCK_ALLOC_BONUS
      in if free_size \<ge> free_size_limit
         then let free_block = heap_block_at block used_block_size;
                  free_block_size = sub64 block_size used_block_size;
                  next_block_size = heap_block_size m next_block;
                  next_next_block = heap_block_at next_block next_block_size;
                  m = heap_block_set_size block used_block_size m;
                  (m, free_block_size, next_block) =
                    (if heap_prev_used m next_next_block
                     then (heap_block_insert_after free_anchor free_block m, free_block_size, next_block)
                     else let free_block_size = add64 free_block_size next_block_size
                          in (heap_block_replace next_block free_block m, free_block_size,
                              heap_block_at free_block free_block_size));
                  m = put_size free_block (set_flag free_block_size) m;
                  m = put_prev_size next_block free_block_size m
              in put_size next_block (clear_flag (blk_size (m next_block))) m
         else put_size next_block (set_flag (blk_size (m next_block))) m)"

definition heap_block_allocate_from_begin ::
  "heap_cntrl \<Rightarrow> nat \<Rightarrow> nat \<Rightarrow> nat \<Rightarrow> nat \<Rightarrow> heap_mem \<Rightarrow> heap_mem \<times> nat" where
  "heap_block_allocate_from_begin c block next_block free_anchor alloc_size m =
     (heap_block_split c block next_block free_anchor alloc_size m, block)"

definition heap_block_allocate_from_end ::
  "heap_cntrl \<Rightarrow> nat \<Rightarrow> nat \<Rightarrow> nat \<Rightarrow> nat \<Rightarrow> nat \<Rightarrow> heap_mem \<Rightarrow> heap_mem \<times> nat" where
  "heap_block_allocate_from_end c block next_block free_anchor alloc_begin alloc_size m =
     (let new_block = heap_block_of_alloc_area alloc_begin (page_size c);
          new_block_size = sub64 next_block new_block;
          block_size_adjusted = sub64 new_block block;
          (m, free_anchor, block, block_size_adjusted) =
            (if heap_prev_used m block
             then (heap_block_insert_after free_anchor block m, block, block, block_size_adjusted)
             else let prev_block = heap_block_prev m block
                  in (m, free_anchor, prev_block, add64 block_size_adjusted (heap_block_size m prev_block)));
          m = put_size block (set_flag block_size_adjusted) m;
          m = put_prev_size new_block block_size_adjusted m;
          m = put_size new_block new_block_size m
      in (heap_block_split c new_block next_block free_anchor alloc_size m, new_block))"

definition heap_block_allocate :: "heap_cntrl \<Rightarrow> nat \<Rightarrow> nat \<Rightarrow> nat \<Rightarrow> heap_mem \<Rightarrow> heap_mem \<times> nat" where
  "heap_block_allocate c block alloc_begin alloc_size m =
     (let alloc_area_offset = sub64 alloc_begin (heap_alloc_area_of_block block);
          next_block = heap_block_at block (heap_block_size m block);
          (m, free_anchor) =
            (if heap_prev_used m next_block then (m, heap_head c)
             else (heap_block_remove block m, blk_prev (m block)))
      in if alloc_area_offset < page_size c
         then heap_block_allocate_from_begin c block next_block free_anchor (add64 alloc_size alloc_area_offset) m
         else heap_block_allocate_from_end c block next_block free_anchor alloc_begin alloc_size m)"

definition heap_check_block :: "heap_cntrl \<Rightarrow> heap_mem \<Rightarrow> nat \<Rightarrow> nat \<Rightarrow> nat \<Rightarrow> nat" where
  "heap_check_block c m block alloc_size alignment =
     (let block_end = add64 block (heap_block_size m block);
          alloc_begin_floor = heap_alloc_area_of_block block;
          alloc_begin_ceiling =
            sub64 (add64 (add64 (sub64 block_end (min_block_size c)) HEAP_BLOCK_HEADER_SIZE) (page_size c)) 1;
          alloc_end = add64 block_end HEAP_BLOCK_ALLOC_BONUS;
          alloc_begin = heap_align_down (sub64 alloc_end alloc_size) alignment;
          alloc_begin = (if alloc_begin > alloc_begin_ceiling
                         then heap_align_down alloc_begin_ceiling alignment else alloc_begin)
      in if alloc_begin \<ge> alloc_begin_floor
         then let free_size = sub64 (heap_block_of_alloc_area alloc_begin (page_size c)) block
              in if free_size \<ge> min_block_size c \<or> free_size = 0 then alloc_begin else 0
         else 0)"

text \<open>
  \<open>heapInit\<close> zeroes the control structure, so the sentinel's tag fields become zero.  The result is the
  structure with the memory and the size of the single free block, or nothing.
\<close>

definition heapInit :: "nat \<Rightarrow> nat \<Rightarrow> nat \<Rightarrow> heap_mem \<Rightarrow> (heap_cntrl \<times> heap_mem \<times> nat) option" where
  "heapInit sentinel start_addr sz m =
     (let heap_end = add64 start_addr sz;
          min_block_size = heap_min_block_size CPU_ALIGNMENT
      in case heap_get_first_last_block start_addr sz CPU_ALIGNMENT min_block_size of
           None \<Rightarrow> None
         | Some (fb, lb) \<Rightarrow>
             let first_block_size = sub64 lb fb;
                 m = m(sentinel := \<lparr>blk_prev_size = 0, blk_size = 0, blk_next = 0, blk_prev = 0\<rparr>);
                 m = put_prev_size fb heap_end m;
                 m = put_size fb (set_flag first_block_size) m;
                 m = put_next fb sentinel m;
                 m = put_prev fb sentinel m;
                 c = \<lparr>free_list = sentinel, page_size = CPU_ALIGNMENT, min_block_size = min_block_size,
                      heap_begin = start_addr, heap_end = heap_end,
                      first_block = fb, last_block = lb\<rparr>;
                 m = put_next (heap_head c) fb m;
                 m = put_prev (heap_tail c) fb m;
                 m = put_prev_size lb first_block_size m;
                 m = put_size lb 0 m;
                 m = heap_set_last_block_size c m
             in Some (c, m, first_block_size))"

text \<open>
  The search follows the list from \<open>block\<close>; it may run for ever on a list that does not lead back to the
  sentinel, so its result is optional.  The pair is the block and the address found there, \<open>0\<close> for none.
\<close>

partial_function (option) heap_search ::
  "heap_cntrl \<Rightarrow> heap_mem \<Rightarrow> nat \<Rightarrow> nat \<Rightarrow> nat \<Rightarrow> nat \<Rightarrow> (nat \<times> nat) option" where
  "heap_search c m sz block_size_floor alignment block =
     (if block = heap_tail c then Some (block, 0)
      else let alloc_begin =
             (if blk_size (m block) > block_size_floor
              then (if alignment = 0 then heap_alloc_area_of_block block
                    else heap_check_block c m block sz alignment)
              else 0)
           in if alloc_begin \<noteq> 0 then Some (block, alloc_begin)
              else heap_search c m sz block_size_floor alignment (blk_next (m block)))"

declare heap_search.simps [code]

definition heapAllocateAligned :: "heap_cntrl \<Rightarrow> nat \<Rightarrow> nat \<Rightarrow> heap_mem \<Rightarrow> (heap_mem \<times> nat) option" where
  "heapAllocateAligned c sz alignment m =
     (let block_size_floor = sub64 (add64 sz HEAP_BLOCK_HEADER_SIZE) HEAP_BLOCK_ALLOC_BONUS
      in if block_size_floor < sz then Some (m, 0)
         else case heap_search c m sz block_size_floor alignment (heap_first c m) of
                None \<Rightarrow> None
              | Some (block, alloc_begin) \<Rightarrow>
                  if alloc_begin \<noteq> 0
                  then Some (fst (heap_block_allocate c block alloc_begin sz m), alloc_begin)
                  else Some (m, alloc_begin))"

definition heapAllocate :: "heap_cntrl \<Rightarrow> nat \<Rightarrow> heap_mem \<Rightarrow> (heap_mem \<times> nat) option" where
  "heapAllocate c sz m = heapAllocateAligned c sz 0 m"

definition heapFree :: "heap_cntrl \<Rightarrow> nat \<Rightarrow> heap_mem \<Rightarrow> heap_mem \<times> bool" where
  "heapFree c ptr m =
     (if ptr = 0 then (m, True)
      else let block = heap_block_of_alloc_area ptr (page_size c)
      in if \<not> heap_block_in c block then (m, False)
      else let block_size = heap_block_size m block;
               next_block = heap_block_at block block_size;
               sz = block_size
      in if \<not> heap_block_in c next_block \<or> \<not> heap_prev_used m next_block then (m, False)
      else let next_block_size = heap_block_size m next_block;
               next_next_block = heap_block_at next_block next_block_size
      in if next_block \<noteq> last_block c \<and> \<not> heap_block_in c next_next_block then (m, False)
      else let next_free = (next_block \<noteq> last_block c \<and> \<not> heap_prev_used m next_next_block);
               prev_free = (\<not> heap_prev_used m block);
               prev_block = heap_block_prev m block
      in if prev_free \<and> (\<not> heap_block_in c prev_block \<or> \<not> heap_prev_used m prev_block) then (m, False)
      else let sz = (if prev_free then add64 sz (blk_prev_size (m block)) else sz);
               block = (if prev_free then prev_block else block);
               sz = (if next_free then add64 sz next_block_size else sz);
               m = (if prev_free then (if next_free then heap_block_remove next_block m else m)
                    else if next_free then heap_block_replace next_block block m
                    else heap_block_insert_after (heap_head c) block m);
               m = put_size block (set_flag sz) m;
               next_block = heap_block_at block sz;
               m = put_prev_size next_block sz m
      in (put_size next_block (clear_flag (blk_size (m next_block))) m, True))"

end
