(* ===== verification/Librt_Heap_Ring.thy ===== *)
theory Librt_Heap_Ring
  imports Librt_Heap
begin

text \<open>
  The free list as a ring of addresses: \<open>links m p xs q\<close> says that the \<open>next\<close> fields lead from \<open>p\<close> over
  \<open>xs\<close> to \<open>q\<close> and the \<open>prev\<close> fields back.  Removal, insertion and replacement of a block are list
  operations on the ring, and none of them touches a size field.
\<close>

section \<open>Fields\<close>

named_theorems field_simps
  \<open>reading a field after writing a field\<close>

lemma put_fields [field_simps]:
  "blk_size (put_size a v m x) = (if x = a then v else blk_size (m x))"
  "blk_prev_size (put_prev_size a v m x) = (if x = a then v else blk_prev_size (m x))"
  "blk_next (put_next a v m x) = (if x = a then v else blk_next (m x))"
  "blk_prev (put_prev a v m x) = (if x = a then v else blk_prev (m x))"
  "blk_size (put_prev_size a v m x) = blk_size (m x)" "blk_size (put_next a v m x) = blk_size (m x)"
  "blk_size (put_prev a v m x) = blk_size (m x)"
  "blk_prev_size (put_size a v m x) = blk_prev_size (m x)" "blk_prev_size (put_next a v m x) = blk_prev_size (m x)"
  "blk_prev_size (put_prev a v m x) = blk_prev_size (m x)"
  "blk_next (put_size a v m x) = blk_next (m x)" "blk_next (put_prev_size a v m x) = blk_next (m x)"
  "blk_next (put_prev a v m x) = blk_next (m x)"
  "blk_prev (put_size a v m x) = blk_prev (m x)" "blk_prev (put_prev_size a v m x) = blk_prev (m x)"
  "blk_prev (put_next a v m x) = blk_prev (m x)"
  by (simp_all add: put_size_def put_prev_size_def put_next_def put_prev_def)

lemma ring_ops_size_fields [field_simps]:
  "blk_size (heap_block_remove b m x) = blk_size (m x)"
  "blk_prev_size (heap_block_remove b m x) = blk_prev_size (m x)"
  "blk_size (heap_block_insert_after a b m x) = blk_size (m x)"
  "blk_prev_size (heap_block_insert_after a b m x) = blk_prev_size (m x)"
  "blk_size (heap_block_replace a b m x) = blk_size (m x)"
  "blk_prev_size (heap_block_replace a b m x) = blk_prev_size (m x)"
  by (simp_all add: heap_block_remove_def heap_block_insert_after_def heap_block_replace_def Let_def field_simps)

lemma set_size_fields [field_simps]:
  "blk_next (heap_block_set_size a v m x) = blk_next (m x)"
  "blk_prev (heap_block_set_size a v m x) = blk_prev (m x)"
  "blk_prev_size (heap_block_set_size a v m x) = blk_prev_size (m x)"
  "blk_size (heap_block_set_size a v m x)
     = (if x = a then if heap_prev_used m a then set_flag v else v else blk_size (m x))"
  by (simp_all add: heap_block_set_size_def field_simps)

section \<open>Rings\<close>

primrec links :: "heap_mem \<Rightarrow> nat \<Rightarrow> nat list \<Rightarrow> nat \<Rightarrow> bool" where
  "links m p [] q \<longleftrightarrow> blk_next (m p) = q \<and> blk_prev (m q) = p"
| "links m p (x # xs) q \<longleftrightarrow> blk_next (m p) = x \<and> blk_prev (m x) = p \<and> links m x xs q"

lemma links_append [simp]: "links m p (xs @ y # ys) q \<longleftrightarrow> links m p xs y \<and> links m y ys q"
  by (induction xs arbitrary: p) auto

lemma links_frame:
  "(\<And>x. x \<in> insert p (set xs) \<Longrightarrow> blk_next (m' x) = blk_next (m x)) \<Longrightarrow>
   (\<And>x. x \<in> insert q (set xs) \<Longrightarrow> blk_prev (m' x) = blk_prev (m x)) \<Longrightarrow>
   links m' p xs q = links m p xs q"
  by (induction xs arbitrary: p) auto

lemma links_cong:
  "(\<And>x. blk_next (m' x) = blk_next (m x)) \<Longrightarrow> (\<And>x. blk_prev (m' x) = blk_prev (m x)) \<Longrightarrow>
   links m' p xs q = links m p xs q"
  by (rule links_frame) auto

text \<open>The fields at the two ends of a stretch: its last node and the node it leads to.\<close>

lemma links_ends: "links m p xs q \<Longrightarrow> blk_prev (m q) = last (p # xs) \<and> blk_next (m p) = hd (xs @ [q])"
  by (induction xs arbitrary: p) auto

lemma links_redirect:
  assumes l: "links m p xs q" and d: "distinct (p # xs)" and q': "q' \<notin> set xs"
    and nxt: "\<And>x. blk_next (m' x) = (if x = last (p # xs) then q' else blk_next (m x)) \<or> x \<notin> insert p (set xs)"
    and prv: "\<And>x. x \<in> set xs \<Longrightarrow> blk_prev (m' x) = blk_prev (m x)"
    and bk: "blk_prev (m' q') = last (p # xs)"
  shows "links m' p xs q'"
  using l d q' nxt prv bk
proof (induction xs arbitrary: p)
  case Nil
  then show ?case using Nil.prems(4)[of p] by auto
next
  case (Cons x xs)
  have "last (x # xs) \<in> set (x # xs)" by (rule last_in_set) simp
  then have "p \<noteq> last (x # xs)" using Cons.prems(2) by fastforce
  then have "blk_next (m' p) = x" using Cons.prems(1) Cons.prems(4)[of p] by auto
  moreover have "blk_prev (m' x) = p" using Cons.prems(1,5) by simp
  moreover have "links m' x xs q'"
  proof (rule Cons.IH)
    show "links m x xs q" "distinct (x # xs)" "q' \<notin> set xs" using Cons.prems by auto
    show "blk_next (m' y) = (if y = last (x # xs) then q' else blk_next (m y)) \<or> y \<notin> insert x (set xs)" for y
      using Cons.prems(4)[of y] by auto
    show "y \<in> set xs \<Longrightarrow> blk_prev (m' y) = blk_prev (m y)" for y using Cons.prems(5) by simp
    show "blk_prev (m' q') = last (x # xs)" using Cons.prems(6) by simp
  qed
  ultimately show ?case by simp
qed

lemma remove_fields:
  assumes "blk_next (m b) = n" "blk_prev (m b) = p" "b \<noteq> p"
  shows "blk_next (heap_block_remove b m x) = (if x = p then n else blk_next (m x))"
    "blk_prev (heap_block_remove b m x) = (if x = n then p else blk_prev (m x))"
  using assms by (auto simp: heap_block_remove_def field_simps Let_def)

lemma insert_fields:
  assumes "blk_next (m a) = n" "b \<noteq> a"
  shows "blk_next (heap_block_insert_after a b m x) = (if x = a then b else if x = b then n else blk_next (m x))"
    "blk_prev (heap_block_insert_after a b m x) = (if x = n then b else if x = b then a else blk_prev (m x))"
  using assms by (auto simp: heap_block_insert_after_def field_simps Let_def)

lemma replace_fields:
  assumes "blk_next (m old) = n" "blk_prev (m old) = p" "new \<noteq> old" "old \<noteq> n" "old \<noteq> p"
  shows "blk_next (heap_block_replace old new m x) = (if x = p then new else if x = new then n else blk_next (m x))"
    "blk_prev (heap_block_replace old new m x) = (if x = n then new else if x = new then p else blk_prev (m x))"
  using assms by (auto simp: heap_block_replace_def field_simps Let_def)

lemma links_remove:
  assumes l: "links m s (xs @ b # ys) s" and d: "distinct (s # xs @ b # ys)"
  shows "links (heap_block_remove b m) s (xs @ ys) s" "blk_prev (m b) = last (s # xs)"
proof -
  let ?p = "last (s # xs)" and ?n = "hd (ys @ [s])" and ?m = "heap_block_remove b m"
  have l1: "links m s xs b" and l2: "links m b ys s" using l by auto
  have nb: "blk_next (m b) = ?n" "blk_prev (m b) = ?p" using links_ends[OF l1] links_ends[OF l2] by auto
  then show "blk_prev (m b) = last (s # xs)" by simp
  have pin: "?p \<in> insert s (set xs)" using last_in_set[of "s # xs"] by auto
  then have bp: "b \<noteq> ?p" using d by auto
  note f = remove_fields[where b = b and m = m, OF nb(1) nb(2) bp]
  have redirect: "links ?m s xs ?n"
  proof (rule links_redirect[OF l1])
    show "distinct (s # xs)" using d by auto
    show "?n \<notin> set xs" using d by (cases ys) auto
    show "blk_next (?m x) = (if x = last (s # xs) then ?n else blk_next (m x)) \<or> x \<notin> insert s (set xs)" for x
      unfolding f by simp
    show "blk_prev (?m x) = blk_prev (m x)" if "x \<in> set xs" for x
      unfolding f using that d by (cases ys) auto
    show "blk_prev (?m ?n) = ?p" unfolding f by simp
  qed
  show "links ?m s (xs @ ys) s"
  proof (cases ys)
    case Nil
    then show ?thesis using redirect by simp
  next
    case (Cons y ys')
    have "links ?m y ys' s = links m y ys' s"
    proof (rule links_frame)
      show "blk_next (?m x) = blk_next (m x)" if "x \<in> insert y (set ys')" for x
        unfolding f using that d pin Cons by auto
      show "blk_prev (?m x) = blk_prev (m x)" if "x \<in> insert s (set ys')" for x
        unfolding f using that d Cons by auto
    qed
    then show ?thesis using redirect l2 Cons by simp
  qed
qed

lemma links_insert:
  assumes l: "links m s (xs @ ys) s" and d: "distinct (s # xs @ ys)" and b: "b \<notin> insert s (set xs \<union> set ys)"
  shows "links (heap_block_insert_after (last (s # xs)) b m) s (xs @ b # ys) s"
proof -
  let ?a = "last (s # xs)" and ?n = "hd (ys @ [s])" and ?m = "heap_block_insert_after (last (s # xs)) b m"
  have l1: "links m s xs ?n" and l2: "ys \<noteq> [] \<longrightarrow> links m ?n (tl ys) s" using l by (cases ys; simp)+
  have ain: "?a \<in> insert s (set xs)" using last_in_set[of "s # xs"] by auto
  have na: "blk_next (m ?a) = ?n"
  proof (cases xs rule: rev_cases)
    case Nil
    then show ?thesis using links_ends[OF l1] by simp
  next
    case (snoc zs z)
    then have "links m z [] ?n" using l1 by simp
    then show ?thesis using snoc by simp
  qed
  have ba: "b \<noteq> ?a" using ain b by auto
  note f = insert_fields[where m = m and a = ?a, OF na ba]
  have nin: "?n \<notin> set xs" and bn: "b \<noteq> ?n" using d b by (cases ys; auto)+
  have "links ?m s xs b"
  proof (rule links_redirect[OF l1])
    show "distinct (s # xs)" "b \<notin> set xs" using d b by auto
    show "blk_next (?m x) = (if x = last (s # xs) then b else blk_next (m x)) \<or> x \<notin> insert s (set xs)" for x
      unfolding f using b by auto
    show "blk_prev (?m x) = blk_prev (m x)" if "x \<in> set xs" for x
      unfolding f using that nin b by auto
    show "blk_prev (?m b) = ?a" unfolding f using bn by simp
  qed
  moreover have "links ?m b ys s"
  proof (cases ys)
    case Nil
    have "?n = s" using Nil by simp
    then have "blk_next (?m b) = s" "blk_prev (?m s) = b" unfolding f using ba by simp_all
    then show ?thesis using Nil by simp
  next
    case (Cons y ys')
    have "links ?m y ys' s = links m y ys' s"
    proof (rule links_frame)
      show "blk_next (?m x) = blk_next (m x)" if "x \<in> insert y (set ys')" for x
        unfolding f using that d ain b Cons by auto
      show "blk_prev (?m x) = blk_prev (m x)" if "x \<in> insert s (set ys')" for x
        unfolding f using that d b Cons by auto
    qed
    have "?n = y" using Cons by simp
    then have "blk_next (?m b) = y" "blk_prev (?m y) = b" unfolding f using ba by simp_all
    then show ?thesis using l2 Cons \<open>links ?m y ys' s = links m y ys' s\<close> by simp
  qed
  ultimately show ?thesis by simp
qed

lemma links_replace:
  assumes l: "links m s (xs @ old # ys) s" and d: "distinct (s # xs @ old # ys)"
    and new: "new \<notin> insert s (set (xs @ old # ys))"
  shows "links (heap_block_replace old new m) s (xs @ new # ys) s"
proof -
  let ?p = "last (s # xs)" and ?n = "hd (ys @ [s])" and ?m = "heap_block_replace old new m"
  have l1: "links m s xs old" and l2: "links m old ys s" using l by auto
  have fields: "blk_next (m old) = ?n" "blk_prev (m old) = ?p" using links_ends[OF l1] links_ends[OF l2] by auto
  have pin: "?p \<in> insert s (set xs)" using last_in_set[of "s # xs"] by auto
  have ne: "new \<noteq> old" "old \<noteq> ?n" "old \<noteq> ?p" "new \<noteq> ?n" "new \<noteq> ?p" using new d pin by (cases ys; auto)+
  note f = replace_fields[where m = m, OF fields ne(1,2,3)]
  have "links ?m s xs new"
  proof (rule links_redirect[OF l1])
    show "distinct (s # xs)" "new \<notin> set xs" using d new by auto
    show "blk_next (?m x) = (if x = last (s # xs) then new else blk_next (m x)) \<or> x \<notin> insert s (set xs)" for x
      unfolding f using new by auto
    show "blk_prev (?m x) = blk_prev (m x)" if "x \<in> set xs" for x
      unfolding f using that d new by (cases ys) auto
    show "blk_prev (?m new) = ?p" unfolding f using ne by simp
  qed
  moreover have "links ?m new ys s"
  proof (cases ys)
    case Nil
    then show ?thesis using ne by (simp add: f)
  next
    case (Cons y ys')
    have "links ?m y ys' s = links m y ys' s"
    proof (rule links_frame)
      show "blk_next (?m x) = blk_next (m x)" if "x \<in> insert y (set ys')" for x
        unfolding f using that d pin new Cons by auto
      show "blk_prev (?m x) = blk_prev (m x)" if "x \<in> insert s (set ys')" for x
        unfolding f using that d new Cons by auto
    qed
    then show ?thesis using l2 Cons ne by (simp add: f)
  qed
  ultimately show ?thesis by simp
qed

end
