(* ===== verification/Librt_Heap_Inv.thy ===== *)
theory Librt_Heap_Inv
  imports Librt_Heap_Ring
begin

text \<open>
  What a heap in memory means: a map \<open>B\<close> from the addresses of its blocks to their sizes and whether they
  are in use.  \<open>tiles\<close>: the blocks partition the area between the first and the last block.  \<open>tagged\<close>:
  the headers say so.  \<open>coalesced\<close>: no two free blocks are adjacent.  \<open>heap_rep\<close> adds the ring of free
  blocks.  The set \<open>X\<close> holds blocks whose successor's flag is about to be written.
\<close>

section \<open>Arithmetic\<close>

lemma add64_small [simp]: "a + b < 2 ^ 64 \<Longrightarrow> add64 a b = a + b"
  by (simp add: add64_def)

lemma sub64_small: "b \<le> a \<Longrightarrow> a < 2 ^ 64 \<Longrightarrow> sub64 a b = a - b"
proof -
  assume a: "b \<le> a" "a < 2 ^ 64"
  then have "a + (2 ^ 64 - b) = (a - b) + 2 ^ 64" by simp
  then show ?thesis using a unfolding sub64_def by (simp only: mod_add_self2) simp
qed

lemma add64_sub64_zero: "b \<le> a \<Longrightarrow> a < 2 ^ 64 \<Longrightarrow> add64 a (sub64 0 b) = a - b"
proof -
  assume a: "b \<le> a" "a < 2 ^ 64"
  show ?thesis
  proof (cases "b = 0")
    case False
    then have "sub64 0 b = 2 ^ 64 - b" using a by (simp add: sub64_def)
    moreover have "a + (2 ^ 64 - b) = (a - b) + 2 ^ 64" using a by simp
    ultimately show ?thesis using a unfolding add64_def by (simp only: mod_add_self2) simp
  qed (use a in \<open>simp add: sub64_def add64_def\<close>)
qed

lemma add64_wrap: "f \<le> l \<Longrightarrow> l < 2 ^ 64 \<Longrightarrow> f < l \<Longrightarrow> add64 l (sub64 f l) = f"
proof -
  assume a: "f \<le> l" "l < 2 ^ 64" "f < l"
  then have "sub64 f l = f + (2 ^ 64 - l)" by (simp add: sub64_def)
  moreover have "l + (f + (2 ^ 64 - l)) = f + 2 ^ 64" using a by simp
  ultimately show ?thesis using a unfolding add64_def by (simp only: mod_add_self2) simp
qed

lemma and_not_mask: "and_not v (2 ^ k - 1) = v - v mod 2 ^ k"
  unfolding and_not_def mask_eq_exp_minus_1[symmetric] take_bit_eq_mask[symmetric] take_bit_eq_mod ..

lemma align_down_pow: "heap_align_down v (2 ^ k) = v - v mod 2 ^ k" if "k < 64"
proof -
  have "(2 :: nat) ^ k < 2 ^ 64" using that by (intro power_strict_increasing) simp_all
  moreover have "1 \<le> (2 :: nat) ^ k" by simp
  ultimately show ?thesis unfolding heap_align_down_def by (simp only: sub64_small and_not_mask)
qed

lemma align_down_8: "heap_align_down v 8 = v - v mod 8"
  using align_down_pow[of 3 v] by simp

lemma align_up_8:
  assumes "v + 8 < 2 ^ 64"
  shows "v \<le> heap_align_up v 8" "heap_align_up v 8 < v + 8" "8 dvd heap_align_up v 8"
proof -
  have "sub64 (add64 v 8) 1 = v + 7" "sub64 8 1 = 2 ^ 3 - 1" using assms by (simp_all add: sub64_small)
  then have "heap_align_up v 8 = (v + 7) - (v + 7) mod 8" unfolding heap_align_up_def by (simp only: and_not_mask) simp
  moreover have "8 dvd (v + 7) - (v + 7) mod 8" by (rule dvd_minus_mod)
  ultimately show "v \<le> heap_align_up v 8" "heap_align_up v 8 < v + 8" "8 dvd heap_align_up v 8"
    using mod_less_divisor[of 8 "v + 7"] by simp_all
qed

lemma align_up_8_id: "8 dvd v \<Longrightarrow> v + 8 < 2 ^ 64 \<Longrightarrow> heap_align_up v 8 = v"
  using align_up_8[of v] by presburger

lemma min_block_8 [simp]: "heap_min_block_size 8 = 32"
  by (simp add: heap_min_block_size_def align_up_8_id)

lemma flag_simps [simp]:
  "even v \<Longrightarrow> clear_flag v = v" "even v \<Longrightarrow> clear_flag (set_flag v) = v" "odd (set_flag v)"
  "even (clear_flag v)" "clear_flag (clear_flag v) = clear_flag v" "clear_flag (set_flag v) = clear_flag v"
  by (auto simp: clear_flag_def set_flag_def odd_iff_mod_2_eq_one)

lemma even_of_8: "8 dvd s \<Longrightarrow> even (s :: nat)"
  by (meson dvd_trans even_numeral)

section \<open>Tilings\<close>

type_synonym blocks = "nat \<Rightarrow> (nat \<times> bool) option"

definition tile :: "nat \<Rightarrow> nat \<Rightarrow> blocks \<Rightarrow> nat \<Rightarrow> nat \<Rightarrow> bool" where
  "tile f l B a s \<longleftrightarrow>
     f \<le> a \<and> 8 dvd a \<and> 32 \<le> s \<and> 8 dvd s \<and> a + s \<le> l \<and> (a + s = l \<or> B (a + s) \<noteq> None) \<and>
     (\<forall>x. a < x \<and> x < a + s \<longrightarrow> B x = None)"

definition tiles :: "nat \<Rightarrow> nat \<Rightarrow> blocks \<Rightarrow> bool" where
  "tiles f l B \<longleftrightarrow> B f \<noteq> None \<and> (\<forall>a s u. B a = Some (s, u) \<longrightarrow> tile f l B a s)"

lemma tilesI: "B f \<noteq> None \<Longrightarrow> (\<And>a s u. B a = Some (s, u) \<Longrightarrow> tile f l B a s) \<Longrightarrow> tiles f l B"
  by (auto simp: tiles_def)

lemma tilesD:
  assumes "tiles f l B" "B a = Some (s, u)"
  shows "f \<le> a" "8 dvd a" "32 \<le> s" "8 dvd s" "a + s \<le> l" "a + s \<noteq> l \<Longrightarrow> \<exists>t v. B (a + s) = Some (t, v)"
    "a < x \<Longrightarrow> x < a + s \<Longrightarrow> B x = None"
proof -
  have "tile f l B a s" using assms unfolding tiles_def by blast
  then show "f \<le> a" "8 dvd a" "32 \<le> s" "8 dvd s" "a + s \<le> l" "a + s \<noteq> l \<Longrightarrow> \<exists>t v. B (a + s) = Some (t, v)"
    "a < x \<Longrightarrow> x < a + s \<Longrightarrow> B x = None"
    unfolding tile_def by (blast | force)+
qed

lemma tiles_disjoint: "tiles f l B \<Longrightarrow> B a = Some (s, u) \<Longrightarrow> B b = Some (t, v) \<Longrightarrow> a < b \<Longrightarrow> a + s \<le> b"
  by (metis linorder_not_less option.distinct(1) tilesD(7))

lemma tiles_same_end: "tiles f l B \<Longrightarrow> B a = Some (s, u) \<Longrightarrow> B b = Some (t, v) \<Longrightarrow> a + s = b + t \<Longrightarrow> a = b"
  using tiles_disjoint[of f l B a s u b t v] tiles_disjoint[of f l B b t v a s u] tilesD(3)[of f l B]
  by (metis add_cancel_right_right add_leD1 le_add1 le_antisym linorder_neqE_nat not_numeral_le_zero)

lemma tiles_last: "tiles f l B \<Longrightarrow> B l = None"
  using tilesD(3,5)[of f l B l] by (cases "B l") fastforce+

lemma tiles_pred:
  assumes t: "tiles f l B" and a: "B a = Some x" "a \<noteq> f"
  shows "\<exists>p s u. B p = Some (s, u) \<and> p + s = a"
proof -
  define P where "P = {p. p < a \<and> B p \<noteq> None}"
  have "finite P" by (simp add: P_def)
  moreover have "f \<in> P" using t a tilesD(1)[OF t, of a] by (cases x) (force simp: P_def tiles_def)
  ultimately have mx: "Max P \<in> P" "\<And>q. q \<in> P \<Longrightarrow> q \<le> Max P" by (blast intro: Max_in Max_ge)+
  then obtain s u where p: "B (Max P) = Some (s, u)" "Max P < a" by (auto simp: P_def)
  obtain sa ua where x: "x = (sa, ua)" by fastforce
  have le: "Max P + s \<le> a" using tiles_disjoint[OF t p(1) _ p(2)] a x by blast
  have "a < l" using tilesD(3,5)[OF t, of a sa ua] a x by simp
  then obtain t' v where n: "B (Max P + s) = Some (t', v)" using tilesD(6)[OF t p(1)] le by auto
  have "Max P + s = a"
  proof (rule ccontr)
    assume "Max P + s \<noteq> a"
    then have "Max P + s \<in> P" using le n by (simp add: P_def)
    then show False using mx(2) tilesD(3)[OF t p(1)] by fastforce
  qed
  then show ?thesis using p by blast
qed

lemma tile_same_dom: "(\<And>x. B' x = None \<longleftrightarrow> B x = None) \<Longrightarrow> tile f l B' a s = tile f l B a s"
  by (simp add: tile_def)

lemma tiles_retag:
  assumes t: "tiles f l B" and a: "B a = Some (s, u)"
  shows "tiles f l (B(a \<mapsto> (s, w)))"
proof (rule tilesI)
  show "(B(a \<mapsto> (s, w))) f \<noteq> None" using t by (auto simp: tiles_def)
  fix b r v assume "(B(a \<mapsto> (s, w))) b = Some (r, v)"
  then obtain v' where "B b = Some (r, v')" using a by (auto split: if_splits)
  then have "tile f l B b r" using t unfolding tiles_def by blast
  then show "tile f l (B(a \<mapsto> (s, w))) b r" using a by (subst tile_same_dom[of _ B]) auto
qed

lemma tiles_split:
  assumes t: "tiles f l B" and a: "B a = Some (s, u)" and s: "s = s1 + s2" "32 \<le> s1" "32 \<le> s2" "8 dvd s1"
  shows "tiles f l (B(a \<mapsto> (s1, w), a + s1 \<mapsto> (s2, v)))"
proof -
  let ?B = "B(a \<mapsto> (s1, w), a + s1 \<mapsto> (s2, v))"
  note A = tilesD[OF t a]
  have 8: "8 dvd s2" using A(4) s by (simp add: dvd_add_right_iff)
  have sub: "B x \<noteq> None \<Longrightarrow> ?B x \<noteq> None" for x by auto
  have block: "tile f l ?B b t" if b: "?B b = Some (t, z)" for b t z
  proof -
    consider "b = a + s1" | "b = a" | "b \<noteq> a" "b \<noteq> a + s1" by blast
    then show ?thesis
    proof cases
      case 1
      then have "t = s2" using b by simp
      then show ?thesis using 1 A s 8 by (auto simp: tile_def add.assoc)
    next
      case 2
      then have "t = s1" using b s by (auto split: if_splits)
      then show ?thesis using 2 A s by (auto simp: tile_def add.assoc)
    next
      case 3
      then have b': "B b = Some (t, z)" using b by simp
      note D = tilesD[OF t b']
      have "x \<noteq> a" "x \<noteq> a + s1" if "b < x" "x < b + t" for x
      proof -
        show "x \<noteq> a" using D(7)[OF that] a by auto
        show "x \<noteq> a + s1"
        proof
          assume x: "x = a + s1"
          consider "a < b" | "b < a" using 3 by linarith
          then show False
          proof cases
            case 1
            then show False using tiles_disjoint[OF t a b' 1] that x s by simp
          next
            case 2
            then show False using tiles_disjoint[OF t b' a 2] that x s by simp
          qed
        qed
      qed
      then show ?thesis using D sub unfolding tile_def by auto
    qed
  qed
  have "?B f \<noteq> None" using t by (auto simp: tiles_def)
  then show ?thesis using block by (rule tilesI)
qed

lemma tiles_merge:
  assumes t: "tiles f l B" and a: "B a = Some (s, u)" and n: "B (a + s) = Some (t', v)"
  shows "tiles f l (B(a + s := None, a \<mapsto> (s + t', w)))"
proof -
  let ?B = "B(a + s := None, a \<mapsto> (s + t', w))"
  note A = tilesD[OF t a] and N = tilesD[OF t n]
  have block: "tile f l ?B b t" if b: "?B b = Some (t, z)" for b t z
  proof (cases "b = a")
    case True
    then have te: "t = s + t'" using b by simp
    have "?B x = None" if x: "a < x" "x < a + (s + t')" for x
    proof -
      consider "x < a + s" | "x = a + s" | "a + s < x" by linarith
      then show ?thesis using A(3) A(7)[OF x(1)] N(7)[of x] x by cases (auto simp: add.assoc)
    qed
    moreover have "a + (s + t') = l \<or> ?B (a + (s + t')) \<noteq> None"
      using N(3,6) A(3) by (auto simp: add.assoc)
    ultimately show ?thesis using True te A N unfolding tile_def by (auto simp: add.assoc)
  next
    case False
    then have b': "B b = Some (t, z)" and ne: "b \<noteq> a + s" using b by (auto split: if_splits)
    note D = tilesD[OF t b']
    have "b + t \<noteq> a + s" using tiles_same_end[OF t b' a] False by auto
    then have "b + t = l \<or> ?B (b + t) \<noteq> None" using D(6) by auto
    moreover have "?B x = None" if "b < x" "x < b + t" for x using D(7)[OF that] a A(3) by auto
    ultimately show ?thesis using D unfolding tile_def by auto
  qed
  have "?B f \<noteq> None" using t tilesD(1)[OF t a] tilesD(3)[OF t a] by (auto simp: tiles_def)
  then show ?thesis using block by (rule tilesI)
qed

section \<open>The representation\<close>

definition tagged :: "nat set \<Rightarrow> heap_mem \<Rightarrow> blocks \<Rightarrow> bool" where
  "tagged X m B \<longleftrightarrow> (\<forall>a s u. B a = Some (s, u) \<longrightarrow>
     heap_block_size m a = s \<and> (a \<notin> X \<longrightarrow> heap_prev_used m (a + s) = u) \<and>
     (\<not> u \<longrightarrow> blk_prev_size (m (a + s)) = s))"

definition coalesced :: "blocks \<Rightarrow> bool" where
  "coalesced B \<longleftrightarrow> (\<forall>a s t u. B a = Some (s, False) \<and> B (a + s) = Some (t, u) \<longrightarrow> u)"

definition free_addrs :: "blocks \<Rightarrow> nat set" where
  "free_addrs B = {a. \<exists>s. B a = Some (s, False)}"

definition heap_geom :: "heap_cntrl \<Rightarrow> bool" where
  "heap_geom c \<longleftrightarrow> page_size c = 8 \<and> min_block_size c = 32 \<and> first_block c < last_block c \<and>
     last_block c + 16 < 2 ^ 64 \<and> 8 dvd last_block c \<and> \<not> (first_block c \<le> free_list c \<and> free_list c \<le> last_block c)"

definition heap_rep :: "nat set \<Rightarrow> heap_cntrl \<Rightarrow> heap_mem \<Rightarrow> blocks \<Rightarrow> nat list \<Rightarrow> bool" where
  "heap_rep X c m B fs \<longleftrightarrow> heap_geom c \<and> tiles (first_block c) (last_block c) B \<and> tagged X m B \<and> coalesced B \<and>
     heap_prev_used m (first_block c) \<and> heap_block_size m (last_block c) = sub64 (first_block c) (last_block c) \<and>
     links m (free_list c) fs (free_list c) \<and> distinct (free_list c # fs) \<and> set fs = free_addrs B"

end
