(* ===== verification/Librt_Heap_Ops.thy ===== *)
theory Librt_Heap_Ops
  imports Librt_Heap_Inv
begin

text \<open>
  Every step of the allocator on a represented heap: splitting, taking a block from the beginning or the
  end of a free block, the search, and the four ways a freed block joins its neighbours.
\<close>

section \<open>Reading a representation\<close>

lemma repD:
  assumes "heap_rep X c m B fs"
  shows "page_size c = 8" "min_block_size c = 32" "first_block c < last_block c" "last_block c + 16 < 2 ^ 64"
    "8 dvd last_block c" "tiles (first_block c) (last_block c) B" "tagged X m B" "coalesced B"
    "heap_prev_used m (first_block c)" "heap_block_size m (last_block c) = sub64 (first_block c) (last_block c)"
    "links m (free_list c) fs (free_list c)" "distinct (free_list c # fs)" "set fs = free_addrs B"
    "\<not> (first_block c \<le> free_list c \<and> free_list c \<le> last_block c)" "heap_geom c"
  using assms unfolding heap_rep_def heap_geom_def by blast+

lemma taggedD:
  assumes "tagged X m B" "B a = Some (s, u)"
  shows "heap_block_size m a = s" "a \<notin> X \<Longrightarrow> heap_prev_used m (a + s) = u" "\<not> u \<Longrightarrow> blk_prev_size (m (a + s)) = s"
  using assms by (auto simp: tagged_def)

lemma rep_block:
  assumes r: "heap_rep X c m B fs" and b: "B a = Some (s, u)"
  shows "first_block c \<le> a" "a + s \<le> last_block c" "a < last_block c" "a + s + 16 < 2 ^ 64" "32 \<le> s" "8 dvd a" "8 dvd s"
    "heap_block_size m a = s" "heap_block_at a s = a + s" "heap_block_in c a" "heap_block_in c (a + s)"
    "heap_alloc_area_of_block a = a + 16"
proof -
  note D = repD[OF r] and T = tilesD[OF repD(6)[OF r] b]
  show "first_block c \<le> a" "a + s \<le> last_block c" "a < last_block c" "32 \<le> s" "8 dvd a" "8 dvd s"
    using T D by auto
  show "a + s + 16 < 2 ^ 64" using T D by auto
  show "heap_block_size m a = s" by (rule taggedD[OF D(7) b])
  show "heap_block_at a s = a + s" "heap_alloc_area_of_block a = a + 16" using T D
    by (auto simp: heap_block_at_def heap_alloc_area_of_block_def)
  show "heap_block_in c a" "heap_block_in c (a + s)" using T D by (auto simp: heap_block_in_def)
qed

text \<open>The end of a block is the end of no other; the inside of a block is neither a block nor an end.\<close>

lemma tiles_interior:
  assumes t: "tiles f l B" and a: "B a = Some (s, u)" and x: "a < x" "x < a + s"
  shows "B x = None" "x \<noteq> l" "x \<noteq> f" "B b = Some (t, v) \<Longrightarrow> x \<noteq> b + t"
proof -
  note A = tilesD[OF t a]
  show n: "B x = None" and l: "x \<noteq> l" using A x by auto
  show "x \<noteq> f" using A(1) x by simp
  assume b: "B b = Some (t, v)"
  show "x \<noteq> b + t" using tilesD(6)[OF t b] n l by auto
qed

lemma free_succ_used:
  "heap_rep X c m B fs \<Longrightarrow> B a = Some (s, False) \<Longrightarrow> B (a + s) = Some (t, u) \<Longrightarrow> u"
  using repD(8) by (fastforce simp: coalesced_def)

lemma prev_used_pred:
  assumes r: "heap_rep X c m B fs" and a: "B a = Some x" "a \<noteq> first_block c"
  obtains p s u where "B p = Some (s, u)" "p + s = a" "p < a" "p \<notin> X \<Longrightarrow> heap_prev_used m a = u"
proof -
  obtain p s u where p: "B p = Some (s, u)" "p + s = a" using tiles_pred[OF repD(6)[OF r] a] by blast
  then show thesis using that[of p s u] rep_block(5)[OF r p(1)] taggedD(2)[OF repD(7)[OF r] p(1)] by auto
qed

lemma free_prev_used:
  assumes r: "heap_rep {} c m B fs" and b: "B b = Some (s, False)"
  shows "heap_prev_used m b"
proof (cases "b = first_block c")
  case True
  then show ?thesis using repD(9)[OF r] by simp
next
  case False
  then obtain p t u where p: "B p = Some (t, u)" "p + t = b" "heap_prev_used m b = u"
    using prev_used_pred[OF r b False] by (metis empty_iff)
  then have "u" using free_succ_used[OF r, of p t s False] b by (cases u) auto
  then show ?thesis using p by simp
qed

text \<open>Two steps on from a block whose successor is in use (or last) the flag is set.\<close>

lemma next_next_used:
  assumes r: "heap_rep X c m B fs" and d: "B d = Some (s, u)"
    and used: "\<And>t v. B (d + s) = Some (t, v) \<Longrightarrow> v" and X: "d + s \<notin> X"
  shows "heap_prev_used m (heap_block_at (d + s) (heap_block_size m (d + s)))"
proof (cases "d + s = last_block c")
  case True
  then show ?thesis using repD(3,4,9,10)[OF r] by (simp add: heap_block_at_def add64_wrap)
next
  case False
  then obtain t v where n: "B (d + s) = Some (t, v)" using tilesD(6)[OF repD(6)[OF r] d] by blast
  then have "v" by (rule used)
  then show ?thesis using rep_block(8,9)[OF r n] taggedD(2)[OF repD(7)[OF r] n X] by simp
qed

section \<open>Splitting\<close>

lemma align_up_8_least: "used \<le> v \<Longrightarrow> 8 dvd v \<Longrightarrow> used + 8 < 2 ^ 64 \<Longrightarrow> heap_align_up used 8 \<le> v"
  using align_up_8[of used] by presburger

lemma split_keep:
  assumes r: "heap_rep {d} c m B fs" and d: "B d = Some (s, True)"
  shows "heap_rep {} c (put_size (d + s) (set_flag (blk_size (m (d + s)))) m) B fs"
proof -
  let ?m = "put_size (d + s) (set_flag (blk_size (m (d + s)))) m"
  note D = repD[OF r]
  have sz: "heap_block_size ?m x = heap_block_size m x" for x
    by (simp add: heap_block_size_def field_simps)
  have fl: "heap_prev_used ?m x = (heap_prev_used m x \<or> x = d + s)" for x
    by (auto simp: heap_prev_used_def field_simps)
  have "heap_block_size ?m a = t \<and> heap_prev_used ?m (a + t) = u \<and> (\<not> u \<longrightarrow> blk_prev_size (?m (a + t)) = t)"
    if a: "B a = Some (t, u)" for a t u
  proof (cases "a = d")
    case True
    then show ?thesis unfolding sz fl using a d taggedD(1)[OF D(7) a] by simp
  next
    case False
    then have "a + t \<noteq> d + s" using tiles_same_end[OF D(6) a d] by auto
    then show ?thesis unfolding sz fl using False taggedD[OF D(7) a] by (auto simp: field_simps)
  qed
  then have "tagged {} ?m B" unfolding tagged_def by blast
  moreover have "links ?m (free_list c) fs (free_list c)"
    using D(11) by (subst links_cong[of _ m]) (simp_all add: field_simps)
  ultimately show ?thesis using D unfolding heap_rep_def by (simp add: sz fl)
qed

lemma split_carve:
  assumes r: "heap_rep {d} c m B (xs @ ys)" and d: "B d = Some (s, True)"
    and used: "\<And>t v. B (d + s) = Some (t, v) \<Longrightarrow> v"
    and s1: "32 \<le> s1" "s1 + 32 \<le> s" "8 dvd s1"
    and m': "m' = (let fb = d + s1; m = heap_block_set_size d s1 m;
        m = heap_block_insert_after (last (free_list c # xs)) fb m; m = put_size fb (set_flag (s - s1)) m;
        m = put_prev_size (d + s) (s - s1) m in put_size (d + s) (clear_flag (blk_size (m (d + s)))) m)"
  shows "heap_rep {} c m' (B(d \<mapsto> (s1, True), d + s1 \<mapsto> (s - s1, False))) (xs @ (d + s1) # ys)"
proof -
  let ?fb = "d + s1" and ?n = "d + s" and ?B = "B(d \<mapsto> (s1, True), d + s1 \<mapsto> (s - s1, False))"
  note D = repD[OF r] and K = rep_block[OF r d]
  have in': "d < ?fb" "?fb < d + s" using s1 by auto
  note I = tiles_interior[OF D(6) d in']
  have ne: "?fb \<noteq> d" "?n \<noteq> d" "?fb \<noteq> ?n" using s1 by auto
  have ev: "even s1" "even (s - s1)" using s1(3) K(7) by (auto intro: even_of_8 dvd_diff_nat)
  have size: "blk_size (m' x) = (if x = ?n then clear_flag (blk_size (m x)) else if x = ?fb then set_flag (s - s1)
      else if x = d then (if heap_prev_used m d then set_flag s1 else s1) else blk_size (m x))" for x
    using ne unfolding m' Let_def by (simp add: field_simps)
  have psize: "blk_prev_size (m' x) = (if x = ?n then s - s1 else blk_prev_size (m x))" for x
    unfolding m' Let_def by (simp add: field_simps)
  have sz: "heap_block_size m' x = (if x = ?fb then s - s1 else if x = d then s1 else heap_block_size m x)" for x
    unfolding heap_block_size_def size using ne ev by auto
  have fl: "heap_prev_used m' x = (if x = ?n then False else if x = ?fb then True else heap_prev_used m x)" for x
    unfolding heap_prev_used_def size using ne ev by (auto simp: heap_prev_used_def)
  have "tagged {} m' ?B"
  proof -
    have "heap_block_size m' b = t \<and> heap_prev_used m' (b + t) = v \<and> (\<not> v \<longrightarrow> blk_prev_size (m' (b + t)) = t)"
      if b: "?B b = Some (t, v)" for b t v
    proof -
      consider "b = ?fb" | "b = d" | "b \<noteq> d" "b \<noteq> ?fb" "B b = Some (t, v)" using b by (auto split: if_splits)
      then show ?thesis
      proof cases
        case 1
        then have "t = s - s1" "\<not> v" using b by auto
        then show ?thesis using 1 s1 in' by (simp add: sz fl psize)
      next
        case 2
        then have "t = s1" "v" using b ne by (auto split: if_splits)
        then show ?thesis using 2 ne by (simp add: sz fl)
      next
        case 3
        have "b + t \<noteq> ?n" using tiles_same_end[OF D(6) d 3(3)] 3(1) by auto
        moreover have "b + t \<noteq> ?fb" using I(4)[OF 3(3)] by auto
        ultimately show ?thesis using 3 taggedD[OF D(7) 3(3)] by (auto simp: sz fl psize)
      qed
    qed
    then show ?thesis unfolding tagged_def by blast
  qed
  moreover have "tiles (first_block c) (last_block c) ?B"
    using s1 by (intro tiles_split[OF D(6) d]) auto
  moreover have "coalesced ?B"
  proof -
    have "u" if a: "?B a = Some (r, False)" and b: "?B (a + r) = Some (t, u)" for a r t u
    proof (cases "a = ?fb")
      case True
      then have "a + r = ?n" using a s1 by auto
      then show ?thesis using b ne used[of t u] by simp
    next
      case False
      then have a': "B a = Some (r, False)" "a \<noteq> d" using a by (auto split: if_splits)
      have "a + r \<noteq> ?fb" using I(4)[OF a'(1)] by auto
      then show ?thesis
        using b free_succ_used[OF r a'(1), of t u] by (auto split: if_splits)
    qed
    then show ?thesis unfolding coalesced_def by blast
  qed
  moreover have "free_list c \<noteq> ?fb" using D(14) K(1,2) in' by linarith
  moreover have fresh: "?fb \<notin> set (xs @ ys)" using D(13) I(1) by (auto simp: free_addrs_def)
  moreover have "links m' (free_list c) (xs @ ?fb # ys) (free_list c)"
  proof -
    let ?m1 = "heap_block_set_size d s1 m"
    have "links ?m1 (free_list c) (xs @ ys) (free_list c)"
      using D(11) by (subst links_cong[of _ m]) (simp_all add: field_simps)
    then have "links (heap_block_insert_after (last (free_list c # xs)) ?fb ?m1) (free_list c) (xs @ ?fb # ys) (free_list c)"
      using D(12) fresh \<open>free_list c \<noteq> ?fb\<close> by (intro links_insert) auto
    then show ?thesis
      by (subst links_cong[of _ "heap_block_insert_after (last (free_list c # xs)) ?fb ?m1"])
        (simp_all add: m' Let_def field_simps del: last.simps)
  qed
  moreover have "set (xs @ ?fb # ys) = free_addrs ?B"
    using D(13) d ne by (auto simp: free_addrs_def split: if_splits)
  moreover have "heap_prev_used m' (first_block c)"
    using D(9) K(1) K(5) I(3) ne by (auto simp: fl)
  moreover have "heap_block_size m' (last_block c) = sub64 (first_block c) (last_block c)"
    using D(10) K(3) I(2) by (simp add: sz)
  ultimately show ?thesis using D(12,15) unfolding heap_rep_def by auto
qed

lemma heap_block_split_rep:
  assumes r: "heap_rep {d} c m B (xs @ ys)" and d: "B d = Some (s, True)"
    and used: "\<forall>t v. B (d + s) = Some (t, v) \<longrightarrow> v"
    and asz: "asz + 8 \<le> s"
  obtains s1 B' fs' where
    "heap_rep {} c (heap_block_split c d (d + s) (last (free_list c # xs)) asz m) B' fs'"
    "asz + 8 \<le> s1" "s1 \<le> s"
    "B' = B \<and> s1 = s \<or> 32 \<le> s1 \<and> s1 + 32 \<le> s \<and> B' = B(d \<mapsto> (s1, True), d + s1 \<mapsto> (s - s1, False))"
proof -
  note D = repD[OF r] and K = rep_block[OF r d]
  let ?us = "max asz 16 + 16" and ?an = "last (free_list c # xs)"
  have us: "?us \<le> s + 8" using asz K(5) by auto
  have ar: "sub64 32 16 = 16" "add64 32 8 = 40" "add64 (max asz 16) 16 = ?us" "add64 s 8 = s + 8"
    using K(4) asz by (simp_all add: sub64_small max_def)
  have fs: "sub64 (s + 8) ?us = s + 8 - ?us" using us K(4) by (intro sub64_small) auto
  show thesis
  proof (cases "40 \<le> s + 8 - ?us")
    case True
    define s1 where "s1 = heap_align_up ?us 8"
    have bnd: "?us \<le> s - 32" "?us + 8 < 2 ^ 64" using True us K(4) by auto
    have s1: "?us \<le> s1" "8 dvd s1" using align_up_8[OF bnd(2)] by (simp_all add: s1_def)
    have "8 dvd s - 32" using K(7) by (simp add: dvd_diff_nat)
    then have "s1 \<le> s - 32" using align_up_8_least[OF bnd(1) _ bnd(2)] by (simp add: s1_def)
    then have lo: "32 \<le> s1" "s1 + 32 \<le> s" "asz + 8 \<le> s1" using s1(1) K(5) by auto
    have fb: "heap_block_at d s1 = d + s1" "sub64 s s1 = s - s1"
      using lo K(4) by (auto simp: heap_block_at_def sub64_small)
    have ndn: "d + s \<noteq> d" using K(5) by simp
    have nn: "heap_prev_used m (heap_block_at (d + s) (heap_block_size m (d + s)))"
      by (rule next_next_used[OF r d]) (use used ndn in auto)
    have flag: "heap_prev_used (heap_block_set_size d s1 m) x = heap_prev_used m x" for x
      using s1(2) by (auto simp: heap_prev_used_def field_simps even_of_8)
    have eq: "heap_block_split c d (d + s) ?an asz m = (let fb = d + s1; m = heap_block_set_size d s1 m;
        m = heap_block_insert_after ?an fb m; m = put_size fb (set_flag (s - s1)) m;
        m = put_prev_size (d + s) (s - s1) m in put_size (d + s) (clear_flag (blk_size (m (d + s)))) m)"
      unfolding heap_block_split_def Let_def D(1,2) ar K(8) fs s1_def[symmetric] fb flag
      using True nn by simp
    have "heap_rep {} c (heap_block_split c d (d + s) ?an asz m)
        (B(d \<mapsto> (s1, True), d + s1 \<mapsto> (s - s1, False))) (xs @ (d + s1) # ys)"
      by (rule split_carve[OF r d _ lo(1,2) s1(2) eq]) (use used in blast)
    then show thesis by (rule that[of _ _ s1]) (use lo in auto)
  next
    case False
    then have "heap_block_split c d (d + s) ?an asz m = put_size (d + s) (set_flag (blk_size (m (d + s)))) m"
      unfolding heap_block_split_def Let_def D(1,2) ar K(8) fs by simp
    then show thesis using that[of B "xs @ ys" s] split_keep[OF r d] asz by simp
  qed
qed

section \<open>Allocating a found block\<close>

definition live :: "blocks \<Rightarrow> (nat \<times> nat) set" where
  "live B = {(a, s). B a = Some (s, True)}"

lemma remove_rep:
  assumes r: "heap_rep {} c m B (xs @ b # ys)" and b: "B b = Some (s, False)"
  shows "heap_rep {b} c (heap_block_remove b m) (B(b \<mapsto> (s, True))) (xs @ ys)"
    "blk_prev (m b) = last (free_list c # xs)"
proof -
  let ?m = "heap_block_remove b m" and ?B = "B(b \<mapsto> (s, True))"
  note D = repD[OF r]
  have l: "links ?m (free_list c) (xs @ ys) (free_list c)" and p: "blk_prev (m b) = last (free_list c # xs)"
    using links_remove[OF D(11,12)] by simp_all
  then show "blk_prev (m b) = last (free_list c # xs)" by simp
  have sz: "heap_block_size ?m x = heap_block_size m x" "heap_prev_used ?m x = heap_prev_used m x" for x
    by (simp_all add: heap_block_size_def heap_prev_used_def field_simps)
  have "tagged {b} ?m ?B"
    unfolding tagged_def sz using taggedD[OF D(7)] b by (auto simp: field_simps split: if_splits)
  moreover have "tiles (first_block c) (last_block c) ?B" by (rule tiles_retag[OF D(6) b])
  moreover have "coalesced ?B" using D(8) b unfolding coalesced_def by (auto split: if_splits)
  moreover have "set (xs @ ys) = free_addrs ?B"
  proof -
    have "set (xs @ b # ys) = free_addrs B" by (rule D(13))
    moreover have "b \<notin> set (xs @ ys)" using D(12) by auto
    moreover have "free_addrs ?B = free_addrs B - {b}" by (auto simp: free_addrs_def split: if_splits)
    ultimately show ?thesis by auto
  qed
  ultimately show "heap_rep {b} c ?m ?B (xs @ ys)" using D l unfolding heap_rep_def sz by auto
qed

lemma from_end_rep:
  assumes r: "heap_rep {b} c m B (xs @ ys)" and b: "B b = Some (s, True)" and pu: "heap_prev_used m b"
    and k: "32 \<le> k" "k + 32 \<le> s" "8 dvd k"
    and m': "m' = put_size (b + k) (s - k) (put_prev_size (b + k) k (put_size b (set_flag k)
        (heap_block_insert_after (last (free_list c # xs)) b m)))"
  shows "heap_rep {b + k} c m' (B(b \<mapsto> (k, False), b + k \<mapsto> (s - k, True))) (xs @ b # ys)"
proof -
  let ?nb = "b + k" and ?B = "B(b \<mapsto> (k, False), b + k \<mapsto> (s - k, True))"
  note D = repD[OF r] and K = rep_block[OF r b]
  have in': "b < ?nb" "?nb < b + s" using k by auto
  note I = tiles_interior[OF D(6) b in']
  have ne: "?nb \<noteq> b" using k by auto
  have ev: "even k" "even (s - k)" using k(3) K(7) by (auto intro: even_of_8 dvd_diff_nat)
  have size: "blk_size (m' x) = (if x = ?nb then s - k else if x = b then set_flag k else blk_size (m x))" for x
    unfolding m' by (simp add: field_simps)
  have psize: "blk_prev_size (m' x) = (if x = ?nb then k else blk_prev_size (m x))" for x
    unfolding m' by (simp add: field_simps)
  have sz: "heap_block_size m' x = (if x = ?nb then s - k else if x = b then k else heap_block_size m x)" for x
    unfolding heap_block_size_def size using ne ev by auto
  have fl: "heap_prev_used m' x = (if x = ?nb then False else heap_prev_used m x)" for x
    unfolding heap_prev_used_def size using ne ev pu by (auto simp: heap_prev_used_def)
  have "tagged {?nb} m' ?B"
  proof -
    have "heap_block_size m' a = t \<and> (a \<notin> {?nb} \<longrightarrow> heap_prev_used m' (a + t) = v) \<and> (\<not> v \<longrightarrow> blk_prev_size (m' (a + t)) = t)"
      if a: "?B a = Some (t, v)" for a t v
    proof -
      consider "a = ?nb" | "a = b" | "a \<noteq> b" "a \<noteq> ?nb" "B a = Some (t, v)" using a by (auto split: if_splits)
      then show ?thesis
      proof cases
        case 1
        then have "t = s - k" "v" using a by auto
        then show ?thesis using 1 ne by (simp add: sz)
      next
        case 2
        then have "t = k" "\<not> v" using a ne by (auto split: if_splits)
        then show ?thesis using 2 ne by (simp add: sz fl psize)
      next
        case 3
        have "a + t \<noteq> ?nb" using I(4)[OF 3(3)] by auto
        then show ?thesis using 3 taggedD[OF D(7) 3(3)] by (auto simp: sz fl psize)
      qed
    qed
    then show ?thesis unfolding tagged_def by blast
  qed
  moreover have "tiles (first_block c) (last_block c) ?B"
    using k by (intro tiles_split[OF D(6) b]) auto
  moreover have "coalesced ?B"
  proof -
    have "u" if a: "?B a = Some (r', False)" and n: "?B (a + r') = Some (t, u)" for a r' t u
    proof (cases "a = b")
      case True
      then have "r' = k" using a ne by (auto split: if_splits)
      then show ?thesis using n True by simp
    next
      case False
      then have a': "B a = Some (r', False)" using a by (auto split: if_splits)
      have "a + r' \<noteq> b" using taggedD(2)[OF D(7) a'] False pu by auto
      moreover have "a + r' \<noteq> ?nb" using I(4)[OF a'] by auto
      ultimately show ?thesis using n free_succ_used[OF r a', of t u] by (auto split: if_splits)
    qed
    then show ?thesis unfolding coalesced_def by blast
  qed
  moreover have fresh: "b \<notin> set (xs @ ys)" using D(13) b by (auto simp: free_addrs_def)
  moreover have slb: "free_list c \<noteq> b" using D(14) K(1,3) by auto
  moreover have "links m' (free_list c) (xs @ b # ys) (free_list c)"
  proof -
    have "links (heap_block_insert_after (last (free_list c # xs)) b m) (free_list c) (xs @ b # ys) (free_list c)"
      using D(11,12) fresh slb by (intro links_insert) auto
    then show ?thesis
      by (subst links_cong[of _ "heap_block_insert_after (last (free_list c # xs)) b m"])
        (simp_all add: m' field_simps del: last.simps)
  qed
  moreover have "set (xs @ b # ys) = free_addrs ?B"
    using D(13) b ne I(1) by (auto simp: free_addrs_def split: if_splits)
  moreover have "heap_prev_used m' (first_block c)" using D(9) I(3) by (auto simp: fl)
  moreover have "heap_block_size m' (last_block c) = sub64 (first_block c) (last_block c)"
    using D(10) K(3) I(2) by (simp add: sz)
  ultimately show ?thesis using D(12,15) unfolding heap_rep_def by auto
qed

lemma heap_block_allocate_rep:
  assumes r: "heap_rep {} c m B fs" and b: "B b = Some (s, False)"
    and p: "p = b + 16 \<or> b + 48 \<le> p \<and> p + 16 \<le> b + s \<and> 8 dvd p" and fit: "p + sz \<le> b + s + 8"
  obtains B' fs' s1 where "heap_rep {} c (fst (heap_block_allocate c b p sz m)) B' fs'"
    "live B' = insert (p - 16, s1) (live B)" "sz + 8 \<le> s1" "p - 16 + s1 \<le> b + s"
    "snd (heap_block_allocate c b p sz m) = p - 16"
proof -
  note D = repD[OF r] and K = rep_block[OF r b]
  obtain xs ys where fs: "fs = xs @ b # ys"
    using D(13) b split_list[of b fs] by (auto simp: free_addrs_def)
  let ?B0 = "B(b \<mapsto> (s, True))" and ?m0 = "heap_block_remove b m" and ?an = "last (free_list c # xs)"
  have r0: "heap_rep {b} c ?m0 ?B0 (xs @ ys)" and pv: "blk_prev (m b) = ?an"
    using remove_rep[OF r[unfolded fs] b] by simp_all
  have nu: "\<not> heap_prev_used m (b + s)" using taggedD(2)[OF D(7) b] by simp
  have pu: "heap_prev_used m b" by (rule free_prev_used[OF r b])
  have used: "v" if "B (b + s) = Some (t, v)" for t v by (rule free_succ_used[OF r b that])
  have bs: "b + s \<noteq> b" using K(5) by simp
  have off: "sub64 p (b + 16) = p - (b + 16)" using p fit K by (intro sub64_small) auto
  have alloc: "heap_block_allocate c b p sz m =
     (if p - (b + 16) < 8
      then heap_block_allocate_from_begin c b (b + s) ?an (add64 sz (p - (b + 16))) ?m0
      else heap_block_allocate_from_end c b (b + s) ?an p sz ?m0)"
    unfolding heap_block_allocate_def Let_def K(8,9,12) off D(1) using nu pv by simp
  show thesis
  proof (cases "p = b + 16")
    case True
    have asz: "sz + 8 \<le> s" "add64 sz 0 = sz" using True fit K(4) by simp_all
    have B0: "?B0 b = Some (s, True)" by simp
    have used0: "\<forall>t v. ?B0 (b + s) = Some (t, v) \<longrightarrow> v" using used bs by auto
    obtain s1 B' fs' where o: "heap_rep {} c (heap_block_split c b (b + s) ?an sz ?m0) B' fs'"
      "sz + 8 \<le> s1" "s1 \<le> s"
      "B' = ?B0 \<and> s1 = s \<or> 32 \<le> s1 \<and> s1 + 32 \<le> s \<and> B' = ?B0(b \<mapsto> (s1, True), b + s1 \<mapsto> (s - s1, False))"
      by (rule heap_block_split_rep[OF r0 B0 used0 asz(1)])
    have "live B' = insert (b, s1) (live B)"
    proof (cases "s1 = s")
      case True
      then show ?thesis using o(4) b by (auto simp: live_def split: if_splits)
    next
      case False
      then have s1: "32 \<le> s1" "s1 + 32 \<le> s" and B': "B' = ?B0(b \<mapsto> (s1, True), b + s1 \<mapsto> (s - s1, False))"
        using o(4) by auto
      have "B (b + s1) = None" using tiles_interior(1)[OF D(6) b, of "b + s1"] s1 by simp
      then show ?thesis using b s1 unfolding B' by (auto simp: live_def split: if_splits)
    qed
    then show thesis
      using that[of B' fs' s1] o(1-3) True asz(2)
      unfolding alloc by (simp add: heap_block_allocate_from_begin_def)
  next
    case False
    define k where "k = p - 16 - b"
    have pk: "p = b + k + 16" and k: "32 \<le> k" "k + 32 \<le> s" using p False by (auto simp: k_def)
    have k8: "8 dvd k"
    proof -
      have "8 dvd p - 16 - b" using p False K(6) by (intro dvd_diff_nat) auto
      then show ?thesis by (simp add: k_def)
    qed
    let ?nb = "b + k" and ?B1 = "?B0(b \<mapsto> (k, False), b + k \<mapsto> (s - k, True))"
    let ?m1 = "put_size (b + k) (s - k) (put_prev_size (b + k) k (put_size b (set_flag k)
        (heap_block_insert_after ?an b ?m0)))"
    have pu0: "heap_prev_used ?m0 b" using pu by (simp add: heap_prev_used_def field_simps)
    have r1: "heap_rep {?nb} c ?m1 ?B1 ((xs @ [b]) @ ys)"
      using from_end_rep[OF r0 _ pu0 k k8 refl] by simp
    have ar: "heap_block_of_alloc_area p 8 = ?nb" "sub64 (b + s) ?nb = s - k" "sub64 ?nb b = k"
      using k K(4) pk by (simp_all add: heap_block_of_alloc_area_def sub64_small)
    have B1: "?B1 ?nb = Some (s - k, True)" by simp
    have nxt: "?nb + (s - k) = b + s" using k by simp
    have ne: "b + s \<noteq> b + k" using k by simp
    have used1: "\<forall>t v. ?B1 (?nb + (s - k)) = Some (t, v) \<longrightarrow> v"
      unfolding nxt using used bs ne by auto
    have fit1: "sz + 8 \<le> s - k" using fit pk k by simp
    obtain s1 B' fs' where o:
      "heap_rep {} c (heap_block_split c ?nb (?nb + (s - k)) (last (free_list c # xs @ [b])) sz ?m1) B' fs'"
      "sz + 8 \<le> s1" "s1 \<le> s - k"
      "B' = ?B1 \<and> s1 = s - k \<or> 32 \<le> s1 \<and> s1 + 32 \<le> s - k \<and> B' = ?B1(?nb \<mapsto> (s1, True), ?nb + s1 \<mapsto> (s - k - s1, False))"
      by (rule heap_block_split_rep[OF r1 B1 used1 fit1])
    have "live B' = insert (?nb, s1) (live B)"
    proof (cases "s1 = s - k")
      case True
      have "B ?nb = None" using tiles_interior(1)[OF D(6) b, of ?nb] k by simp
      then show ?thesis using True o(4) b k by (auto simp: live_def split: if_splits)
    next
      case False
      then have s1: "32 \<le> s1" "s1 + 32 \<le> s - k" and B': "B' = ?B1(?nb \<mapsto> (s1, True), ?nb + s1 \<mapsto> (s - k - s1, False))"
        using o(4) by auto
      have "B (?nb + s1) = None" "B ?nb = None"
        using tiles_interior(1)[OF D(6) b, of "?nb + s1"] tiles_interior(1)[OF D(6) b, of ?nb] s1 k by simp_all
      then show ?thesis using b s1 k unfolding B' by (auto simp: live_def split: if_splits)
    qed
    moreover have "heap_block_allocate c b p sz m = (heap_block_split c ?nb (?nb + (s - k)) (last (free_list c # xs @ [b])) sz ?m1, ?nb)"
      unfolding alloc heap_block_allocate_from_end_def Let_def D(1) ar nxt using pk k pu0 by simp
    moreover have "p - 16 = ?nb" using pk by simp
    ultimately show thesis using that[of B' fs' s1] o(1-3) k by simp
  qed
qed

end
