(* ===== verification/Librt_Heap_Alloc.thy ===== *)
theory Librt_Heap_Alloc
  imports Librt_Heap_Ops
begin

text \<open>
  The search is first fit over the ring, it always returns, and allocation as a whole either changes
  nothing and returns a null pointer or carves one new block out of free memory.
\<close>

section \<open>Placing an aligned request in a block\<close>

text \<open>The alignments for which blocks keep a multiple of eight bytes: none, or a power of two from eight up.\<close>

definition good_alignment :: "nat \<Rightarrow> bool" where
  "good_alignment al \<longleftrightarrow> al = 0 \<or> (\<exists>k. 3 \<le> k \<and> k < 64 \<and> al = 2 ^ k)"

lemma heap_check_block_spec:
  assumes r: "heap_rep {} c m B fs" and b: "B b = Some (s, False)" and sz: "sz + 8 \<le> s"
    and k: "3 \<le> k" "k < 64" and p: "heap_check_block c m b sz (2 ^ k) = p" "p \<noteq> 0"
  shows "2 ^ k dvd p \<and> p + sz \<le> b + s + 8 \<and> (p = b + 16 \<or> b + 48 \<le> p \<and> p + 16 \<le> b + s \<and> 8 dvd p)"
proof -
  note D = repD[OF r] and K = rep_block[OF r b]
  have be: "add64 b s = b + s" using K(4) by simp
  have ceil: "sub64 (add64 (add64 (sub64 (b + s) 32) 16) 8) 1 = b + s - 9"
    using K(4,5) by (simp add: sub64_small)
  have ab: "sub64 (add64 (b + s) 8) sz = b + s + 8 - sz" using K(4) sz by (simp add: sub64_small)
  let ?al = "2 ^ k :: nat" and ?x = "b + s + 8 - sz" and ?y = "b + s - 9"
  define q where "q = (if ?x - ?x mod ?al > ?y then ?y - ?y mod ?al else ?x - ?x mod ?al)"
  have def: "heap_check_block c m b sz ?al =
     (if q \<ge> b + 16
      then (let free_size = sub64 (sub64 q 16) b in if free_size \<ge> 32 \<or> free_size = 0 then q else 0) else 0)"
    unfolding heap_check_block_def Let_def D(1,2) K(8,12) be ceil ab align_down_pow[OF k(2)] q_def[symmetric]
      heap_block_of_alloc_area_def by (rule refl)
  have q_al: "?al dvd q" unfolding q_def by (cases "?x - ?x mod ?al > ?y") (simp_all only: if_True if_False dvd_minus_mod)
  have "(2 :: nat) ^ 3 dvd 2 ^ k" using k(1) by (rule le_imp_power_dvd)
  then have "(2 :: nat) ^ 3 dvd q" using q_al by (rule dvd_trans)
  then have "8 dvd q" by simp
  have q_le: "q \<le> ?y" "q \<le> ?x" unfolding q_def using K(5) by (auto intro: order_trans[OF diff_le_self])
  have "8 dvd b + s" using K(6,7) by simp
  then have q16: "q + 16 \<le> b + s" using q_le(1) \<open>8 dvd q\<close> K(5) by presburger
  have sub: "sub64 (sub64 q 16) b = q - 16 - b" if "q \<ge> b + 16"
    using that q16 K(4) by (simp add: sub64_small)
  have qp: "q \<ge> b + 16" "q = p" "q - 16 - b \<ge> 32 \<or> q - 16 - b = 0"
    using p unfolding def by (auto simp: sub Let_def split: if_splits)
  moreover have "q + sz \<le> b + s + 8" using q_le(2) sz by linarith
  ultimately show ?thesis using q_al q16 \<open>8 dvd q\<close> by auto
qed

section \<open>First fit\<close>

definition candidate :: "heap_cntrl \<Rightarrow> heap_mem \<Rightarrow> nat \<Rightarrow> nat \<Rightarrow> nat \<Rightarrow> nat \<Rightarrow> nat" where
  "candidate c m sz bound alignment block =
     (if blk_size (m block) > bound
      then (if alignment = 0 then heap_alloc_area_of_block block else heap_check_block c m block sz alignment)
      else 0)"

lemma heap_search_first_fit:
  "links m p fs (free_list c) \<Longrightarrow> free_list c \<notin> set fs \<Longrightarrow>
   heap_search c m sz bound al (blk_next (m p)) =
     Some (case find (\<lambda>b. candidate c m sz bound al b \<noteq> 0) fs of
             None \<Rightarrow> (free_list c, 0) | Some b \<Rightarrow> (b, candidate c m sz bound al b))"
proof (induction fs arbitrary: p)
  case Nil
  then show ?case by (subst heap_search.simps) (simp add: heap_tail_def)
next
  case (Cons x fs)
  then have x: "blk_next (m p) = x" "x \<noteq> free_list c" "links m x fs (free_list c)" by auto
  have "heap_search c m sz bound al x =
     (if candidate c m sz bound al x \<noteq> 0 then Some (x, candidate c m sz bound al x)
      else heap_search c m sz bound al (blk_next (m x)))"
    using x(2) by (subst heap_search.simps) (simp add: heap_tail_def candidate_def)
  then show ?case using Cons.IH[OF x(3)] Cons.prems(2) x(1) by simp
qed

section \<open>Allocation\<close>

lemma size_floor: "sz < 2 ^ 64 \<Longrightarrow> sub64 (add64 sz 16) 8 = (if sz + 8 < 2 ^ 64 then sz + 8 else sz + 8 - 2 ^ 64)"
proof -
  assume a: "sz < 2 ^ 64"
  consider "sz + 16 < 2 ^ 64" | "2 ^ 64 \<le> sz + 16" by linarith
  then show ?thesis
  proof cases
    case 1
    then show ?thesis by (simp add: sub64_small)
  next
    case 2
    then have "add64 sz 16 = sz + 16 - 2 ^ 64" using a unfolding add64_def by (subst le_mod_geq) simp_all
    then have "sub64 (add64 sz 16) 8 = (sz + 8) mod 2 ^ 64" using 2 unfolding sub64_def by (simp add: add.commute)
    then show ?thesis using a by (simp add: le_mod_geq)
  qed
qed

lemma blk_size_free: "heap_rep {} c m B fs \<Longrightarrow> B b = Some (s, False) \<Longrightarrow> blk_size (m b) = s + 1"
  using rep_block(8)[of "{}" c m B fs b s False] free_prev_used[of c m B fs b s]
  by (auto simp: heap_block_size_def heap_prev_used_def clear_flag_def odd_iff_mod_2_eq_one)

lemma heapAllocateAligned_rep:
  assumes r: "heap_rep {} c m B fs" and sz: "sz < 2 ^ 64" and al: "good_alignment al"
  obtains (null) "heapAllocateAligned c sz al m = Some (m, 0)" "al = 0 \<Longrightarrow> \<forall>a s. B a = Some (s, False) \<longrightarrow> s < sz + 8"
  | (ok) m' p B' fs' s1 where "heapAllocateAligned c sz al m = Some (m', p)" "p \<noteq> 0" "heap_rep {} c m' B' fs'"
      "live B' = insert (p - 16, s1) (live B)" "sz + 8 \<le> s1" "al = 0 \<or> al dvd p" "16 \<le> p"
      "\<exists>b s. B b = Some (s, False) \<and> b \<le> p - 16 \<and> p - 16 + s1 \<le> b + s"
proof -
  note D = repD[OF r]
  let ?fl = "sub64 (add64 sz 16) 8" and ?cand = "candidate c m sz (sub64 (add64 sz 16) 8) al"
  show thesis
  proof (cases "sz + 8 < 2 ^ 64")
    case False
    then have "heapAllocateAligned c sz al m = Some (m, 0)"
      using size_floor[OF sz] sz by (simp add: heapAllocateAligned_def Let_def)
    moreover have "s < sz + 8" if "B a = Some (s, False)" for a s
      using rep_block(4)[OF r that] False by simp
    ultimately show thesis by (intro null) blast+
  next
    case True
    have fl: "?fl = sz + 8" using size_floor[OF sz] True by simp
    have search: "heap_search c m sz ?fl al (heap_first c m) =
      Some (case find (\<lambda>b. ?cand b \<noteq> 0) fs of None \<Rightarrow> (free_list c, 0) | Some b \<Rightarrow> (b, ?cand b))"
      unfolding heap_first_def heap_head_def using D(12) by (intro heap_search_first_fit[OF D(11)]) simp
    show thesis
    proof (cases "find (\<lambda>b. ?cand b \<noteq> 0) fs")
      case None
      then have n: "?cand b = 0" if "b \<in> set fs" for b using that by (auto simp: find_None_iff)
      have "heapAllocateAligned c sz al m = Some (m, 0)"
        unfolding heapAllocateAligned_def Let_def search None using fl by simp
      moreover have "s < sz + 8" if "al = 0" "B a = Some (s, False)" for a s
      proof -
        have "a \<in> set fs" using that D(13) by (auto simp: free_addrs_def)
        then show ?thesis using n[of a] that blk_size_free[OF r that(2)] rep_block(12)[OF r that(2)] fl
          by (auto simp: candidate_def split: if_splits)
      qed
      ultimately show thesis by (intro null) blast+
    next
      case (Some b)
      then have c: "?cand b \<noteq> 0" "b \<in> set fs" by (auto simp: find_Some_iff)
      then obtain s where b: "B b = Some (s, False)" using D(13) by (auto simp: free_addrs_def)
      note K = rep_block[OF r b]
      let ?p = "?cand b"
      have big: "blk_size (m b) > sz + 8" using c(1) fl by (auto simp: candidate_def split: if_splits)
      then have s: "sz + 8 \<le> s" using blk_size_free[OF r b] by simp
      have place: "(al = 0 \<or> al dvd ?p) \<and> ?p + sz \<le> b + s + 8 \<and> (?p = b + 16 \<or> b + 48 \<le> ?p \<and> ?p + 16 \<le> b + s \<and> 8 dvd ?p)"
      proof (cases "al = 0")
        case True
        then show ?thesis using s big K(12) fl by (simp add: candidate_def)
      next
        case False
        then obtain k where k: "3 \<le> k" "k < 64" "al = 2 ^ k" using al by (auto simp: good_alignment_def)
        have "?p = heap_check_block c m b sz (2 ^ k)" using big fl k(3) by (simp add: candidate_def)
        then show ?thesis using heap_check_block_spec[OF r b s k(1,2) _ c(1)] k(3) by simp
      qed
      obtain B' fs' s1 where o: "heap_rep {} c (fst (heap_block_allocate c b ?p sz m)) B' fs'"
        "live B' = insert (?p - 16, s1) (live B)" "sz + 8 \<le> s1" "?p - 16 + s1 \<le> b + s"
        "snd (heap_block_allocate c b ?p sz m) = ?p - 16"
        by (rule heap_block_allocate_rep[OF r b conjunct2[OF conjunct2[OF place]] conjunct1[OF conjunct2[OF place]]])
      have "heapAllocateAligned c sz al m = Some (fst (heap_block_allocate c b ?p sz m), ?p)"
        unfolding heapAllocateAligned_def Let_def search Some using fl c(1) by simp
      moreover have "16 \<le> ?p" "b \<le> ?p - 16" using place by auto
      ultimately show thesis using o c(1) place b by (intro ok[of _ ?p B' fs' s1]) blast+
    qed
  qed
qed

end
