(* ===== verification/Librt_Heap_Free.thy ===== *)
theory Librt_Heap_Free
  imports Librt_Heap_Alloc
begin

text \<open>
  Freeing: the block joins whichever neighbours are free.  \<open>free_join\<close> is the common end of the four
  cases, the rewriting of the tags of the joined block.  Initialisation is here too.
\<close>

section \<open>Freeing a block in use\<close>

definition join_tags :: "nat \<Rightarrow> nat \<Rightarrow> heap_mem \<Rightarrow> heap_mem" where
  "join_tags q sz m =
     (let m = put_prev_size (q + sz) sz (put_size q (set_flag sz) m)
      in put_size (q + sz) (clear_flag (blk_size (m (q + sz)))) m)"

lemma free_join:
  assumes r: "heap_rep {} c m B fs" and t: "tiles (first_block c) (last_block c) B'" and q: "B' q = Some (sz, False)"
    and other: "\<And>b x. B' b = Some x \<Longrightarrow> b \<noteq> q \<Longrightarrow> B b = Some x" and pu: "heap_prev_used m q"
    and succ: "\<And>t u. B' (q + sz) = Some (t, u) \<Longrightarrow> u"
    and m1: "\<And>x. blk_size (m1 x) = blk_size (m x)" "\<And>x. blk_prev_size (m1 x) = blk_prev_size (m x)"
    and ring: "links m1 (free_list c) fs' (free_list c)" "distinct (free_list c # fs')" "set fs' = free_addrs B'"
  shows "heap_rep {} c (join_tags q sz m1) B' fs'"
proof -
  let ?m = "join_tags q sz m1"
  note D = repD[OF r] and Q = tilesD[OF t q]
  have ne: "q + sz \<noteq> q" and ev: "even sz" using Q(3,4) by (auto intro: even_of_8)
  have size: "blk_size (?m x) = (if x = q + sz then clear_flag (blk_size (m x)) else if x = q then set_flag sz else blk_size (m x))" for x
    using ne by (simp add: join_tags_def Let_def field_simps m1)
  have psize: "blk_prev_size (?m x) = (if x = q + sz then sz else blk_prev_size (m x))" for x
    by (simp add: join_tags_def Let_def field_simps m1)
  have hs: "heap_block_size ?m x = (if x = q then sz else heap_block_size m x)" for x
    unfolding heap_block_size_def size using ne ev by auto
  have fl: "heap_prev_used ?m x = (if x = q + sz then False else heap_prev_used m x)" for x
    unfolding heap_prev_used_def size using ne ev pu by (auto simp: heap_prev_used_def)
  have "heap_block_size ?m b = t' \<and> heap_prev_used ?m (b + t') = v \<and> (\<not> v \<longrightarrow> blk_prev_size (?m (b + t')) = t')"
    if b: "B' b = Some (t', v)" for b t' v
  proof (cases "b = q")
    case True
    then show ?thesis using b q unfolding hs fl psize by simp
  next
    case False
    then have "b + t' \<noteq> q + sz" using tiles_same_end[OF t b q] by auto
    then show ?thesis using False taggedD[OF D(7) other[OF b False]] unfolding hs fl psize by auto
  qed
  then have "tagged {} ?m B'" unfolding tagged_def by blast
  moreover have "u" if a: "B' a = Some (s', False)" and n: "B' (a + s') = Some (t', u)" for a s' t' u
  proof (cases "a = q")
    case True
    then show ?thesis using a q n succ by auto
  next
    case False
    note a' = other[OF a False]
    have "a + s' \<noteq> q" using taggedD(2)[OF D(7) a'] pu by auto
    then show ?thesis using free_succ_used[OF r a' other[OF n]] by simp
  qed
  then have "coalesced B'" unfolding coalesced_def by blast
  moreover have "heap_prev_used ?m (first_block c)" using D(9) Q(1,3) by (auto simp: fl)
  moreover have "heap_block_size ?m (last_block c) = sub64 (first_block c) (last_block c)"
    using D(10) Q(3,5) by (auto simp: hs)
  moreover have "links ?m (free_list c) fs' (free_list c)"
    using ring(1) by (subst links_cong[of _ m1]) (simp_all add: join_tags_def Let_def field_simps)
  ultimately show ?thesis using D(15) t ring unfolding heap_rep_def by simp
qed

lemma heapFree_rep:
  assumes r: "heap_rep {} c m B fs" and a: "B a = Some (s, True)"
  obtains m' B' fs' where "heapFree c (a + 16) m = (m', True)" "heap_rep {} c m' B' fs'" "live B' = live B - {(a, s)}"
proof -
  note D = repD[OF r] and K = rep_block[OF r a]
  have blk: "heap_block_of_alloc_area (a + 16) 8 = a"
    using K(4) by (simp add: heap_block_of_alloc_area_def sub64_small)
  have pn: "heap_prev_used m (a + s)" using taggedD(2)[OF D(7) a] by simp
  define n where "n = a + s"
  define nfree where "nfree = (n \<noteq> last_block c \<and> \<not> heap_prev_used m (heap_block_at n (heap_block_size m n)))"
  define pfree where "pfree = (\<not> heap_prev_used m a)"
  have next_in: "n \<noteq> last_block c \<longrightarrow> heap_block_in c (heap_block_at n (heap_block_size m n))"
  proof
    assume "n \<noteq> last_block c"
    then obtain t v where nb: "B n = Some (t, v)" using tilesD(6)[OF D(6) a, folded n_def] by blast
    then show "heap_block_in c (heap_block_at n (heap_block_size m n))"
      using rep_block(8,9,11)[OF r nb] by simp
  qed
  have nfreeD: "\<exists>t. B n = Some (t, False) \<and> heap_block_size m n = t" if nf: nfree
  proof -
    obtain t v where nb: "B n = Some (t, v)" using nf tilesD(6)[OF D(6) a, folded n_def] unfolding nfree_def by blast
    then show ?thesis using nf rep_block(8,9)[OF r nb] taggedD(2)[OF D(7) nb] unfolding nfree_def by auto
  qed
  have nused: "u" if "\<not> nfree" "B n = Some (t, u)" for t u
  proof -
    have "n \<noteq> last_block c" using tiles_last[OF D(6)] that by auto
    then show ?thesis using that rep_block(8,9)[OF r that(2)] taggedD(2)[OF D(7) that(2)] unfolding nfree_def by auto
  qed
  have pfreeD: "\<exists>p t. B p = Some (t, False) \<and> p + t = a \<and> blk_prev_size (m a) = t \<and> heap_block_prev m a = p
      \<and> heap_prev_used m p \<and> heap_block_in c p" if pf: pfree
  proof -
    have "a \<noteq> first_block c" using pf D(9) by (auto simp: pfree_def)
    then obtain p t u where p: "B p = Some (t, u)" "p + t = a" "heap_prev_used m a = u"
      using prev_used_pred[OF r a] by (metis empty_iff)
    then have u: "\<not> u" using pf by (simp add: pfree_def)
    then have f: "B p = Some (t, False)" using p by simp
    have t: "blk_prev_size (m a) = t" using taggedD(3)[OF D(7) p(1)] u p by simp
    have "heap_block_prev m a = p"
      using p(2) K(4) unfolding heap_block_prev_def heap_block_at_def t by (subst add64_sub64_zero) auto
    then show ?thesis using f p t free_prev_used[OF r f] rep_block(10)[OF r f] by blast
  qed
  have not_fs: "a \<notin> set fs" using D(13) a by (auto simp: free_addrs_def)
  have sent: "free_list c \<noteq> a" using D(14) K(1,3) by auto
  have nin: "heap_block_in c n" using K(11) by (simp add: n_def)
  have code: "heapFree c (a + 16) m =
     (let sz = (if pfree then add64 s (blk_prev_size (m a)) else s); block = (if pfree then heap_block_prev m a else a);
          sz = (if nfree then add64 sz (heap_block_size m n) else sz);
          m = (if pfree then (if nfree then heap_block_remove n m else m)
               else if nfree then heap_block_replace n block m else heap_block_insert_after (free_list c) block m);
          m = put_size block (set_flag sz) m; next_block = heap_block_at block sz; m = put_prev_size next_block sz m
      in (put_size next_block (clear_flag (blk_size (m next_block))) m, True))"
    unfolding heapFree_def Let_def D(1) blk K(8,9) n_def[symmetric] nfree_def[symmetric] pfree_def[symmetric] heap_head_def
    using K(10) nin pn[folded n_def] next_in pfreeD by auto
  consider (none) "\<not> pfree" "\<not> nfree" | (succ) "\<not> pfree" nfree | (pred) pfree "\<not> nfree" | (both) pfree nfree by blast
  then show thesis
  proof cases
    case none
    let ?B = "B(a \<mapsto> (s, False))"
    have "heapFree c (a + 16) m = (join_tags a s (heap_block_insert_after (free_list c) a m), True)"
      unfolding code using none K(9) by (simp add: join_tags_def Let_def)
    moreover have "heap_rep {} c (join_tags a s (heap_block_insert_after (free_list c) a m)) ?B (a # fs)"
    proof (rule free_join[OF r tiles_retag[OF D(6) a]])
      show "links (heap_block_insert_after (free_list c) a m) (free_list c) (a # fs) (free_list c)"
        using links_insert[of m "free_list c" "[]" fs a] D(11,12) not_fs sent by simp
      show "?B (a + s) = Some (t, u) \<Longrightarrow> u" for t u using nused none K(5) unfolding n_def by auto
    qed (use none D(12,13) not_fs sent a in \<open>auto simp: pfree_def free_addrs_def field_simps split: if_splits\<close>)
    moreover have "live ?B = live B - {(a, s)}" using a by (auto simp: live_def split: if_splits)
    ultimately show thesis by (rule that)
  next
    case succ
    then obtain t where nb: "B n = Some (t, False)" "heap_block_size m n = t" using nfreeD by blast
    note N = rep_block[OF r nb(1)]
    have nn: "n \<noteq> a" using K(5) by (simp add: n_def)
    let ?B = "B(a + s := None, a \<mapsto> (s + t, False))"
    obtain xs ys where fs: "fs = xs @ n # ys" using D(13) nb split_list[of n fs] by (auto simp: free_addrs_def)
    have ad: "add64 s t = s + t" "heap_block_at a (s + t) = a + (s + t)"
      using N(4) by (simp_all add: n_def heap_block_at_def)
    have "heapFree c (a + 16) m = (join_tags a (s + t) (heap_block_replace n a m), True)"
      unfolding code using succ nb ad by (simp add: join_tags_def Let_def)
    moreover have "heap_rep {} c (join_tags a (s + t) (heap_block_replace n a m)) ?B (xs @ a # ys)"
    proof (rule free_join[OF r tiles_merge[OF D(6) a nb(1)[unfolded n_def]]])
      show "links (heap_block_replace n a m) (free_list c) (xs @ a # ys) (free_list c)"
        using D(11,12) not_fs sent unfolding fs by (intro links_replace) auto
      show "?B (a + (s + t)) = Some (t', u) \<Longrightarrow> u" for t' u
        using free_succ_used[OF r nb(1), of t' u] N(5) K(5) by (auto simp: n_def add.assoc split: if_splits)
      have "set (xs @ n # ys) = free_addrs B" "n \<notin> set (xs @ ys)" using D(12,13) fs by auto
      moreover have "free_addrs ?B = insert a (free_addrs B - {n})"
        using a nn by (auto simp: free_addrs_def n_def split: if_splits)
      ultimately show "set (xs @ a # ys) = free_addrs ?B" by auto
    qed (use succ D(12) not_fs sent a nn fs in \<open>auto simp: pfree_def field_simps split: if_splits\<close>)
    moreover have "live ?B = live B - {(a, s)}" using a nb by (auto simp: live_def n_def split: if_splits)
    ultimately show thesis by (rule that)
  next
    case pred
    then obtain p t where p: "B p = Some (t, False)" "p + t = a" "blk_prev_size (m a) = t" "heap_block_prev m a = p"
      "heap_prev_used m p" using pfreeD by blast
    note P = rep_block[OF r p(1)]
    have pa: "p \<noteq> a" using P(5) p(2) by simp
    let ?B = "B(p + t := None, p \<mapsto> (t + s, False))"
    have ad: "add64 s t = t + s" "heap_block_at p (t + s) = p + (t + s)"
      using K(4) p(2) by (simp_all add: heap_block_at_def)
    have "heapFree c (a + 16) m = (join_tags p (t + s) m, True)"
      unfolding code using pred p ad by (simp add: join_tags_def Let_def)
    moreover have "heap_rep {} c (join_tags p (t + s) m) ?B fs"
    proof (rule free_join[OF r tiles_merge[OF D(6) p(1)]])
      show "B (p + t) = Some (s, True)" using a p(2) by simp
      show "?B (p + (t + s)) = Some (t', u) \<Longrightarrow> u" for t' u
        using nused[OF pred(2), of t' u] P(5) K(5) p(2) by (auto simp: n_def add.assoc[symmetric] split: if_splits)
      show "set fs = free_addrs ?B" using D(13) p(1) a pa unfolding p(2) by (auto simp: free_addrs_def split: if_splits)
    qed (use D(11,12) p pa in \<open>auto split: if_splits\<close>)
    moreover have "live ?B = live B - {(a, s)}" using a p pa by (auto simp: live_def split: if_splits)
    ultimately show thesis by (rule that)
  next
    case both
    then obtain p t where p: "B p = Some (t, False)" "p + t = a" "blk_prev_size (m a) = t" "heap_block_prev m a = p"
      "heap_prev_used m p" using pfreeD by blast
    obtain w where nb: "B n = Some (w, False)" "heap_block_size m n = w" using both nfreeD by blast
    note P = rep_block[OF r p(1)] and N = rep_block[OF r nb(1)]
    have d: "p \<noteq> a" "n \<noteq> a" "p \<noteq> n" using P(5) p(2) K(5) by (auto simp: n_def)
    let ?B1 = "B(a + s := None, a \<mapsto> (s + w, True))"
    let ?B = "?B1(p + t := None, p \<mapsto> (t + (s + w), False))"
    obtain xs ys where fs: "fs = xs @ n # ys" using D(13) nb split_list[of n fs] by (auto simp: free_addrs_def)
    have ad: "add64 s t = s + t" "add64 (s + t) w = t + (s + w)" "heap_block_at p (t + (s + w)) = p + (t + (s + w))"
      using N(4) p(2) by (simp_all add: heap_block_at_def n_def)
    have "heapFree c (a + 16) m = (join_tags p (t + (s + w)) (heap_block_remove n m), True)"
      unfolding code using both p nb ad by (simp add: join_tags_def Let_def)
    moreover have "heap_rep {} c (join_tags p (t + (s + w)) (heap_block_remove n m)) ?B (xs @ ys)"
    proof (rule free_join[OF r tiles_merge[OF tiles_merge[OF D(6) a nb(1)[unfolded n_def]]]])
      show "?B1 p = Some (t, False)" using p(1) d by (simp add: n_def)
      show "?B1 (p + t) = Some (s + w, True)" using p(2) by simp
      show "links (heap_block_remove n m) (free_list c) (xs @ ys) (free_list c)"
        using D(11,12) unfolding fs by (intro links_remove)
      have e: "p + (t + (s + w)) = n + w" using p(2) by (simp add: n_def)
      show "?B (p + (t + (s + w))) = Some (t', u) \<Longrightarrow> u" for t' u
        using free_succ_used[OF r nb(1), of t' u] N(5) K(5) P(5) p(2) unfolding e by (auto simp: n_def split: if_splits)
      have "set (xs @ n # ys) = free_addrs B" "n \<notin> set (xs @ ys)" using D(12,13) fs by auto
      moreover have "free_addrs ?B = free_addrs B - {n}"
        using a p d unfolding p(2) by (auto simp: free_addrs_def n_def split: if_splits)
      ultimately show "set (xs @ ys) = free_addrs ?B" by auto
    qed (use D(12) p d fs in \<open>auto simp: field_simps n_def split: if_splits\<close>)
    moreover have "live ?B = live B - {(a, s)}" using a p nb d by (auto simp: live_def n_def split: if_splits)
    ultimately show thesis by (rule that)
  qed
qed

lemma heapFree_rejects: "heapFree c ptr m = (m', False) \<Longrightarrow> m' = m"
  unfolding heapFree_def Let_def by (auto split: if_splits)

lemma heapFree_double:
  assumes r: "heap_rep {} c m B fs" and a: "B a = Some (s, False)"
  shows "heapFree c (a + 16) m = (m, False)"
proof -
  note K = rep_block[OF r a]
  have "heap_block_of_alloc_area (a + 16) 8 = a"
    using K(4) by (simp add: heap_block_of_alloc_area_def sub64_small)
  then show ?thesis using taggedD(2)[OF repD(7)[OF r] a] K repD(1)[OF r] unfolding heapFree_def Let_def by simp
qed

end
