(* ===== verification/Librt_Heap_Run.thy ===== *)
theory Librt_Heap_Run
  imports Librt_Heap_Free
begin

text \<open>
  Initialisation, what clients may write, and runs: any interleaving of allocations, frees of held
  pointers and writes into held memory keeps the heap represented and the held areas apart.
\<close>

section \<open>Initialisation\<close>

text \<open>The bytes skipped so that the first payload is aligned.\<close>

definition front_gap :: "nat \<Rightarrow> nat" where
  "front_gap start = (8 - start mod 8) mod 8"

lemma front_gap_less: "front_gap start < 8"
  by (simp add: front_gap_def)

lemma front_gap_align: "8 dvd start + front_gap start"
proof (cases "start mod 8 = 0")
  case False
  then have "front_gap start = 8 - start mod 8" by (simp add: front_gap_def)
  then have "start + front_gap start = start div 8 * 8 + 8"
    using mod_less_divisor[of 8 start] div_mult_mod_eq[of start 8] by linarith
  then show ?thesis by simp
qed (simp add: front_gap_def dvd_eq_mod_eq_0)

lemma multiples_of_8_meet: "8 dvd x \<Longrightarrow> 8 dvd y \<Longrightarrow> x < y + 8 \<Longrightarrow> y < x + 8 \<Longrightarrow> x = (y :: nat)"
  by (elim dvdE) simp

lemma align_up_gap:
  assumes "start + 24 < 2 ^ 64"
  shows "heap_align_up (start + 16) 8 = start + 16 + front_gap start"
proof (rule multiples_of_8_meet)
  have b: "start + 16 + 8 < 2 ^ 64" using assms by simp
  note a = align_up_8[OF b]
  show "8 dvd heap_align_up (start + 16) 8" by (rule a)
  have "8 dvd start + front_gap start + 8 * 2" using front_gap_align[of start] by (rule dvd_add) simp
  moreover have "start + 16 + front_gap start = start + front_gap start + 8 * 2" by simp
  ultimately show "8 dvd start + 16 + front_gap start" by (simp only:)
  show "heap_align_up (start + 16) 8 < start + 16 + front_gap start + 8" using a(2) by linarith
  show "start + 16 + front_gap start < heap_align_up (start + 16) 8 + 8" using a(1) front_gap_less[of start] by linarith
qed

lemma round_8_less_32: "n div 8 * 8 < 32 \<longleftrightarrow> n < (32 :: nat)"
  by presburger

lemma get_first_last_block_spec:
  assumes "start < 2 ^ 64" "len < 2 ^ 64"
  shows "heap_get_first_last_block start len 8 32 =
    (if 2 ^ 64 \<le> start + len \<or> len < 48 + front_gap start then None
     else let n = (len - 16 - front_gap start) div 8 * 8
          in Some (start + front_gap start, start + front_gap start + n))"
proof -
  let ?g = "front_gap start"
  define first where "first = sub64 (heap_align_up (add64 start 16) 8) 16"
  define over where "over = add64 16 (sub64 first start)"
  show ?thesis
  proof (cases "2 ^ 64 \<le> start + len")
    case True
    then have "add64 start len = start + len - 2 ^ 64" using assms unfolding add64_def by (subst le_mod_geq) simp_all
    then have "add64 start len < start" using assms True by simp
    then show ?thesis using True by (simp add: heap_get_first_last_block_def Let_def)
  next
    case False
    then have e: "add64 start len = start + len" by simp
    show ?thesis
    proof (cases "start + 24 < 2 ^ 64")
      case True
      have f: "first = start + ?g" using True front_gap_less[of start] unfolding first_def
        by (simp add: align_up_gap sub64_small)
      have o: "over = 16 + ?g" using True front_gap_less[of start] unfolding over_def f by (simp add: sub64_small)
      have n: "sub64 len over - sub64 len over mod 8 = (len - 16 - ?g) div 8 * 8" if "over < len"
        using that assms unfolding o by (simp add: sub64_small minus_mod_eq_div_mult)
      have small: "(len - 16 - ?g) div 8 * 8 < 32 \<longleftrightarrow> len < 48 + ?g" if "over < len"
        using that unfolding round_8_less_32 o by linarith
      have at: "heap_block_at (start + ?g) ((len - 16 - ?g) div 8 * 8) = start + ?g + (len - 16 - ?g) div 8 * 8"
        if "over < len"
      proof -
        have "(len - 16 - ?g) div 8 * 8 \<le> len - 16 - ?g" by simp
        then show ?thesis using that False unfolding o heap_block_at_def by (intro add64_small) linarith
      qed
      have le: "len \<le> over \<Longrightarrow> len < 48 + ?g" unfolding o by simp
      show ?thesis
        unfolding heap_get_first_last_block_def Let_def e align_down_8 first_def[symmetric] over_def[symmetric]
        using False n small at le by (cases "len \<le> over") (auto simp: f)
    next
      case big: False
      then have len: "len < 24" using False by simp
      have "sub64 first start < 32 \<longrightarrow> 16 \<le> over" unfolding over_def by simp
      have "heap_get_first_last_block start len 8 32 = None"
      proof (rule ccontr)
        assume "heap_get_first_last_block start len 8 32 \<noteq> None"
        then have "over < len" "32 \<le> sub64 len over - sub64 len over mod 8"
          unfolding heap_get_first_last_block_def Let_def align_down_8 first_def[symmetric] over_def[symmetric]
          by (auto split: if_splits)
        then show False using assms len by (simp add: sub64_small)
      qed
      then show ?thesis using len by simp
    qed
  qed
qed

lemma heapInit_spec:
  assumes b: "start < 2 ^ 64" "len < 2 ^ 64" and sep: "\<not> (start \<le> sentinel \<and> sentinel \<le> start + len)"
  shows "(heapInit sentinel start len m = None \<longleftrightarrow> 2 ^ 64 \<le> start + len \<or> len < 48 + front_gap start) \<and>
    (heapInit sentinel start len m = Some (c, m', n) \<longrightarrow>
       n = (len - 16 - front_gap start) div 8 * 8 \<and>
       heap_rep {} c m' [start + front_gap start \<mapsto> (n, False)] [start + front_gap start] \<and>
       first_block c = start + front_gap start \<and> last_block c + 16 \<le> start + len \<and> free_list c = sentinel)"
proof (cases "2 ^ 64 \<le> start + len \<or> len < 48 + front_gap start")
  case True
  then show ?thesis using get_first_last_block_spec[OF b] by (auto simp: heapInit_def Let_def)
next
  case False
  define f where "f = start + front_gap start"
  define k where "k = (len - 16 - front_gap start) div 8 * 8"
  let ?l = "f + k"
  have k8: "8 dvd k" "k \<le> len - 16 - front_gap start" by (simp_all add: k_def)
  have k32: "32 \<le> k" using False round_8_less_32[of "len - 16 - front_gap start"] unfolding k_def by linarith
  have f8: "8 dvd f" unfolding f_def by (rule front_gap_align)
  have l16: "?l + 16 \<le> start + len" using k8(2) False unfolding f_def by linarith
  then have l64: "?l + 16 < 2 ^ 64" using False by simp
  have sf: "sentinel \<noteq> f" "sentinel \<noteq> ?l" "\<not> (f \<le> sentinel \<and> sentinel \<le> ?l)" using sep l16 by (auto simp: f_def)
  have fl: "f \<noteq> ?l" "f < ?l" using k32 by simp_all
  have gfl: "heap_get_first_last_block start len 8 32 = Some (f, ?l)"
    using False get_first_last_block_spec[OF b] by (simp add: f_def k_def Let_def)
  let ?c = "\<lparr>free_list = sentinel, page_size = 8, min_block_size = 32, heap_begin = start,
      heap_end = add64 start len, first_block = f, last_block = ?l\<rparr>"
  obtain m1 where init: "heapInit sentinel start len m = Some (?c, m1, k)"
    and m1: "m1 = heap_set_last_block_size ?c (put_size ?l 0 (put_prev_size ?l k (put_prev sentinel f (put_next sentinel f
      (put_prev f sentinel (put_next f sentinel (put_size f (set_flag k) (put_prev_size f (add64 start len)
        (m(sentinel := \<lparr>blk_prev_size = 0, blk_size = 0, blk_next = 0, blk_prev = 0\<rparr>))))))))))"
  proof -
    have "sub64 ?l f = k" using l64 by (simp add: sub64_small)
    then show thesis using that gfl by (simp add: heapInit_def Let_def heap_head_def heap_tail_def)
  qed
  have ev: "even k" using k8(1) by (rule even_of_8)
  have ev2: "even (sub64 f ?l)"
  proof -
    have "sub64 f ?l = 2 ^ 64 - k" using k32 l64 unfolding sub64_def by (subst mod_less) auto
    then show ?thesis using ev by simp
  qed
  have size: "blk_size (m1 f) = set_flag k" "blk_size (m1 ?l) = sub64 f ?l" "blk_prev_size (m1 ?l) = k"
    using fl sf unfolding m1 heap_set_last_block_size_def
    by (simp_all add: field_simps heap_prev_used_def)
  have lnk: "blk_next (m1 sentinel) = f" "blk_prev (m1 f) = sentinel" "blk_next (m1 f) = sentinel" "blk_prev (m1 sentinel) = f"
    using fl sf unfolding m1 heap_set_last_block_size_def by (simp_all add: field_simps)
  have fr: "free_addrs [f \<mapsto> (k, False)] = {f}" by (auto simp: free_addrs_def split: if_splits)
  have "heap_rep {} ?c m1 [f \<mapsto> (k, False)] [f]"
    unfolding heap_rep_def
  proof (intro conjI)
    show "heap_geom ?c" using fl l64 f8 k8 sf by (simp add: heap_geom_def)
    show "tiles (first_block ?c) (last_block ?c) [f \<mapsto> (k, False)]"
      using f8 k8 k32 by (auto simp: tiles_def tile_def split: if_splits)
    show "tagged {} m1 [f \<mapsto> (k, False)]"
      using size ev ev2 by (auto simp: tagged_def heap_block_size_def heap_prev_used_def split: if_splits)
    show "coalesced [f \<mapsto> (k, False)]" using k32 by (auto simp: coalesced_def split: if_splits)
    show "heap_prev_used m1 (first_block ?c)" using size ev by (simp add: heap_prev_used_def)
    show "heap_block_size m1 (last_block ?c) = sub64 (first_block ?c) (last_block ?c)"
      using size(2) ev2 by (simp add: heap_block_size_def)
    show "links m1 (free_list ?c) [f] (free_list ?c)" using lnk by simp
    show "distinct (free_list ?c # [f])" using sf by simp
    show "set [f] = free_addrs [f \<mapsto> (k, False)]" using fr by simp
  qed
  then show ?thesis using False init l16 by (auto simp: f_def k_def)
qed

section \<open>Clients\<close>

text \<open>
  The header words a client may overwrite: the links of a block it holds, which lie in its payload, and
  the bonus word behind it.
\<close>

inductive client_write :: "nat \<Rightarrow> heap_mem \<Rightarrow> heap_mem \<Rightarrow> bool" for p m where
  next_word: "client_write p m (put_next (p - 16) v m)"
| prev_word: "client_write p m (put_prev (p - 16) v m)"
| bonus_word: "client_write p m (put_prev_size (p - 16 + heap_block_size m (p - 16)) v m)"

lemma client_write_rep:
  assumes r: "heap_rep {} c m B fs" and a: "B (p - 16) = Some (s, True)" and w: "client_write p m m'"
  shows "heap_rep {} c m' B fs"
proof -
  let ?a = "p - 16"
  note D = repD[OF r] and K = rep_block[OF r a]
  have away: "?a \<notin> insert (free_list c) (set fs)" using a D(13,14) K(1,3) by (auto simp: free_addrs_def)
  have size: "blk_size (m' x) = blk_size (m x)" for x using w by cases (simp_all add: field_simps)
  have hs: "heap_block_size m' x = heap_block_size m x" "heap_prev_used m' x = heap_prev_used m x" for x
    by (simp_all add: heap_block_size_def heap_prev_used_def size)
  have ps: "blk_prev_size (m' x) = blk_prev_size (m x)" if "x \<noteq> ?a + s" for x
    using w that K(8) by cases (simp_all add: field_simps)
  have "blk_prev_size (m' (b + t)) = blk_prev_size (m (b + t))" if "B b = Some (t, False)" for b t
    using tiles_same_end[OF D(6) that a] that a by (intro ps) auto
  then have "tagged {} m' B" using taggedD[OF D(7)] unfolding tagged_def hs by auto
  moreover have "links m' (free_list c) fs (free_list c) = links m (free_list c) fs (free_list c)"
    using w away by (intro links_frame) (auto elim!: client_write.cases simp: field_simps)
  ultimately show ?thesis using D unfolding heap_rep_def hs by auto
qed

text \<open>Runs from an initialised memory; the second component holds the outstanding pointers with the sizes asked for.\<close>

inductive heap_run :: "heap_cntrl \<Rightarrow> heap_mem \<Rightarrow> heap_mem \<times> (nat \<times> nat) set \<Rightarrow> bool" for c m0 where
  run_start: "heap_run c m0 (m0, {})"
| run_allocate: "heap_run c m0 (m, H) \<Longrightarrow> sz < 2 ^ 64 \<Longrightarrow> good_alignment al \<Longrightarrow>
    heapAllocateAligned c sz al m = Some (m', p) \<Longrightarrow> heap_run c m0 (m', if p = 0 then H else insert (p, sz) H)"
| run_free: "heap_run c m0 (m, H) \<Longrightarrow> (p, sz) \<in> H \<Longrightarrow> heapFree c p m = (m', ok) \<Longrightarrow> heap_run c m0 (m', H - {(p, sz)})"
| run_write: "heap_run c m0 (m, H) \<Longrightarrow> (p, sz) \<in> H \<Longrightarrow> client_write p m m' \<Longrightarrow> heap_run c m0 (m', H)"

definition held :: "(nat \<times> nat) set \<Rightarrow> blocks \<Rightarrow> bool" where
  "held H B \<longleftrightarrow>
     (\<forall>p sz. (p, sz) \<in> H \<longrightarrow> 16 \<le> p \<and> (\<exists>s. (p - 16, s) \<in> live B \<and> sz + 8 \<le> s)) \<and>
     (\<forall>p sz sz'. (p, sz) \<in> H \<longrightarrow> (p, sz') \<in> H \<longrightarrow> sz = sz') \<and>
     (\<forall>a s. (a, s) \<in> live B \<longrightarrow> (\<exists>sz. (a + 16, sz) \<in> H))"

lemma live_fun: "(a, s) \<in> live B \<Longrightarrow> (a, s') \<in> live B \<Longrightarrow> s = s'"
  by (simp add: live_def)

lemma held_insert:
  assumes h: "held H B" and l: "live B' = insert (p - 16, s) (live B)" and n: "\<And>t. (p - 16, t) \<notin> live B"
    and p: "16 \<le> p" "sz + 8 \<le> s"
  shows "held (insert (p, sz) H) B'"
proof -
  have new: "(p, t) \<notin> H" for t using h n unfolding held_def by blast
  show ?thesis
    unfolding held_def l
  proof (intro conjI allI impI)
    fix q t assume q: "(q, t) \<in> insert (p, sz) H"
    have old: "16 \<le> q \<and> (\<exists>r. (q - 16, r) \<in> live B \<and> t + 8 \<le> r)" if "(q, t) \<in> H"
      using h that unfolding held_def by blast
    then show "16 \<le> q" using q p by auto
    show "\<exists>r. (q - 16, r) \<in> insert (p - 16, s) (live B) \<and> t + 8 \<le> r"
      using old q p by blast
  next
    fix q t t' assume "(q, t) \<in> insert (p, sz) H" "(q, t') \<in> insert (p, sz) H"
    then show "t = t'" using h new unfolding held_def by blast
  next
    fix a r assume "(a, r) \<in> insert (p - 16, s) (live B)"
    then consider "a + 16 = p" | "(a, r) \<in> live B" using p by auto
    then show "\<exists>t. (a + 16, t) \<in> insert (p, sz) H" using h unfolding held_def by cases blast+
  qed
qed

lemma held_remove:
  assumes h: "held H B" and p: "(p, sz) \<in> H" and l: "live B' = live B - {(p - 16, s)}" "(p - 16, s) \<in> live B"
  shows "held (H - {(p, sz)}) B'"
proof -
  have p16: "16 \<le> p" using h p by (auto simp: held_def)
  show ?thesis
    unfolding held_def l(1)
  proof (intro conjI allI impI)
    fix q t assume q: "(q, t) \<in> H - {(p, sz)}"
    then have "16 \<le> q" "q \<noteq> p" using h p unfolding held_def by blast+
    then have "q - 16 \<noteq> p - 16" using p16 by simp
    then show "16 \<le> q" "\<exists>r. (q - 16, r) \<in> live B - {(p - 16, s)} \<and> t + 8 \<le> r"
      using h q unfolding held_def by blast+
  next
    fix q t t' assume "(q, t) \<in> H - {(p, sz)}" "(q, t') \<in> H - {(p, sz)}"
    then show "t = t'" using h unfolding held_def by blast
  next
    fix a r assume a: "(a, r) \<in> live B - {(p - 16, s)}"
    then have "a \<noteq> p - 16" using live_fun[OF _ l(2)] by blast
    then have "a + 16 \<noteq> p" using p16 by auto
    then show "\<exists>t. (a + 16, t) \<in> H - {(p, sz)}" using h a unfolding held_def by blast
  qed
qed

lemma run_invariant:
  assumes r0: "heap_rep {} c m0 B0 fs0" and l0: "live B0 = {}" and run: "heap_run c m0 (m, H)"
  shows "\<exists>B fs. heap_rep {} c m B fs \<and> held H B"
  using run
proof (induction "(m, H)" arbitrary: m H)
  case run_start
  then show ?case using r0 l0 by (intro exI[of _ B0] exI[of _ fs0]) (auto simp: held_def)
next
  case (run_allocate m H sz al m' p)
  then obtain B fs where r: "heap_rep {} c m B fs" and h: "held H B" by blast
  show ?case
  proof (rule heapAllocateAligned_rep[OF r run_allocate.hyps(3,4)])
    assume "heapAllocateAligned c sz al m = Some (m, 0)"
    then show ?thesis using run_allocate.hyps(5) r h by auto
  next
    fix m1 p1 B' fs' s1
    assume o: "heapAllocateAligned c sz al m = Some (m1, p1)" "p1 \<noteq> 0" "heap_rep {} c m1 B' fs'"
      "live B' = insert (p1 - 16, s1) (live B)" "sz + 8 \<le> s1" "16 \<le> p1"
      "\<exists>b s. B b = Some (s, False) \<and> b \<le> p1 - 16 \<and> p1 - 16 + s1 \<le> b + s"
    have eq: "m' = m1" "p = p1" using o(1) run_allocate.hyps(5) by auto
    obtain b s where b: "B b = Some (s, False)" "b \<le> p1 - 16" "p1 - 16 + s1 \<le> b + s" using o(7) by blast
    have fresh: "(p1 - 16, t) \<notin> live B" for t
    proof
      assume "(p1 - 16, t) \<in> live B"
      then have "B (p1 - 16) = Some (t, True)" by (simp add: live_def)
      then show False using tilesD(7)[OF repD(6)[OF r] b(1), of "p1 - 16"] b o(5) by (cases "b = p1 - 16") auto
    qed
    have "held (insert (p, sz) H) B'" using held_insert[OF h o(4) fresh o(6,5)] eq by simp
    then show ?thesis using o(2,3) eq by auto
  qed
next
  case (run_free m H p sz m' ok)
  then obtain B fs where r: "heap_rep {} c m B fs" and h: "held H B" by blast
  then obtain s where p: "16 \<le> p" and s: "(p - 16, s) \<in> live B" using run_free.hyps(3) unfolding held_def by blast
  then have a: "B (p - 16) = Some (s, True)" by (simp add: live_def)
  obtain m1 B' fs' where f: "heapFree c (p - 16 + 16) m = (m1, True)" "heap_rep {} c m1 B' fs'"
    "live B' = live B - {(p - 16, s)}" by (rule heapFree_rep[OF r a])
  have "m1 = m'" using f(1) run_free.hyps(4) p by simp
  then show ?case using f(2) held_remove[OF h run_free.hyps(3) f(3) s] by blast
next
  case (run_write m H p sz m')
  then obtain B fs where r: "heap_rep {} c m B fs" and h: "held H B" by blast
  then obtain s where "B (p - 16) = Some (s, True)" using run_write.hyps(3) unfolding held_def live_def by blast
  then show ?case using client_write_rep[OF r] run_write.hyps(4) h by blast
qed

section \<open>A concrete heap\<close>

definition blank_mem :: heap_mem where
  "blank_mem = (\<lambda>_. \<lparr>blk_prev_size = 0, blk_size = 0, blk_next = 0, blk_prev = 0\<rparr>)"

text \<open>1024 bytes at 4096, the control structure's list head at 64.\<close>

lemma librt_demo_heap:
  obtains c m where "heapInit 64 4096 1024 blank_mem = Some (c, m, 1008)"
    "heap_rep {} c m [4096 \<mapsto> (1008, False)] [4096]" "first_block c = 4096"
proof -
  have g: "front_gap 4096 = 0" by (simp add: front_gap_def)
  have "heapInit 64 4096 1024 blank_mem \<noteq> None"
    using heapInit_spec[of 4096 1024 64 blank_mem] g by simp
  then obtain c m n where i: "heapInit 64 4096 1024 blank_mem = Some (c, m, n)" by (cases "heapInit 64 4096 1024 blank_mem") auto
  have "\<not> (4096 \<le> (64 :: nat) \<and> 64 \<le> (4096 :: nat) + 1024)" "(4096 :: nat) < 2 ^ 64" "(1024 :: nat) < 2 ^ 64" by simp_all
  note S = mp[OF conjunct2[OF heapInit_spec[OF this(2,3,1)]] i]
  have "n = (1024 - 16 - front_gap 4096) div 8 * 8"
    "heap_rep {} c m [4096 + front_gap 4096 \<mapsto> (n, False)] [4096 + front_gap 4096]" "first_block c = 4096 + front_gap 4096"
    using S by blast+
  then have "n = 1008" "heap_rep {} c m [4096 \<mapsto> (n, False)] [4096]" "first_block c = 4096" unfolding g by simp_all
  then show thesis using that[of c m] i by blast
qed

end
