(* ===== verification/Librt_Heap_Props.thy ===== *)
theory Librt_Heap_Props
  imports Librt_Heap_Run
begin

text \<open>Properties of the librt heap, over the lemmas of \<open>Librt_Heap_Alloc\<close>, \<open>Librt_Heap_Free\<close> and \<open>Librt_Heap_Run\<close>.\<close>

section \<open>Initialisation\<close>

text \<open>\<open>heapInit\<close> refuses exactly the areas that wrap the address space or cannot hold one minimal block
  between two headers; otherwise the area becomes one free block, the largest multiple of eight bytes that
  fits after aligning, and every invariant of the heap holds.\<close>

theorem heap_init_sound:
  assumes "start < 2 ^ 64" "len < 2 ^ 64" "\<not> (start \<le> sentinel \<and> sentinel \<le> start + len)"
  shows "(heapInit sentinel start len m = None \<longleftrightarrow> 2 ^ 64 \<le> start + len \<or> len < 48 + front_gap start) \<and>
    (heapInit sentinel start len m = Some (c, m', n) \<longrightarrow>
       n = (len - 16 - front_gap start) div 8 * 8 \<and>
       heap_rep {} c m' [start + front_gap start \<mapsto> (n, False)] [start + front_gap start] \<and>
       first_block c = start + front_gap start \<and> last_block c + 16 \<le> start + len)"
  using heapInit_spec[OF assms, of m c m' n] by blast

theorem heap_init_sound_witness:
  "heapInit 64 4097 55 blank_mem = None \<longleftrightarrow> (2 :: nat) ^ 64 \<le> 4097 + 55 \<or> 55 < 48 + front_gap 4097"
  using heap_init_sound[of 4097 55 64 blank_mem undefined undefined undefined] by simp

section \<open>Allocation\<close>

text \<open>C4: On a well-formed heap an allocation (unaligned, or aligned to a power of two from eight up) always
  returns.  A null pointer leaves the memory as it was, and for an unaligned request means that no free
  block could hold it; otherwise the heap stays well formed and exactly one block joins the live ones, cut
  from a free block, large enough for the request and aligned as asked.\<close>

theorem heap_allocate_refines:
  assumes "heap_rep {} c m B fs" "sz < 2 ^ 64" "good_alignment al"
  shows "\<exists>m' p. heapAllocateAligned c sz al m = Some (m', p) \<and>
    (if p = 0 then m' = m \<and> (al = 0 \<longrightarrow> (\<forall>a s. B a = Some (s, False) \<longrightarrow> s < sz + 8))
     else \<exists>B' fs' s. heap_rep {} c m' B' fs' \<and> live B' = insert (p - 16, s) (live B) \<and> sz + 8 \<le> s \<and>
            (al = 0 \<or> al dvd p) \<and> (\<exists>b t. B b = Some (t, False) \<and> b + 16 \<le> p \<and> p - 16 + s \<le> b + t))"
proof (rule heapAllocateAligned_rep[OF assms])
  assume "heapAllocateAligned c sz al m = Some (m, 0)"
    "al = 0 \<Longrightarrow> \<forall>a s. B a = Some (s, False) \<longrightarrow> s < sz + 8"
  then show ?thesis by auto
next
  fix m' p B' fs' s1
  assume o: "heapAllocateAligned c sz al m = Some (m', p)" "p \<noteq> 0" "heap_rep {} c m' B' fs'"
    "live B' = insert (p - 16, s1) (live B)" "sz + 8 \<le> s1" "al = 0 \<or> al dvd p" "16 \<le> p"
    "\<exists>b s. B b = Some (s, False) \<and> b \<le> p - 16 \<and> p - 16 + s1 \<le> b + s"
  then have "\<exists>b t. B b = Some (t, False) \<and> b + 16 \<le> p \<and> p - 16 + s1 \<le> b + t" by (metis le_diff_conv2)
  then show ?thesis using o by (intro exI[of _ m'] exI[of _ p]) auto
qed

text \<open>100 bytes aligned to 64 in the concrete heap.\<close>

theorem heap_allocate_refines_witness:
  "\<exists>c m n m' p. heapInit 64 4096 1024 blank_mem = Some (c, m, n) \<and> heapAllocateAligned c 100 64 m = Some (m', p) \<and>
     (p = 0 \<longrightarrow> m' = m) \<and> 64 dvd p"
proof -
  obtain c m where h: "heapInit 64 4096 1024 blank_mem = Some (c, m, 1008)"
    "heap_rep {} c m [4096 \<mapsto> (1008, False)] [4096]" by (rule librt_demo_heap)
  have al: "good_alignment 64" unfolding good_alignment_def by (rule disjI2, rule exI[of _ 6]) simp
  show ?thesis using heap_allocate_refines[OF h(2) _ al, of 100] h(1) by (auto split: if_splits)
qed

section \<open>Freeing\<close>

text \<open>C5: Freeing the pointer of a live block succeeds, removes exactly that block from the live ones, and
  leaves the heap well formed, joined with whichever neighbours are free.\<close>

theorem heap_free_refines:
  assumes "heap_rep {} c m B fs" "(a, s) \<in> live B"
  shows "\<exists>m' B' fs'. heapFree c (a + 16) m = (m', True) \<and> heap_rep {} c m' B' fs' \<and> live B' = live B - {(a, s)}"
proof -
  have a: "B a = Some (s, True)" using assms(2) by (simp add: live_def)
  show ?thesis by (rule heapFree_rep[OF assms(1) a]) blast
qed

theorem heap_free_refines_witness:
  "\<exists>c m n m' p m''. heapInit 64 4096 1024 blank_mem = Some (c, m, n) \<and> heapAllocate c 100 m = Some (m', p) \<and>
     p \<noteq> 0 \<and> heapFree c p m' = (m'', True)"
proof -
  obtain c m where h: "heapInit 64 4096 1024 blank_mem = Some (c, m, 1008)"
    "heap_rep {} c m [4096 \<mapsto> (1008, False)] [4096]" by (rule librt_demo_heap)
  have al: "good_alignment 0" by (simp add: good_alignment_def)
  show ?thesis
  proof (rule heapAllocateAligned_rep[OF h(2) _ al, of 100])
    assume "(0::nat) = 0 \<Longrightarrow> \<forall>a s. [4096 :: nat \<mapsto> (1008, False)] a = Some (s, False) \<longrightarrow> s < 100 + (8 :: nat)"
    then have "(1008 :: nat) < 100 + 8" by (metis map_upd_Some_unfold)
    then show ?thesis by simp
  next
    fix m' p B' fs' s1
    assume o: "heapAllocateAligned c 100 0 m = Some (m', p)" "p \<noteq> 0" "heap_rep {} c m' B' fs'"
      "live B' = insert (p - 16, s1) (live [4096 \<mapsto> (1008, False)])" "16 \<le> p"
    have "(p - 16, s1) \<in> live B'" using o(4) by simp
    then obtain m'' where "heapFree c (p - 16 + 16) m' = (m'', True)" using heap_free_refines[OF o(3)] by blast
    then show ?thesis using h(1) o(1,2,5) by (auto simp: heapAllocate_def)
  qed simp
qed

text \<open>Freeing a null pointer does nothing, a refused pointer leaves the memory as it was, and the pointer
  of a block that is already free is refused.\<close>

theorem heap_free_rejections:
  "heapFree c 0 m = (m, True) \<and> (heapFree c ptr m = (m', False) \<longrightarrow> m' = m) \<and>
   (heap_rep {} c m B fs \<and> B a = Some (s, False) \<longrightarrow> heapFree c (a + 16) m = (m, False))"
  using heapFree_rejects heapFree_double by (auto simp: heapFree_def)

theorem heap_free_rejections_witness:
  "\<exists>c m n. heapInit 64 4096 1024 blank_mem = Some (c, m, n) \<and> heapFree c 4112 m = (m, False)"
proof -
  obtain c m where h: "heapInit 64 4096 1024 blank_mem = Some (c, m, 1008)"
    "heap_rep {} c m [4096 \<mapsto> (1008, False)] [4096]" by (rule librt_demo_heap)
  have "heapFree c (4096 + 16) m = (m, False)"
    using heap_free_rejections[of c m undefined undefined "[4096 \<mapsto> (1008, False)]" "[4096]" 4096 1008] h(2) by simp
  then show ?thesis using h(1) by auto
qed

section \<open>Runs\<close>

lemma init_run_invariant:
  assumes "start < 2 ^ 64" "len < 2 ^ 64" "\<not> (start \<le> sentinel \<and> sentinel \<le> start + len)"
    and init: "heapInit sentinel start len m = Some (c, m0, n)" and run: "heap_run c m0 (m', H)"
  obtains B fs where "heap_rep {} c m' B fs" "held H B" "start \<le> first_block c" "last_block c + 16 \<le> start + len"
    "last_block c = first_block c + n" "32 \<le> n"
proof -
  note S = heapInit_spec[OF assms(1-3), of m c m0 n]
  have r: "heap_rep {} c m0 [start + front_gap start \<mapsto> (n, False)] [start + front_gap start]"
    and f: "first_block c = start + front_gap start" and l: "last_block c + 16 \<le> start + len"
    using S init by auto
  have last: "first_block c + n = last_block c"
    using tilesD(6)[OF repD(6)[OF r], of "start + front_gap start" n False] rep_block(5)[OF r, of "start + front_gap start" n False] f
    by (auto split: if_splits)
  have "live [start + front_gap start \<mapsto> (n, False)] = {}" by (auto simp: live_def split: if_splits)
  then obtain B fs where "heap_rep {} c m' B fs" "held H B" using run_invariant[OF r _ run] by blast
  then show thesis using that f l last rep_block(5)[OF r, of "start + front_gap start" n False] by simp
qed

text \<open>C3: In every run from initialisation (allocations of any size and good alignment, frees of outstanding
  pointers, and clients writing the header words their blocks contain, in any order) the outstanding areas
  lie inside the heap and are pairwise disjoint, every further allocation returns and every outstanding
  pointer can be freed.\<close>

theorem heap_run_safe:
  assumes "start < 2 ^ 64" "len < 2 ^ 64" "\<not> (start \<le> sentinel \<and> sentinel \<le> start + len)"
    and "heapInit sentinel start len m = Some (c, m0, n)" "heap_run c m0 (m', H)"
  shows "(\<forall>p sz. (p, sz) \<in> H \<longrightarrow> start + 16 \<le> p \<and> p + sz \<le> start + len \<and> snd (heapFree c p m')) \<and>
    (\<forall>p sz q t. (p, sz) \<in> H \<and> (q, t) \<in> H \<and> (p, sz) \<noteq> (q, t) \<longrightarrow> p + sz \<le> q \<or> q + t \<le> p) \<and>
    (\<forall>sz al. sz < 2 ^ 64 \<and> good_alignment al \<longrightarrow> heapAllocateAligned c sz al m' \<noteq> None)"
proof (rule init_run_invariant[OF assms], intro conjI allI impI)
  fix B fs assume r: "heap_rep {} c m' B fs" and h: "held H B" and f: "start \<le> first_block c" "last_block c + 16 \<le> start + len"
  have blk: "16 \<le> p \<and> (\<exists>s. B (p - 16) = Some (s, True) \<and> sz + 8 \<le> s)" if "(p, sz) \<in> H" for p sz
    using h that unfolding held_def live_def by blast
  {
    fix p sz assume p: "(p, sz) \<in> H"
    then obtain s where s: "16 \<le> p" "B (p - 16) = Some (s, True)" "sz + 8 \<le> s" using blk by blast
    note K = rep_block[OF r s(2)]
    obtain m1 where "heapFree c (p - 16 + 16) m' = (m1, True)" by (rule heapFree_rep[OF r s(2)])
    then show "snd (heapFree c p m')" using s(1) by simp
    show "start + 16 \<le> p" "p + sz \<le> start + len" using s K(1,2) f by linarith+
  }
  {
    fix p sz q t assume a: "(p, sz) \<in> H \<and> (q, t) \<in> H \<and> (p, sz) \<noteq> (q, t)"
    then obtain s s' where s: "16 \<le> p" "B (p - 16) = Some (s, True)" "sz + 8 \<le> s"
      "16 \<le> q" "B (q - 16) = Some (s', True)" "t + 8 \<le> s'" using blk by meson
    have "p \<noteq> q" using a h unfolding held_def by blast
    then consider "p - 16 < q - 16" | "q - 16 < p - 16" using s(1,4) by linarith
    then show "p + sz \<le> q \<or> q + t \<le> p"
      using tiles_disjoint[OF repD(6)[OF r] s(2,5)] tiles_disjoint[OF repD(6)[OF r] s(5,2)] s by cases linarith+
  }
  fix sz al :: nat assume "sz < 2 ^ 64 \<and> good_alignment al"
  then show "heapAllocateAligned c sz al m' \<noteq> None"
    by (metis heapAllocateAligned_rep[OF r] option.distinct(1))
qed

text \<open>Two allocations in the concrete heap, unaligned and aligned to 64.\<close>

theorem heap_run_safe_witness:
  "\<exists>c m n m1 p m2 q. heapInit 64 4096 1024 blank_mem = Some (c, m, n) \<and> heapAllocate c 100 m = Some (m1, p) \<and>
     heapAllocateAligned c 40 64 m1 = Some (m2, q) \<and> (p \<noteq> 0 \<and> q \<noteq> 0 \<and> p \<noteq> q \<longrightarrow> p + 100 \<le> q \<or> q + 40 \<le> p)"
proof -
  obtain c m where h: "heapInit 64 4096 1024 blank_mem = Some (c, m, 1008)"
    "heap_rep {} c m [4096 \<mapsto> (1008, False)] [4096]" by (rule librt_demo_heap)
  have al: "good_alignment 0" "good_alignment 64"
    unfolding good_alignment_def by (simp, rule disjI2, rule exI[of _ 6], simp)
  note S = heap_run_safe[of 4096 1024 64 blank_mem c m 1008, OF _ _ _ h(1)]
  have r0: "heap_run c m (m, {})" by (rule run_start)
  obtain m1 p where a1: "heapAllocateAligned c 100 0 m = Some (m1, p)" using S[OF _ _ _ r0] al by fastforce
  have r1: "heap_run c m (m1, if p = 0 then {} else insert (p, 100) {})"
    by (rule run_allocate[OF r0 _ al(1) a1]) simp
  obtain m2 q where a2: "heapAllocateAligned c 40 64 m1 = Some (m2, q)" using S[OF _ _ _ r1] al by fastforce
  have "heap_run c m (m2, if q = 0 then if p = 0 then {} else insert (p, 100) {} else insert (q, 40) (if p = 0 then {} else insert (p, 100) {}))"
    by (rule run_allocate[OF r1 _ al(2) a2]) simp
  then have "p \<noteq> 0 \<and> q \<noteq> 0 \<and> p \<noteq> q \<longrightarrow> p + 100 \<le> q \<or> q + 40 \<le> p" using S by (auto split: if_splits)
  then show ?thesis using h(1) a1 a2 unfolding heapAllocate_def by blast
qed

text \<open>When every pointer has been freed the blocks have coalesced back into one: the largest allocation
  the fresh heap could serve succeeds again, whatever happened in between.\<close>

theorem heap_all_freed_is_whole:
  assumes "start < 2 ^ 64" "len < 2 ^ 64" "\<not> (start \<le> sentinel \<and> sentinel \<le> start + len)"
    and "heapInit sentinel start len m = Some (c, m0, n)" "heap_run c m0 (m', {})"
  shows "\<exists>m'' p. heapAllocate c (n - 8) m' = Some (m'', p) \<and> p \<noteq> 0"
proof (rule init_run_invariant[OF assms])
  fix B fs assume r: "heap_rep {} c m' B fs" and h: "held {} B" and l: "last_block c = first_block c + n" and n: "32 \<le> n"
  have none: "live B = {}" using h unfolding held_def by auto
  have t: "tiles (first_block c) (last_block c) B" by (rule repD(6)[OF r])
  then obtain s u where f: "B (first_block c) = Some (s, u)" by (auto simp: tiles_def)
  then have fr: "B (first_block c) = Some (s, False)" using none by (cases u) (auto simp: live_def)
  have "first_block c + s = last_block c"
  proof (rule ccontr)
    assume "first_block c + s \<noteq> last_block c"
    then obtain t v where nb: "B (first_block c + s) = Some (t, v)" using tilesD(6)[OF t fr] by blast
    then have "v" by (rule free_succ_used[OF r fr])
    then show False using nb none by (auto simp: live_def)
  qed
  then have s: "s = n" using l by simp
  have "n - 8 < 2 ^ 64" using rep_block(4)[OF r fr] s by simp
  moreover have "good_alignment 0" by (simp add: good_alignment_def)
  ultimately show ?thesis
  proof (rule heapAllocateAligned_rep[OF r])
    assume "(0 :: nat) = 0 \<Longrightarrow> \<forall>a s. B a = Some (s, False) \<longrightarrow> s < n - 8 + 8"
    then have "n < n - 8 + 8" using fr s by blast
    then show ?thesis using n by simp
  qed (auto simp: heapAllocate_def)
qed

theorem heap_all_freed_is_whole_witness:
  "\<exists>c m n m' p. heapInit 64 4096 1024 blank_mem = Some (c, m, n) \<and> heapAllocate c 1000 m = Some (m', p) \<and> p \<noteq> 0"
proof -
  obtain c m where h: "heapInit 64 4096 1024 blank_mem = Some (c, m, 1008)" by (rule librt_demo_heap)
  have "\<exists>m'' p. heapAllocate c (1008 - 8) m = Some (m'', p) \<and> p \<noteq> 0"
    by (rule heap_all_freed_is_whole[OF _ _ _ h run_start]) simp_all
  then show ?thesis using h by auto
qed

section \<open>Small alignments\<close>

text \<open>The alignment bound is needed: a block address is not rounded down to the page size, so a request
  aligned to one byte can put a block at an odd address.  In the concrete heap, 33 bytes aligned to 1 are
  handed out at 5079; the free list then leads to 5119, beyond the last block, and freeing the
  pointer just returned is refused.\<close>

theorem heap_byte_alignment_corrupts:
  "\<exists>c m n m'. heapInit 64 4096 1024 blank_mem = Some (c, m, n) \<and> heapAllocateAligned c 33 1 m = Some (m', 5079) \<and>
     last_block c = 5104 \<and> blk_next (m' (heap_first c m')) = 5119 \<and> heapFree c 5079 m' = (m', False)"
proof -
  note ops = add64_def sub64_def and_not_def set_flag_def clear_flag_def heap_head_def heap_tail_def heap_first_def
    heap_block_size_def heap_prev_used_def heap_block_at_def heap_alloc_area_of_block_def heap_block_of_alloc_area_def
    heap_align_up_def heap_align_down_def heap_block_in_def
  let ?c = "\<lparr>free_list = 64, page_size = 8, min_block_size = 32, heap_begin = 4096, heap_end = 5120,
      first_block = 4096, last_block = 5104\<rparr>"
  define m where "m = heap_set_last_block_size ?c (put_size 5104 0 (put_prev_size 5104 1008 (put_prev 64 4096
     (put_next 64 4096 (put_prev 4096 64 (put_next 4096 64 (put_size 4096 1009 (put_prev_size 4096 5120
       (blank_mem(64 := \<lparr>blk_prev_size = 0, blk_size = 0, blk_next = 0, blk_prev = 0\<rparr>))))))))))"
  have "heap_get_first_last_block 4096 1024 8 32 = Some (4096, 5104)"
    by (simp add: heap_get_first_last_block_def ops)
  then have init: "heapInit 64 4096 1024 blank_mem = Some (?c, m, 1008)"
    by (simp add: heapInit_def ops m_def Let_def)
  have f: "blk_size (m 4096) = 1009" "blk_next (m 4096) = 64" "blk_prev (m 4096) = 64" "blk_next (m 64) = 4096"
    "blk_prev (m 64) = 4096" "blk_size (m 5104) = 18446744073709550608"
    by (simp_all add: m_def heap_set_last_block_size_def field_simps ops)
  have search: "heap_search ?c m 33 41 1 4096 = Some (4096, 5079)"
    by (subst heap_search.simps) (simp add: ops heap_check_block_def f)
  define m' where "m' = fst (heap_block_allocate ?c 4096 5079 33 m)"
  have alloc: "heapAllocateAligned ?c 33 1 m = Some (m', 5079)"
    using search by (simp add: heapAllocateAligned_def ops f m'_def)
  define m1 where "m1 = put_size 5063 41 (put_prev_size 5063 967 (put_size 4096 967
     (heap_block_insert_after 64 4096 (heap_block_remove 4096 m))))"
  have m1: "blk_size (m1 5063) = 41" "blk_size (m1 5104) = 18446744073709550608" "blk_size (m1 4096) = 967"
    "blk_next (m1 64) = 4096" "blk_next (m1 4096) = 64"
    by (simp_all add: m1_def f heap_block_insert_after_def heap_block_remove_def field_simps Let_def)
  have "m' = heap_block_split ?c 5063 5104 4096 33 m1"
    by (simp add: m'_def m1_def heap_block_allocate_def heap_block_allocate_from_end_def Let_def ops f field_simps
        heap_block_remove_def)
  then have "blk_next (m' 64) = 4096" "blk_next (m' 4096) = 5119" "blk_size (m' 5063) = 57"
    by (simp_all add: heap_block_split_def Let_def ops m1 heap_block_insert_after_def field_simps)
  then have "heapFree ?c 5079 m' = (m', False)" "blk_next (m' (heap_first ?c m')) = 5119"
    by (simp_all add: heapFree_def ops)
  then show ?thesis using init alloc by (intro exI[of _ ?c] exI[of _ m] exI[of _ 1008] exI[of _ m']) simp
qed

end
