(* ===== verification/Rsx_Mm.thy ===== *)
theory Rsx_Mm
  imports Librt_Heap_Run
begin

text \<open>
  \<open>sdk/librsx/src/mm.c\<close> (the same text is built into \<open>libgcm_cmd\<close> from \<open>src/rsx_legacy/mm.c\<close>): the allocator
  for video memory, a thin layer over \<open>sys/heap.h\<close> that remembers the outcome of the last call.  The
  code is written over the interface it includes: the heap's operations are arguments of the definitions.
  The locale \<open>block_heap\<close> states what that interface promises; the librt heap is its interpretation.
  \<open>gcmGetConfiguration\<close> belongs to the system firmware: its result is an argument.
\<close>

section \<open>The code\<close>

abbreviation (input) MM_OK :: int where "MM_OK \<equiv> 0"
abbreviation (input) MM_GCM_CONFIG :: int where "MM_GCM_CONFIG \<equiv> - 1"
abbreviation (input) MM_UNINIT :: int where "MM_UNINIT \<equiv> - 2"
abbreviation (input) MM_ALLOCATION :: int where "MM_ALLOCATION \<equiv> - 3"
abbreviation (input) MM_FREE :: int where "MM_FREE \<equiv> - 4"

record 'h rsx_mm =
  rsx_heap :: 'h
  rsxheap_initialized :: bool
  rsx_mm_last_error :: int

definition rsx_mm_set_last_error :: "int \<Rightarrow> 'h rsx_mm \<Rightarrow> 'h rsx_mm" where
  "rsx_mm_set_last_error code st = st\<lparr>rsx_mm_last_error := code\<rparr>"

text \<open>\<open>config\<close> is the firmware's answer: its return code, the local address and the local size.\<close>

definition rsxHeapInit :: "int \<times> nat \<times> u32 \<Rightarrow> (nat \<Rightarrow> nat \<Rightarrow> 'h \<Rightarrow> 'h) \<Rightarrow> 'h rsx_mm \<Rightarrow> 'h rsx_mm \<times> int" where
  "rsxHeapInit config heap_init st =
     (let (rc, local_address, local_size) = config
      in if \<not> rsxheap_initialized st \<and> rc \<noteq> 0 then (rsx_mm_set_last_error MM_GCM_CONFIG st, 0)
         else let st = (if \<not> rsxheap_initialized st
                        then st\<lparr>rsx_heap := heap_init local_address (unat (local_size - 4096)) (rsx_heap st),
                                rsxheap_initialized := True\<rparr>
                        else st)
              in (rsx_mm_set_last_error MM_OK st, 1))"

definition rsxMemalign :: "(nat \<Rightarrow> nat \<Rightarrow> 'h \<Rightarrow> ('h \<times> nat) option) \<Rightarrow> u32 \<Rightarrow> u32 \<Rightarrow> 'h rsx_mm \<Rightarrow> ('h rsx_mm \<times> nat) option" where
  "rsxMemalign allocate alignment sz st =
     (if \<not> rsxheap_initialized st then Some (rsx_mm_set_last_error MM_UNINIT st, 0)
      else case allocate (unat sz) (unat alignment) (rsx_heap st) of
             None \<Rightarrow> None
           | Some (h, p) \<Rightarrow>
               Some (rsx_mm_set_last_error (if p = 0 then MM_ALLOCATION else MM_OK) (st\<lparr>rsx_heap := h\<rparr>), p))"

text \<open>\<open>heapAllocate\<close> is \<open>heapAllocateAligned\<close> with alignment zero.\<close>

definition rsxMalloc :: "(nat \<Rightarrow> nat \<Rightarrow> 'h \<Rightarrow> ('h \<times> nat) option) \<Rightarrow> u32 \<Rightarrow> 'h rsx_mm \<Rightarrow> ('h rsx_mm \<times> nat) option" where
  "rsxMalloc allocate sz st =
     (if \<not> rsxheap_initialized st then Some (rsx_mm_set_last_error MM_UNINIT st, 0)
      else case allocate (unat sz) 0 (rsx_heap st) of
             None \<Rightarrow> None
           | Some (h, p) \<Rightarrow>
               Some (rsx_mm_set_last_error (if p = 0 then MM_ALLOCATION else MM_OK) (st\<lparr>rsx_heap := h\<rparr>), p))"

definition rsxFree :: "(nat \<Rightarrow> 'h \<Rightarrow> 'h \<times> bool) \<Rightarrow> nat \<Rightarrow> 'h rsx_mm \<Rightarrow> 'h rsx_mm" where
  "rsxFree release ptr st =
     (if ptr = 0 then rsx_mm_set_last_error MM_OK st
      else if \<not> rsxheap_initialized st then rsx_mm_set_last_error MM_UNINIT st
      else let (h, done) = release ptr (rsx_heap st)
           in rsx_mm_set_last_error (if \<not> done then MM_FREE else MM_OK) (st\<lparr>rsx_heap := h\<rparr>))"

definition ps3tc_rsx_mm_last_error :: "'h rsx_mm \<Rightarrow> int" where
  "ps3tc_rsx_mm_last_error st = rsx_mm_last_error st"

definition ps3tc_rsx_mm_last_error_string :: "int \<Rightarrow> string" where
  "ps3tc_rsx_mm_last_error_string code =
     (if code = MM_OK then ''most recent RSX heap call succeeded (or no failure yet)''
      else if code = MM_GCM_CONFIG then ''gcmGetConfiguration failed during rsxHeapInit''
      else if code = MM_UNINIT then ''RSX heap not initialised (call rsxHeapInit first)''
      else if code = MM_ALLOCATION then ''RSX allocation failed (heap exhausted or request too large)''
      else if code = MM_FREE then ''rsxFree rejected the pointer (interior or out of range)''
      else ''unknown last error'')"

section \<open>The heap interface\<close>

text \<open>
  \<open>ok h L\<close>: the heap \<open>h\<close> is well formed and \<open>L\<close> is the set of areas handed out, each a pointer with its
  usable size.  An allocation promises an aligned area apart from all of them.
\<close>

definition fresh_area :: "nat \<Rightarrow> nat \<Rightarrow> (nat \<times> nat) set \<Rightarrow> bool" where
  "fresh_area p n L \<longleftrightarrow> (\<forall>(q, k) \<in> L. p \<noteq> q \<and> (p + n \<le> q \<or> q + k \<le> p))"

locale block_heap =
  fixes ok :: "'h \<Rightarrow> (nat \<times> nat) set \<Rightarrow> bool"
    and allocate :: "nat \<Rightarrow> nat \<Rightarrow> 'h \<Rightarrow> ('h \<times> nat) option"
    and release :: "nat \<Rightarrow> 'h \<Rightarrow> 'h \<times> bool"
  assumes allocate_ok: "ok h L \<Longrightarrow> sz < 2 ^ 64 \<Longrightarrow> good_alignment al \<Longrightarrow>
      \<exists>h' p. allocate sz al h = Some (h', p) \<and>
        (p = 0 \<and> h' = h \<or> p \<noteq> 0 \<and> (al = 0 \<or> al dvd p) \<and> (\<exists>n \<ge> sz. fresh_area p n L \<and> ok h' (insert (p, n) L)))"
    and areas_apart: "ok h L \<Longrightarrow> (p, n) \<in> L \<Longrightarrow> (q, k) \<in> L \<Longrightarrow> (p, n) \<noteq> (q, k) \<Longrightarrow> p + n \<le> q \<or> q + k \<le> p"
    and release_ok: "ok h L \<Longrightarrow> (p, n) \<in> L \<Longrightarrow> p \<noteq> 0 \<and> (\<exists>h'. release p h = (h', True) \<and> ok h' (L - {(p, n)}))"
    and release_refused: "release p h = (h', False) \<Longrightarrow> h' = h"

definition mm_ok :: "('h \<Rightarrow> (nat \<times> nat) set \<Rightarrow> bool) \<Rightarrow> 'h rsx_mm \<Rightarrow> (nat \<times> nat) set \<Rightarrow> bool" where
  "mm_ok ok st L \<longleftrightarrow> (if rsxheap_initialized st then ok (rsx_heap st) L else L = {})"

text \<open>
  What one call of an allocation function does to the state, whichever of the two it is: the area is new, apart from
  every area handed out, aligned as asked, and at least as large.
\<close>

definition mm_allocated ::
    "('h \<Rightarrow> (nat \<times> nat) set \<Rightarrow> bool) \<Rightarrow> nat \<Rightarrow> nat \<Rightarrow> 'h rsx_mm \<Rightarrow> (nat \<times> nat) set \<Rightarrow> 'h rsx_mm \<Rightarrow> nat \<Rightarrow> bool" where
  "mm_allocated ok sz al st L st' p \<longleftrightarrow>
     (if \<not> rsxheap_initialized st then p = 0 \<and> st' = st\<lparr>rsx_mm_last_error := MM_UNINIT\<rparr>
      else if p = 0 then st' = st\<lparr>rsx_mm_last_error := MM_ALLOCATION\<rparr>
      else rsx_mm_last_error st' = MM_OK \<and> (al = 0 \<or> al dvd p) \<and>
           (\<exists>n \<ge> sz. fresh_area p n L \<and> mm_ok ok st' (insert (p, n) L)))"

context block_heap
begin

lemma allocate_step:
  assumes "mm_ok ok st L" "sz < 2 ^ 64" "good_alignment al"
    and f: "f = (if \<not> rsxheap_initialized st then Some (rsx_mm_set_last_error MM_UNINIT st, 0)
      else case allocate sz al (rsx_heap st) of None \<Rightarrow> None
           | Some (h, p) \<Rightarrow> Some (rsx_mm_set_last_error (if p = 0 then MM_ALLOCATION else MM_OK) (st\<lparr>rsx_heap := h\<rparr>), p))"
  shows "\<exists>st' p. f = Some (st', p) \<and> mm_allocated ok sz al st L st' p"
proof (cases "rsxheap_initialized st")
  case True
  then have "ok (rsx_heap st) L" using assms(1) by (simp add: mm_ok_def)
  from allocate_ok[OF this assms(2,3)] obtain h' p where a: "allocate sz al (rsx_heap st) = Some (h', p)"
    "p = 0 \<and> h' = rsx_heap st \<or> p \<noteq> 0 \<and> (al = 0 \<or> al dvd p) \<and> (\<exists>n \<ge> sz. fresh_area p n L \<and> ok h' (insert (p, n) L))"
    by blast
  have "f = Some (st\<lparr>rsx_heap := h', rsx_mm_last_error := if p = 0 then MM_ALLOCATION else MM_OK\<rparr>, p)"
    using True a(1) by (simp add: f rsx_mm_set_last_error_def)
  moreover have "mm_allocated ok sz al st L (st\<lparr>rsx_heap := h', rsx_mm_last_error := if p = 0 then MM_ALLOCATION else MM_OK\<rparr>) p"
    using True a(2) by (auto simp: mm_allocated_def mm_ok_def)
  ultimately show ?thesis by blast
qed (simp add: f mm_allocated_def rsx_mm_set_last_error_def)

lemma rsxMalloc_contract:
  "mm_ok ok st L \<Longrightarrow> \<exists>st' p. rsxMalloc allocate sz st = Some (st', p) \<and> mm_allocated ok (unat sz) 0 st L st' p"
  using unat_u32_less[of sz] by (intro allocate_step[where al = 0]) (simp_all add: good_alignment_def rsxMalloc_def)

lemma rsxMemalign_contract:
  "mm_ok ok st L \<Longrightarrow> good_alignment (unat al) \<Longrightarrow>
   \<exists>st' p. rsxMemalign allocate al sz st = Some (st', p) \<and> mm_allocated ok (unat sz) (unat al) st L st' p"
  using unat_u32_less[of sz] by (intro allocate_step) (simp_all add: rsxMemalign_def)

lemma rsxFree_held:
  assumes "mm_ok ok st L" "(p, n) \<in> L"
  shows "rsx_mm_last_error (rsxFree release p st) = MM_OK \<and> mm_ok ok (rsxFree release p st) (L - {(p, n)})"
proof -
  have i: "rsxheap_initialized st" using assms by (auto simp: mm_ok_def split: if_splits)
  then have "ok (rsx_heap st) L" using assms(1) by (simp add: mm_ok_def)
  from release_ok[OF this assms(2)] show ?thesis
    using i by (auto simp: rsxFree_def mm_ok_def rsx_mm_set_last_error_def)
qed

lemma rsxFree_other:
  "rsx_mm_last_error (rsxFree release p st) = MM_FREE \<or> p = 0 \<or> \<not> rsxheap_initialized st \<Longrightarrow>
   rsx_heap (rsxFree release p st) = rsx_heap st \<and> rsxheap_initialized (rsxFree release p st) = rsxheap_initialized st"
  by (auto simp: rsxFree_def rsx_mm_set_last_error_def dest: release_refused split: prod.splits if_splits)

lemma mm_areas_apart:
  "mm_ok ok st L \<Longrightarrow> (p, n) \<in> L \<Longrightarrow> (q, k) \<in> L \<Longrightarrow> (p, n) \<noteq> (q, k) \<Longrightarrow> p + n \<le> q \<or> q + k \<le> p"
  using areas_apart by (auto simp: mm_ok_def split: if_splits)

end

section \<open>The librt heap provides the interface\<close>

definition librt_ok :: "heap_cntrl \<times> heap_mem \<Rightarrow> (nat \<times> nat) set \<Rightarrow> bool" where
  "librt_ok h L \<longleftrightarrow> (\<exists>B fs. heap_rep {} (fst h) (snd h) B fs \<and> L = (\<lambda>(a, s). (a + 16, s - 8)) ` live B)"

definition librt_allocate :: "nat \<Rightarrow> nat \<Rightarrow> heap_cntrl \<times> heap_mem \<Rightarrow> ((heap_cntrl \<times> heap_mem) \<times> nat) option" where
  "librt_allocate sz al h =
     (case heapAllocateAligned (fst h) sz al (snd h) of None \<Rightarrow> None | Some (m, p) \<Rightarrow> Some ((fst h, m), p))"

definition librt_release :: "nat \<Rightarrow> heap_cntrl \<times> heap_mem \<Rightarrow> (heap_cntrl \<times> heap_mem) \<times> bool" where
  "librt_release p h = (let (m, done) = heapFree (fst h) p (snd h) in ((fst h, m), done))"

text \<open>\<open>rsxHeapInit\<close> ignores the result of \<open>heapInit\<close>; a refused area leaves the zeroed structure.\<close>

definition librt_init :: "nat \<Rightarrow> nat \<Rightarrow> nat \<Rightarrow> heap_cntrl \<times> heap_mem \<Rightarrow> heap_cntrl \<times> heap_mem" where
  "librt_init sentinel addr len h =
     (case heapInit sentinel addr len (snd h) of None \<Rightarrow> h | Some (c, m, n) \<Rightarrow> (c, m))"

text \<open>What lies inside a free block is apart from every area handed out.\<close>

lemma free_block_apart:
  assumes r: "heap_rep {} c m B fs" and p: "16 \<le> p" "\<exists>b s. B b = Some (s, False) \<and> b \<le> p - 16 \<and> p - 16 + s1 \<le> b + s" "8 \<le> s1"
  shows "fresh_area p (s1 - 8) ((\<lambda>(a, s). (a + 16, s - 8)) ` live B)"
proof -
  obtain b s where b: "B b = Some (s, False)" "b \<le> p - 16" "p - 16 + s1 \<le> b + s" using p(2) by blast
  have "p \<noteq> a + 16 \<and> (p + (s1 - 8) \<le> a + 16 \<or> a + 16 + (t - 8) \<le> p)" if a: "B a = Some (t, True)" for a t
  proof -
    have "a \<noteq> b" using a b(1) by auto
    then consider "a < b" | "b < a" by linarith
    then show ?thesis
    proof cases
      case 1
      then have "a + t \<le> b" by (rule tiles_disjoint[OF repD(6)[OF r] a b(1)])
      then show ?thesis using b(2) p(1) 1 by linarith
    next
      case 2
      then have "b + s \<le> a" by (rule tiles_disjoint[OF repD(6)[OF r] b(1) a])
      then show ?thesis using b(3) p(1,3) by linarith
    qed
  qed
  then show ?thesis by (auto simp: fresh_area_def live_def)
qed

lemma librt_allocate_law:
  assumes "librt_ok h L" "sz < 2 ^ 64" "good_alignment al"
  shows "\<exists>h' p. librt_allocate sz al h = Some (h', p) \<and>
    (p = 0 \<and> h' = h \<or> p \<noteq> 0 \<and> (al = 0 \<or> al dvd p) \<and> (\<exists>n \<ge> sz. fresh_area p n L \<and> librt_ok h' (insert (p, n) L)))"
proof -
  obtain B fs where r: "heap_rep {} (fst h) (snd h) B fs" and L: "L = (\<lambda>(a, s). (a + 16, s - 8)) ` live B"
    using assms(1) by (auto simp: librt_ok_def)
  show ?thesis
  proof (rule heapAllocateAligned_rep[OF r assms(2,3)])
    assume "heapAllocateAligned (fst h) sz al (snd h) = Some (snd h, 0)"
    then show ?thesis by (simp add: librt_allocate_def)
  next
    fix m' p B' fs' s1
    assume o: "heapAllocateAligned (fst h) sz al (snd h) = Some (m', p)" "p \<noteq> 0" "heap_rep {} (fst h) m' B' fs'"
      "live B' = insert (p - 16, s1) (live B)" "sz + 8 \<le> s1" "al = 0 \<or> al dvd p" "16 \<le> p"
      "\<exists>b s. B b = Some (s, False) \<and> b \<le> p - 16 \<and> p - 16 + s1 \<le> b + s"
    have "librt_ok (fst h, m') (insert (p, s1 - 8) L)"
      unfolding librt_ok_def L using o(3,4,7) by (auto intro!: exI[of _ B'])
    moreover have "sz \<le> s1 - 8" using o(5) by simp
    moreover have "fresh_area p (s1 - 8) L" unfolding L by (rule free_block_apart[OF r o(7,8)]) (use o(5) in simp)
    ultimately have "\<exists>n \<ge> sz. fresh_area p n L \<and> librt_ok (fst h, m') (insert (p, n) L)" by blast
    then show ?thesis using o(1,2,6) by (intro exI[of _ "(fst h, m')"] exI[of _ p]) (simp add: librt_allocate_def)
  qed
qed

lemma librt_areas_law:
  assumes "librt_ok h L" "(p, n) \<in> L" "(q, k) \<in> L" "(p, n) \<noteq> (q, k)"
  shows "p + n \<le> q \<or> q + k \<le> p"
proof -
  obtain B fs a s b t where r: "heap_rep {} (fst h) (snd h) B fs"
    and ab: "B a = Some (s, True)" "p = a + 16" "n = s - 8" "B b = Some (t, True)" "q = b + 16" "k = t - 8"
    using assms by (auto simp: librt_ok_def live_def)
  have "a \<noteq> b" using ab assms(4) by auto
  then consider "a < b" | "b < a" by linarith
  then show ?thesis
    using tiles_disjoint[OF repD(6)[OF r] ab(1,4)] tiles_disjoint[OF repD(6)[OF r] ab(4,1)] ab(2,3,5,6) by cases auto
qed

lemma librt_release_law:
  assumes "librt_ok h L" "(p, n) \<in> L"
  shows "p \<noteq> 0 \<and> (\<exists>h'. librt_release p h = (h', True) \<and> librt_ok h' (L - {(p, n)}))"
proof -
  obtain B fs a s where r: "heap_rep {} (fst h) (snd h) B fs" and L: "L = (\<lambda>(a, s). (a + 16, s - 8)) ` live B"
    and a: "B a = Some (s, True)" "p = a + 16" "n = s - 8"
    using assms by (auto simp: librt_ok_def live_def)
  obtain m' B' fs' where f: "heapFree (fst h) (a + 16) (snd h) = (m', True)" "heap_rep {} (fst h) m' B' fs'"
    "live B' = live B - {(a, s)}" by (rule heapFree_rep[OF r a(1)])
  have "L - {(p, n)} = (\<lambda>(a, s). (a + 16, s - 8)) ` live B'"
    unfolding L f(3) a(2,3) using a(1) by (auto simp: live_def image_iff)
  then have "librt_ok (fst h, m') (L - {(p, n)})" unfolding librt_ok_def using f(2) by auto
  then show ?thesis using f(1) a(2) by (auto simp: librt_release_def)
qed

interpretation librt: block_heap librt_ok librt_allocate librt_release
proof (unfold_locales, goal_cases)
  case (1 h L sz al)
  then show ?case by (rule librt_allocate_law)
next
  case (2 h L p n q k)
  then show ?case by (rule librt_areas_law)
next
  case (3 h L p n)
  then show ?case by (rule librt_release_law)
next
  case (4 p h h')
  then show ?case by (auto simp: librt_release_def heapFree_rejects split: prod.splits) (metis heapFree_rejects prod.collapse)
qed

section \<open>Properties\<close>

text \<open>C34: On the librt heap the layer keeps its promise: allocation always returns, a null pointer comes with
  the code for an uninitialised or exhausted heap and changes nothing else, any other pointer with the OK
  code and an area of at least the size asked for, aligned as asked, whose pointer is none of those handed out
  and which overlaps none of their areas; freeing an area handed out records OK and takes exactly that area
  back; and areas handed out never overlap.\<close>

theorem rsx_mm_contract:
  assumes "mm_ok librt_ok st L"
  shows "(\<exists>st' p. rsxMalloc librt_allocate sz st = Some (st', p) \<and> mm_allocated librt_ok (unat sz) 0 st L st' p) \<and>
    (good_alignment (unat al) \<longrightarrow>
       (\<exists>st' p. rsxMemalign librt_allocate al sz st = Some (st', p) \<and> mm_allocated librt_ok (unat sz) (unat al) st L st' p)) \<and>
    (\<forall>p n. (p, n) \<in> L \<longrightarrow> rsx_mm_last_error (rsxFree librt_release p st) = MM_OK \<and>
       mm_ok librt_ok (rsxFree librt_release p st) (L - {(p, n)})) \<and>
    (\<forall>p n q k. (p, n) \<in> L \<and> (q, k) \<in> L \<and> (p, n) \<noteq> (q, k) \<longrightarrow> p + n \<le> q \<or> q + k \<le> p)"
  using librt.rsxMalloc_contract[OF assms] librt.rsxMemalign_contract[OF assms] librt.rsxFree_held[OF assms]
    librt.mm_areas_apart[OF assms] by blast

text \<open>On the concrete heap of \<open>Librt_Heap_Run\<close>.\<close>

theorem rsx_mm_contract_witness:
  "\<exists>c m n st' p. heapInit 64 4096 1024 blank_mem = Some (c, m, n) \<and>
     rsxMemalign librt_allocate 128 100 \<lparr>rsx_heap = (c, m), rsxheap_initialized = True, rsx_mm_last_error = 0\<rparr> = Some (st', p) \<and>
     (p = 0 \<longleftrightarrow> rsx_mm_last_error st' = MM_ALLOCATION) \<and> 128 dvd p"
proof -
  obtain c m where h: "heapInit 64 4096 1024 blank_mem = Some (c, m, 1008)"
    "heap_rep {} c m [4096 \<mapsto> (1008, False)] [4096]" by (rule librt_demo_heap)
  let ?st = "\<lparr>rsx_heap = (c, m), rsxheap_initialized = True, rsx_mm_last_error = 0\<rparr>"
  have "live [4096 \<mapsto> (1008, False)] = {}" by (auto simp: live_def split: if_splits)
  then have ok: "mm_ok librt_ok ?st {}" unfolding mm_ok_def librt_ok_def using h(2) by (auto intro!: exI[of _ "[4096 \<mapsto> (1008, False)]"])
  have al: "good_alignment (unat (128 :: u32))" unfolding good_alignment_def by (rule disjI2, rule exI[of _ 7]) simp
  obtain st' p where "rsxMemalign librt_allocate 128 100 ?st = Some (st', p)"
    "mm_allocated librt_ok (unat (100 :: u32)) (unat (128 :: u32)) ?st {} st' p"
    using mp[OF conjunct1[OF conjunct2[OF rsx_mm_contract[OF ok, of 100 128]]] al] by blast
  then show ?thesis using h(1) by (auto simp: mm_allocated_def split: if_splits)
qed

text \<open>\<open>rsxHeapInit\<close> reports a failing firmware query and stays uninitialised; otherwise it sets the heap up
  once over the local memory less the safe area, and later calls change nothing but the code.  A local
  memory smaller than the safe area is not noticed: the length wraps.\<close>

theorem rsx_heap_init:
  assumes "\<not> (addr \<le> sentinel \<and> sentinel \<le> addr + unat (local_size - 4096))"
    and "addr + unat (local_size - 4096) < 2 ^ 64" "48 + front_gap addr \<le> unat (local_size - 4096)"
  shows "let (st', r) = rsxHeapInit (rc, addr, local_size) (librt_init sentinel) st in
    if rsxheap_initialized st then r = 1 \<and> st' = st\<lparr>rsx_mm_last_error := MM_OK\<rparr>
    else if rc \<noteq> 0 then r = 0 \<and> st' = st\<lparr>rsx_mm_last_error := MM_GCM_CONFIG\<rparr>
    else r = 1 \<and> rsx_mm_last_error st' = MM_OK \<and> mm_ok librt_ok st' {}"
proof (cases "rsxheap_initialized st \<or> rc \<noteq> 0")
  case True
  then show ?thesis by (auto simp: rsxHeapInit_def rsx_mm_set_last_error_def)
next
  case False
  let ?len = "unat (local_size - 4096)" and ?m = "snd (rsx_heap st)"
  have b: "addr < 2 ^ 64" "?len < 2 ^ 64" using assms(2) by linarith+
  note S = heapInit_spec[OF b assms(1)]
  have "\<not> (2 ^ 64 \<le> addr + ?len \<or> ?len < 48 + front_gap addr)" using assms(2,3) by linarith
  then have "heapInit sentinel addr ?len ?m \<noteq> None" using conjunct1[OF S] by blast
  then obtain c m' n where i: "heapInit sentinel addr ?len ?m = Some (c, m', n)" by auto
  then have r: "heap_rep {} c m' [addr + front_gap addr \<mapsto> (n, False)] [addr + front_gap addr]"
    using S[of ?m c m' n] by blast
  moreover have "live [addr + front_gap addr \<mapsto> (n, False)] = {}" by (auto simp: live_def split: if_splits)
  ultimately have "librt_ok (c, m') {}" unfolding librt_ok_def by (metis fst_conv image_empty snd_conv)
  then show ?thesis using False i by (simp add: rsxHeapInit_def rsx_mm_set_last_error_def mm_ok_def librt_init_def)
qed

theorem rsx_heap_init_witness:
  "let (st', r) = rsxHeapInit (0, 0x40000000, 0x10000) (librt_init 64)
       \<lparr>rsx_heap = (undefined, blank_mem), rsxheap_initialized = False, rsx_mm_last_error = 0\<rparr>
   in r = 1 \<and> rsx_mm_last_error st' = MM_OK \<and> mm_ok librt_ok st' {}"
  using rsx_heap_init[where addr = "0x40000000" and sentinel = 64 and local_size = "0x10000" and rc = 0 and st =
      "\<lparr>rsx_heap = (undefined, blank_mem), rsxheap_initialized = False, rsx_mm_last_error = 0\<rparr>"]
  by (simp add: front_gap_def)

end
