(* ===== verification/Sfo.thy ===== *)
theory Sfo
  imports Prelude
begin

text \<open>
  \<open>tools/sfo-pkg/sfo.c\<close>, the binary format: parsing the bytes of a PARAM.SFO into pairs and writing pairs
  as bytes (the layout passes of \<open>convert_from_xml\<close>), with the listing of pairs.  Bytes are 8-bit words; a
  C string is the list of its bytes before the terminator.  Offsets read from the file are 32-bit words
  and their sums wrap as in the code, while the pointers formed from them do not.  Every read of the file's
  buffer and every write to a pair is checked against the buffer it goes to, and one that leaves it is an
  outcome of its own.
\<close>

section \<open>Little-endian helpers\<close>

definition rd_le16 :: "u8 list \<Rightarrow> u16" where
  "rd_le16 p = ucast (p ! 0) OR push_bit 8 (ucast (p ! 1))"

definition rd_le32 :: "u8 list \<Rightarrow> u32" where
  "rd_le32 p = ucast (p ! 0) OR push_bit 8 (ucast (p ! 1)) OR push_bit 16 (ucast (p ! 2)) OR push_bit 24 (ucast (p ! 3))"

definition wr_le16 :: "u16 \<Rightarrow> u8 list" where
  "wr_le16 v = [ucast (v AND 0xff), ucast (drop_bit 8 v)]"

definition wr_le32 :: "u32 \<Rightarrow> u8 list" where
  "wr_le32 v = [ucast (v AND 0xff), ucast (drop_bit 8 v AND 0xff), ucast (drop_bit 16 v AND 0xff), ucast (drop_bit 24 v AND 0xff)]"

definition align_val :: "u32 \<Rightarrow> u32 \<Rightarrow> u32" where
  "align_val n a = (n + a - 1) AND NOT (a - 1)"

section \<open>Pairs\<close>

abbreviation (input) SFO_STRING :: u8 where "SFO_STRING \<equiv> 2"
abbreviation (input) SFO_INT :: u8 where "SFO_INT \<equiv> 4"
abbreviation (input) SFO_HDR_SIZE :: nat where "SFO_HDR_SIZE \<equiv> 20"
abbreviation (input) SFO_ENTRY_SIZE :: nat where "SFO_ENTRY_SIZE \<equiv> 16"
abbreviation (input) KV_MAX_KEY :: nat where "KV_MAX_KEY \<equiv> 128"
abbreviation (input) KV_MAX_STR :: nat where "KV_MAX_STR \<equiv> 2048"
abbreviation (input) KV_MAX_PAIRS :: nat where "KV_MAX_PAIRS \<equiv> 256"
abbreviation (input) SFO_MAGIC :: u32 where "SFO_MAGIC \<equiv> 0x46535000"

record sfo_kv =
  kv_key :: "u8 list"
  kv_type :: u8
  kv_int :: u32
  kv_str :: "u8 list"
  kv_key_off :: u16
  kv_unk1 :: u8
  kv_value_len :: u32
  kv_padded_len :: u32
  kv_value_off :: u32

definition cstring :: "u8 list \<Rightarrow> u8 list" where
  "cstring bs = takeWhile (\<lambda>b. b \<noteq> 0) bs"

definition ascii :: "string \<Rightarrow> u8 list" where
  "ascii s = map of_char s"

section \<open>Parsing\<close>

datatype sfo_fault = Sfo_refused | Sfo_out_of_bounds

text \<open>
  The buffer \<open>read_file\<close> returns holds one byte more than the file, a terminator: \<open>n\<close> bytes read at \<open>p\<close>.
\<close>

definition read_bytes :: "u8 list \<Rightarrow> nat \<Rightarrow> nat \<Rightarrow> sfo_fault + u8 list" where
  "read_bytes data p n =
     (if n = 0 \<or> p + n \<le> length data + 1 then Inr (take n (drop p (data @ [0]))) else Inl Sfo_out_of_bounds)"

text \<open>The loop that measures a key or a string: byte by byte, up to the terminator or the end of the file.\<close>

function string_len :: "u8 list \<Rightarrow> nat \<Rightarrow> nat \<Rightarrow> sfo_fault + nat" where
  "string_len data p n =
     (if p + n < length data
      then (case read_bytes data (p + n) 1 of
              Inl f \<Rightarrow> Inl f
            | Inr bs \<Rightarrow> if hd bs \<noteq> 0 then string_len data p (n + 1) else Inr n)
      else Inr n)"
  by pat_completeness auto
termination
  by (relation "measure (\<lambda>(data, p, n). length data + 1 - (p + n))") (auto simp: read_bytes_def split: if_splits)

declare string_len.simps [simp del]

text \<open>Measuring, cutting to what the destination of \<open>cap\<close> bytes holds, and copying with a terminator.\<close>

definition copy_string :: "nat \<Rightarrow> u8 list \<Rightarrow> nat \<Rightarrow> sfo_fault + u8 list" where
  "copy_string cap data p =
     (case string_len data p 0 of
        Inl f \<Rightarrow> Inl f
      | Inr klen \<Rightarrow>
          let klen = (if klen \<ge> cap then cap - 1 else klen)
          in (case read_bytes data p klen of
                Inl f \<Rightarrow> Inl f
              | Inr s \<Rightarrow> if length s + 1 > cap then Inl Sfo_out_of_bounds else Inr s))"

definition read_le32 :: "u8 list \<Rightarrow> nat \<Rightarrow> sfo_fault + u32" where
  "read_le32 data p = (case read_bytes data p 4 of Inl f \<Rightarrow> Inl f | Inr bs \<Rightarrow> Inr (rd_le32 bs))"

text \<open>The \<open>i\<close>-th entry, at \<open>entry_off\<close>, into the \<open>i\<close>-th pair of the caller's array.\<close>

definition parse_entry :: "u8 list \<Rightarrow> u32 \<Rightarrow> u32 \<Rightarrow> nat \<Rightarrow> nat \<Rightarrow> sfo_fault + sfo_kv" where
  "parse_entry data key_offset value_offset i entry_off =
     (let data_len = length data in
      if entry_off + SFO_ENTRY_SIZE > data_len then Inl Sfo_refused
      else case read_bytes data entry_off SFO_ENTRY_SIZE of Inl f \<Rightarrow> Inl f | Inr e \<Rightarrow>
      let k_off = rd_le16 e;
          e_unk1 = e ! 2;
          vtype = e ! 3;
          vlen = rd_le32 (drop 4 e);
          padded = rd_le32 (drop 8 e);
          v_off = rd_le32 (drop 12 e)
      in if unat (key_offset + ucast k_off) \<ge> data_len then Inl Sfo_refused
      else if i \<ge> KV_MAX_PAIRS then Inl Sfo_out_of_bounds
      else case copy_string KV_MAX_KEY data (unat key_offset + unat k_off) of Inl f \<Rightarrow> Inl f | Inr key \<Rightarrow>
      let kv = (\<lambda>i s. \<lparr>kv_key = key, kv_type = vtype, kv_int = i, kv_str = s, kv_key_off = k_off,
                      kv_unk1 = e_unk1, kv_value_len = vlen, kv_padded_len = padded, kv_value_off = v_off\<rparr>);
          v = unat value_offset + unat v_off
      in if vtype = SFO_STRING
         then if unat (value_offset + v_off) \<ge> data_len then Inl Sfo_refused
              else (case copy_string KV_MAX_STR data v of Inl f \<Rightarrow> Inl f | Inr s \<Rightarrow> Inr (kv 0 s))
         else if vtype = SFO_INT
         then if unat (value_offset + v_off + 4) > data_len then Inl Sfo_refused
              else (case read_le32 data v of Inl f \<Rightarrow> Inl f | Inr n \<Rightarrow> Inr (kv n []))
         else Inr (kv 0 []))"

fun parse_entries :: "u8 list \<Rightarrow> u32 \<Rightarrow> u32 \<Rightarrow> nat \<Rightarrow> nat \<Rightarrow> nat \<Rightarrow> sfo_fault + sfo_kv list" where
  "parse_entries data key_offset value_offset 0 i entry_off = Inr []"
| "parse_entries data key_offset value_offset (Suc n) i entry_off =
     (case parse_entry data key_offset value_offset i entry_off of
        Inl f \<Rightarrow> Inl f
      | Inr kv \<Rightarrow>
          (case parse_entries data key_offset value_offset n (i + 1) (entry_off + SFO_ENTRY_SIZE) of
             Inl f \<Rightarrow> Inl f
           | Inr kvs \<Rightarrow> Inr (kv # kvs)))"

definition parse_sfo :: "u8 list \<Rightarrow> sfo_fault + sfo_kv list" where
  "parse_sfo data =
     (if length data < SFO_HDR_SIZE then Inl Sfo_refused
      else case read_bytes data 0 SFO_HDR_SIZE of Inl f \<Rightarrow> Inl f | Inr hdr \<Rightarrow>
      let magic = rd_le32 hdr;
          unk1 = rd_le32 (drop 4 hdr);
          key_offset = rd_le32 (drop 8 hdr);
          value_offset = rd_le32 (drop 12 hdr);
          pair_count = rd_le32 (drop 16 hdr)
      in if magic \<noteq> SFO_MAGIC then Inl Sfo_refused
         else if unk1 \<noteq> 0x101 then Inl Sfo_refused
         else if unat pair_count > KV_MAX_PAIRS then Inl Sfo_refused
         else parse_entries data key_offset value_offset (unat pair_count) 0 SFO_HDR_SIZE)"

section \<open>Listing\<close>

definition repr_byte :: "u8 \<Rightarrow> u8 list" where
  "repr_byte c =
     (if c = 0x5c then [0x5c, 0x5c] else if c = 0x27 then [0x5c, 0x27] else if c = 0x0a then [0x5c, 0x6e]
      else if c = 0x0d then [0x5c, 0x72] else if c = 0x09 then [0x5c, 0x74] else [c])"

definition print_repr_str :: "u8 list \<Rightarrow> u8 list" where
  "print_repr_str s = [0x27] @ concat (map repr_byte s) @ [0x27]"

fun decimal :: "nat \<Rightarrow> u8 list" where
  "decimal n = (if n < 10 then [0x30 + of_nat n] else decimal (n div 10) @ [0x30 + of_nat (n mod 10)])"

declare decimal.simps [simp del]

definition print_pair :: "sfo_kv \<Rightarrow> u8 list" where
  "print_pair kv = print_repr_str (kv_key kv) @ ascii '': '' @
     (if kv_type kv = SFO_STRING then print_repr_str (kv_str kv) else decimal (unat (kv_int kv)))"

fun print_pairs :: "nat \<Rightarrow> sfo_kv list \<Rightarrow> u8 list" where
  "print_pairs i [] = []"
| "print_pairs i (kv # kvs) = (if i > 0 then ascii '', '' else []) @ print_pair kv @ print_pairs (i + 1) kvs"

definition print_dict :: "sfo_kv list \<Rightarrow> u8 list" where
  "print_dict kvs = [0x7b] @ print_pairs 0 kvs @ [0x7d, 0x0a]"

section \<open>Writing\<close>

definition value_alignment :: "u8 list \<Rightarrow> u32" where
  "value_alignment key =
     (if key = ascii ''TITLE'' then 0x80 else if key = ascii ''LICENSE'' then 0x200
      else if key = ascii ''TITLE_ID'' then 0x10 else 4)"

text \<open>The lengths of a value, padded and not.\<close>

definition value_lens :: "sfo_kv \<Rightarrow> u32 \<times> u32" where
  "value_lens kv =
     (if kv_type kv = SFO_INT then (4, 4)
      else let slen = of_nat (length (kv_str kv)) + 1 in (align_val slen (value_alignment (kv_key kv)), slen))"

text \<open>The first pass: for each pair its key offset, value offset, padded and plain length; and the final offsets.\<close>

fun sfo_layout :: "sfo_kv list \<Rightarrow> u32 \<Rightarrow> u32 \<Rightarrow> (u32 \<times> u32 \<times> u32 \<times> u32) list \<times> u32 \<times> u32" where
  "sfo_layout [] keyoff valueoff = ([], keyoff, valueoff)"
| "sfo_layout (kv # kvs) keyoff valueoff =
     (let (pad, vl) = value_lens kv;
          (ls, k, v) = sfo_layout kvs (keyoff + of_nat (length (kv_key kv)) + 1) (valueoff + pad)
      in ((keyoff, valueoff, pad, vl) # ls, k, v))"

definition write_entry :: "sfo_kv \<times> u32 \<times> u32 \<times> u32 \<times> u32 \<Rightarrow> u8 list" where
  "write_entry = (\<lambda>(kv, key_off, val_off, pad, vl).
     wr_le16 (ucast key_off) @ [4, kv_type kv] @ wr_le32 vl @ wr_le32 pad @ wr_le32 val_off)"

definition write_value :: "sfo_kv \<times> u32 \<times> u32 \<times> u32 \<times> u32 \<Rightarrow> u8 list" where
  "write_value = (\<lambda>(kv, key_off, val_off, pad, vl).
     (if kv_type kv = SFO_INT then wr_le32 (kv_int kv)
      else let slen = length (kv_str kv)
           in kv_str kv @ [0] @ replicate (unat pad - unat (of_nat slen + 1 :: u32)) 0))"

definition write_sfo :: "sfo_kv list \<Rightarrow> u8 list" where
  "write_sfo kvs =
     (let (ls, keyoff, valueoff) = sfo_layout kvs 0 0;
          header_key_offset = 20 + 16 * of_nat (length kvs);
          header_value_offset = align_val (header_key_offset + keyoff) 4;
          keypad = header_value_offset - (header_key_offset + keyoff)
      in wr_le32 SFO_MAGIC @ wr_le32 0x101 @ wr_le32 header_key_offset @ wr_le32 header_value_offset
         @ wr_le32 (of_nat (length kvs))
         @ concat (map write_entry (zip kvs ls))
         @ concat (map (\<lambda>kv. kv_key kv @ [0]) kvs)
         @ replicate (unat keypad) 0
         @ concat (map write_value (zip kvs ls)))"

section \<open>Reads inside the file\<close>

text \<open>The strings of a file: the measuring loop never leaves the buffer, wherever its pointer is.\<close>

lemma string_len_eq: "string_len data p n = Inr (n + length (cstring (drop (p + n) data)))"
proof (induction data p n rule: string_len.induct)
  case (1 data p n)
  show ?case
  proof (cases "p + n < length data")
    case True
    then have d: "drop (p + n) data = data ! (p + n) # drop (p + (n + 1)) data" by (simp add: Cons_nth_drop_Suc)
    have r: "read_bytes data (p + n) 1 = Inr [data ! (p + n)]" using True d by (simp add: read_bytes_def)
    show ?thesis
    proof (cases "data ! (p + n) = 0")
      case True
      then show ?thesis using d r by (simp add: string_len.simps[of data p n] cstring_def)
    next
      case False
      then show ?thesis using 1[OF True r] True d r by (simp add: string_len.simps[of data p n] cstring_def)
    qed
  qed (simp add: string_len.simps[of data p n] cstring_def)
qed

lemma length_cstring: "length (cstring bs) \<le> length bs"
  unfolding cstring_def by (rule length_takeWhile_le)

lemma take_cstring: "n \<le> length (cstring bs) \<Longrightarrow> take n bs = take n (cstring bs)"
  unfolding cstring_def by (metis takeWhile_eq_take take_take min.absorb1)

lemma copy_string_eq: "0 < cap \<Longrightarrow> copy_string cap data p = Inr (take (cap - 1) (cstring (drop p data)))"
proof -
  assume cap: "0 < cap"
  let ?s = "cstring (drop p data)"
  define n where "n = (if length ?s \<ge> cap then cap - 1 else length ?s)"
  have n: "n \<le> length ?s" "n < cap" "take (cap - 1) ?s = take n ?s" using cap by (auto simp: n_def)
  have b: "n = 0 \<or> p + n \<le> length data" using n(1) length_cstring[of "drop p data"] by auto
  then have "take n (drop p (data @ [0])) = take n ?s" using take_cstring[OF n(1)] by auto
  then have r: "read_bytes data p n = Inr (take n ?s)" using b by (auto simp: read_bytes_def)
  show ?thesis using n r by (simp add: copy_string_def string_len_eq Let_def n_def[symmetric])
qed

lemma rd_take: "4 \<le> n \<Longrightarrow> rd_le32 (take n bs) = rd_le32 bs" "2 \<le> n \<Longrightarrow> rd_le16 (take n bs) = rd_le16 bs"
  by (simp_all add: rd_le32_def rd_le16_def)

lemma read_le32_eq:
  "read_le32 data p = (if p + 4 \<le> length data + 1 then Inr (rd_le32 (drop p (data @ [0]))) else Inl Sfo_out_of_bounds)"
  by (simp add: read_le32_def read_bytes_def rd_take del: take_append drop_append)

lemma read_bytes_in: "p + n \<le> length data \<Longrightarrow> read_bytes data p n = Inr (take n (drop p data))"
  by (simp add: read_bytes_def)

text \<open>An entry with its reads resolved.\<close>

lemma parse_entry_eq:
  "i < KV_MAX_PAIRS \<Longrightarrow> parse_entry data key_offset value_offset i entry_off =
     (let data_len = length data; e = drop entry_off data; k_off = rd_le16 e; vtype = e ! 3; v_off = rd_le32 (drop 12 e);
          kv = (\<lambda>i s. \<lparr>kv_key = take (KV_MAX_KEY - 1) (cstring (drop (unat key_offset + unat k_off) data)), kv_type = vtype, kv_int = i,
            kv_str = s, kv_key_off = k_off, kv_unk1 = e ! 2, kv_value_len = rd_le32 (drop 4 e), kv_padded_len = rd_le32 (drop 8 e),
            kv_value_off = v_off\<rparr>);
          v = unat value_offset + unat v_off
      in if entry_off + SFO_ENTRY_SIZE > data_len then Inl Sfo_refused
         else if unat (key_offset + ucast k_off) \<ge> data_len then Inl Sfo_refused
         else if vtype = SFO_STRING
         then if unat (value_offset + v_off) \<ge> data_len then Inl Sfo_refused
              else Inr (kv 0 (take (KV_MAX_STR - 1) (cstring (drop v data))))
         else if vtype = SFO_INT
         then if unat (value_offset + v_off + 4) > data_len then Inl Sfo_refused
              else if v + 4 > length data + 1 then Inl Sfo_out_of_bounds
              else Inr (kv (rd_le32 (drop v (data @ [0]))) [])
         else Inr (kv 0 []))"
  by (simp add: parse_entry_def Let_def read_bytes_in copy_string_eq read_le32_eq rd_take drop_take)

section \<open>Reading back what was written\<close>

lemma mask_8: "(0xff :: u32) = mask 8" "(0xff :: u16) = mask 8"
  by (simp_all add: mask_eq_exp_minus_1)

lemma rd_wr_le16 [simp]: "rd_le16 (wr_le16 v @ x) = v"
proof (rule bit_word_eqI)
  fix n assume "n < LENGTH(16)"
  then show "bit (rd_le16 (wr_le16 v @ x)) n = bit v n"
    unfolding rd_le16_def wr_le16_def mask_8 by (cases "n < 8") (auto simp: bit_simps)
qed

lemma rd_wr_le32 [simp]: "rd_le32 (wr_le32 v @ x) = v"
proof (rule bit_word_eqI)
  fix n assume n: "n < LENGTH(32)"
  consider "n < 8" | "8 \<le> n" "n < 16" | "16 \<le> n" "n < 24" | "24 \<le> n" by linarith
  then show "bit (rd_le32 (wr_le32 v @ x)) n = bit v n"
    unfolding rd_le32_def wr_le32_def mask_8 using n by cases (auto simp: bit_simps)
qed

lemma length_wr [simp]: "length (wr_le16 v) = 2" "length (wr_le32 w) = 4"
  by (simp_all add: wr_le16_def wr_le32_def)

lemma align_val_pow:
  assumes "a = 2 ^ k" "k < 32" "unat n + 2 ^ k \<le> 2 ^ 32"
  shows "unat (align_val n a) = (unat n + 2 ^ k - 1) div 2 ^ k * 2 ^ k"
proof -
  have a1: "a - 1 = mask k" using assms(1) by (simp add: mask_eq_exp_minus_1)
  have "(2 :: nat) ^ k < 2 ^ 32" using assms(2) by (intro power_strict_increasing) simp_all
  then have "unat (of_nat (2 ^ k - 1) :: u32) = 2 ^ k - 1" by (intro unat_of_nat_small) simp
  moreover have "(mask k :: u32) = of_nat (2 ^ k - 1)" by (metis of_nat_mask_eq mask_eq_exp_minus_1)
  ultimately have "unat (mask k :: u32) = 2 ^ k - 1" by simp
  then have m: "unat (n + mask k) = unat n + (2 ^ k - 1)"
    using assms(3) by (subst unat_plus_small) simp_all
  have e: "n + a - 1 = n + mask k" unfolding a1[symmetric] by (simp only: add_diff_eq)
  have "unat n + (2 ^ k - 1) = unat n + 2 ^ k - (1 :: nat)" by simp
  then show ?thesis unfolding align_val_def a1 e unat_and_not_mask m by (simp only:)
qed

lemma round_up_bounds: "0 < (a :: nat) \<Longrightarrow> n \<le> (n + a - 1) div a * a \<and> (n + a - 1) div a * a < n + a"
proof -
  assume a: "0 < a"
  have "(n + a - 1) div a * a + (n + a - 1) mod a = n + a - 1" by simp
  then show ?thesis using mod_less_divisor[OF a, of "n + a - 1"] a by linarith
qed

lemma value_alignment_pow: "\<exists>k. k \<le> 9 \<and> value_alignment key = 2 ^ k"
proof -
  have "(0x80 :: u32) = 2 ^ 7" "(0x200 :: u32) = 2 ^ 9" "(0x10 :: u32) = 2 ^ 4" "(4 :: u32) = 2 ^ 2" by simp_all
  then show ?thesis unfolding value_alignment_def by (metis le_numeral_extra(4) nat_le_linear numeral_le_iff semiring_norm(68-79))
qed

text \<open>Pairs that fit the fixed buffers, as \<open>parse_xml\<close> produces them.\<close>

definition wf_kv :: "sfo_kv \<Rightarrow> bool" where
  "wf_kv kv \<longleftrightarrow> length (kv_key kv) < KV_MAX_KEY \<and> 0 \<notin> set (kv_key kv) \<and> length (kv_str kv) < KV_MAX_STR \<and>
     0 \<notin> set (kv_str kv) \<and> (kv_type kv = SFO_STRING \<and> kv_int kv = 0 \<or> kv_type kv = SFO_INT \<and> kv_str kv = [])"

text \<open>A pair with the bookkeeping fields the parser fills in.\<close>

definition placed :: "sfo_kv \<times> u32 \<times> u32 \<times> u32 \<times> u32 \<Rightarrow> sfo_kv" where
  "placed = (\<lambda>(kv, key_off, val_off, pad, vl). kv\<lparr>kv_key_off := ucast key_off, kv_unk1 := 4, kv_value_len := vl,
     kv_padded_len := pad, kv_value_off := val_off\<rparr>)"

lemma value_lens_bounds:
  assumes "wf_kv kv" "value_lens kv = (pad, vl)"
  shows "length (write_value (kv, ko, vo, pad, vl)) = unat pad" "unat pad \<le> 3072" "0 < unat pad"
proof -
  have "length (write_value (kv, ko, vo, pad, vl)) = unat pad \<and> unat pad \<le> 3072 \<and> 0 < unat pad"
  proof (cases "kv_type kv = SFO_INT")
    case True
    then show ?thesis using assms(2) by (simp add: value_lens_def write_value_def)
  next
    case False
    let ?n = "of_nat (length (kv_str kv)) + 1 :: u32"
    have len: "length (kv_str kv) < 2048" using assms(1) by (simp add: wf_kv_def)
    then have n: "unat ?n = length (kv_str kv) + 1" by (simp add: unat_plus_small unat_of_nat_small)
    obtain k where k: "k \<le> 9" "value_alignment (kv_key kv) = 2 ^ k" using value_alignment_pow by blast
    have "(2 :: nat) ^ k \<le> 2 ^ 9" using k(1) by (intro power_increasing) simp_all
    then have p: "(2 :: nat) ^ k \<le> 512" by simp
    have pad: "pad = align_val ?n (2 ^ k)" using assms(2) False k(2) by (auto simp: value_lens_def Let_def)
    have "unat pad = (unat ?n + 2 ^ k - 1) div 2 ^ k * 2 ^ k"
      unfolding pad by (rule align_val_pow) (use k(1) p n len in auto)
    then have "unat ?n \<le> unat pad" "unat pad < unat ?n + 2 ^ k" using round_up_bounds[of "2 ^ k" "unat ?n"] by simp_all
    then show ?thesis using False n len p by (simp add: write_value_def Let_def)
  qed
  then show "length (write_value (kv, ko, vo, pad, vl)) = unat pad" "unat pad \<le> 3072" "0 < unat pad" by blast+
qed

lemma length_sfo_layout: "length (fst (sfo_layout kvs ko vo)) = length kvs"
  by (induction kvs ko vo rule: sfo_layout.induct) (auto simp: Let_def split: prod.splits)

lemma drop_shift: "drop i xs = a @ r \<Longrightarrow> drop (i + length a) xs = r"
  by (metis append_eq_conv_conj drop_drop add.commute)

lemma drop_append_length: "drop i xs = a @ r \<Longrightarrow> 0 < length a \<Longrightarrow> i + length a \<le> length xs"
proof -
  assume a: "drop i xs = a @ r" "0 < length a"
  have "length (drop i xs) = length a + length r" using a(1) by simp
  then have "length xs - i = length a + length r" by simp
  then show ?thesis using a(2) by linarith
qed

lemma cstring_stop: "0 \<notin> set s \<Longrightarrow> cstring (s @ 0 # r) = s"
  unfolding cstring_def by (subst takeWhile_append2) auto

lemma parse_entry_placed:
  assumes wf: "wf_kv kv" and vl: "value_lens kv = (pad, vl)" and data: "length data < 2 ^ 32"
    and e: "drop e data = write_entry (kv, ko, vo, pad, vl) @ r1"
    and k: "drop (unat KO + unat ko) data = kv_key kv @ 0 # r2" and ko: "unat ko < 2 ^ 16"
    and v: "drop (unat VO + unat vo) data = write_value (kv, ko, vo, pad, vl) @ r3"
    and i: "i < KV_MAX_PAIRS"
  shows "parse_entry data KO VO i e = Inr (placed (kv, ko, vo, pad, vl))"
proof -
  have we: "write_entry (kv, ko, vo, pad, vl) @ r1 =
      wr_le16 (ucast ko) @ [4, kv_type kv] @ wr_le32 vl @ wr_le32 pad @ wr_le32 vo @ r1"
    by (simp add: write_entry_def)
  have len: "e + 16 \<le> length data"
    using drop_append_length[OF e] by (simp add: write_entry_def)
  have rd: "rd_le16 (drop e data) = ucast ko" "drop e data ! 2 = 4" "drop e data ! 3 = kv_type kv"
    "rd_le32 (drop 4 (drop e data)) = vl" "rd_le32 (drop 8 (drop e data)) = pad" "rd_le32 (drop 12 (drop e data)) = vo"
    unfolding e we by (simp_all add: nth_append del: append.simps drop_drop) (simp_all only: append_Nil rd_wr_le32)
  have uk: "unat (ucast ko :: u16) = unat ko" using ko by (simp add: unsigned_ucast_eq take_bit_eq_mod)
  have ki: "unat KO + unat ko < length data"
    using drop_append_length[of "unat KO + unat ko" data "kv_key kv @ [0]" r2] k by simp
  have kw: "unat (KO + ucast (ucast ko :: u16)) = unat KO + unat ko"
    using ki data by (subst unat_plus_small) (simp_all only: unat_u32_of_u16 uk, simp)
  have key: "take (128 - 1) (cstring (drop (unat KO + unat ko) data)) = kv_key kv"
    using wf unfolding k by (simp add: cstring_stop wf_kv_def)
  have vlen: "unat VO + unat vo + unat pad \<le> length data"
    using drop_append_length[OF v] value_lens_bounds[OF wf vl] by simp
  have vw: "unat (VO + vo) = unat VO + unat vo"
    using vlen data value_lens_bounds(3)[OF wf vl] by (subst unat_plus_small) simp_all
  show ?thesis
  proof (cases "kv_type kv = SFO_INT")
    case True
    then have "pad = 4" using vl by (simp add: value_lens_def)
    then have v4: "unat VO + unat vo + 4 \<le> length data" using vlen by simp
    then have "unat (VO + vo + 4) = unat VO + unat vo + 4" using data vw by (subst unat_plus_small) simp_all
    moreover have "rd_le32 (drop (unat VO + unat vo) (data @ [0])) = kv_int kv"
      using v v4 True by (simp add: write_value_def)
    ultimately show ?thesis
      using True len ki v4 wf unfolding parse_entry_eq[OF i] Let_def rd uk kw key
      by (cases kv) (simp add: placed_def wf_kv_def)
  next
    case False
    then have str: "kv_type kv = SFO_STRING" "kv_int kv = 0" "length (kv_str kv) < 2048" "0 \<notin> set (kv_str kv)"
      using wf by (auto simp: wf_kv_def)
    have "take (2048 - 1) (cstring (drop (unat VO + unat vo) data)) = kv_str kv"
      unfolding v using False str by (simp add: write_value_def Let_def cstring_stop)
    moreover have "unat VO + unat vo < length data" using vlen value_lens_bounds(3)[OF wf vl] by simp
    ultimately show ?thesis
      using len ki str unfolding parse_entry_eq[OF i] Let_def rd uk kw key vw
      by (cases kv) (simp add: placed_def)
  qed
qed

lemma parse_entries_placed:
  assumes "\<forall>kv \<in> set kvs. wf_kv kv" "length data < 2 ^ 32"
    "unat ko + sum_list (map (\<lambda>kv. length (kv_key kv) + 1) kvs) \<le> 2 ^ 16" "i + length kvs \<le> KV_MAX_PAIRS"
    "drop e data = concat (map write_entry (zip kvs (fst (sfo_layout kvs ko vo)))) @ r1"
    "drop (unat KO + unat ko) data = concat (map (\<lambda>kv. kv_key kv @ [0]) kvs) @ r2"
    "drop (unat VO + unat vo) data = concat (map write_value (zip kvs (fst (sfo_layout kvs ko vo)))) @ r3"
  shows "parse_entries data KO VO (length kvs) i e = Inr (map placed (zip kvs (fst (sfo_layout kvs ko vo))))"
  using assms
proof (induction kvs arbitrary: ko vo i e)
  case (Cons kv kvs)
  obtain pad vl where vl: "value_lens kv = (pad, vl)" by fastforce
  let ?ko = "ko + of_nat (length (kv_key kv)) + 1" and ?vo = "vo + pad"
  have ls: "fst (sfo_layout (kv # kvs) ko vo) = (ko, vo, pad, vl) # fst (sfo_layout kvs ?ko ?vo)"
    by (simp add: vl Let_def split: prod.splits)
  have wf: "wf_kv kv" using Cons.prems(1) by simp
  note B = value_lens_bounds[OF wf vl]
  have kl: "length (kv_key kv) < 128" using wf by (simp add: wf_kv_def)
  have e: "drop e data = write_entry (kv, ko, vo, pad, vl) @ concat (map write_entry (zip kvs (fst (sfo_layout kvs ?ko ?vo)))) @ r1"
    using Cons.prems(5) unfolding ls by simp
  have k: "drop (unat KO + unat ko) data = kv_key kv @ 0 # concat (map (\<lambda>kv. kv_key kv @ [0]) kvs) @ r2"
    using Cons.prems(6) by simp
  have v: "drop (unat VO + unat vo) data = write_value (kv, ko, vo, pad, vl)
      @ concat (map write_value (zip kvs (fst (sfo_layout kvs ?ko ?vo)))) @ r3"
    using Cons.prems(7) unfolding ls by simp
  have ko16: "unat ko < 2 ^ 16" using Cons.prems(3) by simp
  have head: "parse_entry data KO VO i e = Inr (placed (kv, ko, vo, pad, vl))"
    by (rule parse_entry_placed[OF wf vl Cons.prems(2) e k ko16 v]) (use Cons.prems(4) in simp)
  have uko: "unat ?ko = unat ko + length (kv_key kv) + 1"
  proof -
    have "unat (ko + of_nat (length (kv_key kv))) = unat ko + length (kv_key kv)"
      using ko16 kl by (subst unat_plus_small) (simp_all add: unat_of_nat_small)
    then show ?thesis using ko16 kl by (subst unat_plus_small) simp_all
  qed
  have uvo: "unat ?vo = unat vo + unat pad"
    using drop_append_length[OF v] B Cons.prems(2) by (subst unat_plus_small) simp_all
  have "parse_entries data KO VO (length kvs) (i + 1) (e + 16) = Inr (map placed (zip kvs (fst (sfo_layout kvs ?ko ?vo))))"
  proof (rule Cons.IH)
    show "drop (e + 16) data = concat (map write_entry (zip kvs (fst (sfo_layout kvs ?ko ?vo)))) @ r1"
      using drop_shift[OF e] by (simp add: write_entry_def)
    show "drop (unat KO + unat ?ko) data = concat (map (\<lambda>kv. kv_key kv @ [0]) kvs) @ r2"
      using drop_shift[of "unat KO + unat ko" data "kv_key kv @ [0]"] k unfolding uko by (simp add: add.assoc)
    show "drop (unat VO + unat ?vo) data = concat (map write_value (zip kvs (fst (sfo_layout kvs ?ko ?vo)))) @ r3"
      using drop_shift[OF v] B(1) unfolding uvo by (simp add: add.assoc)
  qed (use Cons.prems uko in auto)
  then show ?case using head unfolding ls by simp
qed simp

abbreviation (input) key_bytes :: "sfo_kv list \<Rightarrow> u8 list" where
  "key_bytes kvs \<equiv> concat (map (\<lambda>kv. kv_key kv @ [0]) kvs)"

lemma layout_keyoff:
  "fst (snd (sfo_layout kvs ko vo)) = ko + of_nat (length (key_bytes kvs))"
proof (induction kvs arbitrary: ko vo)
  case (Cons kv kvs)
  obtain pad vl where "value_lens kv = (pad, vl)" by fastforce
  then show ?case using Cons[of "ko + of_nat (length (kv_key kv)) + 1" "vo + pad"]
    by (simp add: Let_def case_prod_beta algebra_simps)
qed simp

lemma length_key_bytes: "length (key_bytes kvs) = sum_list (map (\<lambda>kv. length (kv_key kv) + 1) kvs)"
  by (induction kvs) auto

lemma key_bytes_bound: "\<forall>kv \<in> set kvs. wf_kv kv \<Longrightarrow> length (key_bytes kvs) \<le> 128 * length kvs"
  by (induction kvs) (auto simp: wf_kv_def)

lemma length_entries:
  "length (concat (map write_entry (zip kvs (fst (sfo_layout kvs ko vo))))) = 16 * length kvs"
proof (induction kvs arbitrary: ko vo)
  case (Cons kv kvs)
  obtain pad vl where "value_lens kv = (pad, vl)" by fastforce
  then show ?case using Cons[of "ko + of_nat (length (kv_key kv)) + 1" "vo + pad"]
    by (simp add: Let_def case_prod_beta write_entry_def)
qed simp

lemma length_values:
  "\<forall>kv \<in> set kvs. wf_kv kv \<Longrightarrow>
   length (concat (map write_value (zip kvs (fst (sfo_layout kvs ko vo))))) \<le> 3072 * length kvs"
proof (induction kvs arbitrary: ko vo)
  case (Cons kv kvs)
  obtain pad vl where vl: "value_lens kv = (pad, vl)" by fastforce
  have "wf_kv kv" using Cons.prems by simp
  from value_lens_bounds(1,2)[OF this vl]
  show ?case using Cons.IH[of "ko + of_nat (length (kv_key kv)) + 1" "vo + pad"] Cons.prems vl
    by (simp add: Let_def case_prod_beta)
qed simp

lemma parse_write_sfo:
  assumes wf: "\<forall>kv \<in> set kvs. wf_kv kv" and n: "length kvs \<le> 256"
  shows "parse_sfo (write_sfo kvs) = Inr (map placed (zip kvs (fst (sfo_layout kvs 0 0))))"
proof -
  let ?ls = "fst (sfo_layout kvs 0 0)"
  define K where "K = length (key_bytes kvs)"
  define E where "E = concat (map write_entry (zip kvs ?ls))"
  define V where "V = concat (map write_value (zip kvs ?ls))"
  define hk :: u32 where "hk = 20 + 16 * of_nat (length kvs)"
  define hv where "hv = align_val (hk + of_nat K) 4"
  define pad where "pad = replicate (unat (hv - (hk + of_nat K))) (0 :: u8)"
  define data where "data = write_sfo kvs"
  have K: "K \<le> 128 * length kvs" unfolding K_def by (rule key_bytes_bound[OF wf])
  have lE: "length E = 16 * length kvs" unfolding E_def by (rule length_entries)
  have lV: "length V \<le> 3072 * length kvs" unfolding V_def by (rule length_values[OF wf])
  have un: "unat (of_nat (length kvs) :: u32) = length kvs" using n by (intro unat_of_nat_small) simp
  have "unat (16 * of_nat (length kvs) :: u32) = 16 * length kvs" using n un by (subst unat_times_small) simp_all
  then have uhk: "unat hk = 20 + 16 * length kvs" unfolding hk_def using n by (subst unat_plus_small) simp_all
  have uK: "unat (of_nat K :: u32) = K" using K n by (intro unat_of_nat_small) simp
  have uhkK: "unat (hk + of_nat K) = 20 + 16 * length kvs + K"
    using uhk uK K n by (subst unat_plus_small) simp_all
  have "unat hv = (unat (hk + of_nat K) + 2 ^ 2 - 1) div 2 ^ 2 * 2 ^ 2"
    unfolding hv_def by (rule align_val_pow) (use uhkK K n in simp_all)
  then have uhv: "20 + 16 * length kvs + K \<le> unat hv" "unat hv < 20 + 16 * length kvs + K + 4"
    using round_up_bounds[of 4 "unat (hk + of_nat K)"] uhkK by simp_all
  have upad: "length pad = unat hv - (20 + 16 * length kvs + K)"
    unfolding pad_def using uhv(1) uhkK by (simp add: unat_minus_small word_le_nat_alt)
  have data: "data = wr_le32 0x46535000 @ wr_le32 0x101 @ wr_le32 hk @ wr_le32 hv @ wr_le32 (of_nat (length kvs))
      @ E @ key_bytes kvs @ pad @ V"
    using layout_keyoff[of kvs 0 0] unfolding data_def write_sfo_def Let_def
    by (simp add: E_def V_def K_def hk_def hv_def pad_def case_prod_beta)
  have len: "length data = 20 + 16 * length kvs + K + length pad + length V" unfolding data using lE by (simp add: K_def)
  have small: "length data < 2 ^ 32" using len K lV upad uhv n by simp
  have d20: "drop 20 data = E @ key_bytes kvs @ pad @ V" unfolding data by simp
  have dk: "drop (unat hk + unat (0 :: u32)) data = key_bytes kvs @ (pad @ V)"
    using drop_shift[OF d20] lE uhk by (simp add: add.commute)
  have dv: "drop (unat hv + unat (0 :: u32)) data = V @ []"
  proof -
    have "drop (unat hk + K) data = pad @ V" using drop_shift[OF dk] by (simp add: K_def)
    from drop_shift[OF this] show ?thesis using upad uhv uhk by simp
  qed
  have hdr: "rd_le32 data = 0x46535000" "rd_le32 (drop 4 data) = 0x101" "rd_le32 (drop 8 data) = hk"
    "rd_le32 (drop 12 data) = hv" "rd_le32 (drop 16 data) = of_nat (length kvs)"
    unfolding data by simp_all
  have sums: "unat (0 :: u32) + sum_list (map (\<lambda>kv. length (kv_key kv) + 1) kvs) \<le> 2 ^ 16"
    using K n length_key_bytes[of kvs] by (simp add: K_def)
  have "parse_entries data hk hv (length kvs) 0 20 = Inr (map placed (zip kvs ?ls))"
    by (rule parse_entries_placed[OF wf small sums _ d20[unfolded E_def] dk dv[unfolded V_def]]) (use n in simp)
  moreover have "\<not> length data < 20" using len by simp
  ultimately show ?thesis using hdr un n unfolding data_def[symmetric] parse_sfo_def Let_def by (simp add: read_bytes_in rd_take drop_take)
qed

end
