(* ===== verification/Sfo_Xml.thy ===== *)
theory Sfo_Xml
  imports Sfo
begin

text \<open>
  \<open>tools/sfo-pkg/sfo.c\<close>, the XML format: the printer of \<open>convert_to_xml\<close>, the hand-written scanner
  \<open>parse_xml\<close>, and \<open>convert_from_xml\<close> as the composition of the scanner with the binary writer.  A pointer into
  the text is the rest of the text from there on.  Memory exhaustion in \<open>malloc\<close> is not modelled.
\<close>

section \<open>C library functions\<close>

definition isspace :: "u8 \<Rightarrow> bool" where
  "isspace c \<longleftrightarrow> c = 0x20 \<or> 0x09 \<le> c \<and> c \<le> 0x0d"

definition isdigit :: "u8 \<Rightarrow> bool" where
  "isdigit c \<longleftrightarrow> 0x30 \<le> c \<and> c \<le> 0x39"

fun strchr :: "u8 list \<Rightarrow> u8 \<Rightarrow> u8 list option" where
  "strchr [] c = None"
| "strchr (x # xs) c = (if x = c then Some (x # xs) else strchr xs c)"

fun strstr :: "u8 list \<Rightarrow> u8 list \<Rightarrow> u8 list option" where
  "strstr [] pat = (if pat = [] then Some [] else None)"
| "strstr (x # xs) pat = (if take (length pat) (x # xs) = pat then Some (x # xs) else strstr xs pat)"

text \<open>\<open>strtoul(s, NULL, 10)\<close> on a 64-bit \<open>unsigned long\<close>, cut to 32 bits by the cast.\<close>

definition strtoul10 :: "u8 list \<Rightarrow> u32" where
  "strtoul10 s =
     (let s = dropWhile isspace s;
          neg = (s \<noteq> [] \<and> hd s = 0x2d);
          s = (if s \<noteq> [] \<and> (hd s = 0x2d \<or> hd s = 0x2b) then tl s else s);
          v = foldl (\<lambda>n d. n * 10 + unat (d - 0x30)) 0 (takeWhile isdigit s)
      in if v \<ge> 2 ^ 64 then of_nat (2 ^ 64 - 1) else if neg then of_nat ((2 ^ 64 - v) mod 2 ^ 64) else of_nat v)"

section \<open>Printing\<close>

definition xml_value :: "sfo_kv \<Rightarrow> u8 list" where
  "xml_value kv =
     (if kv_type kv = SFO_STRING
      then [0x09] @ ascii ''<value name='' @ [0x22] @ kv_key kv @ [0x22] @ ascii '' type='' @ [0x22] @ ascii ''string'' @ [0x22]
        @ ascii ''>'' @ kv_str kv @ ascii ''</value>'' @ [0x0a]
      else if kv_type kv = SFO_INT
      then [0x09] @ ascii ''<value name='' @ [0x22] @ kv_key kv @ [0x22] @ ascii '' type='' @ [0x22] @ ascii ''integer'' @ [0x22]
        @ ascii ''>'' @ decimal (unat (kv_int kv)) @ ascii ''</value>'' @ [0x0a]
      else [])"

definition convert_to_xml :: "sfo_kv list \<Rightarrow> u8 list" where
  "convert_to_xml kvs =
     ascii ''<?xml version='' @ [0x22] @ ascii ''1.0'' @ [0x22] @ ascii '' ?>'' @ [0x0a] @ ascii ''<sfo>'' @ [0x0a]
     @ concat (map xml_value kvs) @ ascii ''</sfo>'' @ [0x0a]"

section \<open>Scanning\<close>

definition skip_ws :: "u8 list \<Rightarrow> u8 list" where
  "skip_ws p = dropWhile isspace p"

definition strip_ws :: "u8 list \<Rightarrow> u8 list" where
  "strip_ws s = dropWhile isspace (rev (dropWhile isspace (rev s)))"

text \<open>The bytes between two pointers into the same text, the second the later.\<close>

definition upto :: "u8 list \<Rightarrow> u8 list \<Rightarrow> u8 list" where
  "upto p q = take (length p - length q) p"

lemma strchr_length: "strchr xs c = Some ys \<Longrightarrow> length ys \<le> length xs \<and> ys \<noteq> []"
  by (induction xs) (auto split: if_splits)

lemma strstr_length: "strstr xs pat = Some ys \<Longrightarrow> length ys \<le> length xs \<and> length pat \<le> length ys"
  by (induction xs) (auto split: if_splits simp: min_def dest: arg_cong[where f = length])

text \<open>
  The result is the value copied into the caller's buffer, nothing for a missing attribute.  A match of
  length zero is only possible for an empty attribute name, which the code never passes.
\<close>

function extract_attr :: "u8 list \<Rightarrow> u8 list \<Rightarrow> nat \<Rightarrow> u8 list option" where
  "extract_attr src attrname bufsize =
     (case strstr src attrname of
        None \<Rightarrow> None
      | Some p \<Rightarrow>
          if p = [] then None
          else let q = skip_ws (drop (length attrname) p)
               in if q = [] \<or> hd q \<noteq> 0x3d then extract_attr (tl p) attrname bufsize
                  else let q = skip_ws (tl q)
                       in if q = [] \<or> hd q \<noteq> 0x22 \<and> hd q \<noteq> 0x27 then extract_attr (tl p) attrname bufsize
                          else case strchr (tl q) (hd q) of
                                 None \<Rightarrow> None
                               | Some e \<Rightarrow> Some (take (bufsize - 1) (upto (tl q) e)))"
  by pat_completeness auto
termination
proof (relation "measure (\<lambda>(src, a, b). length src)")
qed (auto dest!: strstr_length simp: Suc_le_eq dest: order_less_le_trans[OF diff_less, rotated 2])

declare extract_attr.simps [simp del]

definition xml_pair :: "u8 list option \<Rightarrow> u8 list option \<Rightarrow> u8 list \<Rightarrow> u8 list \<Rightarrow> u8 list \<Rightarrow> sfo_kv" where
  "xml_pair forcetitle forceappid name type_s content =
     (let content =
            (if forcetitle \<noteq> None \<and> name = ascii ''TITLE'' then the forcetitle
             else if forceappid \<noteq> None \<and> name = ascii ''TITLE_ID'' then the forceappid
             else content);
          kv = \<lparr>kv_key = take (KV_MAX_KEY - 1) name, kv_type = SFO_STRING, kv_int = 0, kv_str = [], kv_key_off = 0,
                kv_unk1 = 0, kv_value_len = 0, kv_padded_len = 0, kv_value_off = 0\<rparr>
      in if type_s = ascii ''integer'' then kv\<lparr>kv_type := SFO_INT, kv_int := strtoul10 content\<rparr>
         else kv\<lparr>kv_str := take (KV_MAX_STR - 1) content\<rparr>)"

function parse_xml_from :: "u8 list option \<Rightarrow> u8 list option \<Rightarrow> nat \<Rightarrow> u8 list \<Rightarrow> sfo_kv list" where
  "parse_xml_from forcetitle forceappid count p =
     (if p = [] \<or> count \<ge> KV_MAX_PAIRS then []
      else case strstr p (ascii ''<value'') of
        None \<Rightarrow> []
      | Some tag \<Rightarrow>
          if length tag \<le> 6 \<or> tag ! 6 \<notin> {0x20, 0x09, 0x0a, 0x0d, 0x3e}
          then parse_xml_from forcetitle forceappid count (tl tag)
          else case strchr tag 0x3e of
            None \<Rightarrow> []
          | Some tag_end \<Rightarrow>
              (case (extract_attr (upto tag tag_end) (ascii ''name'') KV_MAX_KEY,
                     extract_attr (upto tag tag_end) (ascii ''type'') 32) of
                 (Some name, Some type_s) \<Rightarrow>
                   (case strstr (tl tag_end) (ascii ''</value>'') of
                      None \<Rightarrow> []
                    | Some close_tag \<Rightarrow>
                        xml_pair forcetitle forceappid name type_s (strip_ws (upto (tl tag_end) close_tag))
                        # parse_xml_from forcetitle forceappid (count + 1) (drop 8 close_tag))
               | _ \<Rightarrow> parse_xml_from forcetitle forceappid count (tl tag_end)))"
  by pat_completeness auto
termination
  by (relation "measure (\<lambda>(ft, fa, count, p). length p)")
    (auto simp: ascii_def neq_Nil_conv dest!: strstr_length strchr_length)

declare parse_xml_from.simps [simp del]

definition parse_xml :: "u8 list \<Rightarrow> u8 list option \<Rightarrow> u8 list option \<Rightarrow> sfo_kv list" where
  "parse_xml xml forcetitle forceappid =
     parse_xml_from (map_option cstring forcetitle) (map_option cstring forceappid) 0 (cstring xml)"

text \<open>The file \<open>convert_from_xml\<close> writes.\<close>

definition convert_from_xml :: "u8 list \<Rightarrow> u8 list option \<Rightarrow> u8 list option \<Rightarrow> u8 list" where
  "convert_from_xml xml forcetitle forceappid = write_sfo (parse_xml xml forcetitle forceappid)"


section \<open>What the scanner yields\<close>

lemma strchr_suffix: "strchr xs c = Some ys \<Longrightarrow> \<exists>u. xs = u @ ys \<and> c \<notin> set u \<and> ys \<noteq> [] \<and> hd ys = c"
proof (induction xs)
  case (Cons x xs)
  then show ?case by (auto split: if_splits intro: exI[of _ "[]"] exI[of _ "x # _"])
qed simp

lemma strstr_suffix: "strstr xs pat = Some ys \<Longrightarrow> \<exists>u. xs = u @ ys"
proof (induction xs)
  case (Cons x xs)
  then show ?case by (auto split: if_splits intro: exI[of _ "[]"] exI[of _ "x # _"])
qed (simp split: if_splits)

lemma set_strchr: "strchr xs c = Some ys \<Longrightarrow> set ys \<subseteq> set xs"
  using strchr_suffix by fastforce

lemma set_strstr: "strstr xs pat = Some ys \<Longrightarrow> set ys \<subseteq> set xs"
  using strstr_suffix by fastforce

lemma set_upto: "set (upto p q) \<subseteq> set p"
  unfolding upto_def by (rule set_take_subset)

lemma set_strip_ws: "set (strip_ws s) \<subseteq> set s"
  unfolding strip_ws_def by (metis (no_types, opaque_lifting) dual_order.trans set_dropWhileD set_rev subsetI)

lemma set_skip_ws: "set (skip_ws s) \<subseteq> set s"
  unfolding skip_ws_def using set_dropWhileD by fast

lemma set_tl: "set (tl xs) \<subseteq> set xs"
  by (cases xs) auto

lemma extract_attr_fits:
  "0 < bufsize \<Longrightarrow> extract_attr src attrname bufsize = Some v \<Longrightarrow> set v \<subseteq> set src \<and> length v < bufsize"
proof (induction src attrname bufsize rule: extract_attr.induct)
  case (1 src attrname bufsize)
  obtain p where p: "strstr src attrname = Some p" "p \<noteq> []"
    using 1(4) by (subst (asm) extract_attr.simps) (auto split: option.splits if_splits)
  have sp: "set p \<subseteq> set src" using set_strstr[OF p(1)] .
  let ?q = "skip_ws (drop (length attrname) p)"
  let ?r = "skip_ws (tl ?q)"
  have sr: "set (tl ?r) \<subseteq> set src"
    by (rule subset_trans[OF set_tl subset_trans[OF set_skip_ws subset_trans[OF set_tl subset_trans[OF set_skip_ws
          subset_trans[OF set_drop_subset sp]]]]])
  have tp: "set (tl p) \<subseteq> set src" using subset_trans[OF set_tl sp] .
  show ?case
  proof (cases "?q = [] \<or> hd ?q \<noteq> 0x3d")
    case True
    then have "extract_attr (tl p) attrname bufsize = Some v"
      using 1(4) p by (subst (asm) extract_attr.simps) (simp add: Let_def)
    then show ?thesis using 1(1)[OF p refl True 1(3)] tp by blast
  next
    case f1: False
    show ?thesis
    proof (cases "?r = [] \<or> hd ?r \<noteq> 0x22 \<and> hd ?r \<noteq> 0x27")
      case True
      then have "extract_attr (tl p) attrname bufsize = Some v"
        using 1(4) p f1 by (subst (asm) extract_attr.simps) (simp add: Let_def)
      then show ?thesis using 1(2)[OF p refl f1 refl True 1(3)] tp by blast
    next
      case False
      then obtain e where "strchr (tl ?r) (hd ?r) = Some e" "v = take (bufsize - 1) (upto (tl ?r) e)"
        using 1(4) p f1 by (subst (asm) extract_attr.simps) (auto simp: Let_def split: option.splits)
      then show ?thesis using sr set_upto[of "tl ?r" e] 1(3) set_take_subset[of "bufsize - 1" "upto (tl ?r) e"] by auto
    qed
  qed
qed

lemma wf_xml_pair:
  assumes "length name < KV_MAX_KEY" "0 \<notin> set name" "0 \<notin> set content"
    "\<forall>s. ft = Some s \<longrightarrow> 0 \<notin> set s" "\<forall>s. fa = Some s \<longrightarrow> 0 \<notin> set s"
  shows "wf_kv (xml_pair ft fa name type_s content)"
  using assms by (auto simp: wf_kv_def xml_pair_def Let_def dest!: in_set_takeD)

lemma parse_xml_from_wf:
  assumes "\<forall>s. ft = Some s \<longrightarrow> 0 \<notin> set s" "\<forall>s. fa = Some s \<longrightarrow> 0 \<notin> set s" "0 \<notin> set p"
  shows "(\<forall>kv \<in> set (parse_xml_from ft fa count p). wf_kv kv) \<and> length (parse_xml_from ft fa count p) \<le> KV_MAX_PAIRS - count"
  using assms
proof (induction ft fa count p rule: parse_xml_from.induct)
  case (1 ft fa count p)
  show ?case
  proof (cases "p = [] \<or> count \<ge> KV_MAX_PAIRS")
    case True
    then show ?thesis by (subst (1 2) parse_xml_from.simps) simp
  next
    case live: False
    show ?thesis
    proof (cases "strstr p (ascii ''<value'')")
      case None
      then show ?thesis using live by (subst (1 2) parse_xml_from.simps) simp
    next
      case tag: (Some tag)
      have st: "0 \<notin> set tag" using set_strstr[OF tag] 1(7) by blast
      show ?thesis
      proof (cases "length tag \<le> 6 \<or> tag ! 6 \<notin> {0x20, 0x09, 0x0a, 0x0d, 0x3e}")
        case True
        have "0 \<notin> set (tl tag)" using st set_tl[of tag] by blast
        moreover have "parse_xml_from ft fa count p = parse_xml_from ft fa count (tl tag)"
          by (subst parse_xml_from.simps, simp only: tag live True if_False if_True option.case)
        ultimately show ?thesis using 1(1)[OF live tag True 1(5,6)] by simp
      next
        case name_ends: False
        show ?thesis
        proof (cases "strchr tag 0x3e")
          case None
          then show ?thesis using live tag name_ends by (subst (1 2) parse_xml_from.simps) simp
        next
          case te: (Some tag_end)
          have ste: "0 \<notin> set (tl tag_end)" using set_strchr[OF te] st set_tl[of tag_end] by blast
          let ?n = "extract_attr (upto tag tag_end) (ascii ''name'') KV_MAX_KEY"
          let ?t = "extract_attr (upto tag tag_end) (ascii ''type'') 32"
          show ?thesis
          proof (cases "?n = None \<or> ?t = None")
            case True
            then have "parse_xml_from ft fa count p = parse_xml_from ft fa count (tl tag_end)"
              using live tag name_ends te by (subst parse_xml_from.simps) (auto split: option.splits)
            moreover have "(\<forall>kv \<in> set (parse_xml_from ft fa count (tl tag_end)). wf_kv kv)
                \<and> length (parse_xml_from ft fa count (tl tag_end)) \<le> KV_MAX_PAIRS - count"
            proof (cases ?n)
              case None
              show ?thesis by (rule 1(2)[OF live tag name_ends te refl None 1(5,6) ste])
            next
              case (Some name)
              with True have no_type: "?t = None" by simp
              show ?thesis by (rule 1(3)[OF live tag name_ends te refl Some no_type 1(5,6) ste])
            qed
            ultimately show ?thesis by simp
          next
            case False
            then obtain name type_s where nt: "?n = Some name" "?t = Some type_s" by (cases ?n; cases ?t) auto
            show ?thesis
            proof (cases "strstr (tl tag_end) (ascii ''</value>'')")
              case None
              then show ?thesis using live tag name_ends te nt by (subst (1 2) parse_xml_from.simps) simp
            next
              case ct: (Some close_tag)
              have n: "set name \<subseteq> set tag" "length name < KV_MAX_KEY"
                using extract_attr_fits[OF _ nt(1)] set_upto[of tag tag_end] by auto
              have c: "0 \<notin> set (strip_ws (upto (tl tag_end) close_tag))"
                using ste set_strip_ws[of "upto (tl tag_end) close_tag"] set_upto[of "tl tag_end" close_tag] by blast
              have sc: "0 \<notin> set (drop 8 close_tag)"
                using set_strstr[OF ct] ste set_drop_subset[of 8 close_tag] by blast
              have eq: "parse_xml_from ft fa count p =
                  xml_pair ft fa name type_s (strip_ws (upto (tl tag_end) close_tag)) # parse_xml_from ft fa (count + 1) (drop 8 close_tag)"
                using live tag name_ends te nt ct by (subst parse_xml_from.simps) simp
              have w: "wf_kv (xml_pair ft fa name type_s (strip_ws (upto (tl tag_end) close_tag)))"
                by (rule wf_xml_pair) (use n st c 1(5,6) in auto)
              show ?thesis
                using 1(4)[OF live tag name_ends te refl nt ct 1(5,6) sc] w live by (simp add: eq) linarith
            qed
          qed
        qed
      qed
    qed
  qed
qed

lemma cstring_no_terminator: "0 \<notin> set (cstring s)"
  unfolding cstring_def by (auto dest: set_takeWhileD)

lemma parse_xml_wf:
  "(\<forall>kv \<in> set (parse_xml xml ft fa). wf_kv kv) \<and> length (parse_xml xml ft fa) \<le> KV_MAX_PAIRS"
  unfolding parse_xml_def
  by (rule conjI[OF parse_xml_from_wf[THEN conjunct1] order_trans[OF parse_xml_from_wf[THEN conjunct2]]])
    (auto simp: cstring_no_terminator)


section \<open>Scanning what was printed\<close>

lemma strchr_skip: "c \<notin> set u \<Longrightarrow> strchr (u @ v) c = strchr v c"
  by (induction u) auto

lemma strstr_skip: "pat \<noteq> [] \<Longrightarrow> hd pat \<notin> set u \<Longrightarrow> strstr (u @ v) pat = strstr v pat"
proof (induction u)
  case (Cons x u)
  then have "take (length pat) (x # u @ v) \<noteq> pat" by (cases pat) auto
  then show ?case using Cons by simp
qed simp

lemma strstr_here: "strstr (pat @ v) pat = Some (pat @ v)"
proof (cases "pat @ v")
  case (Cons x xs)
  have "take (length pat) (x # xs) = pat" unfolding Cons[symmetric] by simp
  then show ?thesis using Cons by simp
qed simp

lemma upto_append: "upto (u @ v) v = u"
  by (simp add: upto_def)

lemma take_before_stop:
  "c \<notin> set pat \<Longrightarrow> take (length pat) (u @ c # v) = pat \<Longrightarrow> \<exists>w. u = pat @ w"
proof -
  assume c: "c \<notin> set pat" and t: "take (length pat) (u @ c # v) = pat"
  have "length pat \<le> length u"
  proof (rule ccontr)
    assume "\<not> length pat \<le> length u"
    then obtain m where "length pat - length u = Suc m" by (metis diff_is_0_eq not0_implies_Suc)
    then have "c \<in> set (take (length pat) (u @ c # v))" by simp
    then show False unfolding t using c by blast
  qed
  then show ?thesis using t by (metis append_take_drop_id take_append take_all_iff diff_is_0_eq' take_0 append_Nil2)
qed

lemma strstr_before_stop:
  assumes "c \<notin> set pat"
  shows "strstr (u @ c # v) pat = strstr v pat \<and> pat \<noteq> [] \<or> pat = [] \<or> (\<exists>u1 w. u = u1 @ pat @ w \<and> strstr (u @ c # v) pat = Some (pat @ w @ c # v))"
proof (induction u)
  case Nil
  have "pat \<noteq> [] \<Longrightarrow> take (length pat) (c # v) \<noteq> pat" using assms by (cases pat) auto
  then show ?case by auto
next
  case (Cons x u)
  show ?case
  proof (cases "take (length pat) ((x # u) @ c # v) = pat")
    case True
    from take_before_stop[OF assms this] obtain w where "x # u = pat @ w" by blast
    then have "strstr ((x # u) @ c # v) pat = Some (pat @ w @ c # v) \<and> x # u = [] @ pat @ w"
      using strstr_here[of pat "w @ c # v"] by simp
    then show ?thesis by blast
  next
    case False
    then have "strstr ((x # u) @ c # v) pat = strstr (u @ c # v) pat" by simp
    then show ?thesis using Cons by (metis append_Cons)
  qed
qed

lemma skip_ws_no: "x \<notin> set u \<Longrightarrow> \<not> isspace c \<Longrightarrow> c \<noteq> x \<Longrightarrow> skip_ws (u @ c # v) \<noteq> [] \<and> hd (skip_ws (u @ c # v)) \<noteq> x"
  unfolding skip_ws_def by (induction u) auto

lemma extract_attr_skip:
  assumes "c \<notin> set attrname" "attrname \<noteq> []" "\<not> isspace c" "c \<noteq> 0x3d"
  shows "0x3d \<notin> set u \<Longrightarrow> extract_attr (u @ c # v) attrname n = extract_attr v attrname n"
proof (induction "length u" arbitrary: u rule: less_induct)
  case less
  consider "strstr (u @ c # v) attrname = strstr v attrname"
    | u1 w where "u = u1 @ attrname @ w" "strstr (u @ c # v) attrname = Some (attrname @ w @ c # v)"
    using strstr_before_stop[OF assms(1), of u v] assms(2) by blast
  then show ?case
  proof cases
    case 1
    then show ?thesis by (subst (1 2) extract_attr.simps) simp
  next
    case 2
    have "skip_ws (w @ c # v) \<noteq> [] \<and> hd (skip_ws (w @ c # v)) \<noteq> 0x3d"
      by (rule skip_ws_no) (use 2(1) less(2) assms in auto)
    then have "extract_attr (u @ c # v) attrname n = extract_attr (tl attrname @ w @ c # v) attrname n"
      using 2 assms(2) by (subst extract_attr.simps) (simp add: Let_def)
    also have "\<dots> = extract_attr v attrname n"
      using less(1)[of "tl attrname @ w"] 2(1) less(2) assms(2) by (cases attrname) auto
    finally show ?thesis .
  qed
qed


lemma xml_words:
  "ascii ''<value'' = [0x3c, 0x76, 0x61, 0x6c, 0x75, 0x65]"
  "ascii ''</value>'' = [0x3c, 0x2f, 0x76, 0x61, 0x6c, 0x75, 0x65, 0x3e]"
  "ascii ''<value name='' = [0x3c, 0x76, 0x61, 0x6c, 0x75, 0x65, 0x20, 0x6e, 0x61, 0x6d, 0x65, 0x3d]"
  "ascii ''name'' = [0x6e, 0x61, 0x6d, 0x65]"
  "ascii ''type'' = [0x74, 0x79, 0x70, 0x65]"
  "ascii '' type='' = [0x20, 0x74, 0x79, 0x70, 0x65, 0x3d]"
  "ascii ''string'' = [0x73, 0x74, 0x72, 0x69, 0x6e, 0x67]"
  "ascii ''integer'' = [0x69, 0x6e, 0x74, 0x65, 0x67, 0x65, 0x72]"
  "ascii ''>'' = [0x3e]"
  "ascii ''</sfo>'' = [0x3c, 0x2f, 0x73, 0x66, 0x6f, 0x3e]"
  "ascii ''<sfo>'' = [0x3c, 0x73, 0x66, 0x6f, 0x3e]"
  "ascii ''<?xml version='' = [0x3c, 0x3f, 0x78, 0x6d, 0x6c, 0x20, 0x76, 0x65, 0x72, 0x73, 0x69, 0x6f, 0x6e, 0x3d]"
  "ascii ''1.0'' = [0x31, 0x2e, 0x30]"
  "ascii '' ?>'' = [0x20, 0x3f, 0x3e]"
  by (simp_all add: ascii_def)

text \<open>The tag of a printed pair, without its closing bracket.\<close>

definition xml_tag :: "u8 list \<Rightarrow> u8 list \<Rightarrow> u8 list" where
  "xml_tag key ty = ascii ''<value name='' @ [0x22] @ key @ [0x22] @ ascii '' type='' @ [0x22] @ ty @ [0x22]"

lemma extract_attr_name:
  assumes "0x22 \<notin> set key" "length key < n"
  shows "extract_attr (xml_tag key ty) (ascii ''name'') n = Some key"
proof -
  have "strstr (xml_tag key ty) (ascii ''name'') = Some (ascii ''name='' @ [0x22] @ key @ [0x22] @ ascii '' type='' @ [0x22] @ ty @ [0x22])"
    by (simp add: xml_tag_def xml_words ascii_def)
  moreover have "strchr (key @ 0x22 # r) 0x22 = Some (0x22 # r)" for r
    using assms(1) by (simp add: strchr_skip)
  ultimately show ?thesis using assms(2)
    by (subst extract_attr.simps) (simp add: Let_def skip_ws_def isspace_def ascii_def upto_append)
qed

lemma extract_attr_type:
  assumes "0x3d \<notin> set key" "0x22 \<notin> set ty" "length ty < n"
  shows "extract_attr (xml_tag key ty) (ascii ''type'') n = Some ty"
proof -
  let ?r = "ascii '' type='' @ [0x22] @ ty @ [0x22]"
  have "strstr (xml_tag key ty) (ascii ''type'') = strstr (key @ 0x22 # ?r) (ascii ''type'')"
    using strstr_skip[of "ascii ''type''" "ascii ''<value name='' @ [0x22]" "key @ 0x22 # ?r"]
    by (simp add: xml_tag_def xml_words)
  then have "extract_attr (xml_tag key ty) (ascii ''type'') n = extract_attr (key @ 0x22 # ?r) (ascii ''type'') n"
    by (subst (1 2) extract_attr.simps) simp
  also have "\<dots> = extract_attr ?r (ascii ''type'') n"
    by (rule extract_attr_skip) (use assms(1) in \<open>simp_all add: xml_words isspace_def\<close>)
  also have "\<dots> = Some ty"
  proof -
    have "strstr ?r (ascii ''type'') = Some (ascii ''type='' @ [0x22] @ ty @ [0x22])" by (simp add: xml_words ascii_def)
    moreover have "strchr (ty @ 0x22 # q) 0x22 = Some (0x22 # q)" for q using assms(2) by (simp add: strchr_skip)
    ultimately show ?thesis using assms(3)
      by (subst extract_attr.simps) (simp add: Let_def skip_ws_def isspace_def ascii_def upto_append)
  qed
  finally show ?thesis .
qed

text \<open>Text that the format can carry, nothing being escaped on the way.\<close>

definition xml_safe :: "sfo_kv \<Rightarrow> bool" where
  "xml_safe kv \<longleftrightarrow> wf_kv kv \<and> set (kv_key kv) \<inter> {0x22, 0x3d, 0x3e} = {} \<and> 0x3c \<notin> set (kv_str kv) \<and> strip_ws (kv_str kv) = kv_str kv"

lemma parse_printed_value:
  assumes k: "length key < KV_MAX_KEY" "set key \<inter> {0x22, 0x3d, 0x3e} = {}" and ty: "set ty \<inter> {0x22, 0x3e} = {}" "length ty < 32"
    and v: "0x3c \<notin> set val" "strip_ws val = val" and c: "count < KV_MAX_PAIRS"
  shows "parse_xml_from ft fa count (0x0a # 0x09 # xml_tag key ty @ ascii ''>'' @ val @ ascii ''</value>'' @ rest)
    = xml_pair ft fa key ty val # parse_xml_from ft fa (count + 1) rest"
proof -
  let ?tail = "val @ ascii ''</value>'' @ rest"
  let ?t = "xml_tag key ty @ 0x3e # ?tail"
  have s: "strstr (0x0a # 0x09 # xml_tag key ty @ ascii ''>'' @ ?tail) (ascii ''<value'') = Some ?t"
    by (simp add: xml_tag_def xml_words)
  have l: "\<not> (length ?t \<le> 6 \<or> ?t ! 6 \<notin> {0x20, 0x09, 0x0a, 0x0d, 0x3e})" by (simp add: xml_tag_def xml_words)
  have "0x3e \<notin> set (xml_tag key ty)" using k(2) ty(1) by (auto simp: xml_tag_def xml_words)
  then have e: "strchr ?t 0x3e = Some (0x3e # ?tail)" by (simp add: strchr_skip)
  have "strstr ?tail (ascii ''</value>'') = strstr (ascii ''</value>'' @ rest) (ascii ''</value>'')"
    by (rule strstr_skip) (use v(1) in \<open>simp_all add: xml_words\<close>)
  then have ct: "strstr ?tail (ascii ''</value>'') = Some (ascii ''</value>'' @ rest)" by (simp only: strstr_here)
  have n: "extract_attr (xml_tag key ty) (ascii ''name'') KV_MAX_KEY = Some key" by (rule extract_attr_name) (use k in auto)
  have y: "extract_attr (xml_tag key ty) (ascii ''type'') 32 = Some ty" by (rule extract_attr_type) (use k ty in auto)
  have d: "drop 8 (ascii ''</value>'' @ rest) = rest" by (simp add: xml_words)
  show ?thesis
    by (subst parse_xml_from.simps, simp only: s option.case l if_False e upto_append n y list.sel ct prod.case d v(2)) (use c in simp)
qed


section \<open>Decimal numbers\<close>

lemma unat_digit: "d < 10 \<Longrightarrow> unat (of_nat d :: u8) = d"
  by (simp add: unat_of_nat_small)

lemma isdigit_digit: "d < 10 \<Longrightarrow> isdigit (0x30 + of_nat d)"
proof -
  assume "d < 10"
  then have "d \<in> set [0..<10]" by simp
  then show ?thesis unfolding isdigit_def by (simp add: upt_rec) (elim disjE; simp)
qed

lemma decimal_digits: "decimal n \<noteq> [] \<and> (\<forall>c \<in> set (decimal n). isdigit c)"
proof (induction n rule: decimal.induct)
  case (1 n)
  then show ?case by (subst (1 2) decimal.simps) (auto simp: isdigit_digit)
qed

lemma decimal_value: "foldl (\<lambda>n d. n * 10 + unat (d - 0x30 :: u8)) 0 (decimal n) = n"
proof (induction n rule: decimal.induct)
  case (1 n)
  then show ?case by (subst decimal.simps) (auto simp: unat_digit)
qed

lemma isdigit_plain: "isdigit c \<Longrightarrow> \<not> isspace c \<and> c \<noteq> 0x2d \<and> c \<noteq> 0x2b \<and> c \<noteq> 0x3c \<and> c \<noteq> 0"
  unfolding isdigit_def isspace_def word_le_nat_alt by (auto simp: word_le_nat_alt)

lemma dropWhile_not: "xs \<noteq> [] \<Longrightarrow> \<not> P (hd xs) \<Longrightarrow> dropWhile P xs = xs"
  by (cases xs) auto

lemma strip_ws_solid: "\<forall>c \<in> set s. \<not> isspace c \<Longrightarrow> strip_ws s = s"
  unfolding strip_ws_def by (cases "s = []") (auto simp: dropWhile_not last_in_set hd_rev)

lemma strtoul10_decimal: "n < 2 ^ 32 \<Longrightarrow> strtoul10 (decimal n) = of_nat n"
proof -
  assume n: "n < 2 ^ 32"
  have d: "decimal n \<noteq> []" "\<forall>c \<in> set (decimal n). isdigit c" using decimal_digits by blast+
  then have h: "isdigit (hd (decimal n))" by simp
  have w: "dropWhile isspace (decimal n) = decimal n" using dropWhile_not d(1) isdigit_plain[OF h] by blast
  have t: "takeWhile isdigit (decimal n) = decimal n" using d(2) by simp
  show ?thesis using isdigit_plain[OF h] n unfolding strtoul10_def Let_def w by (simp add: t decimal_value)
qed

section \<open>Through the XML and back\<close>

text \<open>A pair without the bookkeeping of the binary file it came from.\<close>

definition plain_kv :: "sfo_kv \<Rightarrow> sfo_kv" where
  "plain_kv kv = kv\<lparr>kv_key_off := 0, kv_unk1 := 0, kv_value_len := 0, kv_padded_len := 0, kv_value_off := 0\<rparr>"

lemma xml_value_tag:
  assumes "kv_type kv = SFO_STRING \<or> kv_type kv = SFO_INT"
  shows "xml_value kv = 0x09 # xml_tag (kv_key kv) (if kv_type kv = SFO_STRING then ascii ''string'' else ascii ''integer'')
    @ ascii ''>'' @ (if kv_type kv = SFO_STRING then kv_str kv else decimal (unat (kv_int kv))) @ ascii ''</value>'' @ [0x0a]"
  using assms by (auto simp: xml_value_def xml_tag_def)

lemma parse_printed_pair:
  assumes safe: "xml_safe kv" and c: "count < KV_MAX_PAIRS"
  shows "parse_xml_from None None count (0x0a # xml_value kv @ rest)
    = plain_kv kv # parse_xml_from None None (count + 1) (0x0a # rest)"
proof -
  have wf: "wf_kv kv" and k: "length (kv_key kv) < KV_MAX_KEY" "set (kv_key kv) \<inter> {0x22, 0x3d, 0x3e} = {}"
    using safe by (auto simp: xml_safe_def wf_kv_def)
  show ?thesis
  proof (cases "kv_type kv = SFO_STRING")
    case True
    have "parse_xml_from None None count (0x0a # 0x09 # xml_tag (kv_key kv) (ascii ''string'') @ ascii ''>'' @ kv_str kv
        @ ascii ''</value>'' @ (0x0a # rest))
      = xml_pair None None (kv_key kv) (ascii ''string'') (kv_str kv) # parse_xml_from None None (count + 1) (0x0a # rest)"
      by (rule parse_printed_value) (use k safe c in \<open>auto simp: xml_safe_def xml_words\<close>)
    moreover have "xml_pair None None (kv_key kv) (ascii ''string'') (kv_str kv) = plain_kv kv"
      using True wf by (simp add: xml_pair_def plain_kv_def wf_kv_def xml_words)
    ultimately show ?thesis using True by (simp add: xml_value_tag)
  next
    case False
    then have int: "kv_type kv = SFO_INT" "kv_str kv = []" using wf by (auto simp: wf_kv_def)
    let ?d = "decimal (unat (kv_int kv))"
    have d: "\<forall>c \<in> set ?d. \<not> isspace c \<and> c \<noteq> 0x3c" using decimal_digits isdigit_plain by blast
    have "parse_xml_from None None count (0x0a # 0x09 # xml_tag (kv_key kv) (ascii ''integer'') @ ascii ''>'' @ ?d
        @ ascii ''</value>'' @ (0x0a # rest))
      = xml_pair None None (kv_key kv) (ascii ''integer'') ?d # parse_xml_from None None (count + 1) (0x0a # rest)"
      by (rule parse_printed_value) (use k d c in \<open>auto simp: strip_ws_solid xml_words\<close>)
    moreover have "unat (kv_int kv) < 2 ^ 32" using unsigned_less[of "kv_int kv"] by simp
    then have "xml_pair None None (kv_key kv) (ascii ''integer'') ?d = plain_kv kv"
      using int wf by (simp add: xml_pair_def plain_kv_def wf_kv_def strtoul10_decimal)
    ultimately show ?thesis using int by (simp add: xml_value_tag)
  qed
qed

lemma parse_printed_pairs:
  "\<forall>kv \<in> set kvs. xml_safe kv \<Longrightarrow> count + length kvs \<le> KV_MAX_PAIRS \<Longrightarrow>
   parse_xml_from None None count (0x0a # concat (map xml_value kvs) @ ascii ''</sfo>'' @ [0x0a]) = map plain_kv kvs"
proof (induction kvs arbitrary: count)
  case Nil
  have "strstr (0x0a # ascii ''</sfo>'' @ [0x0a]) (ascii ''<value'') = None" by (simp add: xml_words)
  then show ?case by (subst parse_xml_from.simps) simp
next
  case (Cons kv kvs)
  then show ?case using parse_printed_pair[of kv count "concat (map xml_value kvs) @ ascii ''</sfo>'' @ [0x0a]"] by simp
qed

lemma strstr_xml_head:
  "strstr (ascii ''<?xml version='' @ [0x22] @ ascii ''1.0'' @ [0x22] @ ascii '' ?>'' @ [0x0a] @ ascii ''<sfo>'' @ 0x0a # r) (ascii ''<value'')
    = strstr (0x0a # r) (ascii ''<value'')"
  by (simp add: xml_words)

lemma no_terminator_printed: "\<forall>kv \<in> set kvs. xml_safe kv \<Longrightarrow> 0 \<notin> set (convert_to_xml kvs)"
proof -
  assume s: "\<forall>kv \<in> set kvs. xml_safe kv"
  have "0 \<notin> set (xml_value kv)" if kv: "kv \<in> set kvs" for kv
  proof -
    have w: "wf_kv kv" using s kv by (simp add: xml_safe_def)
    have d: "0 \<notin> set (decimal (unat (kv_int kv)))" using decimal_digits isdigit_plain by blast
    show ?thesis using w d by (auto simp: wf_kv_def xml_value_tag xml_tag_def xml_words)
  qed
  then show ?thesis by (auto simp: convert_to_xml_def xml_words)
qed

lemma cstring_id: "0 \<notin> set s \<Longrightarrow> cstring s = s"
  unfolding cstring_def by (rule takeWhile_eq_all_conv[THEN iffD2]) auto

lemma parse_xml_of_printed:
  assumes "\<forall>kv \<in> set kvs. xml_safe kv" "length kvs \<le> KV_MAX_PAIRS"
  shows "parse_xml (convert_to_xml kvs) None None = map plain_kv kvs"
proof -
  let ?r = "concat (map xml_value kvs) @ ascii ''</sfo>'' @ [0x0a]"
  have x: "convert_to_xml kvs = ascii ''<?xml version='' @ [0x22] @ ascii ''1.0'' @ [0x22] @ ascii '' ?>'' @ [0x0a] @ ascii ''<sfo>'' @ 0x0a # ?r"
    by (simp add: convert_to_xml_def)
  have "convert_to_xml kvs \<noteq> []" unfolding x by (simp add: xml_words)
  then have "parse_xml_from None None 0 (convert_to_xml kvs) = parse_xml_from None None 0 (0x0a # ?r)"
    unfolding x by (subst (1 2) parse_xml_from.simps) (simp only: strstr_xml_head, simp)
  then show ?thesis
    using parse_printed_pairs[OF assms(1), of 0] assms(2) by (simp add: parse_xml_def cstring_id no_terminator_printed[OF assms(1)])
qed

end
