(* ===== verification/Sfo_Props.thy ===== *)
theory Sfo_Props
  imports Sfo_Xml
begin

text \<open>
  Properties of \<open>tools/sfo-pkg/sfo.c\<close>: what the writer produces is what the reader lists, the XML form carries
  a file there and back, and the one read the bounds checks let escape the buffer.
\<close>

lemma length_parse_entries: "parse_entries data ko vo n i e = Inr kvs \<Longrightarrow> length kvs = n"
  by (induction data ko vo n i e arbitrary: kvs rule: parse_entries.induct) (auto split: sum.splits)

lemma length_parse_sfo: "parse_sfo data = Inr kvs \<Longrightarrow> length kvs \<le> KV_MAX_PAIRS"
  by (auto simp: parse_sfo_def Let_def split: if_splits sum.splits dest!: length_parse_entries)

lemma plain_placed: "plain_kv (placed (kv, l)) = plain_kv kv"
  by (cases l) (simp add: plain_kv_def placed_def)

lemma plain_idem: "plain_kv (plain_kv kv) = plain_kv kv"
  by (simp add: plain_kv_def)

lemma map_plain_placed: "length ls = length kvs \<Longrightarrow> map plain_kv (map placed (zip kvs ls)) = map plain_kv kvs"
proof (induction kvs arbitrary: ls)
  case (Cons kv kvs)
  then show ?case by (cases ls) (auto simp: plain_placed)
qed simp

lemma xml_safe_wf_plain: "xml_safe kv \<Longrightarrow> wf_kv (plain_kv kv)"
  by (simp add: xml_safe_def wf_kv_def plain_kv_def)

text \<open>C37: Whatever the XML text and the overrides of title and application identifier, the file that
\<open>convert_from_xml\<close> writes is accepted by \<open>parse_sfo\<close>, and lists exactly the pairs the scanner found in the text,
in order, each with the offsets and lengths the layout pass gave it.\<close>

theorem sfo_from_xml_lists_what_was_scanned:
  "parse_sfo (convert_from_xml xml forcetitle forceappid) =
     (let kvs = parse_xml xml forcetitle forceappid in Inr (map placed (zip kvs (fst (sfo_layout kvs 0 0)))))"
  unfolding convert_from_xml_def Let_def
  using parse_write_sfo[of "parse_xml xml forcetitle forceappid"] parse_xml_wf[of xml forcetitle forceappid] by blast

text \<open>A file whose keys and strings need no escaping survives the trip through XML: converting the pairs of
an accepted file to XML and that text back to a file gives a file that is accepted and lists the same keys,
types and values.\<close>

theorem sfo_xml_roundtrip:
  assumes "parse_sfo data = Inr kvs" "\<forall>kv \<in> set kvs. xml_safe kv"
  shows "\<exists>out. parse_sfo (convert_from_xml (convert_to_xml kvs) None None) = Inr out \<and> map plain_kv out = map plain_kv kvs"
proof -
  let ?ps = "map plain_kv kvs"
  have len: "length kvs \<le> KV_MAX_PAIRS" by (rule length_parse_sfo[OF assms(1)])
  have "parse_sfo (write_sfo ?ps) = Inr (map placed (zip ?ps (fst (sfo_layout ?ps 0 0))))"
    by (rule parse_write_sfo) (use assms(2) len xml_safe_wf_plain in auto)
  moreover have "map plain_kv (map placed (zip ?ps (fst (sfo_layout ?ps 0 0)))) = map plain_kv ?ps"
    by (rule map_plain_placed) (rule length_sfo_layout)
  moreover have "map plain_kv ?ps = ?ps" by (simp add: plain_idem)
  ultimately show ?thesis by (simp add: convert_from_xml_def parse_xml_of_printed[OF assms(2) len])
qed

definition sfo_demo :: "u8 list" where
  "sfo_demo = write_sfo [xml_pair None None (ascii ''A'') (ascii ''string'') (ascii ''x''),
     xml_pair None None (ascii ''B'') (ascii ''integer'') (ascii ''7'')]"

theorem sfo_xml_roundtrip_witness:
  "\<exists>kvs out. parse_sfo sfo_demo = Inr kvs \<and> length kvs = 2
     \<and> parse_sfo (convert_from_xml (convert_to_xml kvs) None None) = Inr out \<and> map plain_kv out = map plain_kv kvs"
proof -
  let ?kvs = "[xml_pair None None (ascii ''A'') (ascii ''string'') (ascii ''x''),
     xml_pair None None (ascii ''B'') (ascii ''integer'') (ascii ''7'')]"
  let ?out = "map placed (zip ?kvs (fst (sfo_layout ?kvs 0 0)))"
  have wf: "\<forall>kv \<in> set ?kvs. wf_kv kv" by (simp add: wf_kv_def xml_pair_def Let_def ascii_def)
  have p: "parse_sfo sfo_demo = Inr ?out" unfolding sfo_demo_def by (rule parse_write_sfo[OF wf]) simp
  have l: "length ?out = 2" by (simp add: length_sfo_layout del: sfo_layout.simps)
  have "\<forall>kv \<in> set ?out. xml_safe kv"
    by (simp add: Let_def value_lens_def placed_def xml_safe_def wf_kv_def xml_pair_def ascii_def strip_ws_def isspace_def)
  from sfo_xml_roundtrip[OF p this] p l show ?thesis by blast
qed

text \<open>An accepted header and one integer entry whose offsets add up to \<open>2 ^ 32\<close>.\<close>

definition sfo_wrapping :: "u8 list" where
  "sfo_wrapping = wr_le32 SFO_MAGIC @ wr_le32 0x101 @ wr_le32 36 @ wr_le32 0x80000000 @ wr_le32 1
     @ [0, 0, 4, SFO_INT] @ wr_le32 4 @ wr_le32 4 @ wr_le32 0x80000000 @ [0]"

lemma sfo_wrapping_bytes:
  "rd_le32 sfo_wrapping = SFO_MAGIC" "rd_le32 (drop 4 sfo_wrapping) = 0x101" "rd_le32 (drop 8 sfo_wrapping) = 36"
  "rd_le32 (drop 12 sfo_wrapping) = 0x80000000" "rd_le32 (drop 16 sfo_wrapping) = 1"
  "drop 20 sfo_wrapping = [0, 0, 4, SFO_INT] @ wr_le32 4 @ wr_le32 4 @ wr_le32 0x80000000 @ [0]"
  "length sfo_wrapping = 37"
  by (simp_all add: sfo_wrapping_def)

lemma parse_entry_wrapping: "parse_entry sfo_wrapping 36 0x80000000 0 20 = Inl Sfo_out_of_bounds"
proof -
  let ?e = "[0, 0, 4, SFO_INT] @ wr_le32 4 @ wr_le32 4 @ wr_le32 0x80000000 @ [0]"
  have z: "0 < KV_MAX_PAIRS" by simp
  have "rd_le16 ?e = 0" "?e ! 3 = SFO_INT" "rd_le32 (drop 12 ?e) = 0x80000000"
    using rd_wr_le16[of 0 "[4]"] by (simp_all add: rd_le16_def)
  then show ?thesis unfolding parse_entry_eq[OF z] Let_def sfo_wrapping_bytes(6,7) by simp
qed

lemma parse_sfo_wrapping: "parse_sfo sfo_wrapping = Inl Sfo_out_of_bounds"
  by (simp add: parse_sfo_def read_bytes_in rd_take drop_take sfo_wrapping_bytes parse_entry_wrapping numeral_eq_Suc[of num.One])

text \<open>An entry that cannot be parsed, wherever it lies: the first that fails, and its number.\<close>

lemma parse_entries_fault:
  "parse_entries data ko vo n i e = Inl f \<Longrightarrow> \<exists>j < n. parse_entry data ko vo (i + j) (e + SFO_ENTRY_SIZE * j) = Inl f"
proof (induction data ko vo n i e rule: parse_entries.induct)
  case (2 data ko vo n i e)
  show ?case
  proof (cases "parse_entry data ko vo i e")
    case (Inl f')
    then show ?thesis using 2(2) by (intro exI[of _ 0]) simp
  next
    case (Inr kv)
    then obtain j where "j < n" "parse_entry data ko vo (i + 1 + j) (e + SFO_ENTRY_SIZE + SFO_ENTRY_SIZE * j) = Inl f"
      using 2 by (auto split: sum.splits)
    then show ?thesis by (intro exI[of _ "Suc j"]) (simp add: algebra_simps)
  qed
qed simp

lemma parse_sfo_fault:
  assumes "parse_sfo data = Inl Sfo_out_of_bounds"
  obtains i where "i < unat (rd_le32 (drop 16 data))" "i < KV_MAX_PAIRS"
    "parse_entry data (rd_le32 (drop 8 data)) (rd_le32 (drop 12 data)) i (SFO_HDR_SIZE + SFO_ENTRY_SIZE * i) = Inl Sfo_out_of_bounds"
proof -
  have len: "\<not> length data < SFO_HDR_SIZE" using assms by (auto simp: parse_sfo_def)
  then have c: "unat (rd_le32 (drop 16 data)) \<le> KV_MAX_PAIRS"
    "parse_entries data (rd_le32 (drop 8 data)) (rd_le32 (drop 12 data)) (unat (rd_le32 (drop 16 data))) 0 SFO_HDR_SIZE = Inl Sfo_out_of_bounds"
    using assms by (auto simp: parse_sfo_def Let_def read_bytes_in rd_take drop_take split: if_splits)
  obtain j where "j < unat (rd_le32 (drop 16 data))"
    "parse_entry data (rd_le32 (drop 8 data)) (rd_le32 (drop 12 data)) (0 + j) (SFO_HDR_SIZE + SFO_ENTRY_SIZE * j) = Inl Sfo_out_of_bounds"
    using parse_entries_fault[OF c(2)] by blast
  then show thesis using c(1) by (intro that[of j]) simp_all
qed

text \<open>The entry at \<open>e\<close>: its fields.\<close>

abbreviation (input) entry_key_off :: "u8 list \<Rightarrow> nat \<Rightarrow> u16" where "entry_key_off data e \<equiv> rd_le16 (drop e data)"
abbreviation (input) entry_type :: "u8 list \<Rightarrow> nat \<Rightarrow> u8" where "entry_type data e \<equiv> data ! (e + 3)"
abbreviation (input) entry_value_off :: "u8 list \<Rightarrow> nat \<Rightarrow> u32" where "entry_value_off data e \<equiv> rd_le32 (drop (e + 12) data)"

text \<open>What becomes of an entry, exactly.\<close>

lemma entry_outcome:
  assumes "i < KV_MAX_PAIRS"
  shows "(parse_entry data ko vo i e = Inl Sfo_refused \<longleftrightarrow>
      length data < e + 16 \<or> length data \<le> unat (ko + ucast (entry_key_off data e)) \<or>
      entry_type data e = SFO_STRING \<and> length data \<le> unat (vo + entry_value_off data e) \<or>
      entry_type data e = SFO_INT \<and> length data < unat (vo + entry_value_off data e + 4))"
    "(parse_entry data ko vo i e = Inl Sfo_out_of_bounds \<longleftrightarrow>
      e + 16 \<le> length data \<and> unat (ko + ucast (entry_key_off data e)) < length data \<and> entry_type data e = SFO_INT \<and>
      unat (vo + entry_value_off data e + 4) \<le> length data \<and> length data + 1 < unat vo + unat (entry_value_off data e) + 4)"
proof -
  have d: "e + 16 \<le> length data \<Longrightarrow> drop e data ! 3 = data ! (e + 3)" by simp
  show "(parse_entry data ko vo i e = Inl Sfo_refused \<longleftrightarrow>
      length data < e + 16 \<or> length data \<le> unat (ko + ucast (entry_key_off data e)) \<or>
      entry_type data e = SFO_STRING \<and> length data \<le> unat (vo + entry_value_off data e) \<or>
      entry_type data e = SFO_INT \<and> length data < unat (vo + entry_value_off data e + 4))"
    unfolding parse_entry_eq[OF assms] Let_def using d by (auto simp: not_less not_le add.commute)
  show "(parse_entry data ko vo i e = Inl Sfo_out_of_bounds \<longleftrightarrow>
      e + 16 \<le> length data \<and> unat (ko + ucast (entry_key_off data e)) < length data \<and> entry_type data e = SFO_INT \<and>
      unat (vo + entry_value_off data e + 4) \<le> length data \<and> length data + 1 < unat vo + unat (entry_value_off data e) + 4)"
    unfolding parse_entry_eq[OF assms] Let_def using d by (auto simp: not_less not_le add.commute)
qed

lemma escape_wraps: "unat (vo + v + 4) \<le> n \<Longrightarrow> n + 1 < unat vo + unat v + 4 \<Longrightarrow> 2 ^ 32 \<le> unat vo + unat v + 4" for vo v :: u32
proof (rule ccontr)
  assume a: "unat (vo + v + 4) \<le> n" "n + 1 < unat vo + unat v + 4" and "\<not> ?thesis"
  then have "unat (vo + v + 4) = unat vo + unat v + 4"
    by (subst unat_plus_small, subst unat_plus_small) (simp_all add: unat_plus_small)
  then show False using a by linarith
qed

text \<open>C38: With every byte that \<open>parse_sfo\<close> reads from the file's buffer and every string it stores checked against the
buffer it belongs to, what becomes of an entry, exactly: it is refused when it is not all in the file or when one of the
32-bit sums its type asks for is beyond the file; and a read leaves the buffer when the entry is an integer whose wrapped
32-bit sum passes the check while its 64-bit pointer is beyond.  So a whole file is parsed without leaving a buffer unless
one of its entries is an integer whose offsets, with the integer's length, add up to \<open>2 ^ 32\<close> or more; keys, strings and
the array of pairs never do it.  (A file with a valid header does it: the witness.)\<close>

theorem sfo_reads_escape_only_by_wrapping:
  "(i < KV_MAX_PAIRS \<longrightarrow>
     (parse_entry data ko vo i e = Inl Sfo_refused \<longleftrightarrow>
       length data < e + 16 \<or> length data \<le> unat (ko + ucast (entry_key_off data e)) \<or>
       entry_type data e = SFO_STRING \<and> length data \<le> unat (vo + entry_value_off data e) \<or>
       entry_type data e = SFO_INT \<and> length data < unat (vo + entry_value_off data e + 4)) \<and>
     (parse_entry data ko vo i e = Inl Sfo_out_of_bounds \<longleftrightarrow>
       e + 16 \<le> length data \<and> unat (ko + ucast (entry_key_off data e)) < length data \<and> entry_type data e = SFO_INT \<and>
       unat (vo + entry_value_off data e + 4) \<le> length data \<and> length data + 1 < unat vo + unat (entry_value_off data e) + 4)) \<and>
   (parse_sfo data = Inl Sfo_out_of_bounds \<longrightarrow>
     (\<exists>i < unat (rd_le32 (drop 16 data)). entry_type data (20 + 16 * i) = SFO_INT \<and>
        2 ^ 32 \<le> unat (rd_le32 (drop 12 data)) + unat (entry_value_off data (20 + 16 * i)) + 4))"
proof -
  have "\<exists>i < unat (rd_le32 (drop 16 data)). entry_type data (20 + 16 * i) = SFO_INT \<and>
      2 ^ 32 \<le> unat (rd_le32 (drop 12 data)) + unat (entry_value_off data (20 + 16 * i)) + 4"
    if "parse_sfo data = Inl Sfo_out_of_bounds"
  proof (rule parse_sfo_fault[OF that])
    fix i assume i: "i < unat (rd_le32 (drop 16 data))" "i < KV_MAX_PAIRS"
      "parse_entry data (rd_le32 (drop 8 data)) (rd_le32 (drop 12 data)) i (SFO_HDR_SIZE + SFO_ENTRY_SIZE * i) = Inl Sfo_out_of_bounds"
    have o: "entry_type data (20 + 16 * i) = SFO_INT"
        "unat (rd_le32 (drop 12 data) + entry_value_off data (20 + 16 * i) + 4) \<le> length data"
        "length data + 1 < unat (rd_le32 (drop 12 data)) + unat (entry_value_off data (20 + 16 * i)) + 4"
      using i(3) unfolding entry_outcome(2)[OF i(2)] by blast+
    then show ?thesis using i(1) escape_wraps[OF o(2,3)] by blast
  qed
  then show ?thesis using entry_outcome[of i data ko vo e] by blast
qed

theorem sfo_reads_escape_only_by_wrapping_witness:
  "parse_sfo sfo_wrapping = Inl Sfo_out_of_bounds \<and> parse_entry sfo_wrapping 36 0x80000000 0 20 \<noteq> Inl Sfo_refused \<and>
   (\<exists>i < unat (rd_le32 (drop 16 sfo_wrapping)). 2 ^ 32 \<le> unat (rd_le32 (drop 12 sfo_wrapping)) + unat (entry_value_off sfo_wrapping (20 + 16 * i)) + 4)"
  using parse_sfo_wrapping parse_entry_wrapping sfo_reads_escape_only_by_wrapping[of 0 sfo_wrapping 36 "0x80000000" 20] by auto

end
