(* ===== verification/Sha1.thy ===== *)
theory Sha1
  imports Prelude
begin

text \<open>
  \<open>tools/sfo-pkg/sha1.c\<close>: the streaming SHA-1 of the package tool.  The first half translates the
  code; the second states the hash function of FIPS PUB 180-4 over whole messages, from the
  standard's own formulas, and shows that the streaming code computes it however the message is cut
  into updates.
\<close>

section \<open>The code\<close>

definition ROTL32 :: "u32 \<Rightarrow> nat \<Rightarrow> u32" where
  "ROTL32 x n = push_bit n x OR drop_bit (32 - n) x"

text \<open>The message schedule: sixteen big-endian words of the block, then 64 computed ones.\<close>

definition block_word :: "u8 list \<Rightarrow> nat \<Rightarrow> u32" where
  "block_word block t = push_bit 24 (ucast (block ! (t * 4 + 0))) OR push_bit 16 (ucast (block ! (t * 4 + 1)))
     OR push_bit 8 (ucast (block ! (t * 4 + 2))) OR ucast (block ! (t * 4 + 3))"

fun schedule_loop :: "nat \<Rightarrow> u32 list \<Rightarrow> u32 list" where
  "schedule_loop 0 w = w"
| "schedule_loop (Suc n) w =
     (let t = length w
      in schedule_loop n (w @ [ROTL32 (w ! (t - 3) XOR w ! (t - 8) XOR w ! (t - 14) XOR w ! (t - 16)) 1]))"

definition schedule :: "u8 list \<Rightarrow> u32 list" where
  "schedule block = schedule_loop 64 (map (block_word block) [0..<16])"

definition sha1_round :: "u32 list \<Rightarrow> nat \<Rightarrow> u32 \<times> u32 \<times> u32 \<times> u32 \<times> u32 \<Rightarrow> u32 \<times> u32 \<times> u32 \<times> u32 \<times> u32" where
  "sha1_round w t = (\<lambda>(a, b, c, d, e).
     let (f, k) =
           (if t < 20 then ((b AND c) OR (NOT b AND d), 0x5A827999)
            else if t < 40 then (b XOR c XOR d, 0x6ED9EBA1)
            else if t < 60 then ((b AND c) OR (b AND d) OR (c AND d), 0x8F1BBCDC)
            else (b XOR c XOR d, 0xCA62C1D6));
         tmp = ROTL32 a 5 + f + e + k + w ! t
     in (tmp, a, ROTL32 b 30, c, d))"

fun sha1_rounds :: "u32 list \<Rightarrow> nat \<Rightarrow> nat \<Rightarrow> u32 \<times> u32 \<times> u32 \<times> u32 \<times> u32 \<Rightarrow> u32 \<times> u32 \<times> u32 \<times> u32 \<times> u32" where
  "sha1_rounds w t 0 s = s"
| "sha1_rounds w t (Suc n) s = sha1_rounds w (t + 1) n (sha1_round w t s)"

type_synonym sha1_hash = "u32 \<times> u32 \<times> u32 \<times> u32 \<times> u32"

definition sha1_compress :: "sha1_hash \<Rightarrow> u8 list \<Rightarrow> sha1_hash" where
  "sha1_compress h block =
     (let w = schedule block;
          (h0, h1, h2, h3, h4) = h;
          (a, b, c, d, e) = sha1_rounds w 0 80 h
      in (h0 + a, h1 + b, h2 + c, h3 + d, h4 + e))"

record ps3_sha1_ctx =
  ctx_h :: sha1_hash
  total_bits :: u64
  ctx_block :: "u8 list"
  block_len :: nat

text \<open>The initial context leaves the block buffer as it was: it is an argument.\<close>

definition ps3_sha1_init :: "u8 list \<Rightarrow> ps3_sha1_ctx" where
  "ps3_sha1_init garbage =
     \<lparr>ctx_h = (0x67452301, 0xEFCDAB89, 0x98BADCFE, 0x10325476, 0xC3D2E1F0),
      total_bits = 0, ctx_block = garbage, block_len = 0\<rparr>"

definition copy_at :: "nat \<Rightarrow> u8 list \<Rightarrow> u8 list \<Rightarrow> u8 list" where
  "copy_at i bytes buf = take i buf @ bytes @ drop (i + length bytes) buf"

function sha1_whole_blocks :: "sha1_hash \<Rightarrow> u8 list \<Rightarrow> sha1_hash \<times> u8 list" where
  "sha1_whole_blocks h p =
     (if length p \<ge> 64 then sha1_whole_blocks (sha1_compress h (take 64 p)) (drop 64 p) else (h, p))"
  by pat_completeness auto
termination by (relation "measure (\<lambda>(h, p). length p)") auto

declare sha1_whole_blocks.simps [simp del]

definition sha1_top_up :: "ps3_sha1_ctx \<Rightarrow> u8 list \<Rightarrow> ps3_sha1_ctx \<times> u8 list" where
  "sha1_top_up ctx p =
     (if block_len ctx > 0
      then let want = 64 - block_len ctx; n = (if length p < want then length p else want);
               ctx = ctx\<lparr>ctx_block := copy_at (block_len ctx) (take n p) (ctx_block ctx),
                         block_len := block_len ctx + n\<rparr>;
               ctx = (if block_len ctx = 64
                      then ctx\<lparr>ctx_h := sha1_compress (ctx_h ctx) (ctx_block ctx), block_len := 0\<rparr> else ctx)
           in (ctx, drop n p)
      else (ctx, p))"

definition ps3_sha1_update :: "u8 list \<Rightarrow> ps3_sha1_ctx \<Rightarrow> ps3_sha1_ctx" where
  "ps3_sha1_update data ctx =
     (let ctx = ctx\<lparr>total_bits := total_bits ctx + of_nat (length data) * 8\<rparr>;
          (ctx, p) = sha1_top_up ctx data;
          (h, p) = sha1_whole_blocks (ctx_h ctx) p;
          ctx = ctx\<lparr>ctx_h := h\<rparr>
      in if length p > 0 then ctx\<lparr>ctx_block := copy_at 0 p (ctx_block ctx), block_len := length p\<rparr> else ctx)"

definition be_bytes :: "u32 \<Rightarrow> u8 list" where
  "be_bytes x = [ucast (drop_bit 24 x), ucast (drop_bit 16 x), ucast (drop_bit 8 x), ucast x]"

definition length_bytes :: "u64 \<Rightarrow> u8 list" where
  "length_bytes n = map (\<lambda>i. ucast (drop_bit (56 - 8 * i) n)) [0..<8]"

definition sha1_digest :: "sha1_hash \<Rightarrow> u8 list" where
  "sha1_digest h = (case h of (h0, h1, h2, h3, h4) \<Rightarrow>
     be_bytes h0 @ be_bytes h1 @ be_bytes h2 @ be_bytes h3 @ be_bytes h4)"

definition ps3_sha1_final :: "ps3_sha1_ctx \<Rightarrow> ps3_sha1_ctx \<times> u8 list" where
  "ps3_sha1_final ctx =
     (let bits = total_bits ctx;
          ctx = ctx\<lparr>ctx_block := copy_at (block_len ctx) [0x80] (ctx_block ctx), block_len := block_len ctx + 1\<rparr>;
          ctx = (if block_len ctx > 56
                 then let block = copy_at (block_len ctx) (replicate (64 - block_len ctx) 0) (ctx_block ctx)
                      in ctx\<lparr>ctx_block := block, ctx_h := sha1_compress (ctx_h ctx) block, block_len := 0\<rparr>
                 else ctx);
          block = copy_at (block_len ctx) (replicate (56 - block_len ctx) 0) (ctx_block ctx);
          block = copy_at 56 (length_bytes bits) block;
          h = sha1_compress (ctx_h ctx) block
      in (ctx\<lparr>ctx_h := h, ctx_block := replicate 64 0, block_len := 0\<rparr>, sha1_digest h))"

definition ps3_sha1 :: "u8 list \<Rightarrow> u8 list \<Rightarrow> u8 list" where
  "ps3_sha1 garbage data = snd (ps3_sha1_final (ps3_sha1_update data (ps3_sha1_init garbage)))"

section \<open>The standard\<close>

text \<open>FIPS PUB 180-4: the functions and constants of 4.1.1 and 4.2.1, the schedule and the loop of 6.1.2.\<close>

fun fips_W :: "u8 list \<Rightarrow> nat \<Rightarrow> u32" where
  "fips_W block t =
     (if t < 16 then 2 ^ 24 * ucast (block ! (4 * t)) + 2 ^ 16 * ucast (block ! (4 * t + 1))
        + 2 ^ 8 * ucast (block ! (4 * t + 2)) + ucast (block ! (4 * t + 3))
      else word_rotl 1 (fips_W block (t - 3) XOR fips_W block (t - 8) XOR fips_W block (t - 14) XOR fips_W block (t - 16)))"

declare fips_W.simps [simp del]

definition fips_f :: "nat \<Rightarrow> u32 \<Rightarrow> u32 \<Rightarrow> u32 \<Rightarrow> u32" where
  "fips_f t x y z =
     (if t < 20 then (x AND y) XOR (NOT x AND z)
      else if 40 \<le> t \<and> t < 60 then (x AND y) XOR (x AND z) XOR (y AND z)
      else x XOR y XOR z)"

definition fips_K :: "nat \<Rightarrow> u32" where
  "fips_K t = [0x5A827999, 0x6ED9EBA1, 0x8F1BBCDC, 0xCA62C1D6] ! (t div 20)"

definition fips_step :: "u8 list \<Rightarrow> sha1_hash \<Rightarrow> nat \<Rightarrow> sha1_hash" where
  "fips_step block = (\<lambda>(a, b, c, d, e) t.
     (word_rotl 5 a + fips_f t b c d + e + fips_K t + fips_W block t, a, word_rotl 30 b, c, d))"

definition fips_hash_block :: "sha1_hash \<Rightarrow> u8 list \<Rightarrow> sha1_hash" where
  "fips_hash_block h block =
     (case (h, foldl (fips_step block) h [0..<80]) of
        ((h0, h1, h2, h3, h4), (a, b, c, d, e)) \<Rightarrow> (a + h0, b + h1, c + h2, d + h3, e + h4))"

text \<open>Padding (5.1.1) and the hash of a message (5.3.1, 6.1.2), byte-wise.\<close>

definition fips_pad :: "u8 list \<Rightarrow> u8 list" where
  "fips_pad m = m @ [0x80] @ replicate (nat ((55 - int (length m)) mod 64)) 0 @ length_bytes (of_nat (8 * length m))"

function fips_blocks :: "sha1_hash \<Rightarrow> u8 list \<Rightarrow> sha1_hash" where
  "fips_blocks h m = (if length m \<ge> 64 then fips_blocks (fips_hash_block h (take 64 m)) (drop 64 m) else h)"
  by pat_completeness auto
termination by (relation "measure (\<lambda>(h, p). length p)") auto

declare fips_blocks.simps [simp del]

definition fips_sha1 :: "u8 list \<Rightarrow> u8 list" where
  "fips_sha1 m = sha1_digest (fips_blocks (0x67452301, 0xEFCDAB89, 0x98BADCFE, 0x10325476, 0xC3D2E1F0) (fips_pad m))"

section \<open>The code computes the standard's block function\<close>

lemma ROTL32_rotl: "0 < n \<Longrightarrow> n < 32 \<Longrightarrow> ROTL32 x n = word_rotl n x"
proof (rule bit_word_eqI)
  fix i assume n: "0 < n" "n < 32" and i: "i < LENGTH(32)"
  show "bit (ROTL32 x n) i \<longleftrightarrow> bit (word_rotl n x) i"
  proof (cases "n \<le> i")
    case True
    then have "(i + (32 - n)) mod 32 = i - n" using n i by (simp add: mod_if)
    then show ?thesis using True n i
      by (auto simp: ROTL32_def bit_word_rotl_iff bit_simps dest: bit_imp_le_length)
  next
    case False
    then have "(i + (32 - n)) mod 32 = 32 - n + i" using n i by simp
    then show ?thesis using False n i by (simp add: ROTL32_def bit_word_rotl_iff bit_simps)
  qed
qed

lemma or4_bytes:
  fixes a b c d :: u8
  shows "push_bit 24 (ucast a) OR push_bit 16 (ucast b) OR push_bit 8 (ucast c) OR ucast d
     = (push_bit 24 (ucast a) + push_bit 16 (ucast b) + push_bit 8 (ucast c) + ucast d :: u32)"
proof -
  have or: "x OR y = x + y" if "x AND y = 0" for x y :: u32
    using that by (simp add: disjunctive_add_eq_or)
  have one: "push_bit 24 (ucast a) AND push_bit 16 (ucast b) = (0 :: u32)"
    by (rule bit_word_eqI) (auto simp: bit_simps dest: bit_imp_le_length)
  have two: "(push_bit 24 (ucast a) OR push_bit 16 (ucast b)) AND push_bit 8 (ucast c) = (0 :: u32)"
    by (rule bit_word_eqI) (auto simp: bit_simps dest: bit_imp_le_length)
  have three: "((push_bit 24 (ucast a) OR push_bit 16 (ucast b)) OR push_bit 8 (ucast c)) AND ucast d = (0 :: u32)"
    by (rule bit_word_eqI) (auto simp: bit_simps dest: bit_imp_le_length)
  have "((push_bit 24 (ucast a) OR push_bit 16 (ucast b)) OR push_bit 8 (ucast c)) OR ucast d
     = (push_bit 24 (ucast a) + push_bit 16 (ucast b) + push_bit 8 (ucast c) + ucast d :: u32)"
    by (subst or[OF three], subst or[OF two], subst or[OF one], rule refl)
  then show ?thesis unfolding or.assoc .
qed

lemma block_word_sum:
  "block_word block t = 2 ^ 24 * ucast (block ! (4 * t)) + 2 ^ 16 * ucast (block ! (4 * t + 1))
     + 2 ^ 8 * ucast (block ! (4 * t + 2)) + ucast (block ! (4 * t + 3))"
proof -
  have idx: "t * 4 + k = 4 * t + k" for k by simp
  show ?thesis
    unfolding block_word_def or4_bytes unfolding idx push_bit_eq_mult by (simp only: mult.commute add_0_right)
qed

lemma schedule_loop_fips:
  "16 \<le> length w \<Longrightarrow> w = map (fips_W block) [0..<length w] \<Longrightarrow>
   schedule_loop n w = map (fips_W block) [0..<length w + n]"
proof (induction n arbitrary: w)
  case (Suc n)
  let ?t = "length w"
  have nth: "w ! i = fips_W block i" if "i < ?t" for i using that Suc.prems(2) by (metis add.left_neutral diff_zero length_upt nth_map nth_upt)
  have "ROTL32 (w ! (?t - 3) XOR w ! (?t - 8) XOR w ! (?t - 14) XOR w ! (?t - 16)) 1 = fips_W block ?t"
    using Suc.prems(1) by (simp add: nth ROTL32_rotl fips_W.simps[of block ?t])
  then have step: "schedule_loop (Suc n) w = schedule_loop n (w @ [fips_W block ?t])" by (simp add: Let_def)
  have "w @ [fips_W block ?t] = map (fips_W block) [0..<length (w @ [fips_W block ?t])]"
    using Suc.prems(2) by simp
  then show ?case using Suc.IH[of "w @ [fips_W block ?t]"] Suc.prems(1) step by simp
qed simp

lemma schedule_fips: "schedule block = map (fips_W block) [0..<80]"
proof -
  have eq: "map (block_word block) [0..<16] = map (fips_W block) [0..<16]"
    unfolding map_eq_conv by (simp add: block_word_sum fips_W.simps)
  have "schedule_loop 64 (map (fips_W block) [0..<16]) = map (fips_W block) [0..<length (map (fips_W block) [0..<16]) + 64]"
    by (rule schedule_loop_fips) (simp_all only: length_map length_upt, simp)
  also have "length (map (fips_W block) [0..<16]) + 64 = 80" by (simp only: length_map length_upt)
  finally show ?thesis unfolding schedule_def eq .
qed

lemma fips_f_code:
  "fips_f t b c d = (if t < 20 then (b AND c) OR (NOT b AND d) else if t < 40 then b XOR c XOR d
     else if t < 60 then (b AND c) OR (b AND d) OR (c AND d) else b XOR c XOR d)"
  by (rule bit_word_eqI) (auto simp: fips_f_def bit_simps)

lemma fips_K_code:
  "t < 80 \<Longrightarrow> fips_K t = (if t < 20 then 0x5A827999 else if t < 40 then 0x6ED9EBA1
     else if t < 60 then 0x8F1BBCDC else 0xCA62C1D6)"
proof -
  assume t: "t < 80"
  define q where "q = t div 20"
  have "t = 20 * q + t mod 20" "t mod 20 < 20" by (simp_all add: q_def)
  moreover have "q = 0 \<or> q = 1 \<or> q = 2 \<or> q = 3" using t unfolding q_def by linarith
  ultimately show ?thesis unfolding fips_K_def q_def[symmetric] by auto
qed

lemma sha1_round_fips: "t < 80 \<Longrightarrow> sha1_round (schedule block) t s = fips_step block s t"
proof (cases s)
  fix a b c d e assume t: "t < 80" and s: "s = (a, b, c, d, e)"
  have w: "schedule block ! t = fips_W block t" using t by (simp add: schedule_fips)
  show ?thesis
    by (simp add: s sha1_round_def fips_step_def w fips_f_code fips_K_code[OF t] ROTL32_rotl Let_def
        algebra_simps split: if_splits)
qed

lemma sha1_rounds_fips:
  "t + n \<le> 80 \<Longrightarrow> sha1_rounds (schedule block) t n s = foldl (fips_step block) s [t..<t + n]"
proof (induction n arbitrary: t s)
  case (Suc n)
  then show ?case using Suc.IH[of "t + 1"] by (simp add: sha1_round_fips upt_conv_Cons del: upt_Suc)
qed simp

lemma sha1_compress_fips: "sha1_compress h block = fips_hash_block h block"
  by (simp add: sha1_compress_def fips_hash_block_def sha1_rounds_fips[of 0 80] Let_def case_prod_beta add.commute)

section \<open>Streaming\<close>

text \<open>
  After any updates the context represents the concatenation \<open>m\<close> of their data: the chaining
  value is that of the whole blocks of \<open>m\<close>, the buffer holds the rest.
\<close>

definition tail :: "u8 list \<Rightarrow> u8 list" where
  "tail m = drop (length m div 64 * 64) m"

abbreviation (input) sha1_h0 :: sha1_hash where
  "sha1_h0 \<equiv> (0x67452301, 0xEFCDAB89, 0x98BADCFE, 0x10325476, 0xC3D2E1F0)"

definition sha1_rep :: "ps3_sha1_ctx \<Rightarrow> u8 list \<Rightarrow> bool" where
  "sha1_rep ctx m \<longleftrightarrow>
     ctx_h ctx = fips_blocks sha1_h0 m \<and> total_bits ctx = of_nat (8 * length m) \<and>
     length (ctx_block ctx) = 64 \<and> block_len ctx = length (tail m) \<and> take (block_len ctx) (ctx_block ctx) = tail m"

lemma length_tail: "length (tail m) = length m mod 64"
  by (simp add: tail_def minus_div_mult_eq_mod)

lemma length_tail_less: "length (tail m) < 64"
  by (simp add: length_tail)

lemma tail_short: "length m < 64 \<Longrightarrow> tail m = m"
  by (simp add: tail_def)

lemma fips_blocks_short [simp]: "length m < 64 \<Longrightarrow> fips_blocks h m = h"
  by (subst fips_blocks.simps) simp

lemma fips_blocks_one: "length a = 64 \<Longrightarrow> fips_blocks h (a @ b) = fips_blocks (fips_hash_block h a) b"
  by (subst fips_blocks.simps) simp

lemma fips_blocks_append:
  "length a mod 64 = 0 \<Longrightarrow> fips_blocks h (a @ b) = fips_blocks (fips_blocks h a) b"
proof (induction h a rule: fips_blocks.induct)
  case (1 h m)
  show ?case
  proof (cases "64 \<le> length m")
    case True
    have "length (drop 64 m) mod 64 = 0" using 1(2) True by (simp add: le_mod_geq)
    then have ih: "fips_blocks (fips_hash_block h (take 64 m)) (drop 64 m @ b)
        = fips_blocks (fips_blocks (fips_hash_block h (take 64 m)) (drop 64 m)) b"
      by (rule 1(1)[OF True])
    have "fips_blocks h (m @ b) = fips_blocks (fips_hash_block h (take 64 m)) (drop 64 m @ b)"
      using True by (subst fips_blocks.simps) simp
    moreover have "fips_blocks h m = fips_blocks (fips_hash_block h (take 64 m)) (drop 64 m)"
      using True by (subst fips_blocks.simps) simp
    ultimately show ?thesis using ih by simp
  next
    case False
    then show ?thesis using 1(2) by simp
  qed
qed

lemma whole_tail: "m = take (length m div 64 * 64) m @ tail m"
  by (simp add: tail_def)

lemma length_whole: "length (take (length m div 64 * 64) m) mod 64 = 0"
  by (simp add: min_absorb2)

lemma fips_blocks_extend: "fips_blocks h (m @ x) = fips_blocks (fips_blocks h m) (tail m @ x)"
proof -
  let ?w = "take (length m div 64 * 64) m"
  have "fips_blocks h m = fips_blocks (fips_blocks h ?w) (tail m)"
    using fips_blocks_append[OF length_whole, of h m "tail m"] whole_tail[of m] by simp
  then have "fips_blocks h m = fips_blocks h ?w" by (simp add: length_tail)
  moreover have "fips_blocks h (?w @ (tail m @ x)) = fips_blocks (fips_blocks h ?w) (tail m @ x)"
    by (rule fips_blocks_append[OF length_whole])
  ultimately show ?thesis using whole_tail[of m] by (metis append.assoc)
qed

lemma tail_extend: "tail (m @ x) = tail (tail m @ x)"
proof -
  define q where "q = length m div 64"
  have q: "length m = q * 64 + length (tail m)" by (simp add: q_def length_tail)
  have "length (m @ x) div 64 = q + length (tail m @ x) div 64"
    using q by (simp add: add.assoc)
  then have "tail (m @ x) = drop (length (tail m @ x) div 64 * 64) (drop (q * 64) (m @ x))"
    unfolding tail_def[of "m @ x"] drop_drop by (simp only: add_mult_distrib add.commute)
  also have "drop (q * 64) (m @ x) = tail m @ x" by (simp add: tail_def q_def)
  finally show ?thesis by (simp add: tail_def)
qed

lemma tail_one: "length a = 64 \<Longrightarrow> tail (a @ b) = tail b"
  using tail_extend[of a b] by (simp add: tail_def[of a])

lemma sha1_whole_blocks_spec: "sha1_whole_blocks h p = (fips_blocks h p, tail p)"
proof (induction h p rule: sha1_whole_blocks.induct)
  case (1 h p)
  show ?case
  proof (cases "64 \<le> length p")
    case True
    have "tail p = tail (drop 64 p)" using True tail_one[of "take 64 p" "drop 64 p"] by simp
    moreover have "fips_blocks h p = fips_blocks (fips_hash_block h (take 64 p)) (drop 64 p)"
      using True by (subst fips_blocks.simps) simp
    ultimately show ?thesis using 1 True by (subst sha1_whole_blocks.simps) (simp add: sha1_compress_fips)
  next
    case False
    then show ?thesis by (subst sha1_whole_blocks.simps) (simp add: tail_short)
  qed
qed

lemma length_copy_at: "i + length b \<le> length buf \<Longrightarrow> length (copy_at i b buf) = length buf"
  by (simp add: copy_at_def)

lemma take_copy_at: "i + length b \<le> length buf \<Longrightarrow> take (i + length b) (copy_at i b buf) = take i buf @ b"
  by (simp add: copy_at_def)

lemma sha1_rep_init: "length garbage = 64 \<Longrightarrow> sha1_rep (ps3_sha1_init garbage) []"
  by (simp add: sha1_rep_def ps3_sha1_init_def tail_def)

lemma sha1_top_up_spec:
  assumes rep: "sha1_rep ctx m" and r: "sha1_top_up ctx d = (c', p)"
  shows "length (ctx_block c') = 64" "total_bits c' = total_bits ctx"
    "fips_blocks (ctx_h c') p = fips_blocks sha1_h0 (m @ d)"
    "p = [] \<and> block_len c' = length (tail (m @ d)) \<and> take (block_len c') (ctx_block c') = tail (m @ d) \<or>
     block_len c' = 0 \<and> tail p = tail (m @ d)"
proof -
  let ?bl = "block_len ctx"
  let ?n = "if length d < 64 - ?bl then length d else 64 - ?bl"
  let ?blk = "copy_at ?bl (take ?n d) (ctx_block ctx)"
  have h: "ctx_h ctx = fips_blocks sha1_h0 m" and len: "length (ctx_block ctx) = 64"
    and bl: "?bl = length (tail m)" and tk: "take ?bl (ctx_block ctx) = tail m"
    using rep by (auto simp: sha1_rep_def)
  have lt: "?bl < 64" using bl length_tail_less[of m] by simp
  have lblk: "length ?blk = 64" using lt len by (subst length_copy_at) auto
  have tblk: "take (?bl + length (take ?n d)) ?blk = tail m @ take ?n d"
    using lt len tk by (subst take_copy_at) auto
  have ex: "fips_blocks sha1_h0 (m @ d) = fips_blocks (ctx_h ctx) (tail m @ d)"
    using fips_blocks_extend[of _ m d] h by simp
  consider (zero) "?bl = 0" | (full) "0 < ?bl" "64 - ?bl \<le> length d" | (part) "0 < ?bl" "length d < 64 - ?bl"
    by linarith
  then have "length (ctx_block c') = 64 \<and> total_bits c' = total_bits ctx \<and>
    fips_blocks (ctx_h c') p = fips_blocks sha1_h0 (m @ d) \<and>
    (p = [] \<and> block_len c' = length (tail (m @ d)) \<and> take (block_len c') (ctx_block c') = tail (m @ d) \<or>
     block_len c' = 0 \<and> tail p = tail (m @ d))"
  proof cases
    case zero
    then have "tail m = []" using bl by simp
    then show ?thesis using r zero len ex tail_extend[of m d] by (auto simp: sha1_top_up_def)
  next
    case full
    then have n: "?n = 64 - ?bl" by simp
    have b: "?blk = tail m @ take ?n d" using tblk lblk full lt by simp
    have c': "c' = ctx\<lparr>ctx_block := ?blk, block_len := 0, ctx_h := sha1_compress (ctx_h ctx) ?blk\<rparr>"
      and p: "p = drop ?n d"
      using r full lt by (auto simp: sha1_top_up_def Let_def)
    have split: "tail m @ d = (tail m @ take ?n d) @ drop ?n d" by simp
    have l: "length (tail m @ take ?n d) = 64" using full lt bl by simp
    have "fips_blocks (ctx_h c') p = fips_blocks (ctx_h ctx) (tail m @ d)"
      unfolding c' p using fips_blocks_one[OF l, of "ctx_h ctx" "drop ?n d"] b
      by (simp add: sha1_compress_fips)
    moreover have "tail p = tail (m @ d)"
      unfolding p using tail_one[OF l, of "drop ?n d"] tail_extend[of m d] by simp
    moreover have "length (ctx_block c') = 64" "total_bits c' = total_bits ctx" "block_len c' = 0"
      unfolding c' using lblk by simp_all
    ultimately show ?thesis using ex by metis
  next
    case part
    then have c': "c' = ctx\<lparr>ctx_block := ?blk, block_len := ?bl + length d\<rparr>" and p: "p = []"
      using r by (auto simp: sha1_top_up_def Let_def)
    have t: "tail (m @ d) = tail m @ d"
      using part tail_extend[of m d] bl by (simp add: tail_short)
    have short: "length (tail m @ d) < 64" using part bl by simp
    have "take (block_len c') (ctx_block c') = tail (m @ d)"
      unfolding c' using tblk part t by simp
    moreover have "fips_blocks (ctx_h c') p = fips_blocks sha1_h0 (m @ d)"
      unfolding ex c' p using fips_blocks_short[OF short, of "ctx_h ctx"] by simp
    ultimately show ?thesis unfolding t using c' p lblk bl by simp
  qed
  then show "length (ctx_block c') = 64" "total_bits c' = total_bits ctx"
    "fips_blocks (ctx_h c') p = fips_blocks sha1_h0 (m @ d)"
    "p = [] \<and> block_len c' = length (tail (m @ d)) \<and> take (block_len c') (ctx_block c') = tail (m @ d) \<or>
     block_len c' = 0 \<and> tail p = tail (m @ d)" by auto
qed

lemma sha1_rep_update: "sha1_rep ctx m \<Longrightarrow> sha1_rep (ps3_sha1_update d ctx) (m @ d)"
proof -
  assume rep: "sha1_rep ctx m"
  define c0 where "c0 = ctx\<lparr>total_bits := total_bits ctx + of_nat (length d) * 8\<rparr>"
  obtain c' p where r: "sha1_top_up c0 d = (c', p)" by fastforce
  have r2: "sha1_top_up ctx d = (c'\<lparr>total_bits := total_bits ctx\<rparr>, p)"
    using r unfolding c0_def by (auto simp: sha1_top_up_def Let_def split: if_splits)
  note s = sha1_top_up_spec[OF rep r2]
  have tb: "total_bits c' = total_bits c0"
    using r unfolding c0_def by (auto simp: sha1_top_up_def Let_def split: if_splits)
  have bits: "total_bits c' = of_nat (8 * length (m @ d))"
    using rep unfolding tb c0_def by (simp add: sha1_rep_def algebra_simps)
  have u: "ps3_sha1_update d ctx = (let c = c'\<lparr>ctx_h := fips_blocks (ctx_h c') p\<rparr> in
     if length (tail p) > 0 then c\<lparr>ctx_block := copy_at 0 (tail p) (ctx_block c), block_len := length (tail p)\<rparr> else c)"
    by (simp add: ps3_sha1_update_def c0_def[symmetric] r sha1_whole_blocks_spec Let_def)
  have len: "length (ctx_block c') = 64" using s(1) by simp
  have h: "fips_blocks (ctx_h c') p = fips_blocks sha1_h0 (m @ d)" using s(3) by simp
  have tp: "length (tail p) \<le> 64" using length_tail_less[of p] by simp
  show ?thesis
  proof (cases "tail p = []")
    case True
    then show ?thesis
      using s(4) len h bits u by (auto simp: sha1_rep_def Let_def)
  next
    case False
    then have "p \<noteq> []" by (auto simp: tail_def)
    then have t: "tail p = tail (m @ d)" using s(4) by auto
    have "length (copy_at 0 (tail p) (ctx_block c')) = 64" using len tp by (simp add: length_copy_at)
    moreover have "take (length (tail p)) (copy_at 0 (tail p) (ctx_block c')) = tail p"
      by (simp add: copy_at_def)
    ultimately show ?thesis using False u h bits t by (simp add: sha1_rep_def Let_def)
  qed
qed

lemma sha1_rep_updates: "sha1_rep ctx m \<Longrightarrow> sha1_rep (fold ps3_sha1_update ds ctx) (m @ concat ds)"
proof (induction ds arbitrary: ctx m)
  case (Cons d ds)
  show ?case using Cons.IH[OF sha1_rep_update[OF Cons.prems]] by simp
qed simp

lemma pad_zeros:
  "nat ((55 - int (length m)) mod 64) =
     (if length (tail m) < 56 then 55 - length (tail m) else 119 - length (tail m))"
proof -
  define r where "r = length m mod 64"
  have r: "r < 64" by (simp add: r_def)
  have "(55 - int (length m)) mod 64 = (55 - int r) mod 64"
    unfolding r_def by (simp add: zmod_int mod_diff_right_eq)
  also have "\<dots> = (if r < 56 then 55 - int r else 119 - int r)"
  proof (cases "r < 56")
    case False
    then have "(55 - int r + 64) mod 64 = 55 - int r + 64" using r by (intro mod_pos_pos_trivial) simp_all
    then show ?thesis using False unfolding mod_add_self2 by simp
  qed simp
  finally show ?thesis using r by (auto simp: length_tail r_def[symmetric])
qed

lemma length_length_bytes [simp]: "length (length_bytes n) = 8"
  by (simp add: length_bytes_def)

lemma sha1_final_digest:
  assumes rep: "sha1_rep ctx m"
  shows "snd (ps3_sha1_final ctx) = fips_sha1 m"
proof -
  let ?t = "tail m" and ?bits = "total_bits ctx" and ?bl = "block_len ctx"
  have h: "ctx_h ctx = fips_blocks sha1_h0 m" and len: "length (ctx_block ctx) = 64"
    and bl: "?bl = length ?t" and tk: "take ?bl (ctx_block ctx) = ?t" and bits: "?bits = of_nat (8 * length m)"
    using rep by (auto simp: sha1_rep_def)
  have lt: "length ?t < 64" by (rule length_tail_less)
  let ?b1 = "copy_at ?bl [0x80] (ctx_block ctx)"
  have b1: "?b1 = ?t @ [0x80] @ drop (Suc ?bl) (ctx_block ctx)" using tk by (simp add: copy_at_def)
  have pad: "fips_blocks sha1_h0 (fips_pad m) =
      fips_blocks (ctx_h ctx) (?t @ [0x80] @ replicate (nat ((55 - int (length m)) mod 64)) 0 @ length_bytes ?bits)"
    unfolding fips_pad_def bits h by (rule fips_blocks_extend)
  show ?thesis
  proof (cases "length ?t < 56")
    case True
    let ?block = "?t @ [0x80] @ replicate (55 - length ?t) 0 @ length_bytes ?bits"
    have lb: "length ?block = 64" using True by simp
    have "copy_at 56 (length_bytes ?bits) (copy_at (?bl + 1) (replicate (56 - (?bl + 1)) 0) ?b1) = ?block"
      using True len bl tk unfolding b1 copy_at_def by (simp add: take_Cons' Suc_diff_le)
    then have "snd (ps3_sha1_final ctx) = sha1_digest (sha1_compress (ctx_h ctx) ?block)"
      using True bl by (simp add: ps3_sha1_final_def Let_def)
    moreover have "fips_blocks (ctx_h ctx) ?block = fips_hash_block (ctx_h ctx) ?block"
      using fips_blocks_one[OF lb, of "ctx_h ctx" "[]"] by simp
    ultimately show ?thesis
      using True pad pad_zeros[of m] by (simp add: fips_sha1_def sha1_compress_fips)
  next
    case False
    let ?x = "?t @ [0x80] @ replicate (63 - length ?t) 0"
    let ?y = "replicate 56 0 @ length_bytes ?bits"
    have lx: "length ?x = 64" using False lt by simp
    have ly: "length ?y = 64" by simp
    have x: "copy_at (?bl + 1) (replicate (64 - (?bl + 1)) 0) ?b1 = ?x"
      using False lt len bl tk unfolding b1 copy_at_def by simp
    have y: "copy_at 56 (length_bytes ?bits) (copy_at 0 (replicate 56 0) ?x) = ?y"
      using lx unfolding copy_at_def by (simp only: take_append drop_append) simp
    have "snd (ps3_sha1_final ctx) = sha1_digest (sha1_compress (sha1_compress (ctx_h ctx) ?x) ?y)"
      using False bl x y by (simp add: ps3_sha1_final_def Let_def)
    moreover have "replicate (119 - length ?t) (0 :: u8) = replicate (63 - length ?t) 0 @ replicate 56 0"
      using lt by (simp add: replicate_add[symmetric])
    then have "fips_blocks sha1_h0 (fips_pad m) = fips_blocks (ctx_h ctx) (?x @ ?y)"
      using False pad pad_zeros[of m] by simp
    moreover have "fips_blocks (ctx_h ctx) (?x @ ?y) = fips_hash_block (fips_hash_block (ctx_h ctx) ?x) ?y"
      using fips_blocks_one[OF lx, of "ctx_h ctx" ?y] fips_blocks_one[OF ly, of _ "[]"] by simp
    ultimately show ?thesis by (simp add: fips_sha1_def sha1_compress_fips)
  qed
qed

lemmas sha1_stream = sha1_rep_init sha1_rep_updates sha1_final_digest

text \<open>C35: However a message is cut into updates, and whatever the uninitialised block buffer of the
  context holds, \<open>ps3_sha1_final\<close> yields the FIPS 180-4 SHA-1 of the concatenated message.\<close>

theorem sha1_streaming_is_fips:
  assumes "length garbage = 64"
  shows "snd (ps3_sha1_final (fold ps3_sha1_update ds (ps3_sha1_init garbage))) = fips_sha1 (concat ds)"
  using sha1_final_digest[OF sha1_rep_updates[OF sha1_rep_init[OF assms]], of ds] by simp

text \<open>``abc'', fed as ``a'' and ``bc'' over a buffer of ones.\<close>

theorem sha1_streaming_is_fips_witness:
  "snd (ps3_sha1_final (fold ps3_sha1_update [[0x61], [0x62, 0x63]] (ps3_sha1_init (replicate 64 0xFF))))
     = fips_sha1 [0x61, 0x62, 0x63]"
  using sha1_streaming_is_fips[of "replicate 64 0xFF" "[[0x61], [0x62, 0x63]]"] by simp

end
