(* ===== verification/Mt19937.thy ===== *)
theory Mt19937
  imports Prelude
begin

text \<open>
  \<open>sdk/libmt19937/libmt19937.c\<close>: the Mersenne Twister of the SDK.  The state vector \<open>mt\<close> and its
  index \<open>mti\<close> are the file's two statics; the vector is regenerated in place.  The specification is
  the linear recurrence of Matsumoto and Nishimura over an unbounded sequence of words; the theorem
  says that successive calls read off the tempered sequence.  The three \<open>rand_real\<close> functions scale
  an integer in floating point and are not modelled.
\<close>

section \<open>The code\<close>

abbreviation (input) MT_N :: nat where "MT_N \<equiv> 624"
abbreviation (input) MT_M :: nat where "MT_M \<equiv> 397"
abbreviation (input) MT_MATRIX_A :: u32 where "MT_MATRIX_A \<equiv> 0x9908b0df"
abbreviation (input) MT_UPPER_MASK :: u32 where "MT_UPPER_MASK \<equiv> 0x80000000"
abbreviation (input) MT_LOWER_MASK :: u32 where "MT_LOWER_MASK \<equiv> 0x7fffffff"

record mt_state =
  mt :: "u32 list"
  mti :: nat

definition mt_start :: mt_state where
  "mt_start = \<lparr>mt = replicate MT_N 0, mti = MT_N + 1\<rparr>"

text \<open>A caller that asks for the state gets the index, or \<open>-1\<close> for a null result pointer.\<close>

definition get_state_MT :: "bool \<Rightarrow> mt_state \<Rightarrow> int \<times> u32 list option" where
  "get_state_MT state_null st = (if state_null then (- 1, None) else (int (mti st), Some (mt st)))"

function init_MT_loop :: "mt_state \<Rightarrow> mt_state" where
  "init_MT_loop st =
     (if mti st < MT_N
      then let prev = mt st ! (mti st - 1)
           in init_MT_loop (st\<lparr>mt := (mt st)[mti st := 1812433253 * (prev XOR drop_bit 30 prev) + of_nat (mti st)],
                               mti := mti st + 1\<rparr>)
      else st)"
  by pat_completeness auto
termination by (relation "measure (\<lambda>st. MT_N - mti st)") auto

declare init_MT_loop.simps [simp del]

definition init_MT :: "u32 \<Rightarrow> mt_state \<Rightarrow> mt_state" where
  "init_MT s st = init_MT_loop (st\<lparr>mt := (mt st)[0 := s], mti := 1\<rparr>)"

text \<open>
  Seeding from an array: \<open>k\<close> passes that mix the key in, then \<open>MT_N - 1\<close> that do not.  The indices
  \<open>i\<close> and \<open>j\<close> are the code's loop variables; \<open>key_length\<close> is the code's \<open>int\<close>, taken non-negative.
\<close>

definition mt_wrap :: "nat \<Rightarrow> u32 list \<Rightarrow> nat \<times> u32 list" where
  "mt_wrap i v = (if i \<ge> MT_N then (1, v[0 := v ! (MT_N - 1)]) else (i, v))"

fun key_pass :: "u32 list \<Rightarrow> nat \<Rightarrow> nat \<Rightarrow> nat \<Rightarrow> nat \<Rightarrow> u32 list \<Rightarrow> nat \<times> u32 list" where
  "key_pass init_key key_length 0 i j v = (i, v)"
| "key_pass init_key key_length (Suc k) i j v =
     (let prev = v ! (i - 1);
          v = v[i := (v ! i XOR ((prev XOR drop_bit 30 prev) * 1664525)) + init_key ! j + of_nat j];
          (i, v) = mt_wrap (i + 1) v;
          j = (if j + 1 \<ge> key_length then 0 else j + 1)
      in key_pass init_key key_length k i j v)"

fun mix_pass :: "nat \<Rightarrow> nat \<Rightarrow> u32 list \<Rightarrow> u32 list" where
  "mix_pass 0 i v = v"
| "mix_pass (Suc k) i v =
     (let prev = v ! (i - 1);
          v = v[i := (v ! i XOR ((prev XOR drop_bit 30 prev) * 1566083941)) - of_nat i];
          (i, v) = mt_wrap (i + 1) v
      in mix_pass k i v)"

definition init_by_array_MT :: "u32 list \<Rightarrow> nat \<Rightarrow> mt_state \<Rightarrow> mt_state" where
  "init_by_array_MT init_key key_length st =
     (let st = init_MT 19650218 st;
          (i, v) = key_pass init_key key_length (if MT_N > key_length then MT_N else key_length) 1 0 (mt st);
          v = mix_pass (MT_N - 1) i v
      in st\<lparr>mt := v[0 := MT_UPPER_MASK]\<rparr>)"

definition mag01 :: "u32 \<Rightarrow> u32" where
  "mag01 y = [0, MT_MATRIX_A] ! unat (y AND 1)"

text \<open>One assignment of the regeneration: \<open>next\<close> and \<open>far\<close> are the indices it reads.\<close>

definition twist_at :: "nat \<Rightarrow> nat \<Rightarrow> nat \<Rightarrow> u32 list \<Rightarrow> u32 list" where
  "twist_at kk succ far v =
     (let y = (v ! kk AND MT_UPPER_MASK) OR (v ! succ AND MT_LOWER_MASK)
      in v[kk := v ! far XOR drop_bit 1 y XOR mag01 y])"

definition regenerate :: "u32 list \<Rightarrow> u32 list" where
  "regenerate v =
     (let v = fold (\<lambda>kk. twist_at kk (kk + 1) (kk + MT_M)) [0..<MT_N - MT_M] v;
          v = fold (\<lambda>kk. twist_at kk (kk + 1) (kk + MT_M - MT_N)) [MT_N - MT_M..<MT_N - 1] v
      in twist_at (MT_N - 1) 0 (MT_M - 1) v)"

definition temper :: "u32 \<Rightarrow> u32" where
  "temper y =
     (let y = y XOR drop_bit 11 y;
          y = y XOR (push_bit 7 y AND 0x9d2c5680);
          y = y XOR (push_bit 15 y AND 0xefc60000)
      in y XOR drop_bit 18 y)"

definition rand_int32_MT :: "mt_state \<Rightarrow> mt_state \<times> u32" where
  "rand_int32_MT st =
     (let st = (if mti st \<ge> MT_N
                then let st = (if mti st = MT_N + 1 then init_MT 5489 st else st)
                     in st\<lparr>mt := regenerate (mt st), mti := 0\<rparr>
                else st)
      in (st\<lparr>mti := mti st + 1\<rparr>, temper (mt st ! mti st)))"

definition rand_int31_MT :: "mt_state \<Rightarrow> mt_state \<times> u32" where
  "rand_int31_MT st = (let (st, y) = rand_int32_MT st in (st, drop_bit 1 y))"

text \<open>The outputs of \<open>n\<close> successive calls.\<close>

fun draws :: "nat \<Rightarrow> mt_state \<Rightarrow> u32 list" where
  "draws 0 st = []"
| "draws (Suc n) st = (let (st, y) = rand_int32_MT st in y # draws n st)"

section \<open>The recurrence\<close>

text \<open>
  \<open>x (k + n) = x (k + m) + (upper (x k) | lower (x (k + 1))) A\<close> over a seed vector: the multiplication
  by the twist matrix is a shift and a conditional exclusive or.
\<close>

definition twist_matrix :: "u32 \<Rightarrow> u32" where
  "twist_matrix y = (if odd y then drop_bit 1 y XOR MT_MATRIX_A else drop_bit 1 y)"

fun mt_x :: "u32 list \<Rightarrow> nat \<Rightarrow> u32" where
  "mt_x v k =
     (if k < MT_N then v ! k
      else mt_x v (k - MT_N + MT_M)
        XOR twist_matrix ((mt_x v (k - MT_N) AND MT_UPPER_MASK) OR (mt_x v (k - MT_N + 1) AND MT_LOWER_MASK)))"

declare mt_x.simps [simp del]

primrec mt_seed :: "u32 \<Rightarrow> nat \<Rightarrow> u32" where
  "mt_seed s 0 = s"
| "mt_seed s (Suc i) = 1812433253 * (mt_seed s i XOR drop_bit 30 (mt_seed s i)) + of_nat (Suc i)"

definition seed_vector :: "u32 \<Rightarrow> u32 list" where
  "seed_vector s = map (mt_seed s) [0..<MT_N]"

section \<open>Seeding\<close>

lemma init_MT_loop_spec:
  "length (mt st) = MT_N \<Longrightarrow> 1 \<le> mti st \<Longrightarrow> mti st \<le> MT_N \<Longrightarrow> (\<forall>i < mti st. mt st ! i = mt_seed s i) \<Longrightarrow>
   init_MT_loop st = \<lparr>mt = seed_vector s, mti = MT_N\<rparr>"
proof (induction st rule: init_MT_loop.induct)
  case (1 st)
  show ?case
  proof (cases "mti st < MT_N")
    case True
    then obtain p where p: "mti st = Suc p" using "1.prems"(2) by (cases "mti st") auto
    have prev: "mt st ! (mti st - 1) = mt_seed s p" using p "1.prems"(4) by simp
    have "init_MT_loop (st\<lparr>mt := (mt st)[mti st := mt_seed s (mti st)], mti := mti st + 1\<rparr>)
        = \<lparr>mt = seed_vector s, mti = MT_N\<rparr>"
      using "1.IH"[OF True refl] "1.prems" True p unfolding prev
      by (auto simp: nth_list_update less_Suc_eq)
    then show ?thesis using True p prev by (subst init_MT_loop.simps) (simp add: Let_def)
  next
    case False
    then have "mti st = MT_N" using "1.prems"(3) by simp
    moreover have "mt st = seed_vector s"
      using "1.prems" calculation by (intro nth_equalityI) (auto simp: seed_vector_def)
    ultimately show ?thesis by (subst init_MT_loop.simps) simp
  qed
qed

lemma init_MT_spec: "length (mt st) = MT_N \<Longrightarrow> init_MT s st = \<lparr>mt = seed_vector s, mti = MT_N\<rparr>"
  unfolding init_MT_def by (rule init_MT_loop_spec) auto

lemma length_seed_vector [simp]: "length (seed_vector s) = MT_N"
  by (simp add: seed_vector_def)

lemma mt_wrap_spec: "length v = MT_N \<Longrightarrow> 1 \<le> i \<Longrightarrow> i \<le> MT_N \<Longrightarrow> mt_wrap i v = (i', v') \<Longrightarrow>
  length v' = MT_N \<and> 1 \<le> i' \<and> i' < MT_N"
  by (auto simp: mt_wrap_def split: if_splits)

lemma key_pass_spec:
  "length v = MT_N \<Longrightarrow> 1 \<le> i \<Longrightarrow> i < MT_N \<Longrightarrow> key_pass ks kl k i j v = (i', v') \<Longrightarrow>
   length v' = MT_N \<and> 1 \<le> i' \<and> i' < MT_N"
proof (induction k arbitrary: i j v)
  case (Suc k)
  define u where "u = v[i := (v ! i XOR ((v ! (i - 1) XOR drop_bit 30 (v ! (i - 1))) * 1664525)) + ks ! j + of_nat j]"
  obtain i2 v2 where w: "mt_wrap (i + 1) u = (i2, v2)" by fastforce
  have "length u = MT_N" using Suc.prems(1) by (simp add: u_def)
  then have "length v2 = MT_N \<and> 1 \<le> i2 \<and> i2 < MT_N"
    using mt_wrap_spec[OF _ _ _ w] Suc.prems(3) by simp
  moreover have "key_pass ks kl k i2 (if j + 1 \<ge> kl then 0 else j + 1) v2 = (i', v')"
    using Suc.prems(4) w by (simp add: Let_def u_def)
  ultimately show ?case using Suc.IH[of v2 i2] by blast
qed auto

lemma mix_pass_spec:
  "length v = MT_N \<Longrightarrow> 1 \<le> i \<Longrightarrow> i < MT_N \<Longrightarrow> length (mix_pass k i v) = MT_N"
proof (induction k arbitrary: i v)
  case (Suc k)
  define u where "u = v[i := (v ! i XOR ((v ! (i - 1) XOR drop_bit 30 (v ! (i - 1))) * 1566083941)) - of_nat i]"
  obtain i2 v2 where w: "mt_wrap (i + 1) u = (i2, v2)" by fastforce
  have "length u = MT_N" using Suc.prems(1) by (simp add: u_def)
  then have "length v2 = MT_N \<and> 1 \<le> i2 \<and> i2 < MT_N"
    using mt_wrap_spec[OF _ _ _ w] Suc.prems(3) by simp
  moreover have "mix_pass (Suc k) i v = mix_pass k i2 v2" using w by (simp add: Let_def u_def)
  ultimately show ?case using Suc.IH[of v2 i2] by simp
qed simp

lemma init_by_array_MT_spec:
  assumes "length (mt st) = MT_N"
  shows "length (mt (init_by_array_MT ks kl st)) = MT_N" "mti (init_by_array_MT ks kl st) = MT_N"
    "mt (init_by_array_MT ks kl st) ! 0 = MT_UPPER_MASK"
proof -
  obtain i v where kp: "key_pass ks kl (if MT_N > kl then MT_N else kl) 1 0 (seed_vector 19650218) = (i, v)"
    by fastforce
  have "length v = MT_N \<and> 1 \<le> i \<and> i < MT_N" using key_pass_spec[OF _ _ _ kp] by simp
  then have "length (mix_pass (MT_N - 1) i v) = MT_N" by (intro mix_pass_spec) auto
  moreover have "init_by_array_MT ks kl st = \<lparr>mt = (mix_pass (MT_N - 1) i v)[0 := MT_UPPER_MASK], mti = MT_N\<rparr>"
    using kp by (simp add: init_by_array_MT_def init_MT_spec[OF assms])
  ultimately show "length (mt (init_by_array_MT ks kl st)) = MT_N" "mti (init_by_array_MT ks kl st) = MT_N"
    "mt (init_by_array_MT ks kl st) ! 0 = MT_UPPER_MASK" by simp_all
qed

section \<open>Regeneration in place\<close>

text \<open>
  The vector holds a window of the sequence; \<open>half b kk\<close> is the window after the first \<open>kk\<close> words of the
  next one have replaced theirs.
\<close>

definition half :: "(nat \<Rightarrow> u32) \<Rightarrow> nat \<Rightarrow> nat \<Rightarrow> u32 list" where
  "half x b kk = map (\<lambda>i. if i < kk then x (b + MT_N + i) else x (b + i)) [0..<MT_N]"

lemma mag01_odd: "mag01 y = (if odd y then MT_MATRIX_A else 0)"
  by (simp add: mag01_def and_one_eq odd_iff_mod_2_eq_one)

lemma twist_word: "drop_bit 1 y XOR mag01 y = twist_matrix y"
  by (simp add: mag01_odd twist_matrix_def)

lemma mt_x_step:
  "mt_x v (b + MT_N) = mt_x v (b + MT_M) XOR twist_matrix ((mt_x v b AND MT_UPPER_MASK) OR (mt_x v (b + 1) AND MT_LOWER_MASK))"
  by (subst mt_x.simps) simp

lemma length_half [simp]: "length (half x b kk) = MT_N"
  by (simp add: half_def)

lemma nth_half: "i < MT_N \<Longrightarrow> half x b kk ! i = (if i < kk then x (b + MT_N + i) else x (b + i))"
  by (simp add: half_def)

lemma half_update: "kk < MT_N \<Longrightarrow> (half x b kk)[kk := x (b + MT_N + kk)] = half x b (Suc kk)"
  by (rule nth_equalityI) (auto simp: nth_half nth_list_update less_Suc_eq)

lemma twist_at_half:
  assumes kk: "kk < MT_N" and rd: "half (mt_x v) b kk ! next = mt_x v (b + kk + 1)" "half (mt_x v) b kk ! far = mt_x v (b + kk + MT_M)"
  shows "twist_at kk next far (half (mt_x v) b kk) = half (mt_x v) b (Suc kk)"
proof -
  have cur: "half (mt_x v) b kk ! kk = mt_x v (b + kk)" using kk by (simp add: nth_half)
  have "mt_x v (b + MT_N + kk) = mt_x v (b + kk + MT_M) XOR
      twist_matrix ((mt_x v (b + kk) AND MT_UPPER_MASK) OR (mt_x v (b + kk + 1) AND MT_LOWER_MASK))"
    using mt_x_step[of v "b + kk"] by (simp only: ac_simps)
  then show ?thesis
    using half_update[OF kk, of "mt_x v" b] unfolding twist_at_def Let_def cur rd xor.assoc twist_word by simp
qed

lemma fold_twist:
  assumes "\<And>kk. lo \<le> kk \<Longrightarrow> kk < hi \<Longrightarrow> f kk (half x b kk) = half x b (Suc kk)" "lo \<le> hi"
  shows "fold f [lo..<hi] (half x b lo) = half x b hi"
  using assms(2,1) by (induction hi rule: dec_induct) simp_all

lemma regenerate_half: "regenerate (half (mt_x v) b 0) = half (mt_x v) (b + MT_N) 0"
proof -
  have first: "fold (\<lambda>kk. twist_at kk (kk + 1) (kk + MT_M)) [0..<MT_N - MT_M] (half (mt_x v) b 0)
      = half (mt_x v) b (MT_N - MT_M)"
    by (rule fold_twist) (auto intro!: twist_at_half simp: nth_half add.assoc)
  have second: "fold (\<lambda>kk. twist_at kk (kk + 1) (kk + MT_M - MT_N)) [MT_N - MT_M..<MT_N - 1] (half (mt_x v) b (MT_N - MT_M))
      = half (mt_x v) b (MT_N - 1)"
  proof (rule fold_twist)
    fix kk assume kk: "MT_N - MT_M \<le> kk" "kk < MT_N - 1"
    have "b + MT_N + (kk + MT_M - MT_N) = b + kk + MT_M" using kk by simp
    then show "twist_at kk (kk + 1) (kk + MT_M - MT_N) (half (mt_x v) b kk) = half (mt_x v) b (Suc kk)"
      using kk by (intro twist_at_half) (simp_all add: nth_half add.commute)
  qed simp
  have "twist_at (MT_N - 1) 0 (MT_M - 1) (half (mt_x v) b (MT_N - 1)) = half (mt_x v) b (Suc (MT_N - 1))"
    by (rule twist_at_half) (simp_all add: nth_half add.commute)
  also have "\<dots> = half (mt_x v) (b + MT_N) 0"
    by (rule nth_equalityI) (simp_all add: nth_half)
  finally show ?thesis unfolding regenerate_def Let_def first second .
qed

section \<open>Drawing\<close>

text \<open>\<open>mt_rep v k st\<close>: the next word to be drawn is the \<open>k\<close>-th of the sequence of \<open>v\<close>.\<close>

definition mt_rep :: "u32 list \<Rightarrow> nat \<Rightarrow> mt_state \<Rightarrow> bool" where
  "mt_rep v k st \<longleftrightarrow> mti st \<le> MT_N \<and> mti st \<le> k \<and> mt st = half (mt_x v) (k - mti st) 0"

lemma mt_rep_seeded: "length v = MT_N \<Longrightarrow> mt_rep v MT_N \<lparr>mt = v, mti = MT_N\<rparr>"
  unfolding mt_rep_def by (auto intro!: nth_equalityI simp: nth_half mt_x.simps)

lemma mt_rep_draw:
  assumes "mt_rep v k st"
  shows "\<exists>st'. rand_int32_MT st = (st', temper (mt_x v k)) \<and> mt_rep v (k + 1) st'"
proof -
  define b where "b = k - mti st"
  have i: "mti st \<le> MT_N" and k: "k = b + mti st" and m: "mt st = half (mt_x v) b 0"
    using assms by (auto simp: mt_rep_def b_def)
  show ?thesis
  proof (cases "mti st < MT_N")
    case True
    then have "rand_int32_MT st = (st\<lparr>mti := mti st + 1\<rparr>, temper (mt_x v k))"
      using m k by (simp add: rand_int32_MT_def nth_half)
    moreover have "mt_rep v (k + 1) (st\<lparr>mti := mti st + 1\<rparr>)" using True m k by (simp add: mt_rep_def)
    ultimately show ?thesis by blast
  next
    case False
    then have 624: "mti st = MT_N" using i by simp
    let ?st' = "st\<lparr>mt := half (mt_x v) (b + MT_N) 0, mti := 1\<rparr>"
    have "rand_int32_MT st = (?st', temper (mt_x v k))"
      using 624 k m regenerate_half[of v b] by (simp add: rand_int32_MT_def nth_half)
    moreover have "mt_rep v (k + 1) ?st'" using 624 k by (simp add: mt_rep_def add.commute)
    ultimately show ?thesis by blast
  qed
qed

lemma mt_rep_draws: "mt_rep v k st \<Longrightarrow> draws n st = map (\<lambda>i. temper (mt_x v (k + i))) [0..<n]"
proof (induction n arbitrary: k st)
  case (Suc n)
  obtain st' where d: "rand_int32_MT st = (st', temper (mt_x v k))" and r: "mt_rep v (k + 1) st'"
    using mt_rep_draw[OF Suc.prems] by blast
  show ?case using Suc.IH[OF r] d unfolding upt_rec[of 0 "Suc n"] map_Suc_upt[symmetric] by simp
qed simp

text \<open>A first call on the start-up state seeds with 5489.\<close>

lemma draws_unseeded:
  assumes "mti st = MT_N + 1" "length (mt st) = MT_N"
  shows "draws n st = draws n (init_MT 5489 st)"
proof (cases n)
  case (Suc m)
  have "rand_int32_MT st = rand_int32_MT (init_MT 5489 st)"
    using assms by (simp add: rand_int32_MT_def init_MT_spec)
  then show ?thesis by (simp add: Suc)
qed simp

section \<open>Tempering loses nothing\<close>

lemma inj_xor_shift_right: "0 < n \<Longrightarrow> inj (\<lambda>y :: u32. y XOR drop_bit n y)"
proof (rule injI)
  fix y z :: u32 assume n: "0 < n" and eq: "y XOR drop_bit n y = z XOR drop_bit n z"
  have "bit y i = bit z i" if "i < 32" for i using that
  proof (induction "32 - i" arbitrary: i rule: less_induct)
    case less
    have "bit (y XOR drop_bit n y) i = bit (z XOR drop_bit n z) i" using eq by simp
    moreover have "bit y (n + i) = bit z (n + i)"
      using less n by (cases "n + i < 32") (auto dest: bit_imp_le_length)
    ultimately show ?case by (auto simp: bit_simps)
  qed
  then show "y = z" by (intro bit_word_eqI) simp
qed

lemma inj_xor_shift_left: "0 < n \<Longrightarrow> inj (\<lambda>y :: u32. y XOR (push_bit n y AND m))"
proof (rule injI)
  fix y z :: u32 assume n: "0 < n" and eq: "y XOR (push_bit n y AND m) = z XOR (push_bit n z AND m)"
  have "bit y i = bit z i" if "i < 32" for i using that
  proof (induction i rule: less_induct)
    case (less i)
    have b: "bit (y XOR (push_bit n y AND m)) i = bit (z XOR (push_bit n z AND m)) i" using eq by simp
    have "n \<le> i \<Longrightarrow> bit y (i - n) = bit z (i - n)" using less n by simp
    then show ?case using b less.prems by (auto simp: bit_simps)
  qed
  then show "y = z" by (intro bit_word_eqI) simp
qed

lemma inj_temper: "inj temper"
proof -
  have eq: "temper = (\<lambda>y. y XOR drop_bit 18 y) \<circ> (\<lambda>y. y XOR (push_bit 15 y AND 0xefc60000))
      \<circ> (\<lambda>y. y XOR (push_bit 7 y AND 0x9d2c5680)) \<circ> (\<lambda>y. y XOR drop_bit 11 y)"
    by (rule ext) (simp add: temper_def Let_def)
  show ?thesis unfolding eq by (intro inj_compose inj_xor_shift_right inj_xor_shift_left) simp_all
qed

lemma mt_x_future:
  assumes win: "\<And>i. i < MT_N \<Longrightarrow> mt_x v (MT_N + i) = mt_x v' (MT_N + i)"
  shows "mt_x v (MT_N + k) = mt_x v' (MT_N + k)"
proof (induction k rule: less_induct)
  case (less k)
  show ?case
  proof (cases "k < MT_N")
    case False
    define j where "j = k - MT_N"
    have k: "MT_N + k = (MT_N + j) + MT_N" and j: "j < k" "j + 1 < k" "j + MT_M < k" using False by (simp_all add: j_def)
    have "mt_x v (MT_N + j + 1) = mt_x v' (MT_N + j + 1)" "mt_x v (MT_N + j + MT_M) = mt_x v' (MT_N + j + MT_M)"
      using less[OF j(2)] less[OF j(3)] by (simp_all only: add.assoc)
    then show ?thesis unfolding k mt_x_step using less[OF j(1)] by simp
  qed (rule win)
qed

lemma mt_x_low_bits:
  assumes "v' = v[0 := w]" "0 < length v" "w AND MT_UPPER_MASK = v ! 0 AND MT_UPPER_MASK"
  shows "mt_x v (Suc k) = mt_x v' (Suc k)"
proof (induction k rule: less_induct)
  case (less k)
  show ?case
  proof (cases "Suc k < MT_N")
    case True
    then show ?thesis using assms(1) by (simp add: mt_x.simps)
  next
    case False
    define j where "j = Suc k - MT_N"
    have k: "Suc k = j + MT_N" using False by (simp add: j_def)
    have pos: "mt_x v i = mt_x v' i" if "0 < i" "i < Suc k" for i
      using less[of "i - 1"] that by simp
    have "mt_x v j AND MT_UPPER_MASK = mt_x v' j AND MT_UPPER_MASK"
    proof (cases "j = 0")
      case True
      then show ?thesis using assms by (simp add: mt_x.simps)
    next
      case False
      then show ?thesis using pos[of j] k by simp
    qed
    moreover have "mt_x v (j + 1) = mt_x v' (j + 1)" "mt_x v (j + MT_M) = mt_x v' (j + MT_M)"
      using k by (auto intro!: pos)
    ultimately show ?thesis unfolding k mt_x_step by simp
  qed
qed

section \<open>Properties\<close>

text \<open>C36: After seeding with \<open>init_MT s\<close>, successive calls of \<open>rand_int32_MT\<close> return the tempered words of the
  MT19937 recurrence over the seed vector of \<open>s\<close>, across every regeneration of the state in place.\<close>

theorem mt_draws_follow_recurrence:
  assumes "length (mt st) = MT_N"
  shows "draws n (init_MT s st) = map (\<lambda>i. temper (mt_x (seed_vector s) (MT_N + i))) [0..<n]"
  unfolding init_MT_spec[OF assms] by (rule mt_rep_draws[OF mt_rep_seeded]) simp

text \<open>The start-up state reseeded with 1.\<close>

theorem mt_draws_follow_recurrence_witness:
  "draws 1300 (init_MT 1 mt_start) = map (\<lambda>i. temper (mt_x (seed_vector 1) (624 + i))) [0..<1300]"
  by (rule mt_draws_follow_recurrence) (simp add: mt_start_def)

text \<open>Seeding from an array always leaves a vector of 624 words whose first word is \<open>0x80000000\<close>, so
  the generator never starts from the all-zero state, and the outputs that follow are the recurrence over
  that vector; a generator that was never seeded behaves as one seeded with 5489.\<close>

theorem mt_array_seed_and_default:
  assumes "length (mt st) = MT_N"
  shows "mt (init_by_array_MT ks kl st) ! 0 = MT_UPPER_MASK \<and>
     draws n (init_by_array_MT ks kl st) = map (\<lambda>i. temper (mt_x (mt (init_by_array_MT ks kl st)) (MT_N + i))) [0..<n] \<and>
     (mti st = MT_N + 1 \<longrightarrow> draws n st = map (\<lambda>i. temper (mt_x (seed_vector 5489) (MT_N + i))) [0..<n])"
proof (intro conjI impI)
  note s = init_by_array_MT_spec[OF assms, of ks kl]
  show "mt (init_by_array_MT ks kl st) ! 0 = MT_UPPER_MASK" by (rule s(3))
  have eq: "init_by_array_MT ks kl st = \<lparr>mt = mt (init_by_array_MT ks kl st), mti = MT_N\<rparr>" using s(2) by simp
  show "draws n (init_by_array_MT ks kl st) = map (\<lambda>i. temper (mt_x (mt (init_by_array_MT ks kl st)) (MT_N + i))) [0..<n]"
    by (subst eq, rule mt_rep_draws[OF mt_rep_seeded[OF s(1)]])
  assume "mti st = MT_N + 1"
  then show "draws n st = map (\<lambda>i. temper (mt_x (seed_vector 5489) (MT_N + i))) [0..<n]"
    using assms by (simp only: draws_unseeded init_MT_spec mt_rep_draws[OF mt_rep_seeded] length_seed_vector)
qed

theorem mt_array_seed_and_default_witness:
  "mt (init_by_array_MT [0x123, 0x234, 0x345, 0x456] 4 mt_start) ! 0 = 0x80000000 \<and>
   draws 700 mt_start = map (\<lambda>i. temper (mt_x (seed_vector 5489) (624 + i))) [0..<700]"
  using mt_array_seed_and_default[of mt_start "[0x123, 0x234, 0x345, 0x456]" 4 700] by (simp add: mt_start_def)

text \<open>Tempering is injective and regeneration deterministic: two seeded generators whose next 624 outputs
  agree agree on every output after them, however their vectors differ.\<close>

theorem mt_outputs_determine_future:
  assumes "length v = MT_N" "length v' = MT_N"
    and same: "draws MT_N \<lparr>mt = v, mti = MT_N\<rparr> = draws MT_N \<lparr>mt = v', mti = MT_N\<rparr>"
  shows "draws n \<lparr>mt = v, mti = MT_N\<rparr> = draws n \<lparr>mt = v', mti = MT_N\<rparr>"
proof -
  note d = mt_rep_draws[OF mt_rep_seeded[OF assms(1)]] mt_rep_draws[OF mt_rep_seeded[OF assms(2)]]
  have "mt_x v (MT_N + i) = mt_x v' (MT_N + i)" if "i < MT_N" for i
    using same that unfolding d map_eq_conv by (auto dest: injD[OF inj_temper])
  then have "mt_x v (MT_N + k) = mt_x v' (MT_N + k)" for k by (rule mt_x_future)
  then show ?thesis unfolding d by simp
qed

text \<open>The low 31 bits of the first word are dead state: vectors that differ there draw the same numbers.\<close>

theorem mt_outputs_determine_future_witness:
  "draws 5000 \<lparr>mt = 0x80000000 # replicate 623 1, mti = 624\<rparr> = draws 5000 \<lparr>mt = 0x80001234 # replicate 623 1, mti = 624\<rparr>"
proof (rule mt_outputs_determine_future)
  let ?v = "0x80000000 # replicate 623 1 :: u32 list" and ?v' = "0x80001234 # replicate 623 1 :: u32 list"
  show l: "length ?v = 624" "length ?v' = 624" by simp_all
  have "mt_x ?v (Suc (623 + i)) = mt_x ?v' (Suc (623 + i))" for i
    by (rule mt_x_low_bits[of _ _ "0x80001234"]) simp_all
  then have "mt_x ?v (624 + i) = mt_x ?v' (624 + i)" for i by simp
  then show "draws 624 \<lparr>mt = ?v, mti = 624\<rparr> = draws 624 \<lparr>mt = ?v', mti = 624\<rparr>"
    using mt_rep_draws[OF mt_rep_seeded[OF l(1)]] mt_rep_draws[OF mt_rep_seeded[OF l(2)]] by simp
qed

end
