(* ===== verification/Spec2Isabelle.thy ===== *)
theory Spec2Isabelle
  imports Sheap_Props Sheap_Keyed_Props Sync_Props Sync_Lfqueue_Props Sync2_Props Sync2_Waiting_Props Sync2_Queue_Props Sync2_Cond_Props Spurs_Event_Flag_Props Spurs_Barrier Spurs_Queue_Props Spurs_Exit_Code Spurs_Ls_Pattern Librt_Heap_Props Rsx_Mm Sfo_Props Sha1 Mt19937
begin

text \<open>
  A verification library for PS3DK, a PlayStation 3 development kit: the runtime and SDK libraries that
  programs link against, and the host tools that package them.  The library models the parts that
  carry algorithms of their own and proves what makes them correct.

  \<^bold>\<open>How the parts interact.\<close>  Objects shared by processors are 128-byte lines of main memory.  An SPU
  changes one by a loop: load and reserve the line, decide, store conditionally, start over if the
  reservation was lost.  \<open>Llsc\<close> models such a loop by its decision, a function of the line, and proves on a
  reservation machine that a successful store is one atomic read-modify-write; every concurrent theorem
  below is about an interleaving of such steps.

  \<^bold>\<open>Theories and sources.\<close>
  \<^item> \<open>Prelude\<close>: machine integers read as numbers, masks and alignment, ceilings and logarithms; shared by all.  \<open>Counting\<close>: how many
    threads are in a state of some kind, and how that changes when one moves.
  \<^item> \<open>sdk/libsheap\<close>, a buddy heap shared by SPUs.  \<open>Sheap_Core\<close> and \<open>Sheap_Key\<close> are \<open>core/heap.c\<close>; \<open>Sheap_Tree\<close>,
    \<open>Sheap_Tree_Inv\<close>, \<open>Sheap_Tree_Alloc\<close> are \<open>core/tree.c\<close> over an abstract accessor, as the code passes one;
    \<open>Sheap_Cache\<close> is \<open>spu/linecache.c\<close>; \<open>Sheap_Heap\<close> joins geometry and tree; \<open>Sheap_Ops\<close> is
    \<open>spu/lockline.c\<close>, \<open>spu/keytable.c\<close> and \<open>spu/sheap.c\<close>; \<open>Sheap_Keyed\<close> is \<open>spu/key_objects.c\<close>, which
    allocates from the heap and initialises objects of libsync.  Properties: \<open>Sheap_Props\<close>, \<open>Sheap_Keyed_Props\<close>.
  \<^item> \<open>sdk/libsync\<close>: \<open>Sync_Base\<close> (errors, guards, DMA), \<open>Sync_Mutex\<close>, \<open>Sync_Barrier\<close>, \<open>Sync_Rwm\<close>, \<open>Sync_Queue\<close>, and
    for \<open>lfqueue.c\<close> \<open>Sync_Lfqueue\<close> (operations), \<open>Sync_Lfqueue_Pack\<close> (registered waiters) and \<open>Sync_Lfqueue_Ring\<close>
    (the ring protocol of callers that wait or do not).  \<open>Bounded_Fifo\<close> states a bounded first-in first-out queue as a locale; both queues
    interpret it.  Properties: \<open>Sync_Props\<close>, \<open>Sync_Lfqueue_Props\<close>.
  \<^item> \<open>sdk/libsync2\<close>, blocking objects with a waiting queue: \<open>Sync2_Base\<close> (checks), \<open>Sync2_Mutex\<close>,
    \<open>Sync2_Semaphore\<close>.  Threads sharing an object are a step relation whose states record what each thread is about
    to do; the invariants relate the counts on the line to the threads.  Properties: \<open>Sync2_Props\<close>.  \<open>Sync2_Waiting\<close>
    is \<open>waiting_queue.c\<close>, whose enter and wake-up run one loop on different fields, access by access;
    \<open>Sync2_Waiting_Pos\<close> reads its laps and phases as positions, \<open>Sync2_Waiting_Inv\<close> is the invariant of its threads.
    Properties: \<open>Sync2_Waiting_Props\<close>.  \<open>Sync2_Queue\<close> is \<open>queue.c\<close>, a linked list of entries with a dummy head
    and a bitmap, again access by access, with a step for each call whose failure halts the processor; \<open>Sync2_Queue_Inv\<close> relates the list to the history, the counts to the
    threads, and what a thread has read to the reservations it holds.  Properties: \<open>Sync2_Queue_Props\<close>.
    \<open>Sync2_Cond\<close> is \<open>cond.c\<close>: its steps include those of the mutex the condition is used with, each thread making
    the ones its place in a wait allows; \<open>Sync2_Cond_Inv\<close> extends the invariant of the mutex.  Properties:
    \<open>Sync2_Cond_Props\<close>.
  \<^item> \<open>sdk/libspurs_task\<close>, objects that SPURS tasks share and block on: \<open>Spurs_Base\<close> (error codes, identity and signal of
    a task), \<open>Spurs_Event_Flag\<close> and \<open>Spurs_Event_Flag_Inv\<close> for \<open>spurs_event_flag.c\<close>, \<open>Spurs_Barrier\<close> for
    \<open>spurs_barrier.c\<close>, \<open>Spurs_Queue\<close> and \<open>Spurs_Queue_Inv\<close> for \<open>spurs_queue.c\<close>.  The tasks are a step relation over the
    decisions; the invariants account for the one signal each task has.  Properties: \<open>Spurs_Event_Flag_Props\<close>,
    \<open>Spurs_Barrier\<close>, \<open>Spurs_Queue_Props\<close>.  \<open>Spurs_Exit_Code\<close> is \<open>spurs_exit_code.c\<close> and
    \<open>Spurs_Ls_Pattern\<close> is \<open>spurs_ls_pattern.c\<close>, the sets of local-storage blocks of a task, each with its properties.
  \<^item> \<open>runtime/lv2/librt\<close>: the boundary-tag allocator \<open>heap.c\<close>, \<open>heap.inl\<close>.  \<open>Librt_Heap\<close> is the code on a memory of
    block headers; \<open>Librt_Heap_Ring\<close> the free list, \<open>Librt_Heap_Inv\<close> the invariant that reads the memory as a
    list of blocks, \<open>Librt_Heap_Ops\<close>, \<open>Librt_Heap_Alloc\<close> and \<open>Librt_Heap_Free\<close> its preservation, \<open>Librt_Heap_Run\<close>
    sequences of operations with client writes.  Properties: \<open>Librt_Heap_Props\<close>.
  \<^item> \<open>sdk/librsx/src/mm.c\<close>: \<open>Rsx_Mm\<close>, over the locale \<open>block_heap\<close> of what it expects of an allocator, interpreted
    on the librt heap.
  \<^item> \<open>sdk/libmt19937\<close>: \<open>Mt19937\<close>.  \<open>tools/sfo-pkg\<close>: \<open>Sha1\<close> (\<open>sha1.c\<close>), \<open>Sfo\<close> and \<open>Sfo_Xml\<close> (\<open>sfo.c\<close>), \<open>Sfo_Props\<close>.

  \<^bold>\<open>What the lemma groups show.\<close>  For the buddy heap: the node-state tree stays well-formed, allocation is a
  first-fit search and hands out fresh aligned bytes, release frees exactly one block, the queries count
  the free bytes, and all of it holds through the line cache and in main memory.  For the synchronisation
  objects: mutual exclusion, fairness, agreement of readers with the last writer, refinement of a bounded
  queue, under any interleaving and with byte-wise transfers.  For the librt heap: no run of operations
  hands out overlapping areas, refused operations change nothing, and freeing everything restores the
  heap.  For the libsync2 queue also progress: a thread on its own comes to the end of its call, to a sleep or to a wake-up, wherever it
  stands.  For the keyed objects: the count of references over any sequence of New and Delete.  For the tools: equality with the published algorithms (FIPS 180-4, MT19937), and round trips
  between the file formats.

  \<^bold>\<open>Errors.\<close>  An error code of the source is a constructor of an error datatype, a fallible operation returns
  a sum, and \<open>None\<close> or \<open>Spinning\<close> stands for a loop that waits for another processor.  A halt of the processor is a state of the
  thread.  Reads of a file's buffer are checked, in the parser of \<open>sfo.c\<close> and in that of the program headers, and one
  that leaves the buffer is an outcome of its own, so that a theorem can say when it happens.

  \<^bold>\<open>Bounds.\<close>  Integers keep their width and wrap as in C.  Where a theorem needs one, a bound is a hypothesis:
  at most 65536 processors on a ticket mutex, an index below \<open>2 ^ 24\<close> on the bounded queue (the theorem
  \<open>queue_index_wrap_loses_element\<close> shows why), a depth up to 16384 on the lock-free queue (see
  \<open>lfqueue_deep_pointer_negative\<close>), buffers that end below \<open>2 ^ 64\<close>, alignments of at least 8 in the librt heap
  (see \<open>heap_byte_alignment_corrupts\<close>); below 32768 threads on a waiting queue, with one-bit thread types, distinct
  receivers of 48 bits and a notifier for each type, and for acceptance fewer wake-ups in progress than
  entries (\<open>waiting_queue_refuses_wakeup\<close> says exactly when a wake-up is refused); below \<open>2 ^ 32\<close> references to a key; as many places on a mutex as threads for waits that never halt
  (see \<open>s2_cond_halts_when_mutex_full\<close>); SPURS tasks that their workload identifies and that the taskset of the object
  reaches, and for the SPURS queue and the exit-code container no signal of another origin (see
  \<open>spq_foreign_signal_underflows\<close>), entries of at least a byte, and one exit for each attached task; program headers whose table and segments end below \<open>2 ^ 32\<close> (see \<open>headers_walk_escapes\<close>).  No definition uses fuel: every loop that ends has a termination
  proof, and the others are given by their decisions.

  \<^bold>\<open>Not modelled.\<close>  The floating-point scalings of \<open>libmt19937\<close>; the debug listing and command line of \<open>sfo.c\<close>;
  the PPU halves of the shared objects, which are firmware modules outside this tree; the rest of SPURS
  (task start-up and context switch, job queues); DMA errors; a refusal by the waiting queue of a wake-up of the libsync2 mutex,
  semaphore or condition, whose step relations take each wake-up to release a queued thread (the queue's does not); the
  memory order of a machine weaker than the reservation machine.  The shader compiler
  (\<open>tools/rsx-cg-compiler\<close>), PSGL, the PPU compatibility wrappers and the \<open>librt\<close> system-call wrappers are listed
  in the manifest with the reason each is left out.
\<close>

end
